(* ===== verification/Prelude.thy ===== *)
theory Prelude
  imports Main "HOL-Library.Word"
begin

text \<open>
  Shared vocabulary of the development: names for the machine types of the C sources (32-bit
  MIPS, little endian), the collections of rewrite rules the component theories fill, and the
  facts on lists and words that more than one component needs.
\<close>

unbundle bit_operations_syntax

type_synonym u8 = "8 word"
type_synonym u16 = "16 word"
type_synonym u32 = "32 word"
type_synonym u64 = "64 word"
type_synonym bytes = "u8 list"

named_theorems wsimps \<open>facts that move word arithmetic to the naturals\<close>

section \<open>Words\<close>

lemma unat_ucast_u8_index [wsimps]: "unat (w AND 0xff :: 'a::len word) < 256"
proof -
  have "w AND 0xff = take_bit 8 w"
    by (simp add: take_bit_eq_mask mask_eq_exp_minus_1)
  then have "unat (w AND 0xff) = take_bit 8 (unat w)"
    by (simp add: unsigned_take_bit_eq)
  then show ?thesis
    using take_bit_nat_less_exp [of 8 "unat w"] by simp
qed

lemma and_xor_self_mask: "(w AND m) XOR (w AND NOT m) = (w :: 'a::len word)"
  by (rule bit_eqI) (auto simp: bit_simps)

lemma unat_less_2p: "unat (w :: 'a::len word) < 2 ^ LENGTH('a)"
  by (rule unsigned_less)

lemma unat_plus_less:
  assumes "unat a + n < 2 ^ LENGTH('a)"
  shows "unat (a + of_nat n :: 'a::len word) = unat a + n"
proof -
  from assms have n: "n < 2 ^ LENGTH('a)" by simp
  then have "unat (of_nat n :: 'a word) = n"
    by (simp add: unsigned_of_nat take_bit_nat_eq_self)
  with assms show ?thesis
    by (simp add: unat_word_ariths)
qed

lemma unat_Suc_less:
  assumes "a < b"
  shows "unat (a + 1 :: 'a::len word) = Suc (unat a)"
proof -
  have "Suc (unat a) \<le> unat b" using assms by (simp add: word_less_nat_alt)
  also have "unat b < 2 ^ LENGTH('a)" by (rule unsigned_less)
  finally show ?thesis using unat_plus_less [of a 1] by simp
qed

section \<open>Lists\<close>

lemma foldl_append_eq: "foldl f (foldl f s xs) ys = foldl f s (xs @ ys)"
  by simp

lemma concat_update_split:
  "i < length qs \<Longrightarrow> concat (qs[i := xs]) = concat (take i qs) @ xs @ concat (drop (Suc i) qs)"
  by (simp add: upd_conv_take_nth_drop)

lemma concat_nth_split:
  "i < length qs \<Longrightarrow> concat qs = concat (take i qs) @ qs ! i @ concat (drop (Suc i) qs)"
  by (metis concat.simps(2) concat_append id_take_nth_drop)

lemma distinct_replace_mid:
  "distinct (as @ bs @ cs) \<Longrightarrow> distinct xs \<Longrightarrow> set xs \<subseteq> set bs \<union> - set (as @ bs @ cs) \<Longrightarrow>
   distinct (as @ xs @ cs)"
  by auto

lemma distinct_concat_disjoint:
  assumes "distinct (concat qs)" and "i < length qs" and "j < length qs" and "i \<noteq> j"
  shows "set (qs ! i) \<inter> set (qs ! j) = {}"
proof -
  have "set (qs ! j) \<subseteq> set (concat (take i qs) @ concat (drop (Suc i) qs))"
  proof (cases "j < i")
    case True
    then have "qs ! j \<in> set (take i qs)" using assms by (auto simp: in_set_conv_nth intro!: exI [of _ j])
    then show ?thesis by auto
  next
    case False
    with assms(4) have "Suc i \<le> j" by simp
    then have "drop (Suc i) qs ! (j - Suc i) = qs ! j" "j - Suc i < length (drop (Suc i) qs)"
      using assms by simp_all
    then have "qs ! j \<in> set (drop (Suc i) qs)" by (metis nth_mem)
    then show ?thesis by auto
  qed
  moreover have "set (qs ! i) \<inter> set (concat (take i qs) @ concat (drop (Suc i) qs)) = {}"
    using assms(1) concat_nth_split [OF assms(2)] by auto
  ultimately show ?thesis by blast
qed

section \<open>Pointer chains\<close>

text \<open>
  A singly linked structure in memory: \<open>link\<close> gives the next pointer of an object, None is the
  null pointer.  \<open>linked link p xs r\<close>: following link from p visits the objects xs and then
  stands at r.
\<close>

fun linked :: "('p \<Rightarrow> 'p option) \<Rightarrow> 'p option \<Rightarrow> 'p list \<Rightarrow> 'p option \<Rightarrow> bool" where
  "linked link p [] r = (p = r)"
| "linked link p (x # xs) r = (p = Some x \<and> linked link (link x) xs r)"

lemma linked_append [simp]:
  "linked link p (xs @ ys) r = (\<exists>m. linked link p xs m \<and> linked link m ys r)"
  by (induction xs arbitrary: p) auto

lemma linked_frame [simp]: "a \<notin> set xs \<Longrightarrow> linked (link(a := b)) p xs r = linked link p xs r"
  by (induction xs arbitrary: p) auto

lemma linked_head: "linked link p xs None \<Longrightarrow> p = (if xs = [] then None else Some (hd xs))"
  by (cases xs) auto

lemma linked_snoc:
  "linked link p xs None \<Longrightarrow> xs \<noteq> [] \<Longrightarrow> distinct xs \<Longrightarrow> a \<notin> set xs \<Longrightarrow> link a = None \<Longrightarrow>
   linked (link(last xs := Some a)) p (xs @ [a]) None"
proof (induction xs arbitrary: p)
  case (Cons x xs)
  then show ?case by (cases xs) auto
qed simp

lemma linked_butlast:
  "linked link p xs None \<Longrightarrow> distinct xs \<Longrightarrow> length xs \<ge> 2 \<Longrightarrow>
   linked (link(last (butlast xs) := None)) p (butlast xs) None"
proof (induction xs arbitrary: p)
  case (Cons x xs)
  then show ?case
  proof (cases xs)
    case (Cons y ys)
    show ?thesis
    proof (cases "ys = []")
      case False
      with Cons Cons.prems Cons.IH [of "link x"] show ?thesis
        by (auto simp: Suc_le_eq in_set_butlastD dest: last_in_set)
    qed (use Cons Cons.prems in auto)
  qed auto
qed simp

end
