(* ===== verification/Linux_Timer.thy ===== *)
theory Linux_Timer
  imports Prelude
begin

text \<open>
  The POSIX timer layer of the user space library, src/broadcom/src/router/shared/linux_timer.c: all timers
  of a process share the one interval timer of the kernel.  Pending events hang in a singly linked
  queue in which \<open>it_value\<close> is the time after the predecessor (a delta queue), free ones in a
  freelist; both lists go through the same \<open>next\<close> field.  An event is an index of the array that
  \<open>init_event_queue\<close> allocates and the store gives its structure, so that the loops on
  \<open>ppevent\<close> are pointer walks as in the code.  \<open>itimer\<close> is the time the kernel's ITIMER_REAL
  has left (zero: off); a step of time is \<open>elapse\<close>.  Times are unbounded integers: tv_sec
  leaves its 32 bits only after 68 years of pending time.
\<close>

section \<open>Time values\<close>

record timeval =
  tv_sec :: int
  tv_usec :: int

record timespec =
  ts_sec :: int
  ts_nsec :: int

definition timespec_to_timeval :: "timespec \<Rightarrow> timeval" where
  "timespec_to_timeval ts = \<lparr>tv_sec = ts_sec ts, tv_usec = ts_nsec ts div 1000\<rparr>"

definition timeval_to_timespec :: "timeval \<Rightarrow> timespec" where
  "timeval_to_timespec tv = \<lparr>ts_sec = tv_sec tv, ts_nsec = tv_usec tv * 1000\<rparr>"

definition timerclear :: timeval where
  "timerclear = \<lparr>tv_sec = 0, tv_usec = 0\<rparr>"

definition timerisset :: "timeval \<Rightarrow> bool" where
  "timerisset t \<longleftrightarrow> tv_sec t \<noteq> 0 \<or> tv_usec t \<noteq> 0"

definition timerless :: "timeval \<Rightarrow> timeval \<Rightarrow> bool" where
  "timerless a b = (if tv_sec a = tv_sec b then tv_usec a < tv_usec b else tv_sec a < tv_sec b)"

definition timersub :: "timeval \<Rightarrow> timeval \<Rightarrow> timeval" where
  "timersub a b =
     (let s = tv_sec a - tv_sec b; u = tv_usec a - tv_usec b
      in if u < 0 then \<lparr>tv_sec = s - 1, tv_usec = u + 1000000\<rparr> else \<lparr>tv_sec = s, tv_usec = u\<rparr>)"

definition timeradd :: "timeval \<Rightarrow> timeval \<Rightarrow> timeval" where
  "timeradd a b =
     (let s = tv_sec a + tv_sec b; u = tv_usec a + tv_usec b
      in if u \<ge> 1000000 then \<lparr>tv_sec = s + 1, tv_usec = u - 1000000\<rparr> else \<lparr>tv_sec = s, tv_usec = u\<rparr>)"

definition ROUNDUP :: "int \<Rightarrow> int \<Rightarrow> int" where
  "ROUNDUP x y = ((x + y - 1) div y) * y"

definition timerroundup :: "timeval \<Rightarrow> int \<Rightarrow> timeval" where
  "timerroundup t g =
     (let t = (if \<not> timerisset t then t\<lparr>tv_usec := 1\<rparr> else t)
      in if tv_sec t = 0 then t\<lparr>tv_usec := ROUNDUP (tv_usec t) g\<rparr> else t)"

section \<open>The module\<close>

definition TFLAG_NONE :: u16 where "TFLAG_NONE = 0"
definition TFLAG_CANCELLED :: u16 where "TFLAG_CANCELLED = push_bit 0 1"
definition TFLAG_DELETED :: u16 where "TFLAG_DELETED = push_bit 1 1"

record event =
  it_interval :: timeval
  it_value :: timeval
  func :: "nat option"
  arg :: int
  flags :: u16
  nxt :: "nat option"

record timers =
  ev :: "nat \<Rightarrow> event"
  event_queue :: "nat option"
  event_freelist :: "nat option"
  g_granularity :: int
  g_maxevents :: int
  itimer :: timeval
  block_count :: int
  blocked :: bool

text \<open>The ways an operation may not return: \<open>exit(1)\<close>, a failed assertion, a null pointer or a loop
  that has not ended within the fuel.\<close>

datatype terr = Exit | Assertion | Null_pointer | No_fuel

definition upd :: "nat \<Rightarrow> (event \<Rightarrow> event) \<Rightarrow> timers \<Rightarrow> timers" where
  "upd e f st = st\<lparr>ev := (ev st)(e := f (ev st e))\<rparr>"

definition set_value :: "nat \<Rightarrow> timeval \<Rightarrow> timers \<Rightarrow> timers" where
  "set_value e v = upd e (\<lambda>x. x\<lparr>it_value := v\<rparr>)"

definition set_nxt :: "nat \<Rightarrow> nat option \<Rightarrow> timers \<Rightarrow> timers" where
  "set_nxt e p = upd e (\<lambda>x. x\<lparr>nxt := p\<rparr>)"

definition val :: "timers \<Rightarrow> nat \<Rightarrow> timeval" where
  "val st e = it_value (ev st e)"

definition link :: "timers \<Rightarrow> nat \<Rightarrow> nat option" where
  "link st e = nxt (ev st e)"

text \<open>\<open>ppevent\<close> is the address of the queue head (None) or of the next field of an event.\<close>

fun slot :: "nat option \<Rightarrow> timers \<Rightarrow> nat option" where
  "slot None st = event_queue st"
| "slot (Some p) st = link st p"

fun set_slot :: "nat option \<Rightarrow> nat option \<Rightarrow> timers \<Rightarrow> timers" where
  "set_slot None v st = st\<lparr>event_queue := v\<rparr>"
| "set_slot (Some p) v st = set_nxt p v st"

definition zero_event :: event where
  "zero_event = \<lparr>it_interval = timerclear, it_value = timerclear, func = None, arg = 0, flags = 0, nxt = None\<rparr>"

text \<open>The kernel answers the probe of \<open>init_event_queue\<close>, an interval of one microsecond, with the
  length of its tick, which is a parameter.\<close>

definition init_event_queue :: "int \<Rightarrow> int \<Rightarrow> timers" where
  "init_event_queue tick n =
     \<lparr>ev = (\<lambda>i. zero_event\<lparr>nxt := if int i < n - 1 then Some (i + 1) else None\<rparr>),
      event_queue = None, event_freelist = Some 0, g_granularity = tick, g_maxevents = n,
      itimer = timerclear, block_count = 0, blocked = False\<rparr>"

definition block_timer :: "timers \<Rightarrow> timers" where
  "block_timer st = (let c = block_count st; st = st\<lparr>block_count := c + 1\<rparr>
                     in if c = 0 then st\<lparr>blocked := True\<rparr> else st)"

definition unblock_timer :: "timers \<Rightarrow> timers" where
  "unblock_timer st = (let c = block_count st - 1; st = st\<lparr>block_count := c\<rparr>
                       in if c = 0 then st\<lparr>blocked := False\<rparr> else st)"

text \<open>The walk of \<open>check_event_queue\<close>: it ends the process when it has passed more than
  g_maxevents events.\<close>

function check_walk :: "int \<Rightarrow> nat option \<Rightarrow> timers \<Rightarrow> terr + timers" where
  "check_walk i None st = Inr st"
| "check_walk i (Some e) st = (if i > g_maxevents st then Inl Exit else check_walk (i + 1) (link st e) st)"
  by pat_completeness auto
termination
  by (relation "measure (\<lambda>(i, p, st). nat (g_maxevents st + 1 - i))") auto

definition check_event_queue :: "timers \<Rightarrow> terr + timers" where
  "check_event_queue st = check_walk 0 (event_queue st) st"

definition rthen :: "'e + 'a \<Rightarrow> ('a \<Rightarrow> 'e + 'b) \<Rightarrow> 'e + 'b" where
  "rthen r k = (case r of Inl e \<Rightarrow> Inl e | Inr x \<Rightarrow> k x)"

lemma rthen_simps [simp]: "rthen (Inl e) k = Inl e" "rthen (Inr x) k = k x"
  by (simp_all add: rthen_def)

definition CLOCK_REALTIME :: int where "CLOCK_REALTIME = 0"
definition SIGEV_SIGNAL :: int where "SIGEV_SIGNAL = 0"
definition SIGALRM :: int where "SIGALRM = 14"

definition timer_create :: "int \<Rightarrow> (int \<times> int) option \<Rightarrow> timers \<Rightarrow> terr + (timers \<times> nat)" where
  "timer_create clock_id evp st =
     (if clock_id \<noteq> CLOCK_REALTIME then Inl Exit
      else if (case evp of None \<Rightarrow> False
               | Some (notify, signo) \<Rightarrow> notify \<noteq> SIGEV_SIGNAL \<or> signo \<noteq> SIGALRM) then Inl Exit
      else (case event_freelist st of
          None \<Rightarrow> Inl Assertion
        | Some event \<Rightarrow>
            (let st = upd event (\<lambda>x. x\<lparr>flags := TFLAG_NONE\<rparr>) st;
                 st = st\<lparr>event_freelist := link st event\<rparr>;
                 st = set_nxt event None st
             in rthen (check_event_queue st) (\<lambda>st. Inr (st, event)))))"

definition timer_connect :: "nat \<Rightarrow> nat option \<Rightarrow> int \<Rightarrow> timers \<Rightarrow> terr + timers" where
  "timer_connect event routine a st =
     (if routine = None then Inl Assertion
      else Inr (upd event (\<lambda>x. x\<lparr>func := routine, arg := a\<rparr>) st))"

definition timer_change_settime :: "nat \<Rightarrow> timespec \<Rightarrow> timespec \<Rightarrow> timers \<Rightarrow> timers" where
  "timer_change_settime event interval v st =
     upd event (\<lambda>x. x\<lparr>it_interval := timespec_to_timeval interval, it_value := timespec_to_timeval v\<rparr>) st"

text \<open>Start the kernel's timer for the head h of the queue; the assertions are those of
  \<open>timer_settime\<close> and \<open>timer_cancel\<close>, \<open>alarm_handler\<close> has none.\<close>

definition long_enough :: "timers \<Rightarrow> timeval \<Rightarrow> bool" where
  "long_enough st t \<longleftrightarrow> tv_sec t > 0 \<or> tv_usec t \<ge> g_granularity st"

definition reissue :: "bool \<Rightarrow> nat \<Rightarrow> timers \<Rightarrow> terr + timers" where
  "reissue asserts h st =
     (let st = set_value h (timerroundup (val st h) (g_granularity st)) st;
          it = (if timerisset (val st h) then val st h else \<lparr>tv_sec = 0, tv_usec = 1\<rparr>)
      in if asserts \<and> \<not> (long_enough st it \<and> long_enough st (val st h)) then Inl Assertion
         else Inr (st\<lparr>itimer := it\<rparr>))"

text \<open>The walk of \<open>timer_cancel\<close> with the work at the event it looks for.\<close>

definition cancel_here :: "nat \<Rightarrow> nat option \<Rightarrow> timers \<Rightarrow> terr + timers" where
  "cancel_here event pp st =
     (let st = (case link st event of
                  Some n \<Rightarrow>
                    if event_queue st = Some event
                    then (let st = set_value event (timersub (val st event) (itimer st)) st
                          in set_value n (timeradd (val st n) (val st event)) st)
                    else st
                | None \<Rightarrow> st);
          st = set_slot pp (link st event) st;
          st = set_nxt event None st
      in case event_queue st of Some h \<Rightarrow> reissue True h st | None \<Rightarrow> Inr (st\<lparr>itimer := timerclear\<rparr>))"

fun cancel_walk :: "nat \<Rightarrow> nat \<Rightarrow> nat option \<Rightarrow> timers \<Rightarrow> terr + timers" where
  "cancel_walk 0 event pp st = Inl No_fuel"
| "cancel_walk (Suc n) event pp st =
     (case slot pp st of
        None \<Rightarrow> Inr st
      | Some p \<Rightarrow> if p = event then cancel_here event pp st else cancel_walk n event (Some p) st)"

definition timer_cancel :: "nat \<Rightarrow> nat \<Rightarrow> timers \<Rightarrow> terr + timers" where
  "timer_cancel fuel event st =
     (if flags (ev st event) AND TFLAG_CANCELLED \<noteq> 0 then Inr st
      else rthen (cancel_walk fuel event None (block_timer st))
             (\<lambda>st. Inr (unblock_timer (upd event (\<lambda>x. x\<lparr>flags := flags x OR TFLAG_CANCELLED\<rparr>) st))))"

definition timer_delete :: "nat \<Rightarrow> nat \<Rightarrow> timers \<Rightarrow> terr + (timers \<times> int)" where
  "timer_delete fuel event st =
     (if flags (ev st event) AND TFLAG_DELETED \<noteq> 0 then Inr (st, 1)
      else rthen (timer_cancel fuel event st)
             (\<lambda>st. let st = upd event (\<lambda>x. x\<lparr>flags := flags x OR TFLAG_DELETED\<rparr>) st;
                       st = set_nxt event (event_freelist st) st
                   in Inr (st\<lparr>event_freelist := Some event\<rparr>, 0)))"

text \<open>The march down the queue that finds the place of an event, shared by \<open>timer_settime\<close> and
  \<open>alarm_handler\<close>.\<close>

definition link_in :: "nat \<Rightarrow> nat option \<Rightarrow> timers \<Rightarrow> timers" where
  "link_in event pp st = (let st = set_nxt event (slot pp st) st in set_slot pp (Some event) st)"

fun march :: "nat \<Rightarrow> nat \<Rightarrow> nat option \<Rightarrow> timers \<Rightarrow> terr + timers" where
  "march 0 event pp st = Inl No_fuel"
| "march (Suc n) event pp st =
     (case slot pp st of
        None \<Rightarrow> Inr (link_in event pp st)
      | Some p \<Rightarrow>
          if timerless (val st event) (val st p)
          then Inr (link_in event pp (set_value p (timersub (val st p) (val st event)) st))
          else march n event (Some p) (set_value event (timersub (val st event) (val st p)) st))"

definition sync_head :: "timers \<Rightarrow> timers" where
  "sync_head st =
     (if timerisset (itimer st)
      then (case event_queue st of
              None \<Rightarrow> st
            | Some h \<Rightarrow> if timerless (val st h) (itimer st) then st else set_value h (itimer st) st)
      else st)"

definition timer_settime :: "nat \<Rightarrow> nat \<Rightarrow> timespec \<Rightarrow> timespec \<Rightarrow> timers \<Rightarrow> terr + timers" where
  "timer_settime fuel event interval v st =
     (let st = upd event (\<lambda>x. x\<lparr>it_interval := timespec_to_timeval interval, it_value := timespec_to_timeval v\<rparr>) st
      in if \<not> timerisset (val st event) then timer_cancel fuel event st
         else (let st = block_timer st;
                   st = set_value event (timerroundup (val st event) (g_granularity st)) st;
                   st = sync_head st
               in rthen (march fuel event None st) (\<lambda>st.
                  rthen (check_event_queue st) (\<lambda>st.
                  rthen (if event_queue st = Some event then reissue True event st else Inr st) (\<lambda>st.
                  Inr (unblock_timer
                         (upd event (\<lambda>x. x\<lparr>flags := flags x AND NOT TFLAG_CANCELLED\<rparr>) st)))))))"

text \<open>The handler of SIGALRM.  The callback is code of the process: a parameter that gets the event and
  its argument and may change the timers.\<close>

definition alarm_once ::
    "(nat option \<Rightarrow> nat \<Rightarrow> int \<Rightarrow> timers \<Rightarrow> terr + timers) \<Rightarrow> nat \<Rightarrow> timers \<Rightarrow> terr + timers" where
  "alarm_once callback fuel st =
     (case event_queue st of
        None \<Rightarrow> Inl Null_pointer
      | Some event \<Rightarrow>
          (let st = st\<lparr>event_queue := link st event\<rparr>;
               st = set_nxt event None st
           in rthen (callback (func (ev st event)) event (arg (ev st event)) st) (\<lambda>st.
              rthen (if flags (ev st event) AND TFLAG_CANCELLED = 0 \<and> timerisset (it_interval (ev st event))
                     then (let st = set_value event (timerroundup (it_interval (ev st event)) (g_granularity st)) st
                           in march fuel event None st)
                     else Inr st)
                check_event_queue)))"



text \<open>\<open>timer_cancel_all\<close> empties the queue from the front.\<close>

fun cancel_all_walk :: "nat \<Rightarrow> timers \<Rightarrow> terr + timers" where
  "cancel_all_walk 0 st = Inl No_fuel"
| "cancel_all_walk (Suc n) st =
     (case event_queue st of
        None \<Rightarrow> Inr st
      | Some e \<Rightarrow> cancel_all_walk n (set_nxt e None (st\<lparr>event_queue := link st e\<rparr>)))"

definition timer_cancel_all :: "nat \<Rightarrow> timers \<Rightarrow> terr + timers" where
  "timer_cancel_all fuel st = cancel_all_walk fuel (st\<lparr>itimer := timerclear\<rparr>)"

subsection \<open>The interface of bcmtimer.h\<close>

definition bcm_timer_module_init :: "int \<Rightarrow> int \<Rightarrow> timers \<times> nat option \<times> int" where
  "bcm_timer_module_init tick timer_entries =
     (let st = init_event_queue tick timer_entries in (st, event_freelist st, 0))"

definition bcm_timer_module_enable :: "int \<Rightarrow> timers \<Rightarrow> timers \<times> int" where
  "bcm_timer_module_enable enable st = ((if enable \<noteq> 0 then unblock_timer st else block_timer st), 0)"

definition bcm_timer_create :: "timers \<Rightarrow> terr + (timers \<times> nat)" where
  "bcm_timer_create = timer_create CLOCK_REALTIME None"

definition bcm_timer_delete :: "nat \<Rightarrow> nat \<Rightarrow> timers \<Rightarrow> terr + (timers \<times> int)" where
  "bcm_timer_delete = timer_delete"

definition bcm_timer_settime :: "nat \<Rightarrow> nat \<Rightarrow> timespec \<Rightarrow> timespec \<Rightarrow> timers \<Rightarrow> terr + timers" where
  "bcm_timer_settime = timer_settime"

definition bcm_timer_connect :: "nat \<Rightarrow> nat option \<Rightarrow> int \<Rightarrow> timers \<Rightarrow> terr + timers" where
  "bcm_timer_connect = timer_connect"

definition bcm_timer_cancel :: "nat \<Rightarrow> nat \<Rightarrow> timers \<Rightarrow> terr + (timers \<times> int)" where
  "bcm_timer_cancel fuel timer_id st = rthen (timer_cancel fuel timer_id st) (\<lambda>st. Inr (st, 0))"

definition bcm_timer_change_expirytime :: "nat \<Rightarrow> timespec \<Rightarrow> timespec \<Rightarrow> timers \<Rightarrow> timers \<times> int" where
  "bcm_timer_change_expirytime timer_id interval v st = (timer_change_settime timer_id interval v st, 1)"

text \<open>The kernel's side: d microseconds pass before the timer runs out.\<close>

definition us :: "timeval \<Rightarrow> int" where
  "us t = tv_sec t * 1000000 + tv_usec t"

definition elapse :: "timeval \<Rightarrow> timers \<Rightarrow> timers" where
  "elapse d st = st\<lparr>itimer := timersub (itimer st) d\<rparr>"

section \<open>Time arithmetic\<close>

text \<open>The usec of a rounded value may be a whole second, so that much is allowed.\<close>

definition wf_tv :: "timeval \<Rightarrow> bool" where
  "wf_tv t \<longleftrightarrow> 0 \<le> tv_sec t \<and> 0 \<le> tv_usec t \<and> tv_usec t \<le> 1000000"

lemma us_timersub [simp]: "us (timersub a b) = us a - us b"
  by (simp add: us_def timersub_def Let_def algebra_simps)

lemma us_timeradd [simp]: "us (timeradd a b) = us a + us b"
  by (simp add: us_def timeradd_def Let_def algebra_simps)

lemma us_timerclear [simp]: "us timerclear = 0"
  by (simp add: us_def timerclear_def)

lemma timerless_us: "wf_tv a \<Longrightarrow> wf_tv b \<Longrightarrow> timerless a b \<Longrightarrow> us a \<le> us b"
  by (auto simp: timerless_def us_def wf_tv_def split: if_splits)

lemma not_timerless_us: "wf_tv a \<Longrightarrow> wf_tv b \<Longrightarrow> \<not> timerless a b \<Longrightarrow> us b \<le> us a"
  by (auto simp: timerless_def us_def wf_tv_def split: if_splits)

lemma wf_timersub_less: "wf_tv a \<Longrightarrow> wf_tv b \<Longrightarrow> timerless a b \<Longrightarrow> wf_tv (timersub b a)"
  by (auto simp: timerless_def wf_tv_def timersub_def Let_def split: if_splits)

lemma wf_timersub_ge: "wf_tv a \<Longrightarrow> wf_tv b \<Longrightarrow> \<not> timerless a b \<Longrightarrow> wf_tv (timersub a b)"
  by (auto simp: timerless_def wf_tv_def timersub_def Let_def split: if_splits)

lemma wf_us_nonneg: "wf_tv t \<Longrightarrow> 0 \<le> us t"
  by (auto simp: wf_tv_def us_def)

lemma timerisset_us: "wf_tv t \<Longrightarrow> timerisset t \<longleftrightarrow> 0 < us t"
  by (auto simp: wf_tv_def us_def timerisset_def)

lemma not_timerless_self [simp]: "\<not> timerless t t"
  by (simp add: timerless_def)

lemma ROUNDUP_bounds: "0 < g \<Longrightarrow> x \<le> ROUNDUP x g \<and> ROUNDUP x g < x + g"
proof -
  assume "0 < g"
  then have "(x + g - 1) mod g < g" "0 \<le> (x + g - 1) mod g" by simp_all
  moreover have "(x + g - 1) div g * g = x + g - 1 - (x + g - 1) mod g" by (simp add: minus_mod_eq_div_mult)
  ultimately show ?thesis unfolding ROUNDUP_def by linarith
qed

lemma ROUNDUP_le: "0 < g \<Longrightarrow> g dvd m \<Longrightarrow> x \<le> m \<Longrightarrow> ROUNDUP x g \<le> m"
proof -
  assume g: "0 < g" "g dvd m" and x: "x \<le> m"
  then obtain k where m: "m = k * g" by (auto elim!: dvdE simp: mult.commute)
  have "(x + g - 1) div g * g < (k + 1) * g"
    using ROUNDUP_bounds [OF g(1), of x] x by (simp add: ROUNDUP_def m algebra_simps)
  then have "(x + g - 1) div g \<le> k" using g(1) by simp
  then show ?thesis using g(1) by (simp add: ROUNDUP_def m)
qed

lemma ROUNDUP_dvd [simp]: "g dvd ROUNDUP x g"
  by (simp add: ROUNDUP_def)

definition granule :: "int \<Rightarrow> bool" where
  "granule g \<longleftrightarrow> 0 < g \<and> g dvd 1000000"

lemma timerroundup_props:
  assumes "granule g" "wf_tv t"
  shows "wf_tv (timerroundup t g)"
    and "us t \<le> us (timerroundup t g)" and "us (timerroundup t g) \<le> us t + g"
    and "g \<le> us (timerroundup t g)"
    and "timerisset (timerroundup t g)"
    and "tv_sec (timerroundup t g) > 0 \<or> g \<le> tv_usec (timerroundup t g)"
proof -
  define u where "u = (if tv_usec t = 0 then 1 else tv_usec t)"
  have u: "1 \<le> u" "u \<le> 1000000" using assms(2) by (auto simp: u_def wf_tv_def)
  have g: "0 < g" "g dvd 1000000" using assms(1) by (auto simp: granule_def)
  have r: "u \<le> ROUNDUP u g" "ROUNDUP u g < u + g" using ROUNDUP_bounds [OF g(1)] by auto
  have le: "ROUNDUP u g \<le> 1000000" using ROUNDUP_le [OF g u(2)] .
  have ge: "g \<le> ROUNDUP u g" using r(1) u(1) by (intro zdvd_imp_le) auto
  have g6: "g \<le> 1000000" using g by (intro zdvd_imp_le) auto
  have t: "timerroundup t g = (if tv_sec t = 0 then t\<lparr>tv_usec := ROUNDUP u g\<rparr> else t)"
    by (auto simp: timerroundup_def timerisset_def Let_def u_def)
  have s: "tv_sec t = 0 \<or> 1 \<le> tv_sec t" "0 \<le> tv_usec t" using assms(2) by (auto simp: wf_tv_def)
  show "wf_tv (timerroundup t g)" using assms(2) r le u by (auto simp: t wf_tv_def)
  show "us t \<le> us (timerroundup t g)" "us (timerroundup t g) \<le> us t + g"
    using r g(1) by (auto simp: t us_def u_def split: if_splits)
  show "g \<le> us (timerroundup t g)" "timerisset (timerroundup t g)"
      "tv_sec (timerroundup t g) > 0 \<or> g \<le> tv_usec (timerroundup t g)"
    using s g6 ge g(1) r(1) u(1) by (auto simp: t us_def timerisset_def)
qed

section \<open>The store\<close>

lemma val_simps [simp]:
  "val (set_value e v st) x = (if x = e then v else val st x)"
  "val (set_nxt e p st) x = val st x"
  "val (st\<lparr>event_queue := q\<rparr>) x = val st x"
  "val (st\<lparr>event_freelist := q\<rparr>) x = val st x"
  "val (st\<lparr>itimer := t\<rparr>) x = val st x"
  "val (st\<lparr>block_count := c\<rparr>) x = val st x"
  "val (st\<lparr>blocked := b\<rparr>) x = val st x"
  by (simp_all add: val_def set_value_def set_nxt_def upd_def)

lemma link_simps [simp]:
  "link (set_value e v st) = link st"
  "link (set_nxt e p st) = (link st)(e := p)"
  "link (st\<lparr>event_queue := q\<rparr>) = link st"
  "link (st\<lparr>event_freelist := q\<rparr>) = link st"
  "link (st\<lparr>itimer := t\<rparr>) = link st"
  "link (st\<lparr>block_count := c\<rparr>) = link st"
  "link (st\<lparr>blocked := b\<rparr>) = link st"
  by (auto simp: link_def set_value_def set_nxt_def upd_def fun_eq_iff)

lemma upd_fields [simp]:
  "event_queue (upd e f st) = event_queue st" "event_freelist (upd e f st) = event_freelist st"
  "g_granularity (upd e f st) = g_granularity st" "g_maxevents (upd e f st) = g_maxevents st"
  "itimer (upd e f st) = itimer st" "block_count (upd e f st) = block_count st"
  "blocked (upd e f st) = blocked st" "ev (upd e f st) = (ev st)(e := f (ev st e))"
  by (simp_all add: upd_def)

lemma set_value_fields [simp]:
  "event_queue (set_value e v st) = event_queue st" "event_freelist (set_value e v st) = event_freelist st"
  "g_granularity (set_value e v st) = g_granularity st" "g_maxevents (set_value e v st) = g_maxevents st"
  "itimer (set_value e v st) = itimer st" "block_count (set_value e v st) = block_count st"
  "blocked (set_value e v st) = blocked st" "ev (set_value e v st) = (ev st)(e := (ev st e)\<lparr>it_value := v\<rparr>)"
  by (simp_all add: set_value_def)

lemma set_nxt_fields [simp]:
  "event_queue (set_nxt e p st) = event_queue st" "event_freelist (set_nxt e p st) = event_freelist st"
  "g_granularity (set_nxt e p st) = g_granularity st" "g_maxevents (set_nxt e p st) = g_maxevents st"
  "itimer (set_nxt e p st) = itimer st" "block_count (set_nxt e p st) = block_count st"
  "blocked (set_nxt e p st) = blocked st" "ev (set_nxt e p st) = (ev st)(e := (ev st e)\<lparr>nxt := p\<rparr>)"
  by (simp_all add: set_nxt_def)

lemma upd_val_link:
  "(\<And>x. it_value (f x) = it_value x) \<Longrightarrow> val (upd e f st) = val st"
  "(\<And>x. nxt (f x) = nxt x) \<Longrightarrow> link (upd e f st) = link st"
  by (auto simp: val_def link_def fun_eq_iff)

lemma upd_flags [simp]:
  "val (upd e (\<lambda>x. x\<lparr>flags := f x\<rparr>) st) = val st" "link (upd e (\<lambda>x. x\<lparr>flags := f x\<rparr>) st) = link st"
  by (simp_all add: upd_val_link)

text \<open>Everything but the links and values of the queue is kept.\<close>

definition same_rest :: "timers \<Rightarrow> timers \<Rightarrow> bool" where
  "same_rest st st' \<longleftrightarrow> event_freelist st' = event_freelist st \<and> g_granularity st' = g_granularity st
     \<and> g_maxevents st' = g_maxevents st \<and> itimer st' = itimer st \<and> block_count st' = block_count st
     \<and> blocked st' = blocked st \<and> flags \<circ> ev st' = flags \<circ> ev st \<and> it_interval \<circ> ev st' = it_interval \<circ> ev st
     \<and> func \<circ> ev st' = func \<circ> ev st \<and> arg \<circ> ev st' = arg \<circ> ev st"

lemma same_rest_refl [simp]: "same_rest st st"
  by (simp add: same_rest_def)

lemma same_rest_trans: "same_rest a b \<Longrightarrow> same_rest b c \<Longrightarrow> same_rest a c"
  by (simp add: same_rest_def)

lemma same_rest_steps [simp]:
  "same_rest st (set_value e v st)" "same_rest st (set_nxt e p st)" "same_rest st (st\<lparr>event_queue := q\<rparr>)"
  by (auto simp: same_rest_def fun_eq_iff)

lemma same_rest_set_slot [simp]: "same_rest st (set_slot pp v st)"
  by (cases pp) auto

section \<open>The delta queue\<close>

definition pending :: "timers \<Rightarrow> nat list \<Rightarrow> bool" where
  "pending st q \<longleftrightarrow> distinct q \<and> linked (link st) (event_queue st) q None"

text \<open>When each event of a delta queue is due, with t the time at which the first delta starts.\<close>

fun agenda :: "(nat \<Rightarrow> timeval) \<Rightarrow> int \<Rightarrow> nat list \<Rightarrow> (nat \<times> int) list" where
  "agenda v t [] = []"
| "agenda v t (e # es) = (e, t + us (v e)) # agenda v (t + us (v e)) es"

lemma agenda_ids [simp]: "map fst (agenda v t q) = q"
  by (induction q arbitrary: t) auto

lemma agenda_cong: "(\<And>e. e \<in> set q \<Longrightarrow> us (v' e) = us (v e)) \<Longrightarrow> agenda v' t q = agenda v t q"
  by (induction q arbitrary: t) auto

lemma agenda_ge: "(\<And>e. e \<in> set q \<Longrightarrow> wf_tv (v e)) \<Longrightarrow> x \<in> set (agenda v t q) \<Longrightarrow> t \<le> snd x"
proof (induction q arbitrary: t)
  case (Cons e q)
  have "0 \<le> us (v e)" using Cons.prems(1) by (simp add: wf_us_nonneg)
  then show ?case using Cons.IH [of "t + us (v e)"] Cons.prems by fastforce
qed simp

lemma agenda_sorted: "(\<And>e. e \<in> set q \<Longrightarrow> wf_tv (v e)) \<Longrightarrow> sorted (map snd (agenda v t q))"
  by (induction q arbitrary: t) (auto dest: agenda_ge [rotated])

lemma agenda_shift: "agenda v (t + d) q = map (\<lambda>(e, x). (e, x + d)) (agenda v t q)"
  by (induction q arbitrary: t) (auto simp: algebra_simps, metis add.assoc add.commute)

text \<open>
  What a march from the slot pp does: the events as @ bs behind the slot become as @ e # bs, e is due
  after the time it was given, every other event when it was due before, and as are due before e,
  bs after it.
\<close>

definition inserted :: "nat \<Rightarrow> nat option \<Rightarrow> nat list \<Rightarrow> nat list \<Rightarrow> timers \<Rightarrow> timers \<Rightarrow> bool" where
  "inserted e pp as bs st st' \<longleftrightarrow>
     linked (link st') (slot pp st') (as @ e # bs) None
     \<and> (\<forall>x \<in> set (e # as @ bs). wf_tv (val st' x))
     \<and> (\<forall>t. agenda (val st') t (as @ e # bs) =
             agenda (val st) t as @ (e, t + us (val st e)) # drop (length as) (agenda (val st) t (as @ bs)))
     \<and> (\<forall>t. \<forall>x \<in> set (agenda (val st) t as). snd x \<le> t + us (val st e))
     \<and> (\<forall>t. \<forall>x \<in> set (drop (length as) (agenda (val st) t (as @ bs))). t + us (val st e) \<le> snd x)
     \<and> (\<forall>x. x \<notin> set (e # as @ bs) \<longrightarrow> val st' x = val st x \<and> (pp \<noteq> Some x \<longrightarrow> link st' x = link st x))
     \<and> (\<forall>x \<in> set as. val st' x = val st x) \<and> (as = [] \<longrightarrow> val st' e = val st e)
     \<and> (pp \<noteq> None \<longrightarrow> event_queue st' = event_queue st)
     \<and> same_rest st st'"

lemma slot_link_in [simp]: "slot pp (link_in e pp st) = Some e"
  by (cases pp) (auto simp: link_in_def Let_def)

lemma link_in_simps [simp]:
  "val (link_in e pp st) x = val st x"
  "pp \<noteq> Some e \<Longrightarrow> link (link_in e pp st) e = slot pp st"
  "x \<noteq> e \<Longrightarrow> pp \<noteq> Some x \<Longrightarrow> link (link_in e pp st) x = link st x"
  by (cases pp; auto simp: link_in_def Let_def)+

lemma link_in_rest [simp]: "same_rest st (link_in e pp st)"
  "pp \<noteq> None \<Longrightarrow> event_queue (link_in e pp st) = event_queue st"
  unfolding link_in_def Let_def
  by (rule same_rest_trans, rule same_rest_steps, rule same_rest_set_slot) (cases pp; simp)

lemma linked_link_in:
  "linked (link st) (slot pp st) ys None \<Longrightarrow> e \<notin> set ys \<Longrightarrow> pp \<noteq> Some e \<Longrightarrow> pp \<notin> Some ` set ys \<Longrightarrow>
   linked (link (link_in e pp st)) (Some e) (e # ys) None"
  by (cases pp) (auto simp: link_in_def Let_def image_iff)

lemma slot_set_value [simp]: "slot pp (set_value e v st) = slot pp st"
  by (cases pp) simp_all

text \<open>The march stops before an event that is due later, and passes one that is not.\<close>

lemma inserted_here:
  assumes li: "linked (link st) (Some p) (p # ys) None" and d: "distinct (e # p # ys)"
    and pp: "slot pp st = Some p" "pp \<noteq> Some e" "pp \<notin> Some ` set (p # ys)"
    and wf: "\<forall>x \<in> set (e # p # ys). wf_tv (val st x)" and less: "timerless (val st e) (val st p)"
  shows "inserted e pp [] (p # ys) st (link_in e pp (set_value p (timersub (val st p) (val st e)) st))"
proof -
  define st1 where "st1 = set_value p (timersub (val st p) (val st e)) st"
  have ag: "agenda (val (link_in e pp st1)) t ys = agenda (val st) t ys" for t
    using d by (intro agenda_cong) (auto simp: st1_def)
  have ge: "t + us (val st e) \<le> snd x" if x: "x \<in> set (agenda (val st) t (p # ys))" for t x
  proof -
    have "us (val st e) \<le> us (val st p)" using timerless_us wf less by simp
    moreover have "t + us (val st p) \<le> snd x"
      using x agenda_ge [of ys "val st" x "t + us (val st p)"] wf by auto
    ultimately show ?thesis by simp
  qed
  have "linked (link (link_in e pp st1)) (Some e) (e # p # ys) None"
    using li d pp by (intro linked_link_in) (auto simp: st1_def)
  moreover have "same_rest st (link_in e pp st1)"
    by (rule same_rest_trans [of _ st1]) (simp_all add: st1_def)
  ultimately have "inserted e pp [] (p # ys) st (link_in e pp st1)"
    unfolding inserted_def
    using ge d wf less wf_timersub_less [of "val st e" "val st p"]
    by (simp add: ag) (auto simp: st1_def)
  then show ?thesis by (simp add: st1_def)
qed

lemma inserted_step:
  assumes d: "distinct (e # p # as @ bs)"
    and pp: "slot pp st = Some p" "pp \<noteq> Some e" "pp \<notin> Some ` set (p # as @ bs)"
    and wf: "\<forall>x \<in> set (e # p # as @ bs). wf_tv (val st x)" and nless: "\<not> timerless (val st e) (val st p)"
    and i: "inserted e (Some p) as bs (set_value e (timersub (val st e) (val st p)) st) st'"
  shows "inserted e pp (p # as) bs st st'"
proof -
  define st1 where "st1 = set_value e (timersub (val st e) (val st p)) st"
  note i = i [folded st1_def]
  have le: "us (val st p) \<le> us (val st e)" using not_timerless_us wf nless by simp
  have ag: "agenda (val st1) t as = agenda (val st) t as" "agenda (val st1) t (as @ bs) = agenda (val st) t (as @ bs)"
    for t using d by (auto simp: st1_def intro!: agenda_cong)
  have vp: "val st' p = val st p" using i d by (auto simp: inserted_def st1_def)
  have v1: "us (val st1 e) = us (val st e) - us (val st p)" by (simp add: st1_def)
  have sl: "slot pp st' = slot pp st" using i pp by (cases pp) (auto simp: inserted_def st1_def)
  have before: "\<forall>y \<in> set (agenda (val st) (t + us (val st p)) as). snd y \<le> t + us (val st p) + us (val st1 e)" for t
    using i ag(1) by (simp add: inserted_def)
  have after: "\<forall>y \<in> set (drop (length as) (agenda (val st) (t + us (val st p)) (as @ bs))).
      t + us (val st p) + us (val st1 e) \<le> snd y" for t
    using i ag(2) by (simp add: inserted_def)
  show ?thesis
    unfolding inserted_def
  proof (intro conjI allI ballI impI)
    show "linked (link st') (slot pp st') ((p # as) @ e # bs) None"
      using i sl pp by (simp add: inserted_def)
    show "agenda (val st') t ((p # as) @ e # bs) = agenda (val st) t (p # as) @ (e, t + us (val st e)) #
            drop (length (p # as)) (agenda (val st) t ((p # as) @ bs))" for t
      using i ag vp v1 by (simp add: inserted_def)
    show "same_rest st st'"
      using i by (intro same_rest_trans [of st st1 st']) (auto simp: st1_def inserted_def)
    show "val st' x = val st x" if "x \<in> set (p # as)" for x
      using i vp d that by (auto simp: inserted_def st1_def)
  qed (use i wf vp le v1 before after in \<open>auto simp: inserted_def st1_def\<close>)
qed

lemma march_spec:
  "\<lbrakk>linked (link st) (slot pp st) ys None; distinct (e # ys); pp \<noteq> Some e; pp \<notin> Some ` set ys;
    length ys < n; \<forall>x \<in> set (e # ys). wf_tv (val st x)\<rbrakk>
   \<Longrightarrow> \<exists>st' as bs. march n e pp st = Inr st' \<and> ys = as @ bs \<and> inserted e pp as bs st st'"
proof (induction ys arbitrary: n pp st)
  case Nil
  then obtain m where n: "n = Suc m" by (cases n) auto
  have "inserted e pp [] [] st (link_in e pp st)"
    using Nil by (auto simp: inserted_def)
  then show ?case using Nil by (auto simp: n)
next
  case (Cons p ys)
  then obtain m where n: "n = Suc m" by (cases n) auto
  have p: "slot pp st = Some p" using Cons.prems by auto
  show ?case
  proof (cases "timerless (val st e) (val st p)")
    case True
    have "inserted e pp [] (p # ys) st (link_in e pp (set_value p (timersub (val st p) (val st e)) st))"
      using Cons.prems p True by (intro inserted_here) simp_all
    then show ?thesis using p True by (auto simp: n)
  next
    case False
    define st1 where "st1 = set_value e (timersub (val st e) (val st p)) st"
    have m: "march n e pp st = march m e (Some p) st1" using p False by (simp add: n st1_def)
    have "\<exists>st' as bs. march m e (Some p) st1 = Inr st' \<and> ys = as @ bs \<and> inserted e (Some p) as bs st1 st'"
      using Cons.prems n wf_timersub_ge [of "val st e" "val st p"] False
      by (intro Cons.IH) (auto simp: st1_def)
    then obtain st' as bs where s: "march m e (Some p) st1 = Inr st'" "ys = as @ bs"
        and i: "inserted e (Some p) as bs st1 st'" by blast
    have "inserted e pp (p # as) bs st st'"
      using Cons.prems s(2) p False i unfolding st1_def by (intro inserted_step) auto
    then show ?thesis using m s
      by (intro exI [of _ st'] exI [of _ "p # as"] exI [of _ bs]) simp
  qed
qed

section \<open>The invariant of the module\<close>

definition cancelled :: "timers \<Rightarrow> nat \<Rightarrow> bool" where
  "cancelled st e \<longleftrightarrow> flags (ev st e) AND TFLAG_CANCELLED \<noteq> 0"

definition deleted :: "timers \<Rightarrow> nat \<Rightarrow> bool" where
  "deleted st e \<longleftrightarrow> flags (ev st e) AND TFLAG_DELETED \<noteq> 0"

text \<open>The queue q and the freelist f are disjoint chains of the events of the array, a queued event
  is not cancelled and its times make sense.\<close>

definition tinv :: "timers \<Rightarrow> nat list \<Rightarrow> nat list \<Rightarrow> bool" where
  "tinv st q f \<longleftrightarrow> pending st q \<and> linked (link st) (event_freelist st) f None \<and> distinct (q @ f)
     \<and> (\<forall>e \<in> set (q @ f). int e < g_maxevents st) \<and> granule (g_granularity st)
     \<and> (\<forall>e \<in> set q. wf_tv (val st e) \<and> \<not> cancelled st e)"

text \<open>While events are pending the kernel's timer runs, for at most the delta of the first.\<close>

definition running :: "timers \<Rightarrow> nat list \<Rightarrow> bool" where
  "running st q \<longleftrightarrow> q \<noteq> [] \<longrightarrow>
     timerisset (itimer st) \<and> wf_tv (itimer st) \<and> \<not> timerless (val st (hd q)) (itimer st)"

text \<open>How long from now each pending event has to wait.\<close>

definition due :: "timers \<Rightarrow> nat list \<Rightarrow> (nat \<times> int) list" where
  "due st q = agenda ((val st)(hd q := itimer st)) 0 q"

lemma check_walk_ok:
  "linked (link st) p xs None \<Longrightarrow> i + int (length xs) \<le> g_maxevents st + 1 \<Longrightarrow> check_walk i p st = Inr st"
  by (induction xs arbitrary: i p) auto

lemma chain_bound:
  "distinct q \<Longrightarrow> (\<forall>e \<in> set q. int e < n) \<Longrightarrow> q \<noteq> [] \<Longrightarrow> int (length q) \<le> n"
proof -
  assume a: "distinct q" "\<forall>e \<in> set q. int e < n" "q \<noteq> []"
  then have "set q \<subseteq> {..< nat n}" by (auto simp: zless_nat_eq_int_zless)
  then have "card (set q) \<le> nat n" by (metis card_lessThan card_mono finite_lessThan)
  moreover have "0 < n" using a by (cases q) auto
  ultimately show ?thesis using a(1) by (simp add: distinct_card)
qed

lemma check_event_queue_ok:
  assumes "pending st q" "\<forall>e \<in> set q. int e < g_maxevents st"
  shows "check_event_queue st = Inr st"
proof (cases "q = []")
  case False
  then have "int (length q) \<le> g_maxevents st" using assms by (intro chain_bound) (auto simp: pending_def)
  then show ?thesis using assms check_walk_ok [of st "event_queue st" q 0]
    by (simp add: check_event_queue_def pending_def)
qed (use assms in \<open>simp add: check_event_queue_def pending_def\<close>)

lemma block_simps [simp]:
  "ev (block_timer st) = ev st" "event_queue (block_timer st) = event_queue st"
  "event_freelist (block_timer st) = event_freelist st" "g_granularity (block_timer st) = g_granularity st"
  "g_maxevents (block_timer st) = g_maxevents st" "itimer (block_timer st) = itimer st"
  "ev (unblock_timer st) = ev st" "event_queue (unblock_timer st) = event_queue st"
  "event_freelist (unblock_timer st) = event_freelist st" "g_granularity (unblock_timer st) = g_granularity st"
  "g_maxevents (unblock_timer st) = g_maxevents st" "itimer (unblock_timer st) = itimer st"
  by (simp_all add: block_timer_def unblock_timer_def Let_def)

lemma block_val_link [simp]:
  "val (block_timer st) = val st" "link (block_timer st) = link st"
  "val (unblock_timer st) = val st" "link (unblock_timer st) = link st"
  by (simp_all add: fun_eq_iff val_def link_def)

lemma timerroundup_idem:
  assumes "granule g" "wf_tv t"
  shows "timerroundup (timerroundup t g) g = timerroundup t g"
proof -
  have "ROUNDUP (ROUNDUP x g) g = ROUNDUP x g" for x
    using assms(1) ROUNDUP_bounds [of g "ROUNDUP x g"] ROUNDUP_le [of g "ROUNDUP x g" "ROUNDUP x g"]
    by (simp add: granule_def)
  moreover have "timerisset (timerroundup t g)" by (rule timerroundup_props [OF assms])
  ultimately show ?thesis by (auto simp: timerroundup_def Let_def)
qed

text \<open>Restarting the kernel's timer for the head of the queue.\<close>

lemma reissue_ok:
  assumes "granule (g_granularity st)" "wf_tv (val st h)"
  shows "reissue asserts h st =
    (let v = timerroundup (val st h) (g_granularity st) in Inr ((set_value h v st)\<lparr>itimer := v\<rparr>))"
  using timerroundup_props(5,6) [OF assms] by (auto simp: reissue_def long_enough_def Let_def)

lemma wf_timespec:
  "0 \<le> ts_sec v \<Longrightarrow> 0 \<le> ts_nsec v \<Longrightarrow> ts_nsec v < 1000000000 \<Longrightarrow> wf_tv (timespec_to_timeval v)"
  by (auto simp: wf_tv_def timespec_to_timeval_def)

section \<open>Setting a timer\<close>

lemma agenda_take: "take (length as) (agenda v t (as @ bs)) = agenda v t as"
  by (induction as arbitrary: t) auto

lemma due_synced: "itimer st = val st (hd q) \<Longrightarrow> due st q = agenda (val st) 0 q"
  by (simp add: due_def)

lemma cancelled_simps [simp]:
  "cancelled (set_value x v st) e = cancelled st e" "cancelled (set_nxt x p st) e = cancelled st e"
  "cancelled (st\<lparr>itimer := t\<rparr>) e = cancelled st e" "cancelled (st\<lparr>event_queue := p\<rparr>) e = cancelled st e"
  "cancelled (st\<lparr>event_freelist := p\<rparr>) e = cancelled st e"
  "cancelled (block_timer st) e = cancelled st e" "cancelled (unblock_timer st) e = cancelled st e"
  by (simp_all add: cancelled_def)

lemma cancelled_clear [simp]:
  "cancelled (upd e (\<lambda>x. x\<lparr>flags := flags x AND NOT TFLAG_CANCELLED\<rparr>) st) x \<longleftrightarrow> x \<noteq> e \<and> cancelled st x"
  by (auto simp: cancelled_def and.assoc)

lemma cancelled_set [simp]:
  "cancelled (upd e (\<lambda>x. x\<lparr>flags := flags x OR TFLAG_CANCELLED\<rparr>) st) x \<longleftrightarrow> x = e \<or> cancelled st x"
  by (auto simp: cancelled_def TFLAG_CANCELLED_def bit.conj_disj_distrib2)

lemma same_rest_cancelled: "same_rest st st' \<Longrightarrow> cancelled st' e = cancelled st e"
  by (auto simp: same_rest_def cancelled_def fun_eq_iff)

text \<open>The state in which \<open>timer_settime\<close> starts its march.\<close>

definition prepared :: "nat \<Rightarrow> timeval \<Rightarrow> timeval \<Rightarrow> timers \<Rightarrow> timers" where
  "prepared e i w st =
     sync_head (set_value e (timerroundup w (g_granularity st))
       (block_timer (upd e (\<lambda>x. x\<lparr>it_interval := i, it_value := w\<rparr>) st)))"

lemma val_upd_times [simp]: "val (upd e (\<lambda>x. x\<lparr>it_interval := i, it_value := w\<rparr>) st) = (val st)(e := w)"
  "link (upd e (\<lambda>x. x\<lparr>it_interval := i, it_value := w\<rparr>) st) = link st"
  "cancelled (upd e (\<lambda>x. x\<lparr>it_interval := i, it_value := w\<rparr>) st) y = cancelled st y"
  by (auto simp: val_def link_def cancelled_def)

lemma sync_head_simps [simp]:
  "link (sync_head st) = link st" "event_queue (sync_head st) = event_queue st"
  "event_freelist (sync_head st) = event_freelist st" "g_granularity (sync_head st) = g_granularity st"
  "g_maxevents (sync_head st) = g_maxevents st" "itimer (sync_head st) = itimer st"
  "cancelled (sync_head st) e = cancelled st e"
  by (auto simp: sync_head_def split: option.split)

lemma prepared_simps [simp]:
  "link (prepared e i w st) = link st" "event_queue (prepared e i w st) = event_queue st"
  "event_freelist (prepared e i w st) = event_freelist st" "g_granularity (prepared e i w st) = g_granularity st"
  "g_maxevents (prepared e i w st) = g_maxevents st" "itimer (prepared e i w st) = itimer st"
  "cancelled (prepared e i w st) y = cancelled st y"
  by (simp_all add: prepared_def)

lemma prepared_val:
  assumes "pending st q" "running st q" "e \<notin> set q"
  shows "val (prepared e i w st) x =
    (if x = e then timerroundup w (g_granularity st) else if q \<noteq> [] \<and> x = hd q then itimer st else val st x)"
  using assms by (cases q) (auto simp: prepared_def sync_head_def running_def pending_def)

lemma timer_settime_prepared:
  "timerisset (timespec_to_timeval v) \<Longrightarrow> timer_settime fuel e interval v st =
     rthen (march fuel e None (prepared e (timespec_to_timeval interval) (timespec_to_timeval v) st)) (\<lambda>st.
     rthen (check_event_queue st) (\<lambda>st.
     rthen (if event_queue st = Some e then reissue True e st else Inr st) (\<lambda>st.
     Inr (unblock_timer (upd e (\<lambda>x. x\<lparr>flags := flags x AND NOT TFLAG_CANCELLED\<rparr>) st)))))"
  by (simp add: timer_settime_def prepared_def Let_def)

text \<open>The march of a new event into the queue: the chains and their order.\<close>

lemma march_queue:
  assumes q: "pending st q" "linked (link st) (event_freelist st) f None" "distinct (q @ f)"
    and e: "e \<notin> set (q @ f)" and wf: "\<forall>x \<in> set (e # q). wf_tv (val st x)" and n: "length q < n"
  shows "\<exists>st' as bs. march n e None st = Inr st' \<and> q = as @ bs \<and> inserted e None as bs st st'
    \<and> pending st' (as @ e # bs) \<and> linked (link st') (event_freelist st') f None"
proof -
  obtain st' as bs where m: "march n e None st = Inr st'" "q = as @ bs" and i: "inserted e None as bs st st'"
    using march_spec [of st None q e n] assms by (auto simp: pending_def)
  have "link st' x = link st x" if "x \<in> set f" for x
    using i m(2) e q(3) that by (auto simp: inserted_def)
  then have "linked (link st') p f None = linked (link st) p f None" for p
    by (induction f arbitrary: p) auto
  then have "linked (link st') (event_freelist st') f None"
    using i q(2) by (auto simp: inserted_def same_rest_def)
  moreover have "pending st' (as @ e # bs)"
    using i m(2) q e by (auto simp: inserted_def pending_def)
  ultimately show ?thesis using m i by blast
qed

lemma inserted_agenda:
  assumes "inserted e None as bs st st'"
  shows "agenda (val st') 0 (as @ e # bs) =
     take (length as) (agenda (val st) 0 (as @ bs)) @ (e, us (val st e)) # drop (length as) (agenda (val st) 0 (as @ bs))"
    "\<forall>x \<in> set (take (length as) (agenda (val st) 0 (as @ bs))). snd x \<le> us (val st e)"
    "\<forall>x \<in> set (drop (length as) (agenda (val st) 0 (as @ bs))). us (val st e) \<le> snd x"
proof -
  have "\<forall>t. agenda (val st') t (as @ e # bs) =
      agenda (val st) t as @ (e, t + us (val st e)) # drop (length as) (agenda (val st) t (as @ bs))"
    "\<forall>t. \<forall>x \<in> set (agenda (val st) t as). snd x \<le> t + us (val st e)"
    "\<forall>t. \<forall>x \<in> set (drop (length as) (agenda (val st) t (as @ bs))). t + us (val st e) \<le> snd x"
    using assms unfolding inserted_def by blast+
  note spec [OF this(1), of 0] spec [OF this(2), of 0] spec [OF this(3), of 0]
  then show "agenda (val st') 0 (as @ e # bs) =
     take (length as) (agenda (val st) 0 (as @ bs)) @ (e, us (val st e)) # drop (length as) (agenda (val st) 0 (as @ bs))"
    "\<forall>x \<in> set (take (length as) (agenda (val st) 0 (as @ bs))). snd x \<le> us (val st e)"
    "\<forall>x \<in> set (drop (length as) (agenda (val st) 0 (as @ bs))). us (val st e) \<le> snd x"
    by (simp_all only: agenda_take add_0)
qed

text \<open>The end of \<open>timer_settime\<close>: the kernel's timer is restarted when the event is the new head.\<close>

definition finished :: "nat \<Rightarrow> bool \<Rightarrow> timeval \<Rightarrow> timers \<Rightarrow> timers" where
  "finished e first r st =
     unblock_timer (upd e (\<lambda>x. x\<lparr>flags := flags x AND NOT TFLAG_CANCELLED\<rparr>)
       (if first then st\<lparr>itimer := r\<rparr> else st))"

lemma finished_simps [simp]:
  "val (finished e b r st) = val st" "link (finished e b r st) = link st"
  "event_queue (finished e b r st) = event_queue st" "event_freelist (finished e b r st) = event_freelist st"
  "g_maxevents (finished e b r st) = g_maxevents st" "g_granularity (finished e b r st) = g_granularity st"
  "cancelled (finished e b r st) x \<longleftrightarrow> x \<noteq> e \<and> cancelled st x"
  "itimer (finished e b r st) = (if b then r else itimer st)"
  by (auto simp: finished_def)

lemma reissue_rounded:
  assumes "granule (g_granularity st)" "wf_tv t" "val st e = timerroundup t (g_granularity st)"
  shows "reissue asserts e st = Inr (st\<lparr>itimer := val st e\<rparr>)"
proof -
  have "set_value e (val st e) st = st" by (simp add: set_value_def upd_def val_def)
  then show ?thesis
    using reissue_ok [of st e asserts] timerroundup_props(1) [OF assms(1,2)] timerroundup_idem [OF assms(1,2)] assms
    by (simp add: Let_def)
qed

lemma settime_run:
  assumes inv: "tinv st q f" "running st q" and e: "e \<notin> set (q @ f)" "int e < g_maxevents st"
    and w: "wf_tv w" "w = timespec_to_timeval v" "timerisset w" and n: "length q < n"
  shows "\<exists>st4 as bs. q = as @ bs \<and> inserted e None as bs (prepared e (timespec_to_timeval interval) w st) st4
    \<and> pending st4 (as @ e # bs) \<and> linked (link st4) (event_freelist st4) f None
    \<and> timer_settime n e interval v st = Inr (finished e (as = []) (timerroundup w (g_granularity st)) st4)"
proof -
  define r where "r = timerroundup w (g_granularity st)"
  define st3 where "st3 = prepared e (timespec_to_timeval interval) w st"
  have g: "granule (g_granularity st)" and pend: "pending st q" using inv(1) by (auto simp: tinv_def)
  have v3: "val st3 x = (if x = e then r else if q \<noteq> [] \<and> x = hd q then itimer st else val st x)" for x
    using prepared_val [OF pend inv(2)] e by (simp add: st3_def r_def)
  have wf3: "\<forall>x \<in> set (e # q). wf_tv (val st3 x)"
    using inv timerroundup_props(1) [OF g w(1)] by (auto simp: v3 r_def tinv_def running_def)
  obtain st4 as bs where m: "march n e None st3 = Inr st4" "q = as @ bs" and i: "inserted e None as bs st3 st4"
      and p4: "pending st4 (as @ e # bs)" and f4: "linked (link st4) (event_freelist st4) f None"
    using march_queue [of st3 q f e n] inv(1) e wf3 n by (auto simp: tinv_def pending_def st3_def)
  have same: "g_maxevents st4 = g_maxevents st" "g_granularity st4 = g_granularity st"
    using i by (auto simp: inserted_def same_rest_def st3_def)
  have chk: "check_event_queue st4 = Inr st4"
    using check_event_queue_ok [OF p4] inv(1) e m(2) same by (auto simp: tinv_def)
  have "(if event_queue st4 = Some e then reissue True e st4 else Inr st4) =
      Inr (if as = [] then st4\<lparr>itimer := r\<rparr> else st4)"
  proof (cases as)
    case Nil
    then have "val st4 e = r" using i by (simp add: inserted_def v3)
    then show ?thesis
      using p4 Nil reissue_rounded [of st4 w e True] g w(1) same by (simp add: pending_def r_def)
  qed (use p4 e m(2) in \<open>auto simp: pending_def\<close>)
  then have "timer_settime n e interval v st = Inr (finished e (as = []) r st4)"
    using timer_settime_prepared [of v n e interval st] w m(1) chk by (simp add: st3_def finished_def)
  then show ?thesis using m(2) i p4 f4 unfolding st3_def r_def by blast
qed

text \<open>
  C30: Arming a timer.  With the kernel's timer running for the head of the queue, \<open>timer_settime\<close> on an
  event that is neither queued nor free returns; the event is then due after the requested time,
  rounded up to the granularity, every event pending before is due exactly when it was, the events
  before it in the queue are due no later and those behind no earlier, and the kernel's timer runs
  for the head.
\<close>

theorem timer_settime_due:
  assumes inv: "tinv st q f" "running st q" and e: "e \<notin> set (q @ f)" "int e < g_maxevents st"
    and v: "0 \<le> ts_sec v" "0 \<le> ts_nsec v" "ts_nsec v < 1000000000" "timerisset (timespec_to_timeval v)"
    and n: "length q < n"
  shows "\<exists>st' as bs d. timer_settime n e interval v st = Inr st' \<and> q = as @ bs
    \<and> d = us (timerroundup (timespec_to_timeval v) (g_granularity st))
    \<and> tinv st' (as @ e # bs) f \<and> running st' (as @ e # bs)
    \<and> due st' (as @ e # bs) = take (length as) (due st q) @ (e, d) # drop (length as) (due st q)
    \<and> (\<forall>x \<in> set (take (length as) (due st q)). snd x \<le> d)
    \<and> (\<forall>x \<in> set (drop (length as) (due st q)). d \<le> snd x)"
proof -
  define w where "w = timespec_to_timeval v"
  define r where "r = timerroundup w (g_granularity st)"
  define st3 where "st3 = prepared e (timespec_to_timeval interval) w st"
  have w: "wf_tv w" unfolding w_def by (rule wf_timespec [OF v(1-3)])
  have g: "granule (g_granularity st)" and pend: "pending st q" using inv(1) by (auto simp: tinv_def)
  have v3: "val st3 x = (if x = e then r else if q \<noteq> [] \<and> x = hd q then itimer st else val st x)" for x
    using prepared_val [OF pend inv(2)] e by (simp add: st3_def r_def)
  have ag: "agenda (val st3) 0 q = due st q"
    unfolding due_def using e by (intro agenda_cong) (auto simp: v3)
  obtain st4 as bs where q: "q = as @ bs" and i: "inserted e None as bs st3 st4"
      and p4: "pending st4 (as @ e # bs)" and f4: "linked (link st4) (event_freelist st4) f None"
      and run: "timer_settime n e interval v st = Inr (finished e (as = []) r st4)"
    using settime_run [OF inv e w w_def] v(4) n unfolding st3_def r_def w_def by blast
  define st' where "st' = finished e (as = []) r st4"
  have same: "g_maxevents st4 = g_maxevents st" "g_granularity st4 = g_granularity st" "itimer st4 = itimer st"
      "cancelled st4 x = cancelled st x" for x
    using i same_rest_cancelled [of st3 st4] by (auto simp: inserted_def same_rest_def st3_def)
  have wf4: "\<forall>x \<in> set (as @ e # bs). wf_tv (val st4 x)" using i by (auto simp: inserted_def)
  have it: "itimer st' = val st' (hd (as @ e # bs))"
    using i same q e by (cases as) (auto simp: st'_def inserted_def v3)
  have t: "tinv st' (as @ e # bs) f"
    using p4 f4 inv(1) wf4 e q same unfolding tinv_def pending_def st'_def by auto
  have "timerisset (itimer st')"
    using inv(2) q timerroundup_props(5) [OF g w] same(3) by (cases as) (auto simp: st'_def r_def running_def)
  then have rn: "running st' (as @ e # bs)"
    using it wf4 by (cases as) (auto simp: running_def st'_def)
  have "due st' (as @ e # bs) = take (length as) (due st q) @ (e, us r) # drop (length as) (due st q)"
      "\<forall>x \<in> set (take (length as) (due st q)). snd x \<le> us r"
      "\<forall>x \<in> set (drop (length as) (due st q)). us r \<le> snd x"
    using inserted_agenda [OF i] ag due_synced [OF it] q by (simp_all add: v3 st'_def)
  then show ?thesis using run q t rn unfolding st'_def r_def w_def by blast
qed

section \<open>Cancelling and deleting\<close>

definition pred :: "nat list \<Rightarrow> nat option" where
  "pred as = (if as = [] then None else Some (last as))"

lemma cancel_walk_found:
  "linked (link st) (slot pp st) (as @ e # bs) None \<Longrightarrow> e \<notin> set as \<Longrightarrow> length as < n \<Longrightarrow>
   cancel_walk n e pp st = cancel_here e (if as = [] then pp else Some (last as)) st"
proof (induction as arbitrary: pp n)
  case Nil
  then show ?case by (cases n) auto
next
  case (Cons a as)
  then obtain m where "n = Suc m" by (cases n) auto
  with Cons show ?case by (auto split: if_splits)
qed

lemma cancel_walk_absent:
  "linked (link st) (slot pp st) q None \<Longrightarrow> e \<notin> set q \<Longrightarrow> length q < n \<Longrightarrow> cancel_walk n e pp st = Inr st"
proof (induction q arbitrary: pp n)
  case Nil
  then show ?case by (cases n) auto
next
  case (Cons a q)
  then obtain m where "n = Suc m" by (cases n) auto
  with Cons show ?case by auto
qed

definition unlink :: "nat \<Rightarrow> nat list \<Rightarrow> timers \<Rightarrow> timers" where
  "unlink e as st = set_nxt e None (set_slot (pred as) (link st e) st)"

lemma unlink_simps [simp]:
  "val (unlink e as st) x = val st x" "event_freelist (unlink e as st) = event_freelist st"
  "g_maxevents (unlink e as st) = g_maxevents st" "g_granularity (unlink e as st) = g_granularity st"
  "itimer (unlink e as st) = itimer st" "cancelled (unlink e as st) x = cancelled st x"
  "flags (ev (unlink e as st) x) = flags (ev st x)"
  by (auto simp: unlink_def pred_def)

lemma unlink_tinv:
  assumes "tinv st (as @ e # bs) f"
  shows "tinv (unlink e as st) (as @ bs) f" "event_queue (unlink e as st) = (if as @ bs = [] then None else Some (hd (as @ bs)))"
    "link (unlink e as st) e = None"
proof -
  show t: "tinv (unlink e as st) (as @ bs) f"
  proof (cases as rule: rev_cases)
    case Nil
    then show ?thesis using assms by (auto simp: tinv_def pending_def unlink_def pred_def)
  next
    case (snoc as' a)
    have "linked (link (unlink e as st)) (event_freelist st) f None"
      using assms snoc by (auto simp: tinv_def unlink_def pred_def)
    moreover have "pending (unlink e as st) (as @ bs)"
      using assms snoc by (auto simp: tinv_def pending_def unlink_def pred_def)
    ultimately show ?thesis using assms by (auto simp: tinv_def)
  qed
  show "event_queue (unlink e as st) = (if as @ bs = [] then None else Some (hd (as @ bs)))"
    using t linked_head [of _ _ "as @ bs"] by (auto simp: tinv_def pending_def simp del: linked_append)
  show "link (unlink e as st) e = None" by (simp add: unlink_def)
qed

text \<open>The event after a cancelled head gets the time the head has already waited.\<close>

definition handed_on :: "nat \<Rightarrow> nat list \<Rightarrow> nat list \<Rightarrow> timers \<Rightarrow> timers" where
  "handed_on e as bs st =
     (if as = [] \<and> bs \<noteq> []
      then (let st = set_value e (timersub (val st e) (itimer st)) st
            in set_value (hd bs) (timeradd (val st (hd bs)) (val st e)) st)
      else st)"

lemma handed_on_simps [simp]:
  "link (handed_on e as bs st) = link st" "event_queue (handed_on e as bs st) = event_queue st"
  "event_freelist (handed_on e as bs st) = event_freelist st" "g_maxevents (handed_on e as bs st) = g_maxevents st"
  "g_granularity (handed_on e as bs st) = g_granularity st" "itimer (handed_on e as bs st) = itimer st"
  "cancelled (handed_on e as bs st) x = cancelled st x" "flags (ev (handed_on e as bs st) x) = flags (ev st x)"
  by (auto simp: handed_on_def Let_def)

lemma wf_timeradd: "wf_tv a \<Longrightarrow> wf_tv b \<Longrightarrow> wf_tv (timeradd a b)"
  by (auto simp: wf_tv_def timeradd_def Let_def)

lemma handed_on_tinv:
  assumes "tinv st (as @ e # bs) f" "running st (as @ e # bs)"
  shows "tinv (handed_on e as bs st) (as @ e # bs) f"
proof (cases "as = [] \<and> bs \<noteq> []")
  case True
  then have wf: "wf_tv (timersub (val st e) (itimer st))"
    using assms by (auto simp: tinv_def running_def intro: wf_timersub_ge)
  have "wf_tv (val (handed_on e as bs st) x)" if "x \<in> set (as @ e # bs)" for x
    using that wf wf_timeradd assms(1) by (auto simp: handed_on_def Let_def tinv_def)
  then show ?thesis using assms(1) by (auto simp: tinv_def pending_def)
qed (use assms in \<open>auto simp: handed_on_def\<close>)

lemma cancel_here_eq:
  assumes "tinv st (as @ e # bs) f"
  shows "cancel_here e (pred as) st =
    (let st = unlink e as (handed_on e as bs st)
     in case event_queue st of Some h \<Rightarrow> reissue True h st | None \<Rightarrow> Inr (st\<lparr>itimer := timerclear\<rparr>))"
proof -
  have l: "link st e = (if bs = [] then None else Some (hd bs))"
    using assms by (cases bs) (auto simp: tinv_def pending_def)
  have h: "event_queue st = Some e \<longleftrightarrow> as = []"
    using assms by (cases as) (auto simp: tinv_def pending_def)
  have "(case link st e of
           Some n \<Rightarrow> if event_queue st = Some e
                    then (let st = set_value e (timersub (val st e) (itimer st)) st
                          in set_value n (timeradd (val st n) (val st e)) st)
                    else st
         | None \<Rightarrow> st) = handed_on e as bs st"
    by (cases "bs = []") (simp_all add: l h handed_on_def)
  then show ?thesis by (simp only: cancel_here_def unlink_def Let_def)
qed

lemma timer_cancel_run:
  assumes inv: "tinv st (as @ e # bs) f" "running st (as @ e # bs)" and n: "length as < n"
  shows "\<exists>st1. st1 = unlink e as (handed_on e as bs (block_timer st)) \<and>
    timer_cancel n e st = Inr (unblock_timer (upd e (\<lambda>x. x\<lparr>flags := flags x OR TFLAG_CANCELLED\<rparr>)
      (case as @ bs of
         [] \<Rightarrow> st1\<lparr>itimer := timerclear\<rparr>
       | h # _ \<Rightarrow> (let v = timerroundup (val st1 h) (g_granularity st) in (set_value h v st1)\<lparr>itimer := v\<rparr>))))"
proof -
  let ?b = "block_timer st"
  define st1 where "st1 = unlink e as (handed_on e as bs ?b)"
  have b: "tinv ?b (as @ e # bs) f" "running ?b (as @ e # bs)"
    using inv by (simp_all add: tinv_def pending_def running_def)
  have t1: "tinv st1 (as @ bs) f" "event_queue st1 = (if as @ bs = [] then None else Some (hd (as @ bs)))"
    unfolding st1_def by (rule unlink_tinv [OF handed_on_tinv [OF b]])+
  have "\<not> cancelled st e" using inv(1) by (simp add: tinv_def)
  moreover have "cancel_walk n e None ?b = cancel_here e (pred as) ?b"
    using b n cancel_walk_found [of ?b None as e bs n] by (auto simp: tinv_def pending_def pred_def)
  moreover have "cancel_here e (pred as) ?b =
      Inr (case as @ bs of
         [] \<Rightarrow> st1\<lparr>itimer := timerclear\<rparr>
       | h # _ \<Rightarrow> (let v = timerroundup (val st1 h) (g_granularity st) in (set_value h v st1)\<lparr>itimer := v\<rparr>))"
  proof (cases "as @ bs")
    case (Cons h q)
    have "granule (g_granularity st1)" "wf_tv (val st1 h)" using t1(1) Cons by (auto simp: tinv_def)
    then show ?thesis
      using cancel_here_eq [OF b(1)] t1(2) Cons reissue_ok [of st1 h True]
      by (simp add: st1_def [symmetric] Let_def) (simp add: st1_def)
  qed (use cancel_here_eq [OF b(1)] t1(2) in \<open>simp add: st1_def Let_def\<close>)
  ultimately show ?thesis unfolding timer_cancel_def cancelled_def st1_def by (intro exI conjI) (rule refl, simp)
qed

text \<open>What cancelling the queued event e leaves: the deltas of the other events, with the one of the new
  head set to v and the kernel's timer running for v.\<close>

definition left :: "nat \<Rightarrow> nat list \<Rightarrow> nat list \<Rightarrow> timeval \<Rightarrow> timers \<Rightarrow> timers \<Rightarrow> bool" where
  "left e q f v st st' \<longleftrightarrow> tinv st' q f \<and> running st' q \<and> cancelled st' e \<and> link st' e = None
     \<and> flags (ev st' e) = flags (ev st e) OR TFLAG_CANCELLED
     \<and> g_maxevents st' = g_maxevents st
     \<and> due st' q = agenda ((val st)(hd q := v)) 0 q"

lemma tinv_cancelled_flag:
  "tinv st q f \<Longrightarrow> e \<notin> set q \<Longrightarrow> tinv (unblock_timer (upd e (\<lambda>x. x\<lparr>flags := flags x OR TFLAG_CANCELLED\<rparr>) st)) q f"
  by (auto simp: tinv_def pending_def)

lemma tinv_restart:
  "tinv st q f \<Longrightarrow> wf_tv v \<Longrightarrow> tinv ((set_value h v st)\<lparr>itimer := v\<rparr>) q f"
  by (auto simp: tinv_def pending_def)

lemma timer_cancel_left:
  assumes inv: "tinv st (as @ e # bs) f" "running st (as @ e # bs)" and n: "length as < n" and q: "as @ bs = h # q"
  shows "\<exists>st'. timer_cancel n e st = Inr st' \<and>
    left e (h # q) f (timerroundup (val (handed_on e as bs st) h) (g_granularity st)) st st'"
proof -
  define st1 where "st1 = unlink e as (handed_on e as bs (block_timer st))"
  have b: "tinv (block_timer st) (as @ e # bs) f" "running (block_timer st) (as @ e # bs)"
    using inv by (simp_all add: tinv_def pending_def running_def)
  have t1: "tinv st1 (h # q) f" "link st1 e = None"
    unfolding st1_def using unlink_tinv [OF handed_on_tinv [OF b]] q by simp_all
  have g: "granule (g_granularity st)" using inv(1) by (simp add: tinv_def)
  have h: "val st1 h = val (handed_on e as bs st) h" "wf_tv (val st1 h)"
    using t1(1) by (auto simp: st1_def tinv_def handed_on_def)
  define v where "v = timerroundup (val st1 h) (g_granularity st)"
  have v: "wf_tv v" "timerisset v" unfolding v_def by (rule timerroundup_props [OF g h(2)])+
  define st' where "st' = unblock_timer (upd e (\<lambda>x. x\<lparr>flags := flags x OR TFLAG_CANCELLED\<rparr>)
      ((set_value h v st1)\<lparr>itimer := v\<rparr>))"
  have run: "timer_cancel n e st = Inr st'"
    using timer_cancel_run [OF inv n] by (simp add: q st1_def [symmetric] v_def [symmetric] Let_def st'_def)
  have e: "e \<notin> set (h # q)" using inv(1) q [symmetric] by (simp add: tinv_def pending_def)
  have t': "tinv st' (h # q) f"
    unfolding st'_def by (intro tinv_cancelled_flag tinv_restart t1 v e)
  have val': "val st' x = ((val st)(h := v)) x" if "x \<in> set (h # q)" for x
    using that e q by (auto simp: st'_def st1_def handed_on_def Let_def split: if_splits)
  have "due st' (h # q) = agenda ((val st)(h := v)) 0 (h # q)"
    unfolding due_def
  proof (rule agenda_cong)
    fix x assume "x \<in> set (h # q)"
    then show "us (((val st')(hd (h # q) := itimer st')) x) = us (((val st)(h := v)) x)"
      using val' [of x] by (cases "x = h") (simp_all add: st'_def)
  qed
  moreover have "running st' (h # q)" using v by (simp add: running_def st'_def)
  moreover have "cancelled st' e" "link st' e = None" "flags (ev st' e) = flags (ev st e) OR TFLAG_CANCELLED"
      "g_maxevents st' = g_maxevents st"
    using t1(2) e by (simp_all add: st'_def cancelled_def st1_def)
      (auto simp: TFLAG_CANCELLED_def bit.conj_disj_distrib2)
  ultimately show ?thesis using run t' unfolding left_def v_def h(1) by auto
qed

text \<open>
  Cancelling the next event to expire, with another event pending behind it.  \<open>timer_cancel\<close> adds to
  the delta of the following event what the head has already waited, its it_value less the time the
  kernel's timer has left, not the time it still had to wait.  So the following event, which was due
  after itimer + delta, is now due after delta + (it_value - itimer), rounded up; every event after it keeps
  its distance from it.
\<close>

theorem timer_cancel_head:
  assumes "tinv st (e # b # bs) f" "running st (e # b # bs)" "0 < n"
  shows "\<exists>st'. timer_cancel n e st = Inr st' \<and> tinv st' (b # bs) f \<and> running st' (b # bs) \<and> cancelled st' e
    \<and> due st (e # b # bs) = agenda ((val st)(e := itimer st)) 0 (e # b # bs)
    \<and> due st' (b # bs) = agenda ((val st)(b := timerroundup
         (timeradd (val st b) (timersub (val st e) (itimer st))) (g_granularity st))) 0 (b # bs)"
proof -
  have "val (handed_on e [] (b # bs) st) b = timeradd (val st b) (timersub (val st e) (itimer st))"
    using assms(1) by (auto simp: handed_on_def tinv_def pending_def)
  then show ?thesis
    using timer_cancel_left [of st "[]" e "b # bs" f n b bs] assms by (auto simp: left_def due_def)
qed

text \<open>
  Cancelling an event that is not the next to expire: the deltas of the events behind it stay as they
  are, so each of them is due earlier by the delta of the cancelled event; and the kernel's timer is
  restarted with the whole delta of the head, so that the time already waited is waited again.
\<close>

theorem timer_cancel_later:
  assumes "tinv st (a # as @ e # bs) f" "running st (a # as @ e # bs)" "Suc (length as) < n"
  shows "\<exists>st'. timer_cancel n e st = Inr st' \<and> tinv st' (a # as @ bs) f \<and> running st' (a # as @ bs) \<and> cancelled st' e
    \<and> due st' (a # as @ bs) =
        agenda ((val st)(a := timerroundup (val st a) (g_granularity st))) 0 (a # as @ bs)"
  using timer_cancel_left [of st "a # as" e bs f n a "as @ bs"] assms
  by (auto simp: left_def handed_on_def)

lemma timer_cancel_only:
  assumes "tinv st [e] f" "running st [e]" "0 < n"
  shows "\<exists>st'. timer_cancel n e st = Inr st' \<and> tinv st' [] f \<and> cancelled st' e \<and> itimer st' = timerclear
    \<and> link st' e = None \<and> flags (ev st' e) = flags (ev st e) OR TFLAG_CANCELLED \<and> g_maxevents st' = g_maxevents st"
proof -
  define st1 where "st1 = unlink e [] (handed_on e [] [] (block_timer st))"
  have b: "tinv (block_timer st) ([] @ e # []) f" "running (block_timer st) ([] @ e # [])"
    using assms by (simp_all add: tinv_def pending_def running_def)
  have t1: "tinv st1 [] f" "link st1 e = None"
    unfolding st1_def using unlink_tinv [OF handed_on_tinv [OF b]] by simp_all
  have "timer_cancel n e st = Inr (unblock_timer (upd e (\<lambda>x. x\<lparr>flags := flags x OR TFLAG_CANCELLED\<rparr>) (st1\<lparr>itimer := timerclear\<rparr>)))"
    using timer_cancel_run [of st "[]" e "[]" f n] assms by (simp add: st1_def)
  then show ?thesis
    using t1 tinv_cancelled_flag [of "st1\<lparr>itimer := timerclear\<rparr>" "[]" f e]
    by (auto simp: tinv_def pending_def) (simp_all add: st1_def cancelled_def)
qed

text \<open>Cancelling in general, for the invariant.\<close>

lemma deleted_or_cancelled [simp]: "(w OR TFLAG_CANCELLED) AND TFLAG_DELETED = w AND TFLAG_DELETED"
  by (simp add: TFLAG_CANCELLED_def TFLAG_DELETED_def bit.conj_disj_distrib2)

lemma timer_cancel_inv:
  assumes inv: "tinv st q f" "running st q" and n: "length q < n"
  shows "\<exists>st'. timer_cancel n e st = Inr st' \<and> tinv st' (remove1 e q) f \<and> running st' (remove1 e q)
    \<and> cancelled st' e \<and> deleted st' e = deleted st e \<and> g_maxevents st' = g_maxevents st"
proof (cases "e \<in> set q")
  case True
  then obtain as bs where q: "q = as @ e # bs" by (meson split_list)
  have r: "remove1 e q = as @ bs" using inv(1) by (auto simp: q tinv_def pending_def remove1_append)
  show ?thesis
  proof (cases "as @ bs")
    case Nil
    then show ?thesis
      using timer_cancel_only [of st e f n] inv n r by (auto simp: q running_def deleted_def)
  next
    case (Cons h p)
    then show ?thesis
      using timer_cancel_left [of st as e bs f n h p] inv n r by (auto simp: q left_def deleted_def)
  qed
next
  case False
  define st' where "st' = (if cancelled st e then st else
    unblock_timer (upd e (\<lambda>x. x\<lparr>flags := flags x OR TFLAG_CANCELLED\<rparr>) (block_timer st)))"
  have "cancel_walk n e None (block_timer st) = Inr (block_timer st)"
    using inv(1) n False by (intro cancel_walk_absent [of _ _ q]) (auto simp: tinv_def pending_def)
  then have "timer_cancel n e st = Inr st'"
    by (auto simp: timer_cancel_def st'_def cancelled_def)
  moreover have "tinv st' q f"
    using inv(1) False tinv_cancelled_flag [of "block_timer st" q f e] by (auto simp: st'_def tinv_def pending_def)
  moreover have "running st' q" "cancelled st' e" "deleted st' e = deleted st e" "g_maxevents st' = g_maxevents st"
    using inv(2) by (auto simp: st'_def running_def deleted_def)
  ultimately show ?thesis using False by (auto simp: remove1_idem)
qed

lemma deleted_flag [simp]: "deleted (upd e (\<lambda>x. x\<lparr>flags := flags x OR TFLAG_DELETED\<rparr>) st) e"
  by (simp add: deleted_def TFLAG_DELETED_def bit.conj_disj_distrib2)

lemma timer_create_ok:
  assumes "tinv st q (e # f)"
  shows "\<exists>st'. timer_create CLOCK_REALTIME None st = Inr (st', e) \<and> tinv st' q f \<and> due st' q = due st q
    \<and> running st' q = running st q \<and> \<not> cancelled st' e \<and> \<not> deleted st' e \<and> link st' e = None"
proof -
  define st1 where "st1 = upd e (\<lambda>x. x\<lparr>flags := TFLAG_NONE\<rparr>) st"
  define st' where "st' = set_nxt e None (st1\<lparr>event_freelist := link st1 e\<rparr>)"
  have v: "val st' = val st" by (simp add: fun_eq_iff st'_def st1_def)
  have l: "link st' = (link st)(e := None)" "event_queue st' = event_queue st" "event_freelist st' = link st e"
    by (simp_all add: st'_def st1_def)
  have c: "cancelled st' x \<longleftrightarrow> x \<noteq> e \<and> cancelled st x" "\<not> deleted st' e" for x
    by (auto simp: st'_def st1_def cancelled_def deleted_def TFLAG_NONE_def)
  have i: "itimer st' = itimer st" "g_maxevents st' = g_maxevents st" "g_granularity st' = g_granularity st"
    by (simp_all add: st'_def st1_def)
  have t: "tinv st' q f" using assms by (auto simp: tinv_def pending_def v l c i)
  have "event_freelist st = Some e" using assms by (simp add: tinv_def)
  moreover have "check_event_queue st' = Inr st'" using t by (intro check_event_queue_ok) (auto simp: tinv_def)
  ultimately have "timer_create CLOCK_REALTIME None st = Inr (st', e)"
    unfolding timer_create_def by (simp add: st1_def [symmetric] st'_def [symmetric] Let_def)
  then show ?thesis using t c l v i by (auto simp: due_def running_def)
qed

lemma timer_create_exhausted: "tinv st q [] \<Longrightarrow> timer_create CLOCK_REALTIME None st = Inl Assertion"
  by (simp add: timer_create_def tinv_def)

text \<open>
  Deleting a timer, pending or not, takes it out of the queue and puts it in front of the freelist, from
  which \<open>timer_create\<close> takes it again; the invariant is kept, the result is 0, and a second
  \<open>timer_delete\<close> changes nothing and returns 1.
\<close>

theorem timer_delete_recycles:
  assumes inv: "tinv st q f" "running st q" and e: "e \<notin> set f" "int e < g_maxevents st" "\<not> deleted st e"
    and n: "length q < n"
  shows "\<exists>st' st''. timer_delete n e st = Inr (st', 0) \<and> tinv st' (remove1 e q) (e # f) \<and> running st' (remove1 e q)
    \<and> timer_delete n e st' = Inr (st', 1)
    \<and> timer_create CLOCK_REALTIME None st' = Inr (st'', e) \<and> tinv st'' (remove1 e q) f"
proof -
  obtain st1 where c: "timer_cancel n e st = Inr st1" "tinv st1 (remove1 e q) f" "running st1 (remove1 e q)"
      "cancelled st1 e" "g_maxevents st1 = g_maxevents st"
    using timer_cancel_inv [OF inv n, of e] by blast
  define st2 where "st2 = upd e (\<lambda>x. x\<lparr>flags := flags x OR TFLAG_DELETED\<rparr>) st1"
  define st' where "st' = (set_nxt e (event_freelist st1) st2)\<lparr>event_freelist := Some e\<rparr>"
  have d: "timer_delete n e st = Inr (st', 0)"
    using c(1) e(3) by (simp add: timer_delete_def deleted_def st'_def st2_def Let_def)
  have nq: "e \<notin> set (remove1 e q)" using inv(1) by (simp add: tinv_def pending_def)
  have v: "\<forall>x \<in> set (remove1 e q). cancelled st' x = cancelled st1 x"
    using nq by (auto simp: st'_def st2_def cancelled_def)
  have l: "link st' = (link st1)(e := event_freelist st1)" "event_queue st' = event_queue st1"
      "event_freelist st' = Some e" "g_maxevents st' = g_maxevents st" "g_granularity st' = g_granularity st1"
      "itimer st' = itimer st1" "val st' = val st1"
    using c(5) by (auto simp: st'_def st2_def fun_eq_iff)
  have t': "tinv st' (remove1 e q) (e # f)" "running st' (remove1 e q)"
    using c(2,3,5) nq e v by (auto simp: tinv_def pending_def l running_def)
  have "deleted st' e" unfolding st'_def using deleted_flag [of e st1] by (simp add: deleted_def st2_def)
  then have "timer_delete n e st' = Inr (st', 1)" by (simp add: timer_delete_def deleted_def)
  then show ?thesis using d t' timer_create_ok [OF t'(1)] by blast
qed

section \<open>Start, arming twice and the alarm\<close>

lemma init_chain:
  "i < n \<Longrightarrow> n - i = Suc k \<Longrightarrow> (\<And>j. L j = (if Suc j < n then Some (Suc j) else None)) \<Longrightarrow> linked L (Some i) [i..<n] None"
proof (induction k arbitrary: i)
  case 0
  then have "[i..<n] = [i]" by (simp add: upt_conv_Cons)
  then show ?case using 0 by simp
next
  case (Suc k)
  then have "[i..<n] = i # [Suc i..<n]" "Suc i < n" by (simp_all add: upt_conv_Cons)
  then show ?case using Suc.IH [of "Suc i"] Suc.prems by simp
qed

lemma init_event_queue_inv:
  assumes "0 < n" "granule tick"
  shows "tinv (init_event_queue tick (int n)) [] [0..<n] \<and> running (init_event_queue tick (int n)) []"
proof -
  let ?st = "init_event_queue tick (int n)"
  have "link ?st j = (if Suc j < n then Some (Suc j) else None)" for j
    by (auto simp: init_event_queue_def link_def)
  then have "linked (link ?st) (Some 0) [0..<n] None"
    using assms(1) by (intro init_chain [of 0 n "n - 1"]) auto
  moreover have "event_freelist ?st = Some 0" "event_queue ?st = None" "g_maxevents ?st = int n" "g_granularity ?st = tick"
    by (simp_all add: init_event_queue_def)
  ultimately show ?thesis using assms(2) by (simp add: tinv_def pending_def running_def)
qed

lemma check_walk_cycle: "link st e = Some e \<Longrightarrow> check_walk i (Some e) st = Inl Exit"
proof (induction "nat (g_maxevents st + 1 - i)" arbitrary: i)
  case 0
  then show ?case by simp
next
  case (Suc k)
  have "check_walk (i + 1) (Some e) st = Inl Exit"
    by (rule Suc.hyps(1)) (use Suc.hyps(2) Suc.prems in auto)
  then show ?case by (simp only: check_walk.simps(2) [of i e st] Suc.prems if_cancel)
qed

text \<open>
  Arming a timer that is already the only one in the queue: the march passes the event itself and links
  it behind itself, and \<open>check_event_queue\<close> then finds the ring and ends the process.
\<close>

theorem timer_settime_twice_exits:
  assumes "pending st [e]" "timerisset (timespec_to_timeval v)" "1 < n"
  shows "timer_settime n e interval v st = Inl Exit"
proof -
  define st3 where "st3 = prepared e (timespec_to_timeval interval) (timespec_to_timeval v) st"
  have q: "event_queue st3 = Some e" "link st3 e = None" using assms(1) by (simp_all add: st3_def pending_def)
  obtain m where n: "n = Suc (Suc m)" using assms(3) by (cases n; cases "n - 1") auto
  define st4 where "st4 = link_in e (Some e) (set_value e (timersub (val st3 e) (val st3 e)) st3)"
  have "march n e None st3 = Inr st4" using q by (simp add: n st4_def)
  moreover have l: "link st4 e = Some e" "event_queue st4 = Some e" using q by (simp_all add: st4_def link_in_def Let_def)
  have "check_event_queue st4 = Inl Exit"
    unfolding check_event_queue_def l(2) by (rule check_walk_cycle [OF l(1)])
  ultimately show ?thesis using timer_settime_prepared [OF assms(2)] by (simp add: st3_def)
qed

text \<open>The event at the head of the queue has expired; its callback does not touch the timers.\<close>

definition inert :: "(nat option \<Rightarrow> nat \<Rightarrow> int \<Rightarrow> timers \<Rightarrow> terr + timers) \<Rightarrow> bool" where
  "inert callback \<longleftrightarrow> (\<forall>fn e a st. callback fn e a st = Inr st)"

definition popped :: "nat \<Rightarrow> timers \<Rightarrow> timers" where
  "popped e st = set_nxt e None (st\<lparr>event_queue := link st e\<rparr>)"

lemma popped_tinv:
  "tinv st (e # q) f \<Longrightarrow> tinv (popped e st) q f"
  by (auto simp: tinv_def pending_def popped_def)

lemma popped_simps [simp]:
  "val (popped e st) x = val st x" "g_granularity (popped e st) = g_granularity st"
  "flags (ev (popped e st) x) = flags (ev st x)" "it_interval (ev (popped e st) x) = it_interval (ev st x)"
  "g_maxevents (popped e st) = g_maxevents st" "itimer (popped e st) = itimer st"
  by (auto simp: popped_def)

lemma alarm_once_inert:
  assumes "tinv st (e # q) f" "inert callback"
  shows "alarm_once callback n st =
    rthen (if timerisset (it_interval (ev st e))
           then march n e None (set_value e (timerroundup (it_interval (ev st e)) (g_granularity st)) (popped e st))
           else Inr (popped e st)) check_event_queue"
proof -
  have "event_queue st = Some e" "flags (ev st e) AND TFLAG_CANCELLED = 0"
    using assms(1) by (auto simp: tinv_def pending_def cancelled_def)
  then show ?thesis
    using assms(2) unfolding alarm_once_def inert_def by (simp add: popped_def [symmetric] Let_def)
qed

text \<open>
  A periodic event that expires is queued again for its interval, rounded up to the granularity, counted
  from the moment it was due; all other events are due when they were.
\<close>

theorem alarm_once_periodic:
  assumes inv: "tinv st (e # q) f" and cb: "inert callback" and n: "length q < n"
    and i: "timerisset (it_interval (ev st e))" "wf_tv (it_interval (ev st e))"
  shows "\<exists>st' as bs d. alarm_once callback n st = Inr st' \<and> q = as @ bs
    \<and> d = us (timerroundup (it_interval (ev st e)) (g_granularity st)) \<and> tinv st' (as @ e # bs) f
    \<and> agenda (val st') 0 (as @ e # bs) = take (length as) (agenda (val st) 0 q) @ (e, d) # drop (length as) (agenda (val st) 0 q)
    \<and> (\<forall>x \<in> set (take (length as) (agenda (val st) 0 q)). snd x \<le> d)
    \<and> (\<forall>x \<in> set (drop (length as) (agenda (val st) 0 q)). d \<le> snd x)"
proof -
  define r where "r = timerroundup (it_interval (ev st e)) (g_granularity st)"
  define st1 where "st1 = set_value e r (popped e st)"
  have g: "granule (g_granularity st)" and e: "e \<notin> set (q @ f)" "int e < g_maxevents st" "\<not> cancelled st e"
    using inv by (auto simp: tinv_def)
  have t1: "tinv (popped e st) q f" by (rule popped_tinv [OF inv])
  have v1: "val st1 x = (if x = e then r else val st x)" for x by (simp add: st1_def)
  have r: "wf_tv r" unfolding r_def by (rule timerroundup_props(1) [OF g i(2)])
  have q1: "pending st1 q" "linked (link st1) (event_freelist st1) f None" "distinct (q @ f)"
    using t1 by (simp_all add: tinv_def pending_def st1_def)
  have wf1: "\<forall>x \<in> set (e # q). wf_tv (val st1 x)" using inv r by (auto simp: v1 tinv_def)
  obtain st' as bs where m: "march n e None st1 = Inr st'" "q = as @ bs" and ins: "inserted e None as bs st1 st'"
      and p: "pending st' (as @ e # bs)" and fl: "linked (link st') (event_freelist st') f None"
    using march_queue [OF q1 e(1) wf1 n] by blast
  have same: "g_maxevents st' = g_maxevents st" "g_granularity st' = g_granularity st" "cancelled st' x = cancelled st x" for x
    using ins same_rest_cancelled [of st1 st' x] by (auto simp: inserted_def same_rest_def st1_def cancelled_def)
  have ids: "\<forall>x \<in> set (as @ e # bs). int x < g_maxevents st'" using inv m(2) same by (auto simp: tinv_def)
  have run: "alarm_once callback n st = Inr st'"
    using alarm_once_inert [OF inv cb, of n] i(1) m(1) check_event_queue_ok [OF p ids] by (simp add: st1_def r_def)
  have t': "tinv st' (as @ e # bs) f"
    using p fl inv ids e m(2) ins g unfolding tinv_def same by (auto simp: inserted_def)
  have ag: "agenda (val st1) 0 q = agenda (val st) 0 q" using e by (intro agenda_cong) (auto simp: v1)
  show ?thesis using run m(2) t' inserted_agenda [OF ins] ag unfolding r_def [symmetric] by (auto simp: v1)
qed










section \<open>A run\<close>

text \<open>Four events and a tick of 10 ms: event 0 was armed two seconds ago for ten seconds, event 1 for five
  seconds more, event 2 is idle and event 3 is free.\<close>

definition secs :: "int \<Rightarrow> timeval" where
  "secs n = \<lparr>tv_sec = n, tv_usec = 0\<rparr>"

definition demo :: timers where
  "demo = \<lparr>ev = (\<lambda>i. zero_event\<lparr>it_value := if i = 0 then secs 10 else if i = 1 then secs 5 else timerclear,
                                nxt := if i = 0 then Some 1 else None\<rparr>),
           event_queue = Some 0, event_freelist = Some 3, g_granularity = 10000, g_maxevents = 4,
           itimer = secs 8, block_count = 0, blocked = False\<rparr>"

lemma demo_simps [simp]:
  "link demo i = (if i = 0 then Some 1 else None)"
  "val demo i = (if i = 0 then secs 10 else if i = 1 then secs 5 else timerclear)"
  "event_queue demo = Some 0" "event_freelist demo = Some 3" "g_granularity demo = 10000" "g_maxevents demo = 4"
  "itimer demo = secs 8" "flags (ev demo i) = 0" "it_interval (ev demo i) = timerclear"
  by (simp_all add: demo_def link_def val_def zero_event_def)

lemma secs_simps [simp]: "us (secs n) = n * 1000000" "tv_sec (secs n) = n" "tv_usec (secs n) = 0"
  by (simp_all add: secs_def us_def)

lemma demo_inv: "tinv demo [0, 1] [3]" "running demo [0, 1]" "\<not> cancelled demo i" "\<not> deleted demo i"
  by (simp_all add: tinv_def pending_def granule_def wf_tv_def cancelled_def deleted_def running_def timerisset_def timerless_def)

lemma demo_due: "due demo [0, 1] = [(0, 8000000), (1, 13000000)]"
  by (simp add: due_def)

theorem timer_settime_due_witness:
  "\<exists>st' as bs. timer_settime 3 2 \<lparr>ts_sec = 0, ts_nsec = 0\<rparr> \<lparr>ts_sec = 9, ts_nsec = 0\<rparr> demo = Inr st' \<and> [0, 1] = as @ bs
    \<and> due st' (as @ 2 # bs) = take (length as) [(0, 8000000), (1, 13000000)] @ (2, 9000000) # drop (length as) [(0, 8000000), (1, 13000000)]"
proof -
  have w: "timespec_to_timeval \<lparr>ts_sec = 9, ts_nsec = 0\<rparr> = secs 9" by (simp add: timespec_to_timeval_def secs_def)
  have r: "us (timerroundup (secs 9) 10000) = 9000000" by (simp add: timerroundup_def timerisset_def)
  have a: "2 \<notin> set ([0, 1] @ [3 :: nat])" "int 2 < g_maxevents demo" "0 \<le> ts_sec \<lparr>ts_sec = 9, ts_nsec = 0\<rparr>"
      "0 \<le> ts_nsec \<lparr>ts_sec = 9, ts_nsec = 0\<rparr>" "length [0, 1 :: nat] < 3" "timerisset (secs 9)"
      "ts_nsec \<lparr>ts_sec = 9, ts_nsec = 0\<rparr> < 1000000000"
    by (simp_all add: timerisset_def)
  show ?thesis
    using timer_settime_due [OF demo_inv(1,2), of 2 "\<lparr>ts_sec = 9, ts_nsec = 0\<rparr>" 3 "\<lparr>ts_sec = 0, ts_nsec = 0\<rparr>",
        OF a(1-4) a(7) _ a(5)]
    unfolding w demo_simps(5) r demo_due using a(6) by blast
qed

theorem timer_cancel_head_witness:
  "\<exists>st'. timer_cancel 1 0 demo = Inr st' \<and> due demo [0, 1] = [(0, 8000000), (1, 13000000)] \<and> due st' [1] = [(1, 7000000)]"
proof -
  have "timerroundup (timeradd (secs 5) (timersub (secs 10) (secs 8))) 10000 = secs 7"
    by (simp add: timeradd_def timersub_def Let_def timerroundup_def timerisset_def secs_def)
  then show ?thesis
    using timer_cancel_head [of demo 0 1 "[]" "[3]" 1] demo_inv by (auto simp: demo_due)
qed

theorem timer_cancel_later_witness:
  "\<exists>st'. timer_cancel 2 1 demo = Inr st' \<and> due st' [0] = [(0, 10000000)]"
proof -
  have "us (timerroundup (secs 10) 10000) = 10000000" by (simp add: timerroundup_def timerisset_def)
  then show ?thesis
    using timer_cancel_later [of demo 0 "[]" 1 "[]" "[3]" 2] demo_inv by auto
qed

theorem timer_delete_recycles_witness:
  "\<exists>st' st''. timer_delete 3 1 demo = Inr (st', 0) \<and> tinv st' [0] [1, 3] \<and> timer_delete 3 1 st' = Inr (st', 1)
    \<and> timer_create CLOCK_REALTIME None st' = Inr (st'', 1)"
  using timer_delete_recycles [OF demo_inv(1,2), of 1 3] demo_inv(4) by auto

theorem timer_settime_twice_exits_witness:
  "timer_settime 2 0 \<lparr>ts_sec = 0, ts_nsec = 0\<rparr> \<lparr>ts_sec = 9, ts_nsec = 0\<rparr> (set_nxt 0 None demo) = Inl Exit"
  by (rule timer_settime_twice_exits) (simp_all add: pending_def timerisset_def timespec_to_timeval_def)

definition do_nothing :: "nat option \<Rightarrow> nat \<Rightarrow> int \<Rightarrow> timers \<Rightarrow> terr + timers" where
  "do_nothing fn e a st = Inr st"

lemma inert_do_nothing: "inert do_nothing"
  by (simp add: inert_def do_nothing_def)

definition demo_periodic :: timers where
  "demo_periodic = upd 0 (\<lambda>x. x\<lparr>it_interval := secs 7\<rparr>) demo"

theorem alarm_once_periodic_witness:
  "\<exists>st' as bs. alarm_once do_nothing 2 demo_periodic = Inr st' \<and> [1] = as @ bs
    \<and> agenda (val st') 0 (as @ 0 # bs) = take (length as) [(1, 5000000)] @ (0, 7000000) # drop (length as) [(1, 5000000)]"
proof -
  have p: "val demo_periodic = val demo" "link demo_periodic = link demo" "cancelled demo_periodic i = cancelled demo i"
      "it_interval (ev demo_periodic 0) = secs 7" "g_granularity demo_periodic = 10000" for i
    by (auto simp: demo_periodic_def val_def link_def cancelled_def)
  have t: "tinv demo_periodic [0, 1] [3]"
    using demo_inv unfolding tinv_def pending_def p by (simp add: demo_periodic_def)
  have r: "us (timerroundup (secs 7) 10000) = 7000000" by (simp add: timerroundup_def timerisset_def)
  show ?thesis
    using alarm_once_periodic [OF t inert_do_nothing, of 2]
    by (simp add: p r timerisset_def wf_tv_def) blast
qed





end
