(* ===== verification/Bcm_Crc.thy ===== *)
theory Bcm_Crc
  imports Prelude
begin

text \<open>
  The cyclic redundancy checks of src/broadcom/src/shared/bcmutils.c: the three 256-entry
  tables, the byte loops \<open>hndcrc8\<close>, \<open>hndcrc16\<close> and \<open>hndcrc32\<close>, and the word-at-a-time
  variant of \<open>hndcrc32\<close> that the MIPS build compiles.  A pair (pdata, nbytes) is the list of
  the nbytes bytes at pdata; the MIPS variant, whose behaviour depends on the alignment of
  pdata, is modelled on an explicit memory instead.

  The reference is long division by the generator polynomial, one bit at a time
  (\<open>crc_bit\<close>).  The locale \<open>crc_code\<close> states what a table has to satisfy, and proves once
  that the table-driven loop is the long division, that it is injective on short bursts and
  that appending the complemented checksum gives the documented residue; it is interpreted on
  the three tables of the source.
\<close>

section \<open>The tables and loops of bcmutils.c\<close>

definition CRC8_INIT_VALUE :: u8 where "CRC8_INIT_VALUE = 0xff"
definition CRC8_GOOD_VALUE :: u8 where "CRC8_GOOD_VALUE = 0x9f"
definition CRC16_INIT_VALUE :: u16 where "CRC16_INIT_VALUE = 0xffff"
definition CRC16_GOOD_VALUE :: u16 where "CRC16_GOOD_VALUE = 0xf0b8"
definition CRC32_INIT_VALUE :: u32 where "CRC32_INIT_VALUE = 0xffffffff"
definition CRC32_GOOD_VALUE :: u32 where "CRC32_GOOD_VALUE = 0xdebb20e3"

definition crc8_table :: "u8 list" where
  "crc8_table = [
    0x00, 0xF7, 0xB9, 0x4E, 0x25, 0xD2, 0x9C, 0x6B,
    0x4A, 0xBD, 0xF3, 0x04, 0x6F, 0x98, 0xD6, 0x21,
    0x94, 0x63, 0x2D, 0xDA, 0xB1, 0x46, 0x08, 0xFF,
    0xDE, 0x29, 0x67, 0x90, 0xFB, 0x0C, 0x42, 0xB5,
    0x7F, 0x88, 0xC6, 0x31, 0x5A, 0xAD, 0xE3, 0x14,
    0x35, 0xC2, 0x8C, 0x7B, 0x10, 0xE7, 0xA9, 0x5E,
    0xEB, 0x1C, 0x52, 0xA5, 0xCE, 0x39, 0x77, 0x80,
    0xA1, 0x56, 0x18, 0xEF, 0x84, 0x73, 0x3D, 0xCA,
    0xFE, 0x09, 0x47, 0xB0, 0xDB, 0x2C, 0x62, 0x95,
    0xB4, 0x43, 0x0D, 0xFA, 0x91, 0x66, 0x28, 0xDF,
    0x6A, 0x9D, 0xD3, 0x24, 0x4F, 0xB8, 0xF6, 0x01,
    0x20, 0xD7, 0x99, 0x6E, 0x05, 0xF2, 0xBC, 0x4B,
    0x81, 0x76, 0x38, 0xCF, 0xA4, 0x53, 0x1D, 0xEA,
    0xCB, 0x3C, 0x72, 0x85, 0xEE, 0x19, 0x57, 0xA0,
    0x15, 0xE2, 0xAC, 0x5B, 0x30, 0xC7, 0x89, 0x7E,
    0x5F, 0xA8, 0xE6, 0x11, 0x7A, 0x8D, 0xC3, 0x34,
    0xAB, 0x5C, 0x12, 0xE5, 0x8E, 0x79, 0x37, 0xC0,
    0xE1, 0x16, 0x58, 0xAF, 0xC4, 0x33, 0x7D, 0x8A,
    0x3F, 0xC8, 0x86, 0x71, 0x1A, 0xED, 0xA3, 0x54,
    0x75, 0x82, 0xCC, 0x3B, 0x50, 0xA7, 0xE9, 0x1E,
    0xD4, 0x23, 0x6D, 0x9A, 0xF1, 0x06, 0x48, 0xBF,
    0x9E, 0x69, 0x27, 0xD0, 0xBB, 0x4C, 0x02, 0xF5,
    0x40, 0xB7, 0xF9, 0x0E, 0x65, 0x92, 0xDC, 0x2B,
    0x0A, 0xFD, 0xB3, 0x44, 0x2F, 0xD8, 0x96, 0x61,
    0x55, 0xA2, 0xEC, 0x1B, 0x70, 0x87, 0xC9, 0x3E,
    0x1F, 0xE8, 0xA6, 0x51, 0x3A, 0xCD, 0x83, 0x74,
    0xC1, 0x36, 0x78, 0x8F, 0xE4, 0x13, 0x5D, 0xAA,
    0x8B, 0x7C, 0x32, 0xC5, 0xAE, 0x59, 0x17, 0xE0,
    0x2A, 0xDD, 0x93, 0x64, 0x0F, 0xF8, 0xB6, 0x41,
    0x60, 0x97, 0xD9, 0x2E, 0x45, 0xB2, 0xFC, 0x0B,
    0xBE, 0x49, 0x07, 0xF0, 0x9B, 0x6C, 0x22, 0xD5,
    0xF4, 0x03, 0x4D, 0xBA, 0xD1, 0x26, 0x68, 0x9F]"

definition crc16_table :: "u16 list" where
  "crc16_table = [
    0x0000, 0x1189, 0x2312, 0x329B, 0x4624, 0x57AD, 0x6536, 0x74BF,
    0x8C48, 0x9DC1, 0xAF5A, 0xBED3, 0xCA6C, 0xDBE5, 0xE97E, 0xF8F7,
    0x1081, 0x0108, 0x3393, 0x221A, 0x56A5, 0x472C, 0x75B7, 0x643E,
    0x9CC9, 0x8D40, 0xBFDB, 0xAE52, 0xDAED, 0xCB64, 0xF9FF, 0xE876,
    0x2102, 0x308B, 0x0210, 0x1399, 0x6726, 0x76AF, 0x4434, 0x55BD,
    0xAD4A, 0xBCC3, 0x8E58, 0x9FD1, 0xEB6E, 0xFAE7, 0xC87C, 0xD9F5,
    0x3183, 0x200A, 0x1291, 0x0318, 0x77A7, 0x662E, 0x54B5, 0x453C,
    0xBDCB, 0xAC42, 0x9ED9, 0x8F50, 0xFBEF, 0xEA66, 0xD8FD, 0xC974,
    0x4204, 0x538D, 0x6116, 0x709F, 0x0420, 0x15A9, 0x2732, 0x36BB,
    0xCE4C, 0xDFC5, 0xED5E, 0xFCD7, 0x8868, 0x99E1, 0xAB7A, 0xBAF3,
    0x5285, 0x430C, 0x7197, 0x601E, 0x14A1, 0x0528, 0x37B3, 0x263A,
    0xDECD, 0xCF44, 0xFDDF, 0xEC56, 0x98E9, 0x8960, 0xBBFB, 0xAA72,
    0x6306, 0x728F, 0x4014, 0x519D, 0x2522, 0x34AB, 0x0630, 0x17B9,
    0xEF4E, 0xFEC7, 0xCC5C, 0xDDD5, 0xA96A, 0xB8E3, 0x8A78, 0x9BF1,
    0x7387, 0x620E, 0x5095, 0x411C, 0x35A3, 0x242A, 0x16B1, 0x0738,
    0xFFCF, 0xEE46, 0xDCDD, 0xCD54, 0xB9EB, 0xA862, 0x9AF9, 0x8B70,
    0x8408, 0x9581, 0xA71A, 0xB693, 0xC22C, 0xD3A5, 0xE13E, 0xF0B7,
    0x0840, 0x19C9, 0x2B52, 0x3ADB, 0x4E64, 0x5FED, 0x6D76, 0x7CFF,
    0x9489, 0x8500, 0xB79B, 0xA612, 0xD2AD, 0xC324, 0xF1BF, 0xE036,
    0x18C1, 0x0948, 0x3BD3, 0x2A5A, 0x5EE5, 0x4F6C, 0x7DF7, 0x6C7E,
    0xA50A, 0xB483, 0x8618, 0x9791, 0xE32E, 0xF2A7, 0xC03C, 0xD1B5,
    0x2942, 0x38CB, 0x0A50, 0x1BD9, 0x6F66, 0x7EEF, 0x4C74, 0x5DFD,
    0xB58B, 0xA402, 0x9699, 0x8710, 0xF3AF, 0xE226, 0xD0BD, 0xC134,
    0x39C3, 0x284A, 0x1AD1, 0x0B58, 0x7FE7, 0x6E6E, 0x5CF5, 0x4D7C,
    0xC60C, 0xD785, 0xE51E, 0xF497, 0x8028, 0x91A1, 0xA33A, 0xB2B3,
    0x4A44, 0x5BCD, 0x6956, 0x78DF, 0x0C60, 0x1DE9, 0x2F72, 0x3EFB,
    0xD68D, 0xC704, 0xF59F, 0xE416, 0x90A9, 0x8120, 0xB3BB, 0xA232,
    0x5AC5, 0x4B4C, 0x79D7, 0x685E, 0x1CE1, 0x0D68, 0x3FF3, 0x2E7A,
    0xE70E, 0xF687, 0xC41C, 0xD595, 0xA12A, 0xB0A3, 0x8238, 0x93B1,
    0x6B46, 0x7ACF, 0x4854, 0x59DD, 0x2D62, 0x3CEB, 0x0E70, 0x1FF9,
    0xF78F, 0xE606, 0xD49D, 0xC514, 0xB1AB, 0xA022, 0x92B9, 0x8330,
    0x7BC7, 0x6A4E, 0x58D5, 0x495C, 0x3DE3, 0x2C6A, 0x1EF1, 0x0F78]"

definition crc32_table :: "u32 list" where
  "crc32_table = [
    0x00000000, 0x77073096, 0xEE0E612C, 0x990951BA,
    0x076DC419, 0x706AF48F, 0xE963A535, 0x9E6495A3,
    0x0EDB8832, 0x79DCB8A4, 0xE0D5E91E, 0x97D2D988,
    0x09B64C2B, 0x7EB17CBD, 0xE7B82D07, 0x90BF1D91,
    0x1DB71064, 0x6AB020F2, 0xF3B97148, 0x84BE41DE,
    0x1ADAD47D, 0x6DDDE4EB, 0xF4D4B551, 0x83D385C7,
    0x136C9856, 0x646BA8C0, 0xFD62F97A, 0x8A65C9EC,
    0x14015C4F, 0x63066CD9, 0xFA0F3D63, 0x8D080DF5,
    0x3B6E20C8, 0x4C69105E, 0xD56041E4, 0xA2677172,
    0x3C03E4D1, 0x4B04D447, 0xD20D85FD, 0xA50AB56B,
    0x35B5A8FA, 0x42B2986C, 0xDBBBC9D6, 0xACBCF940,
    0x32D86CE3, 0x45DF5C75, 0xDCD60DCF, 0xABD13D59,
    0x26D930AC, 0x51DE003A, 0xC8D75180, 0xBFD06116,
    0x21B4F4B5, 0x56B3C423, 0xCFBA9599, 0xB8BDA50F,
    0x2802B89E, 0x5F058808, 0xC60CD9B2, 0xB10BE924,
    0x2F6F7C87, 0x58684C11, 0xC1611DAB, 0xB6662D3D,
    0x76DC4190, 0x01DB7106, 0x98D220BC, 0xEFD5102A,
    0x71B18589, 0x06B6B51F, 0x9FBFE4A5, 0xE8B8D433,
    0x7807C9A2, 0x0F00F934, 0x9609A88E, 0xE10E9818,
    0x7F6A0DBB, 0x086D3D2D, 0x91646C97, 0xE6635C01,
    0x6B6B51F4, 0x1C6C6162, 0x856530D8, 0xF262004E,
    0x6C0695ED, 0x1B01A57B, 0x8208F4C1, 0xF50FC457,
    0x65B0D9C6, 0x12B7E950, 0x8BBEB8EA, 0xFCB9887C,
    0x62DD1DDF, 0x15DA2D49, 0x8CD37CF3, 0xFBD44C65,
    0x4DB26158, 0x3AB551CE, 0xA3BC0074, 0xD4BB30E2,
    0x4ADFA541, 0x3DD895D7, 0xA4D1C46D, 0xD3D6F4FB,
    0x4369E96A, 0x346ED9FC, 0xAD678846, 0xDA60B8D0,
    0x44042D73, 0x33031DE5, 0xAA0A4C5F, 0xDD0D7CC9,
    0x5005713C, 0x270241AA, 0xBE0B1010, 0xC90C2086,
    0x5768B525, 0x206F85B3, 0xB966D409, 0xCE61E49F,
    0x5EDEF90E, 0x29D9C998, 0xB0D09822, 0xC7D7A8B4,
    0x59B33D17, 0x2EB40D81, 0xB7BD5C3B, 0xC0BA6CAD,
    0xEDB88320, 0x9ABFB3B6, 0x03B6E20C, 0x74B1D29A,
    0xEAD54739, 0x9DD277AF, 0x04DB2615, 0x73DC1683,
    0xE3630B12, 0x94643B84, 0x0D6D6A3E, 0x7A6A5AA8,
    0xE40ECF0B, 0x9309FF9D, 0x0A00AE27, 0x7D079EB1,
    0xF00F9344, 0x8708A3D2, 0x1E01F268, 0x6906C2FE,
    0xF762575D, 0x806567CB, 0x196C3671, 0x6E6B06E7,
    0xFED41B76, 0x89D32BE0, 0x10DA7A5A, 0x67DD4ACC,
    0xF9B9DF6F, 0x8EBEEFF9, 0x17B7BE43, 0x60B08ED5,
    0xD6D6A3E8, 0xA1D1937E, 0x38D8C2C4, 0x4FDFF252,
    0xD1BB67F1, 0xA6BC5767, 0x3FB506DD, 0x48B2364B,
    0xD80D2BDA, 0xAF0A1B4C, 0x36034AF6, 0x41047A60,
    0xDF60EFC3, 0xA867DF55, 0x316E8EEF, 0x4669BE79,
    0xCB61B38C, 0xBC66831A, 0x256FD2A0, 0x5268E236,
    0xCC0C7795, 0xBB0B4703, 0x220216B9, 0x5505262F,
    0xC5BA3BBE, 0xB2BD0B28, 0x2BB45A92, 0x5CB36A04,
    0xC2D7FFA7, 0xB5D0CF31, 0x2CD99E8B, 0x5BDEAE1D,
    0x9B64C2B0, 0xEC63F226, 0x756AA39C, 0x026D930A,
    0x9C0906A9, 0xEB0E363F, 0x72076785, 0x05005713,
    0x95BF4A82, 0xE2B87A14, 0x7BB12BAE, 0x0CB61B38,
    0x92D28E9B, 0xE5D5BE0D, 0x7CDCEFB7, 0x0BDBDF21,
    0x86D3D2D4, 0xF1D4E242, 0x68DDB3F8, 0x1FDA836E,
    0x81BE16CD, 0xF6B9265B, 0x6FB077E1, 0x18B74777,
    0x88085AE6, 0xFF0F6A70, 0x66063BCA, 0x11010B5C,
    0x8F659EFF, 0xF862AE69, 0x616BFFD3, 0x166CCF45,
    0xA00AE278, 0xD70DD2EE, 0x4E048354, 0x3903B3C2,
    0xA7672661, 0xD06016F7, 0x4969474D, 0x3E6E77DB,
    0xAED16A4A, 0xD9D65ADC, 0x40DF0B66, 0x37D83BF0,
    0xA9BCAE53, 0xDEBB9EC5, 0x47B2CF7F, 0x30B5FFE9,
    0xBDBDF21C, 0xCABAC28A, 0x53B39330, 0x24B4A3A6,
    0xBAD03605, 0xCDD70693, 0x54DE5729, 0x23D967BF,
    0xB3667A2E, 0xC4614AB8, 0x5D681B02, 0x2A6F2B94,
    0xB40BBE37, 0xC30C8EA1, 0x5A05DF1B, 0x2D02EF8D]"

text \<open>The macro \<open>CRC_INNER_LOOP(n, c, x)\<close>, with the table it pastes in as an argument.\<close>

definition CRC_INNER_LOOP :: "'a::len word list \<Rightarrow> 'a word \<Rightarrow> u8 \<Rightarrow> 'a word" where
  "CRC_INNER_LOOP table c x = drop_bit 8 c XOR table ! unat ((c XOR ucast x) AND 0xff)"

fun hndcrc8 :: "bytes \<Rightarrow> u8 \<Rightarrow> u8" where
  "hndcrc8 [] crc = crc"
| "hndcrc8 (b # pdata) crc = hndcrc8 pdata (crc8_table ! unat ((crc XOR b) AND 0xff))"

fun hndcrc16 :: "bytes \<Rightarrow> u16 \<Rightarrow> u16" where
  "hndcrc16 [] crc = crc"
| "hndcrc16 (b # pdata) crc = hndcrc16 pdata (CRC_INNER_LOOP crc16_table crc b)"

fun hndcrc32 :: "bytes \<Rightarrow> u32 \<Rightarrow> u32" where
  "hndcrc32 [] crc = crc"
| "hndcrc32 (b # pdata) crc = hndcrc32 pdata (CRC_INNER_LOOP crc32_table crc b)"

text \<open>
  The \<open>__mips__\<close> branch of \<open>hndcrc32\<close>: a byte loop up to the next word boundary, a loop over
  whole words, a byte loop over the rest.  Pointers and nbytes are 32-bit and wrap; the word
  loop tests \<open>pdata < pend\<close> and so may in principle run forever, hence the option.
\<close>

function crc32_bytes :: "(u32 \<Rightarrow> u8) \<Rightarrow> u32 \<Rightarrow> u32 \<Rightarrow> u32 \<Rightarrow> u32 \<times> u32" where
  "crc32_bytes mem pdata pend crc =
     (if pdata < pend
      then crc32_bytes mem (pdata + 1) pend (CRC_INNER_LOOP crc32_table crc (mem pdata))
      else (pdata, crc))"
  by pat_completeness auto
termination
proof (relation "measure (\<lambda>(mem, pdata, pend, crc). unat pend - unat pdata)")
  show "wf (measure (\<lambda>(mem, pdata, pend, crc). unat pend - unat pdata))"
    by simp
next
  fix mem and pdata pend crc :: u32
  assume "pdata < pend"
  then have "unat pdata < unat pend" by (simp add: word_less_nat_alt)
  moreover have "unat (pdata + 1) = Suc (unat pdata)"
    using \<open>pdata < pend\<close> by (rule unat_Suc_less)
  ultimately show "((mem, pdata + 1, pend, CRC_INNER_LOOP crc32_table crc (mem pdata)),
      (mem, pdata, pend, crc)) \<in> measure (\<lambda>(mem, pdata, pend, crc). unat pend - unat pdata)"
    by simp
qed

declare crc32_bytes.simps [simp del]

partial_function (option) crc32_words :: "(u32 \<Rightarrow> u8) \<Rightarrow> u32 \<Rightarrow> u32 \<Rightarrow> u32 \<Rightarrow> (u32 \<times> u32) option" where
  "crc32_words mem pdata pend crc =
     (if pdata < pend
      then crc32_words mem (pdata + 4) pend
             (hndcrc32 [mem pdata, mem (pdata + 1), mem (pdata + 2), mem (pdata + 3)] crc)
      else Some (pdata, crc))"

definition hndcrc32_mips :: "(u32 \<Rightarrow> u8) \<Rightarrow> u32 \<Rightarrow> u32 \<Rightarrow> u32 \<Rightarrow> u32 option" where
  "hndcrc32_mips mem pdata nbytes crc =
     (let pend = (pdata + 3) AND 0xfffffffc;
          nbytes = nbytes - (pend - pdata);
          (pdata, crc) = crc32_bytes mem pdata pend crc;
          pend = pdata + (nbytes AND 0xfffffffc)
      in case crc32_words mem pdata pend crc of
           None \<Rightarrow> None
         | Some (pdata, crc) \<Rightarrow>
             let pend = pdata + (nbytes AND 0x03)
             in Some (snd (crc32_bytes mem pdata pend crc)))"

section \<open>Reference: division by the generator polynomial\<close>

text \<open>One bit of the reflected long division, and a whole byte of it.\<close>

definition crc_bit :: "'a::len word \<Rightarrow> 'a word \<Rightarrow> 'a word" where
  "crc_bit poly c = (if bit c 0 then drop_bit 1 c XOR poly else drop_bit 1 c)"

definition crc_byte :: "'a::len word \<Rightarrow> 'a word \<Rightarrow> u8 \<Rightarrow> 'a word" where
  "crc_byte poly c x = (crc_bit poly ^^ 8) (c XOR ucast x)"

text \<open>The generators named in the comments: x^8+x^7+x^6+x^4+x^2+1, x^16+x^12+x^5+1 and the
  IEEE 802.3 polynomial, without the leading term and bit-reflected.\<close>

definition poly8 :: u8 where "poly8 = word_reverse 0xD5"
definition poly16 :: u16 where "poly16 = word_reverse 0x1021"
definition poly32 :: u32 where "poly32 = word_reverse 0x04C11DB7"


subsection \<open>The division is linear and invertible\<close>

lemma crc_bit_xor: "crc_bit poly (a XOR b) = crc_bit poly a XOR crc_bit poly b"
  by (rule bit_eqI) (auto simp: crc_bit_def bit_simps)

lemma crc_bits_xor: "(crc_bit poly ^^ n) (a XOR b) = (crc_bit poly ^^ n) a XOR (crc_bit poly ^^ n) b"
  by (induction n) (simp_all add: crc_bit_xor)

text \<open>Zero low bits are only shifted out: n steps on a multiple of 2^n divide it by 2^n.\<close>

lemma crc_bits_shift: "\<forall>i<n. \<not> bit w i \<Longrightarrow> (crc_bit poly ^^ n) w = drop_bit n w"
proof (induction n)
  case 0
  then show ?case by simp
next
  case (Suc n)
  then have "(crc_bit poly ^^ n) w = drop_bit n w" by simp
  moreover have "\<not> bit (drop_bit n w) 0" using Suc.prems by (simp add: bit_drop_bit_eq)
  ultimately show ?case by (simp add: crc_bit_def [of poly "drop_bit n w"])
qed

lemma crc_bit_inj:
  fixes poly :: "'a::len word"
  assumes msb: "bit poly (LENGTH('a) - 1)" and eq: "crc_bit poly a = crc_bit poly b"
  shows "a = b"
proof -
  have top: "bit (crc_bit poly c) (LENGTH('a) - 1) = bit c 0" for c
    using msb by (auto simp: crc_bit_def bit_simps)
  have low: "bit a 0 = bit b 0" using top [of a] top [of b] eq by simp
  have shift: "drop_bit 1 a = drop_bit 1 b"
    using eq low by (auto simp: crc_bit_def bit_eq_iff bit_simps split: if_splits)
  have "bit a n = bit b n" for n
  proof (cases n)
    case 0
    then show ?thesis using low by simp
  next
    case (Suc m)
    have "bit (drop_bit 1 a) m = bit (drop_bit 1 b) m" using shift by simp
    then show ?thesis by (simp add: Suc bit_drop_bit_eq)
  qed
  then show ?thesis by (rule bit_eqI)
qed

lemma crc_bits_inj:
  fixes poly :: "'a::len word"
  assumes msb: "bit poly (LENGTH('a) - 1)"
  shows "(crc_bit poly ^^ n) a = (crc_bit poly ^^ n) b \<Longrightarrow> a = b"
  by (induction n) (auto dest: crc_bit_inj [OF msb])

text \<open>The bytes of a short message, first byte lowest, as one word.\<close>

fun crc_pack :: "bytes \<Rightarrow> 'a::len word" where
  "crc_pack [] = 0"
| "crc_pack (x # xs) = ucast x XOR push_bit 8 (crc_pack xs)"

lemma crc_pack_high: "bit (crc_pack xs) i \<Longrightarrow> i < 8 * length xs"
  by (induction xs arbitrary: i) (auto simp: bit_simps dest: bit_imp_le_length, fastforce)

lemma crc_bits_absorb:
  fixes v :: "'a::len word"
  assumes "\<And>i. bit v i \<Longrightarrow> i + 8 < LENGTH('a)"
  shows "(crc_bit poly ^^ 8) (u XOR push_bit 8 v) = (crc_bit poly ^^ 8) u XOR v"
proof -
  have "(crc_bit poly ^^ 8) (push_bit 8 v) = drop_bit 8 (push_bit 8 v)"
    by (rule crc_bits_shift) (auto simp: bit_simps)
  also have "\<dots> = v"
    by (rule bit_eqI) (auto simp: bit_simps dest: assms)
  finally show ?thesis by (simp only: crc_bits_xor)
qed

lemma crc_run_pack:
  "8 * length xs \<le> LENGTH('a) \<Longrightarrow>
   foldl (crc_byte poly) c xs = (crc_bit poly ^^ (8 * length xs)) (c XOR crc_pack xs :: 'a::len word)"
proof (induction xs arbitrary: c)
  case Nil
  then show ?case by simp
next
  case (Cons x xs)
  let ?p = "crc_pack xs :: 'a word"
  have room: "i + 8 < LENGTH('a)" if "bit ?p i" for i
    using crc_pack_high [OF that] Cons.prems by simp
  have step: "crc_byte poly c x XOR ?p = (crc_bit poly ^^ 8) (c XOR crc_pack (x # xs))"
    unfolding crc_byte_def using crc_bits_absorb [of ?p poly "c XOR ucast x", OF room]
    by (simp add: xor.assoc)
  have "foldl (crc_byte poly) c (x # xs) =
      (crc_bit poly ^^ (8 * length xs)) (crc_byte poly c x XOR ?p)"
    using Cons by simp
  also have "\<dots> = (crc_bit poly ^^ (8 * length xs + 8)) (c XOR crc_pack (x # xs))"
    by (simp only: step funpow_add comp_apply)
  finally show ?case by (simp add: add.commute)
qed

lemma crc_pack_inj:
  "length xs = length ys \<Longrightarrow> 8 * length xs \<le> LENGTH('a) \<Longrightarrow>
   (crc_pack xs :: 'a::len word) = crc_pack ys \<Longrightarrow> xs = ys"
proof (induction xs ys rule: list_induct2)
  case Nil
  then show ?case by simp
next
  case (Cons x xs y ys)
  from Cons.prems(2) have eq: "bit (crc_pack (x # xs) :: 'a word) i = bit (crc_pack (y # ys) :: 'a word) i" for i
    by simp
  have "bit x i = bit y i" if "i < 8" for i
    using eq [of i] that Cons.prems(1) by (auto simp: bit_simps)
  then have "x = y"
    by (intro bit_word_eqI) simp
  moreover have room: "bit (crc_pack zs :: 'a word) i \<Longrightarrow> i + 8 < LENGTH('a)"
    if "length zs = length ys" for zs i
    using crc_pack_high [of zs i] that Cons.prems(1) Cons.hyps by fastforce
  have "bit (crc_pack xs :: 'a word) i = bit (crc_pack ys :: 'a word) i" for i
    using eq [of "i + 8"] room [of xs i] room [of ys i] Cons.hyps
    by (auto simp: bit_simps dest: bit_imp_le_length)
  then have "(crc_pack xs :: 'a word) = crc_pack ys" by (intro bit_eqI) simp
  ultimately show ?case using Cons by simp
qed

section \<open>What a table has to satisfy\<close>

locale crc_code =
  fixes poly :: "'a::len word" and table :: "'a word list"
  assumes width: "8 \<le> LENGTH('a)"
    and poly_msb: "bit poly (LENGTH('a) - 1)"
    and table_entry: "i < 256 \<Longrightarrow> table ! i = (crc_bit poly ^^ 8) (of_nat i)"
begin

text \<open>The table-driven step of the source is eight steps of the division.\<close>

lemma inner_loop_is_division: "CRC_INNER_LOOP table c x = crc_byte poly c x"
proof -
  let ?w = "c XOR ucast x"
  let ?lo = "?w AND 0xff" and ?hi = "?w AND NOT 0xff"
  have idx: "of_nat (unat ?lo) = ?lo" by simp
  have tab: "table ! unat ?lo = (crc_bit poly ^^ 8) ?lo"
    using table_entry [OF unat_ucast_u8_index [of ?w]] by (simp only: idx)
  have ff: "(0xff :: 'a word) = mask 8" by (simp add: mask_eq_exp_minus_1)
  have hi: "(crc_bit poly ^^ 8) ?hi = drop_bit 8 ?hi"
    by (rule crc_bits_shift) (auto simp: ff bit_simps)
  have "drop_bit 8 ?hi = drop_bit 8 c"
    by (rule bit_eqI) (auto simp: ff bit_simps dest: bit_imp_le_length)
  then have "crc_byte poly c x = (crc_bit poly ^^ 8) ?lo XOR drop_bit 8 c"
    unfolding crc_byte_def using hi
    by (subst and_xor_self_mask [of ?w "0xff", symmetric]) (simp only: crc_bits_xor)
  then show ?thesis
    by (simp only: CRC_INNER_LOOP_def tab xor.commute)
qed

lemma crc_byte_inj_state: "crc_byte poly c x = crc_byte poly d x \<Longrightarrow> c = d"
  unfolding crc_byte_def
  by (drule crc_bits_inj [OF poly_msb]) (metis xor.assoc xor_self_eq xor.right_neutral)

lemma crc_run_inj_state:
  "foldl (crc_byte poly) c xs = foldl (crc_byte poly) d xs \<Longrightarrow> c = d"
  by (induction xs arbitrary: c d) (auto dest: crc_byte_inj_state)

text \<open>A burst of at most as many bits as the checksum has changes the checksum, whatever
  precedes and follows it.\<close>

lemma crc_burst:
  assumes "length xs = length ys" and "8 * length xs \<le> LENGTH('a)" and "xs \<noteq> ys"
  shows "foldl (crc_byte poly) c (pre @ xs @ suf) \<noteq> foldl (crc_byte poly) c (pre @ ys @ suf)"
proof
  let ?c = "foldl (crc_byte poly) c pre"
  assume "foldl (crc_byte poly) c (pre @ xs @ suf) = foldl (crc_byte poly) c (pre @ ys @ suf)"
  then have "foldl (crc_byte poly) ?c xs = foldl (crc_byte poly) ?c ys"
    by (auto dest: crc_run_inj_state)
  then have "(crc_bit poly ^^ (8 * length xs)) (?c XOR crc_pack xs) =
      (crc_bit poly ^^ (8 * length xs)) (?c XOR crc_pack ys)"
    using crc_run_pack [of xs poly ?c] crc_run_pack [of ys poly ?c] assms(1,2) by simp
  then have "?c XOR crc_pack xs = ?c XOR crc_pack ys"
    by (rule crc_bits_inj [OF poly_msb])
  then have "(crc_pack xs :: 'a word) = crc_pack ys"
    by (metis xor.assoc xor_self_eq xor.left_neutral)
  with crc_pack_inj [OF assms(1,2)] assms(3) show False by simp
qed

end

section \<open>The three tables of the source\<close>

text \<open>Eight generators span a table: entry i is the exclusive or of the generators at the set bits of i.\<close>

fun crc_span :: "'a::len word list \<Rightarrow> 'a word list" where
  "crc_span [] = [0]"
| "crc_span (g # gs) = crc_span gs @ map (\<lambda>x. x XOR g) (crc_span gs)"

lemma length_crc_span: "length (crc_span gs) = 2 ^ length gs"
  by (induction gs) simp_all

lemma of_nat_xor_power:
  assumes "j < 2 ^ n"
  shows "(of_nat (2 ^ n + j) :: 'a::len word) = of_nat j XOR 2 ^ n"
proof -
  have disj: "j AND 2 ^ n = 0"
    using assms by (metis and_exp_eq_0_iff_not_bit bit_take_bit_iff order.irrefl take_bit_nat_eq_self)
  have "(2 ^ n + j :: nat) = j XOR 2 ^ n"
    using disjunctive_add_eq_xor [of j "2 ^ n"] disj by (simp add: add.commute)
  then show ?thesis by (simp add: of_nat_xor_eq)
qed

lemma crc_span_nth:
  fixes f :: "'a::len word \<Rightarrow> 'a word"
  assumes lin: "\<And>a b. f (a XOR b) = f a XOR f b"
  shows "i < 2 ^ n \<Longrightarrow> crc_span (rev (map (\<lambda>k. f (2 ^ k)) [0..<n])) ! i = f (of_nat i)"
proof (induction n arbitrary: i)
  case 0
  have "f 0 = 0" using lin [of 0 0] by simp
  with 0 show ?case by simp
next
  case (Suc n)
  let ?t = "crc_span (rev (map (\<lambda>k. f (2 ^ k)) [0..<n]))"
  have len: "length ?t = 2 ^ n" by (simp add: length_crc_span)
  show ?case
  proof (cases "i < 2 ^ n")
    case True
    then show ?thesis using Suc.IH len by (simp add: nth_append)
  next
    case False
    then obtain j where j: "i = 2 ^ n + j" by (metis le_Suc_ex not_le)
    then have "j < 2 ^ n" using Suc.prems by simp
    then show ?thesis
      using Suc.IH [of j] len j of_nat_xor_power [of j n, where 'a = 'a]
      by (simp add: nth_append lin)
  qed
qed

lemma crc_bits_8: "(crc_bit p ^^ 8) c =
    crc_bit p (crc_bit p (crc_bit p (crc_bit p (crc_bit p (crc_bit p (crc_bit p (crc_bit p c)))))))"
  by (simp add: eval_nat_numeral)

lemma upt_8: "[0..<8] = [0, 1, 2, 3, 4, 5, 6, 7::nat]"
  by (simp add: upt_rec)

lemma poly8_value: "poly8 = 0xAB"
  unfolding poly8_def by code_simp

lemma crc8_table_span: "crc8_table = crc_span [0xAB, 0xFE, 0x7F, 0x94, 0x4A, 0x25, 0xB9, 0xF7]"
  by (simp add: crc8_table_def)

lemma crc8_generators:
  "rev (map (\<lambda>k. (crc_bit poly8 ^^ 8) (2 ^ k)) [0..<8]) = [0xAB, 0xFE, 0x7F, 0x94, 0x4A, 0x25, 0xB9, 0xF7]"
  by (simp add: poly8_value upt_8 crc_bits_8 crc_bit_def)

lemma poly16_value: "poly16 = 0x8408"
  unfolding poly16_def by code_simp

lemma crc16_table_span: "crc16_table = crc_span [0x8408, 0x4204, 0x2102, 0x1081, 0x8C48, 0x4624, 0x2312, 0x1189]"
  by (simp add: crc16_table_def)

lemma crc16_generators:
  "rev (map (\<lambda>k. (crc_bit poly16 ^^ 8) (2 ^ k)) [0..<8]) = [0x8408, 0x4204, 0x2102, 0x1081, 0x8C48, 0x4624, 0x2312, 0x1189]"
  by (simp add: poly16_value upt_8 crc_bits_8 crc_bit_def)

lemma poly32_value: "poly32 = 0xEDB88320"
  unfolding poly32_def by code_simp

lemma crc32_table_span: "crc32_table = crc_span [0xEDB88320, 0x76DC4190, 0x3B6E20C8, 0x1DB71064, 0x0EDB8832, 0x076DC419, 0xEE0E612C, 0x77073096]"
  by (simp add: crc32_table_def)

lemma crc32_generators:
  "rev (map (\<lambda>k. (crc_bit poly32 ^^ 8) (2 ^ k)) [0..<8]) = [0xEDB88320, 0x76DC4190, 0x3B6E20C8, 0x1DB71064, 0x0EDB8832, 0x076DC419, 0xEE0E612C, 0x77073096]"
  by (simp add: poly32_value upt_8 crc_bits_8 crc_bit_def)

interpretation crc8: crc_code poly8 crc8_table
proof
  show "crc8_table ! i = (crc_bit poly8 ^^ 8) (of_nat i)" if "i < 256" for i
    using crc_span_nth [of "crc_bit poly8 ^^ 8" i 8, OF crc_bits_xor] that
    by (simp only: crc8_generators crc8_table_span) simp
qed (simp_all add: poly8_value)

interpretation crc16: crc_code poly16 crc16_table
proof
  show "crc16_table ! i = (crc_bit poly16 ^^ 8) (of_nat i)" if "i < 256" for i
    using crc_span_nth [of "crc_bit poly16 ^^ 8" i 8, OF crc_bits_xor] that
    by (simp only: crc16_generators crc16_table_span) simp
qed (simp_all add: poly16_value)

interpretation crc32: crc_code poly32 crc32_table
proof
  show "crc32_table ! i = (crc_bit poly32 ^^ 8) (of_nat i)" if "i < 256" for i
    using crc_span_nth [of "crc_bit poly32 ^^ 8" i 8, OF crc_bits_xor] that
    by (simp only: crc32_generators crc32_table_span) simp
qed (simp_all add: poly32_value)

subsection \<open>The loops as folds of the division\<close>

lemma drop_bit_u8: "drop_bit 8 (w :: u8) = 0"
  by (rule bit_eqI) (auto simp: bit_simps dest: bit_imp_le_length)

lemma hndcrc8_fold: "hndcrc8 pdata crc = foldl (crc_byte poly8) crc pdata"
proof (induction pdata crc rule: hndcrc8.induct)
  case (2 b pdata crc)
  have "crc8_table ! unat ((crc XOR b) AND 0xff) = CRC_INNER_LOOP crc8_table crc b"
    using unsigned_less [of crc] by (simp add: CRC_INNER_LOOP_def drop_bit_u8)
  with 2 show ?case by (simp add: crc8.inner_loop_is_division)
qed simp

lemma hndcrc16_fold: "hndcrc16 pdata crc = foldl (crc_byte poly16) crc pdata"
  by (induction pdata crc rule: hndcrc16.induct) (simp_all add: crc16.inner_loop_is_division)

lemma hndcrc32_fold: "hndcrc32 pdata crc = foldl (crc_byte poly32) crc pdata"
  by (induction pdata crc rule: hndcrc32.induct) (simp_all add: crc32.inner_loop_is_division)

lemma hndcrc32_append: "hndcrc32 (xs @ ys) crc = hndcrc32 ys (hndcrc32 xs crc)"
  by (simp add: hndcrc32_fold)

lemma hndcrc8_append: "hndcrc8 (xs @ ys) crc = hndcrc8 ys (hndcrc8 xs crc)"
  by (simp add: hndcrc8_fold)

section \<open>The MIPS word loop\<close>

definition mem_bytes :: "(u32 \<Rightarrow> u8) \<Rightarrow> u32 \<Rightarrow> nat \<Rightarrow> bytes" where
  "mem_bytes mem p n = map (\<lambda>i. mem (p + of_nat i)) [0..<n]"

lemma mem_bytes_0 [simp]: "mem_bytes mem p 0 = []"
  by (simp add: mem_bytes_def)

lemma mem_bytes_Suc: "mem_bytes mem p (Suc n) = mem p # mem_bytes mem (p + 1) n"
  unfolding mem_bytes_def
  by (simp add: upt_conv_Cons map_Suc_upt [symmetric] comp_def add.assoc del: upt_Suc)

lemma mem_bytes_add: "mem_bytes mem p (m + n) = mem_bytes mem p m @ mem_bytes mem (p + of_nat m) n"
  by (induction m arbitrary: p) (simp_all add: mem_bytes_Suc add.assoc)

lemma mem_bytes_4:
  "mem_bytes mem p (4 + n) =
     mem p # mem (p + 1) # mem (p + 2) # mem (p + 3) # mem_bytes mem (p + 4) n"
  using mem_bytes_add [of mem p 4 n] by (simp add: mem_bytes_def upt_rec)

lemma crc32_bytes_eq:
  "unat p + n < 2 ^ 32 \<Longrightarrow>
   crc32_bytes mem p (p + of_nat n) crc = (p + of_nat n, hndcrc32 (mem_bytes mem p n) crc)"
proof (induction n arbitrary: p crc)
  case 0
  then show ?case by (simp add: crc32_bytes.simps [of _ p])
next
  case (Suc n)
  have lt: "p < p + of_nat (Suc n)"
    using unat_plus_less [of p "Suc n"] Suc.prems by (simp add: word_less_nat_alt)
  then have "unat (p + 1) = Suc (unat p)" by (rule unat_Suc_less)
  then have "unat (p + 1) + n < 2 ^ 32" using Suc.prems by simp
  from Suc.IH [OF this] lt show ?case
    by (simp add: crc32_bytes.simps [of _ p] mem_bytes_Suc add.assoc)
qed

lemma crc32_words_eq:
  "unat p + 4 * k < 2 ^ 32 \<Longrightarrow>
   crc32_words mem p (p + of_nat (4 * k)) crc =
     Some (p + of_nat (4 * k), hndcrc32 (mem_bytes mem p (4 * k)) crc)"
proof (induction k arbitrary: p crc)
  case 0
  then show ?case by (simp add: crc32_words.simps [of _ p])
next
  case (Suc k)
  have lt: "p < p + of_nat (4 * Suc k)"
    using unat_plus_less [of p "4 * Suc k"] Suc.prems by (simp add: word_less_nat_alt)
  have "unat (p + 4) = unat p + 4" using unat_plus_less [of p 4] Suc.prems by simp
  then have "unat (p + 4) + 4 * k < 2 ^ 32" using Suc.prems by simp
  from Suc.IH [OF this] have
    "crc32_words mem (p + 4) (p + of_nat (4 * Suc k)) c =
       Some (p + of_nat (4 * Suc k), hndcrc32 (mem_bytes mem (p + 4) (4 * k)) c)" for c
    by (simp add: add.assoc)
  with lt show ?case
    by (subst crc32_words.simps) (simp add: mem_bytes_4)
qed

lemma unat_and_not_3: "unat (w AND 0xfffffffc :: u32) = 4 * (unat w div 4)"
proof -
  have mask: "(0xfffffffc :: u32) = NOT (mask 2)" by (simp add: mask_eq_exp_minus_1)
  have cancel: "2 \<le> n \<Longrightarrow> Suc (Suc (n - 2)) = n" for n :: nat by arith
  have "w AND NOT (mask 2) = push_bit 2 (drop_bit 2 w)"
    by (rule bit_eqI) (auto simp: bit_simps cancel not_less)
  then have "unat (w AND NOT (mask 2)) = unat (push_bit 2 (drop_bit 2 w))" by (rule arg_cong)
  also have "\<dots> = take_bit 32 (push_bit 2 (drop_bit 2 (unat w)))"
    using unat_less_2p [of w]
    by (simp only: unsigned_push_bit_eq unsigned_drop_bit_eq) (simp add: take_bit_nat_eq_self)
  also have "\<dots> = take_bit 32 (4 * (unat w div 4))"
    by (simp add: push_bit_eq_mult drop_bit_eq_div mult.commute)
  also have "\<dots> = 4 * (unat w div 4)"
    using unat_less_2p [of w] by (intro take_bit_nat_eq_self) simp
  finally show ?thesis by (simp only: mask)
qed

lemma unat_and_3: "unat (w AND 3 :: u32) = unat w mod 4"
proof -
  have "w AND 3 = take_bit 2 w" by (simp add: take_bit_eq_mask mask_eq_exp_minus_1)
  then have "unat (w AND 3) = take_bit 2 (unat w)" by (simp only: unsigned_take_bit_eq)
  then show ?thesis by (simp add: take_bit_eq_mod)
qed

text \<open>How many bytes the first loop reads before pdata is word aligned.\<close>

definition align_gap :: "u32 \<Rightarrow> nat" where
  "align_gap p = (4 - unat p mod 4) mod 4"

lemma align_arith:
  fixes x :: nat
  shows "4 * ((x + 3) div 4) = x + (4 - x mod 4) mod 4"
    and "x + (4 - x mod 4) mod 4 < 4 * n \<Longrightarrow> x + 3 < 4 * n"
proof -
  define q m where "q = x div 4" and "m = x mod 4"
  have x: "x = 4 * q + m" and m: "m = 0 \<or> m = 1 \<or> m = 2 \<or> m = 3"
    unfolding q_def m_def by (simp, linarith)
  show "4 * ((x + 3) div 4) = x + (4 - x mod 4) mod 4"
    unfolding m_def [symmetric] using m x by auto
  show "x + 3 < 4 * n" if "x + (4 - x mod 4) mod 4 < 4 * n"
    using that m x unfolding m_def [symmetric] by auto presburger+
qed

lemma align_up:
  assumes "unat p + align_gap p < 2 ^ 32"
  shows "(p + 3) AND 0xfffffffc = p + of_nat (align_gap p)"
proof -
  have "unat p + 3 < 2 ^ 32"
    using align_arith(2) [of "unat p" "2 ^ 30"] assms by (simp add: align_gap_def)
  then have "unat (p + 3) = unat p + 3" using unat_plus_less [of p 3] by simp
  then have "unat ((p + 3) AND 0xfffffffc) = unat p + align_gap p"
    by (simp add: unat_and_not_3 align_arith(1) align_gap_def)
  also have "\<dots> = unat (p + of_nat (align_gap p))"
    using unat_plus_less [of p "align_gap p"] assms by simp
  finally show ?thesis by (simp only: word_unat_eq_iff)
qed

lemma hndcrc32_mips_eq:
  assumes gap: "align_gap pdata \<le> unat nbytes" and room: "unat pdata + unat nbytes < 2 ^ 32"
  shows "hndcrc32_mips mem pdata nbytes crc = Some (hndcrc32 (mem_bytes mem pdata (unat nbytes)) crc)"
proof -
  let ?g = "align_gap pdata" and ?p = "pdata + of_nat (align_gap pdata)"
  define rest where "rest = nbytes - of_nat ?g"
  define k where "k = unat rest div 4"
  define r where "r = unat rest mod 4"
  have unat_g: "unat (of_nat ?g :: u32) = ?g"
    by (simp add: align_gap_def unsigned_of_nat take_bit_nat_eq_self)
  have rest: "unat rest = unat nbytes - ?g" "unat rest = 4 * k + r"
    using gap unat_g by (simp_all add: rest_def k_def r_def unat_sub word_le_nat_alt)
  have p: "unat ?p = unat pdata + ?g"
    using unat_plus_less [of pdata ?g] gap room by simp
  have pend: "(pdata + 3) AND 0xfffffffc = ?p" using gap room by (intro align_up) simp
  have words: "rest AND 0xfffffffc = of_nat (4 * k)" "rest AND 3 = of_nat r"
    unfolding k_def r_def by (simp_all only: unat_and_not_3 [symmetric] unat_and_3 [symmetric] of_nat_unat ucast_id)
  have "unat ?p + 4 * k < 2 ^ 32" "unat ?p + 4 * k + r < 2 ^ 32"
    using p rest room gap by simp_all
  moreover from this have "unat (?p + of_nat (4 * k)) = unat ?p + 4 * k"
    using unat_plus_less [of ?p "4 * k"] by simp
  moreover have "unat nbytes = ?g + (4 * k + r)" using rest gap by simp
  ultimately show ?thesis
    using crc32_bytes_eq [of pdata ?g mem crc] crc32_words_eq [of ?p k mem]
      crc32_bytes_eq [of "?p + of_nat (4 * k)" r mem] gap room
    by (simp add: hndcrc32_mips_def Let_def pend rest_def [symmetric] words mem_bytes_add
        hndcrc32_append)
qed

section \<open>The checksum in the byte stream\<close>

definition le_bytes8 :: "u8 \<Rightarrow> bytes" where
  "le_bytes8 w = [w]"

definition le_bytes16 :: "u16 \<Rightarrow> bytes" where
  "le_bytes16 w = [ucast w, ucast (drop_bit 8 w)]"

definition le_bytes32 :: "u32 \<Rightarrow> bytes" where
  "le_bytes32 w = [ucast w, ucast (drop_bit 8 w), ucast (drop_bit 16 w), ucast (drop_bit 24 w)]"

lemma crc_pack_le:
  "crc_pack (le_bytes8 w8) = w8" "crc_pack (le_bytes16 w16) = w16" "crc_pack (le_bytes32 w32) = w32"
proof -
  have less_cases: "n < 16 \<Longrightarrow> n < 8 \<or> (\<exists>k<8. n = k + 8)"
    "n < 32 \<Longrightarrow> n < 8 \<or> (\<exists>k<8. n = k + 8) \<or> (\<exists>k<8. n = k + 16) \<or> (\<exists>k<8. n = k + 24)" for n :: nat
    by presburger+
  show "crc_pack (le_bytes8 w8) = w8"
    by (rule bit_word_eqI) (auto simp: le_bytes8_def bit_simps)
  show "crc_pack (le_bytes16 w16) = w16"
    by (rule bit_word_eqI) (auto simp: le_bytes16_def bit_simps dest: less_cases(1))
  show "crc_pack (le_bytes32 w32) = w32"
    by (rule bit_word_eqI) (auto simp: le_bytes32_def bit_simps dest: less_cases(2))
qed

lemma word_minus_one: "(-1 :: u8) = 0xff" "(-1 :: u16) = 0xffff" "(-1 :: u32) = 0xffffffff"
  by simp_all

lemma residue8: "foldl (crc_byte poly8) c (le_bytes8 (NOT c)) = CRC8_GOOD_VALUE"
proof -
  have "foldl (crc_byte poly8) c (le_bytes8 (NOT c)) = (crc_bit poly8 ^^ 8) 0xff"
    using crc_run_pack [of "le_bytes8 (NOT c)" poly8 c] crc_pack_le(1) [of "NOT c"]
    by (simp add: le_bytes8_def word_minus_one)
  then show ?thesis by (simp add: crc_bits_8 crc_bit_def poly8_value CRC8_GOOD_VALUE_def)
qed

lemma residue16: "foldl (crc_byte poly16) c (le_bytes16 (NOT c)) = CRC16_GOOD_VALUE"
proof -
  have "foldl (crc_byte poly16) c (le_bytes16 (NOT c)) = (crc_bit poly16 ^^ (8 + 8)) 0xffff"
    using crc_run_pack [of "le_bytes16 (NOT c)" poly16 c] crc_pack_le(2) [of "NOT c"]
    by (simp add: le_bytes16_def word_minus_one)
  also have "\<dots> = CRC16_GOOD_VALUE"
    by (simp only: funpow_add comp_apply crc_bits_8)
       (simp add: crc_bit_def poly16_value CRC16_GOOD_VALUE_def)
  finally show ?thesis .
qed

lemma residue32: "foldl (crc_byte poly32) c (le_bytes32 (NOT c)) = CRC32_GOOD_VALUE"
proof -
  have "foldl (crc_byte poly32) c (le_bytes32 (NOT c)) = (crc_bit poly32 ^^ (8 + 8 + 8 + 8)) 0xffffffff"
    using crc_run_pack [of "le_bytes32 (NOT c)" poly32 c] crc_pack_le(3) [of "NOT c"]
    by (simp add: le_bytes32_def word_minus_one)
  also have "\<dots> = CRC32_GOOD_VALUE"
    by (simp only: funpow_add comp_apply crc_bits_8)
       (simp add: crc_bit_def poly32_value CRC32_GOOD_VALUE_def)
  finally show ?thesis .
qed

section \<open>Properties\<close>

text \<open>
  C32: each table-driven loop computes exactly the remainder of the bitwise long division by the
  generator polynomial its comment names, from any initial value and over any data.
\<close>

theorem hndcrc_is_division:
  "hndcrc8 pdata c8 = foldl (crc_byte poly8) c8 pdata
   \<and> hndcrc16 pdata c16 = foldl (crc_byte poly16) c16 pdata
   \<and> hndcrc32 pdata c32 = foldl (crc_byte poly32) c32 pdata"
  by (simp add: hndcrc8_fold hndcrc16_fold hndcrc32_fold)

text \<open>
  C39: a change confined to a run of bytes no longer than the checksum (1, 2 and 4 bytes) always
  changes the checksum, wherever the run stands in the data.
\<close>

theorem hndcrc_detects_burst:
  assumes "length xs = length ys" and "xs \<noteq> ys"
  shows "(length xs \<le> 1 \<longrightarrow> hndcrc8 (pre @ xs @ suf) c8 \<noteq> hndcrc8 (pre @ ys @ suf) c8)
    \<and> (length xs \<le> 2 \<longrightarrow> hndcrc16 (pre @ xs @ suf) c16 \<noteq> hndcrc16 (pre @ ys @ suf) c16)
    \<and> (length xs \<le> 4 \<longrightarrow> hndcrc32 (pre @ xs @ suf) c32 \<noteq> hndcrc32 (pre @ ys @ suf) c32)"
  unfolding hndcrc8_fold hndcrc16_fold hndcrc32_fold
  using crc8.crc_burst [of xs ys] crc16.crc_burst [of xs ys] crc32.crc_burst [of xs ys] assms
  by simp

theorem hndcrc_detects_burst_witness:
  "hndcrc32 [1, 2, 3, 4, 5] CRC32_INIT_VALUE \<noteq> hndcrc32 [1, 9, 8, 7, 5] CRC32_INIT_VALUE"
  using hndcrc_detects_burst [of "[2, 3, 4]" "[9, 8, 7]" "[1]" "[5]"] by simp

text \<open>
  The check the comments describe.  Appending the complemented checksum, low byte first, to
  data whose checksum was started from the initial value gives the documented good value, for
  all three widths and any data.
\<close>

theorem hndcrc_good_value:
  "hndcrc8 (pdata @ le_bytes8 (NOT (hndcrc8 pdata CRC8_INIT_VALUE))) CRC8_INIT_VALUE = CRC8_GOOD_VALUE
   \<and> hndcrc16 (pdata @ le_bytes16 (NOT (hndcrc16 pdata CRC16_INIT_VALUE))) CRC16_INIT_VALUE
      = CRC16_GOOD_VALUE
   \<and> hndcrc32 (pdata @ le_bytes32 (NOT (hndcrc32 pdata CRC32_INIT_VALUE))) CRC32_INIT_VALUE
      = CRC32_GOOD_VALUE"
  by (simp add: hndcrc8_fold hndcrc16_fold hndcrc32_fold residue8 residue16 residue32)

text \<open>
  The word-at-a-time loop of the MIPS build returns and equals the byte loop whenever the
  buffer is at least as long as the distance to the next word boundary and does not run past
  the end of the address space.
\<close>

theorem hndcrc32_mips_correct:
  assumes "align_gap pdata \<le> unat nbytes" and "unat pdata + unat nbytes < 2 ^ 32"
  shows "hndcrc32_mips mem pdata nbytes crc = Some (hndcrc32 (mem_bytes mem pdata (unat nbytes)) crc)"
  using assms by (rule hndcrc32_mips_eq)

theorem hndcrc32_mips_correct_witness:
  "hndcrc32_mips (\<lambda>a. if a = 0x1003 then 5 else 9) 0x1001 7 CRC32_INIT_VALUE =
     Some (hndcrc32 [9, 9, 5, 9, 9, 9, 9] CRC32_INIT_VALUE)"
  using hndcrc32_mips_correct [of "0x1001" 7 "\<lambda>a. if a = 0x1003 then 5 else 9" CRC32_INIT_VALUE]
  by (simp add: align_gap_def mem_bytes_def upt_rec)

text \<open>
  Below that length the MIPS loop is wrong.  One byte at an address that is 1 modulo 4 is
  checked as five: \<open>nbytes - (pend - pdata)\<close> wraps, the first loop still runs to the word
  boundary and the last one reads two bytes more.  The result is the checksum of the five bytes
  from pdata on.
\<close>

theorem hndcrc32_mips_short_unaligned:
  "hndcrc32_mips mem 0x1001 1 crc = Some (hndcrc32 (mem_bytes mem 0x1001 5) crc)"
proof -
  have bytes: "crc32_bytes mem 0x1001 0x1004 c = (0x1004, hndcrc32 (mem_bytes mem 0x1001 3) c)"
    "crc32_bytes mem 0x1004 0x1006 c = (0x1006, hndcrc32 (mem_bytes mem 0x1004 2) c)" for c
    using crc32_bytes_eq [of "0x1001" 3 mem c] crc32_bytes_eq [of "0x1004" 2 mem c] by simp_all
  have wrapped: "(4294971392 :: u32) = 0x1000" "(-2 :: u32) AND 3 = 2" by simp_all
  have "crc32_words mem 0x1004 0x1000 c = Some (0x1004, c)" for c
    by (subst crc32_words.simps) simp
  then show ?thesis
    using mem_bytes_add [of mem "0x1001" 3 2]
    by (simp add: hndcrc32_mips_def bytes hndcrc32_append wrapped)
qed

end
