(* ===== verification/Pktq.thy ===== *)
theory Pktq
  imports Prelude "HOL-Library.Monad_Syntax"
begin

text \<open>
  The multi-precedence packet queue and the packet-chain helpers of
  src/broadcom/src/shared/bcmutils.c.  Packets are addresses, threaded through the link field
  that PKTLINK reads and PKTSETLINK writes; the model keeps that field as a store, so that
  aliasing between the queue's head and tail pointers and the packets is the code's.

  An operation returns None when an ASSERT fails, when a null pointer would be followed or when
  the q array would be indexed out of range; otherwise it returns the new state with the C
  result.  \<open>pktq_rel\<close> relates a state to one list of packets per precedence and is kept by
  every operation; the operations are proved to be the expected list operations on it.
\<close>

section \<open>State\<close>

type_synonym pkt = nat

definition PKTQ_MAX_PREC :: nat where "PKTQ_MAX_PREC = 16"

record pktq_prec =
  q_head :: "pkt option"
  q_tail :: "pkt option"
  q_len :: u16
  q_max :: u16

record pktq =
  num_prec :: u16
  hi_prec :: u16
  pq_max :: u16
  pq_len :: u16
  pq_q :: "pktq_prec list"

text \<open>The queue, the link field of every packet, and the packets handed to PKTFREE so far.\<close>

record pktq_state =
  pq :: pktq
  pktlink :: "pkt \<Rightarrow> pkt option"
  pktfreed :: "pkt list"

definition ASSERT :: "bool \<Rightarrow> unit option" where
  "ASSERT b = (if b then Some () else None)"

definition pktq_full :: "pktq \<Rightarrow> bool" where
  "pktq_full Q = (pq_len Q \<ge> pq_max Q)"

definition pktq_prec_full :: "pktq_prec \<Rightarrow> bool" where
  "pktq_prec_full e = (q_len e \<ge> q_max e)"

text \<open>\<open>&pq->q[prec]\<close>, and storing through it.\<close>

definition q_at :: "pktq_state \<Rightarrow> nat \<Rightarrow> pktq_prec option" where
  "q_at s i = (if i < length (pq_q (pq s)) then Some (pq_q (pq s) ! i) else None)"

definition q_set :: "pktq_state \<Rightarrow> nat \<Rightarrow> pktq_prec \<Rightarrow> pktq_state" where
  "q_set s i e = s\<lparr>pq := (pq s)\<lparr>pq_q := (pq_q (pq s))[i := e]\<rparr>\<rparr>"

definition setlink :: "pktq_state \<Rightarrow> pkt \<Rightarrow> pkt option \<Rightarrow> pktq_state" where
  "setlink s p r = s\<lparr>pktlink := (pktlink s)(p := r)\<rparr>"

definition set_pq_len :: "pktq_state \<Rightarrow> u16 \<Rightarrow> pktq_state" where
  "set_pq_len s n = s\<lparr>pq := (pq s)\<lparr>pq_len := n\<rparr>\<rparr>"

definition set_hi_prec :: "pktq_state \<Rightarrow> u16 \<Rightarrow> pktq_state" where
  "set_hi_prec s n = s\<lparr>pq := (pq s)\<lparr>hi_prec := n\<rparr>\<rparr>"

definition valid_prec :: "pktq_state \<Rightarrow> int \<Rightarrow> bool" where
  "valid_prec s prec = (prec \<ge> 0 \<and> prec < uint (num_prec (pq s)))"

text \<open>\<open>if (pq->hi_prec < prec) pq->hi_prec = (uint8)prec;\<close>\<close>

definition raise_hi_prec :: "pktq_state \<Rightarrow> int \<Rightarrow> pktq_state" where
  "raise_hi_prec s prec =
     (if uint (hi_prec (pq s)) < prec then set_hi_prec s (ucast (of_int prec :: u8)) else s)"

section \<open>Operations on one precedence\<close>

definition pktq_penq :: "pktq_state \<Rightarrow> int \<Rightarrow> pkt \<Rightarrow> (pkt \<times> pktq_state) option" where
  "pktq_penq s prec p = do {
     ASSERT (valid_prec s prec);
     ASSERT (pktlink s p = None);
     ASSERT (\<not> pktq_full (pq s));
     e \<leftarrow> q_at s (nat prec);
     ASSERT (\<not> pktq_prec_full e);
     (s, e) \<leftarrow> (if q_head e \<noteq> None
                then do { t \<leftarrow> q_tail e; Some (setlink s t (Some p), e) }
                else Some (s, e\<lparr>q_head := Some p\<rparr>));
     let e = e\<lparr>q_tail := Some p, q_len := q_len e + 1\<rparr>;
     let s = q_set s (nat prec) e;
     let s = set_pq_len s (pq_len (pq s) + 1);
     Some (p, raise_hi_prec s prec)
   }"

definition pktq_penq_head :: "pktq_state \<Rightarrow> int \<Rightarrow> pkt \<Rightarrow> (pkt \<times> pktq_state) option" where
  "pktq_penq_head s prec p = do {
     ASSERT (valid_prec s prec);
     ASSERT (pktlink s p = None);
     ASSERT (\<not> pktq_full (pq s));
     e \<leftarrow> q_at s (nat prec);
     ASSERT (\<not> pktq_prec_full e);
     let e = (if q_head e = None then e\<lparr>q_tail := Some p\<rparr> else e);
     let s = setlink s p (q_head e);
     let e = e\<lparr>q_head := Some p, q_len := q_len e + 1\<rparr>;
     let s = q_set s (nat prec) e;
     let s = set_pq_len s (pq_len (pq s) + 1);
     Some (p, raise_hi_prec s prec)
   }"

text \<open>The common tail of the dequeue operations: unlink the first packet p of queue i.\<close>

definition unlink_head :: "pktq_state \<Rightarrow> nat \<Rightarrow> pktq_prec \<Rightarrow> pkt \<Rightarrow> pktq_state" where
  "unlink_head s i e p =
     (let h = pktlink s p;
          e = e\<lparr>q_head := h\<rparr>;
          e = (if h = None then e\<lparr>q_tail := None\<rparr> else e);
          e = e\<lparr>q_len := q_len e - 1\<rparr>;
          s = q_set s i e;
          s = set_pq_len s (pq_len (pq s) - 1)
      in setlink s p None)"

definition pktq_pdeq :: "pktq_state \<Rightarrow> int \<Rightarrow> (pkt option \<times> pktq_state) option" where
  "pktq_pdeq s prec = do {
     ASSERT (valid_prec s prec);
     e \<leftarrow> q_at s (nat prec);
     case q_head e of
       None \<Rightarrow> Some (None, s)
     | Some p \<Rightarrow> Some (Some p, unlink_head s (nat prec) e p)
   }"

text \<open>\<open>for (prev = NULL; p != q->tail; p = PKTLINK(p)) prev = p;\<close>\<close>

partial_function (option) walk_to :: "(pkt \<Rightarrow> pkt option) \<Rightarrow> pkt option \<Rightarrow> pkt option \<Rightarrow> pkt option \<Rightarrow> (pkt option \<times> pkt option) option" where
  "walk_to link p t prev =
     (if p = t then Some (p, prev)
      else case p of None \<Rightarrow> None | Some a \<Rightarrow> walk_to link (link a) t p)"

text \<open>The common part of the two tail dequeues, from the test of q->head on.\<close>

definition unlink_tail :: "pktq_state \<Rightarrow> nat \<Rightarrow> pktq_prec \<Rightarrow> (pkt option \<times> pktq_state) option" where
  "unlink_tail s i e =
     (if q_head e = None then Some (None, s)
      else do {
        (p, prev) \<leftarrow> walk_to (pktlink s) (q_head e) (q_tail e) None;
        let (s, e) = (case prev of
             Some a \<Rightarrow> (setlink s a None, e)
           | None \<Rightarrow> (s, e\<lparr>q_head := None\<rparr>));
        let e = e\<lparr>q_tail := prev, q_len := q_len e - 1\<rparr>;
        let s = q_set s i e;
        Some (p, set_pq_len s (pq_len (pq s) - 1))
      })"

definition pktq_pdeq_tail :: "pktq_state \<Rightarrow> int \<Rightarrow> (pkt option \<times> pktq_state) option" where
  "pktq_pdeq_tail s prec = do {
     ASSERT (valid_prec s prec);
     e \<leftarrow> q_at s (nat prec);
     unlink_tail s (nat prec) e
   }"

text \<open>The loop of \<open>pktq_pflush\<close>: p is q->head at the loop test.\<close>

partial_function (option) pflush_loop :: "pktq_state \<Rightarrow> nat \<Rightarrow> pktq_state option" where
  "pflush_loop s i = do {
     e \<leftarrow> q_at s i;
     case q_head e of
       None \<Rightarrow> Some s
     | Some p \<Rightarrow>
         (let s' = q_set s i (e\<lparr>q_head := pktlink s p, q_len := q_len e - 1\<rparr>);
              s' = setlink s' p None;
              s' = s'\<lparr>pktfreed := pktfreed s' @ [p]\<rparr>
          in pflush_loop (set_pq_len s' (pq_len (pq s') - 1)) i)
   }"

definition pktq_pflush :: "pktq_state \<Rightarrow> int \<Rightarrow> pktq_state option" where
  "pktq_pflush s prec =
     (if prec < 0 then None
      else do {
        s \<leftarrow> pflush_loop s (nat prec);
        e \<leftarrow> q_at s (nat prec);
        ASSERT (q_len e = 0);
        Some (q_set s (nat prec) (e\<lparr>q_tail := None\<rparr>))
      })"

text \<open>\<open>for (p = q->head; p && PKTLINK(p) != pktbuf; p = PKTLINK(p));\<close>\<close>

partial_function (option) find_pred :: "(pkt \<Rightarrow> pkt option) \<Rightarrow> pkt option \<Rightarrow> pkt \<Rightarrow> pkt option option" where
  "find_pred link p b =
     (case p of None \<Rightarrow> Some None
      | Some a \<Rightarrow> if link a \<noteq> Some b then find_pred link (link a) b else Some p)"

definition pktq_pdel :: "pktq_state \<Rightarrow> pkt option \<Rightarrow> int \<Rightarrow> (bool \<times> pktq_state) option" where
  "pktq_pdel s pktbuf prec = do {
     ASSERT (valid_prec s prec);
     (case pktbuf of
       None \<Rightarrow> Some (False, s)
     | Some b \<Rightarrow> do {
         e \<leftarrow> q_at s (nat prec);
         r \<leftarrow> (if q_head e = Some b
              then (let h = pktlink s b; e = e\<lparr>q_head := h\<rparr>
                    in Some (Some (if h = None then e\<lparr>q_tail := None\<rparr> else e, s)))
              else do {
                p \<leftarrow> find_pred (pktlink s) (q_head e) b;
                (case p of
                   None \<Rightarrow> Some None
                 | Some a \<Rightarrow>
                     (let s = setlink s a (pktlink s b)
                      in Some (Some (if q_tail e = Some b then e\<lparr>q_tail := Some a\<rparr> else e, s))))
              });
         (case r of
            None \<Rightarrow> Some (False, s)
          | Some (e, s) \<Rightarrow>
              (let s = q_set s (nat prec) (e\<lparr>q_len := q_len e - 1\<rparr>);
                   s = set_pq_len s (pq_len (pq s) - 1)
               in Some (True, setlink s b None)))
       })
   }"

section \<open>Operations on the whole queue\<close>

definition pktq_init :: "pktq_state \<Rightarrow> int \<Rightarrow> int \<Rightarrow> pktq_state option" where
  "pktq_init s n max_len = do {
     ASSERT (n > 0 \<and> n \<le> int PKTQ_MAX_PREC);
     let zero = \<lparr>q_head = None, q_tail = None, q_len = 0, q_max = of_int max_len\<rparr>;
     Some (s\<lparr>pq := \<lparr>num_prec = of_int n, hi_prec = 0, pq_max = of_int max_len, pq_len = 0,
                    pq_q = replicate (nat n) zero @ drop (nat n) (pq_q (pq s))\<rparr>\<rparr>)
   }"

definition pktq_setmax :: "pktq_state \<Rightarrow> int \<Rightarrow> u16 \<times> pktq_state" where
  "pktq_setmax s max_len =
     (if max_len = 0 then (pq_max (pq s), s)
      else (let m = of_int max_len;
                n = unat (num_prec (pq s));
                qs = pq_q (pq s)
            in (m, s\<lparr>pq := (pq s)\<lparr>pq_max := m,
                       pq_q := map (\<lambda>e. e\<lparr>q_max := m\<rparr>) (take n qs) @ drop n qs\<rparr>\<rparr>)))"

text \<open>\<open>while ((prec = pq->hi_prec) > 0 && pq->q[prec].head == NULL) pq->hi_prec--;\<close>\<close>

function lower_hi_prec :: "pktq_state \<Rightarrow> pktq_state option" where
  "lower_hi_prec s =
     (if hi_prec (pq s) > 0
      then case q_at s (unat (hi_prec (pq s))) of
             None \<Rightarrow> None
           | Some e \<Rightarrow> if q_head e = None then lower_hi_prec (set_hi_prec s (hi_prec (pq s) - 1)) else Some s
      else Some s)"
  by pat_completeness auto
termination
  by (relation "measure (\<lambda>s. unat (hi_prec (pq s)))")
     (auto simp: set_hi_prec_def word_gt_0 measure_unat)

declare lower_hi_prec.simps [simp del]

definition pktq_deq :: "pktq_state \<Rightarrow> ((pkt \<times> nat) option \<times> pktq_state) option" where
  "pktq_deq s =
     (if pq_len (pq s) = 0 then Some (None, s)
      else do {
        s \<leftarrow> lower_hi_prec s;
        let prec = unat (hi_prec (pq s));
        e \<leftarrow> q_at s prec;
        case q_head e of
          None \<Rightarrow> Some (None, s)
        | Some p \<Rightarrow> Some (Some (p, prec), unlink_head s prec e p)
      })"

text \<open>\<open>for (prec = 0; prec < pq->hi_prec; prec++) if (pq->q[prec].head) break;\<close>\<close>

function first_nonempty :: "pktq_state \<Rightarrow> nat \<Rightarrow> nat option" where
  "first_nonempty s prec =
     (if prec < unat (hi_prec (pq s))
      then case q_at s prec of
             None \<Rightarrow> None
           | Some e \<Rightarrow> if q_head e \<noteq> None then Some prec else first_nonempty s (Suc prec)
      else Some prec)"
  by pat_completeness auto
termination
  by (relation "measure (\<lambda>(s, prec). unat (hi_prec (pq s)) - prec)") auto

declare first_nonempty.simps [simp del]

definition pktq_deq_tail :: "pktq_state \<Rightarrow> ((pkt \<times> nat) option \<times> pktq_state) option" where
  "pktq_deq_tail s =
     (if pq_len (pq s) = 0 then Some (None, s)
      else do {
        prec \<leftarrow> first_nonempty s 0;
        e \<leftarrow> q_at s prec;
        (p, s) \<leftarrow> unlink_tail s prec e;
        (case p of
           None \<Rightarrow> Some (None, s)
         | Some a \<Rightarrow> Some (Some (a, prec), setlink s a None))
      })"

definition pktq_peek :: "pktq_state \<Rightarrow> ((pkt option \<times> nat) option \<times> pktq_state) option" where
  "pktq_peek s =
     (if pq_len (pq s) = 0 then Some (None, s)
      else do {
        s \<leftarrow> lower_hi_prec s;
        let prec = unat (hi_prec (pq s));
        e \<leftarrow> q_at s prec;
        Some (Some (q_head e, prec), s)
      })"

definition pktq_peek_tail :: "pktq_state \<Rightarrow> (pkt option \<times> nat) option option" where
  "pktq_peek_tail s =
     (if pq_len (pq s) = 0 then Some None
      else do {
        prec \<leftarrow> first_nonempty s 0;
        e \<leftarrow> q_at s prec;
        Some (Some (q_tail e, prec))
      })"

fun flush_precs :: "nat list \<Rightarrow> pktq_state \<Rightarrow> pktq_state option" where
  "flush_precs [] s = Some s"
| "flush_precs (i # is) s = do { s \<leftarrow> pktq_pflush s (int i); flush_precs is s }"

definition pktq_flush :: "pktq_state \<Rightarrow> pktq_state option" where
  "pktq_flush s = do {
     s \<leftarrow> flush_precs [0..<unat (num_prec (pq s))] s;
     ASSERT (pq_len (pq s) = 0);
     Some s
   }"

fun mlen_precs :: "pktq_state \<Rightarrow> u32 \<Rightarrow> nat list \<Rightarrow> nat \<Rightarrow> nat option" where
  "mlen_precs s prec_bmp [] len = Some len"
| "mlen_precs s prec_bmp (prec # precs) len =
     (if bit prec_bmp prec
      then do { e \<leftarrow> q_at s prec; mlen_precs s prec_bmp precs (len + unat (q_len e)) }
      else mlen_precs s prec_bmp precs len)"

definition pktq_mlen :: "pktq_state \<Rightarrow> u32 \<Rightarrow> nat option" where
  "pktq_mlen s prec_bmp = mlen_precs s prec_bmp [0..<Suc (unat (hi_prec (pq s)))] 0"

text \<open>\<open>while ((prec_bmp & (1 << prec)) == 0 || pq->q[prec].head == NULL) if (prec-- == 0) return NULL;\<close>\<close>

fun select_prec :: "pktq_state \<Rightarrow> u32 \<Rightarrow> nat \<Rightarrow> nat option option" where
  "select_prec s prec_bmp prec =
     (case q_at s prec of
        None \<Rightarrow> None
      | Some e \<Rightarrow>
          if \<not> bit prec_bmp prec \<or> q_head e = None
          then (case prec of 0 \<Rightarrow> Some None | Suc k \<Rightarrow> select_prec s prec_bmp k)
          else Some (Some prec))"

declare select_prec.simps [simp del]

definition pktq_mdeq :: "pktq_state \<Rightarrow> u32 \<Rightarrow> ((pkt \<times> nat) option \<times> pktq_state) option" where
  "pktq_mdeq s prec_bmp =
     (if pq_len (pq s) = 0 then Some (None, s)
      else do {
        s \<leftarrow> lower_hi_prec s;
        sel \<leftarrow> select_prec s prec_bmp (unat (hi_prec (pq s)));
        (case sel of
           None \<Rightarrow> Some (None, s)
         | Some prec \<Rightarrow> do {
             e \<leftarrow> q_at s prec;
             (case q_head e of
                None \<Rightarrow> Some (None, s)
              | Some p \<Rightarrow> Some (Some (p, prec), unlink_head s prec e p))
           })
      })"

section \<open>Abstraction: one list of packets per precedence\<close>

definition prec_rel :: "(pkt \<Rightarrow> pkt option) \<Rightarrow> pktq_prec \<Rightarrow> pkt list \<Rightarrow> bool" where
  "prec_rel link e xs \<longleftrightarrow>
     linked link (q_head e) xs None
     \<and> q_tail e = (if xs = [] then None else Some (last xs))
     \<and> unat (q_len e) = length xs"

definition pktq_rel :: "pktq_state \<Rightarrow> pkt list list \<Rightarrow> bool" where
  "pktq_rel s qs \<longleftrightarrow>
     length (pq_q (pq s)) = PKTQ_MAX_PREC
     \<and> 0 < length qs \<and> length qs \<le> PKTQ_MAX_PREC
     \<and> unat (num_prec (pq s)) = length qs
     \<and> (\<forall>i<length qs. prec_rel (pktlink s) (pq_q (pq s) ! i) (qs ! i))
     \<and> distinct (concat qs)
     \<and> unat (pq_len (pq s)) = length (concat qs)
     \<and> unat (hi_prec (pq s)) < length qs
     \<and> (\<forall>i<length qs. unat (hi_prec (pq s)) < i \<longrightarrow> qs ! i = [])"

named_theorems pktq_ops \<open>field access and update primitives of the packet queue\<close>
lemmas [pktq_ops] = q_at_def q_set_def setlink_def set_pq_len_def set_hi_prec_def valid_prec_def
  raise_hi_prec_def ASSERT_def

lemma pktq_relD:
  assumes "pktq_rel s qs"
  shows "length (pq_q (pq s)) = PKTQ_MAX_PREC" "length qs \<le> PKTQ_MAX_PREC"
    "unat (num_prec (pq s)) = length qs" "distinct (concat qs)"
    "unat (pq_len (pq s)) = length (concat qs)" "unat (hi_prec (pq s)) < length qs"
    and "i < length qs \<Longrightarrow> prec_rel (pktlink s) (pq_q (pq s) ! i) (qs ! i)"
    and "i < length qs \<Longrightarrow> unat (hi_prec (pq s)) < i \<Longrightarrow> qs ! i = []"
  using assms by (auto simp: pktq_rel_def)

lemma pktq_rel_valid:
  assumes "pktq_rel s qs" and "i < length qs"
  shows "valid_prec s (int i)" and "q_at s i = Some (pq_q (pq s) ! i)"
proof -
  have "uint (num_prec (pq s)) = int (length qs)"
    using pktq_relD(3) [OF assms(1)] by (metis uint_nat)
  then show "valid_prec s (int i)" using assms(2) by (simp add: valid_prec_def)
  show "q_at s i = Some (pq_q (pq s) ! i)"
    using assms pktq_relD(1,2) [OF assms(1)] by (simp add: q_at_def)
qed

text \<open>The frame rule for an operation that only touches queue i: links change only at packets
  that are in queue i or in no queue, queue i gets the list xs, and the counters follow.\<close>

lemma pktq_rel_update:
  assumes rel: "pktq_rel s qs" and i: "i < length qs"
    and q: "num_prec (pq s') = num_prec (pq s)" "pq_q (pq s') = (pq_q (pq s))[i := e]"
    and link: "\<And>a j. j < length qs \<Longrightarrow> j \<noteq> i \<Longrightarrow> a \<in> set (qs ! j) \<Longrightarrow> pktlink s' a = pktlink s a"
    and prec: "prec_rel (pktlink s') e xs"
    and dist: "distinct xs" "set xs \<subseteq> set (qs ! i) \<union> - set (concat qs)"
    and len: "unat (pq_len (pq s')) + length (qs ! i) = length (concat qs) + length xs"
    and hi: "unat (hi_prec (pq s')) < length qs"
      "\<And>j. j < length qs \<Longrightarrow> unat (hi_prec (pq s')) < j \<Longrightarrow> (qs[i := xs]) ! j = []"
  shows "pktq_rel s' (qs[i := xs])"
proof -
  have frame: "linked (pktlink s') p ys r = linked (pktlink s) p ys r"
    if "\<And>a. a \<in> set ys \<Longrightarrow> pktlink s' a = pktlink s a" for p ys r
    using that by (induction ys arbitrary: p) auto
  have others: "prec_rel (pktlink s') (pq_q (pq s) ! j) (qs ! j)" if "j < length qs" "j \<noteq> i" for j
    using pktq_relD(7) [OF rel that(1)] link [OF that] frame [of "qs ! j"] by (simp add: prec_rel_def)
  have dconc: "distinct (concat (qs[i := xs]))"
    unfolding concat_update_split [OF i]
    using pktq_relD(4) [OF rel] dist unfolding concat_nth_split [OF i] by (rule distinct_replace_mid)
  have "length (concat (qs[i := xs])) + length (qs ! i) = length (concat qs) + length xs"
    using concat_nth_split [OF i] by (simp add: concat_update_split [OF i])
  then have "unat (pq_len (pq s')) = length (concat (qs[i := xs]))" using len by simp
  moreover have "\<forall>j<length qs. prec_rel (pktlink s') (pq_q (pq s') ! j) (qs[i := xs] ! j)"
    using others prec i pktq_relD(1,2) [OF rel] by (auto simp: nth_list_update q)
  ultimately show ?thesis
    using pktq_relD(1-3) [OF rel] dconc hi i by (auto simp: pktq_rel_def q)
qed

lemma unat_u8_prec: "i < PKTQ_MAX_PREC \<Longrightarrow> unat (ucast (of_int (int i) :: u8) :: u16) = i"
  by (simp add: PKTQ_MAX_PREC_def unsigned_ucast_eq unsigned_of_nat take_bit_nat_eq_self)

lemma uint_less_int: "uint (w :: 'a::len word) < int i \<longleftrightarrow> unat w < i"
  by (metis nat_less_iff of_nat_less_iff uint_nat)

lemma raise_hi_prec_unat:
  "i < PKTQ_MAX_PREC \<Longrightarrow> unat (hi_prec (pq (raise_hi_prec s (int i)))) = max (unat (hi_prec (pq s))) i"
  using unat_u8_prec [of i]
  by (auto simp: raise_hi_prec_def set_hi_prec_def uint_less_int)

lemma raise_hi_prec_frame [simp]:
  "pktlink (raise_hi_prec s i) = pktlink s" "pq_q (pq (raise_hi_prec s i)) = pq_q (pq s)"
  "num_prec (pq (raise_hi_prec s i)) = num_prec (pq s)" "pq_len (pq (raise_hi_prec s i)) = pq_len (pq s)"
  "pktfreed (raise_hi_prec s i) = pktfreed s"
  by (simp_all add: raise_hi_prec_def set_hi_prec_def)

lemma not_full_room:
  assumes "\<not> pktq_full Q"
  shows "unat (pq_len Q + 1) = Suc (unat (pq_len Q))"
  using assms unat_Suc_less [of "pq_len Q" "pq_max Q"] by (simp add: pktq_full_def)

lemma not_prec_full_room:
  assumes "\<not> pktq_prec_full e"
  shows "unat (q_len e + 1) = Suc (unat (q_len e))"
  using assms unat_Suc_less [of "q_len e" "q_max e"] by (simp add: pktq_prec_full_def)

lemma pktq_rel_other:
  assumes "pktq_rel s qs" "i < length qs" "j < length qs" "j \<noteq> i" "a \<in> set (qs ! j)"
  shows "a \<notin> set (qs ! i)"
  using distinct_concat_disjoint [OF pktq_relD(4) [OF assms(1)] assms(2,3)] assms(4,5) by auto

lemma pktq_rel_distinct_nth: "pktq_rel s qs \<Longrightarrow> i < length qs \<Longrightarrow> distinct (qs ! i)"
  using pktq_relD(4) [of s qs] by (simp add: concat_nth_split)

lemma unat_dec: "0 < unat w \<Longrightarrow> unat (w - 1 :: 'a::len word) = unat w - 1"
  by (simp add: unat_minus_one unat_gt_0)

lemma unat_minus_of_nat:
  assumes "n \<le> unat w"
  shows "unat (w - of_nat n :: 'a::len word) = unat w - n"
proof -
  have "n < 2 ^ LENGTH('a)" using assms unat_less_2p [of w] by linarith
  then have "unat (of_nat n :: 'a word) = n" by (simp add: unsigned_of_nat take_bit_nat_eq_self)
  then show ?thesis using assms by (simp add: unat_sub word_le_nat_alt)
qed

lemma concat_nth_length: "i < length qs \<Longrightarrow> length (qs ! i) \<le> length (concat qs)"
  by (simp add: concat_nth_split [of i qs])

lemma pq_len_dec:
  assumes "pktq_rel s qs" "i < length qs" "qs ! i \<noteq> []"
  shows "Suc (unat (pq_len (pq s) - 1)) = length (concat qs)"
proof -
  have "0 < length (qs ! i)" using assms(3) by simp
  then have "0 < unat (pq_len (pq s))"
    using concat_nth_length [OF assms(2)] pktq_relD(5) [OF assms(1)] by linarith
  then show ?thesis using unat_dec [of "pq_len (pq s)"] pktq_relD(5) [OF assms(1)] by linarith
qed

text \<open>A queue with one packet at precedence 0 and two at precedence 1, used by the witnesses.\<close>

definition pktq_example :: pktq_state where
  "pktq_example = \<lparr>pq = \<lparr>num_prec = 2, hi_prec = 1, pq_max = 8, pq_len = 3,
     pq_q = [\<lparr>q_head = Some 1, q_tail = Some 1, q_len = 1, q_max = 8\<rparr>,
             \<lparr>q_head = Some 2, q_tail = Some 3, q_len = 2, q_max = 8\<rparr>]
       @ replicate 14 \<lparr>q_head = None, q_tail = None, q_len = 0, q_max = 0\<rparr>\<rparr>,
     pktlink = (\<lambda>_. None)(2 := Some 3), pktfreed = []\<rparr>"

lemma pktq_example_rel: "pktq_rel pktq_example [[1], [2, 3]]"
  by (auto simp: pktq_example_def pktq_rel_def prec_rel_def PKTQ_MAX_PREC_def less_Suc_eq)

section \<open>The operations refine list operations\<close>

text \<open>C5: enqueueing a packet that is in no queue, where neither limit is reached, returns the
  packet, puts it at the end of the list of its precedence, changes no other list and frees nothing;
  the counters, the tail pointer and hi_prec stay consistent.\<close>

theorem pktq_penq_refines:
  assumes rel: "pktq_rel s qs" and i: "i < length qs" and fresh: "p \<notin> set (concat qs)"
    and link: "pktlink s p = None" and room: "\<not> pktq_full (pq s)"
    and room_i: "\<not> pktq_prec_full (pq_q (pq s) ! i)"
  shows "\<exists>s'. pktq_penq s (int i) p = Some (p, s') \<and> pktq_rel s' (qs[i := qs ! i @ [p]])
    \<and> pktfreed s' = pktfreed s"
proof -
  let ?e = "pq_q (pq s) ! i" and ?xs = "qs ! i"
  note ri = pktq_relD(7) [OF rel i, unfolded prec_rel_def]
  have dist: "distinct ?xs" using rel i by (rule pktq_rel_distinct_nth)
  have p: "p \<notin> set ?xs" using fresh i by (auto simp: concat_nth_split)
  have i16: "i < PKTQ_MAX_PREC" using i pktq_relD(2) [OF rel] by simp
  define s1 where "s1 = (if ?xs = [] then s else setlink s (last ?xs) (Some p))"
  define e1 where "e1 = (if ?xs = [] then ?e\<lparr>q_head := Some p\<rparr> else ?e)\<lparr>q_tail := Some p, q_len := q_len ?e + 1\<rparr>"
  define s2 where "s2 = raise_hi_prec (set_pq_len (q_set s1 i e1) (pq_len (pq s) + 1)) (int i)"
  have head: "q_head ?e = (if ?xs = [] then None else Some (hd ?xs))"
    using ri linked_head by blast
  have eq: "pktq_penq s (int i) p = Some (p, s2)"
    using pktq_rel_valid [OF rel i] link room room_i ri head
    by (auto simp: pktq_penq_def s2_def s1_def e1_def ASSERT_def setlink_def q_set_def Let_def)
  have "prec_rel (pktlink s2) e1 (?xs @ [p])"
    using ri p dist link linked_snoc [of "pktlink s" "q_head ?e" ?xs p] not_prec_full_room [OF room_i]
    by (auto simp: prec_rel_def s2_def s1_def e1_def set_pq_len_def q_set_def setlink_def)
  moreover have "unat (hi_prec (pq s2)) = max (unat (hi_prec (pq s))) i"
    unfolding s2_def using raise_hi_prec_unat [OF i16]
    by (simp add: set_pq_len_def q_set_def s1_def setlink_def)
  moreover have "pktlink s2 a = pktlink s a" if "j < length qs" "j \<noteq> i" "a \<in> set (qs ! j)" for a j
    using pktq_rel_other [OF rel i that] last_in_set [of ?xs]
    by (auto simp: s2_def s1_def set_pq_len_def q_set_def setlink_def)
  ultimately have "pktq_rel s2 (qs[i := ?xs @ [p]])"
    using pktq_relD(5,6,8) [OF rel] i dist p fresh not_full_room [OF room]
    by (intro pktq_rel_update [OF rel i, where e = e1])
       (auto simp: s2_def s1_def set_pq_len_def q_set_def setlink_def nth_list_update)
  then show ?thesis using eq by (auto simp: s2_def s1_def set_pq_len_def q_set_def setlink_def)
qed

theorem pktq_penq_refines_witness:
  "\<exists>s'. pktq_penq pktq_example 0 7 = Some (7, s') \<and> pktq_rel s' [[1, 7], [2, 3]] \<and> pktfreed s' = []"
  using pktq_penq_refines [OF pktq_example_rel, of 0 7]
  by (simp add: pktq_example_def pktq_full_def pktq_prec_full_def word_le_nat_alt)

lemma pktq_penq_head_refines:
  assumes rel: "pktq_rel s qs" and i: "i < length qs" and fresh: "p \<notin> set (concat qs)"
    and link: "pktlink s p = None" and room: "\<not> pktq_full (pq s)"
    and room_i: "\<not> pktq_prec_full (pq_q (pq s) ! i)"
  shows "\<exists>s'. pktq_penq_head s (int i) p = Some (p, s') \<and> pktq_rel s' (qs[i := p # qs ! i])
    \<and> pktfreed s' = pktfreed s"
proof -
  let ?e = "pq_q (pq s) ! i" and ?xs = "qs ! i"
  note ri = pktq_relD(7) [OF rel i, unfolded prec_rel_def]
  have dist: "distinct ?xs" using rel i by (rule pktq_rel_distinct_nth)
  have p: "p \<notin> set ?xs" using fresh i by (auto simp: concat_nth_split)
  have i16: "i < PKTQ_MAX_PREC" using i pktq_relD(2) [OF rel] by simp
  define e1 where "e1 = (if ?xs = [] then ?e\<lparr>q_tail := Some p\<rparr> else ?e)\<lparr>q_head := Some p, q_len := q_len ?e + 1\<rparr>"
  define s2 where "s2 = raise_hi_prec (set_pq_len (q_set (setlink s p (q_head ?e)) i e1) (pq_len (pq s) + 1)) (int i)"
  have head: "q_head ?e = (if ?xs = [] then None else Some (hd ?xs))"
    using ri linked_head by blast
  have eq: "pktq_penq_head s (int i) p = Some (p, s2)"
    using pktq_rel_valid [OF rel i] link room room_i head
    by (auto simp: pktq_penq_head_def s2_def e1_def ASSERT_def setlink_def q_set_def Let_def)
  have "prec_rel (pktlink s2) e1 (p # ?xs)"
    using ri p head not_prec_full_room [OF room_i]
    by (auto simp: prec_rel_def s2_def e1_def set_pq_len_def q_set_def setlink_def)
  moreover have "unat (hi_prec (pq s2)) = max (unat (hi_prec (pq s))) i"
    unfolding s2_def using raise_hi_prec_unat [OF i16]
    by (simp add: set_pq_len_def q_set_def setlink_def)
  moreover have "pktlink s2 a = pktlink s a" if "j < length qs" "j \<noteq> i" "a \<in> set (qs ! j)" for a j
    using that fresh by (auto simp: s2_def set_pq_len_def q_set_def setlink_def)
  ultimately have "pktq_rel s2 (qs[i := p # ?xs])"
    using pktq_relD(5,6,8) [OF rel] i dist p fresh not_full_room [OF room]
    by (intro pktq_rel_update [OF rel i, where e = e1])
       (auto simp: s2_def set_pq_len_def q_set_def setlink_def nth_list_update)
  then show ?thesis using eq by (auto simp: s2_def set_pq_len_def q_set_def setlink_def)
qed

lemma unlink_head_refines:
  assumes rel: "pktq_rel s qs" and i: "i < length qs" and xs: "qs ! i = p # xs"
  shows "pktq_rel (unlink_head s i (pq_q (pq s) ! i) p) (qs[i := xs])"
proof -
  let ?e = "pq_q (pq s) ! i"
  note ri = pktq_relD(7) [OF rel i, unfolded prec_rel_def xs]
  have dist: "distinct (p # xs)" using pktq_rel_distinct_nth [OF rel i] by (simp add: xs)
  have nxt: "pktlink s p = (if xs = [] then None else Some (hd xs))"
    using ri linked_head [of "pktlink s" "pktlink s p" xs] by simp
  define e1 where "e1 = (if xs = [] then ?e\<lparr>q_head := None, q_tail := None\<rparr> else ?e\<lparr>q_head := pktlink s p\<rparr>)\<lparr>q_len := q_len ?e - 1\<rparr>"
  define s2 where "s2 = unlink_head s i ?e p"
  have fields: "pktlink s2 = (pktlink s)(p := None)" "pq_q (pq s2) = (pq_q (pq s))[i := e1]"
    "pq_len (pq s2) = pq_len (pq s) - 1" "hi_prec (pq s2) = hi_prec (pq s)" "num_prec (pq s2) = num_prec (pq s)"
    using nxt by (auto simp: s2_def e1_def unlink_head_def Let_def setlink_def set_pq_len_def q_set_def)
  have "prec_rel (pktlink s2) e1 xs"
    using ri dist by (auto simp: prec_rel_def fields e1_def unat_dec)
  moreover have "unat (pq_len (pq s2)) + length (qs ! i) = length (concat qs) + length xs"
    using pq_len_dec [OF rel i] by (simp add: fields xs)
  ultimately show ?thesis
    unfolding s2_def [symmetric]
    using pktq_relD(6,8) [OF rel] i dist xs pktq_rel_other [OF rel i]
    by (intro pktq_rel_update [OF rel i, where e = e1]) (auto simp: fields nth_list_update)
qed

lemma pktq_pdeq_refines:
  assumes rel: "pktq_rel s qs" and i: "i < length qs"
  shows "case qs ! i of
      [] \<Rightarrow> pktq_pdeq s (int i) = Some (None, s)
    | p # xs \<Rightarrow> \<exists>s'. pktq_pdeq s (int i) = Some (Some p, s') \<and> pktq_rel s' (qs[i := xs])"
  using pktq_rel_valid [OF rel i] pktq_relD(7) [OF rel i] unlink_head_refines [OF rel i]
  by (auto simp: pktq_pdeq_def ASSERT_def prec_rel_def split: list.split)

lemma walk_to_last:
  "linked link p xs None \<Longrightarrow> distinct xs \<Longrightarrow> xs \<noteq> [] \<Longrightarrow>
   walk_to link p (Some (last xs)) prev =
     Some (Some (last xs), if length xs = 1 then prev else Some (last (butlast xs)))"
proof (induction xs arbitrary: p prev)
  case (Cons x xs)
  show ?case
  proof (cases "xs = []")
    case True
    with Cons.prems show ?thesis by (simp add: walk_to.simps)
  next
    case False
    then have "x \<noteq> last xs" using Cons.prems by (metis distinct.simps(2) last_in_set)
    with False Cons.prems Cons.IH [of "link x" p] show ?thesis
      by (cases xs) (auto simp: walk_to.simps [of link "Some x"])
  qed
qed simp

lemma unlink_tail_refines:
  assumes rel: "pktq_rel s qs" and i: "i < length qs" and ne: "qs ! i \<noteq> []"
  shows "\<exists>s'. unlink_tail s i (pq_q (pq s) ! i) = Some (Some (last (qs ! i)), s')
    \<and> pktq_rel s' (qs[i := butlast (qs ! i)]) \<and> pktlink s' (last (qs ! i)) = None"
proof -
  let ?e = "pq_q (pq s) ! i" and ?xs = "qs ! i"
  note ri = pktq_relD(7) [OF rel i, unfolded prec_rel_def]
  have dist: "distinct ?xs" using rel i by (rule pktq_rel_distinct_nth)
  have head: "q_head ?e \<noteq> None" using ri ne linked_head by fastforce
  define prev where "prev = (if length ?xs = 1 then None else Some (last (butlast ?xs)))"
  define s1 where "s1 = (case prev of Some a \<Rightarrow> setlink s a None | None \<Rightarrow> s)"
  define e1 where "e1 = (case prev of Some a \<Rightarrow> ?e | None \<Rightarrow> ?e\<lparr>q_head := None\<rparr>)\<lparr>q_tail := prev, q_len := q_len ?e - 1\<rparr>"
  define s2 where "s2 = set_pq_len (q_set s1 i e1) (pq_len (pq s) - 1)"
  have "walk_to (pktlink s) (q_head ?e) (Some (last ?xs)) None = Some (Some (last ?xs), prev)"
    unfolding prev_def using walk_to_last [of "pktlink s" "q_head ?e" ?xs None] ri dist ne by simp
  then have eq: "unlink_tail s i ?e = Some (Some (last ?xs), s2)"
    using head ri ne
    by (cases prev) (simp_all add: unlink_tail_def s2_def s1_def e1_def q_set_def setlink_def set_pq_len_def)
  have fields: "pktlink s2 = (if length ?xs = 1 then pktlink s else (pktlink s)(last (butlast ?xs) := None))"
    "pq_q (pq s2) = (pq_q (pq s))[i := e1]" "pq_len (pq s2) = pq_len (pq s) - 1"
    "hi_prec (pq s2) = hi_prec (pq s)" "num_prec (pq s2) = num_prec (pq s)" "pktfreed s2 = pktfreed s"
    by (simp_all add: s2_def s1_def prev_def q_set_def setlink_def set_pq_len_def)
  have pos: "0 < length ?xs" using ne by simp
  have tl: "length ?xs \<noteq> 1 \<Longrightarrow> length ?xs \<ge> 2" "butlast ?xs = [] \<longleftrightarrow> length ?xs = 1"
    using pos length_butlast [of ?xs] length_0_conv [of "butlast ?xs"] by linarith+
  have "prec_rel (pktlink s2) e1 (butlast ?xs)"
    using ri dist pos tl linked_butlast [of "pktlink s" "q_head ?e" ?xs]
    by (cases "length ?xs = 1") (simp_all add: prec_rel_def fields e1_def prev_def unat_dec)
  moreover have "unat (pq_len (pq s2)) + length ?xs = length (concat qs) + length (butlast ?xs)"
    using pq_len_dec [OF rel i ne] pos unfolding fields length_butlast by linarith
  moreover have "last (butlast ?xs) \<in> set ?xs" if "length ?xs \<noteq> 1"
    using tl that by (metis in_set_butlastD last_in_set)
  ultimately have "pktq_rel s2 (qs[i := butlast ?xs])"
    using pktq_relD(6,8) [OF rel] i dist pktq_rel_other [OF rel i]
    by (intro pktq_rel_update [OF rel i, where e = e1])
       (auto simp: fields nth_list_update distinct_butlast dest: in_set_butlastD)
  moreover have "pktlink s2 (last ?xs) = None"
  proof -
    have "linked (pktlink s) (q_head ?e) (butlast ?xs @ [last ?xs]) None" using ri ne by simp
    then show ?thesis by (auto simp: fields)
  qed
  ultimately show ?thesis using eq by blast
qed

lemma pktq_pdeq_tail_refines:
  assumes rel: "pktq_rel s qs" and i: "i < length qs"
  shows "if qs ! i = [] then pktq_pdeq_tail s (int i) = Some (None, s)
    else \<exists>s'. pktq_pdeq_tail s (int i) = Some (Some (last (qs ! i)), s')
           \<and> pktq_rel s' (qs[i := butlast (qs ! i)])"
proof (cases "qs ! i = []")
  case True
  then have "q_head (pq_q (pq s) ! i) = None" using pktq_relD(7) [OF rel i] by (simp add: prec_rel_def)
  then show ?thesis
    using True pktq_rel_valid [OF rel i] by (simp add: pktq_pdeq_tail_def ASSERT_def unlink_tail_def)
next
  case False
  then show ?thesis
    using unlink_tail_refines [OF rel i] pktq_rel_valid [OF rel i]
    by (auto simp: pktq_pdeq_tail_def ASSERT_def)
qed


lemma pktq_rel_set_hi_prec:
  "pktq_rel s qs \<Longrightarrow> unat h < length qs \<Longrightarrow> (\<And>j. j < length qs \<Longrightarrow> unat h < j \<Longrightarrow> qs ! j = []) \<Longrightarrow>
   pktq_rel (set_hi_prec s h) qs"
  by (simp add: pktq_rel_def set_hi_prec_def)

lemma pktq_rel_head:
  assumes "pktq_rel s qs" "i < length qs"
  shows "q_head (pq_q (pq s) ! i) = (if qs ! i = [] then None else Some (hd (qs ! i)))"
  using pktq_relD(7) [OF assms] linked_head [of "pktlink s" _ "qs ! i"] unfolding prec_rel_def by blast

lemma pktq_rel_empty: "pktq_rel s qs \<Longrightarrow> pq_len (pq s) = 0 \<longleftrightarrow> concat qs = []"
  using pktq_relD(5) [of s qs] by (metis length_0_conv unat_eq_zero)

text \<open>What the scan down from hi_prec leaves: nothing but hi_prec changes, and hi_prec stands at the
  highest non-empty precedence, or at 0.\<close>

lemma lower_hi_prec_correct:
  "pktq_rel s qs \<Longrightarrow> \<exists>h. lower_hi_prec s = Some (set_hi_prec s h) \<and> pktq_rel (set_hi_prec s h) qs
     \<and> (unat h = 0 \<or> qs ! unat h \<noteq> [])"
proof (induction s rule: lower_hi_prec.induct)
  case (1 s)
  let ?h = "hi_prec (pq s)"
  have hi: "unat ?h < length qs" using "1.prems" by (rule pktq_relD(6))
  have at: "q_at s (unat ?h) = Some (pq_q (pq s) ! unat ?h)" using pktq_rel_valid(2) [OF "1.prems" hi] .
  have self: "set_hi_prec s ?h = s" by (simp add: set_hi_prec_def)
  show ?case
  proof (cases "?h > 0 \<and> qs ! unat ?h = []")
    case True
    then have pos: "0 < unat ?h" by (simp add: word_gt_0 unat_gt_0)
    note dec = unat_dec [OF pos]
    have "pktq_rel (set_hi_prec s (?h - 1)) qs"
    proof (rule pktq_rel_set_hi_prec [OF "1.prems"])
      show "unat (?h - 1) < length qs" using hi dec by linarith
      show "qs ! j = []" if "j < length qs" "unat (?h - 1) < j" for j
        using that dec pos pktq_relD(8) [OF "1.prems" that(1)] True by (cases "j = unat ?h") auto
    qed
    then have "\<exists>h. lower_hi_prec (set_hi_prec s (?h - 1)) = Some (set_hi_prec (set_hi_prec s (?h - 1)) h)
        \<and> pktq_rel (set_hi_prec (set_hi_prec s (?h - 1)) h) qs \<and> (unat h = 0 \<or> qs ! unat h \<noteq> [])"
      using "1.IH" True at pktq_rel_head [OF "1.prems" hi] by auto
    moreover have "lower_hi_prec s = lower_hi_prec (set_hi_prec s (?h - 1))"
      using True at pktq_rel_head [OF "1.prems" hi] by (subst lower_hi_prec.simps) simp
    ultimately show ?thesis by (simp add: set_hi_prec_def)
  next
    case False
    then have "lower_hi_prec s = Some s"
      using at pktq_rel_head [OF "1.prems" hi] by (subst lower_hi_prec.simps) auto
    moreover have "unat ?h = 0 \<or> qs ! unat ?h \<noteq> []" using False by (auto simp: word_gt_0)
    ultimately show ?thesis using self "1.prems" by metis
  qed
qed

definition top_prec :: "'p list list \<Rightarrow> nat \<Rightarrow> bool" where
  "top_prec qs i \<longleftrightarrow> i < length qs \<and> qs ! i \<noteq> [] \<and> (\<forall>j<length qs. i < j \<longrightarrow> qs ! j = [])"

lemma hi_prec_top:
  assumes rel: "pktq_rel s qs" and ne: "concat qs \<noteq> []"
    and h: "unat (hi_prec (pq s)) = 0 \<or> qs ! unat (hi_prec (pq s)) \<noteq> []"
  shows "top_prec qs (unat (hi_prec (pq s)))"
proof -
  let ?h = "unat (hi_prec (pq s))"
  obtain k where k: "k < length qs" "qs ! k \<noteq> []"
    using ne by (auto simp: in_set_conv_nth)
  then have "k \<le> ?h" using pktq_relD(8) [OF rel] by (meson not_le)
  then have "qs ! ?h \<noteq> []" using h k by (cases "?h = 0") auto
  then show ?thesis using pktq_relD(6,8) [OF rel] by (auto simp: top_prec_def)
qed

lemma pktq_deq_empty: "pktq_rel s qs \<Longrightarrow> concat qs = [] \<Longrightarrow> pktq_deq s = Some (None, s)"
  using pktq_rel_empty [of s qs] by (simp add: pktq_deq_def)

lemma pktq_deq_refines:
  assumes rel: "pktq_rel s qs" and ne: "concat qs \<noteq> []"
  shows "\<exists>i s'. top_prec qs i \<and> pktq_deq s = Some (Some (hd (qs ! i), i), s')
     \<and> pktq_rel s' (qs[i := tl (qs ! i)])"
proof -
  obtain h where h: "lower_hi_prec s = Some (set_hi_prec s h)" "pktq_rel (set_hi_prec s h) qs"
      "unat h = 0 \<or> qs ! unat h \<noteq> []"
    using lower_hi_prec_correct [OF rel] by blast
  let ?s = "set_hi_prec s h" and ?i = "unat h"
  have top: "top_prec qs ?i" using hi_prec_top [OF h(2) ne] h(3) by (simp add: set_hi_prec_def)
  then have i: "?i < length qs" and xs: "qs ! ?i = hd (qs ! ?i) # tl (qs ! ?i)" by (auto simp: top_prec_def)
  have "pktq_deq s = Some (Some (hd (qs ! ?i), ?i), unlink_head ?s ?i (pq_q (pq ?s) ! ?i) (hd (qs ! ?i)))"
    using h(1) pktq_rel_empty [OF rel] ne pktq_rel_valid(2) [OF h(2) i] pktq_rel_head [OF h(2) i] top
    by (simp add: pktq_deq_def top_prec_def) (simp add: set_hi_prec_def Let_def)
  then show ?thesis using top unlink_head_refines [OF h(2) i xs] by blast
qed


lemma find_pred_hit:
  "linked link p (xs @ a # b # ys) None \<Longrightarrow> distinct (xs @ a # b # ys) \<Longrightarrow> find_pred link p b = Some (Some a)"
proof (induction xs arbitrary: p)
  case Nil
  then show ?case by (subst find_pred.simps) auto
next
  case (Cons x xs)
  then have "link x \<noteq> Some b" by (cases xs) auto
  with Cons show ?case by (subst find_pred.simps) auto
qed

lemma find_pred_miss:
  "linked link p xs None \<Longrightarrow> b \<notin> set (tl xs) \<Longrightarrow> find_pred link p b = Some None"
proof (induction xs arbitrary: p)
  case Nil
  then show ?case by (subst find_pred.simps) auto
next
  case (Cons x xs)
  then have "link x \<noteq> Some b" "find_pred link (link x) b = Some None"
    by (cases xs; auto)+
  with Cons.prems show ?case by (subst find_pred.simps) auto
qed

lemma linked_remove:
  "linked link p (xs @ a # b # ys) None \<Longrightarrow> distinct (xs @ a # b # ys) \<Longrightarrow>
   linked (link(a := link b, b := None)) p (xs @ a # ys) None"
  by auto


text \<open>C35: deleting a packet from a precedence reports whether it was there, removes exactly it,
  keeps the order of the rest and clears its link; a packet that is not there leaves the queue alone.\<close>

theorem pktq_pdel_refines:
  assumes rel: "pktq_rel s qs" and i: "i < length qs"
  shows "\<exists>s'. pktq_pdel s (Some b) (int i) = Some (b \<in> set (qs ! i), s')
    \<and> pktq_rel s' (qs[i := remove1 b (qs ! i)]) \<and> (b \<in> set (qs ! i) \<longrightarrow> pktlink s' b = None)"
proof -
  let ?e = "pq_q (pq s) ! i"
  note ri = pktq_relD(7) [OF rel i, unfolded prec_rel_def]
  note at = pktq_rel_valid [OF rel i]
  have dist: "distinct (qs ! i)" using rel i by (rule pktq_rel_distinct_nth)
  consider (hd) xs where "qs ! i = b # xs"
    | (mid) xs a ys where "qs ! i = xs @ a # b # ys"
    | (no) "b \<notin> set (qs ! i)"
    by (metis append_butlast_last_id append.assoc append_Cons append_Nil split_list)
  then show ?thesis
  proof cases
    case hd
    have "pktq_pdel s (Some b) (int i) = Some (True, unlink_head s i ?e b)"
      using at ri hd by (simp add: pktq_pdel_def ASSERT_def unlink_head_def Let_def)
    moreover have "pktlink (unlink_head s i ?e b) b = None"
      by (simp add: unlink_head_def setlink_def Let_def)
    ultimately show ?thesis using unlink_head_refines [OF rel i hd] hd by simp
  next
    case no
    then have "find_pred (pktlink s) (q_head ?e) b = Some None"
      using ri find_pred_miss [of "pktlink s" "q_head ?e" "qs ! i" b] by (cases "qs ! i") auto
    moreover have "q_head ?e \<noteq> Some b"
      using pktq_rel_head [OF rel i] no hd_in_set [of "qs ! i"] by auto
    ultimately have "pktq_pdel s (Some b) (int i) = Some (False, s)"
      using at by (simp add: pktq_pdel_def ASSERT_def)
    moreover have "qs[i := remove1 b (qs ! i)] = qs" using no by (simp add: remove1_idem)
    ultimately show ?thesis using rel no by auto
  next
    case mid
    define e1 where "e1 = (if q_tail ?e = Some b then ?e\<lparr>q_tail := Some a\<rparr> else ?e)\<lparr>q_len := q_len ?e - 1\<rparr>"
    define s2 where "s2 = setlink (set_pq_len (q_set (setlink s a (pktlink s b)) i e1) (pq_len (pq s) - 1)) b None"
    have "q_head ?e \<noteq> Some b" using pktq_rel_head [OF rel i] mid dist by (cases xs) auto
    moreover have "find_pred (pktlink s) (q_head ?e) b = Some (Some a)"
      using ri dist unfolding mid by (blast intro: find_pred_hit)
    ultimately have eq: "pktq_pdel s (Some b) (int i) = Some (True, s2)"
      using at by (simp add: pktq_pdel_def ASSERT_def s2_def e1_def Let_def q_set_def setlink_def set_pq_len_def)
    have fields: "pktlink s2 = (pktlink s)(a := pktlink s b, b := None)" "pq_q (pq s2) = (pq_q (pq s))[i := e1]"
      "pq_len (pq s2) = pq_len (pq s) - 1" "hi_prec (pq s2) = hi_prec (pq s)" "num_prec (pq s2) = num_prec (pq s)"
      by (simp_all add: s2_def q_set_def setlink_def set_pq_len_def)
    have tail: "last (xs @ a # ys) = (if q_tail ?e = Some b then a else last (qs ! i))"
      using ri dist mid last_in_set [of ys] by (cases "ys = []") auto
    have "0 < unat (q_len ?e)" using ri mid by simp
    then have "prec_rel (pktlink s2) e1 (xs @ a # ys)"
      using ri mid dist tail linked_remove [of "pktlink s" "q_head ?e" xs a b ys]
      unfolding prec_rel_def fields by (auto simp: e1_def unat_dec simp del: linked_append)
    moreover have "unat (pq_len (pq s2)) + length (qs ! i) = length (concat qs) + length (xs @ a # ys)"
      using pq_len_dec [OF rel i] by (simp add: fields mid)
    ultimately have "pktq_rel s2 (qs[i := xs @ a # ys])"
      using pktq_relD(6,8) [OF rel] i dist mid pktq_rel_other [OF rel i]
      by (intro pktq_rel_update [OF rel i, where e = e1]) (auto simp: fields nth_list_update)
    moreover have "remove1 b (qs ! i) = xs @ a # ys" using dist mid by (simp add: remove1_append)
    ultimately show ?thesis using eq mid by (auto simp: fields)
  qed
qed

theorem pktq_pdel_refines_witness:
  "\<exists>s'. pktq_pdel pktq_example (Some 3) 1 = Some (True, s') \<and> pktq_rel s' [[1], [2]]"
  using pktq_pdel_refines [OF pktq_example_rel, of 1 3] by auto

lemma pflush_loop_correct:
  "i < length (pq_q (pq s)) \<Longrightarrow> linked (pktlink s) (q_head (pq_q (pq s) ! i)) xs None \<Longrightarrow> distinct xs \<Longrightarrow>
   \<exists>s'. pflush_loop s i = Some s' \<and> num_prec (pq s') = num_prec (pq s) \<and> hi_prec (pq s') = hi_prec (pq s)
     \<and> pq_q (pq s') = (pq_q (pq s))[i := (pq_q (pq s) ! i)\<lparr>q_head := None,
           q_len := q_len (pq_q (pq s) ! i) - of_nat (length xs)\<rparr>]
     \<and> pq_len (pq s') = pq_len (pq s) - of_nat (length xs) \<and> pktfreed s' = pktfreed s @ xs
     \<and> pktlink s' = (\<lambda>a. if a \<in> set xs then None else pktlink s a)"
proof (induction xs arbitrary: s)
  case Nil
  then have "(pq_q (pq s) ! i)\<lparr>q_head := None\<rparr> = pq_q (pq s) ! i" by simp
  then have "(pq_q (pq s))[i := (pq_q (pq s) ! i)\<lparr>q_head := None\<rparr>] = pq_q (pq s)" by (metis list_update_id)
  then show ?case using Nil by (subst pflush_loop.simps) (simp add: q_at_def)
next
  case (Cons p xs)
  let ?e = "pq_q (pq s) ! i"
  define s1 where "s1 = set_pq_len ((setlink (q_set s i (?e\<lparr>q_head := pktlink s p, q_len := q_len ?e - 1\<rparr>)) p None)
      \<lparr>pktfreed := pktfreed s @ [p]\<rparr>) (pq_len (pq s) - 1)"
  have fields: "pktlink s1 = (pktlink s)(p := None)"
      "pq_q (pq s1) = (pq_q (pq s))[i := ?e\<lparr>q_head := pktlink s p, q_len := q_len ?e - 1\<rparr>]"
      "pq_len (pq s1) = pq_len (pq s) - 1" "hi_prec (pq s1) = hi_prec (pq s)" "num_prec (pq s1) = num_prec (pq s)"
      "pktfreed s1 = pktfreed s @ [p]"
    by (simp_all add: s1_def q_set_def setlink_def set_pq_len_def)
  have "pflush_loop s i = pflush_loop s1 i"
    using Cons.prems
    by (subst pflush_loop.simps) (simp add: q_at_def s1_def Let_def q_set_def setlink_def set_pq_len_def)
  moreover have pre: "i < length (pq_q (pq s1))" "linked (pktlink s1) (q_head (pq_q (pq s1) ! i)) xs None" "distinct xs"
    using Cons.prems by (auto simp: fields)
  moreover have "(\<lambda>a. if a \<in> set xs then None else pktlink s1 a) = (\<lambda>a. if a \<in> set (p # xs) then None else pktlink s a)"
    by (auto simp: fields)
  ultimately show ?case
    using Cons.IH [OF pre] Cons.prems(1) unfolding fields by (simp add: algebra_simps)
qed

lemma pktq_pflush_refines:
  assumes rel: "pktq_rel s qs" and i: "i < length qs"
  shows "\<exists>s'. pktq_pflush s (int i) = Some s' \<and> pktq_rel s' (qs[i := []])
    \<and> pktfreed s' = pktfreed s @ qs ! i"
proof -
  let ?e = "pq_q (pq s) ! i" and ?xs = "qs ! i"
  note ri = pktq_relD(7) [OF rel i, unfolded prec_rel_def]
  have i': "i < length (pq_q (pq s))" using i pktq_relD(1,2) [OF rel] by simp
  obtain s1 where s1: "pflush_loop s i = Some s1" "num_prec (pq s1) = num_prec (pq s)" "hi_prec (pq s1) = hi_prec (pq s)"
     "pq_q (pq s1) = (pq_q (pq s))[i := ?e\<lparr>q_head := None, q_len := q_len ?e - of_nat (length ?xs)\<rparr>]"
     "pq_len (pq s1) = pq_len (pq s) - of_nat (length ?xs)" "pktfreed s1 = pktfreed s @ ?xs"
     "pktlink s1 = (\<lambda>a. if a \<in> set ?xs then None else pktlink s a)"
    using pflush_loop_correct [OF i'] ri pktq_rel_distinct_nth [OF rel i] by blast
  have zero: "q_len ?e - of_nat (length ?xs) = 0" using ri by (metis diff_self of_nat_unat ucast_id)
  define e1 where "e1 = ?e\<lparr>q_head := None, q_len := 0, q_tail := None\<rparr>"
  define s2 where "s2 = q_set s1 i e1"
  have eq: "pktq_pflush s (int i) = Some s2"
    using s1 i' zero by (simp add: pktq_pflush_def ASSERT_def q_at_def s2_def q_set_def e1_def)
  have fields: "num_prec (pq s2) = num_prec (pq s)" "hi_prec (pq s2) = hi_prec (pq s)"
     "pq_q (pq s2) = (pq_q (pq s))[i := e1]" "pq_len (pq s2) = pq_len (pq s) - of_nat (length ?xs)"
     "pktfreed s2 = pktfreed s @ ?xs" "pktlink s2 = (\<lambda>a. if a \<in> set ?xs then None else pktlink s a)"
    by (simp_all add: s2_def q_set_def s1)
  have "length ?xs \<le> unat (pq_len (pq s))" using concat_nth_length [OF i] pktq_relD(5) [OF rel] by simp
  then have "unat (pq_len (pq s) - of_nat (length ?xs)) + length ?xs = length (concat qs)"
    using pktq_relD(5) [OF rel] by (metis le_add_diff_inverse2 unat_minus_of_nat)
  then have "pktq_rel s2 (qs[i := []])"
    using pktq_relD(6,8) [OF rel] i pktq_rel_other [OF rel i]
    by (intro pktq_rel_update [OF rel i, where e = e1])
       (auto simp: fields nth_list_update e1_def prec_rel_def)
  then show ?thesis using eq fields by simp
qed


definition bottom_prec :: "'p list list \<Rightarrow> nat \<Rightarrow> bool" where
  "bottom_prec qs i \<longleftrightarrow> i < length qs \<and> qs ! i \<noteq> [] \<and> (\<forall>j<i. qs ! j = [])"

lemma first_nonempty_correct:
  assumes rel: "pktq_rel s qs" and ne: "concat qs \<noteq> []"
  shows "prec \<le> unat (hi_prec (pq s)) \<Longrightarrow> (\<And>j. j < prec \<Longrightarrow> qs ! j = []) \<Longrightarrow>
    \<exists>i. first_nonempty s prec = Some i \<and> bottom_prec qs i"
proof (induction "unat (hi_prec (pq s)) - prec" arbitrary: prec)
  case 0
  then have prec: "prec = unat (hi_prec (pq s))" by simp
  obtain k where k: "k < length qs" "qs ! k \<noteq> []"
    using ne by (auto simp: in_set_conv_nth)
  then have "k = prec" using pktq_relD(8) [OF rel k(1)] 0(3) [of k] prec by (meson linorder_neqE_nat)
  with prec 0 k show ?case by (subst first_nonempty.simps) (auto simp: bottom_prec_def)
next
  case (Suc n)
  then have lt: "prec < unat (hi_prec (pq s))" by simp
  then have "prec < length qs" using pktq_relD(6) [OF rel] by simp
  note at = pktq_rel_valid(2) [OF rel this] pktq_rel_head [OF rel this]
  show ?case
  proof (cases "qs ! prec = []")
    case True
    then have "\<exists>i. first_nonempty s (Suc prec) = Some i \<and> bottom_prec qs i"
      using Suc lt by (intro Suc.hyps) (auto simp: less_Suc_eq)
    then show ?thesis using True lt at by (subst first_nonempty.simps) simp
  next
    case False
    then show ?thesis
      using lt at Suc.prems \<open>prec < length qs\<close> by (subst first_nonempty.simps) (simp add: bottom_prec_def)
  qed
qed

lemma pktq_rel_setlink_free:
  assumes "pktq_rel s qs" "a \<notin> set (concat qs)"
  shows "pktq_rel (setlink s a r) qs"
  using assms by (auto simp: pktq_rel_def prec_rel_def setlink_def)

text \<open>On a queue that is not empty, pktq_deq_tail takes the last packet of the lowest
  non-empty precedence.\<close>

theorem pktq_deq_tail_refines:
  assumes rel: "pktq_rel s qs" and ne: "concat qs \<noteq> []"
  shows "\<exists>i s'. bottom_prec qs i \<and> pktq_deq_tail s = Some (Some (last (qs ! i), i), s')
     \<and> pktq_rel s' (qs[i := butlast (qs ! i)])"
proof -
  obtain i where i: "first_nonempty s 0 = Some i" "bottom_prec qs i"
    using first_nonempty_correct [OF rel ne, of 0] by auto
  then have il: "i < length qs" "qs ! i \<noteq> []" by (auto simp: bottom_prec_def)
  obtain s1 where s1: "unlink_tail s i (pq_q (pq s) ! i) = Some (Some (last (qs ! i)), s1)"
      "pktq_rel s1 (qs[i := butlast (qs ! i)])" "pktlink s1 (last (qs ! i)) = None"
    using unlink_tail_refines [OF rel il] by blast
  have "setlink s1 (last (qs ! i)) None = s1"
    using s1(3) by (simp add: setlink_def fun_upd_idem)
  then have "pktq_deq_tail s = Some (Some (last (qs ! i), i), s1)"
    using i s1 ne pktq_rel_empty [OF rel] pktq_rel_valid(2) [OF rel il(1)] by (simp add: pktq_deq_tail_def)
  then show ?thesis using s1 i by blast
qed

theorem pktq_deq_tail_refines_witness:
  "\<exists>s'. pktq_deq_tail pktq_example = Some (Some (1, 0), s') \<and> pktq_rel s' [[], [2, 3]]"
  using pktq_deq_tail_refines [OF pktq_example_rel] by (auto simp: bottom_prec_def less_Suc_eq)

lemma select_prec_correct:
  assumes rel: "pktq_rel s qs"
  shows "prec < length qs \<Longrightarrow> \<exists>r. select_prec s bmp prec = Some r \<and>
    (case r of None \<Rightarrow> \<forall>j\<le>prec. bit bmp j \<longrightarrow> qs ! j = []
     | Some i \<Rightarrow> i \<le> prec \<and> bit bmp i \<and> qs ! i \<noteq> [] \<and> (\<forall>j\<le>prec. i < j \<longrightarrow> bit bmp j \<longrightarrow> qs ! j = []))"
proof (induction prec)
  case 0
  then show ?case
    using pktq_rel_valid(2) [OF rel 0] pktq_rel_head [OF rel 0] by (subst select_prec.simps) auto
next
  case (Suc k)
  note at = pktq_rel_valid(2) [OF rel Suc.prems] pktq_rel_head [OF rel Suc.prems]
  show ?case
  proof (cases "\<not> bit bmp (Suc k) \<or> qs ! Suc k = []")
    case True
    then have "select_prec s bmp (Suc k) = select_prec s bmp k"
      using at by (subst select_prec.simps) auto
    with Suc.IH Suc.prems True show ?thesis
      by (auto simp: le_Suc_eq split: option.splits)
  next
    case False
    then show ?thesis using at by (subst select_prec.simps) auto
  qed
qed

text \<open>Pktq_mdeq takes the first packet of the highest precedence that is non-empty and selected by
  the bitmap, and returns NULL, with every list unchanged, only when all selected lists are empty.\<close>

theorem pktq_mdeq_refines:
  assumes rel: "pktq_rel s qs"
  shows "\<exists>r s'. pktq_mdeq s bmp = Some (r, s') \<and>
    (case r of
       None \<Rightarrow> pktq_rel s' qs \<and> (\<forall>j<length qs. bit bmp j \<longrightarrow> qs ! j = [])
     | Some (p, i) \<Rightarrow> i < length qs \<and> bit bmp i \<and> qs ! i = p # tl (qs ! i)
         \<and> (\<forall>j<length qs. i < j \<longrightarrow> bit bmp j \<longrightarrow> qs ! j = [])
         \<and> pktq_rel s' (qs[i := tl (qs ! i)]))"
proof (cases "concat qs = []")
  case True
  then have "pktq_mdeq s bmp = Some (None, s)" using pktq_rel_empty [OF rel] by (simp add: pktq_mdeq_def)
  with True rel show ?thesis by simp
next
  case False
  obtain h where h: "lower_hi_prec s = Some (set_hi_prec s h)" "pktq_rel (set_hi_prec s h) qs"
    using lower_hi_prec_correct [OF rel] by blast
  let ?s = "set_hi_prec s h"
  have hi: "unat h < length qs" "\<And>j. j < length qs \<Longrightarrow> unat h < j \<Longrightarrow> qs ! j = []"
    using pktq_relD(6,8) [OF h(2)] by (simp_all add: set_hi_prec_def)
  obtain r where r: "select_prec ?s bmp (unat h) = Some r"
      "case r of None \<Rightarrow> \<forall>j\<le>unat h. bit bmp j \<longrightarrow> qs ! j = []
       | Some i \<Rightarrow> i \<le> unat h \<and> bit bmp i \<and> qs ! i \<noteq> [] \<and> (\<forall>j\<le>unat h. i < j \<longrightarrow> bit bmp j \<longrightarrow> qs ! j = [])"
    using select_prec_correct [OF h(2) hi(1)] by blast
  have hh: "hi_prec (pq ?s) = h" by (simp add: set_hi_prec_def)
  have nz: "pq_len (pq s) \<noteq> 0" using False pktq_rel_empty [OF rel] by simp
  show ?thesis
  proof (cases r)
    case None
    then have "pktq_mdeq s bmp = Some (None, ?s)" using h r nz by (simp add: pktq_mdeq_def hh)
    with None r(2) h(2) hi(2) show ?thesis by (auto simp: not_le [symmetric])
  next
    case (Some i)
    with r(2) have i: "i \<le> unat h" "bit bmp i" "qs ! i \<noteq> []" "\<forall>j\<le>unat h. i < j \<longrightarrow> bit bmp j \<longrightarrow> qs ! j = []"
      by auto
    then have il: "i < length qs" using hi(1) by simp
    have xs: "qs ! i = hd (qs ! i) # tl (qs ! i)" using i(3) by simp
    have "pktq_mdeq s bmp = Some (Some (hd (qs ! i), i), unlink_head ?s i (pq_q (pq ?s) ! i) (hd (qs ! i)))"
      using h r Some nz pktq_rel_valid(2) [OF h(2) il] pktq_rel_head [OF h(2) il] i(3)
      by (simp add: pktq_mdeq_def hh)
    moreover have "\<forall>j<length qs. i < j \<longrightarrow> bit bmp j \<longrightarrow> qs ! j = []" using i(4) hi(2) by (meson not_le)
    ultimately show ?thesis using unlink_head_refines [OF h(2) il xs] xs i il by auto
  qed
qed

theorem pktq_mdeq_refines_witness:
  "\<exists>s'. pktq_mdeq pktq_example 1 = Some (Some (1, 0), s') \<and> pktq_rel s' [[], [2, 3]]"
  using pktq_mdeq_refines [OF pktq_example_rel, of 1]
  by (auto simp: bit_1_iff less_Suc_eq split: option.splits)

lemma flush_precs_refines:
  "pktq_rel s qs \<Longrightarrow> k \<le> length qs \<Longrightarrow>
   \<exists>s'. flush_precs [k..<length qs] s = Some s' \<and> pktq_rel s' (take k qs @ replicate (length qs - k) [])
     \<and> pktfreed s' = pktfreed s @ concat (drop k qs)"
proof (induction "length qs - k" arbitrary: s qs k)
  case 0
  then show ?case by simp
next
  case (Suc n)
  then have k: "k < length qs" by simp
  obtain s1 where s1: "pktq_pflush s (int k) = Some s1" "pktq_rel s1 (qs[k := []])" "pktfreed s1 = pktfreed s @ qs ! k"
    using pktq_pflush_refines [OF Suc.prems(1) k] by blast
  have "\<exists>s'. flush_precs [Suc k..<length (qs[k := []])] s1 = Some s'
      \<and> pktq_rel s' (take (Suc k) (qs[k := []]) @ replicate (length (qs[k := []]) - Suc k) [])
      \<and> pktfreed s' = pktfreed s1 @ concat (drop (Suc k) (qs[k := []]))"
    using Suc k s1 by (intro Suc.hyps) auto
  moreover have "take (Suc k) (qs[k := []]) @ replicate (length qs - Suc k) [] = take k qs @ replicate (length qs - k) []"
    using k by (simp add: take_Suc_conv_app_nth replicate_Suc [symmetric] Suc_diff_Suc del: replicate_Suc)
  moreover have "concat (drop k qs) = qs ! k @ concat (drop (Suc k) qs)"
    using k by (simp add: Cons_nth_drop_Suc [symmetric])
  ultimately show ?case using k s1 by (simp add: upt_rec [of k])
qed

text \<open>Pktq_flush empties every precedence and hands every queued packet to PKTFREE exactly once,
  in queue order.\<close>

theorem pktq_flush_refines:
  assumes rel: "pktq_rel s qs"
  shows "\<exists>s'. pktq_flush s = Some s' \<and> pktq_rel s' (replicate (length qs) [])
    \<and> pktfreed s' = pktfreed s @ concat qs"
proof -
  obtain s1 where s1: "flush_precs [0..<length qs] s = Some s1" "pktq_rel s1 (replicate (length qs) [])"
      "pktfreed s1 = pktfreed s @ concat qs"
    using flush_precs_refines [OF rel, of 0] by auto
  have "pq_len (pq s1) = 0" using pktq_rel_empty [OF s1(2)] by simp
  then show ?thesis using s1 pktq_relD(3) [OF rel] by (simp add: pktq_flush_def ASSERT_def)
qed

theorem pktq_flush_refines_witness:
  "\<exists>s'. pktq_flush pktq_example = Some s' \<and> pktq_rel s' [[], []] \<and> pktfreed s' = [1, 2, 3]"
  using pktq_flush_refines [OF pktq_example_rel] by (simp add: pktq_example_def numeral_2_eq_2)

lemma mlen_precs_correct:
  assumes rel: "pktq_rel s qs"
  shows "set precs \<subseteq> {..<length qs} \<Longrightarrow>
    mlen_precs s bmp precs n = Some (n + (\<Sum>i\<leftarrow>precs. if bit bmp i then length (qs ! i) else 0))"
proof (induction precs arbitrary: n)
  case (Cons i precs)
  then have i: "i < length qs" by simp
  show ?case using Cons pktq_rel_valid(2) [OF rel i] pktq_relD(7) [OF rel i] by (auto simp: prec_rel_def)
qed simp

lemma pktq_mlen_refines:
  assumes rel: "pktq_rel s qs"
  shows "pktq_mlen s bmp = Some (\<Sum>i\<leftarrow>[0..<length qs]. if bit bmp i then length (qs ! i) else 0)"
proof -
  let ?f = "\<lambda>i. if bit bmp i then length (qs ! i) else 0" and ?h = "Suc (unat (hi_prec (pq s)))"
  have h: "?h \<le> length qs" using pktq_relD(6) [OF rel] by simp
  have "sum_list (map ?f [?h..<length qs]) = 0"
    using pktq_relD(8) [OF rel] by (auto simp: sum_list_eq_0_iff)
  moreover have "[0..<length qs] = [0..<?h] @ [?h..<length qs]" by (metis h le0 le_add_diff_inverse upt_add_eq_append)
  moreover have "set [0..<?h] \<subseteq> {..<length qs}" using h by auto
  ultimately show ?thesis
    unfolding pktq_mlen_def using mlen_precs_correct [OF rel, of "[0..<?h]" bmp 0] by simp
qed

lemma pktq_init_refines:
  assumes "0 < n" "n \<le> PKTQ_MAX_PREC" "length (pq_q (pq s)) = PKTQ_MAX_PREC"
  shows "\<exists>s'. pktq_init s (int n) m = Some s' \<and> pktq_rel s' (replicate n [])
    \<and> pq_max (pq s') = of_int m \<and> (\<forall>i<n. q_max (pq_q (pq s') ! i) = of_int m)"
proof -
  have "unat (word_of_nat n :: u16) = n"
    using assms by (simp add: unsigned_of_nat take_bit_nat_eq_self PKTQ_MAX_PREC_def)
  then show ?thesis
    using assms by (auto simp: pktq_init_def ASSERT_def pktq_rel_def prec_rel_def nth_append)
qed

lemma pktq_setmax_refines:
  assumes "pktq_rel s qs"
  shows "pktq_rel (snd (pktq_setmax s m)) qs"
  using assms by (auto simp: pktq_setmax_def Let_def pktq_rel_def prec_rel_def nth_append)


section \<open>The contract a transmit scheduler relies on\<close>

text \<open>
  A client of the queue sees one list per precedence.  The first contract is what draining relies
  on: a dequeue serves the highest non-empty precedence from its front.  The second adds the
  enqueue.  The client lemmas say what a client gets from emptying the queue.
\<close>

fun drain :: "('s \<Rightarrow> (('p \<times> nat) option \<times> 's) option) \<Rightarrow> nat \<Rightarrow> 's \<Rightarrow> (('p \<times> nat) list \<times> 's) option" where
  "drain deq 0 s = Some ([], s)"
| "drain deq (Suc n) s = do {
     (r, s) \<leftarrow> deq s;
     case r of None \<Rightarrow> Some ([], s)
     | Some x \<Rightarrow> do { (xs, s) \<leftarrow> drain deq n s; Some (x # xs, s) }
   }"

fun prio_from :: "nat \<Rightarrow> 'p list list \<Rightarrow> ('p \<times> nat) list" where
  "prio_from k [] = []"
| "prio_from k (q # qs) = prio_from (Suc k) qs @ map (\<lambda>p. (p, k)) q"

definition prio_order :: "'p list list \<Rightarrow> ('p \<times> nat) list" where
  "prio_order qs = prio_from 0 qs"

lemma prio_from_append: "prio_from k (as @ bs) = prio_from (k + length as) bs @ prio_from k as"
  by (induction as arbitrary: k) auto

lemma prio_from_empty: "concat qs = [] \<Longrightarrow> prio_from k qs = []"
  by (induction qs arbitrary: k) auto

lemma prio_order_top:
  assumes "top_prec qs i"
  shows "prio_order qs = (hd (qs ! i), i) # prio_order (qs[i := tl (qs ! i)])"
proof -
  from assms have i: "i < length qs" and ne: "qs ! i \<noteq> []" and above: "\<And>j. j < length qs \<Longrightarrow> i < j \<Longrightarrow> qs ! j = []"
    by (auto simp: top_prec_def)
  define as cs p xs where "as = take i qs" and "cs = drop (Suc i) qs" and "p = hd (qs ! i)" and "xs = tl (qs ! i)"
  have qs: "qs = as @ (p # xs) # cs"
    using id_take_nth_drop [OF i] ne by (simp add: as_def cs_def p_def xs_def)
  have upd: "qs[i := xs] = as @ xs # cs"
    using i by (simp add: as_def cs_def upd_conv_take_nth_drop)
  have "concat cs = []" using above by (auto simp: cs_def in_set_conv_nth)
  moreover have "length as = i" using i by (simp add: as_def)
  ultimately show ?thesis
    unfolding prio_order_def p_def [symmetric] xs_def [symmetric] upd unfolding qs
    by (simp add: prio_from_append prio_from_empty)
qed

locale priority_service =
  fixes rel :: "'s \<Rightarrow> 'p list list \<Rightarrow> bool"
    and deq :: "'s \<Rightarrow> (('p \<times> nat) option \<times> 's) option"
  assumes deq_none: "rel s qs \<Longrightarrow> concat qs = [] \<Longrightarrow> deq s = Some (None, s)"
    and deq_some: "rel s qs \<Longrightarrow> concat qs \<noteq> [] \<Longrightarrow>
      \<exists>i s'. top_prec qs i \<and> deq s = Some (Some (hd (qs ! i), i), s') \<and> rel s' (qs[i := tl (qs ! i)])"
begin

lemma drain_all:
  "rel s qs \<Longrightarrow> n \<ge> length (concat qs) \<Longrightarrow>
   \<exists>s'. drain deq n s = Some (prio_order qs, s') \<and> rel s' (replicate (length qs) [])"
proof (induction n arbitrary: s qs)
  case (0 s qs)
  then have "qs = replicate (length qs) []" by (intro replicate_eqI) auto
  moreover have "prio_order qs = []" using 0 by (simp add: prio_order_def prio_from_empty)
  ultimately show ?case using 0 by auto
next
  case (Suc n s qs)
  show ?case
  proof (cases "concat qs = []")
    case True
    then have "qs = replicate (length qs) []" by (intro replicate_eqI) auto
    moreover have "prio_order qs = []" using True by (simp add: prio_order_def prio_from_empty)
    ultimately show ?thesis using Suc.prems deq_none [OF Suc.prems(1) True] by auto
  next
    case False
    obtain i s1 where i: "top_prec qs i" "deq s = Some (Some (hd (qs ! i), i), s1)" "rel s1 (qs[i := tl (qs ! i)])"
      using deq_some [OF Suc.prems(1) False] by blast
    have "i < length qs" "qs ! i \<noteq> []" using i(1) by (auto simp: top_prec_def)
    then have "length (concat (qs[i := tl (qs ! i)])) < length (concat qs)"
      using concat_nth_split [of i qs] by (simp add: concat_update_split)
    then have "length (concat (qs[i := tl (qs ! i)])) \<le> n" using Suc.prems by linarith
    then show ?thesis using Suc.IH [OF i(3)] i prio_order_top [OF i(1)] by auto
  qed
qed

end

interpretation pktq_service: priority_service pktq_rel pktq_deq
  by unfold_locales (rule pktq_deq_empty, assumption+, rule pktq_deq_refines)


text \<open>C4: dequeueing until the queue is empty yields every packet exactly once, all packets of a higher
  precedence before any of a lower one and in arrival order within a precedence, each with its
  precedence, and leaves every precedence empty.\<close>

theorem pktq_drain_priority:
  assumes "pktq_rel s qs" and "n \<ge> length (concat qs)"
  shows "\<exists>s'. drain pktq_deq n s = Some (prio_order qs, s') \<and> pktq_rel s' (replicate (length qs) [])"
  using assms by (rule pktq_service.drain_all)

theorem pktq_drain_priority_witness:
  "\<exists>s'. drain pktq_deq 3 pktq_example = Some ([(2, 1), (3, 1), (1, 0)], s') \<and> pktq_rel s' [[], []]"
  using pktq_drain_priority [OF pktq_example_rel, of 3] by (simp add: prio_order_def numeral_2_eq_2)

end
