(* ===== verification/Cstring.thy ===== *)
theory Cstring
  imports Prelude "HOL-Library.Monad_Syntax" "HOL-Library.Sublist"
begin

text \<open>
  C strings and the parts of the C library the sources call on them.  A string is the list of its
  characters up to, and without, the terminating NUL; a pointer into a string is the suffix it points
  to, so reading at the end of the list reads the NUL.  \<open>dec\<close>, \<open>hex2\<close> and \<open>HEX2\<close> are the conversions
  %d (or %u), %02x and %02X of sprintf on the values the sources print.
\<close>

abbreviation NUL :: char where "NUL \<equiv> CHR 0x00"

text \<open>\<open>*p\<close> and \<open>p[i]\<close> for a pointer into a string.\<close>

fun deref :: "string \<Rightarrow> char" where
  "deref [] = NUL"
| "deref (c # s) = c"

definition char_at :: "string \<Rightarrow> nat \<Rightarrow> char" where
  "char_at s i = (if i < length s then s ! i else NUL)"

lemma char_at_0: "char_at s 0 = deref s"
  by (cases s) (auto simp: char_at_def)

lemma deref_append: "deref (xs @ ys) = (if xs = [] then deref ys else hd xs)"
  by (cases xs) auto

definition strchr :: "string \<Rightarrow> char \<Rightarrow> string option" where
  "strchr s c = (case dropWhile (\<lambda>x. x \<noteq> c) s of [] \<Rightarrow> None | t \<Rightarrow> Some t)"

lemma strchr_append: "c \<notin> set xs \<Longrightarrow> strchr (xs @ c # ys) c = Some (c # ys)"
proof -
  assume "c \<notin> set xs"
  then have "dropWhile (\<lambda>x. x \<noteq> c) (xs @ c # ys) = c # ys"
    by (subst dropWhile_append2) auto
  then show ?thesis by (simp add: strchr_def)
qed

lemma strchr_None: "c \<notin> set xs \<Longrightarrow> strchr xs c = None"
  by (simp add: strchr_def) (metis (mono_tags, lifting) dropWhile_eq_Nil_conv list.simps(4))

lemma strchr_SomeD: "strchr s c = Some t \<Longrightarrow> \<exists>xs ys. s = xs @ c # ys \<and> t = c # ys \<and> c \<notin> set xs"
proof (induction s)
  case (Cons x s)
  show ?case
  proof (cases "x = c")
    case True
    then show ?thesis using Cons.prems by (auto simp: strchr_def)
  next
    case False
    then have "strchr s c = Some t" using Cons.prems by (simp add: strchr_def)
    then obtain xs ys where "s = xs @ c # ys" "t = c # ys" "c \<notin> set xs" using Cons.IH by blast
    then have "x # s = (x # xs) @ c # ys \<and> t = c # ys \<and> c \<notin> set (x # xs)" using False by simp
    then show ?thesis by blast
  qed
qed (simp add: strchr_def)

definition strncmp_eq :: "string \<Rightarrow> string \<Rightarrow> nat \<Rightarrow> bool" where
  "strncmp_eq s t n = (take n s = take n t)"

section \<open>First index that satisfies a predicate\<close>

lemma find_upt:
  "find P [k..<m] = (if \<exists>i. k \<le> i \<and> i < m \<and> P i then Some (LEAST i. k \<le> i \<and> i < m \<and> P i) else None)"
proof (induction "m - k" arbitrary: k)
  case 0
  then show ?case by auto
next
  case (Suc d)
  then have k: "[k..<m] = k # [Suc k..<m]" "d = m - Suc k" "k < m" by (simp_all add: upt_conv_Cons)
  show ?case
  proof (cases "P k")
    case True
    moreover have "(LEAST i. k \<le> i \<and> i < m \<and> P i) = k" using True k(3) by (intro Least_equality) auto
    ultimately show ?thesis using k by auto
  next
    case False
    then have eq: "(k \<le> i \<and> i < m \<and> P i) = (Suc k \<le> i \<and> i < m \<and> P i)" for i
      by (metis Suc_leD Suc_leI le_neq_implies_less)
    show ?thesis unfolding eq using False Suc.hyps(1) [OF k(2)] k(1) by simp
  qed
qed

section \<open>Printing numbers\<close>

definition digit :: "nat \<Rightarrow> char" where
  "digit d = char_of (48 + d)"

fun dec :: "nat \<Rightarrow> string" where
  "dec n = (if n < 10 then [digit n] else dec (n div 10) @ [digit (n mod 10)])"

declare dec.simps [simp del]

definition hex_digit :: "nat \<Rightarrow> char" where
  "hex_digit d = (if d < 10 then char_of (48 + d) else char_of (87 + d))"

definition hex2 :: "nat \<Rightarrow> string" where
  "hex2 n = [hex_digit (n div 16 mod 16), hex_digit (n mod 16)]"

definition HEX_digit :: "nat \<Rightarrow> char" where
  "HEX_digit d = (if d < 10 then char_of (48 + d) else char_of (55 + d))"

definition HEX2 :: "nat \<Rightarrow> string" where
  "HEX2 n = [HEX_digit (n div 16 mod 16), HEX_digit (n mod 16)]"

lemma of_char_digit: "d < 10 \<Longrightarrow> of_char (digit d) = 48 + d"
  by (simp add: digit_def)

lemma dec_nonempty [simp]: "dec n \<noteq> []"
  by (subst dec.simps) simp

lemma dec_digits: "c \<in> set (dec n) \<Longrightarrow> \<exists>d<10. c = digit d"
proof (induction n rule: dec.induct)
  case (1 n)
  show ?case
  proof (cases "n < 10")
    case True
    then show ?thesis using "1.prems" by (subst (asm) dec.simps) auto
  next
    case False
    then consider "c \<in> set (dec (n div 10))" | "c = digit (n mod 10)"
      using "1.prems" by (subst (asm) dec.simps) auto
    then show ?thesis
    proof cases
      case 1
      then show ?thesis using "1.IH" False by blast
    next
      case 2
      then show ?thesis by (intro exI [of _ "n mod 10"]) simp
    qed
  qed
qed

end
