(* ===== verification/Bcm_Str.thy ===== *)
theory Bcm_Str
  imports Cstring
begin

text \<open>
  String and number routines of src/broadcom/src/shared/bcmutils.c: the character classes, number
  parsing, MAC address parsing and printing, the lookup in a block of name=value strings and
  what is built on it.  The NVRAM behind \<open>getvar\<close> is a parameter.
\<close>

section \<open>Character classes\<close>

definition BCM_U :: u8 where "BCM_U = 0x01"
definition BCM_L :: u8 where "BCM_L = 0x02"
definition BCM_D :: u8 where "BCM_D = 0x04"
definition BCM_C :: u8 where "BCM_C = 0x08"
definition BCM_P :: u8 where "BCM_P = 0x10"
definition BCM_S :: u8 where "BCM_S = 0x20"
definition BCM_X :: u8 where "BCM_X = 0x40"
definition BCM_SP :: u8 where "BCM_SP = 0x80"

definition bcm_ctype :: "u8 list" where
  "bcm_ctype = [
     BCM_C, BCM_C, BCM_C, BCM_C, BCM_C, BCM_C, BCM_C, BCM_C,
     BCM_C, BCM_C OR BCM_S, BCM_C OR BCM_S, BCM_C OR BCM_S, BCM_C OR BCM_S, BCM_C OR BCM_S, BCM_C, BCM_C,
     BCM_C, BCM_C, BCM_C, BCM_C, BCM_C, BCM_C, BCM_C, BCM_C,
     BCM_C, BCM_C, BCM_C, BCM_C, BCM_C, BCM_C, BCM_C, BCM_C,
     BCM_S OR BCM_SP, BCM_P, BCM_P, BCM_P, BCM_P, BCM_P, BCM_P, BCM_P,
     BCM_P, BCM_P, BCM_P, BCM_P, BCM_P, BCM_P, BCM_P, BCM_P,
     BCM_D, BCM_D, BCM_D, BCM_D, BCM_D, BCM_D, BCM_D, BCM_D,
     BCM_D, BCM_D, BCM_P, BCM_P, BCM_P, BCM_P, BCM_P, BCM_P,
     BCM_P, BCM_U OR BCM_X, BCM_U OR BCM_X, BCM_U OR BCM_X, BCM_U OR BCM_X, BCM_U OR BCM_X, BCM_U OR BCM_X, BCM_U,
     BCM_U, BCM_U, BCM_U, BCM_U, BCM_U, BCM_U, BCM_U, BCM_U,
     BCM_U, BCM_U, BCM_U, BCM_U, BCM_U, BCM_U, BCM_U, BCM_U,
     BCM_U, BCM_U, BCM_U, BCM_P, BCM_P, BCM_P, BCM_P, BCM_P,
     BCM_P, BCM_L OR BCM_X, BCM_L OR BCM_X, BCM_L OR BCM_X, BCM_L OR BCM_X, BCM_L OR BCM_X, BCM_L OR BCM_X, BCM_L,
     BCM_L, BCM_L, BCM_L, BCM_L, BCM_L, BCM_L, BCM_L, BCM_L,
     BCM_L, BCM_L, BCM_L, BCM_L, BCM_L, BCM_L, BCM_L, BCM_L,
     BCM_L, BCM_L, BCM_L, BCM_P, BCM_P, BCM_P, BCM_P, BCM_C,
     0, 0, 0, 0, 0, 0, 0, 0,
     0, 0, 0, 0, 0, 0, 0, 0,
     0, 0, 0, 0, 0, 0, 0, 0,
     0, 0, 0, 0, 0, 0, 0, 0,
     BCM_S OR BCM_SP, BCM_P, BCM_P, BCM_P, BCM_P, BCM_P, BCM_P, BCM_P,
     BCM_P, BCM_P, BCM_P, BCM_P, BCM_P, BCM_P, BCM_P, BCM_P,
     BCM_P, BCM_P, BCM_P, BCM_P, BCM_P, BCM_P, BCM_P, BCM_P,
     BCM_P, BCM_P, BCM_P, BCM_P, BCM_P, BCM_P, BCM_P, BCM_P,
     BCM_U, BCM_U, BCM_U, BCM_U, BCM_U, BCM_U, BCM_U, BCM_U,
     BCM_U, BCM_U, BCM_U, BCM_U, BCM_U, BCM_U, BCM_U, BCM_U,
     BCM_U, BCM_U, BCM_U, BCM_U, BCM_U, BCM_U, BCM_U, BCM_P,
     BCM_U, BCM_U, BCM_U, BCM_U, BCM_U, BCM_U, BCM_U, BCM_L,
     BCM_L, BCM_L, BCM_L, BCM_L, BCM_L, BCM_L, BCM_L, BCM_L,
     BCM_L, BCM_L, BCM_L, BCM_L, BCM_L, BCM_L, BCM_L, BCM_L,
     BCM_L, BCM_L, BCM_L, BCM_L, BCM_L, BCM_L, BCM_L, BCM_P,
     BCM_L, BCM_L, BCM_L, BCM_L, BCM_L, BCM_L, BCM_L, BCM_L]"

definition bcm_ismask :: "char \<Rightarrow> u8" where
  "bcm_ismask c = bcm_ctype ! of_char c"

definition bcm_isdigit :: "char \<Rightarrow> bool" where "bcm_isdigit c = (bcm_ismask c AND BCM_D \<noteq> 0)"
definition bcm_islower :: "char \<Rightarrow> bool" where "bcm_islower c = (bcm_ismask c AND BCM_L \<noteq> 0)"
definition bcm_isspace :: "char \<Rightarrow> bool" where "bcm_isspace c = (bcm_ismask c AND BCM_S \<noteq> 0)"
definition bcm_isxdigit :: "char \<Rightarrow> bool" where "bcm_isxdigit c = (bcm_ismask c AND (BCM_D OR BCM_X) \<noteq> 0)"

definition bcm_toupper :: "char \<Rightarrow> nat" where
  "bcm_toupper c = (if bcm_islower c then of_char c + 65 - 97 else of_char c)"

lemmas bcm_class_defs = BCM_U_def BCM_L_def BCM_D_def BCM_C_def BCM_P_def BCM_S_def BCM_X_def BCM_SP_def

lemma bcm_ctype_table:
  "map (\<lambda>w. w AND BCM_D \<noteq> 0) bcm_ctype = map (\<lambda>n. 48 \<le> n \<and> n \<le> 57) [0..<256]"
  "map (\<lambda>w. w AND BCM_S \<noteq> 0) bcm_ctype = map (\<lambda>n. 9 \<le> n \<and> n \<le> 13 \<or> n = 32 \<or> n = 160) [0..<256]"
  "map (\<lambda>w. w AND (BCM_D OR BCM_X) \<noteq> 0) bcm_ctype =
     map (\<lambda>n. 48 \<le> n \<and> n \<le> 57 \<or> 65 \<le> n \<and> n \<le> 70 \<or> 97 \<le> n \<and> n \<le> 102) [0..<256]"
  "map (\<lambda>w. w AND BCM_L \<noteq> 0) bcm_ctype =
     map (\<lambda>n. 97 \<le> n \<and> n \<le> 122 \<or> 223 \<le> n \<and> n \<le> 255 \<and> n \<noteq> 247) [0..<256]"
  by code_simp+

lemma of_char_less: "(of_char c :: nat) < 256"
  by (metis mod_less_divisor of_char_mod_256 zero_less_numeral)

lemma ctype_nth:
  assumes "map f bcm_ctype = map g [0..<256]"
  shows "f (bcm_ctype ! of_char c) = g (of_char c)"
proof -
  have "length bcm_ctype = 256" using assms by (metis length_map length_upt diff_zero)
  then show ?thesis using arg_cong [OF assms, of "\<lambda>l. l ! of_char c"] of_char_less [of c] by simp
qed

text \<open>The classes as ranges of character codes; the table also has the Latin-1 half.\<close>

lemma bcm_isdigit_iff: "bcm_isdigit c \<longleftrightarrow> 48 \<le> (of_char c :: nat) \<and> (of_char c :: nat) \<le> 57"
  unfolding bcm_isdigit_def bcm_ismask_def by (rule ctype_nth [OF bcm_ctype_table(1)])

lemma bcm_isspace_iff:
  "bcm_isspace c \<longleftrightarrow> 9 \<le> (of_char c :: nat) \<and> (of_char c :: nat) \<le> 13 \<or> (of_char c :: nat) = 32 \<or> (of_char c :: nat) = 160"
  unfolding bcm_isspace_def bcm_ismask_def by (rule ctype_nth [OF bcm_ctype_table(2)])

lemma bcm_isxdigit_iff:
  "bcm_isxdigit c \<longleftrightarrow> 48 \<le> (of_char c :: nat) \<and> (of_char c :: nat) \<le> 57
     \<or> 65 \<le> (of_char c :: nat) \<and> (of_char c :: nat) \<le> 70 \<or> 97 \<le> (of_char c :: nat) \<and> (of_char c :: nat) \<le> 102"
  unfolding bcm_isxdigit_def bcm_ismask_def by (rule ctype_nth [OF bcm_ctype_table(3)])

lemma bcm_islower_iff:
  "bcm_islower c \<longleftrightarrow> 97 \<le> (of_char c :: nat) \<and> (of_char c :: nat) \<le> 122
     \<or> 223 \<le> (of_char c :: nat) \<and> (of_char c :: nat) \<le> 255 \<and> (of_char c :: nat) \<noteq> 247"
  unfolding bcm_islower_def bcm_ismask_def by (rule ctype_nth [OF bcm_ctype_table(4)])

section \<open>Numbers\<close>

definition digit_value :: "char \<Rightarrow> u32" where
  "digit_value c = (if bcm_isdigit c then of_nat (of_char c - 48) else of_nat (bcm_toupper c - 65 + 10))"

fun strtoul_digits :: "u32 \<Rightarrow> u32 \<Rightarrow> string \<Rightarrow> u32 \<times> string" where
  "strtoul_digits base result [] = (result, [])"
| "strtoul_digits base result (c # cp) =
     (if bcm_isxdigit c \<and> digit_value c < base
      then strtoul_digits base (result * base + digit_value c) cp
      else (result, c # cp))"

definition strtoul_sign :: "string \<Rightarrow> bool \<times> string" where
  "strtoul_sign cp =
     (if deref cp = CHR ''+'' then (False, tl cp)
      else if deref cp = CHR ''-'' then (True, tl cp)
      else (False, cp))"

definition strtoul_base :: "u32 \<Rightarrow> string \<Rightarrow> u32 \<times> string" where
  "strtoul_base base cp =
     (let zero = (deref cp = CHR ''0'');
          x = (char_at cp 1 = CHR ''x'' \<or> char_at cp 1 = CHR ''X'')
      in if base = 0
         then (if zero then (if x then (16, drop 2 cp) else (8, drop 1 cp)) else (10, cp))
         else if base = 16 \<and> zero \<and> x then (base, drop 2 cp)
         else (base, cp))"

definition bcm_strtoul :: "string \<Rightarrow> u32 \<Rightarrow> u32 \<times> string" where
  "bcm_strtoul cp base =
     (let cp = dropWhile bcm_isspace cp;
          (minus, cp) = strtoul_sign cp;
          (base, cp) = strtoul_base base cp;
          (result, cp) = strtoul_digits base 0 cp
      in (if minus then result * -1 else result, cp))"

definition bcm_atoi :: "string \<Rightarrow> int" where
  "bcm_atoi s = sint (fst (bcm_strtoul s 10))"

text \<open>The end of a number: the next character is no digit of the base.\<close>

definition num_end :: "u32 \<Rightarrow> string \<Rightarrow> bool" where
  "num_end base s = (case s of [] \<Rightarrow> True | c # _ \<Rightarrow> \<not> (bcm_isxdigit c \<and> digit_value c < base))"

lemma strtoul_digits_end: "num_end base s \<Longrightarrow> strtoul_digits base r s = (r, s)"
  by (cases s) (auto simp: num_end_def)

lemma digit_props:
  assumes "d < 10"
  shows "bcm_isdigit (digit d)" "bcm_isxdigit (digit d)" "\<not> bcm_isspace (digit d)"
    "digit_value (digit d) = of_nat d" "digit d \<noteq> CHR ''+''" "digit d \<noteq> CHR ''-''"
    "digit d \<noteq> CHR ''x''" "digit d \<noteq> CHR ''X''"
proof -
  note c = of_char_digit [OF assms]
  show "bcm_isdigit (digit d)" "bcm_isxdigit (digit d)" "\<not> bcm_isspace (digit d)"
    using assms by (simp_all add: bcm_isdigit_iff bcm_isxdigit_iff bcm_isspace_iff c)
  then show "digit_value (digit d) = of_nat d" by (simp add: digit_value_def c)
  show "digit d \<noteq> CHR ''+''" "digit d \<noteq> CHR ''-''" "digit d \<noteq> CHR ''x''" "digit d \<noteq> CHR ''X''"
    using c assms by auto
qed

lemma strtoul_dec_aux: "strtoul_digits 10 0 (dec n @ rest) = strtoul_digits 10 (of_nat n) rest"
proof (induction n arbitrary: rest rule: dec.induct)
  case (1 n)
  have lt: "(of_nat d :: u32) < 10" if "d < 10" for d :: nat
    using that by (simp add: word_less_nat_alt unsigned_of_nat take_bit_nat_eq_self)
  show ?case
  proof (cases "n < 10")
    case True
    then show ?thesis using digit_props [OF True] lt [OF True] by (subst dec.simps) simp
  next
    case False
    have d: "n mod 10 < 10" by simp
    have "(of_nat n :: u32) = of_nat (n div 10 * 10 + n mod 10)" by simp
    then have "(of_nat (n div 10) :: u32) * 10 + of_nat (n mod 10) = of_nat n"
      by (simp only: of_nat_add of_nat_mult of_nat_numeral)
    then show ?thesis
      using False "1.IH" [OF False] digit_props [OF d] lt [OF d] by (subst dec.simps) simp
  qed
qed

lemma dec_head:
  obtains d ds where "dec n = digit d # ds" "d < 10"
proof -
  obtain c cs where c: "dec n = c # cs" using dec_nonempty [of n] by (cases "dec n") auto
  then have "c \<in> set (dec n)" by simp
  then obtain d where "d < 10" "c = digit d" using dec_digits by blast
  with c that show ?thesis by blast
qed

lemma strtoul_dec: "num_end 10 rest \<Longrightarrow> bcm_strtoul (dec n @ rest) 10 = (of_nat n, rest)"
proof -
  assume "num_end 10 rest"
  obtain d ds where d: "dec n = digit d # ds" "d < 10" by (rule dec_head)
  have sp: "dropWhile bcm_isspace (dec n @ rest) = dec n @ rest"
    using d digit_props [of d] by simp
  have sg: "strtoul_sign (dec n @ rest) = (False, dec n @ rest)"
    using d digit_props [of d] by (simp add: strtoul_sign_def)
  show ?thesis
    using \<open>num_end 10 rest\<close>
    by (simp add: bcm_strtoul_def sp sg strtoul_base_def strtoul_dec_aux strtoul_digits_end)
qed

text \<open>Parsing what %d prints gives the number back, modulo 2^32, and stops at the first
  character that is not a decimal digit; as a signed int the value is right below 2^31.\<close>

theorem bcm_strtoul_dec:
  assumes "num_end 10 rest"
  shows "bcm_strtoul (dec n @ rest) 10 = (of_nat n, rest)
    \<and> (n < 2 ^ 31 \<longrightarrow> bcm_atoi (dec n) = int n)"
proof -
  have "bcm_atoi (dec n) = int n" if "n < 2 ^ 31"
  proof -
    have "num_end 10 []" by (simp add: num_end_def)
    then have "fst (bcm_strtoul (dec n) 10) = of_nat n" using strtoul_dec [of "[]" n] by simp
    then have "bcm_atoi (dec n) = sint (of_int (int n) :: u32)" by (simp add: bcm_atoi_def)
    also have "\<dots> = int n" using that by (simp add: signed_of_nat signed_take_bit_int_eq_self)
    finally show ?thesis .
  qed
  then show ?thesis using strtoul_dec [OF assms] by simp
qed

theorem bcm_strtoul_dec_witness:
  "bcm_strtoul (dec 1234 @ ''px'') 10 = (1234, ''px'')"
  using bcm_strtoul_dec [of "''px''" 1234] by (simp add: num_end_def bcm_isxdigit_iff)

lemma hex_digit_props:
  assumes "d < 16"
  shows "bcm_isxdigit (hex_digit d)" "\<not> bcm_isspace (hex_digit d)"
    "digit_value (hex_digit d) = of_nat d" "hex_digit d \<noteq> CHR ''+''" "hex_digit d \<noteq> CHR ''-''"
    "hex_digit d \<noteq> CHR ''x''" "hex_digit d \<noteq> CHR ''X''"
proof -
  have c: "(of_char (hex_digit d) :: nat) = (if d < 10 then 48 + d else 87 + d)"
    using assms by (simp add: hex_digit_def)
  show "bcm_isxdigit (hex_digit d)" "\<not> bcm_isspace (hex_digit d)" "digit_value (hex_digit d) = of_nat d"
    using assms by (auto simp: bcm_isxdigit_iff bcm_isspace_iff digit_value_def bcm_isdigit_iff bcm_toupper_def
        bcm_islower_iff c)
  show "hex_digit d \<noteq> CHR ''+''" "hex_digit d \<noteq> CHR ''-''" "hex_digit d \<noteq> CHR ''x''" "hex_digit d \<noteq> CHR ''X''"
    using c assms by (auto split: if_splits)
qed

lemma strtoul_hex2:
  assumes "n < 256" "num_end 16 rest"
  shows "bcm_strtoul (hex2 n @ rest) 16 = (of_nat n, rest)"
proof -
  let ?a = "n div 16 mod 16" and ?b = "n mod 16"
  have lt: "(of_nat d :: u32) < 16" if "d < 16" for d :: nat
    using that by (simp add: word_less_nat_alt unsigned_of_nat take_bit_nat_eq_self)
  have ab: "?a < 16" "?b < 16" by simp_all
  note p = hex_digit_props [OF ab(1)] hex_digit_props [OF ab(2)] lt [OF ab(1)] lt [OF ab(2)]
  have "?a * 16 + ?b = n" using assms(1) by simp
  then have "(of_nat ?a :: u32) * 16 + of_nat ?b = of_nat n" by (metis of_nat_add of_nat_mult of_nat_numeral)
  then show ?thesis
    using p assms(2)
    by (simp add: bcm_strtoul_def hex2_def strtoul_sign_def strtoul_base_def char_at_def strtoul_digits_end)
qed

section \<open>MAC addresses\<close>

function ether_atoe_loop :: "nat \<Rightarrow> u8 list \<Rightarrow> string \<Rightarrow> nat \<times> u8 list" where
  "ether_atoe_loop i octet p =
     (let (v, p) = bcm_strtoul p 16;
          octet = octet[i := ucast v];
          i = Suc i
      in if deref p = NUL \<or> i \<ge> 6 then (i, octet) else ether_atoe_loop i octet (tl p))"
  by pat_completeness auto
termination
  by (relation "measure (\<lambda>(i, octet, p). 6 - i)") auto

declare ether_atoe_loop.simps [simp del]

definition bcm_ether_atoe :: "string \<Rightarrow> u8 list \<Rightarrow> bool \<times> u8 list" where
  "bcm_ether_atoe p ea = (let (i, octet) = ether_atoe_loop 0 ea p in (i = 6, octet))"

definition bcm_ether_ntoa :: "u8 list \<Rightarrow> string" where
  "bcm_ether_ntoa ea =
     hex2 (unat (ea ! 0)) @ '':'' @ hex2 (unat (ea ! 1)) @ '':'' @ hex2 (unat (ea ! 2)) @ '':'' @
     hex2 (unat (ea ! 3)) @ '':'' @ hex2 (unat (ea ! 4)) @ '':'' @ hex2 (unat (ea ! 5))"

lemma ether_atoe_step:
  assumes "num_end 16 rest"
  shows "ether_atoe_loop i octet (hex2 (unat b) @ rest) =
    (if rest = [] \<or> hd rest = NUL \<or> Suc i \<ge> 6 then (Suc i, octet[i := b])
     else ether_atoe_loop (Suc i) (octet[i := b]) (tl rest))"
proof -
  have "unat b < 256" using unat_less_2p [of b] by simp
  note st = strtoul_hex2 [OF this assms]
  have uc: "ucast (of_nat (unat b) :: u32) = b"
    unfolding of_nat_unat by (rule bit_eqI) (simp add: bit_simps)
  show ?thesis
    unfolding ether_atoe_loop.simps [of i octet "hex2 (unat b) @ rest"] st Let_def prod.case uc
    by (cases rest) simp_all
qed

text \<open>Parsing a printed MAC address gives the six octets back and reports success, whatever
  was in the destination.\<close>

theorem ether_roundtrip:
  assumes "length ea = 6" "length dest = 6"
  shows "bcm_ether_atoe (bcm_ether_ntoa ea) dest = (True, ea)"
proof -
  have colon: "num_end 16 (CHR '':'' # s)" for s by (simp add: num_end_def bcm_isxdigit_iff)
  have nil: "num_end 16 []" by (simp add: num_end_def)
  obtain a b c d e f where ea: "ea = [a, b, c, d, e, f]" using assms(1) by (auto simp: length_Suc_conv numeral_eq_Suc)
  obtain a' b' c' d' e' f' where dest: "dest = [a', b', c', d', e', f']" using assms(2) by (auto simp: length_Suc_conv numeral_eq_Suc)
  show ?thesis
    unfolding bcm_ether_atoe_def bcm_ether_ntoa_def ea dest
    by (simp add: ether_atoe_step colon ether_atoe_step [OF nil, simplified] numeral_eq_Suc)
qed

theorem ether_roundtrip_witness:
  "bcm_ether_atoe (bcm_ether_ntoa [0, 0x11, 0xd8, 0xab, 0xff, 1]) [0, 0, 0, 0, 0, 0]
     = (True, [0, 0x11, 0xd8, 0xab, 0xff, 1])"
  using ether_roundtrip [of "[0, 0x11, 0xd8, 0xab, 0xff, 1]" "[0, 0, 0, 0, 0, 0]"] by simp

section \<open>Searching\<close>

text \<open>\<open>for (i = 0; i < len; i++) if (bcmp(needle, &haystack[i], nlen) == 0) return &haystack[i];\<close>\<close>

fun strstr_loop :: "string \<Rightarrow> string \<Rightarrow> nat list \<Rightarrow> string option" where
  "strstr_loop haystack needle [] = None"
| "strstr_loop haystack needle (i # is) =
     (if take (length needle) (drop i haystack) = needle then Some (drop i haystack)
      else strstr_loop haystack needle is)"

definition bcmstrstr :: "string option \<Rightarrow> string option \<Rightarrow> string option" where
  "bcmstrstr haystack needle =
     (case (haystack, needle) of
        (Some h, Some n) \<Rightarrow>
          (let nlen = int (length n); len = int (length h) - nlen + 1
           in strstr_loop h n [0..<nat len])
      | _ \<Rightarrow> haystack)"

definition bcmstrcat :: "string \<Rightarrow> string \<Rightarrow> string" where
  "bcmstrcat dest src = dest @ src"

lemma strstr_loop_find:
  "strstr_loop h n is = map_option (\<lambda>i. drop i h) (find (\<lambda>i. take (length n) (drop i h) = n) is)"
  by (induction "is") auto

lemma prefix_at:
  "i + length n \<le> length h \<Longrightarrow> take (length n) (drop i h) = n \<longleftrightarrow> (\<exists>u v. h = u @ n @ v \<and> length u = i)"
proof
  assume "i + length n \<le> length h" "take (length n) (drop i h) = n"
  then have "h = take i h @ n @ drop (length n) (drop i h)" by (metis append_take_drop_id)
  then show "\<exists>u v. h = u @ n @ v \<and> length u = i"
    using \<open>i + length n \<le> length h\<close> by (intro exI [of _ "take i h"] exI [of _ "drop (length n) (drop i h)"]) simp
qed auto

text \<open>Bcmstrstr finds the first occurrence of the needle: it returns NULL only when the needle
  occurs nowhere, and otherwise the suffix that starts at the smallest offset of an occurrence.\<close>

theorem bcmstrstr_correct:
  "case bcmstrstr (Some h) (Some n) of
     None \<Rightarrow> \<nexists>u v. h = u @ n @ v
   | Some s \<Rightarrow> (\<exists>u v. h = u @ s \<and> s = n @ v \<and> (\<forall>u' v'. h = u' @ n @ v' \<longrightarrow> length u \<le> length u'))"
proof -
  let ?m = "nat (int (length h) - int (length n) + 1)"
  let ?Q = "\<lambda>i. 0 \<le> i \<and> i < ?m \<and> take (length n) (drop i h) = n"
  have Q: "?Q i \<longleftrightarrow> (\<exists>u v. h = u @ n @ v \<and> length u = i)" for i
  proof -
    have "i < ?m \<longleftrightarrow> i + length n \<le> length h" by linarith
    then show ?thesis using prefix_at [of i n h] by auto
  qed
  have eq: "bcmstrstr (Some h) (Some n) = (if \<exists>i. ?Q i then Some (drop (LEAST i. ?Q i) h) else None)"
    by (simp add: bcmstrstr_def strstr_loop_find find_upt Let_def)
  show ?thesis
  proof (cases "\<exists>i. ?Q i")
    case True
    then have "?Q (LEAST i. ?Q i)" by (rule LeastI_ex)
    then obtain u v where uv: "h = u @ n @ v" "length u = (LEAST i. ?Q i)" unfolding Q by blast
    have least: "length u \<le> length u'" if "h = u' @ n @ v'" for u' v'
    proof -
      have "?Q (length u')" using that unfolding Q by blast
      then show ?thesis unfolding uv(2) by (rule Least_le)
    qed
    have "drop (LEAST i. ?Q i) h = n @ v" using uv by (metis append_eq_conv_conj)
    then have "bcmstrstr (Some h) (Some n) = Some (n @ v)" using True eq by simp
    then show ?thesis using uv(1) least by auto
  next
    case False
    then have "bcmstrstr (Some h) (Some n) = None" using eq by simp
    moreover have "\<nexists>u v. h = u @ n @ v" using False Q by blast
    ultimately show ?thesis by simp
  qed
qed

section \<open>Variables\<close>

text \<open>
  A block of variables is a sequence of NUL-terminated name=value strings that ends at an empty
  string; vars is the raw memory from the pointer on.  None: a byte outside the block is read.
  bcmp stops at the first difference, so it compares only bytes of the block and of the name.
\<close>

fun skip_string :: "string \<Rightarrow> string option" where
  "skip_string [] = None"
| "skip_string (c # s) = (if c = NUL then Some s else skip_string s)"

lemma skip_string_shorter: "skip_string s = Some t \<Longrightarrow> length t < length s"
  by (induction s) (auto split: if_splits)

definition cstring :: "string \<Rightarrow> string" where
  "cstring s = takeWhile (\<lambda>c. c \<noteq> NUL) s"

function getvar_loop :: "string \<Rightarrow> string \<Rightarrow> string option option" where
  "getvar_loop s name =
     (case s of
        [] \<Rightarrow> None
      | c # _ \<Rightarrow>
          if c = NUL then Some None
          else if prefix name s \<and> length name = length s then None
          else if prefix name s \<and> s ! length name = CHR ''='' then Some (Some (cstring (drop (Suc (length name)) s)))
          else case skip_string s of None \<Rightarrow> None | Some t \<Rightarrow> getvar_loop t name)"
  by pat_completeness auto
termination
  by (relation "measure (\<lambda>(s, name). length s)") (auto dest: skip_string_shorter split: if_splits)

declare getvar_loop.simps [simp del]

definition getvar :: "(string \<Rightarrow> string option) \<Rightarrow> string option \<Rightarrow> string \<Rightarrow> string option option" where
  "getvar nvram_get vars name = do {
     r \<leftarrow> (case vars of None \<Rightarrow> Some None | Some s \<Rightarrow> getvar_loop s name);
     (case r of Some v \<Rightarrow> Some (Some v) | None \<Rightarrow> Some (nvram_get name))
   }"

definition getintvar :: "(string \<Rightarrow> string option) \<Rightarrow> string option \<Rightarrow> string \<Rightarrow> int option" where
  "getintvar nvram_get vars name = do {
     r \<leftarrow> getvar nvram_get vars name;
     (case r of None \<Rightarrow> Some 0 | Some val \<Rightarrow> Some (sint (fst (bcm_strtoul val 0))))
   }"

text \<open>The block that holds a list of variables.\<close>

fun encode_vars :: "(string \<times> string) list \<Rightarrow> string" where
  "encode_vars [] = [NUL]"
| "encode_vars ((k, v) # kvs) = k @ CHR ''='' # v @ NUL # encode_vars kvs"

definition wf_vars :: "(string \<times> string) list \<Rightarrow> bool" where
  "wf_vars kvs = (\<forall>(k, v)\<in>set kvs. k \<noteq> [] \<and> CHR ''='' \<notin> set k \<and> NUL \<notin> set k \<and> NUL \<notin> set v)"

lemma skip_string_append: "NUL \<notin> set xs \<Longrightarrow> skip_string (xs @ NUL # ys) = Some ys"
  by (induction xs) auto

lemma cstring_append: "NUL \<notin> set xs \<Longrightarrow> cstring (xs @ NUL # ys) = xs"
  unfolding cstring_def by (induction xs) auto

lemma prefix_key:
  assumes "CHR ''='' \<notin> set k" "CHR ''='' \<notin> set name" "prefix name (k @ CHR ''='' # r)"
  shows "prefix name k" and "(k @ CHR ''='' # r) ! length name = CHR ''='' \<longleftrightarrow> name = k"
proof -
  show p: "prefix name k"
    using assms by (auto simp: prefix_append) (metis list.set_intros(1) prefix_code(3) prefix_order.eq_iff list.exhaust prefix_bot.bot_least append_is_Nil_conv in_set_conv_decomp prefix_Cons)
  then obtain z where z: "k = name @ z" by (auto simp: prefix_def)
  show "(k @ CHR ''='' # r) ! length name = CHR ''='' \<longleftrightarrow> name = k"
    using assms(1) by (cases z) (auto simp: z nth_append)
qed

lemma getvar_loop_encode:
  assumes "CHR ''='' \<notin> set name"
  shows "wf_vars kvs \<Longrightarrow> getvar_loop (encode_vars kvs @ rest) name = Some (map_of kvs name)"
proof (induction kvs)
  case Nil
  then show ?case by (subst getvar_loop.simps) simp
next
  case (Cons kv kvs)
  obtain k v where kv: "kv = (k, v)" by (cases kv)
  with Cons.prems have wf: "k \<noteq> []" "CHR ''='' \<notin> set k" "NUL \<notin> set k" "NUL \<notin> set v" "wf_vars kvs"
    by (auto simp: wf_vars_def)
  let ?r = "v @ NUL # encode_vars kvs @ rest"
  let ?s = "k @ CHR ''='' # ?r"
  obtain c cs where c: "k = c # cs" "c \<noteq> NUL" using wf by (cases k) auto
  have skip: "skip_string ?s = Some (encode_vars kvs @ rest)"
    using wf skip_string_append [of "k @ CHR ''='' # v"] by simp
  have len: "length name \<noteq> length ?s" if "prefix name ?s"
    using prefix_length_le [OF prefix_key(1) [OF wf(2) assms that]] by simp
  have step: "getvar_loop ?s name =
      (if prefix name ?s \<and> ?s ! length name = CHR ''='' then Some (Some (cstring (drop (Suc (length name)) ?s)))
       else getvar_loop (encode_vars kvs @ rest) name)"
    using len skip c by (subst getvar_loop.simps) auto
  show ?case
  proof (cases "name = k")
    case True
    then show ?thesis using step wf(4) by (simp add: kv cstring_append)
  next
    case False
    then have "\<not> (prefix name ?s \<and> ?s ! length name = CHR ''='')"
      using prefix_key(2) [OF wf(2) assms, of ?r] by blast
    then have "getvar_loop ?s name = getvar_loop (encode_vars kvs @ rest) name" unfolding step by (rule if_not_P)
    then show ?thesis using Cons.IH wf(5) False by (simp add: kv)
  qed
qed

text \<open>In a block that encodes a list of variables, getvar returns the value of the first variable
  of that name and asks the NVRAM only when there is none; it never reads outside the block.\<close>

theorem getvar_correct:
  assumes "wf_vars kvs" "CHR ''='' \<notin> set name"
  shows "getvar nvram_get (Some (encode_vars kvs @ rest)) name =
    Some (case map_of kvs name of Some v \<Rightarrow> Some v | None \<Rightarrow> nvram_get name)"
  using getvar_loop_encode [OF assms(2,1), of rest] by (simp add: getvar_def split: option.split)

theorem getvar_correct_witness:
  "getvar (\<lambda>_. None) (Some (encode_vars [(''a'', ''1''), (''ab'', ''22'')] @ ''junk'')) ''ab'' = Some (Some ''22'')"
  using getvar_correct [of "[(''a'', ''1''), (''ab'', ''22'')]" "''ab''" "\<lambda>_. None" "''junk''"]
  by (simp add: wf_vars_def)

section \<open>GPIO pins\<close>

function findmatch :: "string \<Rightarrow> string \<Rightarrow> bool" where
  "findmatch s name =
     (case strchr s CHR '','' of
        Some c \<Rightarrow>
          if length name = length s - length c \<and> strncmp_eq s name (length name) then True
          else findmatch (tl c) name
      | None \<Rightarrow> s = name)"
  by pat_completeness auto
termination
  by (relation "measure (\<lambda>(s, name). length s)") (auto dest: strchr_SomeD)

declare findmatch.simps [simp del]

text \<open>The comma-separated tokens of a string.\<close>

fun tokens :: "string \<Rightarrow> string list" where
  "tokens [] = [[]]"
| "tokens (c # s) =
     (if c = CHR '','' then [] # tokens s
      else (case tokens s of t # ts \<Rightarrow> (c # t) # ts | [] \<Rightarrow> [[c]]))"

lemma tokens_nonempty: "tokens s \<noteq> []"
  by (cases s) (auto split: list.split)

lemma tokens_no_comma: "CHR '','' \<notin> set s \<Longrightarrow> tokens s = [s]"
  by (induction s) auto

lemma tokens_comma: "CHR '','' \<notin> set xs \<Longrightarrow> tokens (xs @ CHR '','' # ys) = xs # tokens ys"
  by (induction xs) auto

lemma findmatch_tokens: "findmatch s name \<longleftrightarrow> name \<in> set (tokens s)"
proof (induction s name rule: findmatch.induct)
  case (1 s name)
  show ?case
  proof (cases "strchr s CHR '',''")
    case None
    then have "CHR '','' \<notin> set s" using strchr_append by (metis option.distinct(1) split_list_first)
    then show ?thesis using None tokens_no_comma [of s] by (subst findmatch.simps) auto
  next
    case (Some c)
    then obtain xs ys where s: "s = xs @ CHR '','' # ys" "c = CHR '','' # ys" "CHR '','' \<notin> set xs"
      using strchr_SomeD by blast
    have "findmatch s name = (length name = length xs \<and> strncmp_eq s name (length name) \<or> findmatch ys name)"
      using Some s by (subst findmatch.simps) auto
    also have "length name = length xs \<and> strncmp_eq s name (length name) \<longleftrightarrow> name = xs"
      using s(1) by (auto simp: strncmp_eq_def)
    finally show ?thesis using "1.IH" [OF Some] s tokens_comma [OF s(3), of ys] by (auto simp: strncmp_eq_def)
  qed
qed

definition GPIO_NUMPINS :: nat where "GPIO_NUMPINS = 16"
definition GPIO_PIN_NOTDEFINED :: nat where "GPIO_PIN_NOTDEFINED = 0x20"

text \<open>The search over the pins and the use of the default pin; \<open>gv\<close> is \<open>getvar\<close> on the caller's
  variables.\<close>

fun gpio_search :: "(string \<Rightarrow> string option) \<Rightarrow> string \<Rightarrow> nat list \<Rightarrow> nat option" where
  "gpio_search gv pin_name [] = None"
| "gpio_search gv pin_name (pin # pins) =
     (case gv (''gpio'' @ dec pin) of
        Some val \<Rightarrow> if findmatch val pin_name then Some pin else gpio_search gv pin_name pins
      | None \<Rightarrow> gpio_search gv pin_name pins)"

definition getgpiopin :: "(string \<Rightarrow> string option) \<Rightarrow> string \<Rightarrow> nat \<Rightarrow> nat" where
  "getgpiopin gv pin_name def_pin =
     (case gpio_search gv pin_name [0..<GPIO_NUMPINS] of
        Some pin \<Rightarrow> pin
      | None \<Rightarrow>
          if def_pin \<noteq> GPIO_PIN_NOTDEFINED
          then (if gv (''gpio'' @ dec def_pin) \<noteq> None then GPIO_PIN_NOTDEFINED else def_pin)
          else def_pin)"

definition pin_assigned :: "(string \<Rightarrow> string option) \<Rightarrow> string \<Rightarrow> nat \<Rightarrow> bool" where
  "pin_assigned gv pin_name pin = (\<exists>val. gv (''gpio'' @ dec pin) = Some val \<and> pin_name \<in> set (tokens val))"

lemma gpio_search_find: "gpio_search gv pin_name pins = find (pin_assigned gv pin_name) pins"
  by (induction pins) (auto simp: pin_assigned_def findmatch_tokens split: option.split)

text \<open>Getgpiopin returns the lowest pin whose variable lists the name as one of its comma-separated
  tokens; without one it returns the default pin unless some variable claims that pin, in which case it
  reports the pin as not defined.\<close>

theorem getgpiopin_correct:
  "getgpiopin gv pin_name def_pin =
     (if \<exists>i<16. pin_assigned gv pin_name i then LEAST i. i < 16 \<and> pin_assigned gv pin_name i
      else if gv (''gpio'' @ dec def_pin) \<noteq> None then GPIO_PIN_NOTDEFINED
      else def_pin)"
  by (auto simp: getgpiopin_def GPIO_NUMPINS_def gpio_search_find find_upt)

section \<open>I/O variables\<close>

definition strrchr_suffix :: "string \<Rightarrow> char \<Rightarrow> string" where
  "strrchr_suffix name c = rev (takeWhile (\<lambda>x. x \<noteq> c) (rev name))"

record bcm_iovar =
  iov_name :: string
  iov_type :: nat
  iov_minlen :: int

fun bcm_iovar_scan :: "bcm_iovar list \<Rightarrow> string \<Rightarrow> bcm_iovar option" where
  "bcm_iovar_scan [] nm = None"
| "bcm_iovar_scan (vi # vis) nm = (if iov_name vi = nm then Some vi else bcm_iovar_scan vis nm)"

definition bcm_iovar_lookup :: "bcm_iovar list \<Rightarrow> string \<Rightarrow> bcm_iovar option" where
  "bcm_iovar_lookup table name = bcm_iovar_scan table (strrchr_suffix name CHR '':'')"

definition BCME_BUFTOOSHORT :: int where "BCME_BUFTOOSHORT = -14"
definition BCME_BUFTOOLONG :: int where "BCME_BUFTOOLONG = -15"
definition BCME_UNSUPPORTED :: int where "BCME_UNSUPPORTED = -23"

text \<open>None is the ASSERT of the default branch.\<close>

definition bcm_iovar_lencheck :: "bcm_iovar \<Rightarrow> int \<Rightarrow> bool \<Rightarrow> int option" where
  "bcm_iovar_lencheck vi len is_set =
     (if iov_type vi \<in> {1, 2, 3, 4, 5, 6, 7} then Some (if len < 4 then BCME_BUFTOOSHORT else 0)
      else if iov_type vi = 8 then Some (if len < iov_minlen vi then BCME_BUFTOOSHORT else 0)
      else if iov_type vi = 0 then Some (if \<not> is_set then BCME_UNSUPPORTED else if len \<noteq> 0 then BCME_BUFTOOLONG else 0)
      else None)"

definition bcm_mkiovar :: "string \<Rightarrow> string \<Rightarrow> u32 \<Rightarrow> string \<Rightarrow> u32 \<Rightarrow> u32 \<times> string" where
  "bcm_mkiovar name data datalen buf buflen =
     (let len = of_nat (length name) + 1
      in if len + datalen > buflen then (0, buf)
         else (len + datalen,
               name @ NUL # take (unat datalen) data @ drop (length name + 1 + unat datalen) buf))"

lemma strrchr_suffix_prefixed: "CHR '':'' \<notin> set n \<Longrightarrow> strrchr_suffix (p @ CHR '':'' # n) CHR '':'' = n"
  by (simp add: strrchr_suffix_def takeWhile_append)

lemma strrchr_suffix_plain: "CHR '':'' \<notin> set n \<Longrightarrow> strrchr_suffix n CHR '':'' = n"
proof -
  assume "CHR '':'' \<notin> set n"
  then have "takeWhile (\<lambda>x. x \<noteq> CHR '':'') (rev n) = rev n" by (subst takeWhile_eq_all_conv) auto
  then show ?thesis unfolding strrchr_suffix_def by (metis rev_rev_ident)
qed

lemma bcm_iovar_scan_find: "bcm_iovar_scan table nm = find (\<lambda>vi. iov_name vi = nm) table"
  by (induction table) auto

lemma bcm_iovar_lookup_prefixed:
  "CHR '':'' \<notin> set n \<Longrightarrow> bcm_iovar_lookup table (p @ CHR '':'' # n) = find (\<lambda>vi. iov_name vi = n) table"
  by (simp add: bcm_iovar_lookup_def strrchr_suffix_prefixed bcm_iovar_scan_find)

text \<open>What a successful bcm_mkiovar leaves in the buffer, and that it never writes past buflen.\<close>

lemma bcm_mkiovar_fits:
  assumes "bcm_mkiovar name data datalen buf buflen = (len, buf')" "len \<noteq> 0"
    and "length name + 1 + unat datalen < 2 ^ 32" and "unat buflen \<le> length buf" "unat datalen \<le> length data"
  shows "unat len = length name + 1 + unat datalen" "unat len \<le> unat buflen" "length buf' = length buf"
    "take (unat len) buf' = name @ NUL # take (unat datalen) data"
proof -
  have n: "unat (of_nat (length name) + 1 + datalen :: u32) = length name + 1 + unat datalen"
  proof -
    have "unat (datalen + of_nat (length name + 1) :: u32) = unat datalen + (length name + 1)"
      using assms(3) by (intro unat_plus_less) simp
    then show ?thesis by (simp add: ac_simps)
  qed
  have r: "len = of_nat (length name) + 1 + datalen" "\<not> of_nat (length name) + 1 + datalen > buflen"
      "buf' = name @ NUL # take (unat datalen) data @ drop (length name + 1 + unat datalen) buf"
    using assms(1,2) by (auto simp: bcm_mkiovar_def Let_def split: if_splits)
  show l: "unat len = length name + 1 + unat datalen" using n r(1) by simp
  show le: "unat len \<le> unat buflen" using r(1,2) by (simp add: word_le_nat_alt [symmetric] not_less)
  show "length buf' = length buf" using le l assms(4,5) by (simp add: r(3))
  show "take (unat len) buf' = name @ NUL # take (unat datalen) data"
    using assms(5) by (simp add: l r(3))
qed

end
