(* ===== verification/Bcm_Misc.thy ===== *)
theory Bcm_Misc
  imports Bcm_Str
begin

text \<open>
  The remaining routines of src/broadcom/src/shared/bcmutils.c: tag/length/value walking, packet
  chains, the priority of a frame, the quarter-dBm table and bit counting.  A read outside the
  buffer is the result None.
\<close>

section \<open>Tag/length/value\<close>

definition read8 :: "bytes \<Rightarrow> nat \<Rightarrow> u8 option" where
  "read8 buf i = (if i < length buf then Some (buf ! i) else None)"

definition bcm_valid_tlv :: "bytes \<Rightarrow> nat \<Rightarrow> int \<Rightarrow> bool option" where
  "bcm_valid_tlv buf elt buflen =
     (if buflen \<ge> 2 then do { l \<leftarrow> read8 buf (elt + 1); Some (buflen \<ge> 2 + int (unat l)) } else Some False)"

definition bcm_next_tlv :: "bytes \<Rightarrow> nat \<Rightarrow> int \<Rightarrow> (nat option \<times> int) option" where
  "bcm_next_tlv buf elt buflen = do {
     v \<leftarrow> bcm_valid_tlv buf elt buflen;
     if \<not> v then Some (None, buflen)
     else do {
       l \<leftarrow> read8 buf (elt + 1);
       let elt = elt + 2 + unat l;
       let buflen = buflen - (2 + int (unat l));
       v \<leftarrow> bcm_valid_tlv buf elt buflen;
       Some (if \<not> v then None else Some elt, buflen)
     }
   }"

function parse_tlvs_loop :: "bytes \<Rightarrow> u32 \<Rightarrow> nat \<Rightarrow> int \<Rightarrow> nat option option" where
  "parse_tlvs_loop buf key elt totlen =
     (if totlen \<ge> 2
      then (case (read8 buf elt, read8 buf (elt + 1)) of
              (Some i, Some l) \<Rightarrow>
                if ucast i = key \<and> totlen \<ge> int (unat l) + 2 then Some (Some elt)
                else parse_tlvs_loop buf key (elt + (unat l + 2)) (totlen - (int (unat l) + 2))
            | _ \<Rightarrow> None)
      else Some None)"
  by pat_completeness auto
termination
  by (relation "measure (\<lambda>(buf, key, elt, totlen). nat totlen)") (auto simp del: of_nat_unat)

declare parse_tlvs_loop.simps [simp del]

definition bcm_parse_tlvs :: "bytes \<Rightarrow> int \<Rightarrow> u32 \<Rightarrow> nat option option" where
  "bcm_parse_tlvs buf buflen key = parse_tlvs_loop buf key 0 buflen"

function parse_ordered_loop :: "bytes \<Rightarrow> u32 \<Rightarrow> nat \<Rightarrow> int \<Rightarrow> nat option option" where
  "parse_ordered_loop buf key elt totlen =
     (if totlen \<ge> 2
      then (case (read8 buf elt, read8 buf (elt + 1)) of
              (Some i, Some l) \<Rightarrow>
                if ucast i > key then Some None
                else if ucast i = key \<and> totlen \<ge> int (unat l) + 2 then Some (Some elt)
                else parse_ordered_loop buf key (elt + (unat l + 2)) (totlen - (int (unat l) + 2))
            | _ \<Rightarrow> None)
      else Some None)"
  by pat_completeness auto
termination
  by (relation "measure (\<lambda>(buf, key, elt, totlen). nat totlen)") (auto simp del: of_nat_unat)

declare parse_ordered_loop.simps [simp del]

definition bcm_parse_ordered_tlvs :: "bytes \<Rightarrow> int \<Rightarrow> u32 \<Rightarrow> nat option option" where
  "bcm_parse_ordered_tlvs buf buflen key = parse_ordered_loop buf key 0 buflen"

text \<open>The encoding the parsers read, and the offset of the first element with a tag.\<close>

fun encode_tlvs :: "(u8 \<times> bytes) list \<Rightarrow> bytes" where
  "encode_tlvs [] = []"
| "encode_tlvs ((t, d) # ts) = t # of_nat (length d) # d @ encode_tlvs ts"

definition wf_tlvs :: "(u8 \<times> bytes) list \<Rightarrow> bool" where
  "wf_tlvs ts = list_all (\<lambda>(t, d). length d < 256) ts"

fun tlv_offset :: "u32 \<Rightarrow> (u8 \<times> bytes) list \<Rightarrow> nat option" where
  "tlv_offset key [] = None"
| "tlv_offset key ((t, d) # ts) =
     (if ucast t = key then Some 0 else map_option (\<lambda>n. n + length d + 2) (tlv_offset key ts))"

lemma unat_of_nat_u8: "n < 256 \<Longrightarrow> unat (of_nat n :: u8) = n"
  by (simp add: unsigned_of_nat take_bit_nat_eq_self)

lemma parse_tlvs_loop_encode:
  assumes "wf_tlvs ts"
  shows "parse_tlvs_loop (pre @ encode_tlvs ts @ post) key (length pre) (int (length (encode_tlvs ts)))
    = Some (map_option (\<lambda>n. n + length pre) (tlv_offset key ts))"
  using assms
proof (induction ts arbitrary: pre)
  case Nil
  then show ?case by (subst parse_tlvs_loop.simps) simp
next
  case (Cons td ts)
  obtain t d where td: "td = (t, d)" by (cases td)
  from Cons.prems have d: "length d < 256" and wf: "wf_tlvs ts" by (auto simp: wf_tlvs_def td)
  note l = unat_of_nat_u8 [OF d]
  let ?pre = "pre @ t # of_nat (length d) # d"
  have "parse_tlvs_loop (pre @ encode_tlvs (td # ts) @ post) key (length pre) (int (length (encode_tlvs (td # ts))))
    = (if ucast t = key then Some (Some (length pre))
       else parse_tlvs_loop (?pre @ encode_tlvs ts @ post) key (length ?pre) (int (length (encode_tlvs ts))))"
    using l by (subst parse_tlvs_loop.simps) (simp add: td read8_def nth_append ac_simps del: of_nat_unat)
  then show ?case
    using Cons.IH [OF wf, of ?pre] by (auto simp: td option.map_comp o_def ac_simps intro!: option.map_cong)
qed

text \<open>On a buffer that holds an encoded sequence of elements, whatever follows it, bcm_parse_tlvs
  returns the offset of the first element with the tag, or NULL when there is none.\<close>

theorem bcm_parse_tlvs_encode:
  assumes "wf_tlvs ts"
  shows "bcm_parse_tlvs (encode_tlvs ts @ post) (int (length (encode_tlvs ts))) key = Some (tlv_offset key ts)"
  using parse_tlvs_loop_encode [OF assms, of "[]" post key]
  by (simp add: bcm_parse_tlvs_def option.map_ident)

theorem bcm_parse_tlvs_encode_witness:
  "bcm_parse_tlvs (encode_tlvs [(0, [7, 8]), (3, [6])] @ [3, 9]) 7 3 = Some (Some 4)"
  using bcm_parse_tlvs_encode [of "[(0, [7, 8]), (3, [6])]" "[3, 9]" 3] by (simp add: wf_tlvs_def)

lemma parse_tlvs_loop_safe:
  "int elt + totlen \<le> int (length buf) \<Longrightarrow>
   \<exists>r. parse_tlvs_loop buf key elt totlen = Some r \<and>
     (case r of None \<Rightarrow> True
      | Some e \<Rightarrow> elt \<le> e \<and> ucast (buf ! e) = key \<and> int e + 2 + int (unat (buf ! (e + 1))) \<le> int elt + totlen)"
proof (induction buf key elt totlen rule: parse_tlvs_loop.induct)
  case (1 buf key elt totlen)
  show ?case
  proof (cases "totlen \<ge> 2")
    case False
    then show ?thesis by (subst parse_tlvs_loop.simps) simp
  next
    case True
    let ?i = "buf ! elt" and ?l = "buf ! (elt + 1)"
    have rd: "read8 buf elt = Some ?i" "read8 buf (elt + 1) = Some ?l"
      using True "1.prems" by (auto simp: read8_def)
    show ?thesis
    proof (cases "ucast ?i = key \<and> totlen \<ge> int (unat ?l) + 2")
      case hit: True
      then have "parse_tlvs_loop buf key elt totlen = Some (Some elt)"
        using True rd hit by (subst parse_tlvs_loop.simps) (simp del: of_nat_unat)
      then show ?thesis using hit by (simp del: of_nat_unat)
    next
      case miss: False
      have step: "parse_tlvs_loop buf key elt totlen
          = parse_tlvs_loop buf key (elt + (unat ?l + 2)) (totlen - (int (unat ?l) + 2))"
        using True rd miss by (subst parse_tlvs_loop.simps) (auto simp del: of_nat_unat)
      have "int (elt + (unat ?l + 2)) + (totlen - (int (unat ?l) + 2)) \<le> int (length buf)"
        using "1.prems" by linarith
      from "1.IH" [OF True refl rd miss this] obtain r where
        r: "parse_tlvs_loop buf key (elt + (unat ?l + 2)) (totlen - (int (unat ?l) + 2)) = Some r"
        "case r of None \<Rightarrow> True | Some e \<Rightarrow> elt + (unat ?l + 2) \<le> e \<and> ucast (buf ! e) = key
          \<and> int e + 2 + int (unat (buf ! (e + 1))) \<le> int (elt + (unat ?l + 2)) + (totlen - (int (unat ?l) + 2))"
        by blast
      then show ?thesis unfolding step by (cases r) (simp_all del: of_nat_unat)
    qed
  qed
qed

text \<open>C40: on any bytes, as long as buflen does not exceed the buffer, bcm_parse_tlvs reads only inside
  the buffer, terminates, and an element it returns has the tag and lies inside buflen.\<close>

theorem bcm_parse_tlvs_safe:
  assumes "buflen \<le> int (length buf)"
  shows "\<exists>r. bcm_parse_tlvs buf buflen key = Some r \<and>
    (case r of None \<Rightarrow> True
     | Some e \<Rightarrow> ucast (buf ! e) = key \<and> int e + 2 + int (unat (buf ! (e + 1))) \<le> buflen)"
proof -
  have "int 0 + buflen \<le> int (length buf)" using assms by simp
  from parse_tlvs_loop_safe [OF this, of key] show ?thesis
    by (auto simp: bcm_parse_tlvs_def simp del: of_nat_unat split: option.splits)
qed

theorem bcm_parse_tlvs_safe_witness:
  "\<exists>r. bcm_parse_tlvs [1, 200, 3] 3 1 = Some r \<and>
    (case r of None \<Rightarrow> True
     | Some e \<Rightarrow> ucast ([1, 200, 3 :: u8] ! e) = (1 :: u32) \<and> int e + 2 + int (unat ([1, 200, 3 :: u8] ! (e + 1))) \<le> 3)"
  using bcm_parse_tlvs_safe [of 3 "[1, 200, 3]" 1] by (simp del: of_nat_unat)

lemma tlv_offset_above: "\<forall>(t, d)\<in>set ts. key < ucast t \<Longrightarrow> tlv_offset key ts = None"
  by (induction ts) auto

lemma parse_ordered_loop_encode:
  assumes "wf_tlvs ts" "sorted (map (\<lambda>(t, d). ucast t :: u32) ts)"
  shows "parse_ordered_loop (pre @ encode_tlvs ts @ post) key (length pre) (int (length (encode_tlvs ts)))
    = Some (map_option (\<lambda>n. n + length pre) (tlv_offset key ts))"
  using assms
proof (induction ts arbitrary: pre)
  case Nil
  then show ?case by (subst parse_ordered_loop.simps) simp
next
  case (Cons td ts)
  obtain t d where td: "td = (t, d)" by (cases td)
  from Cons.prems have d: "length d < 256" and wf: "wf_tlvs ts" "sorted (map (\<lambda>(t, d). ucast t :: u32) ts)"
    and ge: "\<forall>(t', d)\<in>set ts. (ucast t :: u32) \<le> ucast t'" by (auto simp: wf_tlvs_def td)
  note l = unat_of_nat_u8 [OF d]
  let ?pre = "pre @ t # of_nat (length d) # d"
  have step: "parse_ordered_loop (pre @ encode_tlvs (td # ts) @ post) key (length pre) (int (length (encode_tlvs (td # ts))))
    = (if ucast t > key then Some None else if ucast t = key then Some (Some (length pre))
       else parse_ordered_loop (?pre @ encode_tlvs ts @ post) key (length ?pre) (int (length (encode_tlvs ts))))"
    using l by (subst parse_ordered_loop.simps) (simp add: td read8_def nth_append ac_simps del: of_nat_unat)
  show ?case
  proof (cases "ucast t > key")
    case True
    then have "tlv_offset key (td # ts) = None"
      using ge tlv_offset_above [of ts key] by (fastforce simp: td)
    then show ?thesis using step True by simp
  next
    case False
    then show ?thesis
      unfolding step using Cons.IH [OF wf, of ?pre]
      by (auto simp: td option.map_comp o_def ac_simps intro!: option.map_cong)
  qed
qed

text \<open>On elements in ascending tag order the early exit of bcm_parse_ordered_tlvs loses nothing:
  it returns what bcm_parse_tlvs returns.\<close>

theorem bcm_parse_ordered_tlvs_sorted:
  assumes "wf_tlvs ts" "sorted (map (\<lambda>(t, d). ucast t :: u32) ts)"
  shows "bcm_parse_ordered_tlvs (encode_tlvs ts @ post) (int (length (encode_tlvs ts))) key
    = bcm_parse_tlvs (encode_tlvs ts @ post) (int (length (encode_tlvs ts))) key"
  using parse_ordered_loop_encode [OF assms, of "[]" post key] parse_tlvs_loop_encode [OF assms(1), of "[]" post key]
  by (simp add: bcm_parse_tlvs_def bcm_parse_ordered_tlvs_def)

theorem bcm_parse_ordered_tlvs_sorted_witness:
  "bcm_parse_ordered_tlvs (encode_tlvs [(0, [7, 8]), (3, [6])] @ [3, 9]) 7 3
     = bcm_parse_tlvs (encode_tlvs [(0, [7, 8]), (3, [6])] @ [3, 9]) 7 3"
  using bcm_parse_ordered_tlvs_sorted [of "[(0, [7, 8]), (3, [6])]" "[3, 9]" 3] by (simp add: wf_tlvs_def)

section \<open>Packet chains\<close>

text \<open>A chain is the list of the data of its buffers.\<close>

fun pktcopy_skip :: "bytes list \<Rightarrow> nat \<Rightarrow> bytes list \<times> nat" where
  "pktcopy_skip [] offset = ([], offset)"
| "pktcopy_skip (p # ps) offset =
     (if offset = 0 then (p # ps, offset)
      else if offset < length p then (p # ps, offset)
      else pktcopy_skip ps (offset - length p))"

fun pktcopy_copy :: "bytes list \<Rightarrow> nat \<Rightarrow> nat \<Rightarrow> bytes" where
  "pktcopy_copy [] offset len = []"
| "pktcopy_copy (p # ps) offset len =
     (if len = 0 then []
      else (let n = min (length p - offset) len
            in take n (drop offset p) @ pktcopy_copy ps 0 (len - n)))"

definition pktcopy :: "bytes list \<Rightarrow> nat \<Rightarrow> int \<Rightarrow> nat \<times> bytes" where
  "pktcopy p offset len =
     (let len = (if len < 0 then 4096 else nat len);
          (p, offset) = pktcopy_skip p offset
      in if p = [] then (0, [])
         else (let buf = pktcopy_copy p offset len in (length buf, buf)))"

fun pkttotlen :: "bytes list \<Rightarrow> u32 \<Rightarrow> u32" where
  "pkttotlen [] tot = tot"
| "pkttotlen (p # ps) tot = pkttotlen ps (tot + of_nat (length p))"

lemma pktcopy_skip_drop:
  "pktcopy_skip ps offset = (qs, off) \<Longrightarrow> drop offset (concat ps) = drop off (concat qs) \<and>
     (qs = [] \<or> off = 0 \<or> off < length (hd qs))"
  by (induction ps offset rule: pktcopy_skip.induct) (auto split: if_splits)

lemma pktcopy_copy_take:
  "ps = [] \<or> off \<le> length (hd ps) \<Longrightarrow> pktcopy_copy ps off len = take len (drop off (concat ps))"
proof (induction ps off len rule: pktcopy_copy.induct)
  case (2 p ps offset len)
  then have "pktcopy_copy ps 0 (len - min (length p - offset) len) = take (len - min (length p - offset) len) (concat ps)"
    if "len \<noteq> 0" using that by simp
  then show ?case using "2.prems" by (auto simp: Let_def min_def)
qed simp

text \<open>Pktcopy copies the bytes of the chain from the offset on, at most len of them (4096 when len
  is negative), across buffer boundaries and empty buffers, and returns their number.\<close>

theorem pktcopy_correct:
  "pktcopy ps offset len =
     (let r = take (if len < 0 then 4096 else nat len) (drop offset (concat ps)) in (length r, r))"
proof -
  obtain qs off where sk: "pktcopy_skip ps offset = (qs, off)" by force
  note d = pktcopy_skip_drop [OF sk]
  then have c: "pktcopy_copy qs off n = take n (drop off (concat qs))" for n
    by (intro pktcopy_copy_take) auto
  show ?thesis
    using d unfolding pktcopy_def sk Let_def prod.case c by (cases "qs = []") simp_all
qed

lemma pkttotlen_concat: "pkttotlen ps t = t + of_nat (length (concat ps))"
  by (induction ps arbitrary: t) (auto simp: algebra_simps)

section \<open>Units and bits\<close>

definition QDBM_OFFSET :: int where "QDBM_OFFSET = 153"
definition QDBM_TABLE_LEN :: int where "QDBM_TABLE_LEN = 40"
definition QDBM_TABLE_LOW_BOUND :: int where "QDBM_TABLE_LOW_BOUND = 6493"

definition nqdBm_to_mW_map :: "int list" where
  "nqdBm_to_mW_map = [
     6683, 7079, 7499, 7943, 8414, 8913, 9441, 10000,
     10593, 11220, 11885, 12589, 13335, 14125, 14962, 15849,
     16788, 17783, 18836, 19953, 21135, 22387, 23714, 25119,
     26607, 28184, 29854, 31623, 33497, 35481, 37584, 39811,
     42170, 44668, 47315, 50119, 53088, 56234, 59566, 63096]"

function qdbm_scale :: "int \<Rightarrow> int \<Rightarrow> int \<times> int" where
  "qdbm_scale idx factor = (if idx < 0 then qdbm_scale (idx + 40) (factor * 10) else (idx, factor))"
  by pat_completeness auto
termination
  by (relation "measure (\<lambda>(idx, factor). nat (- idx))") auto

declare qdbm_scale.simps [simp del]

text \<open>None: the table is indexed past its end.\<close>

definition bcm_qdbm_to_mw :: "u8 \<Rightarrow> u16 option" where
  "bcm_qdbm_to_mw qdbm =
     (let idx = uint qdbm - QDBM_OFFSET
      in if idx > QDBM_TABLE_LEN then Some 0xFFFF
         else (let (idx, factor) = qdbm_scale idx 1
               in if nat idx < length nqdBm_to_mW_map
                  then Some (of_int ((nqdBm_to_mW_map ! nat idx + factor div 2) div factor))
                  else None))"

text \<open>The scaling loop runs on values above 1 only, so the test for 0 is never the one that ends it.\<close>

function mw_scale :: "int \<Rightarrow> int \<Rightarrow> int \<times> int" where
  "mw_scale mw offset =
     (if mw < QDBM_TABLE_LOW_BOUND \<and> mw > 0 then mw_scale (mw * 10) (offset - 40) else (mw, offset))"
  by pat_completeness auto
termination
  by (relation "measure (\<lambda>(mw, offset). nat (QDBM_TABLE_LOW_BOUND - mw))") auto

declare mw_scale.simps [simp del]

text \<open>The loop over the table: at each index the entry and its successor.\<close>

fun mw_search :: "int list \<Rightarrow> int \<Rightarrow> int \<Rightarrow> int" where
  "mw_search (a # b # t) mw qdbm = (if mw < a + (b - a) div 2 then qdbm else mw_search (b # t) mw (qdbm + 1))"
| "mw_search _ mw qdbm = qdbm"

definition bcm_mw_to_qdbm :: "u16 \<Rightarrow> u8" where
  "bcm_mw_to_qdbm mw =
     (if uint mw \<le> 1 then 0
      else (let (mw_uint, offset) = mw_scale (uint mw) QDBM_OFFSET
            in of_int (mw_search nqdBm_to_mW_map mw_uint 0) + of_int offset))"

function count_bits :: "u8 \<Rightarrow> nat \<Rightarrow> nat" where
  "count_bits tmp bitcount = (if tmp \<noteq> 0 then count_bits (tmp AND (tmp - 1)) (bitcount + 1) else bitcount)"
  by pat_completeness auto
termination
proof (relation "measure (\<lambda>(tmp, bitcount). unat tmp)")
  show "wf (measure (\<lambda>(tmp :: u8, bitcount :: nat). unat tmp))" by simp
  fix tmp :: u8 and n :: nat assume "tmp \<noteq> 0"
  have "unat (tmp AND (tmp - 1)) \<le> unat (tmp - 1)"
    by (simp add: word_le_nat_alt [symmetric] word_and_le1)
  also have "\<dots> < unat tmp" using \<open>tmp \<noteq> 0\<close> by (rule measure_unat)
  finally show "((tmp AND (tmp - 1), n + 1), tmp, n) \<in> measure (\<lambda>(tmp, bitcount). unat tmp)" by simp
qed

declare count_bits.simps [simp del]

definition bcm_bitcount :: "bytes \<Rightarrow> nat" where
  "bcm_bitcount bitmap = foldl (\<lambda>n b. count_bits b n) 0 bitmap"

lemma qdbm_roundtrip_table:
  "list_all (\<lambda>q. map_option bcm_mw_to_qdbm (bcm_qdbm_to_mw q) = Some q) (map of_int [45..192])"
  by code_simp

lemma u8_all:
  assumes "list_all P (map of_int [a..b])" "a \<le> uint w" "uint w \<le> b"
  shows "P (w :: u8)"
proof -
  have "w \<in> set (map of_int [a..b])" using assms(2,3) by (auto intro!: image_eqI [of _ _ "uint w"])
  then show ?thesis using assms(1) by (auto simp: list_all_iff)
qed

text \<open>From 45 to 192 quarter-dBm (about 13 mW up to the largest value of the table) converting to
  milliwatts and back is the identity.\<close>

theorem qdbm_roundtrip:
  assumes "45 \<le> uint q" "uint q \<le> 192"
  shows "map_option bcm_mw_to_qdbm (bcm_qdbm_to_mw q) = Some q"
  using qdbm_roundtrip_table assms by (rule u8_all)

theorem qdbm_roundtrip_witness: "map_option bcm_mw_to_qdbm (bcm_qdbm_to_mw 100) = Some 100"
  using qdbm_roundtrip [of 100] by simp

text \<open>At 193 quarter-dBm the guard compares with the table length where it should compare with
  the last index: the table of 40 entries is read at index 40.\<close>

theorem qdbm_table_overrun: "bcm_qdbm_to_mw q = None \<longleftrightarrow> q = 193"
proof -
  have "list_all (\<lambda>q. (bcm_qdbm_to_mw q = None) = (q = 193)) (map of_int [0..255])" by code_simp
  moreover have "0 \<le> uint q" "uint q \<le> 255" using uint_bounded [of q] by simp_all
  ultimately show ?thesis by (rule u8_all)
qed

definition popcount :: "u8 \<Rightarrow> nat" where
  "popcount w = length (filter (bit w) [0..<8])"

lemma popcount_clear_lowest: "w \<noteq> 0 \<Longrightarrow> popcount w = Suc (popcount (w AND (w - 1)))"
proof -
  have "list_all (\<lambda>w. w \<noteq> 0 \<longrightarrow> popcount w = Suc (popcount (w AND (w - 1)))) (map of_int [0..255])" by code_simp
  moreover have "0 \<le> uint w" "uint w \<le> 255" using uint_bounded [of w] by simp_all
  ultimately have "w \<noteq> 0 \<longrightarrow> popcount w = Suc (popcount (w AND (w - 1)))" by (rule u8_all)
  then show "w \<noteq> 0 \<Longrightarrow> popcount w = Suc (popcount (w AND (w - 1)))" by blast
qed

lemma count_bits_popcount: "count_bits w n = n + popcount w"
proof (induction w n rule: count_bits.induct)
  case (1 w n)
  show ?case
  proof (cases "w = 0")
    case True
    then show ?thesis by (subst count_bits.simps) (simp add: popcount_def)
  next
    case False
    then show ?thesis using "1.IH" popcount_clear_lowest by (subst count_bits.simps) simp
  qed
qed

text \<open>Bcm_bitcount returns the number of set bits of the bitmap.\<close>

theorem bcm_bitcount_correct: "bcm_bitcount bitmap = sum_list (map popcount bitmap)"
proof -
  have "foldl (\<lambda>n b. count_bits b n) k bitmap = k + sum_list (map popcount bitmap)" for k
    by (induction bitmap arbitrary: k) (auto simp: count_bits_popcount)
  then show ?thesis by (simp add: bcm_bitcount_def)
qed

section \<open>The priority of a frame\<close>

definition ETHER_TYPE_IP :: u16 where "ETHER_TYPE_IP = 0x0800"
definition ETHER_TYPE_8021Q :: u16 where "ETHER_TYPE_8021Q = 0x8100"

definition ntoh16_at :: "bytes \<Rightarrow> nat \<Rightarrow> u16 option" where
  "ntoh16_at d i = do { a \<leftarrow> read8 d i; b \<leftarrow> read8 d (i + 1); Some (push_bit 8 (ucast a) OR ucast b) }"

definition hton16_set :: "bytes \<Rightarrow> nat \<Rightarrow> u16 \<Rightarrow> bytes" where
  "hton16_set d i w = d[i := ucast (drop_bit 8 w), i + 1 := ucast w]"

definition IP_TOS :: "bytes \<Rightarrow> nat \<Rightarrow> u8 option" where
  "IP_TOS d i = do {
     v \<leftarrow> read8 d i;
     let ver = drop_bit 4 (v AND 0xf0);
     if ver = 4 then read8 d (i + 1)
     else if ver = 6 then do { w \<leftarrow> read8 d (i + 1); Some (push_bit 4 (v AND 0x0f) OR drop_bit 4 (w AND 0xf0)) }
     else Some 0
   }"

definition dscp_prio_at :: "bytes \<Rightarrow> nat \<Rightarrow> nat option" where
  "dscp_prio_at d i = map_option (\<lambda>tos_tc. unat (drop_bit 5 tos_tc)) (IP_TOS d i)"

definition tag_prio :: "u16 \<Rightarrow> nat" where
  "tag_prio vlan_tag = unat (drop_bit 13 vlan_tag AND 7)"

text \<open>The VLAN branch once the tag and the DSCP priority are known.\<close>

definition vlan_setprio :: "bytes \<Rightarrow> bool \<Rightarrow> u16 \<Rightarrow> nat \<Rightarrow> nat \<times> bytes" where
  "vlan_setprio d update_vtag vlan_tag dscp_prio =
     (let vlan_prio = tag_prio vlan_tag;
          priority = (if dscp_prio \<noteq> 0 then dscp_prio else vlan_prio)
      in (priority,
          if update_vtag \<and> priority \<noteq> vlan_prio
          then hton16_set d 14 ((vlan_tag AND NOT (push_bit 13 7)) OR push_bit 13 (of_nat priority))
          else d))"

text \<open>The priority handed to PKTSETPRIO, and the frame after the call.\<close>

definition pktsetprio :: "bytes \<Rightarrow> bool \<Rightarrow> (nat \<times> bytes) option" where
  "pktsetprio d update_vtag = do {
     et \<leftarrow> ntoh16_at d 12;
     if et = ETHER_TYPE_8021Q then do {
       vlan_tag \<leftarrow> ntoh16_at d 14;
       et2 \<leftarrow> ntoh16_at d 16;
       dscp_prio \<leftarrow> (if et2 = ETHER_TYPE_IP then dscp_prio_at d 18 else Some 0);
       Some (vlan_setprio d update_vtag vlan_tag dscp_prio)
     }
     else if et = ETHER_TYPE_IP then do {
       priority \<leftarrow> dscp_prio_at d 14;
       Some (priority, d)
     }
     else Some (0, d)
   }"

lemma unat_drop5: "unat (drop_bit 5 (w :: u8)) < 8"
proof -
  have "list_all (\<lambda>w :: u8. unat (drop_bit 5 w) < 8) (map of_int [0..255])" by code_simp
  moreover have "0 \<le> uint w" "uint w \<le> 255" using uint_bounded [of w] by simp_all
  ultimately show ?thesis by (rule u8_all)
qed

lemma unat_vlan_prio: "unat (drop_bit 13 (w :: u16) AND 7) < 8"
proof -
  have "drop_bit 13 w AND 7 \<le> 7" by (rule word_and_le1)
  then show ?thesis by (simp add: word_le_nat_alt)
qed

lemma ntoh16_hton16:
  assumes "i + 1 < length d"
  shows "ntoh16_at (hton16_set d i w) i = Some w"
proof -
  have "push_bit 8 (ucast (ucast (drop_bit 8 w) :: u8)) OR ucast (ucast w :: u8) = w"
    by (rule bit_eqI) (auto simp: bit_simps)
  then show ?thesis using assms by (simp add: ntoh16_at_def hton16_set_def read8_def)
qed

lemma seven_mask: "(7 :: u16) = mask 3"
  by (simp add: mask_eq_exp_minus_1)

lemma tag_prio_set:
  assumes "p < 8"
  shows "tag_prio ((tag AND NOT (push_bit 13 7)) OR push_bit 13 (of_nat p)) = p"
    and "take_bit 13 ((tag AND NOT (push_bit 13 7)) OR push_bit 13 (of_nat p)) = take_bit 13 tag"
proof -
  have "list_all (\<lambda>p. unat ((of_nat p :: u16) AND 7) = p) [0..<8]" by code_simp
  then have "unat ((of_nat p :: u16) AND 7) = p" using assms by (simp add: list_all_iff)
  moreover have "drop_bit 13 ((tag AND NOT (push_bit 13 7)) OR push_bit 13 x) AND 7 = x AND (7 :: u16)" for x
    unfolding seven_mask by (rule bit_eqI) (auto simp: bit_simps)
  ultimately show "tag_prio ((tag AND NOT (push_bit 13 7)) OR push_bit 13 (of_nat p)) = p"
    by (simp add: tag_prio_def)
  show "take_bit 13 ((tag AND NOT (push_bit 13 7)) OR push_bit 13 (of_nat p)) = take_bit 13 tag"
    unfolding seven_mask by (rule bit_eqI) (auto simp: bit_simps)
qed

lemma ntoh16_at_bound: "ntoh16_at d i = Some w \<Longrightarrow> i + 1 < length d"
  by (auto simp: ntoh16_at_def read8_def split: if_splits Option.bind_splits)

text \<open>What the call may do to the frame: the priority is one of the eight 802.1D priorities; only a VLAN frame with
  update_vtag is changed, and there only the priority field of its tag, which then is the priority.\<close>

definition prio_post :: "bytes \<Rightarrow> bool \<Rightarrow> nat \<Rightarrow> bytes \<Rightarrow> bool" where
  "prio_post d update_vtag p d' \<longleftrightarrow>
     p < 8 \<and> length d' = length d \<and> (\<forall>i. i \<noteq> 14 \<and> i \<noteq> 15 \<longrightarrow> d' ! i = d ! i)
     \<and> (if ntoh16_at d 12 = Some ETHER_TYPE_8021Q \<and> update_vtag
        then \<exists>tag tag'. ntoh16_at d 14 = Some tag \<and> ntoh16_at d' 14 = Some tag'
               \<and> tag_prio tag' = p \<and> take_bit 13 tag' = take_bit 13 tag
        else d' = d)"

lemma dscp_prio_at_less: "dscp_prio_at d i = Some p \<Longrightarrow> p < 8"
  using unat_drop5 by (auto simp: dscp_prio_at_def)

lemma vlan_setprio_post:
  assumes "ntoh16_at d 12 = Some ETHER_TYPE_8021Q" and tag: "ntoh16_at d 14 = Some tag" and "dscp < 8"
    and res: "vlan_setprio d update_vtag tag dscp = (p, d')"
  shows "prio_post d update_vtag p d'"
proof -
  have p8: "p < 8" using assms(3) res unat_vlan_prio [of tag] by (auto simp: vlan_setprio_def Let_def tag_prio_def)
  have len: "14 + 1 < length d" using ntoh16_at_bound [OF tag] .
  show ?thesis
  proof (cases "update_vtag \<and> p \<noteq> tag_prio tag")
    case True
    then have d': "d' = hton16_set d 14 ((tag AND NOT (push_bit 13 7)) OR push_bit 13 (of_nat p))"
      using res by (auto simp: vlan_setprio_def Let_def)
    have frame: "length d' = length d" "\<forall>i. i \<noteq> 14 \<and> i \<noteq> 15 \<longrightarrow> d' ! i = d ! i"
      unfolding d' by (simp_all add: hton16_set_def)
    have "ntoh16_at d' 14 = Some ((tag AND NOT (push_bit 13 7)) OR push_bit 13 (of_nat p))"
      unfolding d' by (rule ntoh16_hton16 [OF len])
    then show ?thesis
      unfolding prio_post_def using assms(1) tag p8 tag_prio_set [OF p8, of tag] frame True by simp
  next
    case False
    then have "d' = d" "update_vtag \<longrightarrow> p = tag_prio tag" using res by (auto simp: vlan_setprio_def Let_def)
    then show ?thesis using assms(1) tag p8 by (simp add: prio_post_def)
  qed
qed

text \<open>Pktsetprio yields a priority below 8 and changes at most the priority field of a VLAN
  tag, to that priority, and only when asked to.\<close>

theorem pktsetprio_correct:
  assumes "pktsetprio d update_vtag = Some (p, d')"
  shows "prio_post d update_vtag p d'"
proof -
  obtain et where et: "ntoh16_at d 12 = Some et"
    using assms by (auto simp: pktsetprio_def bind_eq_Some_conv)
  show ?thesis
  proof (cases "et = ETHER_TYPE_8021Q")
    case True
    then obtain tag dscp where "ntoh16_at d 14 = Some tag" "dscp < 8" "vlan_setprio d update_vtag tag dscp = (p, d')"
      using assms et dscp_prio_at_less by (fastforce simp: pktsetprio_def bind_eq_Some_conv split: if_splits)
    then show ?thesis using et True vlan_setprio_post by blast
  next
    case False
    then show ?thesis
      using assms et dscp_prio_at_less
      by (auto simp: pktsetprio_def prio_post_def bind_eq_Some_conv split: if_splits)
  qed
qed

theorem pktsetprio_correct_witness:
  "prio_post (replicate 12 0 @ [0x81, 0, 0x20, 5, 8, 0, 0x45, 0xe0]) True 7
     (replicate 12 0 @ [0x81, 0, 0xe0, 5, 8, 0, 0x45, 0xe0])"
proof -
  have "pktsetprio (replicate 12 0 @ [0x81, 0, 0x20, 5, 8, 0, 0x45, 0xe0]) True
      = Some (7, replicate 12 0 @ [0x81, 0, 0xe0, 5, 8, 0, 0x45, 0xe0])"
    by code_simp
  then show ?thesis by (rule pktsetprio_correct)
qed

end
