(* ===== verification/Var_Store.thy ===== *)
theory Var_Store
  imports Prelude
begin

text \<open>
  The interface of a store of variables, shared by the NVRAM of the running system and the environment
  of the boot loader: the laws its clients use, and what follows from them.  An operation that reports an
  error leaves every variable as it was.
\<close>

locale var_store =
  fixes inv :: "'s \<Rightarrow> bool"
    and get :: "'s \<Rightarrow> string \<Rightarrow> string option"
    and set_var :: "'s \<Rightarrow> string \<Rightarrow> string \<Rightarrow> int \<times> 's"
    and unset_var :: "'s \<Rightarrow> string \<Rightarrow> int \<times> 's"
  assumes set_inv: "inv s \<Longrightarrow> inv (snd (set_var s n v))"
    and get_set: "inv s \<Longrightarrow> get (snd (set_var s n v)) m =
      (if fst (set_var s n v) = 0 \<and> m = n then Some v else get s m)"
    and unset_inv: "inv s \<Longrightarrow> inv (snd (unset_var s n))"
    and get_unset: "inv s \<Longrightarrow> get (snd (unset_var s n)) m = (if m = n then None else get s m)"
begin

text \<open>A sequence of successful sets: the last value set to a name is the one read.\<close>

primrec set_all :: "(string \<times> string) list \<Rightarrow> 's \<Rightarrow> 's" where
  "set_all [] s = s"
| "set_all (kv # kvs) s = set_all kvs (snd (set_var s (fst kv) (snd kv)))"

lemma set_all_inv: "inv s \<Longrightarrow> inv (set_all kvs s)"
  by (induction kvs arbitrary: s) (auto simp: set_inv)

lemma get_set_all:
  assumes ok: "\<And>s n v. P s \<Longrightarrow> fst (set_var s n v) = 0 \<and> P (snd (set_var s n v))"
  shows "inv s \<Longrightarrow> P s \<Longrightarrow> get (set_all kvs s) m =
    (case map_of (rev kvs) m of Some v \<Rightarrow> Some v | None \<Rightarrow> get s m)"
proof (induction kvs arbitrary: s)
  case (Cons kv kvs)
  let ?s = "snd (set_var s (fst kv) (snd kv))"
  have "inv ?s" "P ?s" "fst (set_var s (fst kv) (snd kv)) = 0"
    using Cons.prems ok [of s] by (auto simp: set_inv)
  then show ?case
    using Cons.IH [of ?s] Cons.prems get_set [of s "fst kv" "snd kv" m]
    by (auto simp: map_add_def split: option.splits)
qed simp

lemma set_unset_get: "inv s \<Longrightarrow> get (snd (unset_var (snd (set_var s n v)) n)) m = (if m = n then None else get s m)"
  by (simp add: get_unset set_inv get_set)

end

end
