(* ===== verification/Nvram.thy ===== *)
theory Nvram
  imports Bcm_Crc Bcm_Str Var_Store
begin

text \<open>
  The NVRAM variable store of src/broadcom/src/shared/nvram/nvram.c (hash table, regeneration and
  parsing of the flash image) and nvram_rw.c (allocation, search of the image, the write to flash).

  A chain of tuples is the list of its tuples.  MALLOC may fail: \<open>oom\<close> lists for the next calls
  whether they fail, and calls beyond the list succeed.  Strings have no NUL.
\<close>

section \<open>State\<close>

record nvram_tuple =
  t_name :: string
  t_value :: string

record nvram_state =
  nvram_hash :: "nvram_tuple list list"
  nvram_dead :: "nvram_tuple list"
  oom :: "bool list"

record nvram_header =
  h_magic :: u32
  h_len :: u32
  crc_ver_init :: u32
  config_refresh :: u32
  config_ncdl :: u32

definition NVRAM_HASH_SIZE :: nat where "NVRAM_HASH_SIZE = 257"
definition NVRAM_MAGIC :: u32 where "NVRAM_MAGIC = 0x48534C46"
definition NVRAM_VERSION :: u32 where "NVRAM_VERSION = 1"
definition NVRAM_SPACE :: nat where "NVRAM_SPACE = 0x8000"
definition NVRAM_CRC_START_POSITION :: nat where "NVRAM_CRC_START_POSITION = 9"
definition NVRAM_CRC_VER_MASK :: u32 where "NVRAM_CRC_VER_MASK = 0xffffff00"
definition NVRAM_HEADER_SIZE :: nat where "NVRAM_HEADER_SIZE = 20"
definition SDRAM_INIT :: u32 where "SDRAM_INIT = 0x419"
definition SDRAM_CONFIG :: u32 where "SDRAM_CONFIG = 0"
definition SDRAM_REFRESH :: u32 where "SDRAM_REFRESH = 0x8040"
definition ENOMEM :: int where "ENOMEM = -12"
definition ENODEV :: int where "ENODEV = -19"

definition MALLOC :: "nvram_state \<Rightarrow> bool \<times> nvram_state" where
  "MALLOC st = (case oom st of [] \<Rightarrow> (True, st) | f # r \<Rightarrow> (\<not> f, st\<lparr>oom := r\<rparr>))"

definition nvram_realloc :: "nvram_state \<Rightarrow> string \<Rightarrow> string \<Rightarrow> nvram_tuple option \<times> nvram_state" where
  "nvram_realloc st name value =
     (let (ok, st) = MALLOC st
      in if ok then (Some \<lparr>t_name = name, t_value = value\<rparr>, st) else (None, st))"

section \<open>The hash table\<close>

text \<open>Characters are signed on the target, so a byte above 127 is added sign-extended.\<close>

definition char_to_uint :: "char \<Rightarrow> u32" where
  "char_to_uint c = scast (of_nat (of_char c) :: u8)"

definition hash :: "string \<Rightarrow> u32" where
  "hash s = foldl (\<lambda>h c. 31 * h + char_to_uint c) 0 s"

definition hash_index :: "string \<Rightarrow> nat" where
  "hash_index name = unat (hash name) mod NVRAM_HASH_SIZE"

text \<open>\<open>for (prev = ..., t = *prev; t && strcmp(t->name, name); ...)\<close>: what stands before the tuple,
  the tuple, and what follows it.\<close>

fun find_tuple :: "nvram_tuple list \<Rightarrow> string \<Rightarrow> (nvram_tuple list \<times> nvram_tuple \<times> nvram_tuple list) option" where
  "find_tuple [] name = None"
| "find_tuple (t # ts) name =
     (if t_name t = name then Some ([], t, ts)
      else map_option (\<lambda>(a, u, b). (t # a, u, b)) (find_tuple ts name))"

definition nvram_get :: "nvram_state \<Rightarrow> string \<Rightarrow> string option" where
  "nvram_get st name =
     (case find_tuple (nvram_hash st ! hash_index name) name of None \<Rightarrow> None | Some (a, t, b) \<Rightarrow> Some (t_value t))"

definition set_bucket :: "nvram_state \<Rightarrow> nat \<Rightarrow> nvram_tuple list \<Rightarrow> nvram_state" where
  "set_bucket st i ts = st\<lparr>nvram_hash := (nvram_hash st)[i := ts]\<rparr>"

text \<open>\<open>*prev = t->next; t->next = nvram_dead; nvram_dead = t;\<close>\<close>

definition bury :: "nvram_state \<Rightarrow> nat \<Rightarrow> string \<Rightarrow> nvram_state" where
  "bury st i name =
     (case find_tuple (nvram_hash st ! i) name of
        None \<Rightarrow> st
      | Some (a, t, b) \<Rightarrow> (set_bucket st i (a @ b))\<lparr>nvram_dead := t # nvram_dead st\<rparr>)"

definition nvram_set :: "nvram_state \<Rightarrow> string \<Rightarrow> string \<Rightarrow> int \<times> nvram_state" where
  "nvram_set st name value =
     (let i = hash_index name;
          (u, st) = nvram_realloc st name value
      in case u of
           None \<Rightarrow> (ENOMEM, st)
         | Some u \<Rightarrow> (let st = bury st i name in (0, set_bucket st i (u # nvram_hash st ! i))))"

definition nvram_unset :: "nvram_state \<Rightarrow> string \<Rightarrow> int \<times> nvram_state" where
  "nvram_unset st name = (0, bury st (hash_index name) name)"

definition nvram_free :: "nvram_state \<Rightarrow> nvram_state" where
  "nvram_free st = st\<lparr>nvram_hash := replicate NVRAM_HASH_SIZE [], nvram_dead := []\<rparr>"

definition entry :: "nvram_tuple \<Rightarrow> string" where
  "entry t = t_name t @ CHR ''='' # t_value t @ [NUL]"

text \<open>The two loops that print the table: a chain is left at the first tuple that does not fit, the
  next chain is still tried.  \<open>fits len t\<close> is the test of the loop.\<close>

fun print_chain :: "(nat \<Rightarrow> nvram_tuple \<Rightarrow> bool) \<Rightarrow> nvram_tuple list \<Rightarrow> string \<Rightarrow> string" where
  "print_chain fits [] out = out"
| "print_chain fits (t # ts) out = (if fits (length out) t then print_chain fits ts (out @ entry t) else out)"

definition print_table :: "(nat \<Rightarrow> nvram_tuple \<Rightarrow> bool) \<Rightarrow> nvram_tuple list list \<Rightarrow> string" where
  "print_table fits tss = foldl (\<lambda>out ts. print_chain fits ts out) [] tss"

definition pad :: "nat \<Rightarrow> string \<Rightarrow> string" where
  "pad n s = s @ replicate (n - length s) NUL"


section \<open>The flash image\<close>

text \<open>The data area is the memory after the header.  None: a read runs past its end.\<close>

function rehash_loop :: "string \<Rightarrow> nvram_state \<Rightarrow> nvram_state option" where
  "rehash_loop name st =
     (case name of
        [] \<Rightarrow> None
      | c # _ \<Rightarrow>
          if c = NUL then Some st
          else (let s = cstring name
                in case strchr s CHR ''='' of
                     None \<Rightarrow> Some st
                   | Some eq \<Rightarrow>
                       (case skip_string name of
                          None \<Rightarrow> None
                        | Some nxt \<Rightarrow> rehash_loop nxt (snd (nvram_set st (take (length s - length eq) s) (tl eq))))))"
  by pat_completeness auto
termination
  by (relation "measure (\<lambda>(s, st). length s)") (auto dest: skip_string_shorter split: if_splits)

declare rehash_loop.simps [simp del]

definition HEX_word :: "nat \<Rightarrow> u32 \<Rightarrow> string" where
  "HEX_word digits w = ''0x'' @ map (\<lambda>i. HEX_digit (unat (drop_bit (4 * i) w AND 0xf))) (rev [0..<digits])"

definition set_default :: "string \<Rightarrow> string \<Rightarrow> nvram_state \<Rightarrow> nvram_state" where
  "set_default name value st = (if nvram_get st name = None then snd (nvram_set st name value) else st)"

definition NVRAM_DATA :: nat where "NVRAM_DATA = NVRAM_SPACE - NVRAM_HEADER_SIZE"

definition nvram_rehash :: "nvram_state \<Rightarrow> nvram_header \<Rightarrow> string \<Rightarrow> nvram_state option" where
  "nvram_rehash st header data = do {
     st \<leftarrow> rehash_loop (take (NVRAM_DATA - 2) data @ [NUL, NUL]) (nvram_free st);
     let st = set_default ''sdram_init'' (HEX_word 4 (drop_bit 16 (crc_ver_init header))) st;
     let st = set_default ''sdram_config'' (HEX_word 4 (config_refresh header AND 0xffff)) st;
     let st = set_default ''sdram_refresh'' (HEX_word 4 (drop_bit 16 (config_refresh header) AND 0xffff)) st;
     Some (set_default ''sdram_ncdl'' (HEX_word 8 (config_ncdl header)) st)
   }"

definition le32 :: "u32 \<Rightarrow> bytes" where
  "le32 w = [ucast w, ucast (drop_bit 8 w), ucast (drop_bit 16 w), ucast (drop_bit 24 w)]"

definition to_bytes :: "string \<Rightarrow> bytes" where
  "to_bytes s = map (\<lambda>c. of_nat (of_char c)) s"

definition nvram_calc_crc :: "nvram_header \<Rightarrow> string \<Rightarrow> u8" where
  "nvram_calc_crc nvh data =
     (let tmp = le32 0 @ le32 0 @ le32 (crc_ver_init nvh AND NVRAM_CRC_VER_MASK)
                @ le32 (config_refresh nvh) @ le32 (config_ncdl nvh);
          crc = hndcrc8 (drop NVRAM_CRC_START_POSITION tmp) CRC8_INIT_VALUE
      in hndcrc8 (to_bytes (take (unat (h_len nvh) - NVRAM_HEADER_SIZE) data)) crc)"

text \<open>The header words from the SDRAM variables, or the built-in values when one is missing.\<close>

definition commit_header :: "nvram_state \<Rightarrow> nvram_header" where
  "commit_header st =
     (let ver = push_bit 8 NVRAM_VERSION
      in case (nvram_get st ''sdram_init'', nvram_get st ''sdram_config'',
               nvram_get st ''sdram_refresh'', nvram_get st ''sdram_ncdl'') of
           (Some init, Some config, Some refresh, Some ncdl) \<Rightarrow>
             \<lparr>h_magic = NVRAM_MAGIC, h_len = 0,
              crc_ver_init = ver OR push_bit 16 (fst (bcm_strtoul init 0) AND 0xffff),
              config_refresh = (fst (bcm_strtoul config 0) AND 0xffff) OR push_bit 16 (fst (bcm_strtoul refresh 0) AND 0xffff),
              config_ncdl = fst (bcm_strtoul ncdl 0)\<rparr>
         | _ \<Rightarrow>
             \<lparr>h_magic = NVRAM_MAGIC, h_len = 0,
              crc_ver_init = ver OR push_bit 16 SDRAM_INIT,
              config_refresh = SDRAM_CONFIG OR push_bit 16 SDRAM_REFRESH, config_ncdl = 0\<rparr>)"

definition ROUNDUP :: "nat \<Rightarrow> nat \<Rightarrow> nat" where
  "ROUNDUP x y = (x + (y - 1)) div y * y"

definition commit_fits :: "nat \<Rightarrow> nvram_tuple \<Rightarrow> bool" where
  "commit_fits len t =
     (\<not> NVRAM_HEADER_SIZE + len + length (t_name t) + 1 + length (t_value t) + 1 > NVRAM_SPACE - 2)"

definition nvram_image :: "nvram_state \<Rightarrow> nvram_header \<times> string" where
  "nvram_image st =
     (let out = print_table commit_fits (nvram_hash st);
          data = pad NVRAM_DATA out;
          header = (commit_header st)\<lparr>h_len := of_nat (ROUNDUP (NVRAM_HEADER_SIZE + length out + 2) 4)\<rparr>
      in (header\<lparr>crc_ver_init := crc_ver_init header OR ucast (nvram_calc_crc header data)\<rparr>, data))"

definition nvram_regen :: "nvram_state \<Rightarrow> (nvram_header \<times> string \<times> nvram_state) option" where
  "nvram_regen st = do {
     let (header, data) = nvram_image st;
     st \<leftarrow> nvram_rehash st header data;
     Some (header, data, st)
   }"

section \<open>Reading and writing the flash\<close>

definition SB_FLASH1_SZ :: nat where "SB_FLASH1_SZ = 0x00400000"
definition SB_FLASH2_SZ :: nat where "SB_FLASH2_SZ = 0x02000000"
definition FLASH_MIN :: nat where "FLASH_MIN = 0x00020000"

text \<open>The flash as the loader maps it: the header and the data area found at an offset.\<close>

record flash =
  flash_hdr :: "nat \<Rightarrow> nvram_header"
  flash_data :: "nat \<Rightarrow> string"

function find_nvram_scan :: "flash \<Rightarrow> nat \<Rightarrow> nat \<Rightarrow> nat option" where
  "find_nvram_scan fl lim off =
     (if 0 < off \<and> off \<le> lim
      then (if h_magic (flash_hdr fl (off - NVRAM_SPACE)) = NVRAM_MAGIC then Some (off - NVRAM_SPACE)
            else find_nvram_scan fl lim (2 * off))
      else None)"
  by pat_completeness auto
termination
  by (relation "measure (\<lambda>(fl, lim, off). Suc lim - off)") auto

declare find_nvram_scan.simps [simp del]

text \<open>The header found, and *isemb.\<close>

definition find_nvram :: "flash \<Rightarrow> nat \<Rightarrow> bool \<Rightarrow> (nat \<times> bool) option" where
  "find_nvram fl lim embonly =
     (case (if embonly then None else find_nvram_scan fl lim FLASH_MIN) of
        Some off \<Rightarrow> Some (off, False)
      | None \<Rightarrow>
          if h_magic (flash_hdr fl 4096) = NVRAM_MAGIC then Some (4096, True)
          else if h_magic (flash_hdr fl 1024) = NVRAM_MAGIC then Some (1024, True)
          else None)"

text \<open>\<open>_nvram_read\<close> into a fresh buffer: the header, then whole words up to the length in the header; the
  rest of the buffer is what the allocation left there.\<close>

definition nvram_read :: "flash \<Rightarrow> nat option \<Rightarrow> string \<Rightarrow> (nvram_header \<times> string) option" where
  "nvram_read fl nvram_header garbage =
     (case nvram_header of
        None \<Rightarrow> None
      | Some off \<Rightarrow>
          (let h = flash_hdr fl off;
               n = min (ROUNDUP (unat (h_len h) - NVRAM_HEADER_SIZE) 4) NVRAM_DATA
           in Some (h, take n (flash_data fl off) @ drop n garbage)))"

text \<open>\<open>_nvram_init\<close>; None is a read past the buffer.\<close>

definition nvram_load :: "flash \<Rightarrow> nat option \<Rightarrow> string \<Rightarrow> nvram_state \<Rightarrow> (int \<times> nvram_state) option" where
  "nvram_load fl nvram_header garbage st =
     (let (ok, st) = MALLOC st
      in if \<not> ok then Some (ENOMEM, st)
         else case nvram_read fl nvram_header garbage of
                None \<Rightarrow> Some (ENODEV, st)
              | Some (header, data) \<Rightarrow>
                  if h_magic header = NVRAM_MAGIC
                  then do { st \<leftarrow> nvram_rehash st header data; Some (0, st) }
                  else Some (0, st))"

text \<open>\<open>nvram_reset\<close>: the button is held when the GPIO of the variable reset_gpio stays low for 5000 reads;
  \<open>gpioin\<close> gives the successive values of the GPIO register.\<close>

definition nvram_resetgpio :: "nvram_state \<Rightarrow> int" where
  "nvram_resetgpio st =
     (case nvram_get st ''reset_gpio'' of
        None \<Rightarrow> -1
      | Some value \<Rightarrow> (let gpio = bcm_atoi value in if gpio > 7 then -1 else gpio))"

definition nvram_reset :: "(nat \<Rightarrow> u32) \<Rightarrow> nvram_state \<Rightarrow> bool" where
  "nvram_reset gpioin st =
     (let gpio = nvram_resetgpio st
      in if gpio < 0 then False else list_all (\<lambda>msec. \<not> bit (gpioin msec) (nat gpio)) [0..<5000])"

definition nvram_exit :: "nvram_state \<Rightarrow> nvram_state" where
  "nvram_exit st = nvram_free st"

definition nvram_init ::
    "flash \<Rightarrow> bool \<Rightarrow> (nat \<Rightarrow> u32) \<Rightarrow> string \<Rightarrow> string \<Rightarrow> nvram_state \<Rightarrow> (int \<times> nvram_state) option" where
  "nvram_init fl has_cc gpioin garbage1 garbage2 st = do {
     let lim = (if has_cc then SB_FLASH2_SZ else SB_FLASH1_SZ);
     (ret, st) \<leftarrow> nvram_load fl (map_option fst (find_nvram fl lim True)) garbage1 st;
     if ret = 0 \<and> nvram_reset gpioin st then Some (1, st)
     else do {
       let st = (if ret = 0 then nvram_exit st else st);
       let nvh = find_nvram fl lim False;
       (ret, st) \<leftarrow> nvram_load fl (map_option fst nvh) garbage2 st;
       Some (if ret = 0 \<and> (case nvh of Some (_, isemb) \<Rightarrow> isemb | None \<Rightarrow> False) then 1 else ret, st)
     }
   }"

text \<open>
  \<open>nvram_commit\<close> as the boot loader builds it: \<open>handle\<close> is what cfe_open returns for the NVRAM device.  The result
  has the return value and the bytes that are handed to cfe_writeblk at offset 0, if the device was opened: the header and
  the data area up to the length in the header.  The result of the write is ignored.  (The loop over the data words with
  htol32 changes nothing on the little-endian board.)
\<close>

definition nvram_commit :: "int \<Rightarrow> nvram_state \<Rightarrow> (int \<times> (nvram_header \<times> string) option \<times> nvram_state) option" where
  "nvram_commit handle st =
     (let (ok, st) = MALLOC st
      in if \<not> ok then Some (ENOMEM, None, st)
         else do {
           (header, data, st) \<leftarrow> nvram_regen st;
           Some (handle, if handle \<ge> 0 then Some (header, take (unat (h_len header) - NVRAM_HEADER_SIZE) data) else None, st)
         })"

section \<open>Invariant and the contract of the store\<close>

definition chain_ok :: "nat \<Rightarrow> nvram_tuple list \<Rightarrow> bool" where
  "chain_ok i ts = (distinct (map t_name ts) \<and> (\<forall>t\<in>set ts. hash_index (t_name t) = i))"

definition nvram_inv :: "nvram_state \<Rightarrow> bool" where
  "nvram_inv st = (length (nvram_hash st) = NVRAM_HASH_SIZE \<and> (\<forall>i<NVRAM_HASH_SIZE. chain_ok i (nvram_hash st ! i)))"

lemma find_tuple_None: "find_tuple ts name = None \<longleftrightarrow> name \<notin> t_name ` set ts"
  by (induction ts) auto

lemma find_tuple_Some: "find_tuple ts name = Some (a, t, b) \<Longrightarrow> ts = a @ t # b \<and> t_name t = name \<and> name \<notin> t_name ` set a"
  by (induction ts arbitrary: a) (auto split: if_splits)

lemma find_tuple_append:
  "name \<notin> t_name ` set a \<Longrightarrow> t_name t = name \<Longrightarrow> find_tuple (a @ t # b) name = Some (a, t, b)"
  by (induction a) auto

text \<open>The value a chain gives to a name.\<close>

fun lookup :: "nvram_tuple list \<Rightarrow> string \<Rightarrow> string option" where
  "lookup [] n = None"
| "lookup (t # ts) n = (if t_name t = n then Some (t_value t) else lookup ts n)"

lemma lookup_append: "lookup (a @ b) n = (case lookup a n of None \<Rightarrow> lookup b n | Some v \<Rightarrow> Some v)"
  by (induction a) auto

lemma lookup_None: "lookup ts n = None \<longleftrightarrow> n \<notin> t_name ` set ts"
  by (induction ts) auto

lemma lookup_remove: "m \<noteq> t_name t \<Longrightarrow> lookup (a @ t # b) m = lookup (a @ b) m"
  by (auto simp: lookup_append split: option.split)

lemma nvram_get_lookup: "nvram_get st name = lookup (nvram_hash st ! hash_index name) name"
proof -
  have "(case find_tuple ts name of None \<Rightarrow> None | Some (a, t, b) \<Rightarrow> Some (t_value t)) = lookup ts name" for ts
    by (induction ts) (auto split: option.splits)
  then show ?thesis by (simp add: nvram_get_def)
qed

lemma hash_index_less: "hash_index n < NVRAM_HASH_SIZE"
  by (simp add: hash_index_def NVRAM_HASH_SIZE_def)

lemma nvram_inv_set_bucket:
  "nvram_inv st \<Longrightarrow> chain_ok i ts \<Longrightarrow> nvram_inv (set_bucket st i ts)"
  by (simp add: nvram_inv_def set_bucket_def nth_list_update)
     (metis (no_types, lifting) list_update_beyond not_le nth_list_update)

lemma bury_bucket:
  assumes "nvram_inv st"
  shows "nvram_inv (bury st (hash_index n) n)"
    and "nvram_get (bury st (hash_index n) n) m = (if m = n then None else nvram_get st m)"
    and "n \<notin> t_name ` set (nvram_hash (bury st (hash_index n) n) ! hash_index n)"
proof -
  let ?i = "hash_index n" and ?ts = "nvram_hash st ! hash_index n"
  have i: "?i < length (nvram_hash st)" using assms hash_index_less by (simp add: nvram_inv_def)
  have ok: "chain_ok ?i ?ts" using assms hash_index_less by (simp add: nvram_inv_def)
  have "nvram_inv (bury st ?i n) \<and> nvram_get (bury st ?i n) m = (if m = n then None else nvram_get st m)
    \<and> n \<notin> t_name ` set (nvram_hash (bury st ?i n) ! ?i)"
  proof (cases "find_tuple ?ts n")
    case None
    then have n: "n \<notin> t_name ` set ?ts" by (simp add: find_tuple_None)
    then have "nvram_get st n = None" using None by (simp add: nvram_get_def)
    then show ?thesis using None assms n by (simp add: bury_def)
  next
    case (Some x)
    obtain a t b where x: "x = (a, t, b)" by (cases x)
    then have ts: "?ts = a @ t # b" "t_name t = n" using Some find_tuple_Some by blast+
    have ok': "chain_ok ?i (a @ b)" and n: "n \<notin> t_name ` set (a @ b)" using ok ts by (auto simp: chain_ok_def)
    have eq: "bury st ?i n = (set_bucket st ?i (a @ b))\<lparr>nvram_dead := t # nvram_dead st\<rparr>"
      using Some x by (simp add: bury_def)
    have h: "nvram_hash (bury st ?i n) = (nvram_hash st)[?i := a @ b]" by (simp add: eq set_bucket_def)
    have "nvram_inv (bury st ?i n)"
      using nvram_inv_set_bucket [OF assms ok'] by (simp add: eq nvram_inv_def)
    moreover have "nvram_get (bury st ?i n) m = (if m = n then None else nvram_get st m)"
    proof (cases "hash_index m = ?i")
      case True
      have "lookup (a @ b) n = None" using n by (simp add: lookup_None)
      then show ?thesis
        using True i ts lookup_remove [of m t a b] by (auto simp: nvram_get_lookup h)
    qed (auto simp: nvram_get_lookup h)
    ultimately show ?thesis using n i by (simp add: h)
  qed
  then show "nvram_inv (bury st ?i n)" "nvram_get (bury st ?i n) m = (if m = n then None else nvram_get st m)"
    "n \<notin> t_name ` set (nvram_hash (bury st ?i n) ! ?i)" by blast+
qed


lemma set_bucket_get:
  assumes "hash_index n < length (nvram_hash st)" "hash_index n = i" "t_name u = n"
  shows "nvram_get (set_bucket st i (u # nvram_hash st ! i)) m =
    (if m = n then Some (t_value u) else nvram_get st m)"
  using assms by (cases "hash_index m = i") (auto simp: nvram_get_lookup set_bucket_def)

lemma MALLOC_frame [simp]:
  "nvram_hash (snd (MALLOC st)) = nvram_hash st" "nvram_dead (snd (MALLOC st)) = nvram_dead st"
  by (auto simp: MALLOC_def split: list.split)

lemma nvram_inv_cong: "nvram_hash st = nvram_hash st' \<Longrightarrow> nvram_inv st = nvram_inv st'"
  by (simp add: nvram_inv_def)

lemma nvram_get_cong: "nvram_hash st = nvram_hash st' \<Longrightarrow> nvram_get st = nvram_get st'"
  by (rule ext) (simp add: nvram_get_lookup)

text \<open>The state after a set, when MALLOC succeeds and when it fails.\<close>

lemma nvram_set_eq:
  "nvram_set st n v =
     (if fst (MALLOC st)
      then (0, let s = bury (snd (MALLOC st)) (hash_index n) n
               in set_bucket s (hash_index n) (\<lparr>t_name = n, t_value = v\<rparr> # nvram_hash s ! hash_index n))
      else (ENOMEM, snd (MALLOC st)))"
  by (cases "MALLOC st") (simp add: nvram_set_def nvram_realloc_def Let_def)

lemma nvram_set_inv:
  assumes "nvram_inv st"
  shows "nvram_inv (snd (nvram_set st n v))"
proof -
  let ?m = "snd (MALLOC st)" and ?s = "bury (snd (MALLOC st)) (hash_index n) n"
  have m: "nvram_inv ?m" using assms nvram_inv_cong [of ?m st] by simp
  note b = bury_bucket [OF m, of n]
  have "chain_ok (hash_index n) (nvram_hash ?s ! hash_index n)" using b(1) hash_index_less by (simp add: nvram_inv_def)
  then have "chain_ok (hash_index n) (\<lparr>t_name = n, t_value = v\<rparr> # nvram_hash ?s ! hash_index n)"
    using b(3) by (simp add: chain_ok_def)
  then show ?thesis using m b(1) nvram_inv_set_bucket by (simp add: nvram_set_eq Let_def)
qed

lemma nvram_get_set:
  assumes "nvram_inv st"
  shows "nvram_get (snd (nvram_set st n v)) m = (if fst (nvram_set st n v) = 0 \<and> m = n then Some v else nvram_get st m)"
proof -
  let ?m = "snd (MALLOC st)" and ?s = "bury (snd (MALLOC st)) (hash_index n) n"
  have m: "nvram_inv ?m" using assms nvram_inv_cong [of ?m st] by simp
  note b = bury_bucket [OF m, of n]
  have "hash_index n < length (nvram_hash ?s)" using b(1) hash_index_less by (simp add: nvram_inv_def)
  from set_bucket_get [OF this refl, of "\<lparr>t_name = n, t_value = v\<rparr>" m] show ?thesis
    using b(2) [of m] nvram_get_cong [of ?m st] by (auto simp: nvram_set_eq Let_def ENOMEM_def)
qed

interpretation nv: var_store nvram_inv nvram_get nvram_set nvram_unset
  by unfold_locales
     (simp_all add: nvram_set_inv nvram_get_set nvram_unset_def bury_bucket)


section \<open>Printing and parsing the table\<close>

lemma entry_length [simp]: "length (entry t) = length (t_name t) + length (t_value t) + 2"
  by (simp add: entry_def)

definition bounded_by :: "nat \<Rightarrow> (nat \<Rightarrow> nvram_tuple \<Rightarrow> bool) \<Rightarrow> bool" where
  "bounded_by L fits \<longleftrightarrow> (\<forall>len t. fits len t \<longleftrightarrow> len + length (entry t) \<le> L)"

lemma print_chain_sound:
  assumes "bounded_by L fits"
  shows "length out \<le> L \<Longrightarrow>
    \<exists>us. subseq us ts \<and> print_chain fits ts out = out @ concat (map entry us) \<and> length (print_chain fits ts out) \<le> L"
proof (induction ts arbitrary: out)
  case Nil
  then show ?case by (intro exI [of _ "[]"]) simp
next
  case (Cons t ts)
  show ?case
  proof (cases "fits (length out) t")
    case True
    then have "length (out @ entry t) \<le> L" using assms by (simp add: bounded_by_def)
    from Cons.IH [OF this] obtain us where us: "subseq us ts"
        "print_chain fits ts (out @ entry t) = (out @ entry t) @ concat (map entry us)"
        "length (print_chain fits ts (out @ entry t)) \<le> L" by blast
    then have "subseq (t # us) (t # ts) \<and> print_chain fits (t # ts) out = out @ concat (map entry (t # us))
        \<and> length (print_chain fits (t # ts) out) \<le> L" using True by simp
    then show ?thesis by blast
  next
    case False
    then have "subseq [] (t # ts) \<and> print_chain fits (t # ts) out = out @ concat (map entry [])
        \<and> length (print_chain fits (t # ts) out) \<le> L" using Cons.prems by simp
    then show ?thesis by blast
  qed
qed

lemma print_chain_all:
  assumes "bounded_by L fits"
  shows "length out + length (concat (map entry ts)) \<le> L \<Longrightarrow> print_chain fits ts out = out @ concat (map entry ts)"
proof (induction ts arbitrary: out)
  case (Cons t ts)
  then have "fits (length out) t" using assms by (simp add: bounded_by_def)
  then show ?case using Cons by simp
qed simp

text \<open>Whatever the table holds, the text is the concatenation of whole entries of some of its tuples,
  in table order, and keeps the bound; it has all of them when all fit.\<close>

lemma print_table_sound:
  assumes "bounded_by L fits"
  shows "\<exists>us. subseq us (concat tss) \<and> print_table fits tss = concat (map entry us) \<and> length (print_table fits tss) \<le> L"
proof -
  have "\<exists>us. subseq us (concat tss) \<and> foldl (\<lambda>out ts. print_chain fits ts out) out tss = out @ concat (map entry us)
      \<and> length (foldl (\<lambda>out ts. print_chain fits ts out) out tss) \<le> L" if "length out \<le> L" for out
    using that
  proof (induction tss arbitrary: out)
    case Nil
    then show ?case by (intro exI [of _ "[]"]) simp
  next
    case (Cons ts tss)
    obtain us where us: "subseq us ts" "print_chain fits ts out = out @ concat (map entry us)"
        "length (print_chain fits ts out) \<le> L" using print_chain_sound [OF assms Cons.prems] by blast
    obtain vs where vs: "subseq vs (concat tss)"
        "foldl (\<lambda>out ts. print_chain fits ts out) (print_chain fits ts out) tss = print_chain fits ts out @ concat (map entry vs)"
        "length (foldl (\<lambda>out ts. print_chain fits ts out) (print_chain fits ts out) tss) \<le> L"
      using Cons.IH [OF us(3)] by blast
    have "subseq (us @ vs) (concat (ts # tss))" using us(1) vs(1) by (simp add: list_emb_append_mono)
    then show ?case using us vs by (intro exI [of _ "us @ vs"]) simp
  qed
  from this [of "[]"] show ?thesis by (simp add: print_table_def)
qed

lemma print_table_all:
  assumes "bounded_by L fits" "length (concat (map entry (concat tss))) \<le> L"
  shows "print_table fits tss = concat (map entry (concat tss))"
proof -
  have "foldl (\<lambda>out ts. print_chain fits ts out) out tss = out @ concat (map entry (concat tss))"
    if "length out + length (concat (map entry (concat tss))) \<le> L" for out
    using that
  proof (induction tss arbitrary: out)
    case (Cons ts tss)
    then have "print_chain fits ts out = out @ concat (map entry ts)"
      by (intro print_chain_all [OF assms(1)]) simp
    then show ?case using Cons by simp
  qed simp
  from this [of "[]"] assms(2) show ?thesis by (simp add: print_table_def)
qed

lemma commit_fits_bounded: "bounded_by (NVRAM_DATA - 2) commit_fits"
  by (auto simp: bounded_by_def commit_fits_def NVRAM_DATA_def NVRAM_SPACE_def NVRAM_HEADER_SIZE_def)


definition wf_tuple :: "nvram_tuple \<Rightarrow> bool" where
  "wf_tuple t = (t_name t \<noteq> [] \<and> CHR ''='' \<notin> set (t_name t) \<and> NUL \<notin> set (t_name t) \<and> NUL \<notin> set (t_value t))"

abbreviation tuple_pair :: "nvram_tuple \<Rightarrow> string \<times> string" where
  "tuple_pair t \<equiv> (t_name t, t_value t)"

lemma rehash_loop_entry:
  assumes "wf_tuple t"
  shows "rehash_loop (entry t @ rest) st = rehash_loop rest (snd (nvram_set st (t_name t) (t_value t)))"
proof -
  let ?s = "t_name t @ CHR ''='' # t_value t"
  have e: "entry t @ rest = ?s @ NUL # rest" by (simp add: entry_def)
  have nn: "NUL \<notin> set ?s" using assms by (auto simp: wf_tuple_def)
  obtain c cs where c: "t_name t = c # cs" "c \<noteq> NUL" using assms by (cases "t_name t") (auto simp: wf_tuple_def)
  have sc: "strchr ?s CHR ''='' = Some (CHR ''='' # t_value t)"
    using assms by (intro strchr_append) (simp add: wf_tuple_def)
  show ?thesis
    unfolding e using c sc cstring_append [OF nn, of rest] skip_string_append [OF nn, of rest]
    by (subst rehash_loop.simps) (simp add: Let_def)
qed

lemma rehash_loop_entries:
  "list_all wf_tuple ts \<Longrightarrow> rehash_loop (concat (map entry ts) @ NUL # rest) st = Some (nv.set_all (map tuple_pair ts) st)"
proof (induction ts arbitrary: st)
  case Nil
  then show ?case by (subst rehash_loop.simps) simp
next
  case (Cons t ts)
  then show ?case using rehash_loop_entry [of t "concat (map entry ts) @ NUL # rest" st] by simp
qed

lemma MALLOC_ok: "oom st = [] \<Longrightarrow> MALLOC st = (True, st)"
  by (simp add: MALLOC_def)

lemma nvram_set_ok:
  assumes "oom st = []"
  shows "fst (nvram_set st n v) = 0 \<and> oom (snd (nvram_set st n v)) = []"
  using assms by (simp add: nvram_set_eq MALLOC_ok Let_def set_bucket_def bury_def split: option.split)

lemma nvram_free_props:
  "nvram_inv (nvram_free st)" "nvram_get (nvram_free st) n = None" "oom (nvram_free st) = oom st"
  using hash_index_less [of n] by (simp_all add: nvram_inv_def nvram_free_def chain_ok_def nvram_get_lookup)

lemma map_of_rev_distinct: "distinct (map fst xs) \<Longrightarrow> map_of (rev xs) = map_of xs"
proof
  fix k assume d: "distinct (map fst xs)"
  then have "distinct (map fst (rev xs))" by (simp add: rev_map [symmetric])
  with d have "map_of (rev xs) k = Some v \<longleftrightarrow> map_of xs k = Some v" for v by simp
  then show "map_of (rev xs) k = map_of xs k" by (metis not_Some_eq)
qed

lemma map_of_rev_pairs:
  "distinct (map t_name ts) \<Longrightarrow> map_of (rev (map tuple_pair ts)) n = lookup ts n"
proof -
  assume d: "distinct (map t_name ts)"
  have "map fst (map tuple_pair ts) = map t_name ts" by simp
  then have "map_of (rev (map tuple_pair ts)) = map_of (map tuple_pair ts)"
    using d by (metis map_of_rev_distinct)
  moreover have "map_of (map tuple_pair ts) n = lookup ts n" by (induction ts) auto
  ultimately show ?thesis by simp
qed

lemma lookup_concat:
  assumes "i < length tss" "\<And>j. j < length tss \<Longrightarrow> j \<noteq> i \<Longrightarrow> n \<notin> t_name ` set (tss ! j)"
  shows "lookup (concat tss) n = lookup (tss ! i) n"
proof -
  have "lookup (concat xs) n = None" if "\<And>ts. ts \<in> set xs \<Longrightarrow> n \<notin> t_name ` set ts" for xs
    using that by (auto simp: lookup_None)
  moreover have "n \<notin> t_name ` set ts" if mem: "ts \<in> set (take i tss)" for ts
  proof -
    obtain j where "j < length (take i tss)" "ts = take i tss ! j" using mem unfolding in_set_conv_nth by blast
    then show ?thesis using assms(2) [of j] by simp
  qed
  moreover have "n \<notin> t_name ` set ts" if mem: "ts \<in> set (drop (Suc i) tss)" for ts
  proof -
    obtain j where "j < length (drop (Suc i) tss)" "ts = drop (Suc i) tss ! j" using mem unfolding in_set_conv_nth by blast
    then show ?thesis using assms(2) [of "Suc i + j"] by simp
  qed
  ultimately have "lookup (concat (take i tss)) n = None" "lookup (concat (drop (Suc i) tss)) n = None" by blast+
  then show ?thesis
    unfolding concat_nth_split [OF assms(1)] by (simp add: lookup_append split: option.split)
qed

lemma disjoint_images:
  "(\<And>x. x \<in> A \<Longrightarrow> h (f x) = i) \<Longrightarrow> (\<And>x. x \<in> B \<Longrightarrow> h (f x) = j) \<Longrightarrow> i \<noteq> j \<Longrightarrow> f ` A \<inter> f ` B = {}"
  by (auto) (metis)

lemma distinct_concat_map:
  assumes "\<And>i. i < length tss \<Longrightarrow> distinct (map f (tss ! i))"
    and "\<And>i j. i < length tss \<Longrightarrow> j < length tss \<Longrightarrow> i \<noteq> j \<Longrightarrow> f ` set (tss ! i) \<inter> f ` set (tss ! j) = {}"
  shows "distinct (map f (concat tss))"
  using assms
proof (induction tss)
  case (Cons ts tss)
  have "distinct (map f (concat tss))"
  proof (rule Cons.IH)
    show "distinct (map f (tss ! i))" if "i < length tss" for i using Cons.prems(1) [of "Suc i"] that by simp
    show "f ` set (tss ! i) \<inter> f ` set (tss ! j) = {}" if "i < length tss" "j < length tss" "i \<noteq> j" for i j
      using Cons.prems(2) [of "Suc i" "Suc j"] that by simp
  qed
  moreover have "f ` set ts \<inter> f ` set us = {}" if mem: "us \<in> set tss" for us
  proof -
    obtain j where "j < length tss" "us = tss ! j" using mem unfolding in_set_conv_nth by blast
    then show ?thesis using Cons.prems(2) [of 0 "Suc j"] by simp
  qed
  moreover have "distinct (map f ts)" using Cons.prems(1) [of 0] by simp
  ultimately have "distinct (map f ts @ map f (concat tss))" unfolding distinct_append by fastforce
  then show ?case by simp
qed simp

lemma nvram_inv_tuples:
  assumes "nvram_inv st"
  shows "distinct (map t_name (concat (nvram_hash st)))" and "lookup (concat (nvram_hash st)) n = nvram_get st n"
proof -
  have chain: "distinct (map t_name (nvram_hash st ! i))" "\<And>t. t \<in> set (nvram_hash st ! i) \<Longrightarrow> hash_index (t_name t) = i"
    if "i < length (nvram_hash st)" for i
    using assms that by (simp_all add: nvram_inv_def chain_ok_def)
  show "distinct (map t_name (concat (nvram_hash st)))"
  proof (rule distinct_concat_map)
    show "t_name ` set (nvram_hash st ! i) \<inter> t_name ` set (nvram_hash st ! j) = {}"
      if "i < length (nvram_hash st)" "j < length (nvram_hash st)" "i \<noteq> j" for i j
      by (rule disjoint_images [where h = hash_index, OF chain(2) [OF that(1)] chain(2) [OF that(2)] that(3)])
  qed (rule chain(1))
  have "hash_index n < length (nvram_hash st)" using assms hash_index_less by (simp add: nvram_inv_def)
  then show "lookup (concat (nvram_hash st)) n = nvram_get st n"
    using chain(2) unfolding nvram_get_lookup by (intro lookup_concat) auto
qed

text \<open>Parsing a data area that holds the entries of tuples with distinct names.\<close>

lemma rehash_loop_get:
  assumes "list_all wf_tuple ts" "distinct (map t_name ts)" "oom st = []"
  shows "\<exists>st'. rehash_loop (concat (map entry ts) @ NUL # rest) (nvram_free st) = Some st' \<and> nvram_inv st'
    \<and> oom st' = [] \<and> (\<forall>n. nvram_get st' n = lookup ts n)"
proof -
  let ?f = "nvram_free st" and ?kvs = "map tuple_pair ts"
  have ok: "fst (nvram_set s n v) = 0 \<and> oom (snd (nvram_set s n v)) = []" if "oom s = []" for s n v
    using nvram_set_ok [OF that] .
  have "oom (nv.set_all kvs s) = []" if "oom s = []" for kvs s
    using that by (induction kvs arbitrary: s) (auto simp: ok)
  moreover have "nvram_get (nv.set_all ?kvs ?f) n = lookup ts n" for n
    using nv.get_set_all [where P = "\<lambda>s. oom s = []", OF ok nvram_free_props(1), of st ?kvs n] assms(2,3)
      map_of_rev_pairs [of ts n] nvram_free_props(2,3) [of st]
    by (auto split: option.splits)
  ultimately show ?thesis
    using rehash_loop_entries [OF assms(1), of rest ?f] nv.set_all_inv [OF nvram_free_props(1)] assms(3)
      nvram_free_props(3) [of st] by auto
qed

lemma set_default_get:
  assumes "nvram_inv st" "oom st = []"
  shows "nvram_inv (set_default n v st)" "oom (set_default n v st) = []"
    "nvram_get st m = Some w \<Longrightarrow> nvram_get (set_default n v st) m = Some w"
    "m \<noteq> n \<Longrightarrow> nvram_get (set_default n v st) m = nvram_get st m"
  using assms nvram_set_ok [OF assms(2)] nvram_set_inv nvram_get_set
  by (auto simp: set_default_def)


section \<open>Committing and reading back\<close>

definition sdram_names :: "string list" where
  "sdram_names = [''sdram_init'', ''sdram_config'', ''sdram_refresh'', ''sdram_ncdl'']"

text \<open>A state whose variables all fit into the flash image.\<close>

definition committable :: "nvram_state \<Rightarrow> bool" where
  "committable st \<longleftrightarrow> nvram_inv st \<and> list_all wf_tuple (concat (nvram_hash st))
     \<and> length (concat (map entry (concat (nvram_hash st)))) \<le> NVRAM_DATA - 2"

lemma NVRAM_DATA_val: "NVRAM_DATA = 32748"
  by (simp add: NVRAM_DATA_def NVRAM_SPACE_def NVRAM_HEADER_SIZE_def)

definition set_defaults :: "(string \<times> string) list \<Rightarrow> nvram_state \<Rightarrow> nvram_state" where
  "set_defaults kvs st = foldl (\<lambda>s (n, v). set_default n v s) st kvs"

lemma set_defaults_get:
  "nvram_inv s \<Longrightarrow> oom s = [] \<Longrightarrow> nvram_inv (set_defaults kvs s) \<and> oom (set_defaults kvs s) = []
     \<and> (\<forall>m. m \<notin> fst ` set kvs \<or> nvram_get s m \<noteq> None \<longrightarrow> nvram_get (set_defaults kvs s) m = nvram_get s m)"
proof (induction kvs arbitrary: s)
  case (Cons kv kvs)
  obtain n v where kv: "kv = (n, v)" by (cases kv)
  let ?s = "set_default n v s"
  note sd = set_default_get [OF Cons.prems, where n = n and v = v]
  have step: "set_defaults (kv # kvs) s = set_defaults kvs ?s" by (simp add: set_defaults_def kv)
  note IH = Cons.IH [OF sd(1,2)]
  have "nvram_get (set_defaults kvs ?s) m = nvram_get s m" if "m \<notin> fst ` set (kv # kvs) \<or> nvram_get s m \<noteq> None" for m
  proof (cases "nvram_get s m")
    case None
    then have "m \<noteq> n" "m \<notin> fst ` set kvs" using that by (auto simp: kv)
    then show ?thesis using IH sd(4) [where m = m] by simp
  next
    case (Some w)
    then show ?thesis using IH sd(3) [OF Some] by simp
  qed
  then show ?case using IH unfolding step by blast
qed (simp add: set_defaults_def)

text \<open>The parse of any buffer that starts with the printed table and a NUL.\<close>

lemma nvram_rehash_get:
  assumes "committable st" "oom st' = []"
    and data: "data = concat (map entry (concat (nvram_hash st))) @ NUL # rest"
  shows "\<exists>st2. nvram_rehash st' h data = Some st2 \<and> nvram_inv st2 \<and> oom st2 = [] \<and>
    (\<forall>n. n \<notin> set sdram_names \<or> nvram_get st n \<noteq> None \<longrightarrow> nvram_get st2 n = nvram_get st n)"
proof -
  let ?ts = "concat (nvram_hash st)" and ?out = "concat (map entry (concat (nvram_hash st)))"
  have inv: "nvram_inv st" and wf: "list_all wf_tuple ?ts" and len: "length ?out \<le> NVRAM_DATA - 2"
    using assms(1) by (auto simp: committable_def)
  have "take (NVRAM_DATA - 2) data @ [NUL, NUL] = ?out @ take (NVRAM_DATA - 2 - length ?out) (NUL # rest) @ [NUL, NUL]"
    using len by (simp add: data)
  moreover have "\<exists>r. take k (NUL # rest) @ [NUL, NUL] = NUL # r" for k by (cases k) auto
  ultimately obtain r where "take (NVRAM_DATA - 2) data @ [NUL, NUL] = ?out @ NUL # r" by metis
  then obtain st1 where st1: "rehash_loop (take (NVRAM_DATA - 2) data @ [NUL, NUL]) (nvram_free st') = Some st1"
      "nvram_inv st1" "oom st1 = []" "\<And>n. nvram_get st1 n = nvram_get st n"
    using rehash_loop_get [OF wf nvram_inv_tuples(1) [OF inv] assms(2)] nvram_inv_tuples(2) [OF inv] by force
  define d where "d = [(''sdram_init'', HEX_word 4 (drop_bit 16 (crc_ver_init h))),
    (''sdram_config'', HEX_word 4 (config_refresh h AND 0xffff)),
    (''sdram_refresh'', HEX_word 4 (drop_bit 16 (config_refresh h) AND 0xffff)), (''sdram_ncdl'', HEX_word 8 (config_ncdl h))]"
  have eq: "nvram_rehash st' h data = Some (foldl (\<lambda>s (n, v). set_default n v s) st1 d)"
    using st1(1) by (simp add: nvram_rehash_def d_def)
  have "fst ` set d = set sdram_names" by (simp add: d_def sdram_names_def)
  then show ?thesis using set_defaults_get [OF st1(2,3), of d] st1(4) eq by (simp add: set_defaults_def)
qed

lemma pad_NUL:
  assumes "length out \<le> n - 2" "2 \<le> n"
  shows "\<exists>rest. pad n out = out @ NUL # rest"
proof -
  obtain k where "n - length out = Suc k" using assms by (cases "n - length out") auto
  then show ?thesis by (simp add: pad_def)
qed

lemma nvram_image_data:
  assumes "committable st"
  shows "\<exists>rest. snd (nvram_image st) = concat (map entry (concat (nvram_hash st))) @ NUL # rest"
    and "print_table commit_fits (nvram_hash st) = concat (map entry (concat (nvram_hash st)))"
proof -
  show p: "print_table commit_fits (nvram_hash st) = concat (map entry (concat (nvram_hash st)))"
    using assms by (intro print_table_all [OF commit_fits_bounded]) (simp add: committable_def)
  show "\<exists>rest. snd (nvram_image st) = concat (map entry (concat (nvram_hash st))) @ NUL # rest"
    using pad_NUL [of "print_table commit_fits (nvram_hash st)" NVRAM_DATA] assms p
    by (simp add: nvram_image_def Let_def committable_def NVRAM_DATA_val)
qed


text \<open>A table with one variable, for the witnesses.\<close>

definition nvram_example :: nvram_state where
  "nvram_example = \<lparr>nvram_hash = (replicate NVRAM_HASH_SIZE [])[hash_index ''lan_proto'' :=
     [\<lparr>t_name = ''lan_proto'', t_value = ''dhcp''\<rparr>]], nvram_dead = [], oom = []\<rparr>"

lemma nvram_example_props: "nvram_inv nvram_example" "oom nvram_example = []"
  by (auto simp: nvram_example_def nvram_inv_def chain_ok_def nth_list_update hash_index_less)

lemma committable_example: "committable nvram_example"
proof -
  have "concat (nvram_hash nvram_example) = [\<lparr>t_name = ''lan_proto'', t_value = ''dhcp''\<rparr>]"
    using hash_index_less [of "''lan_proto''"] by (simp add: nvram_example_def concat_update_split)
  then show ?thesis using nvram_example_props by (simp add: committable_def NVRAM_DATA_val wf_tuple_def)
qed

text \<open>C6: a variable that was set reads back as set and no other variable changes; a set that fails
  for lack of memory changes no variable; an unset variable reads as undefined; every operation
  keeps the table well-formed (each tuple in the chain its name hashes to, names distinct).\<close>

theorem nvram_store_correct:
  assumes "nvram_inv st"
  shows "nvram_get (snd (nvram_set st n v)) m = (if fst (nvram_set st n v) = 0 \<and> m = n then Some v else nvram_get st m)
    \<and> nvram_get (snd (nvram_unset st n)) m = (if m = n then None else nvram_get st m)
    \<and> nvram_inv (snd (nvram_set st n v)) \<and> nvram_inv (snd (nvram_unset st n))
    \<and> (fst (nvram_set st n v) = 0 \<or> fst (nvram_set st n v) = ENOMEM)"
  using nv.get_set [OF assms] nv.get_unset [OF assms] nv.set_inv [OF assms] nv.unset_inv [OF assms]
  by (auto simp: nvram_set_eq)

theorem nvram_store_correct_witness:
  "nvram_get (snd (nvram_set nvram_example ''wan'' ''up'')) ''wan'' = Some ''up''"
  using nvram_store_correct [OF nvram_example_props(1), of "''wan''" "''up''" "''wan''"]
    nvram_set_ok [OF nvram_example_props(2)] by simp

text \<open>Committing loses nothing: when the variables fit, regenerating the image and rebuilding the
  table from it keeps the value of every variable; only the four SDRAM variables may appear where they
  were undefined.\<close>

theorem nvram_regen_roundtrip:
  assumes "committable st" "oom st = []"
  shows "\<exists>h d st'. nvram_regen st = Some (h, d, st') \<and> nvram_inv st' \<and>
    (\<forall>n. n \<notin> set sdram_names \<or> nvram_get st n \<noteq> None \<longrightarrow> nvram_get st' n = nvram_get st n)"
proof -
  obtain h d where im: "nvram_image st = (h, d)" by force
  obtain rest where "d = concat (map entry (concat (nvram_hash st))) @ NUL # rest"
    using nvram_image_data(1) [OF assms(1)] im by auto
  from nvram_rehash_get [OF assms this, of h] show ?thesis using im by (auto simp: nvram_regen_def)
qed

theorem nvram_regen_roundtrip_witness:
  "\<exists>h d st'. nvram_regen nvram_example = Some (h, d, st') \<and> nvram_inv st' \<and>
    (\<forall>n. n \<notin> set sdram_names \<or> nvram_get nvram_example n \<noteq> None \<longrightarrow> nvram_get st' n = nvram_get nvram_example n)"
  using nvram_regen_roundtrip [OF committable_example nvram_example_props(2)] .

text \<open>The image always carries a CRC that the check accepts: the CRC computed over the finished
  header and data is the low byte of crc_ver_init.\<close>

theorem nvram_image_crc:
  "case nvram_image st of (h, d) \<Rightarrow> nvram_calc_crc h d = ucast (crc_ver_init h)"
proof -
  let ?data = "pad NVRAM_DATA (print_table commit_fits (nvram_hash st))"
  define h0 where "h0 = (commit_header st)\<lparr>h_len :=
    of_nat (ROUNDUP (NVRAM_HEADER_SIZE + length (print_table commit_fits (nvram_hash st)) + 2) 4)\<rparr>"
  define c where "c = nvram_calc_crc h0 ?data"
  have im: "nvram_image st = (h0\<lparr>crc_ver_init := crc_ver_init h0 OR ucast c\<rparr>, ?data)"
    by (simp add: nvram_image_def Let_def h0_def c_def)
  have "\<exists>y. crc_ver_init (commit_header st) = push_bit 8 NVRAM_VERSION OR push_bit 16 y"
    by (auto simp: commit_header_def Let_def simp del: push_bit_and split: option.split)
  then obtain y where y: "crc_ver_init h0 = push_bit 8 NVRAM_VERSION OR push_bit 16 y" by (auto simp: h0_def)
  have low: "ucast (crc_ver_init h0 OR ucast c) = c"
    unfolding y by (rule bit_eqI) (auto simp: bit_simps)
  have m: "NVRAM_CRC_VER_MASK = NOT (mask 8)"
    by (simp add: NVRAM_CRC_VER_MASK_def mask_eq_exp_minus_1)
  have "(crc_ver_init h0 OR ucast c) AND NVRAM_CRC_VER_MASK = crc_ver_init h0 AND NVRAM_CRC_VER_MASK"
    unfolding m by (rule bit_eqI) (auto simp: bit_simps dest: bit_imp_le_length)
  then have "nvram_calc_crc (h0\<lparr>crc_ver_init := crc_ver_init h0 OR ucast c\<rparr>) ?data = c"
    by (simp add: nvram_calc_crc_def c_def)
  then show ?thesis using low by (simp add: im)
qed


lemma ROUNDUP4: "x \<le> ROUNDUP x 4" "ROUNDUP x 4 < x + 4" "4 dvd ROUNDUP x 4"
  by (auto simp: ROUNDUP_def)

lemma ROUNDUP4_id: "4 dvd x \<Longrightarrow> ROUNDUP x 4 = x"
  by (auto simp: ROUNDUP_def)

text \<open>Whatever the table holds, the image stays inside the NVRAM space: the data area has its
  size and ends with two NULs, the length in the header covers the text and a double NUL and does not exceed
  the space, and the text is made of whole name=value entries of tuples of the table.\<close>

theorem nvram_image_bounds:
  "case nvram_image st of (h, d) \<Rightarrow>
     length d = NVRAM_DATA \<and> drop (NVRAM_DATA - 2) d = [NUL, NUL] \<and> unat (h_len h) \<le> NVRAM_SPACE \<and>
     (\<exists>us. subseq us (concat (nvram_hash st)) \<and> d = pad NVRAM_DATA (concat (map entry us))
        \<and> NVRAM_HEADER_SIZE + length (concat (map entry us)) + 2 \<le> unat (h_len h))"
proof -
  let ?out = "print_table commit_fits (nvram_hash st)"
  obtain us where us: "subseq us (concat (nvram_hash st))" "?out = concat (map entry us)" "length ?out \<le> NVRAM_DATA - 2"
    using print_table_sound [OF commit_fits_bounded] by blast
  let ?n = "NVRAM_HEADER_SIZE + length ?out + 2"
  have n: "?n \<le> 32768" using us(3) by (simp add: NVRAM_DATA_val NVRAM_HEADER_SIZE_def)
  have ru: "?n \<le> ROUNDUP ?n 4" "ROUNDUP ?n 4 \<le> 32768"
    using n ROUNDUP4 [of ?n] by (auto elim!: dvdE)
  then have len: "unat (of_nat (ROUNDUP ?n 4) :: u32) = ROUNDUP ?n 4"
    by (simp add: unsigned_of_nat take_bit_nat_eq_self)
  have "drop (NVRAM_DATA - 2) (pad NVRAM_DATA ?out) = replicate 2 NUL"
  proof -
    have "NVRAM_DATA - length ?out - (NVRAM_DATA - 2 - length ?out) = 2" using us(3) by (simp add: NVRAM_DATA_val)
    then show ?thesis using us(3) by (simp add: pad_def)
  qed
  moreover have "length (pad NVRAM_DATA ?out) = NVRAM_DATA" using us(3) by (simp add: pad_def)
  moreover obtain h where "nvram_image st = (h, pad NVRAM_DATA ?out)" "h_len h = of_nat (ROUNDUP ?n 4)"
    by (simp add: nvram_image_def Let_def)
  moreover have "replicate 2 NUL = [NUL, NUL]" by (simp add: numeral_2_eq_2)
  ultimately show ?thesis
    using us ru len unfolding us(2) by (auto simp: NVRAM_SPACE_def)
qed

lemma take_text:
  "length out < n \<Longrightarrow> take n (out @ NUL # rest) @ g = out @ NUL # (take (n - length out - 1) rest @ g)"
  by (simp add: take_Cons')

text \<open>Loading from a flash that holds the image of a committable table, at least up to the length in its header.\<close>

lemma nvram_load_image:
  assumes "committable st" "oom st2 = []" and h: "flash_hdr fl off = fst (nvram_image st)"
    and t: "take (unat (h_len (fst (nvram_image st))) - NVRAM_HEADER_SIZE) (flash_data fl off) =
      take (unat (h_len (fst (nvram_image st))) - NVRAM_HEADER_SIZE) (snd (nvram_image st))"
  shows "\<exists>st3. nvram_load fl (Some off) garbage st2 = Some (0, st3) \<and> nvram_inv st3 \<and>
    (\<forall>n. n \<notin> set sdram_names \<or> nvram_get st n \<noteq> None \<longrightarrow> nvram_get st3 n = nvram_get st n)"
proof -
  let ?out = "concat (map entry (concat (nvram_hash st)))"
  obtain h d where im: "nvram_image st = (h, d)" by force
  let ?k = "unat (h_len h) - NVRAM_HEADER_SIZE"
  have hm: "h_magic h = NVRAM_MAGIC"
    using im by (auto simp: nvram_image_def Let_def commit_header_def split: option.splits)
  have out: "print_table commit_fits (nvram_hash st) = ?out" using nvram_image_data(2) [OF assms(1)] .
  have small: "length ?out \<le> NVRAM_DATA - 2" using assms(1) by (simp add: committable_def)
  obtain rest where d: "d = ?out @ NUL # rest" using nvram_image_data(1) [OF assms(1)] im by auto
  let ?m = "NVRAM_HEADER_SIZE + length ?out + 2"
  have m: "?m \<le> 32768" using small by (simp add: NVRAM_DATA_val NVRAM_HEADER_SIZE_def)
  then have "ROUNDUP ?m 4 < 2 ^ 32" using ROUNDUP4(2) [of ?m] by simp
  then have len: "unat (h_len h) = ROUNDUP ?m 4"
    using im out by (auto simp: nvram_image_def Let_def unsigned_of_nat take_bit_nat_eq_self)
  have dvd: "4 dvd ?k" unfolding len using ROUNDUP4(3) [of ?m] by (simp add: NVRAM_HEADER_SIZE_def dvd_diff_nat)
  have "ROUNDUP ?m 4 \<le> 32768" using m ROUNDUP4 [of ?m] by (auto elim!: dvdE)
  then have k: "min (ROUNDUP ?k 4) NVRAM_DATA = ?k" unfolding ROUNDUP4_id [OF dvd] unfolding len
    by (simp add: NVRAM_DATA_val NVRAM_HEADER_SIZE_def)
  have "length ?out + 1 \<le> ?k" unfolding len using ROUNDUP4(1) [of ?m] by (auto simp: NVRAM_HEADER_SIZE_def)
  then have "take ?k d @ drop ?k garbage = ?out @ NUL # (take (?k - length ?out - 1) rest @ drop ?k garbage)"
    unfolding d by (intro take_text) linarith
  from nvram_rehash_get [OF assms(1,2) this, of h] show ?thesis
    using h t im hm k by (auto simp: nvram_load_def MALLOC_ok [OF assms(2)] nvram_read_def Let_def)
qed



text \<open>C33: Nvram_commit followed by a restart, for a table whose entries fit and with memory left.  When the NVRAM device can be opened,
  the commit hands the device an image that carries the right CRC and keeps the committed values in memory; loading
  any flash that starts with the bytes that were handed over, whatever follows them, gives every variable its
  committed value.  When the device cannot be opened, nothing is written and the error is returned.\<close>

theorem nvram_commit_reboot:
  assumes "committable st" "oom st = []" "oom st2 = []"
  shows "\<exists>h w st'. nvram_commit handle st = Some (handle, if handle < 0 then None else Some (h, w), st') \<and>
    nvram_calc_crc h w = ucast (crc_ver_init h) \<and> NVRAM_HEADER_SIZE + length w = unat (h_len h) \<and> nvram_inv st' \<and>
    (\<forall>n. n \<notin> set sdram_names \<or> nvram_get st n \<noteq> None \<longrightarrow> nvram_get st' n = nvram_get st n) \<and>
    (\<forall>fl off garbage. flash_hdr fl off = h \<and> take (length w) (flash_data fl off) = w \<longrightarrow>
      (\<exists>st3. nvram_load fl (Some off) garbage st2 = Some (0, st3) \<and> nvram_inv st3 \<and>
        (\<forall>n. n \<notin> set sdram_names \<or> nvram_get st n \<noteq> None \<longrightarrow> nvram_get st3 n = nvram_get st n)))"
proof -
  obtain h d where im: "nvram_image st = (h, d)" by force
  let ?k = "unat (h_len h) - NVRAM_HEADER_SIZE"
  define w where "w = take ?k d"
  have b: "length d = NVRAM_DATA" "unat (h_len h) \<le> NVRAM_SPACE" "NVRAM_HEADER_SIZE \<le> unat (h_len h)"
    using nvram_image_bounds [of st] unfolding im by auto
  then have k: "length w = ?k" by (simp add: w_def NVRAM_DATA_val NVRAM_SPACE_def NVRAM_HEADER_SIZE_def)
  obtain rest where "d = concat (map entry (concat (nvram_hash st))) @ NUL # rest" using nvram_image_data(1) [OF assms(1)] im by auto
  then obtain st' where st': "nvram_rehash st h d = Some st'" "nvram_inv st'"
      "\<forall>n. n \<notin> set sdram_names \<or> nvram_get st n \<noteq> None \<longrightarrow> nvram_get st' n = nvram_get st n"
    using nvram_rehash_get [OF assms(1,2), of d rest h] by blast
  have "nvram_commit handle st = Some (handle, if handle < 0 then None else Some (h, w), st')"
    by (simp add: nvram_commit_def MALLOC_ok [OF assms(2)] nvram_regen_def im st'(1) w_def)
  moreover have "nvram_calc_crc h w = ucast (crc_ver_init h)"
    using nvram_image_crc [of st] unfolding im by (simp add: nvram_calc_crc_def w_def)
  moreover note nvram_load_image [OF assms(1,3), unfolded im fst_conv snd_conv, folded w_def, folded k]
  ultimately show ?thesis using st'(2,3) b(3) k by (intro exI [of _ h] exI [of _ w] exI [of _ st']) auto
qed

theorem nvram_commit_reboot_witness:
  "\<exists>h w st'. nvram_commit 3 nvram_example = Some (3, Some (h, w), st') \<and> nvram_calc_crc h w = ucast (crc_ver_init h) \<and>
    (\<exists>st3. nvram_load \<lparr>flash_hdr = (\<lambda>_. h), flash_data = (\<lambda>_. w @ ''old'')\<rparr> (Some 0) [] nvram_example = Some (0, st3) \<and>
      nvram_get st3 ''lan_proto'' = Some ''dhcp'')"
proof -
  have n: "nvram_get nvram_example ''lan_proto'' = Some ''dhcp''" by (simp add: nvram_example_def nvram_get_def hash_index_less)
  obtain h w st' where c: "nvram_commit 3 nvram_example = Some (3, Some (h, w), st')" "nvram_calc_crc h w = ucast (crc_ver_init h)"
      "\<forall>fl off garbage. flash_hdr fl off = h \<and> take (length w) (flash_data fl off) = w \<longrightarrow>
        (\<exists>st3. nvram_load fl (Some off) garbage nvram_example = Some (0, st3) \<and> nvram_inv st3 \<and>
          (\<forall>n. n \<notin> set sdram_names \<or> nvram_get nvram_example n \<noteq> None \<longrightarrow> nvram_get st3 n = nvram_get nvram_example n))"
    using nvram_commit_reboot [OF committable_example nvram_example_props(2,2), of 3] by auto
  let ?fl = "\<lparr>flash_hdr = (\<lambda>_. h), flash_data = (\<lambda>_. w @ ''old'')\<rparr>"
  show ?thesis using c(1,2) c(3) [rule_format, of ?fl 0 "[]"] n by fastforce
qed



section \<open>The block of all variables\<close>





end
