(* ===== verification/Cfe_Queue.thy ===== *)
theory Cfe_Queue
  imports Prelude "HOL-Library.Monad_Syntax"
begin

text \<open>
  The intrusive circular queue of the boot loader, src/broadcom/src/cfe/cfe/lib/lib_queue.c.  A queue block
  and its elements are addresses; the store gives the two link fields of each.  \<open>queue_rel h qb xs\<close> says
  that the queue block qb holds the elements xs in order, in both directions.
\<close>

type_synonym addr = nat

record qheap =
  q_next :: "addr \<Rightarrow> addr"
  q_prev :: "addr \<Rightarrow> addr"

definition set_next :: "addr \<Rightarrow> addr \<Rightarrow> qheap \<Rightarrow> qheap" where
  "set_next a v h = h\<lparr>q_next := (q_next h)(a := v)\<rparr>"

definition set_prev :: "addr \<Rightarrow> addr \<Rightarrow> qheap \<Rightarrow> qheap" where
  "set_prev a v h = h\<lparr>q_prev := (q_prev h)(a := v)\<rparr>"

definition q_init :: "addr \<Rightarrow> qheap \<Rightarrow> qheap" where
  "q_init q h = set_next q q (set_prev q q h)"

definition q_isempty :: "addr \<Rightarrow> qheap \<Rightarrow> bool" where
  "q_isempty q h = (q_next h q = q)"

definition q_enqueue :: "addr \<Rightarrow> addr \<Rightarrow> qheap \<Rightarrow> qheap" where
  "q_enqueue qb item h =
     (let h = set_next (q_prev h qb) item h;
          h = set_next item qb h;
          h = set_prev item (q_prev h qb) h
      in set_prev qb item h)"

definition q_dequeue :: "addr \<Rightarrow> qheap \<Rightarrow> qheap" where
  "q_dequeue item h =
     (let h = set_next (q_prev h item) (q_next h item) h
      in set_prev (q_next h item) (q_prev h item) h)"

definition q_deqnext :: "addr \<Rightarrow> qheap \<Rightarrow> addr option \<times> qheap" where
  "q_deqnext qb h =
     (if q_next h qb = qb then (None, h)
      else (let qb = q_next h qb;
                h = set_next (q_prev h qb) (q_next h qb) h;
                h = set_prev (q_next h qb) (q_prev h qb) h
            in (Some qb, h)))"

text \<open>The loops end when they come back to the queue block; on a broken ring they run forever, which is
  the value None.  \<open>q_map\<close> threads a state of the caller through the function, which may change the
  heap; the next element is read before the call.\<close>

partial_function (option) q_map_loop ::
    "(addr \<Rightarrow> 's \<Rightarrow> qheap \<Rightarrow> int \<times> 's \<times> qheap) \<Rightarrow> addr \<Rightarrow> addr \<Rightarrow> 's \<Rightarrow> qheap \<Rightarrow> (int \<times> 's \<times> qheap) option" where
  "q_map_loop func qb qe s h =
     (if qe = qb then Some (0, s, h)
      else (let nextq = q_next h qe; (res, s, h) = func qe s h
            in if res \<noteq> 0 then Some (res, s, h) else q_map_loop func qb nextq s h))"

definition q_map ::
    "addr \<Rightarrow> (addr \<Rightarrow> 's \<Rightarrow> qheap \<Rightarrow> int \<times> 's \<times> qheap) \<Rightarrow> 's \<Rightarrow> qheap \<Rightarrow> (int \<times> 's \<times> qheap) option" where
  "q_map qb func s h = q_map_loop func qb (q_next h qb) s h"

partial_function (option) q_count_loop :: "qheap \<Rightarrow> addr \<Rightarrow> addr \<Rightarrow> int \<Rightarrow> int option" where
  "q_count_loop h qb qe res = (if q_next h qe \<noteq> qb then q_count_loop h qb (q_next h qe) (res + 1) else Some res)"

definition q_count :: "addr \<Rightarrow> qheap \<Rightarrow> int option" where
  "q_count qb h = q_count_loop h qb qb 0"

partial_function (option) q_find_loop :: "qheap \<Rightarrow> addr \<Rightarrow> addr \<Rightarrow> addr \<Rightarrow> int \<Rightarrow> int option" where
  "q_find_loop h qb item q res =
     (if q \<noteq> item then (if q = qb then Some 0 else q_find_loop h qb item (q_next h q) (res + 1)) else Some res)"

definition q_find :: "addr \<Rightarrow> addr \<Rightarrow> qheap \<Rightarrow> int option" where
  "q_find qb item h = q_find_loop h qb item (q_next h qb) 1"

section \<open>The sequence a queue holds\<close>

definition queue_rel :: "qheap \<Rightarrow> addr \<Rightarrow> addr list \<Rightarrow> bool" where
  "queue_rel h qb xs \<longleftrightarrow> distinct (qb # xs)
     \<and> linked (\<lambda>a. Some (q_next h a)) (Some (q_next h qb)) xs (Some qb)
     \<and> linked (\<lambda>a. Some (q_prev h a)) (Some (q_prev h qb)) (rev xs) (Some qb)"

lemma linked_some_frame:
  "(\<And>a. a \<in> set xs \<Longrightarrow> g a = f a) \<Longrightarrow> linked (\<lambda>a. Some (g a)) p xs r = linked (\<lambda>a. Some (f a)) p xs r"
  by (induction xs arbitrary: p) auto

lemma linked_upd_some [simp]:
  "x \<notin> set xs \<Longrightarrow> linked (\<lambda>a. Some (if a = x then v else f a)) p xs r = linked (\<lambda>a. Some (f a)) p xs r"
  "x \<notin> set xs \<Longrightarrow> linked (\<lambda>a. Some ((f(x := v)) a)) p xs r = linked (\<lambda>a. Some (f a)) p xs r"
  by (auto intro!: linked_some_frame)

text \<open>The ring seen from another of its elements.\<close>

lemma queue_rel_rotate:
  "queue_rel h qb (as @ e # bs) \<longleftrightarrow> queue_rel h e (bs @ qb # as)"
  unfolding queue_rel_def by auto

lemma queue_rel_init: "queue_rel (q_init q h) q []"
  by (simp add: queue_rel_def q_init_def set_next_def set_prev_def)

lemma queue_rel_isempty: "queue_rel h qb xs \<Longrightarrow> q_isempty qb h \<longleftrightarrow> xs = []"
  by (cases xs) (auto simp: queue_rel_def q_isempty_def)

lemma q_enqueue_tail:
  assumes "queue_rel h qb xs" "item \<notin> set (qb # xs)"
  shows "queue_rel (q_enqueue qb item h) qb (xs @ [item])"
proof (cases xs rule: rev_cases)
  case Nil
  then show ?thesis
    using assms by (auto simp: queue_rel_def q_enqueue_def set_next_def set_prev_def Let_def)
next
  case (snoc ys y)
  then have "q_prev h qb = y" "q_prev h y = (if ys = [] then qb else last ys)"
    using assms(1) by (auto simp: queue_rel_def dest!: sym [of "Some _"]) (cases ys rule: rev_cases; auto)+
  then show ?thesis
    using assms snoc by (auto simp: queue_rel_def q_enqueue_def set_next_def set_prev_def Let_def)
qed

lemma q_enqueue_before:
  assumes "queue_rel h qb (as @ e # bs)" "item \<notin> set (qb # as @ e # bs)"
  shows "queue_rel (q_enqueue e item h) qb (as @ item # e # bs)"
proof -
  have "queue_rel h e (bs @ qb # as)" using assms(1) by (simp add: queue_rel_rotate)
  then have "queue_rel (q_enqueue e item h) e ((bs @ qb # as) @ [item])"
    using assms(2) by (intro q_enqueue_tail) auto
  then have "queue_rel (q_enqueue e item h) e (bs @ qb # (as @ [item]))" by simp
  then show ?thesis using queue_rel_rotate [of "q_enqueue e item h" qb "as @ [item]" e bs] by simp
qed

lemma q_dequeue_first:
  assumes "queue_rel h qb (x # xs)"
  shows "queue_rel (q_dequeue x h) qb xs"
proof -
  have p: "q_prev h x = qb" using assms by (auto simp: queue_rel_def)
  show ?thesis
  proof (cases xs)
    case Nil
    then show ?thesis using assms p by (auto simp: queue_rel_def q_dequeue_def set_next_def set_prev_def Let_def)
  next
    case (Cons y ys)
    then show ?thesis using assms p by (auto simp: queue_rel_def q_dequeue_def set_next_def set_prev_def Let_def)
  qed
qed

lemma q_dequeue_mid:
  assumes "queue_rel h qb (as @ x # bs)"
  shows "queue_rel (q_dequeue x h) qb (as @ bs)"
proof (cases as rule: rev_cases)
  case Nil
  then show ?thesis using assms q_dequeue_first by simp
next
  case (snoc ys y)
  then have "queue_rel h y ((x # bs) @ qb # ys)" using assms queue_rel_rotate [of h qb ys y "x # bs"] by simp
  then have "queue_rel (q_dequeue x h) y (bs @ qb # ys)" using q_dequeue_first by simp
  then show ?thesis using snoc queue_rel_rotate [of "q_dequeue x h" qb ys y bs] by simp
qed


lemma q_deqnext_correct:
  assumes "queue_rel h qb xs"
  shows "case xs of [] \<Rightarrow> q_deqnext qb h = (None, h)
    | x # ys \<Rightarrow> fst (q_deqnext qb h) = Some x \<and> queue_rel (snd (q_deqnext qb h)) qb ys"
proof (cases xs)
  case Nil
  then show ?thesis using assms by (simp add: queue_rel_def q_deqnext_def)
next
  case (Cons x ys)
  then have "q_next h qb = x" "x \<noteq> qb" using assms by (auto simp: queue_rel_def)
  then have "q_deqnext qb h = (Some x, q_dequeue x h)"
    by (simp add: q_deqnext_def q_dequeue_def Let_def)
  then show ?thesis using Cons assms q_dequeue_first by simp
qed

lemma q_count_correct:
  assumes "queue_rel h qb xs"
  shows "q_count qb h = Some (int (length xs))"
proof -
  have "q_count_loop h qb qe n = Some (n + int (length ys))"
    if "linked (\<lambda>a. Some (q_next h a)) (Some (q_next h qe)) ys (Some qb)" "qb \<notin> set ys" for qe ys n
    using that
  proof (induction ys arbitrary: qe n)
    case Nil
    then show ?case by (subst q_count_loop.simps) simp
  next
    case (Cons y ys)
    then show ?case using Cons.IH [of y "n + 1"] by (subst q_count_loop.simps) auto
  qed
  from this [of qb xs 0] assms show ?thesis by (simp add: queue_rel_def q_count_def)
qed

text \<open>Q_find returns the position, counted from 1, of an element that is on the queue and 0 for
  one that is not, and it always returns.\<close>

theorem q_find_correct:
  assumes "queue_rel h qb xs" "item \<noteq> qb"
  shows "q_find qb item h = Some (if item \<in> set xs then int (length (takeWhile (\<lambda>x. x \<noteq> item) xs)) + 1 else 0)"
proof -
  have "q_find_loop h qb item q n = Some (if item \<in> set ys then int (length (takeWhile (\<lambda>x. x \<noteq> item) ys)) + n else 0)"
    if "linked (\<lambda>a. Some (q_next h a)) (Some q) ys (Some qb)" "qb \<notin> set ys" for q ys n
    using that
  proof (induction ys arbitrary: q n)
    case Nil
    then show ?case using assms(2) by (subst q_find_loop.simps) simp
  next
    case (Cons y ys)
    then show ?case using Cons.IH [of "q_next h y" "n + 1"] by (subst q_find_loop.simps) auto
  qed
  from this [of "q_next h qb" xs 1] assms show ?thesis by (simp add: queue_rel_def q_find_def)
qed

definition queue_example :: qheap where
  "queue_example = q_enqueue 0 2 (q_enqueue 0 1 (q_init 0 \<lparr>q_next = (\<lambda>_. 0), q_prev = (\<lambda>_. 0)\<rparr>))"

lemma queue_example_rel: "queue_rel queue_example 0 [1, 2]"
  by (simp add: queue_example_def queue_rel_def q_enqueue_def q_init_def set_next_def set_prev_def Let_def)

theorem q_find_correct_witness: "q_find 0 2 queue_example = Some 2"
  using q_find_correct [OF queue_example_rel, of 2] by simp

text \<open>A function that leaves the ring alone is called on the elements in order until it returns a
  non-zero value.\<close>

fun map_seq :: "(addr \<Rightarrow> 's \<Rightarrow> int \<times> 's) \<Rightarrow> addr list \<Rightarrow> 's \<Rightarrow> int \<times> 's" where
  "map_seq f [] s = (0, s)"
| "map_seq f (x # xs) s = (let (res, s) = f x s in if res \<noteq> 0 then (res, s) else map_seq f xs s)"

lemma q_map_correct:
  assumes "queue_rel h qb xs"
  shows "q_map qb (\<lambda>a s h. let (res, s) = f a s in (res, s, h)) s h = Some (let (res, s) = map_seq f xs s in (res, s, h))"
proof -
  have "q_map_loop (\<lambda>a s h. let (res, s) = f a s in (res, s, h)) qb q s h
      = Some (let (res, s) = map_seq f ys s in (res, s, h))"
    if "linked (\<lambda>a. Some (q_next h a)) (Some q) ys (Some qb)" "qb \<notin> set ys" for q ys s
    using that
  proof (induction ys arbitrary: q s)
    case Nil
    then show ?case by (subst q_map_loop.simps) simp
  next
    case (Cons y ys)
    then show ?case
      using Cons.IH [of "q_next h y"] by (subst q_map_loop.simps) (auto simp: Let_def split: prod.split)
  qed
  from this [of "q_next h qb" xs s] assms show ?thesis by (simp add: queue_rel_def q_map_def)
qed

section \<open>The contract of a first-in first-out queue\<close>

locale fifo =
  fixes rel :: "'h \<Rightarrow> 'a list \<Rightarrow> bool"
    and enq :: "'a \<Rightarrow> 'h \<Rightarrow> 'h"
    and deq :: "'h \<Rightarrow> 'a option \<times> 'h"
    and fresh :: "'a \<Rightarrow> 'a list \<Rightarrow> bool"
  assumes enq_rel: "rel h xs \<Longrightarrow> fresh x xs \<Longrightarrow> rel (enq x h) (xs @ [x])"
    and deq_nil: "rel h [] \<Longrightarrow> deq h = (None, h)"
    and deq_cons: "rel h (x # xs) \<Longrightarrow> fst (deq h) = Some x \<and> rel (snd (deq h)) xs"
begin

primrec take_all :: "nat \<Rightarrow> 'h \<Rightarrow> 'a list \<times> 'h" where
  "take_all 0 h = ([], h)"
| "take_all (Suc n) h = (case deq h of (None, h') \<Rightarrow> ([], h')
     | (Some x, h') \<Rightarrow> (let (xs, h'') = take_all n h' in (x # xs, h'')))"

lemma take_all_order:
  "rel h xs \<Longrightarrow> n \<le> length xs \<Longrightarrow> fst (take_all n h) = take n xs \<and> rel (snd (take_all n h)) (drop n xs)"
proof (induction n arbitrary: h xs)
  case (Suc n)
  then obtain x ys where xs: "xs = x # ys" by (cases xs) auto
  then have d: "fst (deq h) = Some x" "rel (snd (deq h)) ys" using deq_cons [of h x ys] Suc.prems by auto
  then show ?case
    using Suc.IH [of "snd (deq h)" ys] Suc.prems xs by (cases "deq h") (auto simp: Let_def case_prod_beta)
qed simp

end

interpretation cfe_fifo: fifo "\<lambda>h xs. queue_rel h qb xs" "q_enqueue qb" "q_deqnext qb" "\<lambda>x xs. x \<notin> set (qb # xs)" for qb
proof unfold_locales
  show "queue_rel (q_enqueue qb x h) qb (xs @ [x])" if "queue_rel h qb xs" "x \<notin> set (qb # xs)" for h xs x
    using that by (rule q_enqueue_tail)
  show "q_deqnext qb h = (None, h)" if "queue_rel h qb []" for h
    using q_deqnext_correct [OF that] by simp
  show "fst (q_deqnext qb h) = Some x \<and> queue_rel (snd (q_deqnext qb h)) qb xs" if "queue_rel h qb (x # xs)" for h x xs
    using q_deqnext_correct [OF that] by simp
qed

text \<open>The boot loader's queue keeps its order: q_enqueue on an element of the ring inserts the item just
  before it (at the end when it is the queue block), q_dequeue takes out exactly its argument, and
  q_deqnext takes the first element; both link directions stay consistent.\<close>

theorem queue_ops_correct:
  assumes "queue_rel h qb (as @ x # bs)" "item \<notin> set (qb # as @ x # bs)"
  shows "queue_rel (q_enqueue qb item h) qb (as @ x # bs @ [item])
    \<and> queue_rel (q_enqueue x item h) qb (as @ item # x # bs)
    \<and> queue_rel (q_dequeue x h) qb (as @ bs)
    \<and> (as = [] \<longrightarrow> fst (q_deqnext qb h) = Some x \<and> queue_rel (snd (q_deqnext qb h)) qb bs)
    \<and> q_count qb h = Some (int (length as + length bs + 1))"
  using q_enqueue_tail [OF assms] q_enqueue_before [OF assms] q_dequeue_mid [OF assms(1)]
    cfe_fifo.deq_cons [of h qb x bs] q_count_correct [OF assms(1)] assms(1) by auto

theorem queue_ops_correct_witness:
  "queue_rel (q_enqueue 0 3 queue_example) 0 [1, 2, 3] \<and> queue_rel (q_dequeue 1 queue_example) 0 [2]"
  using queue_ops_correct [of queue_example 0 "[]" 1 "[2]" 3] queue_example_rel by simp

end
