(* ===== verification/Cfe_Arena.thy ===== *)
theory Cfe_Arena
  imports Cfe_Queue
begin

text \<open>
  The map of the physical address space the boot loader keeps, src/broadcom/src/cfe/cfe/lib/lib_arena.c.
  The nodes of the arena are the list its queue holds, in order (\<open>queue_ops_correct\<close> relates the
  pointer operations to the list: arena_split inserts after a node, arena_coalesce dequeues the next
  node).  Addresses and lengths are 64-bit and wrap.  KMALLOC of a node is taken to succeed.
\<close>

record arena_node =
  an_address :: u64
  an_length :: u64
  an_type :: int
  an_descr :: "string option"

record arena =
  arena_list :: "arena_node list"
  arena_base :: u64
  arena_size :: u64

definition arena_init :: "u64 \<Rightarrow> u64 \<Rightarrow> arena" where
  "arena_init physmembase physmemsize =
     \<lparr>arena_list = [\<lparr>an_address = physmembase, an_length = physmemsize, an_type = 0, an_descr = None\<rparr>],
      arena_base = physmembase, arena_size = physmemsize\<rparr>"

text \<open>The node and its position.\<close>

fun arena_find :: "arena_node list \<Rightarrow> u64 \<Rightarrow> nat option" where
  "arena_find [] pt = None"
| "arena_find (an # ans) pt =
     (if pt \<ge> an_address an \<and> pt < an_address an + an_length an then Some 0
      else map_option Suc (arena_find ans pt))"

text \<open>\<open>garbage\<close>: the description of the new node is not initialised.\<close>

definition arena_split :: "string option \<Rightarrow> arena \<Rightarrow> u64 \<Rightarrow> int \<times> arena" where
  "arena_split garbage a splitpoint =
     (if splitpoint = arena_base a + arena_size a then (0, a)
      else case arena_find (arena_list a) splitpoint of
             None \<Rightarrow> (-1, a)
           | Some i \<Rightarrow>
               (let node = arena_list a ! i
                in if an_address node = splitpoint then (0, a)
                   else (let newnode = \<lparr>an_address = splitpoint,
                                        an_length = an_length node - (splitpoint - an_address node),
                                        an_type = an_type node, an_descr = garbage\<rparr>;
                             node = node\<lparr>an_length := splitpoint - an_address node\<rparr>
                         in (0, a\<lparr>arena_list := take i (arena_list a) @ node # newnode # drop (Suc i) (arena_list a)\<rparr>))))"

text \<open>One pass of the for loop: the new list and the number of nodes removed.  After a merge the loop
  goes on behind the merged node.\<close>

fun coalesce_pass :: "arena_node list \<Rightarrow> arena_node list \<times> nat" where
  "coalesce_pass (node # nextnode # ans) =
     (if an_type node = an_type nextnode
      then (let (r, removed) = coalesce_pass ans
            in (node\<lparr>an_length := an_length node + an_length nextnode\<rparr> # r, Suc removed))
      else (let (r, removed) = coalesce_pass (nextnode # ans) in (node # r, removed)))"
| "coalesce_pass ans = (ans, 0)"

lemma coalesce_pass_length: "coalesce_pass ns = (ms, k) \<Longrightarrow> length ms + k = length ns"
  by (induction ns arbitrary: ms k rule: coalesce_pass.induct) (auto simp: Let_def split: if_splits prod.splits)

function coalesce_list :: "arena_node list \<Rightarrow> arena_node list" where
  "coalesce_list ns = (case coalesce_pass ns of (ms, removed) \<Rightarrow> if removed > 0 then coalesce_list ms else ms)"
  by pat_completeness auto
termination
  by (relation "measure length") (auto dest!: sym [of "(_, _)"] coalesce_pass_length)

declare coalesce_list.simps [simp del]

definition arena_coalesce :: "arena \<Rightarrow> arena" where
  "arena_coalesce a = a\<lparr>arena_list := coalesce_list (arena_list a)\<rparr>"

definition mark_node :: "u64 \<Rightarrow> u64 \<Rightarrow> int \<Rightarrow> string option \<Rightarrow> arena_node \<Rightarrow> arena_node" where
  "mark_node address len type descr node =
     (if an_address node \<ge> address \<and> an_address node + an_length node \<le> address + len
      then node\<lparr>an_type := type, an_descr := descr\<rparr> else node)"

definition arena_markrange :: "string option \<Rightarrow> arena \<Rightarrow> u64 \<Rightarrow> u64 \<Rightarrow> int \<Rightarrow> string option \<Rightarrow> int \<times> arena" where
  "arena_markrange garbage a address len type descr =
     (if address < arena_base a \<or> address + len > arena_base a + arena_size a then (-1, a)
      else case arena_split garbage a address of
             (r, a) \<Rightarrow>
               if r < 0 then (-1, a)
               else case arena_split garbage a (address + len) of
                      (r, a) \<Rightarrow>
                        if r < 0 then (-1, arena_coalesce a)
                        else (0, arena_coalesce (a\<lparr>arena_list := map (mark_node address len type descr) (arena_list a)\<rparr>)))"

section \<open>The address space a list of nodes describes\<close>

definition n_start :: "arena_node \<Rightarrow> nat" where "n_start n = unat (an_address n)"
definition n_end :: "arena_node \<Rightarrow> nat" where "n_end n = unat (an_address n) + unat (an_length n)"

fun tiles :: "nat \<Rightarrow> arena_node list \<Rightarrow> nat \<Rightarrow> bool" where
  "tiles b [] e = (b = e)"
| "tiles b (n # ns) e = (n_start n = b \<and> b < n_end n \<and> tiles (n_end n) ns e)"

definition arena_ok :: "arena \<Rightarrow> bool" where
  "arena_ok a \<longleftrightarrow> unat (arena_base a) + unat (arena_size a) < 2 ^ 64
     \<and> tiles (unat (arena_base a)) (arena_list a) (unat (arena_base a) + unat (arena_size a))"

definition in_node :: "arena_node \<Rightarrow> nat \<Rightarrow> bool" where
  "in_node n p = (n_start n \<le> p \<and> p < n_end n)"

definition type_at :: "arena_node list \<Rightarrow> nat \<Rightarrow> int option" where
  "type_at ns p = map_option an_type (find (\<lambda>n. in_node n p) ns)"

lemma type_at_simps [simp]:
  "type_at [] p = None"
  "type_at (n # ns) p = (if in_node n p then Some (an_type n) else type_at ns p)"
  by (simp_all add: type_at_def)

lemma type_at_append: "type_at (xs @ ys) p = (case type_at xs p of None \<Rightarrow> type_at ys p | Some t \<Rightarrow> Some t)"
  by (induction xs) auto

lemma tiles_append: "tiles b (xs @ ys) e \<longleftrightarrow> (\<exists>m. tiles b xs m \<and> tiles m ys e)"
  by (induction xs arbitrary: b) auto

lemma tiles_le: "tiles b ns e \<Longrightarrow> b \<le> e"
  by (induction ns arbitrary: b) fastforce+

lemma tiles_node: "tiles b ns e \<Longrightarrow> n \<in> set ns \<Longrightarrow> b \<le> n_start n \<and> n_start n < n_end n \<and> n_end n \<le> e"
  by (induction ns arbitrary: b) (fastforce dest: tiles_le)+

lemma n_end_word:
  assumes "n_end n < 2 ^ 64"
  shows "unat (an_address n + an_length n) = n_end n"
  using assms unat_plus_less [of "an_address n" "unat (an_length n)"] by (simp add: n_end_def)

lemma arena_find_correct:
  "tiles b ns e \<Longrightarrow> e < 2 ^ 64 \<Longrightarrow> b \<le> unat pt \<Longrightarrow> unat pt < e \<Longrightarrow>
   \<exists>xs n ys. ns = xs @ n # ys \<and> arena_find ns pt = Some (length xs) \<and> n_start n \<le> unat pt \<and> unat pt < n_end n"
proof (induction ns arbitrary: b)
  case (Cons n ns)
  have e: "n_end n < 2 ^ 64" using Cons.prems tiles_le [of "n_end n" ns e] by simp
  have hit: "pt \<ge> an_address n \<and> pt < an_address n + an_length n \<longleftrightarrow> n_start n \<le> unat pt \<and> unat pt < n_end n"
    by (simp add: word_le_nat_alt word_less_nat_alt n_end_word [OF e] n_start_def)
  show ?case
  proof (cases "unat pt < n_end n")
    case True
    then have "arena_find (n # ns) pt = Some (length [])" using hit Cons.prems by simp
    then show ?thesis using True Cons.prems by (metis append_Nil tiles.simps(2))
  next
    case False
    then obtain xs m ys where "ns = xs @ m # ys" "arena_find ns pt = Some (length xs)" "n_start m \<le> unat pt" "unat pt < n_end m"
      using Cons by (metis not_less tiles.simps(2))
    then have "n # ns = (n # xs) @ m # ys \<and> arena_find (n # ns) pt = Some (length (n # xs)) \<and> n_start m \<le> unat pt \<and> unat pt < n_end m"
      using False hit by simp
    then show ?thesis by blast
  qed
qed simp


text \<open>No node straddles the point.\<close>

definition cut :: "arena_node list \<Rightarrow> nat \<Rightarrow> bool" where
  "cut ns x = (\<forall>n\<in>set ns. \<not> (n_start n < x \<and> x < n_end n))"

lemma cut_simps [simp]:
  "cut [] x" "cut (n # ns) x \<longleftrightarrow> \<not> (n_start n < x \<and> x < n_end n) \<and> cut ns x" "cut (xs @ ys) x \<longleftrightarrow> cut xs x \<and> cut ys x"
  by (auto simp: cut_def)

lemma cut_outside: "tiles b ns e \<Longrightarrow> x \<le> b \<or> e \<le> x \<Longrightarrow> cut ns x"
  unfolding cut_def using tiles_node by fastforce

text \<open>The two halves of a node.\<close>

lemma split_node:
  assumes "n_start n < unat sp" "unat sp < n_end n" "n_end n < 2 ^ 64"
    and l_def: "l = n\<lparr>an_length := sp - an_address n\<rparr>"
    and r_def: "r = \<lparr>an_address = sp, an_length = an_length n - (sp - an_address n), an_type = an_type n, an_descr = g\<rparr>"
  shows "n_start l = n_start n" "n_end l = unat sp" "n_start r = unat sp" "n_end r = n_end n"
    "an_type l = an_type n" "an_type r = an_type n"
proof -
  have d: "unat (sp - an_address n) = unat sp - unat (an_address n)"
    using assms(1) by (simp add: unat_sub word_le_nat_alt n_start_def)
  then have "sp - an_address n \<le> an_length n" using assms(1,2) by (simp add: word_le_nat_alt n_end_def n_start_def)
  then have "unat (an_length n - (sp - an_address n)) = unat (an_length n) - (unat sp - unat (an_address n))"
    by (simp add: unat_sub d)
  then show "n_start l = n_start n" "n_end l = unat sp" "n_start r = unat sp" "n_end r = n_end n"
    "an_type l = an_type n" "an_type r = an_type n"
    using assms(1,2) d by (auto simp: l_def r_def n_start_def n_end_def)
qed

text \<open>Splitting: always succeeds inside the arena, keeps the described map, cuts at the point and keeps the
  cuts there were.\<close>

lemma arena_split_correct:
  assumes ok: "arena_ok a" and sp: "unat (arena_base a) \<le> unat sp" "unat sp \<le> unat (arena_base a) + unat (arena_size a)"
  shows "\<exists>a'. arena_split g a sp = (0, a') \<and> arena_ok a' \<and> arena_base a' = arena_base a \<and> arena_size a' = arena_size a
    \<and> type_at (arena_list a') = type_at (arena_list a) \<and> cut (arena_list a') (unat sp)
    \<and> (\<forall>x. cut (arena_list a) x \<longrightarrow> cut (arena_list a') x)"
proof -
  let ?b = "unat (arena_base a)" and ?e = "unat (arena_base a) + unat (arena_size a)"
  have t: "tiles ?b (arena_list a) ?e" and e: "?e < 2 ^ 64" using ok by (auto simp: arena_ok_def)
  have ew: "unat (arena_base a + arena_size a) = ?e"
    using e unat_plus_less [of "arena_base a" "unat (arena_size a)"] by simp
  show ?thesis
  proof (cases "unat sp = ?e")
    case True
    then have "sp = arena_base a + arena_size a" using ew by (metis word_unat_eq_iff)
    moreover have "cut (arena_list a) (unat sp)"
      using cut_outside [OF t] True by simp
    ultimately show ?thesis using ok by (auto simp: arena_split_def)
  next
    case False
    then have "sp \<noteq> arena_base a + arena_size a" using ew by auto
    moreover obtain xs n ys where n: "arena_list a = xs @ n # ys" "arena_find (arena_list a) sp = Some (length xs)"
        "n_start n \<le> unat sp" "unat sp < n_end n"
      using arena_find_correct [OF t e sp(1)] sp(2) False by force
    have ne: "n_end n < 2 ^ 64" using tiles_node [OF t, of n] n(1) e by auto
    obtain m where m: "tiles ?b xs m" "tiles m (n # ys) ?e" using t n(1) by (auto simp: tiles_append)
    show ?thesis
    proof (cases "an_address n = sp")
      case True
      have "cut (arena_list a) (unat sp)"
        unfolding n(1) using m True n(3,4) cut_outside [OF m(1), of "unat sp"] cut_outside [of "n_end n" ys ?e "unat sp"]
        by (simp add: n_start_def)
      then show ?thesis using True n ok calculation by (auto simp: arena_split_def Let_def)
    next
      case neq: False
      then have lt: "n_start n < unat sp" using n(3) by (simp add: n_start_def word_unat_eq_iff order_less_le)
      define l where "l = n\<lparr>an_length := sp - an_address n\<rparr>"
      define r where "r = \<lparr>an_address = sp, an_length = an_length n - (sp - an_address n), an_type = an_type n, an_descr = g\<rparr>"
      note lr = split_node [OF lt n(4) ne l_def r_def]
      define a' where "a' = a\<lparr>arena_list := xs @ l # r # ys\<rparr>"
      have "arena_split g a sp = (0, a')"
        using calculation n neq by (simp add: arena_split_def Let_def a'_def l_def r_def)
      moreover have "tiles ?b (xs @ l # r # ys) ?e"
        using m lr lt n(4) by (auto simp: tiles_append)
      then have "arena_ok a'" using e by (simp add: arena_ok_def a'_def)
      moreover have "type_at (xs @ l # r # ys) = type_at (xs @ n # ys)"
        using lr n(3,4) by (intro ext) (auto simp: type_at_append in_node_def split: option.split)
      moreover have "cut (xs @ l # r # ys) (unat sp)"
        using m lr lt n(4) cut_outside [OF m(1), of "unat sp"] cut_outside [of "n_end n" ys ?e "unat sp"] by simp
      moreover have "cut (xs @ n # ys) x \<longrightarrow> cut (xs @ l # r # ys) x" for x
        using lr lt n(4) by auto
      ultimately show ?thesis using n(1) by (auto simp: a'_def)
    qed
  qed
qed

text \<open>Marking, once the range is cut out.\<close>

lemma mark_node_fields [simp]:
  "n_start (mark_node ad l t d n) = n_start n" "n_end (mark_node ad l t d n) = n_end n"
  by (simp_all add: mark_node_def n_start_def n_end_def)

lemma tiles_map_mark [simp]: "tiles b (map (mark_node ad l t d) ns) e = tiles b ns e"
  by (induction ns arbitrary: b) auto

lemma type_at_mark:
  assumes "unat ad + unat l < 2 ^ 64" "\<And>n. n \<in> set ns \<Longrightarrow> n_start n < n_end n \<and> n_end n < 2 ^ 64"
    and "cut ns (unat ad)" "cut ns (unat ad + unat l)"
  shows "type_at (map (mark_node ad l t d) ns) p =
    (if unat ad \<le> p \<and> p < unat ad + unat l then map_option (\<lambda>_. t) (type_at ns p) else type_at ns p)"
  using assms(2-)
proof (induction ns)
  case (Cons n ns)
  have al: "unat (ad + l) = unat ad + unat l" using assms(1) unat_plus_less [of ad "unat l"] by simp
  have inside: "an_address n \<ge> ad \<and> an_address n + an_length n \<le> ad + l \<longleftrightarrow> unat ad \<le> n_start n \<and> n_end n \<le> unat ad + unat l"
    using Cons.prems(1) [of n] by (simp add: word_le_nat_alt al n_end_word n_start_def)
  have IH: "type_at (map (mark_node ad l t d) ns) p =
      (if unat ad \<le> p \<and> p < unat ad + unat l then map_option (\<lambda>_. t) (type_at ns p) else type_at ns p)"
    using Cons.prems by (intro Cons.IH) (auto simp: cut_def)
  have "unat ad \<le> n_start n \<and> n_end n \<le> unat ad + unat l \<longleftrightarrow> unat ad \<le> p \<and> p < unat ad + unat l"
    if "n_start n \<le> p" "p < n_end n"
    using that Cons.prems(2,3) by (auto simp: cut_def)
  then have "in_node n p \<Longrightarrow> an_type (mark_node ad l t d n) =
      (if unat ad \<le> p \<and> p < unat ad + unat l then t else an_type n)"
    using inside by (simp add: mark_node_def in_node_def)
  moreover have "in_node (mark_node ad l t d n) p = in_node n p" by (simp add: in_node_def)
  ultimately show ?case using IH by (cases "in_node n p") simp_all
qed simp

text \<open>Coalescing keeps the described map and leaves no equal neighbours.\<close>

lemma coalesce_pass_correct:
  "tiles b ns e \<Longrightarrow> e < 2 ^ 64 \<Longrightarrow> coalesce_pass ns = (ms, k) \<Longrightarrow> tiles b ms e \<and> type_at ms = type_at ns"
proof (induction ns arbitrary: b ms k rule: coalesce_pass.induct)
  case (1 n m ns)
  have t: "n_start n = b" "b < n_end n" "n_start m = n_end n" "n_end n < n_end m" "tiles (n_end m) ns e"
    using "1.prems" by auto
  have me: "n_end m < 2 ^ 64" using tiles_le [OF t(5)] "1.prems"(2) by simp
  show ?case
  proof (cases "an_type n = an_type m")
    case True
    obtain rs j where r: "coalesce_pass ns = (rs, j)" by force
    let ?n = "n\<lparr>an_length := an_length n + an_length m\<rparr>"
    have "unat (an_length n) + unat (an_length m) < 2 ^ 64" using t me by (simp add: n_end_def n_start_def)
    then have "unat (an_length n + an_length m) = unat (an_length n) + unat (an_length m)"
      using unat_plus_less [of "an_length n" "unat (an_length m)"] by simp
    then have f: "n_start ?n = b" "n_end ?n = n_end m" using t by (auto simp: n_start_def n_end_def)
    have IH: "tiles (n_end m) rs e" "type_at rs = type_at ns" using "1.IH"(1) [OF True t(5) "1.prems"(2) r] by auto
    then show ?thesis
      using "1.prems"(3) True r f t by (auto simp: fun_eq_iff in_node_def)
  next
    case False
    obtain rs j where r: "coalesce_pass (m # ns) = (rs, j)" by force
    have "tiles (n_end n) (m # ns) e" using t by simp
    from "1.IH"(2) [OF False this "1.prems"(2) r] show ?thesis
      using "1.prems"(3) False r t by (auto simp: fun_eq_iff)
  qed
qed auto

fun no_equal_neighbours :: "arena_node list \<Rightarrow> bool" where
  "no_equal_neighbours (n # m # ns) = (an_type n \<noteq> an_type m \<and> no_equal_neighbours (m # ns))"
| "no_equal_neighbours ns = True"

lemma coalesce_pass_done: "coalesce_pass ns = (ms, 0) \<Longrightarrow> ms = ns \<and> no_equal_neighbours ns"
  by (induction ns arbitrary: ms rule: coalesce_pass.induct) (auto split: if_splits prod.splits)

lemma coalesce_list_correct:
  "tiles b ns e \<Longrightarrow> e < 2 ^ 64 \<Longrightarrow>
   tiles b (coalesce_list ns) e \<and> type_at (coalesce_list ns) = type_at ns \<and> no_equal_neighbours (coalesce_list ns)"
proof (induction ns rule: coalesce_list.induct)
  case (1 ns)
  obtain ms k where p: "coalesce_pass ns = (ms, k)" by force
  note c = coalesce_pass_correct [OF "1.prems" p]
  show ?case
  proof (cases "k > 0")
    case True
    then have "coalesce_list ns = coalesce_list ms" using p by (subst coalesce_list.simps) simp
    then show ?thesis using "1.IH" [OF p [symmetric] True] c "1.prems"(2) by simp
  next
    case False
    then have "coalesce_list ns = ms" using p by (subst coalesce_list.simps) simp
    then show ?thesis using c coalesce_pass_done [of ns ms] p False by auto
  qed
qed


lemma arena_init_ok: "unat b + unat n < 2 ^ 64 \<Longrightarrow> 0 < n \<Longrightarrow> arena_ok (arena_init b n)"
  by (simp add: arena_ok_def arena_init_def n_start_def n_end_def word_gt_0 unat_gt_0)

text \<open>C9: marking a range inside the arena succeeds, gives every address of the range the new type,
  leaves the type of every other address as it was, keeps the nodes a gapless cover of the
  arena, and afterwards no two neighbouring nodes have the same type.\<close>

theorem arena_markrange_correct:
  assumes ok: "arena_ok a" and range: "unat (arena_base a) \<le> unat ad" "unat ad + unat len \<le> unat (arena_base a) + unat (arena_size a)"
  shows "\<exists>a'. arena_markrange g a ad len t d = (0, a') \<and> arena_ok a' \<and> no_equal_neighbours (arena_list a')
    \<and> (\<forall>p. type_at (arena_list a') p =
           (if unat ad \<le> p \<and> p < unat ad + unat len then map_option (\<lambda>_. t) (type_at (arena_list a) p) else type_at (arena_list a) p))"
proof -
  let ?b = "unat (arena_base a)" and ?e = "unat (arena_base a) + unat (arena_size a)"
  have e: "?e < 2 ^ 64" using ok by (simp add: arena_ok_def)
  have al: "unat (ad + len) = unat ad + unat len"
    using e range(2) unat_plus_less [of ad "unat len"] by simp
  have ew: "unat (arena_base a + arena_size a) = ?e"
    using e unat_plus_less [of "arena_base a" "unat (arena_size a)"] by simp
  have inr: "\<not> (ad < arena_base a \<or> ad + len > arena_base a + arena_size a)"
    using range by (simp add: word_less_nat_alt al ew)
  obtain a1 where a1: "arena_split g a ad = (0, a1)" "arena_ok a1" "arena_base a1 = arena_base a" "arena_size a1 = arena_size a"
      "type_at (arena_list a1) = type_at (arena_list a)" "cut (arena_list a1) (unat ad)"
    using arena_split_correct [OF ok range(1)] range(2) by force
  obtain a2 where a2: "arena_split g a1 (ad + len) = (0, a2)" "arena_ok a2" "arena_base a2 = arena_base a" "arena_size a2 = arena_size a"
      "type_at (arena_list a2) = type_at (arena_list a)" "cut (arena_list a2) (unat ad)" "cut (arena_list a2) (unat ad + unat len)"
    using arena_split_correct [OF a1(2), of "ad + len" g] a1 range al by fastforce
  let ?ns = "map (mark_node ad len t d) (arena_list a2)"
  have tl: "tiles ?b (arena_list a2) ?e" using a2 by (simp add: arena_ok_def)
  have "n_start n < n_end n \<and> n_end n < 2 ^ 64" if "n \<in> set (arena_list a2)" for n
    using tiles_node [OF tl that] e by linarith
  then have mk: "type_at ?ns p = (if unat ad \<le> p \<and> p < unat ad + unat len
      then map_option (\<lambda>_. t) (type_at (arena_list a) p) else type_at (arena_list a) p)" for p
    using type_at_mark [of ad len "arena_list a2" t d p] a2(5-7) range(2) e by simp
  have "tiles ?b ?ns ?e" using tl by simp
  note c = coalesce_list_correct [OF this e]
  have "arena_markrange g a ad len t d = (0, arena_coalesce (a2\<lparr>arena_list := ?ns\<rparr>))"
    using inr a1(1) a2(1) unfolding arena_markrange_def by simp
  then show ?thesis
    using c mk a2(3,4) e by (auto simp: arena_coalesce_def arena_ok_def)
qed

theorem arena_markrange_correct_witness:
  "\<exists>a'. arena_markrange None (arena_init 0 1024) 100 10 1 None = (0, a') \<and> arena_ok a' \<and> no_equal_neighbours (arena_list a')
     \<and> (\<forall>p. type_at (arena_list a') p = (if 100 \<le> p \<and> p < 110 then Some 1 else if p < 1024 then Some 0 else None))"
proof -
  have "arena_ok (arena_init 0 1024)" by (rule arena_init_ok) simp_all
  note m = arena_markrange_correct [OF this, of 100 10 None 1 None]
  have old: "type_at (arena_list (arena_init 0 1024)) p = (if p < 1024 then Some 0 else None)" for p
    by (simp add: arena_init_def in_node_def n_start_def n_end_def)
  show ?thesis using m by (force simp: old arena_init_def [of 0 1024, THEN arg_cong [of _ _ arena_base]]
        arena_init_def [of 0 1024, THEN arg_cong [of _ _ arena_size]])
qed

text \<open>The range check adds address and length in 64 bits: a length so large that the sum wraps passes
  it, and arena_markrange then reports success although the type of no address in the arena
  changes.\<close>

theorem arena_markrange_wraps:
  "fst (arena_markrange None (arena_init 0 1024) 100 (2 ^ 64 - 50) 1 None) = 0
   \<and> (\<forall>p. type_at (arena_list (snd (arena_markrange None (arena_init 0 1024) 100 (2 ^ 64 - 50) 1 None))) p
        = type_at (arena_list (arena_init 0 1024)) p)"
proof -
  have "arena_markrange None (arena_init 0 1024) 100 (2 ^ 64 - 50) 1 None = (0, arena_init 0 1024)"
    by code_simp
  then show ?thesis by simp
qed

end
