(* ===== verification/Cfe_Malloc.thy ===== *)
theory Cfe_Malloc
  imports Prelude "HOL-Library.Monad_Syntax"
begin

text \<open>
  The boot loader's memory pool, src/broadcom/src/cfe/cfe/lib/lib_malloc.c, on the 32-bit target (4-byte
  pointers, 24-byte memnode_t).  A pool is the list of its nodes in the order of the next pointers, each
  with its address, and the words of memory that hold back pointers.  Addresses are naturals below
  2^32; where the code can overflow, in the rounding of the size and in realsize, the sums are taken
  modulo 2^32.  \<open>x AND (2^k - 1)\<close> keeps the low k bits and \<open>x - (x AND m)\<close> is \<open>x & ~m\<close>.
\<close>

record memnode =
  m_addr :: nat
  m_length :: nat
  m_alloc :: bool
  m_data :: nat

record mempool =
  nodes :: "memnode list"
  pool_base :: nat
  pool_length :: nat
  backptr :: "nat \<Rightarrow> nat option"

definition NODESIZE :: nat where "NODESIZE = 24"
definition PTRSIZE :: nat where "PTRSIZE = 4"
definition MINBLKSIZE :: nat where "MINBLKSIZE = 64"

definition memnode_data :: "memnode \<Rightarrow> nat" where
  "memnode_data m = m_addr m + NODESIZE"

definition kmeminit :: "nat \<Rightarrow> nat \<Rightarrow> mempool" where
  "kmeminit buffer len =
     \<lparr>nodes = [\<lparr>m_addr = buffer, m_length = len - NODESIZE, m_alloc = False, m_data = buffer + NODESIZE\<rparr>],
      pool_base = buffer, pool_length = len, backptr = (\<lambda>_. None)\<rparr>"

text \<open>One pass of the loop of \<open>kmemcompact\<close>; the node merged away loses its seal, which the model
  expresses by its absence from the list.\<close>

fun compact_pass :: "memnode list \<Rightarrow> memnode list \<times> nat" where
  "compact_pass (m # n # ms) =
     (if \<not> m_alloc m \<and> \<not> m_alloc n
      then (let (r, compacted) = compact_pass ms
            in (m\<lparr>m_length := m_length m + (NODESIZE + m_length n)\<rparr> # r, Suc compacted))
      else (let (r, compacted) = compact_pass (n # ms) in (m # r, compacted)))"
| "compact_pass ms = (ms, 0)"

lemma compact_pass_length: "compact_pass ns = (ms, k) \<Longrightarrow> length ms + k = length ns"
  by (induction ns arbitrary: ms k rule: compact_pass.induct) (auto simp: Let_def split: if_splits prod.splits)

function compact :: "memnode list \<Rightarrow> memnode list" where
  "compact ns = (case compact_pass ns of (ms, compacted) \<Rightarrow> if compacted > 0 then compact ms else ms)"
  by pat_completeness auto
termination
  by (relation "measure length") (auto dest!: sym [of "(_, _)"] compact_pass_length)

declare compact.simps [simp del]

definition kmemcompact :: "mempool \<Rightarrow> mempool" where
  "kmemcompact pool = pool\<lparr>nodes := compact (nodes pool)\<rparr>"

text \<open>None: the back pointer does not lead to a node of the pool.\<close>

definition kfree :: "mempool \<Rightarrow> nat \<Rightarrow> mempool option" where
  "kfree pool ptr =
     (if ptr < pool_base pool \<or> ptr \<ge> pool_base pool + pool_length pool then Some pool
      else do {
        a \<leftarrow> backptr pool (ptr - PTRSIZE);
        if a \<in> m_addr ` set (nodes pool)
        then Some (kmemcompact (pool\<lparr>nodes := map (\<lambda>m. if m_addr m = a then m\<lparr>m_alloc := False\<rparr> else m) (nodes pool)\<rparr>))
        else None
      })"

definition round_size :: "nat \<Rightarrow> nat" where
  "round_size sz =
     (let sz = (if sz = 0 then PTRSIZE else sz)
      in if sz AND (PTRSIZE - 1) \<noteq> 0
         then (let sz = (sz + PTRSIZE) mod 2 ^ 32 in sz - (sz AND (PTRSIZE - 1)))
         else sz)"

definition round_align :: "nat \<Rightarrow> nat" where
  "round_align align = (if align < PTRSIZE then 8 else align)"

definition realsize :: "nat \<Rightarrow> nat \<Rightarrow> nat \<Rightarrow> nat" where
  "realsize sz ptralign daddr =
     (let extra = (if daddr AND (ptralign - 1) \<noteq> 0
                   then (sz + (ptralign - (daddr AND (ptralign - 1)))) mod 2 ^ 32 else 0)
      in (sz + extra) mod 2 ^ 32)"

text \<open>The search: the nodes before the one found, it, and those after it.\<close>

fun find_fit :: "nat \<Rightarrow> nat \<Rightarrow> memnode list \<Rightarrow> (memnode list \<times> memnode \<times> memnode list) option" where
  "find_fit sz ptralign [] = None"
| "find_fit sz ptralign (m # ms) =
     (if m_alloc m \<or> m_length m < realsize sz ptralign (memnode_data m)
      then map_option (\<lambda>(a, n, b). (m # a, n, b)) (find_fit sz ptralign ms)
      else Some ([], m, ms))"

definition align_up :: "nat \<Rightarrow> nat \<Rightarrow> nat" where
  "align_up ptralign daddr =
     (if daddr AND (ptralign - 1) \<noteq> 0
      then (daddr + ptralign) - ((daddr + ptralign) AND (ptralign - 1)) else daddr)"

definition kmalloc :: "mempool \<Rightarrow> nat \<Rightarrow> nat \<Rightarrow> nat option \<times> mempool" where
  "kmalloc pool sz align =
     (let ptralign = round_align align; sz = round_size sz
      in case find_fit sz ptralign (nodes pool) of
           None \<Rightarrow> (None, pool)
         | Some (ms, m, ns) \<Rightarrow>
             (let daddr = align_up ptralign (memnode_data m);
                  rs = realsize sz ptralign (memnode_data m);
                  m' = m\<lparr>m_data := daddr, m_alloc := True\<rparr>;
                  pool = pool\<lparr>backptr := (backptr pool)(daddr - PTRSIZE \<mapsto> m_addr m)\<rparr>
              in if m_length m - rs < MINBLKSIZE
                 then (Some daddr, pool\<lparr>nodes := ms @ m' # ns\<rparr>)
                 else (let naddr = align_up PTRSIZE (daddr + sz);
                           blkend = memnode_data m + m_length m;
                           newm = \<lparr>m_addr = naddr, m_length = blkend - (naddr + NODESIZE), m_alloc = False,
                                   m_data = naddr + NODESIZE\<rparr>
                       in (Some daddr, pool\<lparr>nodes := ms @ m'\<lparr>m_length := naddr - memnode_data m\<rparr> # newm # ns\<rparr>))))"

record memstats =
  mem_totalbytes :: nat
  mem_allocbytes :: nat
  mem_freebytes :: nat
  mem_allocnodes :: nat
  mem_freenodes :: nat
  mem_largest :: nat

fun stats_loop :: "mempool \<Rightarrow> memnode list \<Rightarrow> memstats \<Rightarrow> int \<times> memstats" where
  "stats_loop pool [] st = (0, st)"
| "stats_loop pool (m # ms) st =
     (let st = (if m_alloc m
                then st\<lparr>mem_allocnodes := mem_allocnodes st + 1, mem_allocbytes := mem_allocbytes st + m_length m\<rparr>
                else st\<lparr>mem_freenodes := mem_freenodes st + 1, mem_freebytes := mem_freebytes st + m_length m,
                        mem_largest := max (mem_largest st) (m_length m)\<rparr>)
      in if ms \<noteq> [] \<and> memnode_data m + m_length m \<noteq> m_addr (hd ms) then (-1, st)
         else if ms \<noteq> [] \<and> m_addr (hd ms) < m_addr m then (-1, st)
         else if m_data m < m_addr m then (-1, st)
         else if m_alloc m \<and> backptr pool (m_data m - PTRSIZE) \<noteq> Some (m_addr m) then (-1, st)
         else stats_loop pool ms st)"

definition kmemstats :: "mempool \<Rightarrow> int \<times> memstats" where
  "kmemstats pool = stats_loop pool (nodes pool)
     \<lparr>mem_totalbytes = pool_length pool, mem_allocbytes = 0, mem_freebytes = 0, mem_allocnodes = 0,
      mem_freenodes = 0, mem_largest = 0\<rparr>"

section \<open>Invariant\<close>

definition m_end :: "memnode \<Rightarrow> nat" where
  "m_end m = m_addr m + NODESIZE + m_length m"

fun tiling :: "nat \<Rightarrow> memnode list \<Rightarrow> nat \<Rightarrow> bool" where
  "tiling b [] e = (b = e)"
| "tiling b (m # ms) e = (m_addr m = b \<and> tiling (m_end m) ms e)"

definition node_ok :: "(nat \<Rightarrow> nat option) \<Rightarrow> memnode \<Rightarrow> bool" where
  "node_ok bp m \<longleftrightarrow> 4 dvd m_addr m \<and> m_addr m + NODESIZE \<le> m_data m \<and> m_data m \<le> m_end m
     \<and> (m_alloc m \<longrightarrow> bp (m_data m - PTRSIZE) = Some (m_addr m) \<and> m_data m < m_end m)"

definition pool_ok :: "mempool \<Rightarrow> bool" where
  "pool_ok pool \<longleftrightarrow> pool_base pool + pool_length pool < 2 ^ 32
     \<and> tiling (pool_base pool) (nodes pool) (pool_base pool + pool_length pool)
     \<and> (\<forall>m\<in>set (nodes pool). node_ok (backptr pool) m)"

lemma tiling_append: "tiling b (xs @ ys) e \<longleftrightarrow> (\<exists>m. tiling b xs m \<and> tiling m ys e)"
  by (induction xs arbitrary: b) auto

lemma tiling_le: "tiling b ms e \<Longrightarrow> b \<le> e"
  by (induction ms arbitrary: b) (fastforce simp: m_end_def)+

lemma tiling_node: "tiling b ms e \<Longrightarrow> m \<in> set ms \<Longrightarrow> b \<le> m_addr m \<and> m_end m \<le> e"
proof (induction ms arbitrary: b)
  case (Cons n ms)
  then show ?case using tiling_le [of "m_end n" ms e] by (fastforce simp: m_end_def)
qed simp

text \<open>Different nodes of a tiling occupy disjoint ranges.\<close>

lemma tiling_disjoint:
  "tiling b (xs @ m # ys) e \<Longrightarrow> n \<in> set (xs @ ys) \<Longrightarrow> m_end n \<le> m_addr m \<or> m_end m \<le> m_addr n"
  using tiling_node by (fastforce simp: tiling_append)


section \<open>Rounding\<close>

lemma and_low_bits: "(x :: nat) AND (2 ^ k - 1) = x mod 2 ^ k"
  by (metis mask_eq_exp_minus_1 take_bit_eq_mask take_bit_eq_mod)

lemma align_up_pow2:
  "align_up (2 ^ k) d = (if d mod 2 ^ k = 0 then d else d + (2 ^ k - d mod 2 ^ k))"
proof -
  have "d mod 2 ^ k < 2 ^ k" by simp
  moreover have "(d + 2 ^ k) mod 2 ^ k = d mod 2 ^ k" by simp
  ultimately show ?thesis unfolding align_up_def and_low_bits by simp
qed

lemma align_up_props:
  "2 ^ k dvd align_up (2 ^ k) d" "d \<le> align_up (2 ^ k) d"
proof -
  define P :: nat where "P = 2 ^ k"
  define q r where "q = d div P" and "r = d mod P"
  have "r < P" by (simp add: r_def P_def)
  moreover have "d = q * P + r" unfolding q_def r_def by (rule div_mult_mod_eq [symmetric])
  ultimately have "d + (P - r) = (q + 1) * P" by (simp add: algebra_simps)
  then have "P dvd d + (P - d mod P)" by (simp add: r_def)
  then show "2 ^ k dvd align_up (2 ^ k) d" unfolding align_up_pow2 P_def by (simp add: mod_eq_0_iff_dvd)
  show "d \<le> align_up (2 ^ k) d" unfolding align_up_pow2 by (metis le_add1 order_refl)
qed

lemma align_up_dvd: "4 dvd d \<Longrightarrow> align_up PTRSIZE d = d"
  using align_up_pow2 [of 2 d] by (simp add: PTRSIZE_def)

lemma round_size_small:
  assumes "n < 2 ^ 30"
  shows "n \<le> round_size n" "round_size n \<le> n + 4" "4 dvd round_size n" "0 < round_size n"
proof -
  have "round_size n = (if n = 0 then 4 else if n mod 4 \<noteq> 0 then (n + 4) - (n + 4) mod 4 else n)"
    using assms and_low_bits [of _ 2] by (auto simp: round_size_def PTRSIZE_def Let_def)
  then show "n \<le> round_size n" "round_size n \<le> n + 4" "4 dvd round_size n" "0 < round_size n"
    by (auto simp: mod_eq_0_iff_dvd) (presburger)+
qed

lemma realsize_small:
  assumes "n \<le> 2 ^ 30 + 4" "k \<le> 29"
  shows "realsize n (2 ^ k) d = (if d mod 2 ^ k = 0 then n else n + (n + (2 ^ k - d mod 2 ^ k)))"
proof -
  have "(2 :: nat) ^ k \<le> 2 ^ 29" using assms(2) by (rule power_increasing) simp
  then have "n + (n + (2 ^ k - d mod 2 ^ k)) < 2 ^ 32" using assms(1) by simp
  then show ?thesis unfolding realsize_def and_low_bits Let_def by simp
qed

text \<open>An alignment argument the code allows, as the power of two it uses.\<close>

lemma round_align_pow2:
  assumes "align = 0 \<or> align = 2 ^ j" "align \<le> 2 ^ 29"
  obtains k where "round_align align = 2 ^ k" "2 \<le> k" "k \<le> 29"
proof (cases "align < 4")
  case True
  then show ?thesis using that [of 3] by (simp add: round_align_def PTRSIZE_def)
next
  case False
  then have j: "align = 2 ^ j" using assms(1) by auto
  have "2 \<le> j"
  proof (rule ccontr)
    assume "\<not> 2 \<le> j"
    then have "j = 0 \<or> j = 1" by auto
    then show False using False j by auto
  qed
  moreover have "j \<le> 29" using power_le_imp_le_exp [of 2 j 29] assms(2) j by simp
  ultimately show ?thesis using that j False by (simp add: round_align_def PTRSIZE_def)
qed

section \<open>Allocation\<close>

lemma find_fit_Some:
  "find_fit sz al ms = Some (xs, m, ys) \<Longrightarrow>
   ms = xs @ m # ys \<and> \<not> m_alloc m \<and> realsize sz al (memnode_data m) \<le> m_length m"
  by (induction ms arbitrary: xs) (auto split: if_splits)

lemma find_fit_None:
  "find_fit sz al ms = None \<longleftrightarrow> (\<forall>m\<in>set ms. m_alloc m \<or> m_length m < realsize sz al (memnode_data m))"
  by (induction ms) auto


text \<open>A chosen node has room for the aligned block, and where the code splits it also for the header of
  the rest.\<close>

lemma fit_room:
  assumes "sz \<le> 2 ^ 30 + 4" "k \<le> 29" "realsize sz (2 ^ k) (memnode_data m) \<le> m_length m"
  shows "align_up (2 ^ k) (memnode_data m) + sz \<le> m_end m"
    and "m_length m - realsize sz (2 ^ k) (memnode_data m) \<ge> MINBLKSIZE \<Longrightarrow>
      align_up (2 ^ k) (memnode_data m) + sz + NODESIZE \<le> m_end m"
proof -
  let ?d = "memnode_data m"
  have me: "m_end m = ?d + m_length m" by (simp add: m_end_def memnode_data_def)
  have "(if c then d else d + x) + sz \<le> d + (if c then sz else sz + (sz + x))" for c d x by simp
  then have "align_up (2 ^ k) ?d + sz \<le> ?d + realsize sz (2 ^ k) ?d"
    unfolding realsize_small [OF assms(1,2)] align_up_pow2 .
  then show "align_up (2 ^ k) ?d + sz \<le> m_end m"
    "m_length m - realsize sz (2 ^ k) ?d \<ge> MINBLKSIZE \<Longrightarrow> align_up (2 ^ k) ?d + sz + NODESIZE \<le> m_end m"
    using assms(3) me by (simp_all add: MINBLKSIZE_def NODESIZE_def)
qed

text \<open>What a successful kmalloc does to the list of nodes.\<close>

definition allocated_from :: "mempool \<Rightarrow> mempool \<Rightarrow> nat \<Rightarrow> nat \<Rightarrow> bool" where
  "allocated_from pool pool' p sz \<longleftrightarrow>
     (\<exists>xs m ys m' rest. nodes pool = xs @ m # ys \<and> \<not> m_alloc m \<and> nodes pool' = xs @ m' # rest @ ys
        \<and> list_all (\<lambda>r. \<not> m_alloc r) rest \<and> m_alloc m' \<and> m_addr m' = m_addr m \<and> m_data m' = p
        \<and> m_addr m' + NODESIZE \<le> p \<and> p + sz \<le> m_end m')"

lemma allocated_from_mono:
  assumes "allocated_from pool pool' p s" "n \<le> s"
  shows "allocated_from pool pool' p n"
proof -
  obtain xs m ys m' rest where *: "nodes pool = xs @ m # ys" "\<not> m_alloc m" "nodes pool' = xs @ m' # rest @ ys"
      "list_all (\<lambda>r. \<not> m_alloc r) rest" "m_alloc m'" "m_addr m' = m_addr m" "m_data m' = p"
      "m_addr m' + NODESIZE \<le> p" "p + s \<le> m_end m'"
    using assms(1) unfolding allocated_from_def by blast
  moreover have "p + n \<le> m_end m'" using *(9) assms(2) by simp
  ultimately show ?thesis unfolding allocated_from_def by blast
qed

lemma node_ok_upd:
  assumes "node_ok bp n" "m_end n \<le> a \<or> e \<le> m_addr n" "a \<le> x" "x < e"
  shows "node_ok (bp(x \<mapsto> v)) n"
proof -
  have "m_addr n \<le> m_data n - PTRSIZE" "m_data n - PTRSIZE < m_end n"
    using assms(1) by (auto simp: node_ok_def PTRSIZE_def NODESIZE_def m_end_def)
  then have "m_data n - PTRSIZE \<noteq> x" using assms(2-4) by linarith
  then show ?thesis using assms(1) by (simp add: node_ok_def)
qed

lemma kmalloc_pool:
  assumes ok: "pool_ok pool" and sz: "n < 2 ^ 30" and al: "align = 0 \<or> align = 2 ^ j" "align \<le> 2 ^ 29"
    and res: "kmalloc pool n align = (Some p, pool')"
  shows "pool_ok pool' \<and> round_align align dvd p \<and> allocated_from pool pool' p (round_size n)"
proof -
  obtain k where k: "round_align align = 2 ^ k" "2 \<le> k" "k \<le> 29" using round_align_pow2 [OF al] .
  define s where "s = round_size n"
  have s: "s \<le> 2 ^ 30 + 4" "4 dvd s" "0 < s" using round_size_small [OF sz] sz by (auto simp: s_def)
  obtain xs m ys where f: "find_fit s (2 ^ k) (nodes pool) = Some (xs, m, ys)"
    using res k by (auto simp: kmalloc_def Let_def s_def split: option.splits)
  note ff = find_fit_Some [OF f]
  define d where "d = align_up (2 ^ k) (memnode_data m)"
  have dd: "2 ^ k dvd d" "memnode_data m \<le> d" unfolding d_def by (rule align_up_props)+
  have "4 dvd (2 :: nat) ^ k" using k(2) le_imp_power_dvd [of 2 k 2] by simp
  then have d4: "4 dvd d" using dd(1) dvd_trans by blast
  have room: "d + s \<le> m_end m" using fit_room(1) [OF s(1) k(3)] ff by (simp add: d_def)
  let ?e = "pool_base pool + pool_length pool"
  have t: "tiling (pool_base pool) (xs @ m # ys) ?e" and e: "?e < 2 ^ 32" using ok ff by (auto simp: pool_ok_def)
  have nok: "node_ok (backptr pool) r" if "r \<in> set (xs @ m # ys)" for r using ok ff that by (auto simp: pool_ok_def)
  let ?bp = "(backptr pool)(d - PTRSIZE \<mapsto> m_addr m)"
  have d4r: "m_addr m \<le> d - PTRSIZE" "d - PTRSIZE < m_end m"
    using dd(2) room by (auto simp: memnode_data_def NODESIZE_def PTRSIZE_def m_end_def)
  have others: "node_ok ?bp r" if r: "r \<in> set (xs @ ys)" for r
    by (rule node_ok_upd [OF nok tiling_disjoint [OF t r] d4r]) (use r in auto)
  have m4: "4 dvd m_addr m" using nok [of m] by (simp add: node_ok_def)
  show ?thesis
  proof (cases "m_length m - realsize s (2 ^ k) (memnode_data m) < MINBLKSIZE")
    case True
    let ?m = "m\<lparr>m_data := d, m_alloc := True\<rparr>"
    have r: "p = d" "pool' = pool\<lparr>backptr := ?bp, nodes := xs @ ?m # ys\<rparr>"
      using res f k(1) True by (auto simp: kmalloc_def Let_def s_def d_def)
    have "node_ok ?bp ?m" using dd(2) room m4 s(3) by (simp add: node_ok_def memnode_data_def m_end_def)
    moreover have "tiling (pool_base pool) (xs @ ?m # ys) ?e" using t by (auto simp: tiling_append m_end_def)
    ultimately have "pool_ok pool'" using others e by (auto simp: pool_ok_def r)
    moreover have "allocated_from pool pool' p s"
      unfolding allocated_from_def
      using ff room dd(2) by (intro exI [of _ xs] exI [of _ m] exI [of _ ys] exI [of _ ?m] exI [of _ "[]"])
        (simp add: r m_end_def memnode_data_def)
    ultimately show ?thesis using r(1) dd(1) k(1) by (simp add: s_def)
  next
    case False
    have room2: "d + s + NODESIZE \<le> m_end m" using fit_room(2) [OF s(1) k(3)] ff False by (simp add: d_def)
    have na: "align_up PTRSIZE (d + s) = d + s" using d4 s(2) by (intro align_up_dvd) simp
    let ?m = "m\<lparr>m_data := d, m_alloc := True, m_length := d + s - memnode_data m\<rparr>"
    let ?r = "\<lparr>m_addr = d + s, m_length = memnode_data m + m_length m - (d + s + NODESIZE), m_alloc = False,
               m_data = d + s + NODESIZE\<rparr>"
    have r: "p = d" "pool' = pool\<lparr>backptr := ?bp, nodes := xs @ ?m # ?r # ys\<rparr>"
      using res f k(1) False na by (auto simp: kmalloc_def Let_def s_def d_def)
    have ends: "m_end ?m = d + s" "m_end ?r = m_end m"
      using dd(2) room2 by (auto simp: m_end_def memnode_data_def)
    have "node_ok ?bp ?m" using dd(2) m4 ends s(3) by (simp add: node_ok_def memnode_data_def)
    moreover have "node_ok ?bp ?r" using d4 s(2) ends room2 by (simp add: node_ok_def)
    moreover have "tiling (pool_base pool) (xs @ ?m # ?r # ys) ?e" using t ends by (auto simp: tiling_append)
    ultimately have "pool_ok pool'" using others e by (auto simp: pool_ok_def r)
    moreover have "allocated_from pool pool' p s"
      unfolding allocated_from_def
      using ff ends dd(2) by (intro exI [of _ xs] exI [of _ m] exI [of _ ys] exI [of _ ?m] exI [of _ "[?r]"])
        (simp add: r memnode_data_def)
    ultimately show ?thesis using r(1) dd(1) k(1) by (simp add: s_def)
  qed
qed


section \<open>Freeing\<close>

fun no_free_neighbours :: "memnode list \<Rightarrow> bool" where
  "no_free_neighbours (m # n # ms) = (\<not> (\<not> m_alloc m \<and> \<not> m_alloc n) \<and> no_free_neighbours (n # ms))"
| "no_free_neighbours ms = True"

lemma compact_pass_done: "compact_pass ns = (ms, 0) \<Longrightarrow> ms = ns \<and> no_free_neighbours ns"
  by (induction ns arbitrary: ms rule: compact_pass.induct) (auto simp: Let_def split: if_splits prod.splits)

lemma compact_pass_correct:
  "tiling b ns e \<Longrightarrow> (\<forall>m\<in>set ns. node_ok bp m) \<Longrightarrow> compact_pass ns = (ms, k) \<Longrightarrow>
   tiling b ms e \<and> (\<forall>m\<in>set ms. node_ok bp m) \<and> filter m_alloc ms = filter m_alloc ns"
proof (induction ns arbitrary: b ms k rule: compact_pass.induct)
  case (1 m n ns)
  show ?case
  proof (cases "\<not> m_alloc m \<and> \<not> m_alloc n")
    case True
    obtain rs j where r: "compact_pass ns = (rs, j)" by force
    let ?m = "m\<lparr>m_length := m_length m + (NODESIZE + m_length n)\<rparr>"
    have e: "m_end ?m = m_end n" using "1.prems"(1) by (simp add: m_end_def)
    have "node_ok bp ?m" using "1.prems"(1,2) True by (auto simp: node_ok_def m_end_def)
    moreover have "tiling (m_end n) ns e" "\<forall>m\<in>set ns. node_ok bp m" using "1.prems" by auto
    ultimately show ?thesis using "1.IH"(1) [OF True _ _ r] "1.prems" True r e by auto
  next
    case False
    obtain rs j where r: "compact_pass (n # ns) = (rs, j)" by force
    have "tiling (m_end m) (n # ns) e" "\<forall>m\<in>set (n # ns). node_ok bp m" using "1.prems" by auto
    from "1.IH"(2) [OF False this r] show ?thesis using "1.prems" False r by auto
  qed
qed auto

lemma compact_correct:
  "tiling b ns e \<Longrightarrow> (\<forall>m\<in>set ns. node_ok bp m) \<Longrightarrow>
   tiling b (compact ns) e \<and> (\<forall>m\<in>set (compact ns). node_ok bp m) \<and> filter m_alloc (compact ns) = filter m_alloc ns
     \<and> no_free_neighbours (compact ns)"
proof (induction ns rule: compact.induct)
  case (1 ns)
  obtain ms k where p: "compact_pass ns = (ms, k)" by force
  note c = compact_pass_correct [OF "1.prems" p]
  show ?case
  proof (cases "k > 0")
    case True
    then have "compact ns = compact ms" using p by (subst compact.simps) simp
    then show ?thesis using "1.IH" [OF p [symmetric] True] c by simp
  next
    case False
    then have "compact ns = ms" using p by (subst compact.simps) simp
    then show ?thesis using c compact_pass_done [of ns ms] p False by auto
  qed
qed

text \<open>C8: kmalloc on a well-formed pool, for sizes below 2^30 and power-of-two alignments, leaves a
  well-formed pool and hands out an aligned block of at least the requested size that lies inside one
  node that was free, behind its header; no other node changes except that the unused rest may become
  a new free node.\<close>

theorem kmalloc_correct:
  assumes "pool_ok pool" "n < 2 ^ 30" "align = 0 \<or> align = 2 ^ j" "align \<le> 2 ^ 29"
    and "kmalloc pool n align = (Some p, pool')"
  shows "pool_ok pool' \<and> (if align < 4 then 8 else align) dvd p \<and> allocated_from pool pool' p n"
proof -
  have k: "pool_ok pool'" "round_align align dvd p" "allocated_from pool pool' p (round_size n)"
    using kmalloc_pool [OF assms] by auto
  have "n \<le> round_size n" using round_size_small(1) [OF assms(2)] .
  with k(3) have "allocated_from pool pool' p n" by (rule allocated_from_mono)
  then show ?thesis using k by (simp add: round_align_def PTRSIZE_def split: if_splits)
qed

lemma kmeminit_ok: "buffer + len < 2 ^ 32 \<Longrightarrow> 24 \<le> len \<Longrightarrow> 4 dvd buffer \<Longrightarrow> pool_ok (kmeminit buffer len)"
  by (simp add: pool_ok_def kmeminit_def node_ok_def m_end_def NODESIZE_def)

definition pool_example :: mempool where
  "pool_example = \<lparr>nodes = [\<lparr>m_addr = 4096, m_length = 100, m_alloc = True, m_data = 4120\<rparr>,
       \<lparr>m_addr = 4220, m_length = 876, m_alloc = False, m_data = 4244\<rparr>],
     pool_base = 4096, pool_length = 1024, backptr = [4116 \<mapsto> 4096]\<rparr>"

lemma kmalloc_example: "kmalloc (kmeminit 4096 1024) 100 8 = (Some 4120, pool_example)"
  by (simp add: kmalloc_def kmeminit_def pool_example_def round_align_def round_size_def realsize_def align_up_def
      memnode_data_def NODESIZE_def PTRSIZE_def MINBLKSIZE_def Let_def)

lemma pool_example_ok: "pool_ok pool_example"
  by (simp add: pool_ok_def pool_example_def node_ok_def m_end_def NODESIZE_def PTRSIZE_def)

theorem kmalloc_correct_witness:
  "pool_ok pool_example \<and> (8 :: nat) dvd 4120 \<and> allocated_from (kmeminit 4096 1024) pool_example 4120 100"
  using kmalloc_correct [OF kmeminit_ok _ _ _ kmalloc_example, of 3] by simp

text \<open>C34: freeing the block of an allocated node keeps the pool well-formed, leaves every other
  allocated node exactly as it was, and merges free space until no two neighbouring nodes are
  free.\<close>

theorem kfree_correct:
  assumes ok: "pool_ok pool" and nd: "nodes pool = xs @ m # ys" and al: "m_alloc m"
  shows "\<exists>pool'. kfree pool (m_data m) = Some pool' \<and> pool_ok pool' \<and> no_free_neighbours (nodes pool')
    \<and> filter m_alloc (nodes pool') = filter m_alloc (xs @ ys)"
proof -
  let ?e = "pool_base pool + pool_length pool"
  let ?f = "\<lambda>n. if m_addr n = m_addr m then n\<lparr>m_alloc := False\<rparr> else n"
  have t: "tiling (pool_base pool) (xs @ m # ys) ?e" and nok: "\<forall>n\<in>set (xs @ m # ys). node_ok (backptr pool) n"
    using ok nd by (auto simp: pool_ok_def)
  have mo: "backptr pool (m_data m - PTRSIZE) = Some (m_addr m)" "m_data m < m_end m" "m_addr m + NODESIZE \<le> m_data m"
    using nok al by (auto simp: node_ok_def)
  have mb: "pool_base pool \<le> m_addr m" "m_end m \<le> ?e" using tiling_node [OF t, of m] by auto
  have "m_addr n \<noteq> m_addr m" if "n \<in> set (xs @ ys)" for n
    using tiling_disjoint [OF t that] by (auto simp: m_end_def NODESIZE_def)
  then have mp: "map ?f (nodes pool) = xs @ m\<lparr>m_alloc := False\<rparr> # ys"
    unfolding nd by (auto intro!: map_idI)
  have "tiling (pool_base pool) (xs @ m\<lparr>m_alloc := False\<rparr> # ys) ?e" using t by (auto simp: tiling_append m_end_def)
  moreover have "\<forall>n\<in>set (xs @ m\<lparr>m_alloc := False\<rparr> # ys). node_ok (backptr pool) n"
    using nok by (auto simp: node_ok_def m_end_def)
  ultimately have c: "tiling (pool_base pool) (compact (xs @ m\<lparr>m_alloc := False\<rparr> # ys)) ?e"
      "\<forall>n\<in>set (compact (xs @ m\<lparr>m_alloc := False\<rparr> # ys)). node_ok (backptr pool) n"
      "filter m_alloc (compact (xs @ m\<lparr>m_alloc := False\<rparr> # ys)) = filter m_alloc (xs @ m\<lparr>m_alloc := False\<rparr> # ys)"
      "no_free_neighbours (compact (xs @ m\<lparr>m_alloc := False\<rparr> # ys))"
    using compact_correct by blast+
  have "kfree pool (m_data m) = Some (pool\<lparr>nodes := compact (xs @ m\<lparr>m_alloc := False\<rparr> # ys)\<rparr>)"
    using mo mb mp nd by (simp add: kfree_def kmemcompact_def)
  then show ?thesis using c ok by (simp add: pool_ok_def)
qed

theorem kfree_correct_witness:
  "\<exists>pool'. kfree pool_example 4120 = Some pool' \<and> pool_ok pool' \<and> no_free_neighbours (nodes pool') \<and> filter m_alloc (nodes pool') = []"
  using kfree_correct [OF pool_example_ok, of "[]" "\<lparr>m_addr = 4096, m_length = 100, m_alloc = True, m_data = 4120\<rparr>"]
  by (simp add: pool_example_def)

section \<open>Statistics and a flaw\<close>

lemma stats_loop_correct:
  "tiling b ms e \<Longrightarrow> (\<forall>m\<in>set ms. node_ok (backptr pool) m) \<Longrightarrow> stats_loop pool ms st = (r, st') \<Longrightarrow>
   r = 0 \<and> mem_totalbytes st' = mem_totalbytes st
     \<and> b + (mem_allocbytes st' + mem_freebytes st' + NODESIZE * (mem_allocnodes st' + mem_freenodes st'))
         = e + (mem_allocbytes st + mem_freebytes st + NODESIZE * (mem_allocnodes st + mem_freenodes st))"
proof (induction ms arbitrary: b st)
  case (Cons m ms)
  define st1 where "st1 = (if m_alloc m
      then st\<lparr>mem_allocnodes := mem_allocnodes st + 1, mem_allocbytes := mem_allocbytes st + m_length m\<rparr>
      else st\<lparr>mem_freenodes := mem_freenodes st + 1, mem_freebytes := mem_freebytes st + m_length m,
              mem_largest := max (mem_largest st) (m_length m)\<rparr>)"
  have ok: "node_ok (backptr pool) m" and t: "m_addr m = b" "tiling (m_end m) ms e" using Cons.prems by auto
  have hd: "ms \<noteq> [] \<Longrightarrow> m_addr (hd ms) = m_end m" using t by (cases ms) auto
  have "stats_loop pool (m # ms) st = stats_loop pool ms st1"
    using ok hd by (auto simp: st1_def Let_def node_ok_def m_end_def memnode_data_def)
  then have "stats_loop pool ms st1 = (r, st')" using Cons.prems by simp
  from Cons.IH [OF t(2) _ this] Cons.prems(2) show ?case
    using t(1) by (auto simp: st1_def m_end_def algebra_simps split: if_splits)
qed auto

text \<open>Kmemstats finds a well-formed pool consistent, and its counters account for every byte: the
  bytes of allocated and free nodes and one header per node add up to the size of the pool.\<close>

theorem kmemstats_correct:
  assumes "pool_ok pool" "kmemstats pool = (r, st)"
  shows "r = 0 \<and> mem_allocbytes st + mem_freebytes st + 24 * (mem_allocnodes st + mem_freenodes st) = mem_totalbytes st"
  using stats_loop_correct [of "pool_base pool" "nodes pool" "pool_base pool + pool_length pool" pool] assms
  by (fastforce simp: pool_ok_def kmemstats_def NODESIZE_def)

theorem kmemstats_correct_witness: "fst (kmemstats pool_example) = 0"
  using kmemstats_correct [OF pool_example_ok, of "fst (kmemstats pool_example)" "snd (kmemstats pool_example)"] by simp

text \<open>Rounding up a size of 2^32 - 3 or more overflows to 0: kmalloc then returns a pointer although
  no such block exists, and the pointer is the header of a free node.\<close>

theorem kmalloc_size_overflow:
  "case kmalloc (kmeminit 4096 1024) (2 ^ 32 - 1) 8 of (p, pool) \<Rightarrow>
     p = Some 4120 \<and> map m_addr (nodes pool) = [4096, 4120] \<and> map m_alloc (nodes pool) = [True, False]"
  by (simp add: kmalloc_def kmeminit_def round_align_def round_size_def realsize_def align_up_def
      memnode_data_def NODESIZE_def PTRSIZE_def MINBLKSIZE_def Let_def)

end
