(* ===== verification/Cfe_String.thy ===== *)
theory Cfe_String
  imports Cstring
begin

text \<open>
  The boot loader's string library: src/broadcom/src/cfe/cfe/lib/lib_string.c, lib_string2.c and lib_misc.c.
  Routines that only read take the string behind their pointer; routines that write work on a buffer, the
  list of its bytes with their NULs, in which pointers are indices and an access outside it is the value
  None.  A plain char is signed on the target, an int has 32 bits.
\<close>

section \<open>Comparing and searching\<close>

definition schar :: "char \<Rightarrow> int" where
  "schar c = (let n = int (of_char c) in if n < 128 then n else n - 256)"

fun lib_strcmp :: "string \<Rightarrow> string \<Rightarrow> int" where
  "lib_strcmp (d # dest) (s # src) =
     (if schar d < schar s then -1 else if schar d > schar s then 1 else lib_strcmp dest src)"
| "lib_strcmp (d # dest) [] = 1"
| "lib_strcmp [] (s # src) = -1"
| "lib_strcmp [] [] = 0"

fun lib_strncmp :: "string \<Rightarrow> string \<Rightarrow> nat \<Rightarrow> int" where
  "lib_strncmp (d # dest) (s # src) (Suc cnt) =
     (if schar d < schar s then -1 else if schar d > schar s then 1 else lib_strncmp dest src cnt)"
| "lib_strncmp dest src cnt =
     (if cnt = 0 then 0
      else if dest \<noteq> [] \<and> src = [] then 1
      else if dest = [] \<and> src \<noteq> [] then -1
      else 0)"

definition lib_toupper :: "char \<Rightarrow> char" where
  "lib_toupper c = (if schar c \<ge> 97 \<and> schar c \<le> 122 then char_of (of_char c - (32 :: nat)) else c)"

fun lib_strcmpi :: "string \<Rightarrow> string \<Rightarrow> int" where
  "lib_strcmpi (d # dest) (s # src) =
     (let dc = lib_toupper d; sc = lib_toupper s
      in if schar dc < schar sc then -1 else if schar dc > schar sc then 1 else lib_strcmpi dest src)"
| "lib_strcmpi (d # dest) [] = 1"
| "lib_strcmpi [] (s # src) = -1"
| "lib_strcmpi [] [] = 0"

fun lib_strlen :: "string \<Rightarrow> nat" where
  "lib_strlen [] = 0"
| "lib_strlen (c # str) = Suc (lib_strlen str)"

fun lib_strchr :: "string \<Rightarrow> char \<Rightarrow> string option" where
  "lib_strchr [] c = None"
| "lib_strchr (d # dest) c = (if d = c then Some (d # dest) else lib_strchr dest c)"

fun lib_strnchr :: "string \<Rightarrow> char \<Rightarrow> nat \<Rightarrow> string option" where
  "lib_strnchr (d # dest) c (Suc cnt) = (if d = c then Some (d # dest) else lib_strnchr dest c cnt)"
| "lib_strnchr dest c cnt = None"

fun strrchr_loop :: "string \<Rightarrow> char \<Rightarrow> string option \<Rightarrow> string option" where
  "strrchr_loop [] c ret = ret"
| "strrchr_loop (d # dest) c ret = strrchr_loop dest c (if d = c then Some (d # dest) else ret)"

definition lib_strrchr :: "string \<Rightarrow> char \<Rightarrow> string option" where
  "lib_strrchr dest c = strrchr_loop dest c None"

fun lib_memcmp :: "bytes \<Rightarrow> bytes \<Rightarrow> nat \<Rightarrow> int option" where
  "lib_memcmp d s 0 = Some 0"
| "lib_memcmp (d # ds) (s # ss) (Suc cnt) = (if d < s then Some (-1) else if d > s then Some 1 else lib_memcmp ds ss cnt)"
| "lib_memcmp _ _ (Suc cnt) = None"

section \<open>Writing into buffers\<close>

definition peek :: "char list \<Rightarrow> nat \<Rightarrow> char option" where
  "peek buf p = (if p < length buf then Some (buf ! p) else None)"

definition poke :: "char list \<Rightarrow> nat \<Rightarrow> char \<Rightarrow> char list option" where
  "poke buf p c = (if p < length buf then Some (buf[p := c]) else None)"

fun copy_string :: "char list \<Rightarrow> nat \<Rightarrow> string \<Rightarrow> char list option" where
  "copy_string buf p [] = poke buf p NUL"
| "copy_string buf p (c # src) = do { buf \<leftarrow> poke buf p c; copy_string buf (Suc p) src }"

definition lib_strcpy :: "char list \<Rightarrow> nat \<Rightarrow> string \<Rightarrow> (char list \<times> nat) option" where
  "lib_strcpy buf dest src = do { buf \<leftarrow> copy_string buf dest src; Some (buf, dest) }"

fun strncpy_loop :: "char list \<Rightarrow> nat \<Rightarrow> string \<Rightarrow> nat \<Rightarrow> char list option" where
  "strncpy_loop buf p (c # src) (Suc cnt) = do { buf \<leftarrow> poke buf p c; strncpy_loop buf (Suc p) src cnt }"
| "strncpy_loop buf p src cnt = (if cnt > 0 then poke buf p NUL else Some buf)"

definition lib_strncpy :: "char list \<Rightarrow> nat \<Rightarrow> string \<Rightarrow> nat \<Rightarrow> (char list \<times> nat) option" where
  "lib_strncpy buf dest src cnt = do { buf \<leftarrow> strncpy_loop buf dest src cnt; Some (buf, dest) }"

fun xstrncpy_loop :: "char list \<Rightarrow> nat \<Rightarrow> string \<Rightarrow> nat \<Rightarrow> nat \<Rightarrow> (char list \<times> nat) option" where
  "xstrncpy_loop buf p [] cnt copied = do { buf \<leftarrow> poke buf p NUL; Some (buf, copied) }"
| "xstrncpy_loop buf p (c # src) cnt copied =
     (if cnt > 1 then do { buf \<leftarrow> poke buf p c; xstrncpy_loop buf (Suc p) src (cnt - 1) (Suc copied) }
      else do { buf \<leftarrow> poke buf p NUL; Some (buf, copied) })"

definition lib_xstrncpy :: "char list \<Rightarrow> nat \<Rightarrow> string \<Rightarrow> nat \<Rightarrow> (char list \<times> nat) option" where
  "lib_xstrncpy buf dest src cnt = xstrncpy_loop buf dest src cnt 0"

fun lib_memset_loop :: "char list \<Rightarrow> nat \<Rightarrow> char \<Rightarrow> nat \<Rightarrow> (char list \<times> nat) option" where
  "lib_memset_loop buf d c 0 = Some (buf, d)"
| "lib_memset_loop buf d c (Suc cnt) = do { buf \<leftarrow> poke buf d c; lib_memset_loop buf (Suc d) c cnt }"

definition lib_memset :: "char list \<Rightarrow> nat \<Rightarrow> int \<Rightarrow> nat \<Rightarrow> (char list \<times> nat) option" where
  "lib_memset buf dest c cnt = lib_memset_loop buf dest (char_of (c mod 256)) cnt"

fun memcpy_loop :: "char list \<Rightarrow> nat \<Rightarrow> char list \<Rightarrow> nat \<Rightarrow> char list option" where
  "memcpy_loop buf d s 0 = Some buf"
| "memcpy_loop buf d (c # s) (Suc cnt) = do { buf \<leftarrow> poke buf d c; memcpy_loop buf (Suc d) s cnt }"
| "memcpy_loop buf d [] (Suc cnt) = None"

definition lib_memcpy :: "char list \<Rightarrow> nat \<Rightarrow> char list \<Rightarrow> nat \<Rightarrow> (char list \<times> nat) option" where
  "lib_memcpy buf dest src cnt = do { buf \<leftarrow> memcpy_loop buf dest src cnt; Some (buf, dest) }"

text \<open>The walks to the end of a string in a buffer end at its NUL or leave the buffer.\<close>

function walk :: "(char \<Rightarrow> bool) \<Rightarrow> char list \<Rightarrow> nat \<Rightarrow> nat option" where
  "walk P buf p =
     (if p < length buf then (if buf ! p \<noteq> NUL \<and> P (buf ! p) then walk P buf (Suc p) else Some p) else None)"
  by pat_completeness auto
termination
  by (relation "measure (\<lambda>(P, buf, p). length buf - p)") auto

declare walk.simps [simp del]

definition lib_strcat :: "char list \<Rightarrow> nat \<Rightarrow> string \<Rightarrow> (char list \<times> nat) option" where
  "lib_strcat buf dest src =
     do { p \<leftarrow> walk (\<lambda>_. True) buf dest; buf \<leftarrow> copy_string buf p src; Some (buf, dest) }"

fun lib_strupr :: "string \<Rightarrow> string" where
  "lib_strupr [] = []"
| "lib_strupr (c # str) = lib_toupper c # lib_strupr str"

definition lib_isspace :: "char \<Rightarrow> bool" where
  "lib_isspace x \<longleftrightarrow> x = CHR '' '' \<or> x = CHR 0x09"

text \<open>The loop of \<open>lib_gettoken\<close> that skips the token; a quoted part moves the start of the token behind
  the quote, ends it at the closing quote and goes on behind that.\<close>

lemma walk_ge: "walk P buf p = Some q \<Longrightarrow> p \<le> q \<and> q < length buf"
proof (induction P buf p rule: walk.induct)
  case (1 P buf p)
  then show ?case by (subst (asm) walk.simps) (fastforce split: if_splits)
qed

function token_loop :: "char list \<Rightarrow> nat \<Rightarrow> nat \<Rightarrow> (char list \<times> nat \<times> nat) option" where
  "token_loop buf p ret =
     (if p < length buf
      then (if buf ! p = NUL \<or> lib_isspace (buf ! p) then Some (buf, p, ret)
            else if buf ! p = CHR 0x22
            then (case walk (\<lambda>c. c \<noteq> CHR 0x22) buf (Suc p) of
                    None \<Rightarrow> None
                  | Some q \<Rightarrow> token_loop (if buf ! q = CHR 0x22 then buf[q := NUL] else buf) (Suc q) (Suc p))
            else token_loop buf (Suc p) ret)
      else None)"
  by pat_completeness auto
termination
  by (relation "measure (\<lambda>(buf, p, ret). length buf - p)") (auto dest: walk_ge)

declare token_loop.simps [simp del]

text \<open>\<open>lib_gettoken\<close> returns the token, if there is one, and moves the caller's pointer.\<close>

definition lib_gettoken :: "char list \<Rightarrow> nat \<Rightarrow> (char list \<times> nat \<times> nat option) option" where
  "lib_gettoken buf ptr =
     do { p \<leftarrow> walk lib_isspace buf ptr;
          if buf ! p = NUL then Some (buf, p, None)
          else do { (buf, p, ret) \<leftarrow> token_loop buf p p;
                    c \<leftarrow> peek buf p;
                    if c \<noteq> NUL then do { buf \<leftarrow> poke buf p NUL; Some (buf, Suc p, Some ret) }
                    else Some (buf, p, Some ret) } }"

section \<open>Numbers and addresses\<close>

definition hex_value :: "char \<Rightarrow> nat option" where
  "hex_value c =
     (if schar c \<ge> 48 \<and> schar c \<le> 57 then Some (of_char c - 48)
      else if schar c \<ge> 65 \<and> schar c \<le> 70 then Some (10 + of_char c - 65)
      else if schar c \<ge> 97 \<and> schar c \<le> 102 then Some (10 + of_char c - 97)
      else None)"

fun xto_loop :: "('w :: len) word \<Rightarrow> string \<Rightarrow> 'w word" where
  "xto_loop x [] = x"
| "xto_loop x (c # dest) = (case hex_value c of Some d \<Rightarrow> xto_loop (x * 16 + of_nat d) dest | None \<Rightarrow> x)"

definition skip_0x :: "string \<Rightarrow> string" where
  "skip_0x dest = (if char_at dest 0 = CHR ''0'' \<and> char_at dest 1 = CHR ''x'' then drop 2 dest else dest)"

definition lib_xtoq :: "string \<Rightarrow> u64" where
  "lib_xtoq dest = xto_loop 0 (skip_0x dest)"

definition lib_xtoi :: "string \<Rightarrow> u32" where
  "lib_xtoi dest = xto_loop 0 (skip_0x dest)"

fun atoi_loop :: "u32 \<Rightarrow> string \<Rightarrow> u32" where
  "atoi_loop x [] = x"
| "atoi_loop x (c # dest) =
     (if schar c \<ge> 48 \<and> schar c \<le> 57 then atoi_loop (x * 10 + of_nat (of_char c - 48)) dest else x)"

definition lib_atoi :: "string \<Rightarrow> u32" where
  "lib_atoi dest =
     (if char_at dest 0 = CHR ''0'' \<and> char_at dest 1 = CHR ''x'' then lib_xtoi (drop 2 dest) else atoi_loop 0 dest)"

definition ip_chars :: "string \<Rightarrow> bool" where
  "ip_chars s = list_all (\<lambda>c. c = CHR ''.'' \<or> schar c \<ge> 48 \<and> schar c \<le> 57) s"

definition in_byte :: "u32 \<Rightarrow> bool" where
  "in_byte a \<longleftrightarrow> \<not> (sint a < 0 \<or> sint a > 255)"

definition lib_parseipaddr :: "string \<Rightarrow> u8 list option" where
  "lib_parseipaddr ipaddr =
     (if \<not> ip_chars ipaddr then None
      else do { let a = lib_atoi ipaddr;
                x \<leftarrow> lib_strchr ipaddr (CHR ''.'');
                let b = lib_atoi (tl x);
                x \<leftarrow> lib_strchr (tl x) (CHR ''.'');
                let c = lib_atoi (tl x);
                x \<leftarrow> lib_strchr (tl x) (CHR ''.'');
                let d = lib_atoi (tl x);
                if in_byte a \<and> in_byte b \<and> in_byte c \<and> in_byte d
                then Some [ucast a, ucast b, ucast c, ucast d] else None })"

section \<open>Option tables\<close>

type_synonym cons_table = "(string \<times> u32) list"

fun lib_findinlist :: "cons_table \<Rightarrow> string \<Rightarrow> (string \<times> u32) option" where
  "lib_findinlist [] s = None"
| "lib_findinlist (e # es) s = (if lib_strcmp (fst e) s = 0 then Some e else lib_findinlist es s)"

fun lib_lookup :: "cons_table \<Rightarrow> string \<Rightarrow> u32" where
  "lib_lookup [] s = 0"
| "lib_lookup (e # es) s = (if lib_strcmp (fst e) s = 0 then snd e else lib_lookup es s)"

text \<open>One option of the list: the entry, or with the prefix no_ or no its complement; the result is None
  for an option that is not understood.\<close>

definition option_bits :: "cons_table \<Rightarrow> string \<Rightarrow> u32 option" where
  "option_bits tab ptr =
     (case lib_findinlist tab ptr of
        Some v \<Rightarrow> Some (snd v)
      | None \<Rightarrow>
          (let v = (if take 3 ptr = ''no_'' then lib_findinlist tab (drop 3 ptr)
                    else if take 2 ptr = ''no'' then lib_findinlist tab (drop 2 ptr)
                    else None)
           in map_option (\<lambda>v. NOT (snd v)) v))"

definition apply_bits :: "u32 \<Rightarrow> u32 \<Rightarrow> u32" where
  "apply_bits flags newbits = (if sint newbits < 0 then flags AND newbits else flags OR newbits)"

lemma lib_strchr_suffix: "lib_strchr s c = Some t \<Longrightarrow> length (tl t) < length s"
  by (induction s) (auto split: if_splits)

function setoptions_loop :: "cons_table \<Rightarrow> string \<Rightarrow> u32 \<Rightarrow> nat \<Rightarrow> u32 \<times> nat" where
  "setoptions_loop tab ptr flags errors =
     (if ptr = [] then (flags, errors)
      else (let x = lib_strchr ptr (CHR '','');
                opt = takeWhile (\<lambda>c. c \<noteq> CHR '','') ptr;
                newbits = (case option_bits tab opt of Some b \<Rightarrow> b | None \<Rightarrow> 0);
                errors = (if option_bits tab opt = None then Suc errors else errors);
                flags = apply_bits flags newbits
            in case x of Some y \<Rightarrow> setoptions_loop tab (tl y) flags errors | None \<Rightarrow> (flags, errors)))"
  by pat_completeness auto
termination
  by (relation "measure (\<lambda>(tab, ptr, flags, errors). length ptr)") (auto dest: lib_strchr_suffix [OF sym])

declare setoptions_loop.simps [simp del]

definition lib_setoptions :: "(nat \<Rightarrow> bool) \<Rightarrow> cons_table \<Rightarrow> string \<Rightarrow> u32 \<Rightarrow> u32 \<times> nat" where
  "lib_setoptions alloc tab str flags =
     (if alloc (lib_strlen str + 1) then setoptions_loop tab str flags 0 else (flags, 0))"

text \<open>lib_string2.c: \<open>lib_trimleading\<close> and \<open>lib_chop_filename\<close> on the string itself.\<close>

definition lib_trimleading :: "string \<Rightarrow> string" where
  "lib_trimleading path = (if deref path = CHR ''/'' then tl path else path)"

definition lib_chop_filename :: "string \<Rightarrow> string \<times> string option" where
  "lib_chop_filename str =
     (let p = (case lib_strchr str (CHR '':'') of None \<Rightarrow> lib_strchr str (CHR ''/'') | Some p \<Rightarrow> Some p)
      in case p of Some p \<Rightarrow> (take (length str - length p) str, Some (tl p)) | None \<Rightarrow> (str, None))"

section \<open>String comparison is an order\<close>

lemma of_char_byte: "(of_char c :: nat) < 256"
  using nat_of_char_less_256 .

lemma schar_inj [simp]: "schar c = schar d \<longleftrightarrow> c = d"
proof
  assume eq: "schar c = schar d"
  have "m = n" if "(if m < 128 then m else m - 256) = (if n < 128 then n else n - 256)" "0 \<le> m" "0 \<le> n" "m < 256" "n < 256"
    for m n :: int using that by (auto split: if_splits)
  from this [of "int (of_char c)" "int (of_char d)"] have "int (of_char c) = int (of_char d)"
    using eq by (simp add: schar_def Let_def)
  then show "c = d" by (simp add: of_char_eq_iff)
qed simp

lemma lib_strcmp_zero [simp]: "lib_strcmp s t = 0 \<longleftrightarrow> s = t"
proof (induction s t rule: lib_strcmp.induct)
  case (1 d dest s src)
  then show ?case using schar_inj [of d s] by (auto simp del: schar_inj)
qed simp_all

lemma lib_strcmp_neg: "lib_strcmp t s = - lib_strcmp s t"
  by (induction s t rule: lib_strcmp.induct) auto

lemma lib_strcmp_trans: "lib_strcmp s t \<le> 0 \<Longrightarrow> lib_strcmp t u \<le> 0 \<Longrightarrow> lib_strcmp s u \<le> 0"
proof (induction s t arbitrary: u rule: lib_strcmp.induct)
  case (1 d dest s src)
  have ds: "schar d \<le> schar s" "d = s \<Longrightarrow> lib_strcmp dest src \<le> 0"
    using "1.prems"(1) by (auto simp del: schar_inj split: if_splits)
  show ?case
  proof (cases u)
    case (Cons c us)
    have sc: "schar s \<le> schar c" "s = c \<Longrightarrow> lib_strcmp src us \<le> 0"
      using "1.prems"(2) Cons by (auto simp del: schar_inj split: if_splits)
    show ?thesis
    proof (cases "schar d < schar c")
      case False
      then have eq: "schar d = schar s" "schar s = schar c" using ds(1) sc(1) by linarith+
      then have "lib_strcmp dest us \<le> 0" using "1.IH" [of us] ds(2) sc(2) by simp
      then show ?thesis using Cons eq by simp
    qed (simp add: Cons)
  qed (use "1.prems" in simp)
next
  case (2 d dest)
  then show ?case by simp
next
  case (3 s src)
  then show ?case by (cases u) auto
next
  case 4
  then show ?case by (cases u) auto
qed

section \<open>Buffers\<close>

text \<open>The string at an address of a buffer.\<close>

definition str_at :: "char list \<Rightarrow> nat \<Rightarrow> string" where
  "str_at buf p = takeWhile (\<lambda>c. c \<noteq> NUL) (drop p buf)"

definition splice :: "char list \<Rightarrow> nat \<Rightarrow> char list \<Rightarrow> char list" where
  "splice buf p xs = take p buf @ xs @ drop (p + length xs) buf"

lemma splice_nil [simp]: "splice buf p [] = buf"
  by (simp add: splice_def)

lemma splice_cons: "p < length buf \<Longrightarrow> splice (buf[p := c]) (Suc p) xs = splice buf p (c # xs)"
  by (simp add: splice_def take_Suc_conv_app_nth)

lemma poke_splice: "p < length buf \<Longrightarrow> poke buf p c = Some (splice buf p [c])"
  by (simp add: poke_def splice_def upd_conv_take_nth_drop)

lemma takeWhile_NUL: "NUL \<notin> set s \<Longrightarrow> takeWhile (\<lambda>c. c \<noteq> NUL) (s @ NUL # z) = s"
  by (induction s) auto

lemma str_at_splice: "p \<le> length buf \<Longrightarrow> NUL \<notin> set s \<Longrightarrow> str_at (splice buf p (s @ [NUL])) p = s"
  by (simp add: str_at_def splice_def takeWhile_NUL)

lemma splice_frame:
  "p + length xs \<le> length buf \<Longrightarrow> i < p \<or> p + length xs \<le> i \<Longrightarrow> i < length buf \<Longrightarrow> splice buf p xs ! i = buf ! i"
  by (auto simp: splice_def nth_append)

lemma copy_string_eq:
  "p + length src < length buf \<Longrightarrow> copy_string buf p src = Some (splice buf p (src @ [NUL]))"
proof (induction src arbitrary: buf p)
  case (Cons c src)
  then show ?case by (simp add: poke_def splice_cons)
qed (simp add: poke_splice)

lemma xstrncpy_loop_eq:
  "p + min (length src) (cnt - 1) < length buf \<Longrightarrow>
   xstrncpy_loop buf p src cnt k =
     Some (splice buf p (take (cnt - 1) src @ [NUL]), k + min (length src) (cnt - 1))"
proof (induction src arbitrary: buf p cnt k)
  case (Cons c src)
  show ?case
  proof (cases "cnt > 1")
    case True
    then obtain m where m: "cnt - 1 = Suc m" by (cases "cnt - 1") auto
    then have "cnt - 1 - 1 = m" by simp
    then show ?thesis
      using Cons.prems Cons.IH [of "Suc p" "cnt - 1" "buf[p := c]" "Suc k"] True m
      by (simp add: poke_def splice_cons)
  next
    case False
    then show ?thesis using Cons.prems by (simp add: poke_splice)
  qed
qed (simp add: poke_splice)

text \<open>
  \<open>lib_xstrncpy\<close> with a count of at least one writes at most that many bytes and leaves a terminated
  prefix of the source; its result is the length of the prefix.  With a count of zero it still writes the
  terminator.
\<close>

lemma lib_xstrncpy_correct:
  assumes "0 < cnt" "dest + cnt \<le> length buf" "NUL \<notin> set src"
  shows "\<exists>buf'. lib_xstrncpy buf dest src cnt = Some (buf', min (length src) (cnt - 1))
    \<and> str_at buf' dest = take (cnt - 1) src \<and> length buf' = length buf
    \<and> (\<forall>i. i < dest \<or> dest + cnt \<le> i \<longrightarrow> i < length buf \<longrightarrow> buf' ! i = buf ! i)"
proof -
  let ?s = "take (cnt - 1) src"
  have n: "dest + min (length src) (cnt - 1) < length buf" using assms by auto
  have "NUL \<notin> set ?s" using assms(3) by (meson in_set_takeD)
  then have "str_at (splice buf dest (?s @ [NUL])) dest = ?s" using assms by (intro str_at_splice) auto
  moreover have "length (splice buf dest (?s @ [NUL])) = length buf" using n by (auto simp: splice_def)
  moreover have "splice buf dest (?s @ [NUL]) ! i = buf ! i" if "i < dest \<or> dest + cnt \<le> i" "i < length buf" for i
    using that n assms(1,2) by (intro splice_frame) auto
  ultimately show ?thesis using xstrncpy_loop_eq [OF n, of 0] by (auto simp: lib_xstrncpy_def)
qed

lemma lib_xstrncpy_zero: "lib_xstrncpy buf dest src 0 = map_option (\<lambda>b. (b, 0)) (poke buf dest NUL)"
  by (cases src; cases "poke buf dest NUL") (auto simp: lib_xstrncpy_def)

lemma lib_memset_returns_end:
  "dest + cnt \<le> length buf \<Longrightarrow> \<exists>buf'. lib_memset buf dest c cnt = Some (buf', dest + cnt)"
proof -
  have "d + n \<le> length b \<Longrightarrow> \<exists>b'. lib_memset_loop b d x n = Some (b', d + n)" for b d x n
  proof (induction n arbitrary: b d)
    case (Suc n)
    then show ?case using Suc.IH [of "Suc d" "b[d := x]"] by (auto simp: poke_def)
  qed simp
  then show "dest + cnt \<le> length buf \<Longrightarrow> ?thesis" by (simp add: lib_memset_def)
qed

section \<open>Tokens\<close>

lemma walk_run:
  assumes "\<forall>c \<in> set xs. c \<noteq> NUL \<and> P c" "d = NUL \<or> \<not> P d"
  shows "walk P (pre @ xs @ d # post) (length pre) = Some (length pre + length xs)"
  using assms(1)
proof (induction xs arbitrary: pre)
  case Nil
  then show ?case using assms(2) by (subst walk.simps) auto
next
  case (Cons c xs)
  have "walk P (pre @ (c # xs) @ d # post) (length pre) = walk P ((pre @ [c]) @ xs @ d # post) (length (pre @ [c]))"
    using Cons.prems by (subst walk.simps) (simp add: nth_append)
  also have "\<dots> = Some (length (pre @ [c]) + length xs)" using Cons.prems by (intro Cons.IH) auto
  finally show ?case by simp
qed

definition plain :: "char \<Rightarrow> bool" where
  "plain c \<longleftrightarrow> c \<noteq> NUL \<and> \<not> lib_isspace c \<and> c \<noteq> CHR 0x22"

definition ends :: "char \<Rightarrow> bool" where
  "ends d \<longleftrightarrow> d = NUL \<or> lib_isspace d"

lemma token_loop_plain:
  "\<forall>c \<in> set w. plain c \<Longrightarrow> ends d \<Longrightarrow>
   token_loop (pre @ w @ d # post) (length pre) ret = Some (pre @ w @ d # post, length pre + length w, ret)"
proof (induction w arbitrary: pre)
  case Nil
  then show ?case by (subst token_loop.simps) (auto simp: ends_def)
next
  case (Cons c w)
  have "token_loop (pre @ (c # w) @ d # post) (length pre) ret =
      token_loop ((pre @ [c]) @ w @ d # post) (length (pre @ [c])) ret"
    using Cons.prems by (subst token_loop.simps) (simp add: nth_append plain_def)
  then show ?case using Cons.IH [of "pre @ [c]"] Cons.prems by simp
qed

text \<open>
  \<open>lib_gettoken\<close> on white space, a word, and a blank or the end of the string: it returns the word,
  terminated in place, and leaves the caller's pointer behind the blank, or at the end.
\<close>

theorem lib_gettoken_word:
  assumes "\<forall>c \<in> set ws. lib_isspace c" "w \<noteq> []" "\<forall>c \<in> set w. plain c" "ends d"
  shows "\<exists>buf'. lib_gettoken (pre @ ws @ w @ d # post) (length pre) =
      Some (buf', length (pre @ ws @ w) + (if d = NUL then 0 else 1), Some (length (pre @ ws)))
    \<and> str_at buf' (length (pre @ ws)) = w
    \<and> buf' = pre @ ws @ w @ NUL # post"
proof -
  let ?b = "pre @ ws @ w @ d # post"
  obtain c v where w: "w = c # v" using assms(2) by (cases w) auto
  have sp: "lib_isspace x \<Longrightarrow> x \<noteq> NUL" for x by (auto simp: lib_isspace_def)
  have "walk lib_isspace (pre @ ws @ c # (v @ d # post)) (length pre) = Some (length pre + length ws)"
    using assms(1,3) w sp by (intro walk_run) (auto simp: plain_def)
  then have wk: "walk lib_isspace ?b (length pre) = Some (length (pre @ ws))" by (simp add: w)
  have nth: "?b ! length (pre @ ws) = c" by (simp add: w nth_append)
  have "token_loop ((pre @ ws) @ w @ d # post) (length (pre @ ws)) (length (pre @ ws)) =
      Some ((pre @ ws) @ w @ d # post, length (pre @ ws) + length w, length (pre @ ws))"
    using assms(3,4) by (rule token_loop_plain)
  then have tl: "token_loop ?b (length (pre @ ws)) (length (pre @ ws)) = Some (?b, length (pre @ ws @ w), length (pre @ ws))"
    by simp
  have d: "?b ! length (pre @ ws @ w) = d" "?b[length (pre @ ws @ w) := NUL] = pre @ ws @ w @ NUL # post"
    by (simp_all add: nth_append list_update_append)
  have "str_at (pre @ ws @ w @ NUL # post) (length (pre @ ws)) = w"
    using assms(3) takeWhile_NUL [of w post] by (auto simp: str_at_def plain_def)
  then show ?thesis
    using wk nth tl d assms(3) w unfolding lib_gettoken_def
    by (auto simp: plain_def peek_def poke_def simp del: append_assoc)
qed

lemma gettoken_start:
  assumes "\<forall>c \<in> set ws. lib_isspace c" "c \<noteq> NUL" "\<not> lib_isspace c"
  shows "walk lib_isspace (pre @ ws @ c # v) (length pre) = Some (length (pre @ ws))"
    "(pre @ ws @ c # v) ! length (pre @ ws) = c"
proof -
  have sp: "lib_isspace x \<Longrightarrow> x \<noteq> NUL" for x by (auto simp: lib_isspace_def)
  then show "walk lib_isspace (pre @ ws @ c # v) (length pre) = Some (length (pre @ ws))"
    using walk_run [of ws lib_isspace c pre v] assms by auto
  show "(pre @ ws @ c # v) ! length (pre @ ws) = c" by (simp add: nth_append)
qed

lemma token_loop_quote:
  assumes "\<forall>c \<in> set w. c \<noteq> NUL \<and> c \<noteq> CHR 0x22" "e = NUL \<or> e = CHR 0x22"
  shows "token_loop (pre @ CHR 0x22 # w @ e # post) (length pre) ret =
    token_loop (pre @ CHR 0x22 # w @ NUL # post) (length pre + length w + 2) (Suc (length pre))"
proof -
  let ?b = "pre @ CHR 0x22 # w @ e # post"
  have "walk (\<lambda>c. c \<noteq> CHR 0x22) ((pre @ [CHR 0x22]) @ w @ e # post) (length (pre @ [CHR 0x22])) =
      Some (length (pre @ [CHR 0x22]) + length w)"
    using assms by (intro walk_run) auto
  then have wk: "walk (\<lambda>c. c \<noteq> CHR 0x22) ?b (Suc (length pre)) = Some (length pre + length w + 1)" by simp
  have e: "?b ! (length pre + length w + 1) = e" "?b[length pre + length w + 1 := NUL] = pre @ CHR 0x22 # w @ NUL # post"
    by (simp_all add: nth_append list_update_append)
  show ?thesis
    using assms(2) wk e by (subst token_loop.simps) (auto simp: lib_isspace_def)
qed

text \<open>
  A word in double quotes may contain blanks; it is returned without the quotes.
\<close>

lemma lib_gettoken_quoted:
  assumes "\<forall>c \<in> set ws. lib_isspace c" "\<forall>c \<in> set w. c \<noteq> NUL \<and> c \<noteq> CHR 0x22" "ends d"
  shows "\<exists>buf' p. lib_gettoken (pre @ ws @ CHR 0x22 # w @ CHR 0x22 # d # post) (length pre) =
      Some (buf', p, Some (length (pre @ ws) + 1)) \<and> str_at buf' (length (pre @ ws) + 1) = w
    \<and> p = length (pre @ ws @ w) + 2 + (if d = NUL then 0 else 1)"
proof -
  let ?b = "pre @ ws @ CHR 0x22 # w @ CHR 0x22 # d # post"
  let ?c = "pre @ ws @ CHR 0x22 # w @ NUL # d # post"
  have st: "walk lib_isspace ?b (length pre) = Some (length (pre @ ws))" "?b ! length (pre @ ws) = CHR 0x22"
    using gettoken_start [of ws "CHR 0x22" pre "w @ CHR 0x22 # d # post"] assms(1) by (auto simp: lib_isspace_def)
  have "token_loop ?b (length (pre @ ws)) (length (pre @ ws)) =
      token_loop ?c (length (pre @ ws) + length w + 2) (Suc (length (pre @ ws)))"
    using token_loop_quote [of w "CHR 0x22" "pre @ ws" "d # post" "length (pre @ ws)"] assms(2) by simp
  also have "\<dots> = Some (?c, length (pre @ ws) + length w + 2, Suc (length (pre @ ws)))"
    using token_loop_plain [of "[]" d "pre @ ws @ CHR 0x22 # w @ [NUL]" post] assms(3) by (simp add: add.assoc)
  finally have tl: "token_loop ?b (length (pre @ ws)) (length (pre @ ws)) =
      Some (?c, length (pre @ ws) + length w + 2, Suc (length (pre @ ws)))" .
  have d: "?c ! (length (pre @ ws) + length w + 2) = d" by (simp add: nth_append)
  have s: "str_at ?c (Suc (length (pre @ ws))) = w" "str_at (?c[length (pre @ ws) + length w + 2 := NUL]) (Suc (length (pre @ ws))) = w"
    using takeWhile_NUL [of w] assms(2) by (auto simp: str_at_def list_update_append)
  show ?thesis
    using st tl d s unfolding lib_gettoken_def
    by (auto simp: peek_def poke_def simp del: append_assoc)
qed

text \<open>
  A quoted word without its closing quote: \<open>lib_gettoken\<close> steps over the NUL that ends the string and
  reads on behind it, outside the buffer when that ends with the string.
\<close>

theorem lib_gettoken_unterminated:
  assumes "\<forall>c \<in> set ws. lib_isspace c" "\<forall>c \<in> set w. c \<noteq> NUL \<and> c \<noteq> CHR 0x22"
  shows "lib_gettoken (pre @ ws @ CHR 0x22 # w @ [NUL]) (length pre) = None"
proof -
  let ?b = "pre @ ws @ CHR 0x22 # w @ [NUL]"
  have st: "walk lib_isspace ?b (length pre) = Some (length (pre @ ws))" "?b ! length (pre @ ws) = CHR 0x22"
    using gettoken_start [of ws "CHR 0x22" pre "w @ [NUL]"] assms(1) by (auto simp: lib_isspace_def)
  have "token_loop ?b (length (pre @ ws)) (length (pre @ ws)) =
      token_loop ?b (length (pre @ ws) + length w + 2) (Suc (length (pre @ ws)))"
    using token_loop_quote [of w NUL "pre @ ws" "[]" "length (pre @ ws)"] assms(2) by simp
  also have "\<dots> = None" by (subst token_loop.simps) simp
  finally show ?thesis using st unfolding lib_gettoken_def by (simp del: append_assoc)
qed

theorem lib_gettoken_word_witness:
  "lib_gettoken (''  ls -l'' @ [NUL]) 0 = Some (''  ls'' @ [NUL] @ ''-l'' @ [NUL], 5, Some 2)"
  using lib_gettoken_word [of "''  ''" "''ls''" "CHR '' ''" "[]" "''-l'' @ [NUL]"]
  by (simp add: lib_isspace_def plain_def ends_def)

theorem lib_gettoken_unterminated_witness: "lib_gettoken (''ab'' @ [CHR 0x22] @ ''x y'' @ [NUL]) 2 = None"
  using lib_gettoken_unterminated [of "[]" "''x y''" "''ab''"] by (simp add: numeral_2_eq_2)

section \<open>Numbers and addresses\<close>

lemma schar_digit: "d < 10 \<Longrightarrow> schar (digit d) = 48 + int d"
  by (simp add: schar_def of_char_digit Let_def)

lemma atoi_loop_dec: "atoi_loop 0 (dec n @ rest) = atoi_loop (of_nat n) rest"
proof (induction n arbitrary: rest rule: dec.induct)
  case (1 n)
  show ?case
  proof (cases "n < 10")
    case True
    then show ?thesis by (subst dec.simps) (simp add: schar_digit of_char_digit)
  next
    case False
    have d: "n mod 10 < 10" "n mod 10 \<le> 9" by simp_all
    have "(of_nat n :: u32) = of_nat (n div 10 * 10 + n mod 10)" by simp
    also have "\<dots> = of_nat (n div 10) * 10 + of_nat (n mod 10)" by (simp only: of_nat_add of_nat_mult) simp
    finally have "(of_nat n :: u32) = of_nat (n div 10) * 10 + of_nat (n mod 10)" .
    then show ?thesis
      using "1.IH" [OF False, of "digit (n mod 10) # rest"] False
      by (subst dec.simps) (simp add: schar_digit [OF d(1)] of_char_digit [OF d(1)] d(2))
  qed
qed

definition no_digit :: "string \<Rightarrow> bool" where
  "no_digit s = (case s of [] \<Rightarrow> True | c # _ \<Rightarrow> \<not> (schar c \<ge> 48 \<and> schar c \<le> 57))"

lemma dec_no_0x:
  assumes "deref rest \<noteq> CHR ''x''"
  shows "\<not> (char_at (dec n @ rest) 0 = CHR ''0'' \<and> char_at (dec n @ rest) 1 = CHR ''x'')"
proof -
  obtain c v where d: "dec n = c # v" by (cases "dec n") auto
  show ?thesis
  proof (cases v)
    case Nil
    then show ?thesis using assms d by (cases rest) (auto simp: char_at_def)
  next
    case (Cons e u)
    then have "e \<in> set (dec n)" using d by simp
    then obtain k where k: "k < 10" "e = digit k" using dec_digits by blast
    have "e \<noteq> CHR ''x''"
    proof
      assume "e = CHR ''x''"
      then have "schar (digit k) = 120" using k(2) by (simp add: schar_def Let_def)
      then show False using schar_digit [OF k(1)] k(1) by simp
    qed
    then show ?thesis using Cons d by (simp add: char_at_def)
  qed
qed

lemma lib_atoi_dec: "no_digit rest \<Longrightarrow> deref rest \<noteq> CHR ''x'' \<Longrightarrow> lib_atoi (dec n @ rest) = of_nat n"
  using dec_no_0x [of rest n] atoi_loop_dec [of n rest] by (cases rest) (auto simp: lib_atoi_def no_digit_def)

lemma dec_no_dot: "CHR ''.'' \<notin> set (dec n)"
proof
  assume "CHR ''.'' \<in> set (dec n)"
  then obtain k where k: "k < 10" "CHR ''.'' = digit k" using dec_digits by blast
  have "schar (CHR ''.'') = 46" by (simp add: schar_def Let_def)
  then show False using schar_digit [OF k(1)] k by simp
qed

lemma lib_strchr_append: "c \<notin> set xs \<Longrightarrow> lib_strchr (xs @ c # ys) c = Some (c # ys)"
  by (induction xs) auto

lemma sint_small: "n < 2147483648 \<Longrightarrow> sint (of_nat n :: u32) = int n"
  by (simp add: signed_of_nat signed_take_bit_int_eq_self)

lemma lib_strchr_None: "c \<notin> set xs \<Longrightarrow> lib_strchr xs c = None"
  by (induction xs) auto

definition print_ip :: "u8 list \<Rightarrow> string" where
  "print_ip bs = concat (map (\<lambda>b. dec (unat b) @ ''.'') (butlast bs)) @ dec (unat (last bs))"

text \<open>
  \<open>lib_parseipaddr\<close> reads the dotted decimal form of every address back.
\<close>

theorem lib_parseipaddr_roundtrip: "lib_parseipaddr (print_ip [a, b, c, d]) = Some [a, b, c, d]"
proof -
  let ?s = "dec (unat a) @ CHR ''.'' # dec (unat b) @ CHR ''.'' # dec (unat c) @ CHR ''.'' # dec (unat d)"
  have s: "print_ip [a, b, c, d] = ?s" by (simp add: print_ip_def)
  have dg: "list_all (\<lambda>c. c = CHR ''.'' \<or> schar c \<ge> 48 \<and> schar c \<le> 57) (dec n)" for n
    using dec_digits by (fastforce simp: list_all_iff schar_digit)
  have chars: "ip_chars ?s" using dg by (simp add: ip_chars_def)
  have dot: "no_digit (CHR ''.'' # r)" "deref (CHR ''.'' # r) \<noteq> CHR ''x''" for r
    by (simp_all add: no_digit_def schar_def Let_def)
  have lst: "lib_atoi (dec (unat d)) = of_nat (unat d)"
    using lib_atoi_dec [of "[]" "unat d"] by (simp add: no_digit_def)
  have byte: "in_byte (of_nat (unat x))" "ucast (of_nat (unat x) :: u32) = x" for x :: u8
  proof -
    have lt: "unat x < 256" using unsigned_less [of x, where 'a = nat] by simp
    then have "sint (of_nat (unat x) :: u32) = int (unat x)" by (intro sint_small) simp
    then show "in_byte (of_nat (unat x))" unfolding in_byte_def using lt by linarith
    show "ucast (of_nat (unat x) :: u32) = x" by (rule bit_word_eqI) (auto simp: bit_simps dest: bit_imp_le_length)
  qed
  show ?thesis
    unfolding s lib_parseipaddr_def
    using chars lib_atoi_dec [OF dot] lib_strchr_append [OF dec_no_dot] lst byte by simp
qed

section \<open>Option lists\<close>

lemma lib_findinlist_map_of: "lib_findinlist tab s = map_option (Pair s) (map_of tab s)"
  by (induction tab) auto

lemma lib_lookup_map_of: "lib_lookup tab s = (case map_of tab s of Some v \<Rightarrow> v | None \<Rightarrow> 0)"
  by (induction tab) auto

text \<open>A table as the manual of the routine asks for: no option starts with no, none has bit 31.\<close>

definition option_table :: "cons_table \<Rightarrow> bool" where
  "option_table tab \<longleftrightarrow>
     (\<forall>(name, v) \<in> set tab. name \<noteq> [] \<and> CHR '','' \<notin> set name \<and> take 2 name \<noteq> ''no'' \<and> 0 \<le> sint v)"

fun option_text :: "bool \<times> string \<Rightarrow> string" where
  "option_text (no, name) = (if no then ''no_'' @ name else name)"

fun option_effect :: "cons_table \<Rightarrow> bool \<times> string \<Rightarrow> u32 \<Rightarrow> u32" where
  "option_effect tab (no, name) flags =
     (if no then flags AND NOT (lib_lookup tab name) else flags OR lib_lookup tab name)"

fun join :: "string list \<Rightarrow> string" where
  "join [] = []"
| "join [x] = x"
| "join (x # y # xs) = x @ CHR '','' # join (y # xs)"

lemma sint_not_neg: "sint (NOT v) < 0 \<longleftrightarrow> \<not> sint v < 0" for v :: u32
  using bit_last_iff [of v] bit_last_iff [of "NOT v"] by (simp add: bit_not_iff)

lemma option_bits_known:
  assumes "option_table tab" "map_of tab name = Some v"
  shows "option_bits tab (option_text (no, name)) = Some (if no then NOT v else v)"
    "apply_bits flags (if no then NOT v else v) = option_effect tab (no, name) flags"
proof -
  have v: "(name, v) \<in> set tab" using assms(2) by (rule map_of_SomeD)
  have "map_of tab (''no_'' @ name) = None"
    using assms(1) by (fastforce simp: map_of_eq_None_iff option_table_def)
  then show "option_bits tab (option_text (no, name)) = Some (if no then NOT v else v)"
    using assms(2) by (simp add: option_bits_def lib_findinlist_map_of)
  show "apply_bits flags (if no then NOT v else v) = option_effect tab (no, name) flags"
    using v assms by (auto simp: apply_bits_def sint_not_neg lib_lookup_map_of option_table_def)
qed

lemma option_text_props:
  assumes "option_table tab" "name \<in> fst ` set tab"
  shows "option_text (no, name) \<noteq> []" "CHR '','' \<notin> set (option_text (no, name))"
  using assms by (auto simp: option_table_def)

text \<open>
  Option strings.  \<open>lib_setoptions\<close> on a comma-separated list of options of the table, some with the prefix
  no_, sets the bits of the plain ones and clears those of the others, from left to right, and reports
  no error.
\<close>

theorem lib_setoptions_correct:
  assumes "option_table tab" "\<forall>(no, name) \<in> set opts. name \<in> fst ` set tab" "\<forall>n. alloc n"
  shows "lib_setoptions alloc tab (join (map option_text opts)) flags = (fold (option_effect tab) opts flags, 0)"
proof -
  have "setoptions_loop tab (join (map option_text opts)) flags e = (fold (option_effect tab) opts flags, e)" for e
    using assms(2)
  proof (induction opts arbitrary: flags)
    case Nil
    then show ?case by (subst setoptions_loop.simps) simp
  next
    case (Cons x opts)
    obtain no name where x: "x = (no, name)" by fastforce
    then have n: "name \<in> fst ` set tab" using Cons.prems by auto
    then obtain v where v: "map_of tab name = Some v" by (cases "map_of tab name") (auto simp: map_of_eq_None_iff)
    let ?t = "option_text x"
    have t: "?t \<noteq> []" "CHR '','' \<notin> set ?t" unfolding x by (rule option_text_props [OF assms(1) n])+
    note bits = option_bits_known [OF assms(1) v, where no = no, folded x]
    have IH: "setoptions_loop tab (join (map option_text opts)) (option_effect tab x flags) e =
        (fold (option_effect tab) opts (option_effect tab x flags), e)"
      using Cons by simp
    show ?case
    proof (cases opts)
      case Nil
      have "lib_strchr ?t (CHR '','') = None" by (rule lib_strchr_None [OF t(2)])
      moreover have "takeWhile (\<lambda>c. c \<noteq> CHR '','') ?t = ?t" using t(2) by (auto simp: takeWhile_eq_all_conv)
      ultimately show ?thesis
        using bits(1) bits(2) [of flags] t(1) Nil
        by (subst setoptions_loop.simps) (simp add: Let_def del: takeWhile_eq_all_conv)
    next
      case (Cons p ps)
      let ?r = "join (map option_text opts)"
      have "lib_strchr (?t @ CHR '','' # ?r) (CHR '','') = Some (CHR '','' # ?r)" by (rule lib_strchr_append [OF t(2)])
      moreover have "takeWhile (\<lambda>c. c \<noteq> CHR '','') (?t @ CHR '','' # ?r) = ?t"
        using t(2) by (subst takeWhile_append2) auto
      ultimately have "setoptions_loop tab (?t @ CHR '','' # ?r) flags e = setoptions_loop tab ?r (option_effect tab x flags) e"
        using bits(1) bits(2) [of flags] t(1) by (subst setoptions_loop.simps) (simp add: Let_def)
      then show ?thesis using IH Cons by simp
    qed
  qed
  then show ?thesis using assms(3) by (simp add: lib_setoptions_def)
qed

theorem lib_setoptions_correct_witness:
  "lib_setoptions (\<lambda>_. True) [(''gfx'', 1), (''usb'', 4)] ''no_gfx,usb'' 3 = (6, 0)"
  using lib_setoptions_correct [of "[(''gfx'', 1), (''usb'', 4)]" "[(True, ''gfx''), (False, ''usb'')]" "\<lambda>_. True" 3]
  by (simp add: option_table_def)

end
