(* ===== verification/Cfe_Qsort.thy ===== *)
theory Cfe_Qsort
  imports Cfe_String "HOL-Library.Multiset"
begin

text \<open>
  The boot loader's qsort, src/broadcom/src/cfe/cfe/lib/lib_qsort.c: quicksort in place with an explicit stack of
  32 segments.  The array is the list of its elements and the char pointers, which all are multiples of the
  element size away from the base, are indices; they are integers because ub may be one element before the
  base.  The comparison function is a parameter.  \<open>qsexchange\<close> is also modelled on bytes.
\<close>

section \<open>Exchanging two elements\<close>

definition swap_bytes :: "bytes \<Rightarrow> nat \<Rightarrow> nat \<Rightarrow> bytes" where
  "swap_bytes mem a b = mem[a := mem ! b, b := mem ! a]"

text \<open>The byte loop, and the word loop, which exchanges four bytes at a time.\<close>

fun xchg_bytes :: "nat \<Rightarrow> bytes \<Rightarrow> nat \<Rightarrow> nat \<Rightarrow> bytes" where
  "xchg_bytes 0 mem a b = mem"
| "xchg_bytes (Suc n) mem a b = xchg_bytes n (swap_bytes mem a b) (Suc a) (Suc b)"

function xchg_words :: "nat \<Rightarrow> nat \<Rightarrow> bytes \<Rightarrow> nat \<Rightarrow> nat \<Rightarrow> bytes \<times> nat \<times> nat \<times> nat" where
  "xchg_words i sz mem a b =
     (if i \<le> sz then xchg_words (i + 4) sz (xchg_bytes 4 mem a b) (a + 4) (b + 4) else (mem, i, a, b))"
  by pat_completeness auto
termination
  by (relation "measure (\<lambda>(i, sz, mem, a, b). sz + 4 - i)") auto

declare xchg_words.simps [simp del]

definition qsexchange :: "bytes \<Rightarrow> nat \<Rightarrow> nat \<Rightarrow> nat \<Rightarrow> bytes" where
  "qsexchange mem a b sz =
     (let (mem, i, a, b) = xchg_words 4 sz mem a b in xchg_bytes (sz - (i - 4)) mem a b)"

definition xchg :: "'a list \<Rightarrow> int \<Rightarrow> int \<Rightarrow> 'a list" where
  "xchg A i j = A[nat i := A ! nat j, nat j := A ! nat i]"

section \<open>Partitioning\<close>

function scan_up :: "('a \<Rightarrow> 'a \<Rightarrow> int) \<Rightarrow> 'a list \<Rightarrow> int \<Rightarrow> int \<Rightarrow> int \<Rightarrow> int" where
  "scan_up compar A lb i j =
     (if i < j \<and> compar (A ! nat lb) (A ! nat i) > 0 then scan_up compar A lb (i + 1) j else i)"
  by pat_completeness auto
termination
  by (relation "measure (\<lambda>(compar, A, lb, i, j). nat (j - i))") auto

function scan_down :: "('a \<Rightarrow> 'a \<Rightarrow> int) \<Rightarrow> 'a list \<Rightarrow> int \<Rightarrow> int \<Rightarrow> int \<Rightarrow> int" where
  "scan_down compar A lb i j =
     (if j \<ge> i \<and> compar (A ! nat j) (A ! nat lb) > 0 then scan_down compar A lb i (j - 1) else j)"
  by pat_completeness auto
termination
  by (relation "measure (\<lambda>(compar, A, lb, i, j). nat (j + 1 - i))") auto

declare scan_up.simps [simp del] scan_down.simps [simp del]

lemma scan_up_spec:
  "i \<le> scan_up compar A lb i j \<and> (i \<le> j \<longrightarrow> scan_up compar A lb i j \<le> j) \<and> (j < i \<longrightarrow> scan_up compar A lb i j = i)
   \<and> (\<forall>k. i \<le> k \<and> k < scan_up compar A lb i j \<longrightarrow> compar (A ! nat lb) (A ! nat k) > 0)
   \<and> (scan_up compar A lb i j < j \<longrightarrow> \<not> compar (A ! nat lb) (A ! nat (scan_up compar A lb i j)) > 0)"
proof (induction compar A lb i j rule: scan_up.induct)
  case (1 compar A lb i j)
  show ?case
  proof (cases "i < j \<and> compar (A ! nat lb) (A ! nat i) > 0")
    case True
    then have e: "scan_up compar A lb i j = scan_up compar A lb (i + 1) j" by (subst scan_up.simps) simp
    have "compar (A ! nat lb) (A ! nat k) > 0" if "i \<le> k" "k < scan_up compar A lb (i + 1) j" for k
      using 1 [OF True] True that by (cases "k = i") auto
    then show ?thesis unfolding e using 1 [OF True] True by auto
  next
    case False
    then have "scan_up compar A lb i j = i" by (subst scan_up.simps) auto
    then show ?thesis using False by auto
  qed
qed

lemma scan_down_spec:
  "scan_down compar A lb i j \<le> j \<and> (i - 1 \<le> j \<longrightarrow> i - 1 \<le> scan_down compar A lb i j)
   \<and> (\<forall>k. scan_down compar A lb i j < k \<and> k \<le> j \<longrightarrow> compar (A ! nat k) (A ! nat lb) > 0)
   \<and> (scan_down compar A lb i j \<ge> i \<longrightarrow> \<not> compar (A ! nat (scan_down compar A lb i j)) (A ! nat lb) > 0)"
proof (induction compar A lb i j rule: scan_down.induct)
  case (1 compar A lb i j)
  show ?case
  proof (cases "j \<ge> i \<and> compar (A ! nat j) (A ! nat lb) > 0")
    case True
    then have e: "scan_down compar A lb i j = scan_down compar A lb i (j - 1)" by (subst scan_down.simps) simp
    have "compar (A ! nat k) (A ! nat lb) > 0" if "scan_down compar A lb i (j - 1) < k" "k \<le> j" for k
      using 1 [OF True] True that by (cases "k = j") auto
    then show ?thesis unfolding e using 1 [OF True] True by auto
  next
    case False
    then have "scan_down compar A lb i j = j" by (subst scan_down.simps) auto
    then show ?thesis using False by auto
  qed
qed

function part_loop :: "('a \<Rightarrow> 'a \<Rightarrow> int) \<Rightarrow> 'a list \<Rightarrow> int \<Rightarrow> int \<Rightarrow> int \<Rightarrow> 'a list \<times> int" where
  "part_loop compar A lb i j =
     (let i = scan_up compar A lb i j; j = scan_down compar A lb i j
      in if i \<ge> j then (A, j) else part_loop compar (xchg A i j) lb (i + 1) (j - 1))"
  by pat_completeness auto
termination
proof (relation "measure (\<lambda>(compar, A, lb, i, j). nat (j + 1 - i))", simp)
  fix compar :: "'a \<Rightarrow> 'a \<Rightarrow> int" and A lb i j x xa
  assume "x = scan_up compar A lb i j" "xa = scan_down compar A lb x j" "\<not> xa \<le> x"
  moreover have "i \<le> scan_up compar A lb i j" "scan_down compar A lb x j \<le> j"
    using scan_up_spec [of i compar A lb j] scan_down_spec [of compar A lb x j] by auto
  ultimately show "((compar, xchg A x xa, lb, x + 1, xa - 1), compar, A, lb, i, j)
      \<in> measure (\<lambda>(compar, A, lb, i, j). nat (j + 1 - i))" by simp
qed

declare part_loop.simps [simp del]

text \<open>One pass of the loop: the pivot goes to the front, the rest is partitioned, the pivot to its place.\<close>

definition qpartition :: "('a \<Rightarrow> 'a \<Rightarrow> int) \<Rightarrow> 'a list \<Rightarrow> int \<Rightarrow> int \<Rightarrow> 'a list \<times> int" where
  "qpartition compar A lb ub =
     (let P = lb + (ub - lb) div 2;
          A = xchg A lb P;
          (A, j) = part_loop compar A lb (lb + 1) ub
      in (xchg A lb j, j))"

lemma part_loop_bounds:
  "i - 1 \<le> j \<Longrightarrow> part_loop compar A lb i j = (B, m) \<Longrightarrow> i - 1 \<le> m \<and> m \<le> j"
proof (induction compar A lb i j arbitrary: B m rule: part_loop.induct)
  case (1 compar A lb i j)
  define i' where "i' = scan_up compar A lb i j"
  define j' where "j' = scan_down compar A lb i' j"
  have i': "i \<le> i'" "i \<le> j \<Longrightarrow> i' \<le> j" "j < i \<Longrightarrow> i' = i"
    unfolding i'_def using scan_up_spec [of i compar A lb j] by auto
  then have "i' - 1 \<le> j" using "1.prems"(1) by (cases "i \<le> j") auto
  then have j': "j' \<le> j" "i' - 1 \<le> j'"
    unfolding j'_def using scan_down_spec [of compar A lb i' j] by auto
  show ?case
  proof (cases "i' \<ge> j'")
    case True
    then show ?thesis
      using "1.prems" i' j' by (subst (asm) part_loop.simps) (simp add: i'_def [symmetric] j'_def [symmetric])
  next
    case False
    then have "part_loop compar (xchg A i' j') lb (i' + 1) (j' - 1) = (B, m)"
      using "1.prems"(2) by (subst (asm) part_loop.simps) (simp add: i'_def [symmetric] j'_def [symmetric])
    then have "i' \<le> m \<and> m \<le> j' - 1"
      using "1.IH" [OF i'_def j'_def] False by simp
    then show ?thesis using i' j' by simp
  qed
qed

lemma qpartition_bounds: "lb < ub \<Longrightarrow> qpartition compar A lb ub = (B, m) \<Longrightarrow> lb \<le> m \<and> m \<le> ub"
  unfolding qpartition_def Let_def
  by (auto split: prod.splits dest!: part_loop_bounds [rotated])

section \<open>Sorting\<close>

definition MAXSTACK :: nat where "MAXSTACK = 4 * 8"

type_synonym segment = "int \<times> int"

text \<open>The stack holds the segments below the one in hand; pushing on a full one writes behind the arrays,
  which is the value None.\<close>

definition seg_size :: "segment \<Rightarrow> nat" where
  "seg_size s = nat (snd s + 1 - fst s)"

definition push :: "segment \<Rightarrow> segment list \<Rightarrow> segment list option" where
  "push s stk = (if length stk < MAXSTACK then Some (s # stk) else None)"

text \<open>The segment to stack, if any, and the one to go on with.\<close>

definition split_at :: "int \<Rightarrow> int \<Rightarrow> int \<Rightarrow> segment option \<times> segment" where
  "split_at lb m ub =
     (if m - lb \<le> ub - m then (if m + 1 < ub then Some (m + 1, ub) else None, (lb, m - 1))
      else (if m - 1 > lb then Some (lb, m - 1) else None, (m + 1, ub)))"

lemma split_at_size:
  assumes "lb \<le> m" "m \<le> ub" "lb < ub"
  shows "split_at lb m ub = (None, s) \<Longrightarrow> seg_size s < seg_size (lb, ub)"
    "split_at lb m ub = (Some t, s) \<Longrightarrow> seg_size s + seg_size t < seg_size (lb, ub)"
  using assms by (auto simp: split_at_def seg_size_def split: if_splits)

function qs_loop :: "('a \<Rightarrow> 'a \<Rightarrow> int) \<Rightarrow> 'a list \<Rightarrow> segment list \<Rightarrow> int \<Rightarrow> int \<Rightarrow> 'a list option" where
  "qs_loop compar A stk lb ub =
     (if lb < ub
      then (case qpartition compar A lb ub of (B, m) \<Rightarrow>
              (case split_at lb m ub of
                 (None, (l, u)) \<Rightarrow> qs_loop compar B stk l u
               | (Some t, (l, u)) \<Rightarrow>
                   (case push t stk of None \<Rightarrow> None | Some stk \<Rightarrow> qs_loop compar B stk l u)))
      else (case stk of [] \<Rightarrow> Some A | (l, u) # stk \<Rightarrow> qs_loop compar A stk l u))"
  by pat_completeness auto
termination
proof (relation "measure (\<lambda>(compar, A, stk, lb, ub). 2 * sum_list (map seg_size stk) + 2 * seg_size (lb, ub) + length stk)",
    simp_all, goal_cases)
  case (1 compar A lb ub B m p s l u)
  then show ?case
    using split_at_size(1) [of lb m ub s] qpartition_bounds [of lb ub compar A B m] by (simp del: split_paired_All)
next
  case (2 compar A stk lb ub B m p s t l u stk')
  then show ?case
    using split_at_size(2) [of lb m ub t s] qpartition_bounds [of lb ub compar A B m]
    by (auto simp: push_def split: if_splits)
qed

declare qs_loop.simps [simp del]

definition qsort :: "('a \<Rightarrow> 'a \<Rightarrow> int) \<Rightarrow> 'a list \<Rightarrow> 'a list option" where
  "qsort compar A = qs_loop compar A [] 0 (int (length A) - 1)"

section \<open>Rearranging a part of the array\<close>

text \<open>B is A with the elements at the indices l to u rearranged.\<close>

definition rearranged :: "'a list \<Rightarrow> 'a list \<Rightarrow> int \<Rightarrow> int \<Rightarrow> bool" where
  "rearranged A B l u \<longleftrightarrow> length B = length A \<and> mset B = mset A
     \<and> (\<forall>k. 0 \<le> k \<and> k < int (length A) \<and> (k < l \<or> u < k) \<longrightarrow> B ! nat k = A ! nat k)
     \<and> (\<forall>k. l \<le> k \<and> k \<le> u \<longrightarrow> (\<exists>k'. l \<le> k' \<and> k' \<le> u \<and> B ! nat k = A ! nat k'))"

lemma rearranged_refl: "rearranged A A l u"
  by (auto simp: rearranged_def)

lemma rearranged_trans: "rearranged A B l u \<Longrightarrow> rearranged B C l u \<Longrightarrow> rearranged A C l u"
  unfolding rearranged_def by (elim conjE, intro conjI) (simp_all, metis)

lemma rearranged_widen:
  assumes "rearranged A B l u" "0 \<le> l'" "l' \<le> l" "u \<le> u'" "u' < int (length A)"
  shows "rearranged A B l' u'"
proof -
  have "\<exists>k'. l' \<le> k' \<and> k' \<le> u' \<and> B ! nat k = A ! nat k'" if k: "l' \<le> k" "k \<le> u'" for k
  proof (cases "l \<le> k \<and> k \<le> u")
    case True
    then obtain k' where "l \<le> k'" "k' \<le> u" "B ! nat k = A ! nat k'" using assms(1) by (auto simp: rearranged_def)
    then show ?thesis using assms by (intro exI [of _ k']) auto
  next
    case False
    then have "B ! nat k = A ! nat k" using assms k by (auto simp: rearranged_def)
    then show ?thesis using k by blast
  qed
  then show ?thesis using assms by (auto simp: rearranged_def)
qed

lemma xchg_nth:
  "0 \<le> i \<Longrightarrow> 0 \<le> j \<Longrightarrow> i < int (length A) \<Longrightarrow> j < int (length A) \<Longrightarrow> 0 \<le> k \<Longrightarrow>
   xchg A i j ! nat k = (if k = i then A ! nat j else if k = j then A ! nat i else A ! nat k)"
  by (auto simp: xchg_def nth_list_update)

lemma xchg_rearranged:
  assumes "0 \<le> l" "l \<le> i" "i \<le> u" "l \<le> j" "j \<le> u" "u < int (length A)"
  shows "rearranged A (xchg A i j) l u"
proof -
  have "mset (xchg A i j) = mset A" using assms by (simp add: xchg_def mset_swap)
  moreover have "\<exists>k'. l \<le> k' \<and> k' \<le> u \<and> xchg A i j ! nat k = A ! nat k'" if "l \<le> k" "k \<le> u" for k
    using assms that by (intro exI [of _ "if k = i then j else if k = j then i else k"]) (auto simp: xchg_nth)
  ultimately show ?thesis using assms by (auto simp: rearranged_def xchg_def nth_list_update)
qed

section \<open>The stack of segments\<close>

text \<open>The segments lie in the array and apart, and the k-th from the bottom is k times halved.\<close>

definition apart :: "segment \<Rightarrow> segment \<Rightarrow> bool" where
  "apart s t \<longleftrightarrow> snd s < fst t \<or> snd t < fst s"

fun halved :: "nat \<Rightarrow> segment list \<Rightarrow> bool" where
  "halved n [] = True"
| "halved n (s # stk) = (seg_size s * 2 ^ length stk \<le> n \<and> halved n stk)"

definition segments :: "nat \<Rightarrow> segment list \<Rightarrow> bool" where
  "segments n segs \<longleftrightarrow> sorted_wrt apart segs \<and> (\<forall>s \<in> set segs. 0 \<le> fst s \<and> snd s < int n) \<and> halved n segs"

lemma segments_ConsD: "segments n (s # stk) \<Longrightarrow> segments n stk"
  by (simp add: segments_def)

lemma split_at_segments:
  assumes seg: "segments n ((lb, ub) # stk)" and m: "lb \<le> m" "m \<le> ub" "lb < ub"
  shows "split_at lb m ub = (None, s) \<Longrightarrow> segments n (s # stk)"
    "split_at lb m ub = (Some t, s) \<Longrightarrow> segments n (s # t # stk) \<and> 2 \<le> seg_size t"
proof -
  have sub: "apart (l, u) t" if "apart (lb, ub) t" "lb \<le> l" "u \<le> ub" for l u t
    using that by (auto simp: apart_def)
  have c: "seg_size (lb, ub) * 2 ^ length stk \<le> n" using seg by (simp add: segments_def)
  have le: "k * 2 ^ length stk \<le> n" if "k \<le> seg_size (lb, ub)" for k
    using that c by (meson mult_le_mono1 order_trans)
  have le2: "k * (2 * 2 ^ length stk) \<le> n" if "2 * k \<le> seg_size (lb, ub)" for k
    using le [OF that] by (simp add: ac_simps)
  show "split_at lb m ub = (None, s) \<Longrightarrow> segments n (s # stk)"
    using seg m sub le by (auto simp: segments_def split_at_def seg_size_def split: if_splits)
  show "split_at lb m ub = (Some t, s) \<Longrightarrow> segments n (s # t # stk) \<and> 2 \<le> seg_size t"
    using seg m sub le le2
    by (auto simp: segments_def split_at_def seg_size_def apart_def split: if_splits)
qed

lemma push_fits:
  assumes "segments n (t # stk)" "2 \<le> seg_size t" "n \<le> 2 ^ MAXSTACK"
  shows "push t stk = Some (t # stk)"
proof -
  have "2 * 2 ^ length stk \<le> seg_size t * 2 ^ length stk" using assms(2) by simp
  also have "\<dots> \<le> 2 ^ MAXSTACK" using assms by (simp add: segments_def)
  finally have "(2 :: nat) ^ Suc (length stk) \<le> 2 ^ MAXSTACK" by simp
  then have "Suc (length stk) \<le> MAXSTACK" by (rule power_le_imp_le_exp [rotated]) simp
  then show ?thesis by (simp add: push_def)
qed

section \<open>What qsort needs of the comparison function\<close>

locale comparator =
  fixes compar :: "'a \<Rightarrow> 'a \<Rightarrow> int" and ok :: "'a \<Rightarrow> bool"
  assumes flip: "ok x \<Longrightarrow> ok y \<Longrightarrow> compar x y > 0 \<Longrightarrow> compar y x \<le> 0"
    and trans: "ok x \<Longrightarrow> ok y \<Longrightarrow> ok z \<Longrightarrow> compar x y \<le> 0 \<Longrightarrow> compar y z \<le> 0 \<Longrightarrow> compar x z \<le> 0"
begin

lemma part_loop_spec:
  "\<lbrakk>part_loop compar A lb i j = (B, m); 0 \<le> lb; lb < i; i - 1 \<le> j; j \<le> ub; ub < int (length A);
    \<forall>x \<in> set A. ok x; \<forall>k. lb < k \<and> k < i \<longrightarrow> compar (A ! nat k) (A ! nat lb) \<le> 0;
    \<forall>k. j < k \<and> k \<le> ub \<longrightarrow> compar (A ! nat lb) (A ! nat k) \<le> 0\<rbrakk>
   \<Longrightarrow> rearranged A B (lb + 1) ub \<and> B ! nat lb = A ! nat lb
     \<and> (\<forall>k. lb < k \<and> k \<le> m \<longrightarrow> compar (B ! nat k) (B ! nat lb) \<le> 0)
     \<and> (\<forall>k. m < k \<and> k \<le> ub \<longrightarrow> compar (B ! nat lb) (B ! nat k) \<le> 0)"
proof (induction "nat (j + 1 - i)" arbitrary: A i j rule: less_induct)
  case less
  note prems = less.prems
  define i' where "i' = scan_up compar A lb i j"
  define j' where "j' = scan_down compar A lb i' j"
  have i': "i \<le> i'" "i \<le> j \<Longrightarrow> i' \<le> j" "j < i \<Longrightarrow> i' = i" "\<And>k. i \<le> k \<Longrightarrow> k < i' \<Longrightarrow> compar (A ! nat lb) (A ! nat k) > 0"
      "i' < j \<Longrightarrow> compar (A ! nat lb) (A ! nat i') \<le> 0"
    unfolding i'_def using scan_up_spec [of i compar A lb j] by auto
  have "i' - 1 \<le> j" using i'(2,3) prems(4) by (cases "i \<le> j") auto
  then have j': "j' \<le> j" "i' - 1 \<le> j'" "\<And>k. j' < k \<Longrightarrow> k \<le> j \<Longrightarrow> compar (A ! nat k) (A ! nat lb) > 0"
      "j' \<ge> i' \<Longrightarrow> compar (A ! nat j') (A ! nat lb) \<le> 0"
    unfolding j'_def using scan_down_spec [of compar A lb i' j] by auto
  have el: "ok (A ! nat k)" if "0 \<le> k" "k \<le> ub" for k using that prems(6,7) by (simp add: nat_less_iff)
  have up: "compar (A ! nat k) (A ! nat lb) \<le> 0" if k: "lb < k" "k < i'" for k
  proof (cases "k < i")
    case False
    then have "compar (A ! nat lb) (A ! nat k) > 0" using i'(4) k by simp
    then show ?thesis using el prems k j' by (intro flip) auto
  qed (use prems k in auto)
  have down: "compar (A ! nat lb) (A ! nat k) \<le> 0" if k: "j' < k" "k \<le> ub" for k
  proof (cases "j < k")
    case False
    then have "compar (A ! nat k) (A ! nat lb) > 0" using j'(3) k by simp
    then show ?thesis using el prems k i' j' by (intro flip) auto
  qed (use prems k in auto)
  show ?case
  proof (cases "i' \<ge> j'")
    case True
    then have "B = A" "m = j'"
      using prems(1) by (subst (asm) part_loop.simps, simp add: i'_def [symmetric] j'_def [symmetric])+
    moreover have "compar (A ! nat k) (A ! nat lb) \<le> 0" if "lb < k" "k \<le> j'" for k
      using up [of k] j'(4) that True by (cases "k < i'"; cases "k = j'") auto
    ultimately show ?thesis using down rearranged_refl by auto
  next
    case False
    define C where "C = xchg A i' j'"
    have run: "part_loop compar C lb (i' + 1) (j' - 1) = (B, m)"
      using prems(1) False
      by (subst (asm) part_loop.simps) (simp add: i'_def [symmetric] j'_def [symmetric] C_def)
    have C: "C ! nat k = (if k = i' then A ! nat j' else if k = j' then A ! nat i' else A ! nat k)" if "0 \<le> k" for k
      unfolding C_def using prems i' j' False that by (intro xchg_nth) auto
    have re: "rearranged A C (lb + 1) ub"
      unfolding C_def using prems i' j' False by (intro xchg_rearranged) auto
    have mid: "compar (A ! nat j') (A ! nat lb) \<le> 0" "compar (A ! nat lb) (A ! nat i') \<le> 0"
      using j'(4) i'(5) j'(1) False by auto
    have "rearranged C B (lb + 1) ub \<and> B ! nat lb = C ! nat lb
        \<and> (\<forall>k. lb < k \<and> k \<le> m \<longrightarrow> compar (B ! nat k) (B ! nat lb) \<le> 0)
        \<and> (\<forall>k. m < k \<and> k \<le> ub \<longrightarrow> compar (B ! nat lb) (B ! nat k) \<le> 0)"
    proof (rule less.hyps [OF _ run])
      show "\<forall>k. lb < k \<and> k < i' + 1 \<longrightarrow> compar (C ! nat k) (C ! nat lb) \<le> 0"
        using up mid prems i' False by (auto simp: C)
      show "\<forall>k. j' - 1 < k \<and> k \<le> ub \<longrightarrow> compar (C ! nat lb) (C ! nat k) \<le> 0"
        using down mid prems i' False by (auto simp: C)
      show "\<forall>x \<in> set C. ok x" using prems(7) re by (metis rearranged_def set_mset_mset)
      show "ub < int (length C)" using re prems by (simp add: rearranged_def)
    qed (use prems i' j' False in auto)
    moreover have "C ! nat lb = A ! nat lb" using prems i' False by (simp add: C)
    ultimately show ?thesis using re rearranged_trans by auto
  qed
qed

lemma qpartition_spec:
  assumes run: "qpartition compar A lb ub = (B, m)" and b: "0 \<le> lb" "lb < ub" "ub < int (length A)" "\<forall>x \<in> set A. ok x"
  shows "rearranged A B lb ub" "lb \<le> m" "m \<le> ub"
    "\<And>k. lb \<le> k \<Longrightarrow> k < m \<Longrightarrow> compar (B ! nat k) (B ! nat m) \<le> 0"
    "\<And>k. m < k \<Longrightarrow> k \<le> ub \<Longrightarrow> compar (B ! nat m) (B ! nat k) \<le> 0"
proof -
  define P where "P = lb + (ub - lb) div 2"
  obtain C where C: "part_loop compar (xchg A lb P) lb (lb + 1) ub = (C, m)" and B: "B = xchg C lb m"
    using run by (auto simp: qpartition_def Let_def P_def split: prod.splits)
  show m: "lb \<le> m" "m \<le> ub" using qpartition_bounds [OF b(2) run] by auto
  have P: "lb \<le> P" "P \<le> ub" using b by (auto simp: P_def)
  have r1: "rearranged A (xchg A lb P) lb ub" using b P by (intro xchg_rearranged) auto
  have len: "length (xchg A lb P) = length A" by (simp add: xchg_def)
  have ok1: "\<forall>x \<in> set (xchg A lb P). ok x" using b(4) r1 by (metis rearranged_def set_mset_mset)
  have sp: "rearranged (xchg A lb P) C (lb + 1) ub"
      "\<forall>k. lb < k \<and> k \<le> m \<longrightarrow> compar (C ! nat k) (C ! nat lb) \<le> 0"
      "\<forall>k. m < k \<and> k \<le> ub \<longrightarrow> compar (C ! nat lb) (C ! nat k) \<le> 0"
    using part_loop_spec [OF C, of ub] b len ok1 by auto
  have lc: "length C = length A" using sp(1) len by (simp add: rearranged_def)
  have r2: "rearranged (xchg A lb P) C lb ub" by (rule rearranged_widen [OF sp(1)]) (use b len in auto)
  have r3: "rearranged C B lb ub" unfolding B using b m lc by (intro xchg_rearranged) auto
  show "rearranged A B lb ub" by (rule rearranged_trans [OF rearranged_trans [OF r1 r2] r3])
  have nth: "B ! nat k = (if k = lb then C ! nat m else if k = m then C ! nat lb else C ! nat k)" if "0 \<le> k" for k
    unfolding B using b m lc that by (intro xchg_nth) auto
  show "compar (B ! nat k) (B ! nat m) \<le> 0" if "lb \<le> k" "k < m" for k
    using sp(2) that b m by (auto simp: nth)
  show "compar (B ! nat m) (B ! nat k) \<le> 0" if "m < k" "k \<le> ub" for k
    using sp(3) that b m by (auto simp: nth)
qed

text \<open>Two elements that are not in one pending segment are in order.\<close>

definition ordered :: "'a list \<Rightarrow> segment list \<Rightarrow> bool" where
  "ordered A segs \<longleftrightarrow> (\<forall>p q. 0 \<le> p \<and> p < q \<and> q < int (length A) \<longrightarrow>
     (\<exists>(l, u) \<in> set segs. l \<le> p \<and> q \<le> u) \<or> compar (A ! nat p) (A ! nat q) \<le> 0)"

lemma ordered_covers:
  assumes "ordered A segs" "\<And>l u. (l, u) \<in> set segs \<Longrightarrow> l < u \<Longrightarrow> (l, u) \<in> set segs'"
  shows "ordered A segs'"
  unfolding ordered_def
proof (intro allI impI)
  fix p q assume pq: "0 \<le> p \<and> p < q \<and> q < int (length A)"
  then consider l u where "(l, u) \<in> set segs" "l \<le> p" "q \<le> u" | "compar (A ! nat p) (A ! nat q) \<le> 0"
    using assms(1) unfolding ordered_def by fastforce
  then show "(\<exists>(l, u) \<in> set segs'. l \<le> p \<and> q \<le> u) \<or> compar (A ! nat p) (A ! nat q) \<le> 0"
    using assms(2) pq by cases (auto, force)
qed

lemma ordered_partition:
  assumes ord: "ordered A ((lb, ub) # stk)" and apart: "\<forall>(l, u) \<in> set stk. u < lb \<or> ub < l"
    and run: "qpartition compar A lb ub = (B, m)" and b: "0 \<le> lb" "lb < ub" "ub < int (length A)" "\<forall>x \<in> set A. ok x"
  shows "ordered B ((lb, m - 1) # (m + 1, ub) # stk)"
  unfolding ordered_def
proof (intro allI impI)
  note sp = qpartition_spec [OF run b]
  have re: "length B = length A" "\<And>k. 0 \<le> k \<Longrightarrow> k < int (length A) \<Longrightarrow> k < lb \<or> ub < k \<Longrightarrow> B ! nat k = A ! nat k"
      "\<And>k. lb \<le> k \<Longrightarrow> k \<le> ub \<Longrightarrow> \<exists>k'. lb \<le> k' \<and> k' \<le> ub \<and> B ! nat k = A ! nat k'"
    using sp(1) by (auto simp: rearranged_def)
  have okB: "ok (B ! nat k)" if "0 \<le> k" "k < int (length A)" for k
  proof -
    have "set B = set A" using sp(1) by (metis rearranged_def set_mset_mset)
    then show ?thesis using b(4) re(1) that by (metis nat_less_iff nth_mem)
  qed
  fix p q assume pq: "0 \<le> p \<and> p < q \<and> q < int (length B)"
  then have pq: "0 \<le> p" "p < q" "q < int (length A)" using re(1) by auto
  let ?goal = "(\<exists>(l, u) \<in> set ((lb, m - 1) # (m + 1, ub) # stk). l \<le> p \<and> q \<le> u) \<or> compar (B ! nat p) (B ! nat q) \<le> 0"
  have old: "(\<exists>(l, u) \<in> set stk. l \<le> p' \<and> q' \<le> u) \<or> compar (A ! nat p') (A ! nat q') \<le> 0"
    if "0 \<le> p'" "p' < q'" "q' < int (length A)" "p' < lb \<or> ub < q'" for p' q'
    using ord that unfolding ordered_def by fastforce
  have disj: False if "(l, u) \<in> set stk" "l \<le> k" "k \<le> u" "lb \<le> k" "k \<le> ub" for l u k
    using apart that by fastforce
  consider (inside) "lb \<le> p" "q \<le> ub" | (enter) "p < lb" "lb \<le> q" "q \<le> ub" | (leave) "lb \<le> p" "p \<le> ub" "ub < q"
    | (outside) "p < lb \<or> ub < p" "q < lb \<or> ub < q" using pq by linarith
  then show ?goal
  proof cases
    case inside
    consider "q < m" | "m < p" | "p < m" "q = m" | "p = m" "m < q" | "p < m" "m < q" using pq by linarith
    then show ?thesis
    proof cases
      case 5
      then show ?thesis
        using sp(4) [of p] sp(5) [of q] trans [of "B ! nat p" "B ! nat m" "B ! nat q"] okB pq inside sp(2,3) b by auto
    qed (use inside sp(4,5) in auto)
  next
    case enter
    then obtain k where "lb \<le> k" "k \<le> ub" "B ! nat q = A ! nat k" using re(3) by blast
    then show ?thesis using old [of p k] disj [of _ _ k] enter pq b re(2) [of p] by fastforce
  next
    case leave
    then obtain k where "lb \<le> k" "k \<le> ub" "B ! nat p = A ! nat k" using re(3) by blast
    then show ?thesis using old [of k q] disj [of _ _ k] leave pq b re(2) [of q] by fastforce
  next
    case outside
    then show ?thesis using old [of p q] pq re(2) [of p] re(2) [of q] ord unfolding ordered_def by fastforce
  qed
qed

lemma split_at_ordered:
  assumes "ordered B ((lb, m - 1) # (m + 1, ub) # stk)" "lb \<le> m" "m \<le> ub"
  shows "split_at lb m ub = (None, s) \<Longrightarrow> ordered B (s # stk)" "split_at lb m ub = (Some t, s) \<Longrightarrow> ordered B (s # t # stk)"
  by (rule ordered_covers [OF assms(1)], use assms(2,3) in \<open>auto simp: split_at_def split: if_splits\<close>)+

lemma qs_loop_correct:
  "\<lbrakk>segments (length A) ((lb, ub) # stk); ordered A ((lb, ub) # stk); \<forall>x \<in> set A. ok x; length A \<le> 2 ^ MAXSTACK\<rbrakk>
   \<Longrightarrow> \<exists>B. qs_loop compar A stk lb ub = Some B \<and> mset B = mset A \<and> sorted_wrt (\<lambda>x y. compar x y \<le> 0) B"
proof (induction "2 * sum_list (map seg_size stk) + 2 * seg_size (lb, ub) + length stk" arbitrary: A stk lb ub rule: less_induct)
  case less
  note seg = less.prems(1) and ord = less.prems(2)
  show ?case
  proof (cases "lb < ub")
    case True
    obtain B m where q: "qpartition compar A lb ub = (B, m)" by fastforce
    have b: "0 \<le> lb" "lb < ub" "ub < int (length A)" "\<forall>x \<in> set A. ok x"
      using seg True less.prems(3) by (auto simp: segments_def)
    note sp = qpartition_spec [OF q b]
    have B: "length B = length A" "mset B = mset A" "\<forall>x \<in> set B. ok x"
      using sp(1) b(4) by (auto simp: rearranged_def dest: mset_eq_setD)
    have ap: "\<forall>(l, u) \<in> set stk. u < lb \<or> ub < l" using seg by (auto simp: segments_def apart_def)
    have oB: "ordered B ((lb, m - 1) # (m + 1, ub) # stk)" by (rule ordered_partition [OF ord ap q b])
    obtain t l u where sa: "split_at lb m ub = (t, (l, u))" by (metis prod.exhaust)
    show ?thesis
    proof (cases t)
      case None
      have "\<exists>C. qs_loop compar B stk l u = Some C \<and> mset C = mset B \<and> sorted_wrt (\<lambda>x y. compar x y \<le> 0) C"
        using split_at_size(1) [OF sp(2,3) True] split_at_segments(1) [OF seg sp(2,3) True] split_at_ordered(1) [OF oB sp(2,3)]
          sa None B less.prems(4) by (intro less.hyps) auto
      then show ?thesis using B(2) True q sa None by (subst qs_loop.simps) auto
    next
      case (Some r)
      have sg: "segments (length A) ((l, u) # r # stk)" "2 \<le> seg_size r"
        using split_at_segments(2) [OF seg sp(2,3) True] sa Some by auto
      have "\<exists>C. qs_loop compar B (r # stk) l u = Some C \<and> mset C = mset B \<and> sorted_wrt (\<lambda>x y. compar x y \<le> 0) C"
        using split_at_size(2) [OF sp(2,3) True] sg split_at_ordered(2) [OF oB sp(2,3)] sa Some B less.prems(4)
        by (intro less.hyps) auto
      then show ?thesis
        using B(2) True q sa Some push_fits [OF segments_ConsD [OF sg(1)] sg(2) less.prems(4)]
        by (subst qs_loop.simps) auto
    qed
  next
    case False
    have ord': "ordered A stk" by (rule ordered_covers [OF ord]) (use False in auto)
    show ?thesis
    proof (cases stk)
      case Nil
      then have "sorted_wrt (\<lambda>x y. compar x y \<le> 0) A"
        using ord' unfolding sorted_wrt_iff_nth_less ordered_def by (metis empty_iff empty_set nat_int of_nat_0_le_iff of_nat_less_iff)
      then show ?thesis using False Nil by (subst qs_loop.simps) simp
    next
      case (Cons s stk')
      obtain l u where s: "s = (l, u)" by fastforce
      have "\<exists>C. qs_loop compar A stk' l u = Some C \<and> mset C = mset A \<and> sorted_wrt (\<lambda>x y. compar x y \<le> 0) C"
        using ord' segments_ConsD [OF seg] Cons s less.prems by (intro less.hyps) auto
      then show ?thesis using False Cons s by (subst qs_loop.simps) simp
    qed
  qed
qed

lemma qsort_correct:
  assumes "\<forall>x \<in> set A. ok x" "length A \<le> 2 ^ MAXSTACK"
  shows "\<exists>B. qsort compar A = Some B \<and> mset B = mset A \<and> sorted_wrt (\<lambda>x y. compar x y \<le> 0) B"
proof -
  have "segments (length A) [(0, int (length A) - 1)]" by (simp add: segments_def seg_size_def)
  moreover have "ordered A [(0, int (length A) - 1)]" by (simp add: ordered_def)
  ultimately show ?thesis using qs_loop_correct assms unfolding qsort_def by simp
qed

end

section \<open>The exchange on bytes\<close>

lemma xchg_bytes_add: "xchg_bytes (m + n) mem a b = xchg_bytes n (xchg_bytes m mem a b) (a + m) (b + m)"
  by (induction m arbitrary: mem a b) auto

lemma xchg_words_spec:
  "xchg_words i sz mem a b = (mem', i', a', b') \<Longrightarrow> 4 \<le> i \<Longrightarrow> i \<le> sz + 4 \<Longrightarrow>
   \<exists>n. i' = i + n \<and> a' = a + n \<and> b' = b + n \<and> mem' = xchg_bytes n mem a b \<and> i' \<le> sz + 4"
proof (induction i sz mem a b arbitrary: mem' i' a' b' rule: xchg_words.induct)
  case (1 i sz mem a b)
  show ?case
  proof (cases "i \<le> sz")
    case True
    then have "xchg_words (i + 4) sz (xchg_bytes 4 mem a b) (a + 4) (b + 4) = (mem', i', a', b')"
      using "1.prems"(1) by (subst (asm) xchg_words.simps) simp
    then obtain n where n: "i' = i + 4 + n" "a' = a + 4 + n" "b' = b + 4 + n" "i' \<le> sz + 4"
        "mem' = xchg_bytes n (xchg_bytes 4 mem a b) (a + 4) (b + 4)"
      using "1.IH" [OF True] True by fastforce
    then have "mem' = xchg_bytes (4 + n) mem a b" using xchg_bytes_add [of 4 n mem a b] by simp
    then show ?thesis using n by (intro exI [of _ "4 + n"]) simp
  next
    case False
    then show ?thesis using "1.prems" by (subst (asm) xchg_words.simps) (intro exI [of _ 0], simp)
  qed
qed

lemma shift_Suc: "Suc b \<le> k \<Longrightarrow> Suc (x + k - Suc b) = x + k - b"
  by simp

lemma xchg_bytes_nth:
  "a + n \<le> b \<or> b + n \<le> a \<or> a = b \<Longrightarrow> a + n \<le> length mem \<Longrightarrow> b + n \<le> length mem \<Longrightarrow>
   xchg_bytes n mem a b ! k =
     (if a \<le> k \<and> k < a + n then mem ! (b + (k - a)) else if b \<le> k \<and> k < b + n then mem ! (a + (k - b)) else mem ! k)"
proof (induction n arbitrary: mem a b)
  case (Suc n)
  then show ?case
    by (auto simp: swap_bytes_def nth_list_update not_le less_Suc_eq_le Suc_diff_le shift_Suc)
qed auto

text \<open>
  \<open>qsexchange\<close>, four bytes at a time and then byte by byte, exchanges exactly the two elements, whatever
  their size, and does nothing when they are the same.
\<close>

theorem qsexchange_correct:
  assumes "a + sz \<le> b \<or> b + sz \<le> a \<or> a = b" "a + sz \<le> length mem" "b + sz \<le> length mem"
  shows "qsexchange mem a b sz ! k =
    (if a \<le> k \<and> k < a + sz then mem ! (b + (k - a)) else if b \<le> k \<and> k < b + sz then mem ! (a + (k - b)) else mem ! k)"
proof -
  obtain mem' i' a' b' where w: "xchg_words 4 sz mem a b = (mem', i', a', b')" by (metis prod.exhaust)
  obtain n where n: "i' = 4 + n" "a' = a + n" "b' = b + n" "mem' = xchg_bytes n mem a b" "i' \<le> sz + 4"
    using xchg_words_spec [OF w] by auto
  have "qsexchange mem a b sz = xchg_bytes (n + (sz - n)) mem a b"
    using w n unfolding qsexchange_def xchg_bytes_add by simp
  also have "\<dots> = xchg_bytes sz mem a b" using n(1,5) by simp
  finally show ?thesis using xchg_bytes_nth [OF assms] by simp
qed

theorem qsexchange_correct_witness: "qsexchange [1, 2, 3, 4, 5, 6, 7, 8, 9, 10] 0 5 5 ! 9 = 5"
  using qsexchange_correct [of 0 5 5 "[1, 2, 3, 4, 5, 6, 7, 8, 9, 10]" 9] by simp

section \<open>The comparison functions\<close>

interpretation strcmp_order: comparator lib_strcmp "\<lambda>_. True"
proof
  show "lib_strcmp y x \<le> 0" if "lib_strcmp x y > 0" for x y
    using that lib_strcmp_neg [of y x] by simp
  show "lib_strcmp x z \<le> 0" if "lib_strcmp x y \<le> 0" "lib_strcmp y z \<le> 0" for x y z
    using that by (rule lib_strcmp_trans)
qed

text \<open>src/broadcom/src/cfe/cfe/pci/pciconf.c sorts its windows before it assigns addresses.\<close>

record pciwin =
  win_bus :: int
  win_reg :: int
  win_size :: u32
  win_address :: u32

definition wincompare :: "pciwin \<Rightarrow> pciwin \<Rightarrow> int" where
  "wincompare wa wb =
     (if win_bus wa \<noteq> win_bus wb then win_bus wa - win_bus wb else sint (win_size wb - win_size wa))"

definition small_window :: "pciwin \<Rightarrow> bool" where
  "small_window w \<longleftrightarrow> unat (win_size w) < 2147483648"

lemma sint_diff_small:
  fixes x y :: u32
  assumes "unat x < 2147483648" "unat y < 2147483648"
  shows "sint (x - y) = int (unat x) - int (unat y)"
proof -
  let ?k = "int (unat x) - int (unat y)"
  have k: "- 2147483648 \<le> ?k" "?k < 2147483648" using assms by linarith+
  have "x - y = word_of_int ?k" by simp
  then show ?thesis using signed_take_bit_int_eq_self [of 31 ?k] k by (simp only: signed_of_int) simp
qed

interpretation window_order: comparator wincompare small_window
proof
  show "wincompare y x \<le> 0" if "small_window x" "small_window y" "wincompare x y > 0" for x y
    using that by (auto simp: wincompare_def small_window_def sint_diff_small split: if_splits)
  show "wincompare x z \<le> 0"
    if "small_window x" "small_window y" "small_window z" "wincompare x y \<le> 0" "wincompare y z \<le> 0" for x y z
    using that by (auto simp: wincompare_def small_window_def sint_diff_small split: if_splits)
qed

text \<open>
  C11: Sorting the PCI windows.  qsort with \<open>wincompare\<close> returns, within its stack of 32 segments, a rearrangement
  of the windows in ascending order of bus number and, on one bus, in descending order of size, when no
  window has 2 GB or more.
\<close>

theorem pci_windows_sorted:
  assumes "\<forall>w \<in> set ws. unat (win_size w) < 2147483648" "length ws \<le> 2 ^ 32"
  shows "\<exists>ws'. qsort wincompare ws = Some ws' \<and> mset ws' = mset ws
    \<and> sorted_wrt (\<lambda>v w. win_bus v < win_bus w \<or> win_bus v = win_bus w \<and> win_size w \<le> win_size v) ws'"
proof -
  have ok: "\<forall>w \<in> set ws. small_window w" using assms(1) by (simp add: small_window_def)
  obtain ws' where q: "qsort wincompare ws = Some ws'" "mset ws' = mset ws" "sorted_wrt (\<lambda>v w. wincompare v w \<le> 0) ws'"
    using window_order.qsort_correct [OF ok] assms(2) by (auto simp: MAXSTACK_def)
  have "\<forall>w \<in> set ws'. small_window w" using ok q(2) by (metis mset_eq_setD)
  then have "sorted_wrt (\<lambda>v w. win_bus v < win_bus w \<or> win_bus v = win_bus w \<and> win_size w \<le> win_size v) ws'"
    by (intro sorted_wrt_mono_rel [OF _ q(3)])
      (auto simp: wincompare_def small_window_def sint_diff_small word_le_def split: if_splits)
  then show ?thesis using q by blast
qed

theorem pci_windows_sorted_witness:
  "\<exists>ws'. qsort wincompare [\<lparr>win_bus = 1, win_reg = 0, win_size = 16, win_address = 0\<rparr>,
       \<lparr>win_bus = 0, win_reg = 0, win_size = 4, win_address = 0\<rparr>] = Some ws' \<and> length ws' = 2"
proof -
  let ?ws = "[\<lparr>win_bus = 1, win_reg = 0, win_size = 16, win_address = 0\<rparr>, \<lparr>win_bus = 0, win_reg = 0, win_size = 4, win_address = 0 :: u32\<rparr>]"
  obtain ws' where "qsort wincompare ?ws = Some ws'" "mset ws' = mset ?ws" using pci_windows_sorted [of ?ws] by auto
  then show ?thesis by (metis One_nat_def Suc_1 length_Cons list.size(3) size_mset)
qed

end
