(* ===== verification/Cfe_Env.thy ===== *)
theory Cfe_Env
  imports Cfe_String Var_Store
begin

text \<open>
  The environment of the boot loader, src/broadcom/src/cfe/cfe/main/env_subr.c, and its access to the NVRAM
  device, src/broadcom/src/cfe/cfe/main/nvram_subr.c.  The environment is the list of its variables in the
  order of the queue \<open>env_envvars\<close>; \<open>q_enqueue\<close> appends and \<open>q_dequeue\<close> removes.  The bytes of the
  device are characters.  Whether KMALLOC of a size succeeds, what a fresh buffer holds and the device
  driver behind \<open>cfe_open\<close>, \<open>cfe_ioctl\<close>, \<open>cfe_readblk\<close> and \<open>cfe_writeblk\<close> are parameters.
\<close>

definition CFE_ERR_IOERR :: int where "CFE_ERR_IOERR = -4"
definition CFE_ERR_NOMEM :: int where "CFE_ERR_NOMEM = -5"
definition CFE_ERR_DEVNOTFOUND :: int where "CFE_ERR_DEVNOTFOUND = -6"
definition CFE_ERR_ENVNOTFOUND :: int where "CFE_ERR_ENVNOTFOUND = -9"
definition CFE_ERR_ENVREADONLY :: int where "CFE_ERR_ENVREADONLY = -10"

definition ENV_FLG_BUILTIN :: u32 where "ENV_FLG_BUILTIN = 0x01"
definition ENV_FLG_READONLY :: u32 where "ENV_FLG_READONLY = 0x02"
definition ENV_FLG_MASK :: u32 where "ENV_FLG_MASK = 0xFF"
definition ENV_FLG_ADMIN :: u32 where "ENV_FLG_ADMIN = 0x100"

definition ENV_LENGTH_8BITS :: nat where "ENV_LENGTH_8BITS = 1"
definition ENV_TLV_TYPE_END :: nat where "ENV_TLV_TYPE_END = 0"
definition ENV_TLV_TYPE_ENV :: nat where "ENV_TLV_TYPE_ENV = 1"

section \<open>Variables\<close>

record envvar =
  env_flags :: u32
  env_name :: string
  env_value :: string

type_synonym environment = "envvar list"

fun env_findenv :: "environment \<Rightarrow> string \<Rightarrow> envvar option" where
  "env_findenv [] name = None"
| "env_findenv (e # env) name = (if lib_strcmp (env_name e) name = 0 then Some e else env_findenv env name)"

text \<open>\<open>q_dequeue\<close> of the variable \<open>env_findenv\<close> gives.\<close>

fun dequeue_env :: "environment \<Rightarrow> string \<Rightarrow> environment" where
  "dequeue_env [] name = []"
| "dequeue_env (e # env) name = (if lib_strcmp (env_name e) name = 0 then env else e # dequeue_env env name)"

fun enum_loop :: "environment \<Rightarrow> int \<Rightarrow> envvar option" where
  "enum_loop [] idx = None"
| "enum_loop (e # env) idx = (if idx = 0 then Some e else enum_loop env (idx - 1))"

text \<open>The caller's two buffers with their lengths; None is a write outside one of them.\<close>

definition env_enum :: "environment \<Rightarrow> int \<Rightarrow> char list \<times> nat \<Rightarrow> char list \<times> nat
    \<Rightarrow> (int \<times> (char list \<times> nat) \<times> (char list \<times> nat)) option" where
  "env_enum env idx nb vb =
     (case enum_loop env idx of
        None \<Rightarrow> Some (CFE_ERR_ENVNOTFOUND, nb, vb)
      | Some e \<Rightarrow>
          do { nb \<leftarrow> lib_xstrncpy (fst nb) 0 (env_name e) (snd nb);
               vb \<leftarrow> lib_xstrncpy (fst vb) 0 (env_value e) (snd vb);
               Some (0, nb, vb) })"

definition env_envtype :: "environment \<Rightarrow> string \<Rightarrow> int" where
  "env_envtype env name = (case env_findenv env name of Some e \<Rightarrow> sint (env_flags e) | None \<Rightarrow> CFE_ERR_ENVNOTFOUND)"

definition env_delenv :: "string \<Rightarrow> environment \<Rightarrow> int \<times> environment" where
  "env_delenv name env =
     (case env_findenv env name of
        None \<Rightarrow> (0, env)
      | Some e \<Rightarrow> if env_flags e AND ENV_FLG_READONLY = 0 then (0, dequeue_env env name) else (CFE_ERR_ENVNOTFOUND, env))"

definition env_getenv :: "environment \<Rightarrow> string \<Rightarrow> string option" where
  "env_getenv env name = map_option env_value (env_findenv env name)"

text \<open>A variable is one block: the 20 bytes of the structure, the name and the value with their NULs.\<close>

definition ENVVAR_SIZE :: nat where "ENVVAR_SIZE = 20"

definition env_setenv :: "(nat \<Rightarrow> bool) \<Rightarrow> string \<Rightarrow> string \<Rightarrow> u32 \<Rightarrow> environment \<Rightarrow> int \<times> environment" where
  "env_setenv kmalloc name v flgs env =
     (case env_findenv env name of
        Some e \<Rightarrow>
          if flgs AND ENV_FLG_ADMIN = 0 \<and> env_flags e AND ENV_FLG_READONLY \<noteq> 0 then (CFE_ERR_ENVREADONLY, env)
          else if kmalloc (ENVVAR_SIZE + lib_strlen name + 1 + lib_strlen v + 1)
          then (0, dequeue_env env name @ [\<lparr>env_flags = flgs AND ENV_FLG_MASK, env_name = name, env_value = v\<rparr>])
          else (CFE_ERR_NOMEM, dequeue_env env name)
      | None \<Rightarrow>
          if kmalloc (ENVVAR_SIZE + lib_strlen name + 1 + lib_strlen v + 1)
          then (0, env @ [\<lparr>env_flags = flgs AND ENV_FLG_MASK, env_name = name, env_value = v\<rparr>])
          else (CFE_ERR_NOMEM, env))"

section \<open>The NVRAM device\<close>

record nvram_info =
  nvram_offset :: nat
  nvram_size :: nat
  nvram_eraseflg :: bool

record 'd driver =
  drv_open :: "string \<Rightarrow> 'd \<Rightarrow> int"
  drv_getinfo :: "'d \<Rightarrow> nvram_info option"
  drv_read :: "'d \<Rightarrow> nat \<Rightarrow> nat \<Rightarrow> int \<times> char list"
  drv_write :: "'d \<Rightarrow> nat \<Rightarrow> char list \<Rightarrow> int \<times> 'd"
  drv_erase :: "'d \<Rightarrow> nvram_info \<Rightarrow> int \<times> 'd"

record 'd nvdev =
  nvram_handle :: int
  nvram_inf :: nvram_info
  nvram_devname :: "string option"
  dev :: 'd

definition nvram_subr_close :: "'d nvdev \<Rightarrow> 'd nvdev" where
  "nvram_subr_close st = (if nvram_handle st \<noteq> -1 then st\<lparr>nvram_handle := -1\<rparr> else st)"

definition nvram_subr_getinfo :: "'d driver \<Rightarrow> 'd nvdev \<Rightarrow> int \<times> 'd nvdev" where
  "nvram_subr_getinfo D st =
     (if nvram_handle st = -1 then (-1, st)
      else case drv_getinfo D (dev st) of None \<Rightarrow> (-1, st) | Some i \<Rightarrow> (0, st\<lparr>nvram_inf := i\<rparr>))"

definition nvram_subr_open :: "'d driver \<Rightarrow> 'd nvdev \<Rightarrow> int \<times> 'd nvdev" where
  "nvram_subr_open D st =
     (let st = (if nvram_handle st \<noteq> -1 then nvram_subr_close st else st)
      in case nvram_devname st of
           None \<Rightarrow> (CFE_ERR_DEVNOTFOUND, st)
         | Some name \<Rightarrow>
             (let st = st\<lparr>nvram_handle := drv_open D name (dev st)\<rparr>
              in if nvram_handle st < 0 then (CFE_ERR_DEVNOTFOUND, st)
                 else (let (res, st) = nvram_subr_getinfo D st
                       in if res < 0 then (CFE_ERR_IOERR, nvram_subr_close st) else (0, st))))"

definition nvram_subr_getsize :: "'d nvdev \<Rightarrow> nat" where
  "nvram_subr_getsize st = (if nvram_handle st < 0 then 0 else nvram_size (nvram_inf st))"

definition nvram_subr_read :: "'d driver \<Rightarrow> 'd nvdev \<Rightarrow> nat \<Rightarrow> nat \<Rightarrow> int \<times> char list" where
  "nvram_subr_read D st offset len =
     (if nvram_handle st = -1 then (-1, []) else drv_read D (dev st) (offset + nvram_offset (nvram_inf st)) len)"

definition nvram_subr_write :: "'d driver \<Rightarrow> char list \<Rightarrow> nat \<Rightarrow> 'd nvdev \<Rightarrow> int \<times> 'd nvdev" where
  "nvram_subr_write D bs offset st =
     (if nvram_handle st = -1 then (-1, st)
      else (let (res, d) = drv_write D (dev st) (offset + nvram_offset (nvram_inf st)) bs in (res, st\<lparr>dev := d\<rparr>)))"

definition nvram_subr_erase :: "'d driver \<Rightarrow> 'd nvdev \<Rightarrow> int \<times> 'd nvdev" where
  "nvram_subr_erase D st =
     (if nvram_handle st < 0 then (-1, st)
      else if \<not> nvram_eraseflg (nvram_inf st) then (0, st)
      else (let (res, d) = drv_erase D (dev st) (nvram_inf st)
            in if res \<noteq> 0 then (-1, st\<lparr>dev := d\<rparr>) else (0, st\<lparr>dev := d\<rparr>)))"

section \<open>Loading\<close>

text \<open>
  A record in the buffer, reclen bytes from its start: flags, name, equals sign and value.  The search for the
  equals sign is bounded by reclen - 1, which for an empty record is the largest size; it then runs
  over what the buffer held before, and a value found there has a negative length.  Both ends, outside the
  buffer or in a negative length, are the value None.
\<close>

definition load_record :: "(nat \<Rightarrow> bool) \<Rightarrow> char list \<Rightarrow> nat \<Rightarrow> environment \<Rightarrow> environment option" where
  "load_record kmalloc buf reclen env =
     (let flg = of_char (buf ! 0);
          cnt = (if reclen = 0 then 2 ^ 32 - 1 else reclen - 1);
          name_value = str_at buf 1
      in case lib_strnchr name_value (CHR ''='') cnt of
           None \<Rightarrow> if NUL \<notin> set (drop 1 buf) \<and> length (drop 1 buf) < cnt then None else Some env
         | Some t \<Rightarrow>
             (let namelen = length name_value - length t; envval = 1 + namelen + 1
              in if reclen < envval then None
                 else (let v = takeWhile (\<lambda>c. c \<noteq> NUL) (take (reclen - envval) (drop envval buf))
                       in Some (snd (env_setenv kmalloc (take namelen name_value) v flg env)))))"

text \<open>
  The loop over the records: \<open>buf\<close> holds what was last read at its start, \<open>sz\<close> is the int \<open>size\<close>.  A record
  longer than what is left ends the loop; size is converted to unsigned for this comparison.
\<close>

function load_loop :: "(nat \<Rightarrow> bool) \<Rightarrow> 'd driver \<Rightarrow> 'd nvdev \<Rightarrow> char list \<Rightarrow> nat \<Rightarrow> int \<Rightarrow> environment
    \<Rightarrow> (int \<times> environment) option" where
  "load_loop kmalloc D st buf offset sz env =
     (if \<not> (of_char (buf ! 0) \<noteq> ENV_TLV_TYPE_END \<and> sz > 1) then Some (0, env)
      else (let rectype = of_char (buf ! 0) :: nat;
                llen = (if rectype AND ENV_LENGTH_8BITS \<noteq> 0 then 1 else 2);
                (n, bs) = nvram_subr_read D st (offset + 1) llen
            in if n \<noteq> int llen then Some (CFE_ERR_IOERR, env)
               else (let buf = splice buf 0 bs;
                         reclen = (if llen = 1 then of_char (buf ! 0) else of_char (buf ! 0) * 256 + of_char (buf ! 1));
                         sz = sz - 1 - int llen;
                         offset = offset + 1 + llen
                     in if int reclen > sz mod 2 ^ 32 then Some (0, env)
                        else (let (n, bs) = (if rectype = ENV_TLV_TYPE_ENV then nvram_subr_read D st offset reclen
                                             else (int reclen, []))
                              in if n \<noteq> int reclen then Some (-1, env)
                                 else (let buf = splice buf 0 bs
                                       in case (if rectype = ENV_TLV_TYPE_ENV then load_record kmalloc buf reclen env
                                                else Some env) of
                                            None \<Rightarrow> None
                                          | Some env \<Rightarrow>
                                              (let (n, bs) = nvram_subr_read D st (offset + reclen) 1
                                               in if n \<noteq> 1 then Some (-1, env)
                                                  else load_loop kmalloc D st (splice buf 0 bs) (offset + reclen) (sz - int reclen) env))))))"
  by pat_completeness auto
termination
  by (relation "measure (\<lambda>(kmalloc, D, st, buf, offset, sz, env). nat sz)") auto

declare load_loop.simps [simp del]

definition CFE_INIT_SAFE :: u32 where "CFE_INIT_SAFE = 0x00010000"

record 'd cfe =
  cfe_startflags :: u32
  env_envvars :: environment
  nvram :: "'d nvdev"

definition env_load :: "(nat \<Rightarrow> bool) \<Rightarrow> (nat \<Rightarrow> char list) \<Rightarrow> 'd driver \<Rightarrow> 'd cfe \<Rightarrow> (int \<times> 'd cfe) option" where
  "env_load kmalloc fresh D c =
     (if cfe_startflags c AND CFE_INIT_SAFE \<noteq> 0
      then Some (0, c\<lparr>cfe_startflags := cfe_startflags c AND NOT CFE_INIT_SAFE\<rparr>)
      else (let (flg, st) = nvram_subr_open D (nvram c); c = c\<lparr>nvram := st\<rparr>
            in if flg < 0 then Some (flg, c)
               else (let sz = nvram_subr_getsize st
                     in if \<not> kmalloc sz then Some (CFE_ERR_NOMEM, c)
                        else (let (n, bs) = nvram_subr_read D st 0 1
                              in if n \<noteq> 1 then Some (CFE_ERR_IOERR, c\<lparr>nvram := nvram_subr_close st\<rparr>)
                                 else do { (res, env) \<leftarrow> load_loop kmalloc D st (splice (fresh sz) 0 bs) 0 (int sz) (env_envvars c);
                                           Some (res, c\<lparr>env_envvars := env, nvram := nvram_subr_close st\<rparr>) }))))"

section \<open>Saving\<close>

definition env_record :: "envvar \<Rightarrow> char list" where
  "env_record e =
     [char_of ENV_TLV_TYPE_ENV, char_of ((length (env_name e) + length (env_value e) + 1 + 1) mod 256),
      char_of (unat (env_flags e) mod 256)] @ env_name e @ CHR ''='' # env_value e"

fun save_loop :: "nat \<Rightarrow> environment \<Rightarrow> char list \<Rightarrow> char list" where
  "save_loop sz [] out = out"
| "save_loop sz (e # env) out =
     (if env_flags e AND ENV_FLG_BUILTIN \<noteq> 0 then save_loop sz env out
      else if length out + 2 + lib_strlen (env_name e) + lib_strlen (env_value e) + 1 + 1 + 1 > sz then out
      else save_loop sz env (out @ env_record e))"

definition env_save :: "(nat \<Rightarrow> bool) \<Rightarrow> 'd driver \<Rightarrow> 'd cfe \<Rightarrow> int \<times> 'd cfe" where
  "env_save kmalloc D c =
     (let (flg, st) = nvram_subr_open D (nvram c)
      in if flg < 0 then (flg, c\<lparr>nvram := st\<rparr>)
         else (let st = snd (nvram_subr_erase D st); sz = nvram_subr_getsize st
               in if \<not> kmalloc sz then (CFE_ERR_NOMEM, c\<lparr>nvram := st\<rparr>)
                  else (let out = save_loop sz (env_envvars c) [] @ [char_of ENV_TLV_TYPE_END];
                            (res, st) = nvram_subr_write D out 0 st;
                            st = nvram_subr_close st
                        in (if res = int (length out) then 0 else CFE_ERR_IOERR, c\<lparr>nvram := st\<rparr>))))"

definition cfe_set_envdevice :: "(nat \<Rightarrow> bool) \<Rightarrow> (nat \<Rightarrow> char list) \<Rightarrow> 'd driver \<Rightarrow> string \<Rightarrow> 'd cfe \<Rightarrow> (int \<times> 'd cfe) option" where
  "cfe_set_envdevice kmalloc fresh D name c =
     (let devname = (if kmalloc (lib_strlen name + 1) then Some name else None);
          (res, st) = nvram_subr_open D ((nvram c)\<lparr>nvram_devname := devname\<rparr>)
      in if res \<noteq> 0 then Some (res, c\<lparr>nvram := st\<rparr>)
         else env_load kmalloc fresh D (c\<lparr>nvram := nvram_subr_close st\<rparr>))"

section \<open>The environment as a map\<close>

definition env_inv :: "environment \<Rightarrow> bool" where
  "env_inv env \<longleftrightarrow> distinct (map env_name env)"

lemma env_findenv_map_of: "env_findenv env n = map_of (map (\<lambda>e. (env_name e, e)) env) n"
  by (induction env) auto

lemma env_findenv_None: "env_findenv env n = None \<longleftrightarrow> n \<notin> env_name ` set env"
  by (induction env) auto

lemma env_findenv_name: "env_findenv env n = Some e \<Longrightarrow> env_name e = n \<and> e \<in> set env"
  by (induction env) (auto split: if_splits)

lemma dequeue_env_set: "env_inv env \<Longrightarrow> set (dequeue_env env n) = {e \<in> set env. env_name e \<noteq> n}"
  by (induction env) (auto simp: env_inv_def image_iff)

lemma env_inv_dequeue: "env_inv env \<Longrightarrow> env_inv (dequeue_env env n)"
proof (induction env)
  case (Cons e env)
  then show ?case using dequeue_env_set [of env n] by (auto simp: env_inv_def)
qed (simp add: env_inv_def)

lemma dequeue_env_find: "env_inv env \<Longrightarrow> env_findenv (dequeue_env env n) m = (if m = n then None else env_findenv env m)"
  by (induction env) (auto simp: env_inv_def env_findenv_None)

lemma env_findenv_append:
  "env_findenv (env @ [x]) m = (case env_findenv env m of Some e \<Rightarrow> Some e | None \<Rightarrow> if m = env_name x then Some x else None)"
  by (induction env) auto

definition blocked :: "string \<Rightarrow> u32 \<Rightarrow> environment \<Rightarrow> bool" where
  "blocked n flgs env \<longleftrightarrow> flgs AND ENV_FLG_ADMIN = 0 \<and>
     (\<exists>e. env_findenv env n = Some e \<and> env_flags e AND ENV_FLG_READONLY \<noteq> 0)"

text \<open>A set is refused, or it dequeues the old variable and enqueues the new one if there is memory.\<close>

lemma dequeue_env_absent: "env_findenv env n = None \<Longrightarrow> dequeue_env env n = env"
  by (induction env) (auto split: if_splits)

lemma env_setenv_eq:
  "env_setenv k n v flgs env =
     (if blocked n flgs env then (CFE_ERR_ENVREADONLY, env)
      else if k (ENVVAR_SIZE + lib_strlen n + 1 + lib_strlen v + 1)
      then (0, dequeue_env env n @ [\<lparr>env_flags = flgs AND ENV_FLG_MASK, env_name = n, env_value = v\<rparr>])
      else (CFE_ERR_NOMEM, dequeue_env env n))"
proof (cases "env_findenv env n")
  case None
  then show ?thesis by (simp add: env_setenv_def blocked_def dequeue_env_absent)
next
  case (Some e)
  then show ?thesis by (simp add: env_setenv_def blocked_def)
qed

lemma env_setenv_find:
  assumes "env_inv env"
  shows "env_findenv (snd (env_setenv k n v flgs env)) m =
    (if m \<noteq> n \<or> blocked n flgs env then env_findenv env m
     else if fst (env_setenv k n v flgs env) = 0
     then Some \<lparr>env_flags = flgs AND ENV_FLG_MASK, env_name = n, env_value = v\<rparr> else None)"
  unfolding env_setenv_eq
  by (cases "m = n") (simp_all add: dequeue_env_find [OF assms] env_findenv_append CFE_ERR_NOMEM_def split: option.split)

lemma env_setenv_set:
  "env_inv env \<Longrightarrow> e \<in> set (snd (env_setenv k n v flgs env)) \<Longrightarrow> e \<in> set env \<or> env_flags e = flgs AND ENV_FLG_MASK"
  by (auto simp: env_setenv_eq dequeue_env_set split: if_splits)

lemma env_setenv_inv: "env_inv env \<Longrightarrow> env_inv (snd (env_setenv k n v flgs env))"
  using dequeue_env_set [of env n] env_inv_dequeue [of env n]
  by (auto simp: env_setenv_eq env_inv_def split: if_splits)

lemma env_delenv_inv: "env_inv env \<Longrightarrow> env_inv (snd (env_delenv n env))"
  using env_inv_dequeue [of env n] by (auto simp: env_delenv_def split: option.splits)

text \<open>
  C36: \<open>env_setenv\<close> and \<open>env_delenv\<close>.  Only the named variable changes.  A read-only variable keeps its value
  unless the caller is the administrator; otherwise a set variable reads back as set.  When no memory is
  left \<open>env_setenv\<close> reports CFE_ERR_NOMEM and the variable is gone, its old value included, because it is
  dequeued before the allocation.
\<close>

theorem env_setenv_correct:
  assumes "env_inv env"
  shows "env_getenv (snd (env_setenv k n v flgs env)) m =
      (if m \<noteq> n \<or> blocked n flgs env then env_getenv env m
       else if k (ENVVAR_SIZE + length n + 1 + length v + 1) then Some v else None)
    \<and> fst (env_setenv k n v flgs env) =
      (if blocked n flgs env then CFE_ERR_ENVREADONLY
       else if k (ENVVAR_SIZE + length n + 1 + length v + 1) then 0 else CFE_ERR_NOMEM)
    \<and> env_inv (snd (env_setenv k n v flgs env))
    \<and> env_getenv (snd (env_delenv n env)) m = (if m = n \<and> \<not> blocked n 0 env then None else env_getenv env m)"
proof -
  have len: "lib_strlen s = length s" for s by (induction s) auto
  have f: "fst (env_setenv k n v flgs env) = (if blocked n flgs env then CFE_ERR_ENVREADONLY
      else if k (ENVVAR_SIZE + length n + 1 + length v + 1) then 0 else CFE_ERR_NOMEM)"
    by (simp add: env_setenv_eq len)
  have d: "env_getenv (snd (env_delenv n env)) m = (if m = n \<and> \<not> blocked n 0 env then None else env_getenv env m)"
    using dequeue_env_find [OF assms, of n m] by (auto simp: env_delenv_def blocked_def env_getenv_def split: option.splits)
  show ?thesis
    using env_setenv_find [OF assms, of k n v flgs m] env_setenv_inv [OF assms] f d
    by (auto simp: env_getenv_def CFE_ERR_NOMEM_def)
qed

text \<open>An environment without read-only variables and with enough memory is a store of variables.\<close>

definition writable :: "environment \<Rightarrow> bool" where
  "writable env \<longleftrightarrow> env_inv env \<and> (\<forall>e \<in> set env. env_flags e AND ENV_FLG_READONLY = 0)"

lemma writable_blocked: "writable env \<Longrightarrow> \<not> blocked n flgs env"
  by (auto simp: writable_def blocked_def dest: env_findenv_name)

interpretation env_store: var_store writable env_getenv "\<lambda>env n v. env_setenv (\<lambda>_. True) n v 0 env" "\<lambda>env n. env_delenv n env"
proof
  fix env n v m assume w: "writable env"
  then have i: "env_inv env" by (simp add: writable_def)
  show "writable (snd (env_setenv (\<lambda>_. True) n v 0 env))"
    using w env_setenv_inv [OF i] env_setenv_set [OF i] by (fastforce simp: writable_def)
  show "env_getenv (snd (env_setenv (\<lambda>_. True) n v 0 env)) m =
      (if fst (env_setenv (\<lambda>_. True) n v 0 env) = 0 \<and> m = n then Some v else env_getenv env m)"
    using env_setenv_find [OF i, of "\<lambda>_. True" n v 0 m] writable_blocked [OF w] by (auto simp: env_getenv_def env_setenv_eq)
  show "writable (snd (env_delenv n env))"
    using w env_delenv_inv [OF i] dequeue_env_set [OF i] by (auto simp: writable_def env_delenv_def split: option.splits)
  show "env_getenv (snd (env_delenv n env)) m = (if m = n then None else env_getenv env m)"
    using dequeue_env_find [OF i, of n m] writable_blocked [OF w, of n 0]
    by (auto simp: env_delenv_def blocked_def env_getenv_def split: option.splits)
qed

section \<open>Saving and loading\<close>

text \<open>A driver that works: the NVRAM area has the contents \<open>content d\<close>, which reads return and writes replace.\<close>

definition reliable :: "'d driver \<Rightarrow> ('d \<Rightarrow> char list) \<Rightarrow> nvram_info \<Rightarrow> bool" where
  "reliable D content info \<longleftrightarrow>
     (\<forall>name d. 0 \<le> drv_open D name d) \<and> (\<forall>d. drv_getinfo D d = Some info)
     \<and> (\<forall>d. length (content d) = nvram_size info)
     \<and> (\<forall>d off n. off + n \<le> nvram_size info \<longrightarrow>
          drv_read D d (off + nvram_offset info) n = (int n, take n (drop off (content d))))
     \<and> (\<forall>d off bs. off + length bs \<le> nvram_size info \<longrightarrow>
          (\<exists>d'. drv_write D d (off + nvram_offset info) bs = (int (length bs), d') \<and> content d' = splice (content d) off bs))"

text \<open>A variable whose record can be read back.\<close>

definition storable :: "envvar \<Rightarrow> bool" where
  "storable e \<longleftrightarrow> NUL \<notin> set (env_name e) \<and> CHR ''='' \<notin> set (env_name e) \<and> NUL \<notin> set (env_value e)
     \<and> length (env_name e) + length (env_value e) + 2 \<le> 255 \<and> unat (env_flags e) < 256"

definition opened :: "nvram_info \<Rightarrow> 'd nvdev \<Rightarrow> bool" where
  "opened info st \<longleftrightarrow> 0 \<le> nvram_handle st \<and> nvram_inf st = info"

lemma opened_read:
  assumes "reliable D content info" "opened info st" "off + n \<le> nvram_size info"
  shows "nvram_subr_read D st off n = (int n, take n (drop off (content (dev st))))"
  using assms by (auto simp: nvram_subr_read_def opened_def reliable_def)

lemma open_reliable:
  assumes "reliable D content info" "nvram_devname st = Some name"
  shows "\<exists>st'. nvram_subr_open D st = (0, st') \<and> opened info st' \<and> dev st' = dev st \<and> nvram_devname st' = Some name"
proof -
  have o: "0 \<le> drv_open D name (dev st)" "drv_getinfo D (dev st) = Some info" using assms(1) by (auto simp: reliable_def)
  have c: "dev (nvram_subr_close st) = dev st" "nvram_devname (nvram_subr_close st) = Some name"
    using assms(2) by (simp_all add: nvram_subr_close_def)
  show ?thesis
    using o c assms(2)
    by (auto simp: nvram_subr_open_def Let_def nvram_subr_getinfo_def opened_def)
qed

lemma env_record_split:
  assumes "storable e"
  shows "env_record e = [char_of (1 :: nat), char_of (length (env_name e) + length (env_value e) + 2)] @
    (char_of (unat (env_flags e)) # env_name e @ CHR ''='' # env_value e)"
  using assms by (simp add: env_record_def storable_def ENV_TLV_TYPE_ENV_def)

lemma lib_strnchr_found:
  "c \<notin> set xs \<Longrightarrow> length xs < n \<Longrightarrow> lib_strnchr (xs @ c # ys) c n = Some (c # ys)"
proof (induction xs arbitrary: n)
  case Nil
  then show ?case by (cases n) auto
next
  case (Cons x xs)
  then show ?case by (cases n) auto
qed

lemma takeWhile_no_NUL: "NUL \<notin> set xs \<Longrightarrow> takeWhile (\<lambda>c. c \<noteq> NUL) (xs @ ys) = xs @ takeWhile (\<lambda>c. c \<noteq> NUL) ys"
  by (induction xs) auto

lemma flags_byte:
  fixes f :: u32
  assumes "unat f < 256"
  shows "of_char (char_of (unat f)) AND ENV_FLG_MASK = f"
proof -
  have "(of_char (char_of (unat f)) :: u32) = of_nat (of_char (char_of (unat f)))" by (simp only: of_nat_of_char)
  also have "\<dots> = f" using assms by simp
  finally have "of_char (char_of (unat f)) = f" .
  moreover have "f AND ENV_FLG_MASK = f"
  proof -
    have "ENV_FLG_MASK = mask 8" by (simp add: ENV_FLG_MASK_def mask_eq_exp_minus_1)
    moreover have "take_bit 8 f = f" using assms by (simp add: take_bit_eq_mod word_unat_eq_iff unat_mod)
    ultimately show ?thesis by (simp add: take_bit_eq_mask)
  qed
  ultimately show ?thesis by simp
qed

lemma load_record_storable:
  assumes e: "storable e" and new: "env_findenv env (env_name e) = None"
  shows "load_record (\<lambda>_. True) ((char_of (unat (env_flags e)) # env_name e @ CHR ''='' # env_value e) @ tail)
      (length (env_name e) + length (env_value e) + 2) env = Some (env @ [e])"
proof -
  let ?n = "env_name e" and ?v = "env_value e"
  let ?buf = "(char_of (unat (env_flags e)) # ?n @ CHR ''='' # ?v) @ tail"
  have no: "NUL \<notin> set ?n" "CHR ''='' \<notin> set ?n" "NUL \<notin> set ?v" using e by (auto simp: storable_def)
  have sa: "str_at ?buf 1 = ?n @ CHR ''='' # ?v @ takeWhile (\<lambda>c. c \<noteq> NUL) tail"
    using no by (simp add: str_at_def takeWhile_no_NUL)
  have fl: "of_char (?buf ! 0) AND ENV_FLG_MASK = env_flags e"
    using e by (simp add: flags_byte storable_def)
  have v: "takeWhile (\<lambda>c. c \<noteq> NUL) (take (length ?v) (drop (1 + length ?n + 1) ?buf)) = ?v"
    using takeWhile_no_NUL [OF no(3), of "[]"] by simp
  have st: "env_setenv (\<lambda>_. True) ?n ?v (of_char (?buf ! 0)) env = (0, env @ [e])"
    using new fl by (simp add: env_setenv_def)
  show ?thesis
    unfolding load_record_def Let_def sa
    using lib_strnchr_found [OF no(2), of "length ?n + length ?v + 2 - 1"] v st
    by (simp del: takeWhile_eq_all_conv)
qed

lemma splice0: "length xs \<le> length buf \<Longrightarrow> splice buf 0 xs = xs @ drop (length xs) buf"
  by (simp add: splice_def)

text \<open>One record of the loop.\<close>

lemma load_loop_step:
  assumes D: "reliable D content info" "opened info st" and e: "storable e" and new: "env_findenv env (env_name e) = None"
    and c: "content (dev st) = pre @ env_record e @ x # post" and sz: "nvram_size info < 2147483648"
    and buf: "length buf = nvram_size info" "buf ! 0 = char_of (1 :: nat)"
  shows "\<exists>buf'. length buf' = length buf \<and> buf' ! 0 = x \<and>
    load_loop (\<lambda>_. True) D st buf (length pre) (int (nvram_size info - length pre)) env =
    load_loop (\<lambda>_. True) D st buf' (length (pre @ env_record e)) (int (nvram_size info - length (pre @ env_record e))) (env @ [e])"
proof -
  let ?N = "nvram_size info"
  define L where "L = length (env_name e) + length (env_value e) + 2"
  define data where "data = char_of (unat (env_flags e)) # env_name e @ CHR ''='' # env_value e"
  have rec: "env_record e = [char_of (1 :: nat), char_of L] @ data" and dl: "length data = L" and L: "L \<le> 255" "2 \<le> L"
    using env_record_split [OF e] e by (auto simp: L_def data_def storable_def)
  have N: "?N = length pre + 2 + L + 1 + length post"
    using D(1) c by (metis (no_types, lifting) add.assoc add.commute append_Cons append_Nil dl length_append list.size(3) list.size(4) numeral_2_eq_2 plus_1_eq_Suc rec reliable_def)
  have lb: "of_char (char_of L :: char) = L" using L by simp
  have r1: "nvram_subr_read D st (length pre + 1) 1 = (1, [char_of L])"
    using opened_read [OF D, of "length pre + 1" 1] N by (simp add: c rec)
  have r2: "nvram_subr_read D st (length pre + 1 + 1) L = (int L, data)"
    using opened_read [OF D, of "length pre + 1 + 1" L] N dl by (simp add: c rec)
  have r3: "nvram_subr_read D st (length pre + 1 + 1 + L) 1 = (1, [x])"
    using opened_read [OF D, of "length pre + 1 + 1 + L" 1] N dl by (simp add: c rec)
  define b1 where "b1 = splice buf 0 [char_of L]"
  define b2 where "b2 = splice b1 0 data"
  define b3 where "b3 = splice b2 0 [x]"
  have b1: "length b1 = ?N" "b1 ! 0 = char_of L" using buf N by (auto simp: b1_def splice0)
  have b2: "length b2 = ?N" "b2 = data @ drop L b1" using b1 N dl by (auto simp: b2_def splice0)
  have b3: "length b3 = ?N" "b3 ! 0 = x" using b2(1) N by (auto simp: b3_def splice0)
  have rc: "load_record (\<lambda>_. True) b2 L env = Some (env @ [e])"
    using load_record_storable [OF e new, of "drop L b1"] by (simp add: b2(2) data_def L_def)
  have sz2: "int (?N - length pre) - 1 - int 1 = int (?N - length pre - 2)" "\<not> int L > int (?N - length pre - 2) mod 2 ^ 32"
    "int (?N - length pre - 2) - int L = int (?N - (length pre + 2 + L))"
    using N sz by auto
  have "load_loop (\<lambda>_. True) D st buf (length pre) (int (?N - length pre)) env =
      load_loop (\<lambda>_. True) D st b3 (length pre + 1 + 1 + L) (int (?N - (length pre + 2 + L))) (env @ [e])"
    using buf(2) N r1 r2 r3 rc sz2 b1(2) lb
    by (subst load_loop.simps)
       (simp add: ENV_TLV_TYPE_END_def ENV_TLV_TYPE_ENV_def ENV_LENGTH_8BITS_def b1_def [symmetric] b2_def [symmetric] b3_def [symmetric] Let_def)
  moreover have "length (pre @ env_record e) = length pre + 1 + 1 + L" by (simp add: rec dl)
  ultimately show ?thesis using b3 buf(1) by (intro exI [of _ b3]) simp
qed

lemma load_loop_all:
  "\<lbrakk>reliable D content info; opened info st; nvram_size info < 2147483648; \<forall>e \<in> set vars. storable e; env_inv (env @ vars);
    content (dev st) = pre @ concat (map env_record vars) @ NUL # post; length buf = nvram_size info;
    buf ! 0 = (concat (map env_record vars) @ NUL # post) ! 0\<rbrakk>
   \<Longrightarrow> load_loop (\<lambda>_. True) D st buf (length pre) (int (nvram_size info - length pre)) env = Some (0, env @ vars)"
proof (induction vars arbitrary: env pre buf)
  case Nil
  then show ?case by (subst load_loop.simps) (simp add: ENV_TLV_TYPE_END_def)
next
  case (Cons e vars)
  have e: "storable e" using Cons.prems by simp
  obtain x post' where xp: "concat (map env_record vars) @ NUL # post = x # post'"
    by (cases "concat (map env_record vars) @ NUL # post") auto
  have rec: "env_record e ! 0 = char_of (1 :: nat)" "env_record e \<noteq> []" using env_record_split [OF e] by simp_all
  have new: "env_findenv env (env_name e) = None" using Cons.prems(5) by (auto simp: env_inv_def env_findenv_None)
  have c: "content (dev st) = pre @ env_record e @ x # post'" using Cons.prems(6) xp by simp
  have b0: "buf ! 0 = char_of (1 :: nat)" using Cons.prems(8) rec by (simp add: nth_append)
  obtain buf' where b': "length buf' = length buf" "buf' ! 0 = x"
      "load_loop (\<lambda>_. True) D st buf (length pre) (int (nvram_size info - length pre)) env =
       load_loop (\<lambda>_. True) D st buf' (length (pre @ env_record e)) (int (nvram_size info - length (pre @ env_record e))) (env @ [e])"
    using load_loop_step [OF Cons.prems(1,2) e new c Cons.prems(3,7) b0] by blast
  have "load_loop (\<lambda>_. True) D st buf' (length (pre @ env_record e)) (int (nvram_size info - length (pre @ env_record e))) (env @ [e])
      = Some (0, (env @ [e]) @ vars)"
    using Cons.prems b' xp by (intro Cons.IH) auto
  then show ?case using b'(3) by simp
qed

definition builtin :: "envvar \<Rightarrow> bool" where
  "builtin e \<longleftrightarrow> env_flags e AND ENV_FLG_BUILTIN \<noteq> 0"

lemma save_loop_all:
  "length out + length (concat (map env_record (filter (\<lambda>e. \<not> builtin e) env))) + 1 \<le> sz \<Longrightarrow>
   save_loop sz env out = out @ concat (map env_record (filter (\<lambda>e. \<not> builtin e) env))"
proof (induction env arbitrary: out)
  case (Cons e env)
  have len: "lib_strlen s = length s" for s by (induction s) auto
  have "length (env_record e) = length (env_name e) + length (env_value e) + 4" by (simp add: env_record_def)
  then show ?case using Cons.prems Cons.IH [of out] Cons.IH [of "out @ env_record e"] by (auto simp: builtin_def len)
qed simp

lemma char_of_0: "char_of (0 :: nat) = NUL"
  by (simp add: char_of_def)

lemma erase_opened: "opened info st \<Longrightarrow> opened info (snd (nvram_subr_erase D st))
    \<and> nvram_devname (snd (nvram_subr_erase D st)) = nvram_devname st"
  by (auto simp: nvram_subr_erase_def opened_def split: prod.splits)

lemma env_save_reliable:
  assumes D: "reliable D content info" and dn: "nvram_devname (nvram c) = Some name"
    and out: "out = save_loop (nvram_size info) (env_envvars c) [] @ [NUL]" "length out \<le> nvram_size info"
  shows "\<exists>st post. env_save (\<lambda>_. True) D c = (0, c\<lparr>nvram := st\<rparr>) \<and> nvram_devname st = Some name \<and> content (dev st) = out @ post"
proof -
  obtain st where o: "nvram_subr_open D (nvram c) = (0, st)" "opened info st" "nvram_devname st = Some name"
    using open_reliable [OF D dn] by blast
  define st1 where "st1 = snd (nvram_subr_erase D st)"
  have s1: "opened info st1" "nvram_devname st1 = Some name" unfolding st1_def using erase_opened [OF o(2), of D] o(3) by auto
  obtain d' where w: "drv_write D (dev st1) (nvram_offset info) out = (int (length out), d')" "content d' = splice (content (dev st1)) 0 out"
    using D out(2) unfolding reliable_def by (metis add_0)
  have gs: "nvram_subr_getsize st1 = nvram_size info" using s1 by (simp add: nvram_subr_getsize_def opened_def)
  have wr: "nvram_subr_write D out 0 st1 = (int (length out), st1\<lparr>dev := d'\<rparr>)"
    using s1 w by (simp add: nvram_subr_write_def opened_def)
  have "content d' = out @ drop (length out) (content (dev st1))" using w(2) by (simp add: splice_def)
  moreover have "env_save (\<lambda>_. True) D c = (0, c\<lparr>nvram := nvram_subr_close (st1\<lparr>dev := d'\<rparr>)\<rparr>)"
    using o(1) gs wr out(1) by (simp add: env_save_def st1_def [symmetric] Let_def ENV_TLV_TYPE_END_def char_of_0)
  ultimately show ?thesis using s1(2) by (auto simp: nvram_subr_close_def)
qed

lemma env_load_reliable:
  assumes D: "reliable D content info" and dn: "nvram_devname (nvram c) = Some name" and sz: "0 < nvram_size info"
    and nosafe: "cfe_startflags c AND CFE_INIT_SAFE = 0" and fresh: "\<And>n. length (fresh n) = n"
  shows "\<exists>st buf st'. opened info st \<and> dev st = dev (nvram c) \<and> length buf = nvram_size info \<and> buf ! 0 = content (dev st) ! 0 \<and>
    env_load k fresh D c =
      (if \<not> k (nvram_size info) then Some (CFE_ERR_NOMEM, c\<lparr>nvram := st\<rparr>)
       else do { (res, env) \<leftarrow> load_loop k D st buf 0 (int (nvram_size info)) (env_envvars c);
                 Some (res, c\<lparr>env_envvars := env, nvram := st'\<rparr>) })"
proof -
  obtain st where o: "nvram_subr_open D (nvram c) = (0, st)" "opened info st" "dev st = dev (nvram c)"
    using open_reliable [OF D dn] by blast
  have len: "length (content (dev st)) = nvram_size info" using D by (simp add: reliable_def)
  have r: "nvram_subr_read D st 0 1 = (1, [content (dev st) ! 0])"
    using opened_read [OF D o(2), of 0 1] sz len by (cases "content (dev st)") auto
  let ?buf = "splice (fresh (nvram_size info)) 0 [content (dev st) ! 0]"
  have b: "length ?buf = nvram_size info" "?buf ! 0 = content (dev st) ! 0" using fresh sz by (auto simp: splice0 Suc_leI)
  have gs: "nvram_subr_getsize st = nvram_size info" using o(2) by (simp add: nvram_subr_getsize_def opened_def)
  have "env_load k fresh D c =
      (if \<not> k (nvram_size info) then Some (CFE_ERR_NOMEM, c\<lparr>nvram := st\<rparr>)
       else do { (res, env) \<leftarrow> load_loop k D st ?buf 0 (int (nvram_size info)) (env_envvars c);
                 Some (res, c\<lparr>env_envvars := env, nvram := nvram_subr_close st\<rparr>) })"
    using nosafe o(1) gs r by (simp add: env_load_def Let_def)
  then show ?thesis using o b by blast
qed

text \<open>
  C10: Saving and loading the environment.  With a working device, enough memory and variables whose records fit,
  \<open>env_save\<close> succeeds, and \<open>env_load\<close> into the empty environment of the next start gives exactly the variables
  that are not built in, in their order, with their flags.
\<close>

theorem env_save_load:
  assumes D: "reliable D content info" "nvram_size info < 2147483648" and dn: "nvram_devname (nvram c) = Some name"
    and nosafe: "cfe_startflags c AND CFE_INIT_SAFE = 0" and fresh: "\<And>n. length (fresh n) = n"
    and env: "env_inv (env_envvars c)" "\<forall>e \<in> set (env_envvars c). storable e"
    and fits: "length (concat (map env_record (filter (\<lambda>e. \<not> builtin e) (env_envvars c)))) + 1 \<le> nvram_size info"
  shows "\<exists>c' c''. env_save (\<lambda>_. True) D c = (0, c') \<and>
    env_load (\<lambda>_. True) fresh D (c'\<lparr>env_envvars := []\<rparr>) = Some (0, c'') \<and>
    env_envvars c'' = filter (\<lambda>e. \<not> builtin e) (env_envvars c)"
proof -
  let ?vs = "filter (\<lambda>e. \<not> builtin e) (env_envvars c)"
  let ?out = "save_loop (nvram_size info) (env_envvars c) [] @ [NUL]"
  have out: "?out = concat (map env_record ?vs) @ [NUL]" using save_loop_all [of "[]"] fits by simp
  obtain st post where s: "env_save (\<lambda>_. True) D c = (0, c\<lparr>nvram := st\<rparr>)" "nvram_devname st = Some name" "content (dev st) = ?out @ post"
    using env_save_reliable [OF D(1) dn refl] fits out by auto
  let ?c = "c\<lparr>nvram := st, env_envvars := []\<rparr>"
  obtain st1 buf st2 where l: "opened info st1" "dev st1 = dev st" "length buf = nvram_size info" "buf ! 0 = content (dev st1) ! 0"
      "env_load (\<lambda>_. True) fresh D ?c =
        do { (res, env) \<leftarrow> load_loop (\<lambda>_. True) D st1 buf 0 (int (nvram_size info)) [];
             Some (res, ?c\<lparr>env_envvars := env, nvram := st2\<rparr>) }"
    using env_load_reliable [OF D(1), of ?c name fresh "\<lambda>_. True"] s(2) nosafe fresh fits by auto
  have "env_inv ([] @ ?vs)" using env(1) by (auto simp: env_inv_def distinct_map intro: inj_on_subset)
  then have "load_loop (\<lambda>_. True) D st1 buf (length ([] :: char list)) (int (nvram_size info - length ([] :: char list))) [] = Some (0, [] @ ?vs)"
    using l s(3) out env(2) D by (intro load_loop_all [where content = content and post = post]) auto
  then show ?thesis using s(1) l(5) by auto
qed

text \<open>A variable whose record is 257 bytes long.\<close>

definition long_var :: envvar where
  "long_var = \<lparr>env_flags = 0, env_name = ''b'', env_value = replicate 254 (CHR ''b'')\<rparr>"

lemma long_record: "env_record long_var = [char_of (1 :: nat), char_of (1 :: nat), NUL, CHR ''b'', CHR ''=''] @ replicate 254 (CHR ''b'')"
  by (simp add: env_record_def long_var_def ENV_TLV_TYPE_ENV_def char_of_0)

lemma long_load:
  assumes D: "reliable D content info" "opened info st" and sz: "300 \<le> nvram_size info" "nvram_size info \<le> 8192"
    and c: "content (dev st) = env_record long_var @ post" and buf: "length buf = nvram_size info" "buf ! 0 = content (dev st) ! 0"
  shows "load_loop k D st buf 0 (int (nvram_size info)) env = Some (0, env)"
proof -
  let ?N = "nvram_size info"
  have r1: "nvram_subr_read D st (Suc 0) (Suc 0) = (1, [char_of (Suc 0)])"
      "nvram_subr_read D st (Suc (Suc 0)) (Suc 0) = (1, [NUL])"
      "nvram_subr_read D st (Suc (Suc (Suc 0))) (Suc 0) = (1, [CHR ''b''])"
      "nvram_subr_read D st (Suc (Suc (Suc (Suc 0)))) 2 = (2, [CHR ''='', CHR ''b''])"
    using opened_read [OF D, of "Suc 0" "Suc 0"] opened_read [OF D, of "Suc (Suc 0)" "Suc 0"]
      opened_read [OF D, of "Suc (Suc (Suc 0))" "Suc 0"] opened_read [OF D, of "Suc (Suc (Suc (Suc 0)))" 2] sz
    by (simp_all add: c long_record)
  have b0: "buf ! 0 = char_of (Suc 0)" using buf(2) by (simp add: c long_record)
  define b1 where "b1 = splice buf 0 [char_of (Suc 0)]"
  define b2 where "b2 = splice b1 0 [NUL]"
  define b3 where "b3 = splice b2 0 [CHR ''b'']"
  define b4 where "b4 = splice b3 0 [CHR ''='', CHR ''b'']"
  have len: "length b1 = ?N" "length b2 = ?N" "length b3 = ?N" using buf(1) sz by (auto simp: b1_def b2_def b3_def splice0 Suc_le_eq)
  have hd: "b1 ! 0 = char_of (Suc 0)" "b3 ! 0 = CHR ''b''" "b4 ! 0 = CHR ''=''" "b4 ! 1 = CHR ''b''"
    by (simp_all add: b1_def b3_def b4_def splice_def)
  have lr: "load_record k b2 1 env = Some env" by (cases "str_at b2 1") (simp_all add: load_record_def)
  have s1: "load_loop k D st buf 0 (int ?N) env = load_loop k D st b3 (Suc (Suc (Suc 0))) (int ?N - 3) env"
    using b0 sz r1 lr hd(1)
    by (subst load_loop.simps)
       (simp add: ENV_TLV_TYPE_END_def ENV_TLV_TYPE_ENV_def ENV_LENGTH_8BITS_def b1_def [symmetric] b2_def [symmetric] b3_def [symmetric] Let_def)
  have "load_loop k D st b3 (Suc (Suc (Suc 0))) (int ?N - 3) env = Some (0, env)"
    using hd sz r1(4)
    by (subst load_loop.simps)
       (simp add: ENV_TLV_TYPE_END_def ENV_TLV_TYPE_ENV_def ENV_LENGTH_8BITS_def b4_def [symmetric] Let_def)
  then show ?thesis using s1 by simp
qed

text \<open>
  The length of a record is one byte.  A variable b with a value of 254 characters is saved with the record
  length 257 mod 256 = 1; \<open>env_save\<close> reports success, \<open>env_load\<close> reports success, and the variable is gone.
\<close>

theorem env_long_value_lost:
  assumes D: "reliable D content info" "300 \<le> nvram_size info" "nvram_size info \<le> 8192"
    and dn: "nvram_devname (nvram c) = Some name" and nosafe: "cfe_startflags c AND CFE_INIT_SAFE = 0"
    and fresh: "\<And>n. length (fresh n) = n" and env: "env_envvars c = [long_var]"
  shows "\<exists>c' c''. env_save (\<lambda>_. True) D c = (0, c') \<and>
    env_load (\<lambda>_. True) fresh D (c'\<lparr>env_envvars := []\<rparr>) = Some (0, c'') \<and> env_envvars c'' = []"
proof -
  have b: "\<not> builtin long_var" by (simp add: builtin_def long_var_def)
  have out: "save_loop (nvram_size info) (env_envvars c) [] @ [NUL] = env_record long_var @ [NUL]"
    using save_loop_all [of "[]" "env_envvars c" "nvram_size info"] D(2) b by (simp add: env long_record)
  obtain st post where s: "env_save (\<lambda>_. True) D c = (0, c\<lparr>nvram := st\<rparr>)" "nvram_devname st = Some name"
      "content (dev st) = env_record long_var @ NUL # post"
    using env_save_reliable [OF D(1) dn refl] D(2) unfolding out by (auto simp: long_record)
  let ?c = "c\<lparr>nvram := st, env_envvars := []\<rparr>"
  obtain st1 buf st2 where l: "opened info st1" "dev st1 = dev st" "length buf = nvram_size info" "buf ! 0 = content (dev st1) ! 0"
      "env_load (\<lambda>_. True) fresh D ?c =
        do { (res, env) \<leftarrow> load_loop (\<lambda>_. True) D st1 buf 0 (int (nvram_size info)) [];
             Some (res, ?c\<lparr>env_envvars := env, nvram := st2\<rparr>) }"
    using env_load_reliable [OF D(1), of ?c name fresh "\<lambda>_. True"] s(2) nosafe fresh D(2) by auto
  then have "load_loop (\<lambda>_. True) D st1 buf 0 (int (nvram_size info)) [] = Some (0, [])"
    using s(3) D by (intro long_load [where content = content and post = "NUL # post"]) auto
  then show ?thesis using s(1) l(5) by auto
qed

section \<open>A device in memory\<close>

definition ram_size :: nat where "ram_size = 1024"

definition ram_content :: "char list \<Rightarrow> char list" where
  "ram_content d = take ram_size (d @ replicate ram_size NUL)"

definition ram_info :: nvram_info where
  "ram_info = \<lparr>nvram_offset = 0, nvram_size = ram_size, nvram_eraseflg = False\<rparr>"

definition ram_driver :: "char list driver" where
  "ram_driver = \<lparr>drv_open = (\<lambda>_ _. 1), drv_getinfo = (\<lambda>_. Some ram_info),
     drv_read = (\<lambda>d off n. (int n, take n (drop off (ram_content d)))),
     drv_write = (\<lambda>d off bs. (int (length bs), splice (ram_content d) off bs)), drv_erase = (\<lambda>d _. (0, d))\<rparr>"

lemma ram_length: "length (ram_content d) = ram_size"
  by (simp add: ram_content_def)

lemma ram_reliable: "reliable ram_driver ram_content ram_info"
proof -
  have "ram_content (splice (ram_content d) off bs) = splice (ram_content d) off bs" if "off + length bs \<le> ram_size" for d off bs
  proof -
    have "length (splice (ram_content d) off bs) = ram_size" using that ram_length [of d] by (simp add: splice_def)
    then show ?thesis unfolding ram_content_def by simp
  qed
  then show ?thesis by (simp add: reliable_def ram_driver_def ram_info_def ram_length)
qed

definition demo_env :: "environment \<Rightarrow> char list cfe" where
  "demo_env env = \<lparr>cfe_startflags = 0, env_envvars = env,
     nvram = \<lparr>nvram_handle = -1, nvram_inf = ram_info, nvram_devname = Some ''flash0'', dev = []\<rparr>\<rparr>"

theorem env_setenv_correct_witness:
  "env_getenv (snd (env_setenv (\<lambda>_. False) ''a'' ''2'' 0 [\<lparr>env_flags = 0, env_name = ''a'', env_value = ''1''\<rparr>])) ''a'' = None"
  using env_setenv_correct [of "[\<lparr>env_flags = 0, env_name = ''a'', env_value = ''1''\<rparr>]" "\<lambda>_. False" "''a''" "''2''" 0 "''a''"]
  by (simp add: env_inv_def blocked_def)

theorem env_save_load_witness:
  "\<exists>c' c''. env_save (\<lambda>_. True) ram_driver (demo_env [\<lparr>env_flags = 2, env_name = ''ip'', env_value = ''10.0.0.1''\<rparr>]) = (0, c')
    \<and> env_load (\<lambda>_. True) (\<lambda>n. replicate n NUL) ram_driver (c'\<lparr>env_envvars := []\<rparr>) = Some (0, c'')
    \<and> env_envvars c'' = [\<lparr>env_flags = 2, env_name = ''ip'', env_value = ''10.0.0.1''\<rparr>]"
proof -
  let ?e = "\<lparr>env_flags = 2, env_name = ''ip'', env_value = ''10.0.0.1''\<rparr>"
  have b: "\<not> builtin ?e" by (simp add: builtin_def ENV_FLG_BUILTIN_def)
  have h: "nvram_size ram_info < 2147483648" "nvram_devname (nvram (demo_env [?e])) = Some ''flash0''"
      "cfe_startflags (demo_env [?e]) AND CFE_INIT_SAFE = 0" "env_inv (env_envvars (demo_env [?e]))"
      "\<forall>e \<in> set (env_envvars (demo_env [?e])). storable e"
      "length (concat (map env_record (filter (\<lambda>e. \<not> builtin e) (env_envvars (demo_env [?e]))))) + 1 \<le> nvram_size ram_info"
    using b by (simp_all add: ram_info_def ram_size_def demo_env_def env_inv_def storable_def env_record_def)
  show ?thesis
    using env_save_load [OF ram_reliable h(1-3) _ h(4-6), of "\<lambda>n. replicate n NUL"] b by (simp add: demo_env_def)
qed

theorem env_long_value_lost_witness:
  "\<exists>c' c''. env_save (\<lambda>_. True) ram_driver (demo_env [long_var]) = (0, c')
    \<and> env_load (\<lambda>_. True) (\<lambda>n. replicate n NUL) ram_driver (c'\<lparr>env_envvars := []\<rparr>) = Some (0, c'') \<and> env_envvars c'' = []"
  by (rule env_long_value_lost [OF ram_reliable, where name = "''flash0''"])
     (simp_all add: ram_info_def ram_size_def demo_env_def)

end
