(* ===== verification/Libc.thy ===== *)
theory Libc
  imports Cstring
begin

text \<open>
  The C library functions the router programs call on strings: strsep, atoi, strtoul with base 0,
  strncasecmp on a prefix, inet_aton and inet_ntoa, snprintf, and the foreach macro of
  src/broadcom/src/router/shared/shutils.h.  An int and a long have 32 bits.  The behaviours C
  leaves undefined, a failed assertion and a loop that does not end are values of \<open>fault\<close>.
\<close>

datatype fault = Overrun | Format | Abort | Diverge

definition bindE :: "'e + 'a \<Rightarrow> ('a \<Rightarrow> 'e + 'b) \<Rightarrow> 'e + 'b" where
  "bindE m f = (case m of Inl e \<Rightarrow> Inl e | Inr a \<Rightarrow> f a)"

lemma bindE_simps [simp]: "bindE (Inl e) f = Inl e" "bindE (Inr a) f = f a"
  by (simp_all add: bindE_def)

lemma bindE_Inr_iff: "bindE m f = Inr b \<longleftrightarrow> (\<exists>a. m = Inr a \<and> f a = Inr b)"
  by (cases m) auto

text \<open>A loop over a list whose body may fail.\<close>

primrec eachE :: "('x \<Rightarrow> 's \<Rightarrow> 'e + 's) \<Rightarrow> 'x list \<Rightarrow> 's \<Rightarrow> 'e + 's" where
  "eachE f [] s = Inr s"
| "eachE f (x # xs) s = bindE (f x s) (eachE f xs)"

lemma eachE_invariant:
  assumes "\<And>x s s'. x \<in> set xs \<Longrightarrow> I s \<Longrightarrow> f x s = Inr s' \<Longrightarrow> I s'"
  shows "I s \<Longrightarrow> eachE f xs s = Inr s' \<Longrightarrow> I s'"
  using assms by (induction xs arbitrary: s) (auto simp: bindE_Inr_iff)

section \<open>Tokens\<close>

text \<open>\<open>strsep (&p, delim)\<close> for a p that is not NULL: the token and the new value of p.\<close>

definition strsep :: "string \<Rightarrow> string \<Rightarrow> string \<times> string option" where
  "strsep delim s = (takeWhile (\<lambda>c. c \<notin> set delim) s,
     case dropWhile (\<lambda>c. c \<notin> set delim) s of [] \<Rightarrow> None | c # t \<Rightarrow> Some t)"

lemma strsep_hit:
  assumes "\<forall>c\<in>set a. c \<notin> set delim" "d \<in> set delim"
  shows "strsep delim (a @ d # b) = (a, Some b)"
proof -
  have "takeWhile (\<lambda>c. c \<notin> set delim) (a @ d # b) = a"
    using assms by (subst takeWhile_append2) auto
  moreover have "dropWhile (\<lambda>c. c \<notin> set delim) (a @ d # b) = d # b"
    using assms by (subst dropWhile_append2) auto
  ultimately show ?thesis by (simp add: strsep_def)
qed

lemma strsep_miss:
  assumes "\<forall>c\<in>set a. c \<notin> set delim"
  shows "strsep delim a = (a, None)"
proof -
  have "takeWhile (\<lambda>c. c \<notin> set delim) a = a" "dropWhile (\<lambda>c. c \<notin> set delim) a = []"
    using assms by auto
  then show ?thesis unfolding strsep_def by (simp only: list.case)
qed

text \<open>The words a foreach loop visits, before they are copied to its buffer.\<close>

function foreach_words :: "string \<Rightarrow> string list" where
  "foreach_words s = (let t = dropWhile (\<lambda>c. c = CHR '' '') s; w = takeWhile (\<lambda>c. c \<noteq> CHR '' '') t
     in if w = [] then [] else w # foreach_words (dropWhile (\<lambda>c. c \<noteq> CHR '' '') t))"
  by auto
termination
proof (relation "measure length", simp, goal_cases)
  case (1 s t w)
  then have ne: "w \<noteq> []" and t: "t = dropWhile (\<lambda>c. c = CHR '' '') s" by auto
  have "length t = length w + length (dropWhile (\<lambda>c. c \<noteq> CHR '' '') t)"
    using 1(2) by (metis length_append takeWhile_dropWhile_id)
  moreover have "length t \<le> length s" using t by (simp add: length_dropWhile_le)
  moreover have "length w \<noteq> 0" using ne by (metis length_0_conv)
  ultimately show ?case unfolding in_measure by linarith
qed

declare foreach_words.simps [simp del]

text \<open>The copy of a word to a buffer of n bytes: \<open>strncpy\<close> leaves a word of n or more characters
  without NUL, and \<open>word[strcspn(word, " ")] = 0\<close> then reads and writes behind the buffer.\<close>

definition foreach :: "nat \<Rightarrow> (string \<Rightarrow> 's \<Rightarrow> fault + 's) \<Rightarrow> string \<Rightarrow> 's \<Rightarrow> fault + 's" where
  "foreach n body wordlist =
     eachE (\<lambda>w s. if n \<le> length w then Inl Overrun else body w s) (foreach_words wordlist)"

section \<open>Numbers\<close>

definition c_isspace :: "char \<Rightarrow> bool" where
  "c_isspace c = (c = CHR '' '' \<or> (9 \<le> (of_char c :: nat) \<and> (of_char c :: nat) \<le> 13))"

definition digit_in :: "nat \<Rightarrow> char \<Rightarrow> nat option" where
  "digit_in base c = (let n = of_char c :: nat;
     d = (if 48 \<le> n \<and> n \<le> 57 then n - 48 else if 97 \<le> n \<and> n \<le> 122 then n - 87
       else if 65 \<le> n \<and> n \<le> 90 then n - 55 else base)
     in if d < base then Some d else None)"

fun scan_num :: "nat \<Rightarrow> nat \<Rightarrow> string \<Rightarrow> nat \<times> string" where
  "scan_num base acc [] = (acc, [])"
| "scan_num base acc (c # s) = (case digit_in base c of
     Some d \<Rightarrow> scan_num base (acc * base + d) s | None \<Rightarrow> (acc, c # s))"

definition c_sign :: "string \<Rightarrow> bool \<times> string" where
  "c_sign s = (case dropWhile c_isspace s of
     [] \<Rightarrow> (False, []) | c # t \<Rightarrow> if c = CHR ''-'' then (True, t) else (False, if c = CHR ''+'' then t else c # t))"

definition atoi :: "string \<Rightarrow> int" where
  "atoi s = (let (neg, t) = c_sign s; n = int (fst (scan_num 10 0 t))
     in if neg then max (- n) (- (2 ^ 31)) else min n (2 ^ 31 - 1))"

text \<open>A number with the prefix 0x or 0 of a C constant.\<close>

definition scan_prefixed :: "string \<Rightarrow> nat \<times> string" where
  "scan_prefixed t = (if char_at t 0 = CHR ''0'' then
       if (char_at t 1 = CHR ''x'' \<or> char_at t 1 = CHR ''X'') \<and> digit_in 16 (char_at t 2) \<noteq> None
       then scan_num 16 0 (drop 2 t) else scan_num 8 0 t
     else scan_num 10 0 t)"

definition strtoul0 :: "string \<Rightarrow> u32" where
  "strtoul0 s = (let (neg, t) = c_sign s; n = fst (scan_prefixed t)
     in if 2 ^ 32 \<le> n then - 1 else if neg then - of_nat n else of_nat n)"

text \<open>\<open>!strncasecmp(s, t, strlen(t))\<close> for a lower case t.\<close>

definition c_tolower :: "char \<Rightarrow> char" where
  "c_tolower c = (let n = of_char c :: nat in if 65 \<le> n \<and> n \<le> 90 then char_of (n + 32) else c)"

definition case_prefix :: "string \<Rightarrow> string \<Rightarrow> bool" where
  "case_prefix t s = (map c_tolower (take (length t) s) = t)"

section \<open>Internet addresses\<close>

primrec aton_parts :: "nat \<Rightarrow> string \<Rightarrow> nat list option" where
  "aton_parts 0 s = None"
| "aton_parts (Suc k) s = (if digit_in 10 (deref s) = None then None else
     (let (n, t) = scan_prefixed s in
      if deref t = CHR ''.'' then map_option (Cons n) (aton_parts k (tl t))
      else if t = [] \<or> c_isspace (deref t) then Some [n] else None))"

fun aton_join :: "nat \<Rightarrow> nat list \<Rightarrow> nat option" where
  "aton_join width [n] = (if n < 256 ^ width then Some n else None)"
| "aton_join width (n # ns) = (if n < 256
     then map_option (\<lambda>m. n * 256 ^ (width - 1) + m) (aton_join (width - 1) ns) else None)"
| "aton_join width [] = None"

definition inet_aton :: "string \<Rightarrow> u32 option" where
  "inet_aton s = do { ns \<leftarrow> aton_parts 4 s; n \<leftarrow> aton_join 4 ns; Some (of_nat n) }"

text \<open>\<open>(void) inet_aton(s, &a)\<close>: a keeps its value when s is no address.\<close>

definition inet_aton_to :: "string \<Rightarrow> u32 \<Rightarrow> u32" where
  "inet_aton_to s a = (case inet_aton s of None \<Rightarrow> a | Some b \<Rightarrow> b)"

definition inet_ntoa :: "u32 \<Rightarrow> string" where
  "inet_ntoa a = (let n = unat a in dec (n div 2 ^ 24) @ ''.'' @ dec (n div 2 ^ 16 mod 256) @ ''.'' @
     dec (n div 2 ^ 8 mod 256) @ ''.'' @ dec (n mod 256))"

section \<open>Printing\<close>

definition snprintf :: "nat \<Rightarrow> string \<Rightarrow> string" where
  "snprintf n s = take (n - 1) s"

text \<open>A format without arguments: \<open>%%\<close> prints a percent sign, any other conversion reads an argument
  that is not there.\<close>

fun format0 :: "string \<Rightarrow> fault + string" where
  "format0 [] = Inr []"
| "format0 (c # s) = (if c = CHR ''%'' then
       (case s of d # t \<Rightarrow> if d = CHR ''%'' then bindE (format0 t) (\<lambda>r. Inr (CHR ''%'' # r)) else Inl Format
        | [] \<Rightarrow> Inl Format)
     else bindE (format0 s) (\<lambda>r. Inr (c # r)))"

lemma format0_plain: "CHR ''%'' \<notin> set s \<Longrightarrow> format0 s = Inr s"
  by (induction s rule: format0.induct) auto

section \<open>Facts on printed numbers\<close>

lemma digit_in_digit: "d < 10 \<Longrightarrow> 10 \<le> base \<Longrightarrow> digit_in base (digit d) = Some d"
  by (simp add: digit_in_def of_char_digit)

lemma digit_in_10_iff: "digit_in 10 c \<noteq> None \<longleftrightarrow> (\<exists>d<10. c = digit d)"
proof
  assume "digit_in 10 c \<noteq> None"
  then have n: "48 \<le> (of_char c :: nat)" "(of_char c :: nat) \<le> 57"
    by (auto simp: digit_in_def Let_def split: if_splits)
  then have "c = digit (of_char c - 48)" by (simp add: digit_def)
  with n show "\<exists>d<10. c = digit d" by (intro exI [of _ "of_char c - 48"]) auto
qed (auto simp: digit_in_digit)

lemma scan_num_dec_acc:
  "scan_num 10 acc (dec n @ s) = scan_num 10 (acc * 10 ^ length (dec n) + n) s"
proof (induction n arbitrary: acc s rule: dec.induct)
  case (1 n)
  show ?case
  proof (cases "n < 10")
    case True
    then have "dec n = [digit n]" by (simp add: dec.simps)
    then show ?thesis using True by (simp add: digit_in_digit)
  next
    case False
    then have d: "dec n = dec (n div 10) @ [digit (n mod 10)]" by (subst dec.simps) simp
    have "scan_num 10 acc (dec n @ s) = scan_num 10 ((acc * 10 ^ length (dec (n div 10)) + n div 10) * 10 + n mod 10) s"
      using "1.IH" [OF False, of acc "digit (n mod 10) # s"] by (simp add: d digit_in_digit)
    also have "(acc * 10 ^ length (dec (n div 10)) + n div 10) * 10 + n mod 10 = acc * 10 ^ length (dec n) + n"
      by (simp add: d algebra_simps)
    finally show ?thesis .
  qed
qed

definition num_stop :: "string \<Rightarrow> bool" where
  "num_stop s = (digit_in 10 (deref s) = None)"

lemma scan_num_stop: "num_stop s \<Longrightarrow> scan_num 10 acc s = (acc, s)"
  by (cases s) (auto simp: num_stop_def)

lemma scan_num_dec: "num_stop s \<Longrightarrow> scan_num 10 0 (dec n @ s) = (n, s)"
  by (simp add: scan_num_dec_acc scan_num_stop)

lemma dec_hd: "\<exists>d t. dec n = digit d # t \<and> d < 10 \<and> (d = 0 \<longrightarrow> n = 0 \<and> t = [])"
proof (induction n rule: dec.induct)
  case (1 n)
  show ?case
  proof (cases "n < 10")
    case True
    then show ?thesis by (subst dec.simps) auto
  next
    case False
    then show ?thesis using "1.IH" by (subst dec.simps) auto
  qed
qed

lemma digit_plain: "d < 10 \<Longrightarrow> \<not> c_isspace (digit d) \<and> digit d \<notin> {CHR ''-'', CHR ''+'', CHR '':'', CHR '','', CHR ''>'', CHR ''.'', CHR ''*'', CHR ''%'', CHR '' ''}"
proof -
  assume d: "d < 10"
  have "of_char (digit d) = 48 + d" using d by (rule of_char_digit)
  then show ?thesis using d by (auto simp: c_isspace_def)
qed

lemma dec_plain: "c \<in> set (dec n) \<Longrightarrow> c \<notin> {CHR ''-'', CHR ''+'', CHR '':'', CHR '','', CHR ''>'', CHR ''.'', CHR ''*'', CHR ''%'', CHR '' ''}"
proof -
  assume "c \<in> set (dec n)"
  then obtain d where "d < 10" "c = digit d" using dec_digits by blast
  then show ?thesis using digit_plain by simp
qed

lemma c_sign_dec: "c_sign (dec n @ s) = (False, dec n @ s)"
proof -
  obtain d t where d: "dec n = digit d # t" "d < 10" using dec_hd by blast
  then show ?thesis using digit_plain [of d] by (simp add: c_sign_def)
qed

lemma atoi_dec: "num_stop s \<Longrightarrow> n < 2 ^ 31 \<Longrightarrow> atoi (dec n @ s) = int n"
  by (simp add: atoi_def c_sign_dec scan_num_dec)

lemma num_stop_simps [simp]: "num_stop []" "num_stop (CHR ''.'' # s)" "num_stop (CHR '':'' # s)"
  by (simp_all add: num_stop_def digit_in_def)

lemma digit_0: "digit 0 = CHR ''0''"
proof -
  have "(of_char (CHR ''0'') :: nat) = 48" by simp
  then have "char_of (48 :: nat) = CHR ''0''" by (metis char_of_char)
  then show ?thesis by (simp add: digit_def)
qed

lemma scan_prefixed_dec:
  assumes "s = [] \<or> hd s = CHR ''.''"
  shows "scan_prefixed (dec n @ s) = (n, s)"
proof -
  from assms have stop: "num_stop s" by (cases s) auto
  obtain d t where d: "dec n = digit d # t" "d < 10" "d = 0 \<longrightarrow> n = 0 \<and> t = []" using dec_hd by blast
  show ?thesis
  proof (cases "d = 0")
    case True
    have "scan_num 8 0 (CHR ''0'' # s) = (0, s)" "char_at (CHR ''0'' # s) 1 \<notin> {CHR ''x'', CHR ''X''}"
      using assms by (cases s; auto simp: digit_in_def char_at_def)+
    moreover have "dec n = [CHR ''0'']" using True d digit_0 by simp
    ultimately show ?thesis using True d(3) by (simp add: scan_prefixed_def char_at_def)
  next
    case False
    have "(of_char (digit d) :: nat) \<noteq> of_char (CHR ''0'')" using d False of_char_digit [of d] by simp
    then have "digit d \<noteq> CHR ''0''" by metis
    then show ?thesis using scan_num_dec [OF stop, of n] d by (simp add: scan_prefixed_def char_at_def)
  qed
qed

lemma aton_parts_dec:
  "aton_parts (Suc k) (dec n @ CHR ''.'' # s) = map_option (Cons n) (aton_parts k s)"
  "aton_parts (Suc k) (dec n) = Some [n]"
proof -
  obtain d t where d: "dec n = digit d # t" "d < 10" using dec_hd by blast
  then have "digit_in 10 (deref (dec n @ r)) \<noteq> None" for r by (simp add: digit_in_digit)
  then obtain x y where "digit_in 10 (deref (dec n @ CHR ''.'' # s)) = Some x" "digit_in 10 (deref (dec n)) = Some y"
    by (metis append_Nil2 option.exhaust_sel)
  then show "aton_parts (Suc k) (dec n @ CHR ''.'' # s) = map_option (Cons n) (aton_parts k s)"
    "aton_parts (Suc k) (dec n) = Some [n]"
    using scan_prefixed_dec [of "CHR ''.'' # s" n] scan_prefixed_dec [of "[]" n] by simp_all
qed

lemma inet_roundtrip: "inet_aton (inet_ntoa a) = Some a"
proof -
  let ?n = "unat a"
  have n: "?n < 2 ^ 32" using unat_less_2p [of a] by simp
  define b where "b = ?n div 2 ^ 24"
  define c where "c = ?n div 2 ^ 16 mod 256"
  define d where "d = ?n div 2 ^ 8 mod 256"
  define e where "e = ?n mod 256"
  have "b < 256" "c < 256" "d < 256" "e < 256" using n by (simp_all add: b_def c_def d_def e_def)
  moreover have "b * 256 ^ 3 + (c * 256 ^ 2 + (d * 256 + e)) = ?n"
  proof -
    have "?n = 256 * (?n div 256) + e" "?n div 256 = 256 * (?n div 2 ^ 16) + d" "?n div 2 ^ 16 = 256 * b + c"
      using div_mult_mod_eq [of "?n div 256" 256] div_mult_mod_eq [of "?n div 2 ^ 16" 256]
      by (simp_all add: b_def c_def d_def e_def div_mult2_eq [symmetric])
    then show ?thesis by simp
  qed
  moreover have "aton_parts 4 (inet_ntoa a) = Some [b, c, d, e]"
  proof -
    have "inet_ntoa a = dec b @ CHR ''.'' # dec c @ CHR ''.'' # dec d @ CHR ''.'' # dec e"
      by (simp add: inet_ntoa_def Let_def b_def c_def d_def e_def)
    moreover have "(4 :: nat) = Suc (Suc (Suc (Suc 0)))" by simp
    ultimately show ?thesis by (simp only: aton_parts_dec option.map)
  qed
  ultimately show ?thesis by (simp add: inet_aton_def)
qed

lemma inet_aton_to_ntoa [simp]: "inet_aton_to (inet_ntoa a) b = a"
  by (simp add: inet_aton_to_def inet_roundtrip)

lemma inet_ntoa_plain:
  "c \<in> set (inet_ntoa a) \<Longrightarrow> c \<notin> {CHR ''-'', CHR '':'', CHR '','', CHR ''>'', CHR ''*'', CHR ''%'', CHR '' ''}"
  by (auto simp: inet_ntoa_def Let_def dest!: dec_plain)

lemma inet_ntoa_nonempty [simp]: "inet_ntoa a \<noteq> []"
  by (simp add: inet_ntoa_def Let_def)

lemma dec_length: "n < 10 ^ Suc k \<Longrightarrow> length (dec n) \<le> Suc k"
proof (induction k arbitrary: n)
  case 0
  then show ?case by (subst dec.simps) simp
next
  case (Suc k)
  have "n div 10 < 10 ^ Suc k" using Suc.prems by (simp add: less_mult_imp_div_less)
  from Suc.IH [OF this] show ?case by (subst dec.simps) simp
qed

lemma inet_ntoa_length: "length (inet_ntoa a) \<le> 15"
proof -
  have "unat a < 2 ^ 32" using unat_less_2p [of a] by simp
  then have "unat a div 2 ^ 24 < 256" by simp
  then have "length (dec (unat a div 2 ^ 24)) \<le> 3" using dec_length [of "unat a div 2 ^ 24" 2] by simp
  moreover have m: "length (dec (m mod 256)) \<le> 3" for m
    using dec_length [of "m mod 256" 2] mod_less_divisor [of 256 m] by simp
  ultimately show ?thesis
    using m [of "unat a div 2 ^ 16"] m [of "unat a div 2 ^ 8"] m [of "unat a"]
    unfolding inet_ntoa_def Let_def length_append list.size by linarith
qed

end
