(* ===== verification/Nvparse.thy ===== *)
theory Nvparse
  imports Nvram Libc
begin

text \<open>
  Persistent storage of port forwards, client filters and WDS links in NVRAM variables:
  src/broadcom/src/router/shared/nvparse.c on the structures of netconf.h.  Ports and addresses are
  numbers in host order; the links next and prev of the structures are not used by this code.  A
  char array holds the string up to its NUL; a description of 40 characters fills its array and has
  no NUL.  An entry number is not negative.
\<close>

section \<open>Structures\<close>

record netconf_addr =
  a_ipaddr :: u32
  a_netmask :: u32
  a_ports :: "u16 \<times> u16"

record netconf_match_t =
  ipproto :: int
  src :: netconf_addr
  dst :: netconf_addr
  m_mac :: bytes
  m_in :: string
  m_out :: string
  m_state :: int
  flags :: u32
  days :: "u32 \<times> u32"
  secs :: "u32 \<times> u32"

datatype netconf_target = NETCONF_DROP | NETCONF_ACCEPT | NETCONF_LOG_DROP | NETCONF_LOG_ACCEPT
  | NETCONF_SNAT | NETCONF_DNAT | NETCONF_MASQ | NETCONF_APP

datatype netconf_dir = NETCONF_IN | NETCONF_FORWARD | NETCONF_OUT

record netconf_fw_t =
  match :: netconf_match_t
  target :: netconf_target
  desc :: string

record netconf_filter_t = netconf_fw_t +
  dir :: netconf_dir

record netconf_nat_t = netconf_fw_t +
  nat_ipaddr :: u32
  nat_ports :: "u16 \<times> u16"

record netconf_app_t = netconf_fw_t +
  proto :: u16
  dport :: "u16 \<times> u16"
  to :: "u16 \<times> u16"

definition IPPROTO_TCP :: int where "IPPROTO_TCP = 6"
definition IPPROTO_UDP :: int where "IPPROTO_UDP = 17"
definition NETCONF_DISABLED :: u32 where "NETCONF_DISABLED = 0x80000000"
definition IFNAMSIZ :: nat where "IFNAMSIZ = 16"
definition DESC_SIZE :: nat where "DESC_SIZE = 40"
definition VALUE_SIZE :: nat where "VALUE_SIZE = 1000"

text \<open>The structures after memset.\<close>

definition zero_addr :: netconf_addr where
  "zero_addr = \<lparr>a_ipaddr = 0, a_netmask = 0, a_ports = (0, 0)\<rparr>"

definition zero_match :: netconf_match_t where
  "zero_match = \<lparr>ipproto = 0, src = zero_addr, dst = zero_addr, m_mac = replicate 6 0, m_in = '''', m_out = '''',
     m_state = 0, flags = 0, days = (0, 0), secs = (0, 0)\<rparr>"

definition zero_nat :: netconf_nat_t where
  "zero_nat = \<lparr>match = zero_match, target = NETCONF_DROP, desc = '''', nat_ipaddr = 0, nat_ports = (0, 0)\<rparr>"

definition zero_app :: netconf_app_t where
  "zero_app = \<lparr>match = zero_match, target = NETCONF_DROP, desc = '''', proto = 0, dport = (0, 0), to = (0, 0)\<rparr>"

definition zero_filter :: netconf_filter_t where
  "zero_filter = \<lparr>match = zero_match, target = NETCONF_DROP, desc = '''', dir = NETCONF_IN\<rparr>"

section \<open>Reading and printing\<close>

definition nvram_safe_get :: "nvram_state \<Rightarrow> string \<Rightarrow> string" where
  "nvram_safe_get st n = (case nvram_get st n of None \<Rightarrow> '''' | Some v \<Rightarrow> v)"

definition nvram_match :: "nvram_state \<Rightarrow> string \<Rightarrow> string \<Rightarrow> bool" where
  "nvram_match st n v = (nvram_get st n = Some v)"

definition nvram_invmatch :: "nvram_state \<Rightarrow> string \<Rightarrow> string \<Rightarrow> bool" where
  "nvram_invmatch st n v = (case nvram_get st n of None \<Rightarrow> False | Some w \<Rightarrow> w \<noteq> v)"

text \<open>\<open>safe_snprintf\<close> on the text printed so far and the room \<open>*len\<close>.  The length only goes down: a piece
  that does not fit makes it zero or negative, and a negative length is a huge size to vsnprintf.\<close>

definition safe_snprintf :: "string \<Rightarrow> string \<times> int \<Rightarrow> fault + string \<times> int" where
  "safe_snprintf piece cur = (case cur of (out, len) \<Rightarrow>
     if len < 0 then Inl Overrun
     else Inr (out @ take (nat (len - 1)) piece, len - int (length piece)))"

text \<open>A description is printed as the format itself; one of 40 characters is read past its array.\<close>

definition print_desc :: "string \<Rightarrow> string \<times> int \<Rightarrow> fault + string \<times> int" where
  "print_desc d cur = (if d = '''' then Inr cur else
     bindE (safe_snprintf '','' cur) (\<lambda>cur.
       if DESC_SIZE \<le> length d then Inl Overrun else bindE (format0 d) (\<lambda>s. safe_snprintf s cur)))"

definition print_pieces :: "string list \<Rightarrow> string \<Rightarrow> fault + string" where
  "print_pieces pieces d = bindE (eachE safe_snprintf pieces ('''', int VALUE_SIZE)) (\<lambda>cur.
     bindE (print_desc d cur) (\<lambda>cur. Inr (fst cur)))"

definition print_proto :: "int \<Rightarrow> string list" where
  "print_proto p = (if p = IPPROTO_TCP then [''tcp''] else if p = IPPROTO_UDP then [''udp''] else [])"

definition parse_proto :: "string \<Rightarrow> int option" where
  "parse_proto s = (if case_prefix ''tcp'' s then Some IPPROTO_TCP
     else if case_prefix ''udp'' s then Some IPPROTO_UDP else None)"

definition print_range :: "('w :: len) word \<times> 'w word \<Rightarrow> string list" where
  "print_range r = [dec (unat (fst r)), ''-'', dec (unat (snd r))]"

text \<open>The optional range of a field: \<open>end = start; start = strsep(&end, "-"); if (!end) end = start\<close>.\<close>

definition range_of :: "string \<Rightarrow> string \<times> string" where
  "range_of s = (case strsep ''-'' s of (a, r) \<Rightarrow> (a, case r of None \<Rightarrow> a | Some b \<Rightarrow> b))"

definition parse_range :: "string \<Rightarrow> ('w :: len) word \<times> 'w word" where
  "parse_range s = (case range_of s of (a, b) \<Rightarrow> (word_of_int (atoi a), word_of_int (atoi b)))"

definition print_enable :: "u32 \<Rightarrow> string" where
  "print_enable f = (if f AND NETCONF_DISABLED \<noteq> 0 then ''off'' else ''on'')"

definition parse_enable :: "string \<Rightarrow> u32" where
  "parse_enable s = (if case_prefix ''off'' s then NETCONF_DISABLED else 0)"

definition parse_desc :: "string option \<Rightarrow> string" where
  "parse_desc d = (case d of None \<Rightarrow> '''' | Some s \<Rightarrow> take DESC_SIZE s)"

text \<open>\<open>strncpy(value, nvram_get(name), sizeof(value))\<close> and what the caller reads from value.\<close>

definition with_value :: "nvram_state \<Rightarrow> string \<Rightarrow> (string \<Rightarrow> 'a option) \<Rightarrow> fault + 'a option" where
  "with_value st name parse = (if nvram_invmatch st name ''''
     then let value = nvram_safe_get st name in
       if VALUE_SIZE \<le> length value then Inl Overrun else Inr (parse value)
     else Inr None)"

definition store_value :: "nvram_state \<Rightarrow> string \<Rightarrow> fault + string \<Rightarrow> fault + bool \<times> nvram_state" where
  "store_value st name printed = bindE printed (\<lambda>value.
     let (r, st') = nvram_set st name value in Inr (r = 0, st'))"

definition unset_entry :: "nvram_state \<Rightarrow> string \<Rightarrow> bool \<times> nvram_state" where
  "unset_entry st name = (let (r, st') = nvram_unset st name in (r = 0, st'))"

section \<open>Application specific port forwards\<close>

definition autofw_name :: "nat \<Rightarrow> string" where
  "autofw_name which = ''autofw_port'' @ dec which"

text \<open>The names of the entries fit their arrays: an int has at most ten digits.\<close>

lemma entry_name_fits: "which < 2 ^ 31 \<Longrightarrow> length (dec which) \<le> length ''XXXXXXXXXX''"
  using dec_length [of which 9] by simp

definition range_ok :: "u16 \<times> u16 \<Rightarrow> bool" where
  "range_ok r = (fst r \<le> snd r)"

definition range_size :: "u16 \<times> u16 \<Rightarrow> int" where
  "range_size r = uint (snd r) - uint (fst r)"

definition valid_autofw_port :: "netconf_app_t \<Rightarrow> bool" where
  "valid_autofw_port app = (
     (ipproto (match app) = IPPROTO_TCP \<or> ipproto (match app) = IPPROTO_UDP) \<and>
     range_ok (a_ports (dst (match app))) \<and>
     (uint (proto app) = IPPROTO_TCP \<or> uint (proto app) = IPPROTO_UDP) \<and>
     range_ok (dport app) \<and> range_ok (to app) \<and>
     range_size (dport app) = range_size (to app))"

text \<open>The fields out_proto, out_start, in_proto, in_start, to_start, enable and desc of
  \<open>out_proto:out_start-out_end,in_proto:in_start-in_end>to_start-to_end,enable,desc\<close>.\<close>

definition autofw_fields :: "string \<Rightarrow> (string \<times> string \<times> string \<times> string \<times> string \<times> string \<times> string option) option" where
  "autofw_fields value = do {
     let (out_proto, r) = strsep '':'' value;
     out_start \<leftarrow> r;
     let (out_start, r) = strsep '','' out_start;
     in_proto \<leftarrow> r;
     let (in_proto, r) = strsep '':'' in_proto;
     in_start \<leftarrow> r;
     let (in_start, r) = strsep ''>'' in_start;
     to_start \<leftarrow> r;
     let (to_start, r) = strsep '','' to_start;
     enable \<leftarrow> r;
     let (enable, desc) = strsep '','' enable;
     Some (out_proto, out_start, in_proto, in_start, to_start, enable, desc)
   }"

definition autofw_fill :: "nvram_state \<Rightarrow> string \<times> string \<times> string \<times> string \<times> string \<times> string \<times> string option \<Rightarrow>
    netconf_app_t option" where
  "autofw_fill st f = (case f of (out_proto, out_start, in_proto, in_start, to_start, enable, d) \<Rightarrow> do {
     op \<leftarrow> parse_proto out_proto;
     ip \<leftarrow> parse_proto in_proto;
     Some \<lparr>match = zero_match\<lparr>ipproto := op, dst := zero_addr\<lparr>a_ports := parse_range out_start\<rparr>,
             src := zero_addr\<lparr>a_ports := (0, 0xffff)\<rparr>, flags := parse_enable enable,
             m_in := take IFNAMSIZ (nvram_safe_get st ''lan_ifname'')\<rparr>,
           target = NETCONF_APP, desc = parse_desc d,
           proto = word_of_int ip, dport = parse_range in_start, to = parse_range to_start\<rparr>
   })"

definition parse_autofw_port :: "nvram_state \<Rightarrow> string \<Rightarrow> netconf_app_t option" where
  "parse_autofw_port st value = do {
     f \<leftarrow> autofw_fields value;
     app \<leftarrow> autofw_fill st f;
     if valid_autofw_port app then Some app else None
   }"

text \<open>None is the return value FALSE: the caller does not use what was filled in by then.\<close>

definition get_autofw_port :: "nvram_state \<Rightarrow> nat \<Rightarrow> fault + netconf_app_t option" where
  "get_autofw_port st which = with_value st (autofw_name which) (parse_autofw_port st)"

definition print_autofw_port :: "netconf_app_t \<Rightarrow> fault + string" where
  "print_autofw_port app = print_pieces
     (print_proto (ipproto (match app)) @ ['':''] @ print_range (a_ports (dst (match app))) @
      ['',''] @ print_proto (uint (proto app)) @ ['':''] @ print_range (dport app) @
      [''>''] @ print_range (to app) @ ['','', print_enable (flags (match app))]) (desc app)"

definition set_autofw_port :: "nvram_state \<Rightarrow> nat \<Rightarrow> netconf_app_t \<Rightarrow> fault + bool \<times> nvram_state" where
  "set_autofw_port st which app = (if valid_autofw_port app
     then store_value st (autofw_name which) (print_autofw_port app) else Inr (False, st))"

definition del_autofw_port :: "nvram_state \<Rightarrow> nat \<Rightarrow> bool \<times> nvram_state" where
  "del_autofw_port st which = unset_entry st (autofw_name which)"

section \<open>Static port forwards\<close>

definition forward_name :: "nat \<Rightarrow> string" where
  "forward_name which = ''forward_port'' @ dec which"

definition valid_forward_port :: "netconf_nat_t \<Rightarrow> bool" where
  "valid_forward_port ent = (
     range_ok (a_ports (dst (match ent))) \<and>
     (ipproto (match ent) = IPPROTO_TCP \<or> ipproto (match ent) = IPPROTO_UDP) \<and>
     nat_ipaddr ent \<noteq> 0 \<and> range_ok (nat_ports ent) \<and>
     range_size (a_ports (dst (match ent))) = range_size (nat_ports ent))"

text \<open>\<open>wan_port0-wan_port1>lan_ipaddr:lan_port0-lan_port1[:,]proto[:,]enable[:,]desc\<close>\<close>

definition parse_forward_port :: "string \<Rightarrow> netconf_nat_t option" where
  "parse_forward_port value = do {
     let (wan_port0, r) = strsep ''>'' value;
     lan_ipaddr \<leftarrow> r;
     let (lan_ipaddr, r) = strsep '':'' lan_ipaddr;
     lan_port0 \<leftarrow> r;
     let (lan_port0, r) = strsep '':,'' lan_port0;
     prot \<leftarrow> r;
     let (prot, r) = strsep '':,'' prot;
     enable \<leftarrow> r;
     let (enable, d) = strsep '':,'' enable;
     p \<leftarrow> parse_proto prot;
     let ent = \<lparr>match = zero_match\<lparr>ipproto := p, dst := zero_addr\<lparr>a_ports := parse_range wan_port0\<rparr>,
                  src := zero_addr\<lparr>a_ports := (0, 0xffff)\<rparr>, flags := parse_enable enable\<rparr>,
                target = NETCONF_DNAT, desc = parse_desc d,
                nat_ipaddr = inet_aton_to lan_ipaddr 0, nat_ports = parse_range lan_port0\<rparr>;
     if valid_forward_port ent then Some ent else None
   }"

definition get_forward_port :: "nvram_state \<Rightarrow> nat \<Rightarrow> fault + netconf_nat_t option" where
  "get_forward_port st which = with_value st (forward_name which) parse_forward_port"

definition print_forward_port :: "netconf_nat_t \<Rightarrow> fault + string" where
  "print_forward_port ent = print_pieces
     (print_range (a_ports (dst (match ent))) @ [''>'', inet_ntoa (nat_ipaddr ent), '':''] @
      print_range (nat_ports ent) @ ['',''] @ print_proto (ipproto (match ent)) @
      ['','', print_enable (flags (match ent))]) (desc ent)"

definition set_forward_port :: "nvram_state \<Rightarrow> nat \<Rightarrow> netconf_nat_t \<Rightarrow> fault + bool \<times> nvram_state" where
  "set_forward_port st which ent = (if valid_forward_port ent
     then store_value st (forward_name which) (print_forward_port ent) else Inr (False, st))"

definition del_forward_port :: "nvram_state \<Rightarrow> nat \<Rightarrow> bool \<times> nvram_state" where
  "del_forward_port st which = unset_entry st (forward_name which)"

section \<open>Client filters\<close>

definition filter_name :: "nat \<Rightarrow> string" where
  "filter_name which = ''filter_client'' @ dec which"

definition valid_filter_client :: "netconf_filter_t \<Rightarrow> netconf_filter_t \<Rightarrow> bool" where
  "valid_filter_client s e = (
     (a_netmask (src (match s)) \<noteq> 0 \<longrightarrow>
        a_netmask (src (match s)) = 0xffffffff \<and> a_netmask (src (match s)) = a_netmask (src (match e)) \<and>
        a_ipaddr (src (match s)) \<le> a_ipaddr (src (match e))) \<and>
     range_ok (a_ports (dst (match s))) \<and> a_ports (dst (match s)) = a_ports (dst (match e)) \<and>
     (ipproto (match s) = IPPROTO_TCP \<or> ipproto (match s) = IPPROTO_UDP) \<and> ipproto (match s) = ipproto (match e) \<and>
     fst (days (match s)) \<le> 6 \<and> snd (days (match s)) \<le> 6 \<and> days (match s) = days (match e) \<and>
     fst (secs (match s)) < 86400 \<and> snd (secs (match s)) < 86400 \<and> secs (match s) = secs (match e))"

text \<open>\<open>[lan_ipaddr0-lan_ipaddr1|*]:lan_port0-lan_port1,proto,day_start-day_end,sec_start-sec_end,enable,desc\<close>\<close>

definition filter_fields :: "string \<Rightarrow> (string \<times> string \<times> string \<times> string \<times> string \<times> string \<times> string option) option" where
  "filter_fields value = do {
     let (lan_ipaddr0, r) = strsep '':'' value;
     lan_port0 \<leftarrow> r;
     let (lan_port0, r) = strsep '','' lan_port0;
     prot \<leftarrow> r;
     let (prot, r) = strsep '','' prot;
     day_start \<leftarrow> r;
     let (day_start, r) = strsep '','' day_start;
     sec_start \<leftarrow> r;
     let (sec_start, r) = strsep '','' sec_start;
     enable \<leftarrow> r;
     let (enable, d) = strsep '','' enable;
     Some (lan_ipaddr0, lan_port0, prot, day_start, sec_start, enable, d)
   }"

text \<open>The source addresses of the two structures.  \<open>same\<close>: the caller passed one structure for both, so
  the second inet_aton writes over the first.\<close>

definition filter_addrs :: "bool \<Rightarrow> string \<Rightarrow> u32 \<times> u32 \<times> u32" where
  "filter_addrs same lan_ipaddr = (case range_of lan_ipaddr of (lan_ipaddr0, lan_ipaddr1) \<Rightarrow>
     if deref lan_ipaddr0 = CHR ''*'' then (0, 0, 0)
     else let a = inet_aton_to lan_ipaddr0 0 in
       if same then (inet_aton_to lan_ipaddr1 a, inet_aton_to lan_ipaddr1 a, 0xffffffff)
       else (a, inet_aton_to lan_ipaddr1 0, 0xffffffff))"

definition parse_filter_client :: "bool \<Rightarrow> nvram_state \<Rightarrow> string \<Rightarrow> (netconf_filter_t \<times> netconf_filter_t) option" where
  "parse_filter_client same st value = do {
     (lan_ipaddr, lan_port, prot, day, sec, enable, d) \<leftarrow> filter_fields value;
     p \<leftarrow> parse_proto prot;
     let (a0, a1, mask) = filter_addrs same lan_ipaddr;
     let m = zero_match\<lparr>ipproto := p, dst := zero_addr\<lparr>a_ports := parse_range lan_port\<rparr>,
               src := \<lparr>a_ipaddr = a1, a_netmask = mask, a_ports = (0, 0xffff)\<rparr>,
               flags := parse_enable enable, days := parse_range day, secs := parse_range sec\<rparr>;
     let e = zero_filter\<lparr>match := m, desc := parse_desc d\<rparr>;
     let s = e\<lparr>match := m\<lparr>src := (src m)\<lparr>a_ipaddr := a0\<rparr>, m_in := take IFNAMSIZ (nvram_safe_get st ''lan_ifname'')\<rparr>,
               target := NETCONF_DROP\<rparr>;
     let e = (if same then s else e);
     if valid_filter_client s e then Some (s, e) else None
   }"

definition get_filter_client :: "bool \<Rightarrow> nvram_state \<Rightarrow> nat \<Rightarrow> fault + (netconf_filter_t \<times> netconf_filter_t) option" where
  "get_filter_client same st which = with_value st (filter_name which) (parse_filter_client same st)"

definition print_filter_addrs :: "netconf_filter_t \<Rightarrow> netconf_filter_t \<Rightarrow> string list" where
  "print_filter_addrs s e = (
     if a_ipaddr (src (match s)) = 0 \<and> a_ipaddr (src (match e)) = 0 \<and>
        a_netmask (src (match s)) = 0 \<and> a_netmask (src (match e)) = 0 then [''*'']
     else [inet_ntoa (a_ipaddr (src (match s))), ''-'', inet_ntoa (a_ipaddr (src (match e)))])"

definition print_filter_client :: "netconf_filter_t \<Rightarrow> netconf_filter_t \<Rightarrow> fault + string" where
  "print_filter_client s e = print_pieces
     (print_filter_addrs s e @ ['':''] @ print_range (a_ports (dst (match s))) @
      ['',''] @ print_proto (ipproto (match s)) @ ['',''] @ print_range (days (match s)) @
      ['',''] @ print_range (secs (match s)) @ ['','', print_enable (flags (match s))]) (desc s)"

definition set_filter_client :: "nvram_state \<Rightarrow> nat \<Rightarrow> netconf_filter_t \<Rightarrow> netconf_filter_t \<Rightarrow> fault + bool \<times> nvram_state" where
  "set_filter_client st which s e = (if valid_filter_client s e
     then store_value st (filter_name which) (print_filter_client s e) else Inr (False, st))"

definition del_filter_client :: "nvram_state \<Rightarrow> nat \<Rightarrow> bool \<times> nvram_state" where
  "del_filter_client st which = unset_entry st (filter_name which)"

section \<open>WDS links\<close>

definition wds_name :: "nat \<Rightarrow> nat \<Rightarrow> string" where
  "wds_name unit which = snprintf 21 (''wl'' @ dec unit @ ''_wds'' @ dec which)"

text \<open>The strings written to mac, role, crypto, auth, ssid and passphrase.\<close>

definition parse_wds :: "string \<Rightarrow> (string \<times> string \<times> string \<times> string \<times> string \<times> string) option" where
  "parse_wds value = do {
     let (mac, r) = strsep '','' value;
     next \<leftarrow> r;
     let (role, r) = strsep '','' next;
     next \<leftarrow> r;
     let (crypto, r) = strsep '','' next;
     next \<leftarrow> r;
     let (auth, r) = strsep '','' next;
     next \<leftarrow> r;
     if auth = ''psk'' then do {
       let (ssid, r) = strsep '','' next;
       passphrase \<leftarrow> r;
       Some (mac, role, crypto, auth, ssid, passphrase)
     } else None
   }"

definition get_wds_wsec :: "nvram_state \<Rightarrow> nat \<Rightarrow> nat \<Rightarrow>
    fault + (string \<times> string \<times> string \<times> string \<times> string \<times> string) option" where
  "get_wds_wsec st unit which = (let value = nvram_safe_get st (wds_name unit which) in
     if VALUE_SIZE \<le> length value then Inl Overrun else Inr (parse_wds value))"

definition set_wds_wsec :: "nvram_state \<Rightarrow> nat \<Rightarrow> nat \<Rightarrow> string \<Rightarrow> string \<Rightarrow> string \<Rightarrow> string \<Rightarrow> string \<Rightarrow> string \<Rightarrow>
    bool \<times> nvram_state" where
  "set_wds_wsec st unit which mac role crypto auth str1 str2 = (
     let value = snprintf 10000 (mac @ '','' @ role @ '','' @ crypto @ '','' @ auth) in
     if auth = ''psk'' then
       let (r, st') = nvram_set st (wds_name unit which)
         (value @ snprintf (10000 - length value) ('','' @ str1 @ '','' @ str2))
       in (r = 0, st')
     else (False, st))"

definition del_wds_wsec :: "nvram_state \<Rightarrow> nat \<Rightarrow> nat \<Rightarrow> bool \<times> nvram_state" where
  "del_wds_wsec st unit which = (True, snd (nvram_unset st (wds_name unit which)))"

section \<open>Printing and parsing of the fields\<close>

named_theorems field_simps \<open>parsing what was printed\<close>

lemma eachE_safe_snprintf:
  "int (length (concat ps)) < len \<Longrightarrow>
   eachE safe_snprintf ps (out, len) = Inr (out @ concat ps, len - int (length (concat ps)))"
proof (induction ps arbitrary: out len)
  case (Cons p ps)
  then show ?case
    using Cons.IH [of "len - int (length p)" "out @ p"] by (simp add: safe_snprintf_def)
qed simp

definition desc_text :: "string \<Rightarrow> string" where
  "desc_text d = (if d = '''' then '''' else CHR '','' # d)"

lemma print_pieces_ok:
  assumes "length (concat ps) \<le> 900" "length d < DESC_SIZE" "CHR ''%'' \<notin> set d"
  shows "print_pieces ps d = Inr (concat ps @ desc_text d)"
proof -
  have "int (length (concat ps)) < int VALUE_SIZE" using assms(1) by (simp add: VALUE_SIZE_def)
  from eachE_safe_snprintf [OF this, of "''''"] show ?thesis
    using assms by (auto simp: print_pieces_def print_desc_def desc_text_def safe_snprintf_def
      format0_plain VALUE_SIZE_def DESC_SIZE_def)
qed

lemma dec_inj: "dec m = dec n \<longleftrightarrow> m = n"
  by (metis append_Nil2 fst_conv num_stop_simps(1) scan_num_dec)

lemma range_of_print: "CHR ''-'' \<notin> set a \<Longrightarrow> range_of (a @ CHR ''-'' # b) = (a, b)"
  unfolding range_of_def by (subst strsep_hit) auto

definition range_text :: "('w :: len) word \<times> 'w word \<Rightarrow> string" where
  "range_text r = concat (print_range r)"

definition proto_text :: "int \<Rightarrow> string" where
  "proto_text p = concat (print_proto p)"

lemma parse_print_range [field_simps]:
  assumes "unat (fst r) < 2 ^ 31" "unat (snd r) < 2 ^ 31"
  shows "parse_range (range_text r) = (r :: ('w :: len) word \<times> 'w word)"
proof -
  have "CHR ''-'' \<notin> set (dec (unat (fst r)))" using dec_plain by fastforce
  then have "range_of (range_text r) = (dec (unat (fst r)), dec (unat (snd r)))"
    by (simp add: range_text_def print_range_def range_of_print)
  then show ?thesis
    using assms atoi_dec [of "[]" "unat (fst r)"] atoi_dec [of "[]" "unat (snd r)"]
    by (simp add: parse_range_def)
qed

lemma unat_u16_31: "unat (w :: u16) < 2 ^ 31"
  using unat_less_2p [of w] by simp

lemma parse_print_ports [field_simps]: "parse_range (range_text r) = (r :: u16 \<times> u16)"
  by (rule parse_print_range) (simp_all only: unat_u16_31)

lemma print_range_plain:
  "c \<in> set (range_text r) \<Longrightarrow> c \<notin> {CHR '':'', CHR '','', CHR ''>'', CHR ''*'', CHR '' ''}"
  by (auto simp: range_text_def print_range_def dest!: dec_plain)

lemma print_ports_length: "length (range_text (r :: u16 \<times> u16)) \<le> 11"
proof -
  have "unat (w :: u16) < 10 ^ Suc 4" for w using unat_less_2p [of w] by simp
  then have "length (dec (unat (w :: u16))) \<le> Suc 4" for w by (rule dec_length)
  from this [of "fst r"] this [of "snd r"] show ?thesis by (simp add: range_text_def print_range_def)
qed

lemma parse_print_proto [field_simps]:
  "p = IPPROTO_TCP \<or> p = IPPROTO_UDP \<Longrightarrow> parse_proto (proto_text p) = Some p"
  by (auto simp: proto_text_def print_proto_def parse_proto_def case_prefix_def c_tolower_def IPPROTO_TCP_def IPPROTO_UDP_def)

lemma print_proto_plain: "c \<in> set (proto_text p) \<Longrightarrow> c \<notin> {CHR '':'', CHR '','', CHR ''>''}"
  by (auto simp: proto_text_def print_proto_def split: if_splits)

lemma print_proto_length: "length (proto_text p) \<le> 3"
  by (simp add: proto_text_def print_proto_def)

definition disabled :: "u32 \<Rightarrow> bool" where
  "disabled f = (f AND NETCONF_DISABLED \<noteq> 0)"

lemma parse_print_enable [field_simps]: "parse_enable (print_enable f) = (if disabled f then NETCONF_DISABLED else 0)"
  by (simp add: print_enable_def parse_enable_def disabled_def case_prefix_def c_tolower_def)

lemma print_enable_plain: "c \<in> set (print_enable f) \<Longrightarrow> c \<notin> {CHR '':'', CHR '',''}"
  by (auto simp: print_enable_def split: if_splits)

lemma print_enable_length: "length (print_enable f) \<le> 3"
  by (simp add: print_enable_def)

lemma strsep_desc:
  assumes "CHR '','' \<in> set delim" "\<forall>c\<in>set e. c \<notin> set delim"
  shows "strsep delim (e @ desc_text d) = (e, if d = '''' then None else Some d)"
  using strsep_hit [OF assms(2,1), of d] strsep_miss [OF assms(2)] by (simp add: desc_text_def)

lemma parse_desc_text [field_simps]: "length d < DESC_SIZE \<Longrightarrow> parse_desc (if d = '''' then None else Some d) = d"
  by (simp add: parse_desc_def)

definition desc_ok :: "string \<Rightarrow> bool" where
  "desc_ok d = (length d < DESC_SIZE \<and> CHR ''%'' \<notin> set d)"


section \<open>Round trips\<close>

text \<open>What the text of an entry carries of a port forward.\<close>

definition forward_key :: "netconf_nat_t \<Rightarrow> int \<times> (u16 \<times> u16) \<times> u32 \<times> (u16 \<times> u16) \<times> bool \<times> string" where
  "forward_key ent = (ipproto (match ent), a_ports (dst (match ent)), nat_ipaddr ent, nat_ports ent,
     disabled (flags (match ent)), desc ent)"

lemmas plain_fields = print_range_plain print_proto_plain print_enable_plain inet_ntoa_plain

lemma disabled_simps: "disabled NETCONF_DISABLED" "\<not> disabled 0"
  by (simp_all add: disabled_def NETCONF_DISABLED_def)

lemma disabled_flag: "disabled (if b then NETCONF_DISABLED else 0) = b"
  by (simp add: disabled_def NETCONF_DISABLED_def)

lemma parse_forward_value:
  assumes "valid_forward_port ent" 
    "value = range_text (a_ports (dst (match ent))) @ CHR ''>'' # inet_ntoa (nat_ipaddr ent) @ CHR '':'' #
       range_text (nat_ports ent) @ CHR '','' # proto_text (ipproto (match ent)) @ CHR '','' #
       print_enable (flags (match ent)) @ desc_text (desc ent)"
    "length (desc ent) < DESC_SIZE"
  shows "\<exists>ent'. parse_forward_port value = Some ent' \<and> forward_key ent' = forward_key ent"
proof -
  have s: "strsep ''>'' value = (range_text (a_ports (dst (match ent))), Some (inet_ntoa (nat_ipaddr ent) @ CHR '':'' #
       range_text (nat_ports ent) @ CHR '','' # proto_text (ipproto (match ent)) @ CHR '','' #
       print_enable (flags (match ent)) @ desc_text (desc ent)))"
    unfolding assms(2) by (subst strsep_hit) (auto dest: plain_fields)
  have t: "strsep '':'' (inet_ntoa a @ CHR '':'' # b) = (inet_ntoa a, Some b)" for a b
    by (subst strsep_hit) (auto dest: plain_fields)
  have u: "strsep '':,'' (range_text q @ CHR '','' # b) = (range_text q, Some b)" for q :: "u16 \<times> u16" and b
    by (subst strsep_hit) (auto dest: plain_fields)
  have v: "strsep '':,'' (proto_text p @ CHR '','' # b) = (proto_text p, Some b)" for p b
    by (subst strsep_hit) (auto dest: plain_fields)
  have w: "strsep '':,'' (print_enable f @ desc_text d) = (print_enable f, if d = '''' then None else Some d)" for f d
    by (rule strsep_desc) (auto dest: plain_fields)
  show ?thesis
    using assms(1,3)
    by (auto simp: parse_forward_port_def s t u v w field_simps forward_key_def disabled_flag valid_forward_port_def)
qed

lemma with_value_stored:
  assumes "nvram_inv st" "oom st = []" "0 < length value" "length value < VALUE_SIZE" "printed = Inr value"
    "\<And>st'. parse st' value = Some (x st')"
  shows "\<exists>st'. store_value st name printed = Inr (True, st') \<and> with_value st' name (parse st') = Inr (Some (x st')) \<and>
    nvram_inv st' \<and> oom st' = [] \<and> (\<forall>m. m \<noteq> name \<longrightarrow> nvram_get st' m = nvram_get st m)"
proof -
  obtain r st' where eq: "nvram_set st name value = (r, st')" by force
  have ok: "r = 0" "oom st' = []" using nvram_set_ok [OF assms(2), of name "value"] eq by auto
  have "nvram_get st' m = (if m = name then Some value else nvram_get st m)" for m
    using nv.get_set [OF assms(1), of name "value" m] eq ok by simp
  moreover have "nvram_inv st'" using nv.set_inv [OF assms(1), of name "value"] eq by simp
  ultimately show ?thesis
    using assms(3-6) ok eq
    by (auto simp: store_value_def with_value_def nvram_invmatch_def nvram_safe_get_def)
qed

text \<open>What the text carries of an application specific forward.\<close>

definition autofw_key :: "netconf_app_t \<Rightarrow> int \<times> (u16 \<times> u16) \<times> u16 \<times> (u16 \<times> u16) \<times> (u16 \<times> u16) \<times> bool \<times> string" where
  "autofw_key app = (ipproto (match app), a_ports (dst (match app)), proto app, dport app, to app,
     disabled (flags (match app)), desc app)"

definition autofw_text :: "netconf_app_t \<Rightarrow> string" where
  "autofw_text app = proto_text (ipproto (match app)) @ CHR '':'' # range_text (a_ports (dst (match app))) @ CHR '','' #
     proto_text (uint (proto app)) @ CHR '':'' # range_text (dport app) @ CHR ''>'' # range_text (to app) @ CHR '','' #
     print_enable (flags (match app)) @ desc_text (desc app)"

lemma print_u32_length: "length (range_text (r :: u32 \<times> u32)) \<le> 21"
proof -
  have "unat (w :: u32) < 10 ^ Suc 9" for w using unat_less_2p [of w] by simp
  then have "length (dec (unat (w :: u32))) \<le> Suc 9" for w by (rule dec_length)
  from this [of "fst r"] this [of "snd r"] show ?thesis by (simp add: range_text_def print_range_def)
qed

lemmas text_lengths = print_ports_length print_u32_length print_proto_length print_enable_length

lemma texts: "concat (print_range r) = range_text r" "concat (print_proto p) = proto_text p"
  by (simp_all add: range_text_def proto_text_def)

lemma strsep_fields:
  "strsep '':'' (proto_text p @ CHR '':'' # b) = (proto_text p, Some b)"
  "strsep '','' (proto_text p @ CHR '','' # b) = (proto_text p, Some b)"
  "strsep '','' (range_text q @ CHR '','' # b) = (range_text q, Some b)"
  "strsep ''>'' (range_text q @ CHR ''>'' # b) = (range_text q, Some b)"
  "strsep '','' (print_enable f @ desc_text d) = (print_enable f, if d = '''' then None else Some d)"
  by (subst strsep_hit strsep_desc; auto dest: plain_fields)+

lemma word_of_int_proto: "(word_of_int (uint w) :: u16) = w"
  by simp

lemma parse_autofw_text:
  assumes "valid_autofw_port app" "length (desc app) < DESC_SIZE"
  shows "\<exists>app'. parse_autofw_port st (autofw_text app) = Some app' \<and> autofw_key app' = autofw_key app"
  using assms
  by (auto simp: parse_autofw_port_def autofw_fields_def autofw_fill_def autofw_text_def strsep_fields field_simps
      autofw_key_def disabled_flag valid_autofw_port_def)

lemma print_autofw_text:
  assumes "desc_ok (desc app)"
  shows "print_autofw_port app = Inr (autofw_text app)" "length (autofw_text app) < VALUE_SIZE"
proof -
  have "length (autofw_text app) \<le> 87"
    using assms text_lengths(1) [of "a_ports (dst (match app))"] text_lengths(1) [of "dport app"] text_lengths(1) [of "to app"]
      text_lengths(3) [of "ipproto (match app)"] text_lengths(3) [of "uint (proto app)"] text_lengths(4) [of "flags (match app)"]
    by (auto simp: autofw_text_def desc_ok_def DESC_SIZE_def desc_text_def)
  then show "length (autofw_text app) < VALUE_SIZE" by (simp add: VALUE_SIZE_def)
  show "print_autofw_port app = Inr (autofw_text app)"
    unfolding print_autofw_port_def using assms \<open>length (autofw_text app) \<le> 87\<close>
    by (subst print_pieces_ok) (auto simp: desc_ok_def autofw_text_def texts)
qed

definition filter_key :: "netconf_filter_t \<times> netconf_filter_t \<Rightarrow>
    (u32 \<times> u32 \<times> u32) \<times> (u16 \<times> u16) \<times> int \<times> (u32 \<times> u32) \<times> (u32 \<times> u32) \<times> bool \<times> string" where
  "filter_key se = (case se of (s, e) \<Rightarrow>
     ((a_ipaddr (src (match s)), a_ipaddr (src (match e)), a_netmask (src (match s))),
      a_ports (dst (match s)), ipproto (match s), days (match s), secs (match s), disabled (flags (match s)), desc s))"

definition filter_text :: "netconf_filter_t \<Rightarrow> netconf_filter_t \<Rightarrow> string" where
  "filter_text s e = concat (print_filter_addrs s e) @ CHR '':'' # range_text (a_ports (dst (match s))) @ CHR '','' #
     proto_text (ipproto (match s)) @ CHR '','' # range_text (days (match s)) @ CHR '','' # range_text (secs (match s)) @ CHR '','' #
     print_enable (flags (match s)) @ desc_text (desc s)"

text \<open>A pair of structures the text can carry: a netmask of 0 only for any address.\<close>

definition filter_addrs_ok :: "netconf_filter_t \<Rightarrow> netconf_filter_t \<Rightarrow> bool" where
  "filter_addrs_ok s e = (a_netmask (src (match s)) = a_netmask (src (match e)) \<and>
     (a_netmask (src (match s)) = 0 \<longrightarrow> a_ipaddr (src (match s)) = 0 \<and> a_ipaddr (src (match e)) = 0))"

lemma filter_addrs_print:
  assumes "valid_filter_client s e" "filter_addrs_ok s e"
  shows "filter_addrs False (concat (print_filter_addrs s e)) =
    (a_ipaddr (src (match s)), a_ipaddr (src (match e)), a_netmask (src (match s)))"
proof (cases "a_netmask (src (match s)) = 0")
  case True
  then show ?thesis using assms(2)
    by (simp add: filter_addrs_def filter_addrs_ok_def print_filter_addrs_def range_of_def strsep_miss)
next
  case False
  let ?a = "inet_ntoa (a_ipaddr (src (match s)))"
  have "CHR ''-'' \<notin> set ?a" "deref ?a \<noteq> CHR ''*''"
    using inet_ntoa_plain [of _ "a_ipaddr (src (match s))"] by (force, cases ?a, auto)
  then show ?thesis using False assms(1)
    by (simp add: filter_addrs_def print_filter_addrs_def valid_filter_client_def range_of_print)
qed

lemma filter_addrs_plain: "c \<in> set (concat (print_filter_addrs s e)) \<Longrightarrow> c \<noteq> CHR '':''"
  by (auto simp: print_filter_addrs_def dest!: inet_ntoa_plain split: if_splits)

lemma parse_filter_text:
  assumes "valid_filter_client s e" "filter_addrs_ok s e" "length (desc s) < DESC_SIZE"
  shows "\<exists>r. parse_filter_client False st (filter_text s e) = Some r \<and> filter_key r = filter_key (s, e)"
proof -
  have h: "strsep '':'' (concat (print_filter_addrs s e) @ CHR '':'' # b) = (concat (print_filter_addrs s e), Some b)" for b
    using filter_addrs_plain by (subst strsep_hit) auto
  have fields: "filter_fields (filter_text s e) = Some (concat (print_filter_addrs s e), range_text (a_ports (dst (match s))),
      proto_text (ipproto (match s)), range_text (days (match s)), range_text (secs (match s)), print_enable (flags (match s)),
      if desc s = [] then None else Some (desc s))"
    by (simp add: filter_fields_def filter_text_def h strsep_fields)
  have "unat (fst (days (match s))) < 2 ^ 31" "unat (snd (days (match s))) < 2 ^ 31"
    "unat (fst (secs (match s))) < 2 ^ 31" "unat (snd (secs (match s))) < 2 ^ 31"
    using assms(1) by (auto simp: valid_filter_client_def word_le_nat_alt word_less_nat_alt)
  then have "parse_range (range_text (days (match s))) = days (match s)" "parse_range (range_text (secs (match s))) = secs (match s)"
    by (simp_all add: parse_print_range)
  then show ?thesis
    using assms filter_addrs_print [OF assms(1,2)]
    by (auto simp: parse_filter_client_def fields field_simps filter_key_def disabled_flag valid_filter_client_def
      filter_addrs_ok_def zero_filter_def zero_addr_def disabled_simps)
qed

lemma print_filter_text:
  assumes "desc_ok (desc s)"
  shows "print_filter_client s e = Inr (filter_text s e)" "length (filter_text s e) < VALUE_SIZE"
proof -
  have "length (concat (print_filter_addrs s e)) \<le> 31"
    using inet_ntoa_length [of "a_ipaddr (src (match s))"] inet_ntoa_length [of "a_ipaddr (src (match e))"]
    by (simp add: print_filter_addrs_def)
  then have len: "length (filter_text s e) \<le> 200"
    using assms text_lengths(1) [of "a_ports (dst (match s))"] text_lengths(2) [of "days (match s)"] text_lengths(2) [of "secs (match s)"]
      text_lengths(3) [of "ipproto (match s)"] text_lengths(4) [of "flags (match s)"]
    by (auto simp: filter_text_def desc_ok_def DESC_SIZE_def desc_text_def simp del: length_concat)
  then show "length (filter_text s e) < VALUE_SIZE" by (simp add: VALUE_SIZE_def)
  show "print_filter_client s e = Inr (filter_text s e)"
    unfolding print_filter_client_def using assms len
    by (subst print_pieces_ok) (auto simp: desc_ok_def filter_text_def texts simp del: length_concat)
qed


definition forward_text :: "netconf_nat_t \<Rightarrow> string" where
  "forward_text ent = range_text (a_ports (dst (match ent))) @ CHR ''>'' # inet_ntoa (nat_ipaddr ent) @ CHR '':'' #
     range_text (nat_ports ent) @ CHR '','' # proto_text (ipproto (match ent)) @ CHR '','' #
     print_enable (flags (match ent)) @ desc_text (desc ent)"

lemma print_forward_text:
  assumes "desc_ok (desc ent)"
  shows "print_forward_port ent = Inr (forward_text ent)" "length (forward_text ent) < VALUE_SIZE"
proof -
  have len: "length (forward_text ent) \<le> 100"
    using assms text_lengths(1) [of "a_ports (dst (match ent))"] text_lengths(1) [of "nat_ports ent"]
      text_lengths(3) [of "ipproto (match ent)"] text_lengths(4) [of "flags (match ent)"] inet_ntoa_length [of "nat_ipaddr ent"]
    by (auto simp: forward_text_def desc_ok_def DESC_SIZE_def desc_text_def)
  then show "length (forward_text ent) < VALUE_SIZE" by (simp add: VALUE_SIZE_def)
  show "print_forward_port ent = Inr (forward_text ent)"
    unfolding print_forward_port_def using assms len
    by (subst print_pieces_ok) (auto simp: desc_ok_def forward_text_def texts)
qed

lemma forward_set_get:
  assumes "nvram_inv st" "oom st = []" "valid_forward_port ent" "desc_ok (desc ent)"
  shows "\<exists>st' ent'. set_forward_port st which ent = Inr (True, st') \<and> get_forward_port st' which = Inr (Some ent') \<and>
    forward_key ent' = forward_key ent \<and> nvram_inv st' \<and> oom st' = [] \<and>
    (\<forall>m. m \<noteq> forward_name which \<longrightarrow> nvram_get st' m = nvram_get st m)"
proof -
  have "length (desc ent) < DESC_SIZE" using assms(4) by (simp add: desc_ok_def)
  from parse_forward_value [OF assms(3) forward_text_def this] obtain ent'
    where e: "parse_forward_port (forward_text ent) = Some ent'" "forward_key ent' = forward_key ent" by blast
  have "0 < length (forward_text ent)" by (simp add: forward_text_def)
  from with_value_stored [OF assms(1,2) this print_forward_text(2,1) [OF assms(4)], of "\<lambda>_. parse_forward_port" "\<lambda>_. ent'" "forward_name which"]
  show ?thesis using assms(3) e by (auto simp: set_forward_port_def get_forward_port_def)
qed

lemma autofw_set_get:
  assumes "nvram_inv st" "oom st = []" "valid_autofw_port app" "desc_ok (desc app)"
  shows "\<exists>st' app'. set_autofw_port st which app = Inr (True, st') \<and> get_autofw_port st' which = Inr (Some app') \<and>
    autofw_key app' = autofw_key app \<and> nvram_inv st' \<and> oom st' = [] \<and>
    (\<forall>m. m \<noteq> autofw_name which \<longrightarrow> nvram_get st' m = nvram_get st m)"
proof -
  have "length (desc app) < DESC_SIZE" using assms(4) by (simp add: desc_ok_def)
  from parse_autofw_text [OF assms(3) this] obtain app'
    where e: "\<And>st. parse_autofw_port st (autofw_text app) = Some (app' st)" "\<And>st. autofw_key (app' st) = autofw_key app" by metis
  have "0 < length (autofw_text app)" by (simp add: autofw_text_def)
  from with_value_stored [OF assms(1,2) this print_autofw_text(2,1) [OF assms(4)], of parse_autofw_port app' "autofw_name which"]
  show ?thesis using assms(3) e by (auto simp: set_autofw_port_def get_autofw_port_def)
qed

lemma filter_set_get:
  assumes "nvram_inv st" "oom st = []" "valid_filter_client s e" "filter_addrs_ok s e" "desc_ok (desc s)"
  shows "\<exists>st' r. set_filter_client st which s e = Inr (True, st') \<and> get_filter_client False st' which = Inr (Some r) \<and>
    filter_key r = filter_key (s, e) \<and> nvram_inv st' \<and> oom st' = [] \<and>
    (\<forall>m. m \<noteq> filter_name which \<longrightarrow> nvram_get st' m = nvram_get st m)"
proof -
  have "length (desc s) < DESC_SIZE" using assms(5) by (simp add: desc_ok_def)
  from parse_filter_text [OF assms(3,4) this] obtain r
    where e: "\<And>st. parse_filter_client False st (filter_text s e) = Some (r st)" "\<And>st. filter_key (r st) = filter_key (s, e)" by metis
  have "0 < length (filter_text s e)" by (simp add: filter_text_def)
  from with_value_stored [OF assms(1,2) this print_filter_text(2,1) [OF assms(5)], of "parse_filter_client False" r "filter_name which"]
  show ?thesis using assms(3) e by (auto simp: set_filter_client_def get_filter_client_def simp del: split_paired_Ex)
qed


section \<open>The search for a free entry\<close>

text \<open>\<open>for (i = 0; get(i); i++);\<close>.  None: the loop does not end.\<close>

partial_function (option) free_slot :: "(nat \<Rightarrow> fault + bool) \<Rightarrow> nat \<Rightarrow> (fault + nat) option" where
  "free_slot used i = (if used i = Inr True then free_slot used (Suc i)
     else Some (case used i of Inl e \<Rightarrow> Inl e | Inr b \<Rightarrow> Inr i))"

text \<open>A numbered list of entries in NVRAM variables.\<close>

locale entry_list =
  fixes entry_name :: "nat \<Rightarrow> string"
    and used :: "nvram_state \<Rightarrow> nat \<Rightarrow> fault + bool"
  assumes name_inj: "entry_name i = entry_name j \<Longrightarrow> i = j"
    and undefined_unused: "nvram_get st (entry_name i) = None \<Longrightarrow> used st i = Inr False"
begin

lemma some_unused:
  assumes "finite (dom (nvram_get st))"
  shows "\<exists>j\<ge>i. used st j \<noteq> Inr True"
proof (rule ccontr)
  assume "\<not> ?thesis"
  then have "nvram_get st (entry_name j) \<noteq> None" if "i \<le> j" for j using that undefined_unused by fastforce
  then have "entry_name ` {i..} \<subseteq> dom (nvram_get st)" by auto
  then have "finite (entry_name ` {i..})" using assms by (rule finite_subset)
  moreover have "inj_on entry_name {i..}" by (auto simp: inj_on_def dest: name_inj)
  ultimately show False by (auto dest: finite_imageD simp: infinite_Ici)
qed

lemma free_slot_step:
  assumes "i \<le> m" "\<forall>j. i \<le> j \<and> j < m \<longrightarrow> used st j = Inr True" "used st m \<noteq> Inr True"
  shows "free_slot (used st) i = Some (case used st m of Inl e \<Rightarrow> Inl e | Inr b \<Rightarrow> Inr m)"
  using assms
proof (induction "m - i" arbitrary: i)
  case 0
  then have "m = i" by simp
  then show ?case using 0 by (subst free_slot.simps) (simp split: sum.split)
next
  case (Suc d)
  have "used st i = Inr True" "d = m - Suc i" using Suc.hyps(2) Suc.prems by auto
  then show ?case using Suc.hyps(1) [of "Suc i"] Suc.hyps(2) Suc.prems by (subst free_slot.simps) auto
qed

text \<open>The search ends at the first entry that is not in use.\<close>

lemma free_slot_returns:
  assumes "finite (dom (nvram_get st))"
  shows "\<exists>m\<ge>i. (\<forall>j. i \<le> j \<and> j < m \<longrightarrow> used st j = Inr True) \<and> used st m \<noteq> Inr True \<and>
    free_slot (used st) i = Some (case used st m of Inl e \<Rightarrow> Inl e | Inr b \<Rightarrow> Inr m)"
proof -
  let ?P = "\<lambda>j. i \<le> j \<and> used st j \<noteq> Inr True"
  define m where "m = (LEAST j. ?P j)"
  have "\<exists>j. ?P j" using some_unused [OF assms, of i] by blast
  then have "?P m" unfolding m_def by (rule LeastI_ex)
  moreover have "\<not> ?P j" if "j < m" for j using that unfolding m_def by (rule not_less_Least)
  ultimately show ?thesis using free_slot_step [of i m st] by blast
qed

end

definition in_use :: "fault + 'a option \<Rightarrow> fault + bool" where
  "in_use r = (case r of Inl e \<Rightarrow> Inl e | Inr x \<Rightarrow> Inr (x \<noteq> None))"

lemma with_value_undefined: "nvram_get st name = None \<Longrightarrow> with_value st name parse = Inr None"
  by (simp add: with_value_def nvram_invmatch_def)

interpretation forwards: entry_list forward_name "\<lambda>st i. in_use (get_forward_port st i)"
  by unfold_locales (simp_all add: forward_name_def dec_inj in_use_def get_forward_port_def with_value_undefined)

interpretation filters: entry_list filter_name "\<lambda>st i. in_use (get_filter_client same st i)" for same
  by unfold_locales (simp_all add: filter_name_def dec_inj in_use_def get_filter_client_def with_value_undefined)

interpretation autofws: entry_list autofw_name "\<lambda>st i. in_use (get_autofw_port st i)"
  by unfold_locales (simp_all add: autofw_name_def dec_inj in_use_def get_autofw_port_def with_value_undefined)

lemma finite_nvram:
  assumes "nvram_inv st"
  shows "finite (dom (nvram_get st))"
proof (rule finite_subset)
  have "lookup ts n = Some v \<Longrightarrow> n \<in> t_name ` set ts" for ts n v
    by (induction ts) (auto split: if_splits)
  moreover have "nvram_hash st ! hash_index n \<in> set (nvram_hash st)" for n
    using hash_index_less [of n] assms by (simp add: nvram_inv_def)
  ultimately have "n \<in> t_name ` set (concat (nvram_hash st))" if "nvram_get st n = Some v" for n v
    using that unfolding nvram_get_lookup by (metis (no_types, lifting) UN_I image_iff set_concat)
  then show "dom (nvram_get st) \<subseteq> t_name ` set (concat (nvram_hash st))" by blast
qed simp


section \<open>Properties\<close>

lemma unset_entry_get:
  assumes "nvram_inv st"
  shows "nvram_get (snd (unset_entry st n)) m = (if m = n then None else nvram_get st m)"
  using nv.get_unset [OF assms, of n m] by (simp add: unset_entry_def Let_def case_prod_unfold)

text \<open>A port forward, an application and a filter for the witnesses.\<close>

definition forward_example :: netconf_nat_t where
  "forward_example = zero_nat\<lparr>match := zero_match\<lparr>ipproto := 6, dst := zero_addr\<lparr>a_ports := (8080, 8081)\<rparr>\<rparr>,
     desc := ''web, https'', nat_ipaddr := 0xC0A80102, nat_ports := (80, 81)\<rparr>"

definition autofw_example :: netconf_app_t where
  "autofw_example = zero_app\<lparr>match := zero_match\<lparr>ipproto := 6, dst := zero_addr\<lparr>a_ports := (6660, 6670)\<rparr>\<rparr>,
     desc := ''irc'', proto := 17, dport := (1024, 1030), to := (1024, 1030)\<rparr>"

definition filter_example :: "u32 \<Rightarrow> netconf_filter_t" where
  "filter_example a = zero_filter\<lparr>match := zero_match\<lparr>ipproto := 17, dst := zero_addr\<lparr>a_ports := (53, 53)\<rparr>,
     src := \<lparr>a_ipaddr = a, a_netmask = 0xffffffff, a_ports = (0, 0xffff)\<rparr>, days := (1, 5), secs := (0, 3600)\<rparr>, desc := ''dns''\<rparr>"

lemma example_valid:
  "valid_forward_port forward_example" "desc_ok (desc forward_example)"
  "valid_autofw_port autofw_example" "desc_ok (desc autofw_example)"
  "valid_filter_client (filter_example 0xC0A80102) (filter_example 0xC0A80109)"
  "filter_addrs_ok (filter_example 0xC0A80102) (filter_example 0xC0A80109)" "desc_ok (desc (filter_example a))"
  by (simp_all add: forward_example_def autofw_example_def filter_example_def valid_forward_port_def valid_autofw_port_def
      valid_filter_client_def filter_addrs_ok_def desc_ok_def zero_nat_def zero_app_def zero_filter_def zero_match_def
      zero_addr_def range_ok_def range_size_def IPPROTO_TCP_def IPPROTO_UDP_def DESC_SIZE_def)

text \<open>C24: A valid port forward whose description has no percent sign and is shorter than its array of 40 characters,
  when it is stored with memory left, reads back with the same protocol, ports, address, enable flag and description, and no
  other variable changes; once deleted it is not returned.  (The description is used as a format string, so that one with
  a percent sign is stored differently or faults.)\<close>

theorem forward_port_roundtrip:
  assumes "nvram_inv st" "oom st = []" "valid_forward_port ent" "desc_ok (desc ent)"
  shows "\<exists>st' ent'. set_forward_port st which ent = Inr (True, st') \<and> get_forward_port st' which = Inr (Some ent') \<and>
    forward_key ent' = forward_key ent \<and> (\<forall>m. m \<noteq> forward_name which \<longrightarrow> nvram_get st' m = nvram_get st m) \<and>
    get_forward_port (snd (del_forward_port st' which)) which = Inr None"
  using forward_set_get [OF assms, of which] unset_entry_get
  by (fastforce simp: get_forward_port_def del_forward_port_def with_value_undefined)

theorem forward_port_roundtrip_witness:
  "\<exists>st' ent'. set_forward_port nvram_example 3 forward_example = Inr (True, st') \<and> get_forward_port st' 3 = Inr (Some ent') \<and>
    forward_key ent' = forward_key forward_example"
  using forward_port_roundtrip [OF nvram_example_props example_valid(1,2), of 3] by blast

text \<open>A valid application specific port forward that is stored reads back with the same protocols, port
  ranges, enable flag and description, and no other variable changes; once deleted it is not returned.\<close>

theorem autofw_port_roundtrip:
  assumes "nvram_inv st" "oom st = []" "valid_autofw_port app" "desc_ok (desc app)"
  shows "\<exists>st' app'. set_autofw_port st which app = Inr (True, st') \<and> get_autofw_port st' which = Inr (Some app') \<and>
    autofw_key app' = autofw_key app \<and> (\<forall>m. m \<noteq> autofw_name which \<longrightarrow> nvram_get st' m = nvram_get st m) \<and>
    get_autofw_port (snd (del_autofw_port st' which)) which = Inr None"
  using autofw_set_get [OF assms, of which] unset_entry_get
  by (fastforce simp: get_autofw_port_def del_autofw_port_def with_value_undefined)

theorem autofw_port_roundtrip_witness:
  "\<exists>st' app'. set_autofw_port nvram_example 0 autofw_example = Inr (True, st') \<and> get_autofw_port st' 0 = Inr (Some app') \<and>
    autofw_key app' = autofw_key autofw_example"
  using autofw_port_roundtrip [OF nvram_example_props example_valid(3,4), of 0] by blast

text \<open>A valid client filter whose netmask is zero only for any address reads back with the same address
  range, ports, protocol, days, times, enable flag and description, and no other variable changes; once
  deleted it is not returned.\<close>

theorem filter_client_roundtrip:
  assumes "nvram_inv st" "oom st = []" "valid_filter_client s e" "filter_addrs_ok s e" "desc_ok (desc s)"
  shows "\<exists>st' r. set_filter_client st which s e = Inr (True, st') \<and> get_filter_client False st' which = Inr (Some r) \<and>
    filter_key r = filter_key (s, e) \<and> (\<forall>m. m \<noteq> filter_name which \<longrightarrow> nvram_get st' m = nvram_get st m) \<and>
    get_filter_client False (snd (del_filter_client st' which)) which = Inr None"
proof -
  obtain st' r where r: "set_filter_client st which s e = Inr (True, st')" "get_filter_client False st' which = Inr (Some r)"
    "filter_key r = filter_key (s, e)" "nvram_inv st'" "\<forall>m. m \<noteq> filter_name which \<longrightarrow> nvram_get st' m = nvram_get st m"
    using filter_set_get [OF assms, of which] by blast
  have "get_filter_client False (snd (del_filter_client st' which)) which = Inr None"
    using unset_entry_get [OF r(4)] by (simp add: get_filter_client_def del_filter_client_def with_value_undefined)
  with r show ?thesis by blast
qed

theorem filter_client_roundtrip_witness:
  "\<exists>st' r. set_filter_client nvram_example 7 (filter_example 0xC0A80102) (filter_example 0xC0A80109) = Inr (True, st') \<and>
    get_filter_client False st' 7 = Inr (Some r) \<and> filter_key r = filter_key (filter_example 0xC0A80102, filter_example 0xC0A80109)"
  using filter_client_roundtrip [OF nvram_example_props example_valid(5-7), of 7] by blast

text \<open>The search for an unused or invalid entry always ends, at the first entry that the get operation
  does not return, or with the fault of reading it.\<close>

theorem free_entry_found:
  assumes "nvram_inv st"
  shows "(\<exists>m. (\<forall>j<m. in_use (get_forward_port st j) = Inr True) \<and> in_use (get_forward_port st m) \<noteq> Inr True \<and>
      free_slot (\<lambda>i. in_use (get_forward_port st i)) 0 = Some (bindE (in_use (get_forward_port st m)) (\<lambda>b. Inr m))) \<and>
    (\<exists>m. (\<forall>j<m. in_use (get_filter_client same st j) = Inr True) \<and> in_use (get_filter_client same st m) \<noteq> Inr True \<and>
      free_slot (\<lambda>i. in_use (get_filter_client same st i)) 0 = Some (bindE (in_use (get_filter_client same st m)) (\<lambda>b. Inr m)))"
  using forwards.free_slot_returns [OF finite_nvram [OF assms], of 0] filters.free_slot_returns [OF finite_nvram [OF assms], of 0 same]
  unfolding bindE_def by simp

theorem free_entry_found_witness:
  "\<exists>r. free_slot (\<lambda>i. in_use (get_forward_port nvram_example i)) 0 = Some r"
  using free_entry_found [OF nvram_example_props(1)] by blast

lemma wds_text_fields:
  assumes "CHR '','' \<notin> set mac \<union> set role \<union> set crypto" "CHR '','' \<notin> set ssid"
  shows "parse_wds (mac @ CHR '','' # role @ CHR '','' # crypto @ CHR '','' # ''psk,'' @ ssid @ CHR '','' # rest) =
    Some (mac, role, crypto, ''psk'', ssid, rest)"
proof -
  have s: "strsep '','' (a @ CHR '','' # b) = (a, Some b)" if "CHR '','' \<notin> set a" for a b
    using that by (subst strsep_hit) auto
  have "strsep '','' (''psk,'' @ ssid @ CHR '','' # rest) = (''psk'', Some (ssid @ CHR '','' # rest))"
    using s [of "''psk''" "ssid @ CHR '','' # rest"] by simp
  then show ?thesis using assms by (simp add: parse_wds_def s)
qed

text \<open>The parameters of a WDS link read back as stored when the link address, role and cipher have no
  comma; the SSID is cut at its first comma and the rest is taken for part of the passphrase.\<close>

theorem wds_roundtrip:
  assumes "nvram_inv st" "oom st = []" "CHR '','' \<notin> set mac \<union> set role \<union> set crypto" "CHR '','' \<notin> set ssid"
    and "length mac + length role + length crypto + length ssid + length rest + 8 < VALUE_SIZE"
  shows "\<exists>st'. set_wds_wsec st unit which mac role crypto ''psk'' ssid rest = (True, st') \<and>
    get_wds_wsec st' unit which = Inr (Some (mac, role, crypto, ''psk'', ssid, rest)) \<and>
    (rest = a @ CHR '','' # b \<longrightarrow>
      set_wds_wsec st unit which mac role crypto ''psk'' (ssid @ CHR '','' # a) b = (True, st')) \<and>
    (\<forall>m. m \<noteq> wds_name unit which \<longrightarrow> nvram_get st' m = nvram_get st m)"
proof -
  let ?v = "mac @ CHR '','' # role @ CHR '','' # crypto @ CHR '','' # ''psk,'' @ ssid @ CHR '','' # rest"
  obtain r st' where eq: "nvram_set st (wds_name unit which) ?v = (r, st')" by force
  have r: "r = 0" using nvram_set_ok [OF assms(2), of "wds_name unit which" ?v] eq by simp
  have g: "nvram_get st' m = (if m = wds_name unit which then Some ?v else nvram_get st m)" for m
    using nv.get_set [OF assms(1), of "wds_name unit which" ?v m] eq r by simp
  have "set_wds_wsec st unit which mac role crypto ''psk'' x y = (True, st')" if "x @ CHR '','' # y = ssid @ CHR '','' # rest" for x y
  proof -
    have "length (x @ CHR '','' # y) = length ssid + length rest + 1" using that by simp
    then show ?thesis using that assms(5) eq r by (simp add: set_wds_wsec_def snprintf_def VALUE_SIZE_def Let_def)
  qed
  from this [of ssid rest] this [of "ssid @ CHR '','' # a" b] show ?thesis
    using g wds_text_fields [OF assms(3,4)] assms(5) by (auto simp: get_wds_wsec_def nvram_safe_get_def VALUE_SIZE_def)
qed

theorem wds_roundtrip_witness:
  "\<exists>st'. set_wds_wsec nvram_example 0 1 ''00:11:22:33:44:55'' ''auto'' ''tkip'' ''psk'' ''home,net'' ''secret12'' = (True, st') \<and>
    get_wds_wsec st' 0 1 = Inr (Some (''00:11:22:33:44:55'', ''auto'', ''tkip'', ''psk'', ''home'', ''net,secret12''))"
  using wds_roundtrip [OF nvram_example_props, of "''00:11:22:33:44:55''" "''auto''" "''tkip''" "''home''" "''net,secret12''" 0 1 "''net''" "''secret12''"]
  by (auto simp: VALUE_SIZE_def)

lemma print_pieces_format:
  assumes "length (concat ps) \<le> 900" "format0 d = Inl Format" "length d < DESC_SIZE"
  shows "print_pieces ps d = Inl Format"
proof -
  have "int (length (concat ps)) < int VALUE_SIZE" using assms(1) by (simp add: VALUE_SIZE_def)
  from eachE_safe_snprintf [OF this, of "''''"] show ?thesis
    using assms by (auto simp: print_pieces_def print_desc_def safe_snprintf_def VALUE_SIZE_def)
qed

text \<open>A description with a conversion such as \<open>%s\<close> is used as a format without arguments: storing a
  valid port forward with it is a format fault.\<close>

theorem forward_desc_format:
  assumes "valid_forward_port ent" "format0 (desc ent) = Inl Format" "length (desc ent) < DESC_SIZE"
  shows "set_forward_port st which ent = Inl Format"
proof -
  have "length (concat (print_range (a_ports (dst (match ent))) @ [''>'', inet_ntoa (nat_ipaddr ent), '':''] @
      print_range (nat_ports ent) @ ['',''] @ print_proto (ipproto (match ent)) @ ['','', print_enable (flags (match ent))])) \<le> 900"
    using text_lengths(1) [of "a_ports (dst (match ent))"] text_lengths(1) [of "nat_ports ent"] text_lengths(3) [of "ipproto (match ent)"]
      text_lengths(4) [of "flags (match ent)"] inet_ntoa_length [of "nat_ipaddr ent"]
    unfolding concat_append texts by simp
  from print_pieces_format [OF this assms(2,3)] show ?thesis
    using assms(1) by (simp add: set_forward_port_def store_value_def print_forward_port_def)
qed

theorem forward_desc_format_witness:
  "set_forward_port nvram_example 0 (forward_example\<lparr>desc := ''100%s''\<rparr>) = Inl Format"
  by (rule forward_desc_format) (use example_valid(1) in \<open>simp_all add: valid_forward_port_def DESC_SIZE_def\<close>)

end
