(* ===== verification/Nvparse_Convert.thy ===== *)
theory Nvparse_Convert
  imports Nvparse
begin

text \<open>
  The conversion of deprecated NVRAM variables at start-up: the convert_ functions of
  src/broadcom/src/router/shared/nvparse.c.  The assertions are compiled in; one that fails ends the
  program (\<open>Abort\<close>).
\<close>

section \<open>Port forwards and filters\<close>

text \<open>The search from entry i and the store in the entry it finds.\<close>

definition place :: "('s \<Rightarrow> nat \<Rightarrow> fault + bool) \<Rightarrow> ('s \<Rightarrow> nat \<Rightarrow> 'e \<Rightarrow> fault + bool \<times> 's) \<Rightarrow> nat \<Rightarrow> 'e \<Rightarrow> 's \<Rightarrow> fault + nat \<times> 's" where
  "place used put i e st = (case free_slot (used st) i of
     None \<Rightarrow> Inl Diverge
   | Some r \<Rightarrow> bindE r (\<lambda>j. bindE (put st j e) (\<lambda>(valid, st'). if valid then Inr (j, st') else Inl Abort)))"

definition place_forward :: "nat \<Rightarrow> netconf_nat_t \<Rightarrow> nvram_state \<Rightarrow> fault + nat \<times> nvram_state" where
  "place_forward = place (\<lambda>st i. in_use (get_forward_port st i)) set_forward_port"

text \<open>The search for a filter passes one structure for both results.\<close>

definition place_filter :: "nat \<Rightarrow> netconf_filter_t \<times> netconf_filter_t \<Rightarrow> nvram_state \<Rightarrow> fault + nat \<times> nvram_state" where
  "place_filter = place (\<lambda>st i. in_use (get_filter_client True st i)) (\<lambda>st i (s, e). set_filter_client st i s e)"

text \<open>\<open>wan_port0-wan_port1>lan_ipaddr:lan_port0-lan_port1\<close>; None: the word is skipped.\<close>

definition old_forward :: "int \<Rightarrow> string \<Rightarrow> netconf_nat_t option" where
  "old_forward prot var = do {
     let (wan_port0, r) = strsep ''>'' var;
     lan_ipaddr \<leftarrow> r;
     let (lan_ipaddr, r) = strsep '':'' lan_ipaddr;
     lan_port0 \<leftarrow> r;
     Some (zero_nat\<lparr>match := zero_match\<lparr>ipproto := prot, dst := zero_addr\<lparr>a_ports := parse_range wan_port0\<rparr>\<rparr>,
             nat_ipaddr := inet_aton_to lan_ipaddr 0, nat_ports := parse_range lan_port0\<rparr>)
   }"

definition convert_forward_proto :: "string \<Rightarrow> int \<Rightarrow> nvram_state \<Rightarrow> fault + nvram_state" where
  "convert_forward_proto name prot st =
     bindE (foreach 1000 (\<lambda>var st. case old_forward prot var of None \<Rightarrow> Inr st
              | Some ent \<Rightarrow> bindE (place_forward 0 ent st) (\<lambda>r. Inr (snd r))) (nvram_safe_get st name) st)
       (\<lambda>st. Inr (snd (nvram_unset st name)))"

text \<open>\<open>lan_ipaddr0-lan_ipaddr1\<close>\<close>

definition old_filter_ip :: "int \<Rightarrow> string \<Rightarrow> (netconf_filter_t \<times> netconf_filter_t) option" where
  "old_filter_ip prot var = do {
     let (lan_ipaddr0, r) = strsep ''-'' var;
     lan_ipaddr1 \<leftarrow> r;
     let m = zero_match\<lparr>ipproto := prot, dst := zero_addr\<lparr>a_ports := (0, 0xffff)\<rparr>,
               src := \<lparr>a_ipaddr = inet_aton_to lan_ipaddr0 0, a_netmask = 0xffffffff, a_ports = (0, 0)\<rparr>\<rparr>;
     Some (zero_filter\<lparr>match := m\<rparr>,
           zero_filter\<lparr>match := m\<lparr>src := (src m)\<lparr>a_ipaddr := inet_aton_to lan_ipaddr1 (a_ipaddr (src m))\<rparr>\<rparr>\<rparr>)
   }"

definition convert_filter_ip :: "nvram_state \<Rightarrow> fault + nvram_state" where
  "convert_filter_ip st =
     bindE (foreach 1000 (\<lambda>var st. case (old_filter_ip IPPROTO_TCP var, old_filter_ip IPPROTO_UDP var) of
              (Some tcp, Some udp) \<Rightarrow>
                bindE (place_filter 0 tcp st) (\<lambda>(i, st). bindE (place_filter i udp st) (\<lambda>r. Inr (snd r)))
            | _ \<Rightarrow> Inr st) (nvram_safe_get st ''filter_ip'') st)
       (\<lambda>st. Inr (snd (nvram_unset st ''filter_ip'')))"

text \<open>\<open>[lan_ipaddr|*]:lan_port0-lan_port1\<close>\<close>

definition old_filter_proto :: "int \<Rightarrow> string \<Rightarrow> (netconf_filter_t \<times> netconf_filter_t) option" where
  "old_filter_proto prot var = do {
     let (lan_ipaddr, r) = strsep '':'' var;
     lan_port0 \<leftarrow> r;
     let (lan_port0, r) = strsep ''-'' lan_port0;
     lan_port1 \<leftarrow> r;
     let s = zero_filter\<lparr>match := zero_match\<lparr>ipproto := prot,
               dst := zero_addr\<lparr>a_ports := (word_of_int (atoi lan_port0), word_of_int (atoi lan_port1))\<rparr>,
               src := \<lparr>a_ipaddr = inet_aton_to lan_ipaddr 0, a_netmask = 0xffffffff, a_ports = (0, 0)\<rparr>\<rparr>\<rparr>;
     Some (s, s)
   }"

definition convert_filter_proto :: "string \<Rightarrow> int \<Rightarrow> nvram_state \<Rightarrow> fault + nvram_state" where
  "convert_filter_proto name prot st =
     bindE (foreach 1000 (\<lambda>var st. case old_filter_proto prot var of None \<Rightarrow> Inr st
              | Some f \<Rightarrow> bindE (place_filter 0 f st) (\<lambda>r. Inr (snd r))) (nvram_safe_get st name) st)
       (\<lambda>st. Inr (snd (nvram_unset st name)))"

text \<open>\<open>colon = strchr(value, ':')\<close>: the value before it is advanced, and after.\<close>

definition colon_field :: "string \<Rightarrow> (string \<times> string) option" where
  "colon_field v = (case strchr v (CHR '':'') of None \<Rightarrow> None | Some c \<Rightarrow> Some (v, tl c))"

definition last_byte :: "u32 \<Rightarrow> string \<Rightarrow> u32" where
  "last_byte a v = (a AND NOT 0xff) OR strtoul0 v"

text \<open>\<open>id:active:flags:from_ip:to_ip:from_port:to_port:protocol:always:from_day:to_day:from_time:to_time\<close>;
  None is the label fail.\<close>

definition old_filter_port :: "u32 \<Rightarrow> string \<Rightarrow> (netconf_filter_t \<times> netconf_filter_t) option" where
  "old_filter_port lan_ipaddr value = do {
     (ident, v) \<leftarrow> colon_field value;
     (active, v) \<leftarrow> colon_field v;
     (unused, v) \<leftarrow> colon_field v;
     (from_ip, v) \<leftarrow> colon_field v;
     (to_ip, v) \<leftarrow> colon_field v;
     (from_port, v) \<leftarrow> colon_field v;
     (to_port, v) \<leftarrow> colon_field v;
     (protocol, v) \<leftarrow> colon_field v;
     (always, v) \<leftarrow> colon_field v;
     let m = zero_match\<lparr>ipproto := sint (strtoul0 protocol),
               dst := zero_addr\<lparr>a_ports := (ucast (strtoul0 from_port), ucast (strtoul0 to_port))\<rparr>,
               flags := (if strtoul0 active = 0 then NETCONF_DISABLED else 0)\<rparr>;
     m \<leftarrow> (if strtoul0 always \<noteq> 0 then Some m else do {
       (from_day, v) \<leftarrow> colon_field v;
       (to_day, v) \<leftarrow> colon_field v;
       (from_time, v) \<leftarrow> colon_field v;
       Some (m\<lparr>days := (strtoul0 from_day, strtoul0 to_day), secs := (strtoul0 from_time, strtoul0 v)\<rparr>)
     });
     Some (zero_filter\<lparr>match := m\<lparr>src := zero_addr\<lparr>a_ipaddr := last_byte lan_ipaddr from_ip\<rparr>\<rparr>\<rparr>,
           zero_filter\<lparr>match := m\<lparr>src := zero_addr\<lparr>a_ipaddr := last_byte lan_ipaddr to_ip\<rparr>\<rparr>\<rparr>)
   }"

definition filter_port_name :: "nat \<Rightarrow> string" where
  "filter_port_name i = ''filter_port'' @ dec i"

definition convert_filter_port_entry :: "nat \<Rightarrow> nvram_state \<Rightarrow> fault + nvram_state" where
  "convert_filter_port_entry i st = (let name = filter_port_name i; value = nvram_safe_get st name in
     bindE (case (if value = '''' then None
                  else old_filter_port (inet_aton_to (nvram_safe_get st ''lan_ipaddr'') 0) value) of
              None \<Rightarrow> Inr st
            | Some f \<Rightarrow> bindE (place_filter 0 f st) (\<lambda>r. Inr (snd r)))
       (\<lambda>st. Inr (snd (nvram_unset st name))))"

definition convert_filter_port :: "nvram_state \<Rightarrow> fault + nvram_state" where
  "convert_filter_port st = bindE (eachE convert_filter_port_entry [1..<7] st)
     (\<lambda>st. Inr (snd (nvram_unset st ''filter_port'')))"

section \<open>Other variables\<close>

definition set_value :: "string \<Rightarrow> string \<Rightarrow> nvram_state \<Rightarrow> nvram_state" where
  "set_value n v st = snd (nvram_set st n v)"

definition unset_value :: "string \<Rightarrow> nvram_state \<Rightarrow> nvram_state" where
  "unset_value n st = snd (nvram_unset st n)"

definition convert_maclist :: "string \<Rightarrow> nvram_state \<Rightarrow> nvram_state" where
  "convert_maclist pfx st = (case nvram_get st (pfx @ ''_mac'') of
     None \<Rightarrow> st
   | Some v \<Rightarrow>
       let st = set_value (pfx @ ''_maclist'') v st;
           st = (if v = '''' then set_value (pfx @ ''_macmode'') ''disabled'' st else st)
       in unset_value (pfx @ ''_mac'') st)"

text \<open>Entry i of the ten entries: None of the fields is the label fail; an outbound port range is the new
  format already.\<close>

definition convert_autofw_entry :: "nat \<Rightarrow> nvram_state \<Rightarrow> fault + nvram_state" where
  "convert_autofw_entry i st = (let name = autofw_name i in
     if \<not> nvram_invmatch st name '''' then Inr (unset_value name st)
     else let value = nvram_safe_get st name in
       if VALUE_SIZE \<le> length value then Inl Overrun else
       (case autofw_fields value of
          None \<Rightarrow> Inr (unset_value name st)
        | Some (out_proto, out_start, in_proto, in_start, to_start, enable, d) \<Rightarrow>
            if snd (strsep ''-'' out_start) \<noteq> None then Inr st
            else (case autofw_fill st (out_proto, out_start, in_proto, in_start, to_start, enable, d) of
                None \<Rightarrow> Inr (unset_value name st)
              | Some app \<Rightarrow> bindE (set_autofw_port st i app) (\<lambda>(valid, st'). if valid then Inr st' else Inl Abort))))"

definition convert_autofw_port :: "nvram_state \<Rightarrow> fault + nvram_state" where
  "convert_autofw_port = eachE convert_autofw_entry [0..<10]"

definition pppoe_old :: "string list" where
  "pppoe_old = [''pppoe_ifname'', ''pppoe_username'', ''pppoe_passwd'', ''pppoe_idletime'', ''pppoe_keepalive'',
     ''pppoe_demand'', ''pppoe_mru'', ''pppoe_mtu'', ''pppoe_service'', ''pppoe_ac'']"

definition convert_pppoe_entry :: "string \<Rightarrow> nvram_state \<Rightarrow> nvram_state" where
  "convert_pppoe_entry old st = (case nvram_get st old of
     None \<Rightarrow> st
   | Some v \<Rightarrow> unset_value old (set_value (snprintf 29 (''wan_'' @ old)) v st))"

definition convert_pppoe :: "nvram_state \<Rightarrow> nvram_state" where
  "convert_pppoe st = fold convert_pppoe_entry pppoe_old st"

text \<open>\<open>ipaddr:netmask:gateway:metric:ifname\<close>\<close>

definition route_fields :: "string \<Rightarrow> (string \<times> string \<times> string \<times> string \<times> string) option" where
  "route_fields word = do {
     let (ipaddr, r) = strsep '':'' word;
     netmask \<leftarrow> r;
     let (netmask, r) = strsep '':'' netmask;
     gateway \<leftarrow> r;
     let (gateway, r) = strsep '':'' gateway;
     metric \<leftarrow> r;
     let (metric, r) = strsep '':'' metric;
     ifname \<leftarrow> r;
     Some (ipaddr, netmask, gateway, metric, ifname)
   }"

definition add_route :: "string \<times> string \<times> string \<times> string \<Rightarrow> string \<times> int \<Rightarrow> fault + string \<times> int" where
  "add_route r cur = (case r of (ipaddr, netmask, gateway, metric) \<Rightarrow>
     safe_snprintf ((if snd cur = int VALUE_SIZE then '''' else '' '') @
       ipaddr @ '':'' @ netmask @ '':'' @ gateway @ '':'' @ metric) cur)"

definition static_route_word :: "string \<Rightarrow> (string \<times> int) \<times> (string \<times> int) \<Rightarrow> fault + (string \<times> int) \<times> (string \<times> int)" where
  "static_route_word word cur = (case cur of (lan_cur, wan_cur) \<Rightarrow> (case route_fields word of
     None \<Rightarrow> Inr cur
   | Some (ipaddr, netmask, gateway, metric, ifname) \<Rightarrow>
       if ifname = ''lan'' then bindE (add_route (ipaddr, netmask, gateway, metric) lan_cur) (\<lambda>c. Inr (c, wan_cur))
       else if ifname = ''wan'' then bindE (add_route (ipaddr, netmask, gateway, metric) wan_cur) (\<lambda>c. Inr (lan_cur, c))
       else Inr cur))"

definition set_route :: "string \<Rightarrow> string \<times> int \<Rightarrow> nvram_state \<Rightarrow> nvram_state" where
  "set_route name cur st = (if snd cur \<noteq> int VALUE_SIZE then set_value name (fst cur) st else st)"

definition convert_static_route :: "nvram_state \<Rightarrow> fault + nvram_state" where
  "convert_static_route st =
     bindE (foreach 80 static_route_word (nvram_safe_get st ''static_route'') (('''', int VALUE_SIZE), ('''', int VALUE_SIZE)))
       (\<lambda>(lan_cur, wan_cur). Inr (unset_value ''static_route'' (set_route ''wan_route'' wan_cur (set_route ''lan_route'' lan_cur st))))"

definition MAX_NVPARSE :: nat where "MAX_NVPARSE = 256"

definition wl_var :: "nat \<Rightarrow> string \<Rightarrow> string" where
  "wl_var i n = ''wl'' @ dec i @ ''_'' @ n"

definition convert_wsec_wep :: "nat \<Rightarrow> string \<Rightarrow> nvram_state \<Rightarrow> nvram_state" where
  "convert_wsec_wep i wep st = (
     if wep \<in> {''wep'', ''restricted'', ''on''} then set_value (wl_var i ''wep'') ''enabled'' st
     else if wep \<in> {''tkip'', ''aes'', ''tkip+aes''}
     then set_value (wl_var i ''wep'') ''disabled'' (set_value (wl_var i ''crypto'') wep st)
     else if wep \<noteq> ''enabled'' then set_value (wl_var i ''wep'') ''disabled'' st else st)"

definition convert_wsec_auth :: "nat \<Rightarrow> nvram_state \<Rightarrow> nvram_state" where
  "convert_wsec_auth i st = (
     let mode = wl_var i ''auth_mode'';
         st = (if nvram_match st mode ''disabled'' then
                 if nvram_match st (wl_var i ''auth'') ''1'' then set_value mode ''shared'' st else set_value mode ''open'' st
               else st);
         st = (if nvram_match st mode ''shared'' then set_value (wl_var i ''auth'') ''1'' st else st);
         st = (if nvram_match st mode ''wpa'' then set_value (wl_var i ''akm'') ''wpa'' st
               else if nvram_match st mode ''psk'' then set_value (wl_var i ''akm'') ''psk'' st else st)
     in if nvram_invmatch st mode ''radius'' then set_value mode ''none'' st else st)"

definition convert_wsec_unit :: "nat \<Rightarrow> nvram_state \<Rightarrow> nvram_state" where
  "convert_wsec_unit i st = (case nvram_get st (wl_var i ''wep'') of
     None \<Rightarrow> st | Some wep \<Rightarrow> convert_wsec_auth i (convert_wsec_wep i wep st))"

definition convert_wsec :: "nvram_state \<Rightarrow> nvram_state" where
  "convert_wsec = fold convert_wsec_unit [0..<MAX_NVPARSE]"

section \<open>The conversion\<close>

definition convert_pppoe_ifname :: "nvram_state \<Rightarrow> nvram_state" where
  "convert_pppoe_ifname st = unset_value ''pppoe_ifname''
     (if nvram_invmatch st ''pppoe_ifname'' '''' \<and> nvram_match st ''wan_proto'' ''pppoe''
      then set_value ''wan_ifname'' (nvram_safe_get st ''pppoe_ifname'') st else st)"

definition convert_deprecated :: "nvram_state \<Rightarrow> fault + nvram_state" where
  "convert_deprecated st =
     bindE (convert_forward_proto ''forward_tcp'' IPPROTO_TCP st) (\<lambda>st.
     bindE (convert_forward_proto ''forward_udp'' IPPROTO_UDP st) (\<lambda>st.
     bindE (convert_filter_ip st) (\<lambda>st.
     bindE (convert_filter_proto ''filter_tcp'' IPPROTO_TCP st) (\<lambda>st.
     bindE (convert_filter_proto ''filter_udp'' IPPROTO_UDP st) (\<lambda>st.
     bindE (convert_filter_port st) (\<lambda>st.
     bindE (convert_autofw_port (convert_pppoe_ifname (convert_maclist ''wl'' (convert_maclist ''filter'' st)))) (\<lambda>st.
     bindE (convert_static_route (convert_pppoe st)) (\<lambda>st.
     Inr (convert_wsec st)))))))))"

section \<open>Sets and unsets\<close>

text \<open>A store that is well-formed and has memory.\<close>

definition nv_ok :: "nvram_state \<Rightarrow> bool" where
  "nv_ok st = (nvram_inv st \<and> oom st = [])"

lemma nv_ok_example: "nv_ok nvram_example"
  using nvram_example_props by (simp add: nv_ok_def)

lemma nvram_unset_oom: "oom (snd (nvram_unset st n)) = oom st"
  by (simp add: nvram_unset_def bury_def set_bucket_def Let_def split: option.split)

lemma nv_ok_set [simp]: "nv_ok st \<Longrightarrow> nv_ok (set_value n v st)"
  using nvram_set_ok nv.set_inv by (simp add: nv_ok_def set_value_def)

lemma nv_ok_unset [simp]: "nv_ok st \<Longrightarrow> nv_ok (unset_value n st)"
  using nv.unset_inv by (simp add: nv_ok_def unset_value_def nvram_unset_oom)

lemma get_set_value [simp]: "nv_ok st \<Longrightarrow> nvram_get (set_value n v st) m = (if m = n then Some v else nvram_get st m)"
  using nv.get_set [of st n v m] nvram_set_ok [of st n v] by (simp add: nv_ok_def set_value_def)

lemma get_unset_value [simp]: "nv_ok st \<Longrightarrow> nvram_get (unset_value n st) m = (if m = n then None else nvram_get st m)"
  using nv.get_unset [of st n m] by (simp add: nv_ok_def unset_value_def)

section \<open>Wireless security\<close>

lemma wl_var_eq [simp]: "wl_var i a = wl_var j b \<longleftrightarrow> i = j \<and> a = b"
proof -
  have "num_stop (CHR ''_'' # s)" for s by (simp add: num_stop_def digit_in_def)
  then have "scan_num 10 0 (dec n @ CHR ''_'' # s) = (n, CHR ''_'' # s)" for n s by (rule scan_num_dec)
  then show ?thesis by (auto simp: wl_var_def) (metis fst_conv snd_conv list.inject)+
qed

text \<open>What the conversion makes of the variables of one unit.\<close>

definition new_wep :: "string \<Rightarrow> string" where
  "new_wep w = (if w \<in> {''wep'', ''restricted'', ''on'', ''enabled''} then ''enabled'' else ''disabled'')"

definition auth_mode_3_60 :: "string option \<Rightarrow> string option \<Rightarrow> string option" where
  "auth_mode_3_60 mode auth = (if mode = Some ''disabled'' then Some (if auth = Some ''1'' then ''shared'' else ''open'') else mode)"

definition wsec_spec :: "(string \<Rightarrow> string option) \<Rightarrow> string \<Rightarrow> string option" where
  "wsec_spec g x = (case g ''wep'' of None \<Rightarrow> g x | Some w \<Rightarrow>
     let mode = auth_mode_3_60 (g ''auth_mode'') (g ''auth'') in
     if x = ''wep'' then Some (new_wep w)
     else if x = ''crypto'' \<and> w \<in> {''tkip'', ''aes'', ''tkip+aes''} then Some w
     else if x = ''auth_mode'' then (if mode = None then None else Some (if mode = Some ''radius'' then ''radius'' else ''none''))
     else if x = ''auth'' \<and> mode = Some ''shared'' then Some ''1''
     else if x = ''akm'' \<and> mode \<in> {Some ''wpa'', Some ''psk''} then mode
     else g x)"

lemma convert_wsec_wep_get:
  "nv_ok st \<Longrightarrow> nv_ok (convert_wsec_wep i w st) \<and> nvram_get (convert_wsec_wep i w st) m =
    (if m = wl_var i ''wep'' \<and> w \<noteq> ''enabled'' then Some (new_wep w)
     else if m = wl_var i ''crypto'' \<and> w \<in> {''tkip'', ''aes'', ''tkip+aes''} then Some w else nvram_get st m)"
  by (simp add: convert_wsec_wep_def new_wep_def)

lemma convert_wsec_auth_get:
  assumes "nv_ok st"
  shows "nv_ok (convert_wsec_auth i st) \<and> nvram_get (convert_wsec_auth i st) m =
    (let mode = auth_mode_3_60 (nvram_get st (wl_var i ''auth_mode'')) (nvram_get st (wl_var i ''auth'')) in
     if m = wl_var i ''auth_mode'' then (if mode = None then None else Some (if mode = Some ''radius'' then ''radius'' else ''none''))
     else if m = wl_var i ''auth'' \<and> mode = Some ''shared'' then Some ''1''
     else if m = wl_var i ''akm'' \<and> mode \<in> {Some ''wpa'', Some ''psk''} then mode
     else nvram_get st m)"
  using assms
  by (auto simp: convert_wsec_auth_def nvram_match_def nvram_invmatch_def auth_mode_3_60_def Let_def split: option.split)

lemma convert_wsec_unit_get:
  assumes "nv_ok st"
  shows "nv_ok (convert_wsec_unit i st)"
    "nvram_get (convert_wsec_unit i st) (wl_var i x) = wsec_spec (\<lambda>x. nvram_get st (wl_var i x)) x"
    "(\<forall>x. m \<noteq> wl_var i x) \<Longrightarrow> nvram_get (convert_wsec_unit i st) m = nvram_get st m"
proof -
  have a: "nv_ok (convert_wsec_wep i w st)" for w using convert_wsec_wep_get [OF assms] by blast
  note auth = convert_wsec_auth_get [OF a]
  show "nv_ok (convert_wsec_unit i st)" using assms auth by (simp add: convert_wsec_unit_def split: option.split)
  show "nvram_get (convert_wsec_unit i st) (wl_var i x) = wsec_spec (\<lambda>x. nvram_get st (wl_var i x)) x"
  proof (cases "nvram_get st (wl_var i ''wep'')")
    case (Some w)
    then show ?thesis
      by (auto simp: convert_wsec_unit_def wsec_spec_def new_wep_def Let_def auth [THEN conjunct2]
        convert_wsec_wep_get [OF assms, THEN conjunct2])
  qed (simp add: convert_wsec_unit_def wsec_spec_def)
  show "(\<forall>x. m \<noteq> wl_var i x) \<Longrightarrow> nvram_get (convert_wsec_unit i st) m = nvram_get st m"
    using auth convert_wsec_wep_get [OF assms] by (simp add: convert_wsec_unit_def Let_def split: option.split)
qed

lemma convert_wsec_fold:
  assumes "nv_ok st" "distinct is"
  shows "nv_ok (fold convert_wsec_unit is st) \<and>
    nvram_get (fold convert_wsec_unit is st) (wl_var i x) =
      (if i \<in> set is then wsec_spec (\<lambda>x. nvram_get st (wl_var i x)) x else nvram_get st (wl_var i x)) \<and>
    ((\<forall>i x. m \<noteq> wl_var i x) \<longrightarrow> nvram_get (fold convert_wsec_unit is st) m = nvram_get st m)"
  using assms
proof (induction "is" arbitrary: st)
  case (Cons j js)
  note u = convert_wsec_unit_get [OF Cons.prems(1), where i = j]
  have "nvram_get (convert_wsec_unit j st) (wl_var i x) = nvram_get st (wl_var i x)" if "i \<noteq> j" for x
    using u(3) [of "wl_var i x"] that by simp
  then show ?case using Cons.IH [OF u(1)] Cons.prems(2) u(2,3) by (cases "i = j") auto
qed simp

lemma wsec_spec_idem: "wsec_spec (wsec_spec g) x = wsec_spec g x"
proof (cases "g ''wep''")
  case (Some w)
  have wep: "wsec_spec g ''wep'' = Some (new_wep w)" "new_wep (new_wep w) = new_wep w"
    "new_wep w \<notin> {''tkip'', ''aes'', ''tkip+aes''}"
    using Some by (simp_all add: wsec_spec_def new_wep_def Let_def)
  have mode: "wsec_spec g ''auth_mode'' \<in> {None, Some ''radius'', Some ''none''}"
    using Some by (simp add: wsec_spec_def Let_def)
  then have "auth_mode_3_60 (wsec_spec g ''auth_mode'') a = wsec_spec g ''auth_mode''" for a
    by (auto simp: auth_mode_3_60_def)
  then show ?thesis using mode wep by (subst wsec_spec_def) (auto simp: Let_def)
qed (simp add: wsec_spec_def)

lemma convert_wsec_get:
  assumes "nv_ok st"
  shows "nv_ok (convert_wsec st)"
    "nvram_get (convert_wsec st) (wl_var i x) =
      (if i < 256 then wsec_spec (\<lambda>x. nvram_get st (wl_var i x)) x else nvram_get st (wl_var i x))"
    "(\<forall>i x. m \<noteq> wl_var i x) \<Longrightarrow> nvram_get (convert_wsec st) m = nvram_get st m"
  using convert_wsec_fold [OF assms, of "[0..<MAX_NVPARSE]"] by (simp_all add: convert_wsec_def MAX_NVPARSE_def)

lemma convert_wsec_same:
  assumes "nv_ok st" "nv_ok st'" "nvram_get st = nvram_get st'"
  shows "nvram_get (convert_wsec st) = nvram_get (convert_wsec st')"
proof
  fix m
  show "nvram_get (convert_wsec st) m = nvram_get (convert_wsec st') m"
    using convert_wsec_get(2,3) [OF assms(1)] convert_wsec_get(2,3) [OF assms(2)] assms(3)
    by (cases "\<exists>i x. m = wl_var i x") auto
qed

lemma convert_wsec_twice:
  assumes "nv_ok st"
  shows "nvram_get (convert_wsec (convert_wsec st)) = nvram_get (convert_wsec st)"
proof
  fix m
  note f = convert_wsec_get [OF assms] and g = convert_wsec_get [OF convert_wsec_get(1) [OF assms]]
  show "nvram_get (convert_wsec (convert_wsec st)) m = nvram_get (convert_wsec st) m"
  proof (cases "\<exists>i x. m = wl_var i x")
    case True
    then obtain i x where m: "m = wl_var i x" by blast
    have "(\<lambda>x. nvram_get (convert_wsec st) (wl_var i x)) =
        (if i < 256 then wsec_spec (\<lambda>x. nvram_get st (wl_var i x)) else (\<lambda>x. nvram_get st (wl_var i x)))"
      using f(2) by auto
    then show ?thesis using g(2) [of i x] f(2) [of i x] m by (simp add: wsec_spec_idem)
  next
    case False
    then show ?thesis using f(3) g(3) by simp
  qed
qed

text \<open>C28: For each of the 256 wireless units the conversion gives the security variables the values of the
  table: WEP on or off, the WPA cipher in crypto, open or shared authentication in auth, the key
  management in akm, and only radius in auth_mode; no other variable changes, and converting again changes
  nothing.\<close>

theorem convert_wsec_correct:
  assumes "nvram_inv st" "oom st = []"
  shows "nvram_get (convert_wsec st) (wl_var i x) =
      (if i < 256 then wsec_spec (\<lambda>x. nvram_get st (wl_var i x)) x else nvram_get st (wl_var i x)) \<and>
    ((\<forall>i x. m \<noteq> wl_var i x) \<longrightarrow> nvram_get (convert_wsec st) m = nvram_get st m) \<and>
    nvram_get (convert_wsec (convert_wsec st)) = nvram_get (convert_wsec st)"
proof -
  have "nv_ok st" using assms by (simp add: nv_ok_def)
  from convert_wsec_get [OF this] convert_wsec_twice [OF this] show ?thesis by simp
qed

theorem convert_wsec_correct_witness:
  "nvram_get (convert_wsec (set_value (wl_var 1 ''wep'') ''tkip'' nvram_example)) (wl_var 1 ''crypto'') = Some ''tkip''"
proof -
  let ?st = "set_value (wl_var 1 ''wep'') ''tkip'' nvram_example"
  have "nvram_inv ?st" "oom ?st = []" using nv_ok_set [OF nv_ok_example] by (simp_all only: nv_ok_def)
  from convert_wsec_correct [OF this, of 1 "''crypto''"] show ?thesis
    using nv_ok_example by (simp add: wsec_spec_def Let_def)
qed

section \<open>Placing entries\<close>

text \<open>The contract of a list of entries: an entry that is stored is returned with its key and in use, and a
  stored entry leaves the others alone.\<close>

locale entry_store = entry_list +
  fixes get :: "nvram_state \<Rightarrow> nat \<Rightarrow> fault + 'e option"
    and put :: "nvram_state \<Rightarrow> nat \<Rightarrow> 'e \<Rightarrow> fault + bool \<times> nvram_state"
    and storable :: "'e \<Rightarrow> bool"
    and key :: "'e \<Rightarrow> 'k"
  assumes put_get: "nv_ok st \<Longrightarrow> storable e \<Longrightarrow> \<exists>st' e'. put st i e = Inr (True, st') \<and> get st' i = Inr (Some e') \<and>
      key e' = key e \<and> nv_ok st' \<and> (\<forall>m. m \<noteq> entry_name i \<longrightarrow> nvram_get st' m = nvram_get st m)"
    and get_used: "get st i = Inr (Some e) \<Longrightarrow> used st i = Inr True"
    and used_local: "nvram_get st (entry_name i) = nvram_get st' (entry_name i) \<Longrightarrow>
      nvram_get st ''lan_ifname'' = nvram_get st' ''lan_ifname'' \<Longrightarrow> used st i = used st' i"
    and get_local: "nvram_get st (entry_name i) = nvram_get st' (entry_name i) \<Longrightarrow>
      nvram_get st ''lan_ifname'' = nvram_get st' ''lan_ifname'' \<Longrightarrow> get st i = get st' i"
    and not_lan_ifname: "entry_name i \<noteq> ''lan_ifname''"
begin

definition readable :: "nvram_state \<Rightarrow> bool" where
  "readable st = (\<forall>i. \<exists>b. used st i = Inr b)"

definition holds :: "nvram_state \<Rightarrow> 'k \<Rightarrow> bool" where
  "holds st k = (\<exists>i e. get st i = Inr (Some e) \<and> key e = k)"

text \<open>What placing entries keeps: entries in use, and every variable that is not an entry.\<close>

definition keeps :: "nvram_state \<Rightarrow> nvram_state \<Rightarrow> bool" where
  "keeps st st' = ((\<forall>i. used st i = Inr True \<longrightarrow> used st' i = Inr True \<and> get st' i = get st i) \<and>
     (\<forall>m. m \<notin> range entry_name \<longrightarrow> nvram_get st' m = nvram_get st m))"

lemma keeps_refl [simp]: "keeps st st"
  by (simp add: keeps_def)

lemma keeps_trans: "keeps a b \<Longrightarrow> keeps b c \<Longrightarrow> keeps a c"
  by (simp add: keeps_def)

lemma keeps_holds: "keeps a b \<Longrightarrow> holds a k \<Longrightarrow> holds b k"
  unfolding keeps_def holds_def using get_used by metis

lemma place_ok:
  assumes "nv_ok st" "readable st" "storable e"
  shows "\<exists>j st'. place used put i e st = Inr (j, st') \<and> nv_ok st' \<and> readable st' \<and> keeps st st' \<and> holds st' (key e)"
proof -
  have "finite (dom (nvram_get st))" using assms(1) finite_nvram by (simp add: nv_ok_def)
  from free_slot_returns [OF this, of i] assms(2) obtain m
    where m: "free_slot (used st) i = Some (Inr m)" "used st m = Inr False"
    unfolding readable_def by (metis (full_types) sum.case(2))
  obtain st' e' where p: "put st m e = Inr (True, st')" "get st' m = Inr (Some e')" "key e' = key e" "nv_ok st'"
    "\<forall>x. x \<noteq> entry_name m \<longrightarrow> nvram_get st' x = nvram_get st x" using put_get [OF assms(1,3)] by blast
  have other: "used st' j = used st j" "get st' j = get st j" if "j \<noteq> m" for j
    using used_local [of st' j st] get_local [of st' j st] p(5) name_inj [of j m] not_lan_ifname [of m] that by metis+
  have "readable st'" using assms(2) other(1) get_used [OF p(2)] unfolding readable_def by metis
  moreover have "keeps st st'" using m(2) other p(5) unfolding keeps_def by (metis Inr_inject rangeI)
  moreover have "holds st' (key e)" using p(2,3) by (auto simp: holds_def)
  ultimately show ?thesis using m(1) p(1,4) by (auto simp: place_def)
qed

text \<open>Placing the entries a list of words stands for.\<close>

lemma place_words:
  assumes "nv_ok st" "readable st" "\<forall>w\<in>set ws. length w < n \<and> (\<forall>e. old w = Some e \<longrightarrow> storable e)"
  shows "\<exists>st'. eachE (\<lambda>w s. if n \<le> length w then Inl Overrun else
      (case old w of None \<Rightarrow> Inr s | Some e \<Rightarrow> bindE (place used put 0 e s) (\<lambda>r. Inr (snd r)))) ws st = Inr st' \<and>
    nv_ok st' \<and> readable st' \<and> keeps st st' \<and> (\<forall>w\<in>set ws. \<forall>e. old w = Some e \<longrightarrow> holds st' (key e))"
  using assms
proof (induction ws arbitrary: st)
  case (Cons w ws)
  show ?case
  proof (cases "old w")
    case None
    then show ?thesis using Cons.IH [OF Cons.prems(1,2)] Cons.prems(3) by auto
  next
    case (Some e)
    obtain j s where p: "place used put 0 e st = Inr (j, s)" "nv_ok s" "readable s" "keeps st s" "holds s (key e)"
      using place_ok [OF Cons.prems(1,2), of e 0] Cons.prems(3) Some by auto
    obtain st' where st': "eachE (\<lambda>w s. if n \<le> length w then Inl Overrun else
      (case old w of None \<Rightarrow> Inr s | Some e \<Rightarrow> bindE (place used put 0 e s) (\<lambda>r. Inr (snd r)))) ws s = Inr st'"
      "nv_ok st'" "readable st'" "keeps s st'" "\<forall>w\<in>set ws. \<forall>e. old w = Some e \<longrightarrow> holds st' (key e)"
      using Cons.IH [OF p(2,3)] Cons.prems(3) by auto
    then show ?thesis using p Some Cons.prems(3) keeps_trans [OF p(4) st'(4)] keeps_holds [OF st'(4) p(5)]
      by auto
  qed
qed simp

end

definition storable_forward :: "netconf_nat_t \<Rightarrow> bool" where
  "storable_forward ent = (valid_forward_port ent \<and> desc_ok (desc ent))"

definition storable_filter :: "netconf_filter_t \<times> netconf_filter_t \<Rightarrow> bool" where
  "storable_filter se = (case se of (s, e) \<Rightarrow> valid_filter_client s e \<and> filter_addrs_ok s e \<and> desc_ok (desc s))"

lemma with_value_local:
  assumes "nvram_get st n = nvram_get st' n" "\<And>v. parse v = parse' v"
  shows "with_value st n parse = with_value st' n parse'"
  using assms by (simp add: with_value_def nvram_invmatch_def nvram_safe_get_def Let_def)

lemma parse_filter_local:
  "nvram_get st ''lan_ifname'' = nvram_get st' ''lan_ifname'' \<Longrightarrow> parse_filter_client same st v = parse_filter_client same st' v"
  by (simp add: parse_filter_client_def nvram_safe_get_def)

text \<open>A filter that is valid as two structures is valid when read into one.\<close>

lemma parse_filter_same: "parse_filter_client False st v = Some r \<Longrightarrow> \<exists>r'. parse_filter_client True st v = Some r'"
proof -
  assume parse: "parse_filter_client False st v = Some r"
  then obtain f where f: "filter_fields v = Some f" by (auto simp: parse_filter_client_def Option.bind_eq_Some_conv)
  obtain a po pr da se en d where "f = (a, po, pr, da, se, en, d)" by (cases f)
  moreover from parse f this obtain p where "parse_proto pr = Some p" by (auto simp: parse_filter_client_def Option.bind_eq_Some_conv)
  ultimately show ?thesis using parse f
    by (auto simp: parse_filter_client_def Let_def filter_addrs_def case_prod_unfold valid_filter_client_def zero_filter_def
      split: if_splits)
qed

interpretation forward_store: entry_store forward_name "\<lambda>st i. in_use (get_forward_port st i)" get_forward_port
  set_forward_port storable_forward forward_key
proof unfold_locales
  fix st st' i e
  show "nv_ok st \<Longrightarrow> storable_forward e \<Longrightarrow> \<exists>st' e'. set_forward_port st i e = Inr (True, st') \<and> get_forward_port st' i = Inr (Some e') \<and>
      forward_key e' = forward_key e \<and> nv_ok st' \<and> (\<forall>m. m \<noteq> forward_name i \<longrightarrow> nvram_get st' m = nvram_get st m)"
    using forward_set_get [of st e i] by (auto simp: storable_forward_def nv_ok_def)
  assume "nvram_get st (forward_name i) = nvram_get st' (forward_name i)"
  then show "get_forward_port st i = get_forward_port st' i" by (simp add: get_forward_port_def with_value_local [of st])
  then show "in_use (get_forward_port st i) = in_use (get_forward_port st' i)" by simp
qed (simp_all add: in_use_def forward_name_def)

interpretation filter_store: entry_store filter_name "\<lambda>st i. in_use (get_filter_client True st i)" "get_filter_client False"
  "\<lambda>st i (s, e). set_filter_client st i s e" storable_filter filter_key
proof unfold_locales
  fix st st' :: nvram_state and i and e :: "netconf_filter_t \<times> netconf_filter_t"
  show "nv_ok st \<Longrightarrow> storable_filter e \<Longrightarrow> \<exists>st' e'. (case e of (s, e) \<Rightarrow> set_filter_client st i s e) = Inr (True, st') \<and>
      get_filter_client False st' i = Inr (Some e') \<and>
      filter_key e' = filter_key e \<and> nv_ok st' \<and> (\<forall>m. m \<noteq> filter_name i \<longrightarrow> nvram_get st' m = nvram_get st m)"
    using filter_set_get [of st "fst e" "snd e" i] by (auto simp: storable_filter_def nv_ok_def case_prod_unfold simp del: split_paired_Ex)
  show "get_filter_client False st i = Inr (Some e) \<Longrightarrow> in_use (get_filter_client True st i) = Inr True"
    by (auto simp: get_filter_client_def with_value_def in_use_def Let_def dest: parse_filter_same split: if_splits)
  assume "nvram_get st (filter_name i) = nvram_get st' (filter_name i)" "nvram_get st ''lan_ifname'' = nvram_get st' ''lan_ifname''"
  then have "get_filter_client same st i = get_filter_client same st' i" for same
    by (simp add: get_filter_client_def parse_filter_local [of st st'] with_value_local [of st _ st'])
  then show "get_filter_client False st i = get_filter_client False st' i"
    "in_use (get_filter_client True st i) = in_use (get_filter_client True st' i)" by simp_all
qed (simp_all add: filter_name_def)

section \<open>Properties of the conversion\<close>

lemma nvram_unset_value: "snd (nvram_unset st n) = unset_value n st"
  by (simp add: unset_value_def)

text \<open>The values of the entries fit the buffers they are copied to.\<close>

definition entries_fit :: "(nat \<Rightarrow> string) \<Rightarrow> nvram_state \<Rightarrow> bool" where
  "entries_fit name st = (\<forall>i. length (nvram_safe_get st (name i)) < VALUE_SIZE)"

lemma readable_forwards: "entries_fit forward_name st \<Longrightarrow> forward_store.readable st"
  unfolding forward_store.readable_def by (auto simp: entries_fit_def in_use_def get_forward_port_def with_value_def Let_def) (meson leD)

lemma readable_filters: "entries_fit filter_name st \<Longrightarrow> filter_store.readable st"
  unfolding filter_store.readable_def by (auto simp: entries_fit_def in_use_def get_filter_client_def with_value_def Let_def) (meson leD)

lemma entries_fit_example: "entries_fit forward_name nvram_example" "entries_fit filter_name nvram_example"
proof -
  have "v = ''dhcp''" if "nvram_get nvram_example n = Some v" for n v
    using that hash_index_less [of n] unfolding nvram_get_lookup
    by (auto simp: nvram_example_def nth_list_update hash_index_less split: if_splits)
  then have "length v = 4" if "nvram_get nvram_example n = Some v" for n v using that by fastforce
  then have "length (nvram_safe_get nvram_example n) \<le> 4" for n
    by (cases "nvram_get nvram_example n") (simp_all add: nvram_safe_get_def)
  then have "length (nvram_safe_get nvram_example n) < VALUE_SIZE" for n
    by (rule le_less_trans) (simp add: VALUE_SIZE_def)
  then show "entries_fit forward_name nvram_example" "entries_fit filter_name nvram_example"
    by (simp_all add: entries_fit_def)
qed

lemma foreach_words_single:
  assumes "CHR '' '' \<notin> set w" "w \<noteq> []"
  shows "foreach_words w = [w]"
proof -
  have "dropWhile (\<lambda>c. c = CHR '' '') w = w" using assms by (cases w) auto
  moreover have "takeWhile (\<lambda>c. c \<noteq> CHR '' '') w = w" "dropWhile (\<lambda>c. c \<noteq> CHR '' '') w = []"
    using assms(1) by (auto simp: takeWhile_eq_all_conv)
  moreover have "foreach_words [] = []" by (subst foreach_words.simps) simp
  ultimately show ?thesis using assms(2) by (subst foreach_words.simps) (simp only: Let_def if_False)
qed

text \<open>The text of a port forward in an old list.\<close>

definition old_forward_text :: "netconf_nat_t \<Rightarrow> string" where
  "old_forward_text ent = range_text (a_ports (dst (match ent))) @ CHR ''>'' # inet_ntoa (nat_ipaddr ent) @ CHR '':'' #
     range_text (nat_ports ent)"

lemma old_forward_text:
  "CHR '' '' \<notin> set (old_forward_text ent)" "length (old_forward_text ent) < 1000" "old_forward_text ent \<noteq> []"
  "\<exists>e. old_forward p (old_forward_text ent) = Some e \<and> forward_key e =
     (p, a_ports (dst (match ent)), nat_ipaddr ent, nat_ports ent, False, [])"
proof -
  show "CHR '' '' \<notin> set (old_forward_text ent)" by (auto simp: old_forward_text_def dest: plain_fields)
  show "length (old_forward_text ent) < 1000"
    using text_lengths(1) [of "a_ports (dst (match ent))"] text_lengths(1) [of "nat_ports ent"] inet_ntoa_length [of "nat_ipaddr ent"]
    by (simp add: old_forward_text_def)
  show "old_forward_text ent \<noteq> []" by (simp add: old_forward_text_def)
  have "strsep '':'' (inet_ntoa a @ CHR '':'' # b) = (inet_ntoa a, Some b)" for a b
    by (subst strsep_hit) (auto dest: plain_fields)
  then show "\<exists>e. old_forward p (old_forward_text ent) = Some e \<and> forward_key e =
     (p, a_ports (dst (match ent)), nat_ipaddr ent, nat_ports ent, False, [])"
    by (simp add: old_forward_text_def old_forward_def strsep_fields field_simps forward_key_def zero_nat_def zero_match_def disabled_simps)
qed

text \<open>C25: The conversion of an old list of port forwards whose entries are all valid returns, stores each of
  them as an entry of its own, keeps every entry that was valid before and every other variable, and
  leaves the old list undefined.\<close>

theorem convert_forward_correct:
  assumes "nvram_inv st" "oom st = []" "entries_fit forward_name st" "name \<in> {''forward_tcp'', ''forward_udp''}"
    and "\<forall>w\<in>set (foreach_words (nvram_safe_get st name)). length w < 1000 \<and>
      (\<forall>e. old_forward p w = Some e \<longrightarrow> valid_forward_port e)"
  shows "\<exists>st'. convert_forward_proto name p st = Inr st' \<and> nvram_get st' name = None \<and>
    (\<forall>w\<in>set (foreach_words (nvram_safe_get st name)). \<forall>e. old_forward p w = Some e \<longrightarrow>
      (\<exists>i e'. get_forward_port st' i = Inr (Some e') \<and> forward_key e' = forward_key e)) \<and>
    (\<forall>i e. get_forward_port st i = Inr (Some e) \<longrightarrow> get_forward_port st' i = Inr (Some e)) \<and>
    (\<forall>m. m \<notin> range forward_name \<and> m \<noteq> name \<longrightarrow> nvram_get st' m = nvram_get st m)"
proof -
  let ?ws = "foreach_words (nvram_safe_get st name)"
  have ok: "nv_ok st" using assms(1,2) by (simp add: nv_ok_def)
  have "desc_ok (desc e)" if "old_forward p w = Some e" for w e
    using that by (auto simp: old_forward_def Let_def case_prod_unfold Option.bind_eq_Some_conv zero_nat_def desc_ok_def DESC_SIZE_def)
  then have "\<forall>w\<in>set ?ws. length w < 1000 \<and> (\<forall>e. old_forward p w = Some e \<longrightarrow> storable_forward e)"
    using assms(5) by (auto simp: storable_forward_def)
  from forward_store.place_words [OF ok readable_forwards [OF assms(3)] this] obtain st1
    where st1: "foreach 1000 (\<lambda>var st. case old_forward p var of None \<Rightarrow> Inr st
        | Some ent \<Rightarrow> bindE (place_forward 0 ent st) (\<lambda>r. Inr (snd r))) (nvram_safe_get st name) st = Inr st1"
      "nv_ok st1" "forward_store.keeps st st1" "\<forall>w\<in>set ?ws. \<forall>e. old_forward p w = Some e \<longrightarrow> forward_store.holds st1 (forward_key e)"
    unfolding foreach_def place_forward_def by auto
  have name: "forward_name i \<noteq> name" "''lan_ifname'' \<noteq> name" for i using assms(4) by (auto simp: forward_name_def)
  then have "get_forward_port (unset_value name st1) i = get_forward_port st1 i" for i
    using st1(2) by (intro forward_store.get_local) simp_all
  then show ?thesis using st1 name
    unfolding forward_store.keeps_def forward_store.holds_def
    by (auto simp: convert_forward_proto_def nvram_unset_value in_use_def)
qed


theorem convert_forward_correct_witness:
  "\<exists>st' i e. convert_forward_proto ''forward_tcp'' 6 (set_value ''forward_tcp'' (old_forward_text forward_example) nvram_example) = Inr st' \<and>
    nvram_get st' ''forward_tcp'' = None \<and> get_forward_port st' i = Inr (Some e) \<and> nat_ipaddr e = 0xC0A80102"
proof -
  let ?t = "old_forward_text forward_example"
  let ?st = "set_value ''forward_tcp'' ?t nvram_example"
  have st: "nvram_inv ?st" "oom ?st = []" using nv_ok_set [OF nv_ok_example] by (simp_all only: nv_ok_def)
  have get: "nvram_safe_get ?st ''forward_tcp'' = ?t" using nv_ok_example by (simp add: nvram_safe_get_def)
  have ws: "foreach_words ?t = [?t]" using old_forward_text by (intro foreach_words_single)
  obtain e where e: "old_forward 6 ?t = Some e" "forward_key e = (6, (8080, 8081), 0xC0A80102, (80, 81), False, [])"
    using old_forward_text(4) [of 6 forward_example] by (auto simp: forward_example_def zero_nat_def)
  have "forward_name i \<noteq> ''forward_tcp''" for i by (simp add: forward_name_def)
  then have fit: "entries_fit forward_name ?st"
    using nv_ok_example entries_fit_example(1) by (simp add: entries_fit_def nvram_safe_get_def)
  have "valid_forward_port e"
    using e(2) by (simp add: forward_key_def valid_forward_port_def range_ok_def range_size_def IPPROTO_TCP_def)
  then have "\<forall>w\<in>set (foreach_words (nvram_safe_get ?st ''forward_tcp'')). length w < 1000 \<and>
      (\<forall>e. old_forward 6 w = Some e \<longrightarrow> valid_forward_port e)"
    using get ws e(1) old_forward_text(2) [of forward_example] by simp
  from convert_forward_correct [OF st fit _ this] obtain st' where "convert_forward_proto ''forward_tcp'' 6 ?st = Inr st'"
    "nvram_get st' ''forward_tcp'' = None"
    "\<forall>w\<in>set (foreach_words (nvram_safe_get ?st ''forward_tcp'')). \<forall>e. old_forward 6 w = Some e \<longrightarrow>
      (\<exists>i e'. get_forward_port st' i = Inr (Some e') \<and> forward_key e' = forward_key e)" by auto
  moreover from this(3) obtain i e' where "get_forward_port st' i = Inr (Some e')" "forward_key e' = forward_key e"
    using get ws e(1) by auto
  moreover from this(2) have "nat_ipaddr e' = 0xC0A80102" using e(2) by (simp add: forward_key_def)
  ultimately show ?thesis by blast
qed

section \<open>No deprecated variable survives\<close>

text \<open>The variables the conversion may define.\<close>

definition current_names :: "string set" where
  "current_names = range forward_name \<union> range filter_name \<union> range autofw_name \<union> range (\<lambda>(i, x). wl_var i x) \<union>
     {''filter_maclist'', ''filter_macmode'', ''wl_maclist'', ''wl_macmode'', ''wan_ifname'', ''lan_route'', ''wan_route''} \<union>
     (\<lambda>n. snprintf 29 (''wan_'' @ n)) ` set pppoe_old"

definition deprecated_names :: "string list" where
  "deprecated_names = [''forward_tcp'', ''forward_udp'', ''filter_ip'', ''filter_tcp'', ''filter_udp'', ''filter_port'',
     ''filter_mac'', ''wl_mac'', ''static_route''] @ map filter_port_name [1..<7] @ pppoe_old"

text \<open>One state after another: outside the current names a variable keeps its value or becomes undefined.\<close>

definition ages :: "nvram_state \<Rightarrow> nvram_state \<Rightarrow> bool" where
  "ages st st' = (nv_ok st \<longrightarrow> nv_ok st' \<and> (\<forall>m. m \<notin> current_names \<longrightarrow> nvram_get st' m = nvram_get st m \<or> nvram_get st' m = None))"

lemma ages_refl [simp]: "ages st st"
  by (simp add: ages_def)

lemma ages_trans: "ages a b \<Longrightarrow> ages b c \<Longrightarrow> ages a c"
  unfolding ages_def by metis

lemma ages_set: "n \<in> current_names \<Longrightarrow> ages st (set_value n v st)"
  by (auto simp: ages_def)

lemma ages_unset: "ages st (unset_value n st)"
  by (simp add: ages_def)

lemma ages_store:
  assumes "n \<in> current_names" "store_value st n printed = Inr (b, st')"
  shows "ages st st'"
proof -
  obtain v where "st' = set_value n v st"
    using assms(2) by (cases printed) (auto simp: store_value_def set_value_def Let_def case_prod_unfold)
  then show ?thesis using ages_set [OF assms(1)] by simp
qed

lemma current_entries [simp]: "forward_name i \<in> current_names" "filter_name i \<in> current_names" "autofw_name i \<in> current_names"
  "wl_var i x \<in> current_names"
  by (auto simp: current_names_def)

lemma ages_put:
  "set_forward_port st i ent = Inr (b, st') \<Longrightarrow> ages st st'"
  "set_filter_client st i s e = Inr (b, st') \<Longrightarrow> ages st st'"
  "set_autofw_port st i app = Inr (b, st') \<Longrightarrow> ages st st'"
  by (auto simp: set_forward_port_def set_filter_client_def set_autofw_port_def dest!: ages_store [rotated] split: if_splits)

lemma ages_place:
  assumes "place used put i e st = Inr (j, st')" "\<And>i b st'. put st i e = Inr (b, st') \<Longrightarrow> ages st st'"
  shows "ages st st'"
  using assms by (auto simp: place_def bindE_Inr_iff split: option.splits if_splits)

lemma ages_place_entry:
  "place_forward i ent st = Inr (j, st') \<Longrightarrow> ages st st'"
  "place_filter i f st = Inr (j, st') \<Longrightarrow> ages st st'"
  by (auto simp: place_forward_def place_filter_def case_prod_unfold elim!: ages_place intro: ages_put)

lemma ages_eachE:
  assumes "\<And>x s s'. x \<in> set xs \<Longrightarrow> f x s = Inr s' \<Longrightarrow> ages s s'" "eachE f xs st = Inr st'"
  shows "ages st st'"
  using eachE_invariant [where I = "ages st" and s = st] assms ages_trans by (metis ages_refl)

lemma ages_foreach:
  assumes "\<And>x s s'. body x s = Inr s' \<Longrightarrow> ages s s'" "foreach n body ws st = Inr st'"
  shows "ages st st'"
  using assms unfolding foreach_def by (elim ages_eachE [rotated]) (auto split: if_splits)

lemma ages_fold: "(\<And>x s. x \<in> set xs \<Longrightarrow> ages s (f x s)) \<Longrightarrow> ages st (fold f xs st)"
  by (induction xs arbitrary: st) (auto intro: ages_trans)

lemma ages_forward_proto:
  assumes "convert_forward_proto name p st = Inr st'"
  shows "ages st st'" "nv_ok st \<Longrightarrow> nvram_get st' name = None"
proof -
  obtain s where s: "foreach 1000 (\<lambda>var st. case old_forward p var of None \<Rightarrow> Inr st
      | Some ent \<Rightarrow> bindE (place_forward 0 ent st) (\<lambda>r. Inr (snd r))) (nvram_safe_get st name) st = Inr s" "st' = unset_value name s"
    using assms by (auto simp: convert_forward_proto_def nvram_unset_value bindE_Inr_iff)
  have "ages st s" using s(1) by (rule ages_foreach [rotated]) (auto simp: bindE_Inr_iff dest: ages_place_entry split: option.splits)
  then show "ages st st'" "nv_ok st \<Longrightarrow> nvram_get st' name = None" using s(2) ages_unset ages_trans by (blast, simp add: ages_def)
qed

lemma ages_filter_ip:
  assumes "convert_filter_ip st = Inr st'"
  shows "ages st st'" "nv_ok st \<Longrightarrow> nvram_get st' ''filter_ip'' = None"
proof -
  obtain s where s: "foreach 1000 (\<lambda>var st. case (old_filter_ip IPPROTO_TCP var, old_filter_ip IPPROTO_UDP var) of
              (Some tcp, Some udp) \<Rightarrow>
                bindE (place_filter 0 tcp st) (\<lambda>(i, st). bindE (place_filter i udp st) (\<lambda>r. Inr (snd r)))
            | _ \<Rightarrow> Inr st) (nvram_safe_get st ''filter_ip'') st = Inr s" "st' = unset_value ''filter_ip'' s"
    using assms by (auto simp: convert_filter_ip_def nvram_unset_value bindE_Inr_iff)
  have "ages st s" using s(1)
    by (rule ages_foreach [rotated]) (auto simp: bindE_Inr_iff dest!: ages_place_entry intro: ages_trans split: option.splits)
  then show "ages st st'" "nv_ok st \<Longrightarrow> nvram_get st' ''filter_ip'' = None" using s(2) ages_unset ages_trans by (blast, simp add: ages_def)
qed

lemma ages_filter_proto:
  assumes "convert_filter_proto name p st = Inr st'"
  shows "ages st st'" "nv_ok st \<Longrightarrow> nvram_get st' name = None"
proof -
  obtain s where s: "foreach 1000 (\<lambda>var st. case old_filter_proto p var of None \<Rightarrow> Inr st
      | Some f \<Rightarrow> bindE (place_filter 0 f st) (\<lambda>r. Inr (snd r))) (nvram_safe_get st name) st = Inr s" "st' = unset_value name s"
    using assms by (auto simp: convert_filter_proto_def nvram_unset_value bindE_Inr_iff)
  have "ages st s" using s(1) by (rule ages_foreach [rotated]) (auto simp: bindE_Inr_iff dest: ages_place_entry split: option.splits)
  then show "ages st st'" "nv_ok st \<Longrightarrow> nvram_get st' name = None" using s(2) ages_unset ages_trans by (blast, simp add: ages_def)
qed

lemma ages_filter_port_entry:
  assumes "convert_filter_port_entry i st = Inr st'"
  shows "ages st st'" "nv_ok st \<Longrightarrow> nvram_get st' (filter_port_name i) = None"
proof -
  obtain s old where s: "(case old of None \<Rightarrow> Inr st | Some f \<Rightarrow> bindE (place_filter 0 f st) (\<lambda>r. Inr (snd r))) = Inr s"
    "st' = unset_value (filter_port_name i) s"
    using assms unfolding convert_filter_port_entry_def Let_def nvram_unset_value bindE_Inr_iff by blast
  then have "ages st s" by (auto simp: bindE_Inr_iff dest!: ages_place_entry split: option.splits)
  then show "ages st st'" "nv_ok st \<Longrightarrow> nvram_get st' (filter_port_name i) = None"
    using s(2) ages_unset ages_trans by (blast, simp add: ages_def)
qed

text \<open>A variable that one state has undefined and that is not a current name stays undefined.\<close>

lemma ages_undefined: "ages a b \<Longrightarrow> nv_ok a \<Longrightarrow> m \<notin> current_names \<Longrightarrow> nvram_get a m = None \<Longrightarrow> nvram_get b m = None"
  unfolding ages_def by metis

lemma deprecated_not_current: "n \<in> set deprecated_names \<Longrightarrow> n \<notin> current_names"
proof -
  have "dec i @ x \<noteq> CHR ''_'' # y" for i x y
  proof -
    obtain d t where "dec i = digit d # t" "d < 10" using dec_hd by blast
    moreover have "digit d \<noteq> CHR ''_''" if "d < 10" for d using of_char_digit [OF that] that by auto
    ultimately show ?thesis by simp
  qed
  note ne = this this [symmetric]
  show "n \<in> set deprecated_names \<Longrightarrow> n \<notin> current_names"
    by (auto simp: deprecated_names_def current_names_def forward_name_def filter_name_def autofw_name_def wl_var_def pppoe_old_def filter_port_name_def
        snprintf_def ne)
qed

lemma ages_filter_port:
  assumes "convert_filter_port st = Inr st'"
  shows "ages st st'" "nv_ok st \<Longrightarrow> nvram_get st' ''filter_port'' = None"
    "nv_ok st \<Longrightarrow> i \<in> {1..<7} \<Longrightarrow> nvram_get st' (filter_port_name i) = None"
proof -
  obtain s where s: "eachE convert_filter_port_entry [1..<7] st = Inr s" "st' = unset_value ''filter_port'' s"
    using assms by (auto simp: convert_filter_port_def nvram_unset_value bindE_Inr_iff)
  have "ages st s" using s(1) by (rule ages_eachE [rotated]) (rule ages_filter_port_entry)
  then show "ages st st'" "nv_ok st \<Longrightarrow> nvram_get st' ''filter_port'' = None" using s(2) ages_unset ages_trans by (blast, simp add: ages_def)
  have "nvram_get b (filter_port_name i) = None"
    if "eachE convert_filter_port_entry xs a = Inr b" "nv_ok a" "i \<in> set xs" "i \<in> {1..<7}" for xs a b
    using that
  proof (induction xs arbitrary: a)
    case (Cons x xs)
    then obtain c where c: "convert_filter_port_entry x a = Inr c" "eachE convert_filter_port_entry xs c = Inr b"
      by (auto simp: bindE_Inr_iff)
    have ok: "nv_ok c" using ages_filter_port_entry(1) [OF c(1)] Cons.prems(2) by (simp add: ages_def)
    show ?case
    proof (cases "i \<in> set xs")
      case True
      then show ?thesis using Cons.IH [OF c(2) ok] Cons.prems(4) by simp
    next
      case False
      then have "nvram_get c (filter_port_name i) = None" using ages_filter_port_entry(2) [OF c(1) Cons.prems(2)] Cons.prems(3) by simp
      moreover have "ages c b" using c(2) by (rule ages_eachE [rotated]) (rule ages_filter_port_entry)
      moreover have "filter_port_name i \<notin> current_names"
        using Cons.prems(4) by (intro deprecated_not_current) (auto simp: deprecated_names_def)
      ultimately show ?thesis using ok ages_undefined by blast
    qed
  qed simp
  from this [OF s(1)] show "nv_ok st \<Longrightarrow> i \<in> {1..<7} \<Longrightarrow> nvram_get st' (filter_port_name i) = None"
    using s(2) \<open>ages st s\<close> by (simp add: ages_def)
qed

lemma ages_maclist:
  assumes "pfx \<in> {''filter'', ''wl''}"
  shows "ages st (convert_maclist pfx st)" "nv_ok st \<Longrightarrow> nvram_get (convert_maclist pfx st) (pfx @ ''_mac'') = None"
proof -
  have "pfx @ ''_maclist'' \<in> current_names" "pfx @ ''_macmode'' \<in> current_names" using assms by (auto simp: current_names_def)
  then show "ages st (convert_maclist pfx st)"
    by (auto simp: convert_maclist_def Let_def intro!: ages_set ages_trans [OF _ ages_unset] intro: ages_trans split: option.split)
  show "nv_ok st \<Longrightarrow> nvram_get (convert_maclist pfx st) (pfx @ ''_mac'') = None"
    by (simp add: convert_maclist_def Let_def split: option.split)
qed

lemma ages_autofw_entry: "convert_autofw_entry i s = Inr s' \<Longrightarrow> ages s s'"
  by (auto simp: convert_autofw_entry_def Let_def bindE_Inr_iff dest: ages_put intro: ages_unset split: if_splits option.splits)

lemma ages_autofw: "convert_autofw_port st = Inr st' \<Longrightarrow> ages st st'"
  unfolding convert_autofw_port_def by (erule ages_eachE [rotated]) (rule ages_autofw_entry)

lemma ages_pppoe_ifname:
  "ages st (convert_pppoe_ifname st)" "nv_ok st \<Longrightarrow> nvram_get (convert_pppoe_ifname st) ''pppoe_ifname'' = None"
  by (auto simp: convert_pppoe_ifname_def current_names_def intro!: ages_trans [OF ages_set ages_unset] ages_unset)

lemma ages_pppoe:
  "ages st (convert_pppoe st)" "nv_ok st \<Longrightarrow> n \<in> set pppoe_old \<Longrightarrow> nvram_get (convert_pppoe st) n = None"
proof -
  have one: "ages s (convert_pppoe_entry x s)" if "x \<in> set pppoe_old" for x s
    using that by (auto simp: convert_pppoe_entry_def current_names_def intro!: ages_trans [OF ages_set ages_unset] split: option.split)
  then show "ages st (convert_pppoe st)" unfolding convert_pppoe_def by (rule ages_fold)
  have "nvram_get (fold convert_pppoe_entry xs s) n = None" if "n \<in> set xs" "set xs \<subseteq> set pppoe_old" "nv_ok s" for xs s
    using that
  proof (induction xs arbitrary: s)
    case (Cons x xs)
    have ok: "nv_ok (convert_pppoe_entry x s)" using one [of x s] Cons.prems(2,3) by (simp add: ages_def)
    show ?case
    proof (cases "n \<in> set xs")
      case True
      then show ?thesis using Cons.IH [OF _ _ ok] Cons.prems(2) by simp
    next
      case False
      then have "nvram_get (convert_pppoe_entry x s) n = None"
        using Cons.prems(1,3) by (simp add: convert_pppoe_entry_def split: option.split)
      moreover have "ages (convert_pppoe_entry x s) (fold convert_pppoe_entry xs (convert_pppoe_entry x s))"
        using one Cons.prems(2) by (intro ages_fold) auto
      moreover have "n \<notin> current_names" using Cons.prems(1,2) by (intro deprecated_not_current) (auto simp: deprecated_names_def)
      ultimately show ?thesis using ok ages_undefined by simp
    qed
  qed simp
  then show "nv_ok st \<Longrightarrow> n \<in> set pppoe_old \<Longrightarrow> nvram_get (convert_pppoe st) n = None" by (simp add: convert_pppoe_def)
qed

lemma ages_static_route:
  assumes "convert_static_route st = Inr st'"
  shows "ages st st'" "nv_ok st \<Longrightarrow> nvram_get st' ''static_route'' = None"
proof -
  have route: "ages s (set_route n cur s)" if "n \<in> {''lan_route'', ''wan_route''}" for n cur s
    using that by (auto simp: set_route_def current_names_def intro!: ages_set)
  obtain lan wan where "st' = unset_value ''static_route'' (set_route ''wan_route'' wan (set_route ''lan_route'' lan st))"
    using assms by (auto simp: convert_static_route_def bindE_Inr_iff)
  moreover have "ages st (set_route ''wan_route'' wan (set_route ''lan_route'' lan st))" for lan wan
    by (rule ages_trans [OF route route]) simp_all
  ultimately show "ages st st'" "nv_ok st \<Longrightarrow> nvram_get st' ''static_route'' = None"
    using ages_unset ages_trans by (blast, simp add: ages_def)
qed

lemma ages_wsec: "ages st (convert_wsec st)"
  unfolding convert_wsec_def
proof (rule ages_fold)
  fix i s
  show "ages s (convert_wsec_unit i s)"
    using convert_wsec_unit_get(1) [of s i] convert_wsec_unit_get(3) [of s _ i] unfolding ages_def
    by (metis current_entries(4))
qed

section \<open>The conversion ends\<close>

definition halts :: "fault + 'a \<Rightarrow> bool" where
  "halts r = (r \<noteq> Inl Diverge)"

lemma halts_Inr [simp]: "halts (Inr a)" "halts (Inl e) = (e \<noteq> Diverge)"
  by (simp_all add: halts_def)

lemma halts_bindE: "halts m \<Longrightarrow> (\<And>a. m = Inr a \<Longrightarrow> halts (f a)) \<Longrightarrow> halts (bindE m f)"
  by (cases m) (auto simp: halts_def)

lemma halts_eachE:
  assumes "\<And>x s. x \<in> set xs \<Longrightarrow> I s \<Longrightarrow> halts (f x s)" "\<And>x s s'. x \<in> set xs \<Longrightarrow> I s \<Longrightarrow> f x s = Inr s' \<Longrightarrow> I s'"
  shows "I st \<Longrightarrow> halts (eachE f xs st)"
  using assms
proof (induction xs arbitrary: st)
  case (Cons x xs)
  have "halts (eachE f xs s)" if "f x st = Inr s" for s
    using Cons.IH [of s] Cons.prems that by (meson list.set_intros)
  then show ?case using Cons.prems by (auto intro!: halts_bindE)
qed simp

lemma halts_foreach:
  assumes "\<And>w s. I s \<Longrightarrow> halts (body w s)" "\<And>w s s'. I s \<Longrightarrow> body w s = Inr s' \<Longrightarrow> I s'" "I st"
  shows "halts (foreach n body ws st)"
  unfolding foreach_def using assms(3)
  by (rule halts_eachE [rotated 2]) (use assms(1,2) in \<open>auto simp: halts_def split: if_splits\<close>)

lemma halts_format0: "halts (format0 s)"
proof (induction s rule: length_induct)
  case (1 s)
  show ?case
  proof (cases s)
    case (Cons c u)
    then have "halts (format0 u)" "halts (format0 (tl u))" using 1 by simp_all
    then show ?thesis unfolding Cons format0.simps(2) by (cases u) (auto intro!: halts_bindE simp del: format0.simps(2))
  qed simp
qed

lemma halts_print_pieces: "halts (print_pieces ps d)"
proof -
  have p: "halts (safe_snprintf p c)" for p c by (simp add: safe_snprintf_def split: prod.split)
  have "halts (eachE safe_snprintf xs c)" for xs c by (rule halts_eachE [where I = "\<lambda>_. True"]) (simp_all add: p)
  moreover have "halts (print_desc d c)" for c
    unfolding print_desc_def using halts_format0 p by (cases c) (auto intro!: halts_bindE)
  ultimately show ?thesis by (auto simp: print_pieces_def intro!: halts_bindE)
qed

lemma halts_store: "halts printed \<Longrightarrow> halts (store_value st n printed)"
  by (auto simp: store_value_def Let_def case_prod_unfold intro!: halts_bindE)

lemma halts_put: "halts (set_forward_port st i ent)" "halts (set_filter_client st i s e)" "halts (set_autofw_port st i app)"
  by (simp_all add: set_forward_port_def set_filter_client_def set_autofw_port_def print_forward_port_def
      print_filter_client_def print_autofw_port_def halts_store halts_print_pieces)

lemma halts_with_value: "halts (with_value st n parse)"
  by (simp add: with_value_def halts_def Let_def)

lemma halts_in_use: "halts r \<Longrightarrow> halts (case in_use r of Inl e \<Rightarrow> Inl e | Inr b \<Rightarrow> Inr m)"
  by (auto simp: in_use_def split: sum.split)

lemma halts_place:
  assumes "free_slot (used st) i = Some r" "halts r" "\<And>j. halts (put st j e)"
  shows "halts (place used put i e st)"
  using assms by (auto simp: place_def intro!: halts_bindE)

lemma halts_place_entry:
  assumes "nv_ok st"
  shows "halts (place_forward i ent st)" "halts (place_filter i f st)"
proof -
  have fin: "finite (dom (nvram_get st))" using assms finite_nvram by (simp add: nv_ok_def)
  obtain m where "free_slot (\<lambda>i. in_use (get_forward_port st i)) i =
      Some (case in_use (get_forward_port st m) of Inl e \<Rightarrow> Inl e | Inr b \<Rightarrow> Inr m)"
    using forwards.free_slot_returns [OF fin, of i] by blast
  then show "halts (place_forward i ent st)" unfolding place_forward_def
    by (rule halts_place) (auto simp: get_forward_port_def halts_put intro!: halts_in_use halts_with_value)
  obtain m where "free_slot (\<lambda>i. in_use (get_filter_client True st i)) i =
      Some (case in_use (get_filter_client True st m) of Inl e \<Rightarrow> Inl e | Inr b \<Rightarrow> Inr m)"
    using filters.free_slot_returns [OF fin, of i True] by blast
  then show "halts (place_filter i f st)" unfolding place_filter_def
    by (rule halts_place) (auto simp: get_filter_client_def halts_put case_prod_unfold intro!: halts_in_use halts_with_value)
qed

lemma ages_ok: "ages a b \<Longrightarrow> nv_ok a \<Longrightarrow> nv_ok b"
  by (simp add: ages_def)

lemma halts_steps:
  assumes "nv_ok st"
  shows "halts (convert_forward_proto name p st)" "halts (convert_filter_ip st)" "halts (convert_filter_proto name p st)"
    "halts (convert_filter_port st)" "halts (convert_autofw_port st)" "halts (convert_static_route st)"
proof -
  note foreach = halts_foreach [where I = nv_ok, OF _ _ assms]
  show "halts (convert_forward_proto name p st)" unfolding convert_forward_proto_def
    by (intro halts_bindE foreach)
      (auto simp: bindE_Inr_iff intro!: halts_bindE halts_place_entry split: option.splits dest: ages_place_entry ages_ok)
  show "halts (convert_filter_proto name p st)" unfolding convert_filter_proto_def
    by (intro halts_bindE foreach)
      (auto simp: bindE_Inr_iff intro!: halts_bindE halts_place_entry split: option.splits dest: ages_place_entry ages_ok)
  show "halts (convert_filter_ip st)" unfolding convert_filter_ip_def
    by (intro halts_bindE foreach)
      (auto simp: bindE_Inr_iff intro!: halts_bindE halts_place_entry split: option.splits dest!: ages_place_entry intro: ages_ok)
  have "halts (convert_filter_port_entry i s)" if "nv_ok s" for i s
    using that unfolding convert_filter_port_entry_def Let_def
    by (intro halts_bindE) (auto intro!: halts_bindE halts_place_entry split: option.split)
  then show "halts (convert_filter_port st)" unfolding convert_filter_port_def
    by (intro halts_bindE halts_eachE [where I = nv_ok, OF _ _ assms]) (auto dest: ages_filter_port_entry ages_ok)
  have "halts (convert_autofw_entry i s)" for i s
    by (auto simp: convert_autofw_entry_def Let_def intro!: halts_bindE halts_put split: option.split)
  then show "halts (convert_autofw_port st)" unfolding convert_autofw_port_def
    by (intro halts_eachE [where I = "\<lambda>_. True"]) auto
  have "halts (add_route r c)" for r c by (simp add: add_route_def safe_snprintf_def split: prod.split)
  then have "halts (static_route_word w c)" for w c
    by (auto simp: static_route_word_def intro!: halts_bindE split: option.split prod.split)
  then show "halts (convert_static_route st)" unfolding convert_static_route_def
    by (intro halts_bindE halts_foreach [where I = "\<lambda>_. True"]) auto
qed

section \<open>A second conversion changes nothing\<close>

definition same_vars :: "nvram_state \<Rightarrow> nvram_state \<Rightarrow> bool" where
  "same_vars st st' = (nv_ok st' \<and> nvram_get st' = nvram_get st)"

lemma same_unset: "nv_ok st \<Longrightarrow> nvram_get st n = None \<Longrightarrow> same_vars st (unset_value n st)"
  by (auto simp: same_vars_def)

lemma same_refl: "nv_ok st \<Longrightarrow> same_vars st st"
  by (simp add: same_vars_def)

lemma same_trans: "same_vars a b \<Longrightarrow> same_vars b c \<Longrightarrow> same_vars a c"
  by (simp add: same_vars_def)

lemma foreach_Nil [simp]: "foreach n body [] st = Inr st"
  by (simp add: foreach_def foreach_words.simps)

text \<open>An entry of the list of applications that the conversion leaves alone.\<close>

definition settled :: "nvram_state \<Rightarrow> nat \<Rightarrow> bool" where
  "settled st i = (case nvram_get st (autofw_name i) of None \<Rightarrow> True
     | Some v \<Rightarrow> v \<noteq> [] \<and> length v < VALUE_SIZE \<and>
        (case autofw_fields v of None \<Rightarrow> False | Some (a, out_start, b) \<Rightarrow> snd (strsep ''-'' out_start) \<noteq> None))"

lemma autofw_entry_settled:
  assumes "nv_ok st" "settled st i"
  shows "\<exists>st'. convert_autofw_entry i st = Inr st' \<and> same_vars st st'"
  using assms same_unset [OF assms(1), of "autofw_name i"] same_refl [OF assms(1)]
  by (auto simp: settled_def convert_autofw_entry_def nvram_invmatch_def nvram_safe_get_def Let_def split: option.splits)

lemma format0_length: "format0 s = Inr r \<Longrightarrow> length r \<le> length s"
proof (induction s arbitrary: r rule: length_induct)
  case (1 s)
  show ?case
  proof (cases s)
    case (Cons c u)
    then have "length x \<le> length u" if "format0 u = Inr x" for x using 1 that by simp
    moreover have "length x \<le> length (tl u)" if "format0 (tl u) = Inr x" for x
    proof -
      have "length (tl u) < length s" using Cons by simp
      then show ?thesis using "1.IH" that by blast
    qed
    ultimately show ?thesis using "1.prems" unfolding Cons format0.simps(2)
      by (cases u) (fastforce simp: bindE_Inr_iff simp del: format0.simps(2) split: if_splits)+
  qed (use "1.prems" in simp)
qed

lemma print_pieces_Inr:
  assumes "length (concat ps) \<le> 900" "print_pieces ps d = Inr v"
  shows "\<exists>t. v = concat ps @ t \<and> length t \<le> 40"
proof -
  have "int (length (concat ps)) < int VALUE_SIZE" using assms(1) by (simp add: VALUE_SIZE_def)
  from eachE_safe_snprintf [OF this, of "''''"] show ?thesis
    using assms format0_length [of d]
    by (auto simp: print_pieces_def print_desc_def safe_snprintf_def bindE_Inr_iff VALUE_SIZE_def DESC_SIZE_def split: if_splits)
qed

lemma set_autofw_settled:
  assumes "nv_ok st" "set_autofw_port st i app = Inr (True, st')"
  shows "settled st' i"
proof -
  let ?ps = "print_proto (ipproto (match app)) @ ['':''] @ print_range (a_ports (dst (match app))) @
      ['',''] @ print_proto (uint (proto app)) @ ['':''] @ print_range (dport app) @
      [''>''] @ print_range (to app) @ ['','', print_enable (flags (match app))]"
  let ?text = "\<lambda>t. proto_text (ipproto (match app)) @ CHR '':'' # range_text (a_ports (dst (match app))) @ CHR '','' #
     proto_text (uint (proto app)) @ CHR '':'' # range_text (dport app) @ CHR ''>'' # range_text (to app) @ CHR '','' #
     print_enable (flags (match app)) @ t"
  obtain v where v: "print_pieces ?ps (desc app) = Inr v" "st' = set_value (autofw_name i) v st"
    using assms(2) by (auto simp: set_autofw_port_def store_value_def print_autofw_port_def bindE_Inr_iff set_value_def Let_def
      case_prod_unfold split: if_splits)
  have ps: "concat ?ps @ t = ?text t" for t by (simp add: texts)
  have len: "length (concat ?ps) \<le> 60"
    using text_lengths(1) [of "a_ports (dst (match app))"] text_lengths(1) [of "dport app"] text_lengths(1) [of "to app"]
      text_lengths(3) [of "ipproto (match app)"] text_lengths(3) [of "uint (proto app)"] text_lengths(4) [of "flags (match app)"]
    unfolding concat_append texts by simp
  then obtain t where t: "v = ?text t" "length v \<le> 100"
    using print_pieces_Inr [OF _ v(1)] ps by fastforce
  have "snd (strsep ''-'' (range_text r)) \<noteq> None" for r :: "u16 \<times> u16"
  proof -
    have "CHR ''-'' \<notin> set (dec (unat (fst r)))" using dec_plain by fastforce
    then have "strsep ''-'' (dec (unat (fst r)) @ CHR ''-'' # dec (unat (snd r))) = (dec (unat (fst r)), Some (dec (unat (snd r))))"
      by (subst strsep_hit) auto
    then show ?thesis by (simp add: range_text_def print_range_def)
  qed
  then show ?thesis using v(2) t assms(1)
    by (auto simp: settled_def autofw_fields_def strsep_fields VALUE_SIZE_def case_prod_unfold)
qed

lemma autofw_entry_after:
  assumes "nv_ok st" "convert_autofw_entry i st = Inr st'"
  shows "settled st' i" "m \<noteq> autofw_name i \<Longrightarrow> nvram_get st' m = nvram_get st m" "nv_ok st'"
proof -
  have store: "m \<noteq> n \<Longrightarrow> nvram_get s m = nvram_get st m" if sv: "store_value st n printed = Inr (b, s)" for n printed b s m
  proof -
    obtain v where "s = set_value n v st"
      using sv by (cases printed) (auto simp: store_value_def set_value_def Let_def case_prod_unfold)
    then show "m \<noteq> n \<Longrightarrow> nvram_get s m = nvram_get st m" using assms(1) by simp
  qed
  show "nv_ok st'" using assms ages_ok ages_autofw_entry by blast
  consider "st' = unset_value (autofw_name i) st" | "st' = st" "settled st i" | app where "set_autofw_port st i app = Inr (True, st')"
    using assms(2) by (auto simp: convert_autofw_entry_def settled_def nvram_invmatch_def nvram_safe_get_def Let_def bindE_Inr_iff
      split: if_splits option.splits)
  then show "settled st' i" "m \<noteq> autofw_name i \<Longrightarrow> nvram_get st' m = nvram_get st m"
    using assms(1) set_autofw_settled [OF assms(1)] store
    by (cases; auto simp: settled_def set_autofw_port_def split: if_splits)+
qed

lemma settled_cong: "nvram_get st (autofw_name i) = nvram_get st' (autofw_name i) \<Longrightarrow> settled st i = settled st' i"
  by (simp add: settled_def)

lemma autofw_name_eq [simp]: "autofw_name i = autofw_name j \<longleftrightarrow> i = j"
  by (simp add: autofw_name_def dec_inj)

lemma eachE_autofw_settled:
  "eachE convert_autofw_entry xs st = Inr st' \<Longrightarrow> nv_ok st \<Longrightarrow> distinct xs \<Longrightarrow>
   (i \<in> set xs \<longrightarrow> settled st' i) \<and> (i \<notin> set xs \<longrightarrow> nvram_get st' (autofw_name i) = nvram_get st (autofw_name i))"
proof (induction xs arbitrary: st)
  case (Cons x xs)
  then obtain s where s: "convert_autofw_entry x st = Inr s" "eachE convert_autofw_entry xs s = Inr st'"
    by (auto simp: bindE_Inr_iff)
  note after = autofw_entry_after [OF Cons.prems(2) s(1)]
  have IH: "(i \<in> set xs \<longrightarrow> settled st' i) \<and> (i \<notin> set xs \<longrightarrow> nvram_get st' (autofw_name i) = nvram_get s (autofw_name i))"
    using Cons.IH [OF s(2) after(3)] Cons.prems(3) by simp
  show ?case
  proof (cases "i = x")
    case True
    then show ?thesis using IH Cons.prems(3) after(1) settled_cong [of st' x s] by auto
  next
    case False
    then show ?thesis using IH after(2) [of "autofw_name i"] by auto
  qed
qed simp

lemma autofw_again:
  assumes "nv_ok st" "\<forall>i\<in>set xs. settled st i"
  shows "\<exists>st'. eachE convert_autofw_entry xs st = Inr st' \<and> same_vars st st'"
  using assms
proof (induction xs arbitrary: st)
  case (Cons x xs)
  obtain s where s: "convert_autofw_entry x st = Inr s" "same_vars st s" using autofw_entry_settled [of st x] Cons.prems by auto
  then have "nv_ok s" "\<forall>i\<in>set xs. settled s i" using Cons.prems(2) settled_cong [of st _ s] by (auto simp: same_vars_def)
  from Cons.IH [OF this] show ?case using s same_trans by fastforce
qed (simp add: same_refl)

text \<open>The steps after the list of applications leave it alone.\<close>

lemma later_steps_autofw:
  assumes "nv_ok st" "convert_static_route (convert_pppoe st) = Inr st'"
  shows "nvram_get (convert_wsec st') (autofw_name i) = nvram_get st (autofw_name i)"
proof -
  have p: "nv_ok (fold convert_pppoe_entry xs s) \<and> nvram_get (fold convert_pppoe_entry xs s) (autofw_name i) = nvram_get s (autofw_name i)"
    if "set xs \<subseteq> set pppoe_old" "nv_ok s" for xs s
    using that
  proof (induction xs arbitrary: s)
    case (Cons x xs)
    have "nv_ok (convert_pppoe_entry x s) \<and> nvram_get (convert_pppoe_entry x s) (autofw_name i) = nvram_get s (autofw_name i)"
      using Cons.prems by (auto simp: convert_pppoe_entry_def pppoe_old_def autofw_name_def snprintf_def split: option.split)
    then show ?case using Cons.IH [of "convert_pppoe_entry x s"] Cons.prems(1) by simp
  qed simp
  then have pp: "nv_ok (convert_pppoe st)" "nvram_get (convert_pppoe st) (autofw_name i) = nvram_get st (autofw_name i)"
    using assms(1) by (simp_all add: convert_pppoe_def)
  obtain lan wan where "st' = unset_value ''static_route'' (set_route ''wan_route'' wan (set_route ''lan_route'' lan (convert_pppoe st)))"
    using assms(2) by (auto simp: convert_static_route_def bindE_Inr_iff)
  with pp have "nv_ok st'" "nvram_get st' (autofw_name i) = nvram_get st (autofw_name i)"
    by (auto simp: set_route_def autofw_name_def)
  moreover have "\<forall>j x. autofw_name i \<noteq> wl_var j x" by (simp add: autofw_name_def wl_var_def)
  ultimately show ?thesis using convert_wsec_fold [of st' "[0..<MAX_NVPARSE]"] by (simp add: convert_wsec_def)
qed

text \<open>A store without deprecated variables is not changed, up to the wireless security variables.\<close>

definition converted :: "nvram_state \<Rightarrow> bool" where
  "converted st = (nv_ok st \<and> (\<forall>n\<in>set deprecated_names. nvram_get st n = None) \<and> (\<forall>i<10. settled st i))"

definition unchanged :: "nvram_state \<Rightarrow> fault + nvram_state \<Rightarrow> bool" where
  "unchanged st r = (\<exists>st'. r = Inr st' \<and> same_vars st st')"

lemma unchanged_bindE:
  "unchanged st m \<Longrightarrow> (\<And>st'. same_vars st st' \<Longrightarrow> unchanged st' (f st')) \<Longrightarrow> unchanged st (bindE m f)"
  unfolding unchanged_def by (fastforce dest: same_trans)

lemma converted_same: "converted st \<Longrightarrow> same_vars st st' \<Longrightarrow> converted st'"
  using settled_cong [of st _ st'] by (auto simp: converted_def same_vars_def)

lemma unchanged_step:
  "converted st \<Longrightarrow> unchanged st m \<Longrightarrow> (\<And>st'. converted st' \<Longrightarrow> unchanged st' (f st')) \<Longrightarrow> unchanged st (bindE m f)"
  using unchanged_bindE converted_same by blast

lemma unchanged_unset: "converted st \<Longrightarrow> n \<in> set deprecated_names \<Longrightarrow> unchanged st (Inr (unset_value n st))"
  using same_unset by (auto simp: converted_def unchanged_def)

lemma converted_get: "converted st \<Longrightarrow> n \<in> set deprecated_names \<Longrightarrow> nvram_get st n = None \<and> nvram_safe_get st n = []"
  by (simp add: converted_def nvram_safe_get_def)

lemma deprecated_members:
  "set [''forward_tcp'', ''forward_udp'', ''filter_ip'', ''filter_tcp'', ''filter_udp'', ''filter_port'',
     ''filter_mac'', ''wl_mac'', ''static_route'', ''pppoe_ifname''] \<subseteq> set deprecated_names"
  "i \<in> {1..<7} \<Longrightarrow> filter_port_name i \<in> set deprecated_names" "set pppoe_old \<subseteq> set deprecated_names"
  by (auto simp: deprecated_names_def pppoe_old_def)

lemma unchanged_lists:
  assumes "converted st"
  shows "n \<in> set deprecated_names \<Longrightarrow> unchanged st (convert_forward_proto n p st)"
    "n \<in> set deprecated_names \<Longrightarrow> unchanged st (convert_filter_proto n p st)"
    "unchanged st (convert_filter_ip st)" "unchanged st (convert_static_route st)"
  using converted_get [OF assms] unchanged_unset [OF assms] deprecated_members(1)
  by (simp_all add: convert_forward_proto_def convert_filter_proto_def convert_filter_ip_def convert_static_route_def
      set_route_def nvram_unset_value)

lemma unchanged_filter_port:
  assumes "converted st"
  shows "unchanged st (convert_filter_port st)"
proof -
  have one: "unchanged s (convert_filter_port_entry i s)" if "converted s" "i \<in> {1..<7}" for s i
    using that converted_get [of s "filter_port_name i"] unchanged_unset [of s "filter_port_name i"] deprecated_members(2) [of i]
    by (simp add: convert_filter_port_entry_def nvram_unset_value Let_def)
  have "unchanged s (eachE convert_filter_port_entry xs s)" if "converted s" "set xs \<subseteq> {1..<7}" for xs s
    using that
  proof (induction xs arbitrary: s)
    case Nil
    then show ?case using same_refl by (simp add: unchanged_def converted_def)
  next
    case (Cons x xs)
    then show ?case using one converted_same by (auto intro!: unchanged_bindE)
  qed
  from this [OF assms, of "[1..<7]"] show ?thesis unfolding convert_filter_port_def nvram_unset_value
    by (rule unchanged_bindE) (use assms converted_same unchanged_unset deprecated_members(1) in \<open>auto\<close>)
qed

lemma unchanged_autofw: "converted st \<Longrightarrow> unchanged st (convert_autofw_port st)"
  using autofw_again [of st "[0..<10]"] by (auto simp: converted_def unchanged_def convert_autofw_port_def)

lemma unchanged_vars:
  assumes "converted st"
  shows "convert_maclist ''filter'' st = st" "convert_maclist ''wl'' st = st"
    "convert_pppoe_ifname st = unset_value ''pppoe_ifname'' st" "convert_pppoe st = st"
proof -
  have "fold convert_pppoe_entry xs st = st" if "set xs \<subseteq> set pppoe_old" for xs
    using that converted_get [OF assms] deprecated_members(3) by (induction xs) (auto simp: convert_pppoe_entry_def)
  then show "convert_pppoe st = st" by (simp add: convert_pppoe_def)
qed (use converted_get [OF assms] deprecated_members(1) in
    \<open>simp_all add: convert_maclist_def convert_pppoe_ifname_def nvram_invmatch_def\<close>)

lemma convert_again:
  assumes "converted st"
  shows "\<exists>s. convert_deprecated st = Inr (convert_wsec s) \<and> same_vars st s"
proof -
  let ?r = "bindE (convert_forward_proto ''forward_tcp'' IPPROTO_TCP st) (\<lambda>st.
     bindE (convert_forward_proto ''forward_udp'' IPPROTO_UDP st) (\<lambda>st.
     bindE (convert_filter_ip st) (\<lambda>st.
     bindE (convert_filter_proto ''filter_tcp'' IPPROTO_TCP st) (\<lambda>st.
     bindE (convert_filter_proto ''filter_udp'' IPPROTO_UDP st) (\<lambda>st.
     bindE (convert_filter_port st) (\<lambda>st.
     bindE (convert_autofw_port (convert_pppoe_ifname (convert_maclist ''wl'' (convert_maclist ''filter'' st)))) (\<lambda>st.
     convert_static_route (convert_pppoe st))))))))"
  have ifn: "unchanged s (convert_autofw_port (unset_value ''pppoe_ifname'' s))" if "converted s" for s
  proof -
    have same: "same_vars s (unset_value ''pppoe_ifname'' s)"
      using unchanged_unset [OF that, of "''pppoe_ifname''"] deprecated_members(1) by (auto simp: unchanged_def)
    from unchanged_autofw [OF converted_same [OF that same]] show ?thesis
      using same_trans [OF same] by (auto simp: unchanged_def)
  qed
  have "unchanged st ?r"
    using assms deprecated_members(1)
    by (intro unchanged_step unchanged_lists unchanged_filter_port) (simp_all add: unchanged_vars ifn unchanged_lists)
  then obtain s where "?r = Inr s" "same_vars st s" by (auto simp: unchanged_def)
  then show ?thesis unfolding convert_deprecated_def by (auto simp: bindE_Inr_iff)
qed

lemma convert_deprecated_steps:
  assumes "convert_deprecated st = Inr st'"
  obtains a b c d e f g h where "convert_forward_proto ''forward_tcp'' IPPROTO_TCP st = Inr a"
    "convert_forward_proto ''forward_udp'' IPPROTO_UDP a = Inr b" "convert_filter_ip b = Inr c"
    "convert_filter_proto ''filter_tcp'' IPPROTO_TCP c = Inr d" "convert_filter_proto ''filter_udp'' IPPROTO_UDP d = Inr e"
    "convert_filter_port e = Inr f"
    "convert_autofw_port (convert_pppoe_ifname (convert_maclist ''wl'' (convert_maclist ''filter'' f))) = Inr g"
    "convert_static_route (convert_pppoe g) = Inr h" "st' = convert_wsec h"
  using assms by (auto simp: convert_deprecated_def bindE_Inr_iff)

lemma convert_deprecated_converted:
  assumes "nv_ok st" "convert_deprecated st = Inr st'"
  shows "converted st'" "ages st st'"
proof -
  obtain a b c d e f g h where s: "convert_forward_proto ''forward_tcp'' IPPROTO_TCP st = Inr a"
    "convert_forward_proto ''forward_udp'' IPPROTO_UDP a = Inr b" "convert_filter_ip b = Inr c"
    "convert_filter_proto ''filter_tcp'' IPPROTO_TCP c = Inr d" "convert_filter_proto ''filter_udp'' IPPROTO_UDP d = Inr e"
    "convert_filter_port e = Inr f"
    "convert_autofw_port (convert_pppoe_ifname (convert_maclist ''wl'' (convert_maclist ''filter'' f))) = Inr g"
    "convert_static_route (convert_pppoe g) = Inr h" "st' = convert_wsec h"
    using convert_deprecated_steps [OF assms(2)] by blast
  let ?m = "convert_maclist ''filter'' f" and ?w = "convert_maclist ''wl'' (convert_maclist ''filter'' f)"
  let ?i = "convert_pppoe_ifname ?w"
  have ag: "ages st a" "ages a b" "ages b c" "ages c d" "ages d e" "ages e f" "ages f ?m" "ages ?m ?w" "ages ?w ?i" "ages ?i g"
    "ages g (convert_pppoe g)" "ages (convert_pppoe g) h" "ages h st'"
    using ages_forward_proto(1) [OF s(1)] ages_forward_proto(1) [OF s(2)] ages_filter_ip(1) [OF s(3)] ages_filter_proto(1) [OF s(4)]
      ages_filter_proto(1) [OF s(5)] ages_filter_port(1) [OF s(6)] ages_maclist(1) ages_pppoe_ifname(1) ages_autofw [OF s(7)]
      ages_pppoe(1) ages_static_route(1) [OF s(8)] ages_wsec s(9) by auto
  note o1 = ages_ok [OF ag(1) assms(1)]
  note o2 = ages_ok [OF ag(2) o1]
  note o3 = ages_ok [OF ag(3) o2]
  note o4 = ages_ok [OF ag(4) o3]
  note o5 = ages_ok [OF ag(5) o4]
  note o6 = ages_ok [OF ag(6) o5]
  note o7 = ages_ok [OF ag(7) o6]
  note o8 = ages_ok [OF ag(8) o7]
  note o9 = ages_ok [OF ag(9) o8]
  note o10 = ages_ok [OF ag(10) o9]
  note o11 = ages_ok [OF ag(11) o10]
  note o12 = ages_ok [OF ag(12) o11]
  note o13 = ages_ok [OF ag(13) o12]
  note ok = o1 o2 o3 o4 o5 o6 o7 o8 o9 o10 o11 o12 o13
  note e1 = ag(13)
  note e2 = ages_trans [OF ag(12) e1]
  note e3 = ages_trans [OF ag(11) e2]
  note e4 = ages_trans [OF ag(10) e3]
  note e5 = ages_trans [OF ag(9) e4]
  note e6 = ages_trans [OF ag(8) e5]
  note e7 = ages_trans [OF ag(7) e6]
  note e8 = ages_trans [OF ag(6) e7]
  note e9 = ages_trans [OF ag(5) e8]
  note e10 = ages_trans [OF ag(4) e9]
  note e11 = ages_trans [OF ag(3) e10]
  note e12 = ages_trans [OF ag(2) e11]
  note e13 = ages_trans [OF ag(1) e12]
  note to_end = e1 e2 e3 e4 e5 e6 e7 e8 e9 e10 e11 e12 e13
  show "ages st st'" by (rule to_end)
  have gone: "nvram_get st' n = None" if "ages x st'" "nv_ok x" "nvram_get x n = None" "n \<in> set deprecated_names" for x n
    using ages_undefined [OF that(1,2) deprecated_not_current [OF that(4)] that(3)] .
  have "nvram_get st' n = None" if "n \<in> set deprecated_names" for n
  proof -
    have "nvram_get st' ''forward_tcp'' = None" "nvram_get st' ''forward_udp'' = None" "nvram_get st' ''filter_ip'' = None"
      "nvram_get st' ''filter_tcp'' = None" "nvram_get st' ''filter_udp'' = None" "nvram_get st' ''filter_port'' = None"
      "nvram_get st' ''filter_mac'' = None" "nvram_get st' ''wl_mac'' = None" "nvram_get st' ''static_route'' = None"
      using gone [OF to_end(12) ok(1) ages_forward_proto(2) [OF s(1) assms(1)]] gone [OF to_end(11) ok(2) ages_forward_proto(2) [OF s(2) ok(1)]]
        gone [OF to_end(10) ok(3) ages_filter_ip(2) [OF s(3) ok(2)]] gone [OF to_end(9) ok(4) ages_filter_proto(2) [OF s(4) ok(3)]]
        gone [OF to_end(8) ok(5) ages_filter_proto(2) [OF s(5) ok(4)]] gone [OF to_end(7) ok(6) ages_filter_port(2) [OF s(6) ok(5)]]
        gone [OF to_end(6) ok(7) ages_maclist(2) [OF _ ok(6)]] gone [OF to_end(5) ok(8) ages_maclist(2) [OF _ ok(7)]]
        gone [OF to_end(1) ok(12) ages_static_route(2) [OF s(8) ok(11)]] deprecated_members(1) by simp_all
    moreover have "nvram_get st' (filter_port_name i) = None" if "i \<in> {1..<7}" for i
      using gone [OF to_end(7) ok(6) ages_filter_port(3) [OF s(6) ok(5) that]] deprecated_members(2) [OF that] by simp
    moreover have "nvram_get st' m = None" if "m \<in> set pppoe_old" for m
      using gone [OF to_end(2) ok(11) ages_pppoe(2) [OF ok(10) that]] deprecated_members(3) that by blast
    ultimately show ?thesis using that unfolding deprecated_names_def by auto
  qed
  moreover have "settled st' i" if "i < 10" for i
  proof -
    have "settled g i" using eachE_autofw_settled [OF s(7) [unfolded convert_autofw_port_def] ok(9)] that by simp
    then show ?thesis using settled_cong [of st' i g] later_steps_autofw [OF ok(10) s(8)] s(9) by simp
  qed
  ultimately show "converted st'" using ok(13) by (simp add: converted_def)
qed

section \<open>The whole conversion\<close>

lemma converted_example: "converted nvram_example"
proof -
  have "nvram_get nvram_example n = None" if "n \<noteq> ''lan_proto''" for n
    using that hash_index_less [of n] unfolding nvram_get_lookup
    by (auto simp: nvram_example_def nth_list_update hash_index_less)
  then show ?thesis using nv_ok_example
    by (auto simp: converted_def settled_def autofw_name_def deprecated_names_def filter_port_name_def pppoe_old_def)
qed

text \<open>C26: Once the conversion has returned, no deprecated variable is defined, every variable outside the
  current names has kept its value or is undefined, and converting again returns and changes no
  variable.\<close>

theorem convert_deprecated_idempotent:
  assumes "nvram_inv st" "oom st = []" "convert_deprecated st = Inr st'"
  shows "(\<forall>n\<in>set deprecated_names. nvram_get st' n = None) \<and>
    (\<forall>m. m \<notin> current_names \<longrightarrow> nvram_get st' m = nvram_get st m \<or> nvram_get st' m = None) \<and>
    (\<exists>st''. convert_deprecated st' = Inr st'' \<and> nvram_get st'' = nvram_get st')"
proof -
  have ok: "nv_ok st" using assms by (simp add: nv_ok_def)
  note conv = convert_deprecated_converted [OF ok assms(3)]
  obtain h where h: "nv_ok h" "st' = convert_wsec h"
    using convert_deprecated_steps [OF assms(3)] conv ok
    by (metis ages_autofw ages_filter_ip(1) ages_filter_port(1) ages_filter_proto(1) ages_forward_proto(1) ages_maclist(1) ages_ok
        ages_pppoe(1) ages_pppoe_ifname(1) ages_static_route(1) insertI1 insertI2)
  obtain s where s: "convert_deprecated st' = Inr (convert_wsec s)" "same_vars st' s" using convert_again [OF conv(1)] by blast
  have "nvram_get (convert_wsec s) = nvram_get (convert_wsec st')"
    using s(2) conv(1) by (intro convert_wsec_same) (simp_all add: same_vars_def converted_def)
  also have "\<dots> = nvram_get st'" using convert_wsec_twice [OF h(1)] h(2) by simp
  finally show ?thesis using s(1) conv ok by (simp add: converted_def ages_def)
qed

theorem convert_deprecated_idempotent_witness:
  "\<exists>st' st''. convert_deprecated nvram_example = Inr st' \<and> nvram_get st' ''static_route'' = None \<and>
    convert_deprecated st' = Inr st'' \<and> nvram_get st'' = nvram_get st'"
proof -
  obtain s where s: "convert_deprecated nvram_example = Inr s" using convert_again [OF converted_example] by blast
  have "''static_route'' \<in> set deprecated_names" using deprecated_members(1) by simp
  with convert_deprecated_idempotent [OF nvram_example_props s] s show ?thesis by blast
qed

text \<open>C27: The conversion always comes to an end: whatever the variables hold, none of the searches for a free
  entry runs forever.\<close>

theorem convert_deprecated_ends:
  assumes "nvram_inv st" "oom st = []"
  shows "convert_deprecated st \<noteq> Inl Diverge"
proof -
  have ok: "nv_ok st" using assms by (simp add: nv_ok_def)
  have "halts (convert_deprecated st)" unfolding convert_deprecated_def
    by (intro halts_bindE halts_steps halts_Inr ok)
      (metis ok ages_ok ages_forward_proto(1) ages_filter_ip(1) ages_filter_proto(1) ages_filter_port(1) ages_maclist(1)
        ages_pppoe_ifname(1) ages_autofw ages_pppoe(1) insertI1 insertI2)+
  then show ?thesis by (simp add: halts_def)
qed

theorem convert_deprecated_ends_witness: "convert_deprecated nvram_example \<noteq> Inl Diverge"
  by (rule convert_deprecated_ends) (rule nvram_example_props)+

text \<open>An entry of an old list that is not a valid port forward ends the program in the assertion, before
  the old list is removed.\<close>

theorem convert_forward_invalid:
  assumes "nvram_inv st" "oom st = []" "entries_fit forward_name st" "length w < 1000"
    "foreach_words (nvram_safe_get st name) = w # ws" "old_forward p w = Some ent" "\<not> valid_forward_port ent"
  shows "convert_forward_proto name p st = Inl Abort"
proof -
  have fin: "finite (dom (nvram_get st))" using assms(1) by (rule finite_nvram)
  obtain m where m: "free_slot (\<lambda>i. in_use (get_forward_port st i)) 0 =
      Some (case in_use (get_forward_port st m) of Inl e \<Rightarrow> Inl e | Inr b \<Rightarrow> Inr m)"
    using forwards.free_slot_returns [OF fin, of 0] by blast
  obtain b where "in_use (get_forward_port st m) = Inr b"
    using readable_forwards [OF assms(3)] unfolding forward_store.readable_def by blast
  then have "place_forward 0 ent st = Inl Abort"
    using m assms(7) by (simp add: place_forward_def place_def set_forward_port_def)
  then show ?thesis using assms(4-6) by (simp add: convert_forward_proto_def foreach_def)
qed

theorem convert_forward_invalid_witness:
  "convert_forward_proto ''forward_tcp'' 6
     (set_value ''forward_tcp'' (old_forward_text (forward_example\<lparr>nat_ipaddr := 0\<rparr>)) nvram_example) = Inl Abort"
proof -
  let ?t = "old_forward_text (forward_example\<lparr>nat_ipaddr := 0\<rparr>)"
  let ?st = "set_value ''forward_tcp'' ?t nvram_example"
  have st: "nvram_inv ?st" "oom ?st = []" using nv_ok_set [OF nv_ok_example] by (simp_all only: nv_ok_def)
  have get: "nvram_safe_get ?st ''forward_tcp'' = ?t" using nv_ok_example by (simp add: nvram_safe_get_def)
  have ws: "foreach_words ?t = [?t]" using old_forward_text by (intro foreach_words_single)
  obtain e where e: "old_forward 6 ?t = Some e" "nat_ipaddr e = 0"
    using old_forward_text(4) [of 6 "forward_example\<lparr>nat_ipaddr := 0\<rparr>"] by (auto simp: forward_key_def)
  have "forward_name i \<noteq> ''forward_tcp''" for i by (simp add: forward_name_def)
  then have "entries_fit forward_name ?st"
    using nv_ok_example entries_fit_example(1) by (simp add: entries_fit_def nvram_safe_get_def)
  then show ?thesis
    using convert_forward_invalid [OF st, of ?t "''forward_tcp''" "[]" 6 e] get ws e old_forward_text(2)
    by (simp add: valid_forward_port_def)
qed

text \<open>The old filter list allows * for any address, but inet_aton does not: the filter that is made of
  it matches the single address 0.0.0.0.\<close>

theorem filter_any_address_lost:
  "\<exists>s. old_filter_proto p (''*:'' @ range_text r) = Some (s, s) \<and> a_ports (dst (match s)) = r \<and>
    a_netmask (src (match s)) = 0xffffffff \<and> a_ipaddr (src (match s)) = 0 \<and>
    print_filter_addrs s s = [inet_ntoa 0, ''-'', inet_ntoa 0]"
proof -
  have c: "strsep '':'' (''*:'' @ b) = (''*'', Some b)" for b by (simp add: strsep_def)
  have d: "strsep ''-'' (range_text r) = (dec (unat (fst r)), Some (dec (unat (snd r))))"
    using dec_plain by (subst range_text_def, simp add: print_range_def, subst strsep_hit) fastforce+
  have "inet_aton ''*'' = None" by (simp add: inet_aton_def numeral_eq_Suc digit_in_def)
  then have e: "inet_aton_to ''*'' 0 = 0" by (simp add: inet_aton_to_def)
  have a: "(word_of_int (atoi (dec (unat w))) :: u16) = w" for w :: u16
    using atoi_dec [of "[]" "unat w"] unat_u16_31 [of w] by simp
  show ?thesis
    unfolding old_filter_proto_def c
    by (auto simp: d e a Let_def zero_filter_def zero_match_def zero_addr_def print_filter_addrs_def)
qed

end
