(* ===== verification/Hnd_Dma.thy ===== *)
theory Hnd_Dma
  imports Cstring "HOL-Library.Multiset"
begin

text \<open>
  The DMA module of src/broadcom/src/shared/hnddma.c: a transmit and a receive ring of descriptors with a
  parallel array of packet pointers each, for the 32-bit and the 64-bit engine.  The two engines have the
  same ring code and differ in their descriptors and registers, which an \<open>engine\<close> collects; each C function
  is one definition.  Shared memory and registers are the part \<open>dma_hw\<close> of the state.  The calls to the
  operating system that move packets and mappings are events of a trace.  Assertions are compiled out.
\<close>

section \<open>Constants\<close>

definition XC_XE :: u32 where "XC_XE = 1"
definition XC_SE :: u32 where "XC_SE = 2"
definition XC_LE :: u32 where "XC_LE = 4"
definition XC_AE :: u32 where "XC_AE = 0x30000"
definition XC_AE_SHIFT :: nat where "XC_AE_SHIFT = 16"
definition XS_CD_MASK :: u32 where "XS_CD_MASK = 0x0fff"
definition XS_XS_MASK :: u32 where "XS_XS_MASK = 0xf000"
definition XS_XS_DISABLED :: u32 where "XS_XS_DISABLED = 0"
definition XS_XS_IDLE :: u32 where "XS_XS_IDLE = 0x2000"
definition XS_XS_STOPPED :: u32 where "XS_XS_STOPPED = 0x3000"
definition XS_AD_MASK :: u32 where "XS_AD_MASK = 0xfff00000"
definition XS_AD_SHIFT :: nat where "XS_AD_SHIFT = 20"
definition RC_RE :: u32 where "RC_RE = 1"
definition RC_RO_SHIFT :: nat where "RC_RO_SHIFT = 1"
definition RC_AE :: u32 where "RC_AE = 0x30000"
definition RC_AE_SHIFT :: nat where "RC_AE_SHIFT = 16"
definition RS_CD_MASK :: u32 where "RS_CD_MASK = 0x0fff"
definition RS_RS_MASK :: u32 where "RS_RS_MASK = 0xf000"
definition RS_RS_DISABLED :: u32 where "RS_RS_DISABLED = 0"
definition RS_RS_STOPPED :: u32 where "RS_RS_STOPPED = 0x3000"
definition CTRL_BC_MASK :: u32 where "CTRL_BC_MASK = 0x1fff"
definition CTRL_AE_SHIFT :: nat where "CTRL_AE_SHIFT = 16"
definition CTRL_EOT :: u32 where "CTRL_EOT = 0x10000000"
definition CTRL_IOC :: u32 where "CTRL_IOC = 0x20000000"
definition CTRL_EOF :: u32 where "CTRL_EOF = 0x40000000"
definition CTRL_SOF :: u32 where "CTRL_SOF = 0x80000000"
definition D64_XC_XE :: u32 where "D64_XC_XE = 1"
definition D64_XC_SE :: u32 where "D64_XC_SE = 2"
definition D64_XC_LE :: u32 where "D64_XC_LE = 4"
definition D64_XC_AE :: u32 where "D64_XC_AE = 0x30000"
definition D64_XC_AE_SHIFT :: nat where "D64_XC_AE_SHIFT = 16"
definition D64_XS0_CD_MASK :: u32 where "D64_XS0_CD_MASK = 0x1fff"
definition D64_XS0_XS_MASK :: u32 where "D64_XS0_XS_MASK = 0xf0000000"
definition D64_XS0_XS_DISABLED :: u32 where "D64_XS0_XS_DISABLED = 0"
definition D64_XS0_XS_IDLE :: u32 where "D64_XS0_XS_IDLE = 0x20000000"
definition D64_XS0_XS_STOPPED :: u32 where "D64_XS0_XS_STOPPED = 0x30000000"
definition D64_XS1_AD_MASK :: u32 where "D64_XS1_AD_MASK = 0x1ffff"
definition D64_RC_RE :: u32 where "D64_RC_RE = 1"
definition D64_RC_RO_SHIFT :: nat where "D64_RC_RO_SHIFT = 1"
definition D64_RC_AE :: u32 where "D64_RC_AE = 0x30000"
definition D64_RC_AE_SHIFT :: nat where "D64_RC_AE_SHIFT = 16"
definition D64_RS0_CD_MASK :: u32 where "D64_RS0_CD_MASK = 0x1fff"
definition D64_RS0_RS_MASK :: u32 where "D64_RS0_RS_MASK = 0xf0000000"
definition D64_RS0_RS_DISABLED :: u32 where "D64_RS0_RS_DISABLED = 0"
definition D64_RS0_RS_STOPPED :: u32 where "D64_RS0_RS_STOPPED = 0x30000000"
definition D64_CTRL1_EOT :: u32 where "D64_CTRL1_EOT = 0x10000000"
definition D64_CTRL1_IOC :: u32 where "D64_CTRL1_IOC = 0x20000000"
definition D64_CTRL1_EOF :: u32 where "D64_CTRL1_EOF = 0x40000000"
definition D64_CTRL1_SOF :: u32 where "D64_CTRL1_SOF = 0x80000000"
definition D64_CTRL2_BC_MASK :: u32 where "D64_CTRL2_BC_MASK = 0x7fff"
definition D64_CTRL2_AE :: u32 where "D64_CTRL2_AE = 0x30000"
definition D64_CTRL2_AE_SHIFT :: nat where "D64_CTRL2_AE_SHIFT = 16"
definition SB_PCI_DMA :: u32 where "SB_PCI_DMA = 0x40000000"
definition SB_PCI_DMA_SZ :: u32 where "SB_PCI_DMA_SZ = 0x40000000"
definition SB_PCIE_DMA_H32 :: u32 where "SB_PCIE_DMA_H32 = 0x80000000"
definition PCI32ADDR_HIGH :: u32 where "PCI32ADDR_HIGH = 0xc0000000"
definition PCI32ADDR_HIGH_SHIFT :: nat where "PCI32ADDR_HIGH_SHIFT = 30"
definition BCMEXTRAHDROOM :: u32 where "BCMEXTRAHDROOM = 160"

section \<open>State\<close>

record dma32regs =
  control :: u32
  addr :: u32
  ptr :: u32
  status :: u32

record dma64regs =
  control64 :: u32
  ptr64 :: u32
  addrlow64 :: u32
  addrhigh64 :: u32
  status0 :: u32
  status1 :: u32

record dma32dd =
  dd_ctrl :: u32
  dd_addr :: u32

record dma64dd =
  ctrl1 :: u32
  ctrl2 :: u32
  addrlow :: u32
  addrhigh :: u32

text \<open>The descriptor rings and the registers of the engine.\<close>

record dma_hw =
  d32txregs :: dma32regs
  d32rxregs :: dma32regs
  d64txregs :: dma64regs
  d64rxregs :: dma64regs
  txd32 :: "dma32dd list"
  txd64 :: "dma64dd list"
  rxd32 :: "dma32dd list"
  rxd64 :: "dma64dd list"

text \<open>A packet: a chain of buffers, each with the bus address DMA_MAP gives for it and its length.  The
  engine writes the length of a received frame to the start of its buffer.\<close>

record pktbuf =
  b_pa :: u32
  b_len :: u32

record packet =
  pkt_id :: nat
  bufs :: "pktbuf list"
  frame_len :: u16
  pkt_len :: u32

datatype dma_event = Map u32 u32 | Unmap u32 u32 | PktFree packet

record dma_info =
  hw :: dma_hw
  dma64 :: bool
  addrext :: bool
  ntxd :: u32
  txin :: u32
  txout :: u32
  txp :: "packet option list"
  txdpa :: u32
  nrxd :: u32
  rxin :: u32
  rxout :: u32
  rxp :: "packet option list"
  rxdpa :: u32
  rxbufsize :: u32
  nrxpost :: u32
  rxoffset :: u32
  ddoffsetlow :: u32
  ddoffsethigh :: u32
  dataoffsetlow :: u32
  dataoffsethigh :: u32
  txavail :: u32
  rxgiants :: u32
  rxnobuf :: u32
  txnobuf :: u32
  pool :: "packet list"
  trace :: "dma_event list"

definition emit :: "dma_event \<Rightarrow> dma_info \<Rightarrow> dma_info" where
  "emit e di = di\<lparr>trace := trace di @ [e]\<rparr>"

definition PKTFREE :: "packet \<Rightarrow> dma_info \<Rightarrow> dma_info" where
  "PKTFREE p di = emit (PktFree p) di"

text \<open>The address of a receive buffer is the one behind the extra headroom.  PKTGET hands out the packets of the pool, and NULL when it is empty.\<close>

definition PKTGET :: "dma_info \<Rightarrow> packet option \<times> dma_info" where
  "PKTGET di = (case pool di of [] \<Rightarrow> (None, di) | p # ps \<Rightarrow> (Some p, di\<lparr>pool := ps\<rparr>))"

section \<open>Indices\<close>

definition XXD :: "u32 \<Rightarrow> u32 \<Rightarrow> u32" where "XXD x n = x AND (n - 1)"
definition TXD :: "dma_info \<Rightarrow> u32 \<Rightarrow> u32" where "TXD di x = XXD x (ntxd di)"
definition RXD :: "dma_info \<Rightarrow> u32 \<Rightarrow> u32" where "RXD di x = XXD x (nrxd di)"
definition NEXTTXD :: "dma_info \<Rightarrow> u32 \<Rightarrow> u32" where "NEXTTXD di i = TXD di (i + 1)"
definition PREVTXD :: "dma_info \<Rightarrow> u32 \<Rightarrow> u32" where "PREVTXD di i = TXD di (i - 1)"
definition NEXTRXD :: "dma_info \<Rightarrow> u32 \<Rightarrow> u32" where "NEXTRXD di i = RXD di (i + 1)"
definition NTXDACTIVE :: "dma_info \<Rightarrow> u32 \<Rightarrow> u32 \<Rightarrow> u32" where "NTXDACTIVE di h t = TXD di (t - h)"
definition NRXDACTIVE :: "dma_info \<Rightarrow> u32 \<Rightarrow> u32 \<Rightarrow> u32" where "NRXDACTIVE di h t = RXD di (t - h)"

definition sizeof_dma32dd :: u32 where "sizeof_dma32dd = 8"
definition sizeof_dma64dd :: u32 where "sizeof_dma64dd = 16"
definition B2I :: "u32 \<Rightarrow> u32 \<Rightarrow> u32" where "B2I bytes size_dd = bytes div size_dd"
definition I2B :: "u32 \<Rightarrow> u32 \<Rightarrow> u32" where "I2B idx size_dd = idx * size_dd"

definition tx_free :: "dma_info \<Rightarrow> u32" where
  "tx_free di = ntxd di - NTXDACTIVE di (txin di) (txout di) - 1"

section \<open>Descriptors\<close>

definition ext_addr :: "dma_info \<Rightarrow> u32 \<Rightarrow> bool" where
  "ext_addr di pa = (dataoffsetlow di = SB_PCI_DMA \<and> pa AND PCI32ADDR_HIGH \<noteq> 0)"

definition ae_bits :: "u32 \<Rightarrow> u32" where
  "ae_bits pa = drop_bit PCI32ADDR_HIGH_SHIFT (pa AND PCI32ADDR_HIGH)"

text \<open>The flags and the descriptor that are written.\<close>

definition dma32_dd_upd :: "dma_info \<Rightarrow> dma32dd list \<Rightarrow> u32 \<Rightarrow> u32 \<Rightarrow> u32 \<Rightarrow> u32 \<Rightarrow> u32 \<times> dma32dd list" where
  "dma32_dd_upd di ddring pa outidx fl bufcount = (
     let fl = fl OR (bufcount AND CTRL_BC_MASK) in
     if \<not> ext_addr di pa
     then (fl, ddring[unat outidx := \<lparr>dd_ctrl = fl, dd_addr = pa + dataoffsetlow di\<rparr>])
     else let ae = ae_bits pa; pa = pa AND NOT PCI32ADDR_HIGH; fl = fl OR push_bit CTRL_AE_SHIFT ae in
       (fl, ddring[unat outidx := \<lparr>dd_ctrl = fl, dd_addr = pa + dataoffsetlow di\<rparr>]))"

definition dma64_dd_upd :: "dma_info \<Rightarrow> dma64dd list \<Rightarrow> u32 \<Rightarrow> u32 \<Rightarrow> u32 \<Rightarrow> u32 \<Rightarrow> u32 \<times> dma64dd list" where
  "dma64_dd_upd di ddring pa outidx fl bufcount = (
     let c2 = bufcount AND D64_CTRL2_BC_MASK in
     if \<not> ext_addr di pa
     then (fl, ddring[unat outidx := \<lparr>ctrl1 = fl, ctrl2 = c2, addrlow = pa + dataoffsetlow di, addrhigh = 0 + dataoffsethigh di\<rparr>])
     else let ae = ae_bits pa; pa = pa AND NOT PCI32ADDR_HIGH;
              c2 = c2 OR (push_bit D64_CTRL2_AE_SHIFT ae AND D64_CTRL2_AE) in
       (fl, ddring[unat outidx := \<lparr>ctrl1 = fl, ctrl2 = c2, addrlow = pa + dataoffsetlow di, addrhigh = 0 + dataoffsethigh di\<rparr>]))"

text \<open>What the ring code uses of an engine: writing a descriptor (with the flags it leaves), the end-of-frame
  fix, the pointer and current descriptor registers, the arguments of DMA_UNMAP, the poison value, and the
  move of a descriptor by txrotate.\<close>

record engine =
  e_tx_upd :: "dma_info \<Rightarrow> u32 \<Rightarrow> u32 \<Rightarrow> u32 \<Rightarrow> u32 \<Rightarrow> u32 \<times> dma_hw"
  e_tx_ctrl :: "dma_info \<Rightarrow> u32 \<Rightarrow> u32 \<Rightarrow> dma_hw"
  e_tx_kick :: "dma_info \<Rightarrow> u32 \<Rightarrow> dma_hw"
  e_tx_curr :: "dma_info \<Rightarrow> u32"
  e_tx_active :: "dma_info \<Rightarrow> u32"
  e_tx_mapping :: "dma_info \<Rightarrow> u32 \<Rightarrow> u32 \<times> u32"
  e_tx_zap :: "dma_info \<Rightarrow> u32 \<Rightarrow> dma_hw"
  e_tx_move :: "dma_info \<Rightarrow> u32 \<Rightarrow> u32 \<Rightarrow> dma_hw"
  e_rx_upd :: "dma_info \<Rightarrow> u32 \<Rightarrow> u32 \<Rightarrow> u32 \<Rightarrow> u32 \<Rightarrow> u32 \<times> dma_hw"
  e_rx_kick :: "dma_info \<Rightarrow> u32 \<Rightarrow> dma_hw"
  e_rx_curr :: "dma_info \<Rightarrow> u32"
  e_rx_mapping :: "dma_info \<Rightarrow> u32 \<Rightarrow> u32"
  e_rx_zap :: "dma_info \<Rightarrow> u32 \<Rightarrow> dma_hw"

definition poison :: u32 where "poison = 0xdeadbeef"

definition engine32 :: engine where
  "engine32 = \<lparr>
     e_tx_upd = \<lambda>di pa i fl len. let (fl, ring) = dma32_dd_upd di (txd32 (hw di)) pa i fl len in (fl, (hw di)\<lparr>txd32 := ring\<rparr>),
     e_tx_ctrl = \<lambda>di i c. (hw di)\<lparr>txd32 := (txd32 (hw di))[unat i := (txd32 (hw di) ! unat i)\<lparr>dd_ctrl := c\<rparr>]\<rparr>,
     e_tx_kick = \<lambda>di i. (hw di)\<lparr>d32txregs := (d32txregs (hw di))\<lparr>ptr := I2B i sizeof_dma32dd\<rparr>\<rparr>,
     e_tx_curr = \<lambda>di. B2I (status (d32txregs (hw di)) AND XS_CD_MASK) sizeof_dma32dd,
     e_tx_active = \<lambda>di. B2I (drop_bit XS_AD_SHIFT (status (d32txregs (hw di)) AND XS_AD_MASK)) sizeof_dma32dd,
     e_tx_mapping = \<lambda>di i. (dd_addr (txd32 (hw di) ! unat i) - dataoffsetlow di, dd_ctrl (txd32 (hw di) ! unat i) AND CTRL_BC_MASK),
     e_tx_zap = \<lambda>di i. (hw di)\<lparr>txd32 := (txd32 (hw di))[unat i := (txd32 (hw di) ! unat i)\<lparr>dd_addr := poison\<rparr>]\<rparr>,
     e_tx_move = \<lambda>di old new. let d = txd32 (hw di) ! unat old;
         w = (dd_ctrl d AND NOT CTRL_EOT) OR (if new = ntxd di - 1 then CTRL_EOT else 0);
         ring = (txd32 (hw di))[unat new := \<lparr>dd_ctrl = w, dd_addr = dd_addr d\<rparr>]
       in (hw di)\<lparr>txd32 := ring[unat old := (ring ! unat old)\<lparr>dd_addr := poison\<rparr>]\<rparr>,
     e_rx_upd = \<lambda>di pa i fl len. let (fl, ring) = dma32_dd_upd di (rxd32 (hw di)) pa i fl len in (fl, (hw di)\<lparr>rxd32 := ring\<rparr>),
     e_rx_kick = \<lambda>di i. (hw di)\<lparr>d32rxregs := (d32rxregs (hw di))\<lparr>ptr := I2B i sizeof_dma32dd\<rparr>\<rparr>,
     e_rx_curr = \<lambda>di. B2I (status (d32rxregs (hw di)) AND RS_CD_MASK) sizeof_dma32dd,
     e_rx_mapping = \<lambda>di i. dd_addr (rxd32 (hw di) ! unat i) - dataoffsetlow di,
     e_rx_zap = \<lambda>di i. (hw di)\<lparr>rxd32 := (rxd32 (hw di))[unat i := (rxd32 (hw di) ! unat i)\<lparr>dd_addr := poison\<rparr>]\<rparr>\<rparr>"

definition engine64 :: engine where
  "engine64 = \<lparr>
     e_tx_upd = \<lambda>di pa i fl len. let (fl, ring) = dma64_dd_upd di (txd64 (hw di)) pa i fl len in (fl, (hw di)\<lparr>txd64 := ring\<rparr>),
     e_tx_ctrl = \<lambda>di i c. (hw di)\<lparr>txd64 := (txd64 (hw di))[unat i := (txd64 (hw di) ! unat i)\<lparr>ctrl1 := c\<rparr>]\<rparr>,
     e_tx_kick = \<lambda>di i. (hw di)\<lparr>d64txregs := (d64txregs (hw di))\<lparr>ptr64 := I2B i sizeof_dma64dd\<rparr>\<rparr>,
     e_tx_curr = \<lambda>di. B2I (status0 (d64txregs (hw di)) AND D64_XS0_CD_MASK) sizeof_dma64dd,
     e_tx_active = \<lambda>di. B2I (status1 (d64txregs (hw di)) AND D64_XS1_AD_MASK) sizeof_dma64dd,
     e_tx_mapping = \<lambda>di i. (addrlow (txd64 (hw di) ! unat i) - dataoffsetlow di, ctrl2 (txd64 (hw di) ! unat i) AND D64_CTRL2_BC_MASK),
     e_tx_zap = \<lambda>di i. (hw di)\<lparr>txd64 := (txd64 (hw di))[unat i := (txd64 (hw di) ! unat i)\<lparr>addrlow := poison, addrhigh := poison\<rparr>]\<rparr>,
     e_tx_move = \<lambda>di old new. let d = txd64 (hw di) ! unat old;
         w = (ctrl1 d AND NOT D64_CTRL1_EOT) OR (if new = ntxd di - 1 then D64_CTRL1_EOT else 0);
         ring = (txd64 (hw di))[unat new := \<lparr>ctrl1 = w, ctrl2 = ctrl2 d, addrlow = addrlow d, addrhigh = addrhigh d\<rparr>]
       in (hw di)\<lparr>txd64 := ring[unat old := (ring ! unat old)\<lparr>addrlow := poison, addrhigh := poison\<rparr>]\<rparr>,
     e_rx_upd = \<lambda>di pa i fl len. let (fl, ring) = dma64_dd_upd di (rxd64 (hw di)) pa i fl len in (fl, (hw di)\<lparr>rxd64 := ring\<rparr>),
     e_rx_kick = \<lambda>di i. (hw di)\<lparr>d64rxregs := (d64rxregs (hw di))\<lparr>ptr64 := I2B i sizeof_dma64dd\<rparr>\<rparr>,
     e_rx_curr = \<lambda>di. B2I (status0 (d64rxregs (hw di)) AND D64_RS0_CD_MASK) sizeof_dma64dd,
     e_rx_mapping = \<lambda>di i. addrlow (rxd64 (hw di) ! unat i) - dataoffsetlow di,
     e_rx_zap = \<lambda>di i. (hw di)\<lparr>rxd64 := (rxd64 (hw di))[unat i := (rxd64 (hw di) ! unat i)\<lparr>addrlow := poison, addrhigh := poison\<rparr>]\<rparr>\<rparr>"

text \<open>The engine dma_attach selects.\<close>

definition engine_of :: "dma_info \<Rightarrow> engine" where
  "engine_of di = (if dma64 di then engine64 else engine32)"

section \<open>Transmit\<close>

text \<open>The loop of txfast over the chain of buffers: success, the next descriptor, the last flags.\<close>

fun txfast_loop :: "engine \<Rightarrow> bool \<Rightarrow> pktbuf list \<Rightarrow> u32 \<Rightarrow> u32 \<Rightarrow> dma_info \<Rightarrow> bool \<times> u32 \<times> u32 \<times> dma_info" where
  "txfast_loop E first [] out fl di = (True, out, fl, di)"
| "txfast_loop E first (b # bs) out fl di = (
     if NEXTTXD di out = txin di then (False, out, fl, di)
     else if b_len b = 0 then txfast_loop E False bs out fl di
     else let di = emit (Map (b_pa b) (b_len b)) di;
              fl = (if first then CTRL_SOF else 0) OR (if bs = [] then CTRL_IOC OR CTRL_EOF else 0) OR
                   (if out = ntxd di - 1 then CTRL_EOT else 0);
              (fl, h) = e_tx_upd E di (b_pa b) out fl (b_len b)
          in txfast_loop E False bs (NEXTTXD di out) fl (di\<lparr>hw := h\<rparr>))"

definition txfast :: "engine \<Rightarrow> packet \<Rightarrow> bool \<Rightarrow> dma_info \<Rightarrow> int \<times> dma_info" where
  "txfast E p0 commit di = (case txfast_loop E True (bufs p0) (txout di) 0 di of (ok, out, fl, di) \<Rightarrow>
     if \<not> ok then (-1, (PKTFREE p0 di)\<lparr>txavail := 0, txnobuf := txnobuf di + 1\<rparr>)
     else let di = (if fl AND CTRL_EOF = 0 then di\<lparr>hw := e_tx_ctrl E di (PREVTXD di out) (fl OR CTRL_IOC OR CTRL_EOF)\<rparr> else di);
              di = di\<lparr>txp := (txp di)[unat (PREVTXD di out) := Some p0]\<rparr>;
              di = di\<lparr>txout := out\<rparr>;
              di = (if commit then di\<lparr>hw := e_tx_kick E di out\<rparr> else di)
          in (0, di\<lparr>txavail := tx_free di\<rparr>))"

definition dma32_txfast :: "packet \<Rightarrow> bool \<Rightarrow> dma_info \<Rightarrow> int \<times> dma_info" where "dma32_txfast = txfast engine32"
definition dma64_txfast :: "packet \<Rightarrow> bool \<Rightarrow> dma_info \<Rightarrow> int \<times> dma_info" where "dma64_txfast = txfast engine64"

text \<open>One descriptor of getnexttxp: the mapping is undone, the address is poisoned, the packet pointer taken.\<close>

definition reclaim_one :: "engine \<Rightarrow> u32 \<Rightarrow> dma_info \<Rightarrow> packet option \<times> dma_info" where
  "reclaim_one E i di = (
     let di = (case e_tx_mapping E di i of (pa, len) \<Rightarrow> emit (Unmap pa len) di);
         di = di\<lparr>hw := e_tx_zap E di i\<rparr>;
         p = txp di ! unat i
     in (p, di\<lparr>txp := (txp di)[unat i := None]\<rparr>))"

partial_function (option) getnexttxp_loop :: "engine \<Rightarrow> u32 \<Rightarrow> u32 \<Rightarrow> dma_info \<Rightarrow> (u32 \<times> packet option \<times> dma_info) option" where
  "getnexttxp_loop E stop i di = (if i = stop then Some (i, None, di)
     else let r = reclaim_one E i di in
       if fst r \<noteq> None then Some (NEXTTXD di i, fst r, snd r)
       else getnexttxp_loop E stop (NEXTTXD di i) (snd r))"

definition getnexttxp :: "engine \<Rightarrow> bool \<Rightarrow> dma_info \<Rightarrow> (packet option \<times> dma_info) option" where
  "getnexttxp E forceall di = (if ntxd di = 0 then Some (None, di)
     else let stop = (if forceall then txout di else e_tx_curr E di) in
       if txin di = 0 \<and> stop > txout di then Some (None, di)
       else map_option (\<lambda>(i, p, di). let di = di\<lparr>txin := i\<rparr> in (p, di\<lparr>txavail := tx_free di\<rparr>)) (getnexttxp_loop E stop (txin di) di))"

definition dma32_getnexttxp :: "bool \<Rightarrow> dma_info \<Rightarrow> (packet option \<times> dma_info) option" where "dma32_getnexttxp = getnexttxp engine32"
definition dma64_getnexttxp :: "bool \<Rightarrow> dma_info \<Rightarrow> (packet option \<times> dma_info) option" where "dma64_getnexttxp = getnexttxp engine64"

partial_function (option) txreclaim :: "engine \<Rightarrow> bool \<Rightarrow> dma_info \<Rightarrow> dma_info option" where
  "txreclaim E forceall di = Option.bind (getnexttxp E forceall di) (\<lambda>r. case r of (p, di) \<Rightarrow>
     (case p of None \<Rightarrow> Some di | Some p \<Rightarrow> txreclaim E forceall (PKTFREE p di)))"

definition dma32_txreclaim :: "bool \<Rightarrow> dma_info \<Rightarrow> dma_info option" where "dma32_txreclaim = txreclaim engine32"
definition dma64_txreclaim :: "bool \<Rightarrow> dma_info \<Rightarrow> dma_info option" where "dma64_txreclaim = txreclaim engine64"

partial_function (option) peek_loop :: "u32 \<Rightarrow> u32 \<Rightarrow> dma_info \<Rightarrow> packet option option" where
  "peek_loop stop i di = (if i = stop then Some None
     else if txp di ! unat i \<noteq> None then Some (txp di ! unat i) else peek_loop stop (NEXTTXD di i) di)"

definition dma_peeknexttxp :: "dma_info \<Rightarrow> packet option option" where
  "dma_peeknexttxp di = (if ntxd di = 0 then Some None else peek_loop (e_tx_curr (engine_of di) di) (txin di) di)"

definition dma_txblock :: "dma_info \<Rightarrow> dma_info" where "dma_txblock di = di\<lparr>txavail := 0\<rparr>"
definition dma_txunblock :: "dma_info \<Rightarrow> dma_info" where "dma_txunblock di = di\<lparr>txavail := tx_free di\<rparr>"
definition dma_txactive :: "dma_info \<Rightarrow> u32" where "dma_txactive di = NTXDACTIVE di (txin di) (txout di)"

definition dma_counterreset :: "dma_info \<Rightarrow> dma_info" where
  "dma_counterreset di = di\<lparr>rxgiants := 0, rxnobuf := 0, txnobuf := 0\<rparr>"

text \<open>One step of the loop of txrotate, and the loop from the last active descriptor back to the first.\<close>

definition rotate_one :: "engine \<Rightarrow> u32 \<Rightarrow> u32 \<Rightarrow> dma_info \<Rightarrow> dma_info" where
  "rotate_one E rot old di = (
     let new = TXD di (old + rot); di = di\<lparr>hw := e_tx_move E di old new\<rparr>;
         tps = (txp di)[unat new := txp di ! unat old]
     in di\<lparr>txp := tps[unat old := None]\<rparr>)"

partial_function (option) rotate_loop :: "engine \<Rightarrow> u32 \<Rightarrow> u32 \<Rightarrow> u32 \<Rightarrow> dma_info \<Rightarrow> dma_info option" where
  "rotate_loop E rot stop old di = (if old = stop then Some di
     else rotate_loop E rot stop (PREVTXD di old) (rotate_one E rot old di))"

definition txrotate :: "engine \<Rightarrow> dma_info \<Rightarrow> dma_info option" where
  "txrotate E di = (let nactive = dma_txactive di; ad = e_tx_active E di; rot = TXD di (ad - txin di) in
     if rot \<ge> ntxd di - nactive then Some di
     else map_option (\<lambda>di. let di = di\<lparr>txin := ad, txout := TXD di (txout di + rot)\<rparr>; di = di\<lparr>txavail := tx_free di\<rparr>
         in di\<lparr>hw := e_tx_kick E di (txout di)\<rparr>)
       (rotate_loop E rot (PREVTXD di (txin di)) (PREVTXD di (txout di)) di))"

definition dma32_txrotate :: "dma_info \<Rightarrow> dma_info option" where "dma32_txrotate = txrotate engine32"
definition dma64_txrotate :: "dma_info \<Rightarrow> dma_info option" where "dma64_txrotate = txrotate engine64"

section \<open>Receive\<close>

definition getnextrxp :: "engine \<Rightarrow> bool \<Rightarrow> dma_info \<Rightarrow> packet option \<times> dma_info" where
  "getnextrxp E forceall di = (let i = rxin di in
     if i = rxout di then (None, di)
     else if \<not> forceall \<and> i = e_rx_curr E di then (None, di)
     else let p = rxp di ! unat i;
              di = di\<lparr>rxp := (rxp di)[unat i := None]\<rparr>;
              di = emit (Unmap (e_rx_mapping E di i) (rxbufsize di)) di;
              di = di\<lparr>hw := e_rx_zap E di i\<rparr>
          in (p, di\<lparr>rxin := NEXTRXD di i\<rparr>))"

definition dma32_getnextrxp :: "bool \<Rightarrow> dma_info \<Rightarrow> packet option \<times> dma_info" where "dma32_getnextrxp = getnextrxp engine32"
definition dma64_getnextrxp :: "bool \<Rightarrow> dma_info \<Rightarrow> packet option \<times> dma_info" where "dma64_getnextrxp = getnextrxp engine64"

definition dma_getnextrxp :: "bool \<Rightarrow> dma_info \<Rightarrow> packet option \<times> dma_info" where
  "dma_getnextrxp forceall di = (if nrxd di = 0 then (None, di)
     else if dma64 di then dma64_getnextrxp forceall di else dma32_getnextrxp forceall di)"

partial_function (option) dma_rx_loop :: "int \<Rightarrow> dma_info \<Rightarrow> (packet option \<times> dma_info) option" where
  "dma_rx_loop skiplen di = (case dma_getnextrxp False di of (r, di) \<Rightarrow> (case r of
     None \<Rightarrow> Some (None, di)
   | Some p \<Rightarrow>
       if skiplen > 0 then dma_rx_loop (max 0 (sint (word_of_int skiplen - rxbufsize di))) (PKTFREE p di)
       else let len = ucast (frame_len p) :: u32; room = rxbufsize di - rxoffset di in
         if len > room
         then dma_rx_loop (if len > 0 then sint (len - room) else skiplen) ((PKTFREE p di)\<lparr>rxgiants := rxgiants di + 1\<rparr>)
         else Some (Some (p\<lparr>pkt_len := rxoffset di + len\<rparr>), di)))"

definition dma_rx :: "dma_info \<Rightarrow> (packet option \<times> dma_info) option" where "dma_rx = dma_rx_loop 0"

primrec rxfill_loop :: "engine \<Rightarrow> nat \<Rightarrow> u32 \<Rightarrow> dma_info \<Rightarrow> u32 \<times> dma_info" where
  "rxfill_loop E 0 out di = (out, di)"
| "rxfill_loop E (Suc n) out di = (case PKTGET di of (r, di) \<Rightarrow> (case r of
     None \<Rightarrow> (out, di\<lparr>rxnobuf := rxnobuf di + 1\<rparr>)
   | Some p \<Rightarrow>
       let p = p\<lparr>frame_len := 0\<rparr>; pa = b_pa (hd (bufs p));
           di = emit (Map pa (rxbufsize di)) di;
           di = di\<lparr>rxp := (rxp di)[unat out := Some p]\<rparr>;
           fl = (if out = nrxd di - 1 then CTRL_EOT else 0);
           (fl, h) = e_rx_upd E di pa out fl (rxbufsize di)
       in rxfill_loop E n (NEXTRXD di out) (di\<lparr>hw := h\<rparr>)))"

definition dma_rxfill :: "dma_info \<Rightarrow> dma_info" where
  "dma_rxfill di = (let E = engine_of di; n = nrxpost di - NRXDACTIVE di (rxin di) (rxout di);
     (out, di) = rxfill_loop E (unat n) (rxout di) di; di = di\<lparr>rxout := out\<rparr>
     in di\<lparr>hw := e_rx_kick E di out\<rparr>)"

partial_function (option) dma_rxreclaim :: "dma_info \<Rightarrow> dma_info option" where
  "dma_rxreclaim di = (case dma_getnextrxp True di of (r, di) \<Rightarrow> (case r of
     None \<Rightarrow> Some di | Some p \<Rightarrow> dma_rxreclaim (PKTFREE p di)))"

section \<open>Control\<close>

datatype direction = DMA_TX | DMA_RX

definition upd_d32txregs :: "(dma32regs \<Rightarrow> dma32regs) \<Rightarrow> dma_info \<Rightarrow> dma_info" where
  "upd_d32txregs f di = di\<lparr>hw := (hw di)\<lparr>d32txregs := f (d32txregs (hw di))\<rparr>\<rparr>"
definition upd_d32rxregs :: "(dma32regs \<Rightarrow> dma32regs) \<Rightarrow> dma_info \<Rightarrow> dma_info" where
  "upd_d32rxregs f di = di\<lparr>hw := (hw di)\<lparr>d32rxregs := f (d32rxregs (hw di))\<rparr>\<rparr>"
definition upd_d64txregs :: "(dma64regs \<Rightarrow> dma64regs) \<Rightarrow> dma_info \<Rightarrow> dma_info" where
  "upd_d64txregs f di = di\<lparr>hw := (hw di)\<lparr>d64txregs := f (d64txregs (hw di))\<rparr>\<rparr>"
definition upd_d64rxregs :: "(dma64regs \<Rightarrow> dma64regs) \<Rightarrow> dma_info \<Rightarrow> dma_info" where
  "upd_d64rxregs f di = di\<lparr>hw := (hw di)\<lparr>d64rxregs := f (d64rxregs (hw di))\<rparr>\<rparr>"

definition set_bits :: "u32 \<Rightarrow> u32 \<Rightarrow> u32 \<Rightarrow> u32" where
  "set_bits m v r = (r AND NOT m) OR v"

definition dma_ddtable_init :: "direction \<Rightarrow> u32 \<Rightarrow> dma_info \<Rightarrow> dma_info" where
  "dma_ddtable_init dir pa di = (
     let ext = (ddoffsetlow di = SB_PCI_DMA \<and> pa AND PCI32ADDR_HIGH \<noteq> 0);
         ae = ae_bits pa; a = (if ext then pa AND NOT PCI32ADDR_HIGH else pa) + ddoffsetlow di in
     if dma64 di then (case dir of
         DMA_TX \<Rightarrow> upd_d64txregs (\<lambda>r. (if ext then r\<lparr>control64 := set_bits D64_XC_AE (push_bit D64_XC_AE_SHIFT ae) (control64 r)\<rparr> else r)
           \<lparr>addrlow64 := a, addrhigh64 := ddoffsethigh di\<rparr>) di
       | DMA_RX \<Rightarrow> upd_d64rxregs (\<lambda>r. (if ext then r\<lparr>control64 := set_bits D64_RC_AE (push_bit D64_RC_AE_SHIFT ae) (control64 r)\<rparr> else r)
           \<lparr>addrlow64 := a, addrhigh64 := ddoffsethigh di\<rparr>) di)
     else (case dir of
         DMA_TX \<Rightarrow> upd_d32txregs (\<lambda>r. (if ext then r\<lparr>control := set_bits XC_AE (push_bit XC_AE_SHIFT ae) (control r)\<rparr> else r)\<lparr>addr := a\<rparr>) di
       | DMA_RX \<Rightarrow> upd_d32rxregs (\<lambda>r. (if ext then r\<lparr>control := set_bits RC_AE (push_bit RC_AE_SHIFT ae) (control r)\<rparr> else r)\<lparr>addr := a\<rparr>) di))"

definition zero_dd32 :: dma32dd where "zero_dd32 = \<lparr>dd_ctrl = 0, dd_addr = 0\<rparr>"
definition zero_dd64 :: dma64dd where "zero_dd64 = \<lparr>ctrl1 = 0, ctrl2 = 0, addrlow = 0, addrhigh = 0\<rparr>"

definition dma32_txinit :: "dma_info \<Rightarrow> dma_info" where
  "dma32_txinit di = (if ntxd di = 0 then di
     else let di = di\<lparr>txin := 0, txout := 0, txavail := ntxd di - 1, hw := (hw di)\<lparr>txd32 := replicate (unat (ntxd di)) zero_dd32\<rparr>\<rparr>
       in dma_ddtable_init DMA_TX (txdpa di) (upd_d32txregs (\<lambda>r. r\<lparr>control := XC_XE\<rparr>) di))"

definition dma64_txinit :: "dma_info \<Rightarrow> dma_info" where
  "dma64_txinit di = (if ntxd di = 0 then di
     else let di = di\<lparr>txin := 0, txout := 0, txavail := ntxd di - 1, hw := (hw di)\<lparr>txd64 := replicate (unat (ntxd di)) zero_dd64\<rparr>\<rparr>
       in dma_ddtable_init DMA_TX (txdpa di) (upd_d64txregs (\<lambda>r. r\<lparr>control64 := D64_XC_XE\<rparr>) di))"

definition dma_rxenable :: "dma_info \<Rightarrow> dma_info" where
  "dma_rxenable di = (if dma64 di
     then upd_d64rxregs (\<lambda>r. r\<lparr>control64 := push_bit D64_RC_RO_SHIFT (rxoffset di) OR D64_RC_RE\<rparr>) di
     else upd_d32rxregs (\<lambda>r. r\<lparr>control := push_bit RC_RO_SHIFT (rxoffset di) OR RC_RE\<rparr>) di)"

definition dma_rxinit :: "dma_info \<Rightarrow> dma_info" where
  "dma_rxinit di = (if nrxd di = 0 then di
     else let di = di\<lparr>rxin := 0, rxout := 0\<rparr>;
              di = (if dma64 di then di\<lparr>hw := (hw di)\<lparr>rxd64 := replicate (unat (nrxd di)) zero_dd64\<rparr>\<rparr>
                    else di\<lparr>hw := (hw di)\<lparr>rxd32 := replicate (unat (nrxd di)) zero_dd32\<rparr>\<rparr>)
       in dma_ddtable_init DMA_RX (rxdpa di) (dma_rxenable di))"

definition dma_fifoloopbackenable :: "dma_info \<Rightarrow> dma_info" where
  "dma_fifoloopbackenable di = (if dma64 di then upd_d64txregs (\<lambda>r. r\<lparr>control64 := control64 r OR D64_XC_LE\<rparr>) di
     else upd_d32txregs (\<lambda>r. r\<lparr>control := control r OR XC_LE\<rparr>) di)"

definition dma_txpioloopback :: "dma32regs \<Rightarrow> dma32regs" where
  "dma_txpioloopback r = r\<lparr>control := control r OR XC_LE\<rparr>"

definition dma32_txenabled :: "dma_info \<Rightarrow> bool" where
  "dma32_txenabled di = (let xc = control (d32txregs (hw di)) in xc \<noteq> 0xffffffff \<and> xc AND XC_XE \<noteq> 0)"
definition dma64_txenabled :: "dma_info \<Rightarrow> bool" where
  "dma64_txenabled di = (let xc = control64 (d64txregs (hw di)) in xc \<noteq> 0xffffffff \<and> xc AND D64_XC_XE \<noteq> 0)"
definition dma32_rxenabled :: "dma_info \<Rightarrow> bool" where
  "dma32_rxenabled di = (let rc = control (d32rxregs (hw di)) in rc \<noteq> 0xffffffff \<and> rc AND RC_RE \<noteq> 0)"
definition dma64_rxenabled :: "dma_info \<Rightarrow> bool" where
  "dma64_rxenabled di = (let rc = control64 (d64rxregs (hw di)) in rc \<noteq> 0xffffffff \<and> rc AND D64_RC_RE \<noteq> 0)"

definition dma32_txsuspend :: "dma_info \<Rightarrow> dma_info" where
  "dma32_txsuspend di = (if ntxd di = 0 then di else upd_d32txregs (\<lambda>r. r\<lparr>control := control r OR XC_SE\<rparr>) di)"
definition dma64_txsuspend :: "dma_info \<Rightarrow> dma_info" where
  "dma64_txsuspend di = (if ntxd di = 0 then di else upd_d64txregs (\<lambda>r. r\<lparr>control64 := control64 r OR D64_XC_SE\<rparr>) di)"
definition dma32_txresume :: "dma_info \<Rightarrow> dma_info" where
  "dma32_txresume di = (if ntxd di = 0 then di else upd_d32txregs (\<lambda>r. r\<lparr>control := control r AND NOT XC_SE\<rparr>) di)"
definition dma64_txresume :: "dma_info \<Rightarrow> dma_info" where
  "dma64_txresume di = (if ntxd di = 0 then di else upd_d64txregs (\<lambda>r. r\<lparr>control64 := control64 r AND NOT D64_XC_SE\<rparr>) di)"
definition dma32_txsuspended :: "dma_info \<Rightarrow> bool" where
  "dma32_txsuspended di = (ntxd di = 0 \<or> control (d32txregs (hw di)) AND XC_SE = XC_SE)"
definition dma64_txsuspended :: "dma_info \<Rightarrow> bool" where
  "dma64_txsuspended di = (ntxd di = 0 \<or> control64 (d64txregs (hw di)) AND D64_XC_SE = D64_XC_SE)"

definition dma32_txstopped :: "dma_info \<Rightarrow> bool" where
  "dma32_txstopped di = (status (d32txregs (hw di)) AND XS_XS_MASK = XS_XS_STOPPED)"
definition dma64_txstopped :: "dma_info \<Rightarrow> bool" where
  "dma64_txstopped di = (status0 (d64txregs (hw di)) AND D64_XS0_XS_MASK = D64_XS0_XS_STOPPED)"
definition dma32_rxstopped :: "dma_info \<Rightarrow> bool" where
  "dma32_rxstopped di = (status (d32rxregs (hw di)) AND RS_RS_MASK = RS_RS_STOPPED)"
definition dma64_rxstopped :: "dma_info \<Rightarrow> bool" where
  "dma64_rxstopped di = (status0 (d64rxregs (hw di)) AND D64_RS0_RS_MASK = D64_RS0_RS_STOPPED)"

definition dma32_rxidle :: "dma_info \<Rightarrow> bool" where
  "dma32_rxidle di = (nrxd di = 0 \<or> status (d32rxregs (hw di)) AND RS_CD_MASK = ptr (d32rxregs (hw di)))"
definition dma64_rxidle :: "dma_info \<Rightarrow> bool" where
  "dma64_rxidle di = (nrxd di = 0 \<or> status0 (d64rxregs (hw di)) AND D64_RS0_CD_MASK = ptr64 (d64rxregs (hw di)))"

text \<open>\<open>later\<close>: the status register when it is read again after the delay.\<close>

definition dma32_txsuspendedidle :: "u32 \<Rightarrow> dma_info \<Rightarrow> bool" where
  "dma32_txsuspendedidle later di = (ntxd di = 0 \<or>
     (control (d32txregs (hw di)) AND XC_SE \<noteq> 0 \<and> status (d32txregs (hw di)) AND XS_XS_MASK = XS_XS_IDLE \<and>
      later AND XS_XS_MASK = XS_XS_IDLE))"
definition dma64_txsuspendedidle :: "dma_info \<Rightarrow> bool" where
  "dma64_txsuspendedidle di = (ntxd di = 0 \<or>
     (control64 (d64txregs (hw di)) AND D64_XC_SE \<noteq> 0 \<and> status0 (d64txregs (hw di)) AND D64_XS0_XS_MASK = D64_XS0_XS_IDLE))"

text \<open>SPINWAIT on a register whose k-th reading is \<open>reads k\<close>: the last reading and the number of the next.\<close>

function spinwait :: "(u32 \<Rightarrow> bool) \<Rightarrow> (nat \<Rightarrow> u32) \<Rightarrow> nat \<Rightarrow> nat \<Rightarrow> u32 \<times> nat" where
  "spinwait waiting reads k countdown = (if waiting (reads k) \<and> countdown \<ge> 10
     then spinwait waiting reads (Suc k) (countdown - 10) else (reads k, Suc k))"
  by auto
termination by (relation "measure (\<lambda>(w, r, k, c). c)") auto

declare spinwait.simps [simp del]

definition dma32_txreset :: "(nat \<Rightarrow> u32) \<Rightarrow> dma_info \<Rightarrow> bool \<times> dma_info" where
  "dma32_txreset reads di = (if ntxd di = 0 then (True, di)
     else let st = (\<lambda>k. reads k AND XS_XS_MASK);
              di = upd_d32txregs (\<lambda>r. r\<lparr>control := XC_SE\<rparr>) di;
              k = snd (spinwait (\<lambda>s. s \<noteq> XS_XS_DISABLED \<and> s \<noteq> XS_XS_IDLE \<and> s \<noteq> XS_XS_STOPPED) st 0 10009);
              di = upd_d32txregs (\<lambda>r. r\<lparr>control := 0\<rparr>) di;
              s = fst (spinwait (\<lambda>s. s \<noteq> XS_XS_DISABLED) st k 10009)
          in (s = XS_XS_DISABLED, di))"

definition dma64_txreset :: "(nat \<Rightarrow> u32) \<Rightarrow> dma_info \<Rightarrow> bool \<times> dma_info" where
  "dma64_txreset reads di = (if ntxd di = 0 then (True, di)
     else let st = (\<lambda>k. reads k AND D64_XS0_XS_MASK);
              di = upd_d64txregs (\<lambda>r. r\<lparr>control64 := D64_XC_SE\<rparr>) di;
              k = snd (spinwait (\<lambda>s. s \<noteq> D64_XS0_XS_DISABLED \<and> s \<noteq> D64_XS0_XS_IDLE \<and> s \<noteq> D64_XS0_XS_STOPPED) st 0 10009);
              di = upd_d64txregs (\<lambda>r. r\<lparr>control64 := 0\<rparr>) di;
              s = fst (spinwait (\<lambda>s. s \<noteq> D64_XS0_XS_DISABLED) st k 10009)
          in (s = D64_XS0_XS_DISABLED, di))"

definition dma32_rxreset :: "(nat \<Rightarrow> u32) \<Rightarrow> dma_info \<Rightarrow> bool \<times> dma_info" where
  "dma32_rxreset reads di = (if nrxd di = 0 then (True, di)
     else let di = upd_d32rxregs (\<lambda>r. r\<lparr>control := 0\<rparr>) di;
              s = fst (spinwait (\<lambda>s. s \<noteq> RS_RS_DISABLED) (\<lambda>k. reads k AND RS_RS_MASK) 0 10009)
          in (s = RS_RS_DISABLED, di))"

definition dma64_rxreset :: "(nat \<Rightarrow> u32) \<Rightarrow> dma_info \<Rightarrow> bool \<times> dma_info" where
  "dma64_rxreset reads di = (if nrxd di = 0 then (True, di)
     else let di = upd_d64rxregs (\<lambda>r. r\<lparr>control64 := 0\<rparr>) di;
              s = fst (spinwait (\<lambda>s. s \<noteq> D64_RS0_RS_DISABLED) (\<lambda>k. reads k AND D64_RS0_RS_MASK) 0 10009)
          in (s = D64_RS0_RS_DISABLED, di))"

text \<open>The test for address extension: \<open>rb\<close> gives what a register reads after a value was written to it.\<close>

definition dma32_addrext :: "(u32 \<Rightarrow> u32) \<Rightarrow> dma32regs \<Rightarrow> bool \<times> dma32regs" where
  "dma32_addrext rb r = (let w = rb (control r OR XC_AE) in (w AND XC_AE = XC_AE, r\<lparr>control := rb (w AND NOT XC_AE)\<rparr>))"

definition dma64_addrext :: "(u32 \<Rightarrow> u32) \<Rightarrow> dma64regs \<Rightarrow> bool \<times> dma64regs" where
  "dma64_addrext rb r = (let w = rb (control64 r OR D64_XC_AE) in (w AND D64_XC_AE = D64_XC_AE, r\<lparr>control64 := rb (w AND NOT D64_XC_AE)\<rparr>))"

section \<open>The operation tables\<close>

text \<open>A call through \<open>di_fn\<close>, which dma_attach sets to \<open>dma64proc\<close> or \<open>dma32proc\<close>.\<close>

definition di_txinit :: "dma_info \<Rightarrow> dma_info" where
  "di_txinit di = (if dma64 di then dma64_txinit di else dma32_txinit di)"

definition di_txfast :: "packet \<Rightarrow> bool \<Rightarrow> dma_info \<Rightarrow> int \<times> dma_info" where
  "di_txfast p commit di = (if dma64 di then dma64_txfast p commit di else dma32_txfast p commit di)"

definition di_getnexttxp :: "bool \<Rightarrow> dma_info \<Rightarrow> (packet option \<times> dma_info) option" where
  "di_getnexttxp forceall di = (if dma64 di then dma64_getnexttxp forceall di else dma32_getnexttxp forceall di)"

definition di_txreclaim :: "bool \<Rightarrow> dma_info \<Rightarrow> dma_info option" where
  "di_txreclaim forceall di = (if dma64 di then dma64_txreclaim forceall di else dma32_txreclaim forceall di)"

definition di_txrotate :: "dma_info \<Rightarrow> dma_info option" where
  "di_txrotate di = (if dma64 di then dma64_txrotate di else dma32_txrotate di)"

end
