(* ===== verification/Hnd_Dma_Ring.thy ===== *)
theory Hnd_Dma_Ring
  imports Hnd_Dma
begin

text \<open>
  The rings of Hnd_Dma as queues: with the ring size a power of two, the transmit ring holds the packets
  from \<open>txin\<close> to \<open>txout\<close> in order, txfast appends one, getnexttxp removes the first, and the
  descriptors and mappings of the engine follow them.
\<close>

section \<open>Index arithmetic\<close>

definition pow2 :: "u32 \<Rightarrow> bool" where "pow2 n = list_ex (\<lambda>k. n = 2 ^ k) [0..<32]"

lemma pow2E:
  assumes "pow2 n"
  obtains k where "k < 32" "n = 2 ^ k" "unat n = 2 ^ k"
proof -
  from assms obtain k where k: "k < 32" "n = 2 ^ k" by (auto simp: pow2_def list_ex_iff)
  have "(2::nat) ^ k < 2 ^ 32" using k by (intro power_strict_increasing) auto
  with k have "unat (of_nat (2 ^ k) :: u32) = 2 ^ k" by (simp only: unsigned_of_nat) (simp add: take_bit_nat_eq_self)
  moreover have "of_nat (2 ^ k) = (2 ^ k :: u32)" by simp
  ultimately have "unat (2 ^ k :: u32) = 2 ^ k" by simp
  with k show thesis using that by blast
qed

lemma uint_XXD:
  assumes "pow2 n"
  shows "uint (XXD x n) = uint x mod uint n"
  using assms
proof (rule pow2E)
  fix k assume k: "k < 32" "n = 2 ^ k" "unat n = 2 ^ k"
  have "uint n = 2 ^ k" using k(3) by (metis of_nat_numeral of_nat_power uint_nat)
  moreover have "XXD x n = take_bit k x" by (simp add: XXD_def k(2) take_bit_eq_mask mask_eq_decr_exp)
  ultimately show ?thesis by (metis unsigned_take_bit_eq take_bit_eq_mod)
qed

lemma uint_pow2_wrap:
  assumes "pow2 n"
  shows "uint n dvd 2 ^ 32"
  using assms
proof (rule pow2E)
  fix k assume k: "k < 32" "n = 2 ^ k" "unat n = 2 ^ k"
  have "uint n = 2 ^ k" using k(3) by (metis of_nat_numeral of_nat_power uint_nat)
  moreover have "(2::int) ^ k dvd 2 ^ 32" using k by (intro le_imp_power_dvd) simp
  ultimately show ?thesis by simp
qed

lemma unat_XXD_diff:
  assumes "pow2 n" "h < n"
  shows "unat (XXD (t - h) n) = (unat t + unat n - unat h) mod unat n"
proof -
  have "uint (XXD (t - h) n) = (uint t - uint h) mod uint n"
    using assms uint_pow2_wrap by (simp add: uint_XXD uint_word_ariths mod_mod_cancel)
  also have "\<dots> = int ((unat t + unat n - unat h) mod unat n)"
    using assms(2) by (simp add: zmod_int of_nat_diff word_less_nat_alt add_diff_eq flip: uint_nat) 
      (metis add.commute add_diff_eq mod_add_self1 )
  finally show ?thesis by (metis nat_int unat_eq_nat_uint)
qed

lemma unat_XXD_add:
  assumes "pow2 n"
  shows "unat (XXD (a + b) n) = (unat a + unat b) mod unat n"
proof -
  have "uint (XXD (a + b) n) = (uint a + uint b) mod uint n"
    using assms uint_pow2_wrap by (simp add: uint_XXD uint_word_ariths mod_mod_cancel)
  also have "\<dots> = int ((unat a + unat b) mod unat n)" by (simp add: zmod_int flip: uint_nat)
  finally show ?thesis by (metis nat_int unat_eq_nat_uint)
qed

lemma pow2_pos: "pow2 n \<Longrightarrow> 0 < unat n"
  by (erule pow2E) simp

lemma pow2_nz: "pow2 n \<Longrightarrow> n \<noteq> 0"
  using pow2_pos by fastforce

lemma XXD_less: "pow2 n \<Longrightarrow> XXD x n < n"
  using unat_XXD_add[of n x 0] by (simp add: word_less_nat_alt pow2_pos)

lemma unat_NEXT: "pow2 n \<Longrightarrow> unat (XXD (i + 1) n) = Suc (unat i) mod unat n"
  by (simp add: unat_XXD_add)

section \<open>The transmit ring as a queue\<close>

text \<open>The slots from \<open>txin\<close> on, and the number of slots in use.\<close>

abbreviation nt :: "dma_info \<Rightarrow> nat" where "nt di \<equiv> unat (ntxd di)"

definition tx_view :: "dma_info \<Rightarrow> packet option list" where
  "tx_view di = rotate (unat (txin di)) (txp di)"

definition tx_used :: "dma_info \<Rightarrow> nat" where "tx_used di = unat (dma_txactive di)"

definition tx_queue :: "dma_info \<Rightarrow> packet list" where
  "tx_queue di = List.map_filter id (tx_view di)"

text \<open>The invariant: the size is a power of two, the indices are in the ring, and no packet hangs off a slot
  that is not in use.\<close>

definition tx_inv :: "dma_info \<Rightarrow> bool" where
  "tx_inv di = (pow2 (ntxd di) \<and> txin di < ntxd di \<and> txout di < ntxd di \<and> length (txp di) = nt di \<and>
     list_all (\<lambda>p. p = None) (drop (tx_used di) (tx_view di)))"

lemma tx_inv_pow2: "tx_inv di \<Longrightarrow> pow2 (ntxd di)"
  by (simp add: tx_inv_def)

lemma tx_used_eq: "tx_inv di \<Longrightarrow> tx_used di = (unat (txout di) + nt di - unat (txin di)) mod nt di"
  by (simp add: tx_inv_def tx_used_def dma_txactive_def NTXDACTIVE_def TXD_def unat_XXD_diff)

lemma tx_used_less: "tx_inv di \<Longrightarrow> tx_used di < nt di"
  by (simp add: tx_used_eq pow2_pos tx_inv_pow2)

lemma tx_out_eq: "tx_inv di \<Longrightarrow> unat (txout di) = (unat (txin di) + tx_used di) mod nt di"
proof -
  assume inv: "tx_inv di"
  then have le: "unat (txin di) < nt di" "unat (txout di) < nt di" by (simp_all add: tx_inv_def word_less_nat_alt)
  have "(unat (txin di) + tx_used di) mod nt di = (unat (txin di) + (unat (txout di) + nt di - unat (txin di))) mod nt di"
    by (simp add: tx_used_eq inv mod_add_right_eq)
  also have "\<dots> = unat (txout di)" using le by simp
  finally show ?thesis by simp
qed

lemma length_tx_view [simp]: "length (tx_view di) = length (txp di)"
  by (simp add: tx_view_def)

lemma tx_free_eq:
  assumes "tx_inv di"
  shows "unat (tx_free di) = nt di - 1 - tx_used di"
proof -
  have "unat (dma_txactive di) < nt di" using tx_used_less[OF assms] by (simp add: tx_used_def)
  then show ?thesis
    by (simp add: tx_free_def tx_used_def dma_txactive_def[symmetric] unat_sub_if')
qed

text \<open>Updates of the slots in the view.\<close>

lemma add_mod_inj:
  fixes i j L :: nat
  assumes "i < L" "j < L"
  shows "(n + i) mod L = (n + j) mod L \<longleftrightarrow> i = j"
proof (cases "i \<le> j")
  case True
  then show ?thesis using assms mod_eq_dvd_iff_nat[of "n + i" "n + j" L] by (auto dest!: dvd_imp_le)
next
  case False
  then show ?thesis using assms mod_eq_dvd_iff_nat[of "n + j" "n + i" L] by (auto dest!: dvd_imp_le)
qed

lemma rotate_update:
  assumes "j < length xs"
  shows "rotate n (xs[(n + j) mod length xs := v]) = (rotate n xs)[j := v]"
proof (rule nth_equalityI)
  have lt: "(n + j) mod length xs < length xs" using assms by (intro mod_less_divisor) linarith
  fix i assume "i < length (rotate n (xs[(n + j) mod length xs := v]))"
  then have i: "i < length xs" by simp
  have "(n + i) mod length xs = (n + j) mod length xs \<longleftrightarrow> i = j"
    using i assms by (rule add_mod_inj)
  then show "rotate n (xs[(n + j) mod length xs := v]) ! i = (rotate n xs)[j := v] ! i"
    using i assms lt by (cases "i = j") (simp_all add: nth_rotate)
qed simp

section \<open>Sending\<close>

definition nz_bufs :: "pktbuf list \<Rightarrow> pktbuf list" where "nz_bufs bs = filter (\<lambda>b. b_len b \<noteq> 0) bs"

text \<open>The packet fits: a free descriptor remains at each buffer the loop visits.\<close>

definition tx_fits :: "pktbuf list \<Rightarrow> nat \<Rightarrow> bool" where
  "tx_fits bs n = (bs = [] \<or> length (nz_bufs (butlast bs)) < n)"

lemma tx_fits_Cons: "tx_fits (b # bs) n \<longleftrightarrow> 0 < n \<and> tx_fits bs (n - length (nz_bufs [b]))"
  by (cases bs) (auto simp: tx_fits_def nz_bufs_def)

lemma emit_simps [simp]:
  "hw (emit e di) = hw di" "ntxd (emit e di) = ntxd di" "txin (emit e di) = txin di" "txout (emit e di) = txout di"
  "txp (emit e di) = txp di" "nrxd (emit e di) = nrxd di" "rxin (emit e di) = rxin di" "rxout (emit e di) = rxout di"
  "rxp (emit e di) = rxp di" "trace (emit e di) = trace di @ [e]" "dma64 (emit e di) = dma64 di"
  "rxbufsize (emit e di) = rxbufsize di" "nrxpost (emit e di) = nrxpost di" "pool (emit e di) = pool di"
  "dataoffsetlow (emit e di) = dataoffsetlow di" "dataoffsethigh (emit e di) = dataoffsethigh di"
  "txavail (emit e di) = txavail di" "rxoffset (emit e di) = rxoffset di" "rxgiants (emit e di) = rxgiants di"
  by (simp_all add: emit_def)

lemma TXD_cong: "ntxd di' = ntxd di \<Longrightarrow> TXD di' = TXD di" "ntxd di' = ntxd di \<Longrightarrow> NEXTTXD di' = NEXTTXD di"
  "ntxd di' = ntxd di \<Longrightarrow> PREVTXD di' = PREVTXD di"
  by (simp_all add: TXD_def NEXTTXD_def PREVTXD_def fun_eq_iff)

lemma txfast_loop_frame:
  "txfast_loop E f bs out fl di = (ok, out', fl', di') \<Longrightarrow> \<exists>h t. di' = di\<lparr>hw := h, trace := t\<rparr>"
proof (induction bs arbitrary: f out fl di)
  case Nil
  have "di = di\<lparr>hw := hw di, trace := trace di\<rparr>" by simp
  with Nil show ?case by (metis Pair_inject txfast_loop.simps(1))
next
  case (Cons b bs)
  have same: "di = di\<lparr>hw := hw di, trace := trace di\<rparr>" by simp
  let ?di = "emit (Map (b_pa b) (b_len b)) di"
  let ?fl = "(if f then CTRL_SOF else 0) OR (if bs = [] then CTRL_IOC OR CTRL_EOF else 0) OR
      (if out = ntxd di - 1 then CTRL_EOT else 0)"
  obtain g h where gh: "e_tx_upd E ?di (b_pa b) out ?fl (b_len b) = (g, h)" by fastforce
  consider "NEXTTXD di out = txin di" | "NEXTTXD di out \<noteq> txin di" "b_len b = 0" | "NEXTTXD di out \<noteq> txin di" "b_len b \<noteq> 0" by blast
  then show ?case
  proof cases
    case 1
    then have "di' = di" using Cons.prems by simp
    then show ?thesis using same by metis
  next
    case 2
    then show ?thesis using Cons by simp
  next
    case 3
    then have "txfast_loop E False bs (NEXTTXD ?di out) g (?di\<lparr>hw := h\<rparr>) = (ok, out', fl', di')"
      using Cons.prems gh by (simp add: Let_def)
    from Cons.IH[OF this] show ?thesis by (simp add: emit_def)
  qed
qed

text \<open>With \<open>u\<close> slots in use at \<open>out\<close>, the loop succeeds exactly when the packet fits, and advances by one
  slot for every buffer that is not empty.\<close>

lemma txfast_loop_out:
  assumes "txfast_loop E f bs out fl di = (ok, out', fl', di')" "pow2 (ntxd di)" "txin di < ntxd di"
    "unat out = (unat (txin di) + u) mod nt di" "u < nt di"
  shows "ok = tx_fits bs (nt di - 1 - u) \<and>
    (ok \<longrightarrow> u + length (nz_bufs bs) < nt di \<and> unat out' = (unat (txin di) + (u + length (nz_bufs bs))) mod nt di)"
  using assms
proof (induction bs arbitrary: f out fl di u)
  case Nil
  then show ?case by (simp add: tx_fits_def nz_bufs_def)
next
  case (Cons b bs)
  have next_out: "unat (NEXTTXD di out) = (unat (txin di) + Suc u) mod nt di"
    using Cons.prems by (simp add: NEXTTXD_def TXD_def unat_NEXT mod_Suc_eq)
  have full: "NEXTTXD di out = txin di \<longleftrightarrow> Suc u = nt di"
  proof (cases "Suc u = nt di")
    case True then show ?thesis using next_out Cons.prems(3) by (simp add: word_unat_eq_iff word_less_nat_alt)
  next
    case False
    then show ?thesis using next_out Cons.prems(3,5) add_mod_inj[of "Suc u" "nt di" 0 "unat (txin di)"]
      by (simp add: word_unat_eq_iff word_less_nat_alt)
  qed
  show ?case
  proof (cases "Suc u = nt di")
    case True
    then show ?thesis using Cons.prems(1) full by (auto simp: tx_fits_Cons)
  next
    case False
    show ?thesis
    proof (cases "b_len b = 0")
      case True
      then show ?thesis using Cons.IH[of False out fl di u] Cons.prems False full
        by (auto simp: tx_fits_Cons nz_bufs_def)
    next
      case nz: False
      let ?di = "emit (Map (b_pa b) (b_len b)) di"
      let ?fl = "(if f then CTRL_SOF else 0) OR (if bs = [] then CTRL_IOC OR CTRL_EOF else 0) OR
                   (if out = ntxd di - 1 then CTRL_EOT else 0)"
      obtain g h where gh: "e_tx_upd E ?di (b_pa b) out ?fl (b_len b) = (g, h)" by fastforce
      then have "txfast_loop E False bs (NEXTTXD di out) g (?di\<lparr>hw := h\<rparr>) = (ok, out', fl', di')"
        using Cons.prems(1) False full nz by (simp add: Let_def TXD_cong(2)[of ?di di])
      from Cons.IH[OF this, of "Suc u"] show ?thesis using Cons.prems False next_out nz
        by (auto simp: tx_fits_Cons nz_bufs_def)
    qed
  qed
qed

lemma map_filter_id_append: "List.map_filter id (xs @ ys) = List.map_filter id xs @ List.map_filter id ys"
  by (simp add: List.map_filter_def)

lemma map_filter_id_none: "list_all (\<lambda>p. p = None) xs \<Longrightarrow> List.map_filter id xs = []"
  by (induction xs) (auto simp: List.map_filter_def)

lemma list_all_drop_mono: "list_all P (drop u xs) \<Longrightarrow> u \<le> j \<Longrightarrow> list_all P (drop j xs)"
  using set_drop_subset_set_drop[of u j xs] by (auto simp: list_all_iff)

lemma map_filter_update:
  assumes "list_all (\<lambda>p. p = None) (drop u xs)" "u \<le> j" "j < length xs"
  shows "List.map_filter id (xs[j := Some p]) = List.map_filter id xs @ [p]"
proof -
  have drop_j: "list_all (\<lambda>p. p = None) (drop j xs)"
    using assms by (auto intro: list_all_drop_mono)
  then have none: "xs ! j = None" "list_all (\<lambda>p. p = None) (drop (Suc j) xs)"
    using assms(3) by (simp_all add: Cons_nth_drop_Suc[symmetric])
  have "List.map_filter id xs = List.map_filter id (take j xs) @ List.map_filter id (drop j xs)"
    by (metis append_take_drop_id map_filter_id_append)
  moreover have "List.map_filter id (drop j xs) = []" by (rule map_filter_id_none[OF drop_j])
  moreover have "List.map_filter id (Some p # drop (Suc j) xs) = [p]"
    using map_filter_id_none[OF none(2)] by (simp add: List.map_filter_simps)
  ultimately show ?thesis using assms(3)
    by (simp add: upd_conv_take_nth_drop map_filter_id_append)
qed

lemma ring_dist: "i < N \<Longrightarrow> v < N \<Longrightarrow> ((i + v) mod N + N - i) mod N = (v::nat)"
  by (cases "i + v < N") (simp_all add: le_mod_geq)

lemma unat_PREV:
  assumes "pow2 n" "unat i = (b + Suc v) mod unat n" "Suc v < unat n"
  shows "unat (XXD (i - 1) n) = (b + v) mod unat n"
proof -
  have "1 < n" using assms(3) by (simp add: word_less_nat_alt)
  then have "unat (XXD (i - 1) n) = ((b + Suc v) mod unat n + unat n - 1) mod unat n"
    using unat_XXD_diff[OF assms(1), of 1 i] assms(2) by simp
  also have "\<dots> = ((b + Suc v) mod unat n + (unat n - 1)) mod unat n" using assms(3) by simp
  also have "\<dots> = (b + Suc v + (unat n - 1)) mod unat n" by (simp only: mod_add_left_eq)
  also have "b + Suc v + (unat n - 1) = b + v + unat n" using assms(3) by simp
  finally show ?thesis by simp
qed

text \<open>The state after a change of \<open>txout\<close> and of the slot before it.\<close>

lemma tx_append:
  assumes inv: "tx_inv di" and v: "tx_used di \<le> v" "Suc v < nt di"
    and o': "unat out' = (unat (txin di) + Suc v) mod nt di"
    and eqs: "ntxd di' = ntxd di" "txin di' = txin di" "txout di' = out'"
      "txp di' = (txp di)[unat (PREVTXD di out') := Some p]"
  shows "tx_inv di' \<and> tx_queue di' = tx_queue di @ [p] \<and> tx_used di' = Suc v"
proof -
  note i = inv[unfolded tx_inv_def]
  have prev: "unat (PREVTXD di out') = (unat (txin di) + v) mod nt di"
    using unat_PREV[OF _ o'] i v by (simp add: PREVTXD_def TXD_def)
  have view: "tx_view di' = (tx_view di)[v := Some p]"
    using rotate_update[of v "txp di"] i v by (simp add: tx_view_def eqs prev)
  have outlt: "out' < ntxd di" using o' i by (simp add: word_less_nat_alt pow2_pos)
  have "tx_used di' = (unat out' + nt di - unat (txin di)) mod nt di"
    using i by (simp add: tx_used_def dma_txactive_def NTXDACTIVE_def TXD_def unat_XXD_diff eqs)
  then have used: "tx_used di' = Suc v" using i v o' ring_dist[of "unat (txin di)" "nt di" "Suc v"] by (simp add: word_less_nat_alt)
  have none: "list_all (\<lambda>p. p = None) (drop (Suc v) (tx_view di))"
    using i v by (auto intro: list_all_drop_mono)
  show ?thesis
    using i view used outlt none map_filter_update[of "tx_used di" "tx_view di" v p] v
    by (simp add: tx_inv_def eqs tx_queue_def)
qed

text \<open>txfast on a packet that fits appends it to the queue, on one that does not it frees the packet and
  leaves the queue.\<close>

lemma txfast_fits:
  assumes inv: "tx_inv di" and fits: "tx_fits (bufs p) (nt di - 1 - tx_used di)" and nz: "nz_bufs (bufs p) \<noteq> []"
    and res: "txfast E p commit di = (r, di')"
  shows "r = 0 \<and> tx_inv di' \<and> ntxd di' = ntxd di \<and> tx_queue di' = tx_queue di @ [p] \<and>
    tx_used di' = tx_used di + length (nz_bufs (bufs p)) \<and> unat (txavail di') = nt di - 1 - tx_used di'"
proof -
  note i = inv[unfolded tx_inv_def]
  obtain ok out fl d1 where loop: "txfast_loop E True (bufs p) (txout di) 0 di = (ok, out, fl, d1)"
    by (metis prod_cases4)
  have lo: "ok" "tx_used di + length (nz_bufs (bufs p)) < nt di"
      "unat out = (unat (txin di) + (tx_used di + length (nz_bufs (bufs p)))) mod nt di"
    using txfast_loop_out[OF loop _ _ tx_out_eq[OF inv] tx_used_less[OF inv]] i fits by auto
  obtain h t where d1: "d1 = di\<lparr>hw := h, trace := t\<rparr>" using txfast_loop_frame[OF loop] by blast
  obtain k where k: "length (nz_bufs (bufs p)) = Suc k" using nz by (cases "nz_bufs (bufs p)") auto
  have d': "r = 0" "ntxd di' = ntxd di" "txin di' = txin di" "txout di' = out"
      "txp di' = (txp di)[unat (PREVTXD di out) := Some p]" "txavail di' = tx_free di'"
    using res lo(1) by (auto simp: txfast_def loop d1 Let_def tx_free_def NTXDACTIVE_def TXD_def PREVTXD_def)
  have app: "tx_inv di' \<and> tx_queue di' = tx_queue di @ [p] \<and> tx_used di' = Suc (tx_used di + k)"
    using tx_append[OF inv, of "tx_used di + k" out di' p] lo k d' by simp
  then show ?thesis using d' k tx_free_eq[of di'] by simp
qed

lemma txfast_full:
  assumes inv: "tx_inv di" and fits: "\<not> tx_fits (bufs p) (nt di - 1 - tx_used di)"
    and res: "txfast E p commit di = (r, di')"
  shows "r = -1 \<and> tx_inv di' \<and> tx_queue di' = tx_queue di \<and> txin di' = txin di \<and> txout di' = txout di \<and>
    txavail di' = 0 \<and> txnobuf di' = txnobuf di + 1 \<and> last (trace di') = PktFree p"
proof -
  obtain ok out fl d1 where loop: "txfast_loop E True (bufs p) (txout di) 0 di = (ok, out, fl, d1)"
    by (metis prod_cases4)
  have "\<not> ok" using txfast_loop_out[OF loop _ _ tx_out_eq[OF inv] tx_used_less[OF inv]] inv fits
    by (auto simp: tx_inv_def)
  moreover obtain h t where "d1 = di\<lparr>hw := h, trace := t\<rparr>" using txfast_loop_frame[OF loop] by blast
  ultimately have "r = -1" "di' = (PKTFREE p (di\<lparr>hw := h, trace := t\<rparr>))\<lparr>txavail := 0, txnobuf := txnobuf di + 1\<rparr>"
    using res by (auto simp: txfast_def loop)
  then show ?thesis using inv
    by (simp add: PKTFREE_def tx_inv_def tx_queue_def tx_view_def tx_used_def dma_txactive_def NTXDACTIVE_def TXD_def)
qed

section \<open>The engine\<close>

text \<open>What the ring code relies on of an engine: a descriptor that was written reads back as the mapping that
  was given (for addresses that need no extension), and the other descriptors, the size of the ring and the
  current descriptor stay.\<close>

locale tx_engine =
  fixes E :: engine and ringlen :: "dma_hw \<Rightarrow> nat" and maxlen :: u32
  assumes mapping_hw: "hw d' = hw d \<Longrightarrow> dataoffsetlow d' = dataoffsetlow d \<Longrightarrow> e_tx_mapping E d' i = e_tx_mapping E d i"
    and curr_hw: "hw d' = hw d \<Longrightarrow> e_tx_curr E d' = e_tx_curr E d"
    and zap_other: "i \<noteq> j \<Longrightarrow> e_tx_mapping E (d\<lparr>hw := e_tx_zap E d i\<rparr>) j = e_tx_mapping E d j"
    and zap_len: "ringlen (e_tx_zap E d i) = ringlen (hw d)"
    and zap_curr: "e_tx_curr E (d\<lparr>hw := e_tx_zap E d i\<rparr>) = e_tx_curr E d"
    and upd_same: "e_tx_upd E d pa i fl len = (fl', h) \<Longrightarrow> unat i < ringlen (hw d) \<Longrightarrow> \<not> ext_addr d pa \<Longrightarrow> len \<le> maxlen \<Longrightarrow>
      fl AND CTRL_BC_MASK = 0 \<Longrightarrow> e_tx_mapping E (d\<lparr>hw := h\<rparr>) i = (pa, len)"
    and upd_other: "e_tx_upd E d pa i fl len = (fl', h) \<Longrightarrow> i \<noteq> j \<Longrightarrow> e_tx_mapping E (d\<lparr>hw := h\<rparr>) j = e_tx_mapping E d j"
    and upd_len: "e_tx_upd E d pa i fl len = (fl', h) \<Longrightarrow> ringlen h = ringlen (hw d)"
    and upd_ctrl: "e_tx_upd E d pa i fl len = (fl', h) \<Longrightarrow> unat i < ringlen (hw d) \<Longrightarrow> \<not> ext_addr d pa \<Longrightarrow> len \<le> maxlen \<Longrightarrow>
      fl AND CTRL_BC_MASK = 0 \<Longrightarrow> dataoffsetlow d' = dataoffsetlow d \<Longrightarrow>
      e_tx_mapping E (d'\<lparr>hw := e_tx_ctrl E (d'\<lparr>hw := h\<rparr>) i (fl' OR CTRL_IOC OR CTRL_EOF)\<rparr>) i = (pa, len)"
    and ctrl_other: "i \<noteq> j \<Longrightarrow> e_tx_mapping E (d\<lparr>hw := e_tx_ctrl E d i c\<rparr>) j = e_tx_mapping E d j"
    and ctrl_len: "ringlen (e_tx_ctrl E d i c) = ringlen (hw d)"
    and kick_mapping: "e_tx_mapping E (d\<lparr>hw := e_tx_kick E d i\<rparr>) j = e_tx_mapping E d j"
    and kick_len: "ringlen (e_tx_kick E d i) = ringlen (hw d)"

lemma bc_and: "len \<le> CTRL_BC_MASK \<Longrightarrow> len AND CTRL_BC_MASK = len"
proof -
  assume "len \<le> CTRL_BC_MASK"
  then have "uint len < 2 ^ 13" by (simp add: word_le_def CTRL_BC_MASK_def)
  then have "uint (take_bit 13 len) = uint len" by (simp add: unsigned_take_bit_eq take_bit_int_eq_self del: take_bit_eq_mod)
  then have "take_bit 13 len = len" by (rule unsigned_word_eqI)
  then show ?thesis by (simp add: take_bit_eq_mask mask_eq_exp_minus_1 CTRL_BC_MASK_def)
qed

lemma bc64_and: "len \<le> D64_CTRL2_BC_MASK \<Longrightarrow> len AND D64_CTRL2_BC_MASK = len"
proof -
  assume "len \<le> D64_CTRL2_BC_MASK"
  then have "uint len < 2 ^ 15" by (simp add: word_le_def D64_CTRL2_BC_MASK_def)
  then have "uint (take_bit 15 len) = uint len" by (simp add: unsigned_take_bit_eq take_bit_int_eq_self del: take_bit_eq_mod)
  then have "take_bit 15 len = len" by (rule unsigned_word_eqI)
  then show ?thesis by (simp add: take_bit_eq_mask mask_eq_exp_minus_1 D64_CTRL2_BC_MASK_def)
qed

lemma flags_bc: "(CTRL_IOC OR CTRL_EOF) AND CTRL_BC_MASK = 0"
  by (simp add: CTRL_IOC_def CTRL_EOF_def CTRL_BC_MASK_def)

interpretation e32: tx_engine engine32 "\<lambda>h. length (txd32 h)" CTRL_BC_MASK
proof unfold_locales
  show "e_tx_mapping engine32 (d\<lparr>hw := h\<rparr>) i = (pa, len)"
    if "e_tx_upd engine32 d pa i fl len = (fl', h)" "unat i < length (txd32 (hw d))" "\<not> ext_addr d pa"
      "len \<le> CTRL_BC_MASK" "fl AND CTRL_BC_MASK = 0" for d pa i fl len fl' h
    using that by (auto simp: engine32_def dma32_dd_upd_def bc_and Let_def bit.conj_disj_distrib2)
  show "e_tx_mapping engine32 (d'\<lparr>hw := e_tx_ctrl engine32 (d'\<lparr>hw := h\<rparr>) i (fl' OR CTRL_IOC OR CTRL_EOF)\<rparr>) i = (pa, len)"
    if "e_tx_upd engine32 d pa i fl len = (fl', h)" "unat i < length (txd32 (hw d))" "\<not> ext_addr d pa"
      "len \<le> CTRL_BC_MASK" "fl AND CTRL_BC_MASK = 0" "dataoffsetlow d' = dataoffsetlow d" for d pa i fl len fl' h d'
    using that flags_bc by (auto simp: engine32_def dma32_dd_upd_def bc_and Let_def bit.conj_disj_distrib2 or.assoc)
qed (auto simp: engine32_def dma32_dd_upd_def Let_def word_unat_eq_iff[symmetric] split: if_splits)

interpretation e64: tx_engine engine64 "\<lambda>h. length (txd64 h)" D64_CTRL2_BC_MASK
proof unfold_locales
  show "e_tx_mapping engine64 (d\<lparr>hw := h\<rparr>) i = (pa, len)"
    if "e_tx_upd engine64 d pa i fl len = (fl', h)" "unat i < length (txd64 (hw d))" "\<not> ext_addr d pa"
      "len \<le> D64_CTRL2_BC_MASK" "fl AND CTRL_BC_MASK = 0" for d pa i fl len fl' h
    using that by (auto simp: engine64_def dma64_dd_upd_def bc64_and)
  show "e_tx_mapping engine64 (d'\<lparr>hw := e_tx_ctrl engine64 (d'\<lparr>hw := h\<rparr>) i (fl' OR CTRL_IOC OR CTRL_EOF)\<rparr>) i = (pa, len)"
    if "e_tx_upd engine64 d pa i fl len = (fl', h)" "unat i < length (txd64 (hw d))" "\<not> ext_addr d pa"
      "len \<le> D64_CTRL2_BC_MASK" "fl AND CTRL_BC_MASK = 0" "dataoffsetlow d' = dataoffsetlow d" for d pa i fl len fl' h d'
    using that by (auto simp: engine64_def dma64_dd_upd_def bc64_and)
qed (auto simp: engine64_def dma64_dd_upd_def Let_def word_unat_eq_iff[symmetric] split: if_splits)

section \<open>Reclaiming\<close>

lemma unat_slot:
  assumes "pow2 n"
  shows "unat (of_nat (x mod unat n) :: u32) = x mod unat n"
proof -
  have "x mod unat n < unat n" using pow2_pos[OF assms] by simp
  also have "unat n < 2 ^ 32" using unsigned_less[of n, where 'a = nat] by simp
  finally show ?thesis by (simp only: unsigned_of_nat) (simp add: take_bit_nat_eq_self)
qed

text \<open>The mapping in the slot \<open>j\<close> places after \<open>txin\<close>.\<close>

definition map_at :: "engine \<Rightarrow> dma_info \<Rightarrow> nat \<Rightarrow> u32 \<times> u32" where
  "map_at E di j = e_tx_mapping E di (of_nat ((unat (txin di) + j) mod nt di))"

definition unmap_ev :: "u32 \<times> u32 \<Rightarrow> dma_event" where "unmap_ev m = Unmap (fst m) (snd m)"

definition cleared :: "nat \<Rightarrow> nat \<Rightarrow> 'a option list \<Rightarrow> 'a option list" where
  "cleared a a' v = take a v @ replicate (a' - a) None @ drop a' v"

lemma cleared_Suc: "a < length v \<Longrightarrow> v[a := None] = cleared a (Suc a) v"
  by (simp add: cleared_def upd_conv_take_nth_drop)

lemma cleared_cleared: "a < a' \<Longrightarrow> a' \<le> length v \<Longrightarrow> cleared (Suc a) a' (cleared a (Suc a) v) = cleared a a' v"
  by (auto simp: cleared_def less_iff_Suc_add add.commute)

lemma drop_cleared: "a < length v \<Longrightarrow> drop (Suc a) (cleared a (Suc a) v) = drop (Suc a) v"
  by (simp add: cleared_def)

lemma reclaim_one_eq:
  "reclaim_one E i di = (txp di ! unat i,
     di\<lparr>hw := e_tx_zap E (emit (unmap_ev (e_tx_mapping E di i)) di) i, trace := trace di @ [unmap_ev (e_tx_mapping E di i)],
        txp := (txp di)[unat i := None]\<rparr>)"
  by (cases "e_tx_mapping E di i") (simp add: reclaim_one_def Let_def emit_def unmap_ev_def)

text \<open>What the loop of getnexttxp does from slot \<open>a\<close> with the bound \<open>b\<close>, when it ends at slot \<open>a'\<close>: the slots
  are cleared up to and including the first packet, which is returned, and each one is unmapped.\<close>

definition same_ring :: "dma_info \<Rightarrow> dma_info \<Rightarrow> bool" where
  "same_ring di di' = (\<exists>h t tp. di' = di\<lparr>hw := h, trace := t, txp := tp\<rparr>)"

definition reclaimed :: "engine \<Rightarrow> (dma_hw \<Rightarrow> nat) \<Rightarrow> nat \<Rightarrow> nat \<Rightarrow> dma_info \<Rightarrow> nat \<Rightarrow> u32 \<times> packet option \<times> dma_info \<Rightarrow> bool" where
  "reclaimed E len a b di a' r = (case r of (i', p, di') \<Rightarrow> same_ring di di' \<and> a \<le> a' \<and> a' \<le> b \<and>
     unat i' = (unat (txin di) + a') mod nt di \<and> tx_view di' = cleared a a' (tx_view di) \<and> length (txp di') = nt di \<and>
     List.map_filter id (take (a' - a) (drop a (tx_view di))) = (case p of None \<Rightarrow> [] | Some q \<Rightarrow> [q]) \<and>
     (p = None \<longrightarrow> a' = b) \<and> trace di' = trace di @ map (unmap_ev \<circ> map_at E di) [a..<a'] \<and>
     (\<forall>j. a' \<le> j \<and> j < nt di \<longrightarrow> map_at E di' j = map_at E di j) \<and>
     len (hw di') = len (hw di) \<and> e_tx_curr E di' = e_tx_curr E di)"

lemma same_ring_refl: "same_ring di di"
  by (auto simp: same_ring_def intro!: exI[of _ "hw di"] exI[of _ "trace di"] exI[of _ "txp di"])

lemma same_ring_trans: "same_ring a b \<Longrightarrow> same_ring b c \<Longrightarrow> same_ring a c"
  unfolding same_ring_def by clarsimp (intro exI, rule refl)

lemma same_ringD:
  assumes "same_ring di di'"
  shows "ntxd di' = ntxd di" "txin di' = txin di" "txout di' = txout di" "dma64 di' = dma64 di"
    "dataoffsetlow di' = dataoffsetlow di" "txnobuf di' = txnobuf di" "nrxd di' = nrxd di"
    "rxin di' = rxin di" "rxout di' = rxout di" "rxp di' = rxp di" "pool di' = pool di"
  using assms by (auto simp: same_ring_def)

lemma reclaimed_done:
  assumes "a = b" "unat i = (unat (txin di) + a) mod nt di" "length (txp di) = nt di"
  shows "reclaimed E len a b di a (i, None, di)"
  using assms by (simp add: reclaimed_def same_ring_refl cleared_def List.map_filter_simps)

context tx_engine begin

lemma reclaim_one_map:
  assumes "pow2 (ntxd di)" "i = of_nat ((unat (txin di) + a) mod nt di)" "a < j" "j < nt di"
    and r: "reclaim_one E i di = (p, d1)"
  shows "map_at E d1 j = map_at E di j"
proof -
  let ?e = "emit (unmap_ev (e_tx_mapping E di i)) di" and ?s = "\<lambda>k. (unat (txin di) + k) mod nt di"
  note slot = unat_slot[OF assms(1)]
  have ne: "i \<noteq> of_nat (?s j)"
  proof
    assume "i = of_nat (?s j)"
    then have "?s a = ?s j" using assms(2) slot[of "unat (txin di) + a"] slot[of "unat (txin di) + j"] by metis
    then show False using assms(3,4) by (simp add: add_mod_inj)
  qed
  have h: "hw d1 = e_tx_zap E ?e i" "dataoffsetlow d1 = dataoffsetlow di" "txin d1 = txin di" "ntxd d1 = ntxd di"
    using r by (auto simp: reclaim_one_eq)
  have "e_tx_mapping E d1 (of_nat (?s j)) = e_tx_mapping E (?e\<lparr>hw := e_tx_zap E ?e i\<rparr>) (of_nat (?s j))"
    using h by (intro mapping_hw) simp_all
  also have "\<dots> = e_tx_mapping E ?e (of_nat (?s j))" by (rule zap_other[OF ne])
  also have "\<dots> = e_tx_mapping E di (of_nat (?s j))" by (rule mapping_hw) simp_all
  finally show ?thesis by (simp add: map_at_def h)
qed

lemma reclaim_one_hw:
  assumes "reclaim_one E i di = (p, d1)"
  shows "ringlen (hw d1) = ringlen (hw di) \<and> e_tx_curr E d1 = e_tx_curr E di \<and> same_ring di d1"
proof -
  let ?e = "emit (unmap_ev (e_tx_mapping E di i)) di"
  have d1: "d1 = di\<lparr>hw := e_tx_zap E ?e i, trace := trace di @ [unmap_ev (e_tx_mapping E di i)], txp := (txp di)[unat i := None]\<rparr>"
    using assms by (simp add: reclaim_one_eq)
  have "e_tx_curr E d1 = e_tx_curr E (?e\<lparr>hw := e_tx_zap E ?e i\<rparr>)" by (rule curr_hw) (simp add: d1)
  also have "\<dots> = e_tx_curr E di" by (simp add: zap_curr curr_hw[of ?e di])
  finally show ?thesis by (auto simp: d1 zap_len same_ring_def)
qed

end

text \<open>One step of the loop, on a slot with a packet and on one without.\<close>

lemma tx_view_reclaim_one:
  assumes "pow2 (ntxd di)" "length (txp di) = nt di" "a < nt di" "unat i = (unat (txin di) + a) mod nt di"
    and r: "reclaim_one E i di = (p, d1)"
  shows "p = tx_view di ! a" "tx_view d1 = cleared a (Suc a) (tx_view di)" "length (txp d1) = nt di"
    "trace d1 = trace di @ [unmap_ev (map_at E di a)]" "unat (NEXTTXD di i) = (unat (txin di) + Suc a) mod nt di"
proof -
  have i: "i = of_nat ((unat (txin di) + a) mod nt di)"
    using unat_slot[OF assms(1), of "unat (txin di) + a"] assms(4) by (simp add: word_unat_eq_iff)
  show "p = tx_view di ! a" "length (txp d1) = nt di" "trace d1 = trace di @ [unmap_ev (map_at E di a)]"
    using assms i by (auto simp: reclaim_one_eq tx_view_def nth_rotate map_at_def)
  have "tx_view d1 = (tx_view di)[a := None]"
    using rotate_update[of a "txp di"] assms by (auto simp: reclaim_one_eq tx_view_def)
  then show "tx_view d1 = cleared a (Suc a) (tx_view di)" using assms by (simp add: cleared_Suc)
  show "unat (NEXTTXD di i) = (unat (txin di) + Suc a) mod nt di"
    using assms by (simp add: NEXTTXD_def TXD_def unat_NEXT mod_Suc_eq)
qed

context tx_engine begin

lemma reclaimed_first:
  assumes pre: "pow2 (ntxd di)" "length (txp di) = nt di" "a < nt di" "unat i = (unat (txin di) + a) mod nt di"
    and r: "reclaim_one E i di = (Some q, d1)" and b: "a < b"
  shows "reclaimed E ringlen a b di (Suc a) (NEXTTXD di i, Some q, d1)"
proof -
  note one = tx_view_reclaim_one[OF pre r]
  have i: "i = of_nat ((unat (txin di) + a) mod nt di)"
    using unat_slot[OF pre(1), of "unat (txin di) + a"] pre(4) by (simp add: word_unat_eq_iff)
  have "take 1 (drop a (tx_view di)) = [Some q]" using pre(2,3) one(1) by (simp add: hd_drop_conv_nth take_Suc)
  then show ?thesis
    using one(2-) b reclaim_one_hw[OF r] reclaim_one_map[OF pre(1) i _ _ r]
    by (auto simp: reclaimed_def List.map_filter_simps Suc_le_eq)
qed

lemma reclaimed_next:
  assumes pre: "pow2 (ntxd di)" "length (txp di) = nt di" "a < nt di" "unat i = (unat (txin di) + a) mod nt di"
    and r: "reclaim_one E i di = (None, d1)" and b: "b < nt di"
    and rest: "reclaimed E ringlen (Suc a) b d1 a' (i', p, d2)"
  shows "reclaimed E ringlen a b di a' (i', p, d2)"
proof -
  note one = tx_view_reclaim_one[OF pre r] and hws = reclaim_one_hw[OF r] and same = same_ringD[OF reclaim_one_hw[OF r, THEN conjunct2, THEN conjunct2]]
  note rs = rest[unfolded reclaimed_def prod.case]
  have i: "i = of_nat ((unat (txin di) + a) mod nt di)"
    using unat_slot[OF pre(1), of "unat (txin di) + a"] pre(4) by (simp add: word_unat_eq_iff)
  have maps: "map_at E d1 j = map_at E di j" if "a < j" "j < nt di" for j
    using reclaim_one_map[OF pre(1) i that r] .
  have a': "a < a'" "a' \<le> b" using rs by auto
  have dr: "drop a (tx_view di) = tx_view di ! a # drop (Suc a) (tx_view di)" using pre(2,3) by (simp add: Cons_nth_drop_Suc)
  have ev: "map (unmap_ev \<circ> map_at E d1) [Suc a..<a'] = map (unmap_ev \<circ> map_at E di) [Suc a..<a']"
    using maps a' b by (auto)
  have filt: "List.map_filter id (take (a' - a) (drop a (tx_view di))) = List.map_filter id (take (a' - Suc a) (drop (Suc a) (tx_view di)))"
    using a' one(1) by (simp add: dr take_Cons' List.map_filter_simps)
  have same2: "same_ring di d2" using rs hws same_ring_trans by blast
  show ?thesis
    using rs one hws same same2 a' ev filt maps b cleared_cleared[of a a' "tx_view di"] drop_cleared[of a "tx_view di"] pre(2,3)
    by (auto simp: reclaimed_def upt_conv_Cons)
qed

theorem getnexttxp_loop_reclaims:
  assumes "pow2 (ntxd di)" "length (txp di) = nt di" "a \<le> b" "b < nt di"
    "unat i = (unat (txin di) + a) mod nt di" "unat stop = (unat (txin di) + b) mod nt di"
  shows "\<exists>a' r. getnexttxp_loop E stop i di = Some r \<and> reclaimed E ringlen a b di a' r"
  using assms
proof (induction "b - a" arbitrary: a i di)
  case 0
  then have "getnexttxp_loop E stop i di = Some (i, None, di)"
    by (subst getnexttxp_loop.simps) (simp add: word_unat_eq_iff)
  then show ?case using reclaimed_done[of a b i di E ringlen] 0 by auto
next
  case (Suc n)
  then have lt: "a < b" "a < nt di" by simp_all
  have ne: "i \<noteq> stop" using Suc.prems lt by (simp add: word_unat_eq_iff add_mod_inj)
  obtain p d1 where r: "reclaim_one E i di = (p, d1)" by fastforce
  note one = tx_view_reclaim_one[OF Suc.prems(1,2) lt(2) Suc.prems(5) r]
  note same = same_ringD[OF reclaim_one_hw[OF r, THEN conjunct2, THEN conjunct2]]
  show ?case
  proof (cases p)
    case (Some q)
    then have "getnexttxp_loop E stop i di = Some (NEXTTXD di i, Some q, d1)"
      using ne r by (subst getnexttxp_loop.simps) (simp add: Let_def)
    then show ?thesis using reclaimed_first[OF Suc.prems(1,2) lt(2) Suc.prems(5) r[unfolded Some] lt(1)] by blast
  next
    case None
    have step: "getnexttxp_loop E stop i di = getnexttxp_loop E stop (NEXTTXD di i) d1"
      using ne r None by (subst getnexttxp_loop.simps) (simp add: Let_def)
    have "\<exists>a' r. getnexttxp_loop E stop (NEXTTXD di i) d1 = Some r \<and> reclaimed E ringlen (Suc a) b d1 a' r"
      using Suc.hyps(2) Suc.prems lt one same by (intro Suc.hyps(1)) simp_all
    then obtain a' i' q d2 where "getnexttxp_loop E stop (NEXTTXD di i) d1 = Some (i', q, d2)"
        "reclaimed E ringlen (Suc a) b d1 a' (i', q, d2)" by (metis prod_cases3)
    then show ?thesis
      using step reclaimed_next[OF Suc.prems(1,2) lt(2) Suc.prems(5) r[unfolded None] Suc.prems(4)] by metis
  qed
qed

end

abbreviation opt_list :: "'a option \<Rightarrow> 'a list" where "opt_list p \<equiv> (case p of None \<Rightarrow> [] | Some q \<Rightarrow> [q])"

text \<open>How many slots getnexttxp may pass: all, or those before the current descriptor of the hardware, which
  has to be a slot of the ring between \<open>txin\<close> and \<open>txout\<close>.\<close>

definition tx_bound :: "engine \<Rightarrow> bool \<Rightarrow> dma_info \<Rightarrow> nat" where
  "tx_bound E forceall di = (if forceall then tx_used di else (unat (e_tx_curr E di) + nt di - unat (txin di)) mod nt di)"

definition tx_curr_ok :: "engine \<Rightarrow> dma_info \<Rightarrow> bool" where
  "tx_curr_ok E di = (e_tx_curr E di < ntxd di \<and> tx_bound E False di \<le> tx_used di)"

lemma ring_undist: "i < N \<Longrightarrow> c < N \<Longrightarrow> (i + (c + N - i) mod N) mod N = (c::nat)"
  by (simp add: mod_add_right_eq)

lemma tx_stop_slot:
  assumes "tx_inv di" "forceall \<or> tx_curr_ok E di"
  shows "unat (if forceall then txout di else e_tx_curr E di) = (unat (txin di) + tx_bound E forceall di) mod nt di"
    "tx_bound E forceall di \<le> tx_used di"
  using assms tx_out_eq[OF assms(1)]
  by (auto simp: tx_bound_def tx_curr_ok_def ring_undist tx_inv_def word_less_nat_alt)

lemma tx_bound_advance:
  assumes inv: "tx_inv di" and ok: "forceall \<or> tx_curr_ok E di" and n: "n \<le> tx_bound E forceall di"
    and eqs: "unat (txin di') = (unat (txin di) + n) mod nt di" "ntxd di' = ntxd di" "e_tx_curr E di' = e_tx_curr E di"
      "tx_used di' = tx_used di - n"
  shows "tx_bound E forceall di' = tx_bound E forceall di - n \<and> (forceall \<or> tx_curr_ok E di')"
proof (cases forceall)
  case True
  then show ?thesis using eqs by (simp add: tx_bound_def)
next
  case False
  let ?b = "tx_bound E False di"
  note st = tx_stop_slot[OF inv ok]
  have lt: "unat (txin di') < nt di" "?b < nt di"
    using eqs(1) inv st(2) False tx_used_less[OF inv] by (simp_all add: tx_inv_def pow2_pos)
  have sum: "unat (txin di) + n + (?b - n) = unat (txin di) + ?b" using n False by simp
  have "unat (e_tx_curr E di) = (unat (txin di) + n + (?b - n)) mod nt di" using st(1) False unfolding sum by simp
  also have "\<dots> = (unat (txin di') + (?b - n)) mod nt di" unfolding eqs(1) by (rule mod_add_left_eq[symmetric])
  finally have "unat (e_tx_curr E di) = (unat (txin di') + (?b - n)) mod nt di" .
  then have "tx_bound E False di' = ?b - n"
    using ring_dist[of "unat (txin di')" "nt di" "?b - n"] lt by (simp add: tx_bound_def eqs)
  then show ?thesis using False ok st(2) eqs by (auto simp: tx_curr_ok_def)
qed

text \<open>The state with \<open>txin\<close> moved past \<open>n\<close> cleared slots.\<close>

lemma tx_advance:
  assumes inv: "tx_inv di" and n: "n \<le> tx_used di" and v: "tx_view d1 = cleared 0 n (tx_view di)" "length (txp d1) = nt di"
    and i': "unat i' = (unat (txin di) + n) mod nt di"
    and eqs: "ntxd di' = ntxd di" "txin d1 = txin di" "txin di' = i'" "txout di' = txout di" "txp di' = txp d1"
  shows "tx_inv di' \<and> tx_view di' = drop n (tx_view di) @ replicate n None \<and> tx_used di' = tx_used di - n"
proof -
  note i = inv[unfolded tx_inv_def]
  have lt: "i' < ntxd di" using i' i by (simp add: word_less_nat_alt pow2_pos)
  have len: "n < nt di" using tx_used_less[OF inv] n by simp
  have "tx_view di' = rotate ((unat (txin di) + n) mod length (txp d1)) (txp d1)" using v(2) by (simp add: tx_view_def eqs i')
  also have "\<dots> = rotate n (tx_view d1)" by (simp add: tx_view_def eqs(2) rotate_rotate add.commute flip: rotate_conv_mod)
  also have "\<dots> = drop n (tx_view di) @ replicate n None"
    using rotate_append[of "replicate n None" "drop n (tx_view di)"] by (simp add: v(1) cleared_def)
  finally have view: "tx_view di' = drop n (tx_view di) @ replicate n None" .
  have "unat (txin di) + n + (tx_used di - n) = unat (txin di) + tx_used di" using n by simp
  then have "unat (txout di) = (unat i' + (tx_used di - n)) mod nt di"
    by (metis tx_out_eq[OF inv] i' mod_add_left_eq)
  moreover have "tx_used di' = (unat (txout di) + nt di - unat i') mod nt di"
    using i lt by (simp add: tx_used_def dma_txactive_def NTXDACTIVE_def TXD_def unat_XXD_diff eqs)
  ultimately have used: "tx_used di' = tx_used di - n"
    using ring_dist[of "unat i'" "nt di" "tx_used di - n"] lt tx_used_less[OF inv] by (simp add: word_less_nat_alt)
  show ?thesis using i view used lt n v(2) by (auto simp: tx_inv_def eqs list_all_iff)
qed

context tx_engine begin

theorem getnexttxp_pops:
  assumes inv: "tx_inv di" and bound: "forceall \<or> tx_curr_ok E di"
  shows "\<exists>p di' n. getnexttxp E forceall di = Some (p, di') \<and> tx_inv di' \<and> ntxd di' = ntxd di \<and> txout di' = txout di \<and>
    n \<le> tx_bound E forceall di \<and> tx_used di' = tx_used di - n \<and> tx_queue di = opt_list p @ tx_queue di' \<and>
    List.map_filter id (take n (tx_view di)) = opt_list p \<and> (p = None \<longrightarrow> n = tx_bound E forceall di) \<and>
    unat (txavail di') = nt di - 1 - tx_used di' \<and> trace di' = trace di @ map (unmap_ev \<circ> map_at E di) [0..<n] \<and>
    (\<forall>j. n + j < nt di \<longrightarrow> map_at E di' j = map_at E di (n + j)) \<and>
    ringlen (hw di') = ringlen (hw di) \<and> e_tx_curr E di' = e_tx_curr E di \<and> unat (txin di') = (unat (txin di) + n) mod nt di"
proof -
  note i = inv[unfolded tx_inv_def] and st = tx_stop_slot[OF inv bound]
  let ?stop = "if forceall then txout di else e_tx_curr E di" and ?b = "tx_bound E forceall di"
  have "?b < nt di" using st(2) tx_used_less[OF inv] by simp
  then obtain n i' p d2 where loop: "getnexttxp_loop E ?stop (txin di) di = Some (i', p, d2)"
      and rec: "reclaimed E ringlen 0 ?b di n (i', p, d2)"
    using getnexttxp_loop_reclaims[of di 0 ?b "txin di" ?stop] i st(1) by (auto simp: word_less_nat_alt)
  have notbogus: "\<not> (txin di = 0 \<and> ?stop > txout di)"
    using st tx_out_eq[OF inv] tx_used_less[OF inv] by (auto simp: word_less_nat_alt)
  define di' where "di' = (d2\<lparr>txin := i'\<rparr>)\<lparr>txavail := tx_free (d2\<lparr>txin := i'\<rparr>)\<rparr>"
  have get: "getnexttxp E forceall di = Some (p, di')"
    using i loop notbogus pow2_nz by (auto simp: getnexttxp_def Let_def di'_def)
  note rs = rec[unfolded reclaimed_def prod.case] and same = same_ringD[OF rec[unfolded reclaimed_def prod.case, THEN conjunct1]]
  have adv: "tx_inv di' \<and> tx_view di' = drop n (tx_view di) @ replicate n None \<and> tx_used di' = tx_used di - n"
    using rs st(2) by (intro tx_advance[OF inv, of n d2 i']) (auto simp: di'_def same)
  have av: "unat (txavail di') = nt di - 1 - tx_used di'"
    using tx_free_eq[of di'] adv by (simp add: di'_def same tx_free_def NTXDACTIVE_def TXD_def)
  have q: "tx_queue di = opt_list p @ tx_queue di'"
    using rs adv map_filter_id_append[of "take n (tx_view di)" "drop n (tx_view di)"] map_filter_id_none[of "replicate n None"]
    by (simp add: tx_queue_def map_filter_id_append list_all_iff)
  have maps: "map_at E di' j = map_at E di (n + j)" if "n + j < nt di" for j
  proof -
    have "map_at E di' j = map_at E d2 (n + j)"
      using rs by (auto simp: map_at_def di'_def same mod_add_left_eq add.assoc intro!: mapping_hw)
    then show ?thesis using rs that by auto
  qed
  have "e_tx_curr E di' = e_tx_curr E d2" by (rule curr_hw) (simp add: di'_def)
  then show ?thesis using get adv av q maps rs by (auto simp: di'_def same)
qed

end

text \<open>The packets the driver has given back, and the mappings of the trace.\<close>

primrec freed :: "dma_event list \<Rightarrow> packet list" where
  "freed [] = []"
| "freed (e # es) = (case e of PktFree p \<Rightarrow> p # freed es | _ \<Rightarrow> freed es)"

primrec mapped :: "dma_event list \<Rightarrow> (u32 \<times> u32) list" where
  "mapped [] = []"
| "mapped (e # es) = (case e of Map pa len \<Rightarrow> (pa, len) # mapped es | _ \<Rightarrow> mapped es)"

primrec unmapped :: "dma_event list \<Rightarrow> (u32 \<times> u32) list" where
  "unmapped [] = []"
| "unmapped (e # es) = (case e of Unmap pa len \<Rightarrow> (pa, len) # unmapped es | _ \<Rightarrow> unmapped es)"

lemma trace_append [simp]:
  "freed (xs @ ys) = freed xs @ freed ys" "mapped (xs @ ys) = mapped xs @ mapped ys"
  "unmapped (xs @ ys) = unmapped xs @ unmapped ys"
  by (induction xs) (auto split: dma_event.split)

lemma trace_unmap_ev [simp]:
  "freed (map (unmap_ev \<circ> f) xs) = []" "mapped (map (unmap_ev \<circ> f) xs) = []" "unmapped (map (unmap_ev \<circ> f) xs) = map f xs"
  by (induction xs) (auto simp: unmap_ev_def)

text \<open>The mappings held by the slots in use.\<close>

definition tx_maps :: "engine \<Rightarrow> dma_info \<Rightarrow> (u32 \<times> u32) list" where
  "tx_maps E di = map (map_at E di) [0..<tx_used di]"

lemma PKTFREE_simps [simp]:
  "hw (PKTFREE p di) = hw di" "ntxd (PKTFREE p di) = ntxd di" "txin (PKTFREE p di) = txin di" "txout (PKTFREE p di) = txout di"
  "txp (PKTFREE p di) = txp di" "nrxd (PKTFREE p di) = nrxd di" "rxin (PKTFREE p di) = rxin di" "rxout (PKTFREE p di) = rxout di"
  "rxp (PKTFREE p di) = rxp di" "trace (PKTFREE p di) = trace di @ [PktFree p]" "dma64 (PKTFREE p di) = dma64 di"
  "rxbufsize (PKTFREE p di) = rxbufsize di" "dataoffsetlow (PKTFREE p di) = dataoffsetlow di" "txavail (PKTFREE p di) = txavail di"
  "rxoffset (PKTFREE p di) = rxoffset di" "rxgiants (PKTFREE p di) = rxgiants di" "pool (PKTFREE p di) = pool di"
  "nrxpost (PKTFREE p di) = nrxpost di"
  by (simp_all add: PKTFREE_def)

lemma tx_cong:
  assumes "ntxd di' = ntxd di" "txin di' = txin di" "txout di' = txout di" "txp di' = txp di"
  shows "tx_inv di' = tx_inv di" "tx_queue di' = tx_queue di" "tx_used di' = tx_used di" "tx_view di' = tx_view di"
  using assms by (simp_all add: tx_inv_def tx_queue_def tx_view_def tx_used_def dma_txactive_def NTXDACTIVE_def TXD_def)

lemma tx_queue_unused: "tx_inv di \<Longrightarrow> tx_used di = 0 \<Longrightarrow> tx_queue di = []"
  by (simp add: tx_inv_def tx_queue_def map_filter_id_none)

context tx_engine begin

lemma getnexttxp_maps:
  assumes inv: "tx_inv di" and bound: "forceall \<or> tx_curr_ok E di" and get: "getnexttxp E forceall di = Some (p, di')"
  shows "\<exists>ms. tx_maps E di = ms @ tx_maps E di' \<and> unmapped (trace di') = unmapped (trace di) @ ms \<and>
    mapped (trace di') = mapped (trace di) \<and> freed (trace di') = freed (trace di)"
proof -
  obtain n where n: "n \<le> tx_bound E forceall di" "tx_used di' = tx_used di - n"
      "trace di' = trace di @ map (unmap_ev \<circ> map_at E di) [0..<n]"
      "\<forall>j. n + j < nt di \<longrightarrow> map_at E di' j = map_at E di (n + j)"
    using getnexttxp_pops[OF inv bound] get by auto
  have le: "n \<le> tx_used di" using n(1) tx_stop_slot(2)[OF inv bound] by simp
  have "tx_maps E di = map (map_at E di) [0..<n] @ map (map_at E di) [n..<tx_used di]"
    using upt_add_eq_append[of 0 n "tx_used di - n"] le by (simp add: tx_maps_def flip: map_append)
  also have "map (map_at E di) [n..<tx_used di] = tx_maps E di'"
    using n le tx_used_less[OF inv] by (auto simp: tx_maps_def list_eq_iff_nth_eq)
  finally show ?thesis using n(3) by auto
qed

lemma tx_curr_free: "e_tx_curr E (PKTFREE q d) = e_tx_curr E d"
  by (rule curr_hw) simp

theorem txreclaim_frees:
  assumes "tx_inv di" "forceall \<or> tx_curr_ok E di"
  shows "\<exists>di' qs ms. txreclaim E forceall di = Some di' \<and> tx_inv di' \<and> tx_queue di = qs @ tx_queue di' \<and>
    freed (trace di') = freed (trace di) @ qs \<and> tx_used di' = tx_used di - tx_bound E forceall di \<and>
    tx_maps E di = ms @ tx_maps E di' \<and> unmapped (trace di') = unmapped (trace di) @ ms \<and> mapped (trace di') = mapped (trace di) \<and>
    unat (txavail di') = nt di - 1 - tx_used di'"
  using assms
proof (induction "length (tx_queue di)" arbitrary: di rule: less_induct)
  case less
  obtain p d1 n where get: "getnexttxp E forceall di = Some (p, d1)" and g: "tx_inv d1" "ntxd d1 = ntxd di" "txout d1 = txout di"
      "n \<le> tx_bound E forceall di" "tx_used d1 = tx_used di - n" "tx_queue di = opt_list p @ tx_queue d1"
      "p = None \<longrightarrow> n = tx_bound E forceall di" "unat (txavail d1) = nt di - 1 - tx_used d1" "e_tx_curr E d1 = e_tx_curr E di"
      "unat (txin d1) = (unat (txin di) + n) mod nt di"
    using getnexttxp_pops[OF less.prems] by blast
  obtain ms where m: "tx_maps E di = ms @ tx_maps E d1" "unmapped (trace d1) = unmapped (trace di) @ ms"
      "mapped (trace d1) = mapped (trace di)" "freed (trace d1) = freed (trace di)"
    using getnexttxp_maps[OF less.prems get] by blast
  show ?case
  proof (cases p)
    case None
    then have "txreclaim E forceall di = Some d1" by (subst txreclaim.simps) (simp add: get)
    then show ?thesis using None g m by auto
  next
    case (Some q)
    let ?d = "PKTFREE q d1"
    have maps: "tx_maps E ?d = tx_maps E d1"
      by (auto simp: tx_maps_def tx_cong[of ?d d1] map_at_def intro!: mapping_hw)
    have bnd: "tx_bound E forceall ?d = tx_bound E forceall di - n" "forceall \<or> tx_curr_ok E ?d"
      using tx_bound_advance[OF less.prems, of n ?d] g by (auto simp: tx_cong[of ?d d1] tx_curr_free)
    have step: "txreclaim E forceall di = txreclaim E forceall ?d" using Some by (subst txreclaim.simps) (simp add: get)
    have "length (tx_queue ?d) < length (tx_queue di)" using g Some by (simp add: tx_cong[of ?d d1])
    from less.hyps[OF this _ bnd(2)] obtain di' qs ns where
      "txreclaim E forceall ?d = Some di'" "tx_inv di'" "tx_queue d1 = qs @ tx_queue di'"
      "freed (trace di') = freed (trace di) @ q # qs" "tx_used di' = tx_used di - n - (tx_bound E forceall di - n)"
      "tx_maps E d1 = ns @ tx_maps E di'" "unmapped (trace di') = unmapped (trace di) @ ms @ ns" "mapped (trace di') = mapped (trace di)"
      "unat (txavail di') = nt di - 1 - tx_used di'"
      using g(1,2,5) m by (auto simp: tx_cong[of ?d d1] maps bnd(1))
    then show ?thesis using step g(4,6) Some m(1) by (intro exI[of _ di'] exI[of _ "q # qs"] exI[of _ "ms @ ns"]) auto
  qed
qed

end

section \<open>The mappings of a packet that is sent\<close>

definition buf_map :: "pktbuf \<Rightarrow> u32 \<times> u32" where "buf_map b = (b_pa b, b_len b)"
definition map_ev :: "pktbuf \<Rightarrow> dma_event" where "map_ev b = Map (b_pa b) (b_len b)"

text \<open>Buffers whose address needs no extension and whose length fits the descriptor.\<close>

definition plain_bufs :: "dma_info \<Rightarrow> u32 \<Rightarrow> pktbuf list \<Rightarrow> bool" where
  "plain_bufs di m bs = list_all (\<lambda>b. \<not> ext_addr di (b_pa b) \<and> b_len b \<le> m) bs"

lemma trace_map_ev [simp]:
  "freed (map map_ev bs) = []" "mapped (map map_ev bs) = map buf_map bs" "unmapped (map map_ev bs) = []"
  by (induction bs) (auto simp: map_ev_def buf_map_def)

lemma ext_addr_cong: "dataoffsetlow di' = dataoffsetlow di \<Longrightarrow> ext_addr di' = ext_addr di"
  by (simp add: ext_addr_def fun_eq_iff)

definition txflags :: "bool \<Rightarrow> bool \<Rightarrow> bool \<Rightarrow> u32" where
  "txflags sof eof eot = (if sof then CTRL_SOF else 0) OR (if eof then CTRL_IOC OR CTRL_EOF else 0) OR (if eot then CTRL_EOT else 0)"

lemma txflags_bc: "txflags sof eof eot AND CTRL_BC_MASK = 0"
  by (simp add: txflags_def CTRL_SOF_def CTRL_IOC_def CTRL_EOF_def CTRL_EOT_def CTRL_BC_MASK_def)

definition tx_slot :: "dma_info \<Rightarrow> nat \<Rightarrow> u32" where "tx_slot di j = of_nat ((unat (txin di) + j) mod nt di)"

lemma unat_tx_slot: "pow2 (ntxd di) \<Longrightarrow> unat (tx_slot di j) = (unat (txin di) + j) mod nt di"
  by (simp add: tx_slot_def unat_slot)

lemma tx_slot_inj: "pow2 (ntxd di) \<Longrightarrow> j < nt di \<Longrightarrow> k < nt di \<Longrightarrow> tx_slot di j = tx_slot di k \<longleftrightarrow> j = k"
  by (simp add: word_unat_eq_iff unat_tx_slot add_mod_inj)

lemma map_at_slot: "map_at E di j = e_tx_mapping E di (tx_slot di j)"
  by (simp add: map_at_def tx_slot_def)

text \<open>The step of the loop on a buffer that is not empty.\<close>

lemma txfast_loop_step:
  assumes "NEXTTXD di out \<noteq> txin di" "b_len b \<noteq> 0"
    and "e_tx_upd E (emit (map_ev b) di) (b_pa b) out (txflags f (bs = []) (out = ntxd di - 1)) (b_len b) = (g, h)"
  shows "txfast_loop E f (b # bs) out fl di = txfast_loop E False bs (NEXTTXD di out) g ((emit (map_ev b) di)\<lparr>hw := h\<rparr>)"
  using assms by (simp add: Let_def txflags_def map_ev_def TXD_cong(2)[of "emit _ di" di])

text \<open>The effect of the loop on trace and descriptors, from slot \<open>u\<close> on.\<close>

definition posted :: "engine \<Rightarrow> (dma_hw \<Rightarrow> nat) \<Rightarrow> pktbuf list \<Rightarrow> nat \<Rightarrow> u32 \<Rightarrow> dma_info \<Rightarrow> u32 \<Rightarrow> dma_info \<Rightarrow> bool" where
  "posted E len bs u fl di fl' di' = (trace di' = trace di @ map map_ev bs \<and> len (hw di') = len (hw di) \<and>
     (\<forall>j < nt di. map_at E di' j = (if u \<le> j \<and> j < u + length bs then buf_map (bs ! (j - u)) else map_at E di j)) \<and>
     (bs = [] \<longrightarrow> fl' = fl \<and> di' = di) \<and>
     (bs \<noteq> [] \<longrightarrow> e_tx_mapping E (di'\<lparr>hw := e_tx_ctrl E di' (tx_slot di (u + length bs - 1)) (fl' OR CTRL_IOC OR CTRL_EOF)\<rparr>)
        (tx_slot di (u + length bs - 1)) = buf_map (last bs)))"

context tx_engine begin

lemma map_at_upd:
  assumes "pow2 (ntxd di)" "u < nt di" "ringlen (hw di) = nt di" "\<not> ext_addr di (b_pa b)" "b_len b \<le> maxlen"
    and upd: "e_tx_upd E (emit (map_ev b) di) (b_pa b) (tx_slot di u) (txflags f l t) (b_len b) = (g, h)"
    and j: "j < nt di"
  shows "map_at E ((emit (map_ev b) di)\<lparr>hw := h\<rparr>) j = (if j = u then buf_map b else map_at E di j)"
proof -
  let ?e = "emit (map_ev b) di"
  have slot: "tx_slot (?e\<lparr>hw := h\<rparr>) = tx_slot di" by (simp add: tx_slot_def fun_eq_iff)
  have lt: "unat (tx_slot di u) < ringlen (hw ?e)" using assms(1,3) by (simp add: unat_tx_slot pow2_pos)
  show ?thesis
  proof (cases "j = u")
    case True
    then show ?thesis
      using upd_same[OF upd lt] assms(4,5) txflags_bc by (simp add: map_at_slot slot buf_map_def ext_addr_cong[of ?e di])
  next
    case False
    then have "tx_slot di u \<noteq> tx_slot di j" using assms(1,2) j by (simp add: tx_slot_inj)
    from upd_other[OF upd this] mapping_hw[of ?e di] show ?thesis using False by (simp add: map_at_slot slot)
  qed
qed

lemma posted_Cons:
  assumes pre: "pow2 (ntxd di)" "u < nt di" "ringlen (hw di) = nt di" "\<not> ext_addr di (b_pa b)" "b_len b \<le> maxlen"
    and upd: "e_tx_upd E (emit (map_ev b) di) (b_pa b) (tx_slot di u) (txflags f l t) (b_len b) = (g, h)"
    and rest: "posted E ringlen bs (Suc u) g ((emit (map_ev b) di)\<lparr>hw := h\<rparr>) fl' d'"
  shows "posted E ringlen (b # bs) u fl di fl' d'"
proof -
  let ?e = "emit (map_ev b) di" let ?d = "?e\<lparr>hw := h\<rparr>"
  note rs = rest[unfolded posted_def] and maps = map_at_upd[OF pre upd]
  have slot: "tx_slot ?d = tx_slot di" by (simp add: tx_slot_def fun_eq_iff)
  have lt: "unat (tx_slot di u) < ringlen (hw ?e)" using pre(1,3) by (simp add: unat_tx_slot pow2_pos)
  have fixup: "e_tx_mapping E (?d\<lparr>hw := e_tx_ctrl E ?d (tx_slot di u) (g OR CTRL_IOC OR CTRL_EOF)\<rparr>) (tx_slot di u) = buf_map b"
    using upd_ctrl[OF upd lt, of ?e] pre(4,5) txflags_bc by (simp add: buf_map_def ext_addr_cong[of ?e di])
  have m: "map_at E d' j = (if u \<le> j \<and> j < u + length (b # bs) then buf_map ((b # bs) ! (j - u)) else map_at E di j)" if "j < nt di" for j
    using rs maps[OF that] that by (auto simp: nth_Cons')
  have lst: "e_tx_mapping E (d'\<lparr>hw := e_tx_ctrl E d' (tx_slot di (u + length (b # bs) - 1)) (fl' OR CTRL_IOC OR CTRL_EOF)\<rparr>)
      (tx_slot di (u + length (b # bs) - 1)) = buf_map (last (b # bs))"
    using rs fixup by (cases "bs = []") (simp_all add: slot)
  have "trace d' = trace di @ map map_ev (b # bs)" "ringlen (hw d') = ringlen (hw di)" using rs upd_len[OF upd] by simp_all
  then show ?thesis unfolding posted_def using m lst by blast
qed

lemma txfast_loop_posts:
  assumes "txfast_loop E f bs out fl di = (True, out', fl', di')" "pow2 (ntxd di)" "txin di < ntxd di"
    "out = tx_slot di u" "u < nt di" "ringlen (hw di) = nt di" "plain_bufs di maxlen bs"
  shows "posted E ringlen (nz_bufs bs) u fl di fl' di'"
  using assms
proof (induction bs arbitrary: f out fl di u)
  case Nil
  then show ?case by (auto simp: posted_def nz_bufs_def)
next
  case (Cons b bs)
  have room: "NEXTTXD di out \<noteq> txin di" using Cons.prems(1) by (auto split: if_splits)
  have fits: "tx_fits (b # bs) (nt di - 1 - u)"
    using txfast_loop_out[OF Cons.prems(1,2,3) _ Cons.prems(5)] Cons.prems(2,4) by (simp add: unat_tx_slot)
  show ?case
  proof (cases "b_len b = 0")
    case True
    then show ?thesis using Cons room by (auto simp: nz_bufs_def plain_bufs_def)
  next
    case False
    let ?e = "emit (map_ev b) di"
    obtain g h where upd: "e_tx_upd E ?e (b_pa b) out (txflags f (bs = []) (out = ntxd di - 1)) (b_len b) = (g, h)" by fastforce
    let ?d = "?e\<lparr>hw := h\<rparr>"
    have slot: "NEXTTXD di out = tx_slot ?d (Suc u)" using Cons.prems(2,4)
      by (simp add: word_unat_eq_iff unat_tx_slot NEXTTXD_def TXD_def unat_NEXT mod_Suc_eq)
    have Su: "Suc u < nt di" using fits by (simp add: tx_fits_Cons)
    have "posted E ringlen (nz_bufs bs) (Suc u) g ?d fl' di'"
      using Cons.prems Su upd_len[OF upd] slot txfast_loop_step[OF room False upd] ext_addr_cong[of ?d di]
      by (intro Cons.IH[of False "NEXTTXD di out"]) (simp_all add: plain_bufs_def)
    then have "posted E ringlen (b # nz_bufs bs) u fl di fl' di'"
      using Cons.prems upd by (intro posted_Cons) (auto simp: plain_bufs_def)
    then show ?thesis using False by (simp add: nz_bufs_def)
  qed
qed

end

context tx_engine begin

theorem txfast_maps:
  assumes inv: "tx_inv di" and fits: "tx_fits (bufs p) (nt di - 1 - tx_used di)" and nz: "nz_bufs (bufs p) \<noteq> []"
    and plain: "ringlen (hw di) = nt di" "plain_bufs di maxlen (bufs p)" and res: "txfast E p commit di = (r, di')"
  shows "tx_maps E di' = tx_maps E di @ map buf_map (nz_bufs (bufs p)) \<and>
    trace di' = trace di @ map map_ev (nz_bufs (bufs p)) \<and> ringlen (hw di') = ringlen (hw di)"
proof -
  note i = inv[unfolded tx_inv_def]
  let ?bs = "nz_bufs (bufs p)" and ?u = "tx_used di"
  obtain ok out fl d1 where loop: "txfast_loop E True (bufs p) (txout di) 0 di = (ok, out, fl, d1)" by (metis prod_cases4)
  have lo: "ok" "?u + length ?bs < nt di" "unat out = (unat (txin di) + (?u + length ?bs)) mod nt di"
    using txfast_loop_out[OF loop _ _ tx_out_eq[OF inv] tx_used_less[OF inv]] i fits by auto
  obtain k where k: "length ?bs = Suc k" using nz by (cases ?bs) auto
  have out0: "txout di = tx_slot di ?u" using i tx_out_eq[OF inv] by (simp add: word_unat_eq_iff unat_tx_slot)
  have post: "posted E ringlen ?bs ?u 0 di fl d1"
    using txfast_loop_posts[OF loop[unfolded eqTrueI[OF lo(1)]] _ _ out0 tx_used_less[OF inv] plain] i by simp
  obtain hh t where d1: "d1 = di\<lparr>hw := hh, trace := t\<rparr>" using txfast_loop_frame[OF loop] by blast
  have prev: "PREVTXD d1 out = tx_slot di (?u + k)"
    using i lo k unat_PREV[of "ntxd di" out "unat (txin di)" "?u + k"]
    by (simp add: word_unat_eq_iff unat_tx_slot PREVTXD_def TXD_def d1)
  define d2 where "d2 = (if fl AND CTRL_EOF = 0 then d1\<lparr>hw := e_tx_ctrl E d1 (PREVTXD d1 out) (fl OR CTRL_IOC OR CTRL_EOF)\<rparr> else d1)"
  have d2: "ringlen (hw d2) = ringlen (hw di)" "trace d2 = trace di @ map map_ev ?bs" "txin d2 = txin di" "ntxd d2 = ntxd di"
      "dataoffsetlow d2 = dataoffsetlow di"
    using post by (auto simp: d2_def ctrl_len posted_def d1)
  have slots: "tx_slot d1 = tx_slot di" "tx_slot d2 = tx_slot di" using d2 by (simp_all add: d1 tx_slot_def fun_eq_iff)
  have m2: "map_at E d2 j = map_at E d1 j" if "j < nt di" for j
  proof (cases "fl AND CTRL_EOF = 0 \<and> j = ?u + k")
    case True
    have "map_at E d1 j = buf_map (last ?bs)" using post True k nz that by (simp add: posted_def last_conv_nth)
    moreover have "map_at E d2 j = buf_map (last ?bs)"
      using post True k nz prev slots by (simp add: posted_def map_at_slot) (simp add: d2_def)
    ultimately show ?thesis by simp
  next
    case False
    then have "fl AND CTRL_EOF = 0 \<Longrightarrow> tx_slot di (?u + k) \<noteq> tx_slot di j" using that lo k i by (simp add: tx_slot_inj)
    then show ?thesis using prev ctrl_other[of "tx_slot di (?u + k)" "tx_slot di j" d1]
      by (simp add: map_at_slot slots) (simp add: d2_def)
  qed
  have fin: "trace di' = trace d2" "txin di' = txin di" "ntxd di' = ntxd di" "dataoffsetlow di' = dataoffsetlow d2"
      "hw di' = (if commit then e_tx_kick E (d2\<lparr>txp := txp di', txout := txout di'\<rparr>) out else hw d2)"
    using res lo(1) by (auto simp: txfast_def loop Let_def d2_def d1)
  have "e_tx_mapping E di' i = e_tx_mapping E d2 i" for i
  proof (cases commit)
    case True
    let ?d = "d2\<lparr>txp := txp di', txout := txout di'\<rparr>"
    have "e_tx_mapping E di' i = e_tx_mapping E (?d\<lparr>hw := e_tx_kick E ?d out\<rparr>) i" using fin True by (intro mapping_hw) simp_all
    then show ?thesis using kick_mapping[of ?d out i] mapping_hw[of ?d d2 i] by simp
  next
    case False
    then show ?thesis using fin by (intro mapping_hw) simp_all
  qed
  then have mf: "map_at E di' j = (if ?u \<le> j \<and> j < ?u + length ?bs then buf_map (?bs ! (j - ?u)) else map_at E di j)" if "j < nt di" for j
    using m2[OF that] post that fin(2,3) d2(3,4) by (simp add: posted_def map_at_slot tx_slot_def)
  have used: "tx_used di' = ?u + length ?bs" using txfast_fits[OF inv fits nz res] by simp
  have "tx_maps E di' = tx_maps E di @ map buf_map ?bs"
  proof (rule nth_equalityI)
    show "tx_maps E di' ! j = (tx_maps E di @ map buf_map ?bs) ! j" if "j < length (tx_maps E di')" for j
      using that mf[of j] lo(2) by (simp add: tx_maps_def used nth_append)
  qed (simp add: tx_maps_def used)
  moreover have "ringlen (hw di') = ringlen (hw d2)" using fin(5) kick_len by simp
  ultimately show ?thesis using fin(1) d2 by simp
qed

end

end
