(* ===== verification/Hnd_Dma_Rotate.thy ===== *)
theory Hnd_Dma_Rotate
  imports Hnd_Dma_Ring
begin

text \<open>
  The operations of hnddma.c that move a whole ring: txrotate, which shifts the active transmit entries, and
  the sequences of sends and reclaims through the operation tables.
\<close>

section \<open>Moving the active entries\<close>

locale rot_engine = tx_engine +
  assumes move_new: "old \<noteq> new \<Longrightarrow> unat new < ringlen (hw d) \<Longrightarrow>
      e_tx_mapping E (d\<lparr>hw := e_tx_move E d old new\<rparr>) new = e_tx_mapping E d old"
    and move_other: "i \<noteq> old \<Longrightarrow> i \<noteq> new \<Longrightarrow> e_tx_mapping E (d\<lparr>hw := e_tx_move E d old new\<rparr>) i = e_tx_mapping E d i"
    and move_len: "ringlen (e_tx_move E d old new) = ringlen (hw d)"

lemma eot_bc: "((c AND NOT CTRL_EOT) OR (if b then CTRL_EOT else 0)) AND CTRL_BC_MASK = c AND CTRL_BC_MASK"
proof -
  have "CTRL_EOT AND CTRL_BC_MASK = 0" "NOT CTRL_EOT AND CTRL_BC_MASK = CTRL_BC_MASK"
    by (simp_all add: CTRL_EOT_def CTRL_BC_MASK_def)
  then show ?thesis by (auto simp: bit.conj_disj_distrib2 and.assoc)
qed

interpretation r32: rot_engine engine32 "\<lambda>h. length (txd32 h)" CTRL_BC_MASK
  by unfold_locales (auto simp: engine32_def Let_def eot_bc word_unat_eq_iff[symmetric])

interpretation r64: rot_engine engine64 "\<lambda>h. length (txd64 h)" D64_CTRL2_BC_MASK
  by unfold_locales (auto simp: engine64_def Let_def word_unat_eq_iff[symmetric])

text \<open>The loop on the view: it moves the slots below \<open>m\<close> up by \<open>rot\<close>, the last one first.\<close>

primrec shift_slots :: "nat \<Rightarrow> nat \<Rightarrow> 'a option list \<Rightarrow> 'a option list" where
  "shift_slots rot 0 v = v"
| "shift_slots rot (Suc m) v = shift_slots rot m ((v[m + rot := v ! m])[m := None])"

lemma shift_step:
  "((xs @ [x]) @ replicate (Suc r) None @ ts)[length xs + Suc r := x, length xs := None] = xs @ replicate (Suc r) None @ x # ts"
proof -
  have "(xs @ [x]) @ replicate (Suc r) None @ ts = (xs @ x # replicate r None) @ None # ts"
    by (simp flip: replicate_append_same)
  then have "((xs @ [x]) @ replicate (Suc r) None @ ts)[length xs + Suc r := x] = (xs @ x # replicate r None) @ x # ts"
    using list_update_length[of "xs @ x # replicate r None" None ts x] by (simp only: length_append length_Cons length_replicate)
  then show ?thesis by simp
qed

lemma shift_slots_append:
  "shift_slots (Suc r) (length xs) (xs @ replicate (Suc r) None @ ts) = replicate (Suc r) None @ xs @ ts"
proof (induction xs arbitrary: ts rule: rev_induct)
  case (snoc x xs)
  have "shift_slots (Suc r) (length (xs @ [x])) ((xs @ [x]) @ replicate (Suc r) None @ ts) =
      shift_slots (Suc r) (length xs) (((xs @ [x]) @ replicate (Suc r) None @ ts)[length xs + Suc r := x, length xs := None])"
    by (simp add: nth_append del: replicate_Suc)
  then show ?case using snoc[of "x # ts"] by (simp only: shift_step) simp
qed simp

lemma shift_slots_zero: "m \<le> length v \<Longrightarrow> shift_slots 0 m v = replicate m None @ drop m v"
proof (induction m arbitrary: v)
  case (Suc m)
  then have "drop m (v[m := None]) = None # drop (Suc m) v" by (simp add: drop_update_swap Cons_nth_drop_Suc[symmetric])
  with Suc show ?case by (simp add: replicate_app_Cons_same)
qed simp

text \<open>One step of the loop.\<close>

lemma rotate_one_eq:
  "rotate_one E rot old di = di\<lparr>hw := e_tx_move E di old (TXD di (old + rot)),
     txp := ((txp di)[unat (TXD di (old + rot)) := txp di ! unat old])[unat old := None]\<rparr>"
  by (simp add: rotate_one_def Let_def)

lemma same_ring_upd: "same_ring di (di\<lparr>hw := h, txp := tp\<rparr>)"
  by (auto simp: same_ring_def intro!: exI[of _ h] exI[of _ "trace di"] exI[of _ tp])

lemma tx_slot_add: "pow2 (ntxd di) \<Longrightarrow> TXD di (tx_slot di j + rot) = tx_slot di (j + unat rot)"
  by (simp add: word_unat_eq_iff TXD_def unat_XXD_add unat_tx_slot mod_add_left_eq add.assoc)

lemma tx_slot_prev: "pow2 (ntxd di) \<Longrightarrow> Suc j < nt di \<Longrightarrow> PREVTXD di (tx_slot di (Suc j)) = tx_slot di j"
  using unat_PREV[of "ntxd di" "tx_slot di (Suc j)" "unat (txin di)" j]
  by (simp add: word_unat_eq_iff PREVTXD_def TXD_def unat_tx_slot)

lemma tx_slot_0: "txin di < ntxd di \<Longrightarrow> tx_slot di 0 = txin di"
  by (simp add: tx_slot_def word_less_nat_alt)

lemma tx_slot_before:
  assumes "pow2 (ntxd di)" "txin di < ntxd di" "j < nt di - 1"
  shows "tx_slot di j \<noteq> PREVTXD di (txin di)"
proof -
  have "1 < ntxd di" using assms(3) by (simp add: word_less_nat_alt)
  then have "unat (PREVTXD di (txin di)) = (unat (txin di) + (nt di - 1)) mod nt di"
    using unat_XXD_diff[OF assms(1), of 1 "txin di"] assms(3) by (simp add: PREVTXD_def TXD_def)
  then show ?thesis using assms add_mod_inj[of j "nt di" "nt di - 1" "unat (txin di)"]
    by (simp add: word_unat_eq_iff unat_tx_slot)
qed

lemma tx_view_rotate_one:
  assumes "pow2 (ntxd di)" "length (txp di) = nt di" "j + unat rot < nt di"
  shows "tx_view (rotate_one E rot (tx_slot di j) di) = ((tx_view di)[j + unat rot := tx_view di ! j])[j := None]"
proof -
  have at: "txp di ! ((unat (txin di) + j) mod nt di) = tx_view di ! j" using assms by (simp add: tx_view_def nth_rotate)
  show ?thesis
    using assms rotate_update[of "j + unat rot" "txp di" "unat (txin di)" "tx_view di ! j"]
      rotate_update[of j "(txp di)[(unat (txin di) + (j + unat rot)) mod nt di := tx_view di ! j]" "unat (txin di)" None]
    by (simp add: rotate_one_eq tx_slot_add tx_view_def[of "_\<lparr>hw := _, txp := _\<rparr>"] unat_tx_slot at add.assoc) (simp add: tx_view_def)
qed

context rot_engine begin

lemma map_at_rotate_one:
  assumes "pow2 (ntxd di)" "ringlen (hw di) = nt di" "j + unat rot < nt di" "0 < unat rot" "k < nt di" "k \<noteq> j"
  shows "map_at E (rotate_one E rot (tx_slot di j) di) k =
    (if k = j + unat rot then map_at E di j else map_at E di k)"
proof -
  let ?d = "rotate_one E rot (tx_slot di j) di" and ?n = "tx_slot di (j + unat rot)"
  have slot: "tx_slot ?d = tx_slot di" by (simp add: rotate_one_eq tx_slot_def fun_eq_iff)
  have m: "e_tx_mapping E ?d i = e_tx_mapping E (di\<lparr>hw := e_tx_move E di (tx_slot di j) ?n\<rparr>) i" for i
    using assms(1) by (intro mapping_hw) (simp_all add: rotate_one_eq tx_slot_add)
  have ne: "tx_slot di j \<noteq> ?n" using assms by (simp add: tx_slot_inj)
  have lt: "unat ?n < ringlen (hw di)" using assms(1,2) by (simp add: unat_tx_slot pow2_pos)
  show ?thesis
    using assms move_new[OF ne lt] move_other[of "tx_slot di k" "tx_slot di j" ?n di]
    by (auto simp: map_at_slot slot m tx_slot_inj)
qed

theorem rotate_loop_shifts:
  assumes "pow2 (ntxd di)" "txin di < ntxd di" "length (txp di) = nt di" "ringlen (hw di) = nt di" "m < nt di" "m + unat rot \<le> nt di"
  shows "\<exists>d'. rotate_loop E rot (PREVTXD di (txin di)) (PREVTXD di (tx_slot di m)) di = Some d' \<and> same_ring di d' \<and>
    tx_view d' = shift_slots (unat rot) m (tx_view di) \<and> length (txp d') = nt di \<and> trace d' = trace di \<and> ringlen (hw d') = nt di \<and>
    (0 < unat rot \<longrightarrow> (\<forall>k<m. map_at E d' (k + unat rot) = map_at E di k) \<and>
       (\<forall>k. m + unat rot \<le> k \<and> k < nt di \<longrightarrow> map_at E d' k = map_at E di k))"
  using assms
proof (induction m arbitrary: di)
  case 0
  then show ?case by (subst rotate_loop.simps) (simp add: tx_slot_0 same_ring_refl)
next
  case (Suc j)
  let ?d = "rotate_one E rot (tx_slot di j) di"
  have d: "ntxd ?d = ntxd di" "txin ?d = txin di" "length (txp ?d) = nt di" "trace ?d = trace di"
      "ringlen (hw ?d) = nt di" "PREVTXD ?d = PREVTXD di" "tx_slot ?d = tx_slot di"
    using Suc.prems by (auto simp: rotate_one_eq move_len PREVTXD_def TXD_def tx_slot_def fun_eq_iff)
  have same: "same_ring di ?d" by (simp only: rotate_one_eq same_ring_upd)
  have step: "rotate_loop E rot (PREVTXD di (txin di)) (PREVTXD di (tx_slot di (Suc j))) di =
      rotate_loop E rot (PREVTXD ?d (txin ?d)) (PREVTXD ?d (tx_slot ?d j)) ?d"
    using Suc.prems tx_slot_before[of di j] by (subst rotate_loop.simps) (simp add: tx_slot_prev d)
  obtain d' where d': "rotate_loop E rot (PREVTXD ?d (txin ?d)) (PREVTXD ?d (tx_slot ?d j)) ?d = Some d'" "same_ring ?d d'"
      "tx_view d' = shift_slots (unat rot) j (tx_view ?d)" "length (txp d') = nt di" "trace d' = trace di" "ringlen (hw d') = nt di"
      "0 < unat rot \<longrightarrow> (\<forall>k<j. map_at E d' (k + unat rot) = map_at E ?d k) \<and>
        (\<forall>k. j + unat rot \<le> k \<and> k < nt di \<longrightarrow> map_at E d' k = map_at E ?d k)"
    using Suc.IH[of ?d] Suc.prems d(1-5) by auto
  have view: "tx_view ?d = ((tx_view di)[j + unat rot := tx_view di ! j])[j := None]"
    using Suc.prems by (intro tx_view_rotate_one) simp_all
  note one = map_at_rotate_one[OF Suc.prems(1,4), of j rot]
  have maps: "0 < unat rot \<Longrightarrow> (\<forall>k<Suc j. map_at E d' (k + unat rot) = map_at E di k) \<and>
      (\<forall>k. Suc j + unat rot \<le> k \<and> k < nt di \<longrightarrow> map_at E d' k = map_at E di k)"
    using d'(7) one Suc.prems(6) by (auto simp: less_Suc_eq)
  show ?case using step d' view maps same_ring_trans[OF same d'(2)] by auto
qed

end

section \<open>txrotate\<close>

definition tx_rot :: "engine \<Rightarrow> dma_info \<Rightarrow> nat" where
  "tx_rot E di = unat (TXD di (e_tx_active E di - txin di))"

lemma tx_view_split:
  assumes "tx_inv di" "tx_used di + r \<le> nt di"
  shows "tx_view di = take (tx_used di) (tx_view di) @ replicate r None @ replicate (nt di - tx_used di - r) None"
proof -
  have "drop (tx_used di) (tx_view di) = replicate (nt di - tx_used di) None"
    using assms by (auto simp: tx_inv_def list_all_iff intro!: replicate_eqI)
  also have "\<dots> = replicate r None @ replicate (nt di - tx_used di - r) None"
    using assms(2) by (simp flip: replicate_add)
  finally show ?thesis by (metis append_take_drop_id)
qed

text \<open>The state with \<open>txin\<close> and \<open>txout\<close> moved by \<open>r\<close>.\<close>

lemma tx_rotated:
  assumes inv: "tx_inv di" and r: "tx_rot E di = r" and ad: "e_tx_active E di < ntxd di" and len: "length (txp d1) = nt di"
    and d1: "txin d1 = txin di"
    and eqs: "ntxd di' = ntxd di" "txin di' = e_tx_active E di" "txout di' = TXD di (txout di + TXD di (e_tx_active E di - txin di))" "txp di' = txp d1"
  shows "tx_view di' = rotate r (tx_view d1)" "tx_used di' = tx_used di" "txout di' < ntxd di"
    "unat (txin di') = (unat (txin di) + r) mod nt di"
proof -
  note i = inv[unfolded tx_inv_def]
  have "r = (unat (e_tx_active E di) + nt di - unat (txin di)) mod nt di"
    using i r by (auto simp: tx_rot_def TXD_def unat_XXD_diff)
  then have in': "unat (txin di') = (unat (txin di) + r) mod nt di"
    using i ad ring_undist[of "unat (txin di)" "nt di" "unat (e_tx_active E di)"] by (simp add: eqs word_less_nat_alt)
  then show "unat (txin di') = (unat (txin di) + r) mod nt di" .
  have "tx_view di' = rotate ((unat (txin di) + r) mod length (txp d1)) (txp d1)" using in' len by (simp add: tx_view_def eqs)
  then show "tx_view di' = rotate r (tx_view d1)"
    by (simp add: tx_view_def d1 rotate_rotate add.commute flip: rotate_conv_mod)
  show "txout di' < ntxd di" using i by (simp add: eqs TXD_def XXD_less)
  have "unat (txout di') = (unat (txout di) + r) mod nt di" using i r by (simp add: eqs TXD_def unat_XXD_add tx_rot_def)
  also have "\<dots> = (unat (txin di) + tx_used di + r) mod nt di" by (metis tx_out_eq[OF inv] mod_add_left_eq)
  also have "\<dots> = (unat (txin di) + r + tx_used di) mod nt di" by (simp add: ac_simps)
  also have "\<dots> = (unat (txin di') + tx_used di) mod nt di" unfolding in' by (rule mod_add_left_eq[symmetric])
  finally have "unat (txout di') = (unat (txin di') + tx_used di) mod nt di" .
  moreover have "tx_used di' = (unat (txout di') + nt di - unat (txin di')) mod nt di"
    using i ad by (simp add: tx_used_def dma_txactive_def NTXDACTIVE_def TXD_def unat_XXD_diff eqs)
  ultimately show "tx_used di' = tx_used di"
    using ring_dist[of "unat (txin di')" "nt di" "tx_used di"] ad tx_used_less[OF inv] by (simp add: word_less_nat_alt eqs)
qed

context rot_engine begin

lemma txrotate_result:
  assumes inv: "tx_inv di" and len: "ringlen (hw di) = nt di" and room: "tx_rot E di + tx_used di < nt di" and ad: "e_tx_active E di < ntxd di"
  shows "\<exists>d1 d'. txrotate E di = Some d' \<and> same_ring di d1 \<and> tx_view d1 = shift_slots (tx_rot E di) (tx_used di) (tx_view di) \<and>
    tx_view d' = rotate (tx_rot E di) (tx_view d1) \<and> tx_used d' = tx_used di \<and> txout d' < ntxd di \<and> txin d' = e_tx_active E di \<and>
    ntxd d' = ntxd di \<and> length (txp d') = nt di \<and> trace d' = trace di \<and> unat (txavail d') = nt di - 1 - tx_used di \<and>
    (0 < tx_rot E di \<longrightarrow> (\<forall>k < tx_used di. map_at E d' k = map_at E di k))"
proof -
  note i = inv[unfolded tx_inv_def]
  let ?rot = "TXD di (e_tx_active E di - txin di)"
  have out: "txout di = tx_slot di (tx_used di)" using i tx_out_eq[OF inv] by (simp add: word_unat_eq_iff unat_tx_slot)
  have ur: "unat ?rot = tx_rot E di" by (simp add: tx_rot_def)
  obtain d1 where loop: "rotate_loop E ?rot (PREVTXD di (txin di)) (PREVTXD di (txout di)) di = Some d1" and same: "same_ring di d1"
      and v: "tx_view d1 = shift_slots (tx_rot E di) (tx_used di) (tx_view di)" "length (txp d1) = nt di" "trace d1 = trace di"
      and maps: "0 < tx_rot E di \<longrightarrow> (\<forall>k<tx_used di. map_at E d1 (k + tx_rot E di) = map_at E di k)"
    using rotate_loop_shifts[of di "tx_used di" ?rot] i len room tx_used_less[OF inv] by (auto simp: out ur)
  note sd = same_ringD[OF same]
  have "unat (ntxd di - dma_txactive di) = nt di - tx_used di"
    using tx_used_less[OF inv] by (simp add: unat_sub_if' tx_used_def)
  then have go: "\<not> ?rot \<ge> ntxd di - dma_txactive di" using room by (simp add: word_le_nat_alt ur)
  let ?d2 = "d1\<lparr>txin := e_tx_active E di, txout := TXD d1 (txout d1 + ?rot)\<rparr>"
  define d' where "d' = (?d2\<lparr>txavail := tx_free ?d2\<rparr>)\<lparr>hw := e_tx_kick E (?d2\<lparr>txavail := tx_free ?d2\<rparr>) (txout ?d2)\<rparr>"
  have res: "txrotate E di = Some d'" using go loop by (simp add: txrotate_def Let_def d'_def)
  have flds: "ntxd d' = ntxd di" "txin d' = e_tx_active E di" "txout d' = TXD di (txout di + ?rot)" "txp d' = txp d1"
      "trace d' = trace di" "txavail d' = tx_free d'"
    using v(3) sd by (simp_all add: d'_def TXD_def tx_free_def NTXDACTIVE_def)
  note rot = tx_rotated[OF inv refl ad v(2) sd(2) flds(1-4)]
  have map: "map_at E d' k = map_at E d1 (k + tx_rot E di)" for k
  proof -
    have "e_tx_mapping E d' i = e_tx_mapping E d1 i" for i
      using kick_mapping[of "?d2\<lparr>txavail := tx_free ?d2\<rparr>" "txout ?d2" i] mapping_hw[of "?d2\<lparr>txavail := tx_free ?d2\<rparr>" d1 i]
      by (simp add: d'_def)
    then show ?thesis using rot(4) sd flds by (simp add: map_at_def mod_add_right_eq ac_simps)
  qed
  have "unat (tx_free d') = nt di - 1 - tx_used di"
    using rot(2) tx_used_less[OF inv] by (simp add: tx_free_def dma_txactive_def[symmetric] unat_sub_if' tx_used_def flds(1))
  then show ?thesis using res same v rot flds map maps by (intro exI[of _ d1] exI[of _ d']) simp
qed

end

context rot_engine begin

theorem txrotate_keeps:
  assumes inv: "tx_inv di" and len: "ringlen (hw di) = nt di" and ad: "e_tx_active E di < ntxd di"
    and rot: "0 < tx_rot E di" "tx_rot E di + tx_used di < nt di"
  shows "\<exists>d'. txrotate E di = Some d' \<and> tx_inv d' \<and> tx_queue d' = tx_queue di \<and> tx_maps E d' = tx_maps E di \<and>
    txin d' = e_tx_active E di \<and> tx_used d' = tx_used di \<and> trace d' = trace di \<and> unat (txavail d') = nt di - 1 - tx_used di"
proof -
  obtain d1 d' where res: "txrotate E di = Some d'" and r: "tx_view d1 = shift_slots (tx_rot E di) (tx_used di) (tx_view di)"
      "tx_view d' = rotate (tx_rot E di) (tx_view d1)" "tx_used d' = tx_used di" "txout d' < ntxd di" "txin d' = e_tx_active E di"
      "ntxd d' = ntxd di" "length (txp d') = nt di" "trace d' = trace di" "unat (txavail d') = nt di - 1 - tx_used di"
      "\<forall>k < tx_used di. map_at E d' k = map_at E di k"
    using txrotate_result[OF inv len rot(2) ad] rot(1) by blast
  obtain q where q: "tx_rot E di = Suc q" using rot(1) gr0_conv_Suc by blast
  let ?xs = "take (tx_used di) (tx_view di)" and ?ts = "replicate (nt di - tx_used di - Suc q) None"
  have split: "tx_view di = ?xs @ replicate (Suc q) None @ ?ts" using tx_view_split[OF inv, of "Suc q"] rot(2) q by simp
  have lx: "length ?xs = tx_used di" using inv tx_used_less[OF inv] by (simp add: tx_inv_def)
  have "tx_view d1 = replicate (Suc q) None @ ?xs @ ?ts"
    using shift_slots_append[of q ?xs ?ts] r(1) unfolding q lx by (metis split)
  then have "tx_view d' = (?xs @ ?ts) @ replicate (Suc q) None"
    using r(2) rotate_append[of "replicate (Suc q) None" "?xs @ ?ts"] by (simp add: q del: replicate_Suc)
  also have "\<dots> = tx_view di" by (subst split) (simp add: replicate_add[symmetric] add.commute del: replicate_Suc)
  finally have view: "tx_view d' = tx_view di" .
  then have "tx_inv d'" using inv r ad by (simp add: tx_inv_def)
  moreover have "tx_maps E d' = tx_maps E di" using r(3,10) by (simp add: tx_maps_def)
  ultimately show ?thesis using res r view by (auto simp: tx_queue_def)
qed

theorem txrotate_in_place:
  assumes inv: "tx_inv di" and len: "ringlen (hw di) = nt di" and ad: "e_tx_active E di = txin di"
  shows "\<exists>d'. txrotate E di = Some d' \<and> tx_queue d' = [] \<and> tx_used d' = tx_used di \<and> freed (trace d') = freed (trace di)"
proof -
  have z: "tx_rot E di = 0" using ad inv unat_XXD_add[of "ntxd di" 0 0] by (simp add: tx_rot_def TXD_def tx_inv_def)
  have "e_tx_active E di < ntxd di" using inv ad by (simp add: tx_inv_def)
  then obtain d1 d' where "txrotate E di = Some d'" and r: "tx_view d1 = shift_slots 0 (tx_used di) (tx_view di)"
      "tx_view d' = tx_view d1" "tx_used d' = tx_used di" "trace d' = trace di"
    using txrotate_result[OF inv len] tx_used_less[OF inv] by (auto simp: z)
  moreover have "list_all (\<lambda>p. p = None) (tx_view d1)"
    using shift_slots_zero[of "tx_used di" "tx_view di"] inv tx_used_less[OF inv] by (auto simp: r(1) tx_inv_def list_all_iff)
  ultimately show ?thesis by (simp add: tx_queue_def map_filter_id_none)
qed

end

section \<open>Both engines\<close>

definition ringlen_of :: "dma_info \<Rightarrow> nat" where
  "ringlen_of di = (if dma64 di then length (txd64 (hw di)) else length (txd32 (hw di)))"

definition maxlen_of :: "dma_info \<Rightarrow> u32" where
  "maxlen_of di = (if dma64 di then D64_CTRL2_BC_MASK else CTRL_BC_MASK)"

lemmas di_defs = di_txfast_def di_getnexttxp_def di_txreclaim_def di_txrotate_def dma32_txfast_def dma64_txfast_def
  dma32_getnexttxp_def dma64_getnexttxp_def dma32_txreclaim_def dma64_txreclaim_def dma32_txrotate_def dma64_txrotate_def

lemma di_txfast_engine: "di_txfast p commit di = txfast (engine_of di) p commit di"
  by (simp add: di_defs engine_of_def)

lemma txfast_frame:
  assumes "txfast E p commit di = (r, di')"
  shows "dma64 di' = dma64 di" "dataoffsetlow di' = dataoffsetlow di" "ntxd di' = ntxd di"
proof -
  obtain ok out fl d1 where loop: "txfast_loop E True (bufs p) (txout di) 0 di = (ok, out, fl, d1)" by (metis prod_cases4)
  obtain h t where "d1 = di\<lparr>hw := h, trace := t\<rparr>" using txfast_loop_frame[OF loop] by blast
  then show "dma64 di' = dma64 di" "dataoffsetlow di' = dataoffsetlow di" "ntxd di' = ntxd di"
    using assms by (auto simp: txfast_def loop Let_def PKTFREE_def split: if_splits)
qed

lemma di_txfast_maps:
  assumes "tx_inv di" "tx_fits (bufs p) (nt di - 1 - tx_used di)" "nz_bufs (bufs p) \<noteq> []"
    "ringlen_of di = nt di" "plain_bufs di (maxlen_of di) (bufs p)" "di_txfast p commit di = (r, di')"
  shows "tx_maps (engine_of di) di' = tx_maps (engine_of di) di @ map buf_map (nz_bufs (bufs p)) \<and>
    trace di' = trace di @ map map_ev (nz_bufs (bufs p)) \<and> ringlen_of di' = ringlen_of di"
  using assms e32.txfast_maps[of di p commit r di'] e64.txfast_maps[of di p commit r di'] txfast_frame(1)
  by (auto simp: di_defs engine_of_def ringlen_of_def maxlen_of_def split: if_splits)

lemma di_txreclaim_frees:
  assumes "tx_inv di"
  shows "\<exists>di' qs ms. di_txreclaim True di = Some di' \<and> tx_inv di' \<and> tx_queue di = qs @ tx_queue di' \<and>
    freed (trace di') = freed (trace di) @ qs \<and> tx_used di' = 0 \<and> unat (txavail di') = nt di - 1 \<and>
    tx_maps (engine_of di) di = ms \<and> unmapped (trace di') = unmapped (trace di) @ ms \<and> mapped (trace di') = mapped (trace di)"
proof -
  have used: "tx_used d - tx_bound E True d = 0" for d E by (simp add: tx_bound_def)
  show ?thesis
    using e32.txreclaim_frees[OF assms, of True] e64.txreclaim_frees[OF assms, of True]
    by (auto simp: di_defs engine_of_def used tx_maps_def[of _ di] ) 
       (auto simp: tx_maps_def)
qed

text \<open>Sending a list of packets, and the condition that the ring takes them all.\<close>

primrec tx_send :: "packet list \<Rightarrow> dma_info \<Rightarrow> dma_info" where
  "tx_send [] di = di"
| "tx_send (p # ps) di = tx_send ps (snd (di_txfast p True di))"

primrec tx_fits_all :: "packet list \<Rightarrow> nat \<Rightarrow> bool" where
  "tx_fits_all [] n = True"
| "tx_fits_all (p # ps) n = (nz_bufs (bufs p) \<noteq> [] \<and> tx_fits (bufs p) n \<and> tx_fits_all ps (n - length (nz_bufs (bufs p))))"

lemma tx_send_all:
  assumes "tx_inv di" "ringlen_of di = nt di" "tx_fits_all ps (nt di - 1 - tx_used di)"
    "list_all (\<lambda>p. plain_bufs di (maxlen_of di) (bufs p)) ps"
  shows "tx_inv (tx_send ps di) \<and> tx_queue (tx_send ps di) = tx_queue di @ ps \<and> ntxd (tx_send ps di) = ntxd di \<and>
    engine_of (tx_send ps di) = engine_of di \<and> freed (trace (tx_send ps di)) = freed (trace di) \<and>
    unmapped (trace (tx_send ps di)) = unmapped (trace di) \<and>
    tx_maps (engine_of di) (tx_send ps di) = tx_maps (engine_of di) di @ concat (map (\<lambda>p. map buf_map (nz_bufs (bufs p))) ps) \<and>
    mapped (trace (tx_send ps di)) = mapped (trace di) @ concat (map (\<lambda>p. map buf_map (nz_bufs (bufs p))) ps)"
  using assms
proof (induction ps arbitrary: di)
  case (Cons p ps)
  obtain r d1 where res: "di_txfast p True di = (r, d1)" by fastforce
  have pre: "tx_fits (bufs p) (nt di - 1 - tx_used di)" "nz_bufs (bufs p) \<noteq> []" "plain_bufs di (maxlen_of di) (bufs p)"
    using Cons.prems by simp_all
  note fits = txfast_fits[OF Cons.prems(1) pre(1,2) res[unfolded di_txfast_engine]]
    and maps = di_txfast_maps[OF Cons.prems(1) pre(1,2) Cons.prems(2) pre(3) res]
    and frame = txfast_frame[OF res[unfolded di_txfast_engine]]
  have eng: "engine_of d1 = engine_of di" "maxlen_of d1 = maxlen_of di" "plain_bufs d1 = plain_bufs di"
    using frame ext_addr_cong[of d1 di] by (simp_all add: engine_of_def maxlen_of_def plain_bufs_def fun_eq_iff)
  have rest: "tx_fits_all ps (nt d1 - 1 - tx_used d1)" using Cons.prems(3) fits by (simp add: diff_diff_left)
  show ?case
    using Cons.IH[of d1] fits maps frame eng rest Cons.prems(2,4) res by (auto simp: eng)
qed auto

end
