(* ===== verification/Hnd_Dma_Rx.thy ===== *)
theory Hnd_Dma_Rx
  imports Hnd_Dma_Ring
begin

text \<open>
  The receive ring of hnddma.c as a queue: rxfill posts buffers up to the wanted number, rx takes the packets
  the hardware has finished and drops giants, rxreclaim gives every posted buffer back.
\<close>

section \<open>The receive ring as a queue\<close>

abbreviation nr :: "dma_info \<Rightarrow> nat" where "nr di \<equiv> unat (nrxd di)"

definition rx_view :: "dma_info \<Rightarrow> packet option list" where "rx_view di = rotate (unat (rxin di)) (rxp di)"

text \<open>The ring holds exactly the packets \<open>q\<close>, in order, from \<open>rxin\<close> to \<open>rxout\<close>.\<close>

definition rx_abs :: "dma_info \<Rightarrow> packet list \<Rightarrow> bool" where
  "rx_abs di q = (pow2 (nrxd di) \<and> rxin di < nrxd di \<and> length q < nr di \<and> length (rxp di) = nr di \<and>
     unat (rxout di) = (unat (rxin di) + length q) mod nr di \<and> rx_view di = map Some q @ replicate (nr di - length q) None)"

definition rx_slot :: "dma_info \<Rightarrow> nat \<Rightarrow> u32" where "rx_slot di j = of_nat ((unat (rxin di) + j) mod nr di)"

definition rx_map_at :: "engine \<Rightarrow> dma_info \<Rightarrow> nat \<Rightarrow> u32 \<times> u32" where
  "rx_map_at E di j = (e_rx_mapping E di (rx_slot di j), rxbufsize di)"

definition rx_maps :: "engine \<Rightarrow> dma_info \<Rightarrow> nat \<Rightarrow> (u32 \<times> u32) list" where
  "rx_maps E di n = map (rx_map_at E di) [0..<n]"

lemma unat_rx_slot: "pow2 (nrxd di) \<Longrightarrow> unat (rx_slot di j) = (unat (rxin di) + j) mod nr di"
  by (simp add: rx_slot_def unat_slot)

lemma rx_slot_inj: "pow2 (nrxd di) \<Longrightarrow> j < nr di \<Longrightarrow> k < nr di \<Longrightarrow> rx_slot di j = rx_slot di k \<longleftrightarrow> j = k"
  by (simp add: word_unat_eq_iff unat_rx_slot add_mod_inj)

lemma rx_slot_0: "rxin di < nrxd di \<Longrightarrow> rx_slot di 0 = rxin di"
  by (simp add: rx_slot_def word_less_nat_alt)

lemma rx_out_slot: "rx_abs di q \<Longrightarrow> rxout di = rx_slot di (length q)"
  by (simp add: word_unat_eq_iff rx_abs_def unat_rx_slot)

lemma rx_slot_next: "pow2 (nrxd di) \<Longrightarrow> NEXTRXD di (rx_slot di j) = rx_slot di (Suc j)"
  by (simp add: word_unat_eq_iff NEXTRXD_def RXD_def unat_NEXT unat_rx_slot mod_Suc_eq)

lemma rx_used: "rx_abs di q \<Longrightarrow> unat (NRXDACTIVE di (rxin di) (rxout di)) = length q"
  by (simp add: rx_abs_def NRXDACTIVE_def RXD_def unat_XXD_diff ring_dist word_less_nat_alt)

text \<open>What the ring code relies on of the receive side of an engine.\<close>

locale rx_engine =
  fixes E :: engine and rxlen :: "dma_hw \<Rightarrow> nat"
  assumes rx_map_hw: "hw d' = hw d \<Longrightarrow> dataoffsetlow d' = dataoffsetlow d \<Longrightarrow> e_rx_mapping E d' i = e_rx_mapping E d i"
    and rx_curr_hw: "hw d' = hw d \<Longrightarrow> e_rx_curr E d' = e_rx_curr E d"
    and rx_zap_other: "i \<noteq> j \<Longrightarrow> e_rx_mapping E (d\<lparr>hw := e_rx_zap E d i\<rparr>) j = e_rx_mapping E d j"
    and rx_zap_curr: "e_rx_curr E (d\<lparr>hw := e_rx_zap E d i\<rparr>) = e_rx_curr E d"
    and rx_zap_len: "rxlen (e_rx_zap E d i) = rxlen (hw d)"
    and rx_upd_same: "e_rx_upd E d pa i fl len = (fl', h) \<Longrightarrow> unat i < rxlen (hw d) \<Longrightarrow> \<not> ext_addr d pa \<Longrightarrow>
      e_rx_mapping E (d\<lparr>hw := h\<rparr>) i = pa"
    and rx_upd_other: "e_rx_upd E d pa i fl len = (fl', h) \<Longrightarrow> i \<noteq> j \<Longrightarrow> e_rx_mapping E (d\<lparr>hw := h\<rparr>) j = e_rx_mapping E d j"
    and rx_upd_len: "e_rx_upd E d pa i fl len = (fl', h) \<Longrightarrow> rxlen h = rxlen (hw d)"
    and rx_kick_map: "e_rx_mapping E (d\<lparr>hw := e_rx_kick E d i\<rparr>) j = e_rx_mapping E d j"
    and rx_kick_len: "rxlen (e_rx_kick E d i) = rxlen (hw d)"

interpretation x32: rx_engine engine32 "\<lambda>h. length (rxd32 h)"
  by unfold_locales (auto simp: engine32_def dma32_dd_upd_def Let_def word_unat_eq_iff[symmetric] split: if_splits)

interpretation x64: rx_engine engine64 "\<lambda>h. length (rxd64 h)"
  by unfold_locales (auto simp: engine64_def dma64_dd_upd_def Let_def word_unat_eq_iff[symmetric] split: if_splits)

section \<open>Taking a packet\<close>

definition rx_same :: "dma_info \<Rightarrow> dma_info \<Rightarrow> bool" where
  "rx_same di di' = (\<exists>h t rp i. di' = di\<lparr>hw := h, trace := t, rxp := rp, rxin := i\<rparr>)"

lemma rx_sameD:
  assumes "rx_same di di'"
  shows "nrxd di' = nrxd di" "rxout di' = rxout di" "rxbufsize di' = rxbufsize di" "rxoffset di' = rxoffset di" "dma64 di' = dma64 di"
    "rxgiants di' = rxgiants di" "pool di' = pool di" "nrxpost di' = nrxpost di" "dataoffsetlow di' = dataoffsetlow di"
    "rxnobuf di' = rxnobuf di" "txin di' = txin di" "txout di' = txout di" "txp di' = txp di" "ntxd di' = ntxd di"
  using assms by (auto simp: rx_same_def)

lemma getnextrxp_none:
  assumes "rx_abs di q" "q = [] \<or> (\<not> forceall \<and> rxin di = e_rx_curr E di)"
  shows "getnextrxp E forceall di = (None, di)"
proof -
  have "q = [] \<Longrightarrow> rxout di = rxin di" using assms(1) rx_out_slot[OF assms(1)] by (simp add: rx_slot_0 rx_abs_def)
  then show ?thesis using assms(2) by (auto simp: getnextrxp_def Let_def)
qed

text \<open>The state after the first slot was taken.\<close>

definition rx_taken :: "engine \<Rightarrow> dma_info \<Rightarrow> dma_info" where
  "rx_taken E di = (let di = di\<lparr>rxp := (rxp di)[unat (rxin di) := None]\<rparr>;
     e = emit (Unmap (e_rx_mapping E di (rxin di)) (rxbufsize di)) di
     in e\<lparr>hw := e_rx_zap E e (rxin di), rxin := NEXTRXD di (rxin di)\<rparr>)"

lemma rx_first:
  assumes "rx_abs di (p # q)"
  shows "rxp di ! unat (rxin di) = Some p" "rxin di \<noteq> rxout di" "NEXTRXD di (rxin di) = rx_slot di 1"
proof -
  note a = assms[unfolded rx_abs_def]
  have c: "unat (rxin di) < nr di" "length (rxp di) = nr di" using a by (simp_all add: word_less_nat_alt)
  have "rx_view di ! 0 = rxp di ! unat (rxin di)" using c unfolding rx_view_def by (subst nth_rotate) auto
  then show "rxp di ! unat (rxin di) = Some p" using a by simp
  have i0: "rxin di = rx_slot di 0" using a by (simp add: rx_slot_0)
  then show "rxin di \<noteq> rxout di" using a rx_slot_inj[of di 0 "length (p # q)"] by (simp add: rx_out_slot[OF assms])
  show "NEXTRXD di (rxin di) = rx_slot di 1" using a rx_slot_next[of di 0] i0 by simp
qed

lemma getnextrxp_eq:
  assumes "rx_abs di (p # q)" "forceall \<or> rxin di \<noteq> e_rx_curr E di"
  shows "getnextrxp E forceall di = (Some p, rx_taken E di)"
  using rx_first[OF assms(1)] assms(2) by (auto simp: getnextrxp_def rx_taken_def Let_def NEXTRXD_def RXD_def)

lemma rx_same_upd: "rx_same di (di\<lparr>rxp := rp, trace := t, hw := h, rxin := i\<rparr>)"
  by (auto simp: rx_same_def intro!: exI[of _ h] exI[of _ t] exI[of _ rp] exI[of _ i])

lemma rx_taken_same: "rx_same di (rx_taken E di)"
  by (simp add: rx_taken_def Let_def emit_def rx_same_upd)

lemma rx_taken_abs:
  assumes ab: "rx_abs di (p # q)"
  shows "rx_abs (rx_taken E di) q"
proof -
  note a = ab[unfolded rx_abs_def] and f = rx_first[OF ab]
  let ?d = "rx_taken E di" and ?i = "rxin di"
  have c: "unat ?i < nr di" "length (rxp di) = nr di" "0 < length (rxp di)" using a by (simp_all add: word_less_nat_alt)
  have d: "rxin ?d = rx_slot di 1" "rxp ?d = (rxp di)[unat ?i := None]" "nrxd ?d = nrxd di" "rxout ?d = rxout di"
    using f by (simp_all add: rx_taken_def Let_def NEXTRXD_def RXD_def)
  have in': "unat (rxin ?d) = (unat ?i + 1) mod nr di" using a by (simp add: d unat_rx_slot)
  have "rx_view ?d = rotate ((1 + unat ?i) mod length (rxp ?d)) (rxp ?d)" using in' c by (simp add: rx_view_def d)
  also have "\<dots> = rotate 1 (rotate (unat ?i) (rxp ?d))" by (simp only: rotate_conv_mod[symmetric] rotate_rotate)
  also have "rotate (unat ?i) (rxp ?d) = (rx_view di)[0 := None]"
    using rotate_update[OF c(3), of "unat ?i" None] c by (simp add: d rx_view_def)
  also have "rotate 1 ((rx_view di)[0 := None]) = map Some q @ replicate (nr di - length q) None"
    using a by (simp add: replicate_append_same Suc_diff_Suc flip: replicate_Suc)
  finally have view: "rx_view ?d = map Some q @ replicate (nr di - length q) None" .
  have lt: "rxin ?d < nrxd di" using in' a by (simp add: word_less_nat_alt pow2_pos)
  have "unat (rxout di) = (unat ?i + 1 + length q) mod nr di" using a by simp
  also have "\<dots> = (unat (rxin ?d) + length q) mod nr di" unfolding in' by (rule mod_add_left_eq[symmetric])
  finally show ?thesis using a view lt c(2) by (simp add: rx_abs_def d)
qed

context rx_engine begin

lemma rx_taken_hw:
  assumes ab: "rx_abs di (p # q)"
  shows "trace (rx_taken E di) = trace di @ [unmap_ev (rx_map_at E di 0)]" "e_rx_curr E (rx_taken E di) = e_rx_curr E di"
    "rxlen (hw (rx_taken E di)) = rxlen (hw di)" "Suc j < nr di \<Longrightarrow> rx_map_at E (rx_taken E di) j = rx_map_at E di (Suc j)"
proof -
  note a = ab[unfolded rx_abs_def] and f = rx_first[OF ab]
  let ?i = "rxin di" let ?d0 = "di\<lparr>rxp := (rxp di)[unat ?i := None]\<rparr>"
  let ?e = "emit (Unmap (e_rx_mapping E ?d0 ?i) (rxbufsize di)) ?d0"
  have tk: "rx_taken E di = ?e\<lparr>hw := e_rx_zap E ?e ?i, rxin := rx_slot di 1\<rparr>"
    using f by (simp add: rx_taken_def Let_def NEXTRXD_def RXD_def)
  have i0: "?i = rx_slot di 0" using a by (simp add: rx_slot_0)
  have "e_rx_mapping E ?d0 ?i = e_rx_mapping E di ?i" by (rule rx_map_hw) simp_all
  then show "trace (rx_taken E di) = trace di @ [unmap_ev (rx_map_at E di 0)]"
    by (simp add: tk unmap_ev_def rx_map_at_def flip: i0)
  show "e_rx_curr E (rx_taken E di) = e_rx_curr E di"
    using rx_curr_hw[of "rx_taken E di" "?e\<lparr>hw := e_rx_zap E ?e ?i\<rparr>"] rx_zap_curr[of ?e ?i] rx_curr_hw[of ?e di] by (simp add: tk)
  show "rxlen (hw (rx_taken E di)) = rxlen (hw di)" by (simp add: tk rx_zap_len)
  show "rx_map_at E (rx_taken E di) j = rx_map_at E di (Suc j)" if "Suc j < nr di"
  proof -
    have sl: "rx_slot (rx_taken E di) j = rx_slot di (Suc j)"
      using a by (simp add: word_unat_eq_iff unat_rx_slot tk mod_Suc_eq mod_add_left_eq)
    have ne: "?i \<noteq> rx_slot di (Suc j)" using a that by (simp add: i0 rx_slot_inj)
    show ?thesis
      using rx_zap_other[OF ne, of ?e] rx_map_hw[of "rx_taken E di" "?e\<lparr>hw := e_rx_zap E ?e ?i\<rparr>" "rx_slot di (Suc j)"]
        rx_map_hw[of ?e di "rx_slot di (Suc j)"] by (simp add: rx_map_at_def sl) (simp add: tk)
  qed
qed

end

section \<open>Reclaiming and receiving\<close>

lemma dma_getnextrxp_engine: "rx_abs di q \<Longrightarrow> dma_getnextrxp forceall di = getnextrxp (engine_of di) forceall di"
  using pow2_nz by (auto simp: dma_getnextrxp_def dma32_getnextrxp_def dma64_getnextrxp_def engine_of_def rx_abs_def)

lemma engine_of_taken: "engine_of (rx_taken E di) = engine_of di" "engine_of (PKTFREE p d) = engine_of d"
  using rx_sameD(5)[OF rx_taken_same] by (simp_all add: engine_of_def)

lemma rx_taken_of:
  assumes "rx_abs di (p # q)" "E = engine_of di"
  shows "trace (rx_taken E di) = trace di @ [unmap_ev (rx_map_at E di 0)]" "e_rx_curr E (rx_taken E di) = e_rx_curr E di"
    "Suc j < nr di \<Longrightarrow> rx_map_at E (rx_taken E di) j = rx_map_at E di (Suc j)"
  using x32.rx_taken_hw[OF assms(1)] x64.rx_taken_hw[OF assms(1)] assms(2) by (auto simp: engine_of_def)

lemma rx_cong:
  assumes "nrxd di' = nrxd di" "rxin di' = rxin di" "rxout di' = rxout di" "rxp di' = rxp di"
  shows "rx_abs di' q = rx_abs di q"
  using assms by (simp add: rx_abs_def rx_view_def)

lemma engine_rx_hw:
  assumes "hw d' = hw d"
  shows "e_rx_curr (engine_of d0) d' = e_rx_curr (engine_of d0) d"
    "dataoffsetlow d' = dataoffsetlow d \<Longrightarrow> e_rx_mapping (engine_of d0) d' i = e_rx_mapping (engine_of d0) d i"
  using x32.rx_curr_hw[OF assms] x64.rx_curr_hw[OF assms] x32.rx_map_hw[OF assms] x64.rx_map_hw[OF assms]
  by (auto simp: engine_of_def)

lemma rx_maps_free: "rx_maps (engine_of d) (PKTFREE p di) n = rx_maps (engine_of d) di n"
  by (auto simp: rx_maps_def rx_map_at_def rx_slot_def intro!: engine_rx_hw(2))

lemma rx_maps_taken:
  assumes "rx_abs di (p # q)"
  shows "rx_maps (engine_of di) di (Suc n) = rx_map_at (engine_of di) di 0 # map (rx_map_at (engine_of di) di \<circ> Suc) [0..<n]"
    "n \<le> length q \<Longrightarrow> rx_maps (engine_of di) (rx_taken (engine_of di) di) n = map (rx_map_at (engine_of di) di \<circ> Suc) [0..<n]"
proof -
  show "rx_maps (engine_of di) di (Suc n) = rx_map_at (engine_of di) di 0 # map (rx_map_at (engine_of di) di \<circ> Suc) [0..<n]"
    by (simp add: rx_maps_def upt_conv_Cons map_Suc_upt[symmetric] del: upt_Suc)
  assume "n \<le> length q"
  then show "rx_maps (engine_of di) (rx_taken (engine_of di) di) n = map (rx_map_at (engine_of di) di \<circ> Suc) [0..<n]"
    using rx_taken_of(3)[OF assms refl] assms by (simp add: rx_maps_def rx_abs_def)
qed

lemma dma_rxreclaim_frees:
  assumes "rx_abs di q"
  shows "\<exists>di'. dma_rxreclaim di = Some di' \<and> rx_abs di' [] \<and> freed (trace di') = freed (trace di) @ q \<and>
    unmapped (trace di') = unmapped (trace di) @ rx_maps (engine_of di) di (length q) \<and> mapped (trace di') = mapped (trace di) \<and>
    pool di' = pool di \<and> nrxd di' = nrxd di \<and> rxout di' = rxout di"
  using assms
proof (induction q arbitrary: di)
  case Nil
  have "dma_rxreclaim di = Some di" using getnextrxp_none[OF Nil] dma_getnextrxp_engine[OF Nil]
    by (subst dma_rxreclaim.simps) simp
  then show ?case using Nil by (simp add: rx_maps_def)
next
  case (Cons p q)
  let ?E = "engine_of di" let ?t = "rx_taken ?E di" let ?d = "PKTFREE p ?t"
  have step: "dma_rxreclaim di = dma_rxreclaim ?d"
    using getnextrxp_eq[OF Cons.prems, of True ?E] dma_getnextrxp_engine[OF Cons.prems, of True]
    by (subst dma_rxreclaim.simps) simp
  have "rx_abs ?d q" using rx_taken_abs[OF Cons.prems, of ?E] by (simp add: rx_cong[of ?d ?t])
  from Cons.IH[OF this] obtain di' where d': "dma_rxreclaim ?d = Some di'" "rx_abs di' []"
      "freed (trace di') = freed (trace ?d) @ q" "unmapped (trace di') = unmapped (trace ?d) @ rx_maps (engine_of ?d) ?d (length q)"
      "mapped (trace di') = mapped (trace ?d)" "pool di' = pool ?d" "nrxd di' = nrxd ?d" "rxout di' = rxout ?d" by blast
  have tr: "trace ?d = trace di @ [unmap_ev (rx_map_at ?E di 0), PktFree p]" using rx_taken_of(1)[OF Cons.prems refl] by simp
  have maps: "rx_map_at ?E di 0 # rx_maps (engine_of ?d) ?d (length q) = rx_maps ?E di (length (p # q))"
    using rx_maps_taken[OF Cons.prems, of "length q"] by (simp add: engine_of_taken rx_maps_free)
  show ?case using step d' tr maps rx_sameD[OF rx_taken_same[of di ?E]]
    by (auto simp: unmap_ev_def)
qed

text \<open>The packets before the current descriptor; all of them when that is not one of the posted slots.\<close>

definition rx_avail :: "engine \<Rightarrow> dma_info \<Rightarrow> nat \<Rightarrow> nat" where
  "rx_avail E di n = (if e_rx_curr E di < nrxd di then min n ((unat (e_rx_curr E di) + nr di - unat (rxin di)) mod nr di) else n)"

lemma rx_dist_zero:
  assumes "c < N" "i < N"
  shows "(c + N - i) mod N = 0 \<longleftrightarrow> c = (i::nat)"
  using ring_undist[OF assms(2,1)] assms by (metis add_0_right add_diff_cancel_left' mod_less mod_self add.commute)

lemma rx_avail_zero: "rx_abs di (p # q) \<Longrightarrow> rx_avail E di (length (p # q)) = 0 \<longleftrightarrow> rxin di = e_rx_curr E di"
  using rx_dist_zero[of "unat (e_rx_curr E di)" "nr di" "unat (rxin di)"]
  by (auto simp: rx_avail_def rx_abs_def word_less_nat_alt word_unat_eq_iff min_def split: if_splits)

lemma rx_avail_taken:
  assumes ab: "rx_abs di (p # q)" and E: "E = engine_of di" and ne: "rxin di \<noteq> e_rx_curr E di"
  shows "rx_avail E (rx_taken E di) (length q) = rx_avail E di (length (p # q)) - 1"
proof (cases "e_rx_curr E di < nrxd di")
  case True
  note a = ab[unfolded rx_abs_def] and f = rx_first[OF ab]
  let ?c = "unat (e_rx_curr E di)" let ?D = "(?c + nr di - unat (rxin di)) mod nr di"
  have lt: "?c < nr di" "unat (rxin di) < nr di" using True a by (simp_all add: word_less_nat_alt)
  have pos: "0 < ?D" using rx_dist_zero[OF lt] ne by (simp add: word_unat_eq_iff)
  have in': "unat (rxin (rx_taken E di)) = (unat (rxin di) + 1) mod nr di"
    using a f by (simp add: rx_taken_def Let_def NEXTRXD_def RXD_def unat_rx_slot)
  have "?c = (unat (rxin di) + ?D) mod nr di" using ring_undist[OF lt(2,1)] by simp
  also have "\<dots> = (unat (rxin di) + 1 + (?D - 1)) mod nr di" using pos by simp
  also have "\<dots> = (unat (rxin (rx_taken E di)) + (?D - 1)) mod nr di" unfolding in' by (rule mod_add_left_eq[symmetric])
  finally have c: "?c = (unat (rxin (rx_taken E di)) + (?D - 1)) mod nr di" .
  have "?D < nr di" using lt by simp
  then have D: "?D - 1 < nr di" by (rule le_less_trans[OF diff_le_self])
  have "unat (rxin (rx_taken E di)) < nr di" using in' lt by simp
  from ring_dist[OF this D] have "(?c + nr di - unat (rxin (rx_taken E di))) mod nr di = ?D - 1" using c by simp
  then show ?thesis
    using True rx_taken_of(2)[OF ab E] rx_sameD(1)[OF rx_taken_same[of di E]] pos by (simp add: rx_avail_def min_def)
next
  case False
  then show ?thesis using rx_taken_of(2)[OF ab E] rx_sameD(1)[OF rx_taken_same[of di E]] by (simp add: rx_avail_def)
qed

text \<open>What rx makes of a list of finished packets: the packet delivered, those dropped, the number of giants,
  and the rest.\<close>

fun rx_spec :: "u32 \<Rightarrow> u32 \<Rightarrow> int \<Rightarrow> packet list \<Rightarrow> packet option \<times> packet list \<times> nat \<times> packet list" where
  "rx_spec bsz off skip [] = (None, [], 0, [])"
| "rx_spec bsz off skip (p # ps) = (let len = ucast (frame_len p) :: u32; room = bsz - off in
     if skip > 0 then (case rx_spec bsz off (max 0 (sint (word_of_int skip - bsz))) ps of (r, ds, g, qs) \<Rightarrow> (r, p # ds, g, qs))
     else if len > room then (case rx_spec bsz off (if len > 0 then sint (len - room) else skip) ps of (r, ds, g, qs) \<Rightarrow> (r, p # ds, Suc g, qs))
     else (Some (p\<lparr>pkt_len := off + len\<rparr>), [], 0, ps))"

lemma rx_abs_giants: "rx_abs (d\<lparr>rxgiants := g\<rparr>) q = rx_abs d q"
  by (rule rx_cong) simp_all

lemma engine_of_giants: "engine_of (d\<lparr>rxgiants := g\<rparr>) = engine_of d"
  by (simp add: engine_of_def)

lemma dma_rx_loop_spec:
  assumes "rx_abs di q" "rx_spec (rxbufsize di) (rxoffset di) skip (take (rx_avail (engine_of di) di (length q)) q) = (r, ds, g, qs)"
  shows "\<exists>di'. dma_rx_loop skip di = Some (r, di') \<and> rx_abs di' (qs @ drop (rx_avail (engine_of di) di (length q)) q) \<and>
    freed (trace di') = freed (trace di) @ ds \<and> rxgiants di' = rxgiants di + of_nat g"
  using assms
proof (induction q arbitrary: di skip r ds g qs)
  case Nil
  have "dma_rx_loop skip di = Some (None, di)" using getnextrxp_none[OF Nil(1)] dma_getnextrxp_engine[OF Nil(1)]
    by (subst dma_rx_loop.simps) simp
  then show ?case using Nil by simp
next
  case (Cons p q)
  let ?E = "engine_of di" let ?t = "rx_taken ?E di" let ?k = "rx_avail ?E di (length (p # q))"
  show ?case
  proof (cases "rxin di = e_rx_curr ?E di")
    case True
    have "dma_rx_loop skip di = Some (None, di)"
      using getnextrxp_none[OF Cons.prems(1), of False ?E] dma_getnextrxp_engine[OF Cons.prems(1)] True by (subst dma_rx_loop.simps) simp
    moreover have "?k = 0" using rx_avail_zero[OF Cons.prems(1)] True by blast
    ultimately show ?thesis using Cons.prems by simp
  next
    case False
    have get: "dma_getnextrxp False di = (Some p, ?t)"
      using getnextrxp_eq[OF Cons.prems(1), of False ?E] dma_getnextrxp_engine[OF Cons.prems(1)] False by simp
    have "?k \<noteq> 0" using rx_avail_zero[OF Cons.prems(1)] False by blast
    then obtain k where k: "?k = Suc k" using not0_implies_Suc by blast
    have k2: "rx_avail ?E ?t (length q) = k" using rx_avail_taken[OF Cons.prems(1) refl False] unfolding k by simp
    have tk: "take ?k (p # q) = p # take k q" "drop ?k (p # q) = drop k q" unfolding k by simp_all
    have ab: "rx_abs ?t q" by (rule rx_taken_abs[OF Cons.prems(1)])
    note same = rx_sameD[OF rx_taken_same[of di ?E]]
    have fr: "freed (trace ?t) = freed (trace di)" using rx_taken_of(1)[OF Cons.prems(1) refl] by (simp add: unmap_ev_def)
    have av: "rx_avail ?E (PKTFREE p ?t) n = rx_avail ?E ?t n" "rx_avail ?E ((PKTFREE p ?t)\<lparr>rxgiants := x\<rparr>) n = rx_avail ?E ?t n" for n x
      by (simp_all add: rx_avail_def engine_rx_hw(1)[of "PKTFREE p ?t" ?t] engine_rx_hw(1)[of "(PKTFREE p ?t)\<lparr>rxgiants := x\<rparr>" ?t])
    let ?len = "ucast (frame_len p) :: u32" let ?room = "rxbufsize di - rxoffset di"
    have drp: "\<exists>di'. dma_rx_loop s d = Some (r, di') \<and> rx_abs di' (qs @ drop k q) \<and>
        freed (trace di') = freed (trace di) @ p # ds' \<and> rxgiants di' = rxgiants d + of_nat g'"
      if d: "d = PKTFREE p ?t \<or> d = (PKTFREE p ?t)\<lparr>rxgiants := x\<rparr>"
        and sp: "rx_spec (rxbufsize di) (rxoffset di) s (take (k) q) = (r, ds', g', qs)" for d s ds' g' x
    proof -
      have "rx_abs d q" "engine_of d = ?E" "rxbufsize d = rxbufsize di" "rxoffset d = rxoffset di" "rx_avail ?E d (length q) = k"
          "freed (trace d) = freed (trace di) @ [p]"
        using d ab same k2 fr by (auto simp: rx_abs_giants rx_cong[of "PKTFREE p ?t" ?t] engine_of_taken engine_of_giants av)
      with Cons.IH[of d s r ds' g' qs] sp show ?thesis by simp
    qed
    note sp = Cons.prems(2)[unfolded tk(1)]
    have "\<exists>di'. dma_rx_loop skip di = Some (r, di') \<and> rx_abs di' (qs @ drop k q) \<and> freed (trace di') = freed (trace di) @ ds \<and>
        rxgiants di' = rxgiants di + of_nat g"
    proof (cases "skip > 0")
      case True
      then have "dma_rx_loop skip di = dma_rx_loop (max 0 (sint (word_of_int skip - rxbufsize di))) (PKTFREE p ?t)"
        using get same by (subst dma_rx_loop.simps) simp
      moreover obtain ds' where "ds = p # ds'"
          "rx_spec (rxbufsize di) (rxoffset di) (max 0 (sint (word_of_int skip - rxbufsize di))) (take (k) q) = (r, ds', g, qs)"
        using sp True by (auto split: prod.splits)
      ultimately show ?thesis using drp[of "PKTFREE p ?t"] same by auto
    next
      case noskip: False
      show ?thesis
      proof (cases "?len > ?room")
        case True
        let ?d = "(PKTFREE p ?t)\<lparr>rxgiants := rxgiants di + 1\<rparr>" let ?s = "if ?len > 0 then sint (?len - ?room) else skip"
        have "dma_rx_loop skip di = dma_rx_loop ?s ?d"
          using get same noskip True by (subst dma_rx_loop.simps) (simp add: Let_def)
        moreover obtain ds' g' where "ds = p # ds'" "g = Suc g'"
            "rx_spec (rxbufsize di) (rxoffset di) ?s (take (k) q) = (r, ds', g', qs)"
          using sp noskip True by (auto simp: Let_def split: prod.splits)
        ultimately show ?thesis using drp[OF disjI2[OF refl], of ?s ds' g' "rxgiants di + 1"] by (simp add: add.assoc)
      next
        case False
        then have "dma_rx_loop skip di = Some (Some (p\<lparr>pkt_len := rxoffset di + ?len\<rparr>), ?t)"
          using get same noskip by (subst dma_rx_loop.simps) (simp add: Let_def)
        then show ?thesis using sp noskip False ab fr same by (auto simp: Let_def)
      qed
    qed
    then show ?thesis by (simp only: tk(2))
  qed
qed

section \<open>Posting buffers\<close>

definition fresh :: "packet \<Rightarrow> packet" where "fresh p = p\<lparr>frame_len := 0\<rparr>"
definition rx_map_ev :: "dma_info \<Rightarrow> packet \<Rightarrow> dma_event" where "rx_map_ev di p = Map (b_pa (hd (bufs p))) (rxbufsize di)"
definition rx_buf_map :: "dma_info \<Rightarrow> packet \<Rightarrow> u32 \<times> u32" where "rx_buf_map di p = (b_pa (hd (bufs p)), rxbufsize di)"

lemma trace_rx_map_ev [simp]:
  "freed (map (rx_map_ev di) ps) = []" "mapped (map (rx_map_ev di) ps) = map (rx_buf_map di) ps" "unmapped (map (rx_map_ev di) ps) = []"
  by (induction ps) (auto simp: rx_map_ev_def rx_buf_map_def)

text \<open>One buffer: the state after the step of the loop, with \<open>rxout\<close> advanced.\<close>

definition rx_posted :: "engine \<Rightarrow> packet \<Rightarrow> u32 \<Rightarrow> dma_info \<Rightarrow> dma_info" where
  "rx_posted E p out di = (let pa = b_pa (hd (bufs p)); d = (emit (rx_map_ev di p) di)\<lparr>rxp := (rxp di)[unat out := Some (fresh p)]\<rparr>
     in d\<lparr>hw := snd (e_rx_upd E d pa out (if out = nrxd di - 1 then CTRL_EOT else 0) (rxbufsize di))\<rparr>)"

lemma rxfill_loop_Suc:
  "pool di = p # ps \<Longrightarrow> rxfill_loop E (Suc n) out di = rxfill_loop E n (NEXTRXD di out) (rx_posted E p out (di\<lparr>pool := ps\<rparr>))"
  by (simp add: PKTGET_def rx_posted_def Let_def fresh_def rx_map_ev_def NEXTRXD_def RXD_def split: prod.split)

lemma rx_posted_sel [simp]:
  "nrxd (rx_posted E p out di) = nrxd di" "rxin (rx_posted E p out di) = rxin di" "rxbufsize (rx_posted E p out di) = rxbufsize di"
  "pool (rx_posted E p out di) = pool di" "rxnobuf (rx_posted E p out di) = rxnobuf di" "dataoffsetlow (rx_posted E p out di) = dataoffsetlow di"
  "dma64 (rx_posted E p out di) = dma64 di" "nrxpost (rx_posted E p out di) = nrxpost di"
  "rxp (rx_posted E p out di) = (rxp di)[unat out := Some (fresh p)]" "trace (rx_posted E p out di) = trace di @ [rx_map_ev di p]"
  by (simp_all add: rx_posted_def Let_def emit_def)

lemma rx_posted_abs:
  assumes ab: "rx_abs (di\<lparr>rxout := out\<rparr>) q" and room: "Suc (length q) < nr di"
  shows "rx_abs ((rx_posted E p out di)\<lparr>rxout := NEXTRXD di out\<rparr>) (q @ [fresh p])"
proof -
  let ?d = "di\<lparr>rxout := out\<rparr>"
  note a = ab[unfolded rx_abs_def, simplified]
  have view: "rotate (unat (rxin di)) (rxp di) = map Some q @ replicate (nr di - length q) None" using a by (simp add: rx_view_def)
  have "rotate (unat (rxin di)) ((rxp di)[unat out := Some (fresh p)]) = (map Some q @ replicate (nr di - length q) None)[length q := Some (fresh p)]"
    using rotate_update[of "length q" "rxp di" "unat (rxin di)" "Some (fresh p)"] a view by simp
  also have "\<dots> = map Some (q @ [fresh p]) @ replicate (nr di - Suc (length q)) None"
    using room list_update_length[of "map Some q" None "replicate (nr di - Suc (length q)) None" "Some (fresh p)"]
    by (simp add: Suc_diff_Suc[symmetric])
  finally have "rx_view ((rx_posted E p out di)\<lparr>rxout := NEXTRXD di out\<rparr>) = map Some (q @ [fresh p]) @ replicate (nr di - Suc (length q)) None"
    by (simp add: rx_view_def)
  moreover have "unat (NEXTRXD di out) = (unat (rxin di) + Suc (length q)) mod nr di"
    using a by (simp add: NEXTRXD_def RXD_def unat_NEXT mod_Suc_eq)
  ultimately show ?thesis using a room by (simp add: rx_abs_def)
qed

context rx_engine begin

lemma rx_posted_map:
  assumes ab: "rx_abs (di\<lparr>rxout := out\<rparr>) q" and len: "rxlen (hw di) = nr di" and plain: "\<not> ext_addr di (b_pa (hd (bufs p)))"
  shows "rxlen (hw (rx_posted E p out di)) = nr di"
    "j < nr di \<Longrightarrow> rx_map_at E (rx_posted E p out di) j = (if j = length q then rx_buf_map di p else rx_map_at E di j)"
proof -
  note a = ab[unfolded rx_abs_def, simplified]
  let ?pa = "b_pa (hd (bufs p))" and ?fl = "if out = nrxd di - 1 then CTRL_EOT else 0"
  let ?d = "(emit (rx_map_ev di p) di)\<lparr>rxp := (rxp di)[unat out := Some (fresh p)]\<rparr>"
  obtain g h where upd: "e_rx_upd E ?d ?pa out ?fl (rxbufsize di) = (g, h)" by fastforce
  have pd: "rx_posted E p out di = ?d\<lparr>hw := h\<rparr>" using upd by (simp add: rx_posted_def Let_def)
  show "rxlen (hw (rx_posted E p out di)) = nr di" using rx_upd_len[OF upd] len by (simp add: pd)
  have slot: "rx_slot (rx_posted E p out di) = rx_slot di" by (simp add: rx_slot_def fun_eq_iff)
  have out: "out = rx_slot di (length q)" using a by (simp add: word_unat_eq_iff unat_rx_slot)
  have lt: "unat out < rxlen (hw ?d)" using a len by (simp add: pow2_pos)
  show "rx_map_at E (rx_posted E p out di) j = (if j = length q then rx_buf_map di p else rx_map_at E di j)" if "j < nr di"
  proof (cases "j = length q")
    case True
    have "e_rx_mapping E (?d\<lparr>hw := h\<rparr>) out = ?pa" using rx_upd_same[OF upd lt] plain ext_addr_cong[of ?d di] by simp
    then show ?thesis using True out slot pd by (simp add: rx_map_at_def rx_buf_map_def)
  next
    case False
    then have "out \<noteq> rx_slot di j" using that a out by (simp add: rx_slot_inj)
    from rx_upd_other[OF upd this] show ?thesis
      using False rx_map_hw[of ?d di] slot pd by (simp add: rx_map_at_def)
  qed
qed

lemma rxfill_loop_posts:
  assumes "rx_abs (di\<lparr>rxout := out\<rparr>) q" "length q + n < nr di" "rxlen (hw di) = nr di"
    "list_all (\<lambda>p. \<not> ext_addr di (b_pa (hd (bufs p)))) (pool di)" "rxfill_loop E n out di = (out', di')"
  shows "rx_abs (di'\<lparr>rxout := out'\<rparr>) (q @ map fresh (take n (pool di))) \<and> pool di' = drop n (pool di) \<and>
    rxnobuf di' = rxnobuf di + (if length (pool di) < n then 1 else 0) \<and>
    trace di' = trace di @ map (rx_map_ev di) (take n (pool di)) \<and> rxlen (hw di') = nr di \<and>
    rx_maps E di' (length q + length (take n (pool di))) = rx_maps E di (length q) @ map (rx_buf_map di) (take n (pool di)) \<and>
    nrxd di' = nrxd di \<and> rxin di' = rxin di \<and> rxbufsize di' = rxbufsize di \<and> dataoffsetlow di' = dataoffsetlow di \<and> dma64 di' = dma64 di"
  using assms
proof (induction n arbitrary: out di q)
  case 0
  then show ?case by simp
next
  case (Suc n)
  show ?case
  proof (cases "pool di")
    case Nil
    then have "di' = di\<lparr>rxnobuf := rxnobuf di + 1\<rparr>" "out' = out" using Suc.prems(5) by (simp_all add: PKTGET_def)
    moreover have "rx_maps E (di\<lparr>rxnobuf := rxnobuf di + 1\<rparr>) m = rx_maps E di m" for m
      by (auto simp: rx_maps_def rx_map_at_def rx_slot_def intro!: rx_map_hw)
    ultimately show ?thesis using Nil Suc.prems rx_cong[of "di'\<lparr>rxout := out'\<rparr>" "di\<lparr>rxout := out\<rparr>"] by simp
  next
    case (Cons p ps)
    let ?d = "rx_posted E p out (di\<lparr>pool := ps\<rparr>)"
    have ab: "rx_abs ((di\<lparr>pool := ps\<rparr>)\<lparr>rxout := out\<rparr>) q" using Suc.prems(1) rx_cong[of "(di\<lparr>pool := ps\<rparr>)\<lparr>rxout := out\<rparr>" "di\<lparr>rxout := out\<rparr>"] by simp
    have pl: "\<not> ext_addr (di\<lparr>pool := ps\<rparr>) (b_pa (hd (bufs p)))" using Suc.prems(4) Cons ext_addr_cong[of "di\<lparr>pool := ps\<rparr>" di] by simp
    note pm = rx_posted_map[OF ab _ pl]
    have "rx_abs (?d\<lparr>rxout := NEXTRXD di out\<rparr>) (q @ [fresh p])"
      using rx_posted_abs[OF ab, of E p] Suc.prems(2) by (simp add: NEXTRXD_def RXD_def)
    moreover have "rxfill_loop E n (NEXTRXD di out) ?d = (out', di')" using Suc.prems(5) rxfill_loop_Suc[OF Cons] by simp
    moreover have "list_all (\<lambda>p. \<not> ext_addr ?d (b_pa (hd (bufs p)))) (pool ?d)"
      using Suc.prems(4) Cons ext_addr_cong[of ?d di] by simp
    ultimately have ih: "rx_abs (di'\<lparr>rxout := out'\<rparr>) ((q @ [fresh p]) @ map fresh (take n ps)) \<and> pool di' = drop n ps \<and>
      rxnobuf di' = rxnobuf di + (if length ps < n then 1 else 0) \<and> trace di' = trace ?d @ map (rx_map_ev ?d) (take n ps) \<and> rxlen (hw di') = nr di \<and>
      rx_maps E di' (Suc (length q) + length (take n ps)) = rx_maps E ?d (Suc (length q)) @ map (rx_buf_map ?d) (take n ps) \<and>
      nrxd di' = nrxd di \<and> rxin di' = rxin di \<and> rxbufsize di' = rxbufsize di \<and> dataoffsetlow di' = dataoffsetlow di \<and> dma64 di' = dma64 di"
      using Suc.IH[of "NEXTRXD di out" ?d "q @ [fresh p]"] Suc.prems(2,3) pm(1) by simp
    have "rx_map_at E (di\<lparr>pool := ps\<rparr>) j = rx_map_at E di j" for j by (auto simp: rx_map_at_def rx_slot_def intro!: rx_map_hw)
    then have "rx_maps E ?d (Suc (length q)) = rx_maps E di (length q) @ [rx_buf_map di p]"
      using pm(2) Suc.prems(2,3) by (simp add: rx_maps_def rx_buf_map_def)
    moreover have "rx_map_ev ?d = rx_map_ev di" "rx_buf_map ?d = rx_buf_map di" "rx_map_ev (di\<lparr>pool := ps\<rparr>) = rx_map_ev di"
      by (simp_all add: rx_map_ev_def rx_buf_map_def fun_eq_iff)
    ultimately show ?thesis using ih Cons by (simp add: add.commute)
  qed
qed

end

end
