(* ===== verification/Hnd_Dma_Api.thy ===== *)
theory Hnd_Dma_Api
  imports Hnd_Dma_Rotate Hnd_Dma_Rx
begin

text \<open>
  The properties of the DMA module of hnddma.c at its interface: sending, reclaiming, rotating and receiving
  through the operation tables, for both engines.
\<close>

section \<open>Initial states\<close>

lemma ddtable_frame:
  "ntxd (dma_ddtable_init dir pa di) = ntxd di" "txin (dma_ddtable_init dir pa di) = txin di" "txout (dma_ddtable_init dir pa di) = txout di"
  "txp (dma_ddtable_init dir pa di) = txp di" "trace (dma_ddtable_init dir pa di) = trace di" "dma64 (dma_ddtable_init dir pa di) = dma64 di"
  "nrxd (dma_ddtable_init dir pa di) = nrxd di" "rxin (dma_ddtable_init dir pa di) = rxin di" "rxout (dma_ddtable_init dir pa di) = rxout di"
  "rxp (dma_ddtable_init dir pa di) = rxp di" "txd32 (hw (dma_ddtable_init dir pa di)) = txd32 (hw di)" "txd64 (hw (dma_ddtable_init dir pa di)) = txd64 (hw di)"
  "rxd32 (hw (dma_ddtable_init dir pa di)) = rxd32 (hw di)" "rxd64 (hw (dma_ddtable_init dir pa di)) = rxd64 (hw di)"
  "txavail (dma_ddtable_init dir pa di) = txavail di" "dataoffsetlow (dma_ddtable_init dir pa di) = dataoffsetlow di"
  by (cases dir; simp add: dma_ddtable_init_def Let_def upd_d32txregs_def upd_d32rxregs_def upd_d64txregs_def upd_d64rxregs_def)+

lemma di_txinit_inv:
  assumes "pow2 (ntxd di)" "txp di = replicate (nt di) None"
  shows "tx_inv (di_txinit di)" "tx_used (di_txinit di) = 0" "ringlen_of (di_txinit di) = nt di" "trace (di_txinit di) = trace di"
    "ntxd (di_txinit di) = ntxd di" "dma64 (di_txinit di) = dma64 di" "dataoffsetlow (di_txinit di) = dataoffsetlow di"
    "unat (txavail (di_txinit di)) = nt di - 1"
proof -
  have eqs: "ntxd (di_txinit di) = ntxd di" "txin (di_txinit di) = 0" "txout (di_txinit di) = 0" "txp (di_txinit di) = txp di"
      "trace (di_txinit di) = trace di" "dma64 (di_txinit di) = dma64 di" "dataoffsetlow (di_txinit di) = dataoffsetlow di"
      "txavail (di_txinit di) = ntxd di - 1" "ringlen_of (di_txinit di) = nt di"
    using pow2_nz[OF assms(1)]
    by (simp_all add: di_txinit_def dma32_txinit_def dma64_txinit_def Let_def ddtable_frame upd_d32txregs_def upd_d64txregs_def ringlen_of_def)
  have used: "tx_used (di_txinit di) = 0"
    using unat_XXD_add[OF assms(1), of 0 0] by (simp add: tx_used_def dma_txactive_def NTXDACTIVE_def TXD_def eqs)
  then show "tx_inv (di_txinit di)" "tx_used (di_txinit di) = 0" "ringlen_of (di_txinit di) = nt di" "trace (di_txinit di) = trace di"
    "ntxd (di_txinit di) = ntxd di" "dma64 (di_txinit di) = dma64 di" "dataoffsetlow (di_txinit di) = dataoffsetlow di"
    "unat (txavail (di_txinit di)) = nt di - 1"
    using assms pow2_pos[OF assms(1)] pow2_nz[OF assms(1)]
    by (auto simp: tx_inv_def eqs tx_view_def list_all_iff word_gt_0 unat_sub_if' word_less_nat_alt)
qed

lemma dma_rxinit_abs:
  assumes "pow2 (nrxd di)" "rxp di = replicate (nr di) None"
  shows "rx_abs (dma_rxinit di) []"
proof -
  have "nrxd (dma_rxinit di) = nrxd di" "rxin (dma_rxinit di) = 0" "rxout (dma_rxinit di) = 0" "rxp (dma_rxinit di) = rxp di"
    using pow2_nz[OF assms(1)]
    by (simp_all add: dma_rxinit_def dma_rxenable_def Let_def ddtable_frame upd_d32rxregs_def upd_d64rxregs_def)
  then show ?thesis using assms pow2_pos[OF assms(1)] pow2_nz[OF assms(1)]
    by (simp add: rx_abs_def rx_view_def word_gt_0)
qed

text \<open>A state as dma_attach leaves it, with four descriptors in each ring.\<close>

definition example_regs32 :: dma32regs where "example_regs32 = \<lparr>control = 0, addr = 0, ptr = 0, status = 0\<rparr>"
definition example_regs64 :: dma64regs where
  "example_regs64 = \<lparr>control64 = 0, ptr64 = 0, addrlow64 = 0, addrhigh64 = 0, status0 = 0, status1 = 0\<rparr>"

definition example_dma :: "bool \<Rightarrow> dma_info" where
  "example_dma b = \<lparr>hw = \<lparr>d32txregs = example_regs32, d32rxregs = example_regs32, d64txregs = example_regs64, d64rxregs = example_regs64,
       txd32 = replicate 4 zero_dd32, txd64 = replicate 4 zero_dd64, rxd32 = replicate 4 zero_dd32, rxd64 = replicate 4 zero_dd64\<rparr>,
     dma64 = b, addrext = False, ntxd = 4, txin = 0, txout = 0, txp = replicate 4 None, txdpa = 0x1000, nrxd = 4, rxin = 0, rxout = 0,
     rxp = replicate 4 None, rxdpa = 0x2000, rxbufsize = 1600, nrxpost = 2, rxoffset = 30, ddoffsetlow = 0, ddoffsethigh = 0,
     dataoffsetlow = 0, dataoffsethigh = 0, txavail = 0, rxgiants = 0, rxnobuf = 0, txnobuf = 0, pool = [], trace = []\<rparr>"

definition example_pkt :: "nat \<Rightarrow> pktbuf list \<Rightarrow> packet" where
  "example_pkt n bs = \<lparr>pkt_id = n, bufs = bs, frame_len = 0, pkt_len = 0\<rparr>"

section \<open>Properties\<close>

text \<open>C17: A packet with some data that fits the free descriptors is accepted by txfast of both engines: the
  queue of the ring gets it at its end, one descriptor is used for each buffer that is not empty, the ring
  stays well formed, and txavail is the number of descriptors left.\<close>

theorem dma_txfast_appends:
  assumes "tx_inv di" "tx_fits (bufs p) (nt di - 1 - tx_used di)" "nz_bufs (bufs p) \<noteq> []" "di_txfast p commit di = (r, di')"
  shows "r = 0 \<and> tx_inv di' \<and> tx_queue di' = tx_queue di @ [p] \<and> tx_used di' = tx_used di + length (nz_bufs (bufs p)) \<and>
    unat (txavail di') = nt di - 1 - tx_used di'"
  using txfast_fits[OF assms(1-3) assms(4)[unfolded di_txfast_engine]] by simp

theorem dma_txfast_appends_witness:
  "fst (di_txfast (example_pkt 7 [\<lparr>b_pa = 0x100, b_len = 14\<rparr>, \<lparr>b_pa = 0x200, b_len = 50\<rparr>]) True (example_dma True)) = 0 \<and>
   tx_queue (snd (di_txfast (example_pkt 7 [\<lparr>b_pa = 0x100, b_len = 14\<rparr>, \<lparr>b_pa = 0x200, b_len = 50\<rparr>]) True (example_dma True))) =
     tx_queue (example_dma True) @ [example_pkt 7 [\<lparr>b_pa = 0x100, b_len = 14\<rparr>, \<lparr>b_pa = 0x200, b_len = 50\<rparr>]]"
proof -
  let ?p = "example_pkt 7 [\<lparr>b_pa = 0x100, b_len = 14\<rparr>, \<lparr>b_pa = 0x200, b_len = 50\<rparr>]"
  have inv: "tx_inv (example_dma True)" by code_simp
  have fits: "tx_fits (bufs ?p) (nt (example_dma True) - 1 - tx_used (example_dma True))" by code_simp
  have nz: "nz_bufs (bufs ?p) \<noteq> []" by code_simp
  show ?thesis using dma_txfast_appends[OF inv fits nz, of True "fst (di_txfast ?p True (example_dma True))" "snd (di_txfast ?p True (example_dma True))"]
    by simp
qed

text \<open>When the descriptors run out, txfast of both engines returns -1, frees the packet, counts the failure
  and blocks the flow (txavail is 0), and the ring and its queue are as before.\<close>

theorem dma_txfast_out_of_descriptors:
  assumes "tx_inv di" "\<not> tx_fits (bufs p) (nt di - 1 - tx_used di)" "di_txfast p commit di = (r, di')"
  shows "r = -1 \<and> tx_inv di' \<and> tx_queue di' = tx_queue di \<and> txin di' = txin di \<and> txout di' = txout di \<and>
    txavail di' = 0 \<and> txnobuf di' = txnobuf di + 1 \<and> last (trace di') = PktFree p"
  using txfast_full[OF assms(1,2) assms(3)[unfolded di_txfast_engine]] .

theorem dma_txfast_out_of_descriptors_witness:
  "fst (di_txfast (example_pkt 7 (replicate 4 \<lparr>b_pa = 0x100, b_len = 14\<rparr>)) True (example_dma False)) = -1 \<and>
   last (trace (snd (di_txfast (example_pkt 7 (replicate 4 \<lparr>b_pa = 0x100, b_len = 14\<rparr>)) True (example_dma False)))) =
     PktFree (example_pkt 7 (replicate 4 \<lparr>b_pa = 0x100, b_len = 14\<rparr>))"
proof -
  let ?p = "example_pkt 7 (replicate 4 \<lparr>b_pa = 0x100, b_len = 14\<rparr>)" let ?d = "example_dma False"
  have inv: "tx_inv ?d" by code_simp
  have full: "\<not> tx_fits (bufs ?p) (nt ?d - 1 - tx_used ?d)" by code_simp
  show ?thesis using dma_txfast_out_of_descriptors[OF inv full, of True "fst (di_txfast ?p True ?d)" "snd (di_txfast ?p True ?d)"] by simp
qed

text \<open>C18: Getnexttxp of both engines ends and removes the first packet of the queue: with force whenever there is
  one, otherwise only when all its descriptors are before the current descriptor of the hardware, which has to lie
  between txin and txout.  Only the descriptors it passed are released, and txavail follows.\<close>

theorem dma_getnexttxp_fifo:
  assumes inv: "tx_inv di" and curr: "forceall \<or> tx_curr_ok (engine_of di) di"
  shows "\<exists>p di' n. di_getnexttxp forceall di = Some (p, di') \<and> tx_inv di' \<and> tx_queue di = opt_list p @ tx_queue di' \<and>
    n \<le> tx_bound (engine_of di) forceall di \<and> List.map_filter id (take n (tx_view di)) = opt_list p \<and>
    (p = None \<longrightarrow> n = tx_bound (engine_of di) forceall di) \<and> (forceall \<and> p = None \<longrightarrow> tx_queue di = []) \<and>
    tx_used di' = tx_used di - n \<and> unat (txavail di') = nt di - 1 - tx_used di'"
proof -
  obtain p di' n where g: "di_getnexttxp forceall di = Some (p, di')" "tx_inv di'" "tx_queue di = opt_list p @ tx_queue di'"
      "n \<le> tx_bound (engine_of di) forceall di" "List.map_filter id (take n (tx_view di)) = opt_list p"
      "p = None \<longrightarrow> n = tx_bound (engine_of di) forceall di" "tx_used di' = tx_used di - n" "unat (txavail di') = nt di - 1 - tx_used di'"
  proof (cases "dma64 di")
    case True
    then have eq: "di_getnexttxp forceall di = getnexttxp engine64 forceall di" "engine_of di = engine64"
      by (simp_all add: di_defs engine_of_def)
    show thesis using that e64.getnexttxp_pops[OF inv curr[unfolded eq]] unfolding eq by blast
  next
    case False
    then have eq: "di_getnexttxp forceall di = getnexttxp engine32 forceall di" "engine_of di = engine32"
      by (simp_all add: di_defs engine_of_def)
    show thesis using that e32.getnexttxp_pops[OF inv curr[unfolded eq]] unfolding eq by blast
  qed
  moreover have "tx_queue di = []" if "forceall" "p = None"
    using g(3,6,7) tx_queue_unused[OF g(2)] that by (simp add: tx_bound_def)
  ultimately show ?thesis by blast
qed

theorem dma_getnexttxp_fifo_witness:
  "\<exists>p di' n. di_getnexttxp True (tx_send [example_pkt 7 [\<lparr>b_pa = 0x100, b_len = 14\<rparr>]] (example_dma False)) = Some (p, di') \<and>
     [example_pkt 7 [\<lparr>b_pa = 0x100, b_len = 14\<rparr>]] = opt_list p @ tx_queue di' \<and> n \<le> (1 :: nat)"
proof -
  let ?d = "tx_send [example_pkt 7 [\<lparr>b_pa = 0x100, b_len = 14\<rparr>]] (example_dma False)"
  have inv: "tx_inv ?d" by code_simp
  have q: "tx_queue ?d = [example_pkt 7 [\<lparr>b_pa = 0x100, b_len = 14\<rparr>]]" by code_simp
  have b: "tx_bound (engine_of ?d) True ?d = 1" by code_simp
  show ?thesis using dma_getnexttxp_fifo[OF inv, of True] unfolding q b by blast
qed

text \<open>C16: After txinit, packets that fit the ring are sent and then reclaimed with force: both engines free
  exactly these packets, in the order they were sent; every buffer of them that is not empty was mapped for DMA and is
  unmapped again with its own address and length; and the whole ring is available.  The buffers are ones whose address
  needs no address extension and whose length fits the length field of a descriptor: for an extended address the code
  does not recover the address it mapped.\<close>

theorem dma_send_reclaim:
  assumes "pow2 (ntxd di)" "txp di = replicate (nt di) None" "tx_fits_all ps (nt di - 1)"
    "list_all (\<lambda>p. plain_bufs di (maxlen_of di) (bufs p)) ps"
    and "ms = concat (map (\<lambda>p. map buf_map (nz_bufs (bufs p))) ps)"
  shows "\<exists>di'. di_txreclaim True (tx_send ps (di_txinit di)) = Some di' \<and> freed (trace di') = freed (trace di) @ ps \<and>
    mapped (trace di') = mapped (trace di) @ ms \<and> unmapped (trace di') = unmapped (trace di) @ ms \<and> tx_queue di' = [] \<and>
    unat (txavail di') = nt di - 1"
proof -
  let ?d = "di_txinit di" let ?s = "tx_send ps ?d"
  note i = di_txinit_inv[OF assms(1,2)]
  have q0: "tx_queue ?d = []" "tx_maps E ?d = []" for E using tx_queue_unused[OF i(1,2)] i(2) by (simp_all add: tx_maps_def)
  have "plain_bufs ?d = plain_bufs di" "maxlen_of ?d = maxlen_of di"
    using i(6,7) ext_addr_cong[of ?d di] by (simp_all add: plain_bufs_def maxlen_of_def fun_eq_iff)
  then have s: "tx_inv ?s" "tx_queue ?s = ps" "ntxd ?s = ntxd di" "engine_of ?s = engine_of ?d" "freed (trace ?s) = freed (trace di)"
      "unmapped (trace ?s) = unmapped (trace di)" "tx_maps (engine_of ?d) ?s = ms" "mapped (trace ?s) = mapped (trace di) @ ms"
    using tx_send_all[OF i(1), of ps] assms(3,4) i(2-) q0 by (auto simp: i assms(5))
  obtain di' qs where r: "di_txreclaim True ?s = Some di'" "tx_inv di'" "tx_queue ?s = qs @ tx_queue di'"
      "freed (trace di') = freed (trace ?s) @ qs" "tx_used di' = 0" "unat (txavail di') = nt ?s - 1"
      "unmapped (trace di') = unmapped (trace ?s) @ tx_maps (engine_of ?s) ?s" "mapped (trace di') = mapped (trace ?s)"
    using di_txreclaim_frees[OF s(1)] by blast
  then show ?thesis using s tx_queue_unused[OF r(2,5)] by auto
qed

theorem dma_send_reclaim_witness:
  "\<exists>di'. di_txreclaim True (tx_send [example_pkt 7 [\<lparr>b_pa = 0x100, b_len = 14\<rparr>, \<lparr>b_pa = 0x200, b_len = 50\<rparr>],
      example_pkt 8 [\<lparr>b_pa = 0x300, b_len = 60\<rparr>]] (di_txinit (example_dma True))) = Some di' \<and>
     freed (trace di') = [example_pkt 7 [\<lparr>b_pa = 0x100, b_len = 14\<rparr>, \<lparr>b_pa = 0x200, b_len = 50\<rparr>], example_pkt 8 [\<lparr>b_pa = 0x300, b_len = 60\<rparr>]] \<and>
     mapped (trace di') = [(0x100, 14), (0x200, 50), (0x300, 60)] \<and> unmapped (trace di') = [(0x100, 14), (0x200, 50), (0x300, 60)]"
proof -
  let ?ps = "[example_pkt 7 [\<lparr>b_pa = 0x100, b_len = 14\<rparr>, \<lparr>b_pa = 0x200, b_len = 50\<rparr>], example_pkt 8 [\<lparr>b_pa = 0x300, b_len = 60\<rparr>]]"
  let ?d = "example_dma True"
  have p: "pow2 (ntxd ?d)" by code_simp
  have t: "txp ?d = replicate (nt ?d) None" by code_simp
  have f: "tx_fits_all ?ps (nt ?d - 1)" by code_simp
  have l: "list_all (\<lambda>p. plain_bufs ?d (maxlen_of ?d) (bufs p)) ?ps" by code_simp
  have e: "trace ?d = []" by (simp add: example_dma_def)
  have m: "[(0x100, 14), (0x200, 50), (0x300, 60)] = concat (map (\<lambda>p. map buf_map (nz_bufs (bufs p))) ?ps)" by code_simp
  show ?thesis using dma_send_reclaim[OF p t f l m] unfolding e by auto
qed

text \<open>C20: Txrotate of both engines moves the active entries to the active descriptor of the hardware and keeps
  them: the queue, the DMA mapping of every entry in use and the free count are as before, and txin is the active
  descriptor.  It needs a descriptor of the ring other than txin, with room for the entries behind it.\<close>

theorem dma_txrotate_keeps:
  assumes inv: "tx_inv di" "ringlen_of di = nt di" and ad: "e_tx_active (engine_of di) di < ntxd di"
    and rot: "0 < tx_rot (engine_of di) di" "tx_rot (engine_of di) di + tx_used di < nt di"
  shows "\<exists>di'. di_txrotate di = Some di' \<and> tx_inv di' \<and> tx_queue di' = tx_queue di \<and>
    tx_maps (engine_of di) di' = tx_maps (engine_of di) di \<and> txin di' = e_tx_active (engine_of di) di \<and>
    tx_used di' = tx_used di \<and> unat (txavail di') = nt di - 1 - tx_used di"
proof (cases "dma64 di")
  case True
  then have eq: "di_txrotate di = txrotate engine64 di" "engine_of di = engine64" "ringlen_of di = length (txd64 (hw di))"
    by (simp_all add: di_defs engine_of_def ringlen_of_def)
  show ?thesis unfolding eq using r64.txrotate_keeps[OF inv(1) inv(2)[unfolded eq] ad[unfolded eq] rot[unfolded eq]] by blast
next
  case False
  then have eq: "di_txrotate di = txrotate engine32 di" "engine_of di = engine32" "ringlen_of di = length (txd32 (hw di))"
    by (simp_all add: di_defs engine_of_def ringlen_of_def)
  show ?thesis unfolding eq using r32.txrotate_keeps[OF inv(1) inv(2)[unfolded eq] ad[unfolded eq] rot[unfolded eq]] by blast
qed

text \<open>The example ring with one packet in it, and the status register of the transmit engine set.\<close>

definition example_sent :: "u32 \<Rightarrow> dma_info" where
  "example_sent st = upd_d32txregs (\<lambda>r. r\<lparr>status := st\<rparr>) (tx_send [example_pkt 7 [\<lparr>b_pa = 0x100, b_len = 14\<rparr>]] (example_dma False))"

theorem dma_txrotate_keeps_witness:
  "\<exists>di'. di_txrotate (example_sent 0x800000) = Some di' \<and> tx_queue di' = [example_pkt 7 [\<lparr>b_pa = 0x100, b_len = 14\<rparr>]] \<and> txin di' = 1"
proof -
  let ?d = "example_sent 0x800000"
  have inv: "tx_inv ?d" by code_simp
  have len: "ringlen_of ?d = nt ?d" by code_simp
  have ad: "e_tx_active (engine_of ?d) ?d < ntxd ?d" by code_simp
  have rot: "0 < tx_rot (engine_of ?d) ?d" by code_simp
  have room: "tx_rot (engine_of ?d) ?d + tx_used ?d < nt ?d" by code_simp
  have q: "tx_queue ?d = [example_pkt 7 [\<lparr>b_pa = 0x100, b_len = 14\<rparr>]]" by code_simp
  have a: "e_tx_active (engine_of ?d) ?d = 1" by code_simp
  show ?thesis using dma_txrotate_keeps[OF inv len ad rot room] unfolding q a by blast
qed

text \<open>When the active descriptor is txin itself, txrotate of both engines loses every packet of the ring: the
  descriptors in use stay in use, but no packet pointer is left for them, and none of the packets was freed.\<close>

theorem dma_txrotate_in_place_loses:
  assumes inv: "tx_inv di" "ringlen_of di = nt di" and ad: "e_tx_active (engine_of di) di = txin di"
  shows "\<exists>di'. di_txrotate di = Some di' \<and> tx_queue di' = [] \<and> tx_used di' = tx_used di \<and> freed (trace di') = freed (trace di)"
proof (cases "dma64 di")
  case True
  then have eq: "di_txrotate di = txrotate engine64 di" "engine_of di = engine64" "ringlen_of di = length (txd64 (hw di))"
    by (simp_all add: di_defs engine_of_def ringlen_of_def)
  show ?thesis unfolding eq using r64.txrotate_in_place[OF inv(1) inv(2)[unfolded eq] ad[unfolded eq]] .
next
  case False
  then have eq: "di_txrotate di = txrotate engine32 di" "engine_of di = engine32" "ringlen_of di = length (txd32 (hw di))"
    by (simp_all add: di_defs engine_of_def ringlen_of_def)
  show ?thesis unfolding eq using r32.txrotate_in_place[OF inv(1) inv(2)[unfolded eq] ad[unfolded eq]] .
qed

theorem dma_txrotate_in_place_loses_witness:
  "tx_queue (example_sent 0) = [example_pkt 7 [\<lparr>b_pa = 0x100, b_len = 14\<rparr>]] \<and>
   (\<exists>di'. di_txrotate (example_sent 0) = Some di' \<and> tx_queue di' = [] \<and> tx_used di' = 1 \<and> freed (trace di') = [])"
proof -
  let ?d = "example_sent 0"
  have inv: "tx_inv ?d" by code_simp
  have len: "ringlen_of ?d = nt ?d" by code_simp
  have ad: "e_tx_active (engine_of ?d) ?d = txin ?d" by code_simp
  have q: "tx_queue ?d = [example_pkt 7 [\<lparr>b_pa = 0x100, b_len = 14\<rparr>]]" by code_simp
  have u: "tx_used ?d = 1" by code_simp
  have f: "freed (trace ?d) = []" by code_simp
  show ?thesis using dma_txrotate_in_place_loses[OF inv len ad] q unfolding u f by blast
qed

section \<open>Receiving\<close>

definition rxlen_of :: "dma_info \<Rightarrow> nat" where
  "rxlen_of di = (if dma64 di then length (rxd64 (hw di)) else length (rxd32 (hw di)))"

lemma dma_rxfill_result:
  assumes ab: "rx_abs di q" and post: "length q \<le> unat (nrxpost di)" "nrxpost di < nrxd di" and len: "rxlen_of di = nr di"
    and plain: "list_all (\<lambda>p. \<not> ext_addr di (b_pa (hd (bufs p)))) (pool di)"
  defines "n \<equiv> unat (nrxpost di) - length q"
  shows "rx_abs (dma_rxfill di) (q @ map fresh (take n (pool di))) \<and> pool (dma_rxfill di) = drop n (pool di) \<and>
    rxnobuf (dma_rxfill di) = rxnobuf di + (if length (pool di) < n then 1 else 0) \<and>
    trace (dma_rxfill di) = trace di @ map (rx_map_ev di) (take n (pool di)) \<and> engine_of (dma_rxfill di) = engine_of di \<and>
    rx_maps (engine_of di) (dma_rxfill di) (length q + length (take n (pool di))) =
      rx_maps (engine_of di) di (length q) @ map (rx_buf_map di) (take n (pool di))"
proof -
  let ?E = "engine_of di"
  obtain out d1 where loop: "rxfill_loop ?E n (rxout di) di = (out, d1)" by fastforce
  have un: "unat (nrxpost di - NRXDACTIVE di (rxin di) (rxout di)) = n"
    using rx_used[OF ab] post(1) by (simp add: unat_sub_if' n_def)
  define d2 where "d2 = d1\<lparr>rxout := out\<rparr>"
  have fill: "dma_rxfill di = d2\<lparr>hw := e_rx_kick ?E d2 out\<rparr>" by (simp add: dma_rxfill_def Let_def un loop d2_def)
  have room: "length q + n < nr di" using post by (simp add: n_def word_less_nat_alt)
  have ab': "rx_abs (di\<lparr>rxout := rxout di\<rparr>) q" using ab by simp
  have pl: "rx_abs d2 (q @ map fresh (take n (pool di))) \<and> pool d1 = drop n (pool di) \<and>
      rxnobuf d1 = rxnobuf di + (if length (pool di) < n then 1 else 0) \<and> trace d1 = trace di @ map (rx_map_ev di) (take n (pool di)) \<and>
      rx_maps ?E d1 (length q + length (take n (pool di))) = rx_maps ?E di (length q) @ map (rx_buf_map di) (take n (pool di)) \<and>
      dma64 d1 = dma64 di"
    using x32.rxfill_loop_posts[OF ab' room _ plain, of out d1] x64.rxfill_loop_posts[OF ab' room _ plain, of out d1] len loop
    by (auto simp: engine_of_def rxlen_of_def d2_def split: if_splits)
  have "e_rx_mapping ?E (dma_rxfill di) i = e_rx_mapping ?E d1 i" for i
    using x32.rx_kick_map[of d2 out i] x64.rx_kick_map[of d2 out i] x32.rx_map_hw[of d2 d1 i] x64.rx_map_hw[of d2 d1 i]
    by (simp add: fill engine_of_def d2_def)
  then have "rx_maps ?E (dma_rxfill di) m = rx_maps ?E d1 m" for m
    by (simp add: rx_maps_def rx_map_at_def rx_slot_def fill d2_def)
  moreover have "rx_abs (dma_rxfill di) q' = rx_abs d2 q'" for q' by (rule rx_cong) (simp_all add: fill)
  ultimately show ?thesis using pl by (simp add: fill d2_def engine_of_def)
qed

text \<open>Rxfill posts buffers up to the wanted number nrxpost: the buffers it gets are appended to the ring with a
  cleared frame length, each mapped for DMA, the pool loses exactly these, and a pool that is too small is counted
  once in rxnobuf.\<close>

theorem dma_rxfill_posts:
  assumes "rx_abs di q" "length q \<le> unat (nrxpost di)" "nrxpost di < nrxd di" "rxlen_of di = nr di"
    "list_all (\<lambda>p. \<not> ext_addr di (b_pa (hd (bufs p)))) (pool di)" "n = unat (nrxpost di) - length q"
  shows "rx_abs (dma_rxfill di) (q @ map fresh (take n (pool di))) \<and> pool (dma_rxfill di) = drop n (pool di) \<and>
    rxnobuf (dma_rxfill di) = rxnobuf di + (if length (pool di) < n then 1 else 0) \<and>
    mapped (trace (dma_rxfill di)) = mapped (trace di) @ map (rx_buf_map di) (take n (pool di))"
  using dma_rxfill_result[OF assms(1-5)] assms(6) by simp

definition example_rx :: "nat \<Rightarrow> dma_info" where
  "example_rx n = (example_dma True)\<lparr>pool := map (\<lambda>i. example_pkt i [\<lparr>b_pa = 0x1000, b_len = 0\<rparr>]) [0..<n]\<rparr>"

theorem dma_rxfill_posts_witness:
  "rx_abs (dma_rxfill (example_rx 1)) [example_pkt 0 [\<lparr>b_pa = 0x1000, b_len = 0\<rparr>]] \<and> rxnobuf (dma_rxfill (example_rx 1)) = 1"
proof -
  let ?d = "example_rx 1"
  have ab: "rx_abs ?d []" by code_simp
  have le: "length ([] :: packet list) \<le> unat (nrxpost ?d)" by simp
  have lt: "nrxpost ?d < nrxd ?d" by code_simp
  have len: "rxlen_of ?d = nr ?d" by code_simp
  have pl: "list_all (\<lambda>p. \<not> ext_addr ?d (b_pa (hd (bufs p)))) (pool ?d)" by code_simp
  have n: "unat (nrxpost ?d) - length ([] :: packet list) = 2" by code_simp
  have q: "[] @ map fresh (take 2 (pool ?d)) = [example_pkt 0 [\<lparr>b_pa = 0x1000, b_len = 0\<rparr>]]" by code_simp
  have b: "rxnobuf ?d + (if length (pool ?d) < 2 then 1 else 0) = 1" by code_simp
  show ?thesis using dma_rxfill_posts[OF ab le lt len pl refl] unfolding n q b by blast
qed

text \<open>C21: The buffers that rxfill posts on an empty ring and rxreclaim takes back are exactly the ones freed, in
  order: as many as nrxpost asks for and the pool has, each mapped and unmapped again with the buffer's own address and
  the receive buffer size.  No buffer of the pool has an address that needs the address extension: for such a buffer
  the code unmaps another address than it mapped.\<close>

theorem dma_rxfill_reclaim:
  assumes "rx_abs di []" "nrxpost di < nrxd di" "rxlen_of di = nr di"
    "list_all (\<lambda>p. \<not> ext_addr di (b_pa (hd (bufs p)))) (pool di)"
    and "ms = map (rx_buf_map di) (take (unat (nrxpost di)) (pool di))"
  shows "\<exists>di'. dma_rxreclaim (dma_rxfill di) = Some di' \<and> rx_abs di' [] \<and>
    freed (trace di') = freed (trace di) @ map fresh (take (unat (nrxpost di)) (pool di)) \<and>
    mapped (trace di') = mapped (trace di) @ ms \<and> unmapped (trace di') = unmapped (trace di) @ ms"
proof -
  have f: "rx_abs (dma_rxfill di) (map fresh (take (unat (nrxpost di)) (pool di)))"
      "trace (dma_rxfill di) = trace di @ map (rx_map_ev di) (take (unat (nrxpost di)) (pool di))"
      "rx_maps (engine_of (dma_rxfill di)) (dma_rxfill di) (length (take (unat (nrxpost di)) (pool di))) =
        map (rx_buf_map di) (take (unat (nrxpost di)) (pool di))"
    using dma_rxfill_result[OF assms(1) _ assms(2-4)] by (simp_all add: rx_maps_def[of _ di])
  show ?thesis using dma_rxreclaim_frees[OF f(1)] f(2,3) by (auto simp: assms(5))
qed

theorem dma_rxfill_reclaim_witness:
  "\<exists>di'. dma_rxreclaim (dma_rxfill (example_rx 3)) = Some di' \<and>
     freed (trace di') = [example_pkt 0 [\<lparr>b_pa = 0x1000, b_len = 0\<rparr>], example_pkt 1 [\<lparr>b_pa = 0x1000, b_len = 0\<rparr>]] \<and>
     mapped (trace di') = [(0x1000, 1600), (0x1000, 1600)] \<and> unmapped (trace di') = [(0x1000, 1600), (0x1000, 1600)]"
proof -
  let ?d = "example_rx 3"
  have ab: "rx_abs ?d []" by code_simp
  have lt: "nrxpost ?d < nrxd ?d" by code_simp
  have len: "rxlen_of ?d = nr ?d" by code_simp
  have pl: "list_all (\<lambda>p. \<not> ext_addr ?d (b_pa (hd (bufs p)))) (pool ?d)" by code_simp
  have q: "map fresh (take (unat (nrxpost ?d)) (pool ?d)) = [example_pkt 0 [\<lparr>b_pa = 0x1000, b_len = 0\<rparr>], example_pkt 1 [\<lparr>b_pa = 0x1000, b_len = 0\<rparr>]]"
    by code_simp
  have t: "trace ?d = []" by code_simp
  have m: "[(0x1000, 1600), (0x1000, 1600)] = map (rx_buf_map ?d) (take (unat (nrxpost ?d)) (pool ?d))" by code_simp
  show ?thesis using dma_rxfill_reclaim[OF ab lt len pl m] unfolding q t by auto
qed

text \<open>What rx delivers: the packets before it are dropped, and its data ends within its buffer.\<close>

definition rx_delivered :: "u32 \<Rightarrow> u32 \<Rightarrow> packet list \<Rightarrow> packet option \<Rightarrow> packet list \<Rightarrow> packet list \<Rightarrow> bool" where
  "rx_delivered bsz off ps r ds qs = (case r of None \<Rightarrow> ps = ds \<and> qs = []
     | Some p \<Rightarrow> \<exists>p0. ps = ds @ p0 # qs \<and> p = p0\<lparr>pkt_len := off + ucast (frame_len p0)\<rparr> \<and> (ucast (frame_len p0) :: u32) \<le> bsz - off)"

lemma rx_spec_delivered: "rx_spec bsz off skip ps = (r, ds, g, qs) \<Longrightarrow> rx_delivered bsz off ps r ds qs"
proof (induction bsz off skip ps arbitrary: r ds g qs rule: rx_spec.induct)
  case (1 bsz off skip)
  then show ?case by (auto simp: rx_delivered_def)
next
  case (2 bsz off skip p ps)
  have drop: "rx_delivered bsz off ps r ds' qs \<Longrightarrow> rx_delivered bsz off (p # ps) r (p # ds') qs" for ds'
    by (auto simp: rx_delivered_def split: option.splits)
  have here: "(ucast (frame_len p) :: u32) \<le> bsz - off \<Longrightarrow> rx_delivered bsz off (p # ps) (Some (p\<lparr>pkt_len := off + ucast (frame_len p)\<rparr>)) [] ps"
    by (simp add: rx_delivered_def)
  show ?case
  proof (cases "skip > 0")
    case True
    then show ?thesis using 2 drop by (auto simp: Let_def split: prod.splits)
  next
    case False
    then show ?thesis using 2 drop here
      by (cases "(ucast (frame_len p) :: u32) > bsz - off") (auto simp: Let_def not_less split: prod.splits)
  qed
qed

lemma rx_spec_fits:
  "(ucast (frame_len p) :: u32) \<le> bsz - off \<Longrightarrow> rx_spec bsz off 0 (p # ps) = (Some (p\<lparr>pkt_len := off + ucast (frame_len p)\<rparr>), [], 0, ps)"
  by (auto simp: Let_def dest: leD)

lemma unat_frame_len: "unat (ucast (frame_len p) :: u32) = unat (frame_len p)"
  by (simp add: unsigned_ucast_eq take_bit_nat_eq_self unsigned_less[THEN less_le_trans])

lemma frame_in_buffer:
  fixes s :: u32
  assumes fits: "(ucast (frame_len p) :: u32) \<le> s - off" and off: "off \<le> s"
  shows "unat (off + ucast (frame_len p)) = unat off + unat (frame_len p) \<and> off + ucast (frame_len p) \<le> s"
proof -
  have "unat (s - off) = unat s - unat off" using off by (simp add: unat_sub_if' word_le_nat_alt)
  then have "unat (frame_len p) \<le> unat s - unat off" using fits unat_frame_len[of p] by (simp add: word_le_nat_alt)
  then have le: "unat off + unat (frame_len p) \<le> unat s" using off by (simp add: word_le_nat_alt)
  moreover have "unat s < 2 ^ 32" using unsigned_less[of s, where 'a = nat] by simp
  ultimately have "unat (off + ucast (frame_len p)) = unat off + unat (frame_len p)" by (simp add: unat_word_ariths unat_frame_len)
  then show ?thesis using le by (simp add: word_le_nat_alt)
qed

text \<open>C19: Rx always returns.  It takes packets from the front of the ring, frees the ones it drops and delivers at
  most one, losing none: the ring keeps exactly the rest.  A delivered packet has the length of its frame and
  lies within its buffer, and the first packet is delivered when the hardware is done with it and its frame fits.\<close>

theorem dma_rx_delivers:
  assumes ab: "rx_abs di q" and off: "rxoffset di \<le> rxbufsize di"
  shows "\<exists>r di' ds q'. dma_rx di = Some (r, di') \<and> rx_abs di' q' \<and> freed (trace di') = freed (trace di) @ ds \<and>
    (case r of None \<Rightarrow> q = ds @ q'
      | Some p \<Rightarrow> \<exists>p0. q = ds @ p0 # q' \<and> unat (pkt_len p) = unat (rxoffset di) + unat (frame_len p0) \<and> pkt_len p \<le> rxbufsize di \<and>
          p = p0\<lparr>pkt_len := pkt_len p\<rparr>) \<and>
    (q \<noteq> [] \<and> rxin di \<noteq> e_rx_curr (engine_of di) di \<and> unat (rxoffset di) + unat (frame_len (hd q)) \<le> unat (rxbufsize di) \<longrightarrow> r \<noteq> None \<and> ds = [])"
proof -
  let ?k = "rx_avail (engine_of di) di (length q)" and ?s = "rxbufsize di" and ?o = "rxoffset di"
  obtain r ds g qs where sp: "rx_spec ?s ?o 0 (take ?k q) = (r, ds, g, qs)" by (metis prod_cases4)
  obtain di' where d': "dma_rx di = Some (r, di')" "rx_abs di' (qs @ drop ?k q)" "freed (trace di') = freed (trace di) @ ds"
    using dma_rx_loop_spec[OF ab sp] by (auto simp: dma_rx_def)
  have dl: "rx_delivered ?s ?o (take ?k q) r ds qs" by (rule rx_spec_delivered[OF sp])
  have "case r of None \<Rightarrow> q = ds @ qs @ drop ?k q
      | Some p \<Rightarrow> \<exists>p0. q = ds @ p0 # qs @ drop ?k q \<and> unat (pkt_len p) = unat ?o + unat (frame_len p0) \<and> pkt_len p \<le> ?s \<and> p = p0\<lparr>pkt_len := pkt_len p\<rparr>"
  proof (cases r)
    case None
    then show ?thesis using dl by (simp add: rx_delivered_def) (metis append_take_drop_id)
  next
    case (Some p)
    then obtain p0 where p0: "take ?k q = ds @ p0 # qs" "p = p0\<lparr>pkt_len := ?o + ucast (frame_len p0)\<rparr>" "(ucast (frame_len p0) :: u32) \<le> ?s - ?o"
      using dl by (auto simp: rx_delivered_def)
    have "q = ds @ p0 # qs @ drop ?k q" using p0(1) append_take_drop_id[of ?k q] by simp
    then show ?thesis using Some p0(2) frame_in_buffer[OF p0(3) off] by auto
  qed
  moreover have "r \<noteq> None \<and> ds = []"
    if g: "q \<noteq> []" "rxin di \<noteq> e_rx_curr (engine_of di) di" "unat ?o + unat (frame_len (hd q)) \<le> unat ?s"
  proof -
    obtain p ps where q: "q = p # ps" using g(1) by (cases q) auto
    have "?k \<noteq> 0" using rx_avail_zero[of di p ps] ab g(2) unfolding q by blast
    then obtain k where k: "take ?k q = p # take k ps" unfolding q using not0_implies_Suc by (metis take_Suc_Cons)
    have "(ucast (frame_len p) :: u32) \<le> ?s - ?o" using g(3) off by (simp add: q word_le_nat_alt unat_frame_len unat_sub_if')
    then show ?thesis using sp rx_spec_fits[of p ?s ?o] unfolding k by auto
  qed
  ultimately show ?thesis using d' by blast
qed

definition example_done :: dma_info where
  "example_done = upd_d64rxregs (\<lambda>r. r\<lparr>status0 := 16\<rparr>) (dma_rxfill (example_rx 2))"

theorem dma_rx_delivers_witness:
  "\<exists>p di' q'. dma_rx example_done = Some (Some p, di') \<and> rx_abs di' q' \<and> freed (trace di') = [] \<and> pkt_len p \<le> 1600"
proof -
  let ?q = "[example_pkt 0 [\<lparr>b_pa = 0x1000, b_len = 0\<rparr>], example_pkt 1 [\<lparr>b_pa = 0x1000, b_len = 0\<rparr>]]"
  have ab: "rx_abs example_done ?q" by code_simp
  have off: "rxoffset example_done \<le> rxbufsize example_done" by code_simp
  have s: "rxbufsize example_done = 1600" by code_simp
  have f: "freed (trace example_done) = []" by code_simp
  have c: "rxin example_done \<noteq> e_rx_curr (engine_of example_done) example_done" by code_simp
  have l: "unat (rxoffset example_done) + unat (frame_len (hd ?q)) \<le> unat (rxbufsize example_done)" by code_simp
  have ne: "?q \<noteq> []" by simp
  show ?thesis using dma_rx_delivers[OF ab off] c l ne unfolding s f append_Nil by (fastforce split: option.splits)
qed

end
