(* ===== verification/Hnd_Dma_Attach.thy ===== *)
theory Hnd_Dma_Attach
  imports Hnd_Dma "HOL-Library.Multiset"
begin

text \<open>
  dma_attach and dma_detach of hnddma.c: the memory they take and give back.  The allocators of the operating
  system are a list of results to come (NULL, or a virtual and a bus address); the memory keeps the blocks that are
  allocated, and whether a block was ever freed that is not.
\<close>

section \<open>Constants\<close>

definition D32RINGALIGN :: u32 where "D32RINGALIGN = 4096"
definition D64MAXRINGSZ :: u32 where "D64MAXRINGSZ = 8192"
definition D64RINGALIGN :: u32 where "D64RINGALIGN = 8192"
definition D64MAXDD :: u32 where "D64MAXDD = D64MAXRINGSZ div sizeof_dma64dd"
definition DMA_CONSISTENT_ALIGN :: u32 where "DMA_CONSISTENT_ALIGN = 4096"
definition SBTMH_DMA64 :: u32 where "SBTMH_DMA64 = 0x10000000"
definition PCI_BUS :: u32 where "PCI_BUS = 1"
definition SB_PCIE :: u32 where "SB_PCIE = 0x820"
definition sizeof_ptr :: u32 where "sizeof_ptr = 4"

definition ROUNDUP :: "u32 \<Rightarrow> u32 \<Rightarrow> u32" where "ROUNDUP x y = ((x + (y - 1)) div y) * y"
definition ISALIGNED :: "u32 \<Rightarrow> u32 \<Rightarrow> bool" where "ISALIGNED a x = (a AND (x - 1) = 0)"

section \<open>Memory\<close>

record dma_mem =
  results :: "(u32 \<times> u32) option list"
  live :: "(u32 \<times> u32) list"
  bad_free :: bool

definition dma_take :: "u32 \<Rightarrow> dma_mem \<Rightarrow> (u32 \<times> u32) option \<times> dma_mem" where
  "dma_take sz m = (case results m of
     [] \<Rightarrow> (None, m)
   | None # rs \<Rightarrow> (None, m\<lparr>results := rs\<rparr>)
   | Some (va, pa) # rs \<Rightarrow> (Some (va, pa), m\<lparr>results := rs, live := (va, sz) # live m\<rparr>))"

definition MALLOC :: "u32 \<Rightarrow> dma_mem \<Rightarrow> u32 \<times> dma_mem" where
  "MALLOC sz m = (case dma_take sz m of (None, m) \<Rightarrow> (0, m) | (Some (va, pa), m) \<Rightarrow> (va, m))"

definition MFREE :: "u32 \<Rightarrow> u32 \<Rightarrow> dma_mem \<Rightarrow> dma_mem" where
  "MFREE va sz m = (if (va, sz) \<in> set (live m) then m\<lparr>live := remove1 (va, sz) (live m)\<rparr> else m\<lparr>bad_free := True\<rparr>)"

text \<open>The part of dma_info that attach sets: the pointers, and what goes with the descriptor rings.\<close>

record dma_att =
  p_di :: u32
  t_dma64 :: bool
  t_ntxd :: u32
  t_nrxd :: u32
  t_rxbufsize :: u32
  t_nrxpost :: u32
  t_rxoffset :: u32
  t_ddoffsetlow :: u32
  t_ddoffsethigh :: u32
  t_dataoffsetlow :: u32
  t_dataoffsethigh :: u32
  t_addrext :: bool
  dma64align :: u32
  p_txp :: u32
  p_rxp :: u32
  p_txd :: u32
  t_txdpa :: u32
  txdalign :: u32
  txdalloc :: u32
  p_rxd :: u32
  t_rxdpa :: u32
  rxdalign :: u32
  rxdalloc :: u32
  p_txp_dmah :: u32
  p_rxp_dmah :: u32

section \<open>Operations\<close>

text \<open>The descriptor ring of one direction; the two engines differ in the size of a descriptor and the alignment.\<close>

definition ring_alloc :: "u32 \<Rightarrow> u32 \<Rightarrow> direction \<Rightarrow> dma_att \<times> dma_mem \<Rightarrow> bool \<times> dma_att \<times> dma_mem" where
  "ring_alloc ddlen alignbytes dir s = (case s of (di, m) \<Rightarrow>
     let sz = (case dir of DMA_TX \<Rightarrow> t_ntxd di * ddlen | DMA_RX \<Rightarrow> t_nrxd di * ddlen);
         sz = (if ISALIGNED DMA_CONSISTENT_ALIGN alignbytes then sz else sz + alignbytes)
     in case dma_take sz m of
          (None, m) \<Rightarrow> (False, di, m)
        | (Some (va, pa), m) \<Rightarrow>
            let ring = ROUNDUP va alignbytes; al = ring - va in
            (True, (case dir of
               DMA_TX \<Rightarrow> di\<lparr>p_txd := ring, txdalign := al, t_txdpa := pa + al, txdalloc := sz\<rparr>
             | DMA_RX \<Rightarrow> di\<lparr>p_rxd := ring, rxdalign := al, t_rxdpa := pa + al, rxdalloc := sz\<rparr>), m))"

definition dma32_alloc :: "direction \<Rightarrow> dma_att \<times> dma_mem \<Rightarrow> bool \<times> dma_att \<times> dma_mem" where
  "dma32_alloc dir s = ring_alloc sizeof_dma32dd D32RINGALIGN dir s"

definition dma64_alloc :: "direction \<Rightarrow> dma_att \<times> dma_mem \<Rightarrow> bool \<times> dma_att \<times> dma_mem" where
  "dma64_alloc dir s = ring_alloc sizeof_dma64dd (dma64align (fst s)) dir s"

definition dma_alloc :: "direction \<Rightarrow> dma_att \<times> dma_mem \<Rightarrow> bool \<times> dma_att \<times> dma_mem" where
  "dma_alloc dir s = (if t_dma64 (fst s) then dma64_alloc dir s else dma32_alloc dir s)"

text \<open>\<open>txr\<close> and \<open>rxr\<close>: None when the register block is NULL, otherwise the result of the address extension test.\<close>

definition dma_isaddrext :: "bool \<Rightarrow> bool option \<Rightarrow> bool option \<Rightarrow> bool" where
  "dma_isaddrext b64 txr rxr = (if b64
     then (case txr of Some ae \<Rightarrow> True | None \<Rightarrow> (case rxr of Some ae \<Rightarrow> True | None \<Rightarrow> False))
     else (case txr of Some ae \<Rightarrow> ae | None \<Rightarrow> (case rxr of Some ae \<Rightarrow> ae | None \<Rightarrow> False)))"

definition free_if :: "u32 \<Rightarrow> u32 \<Rightarrow> u32 \<Rightarrow> dma_mem \<Rightarrow> dma_mem" where
  "free_if p va sz m = (if p \<noteq> 0 then MFREE va sz m else m)"

definition dma_detach :: "u32 \<Rightarrow> dma_att \<Rightarrow> dma_mem \<Rightarrow> dma_mem" where
  "dma_detach infosz di m = (
     let m = free_if (p_txd di) (p_txd di - txdalign di) (txdalloc di) m;
         m = free_if (p_rxd di) (p_rxd di - rxdalign di) (rxdalloc di) m;
         m = free_if (p_txp di) (p_txp di) (t_ntxd di * sizeof_ptr) m;
         m = free_if (p_rxp di) (p_rxp di) (t_nrxd di * sizeof_ptr) m;
         m = free_if (p_txp_dmah di) (p_txp_dmah di) (t_ntxd di * sizeof_ptr) m;
         m = free_if (p_rxp_dmah di) (p_rxp_dmah di) (t_nrxd di * sizeof_ptr) m
     in MFREE (p_di di) infosz m)"

text \<open>A step of attach, which may fail, and the next one.\<close>

definition and_then :: "('s \<Rightarrow> bool \<times> 's) \<Rightarrow> ('s \<Rightarrow> bool \<times> 's) \<Rightarrow> 's \<Rightarrow> bool \<times> 's" where
  "and_then f g s = (case f s of (ok, s) \<Rightarrow> if ok then g s else (False, s))"

definition alloc_txp :: "dma_att \<times> dma_mem \<Rightarrow> bool \<times> dma_att \<times> dma_mem" where
  "alloc_txp s = (case s of (di, m) \<Rightarrow> if t_ntxd di = 0 then (True, di, m)
     else case MALLOC (t_ntxd di * sizeof_ptr) m of (p, m) \<Rightarrow> (p \<noteq> 0, di\<lparr>p_txp := p\<rparr>, m))"

definition alloc_rxp :: "dma_att \<times> dma_mem \<Rightarrow> bool \<times> dma_att \<times> dma_mem" where
  "alloc_rxp s = (case s of (di, m) \<Rightarrow> if t_nrxd di = 0 then (True, di, m)
     else case MALLOC (t_nrxd di * sizeof_ptr) m of (p, m) \<Rightarrow> (p \<noteq> 0, di\<lparr>p_rxp := p\<rparr>, m))"

definition alloc_txd :: "dma_att \<times> dma_mem \<Rightarrow> bool \<times> dma_att \<times> dma_mem" where
  "alloc_txd s = (if t_ntxd (fst s) = 0 then (True, s) else dma_alloc DMA_TX s)"

definition alloc_rxd :: "dma_att \<times> dma_mem \<Rightarrow> bool \<times> dma_att \<times> dma_mem" where
  "alloc_rxd s = (if t_nrxd (fst s) = 0 then (True, s) else dma_alloc DMA_RX s)"

definition check_ext :: "dma_att \<times> dma_mem \<Rightarrow> bool \<times> dma_att \<times> dma_mem" where
  "check_ext s = (case s of (di, m) \<Rightarrow>
     (\<not> (t_ddoffsetlow di = SB_PCI_DMA \<and> t_txdpa di > SB_PCI_DMA_SZ \<and> \<not> t_addrext di) \<and>
      \<not> (t_ddoffsetlow di = SB_PCI_DMA \<and> t_rxdpa di > SB_PCI_DMA_SZ \<and> \<not> t_addrext di), di, m))"

definition alloc_txp_dmah :: "dma_att \<times> dma_mem \<Rightarrow> bool \<times> dma_att \<times> dma_mem" where
  "alloc_txp_dmah s = (case s of (di, m) \<Rightarrow> if t_ntxd di = 0 then (True, di\<lparr>p_txp_dmah := 0\<rparr>, m)
     else case MALLOC (t_ntxd di * sizeof_ptr) m of (p, m) \<Rightarrow> (p \<noteq> 0, di\<lparr>p_txp_dmah := p\<rparr>, m))"

definition alloc_rxp_dmah :: "dma_att \<times> dma_mem \<Rightarrow> bool \<times> dma_att \<times> dma_mem" where
  "alloc_rxp_dmah s = (case s of (di, m) \<Rightarrow> if t_nrxd di = 0 then (True, di\<lparr>p_rxp_dmah := 0\<rparr>, m)
     else case MALLOC (t_nrxd di * sizeof_ptr) m of (p, m) \<Rightarrow> (p \<noteq> 0, di\<lparr>p_rxp_dmah := p\<rparr>, m))"

text \<open>The tunables and offsets, before anything but the structure itself is allocated.\<close>

definition att_init :: "u32 \<Rightarrow> bool \<Rightarrow> bool \<Rightarrow> bool \<Rightarrow> bool option \<Rightarrow> bool option \<Rightarrow> u32 \<Rightarrow> u32 \<Rightarrow> u32 \<Rightarrow> u32 \<Rightarrow> u32 \<Rightarrow> dma_att" where
  "att_init p b64 pci pcie txr rxr ntx nrx bufsz npost off = (
     let low = (if pci \<and> \<not> (pcie \<and> b64) then SB_PCI_DMA else 0); high = (if pci \<and> pcie \<and> b64 then SB_PCIE_DMA_H32 else 0) in
     \<lparr>p_di = p, t_dma64 = b64, t_ntxd = ntx, t_nrxd = nrx,
      t_rxbufsize = (if bufsz > BCMEXTRAHDROOM then bufsz - BCMEXTRAHDROOM else bufsz), t_nrxpost = npost, t_rxoffset = off,
      t_ddoffsetlow = low, t_ddoffsethigh = high, t_dataoffsetlow = low, t_dataoffsethigh = high, t_addrext = dma_isaddrext b64 txr rxr,
      dma64align = (if b64 then if ntx < D64MAXDD div 2 \<and> nrx < D64MAXDD div 2 then D64RINGALIGN div 2 else D64RINGALIGN else 0),
      p_txp = 0, p_rxp = 0, p_txd = 0, t_txdpa = 0, txdalign = 0, txdalloc = 0, p_rxd = 0, t_rxdpa = 0, rxdalign = 0, rxdalloc = 0,
      p_txp_dmah = 0, p_rxp_dmah = 0\<rparr>)"

definition dma_attach :: "u32 \<Rightarrow> u32 \<Rightarrow> u32 \<Rightarrow> u32 \<Rightarrow> bool option \<Rightarrow> bool option \<Rightarrow> u32 \<Rightarrow> u32 \<Rightarrow> u32 \<Rightarrow> u32 \<Rightarrow> u32 \<Rightarrow> dma_mem \<Rightarrow>
    dma_att option \<times> dma_mem" where
  "dma_attach infosz coreflagshi bustype buscoretype txr rxr ntx nrx bufsz npost off m = (
     case MALLOC infosz m of (p, m) \<Rightarrow>
       if p = 0 then (None, m)
       else let di = att_init p (coreflagshi AND SBTMH_DMA64 = SBTMH_DMA64) (bustype = PCI_BUS) (buscoretype = SB_PCIE) txr rxr ntx nrx bufsz npost off
         in case and_then alloc_txp (and_then alloc_rxp (and_then alloc_txd (and_then alloc_rxd (and_then check_ext
                (and_then alloc_txp_dmah alloc_rxp_dmah))))) (di, m) of
              (ok, di, m) \<Rightarrow> if ok then (Some di, m) else (None, dma_detach infosz di m))"

text \<open>The width of the addresses an engine can use, from the flags of its core and the bus it sits on.\<close>

definition SB_BUS :: u32 where "SB_BUS = 0"
definition DMADDRWIDTH_30 :: nat where "DMADDRWIDTH_30 = 30"
definition DMADDRWIDTH_32 :: nat where "DMADDRWIDTH_32 = 32"
definition DMADDRWIDTH_64 :: nat where "DMADDRWIDTH_64 = 64"

definition dma_addrwidth :: "u32 \<Rightarrow> bool \<Rightarrow> u32 \<Rightarrow> u32 \<Rightarrow> bool \<Rightarrow> nat" where
  "dma_addrwidth coreflagshi backplane64 bustype buscoretype ae = (
     if coreflagshi AND SBTMH_DMA64 = SBTMH_DMA64
     then (if backplane64 \<and> (bustype = SB_BUS \<or> (bustype = PCI_BUS \<and> buscoretype = SB_PCIE)) then DMADDRWIDTH_64 else DMADDRWIDTH_32)
     else if bustype = SB_BUS \<or> (bustype = PCI_BUS \<and> buscoretype = SB_PCIE) \<or> ae then DMADDRWIDTH_32
     else DMADDRWIDTH_30)"

section \<open>No block is lost\<close>

text \<open>A step that may fail: from \<open>P\<close> it leads to \<open>Q\<close>, or fails in \<open>R\<close>.\<close>

definition leads :: "('s \<Rightarrow> bool) \<Rightarrow> ('s \<Rightarrow> bool \<times> 's) \<Rightarrow> ('s \<Rightarrow> bool) \<Rightarrow> ('s \<Rightarrow> bool) \<Rightarrow> bool" where
  "leads P f Q R = (\<forall>s. P s \<longrightarrow> (case f s of (ok, s') \<Rightarrow> if ok then Q s' else R s'))"

lemma leads_then: "leads P f Q R \<Longrightarrow> leads Q g S R \<Longrightarrow> leads P (and_then f g) S R"
  by (fastforce simp: leads_def and_then_def split: prod.splits)

lemma leadsD: "leads P f Q R \<Longrightarrow> P s \<Longrightarrow> f s = (ok, s') \<Longrightarrow> (if ok then Q s' else R s')"
  by (auto simp: leads_def split: prod.splits)

text \<open>Allocations to come return addresses that are not NULL and do not reach the end of the address space.\<close>

definition good_results :: "dma_mem \<Rightarrow> bool" where
  "good_results m = list_all (\<lambda>r. case r of None \<Rightarrow> True | Some (va, pa) \<Rightarrow> va \<noteq> 0 \<and> unat va + 8192 < 2 ^ 32) (results m)"

definition block_if :: "u32 \<Rightarrow> u32 \<Rightarrow> u32 \<Rightarrow> (u32 \<times> u32) multiset" where
  "block_if p va sz = (if p \<noteq> 0 then {#(va, sz)#} else {#})"

definition held :: "u32 \<Rightarrow> dma_att \<Rightarrow> (u32 \<times> u32) multiset" where
  "held infosz di = block_if (p_txd di) (p_txd di - txdalign di) (txdalloc di) + block_if (p_rxd di) (p_rxd di - rxdalign di) (rxdalloc di) +
     block_if (p_txp di) (p_txp di) (t_ntxd di * sizeof_ptr) + block_if (p_rxp di) (p_rxp di) (t_nrxd di * sizeof_ptr) +
     block_if (p_txp_dmah di) (p_txp_dmah di) (t_ntxd di * sizeof_ptr) + block_if (p_rxp_dmah di) (p_rxp_dmah di) (t_nrxd di * sizeof_ptr) +
     {#(p_di di, infosz)#}"

definition att_inv :: "u32 \<Rightarrow> dma_mem \<Rightarrow> dma_att \<times> dma_mem \<Rightarrow> bool" where
  "att_inv infosz m0 s = (case s of (di, m) \<Rightarrow> mset (live m) = held infosz di + mset (live m0) \<and> bad_free m = bad_free m0 \<and> good_results m \<and>
     (t_dma64 di \<longrightarrow> dma64align di = 4096 \<or> dma64align di = 8192))"

lemma MFREE_mset:
  "mset (live m) = add_mset (va, sz) M \<Longrightarrow> mset (live (MFREE va sz m)) = M \<and> bad_free (MFREE va sz m) = bad_free m"
proof -
  assume a: "mset (live m) = add_mset (va, sz) M"
  then have "(va, sz) \<in> set (live m)" by (metis set_mset_mset union_single_eq_member)
  then show ?thesis using a by (simp add: MFREE_def)
qed

lemma free_if_mset:
  "mset (live m) = block_if p va sz + M \<Longrightarrow> mset (live (free_if p va sz m)) = M \<and> bad_free (free_if p va sz m) = bad_free m"
  using MFREE_mset by (auto simp: free_if_def block_if_def)

lemma dma_detach_frees:
  assumes "att_inv infosz m0 (di, m)"
  shows "mset (live (dma_detach infosz di m)) = mset (live m0) \<and> bad_free (dma_detach infosz di m) = bad_free m0"
proof -
  let ?ptr = "\<lambda>n. n * sizeof_ptr"
  define m1 where "m1 = free_if (p_txd di) (p_txd di - txdalign di) (txdalloc di) m"
  define m2 where "m2 = free_if (p_rxd di) (p_rxd di - rxdalign di) (rxdalloc di) m1"
  define m3 where "m3 = free_if (p_txp di) (p_txp di) (?ptr (t_ntxd di)) m2"
  define m4 where "m4 = free_if (p_rxp di) (p_rxp di) (?ptr (t_nrxd di)) m3"
  define m5 where "m5 = free_if (p_txp_dmah di) (p_txp_dmah di) (?ptr (t_ntxd di)) m4"
  define m6 where "m6 = free_if (p_rxp_dmah di) (p_rxp_dmah di) (?ptr (t_nrxd di)) m5"
  have d: "dma_detach infosz di m = MFREE (p_di di) infosz m6"
    by (simp add: dma_detach_def Let_def m1_def m2_def m3_def m4_def m5_def m6_def)
  note a = assms[unfolded att_inv_def held_def prod.case add.assoc]
  note f1 = free_if_mset[OF conjunct1[OF a], folded m1_def]
  note f2 = free_if_mset[OF conjunct1[OF f1], folded m2_def]
  note f3 = free_if_mset[OF conjunct1[OF f2], folded m3_def]
  note f4 = free_if_mset[OF conjunct1[OF f3], folded m4_def]
  note f5 = free_if_mset[OF conjunct1[OF f4], folded m5_def]
  note f6 = free_if_mset[OF conjunct1[OF f5], folded m6_def]
  from f6 have "mset (live m6) = add_mset (p_di di, infosz) (mset (live m0))" by simp
  from MFREE_mset[OF this] show ?thesis using a f1 f2 f3 f4 f5 f6 by (simp add: d)
qed

lemma ROUNDUP_nat:
  assumes "y = 4096 \<or> y = 8192" "unat va + 8192 < 2 ^ 32"
  shows "unat (ROUNDUP va y) = ((unat va + (unat y - 1)) div unat y) * unat y"
proof -
  let ?q = "(unat va + (unat y - 1)) div unat y"
  have y: "unat y = 4096 \<or> unat y = 8192" "unat (y - 1) = unat y - 1" using assms(1) by auto
  have s: "unat (va + (y - 1)) = unat va + (unat y - 1)" using assms(2) y by (auto simp: unat_word_ariths)
  have q: "unat ((va + (y - 1)) div y) = ?q" by (simp only: unat_div s)
  have "?q * unat y \<le> unat va + (unat y - 1)" by (rule div_times_less_eq_dividend)
  then have "?q * unat y < 2 ^ 32" using assms(2) y by auto
  then show ?thesis unfolding ROUNDUP_def by (simp only: unat_word_ariths(2) q) simp
qed

lemma ROUNDUP_ge:
  assumes "y = 4096 \<or> y = 8192" "unat va + 8192 < 2 ^ 32"
  shows "unat va \<le> unat (ROUNDUP va y)" "unat (ROUNDUP va y) < unat va + unat y" "unat (ROUNDUP va y) mod unat y = 0"
proof -
  have y: "0 < unat y" using assms(1) by auto
  have "(unat va + (unat y - 1)) div unat y * unat y + (unat va + (unat y - 1)) mod unat y = unat va + (unat y - 1)" by simp
  moreover have "(unat va + (unat y - 1)) mod unat y < unat y" using y by simp
  ultimately show "unat va \<le> unat (ROUNDUP va y)" "unat (ROUNDUP va y) < unat va + unat y"
    using ROUNDUP_nat[OF assms] y by linarith+
  show "unat (ROUNDUP va y) mod unat y = 0" using ROUNDUP_nat[OF assms] by simp
qed

lemma dma_take_cases:
  assumes "good_results m" "dma_take sz m = (r, m')"
  obtains "r = None" "live m' = live m" "bad_free m' = bad_free m" "good_results m'"
  | va pa where "r = Some (va, pa)" "va \<noteq> 0" "unat va + 8192 < 2 ^ 32" "live m' = (va, sz) # live m" "bad_free m' = bad_free m" "good_results m'"
  using assms by (auto simp: dma_take_def good_results_def split: list.splits option.splits prod.splits)

lemma MALLOC_cases:
  assumes "good_results m" "MALLOC sz m = (p, m')"
  obtains "p = 0" "live m' = live m" "bad_free m' = bad_free m" "good_results m'"
  | "p \<noteq> 0" "live m' = (p, sz) # live m" "bad_free m' = bad_free m" "good_results m'"
proof -
  obtain r m1 where t: "dma_take sz m = (r, m1)" by fastforce
  show thesis using assms(2) that by (cases rule: dma_take_cases[OF assms(1) t]) (auto simp: MALLOC_def t)
qed

text \<open>The states between the steps: what is not allocated yet is NULL.\<close>

definition att_at :: "nat \<Rightarrow> u32 \<Rightarrow> dma_mem \<Rightarrow> dma_att \<times> dma_mem \<Rightarrow> bool" where
  "att_at k infosz m0 s = (att_inv infosz m0 s \<and> (k < 1 \<longrightarrow> p_txp (fst s) = 0) \<and> (k < 2 \<longrightarrow> p_rxp (fst s) = 0) \<and> (k < 3 \<longrightarrow> p_txd (fst s) = 0) \<and>
     (k < 4 \<longrightarrow> p_rxd (fst s) = 0) \<and> (k < 5 \<longrightarrow> p_txp_dmah (fst s) = 0) \<and> (k < 6 \<longrightarrow> p_rxp_dmah (fst s) = 0))"

lemma block_if_0 [simp]: "block_if 0 va sz = {#}"
  by (simp add: block_if_def)

lemma malloc_step:
  assumes a: "att_inv z m0 (di, m)" and p: "MALLOC sz m = (p, m')"
    and h: "held z di' = block_if p p sz + held z di" "t_dma64 di' = t_dma64 di" "dma64align di' = dma64align di"
  shows "att_inv z m0 (di', m')"
proof -
  have g: "good_results m" using a by (simp add: att_inv_def)
  show ?thesis using a h by (cases rule: MALLOC_cases[OF g p]) (simp_all add: att_inv_def block_if_def)
qed

lemma take_step:
  assumes a: "att_inv z m0 (di, m)" and p: "dma_take sz m = (Some (va, pa), m')"
    and h: "held z di' = {#(va, sz)#} + held z di" "t_dma64 di' = t_dma64 di" "dma64align di' = dma64align di"
  shows "att_inv z m0 (di', m')"
proof -
  have g: "good_results m" using a by (simp add: att_inv_def)
  show ?thesis using a h by (cases rule: dma_take_cases[OF g p]) (simp_all add: att_inv_def)
qed

lemma take_none_step: "att_inv z m0 (di, m) \<Longrightarrow> dma_take sz m = (None, m') \<Longrightarrow> att_inv z m0 (di, m')"
  by (rule dma_take_cases[of m sz None m']) (auto simp: att_inv_def)

lemma ring_not_null:
  assumes "att_inv z m0 (di, m)" "dma_take sz m = (Some (va, pa), m')" "y = 4096 \<or> y = 8192"
  shows "ROUNDUP va y \<noteq> 0"
proof -
  have g: "good_results m" using assms(1) by (simp add: att_inv_def)
  have "va \<noteq> 0" "unat va + 8192 < 2 ^ 32" by (rule dma_take_cases[OF g assms(2)]; simp)+
  then have "0 < unat (ROUNDUP va y)" using ROUNDUP_ge(1)[OF assms(3)] by (metis gr_zeroI le_zero_eq unat_eq_zero)
  then show ?thesis by auto
qed

lemma ring_alloc_step:
  assumes a: "att_inv z m0 (di, m)" and y: "y = 4096 \<or> y = 8192" and r: "ring_alloc ddlen y dir (di, m) = (ok, di', m')"
    and null: "case dir of DMA_TX \<Rightarrow> p_txd di = 0 | DMA_RX \<Rightarrow> p_rxd di = 0"
  shows "att_inv z m0 (di', m')" "p_txp_dmah di' = p_txp_dmah di" "p_rxp_dmah di' = p_rxp_dmah di" "dir = DMA_TX \<Longrightarrow> p_rxd di' = p_rxd di"
proof -
  define sz where "sz = (case dir of DMA_TX \<Rightarrow> t_ntxd di * ddlen | DMA_RX \<Rightarrow> t_nrxd di * ddlen)"
  define s where "s = (if ISALIGNED DMA_CONSISTENT_ALIGN y then sz else sz + y)"
  obtain t m1 where t: "dma_take s m = (t, m1)" by fastforce
  note r' = r[unfolded ring_alloc_def prod.case Let_def, folded sz_def, folded s_def, unfolded t prod.case]
  show "att_inv z m0 (di', m')"
  proof (cases t)
    case None
    then show ?thesis using r' take_none_step[OF a t[unfolded None]] by simp
  next
    case (Some v)
    obtain va pa where v: "v = (va, pa)" by fastforce
    have t': "dma_take s m = (Some (va, pa), m1)" using t Some v by simp
    have "held z di' = {#(va, s)#} + held z di" "t_dma64 di' = t_dma64 di" "dma64align di' = dma64align di" "m' = m1"
      using r' null ring_not_null[OF a t' y] by (auto simp: Some v held_def block_if_def[of "ROUNDUP va y"] split: direction.splits)
    then show ?thesis using take_step[OF a t'] by blast
  qed
  show "p_txp_dmah di' = p_txp_dmah di" "p_rxp_dmah di' = p_rxp_dmah di" "dir = DMA_TX \<Longrightarrow> p_rxd di' = p_rxd di"
    using r' by (auto split: option.splits prod.splits direction.splits)
qed

lemma null_step:
  "p_txp_dmah di = 0 \<Longrightarrow> att_inv z m0 (di, m) \<Longrightarrow> att_inv z m0 (di\<lparr>p_txp_dmah := 0\<rparr>, m)"
  "p_rxp_dmah di = 0 \<Longrightarrow> att_inv z m0 (di, m) \<Longrightarrow> att_inv z m0 (di\<lparr>p_rxp_dmah := 0\<rparr>, m)"
  by (simp_all add: att_inv_def held_def)

lemma alloc_ptr_leads:
  "leads (att_at 0 z m0) alloc_txp (att_at 1 z m0) (att_inv z m0)" "leads (att_at 1 z m0) alloc_rxp (att_at 2 z m0) (att_inv z m0)"
  "leads (att_at 4 z m0) alloc_txp_dmah (att_at 5 z m0) (att_inv z m0)" "leads (att_at 5 z m0) alloc_rxp_dmah (att_at 6 z m0) (att_inv z m0)"
  by (auto simp: leads_def att_at_def alloc_txp_def alloc_rxp_def alloc_txp_dmah_def alloc_rxp_dmah_def held_def
      split: prod.splits intro: malloc_step null_step)

lemma dma_alloc_step:
  assumes a: "att_inv z m0 (di, m)" and r: "dma_alloc dir (di, m) = (ok, di', m')"
    and null: "case dir of DMA_TX \<Rightarrow> p_txd di = 0 | DMA_RX \<Rightarrow> p_rxd di = 0"
  shows "att_inv z m0 (di', m')" "p_txp_dmah di' = p_txp_dmah di" "p_rxp_dmah di' = p_rxp_dmah di" "dir = DMA_TX \<Longrightarrow> p_rxd di' = p_rxd di"
proof -
  have "\<exists>ddlen y. (y = 4096 \<or> y = 8192) \<and> ring_alloc ddlen y dir (di, m) = (ok, di', m')"
    using a r by (auto simp: dma_alloc_def dma32_alloc_def dma64_alloc_def att_inv_def D32RINGALIGN_def split: if_splits)
  then obtain ddlen y where y: "y = 4096 \<or> y = 8192" "ring_alloc ddlen y dir (di, m) = (ok, di', m')" by blast
  show "att_inv z m0 (di', m')" "p_txp_dmah di' = p_txp_dmah di" "p_rxp_dmah di' = p_rxp_dmah di" "dir = DMA_TX \<Longrightarrow> p_rxd di' = p_rxd di"
    using ring_alloc_step[OF a y null] by auto
qed

lemma alloc_ring_leads:
  "leads (att_at 2 z m0) alloc_txd (att_at 3 z m0) (att_inv z m0)" "leads (att_at 3 z m0) alloc_rxd (att_at 4 z m0) (att_inv z m0)"
  "leads (att_at 4 z m0) check_ext (att_at 4 z m0) (att_inv z m0)"
  by (auto simp: leads_def att_at_def alloc_txd_def alloc_rxd_def check_ext_def split: prod.splits dest: dma_alloc_step)

lemma attach_steps_lead:
  "leads (att_at 0 z m0) (and_then alloc_txp (and_then alloc_rxp (and_then alloc_txd (and_then alloc_rxd (and_then check_ext
     (and_then alloc_txp_dmah alloc_rxp_dmah)))))) (att_at 6 z m0) (att_inv z m0)"
  by (rule leads_then[OF alloc_ptr_leads(1) leads_then[OF alloc_ptr_leads(2) leads_then[OF alloc_ring_leads(1)
      leads_then[OF alloc_ring_leads(2) leads_then[OF alloc_ring_leads(3) leads_then[OF alloc_ptr_leads(3,4)]]]]]])

lemma att_init_at:
  assumes "good_results m0" "MALLOC z m0 = (p, m)" "p \<noteq> 0"
  shows "att_at 0 z m0 (att_init p b64 pci pcie txr rxr ntx nrx bufsz npost off, m)"
  by (cases rule: MALLOC_cases[OF assms(1,2)])
    (use assms(3) in \<open>auto simp: att_at_def att_inv_def held_def att_init_def Let_def D64RINGALIGN_def\<close>)

text \<open>C22: Dma_attach loses no memory: whichever allocation or check fails, all it had allocated is freed again, each
  block with its address and size, and after a successful attach dma_detach frees exactly what attach allocated.
  Nothing is freed twice.\<close>

theorem dma_attach_balanced:
  assumes good: "good_results m" and res: "dma_attach infosz coreflagshi bustype buscoretype txr rxr ntx nrx bufsz npost off m = (r, m')"
  shows "case r of
      None \<Rightarrow> mset (live m') = mset (live m) \<and> bad_free m' = bad_free m
    | Some di \<Rightarrow> mset (live m') = held infosz di + mset (live m) \<and> bad_free m' = bad_free m \<and>
        mset (live (dma_detach infosz di m')) = mset (live m) \<and> bad_free (dma_detach infosz di m') = bad_free m"
proof -
  obtain p m1 where p: "MALLOC infosz m = (p, m1)" by fastforce
  show ?thesis
  proof (cases "p = 0")
    case True
    then show ?thesis using res by (cases rule: MALLOC_cases[OF good p]) (auto simp: dma_attach_def p)
  next
    case False
    let ?steps = "and_then alloc_txp (and_then alloc_rxp (and_then alloc_txd (and_then alloc_rxd (and_then check_ext (and_then alloc_txp_dmah alloc_rxp_dmah)))))"
    let ?di = "att_init p (coreflagshi AND SBTMH_DMA64 = SBTMH_DMA64) (bustype = PCI_BUS) (buscoretype = SB_PCIE) txr rxr ntx nrx bufsz npost off"
    obtain ok di' m2 where st: "?steps (?di, m1) = (ok, di', m2)" by (metis prod_cases3)
    have inv: "att_inv infosz m (di', m2)"
      using leadsD[OF attach_steps_lead att_init_at[OF good p False] st] by (auto simp: att_at_def split: if_splits)
    have r: "r = (if ok then Some di' else None)" "m' = (if ok then m2 else dma_detach infosz di' m2)"
      using res st False by (auto simp: dma_attach_def p Let_def)
    show ?thesis using dma_detach_frees[OF inv] inv by (simp add: r att_inv_def)
  qed
qed

definition example_mem :: "(u32 \<times> u32) option list \<Rightarrow> dma_mem" where
  "example_mem rs = \<lparr>results = rs, live = [], bad_free = False\<rparr>"

theorem dma_attach_balanced_witness:
  "mset (live (snd (dma_attach 300 0x10000000 1 0x820 (Some True) (Some True) 64 64 1600 32 30
      (example_mem [Some (0x100, 0), Some (0x300, 0), Some (0x500, 0), Some (0x5000, 0x5000), None])))) = {#}"
proof -
  let ?m = "example_mem [Some (0x100, 0), Some (0x300, 0), Some (0x500, 0), Some (0x5000, 0x5000), None]"
  let ?a = "dma_attach 300 0x10000000 1 0x820 (Some True) (Some True) 64 64 1600 32 30 ?m"
  have good: "good_results ?m" by (simp add: good_results_def example_mem_def)
  have none: "fst ?a = None" by code_simp
  have res: "?a = (None, snd ?a)" using none by (metis prod.collapse)
  show ?thesis using dma_attach_balanced[OF good res] by (simp add: example_mem_def)
qed

section \<open>The descriptor rings\<close>

definition page_results :: "dma_mem \<Rightarrow> bool" where
  "page_results m = list_all (\<lambda>r. case r of None \<Rightarrow> True | Some (va, pa) \<Rightarrow> unat va mod 4096 = 0) (results m)"

lemma dma_take_page: "page_results m \<Longrightarrow> dma_take sz m = (Some (va, pa), m') \<Longrightarrow> unat va mod 4096 = 0 \<and> (va, sz) \<in> set (live m')"
  by (auto simp: dma_take_def page_results_def split: list.splits option.splits prod.splits)

lemma isaligned_vals: "ISALIGNED DMA_CONSISTENT_ALIGN 4096" "\<not> ISALIGNED DMA_CONSISTENT_ALIGN 8192"
  by (simp_all add: ISALIGNED_def DMA_CONSISTENT_ALIGN_def)

lemma ring_in_block:
  assumes y: "y = 4096 \<or> y = 8192" and va: "unat va + 8192 < 2 ^ 32" "unat va mod 4096 = 0" and n: "unat n * unat d \<le> 8192"
  shows "unat (ROUNDUP va y) + unat n * unat d \<le> unat va + unat (if ISALIGNED DMA_CONSISTENT_ALIGN y then n * d else n * d + y)"
proof -
  have nd: "unat (n * d) = unat n * unat d" using n by (simp add: unat_word_ariths)
  show ?thesis
  proof (cases "y = 4096")
    case True
    have "4096 dvd unat va" using va(2) by (simp add: dvd_eq_mod_eq_0)
    then obtain k where "unat va = k * 4096" by (auto simp: dvd_def)
    then have "(unat va + 4095) div 4096 * 4096 = unat va" by simp
    then have "unat (ROUNDUP va y) = unat va" using ROUNDUP_nat[OF y va(1)] True by simp
    then show ?thesis using nd True by (simp add: isaligned_vals)
  next
    case False
    then have "y = 8192" using y by simp
    moreover have "unat (n * d + 8192) = unat n * unat d + 8192" using nd n by (simp add: unat_word_ariths)
    ultimately show ?thesis using ROUNDUP_ge(2)[OF y va(1)] by (simp add: isaligned_vals)
  qed
qed

definition ring_align :: "dma_att \<Rightarrow> u32" where "ring_align di = (if t_dma64 di then dma64align di else D32RINGALIGN)"
definition ring_ddlen :: "dma_att \<Rightarrow> u32" where "ring_ddlen di = (if t_dma64 di then sizeof_dma64dd else sizeof_dma32dd)"

lemma triple_eqI: "fst r = a \<Longrightarrow> r = (a, fst (snd r), snd (snd r))"
  by (cases r) auto

text \<open>The ring of a direction: its virtual and its bus address, where it starts in its block, the block's size, its descriptors.\<close>

definition ring_va :: "direction \<Rightarrow> dma_att \<Rightarrow> u32" where "ring_va dir di = (case dir of DMA_TX \<Rightarrow> p_txd di | DMA_RX \<Rightarrow> p_rxd di)"
definition ring_pa :: "direction \<Rightarrow> dma_att \<Rightarrow> u32" where "ring_pa dir di = (case dir of DMA_TX \<Rightarrow> t_txdpa di | DMA_RX \<Rightarrow> t_rxdpa di)"
definition ring_off :: "direction \<Rightarrow> dma_att \<Rightarrow> u32" where "ring_off dir di = (case dir of DMA_TX \<Rightarrow> txdalign di | DMA_RX \<Rightarrow> rxdalign di)"
definition ring_blksz :: "direction \<Rightarrow> dma_att \<Rightarrow> u32" where "ring_blksz dir di = (case dir of DMA_TX \<Rightarrow> txdalloc di | DMA_RX \<Rightarrow> rxdalloc di)"
definition ring_nd :: "direction \<Rightarrow> dma_att \<Rightarrow> u32" where "ring_nd dir di = (case dir of DMA_TX \<Rightarrow> t_ntxd di | DMA_RX \<Rightarrow> t_nrxd di)"
definition other_dir :: "direction \<Rightarrow> direction" where "other_dir dir = (case dir of DMA_TX \<Rightarrow> DMA_RX | DMA_RX \<Rightarrow> DMA_TX)"

lemmas ring_sel = ring_va_def ring_pa_def ring_off_def ring_blksz_def ring_nd_def other_dir_def

lemma unat_add_mod:
  assumes "m dvd 2 ^ 32"
  shows "unat (a + b :: u32) mod m = (unat a + unat b) mod m"
  using assms by (simp add: unat_word_ariths mod_mod_cancel)

lemma ring_pa_aligned:
  assumes y: "y = 4096 \<or> y = 8192" and va: "unat va + 8192 < 2 ^ 32" and pa: "unat pa mod unat y = unat va mod unat y"
  shows "unat (pa + (ROUNDUP va y - va)) mod unat y = 0"
proof -
  have d: "unat y dvd 2 ^ 32" using y by auto
  have le: "unat va \<le> unat (ROUNDUP va y)" by (rule ROUNDUP_ge(1)[OF y va])
  then have "unat (ROUNDUP va y - va) = unat (ROUNDUP va y) - unat va" by (simp add: unat_sub_if')
  then have "unat (pa + (ROUNDUP va y - va)) mod unat y = (unat pa + (unat (ROUNDUP va y) - unat va)) mod unat y"
    by (simp add: unat_add_mod[OF d])
  also have "\<dots> = (unat va + (unat (ROUNDUP va y) - unat va)) mod unat y" using pa by (metis mod_add_left_eq)
  finally show ?thesis using le ROUNDUP_ge(3)[OF y va] by simp
qed

text \<open>C23: When memory for DMA comes in whole pages, the descriptor ring that dma_alloc sets up in either direction
  starts at the alignment its engine needs and lies, with all its descriptors, inside the block that was allocated for
  it, whose address and size are kept for freeing it.  The bus address that the engine gets is that of the same place
  of the block, and is aligned as well when bus and virtual addresses agree within the alignment.  The ring of the other
  direction is as before.\<close>

theorem dma_alloc_ring_fits:
  assumes good: "good_results m" "page_results m" and al: "t_dma64 di \<longrightarrow> dma64align di = 4096 \<or> dma64align di = 8192"
    and n: "unat (ring_nd dir di) \<le> 512" and r: "dma_alloc dir (di, m) = (True, di', m')"
  shows "\<exists>va pa. results m = Some (va, pa) # results m' \<and> live m' = (va, ring_blksz dir di') # live m \<and>
    unat (ring_va dir di') mod unat (ring_align di) = 0 \<and> ring_va dir di' - ring_off dir di' = va \<and> unat va \<le> unat (ring_va dir di') \<and>
    unat (ring_va dir di') + unat (ring_nd dir di) * unat (ring_ddlen di) \<le> unat va + unat (ring_blksz dir di') \<and>
    ring_pa dir di' = pa + (ring_va dir di' - va) \<and>
    (unat pa mod unat (ring_align di) = unat va mod unat (ring_align di) \<longrightarrow> unat (ring_pa dir di') mod unat (ring_align di) = 0) \<and>
    ring_va (other_dir dir) di' = ring_va (other_dir dir) di \<and> ring_pa (other_dir dir) di' = ring_pa (other_dir dir) di"
proof -
  let ?y = "ring_align di" and ?d = "ring_ddlen di"
  have y: "?y = 4096 \<or> ?y = 8192" using al by (auto simp: ring_align_def D32RINGALIGN_def)
  have d: "unat (ring_nd dir di) * unat ?d \<le> 8192" using n by (auto simp: ring_ddlen_def sizeof_dma64dd_def sizeof_dma32dd_def)
  define s where "s = (if ISALIGNED DMA_CONSISTENT_ALIGN ?y then ring_nd dir di * ?d else ring_nd dir di * ?d + ?y)"
  have ra: "ring_alloc ?d ?y dir (di, m) = (True, di', m')"
    using r by (simp add: dma_alloc_def dma32_alloc_def dma64_alloc_def ring_align_def ring_ddlen_def split: if_splits)
  have sz: "(case dir of DMA_TX \<Rightarrow> t_ntxd di * ?d | DMA_RX \<Rightarrow> t_nrxd di * ?d) = ring_nd dir di * ?d" by (simp add: ring_nd_def split: direction.splits)
  note ra' = ra[unfolded ring_alloc_def prod.case Let_def sz, folded s_def]
  obtain va pa where t: "dma_take s m = (Some (va, pa), m')" using ra' by (auto split: option.splits prod.splits)
  have di': "ring_va dir di' = ROUNDUP va ?y" "ring_off dir di' = ROUNDUP va ?y - va" "ring_blksz dir di' = s"
      "ring_pa dir di' = pa + (ROUNDUP va ?y - va)" "ring_va (other_dir dir) di' = ring_va (other_dir dir) di"
      "ring_pa (other_dir dir) di' = ring_pa (other_dir dir) di"
    using ra' unfolding t prod.case option.case by (cases dir; auto simp: ring_sel)+
  have va: "unat va + 8192 < 2 ^ 32" by (rule dma_take_cases[OF good(1) t]) simp_all
  have m': "results m = Some (va, pa) # results m'" "live m' = (va, s) # live m"
    using t by (auto simp: dma_take_def split: list.splits option.splits prod.splits)
  note pg = conjunct1[OF dma_take_page[OF good(2) t]]
  show ?thesis
    using m' ROUNDUP_ge[OF y va] ring_in_block[OF y va pg d] ring_pa_aligned[OF y va, of pa]
    by (intro exI[of _ va] exI[of _ pa]) (simp add: di' s_def)
qed

text \<open>The 64-bit engine with 300 receive descriptors: the block is 12992 bytes at 0xa0005000, the ring starts at 0xa0006000.\<close>

theorem dma_alloc_ring_fits_witness:
  "\<exists>di' m'. dma_alloc DMA_RX (att_init 0x100 True True True (Some True) None 4 300 1600 2 30, example_mem [Some (0xa0005000, 0x5000)]) = (True, di', m') \<and>
     unat (ring_va DMA_RX di') mod 8192 = 0 \<and> ring_pa DMA_RX di' = 0x5000 + (ring_va DMA_RX di' - 0xa0005000) \<and>
     unat (ring_va DMA_RX di') + 300 * 16 \<le> 0xa0005000 + unat (ring_blksz DMA_RX di')"
proof -
  let ?di = "att_init 0x100 True True True (Some True) None 4 300 1600 2 30" and ?m = "example_mem [Some (0xa0005000, 0x5000)]"
  let ?r = "dma_alloc DMA_RX (?di, ?m)"
  have good: "good_results ?m" by (simp add: good_results_def example_mem_def)
  have page: "page_results ?m" by (simp add: page_results_def example_mem_def)
  have c: "ring_align ?di = 8192" "ring_ddlen ?di = 16" "ring_nd DMA_RX ?di = 300" "t_dma64 ?di" "dma64align ?di = 8192"
    by (simp_all add: ring_align_def ring_ddlen_def att_init_def Let_def D64RINGALIGN_def sizeof_dma64dd_def ring_nd_def D64MAXDD_def D64MAXRINGSZ_def)
  have n: "unat (ring_nd DMA_RX ?di) \<le> 512" by (simp add: c)
  have ok: "fst ?r = True" by (simp add: dma_alloc_def dma64_alloc_def dma32_alloc_def ring_alloc_def Let_def dma_take_def example_mem_def)
  note r = triple_eqI[OF ok]
  show ?thesis using dma_alloc_ring_fits[OF good page _ n r] r unfolding c
    by (intro exI[of _ "fst (snd ?r)"] exI[of _ "snd (snd ?r)"]) (auto simp: example_mem_def)
qed

end
