(* ===== verification/Cfe_Tcpbuf.thy ===== *)
theory Cfe_Tcpbuf
  imports Prelude "HOL-Library.Signed_Division"
begin

text \<open>
  The modulo buffer of the boot loader's TCP, src/broadcom/src/cfe/cfe/net/net_tcpbuf.c: bytes are added at one
  pointer and removed at another, both wrap at the size of the buffer.  A copy that would leave the buffer or
  the memory of the caller is None.
\<close>

section \<open>Model\<close>

record tcpmodbuf =
  tmb_buf :: "u8 list option"
  tmb_bufsize :: int
  tmb_addptr :: int
  tmb_remptr :: int
  tmb_len :: int

definition tmb_remlen :: "tcpmodbuf \<Rightarrow> int" where "tmb_remlen t = tmb_bufsize t - tmb_len t"
definition tmb_curlen :: "tcpmodbuf \<Rightarrow> int" where "tmb_curlen t = tmb_len t"

text \<open>memcpy into and out of the buffer at an offset.\<close>

definition store_bytes :: "tcpmodbuf \<Rightarrow> int \<Rightarrow> u8 list \<Rightarrow> int \<Rightarrow> tcpmodbuf option" where
  "store_bytes t off src l = (case tmb_buf t of None \<Rightarrow> None
     | Some b \<Rightarrow> if 0 \<le> l \<and> 0 \<le> off \<and> off + l \<le> int (length b) \<and> l \<le> int (length src)
         then Some (t\<lparr>tmb_buf := Some (take (nat off) b @ take (nat l) src @ drop (nat (off + l)) b)\<rparr>) else None)"

definition fetch_bytes :: "tcpmodbuf \<Rightarrow> int \<Rightarrow> int \<Rightarrow> u8 list option" where
  "fetch_bytes t off l = (case tmb_buf t of None \<Rightarrow> None
     | Some b \<Rightarrow> if 0 \<le> l \<and> 0 \<le> off \<and> off + l \<le> int (length b) then Some (take (nat l) (drop (nat off) b)) else None)"

definition tmb_init :: "tcpmodbuf \<Rightarrow> tcpmodbuf" where
  "tmb_init t = t\<lparr>tmb_addptr := 0, tmb_remptr := 0, tmb_len := 0\<rparr>"

definition tmb_adjust :: "tcpmodbuf \<Rightarrow> int \<Rightarrow> tcpmodbuf" where
  "tmb_adjust t amt = t\<lparr>tmb_len := tmb_len t - amt, tmb_remptr := (tmb_remptr t + amt) smod tmb_bufsize t\<rparr>"

text \<open>\<open>mem\<close>: the block KMALLOC returns, or None.\<close>

definition tmb_alloc :: "u8 list option \<Rightarrow> tcpmodbuf \<Rightarrow> int \<Rightarrow> int \<times> tcpmodbuf" where
  "tmb_alloc mem t sz = (let t = t\<lparr>tmb_buf := mem\<rparr> in
     if mem = None then (-1, t) else (0, tmb_init (t\<lparr>tmb_bufsize := sz\<rparr>)))"

definition tmb_free :: "tcpmodbuf \<Rightarrow> tcpmodbuf" where "tmb_free t = t\<lparr>tmb_buf := None\<rparr>"

definition tmb_copyin :: "tcpmodbuf \<Rightarrow> u8 list \<Rightarrow> int \<Rightarrow> bool \<Rightarrow> (int \<times> tcpmodbuf) option" where
  "tmb_copyin t buf len update = (if len = 0 then Some (0, t)
     else let maxlen = min (tmb_bufsize t - tmb_len t) len; retlen = maxlen;
              l = min (tmb_bufsize t - tmb_addptr t) maxlen
       in Option.bind (store_bytes t (tmb_addptr t) buf l) (\<lambda>t.
          let maxlen = maxlen - l; buf = drop (nat l) buf in
          Option.bind (if maxlen \<noteq> 0 then store_bytes t 0 buf maxlen else Some t) (\<lambda>t.
          let newptr = (if maxlen \<noteq> 0 then maxlen else tmb_addptr t + l) in
          Some (retlen, if update then t\<lparr>tmb_len := tmb_len t + retlen, tmb_addptr := newptr\<rparr> else t))))"

text \<open>The bytes that are written to the caller's buffer are the result.\<close>

definition tmb_copyout :: "tcpmodbuf \<Rightarrow> int \<Rightarrow> bool \<Rightarrow> (int \<times> u8 list \<times> tcpmodbuf) option" where
  "tmb_copyout t len update = (let maxlen = min (tmb_len t) len; retlen = maxlen; l = min (tmb_bufsize t - tmb_remptr t) maxlen in
     Option.bind (fetch_bytes t (tmb_remptr t) l) (\<lambda>out.
     let maxlen = maxlen - l in
     Option.bind (if maxlen \<noteq> 0 then fetch_bytes t 0 maxlen else Some []) (\<lambda>out2.
     let newptr = (if maxlen \<noteq> 0 then maxlen else tmb_remptr t + l) in
     Some (retlen, out @ out2, if update then t\<lparr>tmb_len := tmb_len t - retlen, tmb_remptr := newptr\<rparr> else t))))"

definition tmb_copyout2 :: "tcpmodbuf \<Rightarrow> int \<Rightarrow> int \<Rightarrow> (int \<times> u8 list) option" where
  "tmb_copyout2 t offset len = (let maxlen = tmb_len t - offset in
     if maxlen \<le> 0 then Some (0, [])
     else let maxlen = min maxlen len; retlen = maxlen; remptr = (tmb_remptr t + offset) smod tmb_bufsize t;
              l = min (tmb_bufsize t - remptr) maxlen in
       Option.bind (fetch_bytes t remptr l) (\<lambda>out.
       let maxlen = maxlen - l in
       Option.bind (if maxlen \<noteq> 0 then fetch_bytes t 0 maxlen else Some []) (\<lambda>out2. Some (retlen, out @ out2))))"

section \<open>The buffer as a queue of bytes\<close>

text \<open>The bytes in the buffer, from the remove pointer on.\<close>

definition tmb_view :: "tcpmodbuf \<Rightarrow> u8 list" where
  "tmb_view t = (case tmb_buf t of None \<Rightarrow> [] | Some b \<Rightarrow> rotate (nat (tmb_remptr t)) b)"

definition tmb_data :: "tcpmodbuf \<Rightarrow> u8 list" where "tmb_data t = take (nat (tmb_len t)) (tmb_view t)"

definition tmb_inv :: "tcpmodbuf \<Rightarrow> bool" where
  "tmb_inv t = (case tmb_buf t of None \<Rightarrow> False | Some b \<Rightarrow> 0 < tmb_bufsize t \<and> int (length b) = tmb_bufsize t \<and>
     0 \<le> tmb_len t \<and> tmb_len t \<le> tmb_bufsize t \<and> 0 \<le> tmb_remptr t \<and> tmb_remptr t \<le> tmb_bufsize t \<and>
     0 \<le> tmb_addptr t \<and> tmb_addptr t \<le> tmb_bufsize t \<and>
     (tmb_remptr t + tmb_len t) mod tmb_bufsize t = tmb_addptr t mod tmb_bufsize t)"

lemma rotate_le: "r \<le> length b \<Longrightarrow> rotate r b = drop r b @ take r b"
  by (cases "r = length b") (simp_all add: rotate_drop_take)

lemma wrap_read:
  assumes "r \<le> length b" "k \<le> length b"
  shows "take (min (length b - r) k) (drop r b) @ take (k - min (length b - r) k) b = take k (rotate r b)"
  using assms by (auto simp: rotate_le min_def)

text \<open>Writing \<open>k\<close> bytes at \<open>a\<close> with wrap-around.\<close>

definition wrap_write :: "nat \<Rightarrow> nat \<Rightarrow> 'a list \<Rightarrow> 'a list \<Rightarrow> 'a list" where
  "wrap_write a k src b = (let l = min (length b - a) k; b1 = take a b @ take l src @ drop (a + l) b in
     take (k - l) (drop l src) @ drop (k - l) b1)"

lemma length_wrap_write: "a \<le> length b \<Longrightarrow> k \<le> length b \<Longrightarrow> k \<le> length src \<Longrightarrow> length (wrap_write a k src b) = length b"
  by (cases "k \<le> length b - a") (simp_all add: wrap_write_def Let_def)

lemma rotate_wrap_write:
  assumes "a \<le> length b" "k \<le> length b" "k \<le> length src"
  shows "rotate a (wrap_write a k src b) = take k src @ drop k (rotate a b)"
proof (cases "k \<le> length b - a")
  case True
  have "wrap_write a k src b = take a b @ (take k src @ drop (a + k) b)" using True assms by (simp add: wrap_write_def Let_def)
  then have "rotate a (wrap_write a k src b) = (take k src @ drop (a + k) b) @ take a b"
    using rotate_append[of "take a b" "take k src @ drop (a + k) b"] assms(1) by simp
  then show ?thesis using True assms by (simp add: rotate_le add.commute)
next
  case False
  let ?l = "length b - a"
  have "wrap_write a k src b = take (k - ?l) (drop ?l src) @ drop (k - ?l) (take a b) @ take ?l src"
    using False assms by (simp add: wrap_write_def Let_def min_def)
  moreover have "take a (take (k - ?l) (drop ?l src) @ drop (k - ?l) (take a b) @ take ?l src) = take (k - ?l) (drop ?l src) @ drop (k - ?l) (take a b)"
    using False assms by simp
  moreover have "drop a (take (k - ?l) (drop ?l src) @ drop (k - ?l) (take a b) @ take ?l src) = take ?l src"
    using False assms by simp
  moreover have "take ?l src @ take (k - ?l) (drop ?l src) = take k src"
    using False by (simp flip: take_add)
  ultimately show ?thesis using False assms length_wrap_write[OF assms] by (simp add: rotate_le)
qed

text \<open>The same seen from another pointer, \<open>n\<close> places before.\<close>

lemma wrap_write_view:
  assumes "(r + n) mod length b = a mod length b" "a \<le> length b" "r \<le> length b" "n + k \<le> length b" "k \<le> length src"
  shows "rotate r (wrap_write a k src b) = take n (rotate r b) @ take k src @ drop (n + k) (rotate r b)"
proof -
  let ?b = "wrap_write a k src b" and ?v = "rotate r b"
  have k: "k \<le> length b" using assms(4) by simp
  note len = length_wrap_write[OF assms(2) k assms(5)]
  have conv: "rotate a c = rotate n (rotate r c)" if "length c = length b" for c :: "'a list"
    using rotate_conv_mod[of a c] rotate_conv_mod[of "r + n" c] assms(1) that by (simp add: rotate_rotate add.commute)
  have "rotate n (rotate r ?b) = take k src @ drop k (rotate n ?v)"
    using rotate_wrap_write[OF assms(2) k assms(5)] conv[OF len] conv[of b] by simp
  then have "drop n (rotate r ?b) @ take n (rotate r ?b) = (take k src @ drop k (drop n ?v)) @ take n ?v"
    using assms(4) len by (simp add: rotate_le)
  moreover have "length (drop n (rotate r ?b)) = length (take k src @ drop k (drop n ?v))" using assms(4,5) len by simp
  ultimately have "drop n (rotate r ?b) = take k src @ drop k (drop n ?v)" "take n (rotate r ?b) = take n ?v"
    by (metis append_eq_append_conv)+
  then show ?thesis by (metis append_take_drop_id drop_drop add.commute)
qed

section \<open>The operations on the queue\<close>

lemma tmb_invE:
  assumes "tmb_inv t"
  obtains b a r n where "tmb_buf t = Some b" "tmb_bufsize t = int (length b)" "tmb_addptr t = int a" "tmb_remptr t = int r" "tmb_len t = int n"
    "0 < length b" "a \<le> length b" "r \<le> length b" "n \<le> length b" "(r + n) mod length b = a mod length b"
proof -
  obtain b where b: "tmb_buf t = Some b" using assms by (auto simp: tmb_inv_def split: option.splits)
  note i = assms[unfolded tmb_inv_def b option.case]
  have "int ((nat (tmb_remptr t) + nat (tmb_len t)) mod length b) = int (nat (tmb_addptr t) mod length b)"
    using i by (simp add: zmod_int)
  then have "(nat (tmb_remptr t) + nat (tmb_len t)) mod length b = nat (tmb_addptr t) mod length b" by (simp only: of_nat_eq_iff)
  with b i show thesis by (intro that[of b "nat (tmb_addptr t)" "nat (tmb_remptr t)" "nat (tmb_len t)"]) auto
qed

lemma tmb_invI:
  assumes "tmb_buf t = Some b" "tmb_bufsize t = int (length b)" "tmb_addptr t = int a" "tmb_remptr t = int r" "tmb_len t = int n"
    "0 < length b" "a \<le> length b" "r \<le> length b" "n \<le> length b" "(r + n) mod length b = a mod length b"
  shows "tmb_inv t"
  using assms by (simp add: tmb_inv_def flip: of_nat_add zmod_int)

lemma tmb_data_eq: "tmb_buf t = Some b \<Longrightarrow> tmb_remptr t = int r \<Longrightarrow> tmb_len t = int n \<Longrightarrow> tmb_data t = take n (rotate r b)"
  by (simp add: tmb_data_def tmb_view_def)

text \<open>The two copies into the buffer are one write with wrap-around.\<close>

lemma store_at:
  assumes "tmb_buf t = Some b" "off + l \<le> length b" "l \<le> length src"
  shows "store_bytes t (int off) src (int l) = Some (t\<lparr>tmb_buf := Some (take off b @ take l src @ drop (off + l) b)\<rparr>)"
  using assms by (simp add: store_bytes_def nat_add_distrib)

lemma fetch_at:
  assumes "tmb_buf t = Some b" "off + l \<le> length b"
  shows "fetch_bytes t (int off) (int l) = Some (take l (drop off b))"
  using assms by (simp add: fetch_bytes_def)

lemma store_bytes_sel:
  "store_bytes t off src l = Some t1 \<Longrightarrow> tmb_addptr t1 = tmb_addptr t \<and> tmb_remptr t1 = tmb_remptr t \<and> tmb_len t1 = tmb_len t \<and> tmb_bufsize t1 = tmb_bufsize t"
  by (auto simp: store_bytes_def split: option.splits if_splits)

lemma store_wrap:
  assumes b: "tmb_buf t = Some b" and le: "a \<le> length b" "k \<le> length b" "k \<le> length src" and l: "l = min (length b - a) k"
  shows "Option.bind (store_bytes t (int a) src (int l)) (\<lambda>t.
      if int k - int l \<noteq> 0 then store_bytes t 0 (drop l src) (int k - int l) else Some t) = Some (t\<lparr>tmb_buf := Some (wrap_write a k src b)\<rparr>)"
proof -
  have ll: "l \<le> k" "a + l \<le> length b" "l \<le> length src" using l le by auto
  let ?b = "take a b @ take l src @ drop (a + l) b"
  have d: "int k - int l = int (k - l)" using ll by simp
  have len: "length ?b = length b" using ll by simp
  have "store_bytes (t\<lparr>tmb_buf := Some ?b\<rparr>) (int 0) (drop l src) (int (k - l)) = Some (t\<lparr>tmb_buf := Some (take (k - l) (drop l src) @ drop (k - l) ?b)\<rparr>)"
    using store_at[of "t\<lparr>tmb_buf := Some ?b\<rparr>" ?b 0 "k - l" "drop l src"] len le by simp
  moreover have "k = l \<Longrightarrow> wrap_write a k src b = ?b" unfolding wrap_write_def Let_def l[symmetric] by simp
  ultimately show ?thesis unfolding d store_at[OF b ll(2,3)] 
    unfolding wrap_write_def Let_def l[symmetric] by (simp del: of_nat_diff drop_append)
qed

lemma fetch_wrap:
  assumes b: "tmb_buf t = Some b" and le: "r \<le> length b" "k \<le> length b" and l: "l = min (length b - r) k"
  shows "fetch_bytes t (int r) (int l) = Some (take l (drop r b))"
    "(if int k - int l \<noteq> 0 then fetch_bytes t 0 (int k - int l) else Some []) = Some (take (k - l) b)"
    "take l (drop r b) @ take (k - l) b = take k (rotate r b)"
proof -
  have ll: "l \<le> k" "r + l \<le> length b" "int k - int l = int (k - l)" using l le by auto
  show "fetch_bytes t (int r) (int l) = Some (take l (drop r b))" by (rule fetch_at[OF b ll(2)])
  show "(if int k - int l \<noteq> 0 then fetch_bytes t 0 (int k - int l) else Some []) = Some (take (k - l) b)"
    using fetch_at[OF b, of 0 "k - l"] le unfolding ll(3) by (simp del: of_nat_diff)
  show "take l (drop r b) @ take (k - l) b = take k (rotate r b)" unfolding l by (rule wrap_read[OF le])
qed

lemma ptr_wrap: "a \<le> N \<Longrightarrow> 0 < N \<Longrightarrow> k \<le> N \<Longrightarrow> l = min (N - a) k \<Longrightarrow>
    (if k \<noteq> l then k - l else a + l) \<le> N \<and> (if k \<noteq> l then k - l else a + l) mod N = (a + k) mod (N :: nat)"
  by (auto simp: min_def le_mod_geq add.commute split: if_splits)

lemma tmb_copyin_queue:
  assumes inv: "tmb_inv t" and len: "0 \<le> len" "len \<le> int (length src)" and k: "k = min (tmb_bufsize t - tmb_len t) len"
  shows "\<exists>t'. tmb_copyin t src len update = Some (k, t') \<and> tmb_inv t' \<and> tmb_bufsize t' = tmb_bufsize t \<and>
    tmb_data t' = tmb_data t @ (if update then take (nat k) src else [])"
proof (cases "len = 0")
  case True
  then show ?thesis using inv k by (auto simp: tmb_copyin_def tmb_inv_def split: option.splits)
next
  case False
  obtain b a r n where t: "tmb_buf t = Some b" "tmb_bufsize t = int (length b)" "tmb_addptr t = int a" "tmb_remptr t = int r" "tmb_len t = int n"
    "0 < length b" "a \<le> length b" "r \<le> length b" "n \<le> length b" "(r + n) mod length b = a mod length b"
    by (rule tmb_invE[OF inv])
  define m where "m = min (length b - n) (nat len)"
  define l where "l = min (length b - a) m"
  have m: "k = int m" "m \<le> length b" "m \<le> length src" "n + m \<le> length b" using len k t by (auto simp: m_def)
  have il: "min (int (length b) - int a) (int m) = int l" using t m by (auto simp: l_def)
  have km: "min (int (length b) - int n) len = int m" using t m k by simp
  let ?w = "wrap_write a m src b"
  let ?t = "t\<lparr>tmb_buf := Some ?w\<rparr>" let ?p = "if m \<noteq> l then m - l else a + l"
  have ip: "int ?p = (if int m - int l \<noteq> 0 then int m - int l else int a + int l)" by (auto simp: l_def)
  have get: "tmb_copyin t src len update = Some (k, if update then ?t\<lparr>tmb_len := int n + int m, tmb_addptr := int ?p\<rparr> else ?t)"
  proof -
    have nz: "len \<noteq> 0" by (rule False)
    have dl: "drop (nat (int l)) src = drop l src" by simp
    note sw = store_wrap[OF t(1,7) m(2,3) l_def]
    obtain t1 where t1: "store_bytes t (int a) src (int l) = Some t1" using sw by (cases "store_bytes t (int a) src (int l)") auto
    have t2: "(if int m - int l \<noteq> 0 then store_bytes t1 0 (drop l src) (int m - int l) else Some t1) = Some ?t" using sw t1 by simp
    show ?thesis
      unfolding tmb_copyin_def Let_def if_not_P[OF nz] t(2,3,5) km il t1 bind.bind_lunit dl t2 m(1)
      using t ip store_bytes_sel[OF t1] by simp
  qed
  note p = ptr_wrap[OF t(7,6) m(2) l_def]
  have view: "rotate r ?w = take n (rotate r b) @ take m src @ drop (n + m) (rotate r b)"
    by (rule wrap_write_view[OF t(10,7,8) m(4,3)])
  have len: "length ?w = length b" by (rule length_wrap_write[OF t(7) m(2,3)])
  show ?thesis
  proof (cases update)
    case True
    have "(r + (n + m)) mod length b = (a + m) mod length b" using t(10) by (metis add.assoc mod_add_left_eq)
    then have "tmb_inv (?t\<lparr>tmb_len := int n + int m, tmb_addptr := int ?p\<rparr>)"
      using t m p len by (intro tmb_invI[of _ ?w ?p r "n + m"]) auto
    moreover have "tmb_data (?t\<lparr>tmb_len := int n + int m, tmb_addptr := int ?p\<rparr>) = tmb_data t @ take m src"
      using view t m by (simp add: tmb_data_eq[of _ ?w r "n + m"] tmb_data_eq[of t b r n])
    ultimately show ?thesis using get True m(1) t by auto
  next
    case False
    have "tmb_inv ?t" using t len by (intro tmb_invI[of _ ?w a r n]) auto
    moreover have "tmb_data ?t = tmb_data t" using view t by (simp add: tmb_data_eq[of _ ?w r n] tmb_data_eq[of t b r n])
    ultimately show ?thesis using get False t by auto
  qed
qed

text \<open>Moving the remove pointer ahead drops bytes at the front.\<close>

lemma tmb_advance:
  assumes inv: "tmb_inv t" and t: "tmb_buf t = Some b" "tmb_remptr t = int r" "tmb_len t = int n"
    and p: "p \<le> length b" "p mod length b = (r + m) mod length b" and m: "m \<le> n"
  shows "tmb_inv (t\<lparr>tmb_len := int (n - m), tmb_remptr := int p\<rparr>)"
    "tmb_data (t\<lparr>tmb_len := int (n - m), tmb_remptr := int p\<rparr>) = drop m (tmb_data t)"
proof -
  obtain a where a: "tmb_bufsize t = int (length b)" "tmb_addptr t = int a" "0 < length b" "a \<le> length b" "r \<le> length b" "n \<le> length b"
    "(r + n) mod length b = a mod length b"
    by (rule tmb_invE[OF inv]) (use t in auto)
  have "(p + (n - m)) mod length b = (r + m + (n - m)) mod length b" using p(2) by (metis mod_add_left_eq)
  then have "(p + (n - m)) mod length b = a mod length b" using a(7) m by simp
  then show "tmb_inv (t\<lparr>tmb_len := int (n - m), tmb_remptr := int p\<rparr>)"
    using t a p by (intro tmb_invI[of _ b a p "n - m"]) auto
  define v where "v = rotate r b"
  have len: "length v = length b" by (simp add: v_def)
  have "rotate p b = rotate m v" unfolding v_def by (metis p(2) rotate_conv_mod rotate_rotate add.commute)
  then have "take (n - m) (rotate p b) = drop m (take n v)" using a m using rotate_le[of m v] by (simp add: drop_take len)
  then have "take (n - m) (rotate p b) = drop m (take n (rotate r b))" by (simp only: v_def)
  then show "tmb_data (t\<lparr>tmb_len := int (n - m), tmb_remptr := int p\<rparr>) = drop m (tmb_data t)"
    using t by (simp add: tmb_data_eq[of _ b p "n - m"] tmb_data_eq[of t b r n])
qed

lemma length_tmb_data: "tmb_inv t \<Longrightarrow> length (tmb_data t) = nat (tmb_len t)"
  by (erule tmb_invE) (simp add: tmb_data_eq)

lemma tmb_copyout_queue:
  assumes inv: "tmb_inv t" and len: "0 \<le> len" and k: "k = min (tmb_len t) len"
  shows "\<exists>t'. tmb_copyout t len update = Some (k, take (nat k) (tmb_data t), t') \<and> tmb_inv t' \<and> tmb_bufsize t' = tmb_bufsize t \<and>
    tmb_data t' = (if update then drop (nat k) (tmb_data t) else tmb_data t)"
proof -
  obtain b a r n where t: "tmb_buf t = Some b" "tmb_bufsize t = int (length b)" "tmb_addptr t = int a" "tmb_remptr t = int r" "tmb_len t = int n"
    "0 < length b" "a \<le> length b" "r \<le> length b" "n \<le> length b" "(r + n) mod length b = a mod length b"
    by (rule tmb_invE[OF inv])
  define m where "m = min n (nat len)"
  define l where "l = min (length b - r) m"
  have m: "k = int m" "m \<le> length b" "m \<le> n" using len k t by (auto simp: m_def)
  have il: "min (int (length b) - int r) (int m) = int l" using t m by (auto simp: l_def)
  have km: "min (int n) len = int m" using t m k by simp
  let ?p = "if m \<noteq> l then m - l else r + l" let ?t = "t\<lparr>tmb_len := int (n - m), tmb_remptr := int ?p\<rparr>"
  have ip: "(if int m - int l \<noteq> 0 then int m - int l else int r + int l) = int ?p" by (auto simp: l_def)
  have nm: "int n - int m = int (n - m)" using m by simp
  note f = fetch_wrap[OF t(1,8) m(2) l_def]
  have "tmb_copyout t len update = Some (k, take m (rotate r b), if update then ?t else t)"
    unfolding tmb_copyout_def Let_def t(2,4,5) km il f(1,2) bind.bind_lunit f(3) ip nm m(1) ..
  moreover have "take m (rotate r b) = take (nat k) (tmb_data t)" using t m by (simp add: tmb_data_eq[of t b r n] min_def)
  moreover note p = ptr_wrap[OF t(8,6) m(2) l_def]
  moreover have "tmb_inv ?t" "tmb_data ?t = drop m (tmb_data t)"
    using tmb_advance[OF inv t(1,4,5) p[THEN conjunct1] p[THEN conjunct2] m(3)] by simp_all
  ultimately show ?thesis using inv m(1) by (cases update) auto
qed

lemma smod_nonneg: "0 \<le> a \<Longrightarrow> 0 < b \<Longrightarrow> a smod b = a mod (b :: int)"
  by (cases "a = 0") (auto simp: signed_modulo_int_def)

lemma tmb_copyout2_queue:
  assumes inv: "tmb_inv t" and le: "0 \<le> offset" "0 \<le> len"
  shows "tmb_copyout2 t offset len = Some (max 0 (min (tmb_len t - offset) len), take (nat len) (drop (nat offset) (tmb_data t)))"
proof (cases "tmb_len t - offset \<le> 0")
  case True
  then show ?thesis using length_tmb_data[OF inv] le by (simp add: tmb_copyout2_def)
next
  case False
  obtain b a r n where t: "tmb_buf t = Some b" "tmb_bufsize t = int (length b)" "tmb_addptr t = int a" "tmb_remptr t = int r" "tmb_len t = int n"
    "0 < length b" "a \<le> length b" "r \<le> length b" "n \<le> length b" "(r + n) mod length b = a mod length b"
    by (rule tmb_invE[OF inv])
  define d where "d = nat offset"
  have d: "offset = int d" "d < n" using False le t by (auto simp: d_def)
  define q where "q = (r + d) mod length b"
  define m where "m = min (n - d) (nat len)"
  define l where "l = min (length b - q) m"
  have q: "q \<le> length b" "q < length b" using t by (simp_all add: q_def less_imp_le)
  have m: "min (int n - int d) len = int m" "m \<le> length b" "m \<le> n - d" using le d t by (auto simp: m_def)
  have iq: "(int r + int d) smod int (length b) = int q" using t by (simp add: q_def smod_nonneg zmod_int)
  have il: "min (int (length b) - int q) (int m) = int l" using q m by (auto simp: l_def)
  have pos: "\<not> int n - int d \<le> 0" using d by simp
  note f = fetch_wrap[OF t(1) q(1) m(2) l_def]
  have "tmb_copyout2 t offset len = Some (int m, take m (rotate q b))"
    unfolding tmb_copyout2_def Let_def d(1) t(2,4,5) if_not_P[OF pos] m(1) iq il f(1,2) bind.bind_lunit f(3) ..
  moreover have "rotate q b = rotate d (rotate r b)" by (metis q_def rotate_conv_mod rotate_rotate add.commute mod_mod_trivial)
  then have "take m (rotate q b) = take m (drop d (rotate r b))" using d t m by (simp add: rotate_le)
  then have "take m (rotate q b) = take (nat len) (drop d (tmb_data t))"
    using t m d by (simp add: tmb_data_eq[of t b r n] drop_take m_def min_def)
  moreover have "max 0 (min (tmb_len t - offset) len) = int m" using m(1) t d by (simp add: max_def)
  ultimately show ?thesis by (simp add: d_def)
qed

lemma tmb_adjust_queue:
  assumes inv: "tmb_inv t" and amt: "0 \<le> amt" "amt \<le> tmb_len t"
  shows "tmb_inv (tmb_adjust t amt)" "tmb_data (tmb_adjust t amt) = drop (nat amt) (tmb_data t)"
proof -
  obtain b a r n where t: "tmb_buf t = Some b" "tmb_bufsize t = int (length b)" "tmb_addptr t = int a" "tmb_remptr t = int r" "tmb_len t = int n"
    "0 < length b" "a \<le> length b" "r \<le> length b" "n \<le> length b" "(r + n) mod length b = a mod length b"
    by (rule tmb_invE[OF inv])
  define m where "m = nat amt"
  have m: "amt = int m" "m \<le> n" using amt t by (auto simp: m_def)
  have "(int r + int m) smod int (length b) = int ((r + m) mod length b)" using t by (simp add: smod_nonneg zmod_int)
  then have "tmb_adjust t amt = t\<lparr>tmb_len := int (n - m), tmb_remptr := int ((r + m) mod length b)\<rparr>"
    using t m by (simp add: tmb_adjust_def)
  then show "tmb_inv (tmb_adjust t amt)" "tmb_data (tmb_adjust t amt) = drop (nat amt) (tmb_data t)"
    using tmb_advance[OF inv t(1,4,5), of "(r + m) mod length b" m] t m by (simp_all add: less_imp_le)
qed

lemma tmb_alloc_queue:
  assumes "0 < sz" "mem = None \<or> (\<exists>b. mem = Some b \<and> int (length b) = sz)" "tmb_alloc mem t sz = (r, t')"
  shows "r = (if mem = None then -1 else 0)" "r = 0 \<Longrightarrow> tmb_inv t' \<and> tmb_data t' = [] \<and> tmb_bufsize t' = sz"
  using assms by (auto simp: tmb_alloc_def tmb_init_def tmb_inv_def tmb_data_def Let_def split: if_splits)

section \<open>The contract of a byte queue\<close>

text \<open>
  Callers use the buffer as a queue of bounded size: a put accepts the bytes that fit and says how many, a get returns
  the oldest bytes, as many as it asked for and there are.  \<open>queue_run\<close> is the specification: the count and the bytes
  that each call of a sequence returns, and the bytes that are left.  \<open>fifo_run\<close> makes the same calls of a provider.
\<close>

datatype 'a fifo_op = Put "'a list" | Get nat

fun queue_run :: "nat \<Rightarrow> 'a fifo_op list \<Rightarrow> 'a list \<Rightarrow> (int \<times> 'a list) list \<times> 'a list" where
  "queue_run c [] q = ([], q)"
| "queue_run c (Put xs # ops) q = (let k = min (c - length q) (length xs); (rs, q') = queue_run c ops (q @ take k xs) in ((int k, []) # rs, q'))"
| "queue_run c (Get n # ops) q = (let k = min (length q) n; (rs, q') = queue_run c ops (drop k q) in ((int k, take k q) # rs, q'))"

fun fifo_run :: "('s \<Rightarrow> 'a list \<Rightarrow> (int \<times> 's) option) \<Rightarrow> ('s \<Rightarrow> int \<Rightarrow> (int \<times> 'a list \<times> 's) option) \<Rightarrow>
    'a fifo_op list \<Rightarrow> 's \<Rightarrow> ((int \<times> 'a list) list \<times> 's) option" where
  "fifo_run put get [] s = Some ([], s)"
| "fifo_run put get (Put xs # ops) s = Option.bind (put s xs) (\<lambda>(k, s).
     Option.bind (fifo_run put get ops s) (\<lambda>(rs, s). Some ((k, []) # rs, s)))"
| "fifo_run put get (Get n # ops) s = Option.bind (get s (int n)) (\<lambda>(k, ys, s).
     Option.bind (fifo_run put get ops s) (\<lambda>(rs, s). Some ((k, ys) # rs, s)))"

text \<open>The bytes that a sequence of calls accepts and those it hands out.\<close>

fun accepted :: "'a fifo_op list \<Rightarrow> (int \<times> 'a list) list \<Rightarrow> 'a list" where
  "accepted (Put xs # ops) ((k, _) # rs) = take (nat k) xs @ accepted ops rs"
| "accepted (Get n # ops) (_ # rs) = accepted ops rs"
| "accepted _ _ = []"

lemma queue_run_conserves:
  assumes "queue_run c ops q = (rs, q')"
  shows "q @ accepted ops rs = concat (map snd rs) @ q'"
  using assms
proof (induction c ops q arbitrary: rs q' rule: queue_run.induct)
  case (3 c n ops q)
  obtain rs1 where r: "queue_run c ops (drop (min (length q) n) q) = (rs1, q')" "rs = (int (min (length q) n), take (min (length q) n) q) # rs1"
    using "3.prems" by (auto simp: Let_def split: prod.splits)
  have "q @ accepted ops rs1 = take (min (length q) n) q @ concat (map snd rs1) @ q'"
    using "3.IH"[OF refl r(1)] by (metis append.assoc append_take_drop_id)
  then show ?case by (simp add: r(2))
qed (auto simp: Let_def split: prod.splits)

lemma queue_run_bounded: "length q \<le> c \<Longrightarrow> length (snd (queue_run c ops q)) \<le> c"
proof (induction c ops q rule: queue_run.induct)
  case (2 c xs ops q)
  show ?case using "2.IH"[OF refl] "2.prems" by (simp add: Let_def split_beta)
next
  case (3 c n ops q)
  show ?case using "3.IH"[OF refl] "3.prems" by (simp add: Let_def split_beta)
qed simp

locale byte_fifo =
  fixes put :: "'s \<Rightarrow> 'a list \<Rightarrow> (int \<times> 's) option" and get :: "'s \<Rightarrow> int \<Rightarrow> (int \<times> 'a list \<times> 's) option"
    and inv :: "'s \<Rightarrow> bool" and abs :: "'s \<Rightarrow> 'a list" and cap :: "'s \<Rightarrow> nat"
  assumes put: "inv s \<Longrightarrow> k = min (cap s - length (abs s)) (length xs) \<Longrightarrow>
      \<exists>s'. put s xs = Some (int k, s') \<and> inv s' \<and> cap s' = cap s \<and> abs s' = abs s @ take k xs"
    and get: "inv s \<Longrightarrow> k = min (length (abs s)) n \<Longrightarrow>
      \<exists>s'. get s (int n) = Some (int k, take k (abs s), s') \<and> inv s' \<and> cap s' = cap s \<and> abs s' = drop k (abs s)"
begin

text \<open>A provider of the laws gives in every sequence of calls the results of the specification.\<close>

lemma run_refines: "inv s \<Longrightarrow> \<exists>s'. fifo_run put get ops s = Some (fst (queue_run (cap s) ops (abs s)), s') \<and> inv s' \<and>
    cap s' = cap s \<and> abs s' = snd (queue_run (cap s) ops (abs s))"
proof (induction ops arbitrary: s)
  case Nil
  then show ?case by simp
next
  case (Cons op ops)
  show ?case
  proof (cases op)
    case (Put xs)
    obtain s1 where s1: "put s xs = Some (int (min (cap s - length (abs s)) (length xs)), s1)" "inv s1" "cap s1 = cap s"
        "abs s1 = abs s @ take (min (cap s - length (abs s)) (length xs)) xs"
      using put[OF Cons.prems refl, of xs] by blast
    show ?thesis using Cons.IH[OF s1(2)] unfolding s1(3,4) by (auto simp: s1(1) Put Let_def split_beta)
  next
    case (Get n)
    obtain s1 where s1: "get s (int n) = Some (int (min (length (abs s)) n), take (min (length (abs s)) n) (abs s), s1)" "inv s1" "cap s1 = cap s"
        "abs s1 = drop (min (length (abs s)) n) (abs s)"
      using get[OF Cons.prems refl, of n] by blast
    show ?thesis using Cons.IH[OF s1(2)] unfolding s1(3,4) by (auto simp: s1(1) Get Let_def split_beta)
  qed
qed

end

abbreviation tmb_put :: "tcpmodbuf \<Rightarrow> u8 list \<Rightarrow> (int \<times> tcpmodbuf) option" where "tmb_put t xs \<equiv> tmb_copyin t xs (int (length xs)) True"
abbreviation tmb_get :: "tcpmodbuf \<Rightarrow> int \<Rightarrow> (int \<times> u8 list \<times> tcpmodbuf) option" where "tmb_get t n \<equiv> tmb_copyout t n True"

interpretation tmb: byte_fifo tmb_put tmb_get tmb_inv tmb_data "\<lambda>t. nat (tmb_bufsize t)"
proof
  fix t :: tcpmodbuf and xs :: "u8 list" and n k :: nat
  assume inv: "tmb_inv t"
  have len: "int (length (tmb_data t)) = tmb_len t" using length_tmb_data[OF inv] inv by (auto elim: tmb_invE)
  have sz: "tmb_len t \<le> tmb_bufsize t" using inv by (auto elim: tmb_invE)
  show "\<exists>s'. tmb_put t xs = Some (int k, s') \<and> tmb_inv s' \<and> nat (tmb_bufsize s') = nat (tmb_bufsize t) \<and> tmb_data s' = tmb_data t @ take k xs"
    if "k = min (nat (tmb_bufsize t) - length (tmb_data t)) (length xs)"
  proof -
    have "int k = min (tmb_bufsize t - tmb_len t) (int (length xs))" using that len sz by linarith
    from tmb_copyin_queue[OF inv _ _ this, of xs True] show ?thesis by auto
  qed
  show "\<exists>s'. tmb_get t (int n) = Some (int k, take k (tmb_data t), s') \<and> tmb_inv s' \<and> nat (tmb_bufsize s') = nat (tmb_bufsize t) \<and>
      tmb_data s' = drop k (tmb_data t)"
    if "k = min (length (tmb_data t)) n"
  proof -
    have "int k = min (tmb_len t) (int n)" using that len by linarith
    from tmb_copyout_queue[OF inv _ this, of True] show ?thesis by auto
  qed
qed

section \<open>Property\<close>

text \<open>C14: In a modulo buffer that tmb_alloc made, every sequence of tmb_copyin and tmb_copyout calls stays inside the
  buffer's memory and gives exactly the results of a bounded queue of bytes: each tmb_copyin accepts all the bytes that
  still fit and returns their number, each tmb_copyout returns the oldest bytes, as many as were asked for and are there,
  and the buffer holds what the queue holds.  Over the whole sequence the bytes that were handed out followed by
  those still in the buffer are the bytes that were accepted, in their order.\<close>

theorem tmb_fifo:
  assumes "0 < sz" "int (length mem) = sz" "tmb_alloc (Some mem) t sz = (r, t1)" "queue_run (nat sz) ops [] = (rs, q)"
  shows "r = 0 \<and> (\<exists>t2. fifo_run tmb_put tmb_get ops t1 = Some (rs, t2) \<and> tmb_data t2 = q) \<and>
    concat (map snd rs) @ q = accepted ops rs \<and> int (length q) \<le> sz"
proof -
  note a = tmb_alloc_queue[OF assms(1) _ assms(3), simplified, OF assms(2)]
  have "length q \<le> nat sz" using queue_run_bounded[of "[]" "nat sz" ops] assms(4) by simp
  then show ?thesis using a tmb.run_refines[of t1 ops] queue_run_conserves[OF assms(4)] assms(1,4) by auto
qed

lemma tmb_fifo_witness:
  "\<exists>t2. fifo_run tmb_put tmb_get [Put [1, 2, 3], Get 2, Put [4, 5, 6, 7], Get 3, Put [8]]
     (snd (tmb_alloc (Some [0, 0, 0, 0]) \<lparr>tmb_buf = None, tmb_bufsize = 0, tmb_addptr = 0, tmb_remptr = 0, tmb_len = 0\<rparr> 4)) =
       Some ([(3, []), (2, [1, 2]), (3, []), (3, [3, 4, 5]), (1, [])], t2) \<and> tmb_data t2 = [6, 8]"
  using tmb_fifo[of 4 "[0, 0, 0, 0]" "\<lparr>tmb_buf = None, tmb_bufsize = 0, tmb_addptr = 0, tmb_remptr = 0, tmb_len = 0\<rparr>" 0 _
      "[Put [1, 2, 3], Get 2, Put [4, 5, 6, 7], Get 3, Put [8]]" "[(3, []), (2, [1, 2]), (3, []), (3, [3, 4, 5]), (1, [])]" "[6, 8]"]
  by (simp add: tmb_alloc_def)

end
