(* ===== verification/Cfe_Ebuf.thy ===== *)
theory Cfe_Ebuf
  imports Prelude "HOL-Library.Monad_Syntax"
begin

text \<open>
  The packet buffers of the boot loader's network stack, src/broadcom/src/cfe/cfe/net/net_ebuf.h: a data area with
  a current pointer and a length.  The pointer is an offset into the area; an access outside the area is None.
\<close>

section \<open>Model\<close>

definition ENET_MAX_PKT :: nat where "ENET_MAX_PKT = 1514"
definition ENET_ADDR_LEN :: nat where "ENET_ADDR_LEN = 6"
definition ENET_DIX_HEADER :: nat where "ENET_DIX_HEADER = 14"
definition EB_DATA_SIZE :: nat where "EB_DATA_SIZE = 0x5F0"

lemmas enet_consts = ENET_MAX_PKT_def ENET_ADDR_LEN_def ENET_DIX_HEADER_def EB_DATA_SIZE_def

text \<open>
  Where \<open>eb_usrptr\<close> points: nowhere, or to the array srcip on the stack of ip_rx_callback, whose address the UDP layer stores
  there.  That array is gone when ip_rx_callback has returned, so what the pointer leads to later is not known and
  nothing in the model reads it.
\<close>

datatype usr_ptr = Usr_null | Usr_srcip

record ebuf =
  eb_length :: u32
  eb_status :: u32
  eb_port :: int
  eb_usrdata :: int
  eb_usrptr :: usr_ptr
  eb_ptr :: int
  eb_data :: bytes

definition eb_load :: "ebuf \<Rightarrow> int \<Rightarrow> nat \<Rightarrow> bytes option" where
  "eb_load e off l = (if 0 \<le> off \<and> nat off + l \<le> length (eb_data e) then Some (take l (drop (nat off) (eb_data e))) else None)"

definition eb_store :: "ebuf \<Rightarrow> int \<Rightarrow> bytes \<Rightarrow> ebuf option" where
  "eb_store e off bs = (if 0 \<le> off \<and> nat off + length bs \<le> length (eb_data e)
     then Some (e\<lparr>eb_data := take (nat off) (eb_data e) @ bs @ drop (nat off + length bs) (eb_data e)\<rparr>) else None)"

definition ebuf_init_rx :: "ebuf \<Rightarrow> ebuf" where "ebuf_init_rx e = e\<lparr>eb_ptr := 0, eb_length := 0, eb_status := 0\<rparr>"
definition ebuf_init_tx :: "ebuf \<Rightarrow> ebuf" where "ebuf_init_tx e = e\<lparr>eb_ptr := 0, eb_length := 0, eb_status := 0\<rparr>"

definition ebuf_prepend :: "ebuf \<Rightarrow> int \<Rightarrow> ebuf" where
  "ebuf_prepend e amt = e\<lparr>eb_ptr := eb_ptr e - amt, eb_length := eb_length e + word_of_int amt\<rparr>"
definition ebuf_seek :: "ebuf \<Rightarrow> int \<Rightarrow> ebuf" where "ebuf_seek e amt = e\<lparr>eb_ptr := eb_ptr e + amt\<rparr>"
definition ebuf_setlength :: "ebuf \<Rightarrow> u32 \<Rightarrow> ebuf" where "ebuf_setlength e amt = e\<lparr>eb_length := amt\<rparr>"

definition hi8 :: "u32 \<Rightarrow> u8" where "hi8 w = ucast (drop_bit 8 w AND 0xFF)"
definition lo8 :: "u32 \<Rightarrow> u8" where "lo8 w = ucast (w AND 0xFF)"

definition ebuf_append_u8 :: "ebuf \<Rightarrow> u8 \<Rightarrow> ebuf option" where
  "ebuf_append_u8 e b = do { e \<leftarrow> eb_store e (eb_ptr e + uint (eb_length e)) [b]; Some (e\<lparr>eb_length := eb_length e + 1\<rparr>) }"

definition ebuf_append_u16_be :: "ebuf \<Rightarrow> u32 \<Rightarrow> ebuf option" where
  "ebuf_append_u16_be e w = do { e \<leftarrow> ebuf_append_u8 e (hi8 w); ebuf_append_u8 e (lo8 w) }"

definition ebuf_append_bytes :: "ebuf \<Rightarrow> bytes \<Rightarrow> ebuf option" where
  "ebuf_append_bytes e bs = do { e \<leftarrow> eb_store e (eb_ptr e + uint (eb_length e)) bs;
     Some (e\<lparr>eb_length := eb_length e + of_nat (length bs)\<rparr>) }"

definition ebuf_put_u8 :: "ebuf \<Rightarrow> u8 \<Rightarrow> ebuf option" where
  "ebuf_put_u8 e b = do { e \<leftarrow> eb_store e (eb_ptr e) [b]; Some (e\<lparr>eb_ptr := eb_ptr e + 1\<rparr>) }"

definition ebuf_put_u16_be :: "ebuf \<Rightarrow> u32 \<Rightarrow> ebuf option" where
  "ebuf_put_u16_be e w = do { e \<leftarrow> ebuf_put_u8 e (hi8 w); ebuf_put_u8 e (lo8 w) }"

definition ebuf_put_bytes :: "ebuf \<Rightarrow> bytes \<Rightarrow> ebuf option" where
  "ebuf_put_bytes e bs = do { e \<leftarrow> eb_store e (eb_ptr e) bs; Some (e\<lparr>eb_ptr := eb_ptr e + int (length bs)\<rparr>) }"

definition ebuf_skip :: "ebuf \<Rightarrow> int \<Rightarrow> ebuf" where
  "ebuf_skip e amt = e\<lparr>eb_length := eb_length e - word_of_int amt, eb_ptr := eb_ptr e + amt\<rparr>"

definition ebuf_get_u8 :: "ebuf \<Rightarrow> (u8 \<times> ebuf) option" where
  "ebuf_get_u8 e = do { bs \<leftarrow> eb_load e (eb_ptr e) 1; Some (bs ! 0, e\<lparr>eb_length := eb_length e - 1, eb_ptr := eb_ptr e + 1\<rparr>) }"

definition be16 :: "u8 \<Rightarrow> u8 \<Rightarrow> u16" where "be16 h l = ucast l OR push_bit 8 (ucast h)"

definition ebuf_get_u16_be :: "ebuf \<Rightarrow> (u16 \<times> ebuf) option" where
  "ebuf_get_u16_be e = do { bs \<leftarrow> eb_load e (eb_ptr e) 2;
     Some (be16 (bs ! 0) (bs ! 1), e\<lparr>eb_ptr := eb_ptr e + 2, eb_length := eb_length e - 2\<rparr>) }"

definition ebuf_get_bytes :: "ebuf \<Rightarrow> nat \<Rightarrow> (bytes \<times> ebuf) option" where
  "ebuf_get_bytes e l = do { bs \<leftarrow> eb_load e (eb_ptr e) l;
     Some (bs, e\<lparr>eb_ptr := eb_ptr e + int l, eb_length := eb_length e - of_nat l\<rparr>) }"

definition ebuf_srcaddr :: "ebuf \<Rightarrow> bytes option" where "ebuf_srcaddr e = eb_load e 6 ENET_ADDR_LEN"

section \<open>Byte order\<close>

lemma mask255: "(0xFF :: u32) = mask 8"
  by (simp add: mask_eq_exp_minus_1)

lemma hi8_lo8: "be16 (hi8 w) (lo8 w) = ucast w"
proof (rule bit_word_eqI)
  fix n assume "n < LENGTH(16)"
  then show "bit (be16 (hi8 w) (lo8 w)) n = bit (ucast w :: u16) n"
    by (cases "n < 8") (auto simp: be16_def hi8_def lo8_def mask255 bit_simps)
qed

lemma less_cases8: "bit (w :: u8) (8 + n) \<Longrightarrow> False"
  by (auto dest!: bit_imp_le_length)

lemma hi8_be16: "hi8 (ucast (be16 h l)) = h" "lo8 (ucast (be16 h l)) = l"
  by (rule bit_word_eqI; auto simp: be16_def hi8_def lo8_def mask255 bit_simps dest: less_cases8)+

section \<open>The packet in a buffer\<close>

text \<open>The bytes from the current pointer on; a buffer whose packet lies in its data area.\<close>

definition eb_view :: "ebuf \<Rightarrow> bytes" where "eb_view e = take (unat (eb_length e)) (drop (nat (eb_ptr e)) (eb_data e))"

definition eb_ok :: "ebuf \<Rightarrow> bool" where
  "eb_ok e = (length (eb_data e) = EB_DATA_SIZE \<and> 0 \<le> eb_ptr e \<and> nat (eb_ptr e) + unat (eb_length e) \<le> EB_DATA_SIZE)"

lemma length_eb_view: "eb_ok e \<Longrightarrow> length (eb_view e) = unat (eb_length e)"
  by (auto simp: eb_view_def eb_ok_def min_def)

text \<open>All fields but the data, pointer and length.\<close>

definition eb_frame :: "ebuf \<Rightarrow> ebuf \<Rightarrow> bool" where
  "eb_frame e e' = (eb_port e' = eb_port e \<and> eb_status e' = eb_status e \<and> eb_usrdata e' = eb_usrdata e \<and> eb_usrptr e' = eb_usrptr e)"

lemma eb_frame_refl [simp]: "eb_frame e e" by (simp add: eb_frame_def)
lemma eb_frame_trans: "eb_frame a b \<Longrightarrow> eb_frame b c \<Longrightarrow> eb_frame a c" by (simp add: eb_frame_def)

lemma take_drop_splice:
  "k + length bs \<le> length xs \<Longrightarrow> take (length bs) (drop k (take k xs @ bs @ drop (k + length bs) xs)) = bs"
  "k + length bs \<le> length xs \<Longrightarrow> m \<le> k \<Longrightarrow> take (k - m + length bs) (drop m (take k xs @ bs @ drop (k + length bs) xs)) = take (k - m) (drop m xs) @ bs"
  by (auto simp: take_drop)

lemma eb_append:
  assumes "eb_ok e" "nat (eb_ptr e) + unat (eb_length e) + length bs \<le> EB_DATA_SIZE"
  shows "\<exists>e'. ebuf_append_bytes e bs = Some e' \<and> eb_ok e' \<and> eb_view e' = eb_view e @ bs \<and> eb_ptr e' = eb_ptr e \<and> eb_frame e e'"
proof -
  define k where "k = nat (eb_ptr e) + unat (eb_length e)"
  have k: "nat (eb_ptr e + uint (eb_length e)) = k" "0 \<le> eb_ptr e + uint (eb_length e)"
    using assms(1) by (simp_all add: k_def eb_ok_def nat_add_distrib)
  have k3: "k + length bs \<le> length (eb_data e)" using assms by (simp add: k_def eb_ok_def)
  have u: "unat (eb_length e + of_nat (length bs)) = unat (eb_length e) + length bs"
    using assms by (intro unat_plus_less) (simp add: enet_consts)
  let ?e = "e\<lparr>eb_length := eb_length e + of_nat (length bs), eb_data := take k (eb_data e) @ bs @ drop (k + length bs) (eb_data e)\<rparr>"
  have "ebuf_append_bytes e bs = Some ?e" using k k3 by (simp add: ebuf_append_bytes_def eb_store_def)
  moreover have "eb_view ?e = eb_view e @ bs"
    using take_drop_splice(2)[OF k3, of "nat (eb_ptr e)"] by (simp add: eb_view_def u) (simp add: k_def)
  moreover have "eb_ok ?e" using assms k3 by (simp add: eb_ok_def u)
  ultimately show ?thesis by (auto simp: eb_frame_def)
qed

text \<open>Small appends and puts are those of byte strings.\<close>

lemma append_u8_bytes: "ebuf_append_u8 e b = ebuf_append_bytes e [b]"
  by (simp add: ebuf_append_u8_def ebuf_append_bytes_def)

lemma put_u8_bytes: "ebuf_put_u8 e b = ebuf_put_bytes e [b]"
  by (simp add: ebuf_put_u8_def ebuf_put_bytes_def)

lemma put_bytes_append: "Option.bind (ebuf_put_bytes e xs) (\<lambda>e. ebuf_put_bytes e ys) = ebuf_put_bytes e (xs @ ys)"
proof (cases "0 \<le> eb_ptr e \<and> nat (eb_ptr e) + length (xs @ ys) \<le> length (eb_data e)")
  case True
  then have "nat (eb_ptr e + int (length xs)) = nat (eb_ptr e) + length xs" by (simp add: nat_add_distrib)
  then show ?thesis using True by (simp add: ebuf_put_bytes_def eb_store_def min_absorb2 ac_simps)
next
  case False
  then have "ebuf_put_bytes e (xs @ ys) = None" by (auto simp: ebuf_put_bytes_def eb_store_def)
  moreover have "nat (eb_ptr e + int (length xs)) = nat (eb_ptr e) + length xs" if "0 \<le> eb_ptr e" using that by (simp add: nat_add_distrib)
  ultimately show ?thesis using False by (auto simp: ebuf_put_bytes_def eb_store_def)
qed

lemma put_u16_bytes: "ebuf_put_u16_be e w = ebuf_put_bytes e [hi8 w, lo8 w]"
  using put_bytes_append[of e "[hi8 w]" "[lo8 w]"] by (simp add: ebuf_put_u16_be_def put_u8_bytes)

lemma put_bytes_bind:
  "Option.bind (ebuf_put_bytes e xs) (\<lambda>e. Option.bind (ebuf_put_bytes e ys) f) = Option.bind (ebuf_put_bytes e (xs @ ys)) f"
  by (simp flip: put_bytes_append)

lemmas put_simps = put_u8_bytes put_u16_bytes put_bytes_bind

text \<open>Moving back, writing a header and growing the packet by it puts the header in front.\<close>

lemma eb_push:
  assumes "eb_ok e" "int (length h) \<le> eb_ptr e"
  shows "\<exists>e1. ebuf_put_bytes (ebuf_seek e (- int (length h))) h = Some e1 \<and> eb_ok (ebuf_prepend e1 (int (length h))) \<and>
    eb_view (ebuf_prepend e1 (int (length h))) = h @ eb_view e \<and> eb_ptr (ebuf_prepend e1 (int (length h))) = eb_ptr e - int (length h) \<and>
    eb_ptr e1 = eb_ptr e \<and> eb_frame e e1"
proof -
  define p where "p = nat (eb_ptr e) - length h"
  have p: "nat (eb_ptr e - int (length h)) = p" "p + length h = nat (eb_ptr e)" "nat (eb_ptr e) \<le> length (eb_data e)"
    using assms by (auto simp: p_def eb_ok_def)
  have u: "unat (eb_length e + of_nat (length h)) = unat (eb_length e) + length h"
    using assms by (intro unat_plus_less) (auto simp: eb_ok_def enet_consts)
  let ?d = "take p (eb_data e) @ h @ drop (p + length h) (eb_data e)"
  let ?e1 = "e\<lparr>eb_data := ?d\<rparr>"
  have "ebuf_put_bytes (ebuf_seek e (- int (length h))) h = Some ?e1"
    using assms p by (simp add: ebuf_put_bytes_def eb_store_def ebuf_seek_def)
  moreover have "take (unat (eb_length e) + length h) (drop p ?d) = h @ eb_view e"
    using p by (simp add: eb_view_def add.commute)
  moreover have "eb_ok (ebuf_prepend ?e1 (int (length h)))"
    using assms p u by (auto simp: eb_ok_def ebuf_prepend_def)
  ultimately show ?thesis using u p(1) by (auto simp: ebuf_prepend_def eb_view_def eb_frame_def)
qed

text \<open>Reading moves the current pointer: every get is a load and a skip.\<close>

lemma get_skip:
  "ebuf_get_u8 e = Option.bind (eb_load e (eb_ptr e) 1) (\<lambda>bs. Some (bs ! 0, ebuf_skip e 1))"
  "ebuf_get_u16_be e = Option.bind (eb_load e (eb_ptr e) 2) (\<lambda>bs. Some (be16 (bs ! 0) (bs ! 1), ebuf_skip e 2))"
  "ebuf_get_bytes e l = Option.bind (eb_load e (eb_ptr e) l) (\<lambda>bs. Some (bs, ebuf_skip e (int l)))"
  by (simp add: ebuf_get_u8_def ebuf_skip_def)
    (cases "eb_load e (eb_ptr e) 2"; cases "eb_load e (eb_ptr e) l"; simp add: ebuf_get_u16_be_def ebuf_get_bytes_def ebuf_skip_def)+

lemma skip_sel [simp]:
  "eb_ptr (ebuf_skip e k) = eb_ptr e + k" "eb_data (ebuf_skip e k) = eb_data e" "eb_port (ebuf_skip e k) = eb_port e"
  "eb_length (ebuf_skip e k) = eb_length e - word_of_int k"
  by (simp_all add: ebuf_skip_def)

lemma skip_skip: "ebuf_skip (ebuf_skip e a) b = ebuf_skip e (a + b)"
  by (simp add: ebuf_skip_def)

lemma skip_0: "ebuf_skip e 0 = e"
  by (simp add: ebuf_skip_def)

lemma eb_skip:
  assumes "eb_ok e" "k \<le> length (eb_view e)"
  shows "eb_ok (ebuf_skip e (int k))" "eb_view (ebuf_skip e (int k)) = drop k (eb_view e)"
proof -
  have k: "k \<le> unat (eb_length e)" using assms length_eb_view by simp
  have u: "unat (eb_length e - of_nat k) = unat (eb_length e) - k"
  proof -
    have "unat (of_nat k :: u32) = k" using k unat_less_2p[of "eb_length e"] unat_plus_less[of "0 :: u32" k] by simp
    then show ?thesis using k by (metis unat_sub word_le_nat_alt)
  qed
  have n: "nat (eb_ptr e + int k) = nat (eb_ptr e) + k" using assms by (simp add: eb_ok_def nat_add_distrib)
  show "eb_ok (ebuf_skip e (int k))" using assms k u n by (simp add: eb_ok_def)
  show "eb_view (ebuf_skip e (int k)) = drop k (eb_view e)"
    using u n by (simp add: eb_view_def drop_take add.commute)
qed

lemma eb_load_view:
  assumes "eb_ok e" "k + l \<le> length (eb_view e)"
  shows "eb_load e (eb_ptr e + int k) l = Some (take l (drop k (eb_view e)))"
proof -
  have "nat (eb_ptr e + int k) = nat (eb_ptr e) + k" "k + l \<le> unat (eb_length e)"
    using assms length_eb_view by (simp_all add: eb_ok_def nat_add_distrib)
  then show ?thesis using assms(1) by (simp add: eb_load_def eb_ok_def eb_view_def drop_take min_def add.commute)
qed

lemma eb_load_all: "eb_ok e \<Longrightarrow> eb_load e (eb_ptr e) (unat (eb_length e)) = Some (eb_view e)"
  using eb_load_view[of e 0 "unat (eb_length e)"] length_eb_view[of e] by simp

text \<open>A store inside the packet changes the packet.\<close>

lemma eb_store_view:
  assumes "eb_ok e" "k + length bs \<le> length (eb_view e)"
  shows "\<exists>e'. eb_store e (eb_ptr e + int k) bs = Some e' \<and> eb_ok e' \<and> eb_ptr e' = eb_ptr e \<and> eb_length e' = eb_length e \<and> eb_frame e e' \<and>
    eb_view e' = take k (eb_view e) @ bs @ drop (k + length bs) (eb_view e)"
proof -
  define p n d where "p = nat (eb_ptr e)" and "n = unat (eb_length e)" and "d = eb_data e"
  have n: "nat (eb_ptr e + int k) = p + k" "k + length bs \<le> n" "p + n \<le> length d"
    using assms length_eb_view by (simp_all add: p_def n_def d_def eb_ok_def nat_add_distrib)
  let ?e = "e\<lparr>eb_data := take (p + k) d @ bs @ drop (p + k + length bs) d\<rparr>"
  have "eb_store e (eb_ptr e + int k) bs = Some ?e" using n assms by (simp add: eb_store_def eb_ok_def flip: d_def)
  moreover have "take n (drop p (take (p + k) d @ bs @ drop (p + k + length bs) d)) =
      take k (take n (drop p d)) @ bs @ drop (k + length bs) (take n (drop p d))"
  proof -
    define c where "c = drop p d"
    have "drop p (take (p + k) d) = take k c" "drop (p + k + length bs) d = drop (k + length bs) c" by (simp_all add: c_def drop_take ac_simps)
    moreover have "length (take (p + k) d) = p + k" "length c = length d - p" using n by (simp_all add: c_def)
    ultimately show ?thesis using n unfolding c_def[symmetric] by (simp add: drop_take min_absorb1)
  qed
  then have "eb_view ?e = take k (eb_view e) @ bs @ drop (k + length bs) (eb_view e)"
    by (simp add: eb_view_def p_def n_def d_def)
  moreover have "eb_ok ?e" using assms n by (simp add: eb_ok_def d_def p_def n_def)
  ultimately show ?thesis by (auto simp: eb_frame_def)
qed

text \<open>Consecutive appends are one append.\<close>

lemma eb_append_bind:
  assumes "eb_ok e" "nat (eb_ptr e) + unat (eb_length e) + (length xs + length ys) \<le> EB_DATA_SIZE"
  shows "Option.bind (ebuf_append_bytes e xs) (\<lambda>e. ebuf_append_bytes e ys) = ebuf_append_bytes e (xs @ ys)"
proof -
  have u: "uint (eb_length e + of_nat (length xs)) = uint (eb_length e) + int (length xs)"
  proof -
    have "unat (eb_length e + of_nat (length xs)) = unat (eb_length e) + length xs"
      using assms(2) by (intro unat_plus_less) (simp add: enet_consts)
    then show ?thesis by (metis of_nat_add uint_nat)
  qed
  define k where "k = nat (eb_ptr e + uint (eb_length e))"
  have k: "k = nat (eb_ptr e) + unat (eb_length e)" "0 \<le> eb_ptr e + uint (eb_length e)"
    using assms(1) by (simp_all add: k_def eb_ok_def nat_add_distrib)
  have n: "nat (eb_ptr e + (int (length xs) + uint (eb_length e))) = k + length xs"
    using k(2) unfolding k_def by (subst add.commute[of "int (length xs)"], subst add.assoc[symmetric]) (simp add: nat_add_distrib)
  have d: "k + (length xs + length ys) \<le> length (eb_data e)" using assms k by (simp add: eb_ok_def)
  show ?thesis using u d k(2) n by (simp add: ebuf_append_bytes_def eb_store_def min_absorb2 ac_simps flip: k_def)
qed

lemma eb_append_binds:
  assumes "eb_ok e" "nat (eb_ptr e) + unat (eb_length e) + (length xs + length ys) \<le> EB_DATA_SIZE"
  shows "Option.bind (ebuf_append_bytes e xs) (\<lambda>e. Option.bind (ebuf_append_bytes e ys) f) = Option.bind (ebuf_append_bytes e (xs @ ys)) f"
  using eb_append_bind[OF assms] by (simp flip: bind_assoc)

lemmas append_simps = ebuf_append_u16_be_def append_u8_bytes bind_assoc eb_append_bind eb_append_binds

end
