(* ===== verification/Cfe_Ether.thy ===== *)
theory Cfe_Ether
  imports Cfe_Ebuf
begin

text \<open>
  The Ethernet layer of the boot loader, src/broadcom/src/cfe/cfe/net/net_ether.c: portals for protocols, a pool of eight
  buffers with a free list, transmission and reception.  A buffer is named by its index in the pool, a queue is the
  list of its elements (theory Cfe_Queue relates the linked rings to these lists).  The device driver is its log of the
  frames written and of the ioctl calls, with functions for its answers.
\<close>

section \<open>Model\<close>

definition ETH_MAX_PORTS :: nat where "ETH_MAX_PORTS = 4"
definition ETH_MAX_BUFFERS :: nat where "ETH_MAX_BUFFERS = 8"
definition ETH_PTYPE_NONE :: int where "ETH_PTYPE_NONE = 0"
definition ETH_PTYPE_DIX :: int where "ETH_PTYPE_DIX = 1"
definition ETH_PTYPE_802SAP :: int where "ETH_PTYPE_802SAP = 2"
definition ETH_PTYPE_802SNAP :: int where "ETH_PTYPE_802SNAP = 3"
definition ETH_KEEP :: int where "ETH_KEEP = 1"
definition ETH_DROP :: int where "ETH_DROP = 0"
definition CFE_ERR_UNSUPPORTED :: int where "CFE_ERR_UNSUPPORTED = -19"
definition CFE_ERR_NOHANDLES :: int where "CFE_ERR_NOHANDLES = -25"
definition IOCTL_ETHER_GETHWADDR :: int where "IOCTL_ETHER_GETHWADDR = 1"
definition IOCTL_ETHER_SETHWADDR :: int where "IOCTL_ETHER_SETHWADDR = 2"
definition IOCTL_ETHER_GETSPEED :: int where "IOCTL_ETHER_GETSPEED = 3"
definition IOCTL_ETHER_SETSPEED :: int where "IOCTL_ETHER_SETSPEED = 4"
definition IOCTL_ETHER_GETLOOPBACK :: int where "IOCTL_ETHER_GETLOOPBACK = 7"
definition IOCTL_ETHER_SETLOOPBACK :: int where "IOCTL_ETHER_SETLOOPBACK = 8"

lemmas eth_consts = ETH_MAX_PORTS_def ETH_MAX_BUFFERS_def ETH_PTYPE_NONE_def ETH_PTYPE_DIX_def ETH_PTYPE_802SAP_def
  ETH_PTYPE_802SNAP_def ETH_KEEP_def ETH_DROP_def CFE_ERR_UNSUPPORTED_def CFE_ERR_NOHANDLES_def

text \<open>The callbacks that the sources register with a portal.\<close>

datatype eth_cb = Cb_Arp | Cb_Ip

record ether_port =
  ep_dev :: int
  ep_proto :: bytes
  ep_ptype :: int
  ep_mtu :: int
  ep_rxcallback :: "eth_cb option"

record ether_info =
  eth_ports :: "ether_port list"
  eth_freelist :: "nat list"
  eth_hwaddr :: bytes
  eth_devhandle :: int
  eth_bufpool :: "nat \<Rightarrow> ebuf"
  dev_out :: "(int \<times> bytes) list"
  dev_wres :: "(int \<times> bytes) list \<Rightarrow> int"
  dev_ioctls :: "(int \<times> int \<times> bytes) list"
  dev_ires :: "int \<Rightarrow> bytes \<Rightarrow> int \<times> bytes"

definition eth_broadcast :: bytes where "eth_broadcast = [0xFF, 0xFF, 0xFF, 0xFF, 0xFF, 0xFF]"

definition cfe_write :: "ether_info \<Rightarrow> int \<Rightarrow> bytes \<Rightarrow> int \<times> ether_info" where
  "cfe_write eth dev fr = (let eth = eth\<lparr>dev_out := dev_out eth @ [(dev, fr)]\<rparr> in (dev_wres eth (dev_out eth), eth))"

definition cfe_ioctl :: "ether_info \<Rightarrow> int \<Rightarrow> int \<Rightarrow> bytes \<Rightarrow> int \<times> bytes \<times> ether_info" where
  "cfe_ioctl eth dev cmd buf = (let (r, buf') = dev_ires eth cmd buf in (r, buf', eth\<lparr>dev_ioctls := dev_ioctls eth @ [(dev, cmd, buf)]\<rparr>))"

definition set_buf :: "ether_info \<Rightarrow> nat \<Rightarrow> ebuf \<Rightarrow> ether_info" where
  "set_buf eth b e = eth\<lparr>eth_bufpool := (eth_bufpool eth)(b := e)\<rparr>"

text \<open>The index of the first free portal, or the number of portals.\<close>

fun eth_freeport :: "ether_port list \<Rightarrow> nat \<Rightarrow> nat" where
  "eth_freeport [] portnum = portnum"
| "eth_freeport (p # ps) portnum = (if ep_rxcallback p = None then portnum else eth_freeport ps (portnum + 1))"

definition eth_open :: "ether_info \<Rightarrow> int \<Rightarrow> bytes \<Rightarrow> eth_cb \<Rightarrow> int \<times> ether_info" where
  "eth_open eth ptype pdata cb = (let portnum = eth_freeport (eth_ports eth) 0 in
     if portnum = ETH_MAX_PORTS then (CFE_ERR_NOHANDLES, eth)
     else let p = eth_ports eth ! portnum in
       if ptype = ETH_PTYPE_DIX then
         let p = p\<lparr>ep_proto := (ep_proto p)[0 := pdata ! 0, 1 := pdata ! 1], ep_mtu := int ENET_MAX_PKT - int ENET_DIX_HEADER\<rparr>;
             p = p\<lparr>ep_ptype := ptype, ep_rxcallback := Some cb, ep_dev := eth_devhandle eth\<rparr>
         in (int portnum, eth\<lparr>eth_ports := (eth_ports eth)[portnum := p]\<rparr>)
       else (CFE_ERR_UNSUPPORTED, eth))"

definition eth_close :: "ether_info \<Rightarrow> nat \<Rightarrow> ether_info" where
  "eth_close eth port = eth\<lparr>eth_ports := (eth_ports eth)[port :=
     (eth_ports eth ! port)\<lparr>ep_ptype := 0, ep_rxcallback := None, ep_dev := 0, ep_proto := replicate 8 0\<rparr>]\<rparr>"

fun eth_findport_loop :: "ether_port list \<Rightarrow> nat \<Rightarrow> ebuf \<Rightarrow> (nat option \<times> ebuf) option" where
  "eth_findport_loop [] idx buf = Some (None, buf)"
| "eth_findport_loop (p # ps) idx buf = (if ep_rxcallback p = None then eth_findport_loop ps (idx + 1) buf
     else if ep_ptype p = ETH_PTYPE_DIX then do {
       b12 \<leftarrow> eb_load buf (eb_ptr buf + 12) 1; b13 \<leftarrow> eb_load buf (eb_ptr buf + 13) 1;
       (if ep_proto p ! 0 = b12 ! 0 \<and> ep_proto p ! 1 = b13 ! 0 then Some (Some idx, ebuf_skip buf (int ENET_DIX_HEADER))
        else eth_findport_loop ps (idx + 1) buf) }
     else eth_findport_loop ps (idx + 1) buf)"

definition eth_findport :: "ether_info \<Rightarrow> ebuf \<Rightarrow> (nat option \<times> ebuf) option" where
  "eth_findport eth buf = do { b6 \<leftarrow> eb_load buf (eb_ptr buf + 6) 1;
     (if b6 ! 0 AND 1 \<noteq> 0 then Some (None, buf)
      else if eb_length buf < 60 then Some (None, buf)
      else eth_findport_loop (eth_ports eth) 0 buf) }"

definition eth_free :: "ether_info \<Rightarrow> nat \<Rightarrow> ether_info" where
  "eth_free eth b = eth\<lparr>eth_freelist := eth_freelist eth @ [b]\<rparr>"

definition eth_deqfree :: "ether_info \<Rightarrow> nat option \<times> ether_info" where
  "eth_deqfree eth = (case eth_freelist eth of [] \<Rightarrow> (None, eth) | b # bs \<Rightarrow> (Some b, eth\<lparr>eth_freelist := bs\<rparr>))"

text \<open>The reception of eth_poll up to the look-up of the portal: \<open>inpstat\<close> and \<open>rd\<close> are what the device answers,
  the number of bytes and the bytes read.\<close>

datatype eth_rx = Rx_None | Rx_Drop nat | Rx_Port nat nat

definition eth_receive :: "ether_info \<Rightarrow> int \<Rightarrow> int \<times> bytes \<Rightarrow> (eth_rx \<times> ether_info) option" where
  "eth_receive eth inpstat rd = (if inpstat = 0 then Some (Rx_None, eth)
     else case eth_deqfree eth of (None, eth) \<Rightarrow> Some (Rx_None, eth)
     | (Some b, eth) \<Rightarrow> do {
         e \<leftarrow> eb_store (ebuf_init_rx (eth_bufpool eth b)) 0 (snd rd);
         (if fst rd \<le> 0 then Some (Rx_None, eth_free (set_buf eth b e) b)
          else let e = e\<lparr>eb_length := word_of_int (fst rd), eb_status := 0, eb_usrdata := 0\<rparr> in do {
            (p, e) \<leftarrow> eth_findport eth e;
            (case p of Some port \<Rightarrow> Some (Rx_Port b port, set_buf eth b (e\<lparr>eb_port := int port\<rparr>))
             | None \<Rightarrow> Some (Rx_Drop b, set_buf eth b e)) }) })"

definition eth_gethwaddr :: "ether_info \<Rightarrow> bytes" where "eth_gethwaddr eth = take ENET_ADDR_LEN (eth_hwaddr eth)"

definition eth_sethwaddr :: "ether_info \<Rightarrow> bytes \<Rightarrow> ether_info" where
  "eth_sethwaddr eth hwaddr = (let eth = eth\<lparr>eth_hwaddr := take ENET_ADDR_LEN hwaddr\<rparr>;
     (r, buf, eth) = cfe_ioctl eth (eth_devhandle eth) IOCTL_ETHER_SETHWADDR (eth_hwaddr eth)
   in eth\<lparr>eth_hwaddr := buf\<rparr>)"

definition eth_setspeed :: "ether_info \<Rightarrow> bytes \<Rightarrow> int \<times> ether_info" where
  "eth_setspeed eth speed = (let (r, _, eth) = cfe_ioctl eth (eth_devhandle eth) IOCTL_ETHER_SETSPEED speed in (r, eth))"

definition eth_setloopback :: "ether_info \<Rightarrow> bytes \<Rightarrow> int \<times> ether_info" where
  "eth_setloopback eth loop = (let (r, _, eth) = cfe_ioctl eth (eth_devhandle eth) IOCTL_ETHER_SETLOOPBACK loop in (r, eth))"

definition eth_getspeed :: "ether_info \<Rightarrow> bytes \<Rightarrow> int \<times> bytes \<times> ether_info" where
  "eth_getspeed eth speed = cfe_ioctl eth (eth_devhandle eth) IOCTL_ETHER_GETSPEED speed"

definition eth_getloopback :: "ether_info \<Rightarrow> bytes \<Rightarrow> int \<times> bytes \<times> ether_info" where
  "eth_getloopback eth loop = cfe_ioctl eth (eth_devhandle eth) IOCTL_ETHER_GETLOOPBACK loop"

definition eth_send :: "ether_info \<Rightarrow> nat \<Rightarrow> bytes \<Rightarrow> (int \<times> ether_info) option" where
  "eth_send eth b dest = (let e = eth_bufpool eth b; p = eth_ports eth ! nat (eb_port e) in
     if ep_ptype p = ETH_PTYPE_DIX then do {
       e \<leftarrow> ebuf_put_bytes (ebuf_seek e (- int ENET_DIX_HEADER)) (take ENET_ADDR_LEN dest);
       e \<leftarrow> ebuf_put_bytes e (take ENET_ADDR_LEN (eth_hwaddr eth));
       e \<leftarrow> ebuf_put_bytes e (take 2 (ep_proto p));
       let e = ebuf_prepend e (int ENET_DIX_HEADER) in do {
       fr \<leftarrow> eb_load e (eb_ptr e) (unat (eb_length e));
       Some (cfe_write (set_buf eth b e) (ep_dev p) fr) } }
     else Some (CFE_ERR_UNSUPPORTED, eth_free eth b))"

definition eth_alloc :: "ether_info \<Rightarrow> nat \<Rightarrow> nat option \<times> ether_info" where
  "eth_alloc eth port = (let p = eth_ports eth ! port in
     case eth_deqfree eth of (None, eth) \<Rightarrow> (None, eth)
     | (Some b, eth) \<Rightarrow>
       let e = (eth_bufpool eth b)\<lparr>eb_status := 0, eb_port := int port\<rparr>;
           e = ebuf_init_tx e;
           e = (if ep_ptype p = ETH_PTYPE_DIX then ebuf_seek e (int ENET_DIX_HEADER) else e);
           e = e\<lparr>eb_length := 0\<rparr>
       in (Some b, set_buf eth b e))"

definition eth_getmtu :: "ether_info \<Rightarrow> nat \<Rightarrow> int" where "eth_getmtu eth port = ep_mtu (eth_ports eth ! port)"

definition zero_port :: ether_port where
  "zero_port = \<lparr>ep_dev = 0, ep_proto = replicate 8 0, ep_ptype = 0, ep_mtu = 0, ep_rxcallback = None\<rparr>"

text \<open>\<open>handle\<close> is what cfe_open returns, \<open>mem\<close> which of the three allocations succeed, \<open>pool\<close> the fresh memory.\<close>

definition eth_init :: "int \<Rightarrow> bool \<times> bool \<times> bool \<Rightarrow> (nat \<Rightarrow> ebuf) \<Rightarrow> ((int \<times> bytes) list \<Rightarrow> int) \<Rightarrow> (int \<Rightarrow> bytes \<Rightarrow> int \<times> bytes) \<Rightarrow> ether_info option" where
  "eth_init handle mem pool wres ires = (if handle < 0 then None
     else case mem of (m1, m2, m3) \<Rightarrow>
       if \<not> m1 then None
       else let eth = \<lparr>eth_ports = [], eth_freelist = [], eth_hwaddr = replicate 6 0, eth_devhandle = 0, eth_bufpool = pool,
              dev_out = [], dev_wres = wres, dev_ioctls = [], dev_ires = ires\<rparr>;
            (r, hw, eth) = cfe_ioctl eth handle IOCTL_ETHER_GETHWADDR (eth_hwaddr eth);
            eth = eth\<lparr>eth_hwaddr := hw\<rparr>
       in if \<not> m2 then None
       else let eth = eth\<lparr>eth_ports := replicate ETH_MAX_PORTS zero_port\<rparr>
       in if \<not> m3 then None
       else Some (eth\<lparr>eth_freelist := [0..<ETH_MAX_BUFFERS], eth_devhandle := handle\<rparr>))"

section \<open>Well-formed state\<close>

definition eth_wf :: "ether_info \<Rightarrow> bool" where
  "eth_wf eth = (length (eth_ports eth) = ETH_MAX_PORTS \<and> (\<forall>p \<in> set (eth_ports eth). length (ep_proto p) = 8) \<and>
     length (eth_hwaddr eth) = ENET_ADDR_LEN \<and> (\<forall>b. length (eb_data (eth_bufpool eth b)) = EB_DATA_SIZE))"

text \<open>A portal in use for a protocol; a buffer that can be sent through its portal, with room for \<open>h\<close> more bytes in front.\<close>

definition dix_port :: "ether_info \<Rightarrow> int \<Rightarrow> bool" where
  "dix_port eth port = (0 \<le> port \<and> port < int ETH_MAX_PORTS \<and> ep_ptype (eth_ports eth ! nat port) = ETH_PTYPE_DIX)"

definition tx_ready :: "ether_info \<Rightarrow> nat \<Rightarrow> nat \<Rightarrow> bool" where
  "tx_ready eth h b = (eb_ok (eth_bufpool eth b) \<and> int (ENET_DIX_HEADER + h) \<le> eb_ptr (eth_bufpool eth b) \<and> dix_port eth (eb_port (eth_bufpool eth b)))"

text \<open>What an operation leaves alone: everything but the free list, the log of frames and the buffers in \<open>X\<close>.\<close>

definition eth_same :: "ether_info \<Rightarrow> ether_info \<Rightarrow> nat set \<Rightarrow> bool" where
  "eth_same eth eth' X = (eth_ports eth' = eth_ports eth \<and> eth_hwaddr eth' = eth_hwaddr eth \<and> eth_devhandle eth' = eth_devhandle eth \<and>
     dev_wres eth' = dev_wres eth \<and> dev_ioctls eth' = dev_ioctls eth \<and> dev_ires eth' = dev_ires eth \<and>
     (\<forall>b. b \<notin> X \<longrightarrow> eth_bufpool eth' b = eth_bufpool eth b) \<and> (\<forall>b. length (eb_data (eth_bufpool eth' b)) = EB_DATA_SIZE))"

lemma eth_same_refl: "eth_wf eth \<Longrightarrow> eth_same eth eth X"
  by (simp add: eth_same_def eth_wf_def)

lemma eth_same_trans: "eth_same a b X \<Longrightarrow> eth_same b c Y \<Longrightarrow> X \<subseteq> Z \<Longrightarrow> Y \<subseteq> Z \<Longrightarrow> eth_same a c Z"
  unfolding eth_same_def by (metis subsetD)

lemma eth_same_mono: "eth_same a b X \<Longrightarrow> X \<subseteq> Y \<Longrightarrow> eth_same a b Y"
  unfolding eth_same_def by auto

lemma eth_same_wf: "eth_same eth eth' X \<Longrightarrow> eth_wf eth \<Longrightarrow> eth_wf eth'"
  by (simp add: eth_same_def eth_wf_def)

lemma eth_same_ready: "eth_same eth eth' X \<Longrightarrow> b \<notin> X \<Longrightarrow> tx_ready eth' h b = tx_ready eth h b"
  by (simp add: eth_same_def tx_ready_def dix_port_def)

lemma eth_same_dix: "eth_same eth eth' X \<Longrightarrow> dix_port eth' p = dix_port eth p"
  by (simp add: eth_same_def dix_port_def)

section \<open>Transmission\<close>

text \<open>The frame that a buffer is sent as.\<close>

definition eth_packet :: "ether_info \<Rightarrow> nat \<Rightarrow> bytes \<Rightarrow> int \<times> bytes" where
  "eth_packet eth b dest = (let p = eth_ports eth ! nat (eb_port (eth_bufpool eth b)) in
     (ep_dev p, take ENET_ADDR_LEN dest @ eth_hwaddr eth @ take 2 (ep_proto p) @ eb_view (eth_bufpool eth b)))"

lemma eth_send_ok:
  assumes wf: "eth_wf eth" and rd: "tx_ready eth 0 b" and d: "ENET_ADDR_LEN \<le> length dest"
  shows "\<exists>res eth'. eth_send eth b dest = Some (res, eth') \<and> eth_same eth eth' {b} \<and> eth_freelist eth' = eth_freelist eth \<and>
    dev_out eth' = dev_out eth @ [eth_packet eth b dest]"
proof -
  let ?e = "eth_bufpool eth b" let ?p = "eth_ports eth ! nat (eb_port ?e)"
  let ?h = "take ENET_ADDR_LEN dest @ take ENET_ADDR_LEN (eth_hwaddr eth) @ take 2 (ep_proto ?p)"
  have "?p \<in> set (eth_ports eth)" using rd wf by (auto simp: tx_ready_def dix_port_def eth_wf_def intro!: nth_mem)
  then have lh: "length ?h = ENET_DIX_HEADER" using wf d by (simp add: eth_wf_def enet_consts)
  obtain e1 where e1: "ebuf_put_bytes (ebuf_seek ?e (- int (length ?h))) ?h = Some e1" "eb_ok (ebuf_prepend e1 (int (length ?h)))"
    "eb_view (ebuf_prepend e1 (int (length ?h))) = ?h @ eb_view ?e"
    using eb_push[of ?e ?h] rd lh by (auto simp: tx_ready_def)
  let ?e2 = "ebuf_prepend e1 (int ENET_DIX_HEADER)"
  have e2: "eb_ok ?e2" "eb_view ?e2 = ?h @ eb_view ?e" using e1(2,3) unfolding lh by simp_all
  have ld: "eb_load ?e2 (eb_ptr ?e2) (unat (eb_length ?e2)) = Some (?h @ eb_view ?e)"
    using eb_load_all[OF e2(1)] unfolding e2(2) .
  have put: "Option.bind (ebuf_put_bytes (ebuf_seek ?e (- int ENET_DIX_HEADER)) (take ENET_ADDR_LEN dest)) (\<lambda>e.
      Option.bind (ebuf_put_bytes e (take ENET_ADDR_LEN (eth_hwaddr eth))) (\<lambda>e. Option.bind (ebuf_put_bytes e (take 2 (ep_proto ?p))) f)) = f e1"
    for f :: "ebuf \<Rightarrow> (int \<times> ether_info) option"
    using e1(1) unfolding lh by (simp add: put_bytes_bind)
  have "ep_ptype ?p = ETH_PTYPE_DIX" using rd by (simp add: tx_ready_def dix_port_def)
  then have "eth_send eth b dest = Some (cfe_write (set_buf eth b ?e2) (ep_dev ?p) (?h @ eb_view ?e))"
    unfolding eth_send_def Let_def put by (simp add: ld)
  moreover have "length (eb_data ?e2) = EB_DATA_SIZE" using e2(1) by (simp add: eb_ok_def)
  ultimately show ?thesis using wf
    by (simp add: cfe_write_def Let_def eth_same_def set_buf_def eth_packet_def eth_wf_def)
qed

lemma eth_free_sel [simp]:
  "eth_freelist (eth_free eth b) = eth_freelist eth @ [b]" "eth_bufpool (eth_free eth b) = eth_bufpool eth"
  "eth_ports (eth_free eth b) = eth_ports eth" "dev_out (eth_free eth b) = dev_out eth" "eth_hwaddr (eth_free eth b) = eth_hwaddr eth"
  "eth_devhandle (eth_free eth b) = eth_devhandle eth" "dev_wres (eth_free eth b) = dev_wres eth"
  "dev_ioctls (eth_free eth b) = dev_ioctls eth" "dev_ires (eth_free eth b) = dev_ires eth"
  by (simp_all add: eth_free_def)

lemma eth_same_free: "eth_same eth (eth_free eth' b) X = eth_same eth eth' X"
  by (simp add: eth_same_def eth_free_def)

lemma eth_same_set_buf: "eth_wf eth \<Longrightarrow> length (eb_data e) = EB_DATA_SIZE \<Longrightarrow> eth_same eth (set_buf eth b e) {b}"
  by (simp add: eth_same_def set_buf_def eth_wf_def)

lemma set_buf_sel [simp]:
  "eth_freelist (set_buf eth b e) = eth_freelist eth" "eth_bufpool (set_buf eth b e) = (eth_bufpool eth)(b := e)"
  "eth_ports (set_buf eth b e) = eth_ports eth" "dev_out (set_buf eth b e) = dev_out eth" "eth_hwaddr (set_buf eth b e) = eth_hwaddr eth"
  "eth_devhandle (set_buf eth b e) = eth_devhandle eth" "dev_wres (set_buf eth b e) = dev_wres eth"
  "dev_ioctls (set_buf eth b e) = dev_ioctls eth" "dev_ires (set_buf eth b e) = dev_ires eth"
  by (simp_all add: set_buf_def)

text \<open>A buffer from the free list, empty and with room for the header.\<close>

lemma eth_alloc_cases:
  assumes wf: "eth_wf eth" and p: "dix_port eth (int port)"
  shows "eth_freelist eth = [] \<Longrightarrow> eth_alloc eth port = (None, eth)"
    "eth_freelist eth = b # bs \<Longrightarrow> \<exists>eth'. eth_alloc eth port = (Some b, eth') \<and> eth_same eth eth' {b} \<and> eth_freelist eth' = bs \<and>
       dev_out eth' = dev_out eth \<and> eb_ok (eth_bufpool eth' b) \<and> eb_ptr (eth_bufpool eth' b) = int ENET_DIX_HEADER \<and>
       eb_view (eth_bufpool eth' b) = [] \<and> eb_port (eth_bufpool eth' b) = int port"
  using assms by (auto simp: eth_alloc_def eth_deqfree_def Let_def dix_port_def eth_same_def eth_wf_def ebuf_seek_def ebuf_init_tx_def
      eb_ok_def eb_view_def enet_consts)

section \<open>Reception\<close>

text \<open>A portal takes a frame if its protocol is that of the frame; the first one gets it.\<close>

definition port_takes :: "bytes \<Rightarrow> ether_port \<Rightarrow> bool" where
  "port_takes fr p = (ep_rxcallback p \<noteq> None \<and> ep_ptype p = ETH_PTYPE_DIX \<and> ep_proto p ! 0 = fr ! 12 \<and> ep_proto p ! 1 = fr ! 13)"

fun first_port :: "bytes \<Rightarrow> ether_port list \<Rightarrow> nat \<Rightarrow> nat option" where
  "first_port fr [] idx = None"
| "first_port fr (p # ps) idx = (if port_takes fr p then Some idx else first_port fr ps (idx + 1))"

lemma first_port_Some: "first_port fr ps idx = Some i \<Longrightarrow> idx \<le> i \<and> i - idx < length ps \<and> port_takes fr (ps ! (i - idx))"
proof (induction ps arbitrary: idx)
  case (Cons p ps)
  then show ?case by (cases "port_takes fr p") (auto simp: nth_Cons' dest!: Cons.IH split: if_splits)
qed simp

lemma eb_load_byte: "eb_ok e \<Longrightarrow> k < length (eb_view e) \<Longrightarrow> eb_load e (eb_ptr e + int k) 1 = Some [eb_view e ! k]"
  using eb_load_view[of e k 1] by (simp add: take_Suc_conv_app_nth hd_drop_conv_nth)

lemma eth_findport_loop_first:
  assumes "eb_ok e" "14 \<le> length (eb_view e)"
  shows "eth_findport_loop ps idx e = Some (first_port (eb_view e) ps idx,
    if first_port (eb_view e) ps idx = None then e else ebuf_skip e (int ENET_DIX_HEADER))"
proof (induction ps arbitrary: idx)
  case (Cons p ps)
  have "eb_load e (eb_ptr e + 12) 1 = Some [eb_view e ! 12]" "eb_load e (eb_ptr e + 13) 1 = Some [eb_view e ! 13]"
    using eb_load_byte[OF assms(1), of 12] eb_load_byte[OF assms(1), of 13] assms(2) by simp_all
  then show ?case using Cons by (auto simp: port_takes_def)
qed simp

text \<open>The portal that gets a frame: frames from a group address and short frames are dropped.\<close>

definition eth_accepts :: "ether_info \<Rightarrow> bytes \<Rightarrow> nat option" where
  "eth_accepts eth fr = (if fr ! 6 AND 1 \<noteq> 0 \<or> length fr < 60 then None else first_port fr (eth_ports eth) 0)"

lemma eth_findport_accepts:
  assumes "eb_ok e" "7 \<le> length (eb_view e)"
  shows "eth_findport eth e = Some (eth_accepts eth (eb_view e),
    if eth_accepts eth (eb_view e) = None then e else ebuf_skip e (int ENET_DIX_HEADER))"
proof -
  have l6: "eb_load e (eb_ptr e + 6) 1 = Some [eb_view e ! 6]" using eb_load_byte[OF assms(1), of 6] assms(2) by simp
  have len: "eb_length e < 60 \<longleftrightarrow> length (eb_view e) < 60" using length_eb_view[OF assms(1)] by (simp add: word_less_nat_alt)
  show ?thesis
  proof (cases "length (eb_view e) < 60")
    case False
    then show ?thesis using l6 len eth_findport_loop_first[OF assms(1)] by (simp add: eth_findport_def eth_accepts_def)
  qed (use l6 len in \<open>simp add: eth_findport_def eth_accepts_def\<close>)
qed

end
