(* ===== verification/Cfe_Arp.thy ===== *)
theory Cfe_Arp
  imports Cfe_Ether "HOL-Library.Multiset"
begin

text \<open>
  The address resolution of the boot loader, src/broadcom/src/cfe/cfe/net/net_arp.c, with the state of
  net_ip_internal.h: a table of eight entries, each unused, waiting for an answer or established, with a queue of
  the packets that wait.  None is an access outside a buffer or a null pointer.
\<close>

section \<open>State\<close>

definition ARP_OPCODE_REQUEST :: u32 where "ARP_OPCODE_REQUEST = 1"
definition ARP_OPCODE_REPLY :: u32 where "ARP_OPCODE_REPLY = 2"
definition ARP_HWADDRSPACE_ETHERNET :: u32 where "ARP_HWADDRSPACE_ETHERNET = 1"
definition PROTOSPACE_IP :: u32 where "PROTOSPACE_IP = 0x0800"
definition PROTOSPACE_ARP :: u32 where "PROTOSPACE_ARP = 0x0806"
definition ARP_KEEP_TIMER :: int where "ARP_KEEP_TIMER = 60"
definition ARP_QUERY_TIMER :: int where "ARP_QUERY_TIMER = 1"
definition ARP_QUERY_RETRIES :: int where "ARP_QUERY_RETRIES = 4"
definition ARP_TXWAIT_MAX :: nat where "ARP_TXWAIT_MAX = 2"
definition ARP_TABLE_SIZE :: nat where "ARP_TABLE_SIZE = 8"
definition IP_ADDR_LEN :: nat where "IP_ADDR_LEN = 4"

lemmas arp_consts = ARP_OPCODE_REQUEST_def ARP_OPCODE_REPLY_def ARP_HWADDRSPACE_ETHERNET_def PROTOSPACE_IP_def PROTOSPACE_ARP_def
  ARP_KEEP_TIMER_def ARP_QUERY_TIMER_def ARP_QUERY_RETRIES_def ARP_TXWAIT_MAX_def ARP_TABLE_SIZE_def IP_ADDR_LEN_def

datatype arpstate = ae_unused | ae_arping | ae_established

record arpentry =
  ae_state :: arpstate
  ae_usage :: u32
  ae_timer :: int
  ae_retries :: int
  ae_permanent :: bool
  ae_ipaddr :: bytes
  ae_ethaddr :: bytes
  ae_txqueue :: "nat list"

text \<open>The protocol handlers that the sources register with IP in a configuration without TCP.\<close>

datatype ip_cb = Cb_Udp | Cb_Icmp

record ip_protodisp =
  pd_protocol :: u8
  pd_cb :: "ip_cb option"

record ip_info =
  ip_addr :: bytes
  ip_netmask :: bytes
  ip_gateway :: bytes
  ip_nameserver :: bytes
  ip_domain :: "bytes option"
  ip_hostname :: "bytes option"
  eth_info :: ether_info
  ip_id :: u16
  ip_port :: int
  ip_protocols :: "ip_protodisp list"
  arp_table :: "arpentry list option"
  arp_port :: int
  arp_hwaddr :: bytes

definition set_eth :: "ip_info \<Rightarrow> ether_info \<Rightarrow> ip_info" where "set_eth ipi eth = ipi\<lparr>eth_info := eth\<rparr>"
definition set_entry :: "ip_info \<Rightarrow> nat \<Rightarrow> arpentry \<Rightarrow> ip_info" where
  "set_entry ipi i ae = ipi\<lparr>arp_table := map_option (\<lambda>t. t[i := ae]) (arp_table ipi)\<rparr>"

definition ip_addriszero :: "bytes \<Rightarrow> bool" where "ip_addriszero a = (a ! 0 OR a ! 1 OR a ! 2 OR a ! 3 = 0)"

section \<open>Messages\<close>

text \<open>The fields of a query or a reply: opcode, our addresses, the addresses of the target.\<close>

definition arp_fill :: "ebuf \<Rightarrow> u32 \<Rightarrow> bytes \<Rightarrow> bytes \<Rightarrow> bytes \<Rightarrow> bytes \<Rightarrow> ebuf option" where
  "arp_fill e opcode shw sip thw tip = do {
     e \<leftarrow> ebuf_append_u16_be e ARP_HWADDRSPACE_ETHERNET;
     e \<leftarrow> ebuf_append_u16_be e PROTOSPACE_IP;
     e \<leftarrow> ebuf_append_u8 e (of_nat ENET_ADDR_LEN);
     e \<leftarrow> ebuf_append_u8 e (of_nat IP_ADDR_LEN);
     e \<leftarrow> ebuf_append_u16_be e opcode;
     e \<leftarrow> ebuf_append_bytes e (take ENET_ADDR_LEN shw);
     e \<leftarrow> ebuf_append_bytes e (take IP_ADDR_LEN sip);
     e \<leftarrow> ebuf_append_bytes e (take ENET_ADDR_LEN thw);
     ebuf_append_bytes e (take IP_ADDR_LEN tip) }"

definition arp_tx_query :: "ip_info \<Rightarrow> bytes \<Rightarrow> (int \<times> ip_info) option" where
  "arp_tx_query ipi destaddr = (case eth_alloc (eth_info ipi) (nat (arp_port ipi)) of
     (None, eth) \<Rightarrow> Some (-1, set_eth ipi eth)
   | (Some b, eth) \<Rightarrow> do {
       e \<leftarrow> arp_fill (eth_bufpool eth b) ARP_OPCODE_REQUEST (arp_hwaddr ipi) (ip_addr ipi) (replicate ENET_ADDR_LEN 0) destaddr;
       (_, eth) \<leftarrow> eth_send (set_buf eth b e) b eth_broadcast;
       Some (0, set_eth ipi (eth_free eth b)) })"

definition arp_rx_query :: "ip_info \<Rightarrow> bytes \<Rightarrow> bytes \<Rightarrow> bytes \<Rightarrow> (int \<times> ip_info) option" where
  "arp_rx_query ipi srcaddr targethw targetip = (case eth_alloc (eth_info ipi) (nat (arp_port ipi)) of
     (None, eth) \<Rightarrow> Some (-1, set_eth ipi eth)
   | (Some b, eth) \<Rightarrow> do {
       e \<leftarrow> arp_fill (eth_bufpool eth b) ARP_OPCODE_REPLY (arp_hwaddr ipi) (ip_addr ipi) targethw targetip;
       (_, eth) \<leftarrow> eth_send (set_buf eth b e) b srcaddr;
       Some (0, set_eth ipi (eth_free eth b)) })"

section \<open>The table\<close>

fun eth_free_all :: "ether_info \<Rightarrow> nat list \<Rightarrow> ether_info" where
  "eth_free_all eth [] = eth"
| "eth_free_all eth (b # bs) = eth_free_all (eth_free eth b) bs"

definition arp_delete :: "ip_info \<Rightarrow> nat \<Rightarrow> ip_info option" where
  "arp_delete ipi i = do { t \<leftarrow> arp_table ipi; let ae = t ! i; ipi = set_eth ipi (eth_free_all (eth_info ipi) (ae_txqueue ae)) in
     Some (set_entry ipi i (ae\<lparr>ae_txqueue := [], ae_timer := 0, ae_usage := 0, ae_retries := 0, ae_state := ae_unused\<rparr>)) }"

fun arp_send_all :: "ether_info \<Rightarrow> nat list \<Rightarrow> bytes \<Rightarrow> ether_info option" where
  "arp_send_all eth [] dest = Some eth"
| "arp_send_all eth (b # bs) dest = do { (_, eth) \<leftarrow> eth_send eth b dest; arp_send_all (eth_free eth b) bs dest }"

definition arp_tx_waiting :: "ip_info \<Rightarrow> nat \<Rightarrow> ip_info option" where
  "arp_tx_waiting ipi i = do { t \<leftarrow> arp_table ipi; let ae = t ! i in do {
     eth \<leftarrow> arp_send_all (eth_info ipi) (ae_txqueue ae) (ae_ethaddr ae);
     Some (set_entry (set_eth ipi eth) i (ae\<lparr>ae_txqueue := []\<rparr>)) } }"

fun arp_find_unused :: "arpentry list \<Rightarrow> nat \<Rightarrow> nat option" where
  "arp_find_unused [] idx = None"
| "arp_find_unused (ae # t) idx = (if ae_state ae = ae_unused then Some idx else arp_find_unused t (idx + 1))"

fun arp_victim :: "arpentry list \<Rightarrow> nat \<Rightarrow> int \<Rightarrow> nat option \<Rightarrow> nat option" where
  "arp_victim [] idx minusage victim = victim"
| "arp_victim (ae # t) idx minusage victim = (if sint (ae_usage ae) < minusage then arp_victim t (idx + 1) (sint (ae_usage ae)) (Some idx)
     else arp_victim t (idx + 1) minusage victim)"

definition arp_new_entry :: "ip_info \<Rightarrow> (nat \<times> ip_info) option" where
  "arp_new_entry ipi = do { t \<leftarrow> arp_table ipi; (case arp_find_unused t 0 of Some i \<Rightarrow> Some (i, ipi)
     | None \<Rightarrow> let victim = (case arp_victim t 0 0x7FFFFFFF None of None \<Rightarrow> 0 | Some i \<Rightarrow> i) in do {
         ipi \<leftarrow> arp_delete ipi victim; Some (victim, ipi) }) }"

fun arp_find_idx :: "arpentry list \<Rightarrow> bytes \<Rightarrow> nat \<Rightarrow> nat option" where
  "arp_find_idx [] ipaddr idx = None"
| "arp_find_idx (ae # t) ipaddr idx = (if ae_state ae \<noteq> ae_unused \<and> take IP_ADDR_LEN (ae_ipaddr ae) = take IP_ADDR_LEN ipaddr then Some idx
     else arp_find_idx t ipaddr (idx + 1))"

definition arp_find_entry :: "ip_info \<Rightarrow> bytes \<Rightarrow> (nat option \<times> ip_info) option" where
  "arp_find_entry ipi ipaddr = do { t \<leftarrow> arp_table ipi; (case arp_find_idx t ipaddr 0 of None \<Rightarrow> Some (None, ipi)
     | Some i \<Rightarrow> let ae = t ! i in
         Some (Some i, if ae_state ae = ae_established then set_entry ipi i (ae\<lparr>ae_timer := ARP_KEEP_TIMER\<rparr>) else ipi)) }"

definition arp_add :: "ip_info \<Rightarrow> bytes \<Rightarrow> bytes \<Rightarrow> ip_info option" where
  "arp_add ipi destip desthw = do { (r, ipi) \<leftarrow> arp_find_entry ipi desthw;
     (i, ipi) \<leftarrow> (case r of None \<Rightarrow> arp_new_entry ipi | Some i \<Rightarrow> Some (i, ipi));
     t \<leftarrow> arp_table ipi;
     arp_tx_waiting (set_entry ipi i ((t ! i)\<lparr>ae_ipaddr := take IP_ADDR_LEN destip, ae_ethaddr := take ENET_ADDR_LEN desthw,
       ae_retries := 0, ae_timer := 0, ae_permanent := True, ae_state := ae_established\<rparr>)) i }"

definition arp_lookup :: "ip_info \<Rightarrow> bytes \<Rightarrow> (bytes option \<times> ip_info) option" where
  "arp_lookup ipi destip = do { (r, ipi) \<leftarrow> arp_find_entry ipi destip;
     (case r of None \<Rightarrow> Some (None, ipi) | Some i \<Rightarrow> do { t \<leftarrow> arp_table ipi; Some (Some (ae_ethaddr (t ! i)), ipi) }) }"

definition arp_lookup_and_send :: "ip_info \<Rightarrow> nat \<Rightarrow> bytes \<Rightarrow> (int \<times> ip_info) option" where
  "arp_lookup_and_send ipi b dest = do { (r, ipi) \<leftarrow> arp_find_entry ipi dest;
     (case r of None \<Rightarrow> do {
         (i, ipi) \<leftarrow> arp_new_entry ipi; t \<leftarrow> arp_table ipi;
         let ae = (t ! i)\<lparr>ae_ipaddr := take IP_ADDR_LEN dest, ae_txqueue := ae_txqueue (t ! i) @ [b], ae_retries := ARP_QUERY_RETRIES,
               ae_timer := ARP_QUERY_TIMER, ae_state := ae_arping\<rparr> in do {
         (_, ipi) \<leftarrow> arp_tx_query (set_entry ipi i ae) (ae_ipaddr ae);
         Some (0, ipi) } }
     | Some i \<Rightarrow> do { t \<leftarrow> arp_table ipi; let ae = t ! i in
         if ae_state ae = ae_established then
           let ae = ae\<lparr>ae_usage := ae_usage ae + 1\<rparr>;
               ae = (if \<not> ae_permanent ae then ae\<lparr>ae_timer := ARP_KEEP_TIMER\<rparr> else ae) in do {
           (_, eth) \<leftarrow> eth_send (eth_info ipi) b (ae_ethaddr ae);
           Some (0, set_entry (set_eth ipi (eth_free eth b)) i ae) }
         else if length (ae_txqueue ae) < ARP_TXWAIT_MAX then Some (0, set_entry ipi i (ae\<lparr>ae_txqueue := ae_txqueue ae @ [b]\<rparr>))
         else Some (0, set_eth ipi (eth_free (eth_info ipi) b)) }) }"

fun arp_rx_response_loop :: "ip_info \<Rightarrow> bytes \<Rightarrow> bytes \<Rightarrow> nat list \<Rightarrow> ip_info option" where
  "arp_rx_response_loop ipi senderhw senderip [] = Some ipi"
| "arp_rx_response_loop ipi senderhw senderip (i # is) = do { t \<leftarrow> arp_table ipi; let ae = t ! i in do {
     ipi \<leftarrow> (if ae_state ae \<noteq> ae_unused \<and> take IP_ADDR_LEN (ae_ipaddr ae) = take IP_ADDR_LEN senderip
       then arp_tx_waiting (set_entry ipi i (ae\<lparr>ae_ethaddr := take ENET_ADDR_LEN senderhw, ae_state := ae_established,
         ae_timer := ARP_KEEP_TIMER, ae_retries := 0, ae_permanent := False\<rparr>)) i
       else Some ipi);
     arp_rx_response_loop ipi senderhw senderip is } }"

definition arp_rx_response :: "ip_info \<Rightarrow> bytes \<Rightarrow> bytes \<Rightarrow> (int \<times> ip_info) option" where
  "arp_rx_response ipi senderhw senderip = do { ipi \<leftarrow> arp_rx_response_loop ipi senderhw senderip [0..<ARP_TABLE_SIZE]; Some (0, ipi) }"

definition put_buf :: "ip_info \<Rightarrow> nat \<Rightarrow> ebuf \<Rightarrow> ip_info" where
  "put_buf ipi b e = set_eth ipi (set_buf (eth_info ipi) b e)"

definition arp_rx_callback :: "ip_info \<Rightarrow> nat \<Rightarrow> (int \<times> ip_info) option" where
  "arp_rx_callback ipi b = (let e = eth_bufpool (eth_info ipi) b; drop' = (\<lambda>e. Some (ETH_DROP, put_buf ipi b e)) in
     if eb_length e < 28 then drop' e else do {
     (t16, e) \<leftarrow> ebuf_get_u16_be e; if ucast t16 \<noteq> ARP_HWADDRSPACE_ETHERNET then drop' e else do {
     (t16, e) \<leftarrow> ebuf_get_u16_be e; if ucast t16 \<noteq> PROTOSPACE_IP then drop' e else do {
     (t8, e) \<leftarrow> ebuf_get_u8 e; if unat t8 \<noteq> ENET_ADDR_LEN then drop' e else do {
     (t8, e) \<leftarrow> ebuf_get_u8 e; if unat t8 \<noteq> IP_ADDR_LEN then drop' e else do {
     (opcode, e) \<leftarrow> ebuf_get_u16_be e;
     (senderhw, e) \<leftarrow> ebuf_get_bytes e ENET_ADDR_LEN;
     (senderip, e) \<leftarrow> ebuf_get_bytes e IP_ADDR_LEN;
     (targethw, e) \<leftarrow> ebuf_get_bytes e ENET_ADDR_LEN;
     (targetip, e) \<leftarrow> ebuf_get_bytes e IP_ADDR_LEN;
     if targetip \<noteq> take IP_ADDR_LEN (ip_addr ipi) then drop' e
     else if ucast opcode = ARP_OPCODE_REQUEST then do {
       src \<leftarrow> ebuf_srcaddr e; (_, ipi) \<leftarrow> arp_rx_query (put_buf ipi b e) src senderhw senderip; Some (ETH_DROP, ipi) }
     else if ucast opcode = ARP_OPCODE_REPLY then do {
       (_, ipi) \<leftarrow> arp_rx_response (put_buf ipi b e) senderhw senderip; Some (ETH_DROP, ipi) }
     else drop' e } } } } })"

section \<open>Timer, set-up and administration\<close>

definition arp_tick_entry :: "ip_info \<Rightarrow> nat \<Rightarrow> ip_info option" where
  "arp_tick_entry ipi i = do { t \<leftarrow> arp_table ipi; let ae = t ! i in case ae_state ae of
     ae_unused \<Rightarrow> Some ipi
   | ae_arping \<Rightarrow> let ae = ae\<lparr>ae_timer := ae_timer ae - 1\<rparr> in
       if ae_timer ae \<le> 0 then
         if ae_retries ae = 0 then arp_delete (set_entry ipi i ae) i
         else let ae = ae\<lparr>ae_retries := ae_retries ae - 1, ae_timer := ARP_QUERY_TIMER\<rparr> in
           do { (_, ipi) \<leftarrow> arp_tx_query (set_entry ipi i ae) (ae_ipaddr ae); Some ipi }
       else Some (set_entry ipi i ae)
   | ae_established \<Rightarrow> if ae_timer ae = 0 then Some ipi
       else let ae = ae\<lparr>ae_timer := ae_timer ae - 1\<rparr> in
         if ae_timer ae = 0 then arp_delete (set_entry ipi i ae) i else Some (set_entry ipi i ae) }"

fun arp_tick_loop :: "ip_info \<Rightarrow> nat list \<Rightarrow> ip_info option" where
  "arp_tick_loop ipi [] = Some ipi"
| "arp_tick_loop ipi (i # is) = do { ipi \<leftarrow> arp_tick_entry ipi i; arp_tick_loop ipi is }"

definition arp_timer_tick :: "ip_info \<Rightarrow> ip_info option" where "arp_timer_tick ipi = arp_tick_loop ipi [0..<ARP_TABLE_SIZE]"

definition arp_send_gratuitous :: "ip_info \<Rightarrow> ip_info option" where
  "arp_send_gratuitous ipi = (if \<not> ip_addriszero (ip_addr ipi) then do { (_, ipi) \<leftarrow> arp_tx_query ipi (ip_addr ipi); Some ipi } else Some ipi)"

text \<open>\<open>mem\<close> is the memory of the table, or None; a failed allocation returns NULL, which is 0.\<close>

definition arp_init :: "ip_info \<Rightarrow> arpentry list option \<Rightarrow> (int \<times> ip_info) option" where
  "arp_init ipi mem = (let ipi = ipi\<lparr>arp_table := mem\<rparr> in
     if arp_table ipi = None then Some (0, ipi)
     else let ipi = ipi\<lparr>arp_table := map_option (map (\<lambda>ae. ae\<lparr>ae_state := ae_unused, ae_timer := 0, ae_usage := 0, ae_retries := 0,
                ae_permanent := False, ae_txqueue := []\<rparr>)) (arp_table ipi)\<rparr>;
              (port, eth) = eth_open (eth_info ipi) ETH_PTYPE_DIX [hi8 PROTOSPACE_ARP, lo8 PROTOSPACE_ARP] Cb_Arp;
              ipi = (set_eth ipi eth)\<lparr>arp_port := port\<rparr>
       in if arp_port ipi < 0 then Some (-1, ipi\<lparr>arp_table := None\<rparr>)
       else do { ipi \<leftarrow> arp_send_gratuitous (ipi\<lparr>arp_hwaddr := eth_gethwaddr (eth_info ipi)\<rparr>); Some (0, ipi) })"

fun arp_delete_used :: "ip_info \<Rightarrow> nat list \<Rightarrow> ip_info option" where
  "arp_delete_used ipi [] = Some ipi"
| "arp_delete_used ipi (i # is) = do { t \<leftarrow> arp_table ipi;
     ipi \<leftarrow> (if ae_state (t ! i) \<noteq> ae_unused then arp_delete ipi i else Some ipi); arp_delete_used ipi is }"

definition arp_uninit :: "ip_info \<Rightarrow> ip_info option" where
  "arp_uninit ipi = do { ipi \<leftarrow> arp_delete_used (set_eth ipi (eth_close (eth_info ipi) (nat (arp_port ipi)))) [0..<ARP_TABLE_SIZE];
     Some (ipi\<lparr>arp_table := None, arp_port := -1\<rparr>) }"

fun arp_enumerate_loop :: "arpentry list \<Rightarrow> int \<Rightarrow> (bytes \<times> bytes) option" where
  "arp_enumerate_loop [] entrynum = None"
| "arp_enumerate_loop (ae # t) entrynum = (if ae_state ae \<noteq> ae_unused
     then if entrynum = 0 then Some (take IP_ADDR_LEN (ae_ipaddr ae), take ENET_ADDR_LEN (ae_ethaddr ae)) else arp_enumerate_loop t (entrynum - 1)
     else arp_enumerate_loop t entrynum)"

definition arp_enumerate :: "ip_info \<Rightarrow> int \<Rightarrow> (int \<times> (bytes \<times> bytes) option) option" where
  "arp_enumerate ipi entrynum = do { t \<leftarrow> arp_table ipi;
     Some (case arp_enumerate_loop t entrynum of None \<Rightarrow> (-1, None) | Some r \<Rightarrow> (0, Some r)) }"

definition arp_delete_ip :: "ip_info \<Rightarrow> bytes \<Rightarrow> (int \<times> ip_info) option" where
  "arp_delete_ip ipi ipaddr = do { (r, ipi) \<leftarrow> arp_find_entry ipi ipaddr;
     (case r of Some i \<Rightarrow> do { ipi \<leftarrow> arp_delete ipi i; Some (0, ipi) } | None \<Rightarrow> Some (-1, ipi)) }"

section \<open>Messages on the wire\<close>

definition arp_msg :: "u32 \<Rightarrow> bytes \<Rightarrow> bytes \<Rightarrow> bytes \<Rightarrow> bytes \<Rightarrow> bytes" where
  "arp_msg opcode shw sip thw tip = [0, 1, 8, 0, 6, 4, hi8 opcode, lo8 opcode] @ take 6 shw @ take 4 sip @ take 6 thw @ take 4 tip"

lemma arp_msg_consts: "hi8 ARP_HWADDRSPACE_ETHERNET = 0" "lo8 ARP_HWADDRSPACE_ETHERNET = 1" "hi8 PROTOSPACE_IP = 8" "lo8 PROTOSPACE_IP = 0"
  by (simp_all add: hi8_def lo8_def arp_consts)

lemma arp_fill_msg:
  assumes "eb_ok e" "eb_view e = []" "nat (eb_ptr e) \<le> 1000"
  shows "\<exists>e'. arp_fill e opcode shw sip thw tip = Some e' \<and> eb_ok e' \<and> eb_view e' = arp_msg opcode shw sip thw tip \<and> eb_ptr e' = eb_ptr e \<and> eb_frame e e'"
proof -
  have z: "unat (eb_length e) = 0" using length_eb_view[OF assms(1)] assms(2) by simp
  have "arp_fill e opcode shw sip thw tip = ebuf_append_bytes e (arp_msg opcode shw sip thw tip)"
    using assms z by (simp add: arp_fill_def append_simps arp_msg_def arp_msg_consts enet_consts IP_ADDR_LEN_def)
  then show ?thesis using eb_append[OF assms(1), of "arp_msg opcode shw sip thw tip"] assms z
    by (simp add: arp_msg_def enet_consts)
qed

text \<open>Sending a message takes a buffer and gives it back; without a free buffer nothing is sent.\<close>

definition arp_out :: "ip_info \<Rightarrow> bytes \<Rightarrow> bytes \<Rightarrow> (int \<times> bytes) list" where
  "arp_out ipi dest msg = (let eth = eth_info ipi; p = eth_ports eth ! nat (arp_port ipi) in
     if eth_freelist eth = [] then [] else [(ep_dev p, take ENET_ADDR_LEN dest @ eth_hwaddr eth @ take 2 (ep_proto p) @ msg)])"

definition tx_done :: "ether_info \<Rightarrow> ether_info \<Rightarrow> (int \<times> bytes) list \<Rightarrow> bool" where
  "tx_done eth eth' out = (eth_same eth eth' (set (eth_freelist eth)) \<and> eth_freelist eth' = rotate1 (eth_freelist eth) \<and> dev_out eth' = dev_out eth @ out)"

lemma dix_port_nat: "dix_port eth p \<Longrightarrow> dix_port eth (int (nat p))"
  by (simp add: dix_port_def)

lemma arp_tx_done:
  assumes wf: "eth_wf eth" and p: "dix_port eth port" and d: "ENET_ADDR_LEN \<le> length dest" and al: "eth_alloc eth (nat port) = (Some b, eth1)"
  shows "\<exists>e res eth2. arp_fill (eth_bufpool eth1 b) opcode shw sip thw tip = Some e \<and> eth_send (set_buf eth1 b e) b dest = Some (res, eth2) \<and>
    tx_done eth (eth_free eth2 b) [(ep_dev (eth_ports eth ! nat port), take ENET_ADDR_LEN dest @ eth_hwaddr eth @
      take 2 (ep_proto (eth_ports eth ! nat port)) @ arp_msg opcode shw sip thw tip)]"
proof -
  note p' = dix_port_nat[OF p]
  obtain bs where fl: "eth_freelist eth = b # bs"
    using al eth_alloc_cases[OF wf p'] by (cases "eth_freelist eth") auto
  have a: "eth_same eth eth1 {b}" "eth_freelist eth1 = bs" "dev_out eth1 = dev_out eth" "eb_ok (eth_bufpool eth1 b)"
    "eb_ptr (eth_bufpool eth1 b) = int ENET_DIX_HEADER" "eb_view (eth_bufpool eth1 b) = []" "eb_port (eth_bufpool eth1 b) = port"
    using eth_alloc_cases(2)[OF wf p' fl] al p by (auto simp: dix_port_def)
  obtain e where e: "arp_fill (eth_bufpool eth1 b) opcode shw sip thw tip = Some e" "eb_ok e" "eb_view e = arp_msg opcode shw sip thw tip"
    "eb_ptr e = int ENET_DIX_HEADER" "eb_frame (eth_bufpool eth1 b) e"
    using arp_fill_msg[OF a(4) a(6), of opcode shw sip thw tip] a(5) by (auto simp: enet_consts)
  let ?eth = "set_buf eth1 b e"
  have wf1: "eth_wf eth1" by (rule eth_same_wf[OF a(1) wf])
  have s: "eth_same eth1 ?eth {b}" using e(2) wf1 by (intro eth_same_set_buf) (simp_all add: eb_ok_def)
  have port: "eb_port e = port" using e(5) a(7) by (simp add: eb_frame_def)
  have "tx_ready ?eth 0 b" using e p eth_same_dix[OF a(1)] eth_same_dix[OF s] port by (simp add: tx_ready_def)
  from eth_send_ok[OF eth_same_wf[OF s wf1] this d] obtain res eth2 where
    t: "eth_send ?eth b dest = Some (res, eth2)" "eth_same ?eth eth2 {b}" "eth_freelist eth2 = bs" "dev_out eth2 = dev_out eth @ [eth_packet ?eth b dest]"
    using a by auto
  have "eth_same eth eth2 {b}" by (rule eth_same_trans[OF eth_same_trans[OF a(1) s] t(2)]) auto
  then have "eth_same eth (eth_free eth2 b) (set (eth_freelist eth))" unfolding eth_same_free by (rule eth_same_mono) (simp add: fl)
  moreover have "eth_ports eth1 = eth_ports eth" "eth_hwaddr eth1 = eth_hwaddr eth" using a(1) by (simp_all add: eth_same_def)
  ultimately have "tx_done eth (eth_free eth2 b) [(ep_dev (eth_ports eth ! nat port), take ENET_ADDR_LEN dest @ eth_hwaddr eth @
      take 2 (ep_proto (eth_ports eth ! nat port)) @ arp_msg opcode shw sip thw tip)]"
    using t fl port e(3) by (simp add: tx_done_def eth_packet_def Let_def)
  then show ?thesis using e(1) t(1) by blast
qed

lemma tx_done_refl: "eth_wf eth \<Longrightarrow> eth_freelist eth = [] \<Longrightarrow> tx_done eth eth []"
  by (simp add: tx_done_def eth_same_refl)

lemma arp_tx_query_ok:
  assumes wf: "eth_wf (eth_info ipi)" and p: "dix_port (eth_info ipi) (arp_port ipi)"
  shows "\<exists>r eth. arp_tx_query ipi dest = Some (r, set_eth ipi eth) \<and>
    tx_done (eth_info ipi) eth (arp_out ipi eth_broadcast (arp_msg ARP_OPCODE_REQUEST (arp_hwaddr ipi) (ip_addr ipi) (replicate 6 0) dest))"
proof (cases "eth_freelist (eth_info ipi)")
  case Nil
  then have "eth_alloc (eth_info ipi) (nat (arp_port ipi)) = (None, eth_info ipi)"
    using eth_alloc_cases(1)[OF wf dix_port_nat[OF p]] by simp
  then show ?thesis using Nil tx_done_refl[OF wf Nil] by (auto simp: arp_tx_query_def arp_out_def Let_def)
next
  case (Cons b bs)
  note p' = dix_port_nat[OF p]
  obtain eth1 where al: "eth_alloc (eth_info ipi) (nat (arp_port ipi)) = (Some b, eth1)" using eth_alloc_cases(2)[OF wf p' Cons] by blast
  have d: "ENET_ADDR_LEN \<le> length eth_broadcast" by (simp add: eth_broadcast_def enet_consts)
  from arp_tx_done[OF wf p d al, of ARP_OPCODE_REQUEST "arp_hwaddr ipi" "ip_addr ipi" "replicate 6 0" dest] Cons show ?thesis
    by (auto simp: arp_tx_query_def al arp_out_def Let_def enet_consts)
qed

lemma arp_rx_query_ok:
  assumes wf: "eth_wf (eth_info ipi)" and p: "dix_port (eth_info ipi) (arp_port ipi)" and d: "length src = ENET_ADDR_LEN"
  shows "\<exists>r eth. arp_rx_query ipi src thw tip = Some (r, set_eth ipi eth) \<and>
    tx_done (eth_info ipi) eth (arp_out ipi src (arp_msg ARP_OPCODE_REPLY (arp_hwaddr ipi) (ip_addr ipi) thw tip))"
proof (cases "eth_freelist (eth_info ipi)")
  case Nil
  then have "eth_alloc (eth_info ipi) (nat (arp_port ipi)) = (None, eth_info ipi)"
    using eth_alloc_cases(1)[OF wf dix_port_nat[OF p]] by simp
  then show ?thesis using Nil tx_done_refl[OF wf Nil] by (auto simp: arp_rx_query_def arp_out_def Let_def)
next
  case (Cons b bs)
  note p' = dix_port_nat[OF p]
  obtain eth1 where al: "eth_alloc (eth_info ipi) (nat (arp_port ipi)) = (Some b, eth1)" using eth_alloc_cases(2)[OF wf p' Cons] by blast
  from arp_tx_done[OF wf p _ al, of src ARP_OPCODE_REPLY "arp_hwaddr ipi" "ip_addr ipi" thw tip] Cons d show ?thesis
    by (auto simp: arp_rx_query_def al arp_out_def Let_def)
qed

section \<open>The buffers and the invariant\<close>

text \<open>The buffers that the layer holds: the free ones and those that wait for an address.\<close>

definition waiting :: "arpentry list \<Rightarrow> nat list" where "waiting t = concat (map ae_txqueue t)"

definition ip_bufs :: "ip_info \<Rightarrow> nat multiset" where
  "ip_bufs ipi = mset (eth_freelist (eth_info ipi)) + mset (waiting (the (arp_table ipi)))"

definition arp_ent_ok :: "arpentry \<Rightarrow> bool" where
  "arp_ent_ok ae = (case ae_state ae of ae_unused \<Rightarrow> ae_txqueue ae = []
     | ae_arping \<Rightarrow> length (ae_txqueue ae) \<le> ARP_TXWAIT_MAX \<and> length (ae_ipaddr ae) = IP_ADDR_LEN \<and> 0 \<le> ae_retries ae
     | ae_established \<Rightarrow> ae_txqueue ae = [] \<and> length (ae_ipaddr ae) = IP_ADDR_LEN \<and> length (ae_ethaddr ae) = ENET_ADDR_LEN)"

definition ip_wf :: "ip_info \<Rightarrow> bool" where
  "ip_wf ipi = (eth_wf (eth_info ipi) \<and> dix_port (eth_info ipi) (arp_port ipi) \<and> dix_port (eth_info ipi) (ip_port ipi) \<and>
     (\<forall>x. count (ip_bufs ipi) x \<le> 1) \<and>
     (case arp_table ipi of None \<Rightarrow> False | Some t \<Rightarrow> length t = ARP_TABLE_SIZE \<and> (\<forall>ae \<in> set t. arp_ent_ok ae) \<and>
        (\<forall>b \<in> set (waiting t). tx_ready (eth_info ipi) 0 b)))"

definition ip_rest :: "ip_info \<Rightarrow> ip_info \<Rightarrow> bool" where
  "ip_rest ipi ipi' = (ip_addr ipi' = ip_addr ipi \<and> ip_netmask ipi' = ip_netmask ipi \<and> ip_gateway ipi' = ip_gateway ipi \<and>
     ip_nameserver ipi' = ip_nameserver ipi \<and> ip_domain ipi' = ip_domain ipi \<and> ip_hostname ipi' = ip_hostname ipi \<and>
     ip_port ipi' = ip_port ipi \<and> ip_protocols ipi' = ip_protocols ipi \<and> arp_port ipi' = arp_port ipi \<and> arp_hwaddr ipi' = arp_hwaddr ipi)"

text \<open>One step of the layer: it gets the buffers \<open>M\<close> and sends the frames \<open>out\<close>.\<close>

definition arp_step :: "ip_info \<Rightarrow> ip_info \<Rightarrow> nat multiset \<Rightarrow> (int \<times> bytes) list \<Rightarrow> bool" where
  "arp_step ipi ipi' M out = (ip_wf ipi' \<and> ip_bufs ipi' = ip_bufs ipi + M \<and>
     eth_same (eth_info ipi) (eth_info ipi') (set_mset (ip_bufs ipi + M)) \<and> dev_out (eth_info ipi') = dev_out (eth_info ipi) @ out \<and>
     ip_rest ipi ipi')"

lemma arp_step_wf: "arp_step ipi ipi' M out \<Longrightarrow> ip_wf ipi'"
  by (simp add: arp_step_def)

lemma arp_step_refl: "ip_wf ipi \<Longrightarrow> arp_step ipi ipi {#} []"
  by (simp add: arp_step_def ip_wf_def eth_same_refl ip_rest_def)

lemma ip_rest_trans: "ip_rest a b \<Longrightarrow> ip_rest b c \<Longrightarrow> ip_rest a c"
  by (simp add: ip_rest_def)

lemma arp_step_trans:
  assumes "arp_step a b M o1" "arp_step b c N o2"
  shows "arp_step a c (M + N) (o1 @ o2)"
proof -
  have b: "ip_bufs b = ip_bufs a + M" "ip_bufs c = ip_bufs b + N" "eth_same (eth_info a) (eth_info b) (set_mset (ip_bufs a + M))"
    "eth_same (eth_info b) (eth_info c) (set_mset (ip_bufs b + N))" "ip_rest a b" "ip_rest b c" using assms by (simp_all add: arp_step_def)
  have "eth_same (eth_info a) (eth_info c) (set_mset (ip_bufs a + (M + N)))"
    by (rule eth_same_trans[OF b(3,4)]) (auto simp: b(1))
  moreover have "ip_bufs c = ip_bufs a + (M + N)" unfolding b(2) b(1) by (rule add.assoc)
  moreover have "ip_rest a c" by (rule ip_rest_trans[OF b(5,6)])
  ultimately show ?thesis using assms by (simp add: arp_step_def)
qed

lemma ip_wfE:
  assumes "ip_wf ipi"
  obtains t where "arp_table ipi = Some t" "length t = ARP_TABLE_SIZE" "\<And>i. i < ARP_TABLE_SIZE \<Longrightarrow> arp_ent_ok (t ! i)"
    "eth_wf (eth_info ipi)" "dix_port (eth_info ipi) (arp_port ipi)" "\<And>x. count (ip_bufs ipi) x \<le> 1"
    "\<And>b. b \<in> set (waiting t) \<Longrightarrow> tx_ready (eth_info ipi) 0 b"
  using assms by (auto simp: ip_wf_def split: option.splits)

lemma mset_waiting_upd: "i < length t \<Longrightarrow> mset (waiting (t[i := ae])) + mset (ae_txqueue (t ! i)) = mset (waiting t) + mset (ae_txqueue ae)"
proof -
  assume i: "i < length t"
  have "t = take i t @ t ! i # drop (Suc i) t" using i by (rule id_take_nth_drop)
  then have "mset (waiting t) = mset (waiting (take i t)) + mset (ae_txqueue (t ! i)) + mset (waiting (drop (Suc i) t))"
    by (metis waiting_def add.assoc concat.simps(2) list.simps(9) map_append concat_append mset_append)
  moreover have "mset (waiting (t[i := ae])) = mset (waiting (take i t)) + mset (ae_txqueue ae) + mset (waiting (drop (Suc i) t))"
    using i by (simp add: waiting_def upd_conv_take_nth_drop)
  ultimately show ?thesis by (simp add: ac_simps)
qed

lemma waiting_upd_sub: "i < length t \<Longrightarrow> b \<in> set (waiting (t[i := ae])) \<Longrightarrow> b \<notin> set (ae_txqueue ae) \<Longrightarrow> \<exists>j < length t. j \<noteq> i \<and> b \<in> set (ae_txqueue (t ! j))"
proof -
  assume i: "i < length t" and b: "b \<in> set (waiting (t[i := ae]))" and n: "b \<notin> set (ae_txqueue ae)"
  obtain ae' where "ae' \<in> set (t[i := ae])" "b \<in> set (ae_txqueue ae')" using b by (auto simp: waiting_def)
  then obtain j where j: "j < length t" "b \<in> set (ae_txqueue (t[i := ae] ! j))" by (metis in_set_conv_nth length_list_update)
  then have "j \<noteq> i" using n i by auto
  then show ?thesis using j by auto
qed

lemma queue_waiting: "i < length t \<Longrightarrow> b \<in> set (ae_txqueue (t ! i)) \<Longrightarrow> b \<in> set (waiting t)"
  by (auto simp: waiting_def intro!: bexI[of _ "t ! i"])

text \<open>A buffer of another queue is not free and not in this queue.\<close>

lemma count_mset_le: "(\<And>x. count (M + mset xs + N) x \<le> 1) \<Longrightarrow> distinct xs"
proof (rule ccontr)
  assume a: "\<And>x. count (M + mset xs + N) x \<le> 1" and "\<not> distinct xs"
  then obtain as b cs ds where "xs = as @ [b] @ cs @ [b] @ ds" by (metis not_distinct_decomp)
  then have "2 \<le> count (mset xs) b" by simp
  then show False using a[of b] by simp
qed

lemma two_counts: "b \<in># M \<Longrightarrow> b \<in># N \<Longrightarrow> 2 \<le> count (M + N) b"
  by (metis add_mono count_greater_eq_one_iff count_union one_add_one)

lemma other_queue:
  assumes u: "\<And>x. count (ip_bufs ipi) x \<le> 1" and t: "arp_table ipi = Some t" and ij: "i < length t" "j < length t" "j \<noteq> i"
    and b: "b \<in> set (ae_txqueue (t ! j))"
  shows "b \<notin> set (eth_freelist (eth_info ipi)) \<union> set (ae_txqueue (t ! i))"
proof
  assume c: "b \<in> set (eth_freelist (eth_info ipi)) \<union> set (ae_txqueue (t ! i))"
  have w: "mset (waiting t) = mset (waiting (t[j := (t ! j)\<lparr>ae_txqueue := []\<rparr>])) + mset (ae_txqueue (t ! j))"
    using mset_waiting_upd[OF ij(2), of "(t ! j)\<lparr>ae_txqueue := []\<rparr>"] by simp
  have "set (ae_txqueue (t ! i)) \<subseteq> set (waiting (t[j := (t ! j)\<lparr>ae_txqueue := []\<rparr>]))"
    using ij by (auto simp: waiting_def in_set_conv_nth intro!: exI[of _ i])
  then have "b \<in># mset (eth_freelist (eth_info ipi)) + mset (waiting (t[j := (t ! j)\<lparr>ae_txqueue := []\<rparr>]))" using c by auto
  then have "2 \<le> count (mset (eth_freelist (eth_info ipi)) + mset (waiting (t[j := (t ! j)\<lparr>ae_txqueue := []\<rparr>])) + mset (ae_txqueue (t ! j))) b"
    using b by (intro two_counts) simp_all
  then have "2 \<le> count (ip_bufs ipi) b" using w t by (simp add: ip_bufs_def)
  then show False using u[of b] by simp
qed

text \<open>The general form of a step on one entry.\<close>

lemma entry_step:
  assumes wf: "ip_wf ipi" and t: "arp_table ipi = Some t" and i: "i < ARP_TABLE_SIZE" and ok: "arp_ent_ok ae"
    and same: "eth_same (eth_info ipi) eth X" and X: "X \<subseteq> set (eth_freelist (eth_info ipi)) \<union> set (ae_txqueue (t ! i)) \<union> set_mset M"
    and bufs: "mset (eth_freelist eth) + mset (ae_txqueue ae) = mset (eth_freelist (eth_info ipi)) + mset (ae_txqueue (t ! i)) + M"
    and new: "\<And>x. count (ip_bufs ipi + M) x \<le> 1" and rd: "\<And>b. b \<in> set (ae_txqueue ae) \<Longrightarrow> tx_ready eth 0 b"
    and out: "dev_out eth = dev_out (eth_info ipi) @ out"
  shows "arp_step ipi (set_entry (set_eth ipi eth) i ae) M out"
proof -
  have len: "length t = ARP_TABLE_SIZE" and ents: "\<And>ae. ae \<in> set t \<Longrightarrow> arp_ent_ok ae" and u: "\<And>x. count (ip_bufs ipi) x \<le> 1"
    and rdt: "\<And>b. b \<in> set (waiting t) \<Longrightarrow> tx_ready (eth_info ipi) 0 b" and ew: "eth_wf (eth_info ipi)"
    and dx: "dix_port (eth_info ipi) (arp_port ipi)" "dix_port (eth_info ipi) (ip_port ipi)" using wf t by (auto simp: ip_wf_def)
  let ?ipi = "set_entry (set_eth ipi eth) i ae"
  have sel: "eth_info ?ipi = eth" "arp_table ?ipi = Some (t[i := ae])" "arp_port ?ipi = arp_port ipi" "ip_port ?ipi = ip_port ipi"
    using t by (simp_all add: set_entry_def set_eth_def)
  have b: "ip_bufs ?ipi = ip_bufs ipi + M"
  proof -
    have "ip_bufs ?ipi + mset (ae_txqueue (t ! i)) = mset (eth_freelist eth) + (mset (waiting t) + mset (ae_txqueue ae))"
      using mset_waiting_upd[of i t ae] i len sel by (simp add: ip_bufs_def)
    also have "\<dots> = ip_bufs ipi + M + mset (ae_txqueue (t ! i))" using bufs t by (simp add: ip_bufs_def ac_simps)
    finally show ?thesis by simp
  qed
  have sub: "X \<subseteq> set_mset (ip_bufs ipi + M)"
  proof -
    have "set (ae_txqueue (t ! i)) \<subseteq> set (waiting t)" using i len queue_waiting by auto
    then show ?thesis using X t by (auto simp: ip_bufs_def)
  qed
  have "tx_ready eth 0 x" if x: "x \<in> set (waiting (t[i := ae]))" for x
  proof (cases "x \<in> set (ae_txqueue ae)")
    case False
    obtain j where j: "j < length t" "j \<noteq> i" "x \<in> set (ae_txqueue (t ! j))" using waiting_upd_sub[OF _ x False] i len by auto
    have "x \<in> set (waiting t)" using j queue_waiting by auto
    moreover have "x \<notin># M"
    proof
      assume "x \<in># M"
      moreover have "x \<in># ip_bufs ipi" using \<open>x \<in> set (waiting t)\<close> t by (simp add: ip_bufs_def)
      ultimately have "2 \<le> count (ip_bufs ipi + M) x" by (intro two_counts)
      then show False using new[of x] by simp
    qed
    moreover have "x \<notin> set (eth_freelist (eth_info ipi)) \<union> set (ae_txqueue (t ! i))"
      using other_queue[OF u t _ j] i len by simp
    ultimately have "x \<notin> X" "tx_ready (eth_info ipi) 0 x" using X rdt by auto
    then show ?thesis using eth_same_ready[OF same] by simp
  qed (rule rd)
  then have rd': "\<forall>x \<in> set (waiting (t[i := ae])). tx_ready eth 0 x" by blast
  have ents': "\<forall>x \<in> set (t[i := ae]). arp_ent_ok x" using ents ok set_update_subset_insert[of t i ae] by blast
  have "dix_port eth (arp_port ipi)" "dix_port eth (ip_port ipi)" using dx eth_same_dix[OF same] by simp_all
  then have "ip_wf ?ipi"
    unfolding ip_wf_def b sel option.case using eth_same_wf[OF same ew] new len rd' ents' by simp
  moreover have "eth_same (eth_info ipi) eth (set_mset (ip_bufs ipi + M))" by (rule eth_same_mono[OF same sub])
  moreover have "ip_rest ipi ?ipi" by (simp add: ip_rest_def set_entry_def set_eth_def)
  ultimately show ?thesis unfolding arp_step_def sel using b out by simp
qed

end
