(* ===== verification/Cfe_Ipsum.thy ===== *)
theory Cfe_Ipsum
  imports Cfe_Ebuf
begin

text \<open>
  The Internet checksum of the boot loader, ip_chksum of src/broadcom/src/cfe/cfe/net/net_ip.c: the words of a memory area
  are added in 32 bits and the carries are folded in.  The lemmas give the sum modulo 65535 in the representation of one's
  complement, where 0 occurs for an all-zero area only.
\<close>

section \<open>Model\<close>

text \<open>The memory at a pointer is a function from indices; outside it is None.\<close>

definition rd_bytes :: "bytes \<Rightarrow> int \<Rightarrow> u8 option" where
  "rd_bytes bs i = (if 0 \<le> i \<and> i < int (length bs) then Some (bs ! nat i) else None)"

definition rd_ebuf :: "ebuf \<Rightarrow> int \<Rightarrow> int \<Rightarrow> u8 option" where
  "rd_ebuf e off i = map_option hd (eb_load e (off + i) 1)"

function ip_chksum_loop :: "(int \<Rightarrow> u8 option) \<Rightarrow> int \<Rightarrow> int \<Rightarrow> u32 \<Rightarrow> (int \<times> u32) option" where
  "ip_chksum_loop ptr idx len cksum = (if idx < len
     then do { a \<leftarrow> ptr idx; b \<leftarrow> ptr (idx + 1); ip_chksum_loop ptr (idx + 2) len (cksum + (push_bit 8 (ucast a) + ucast b)) }
     else Some (idx, cksum))"
  by auto
termination by (relation "measure (\<lambda>(ptr, idx, len, cksum). nat (len - idx))") auto

declare ip_chksum_loop.simps [simp del]

lemma fold_hi: "unat (drop_bit 16 (c :: u32)) = unat c div 65536"
proof -
  have "take_bit 32 (unat c) = unat c" using unat_less_2p[of c] by (simp add: take_bit_nat_eq_self)
  then show ?thesis unfolding unsigned_drop_bit_eq by (simp add: drop_bit_eq_div)
qed

lemma fold_q: "drop_bit 16 (c :: u32) = 0 \<longleftrightarrow> unat c div 65536 = 0"
proof -
  have "unat (drop_bit 16 c) = unat c div 65536" by (rule fold_hi)
  then show ?thesis by (metis unat_eq_zero)
qed

lemma fold_less: "drop_bit 16 c \<noteq> 0 \<Longrightarrow> unat ((c AND 0xFFFF) + drop_bit 16 c :: u32) = unat c mod 65536 + unat c div 65536
    \<and> unat c mod 65536 + unat c div 65536 < unat c"
proof -
  assume nz: "drop_bit 16 c \<noteq> 0"
  have a: "unat (c AND 0xFFFF) = unat c mod 65536"
  proof -
    have "c AND 0xFFFF = take_bit 16 c" by (simp add: take_bit_eq_mask mask_eq_exp_minus_1)
    then have "unat (c AND 0xFFFF) = take_bit 16 (unat c)" by (simp only: unsigned_take_bit_eq)
    then show ?thesis by (simp add: take_bit_eq_mod)
  qed
  have d: "unat (drop_bit 16 c) = unat c div 65536" by (rule fold_hi)
  have "unat c div 65536 \<noteq> 0" using nz fold_q by blast
  moreover have "unat c < 2 ^ 32" using unsigned_less[of c] by simp
  moreover have "unat c = 65536 * (unat c div 65536) + unat c mod 65536" by simp
  ultimately have lt: "unat c mod 65536 + unat c div 65536 < unat c" by linarith
  then have "unat ((c AND 0xFFFF) + drop_bit 16 c) = unat c mod 65536 + unat c div 65536"
    using unat_plus_less[of "c AND 0xFFFF" "unat (drop_bit 16 c)"] a unat_less_2p[of c] by (simp del: fold_hi) (simp add: d)
  with lt show ?thesis by blast
qed

function ip_chksum_fold :: "u32 \<Rightarrow> u32" where
  "ip_chksum_fold cksum = (if drop_bit 16 cksum \<noteq> 0 then ip_chksum_fold ((cksum AND 0xFFFF) + drop_bit 16 cksum) else cksum)"
  by auto
termination by (relation "measure unat") (use fold_less in auto)

declare ip_chksum_fold.simps [simp del]

definition ip_chksum :: "u16 \<Rightarrow> (int \<Rightarrow> u8 option) \<Rightarrow> int \<Rightarrow> u16 option" where
  "ip_chksum initcksum ptr len = (let odd = len mod 2; len = len - odd in do {
     (idx, cksum) \<leftarrow> ip_chksum_loop ptr 0 len (ucast initcksum);
     cksum \<leftarrow> (if odd \<noteq> 0 then do { a \<leftarrow> ptr idx; Some (cksum + push_bit 8 (ucast a)) } else Some cksum);
     Some (ucast (ip_chksum_fold cksum)) })"

section \<open>One's complement sums\<close>

fun wsum :: "bytes \<Rightarrow> nat" where
  "wsum (h # l # bs) = 256 * unat h + unat l + wsum bs"
| "wsum [h] = 256 * unat h"
| "wsum [] = 0"

definition ones :: "nat \<Rightarrow> nat" where "ones s = (if s = 0 then 0 else (s - 1) mod 65535 + 1)"

lemma ones_less: "ones s < 65536"
  using mod_less_divisor[of 65535 "s - 1"] by (simp add: ones_def)

lemma ones_small: "s < 65536 \<Longrightarrow> ones s = s"
  by (simp add: ones_def)

lemma ones_add: "ones (ones a + b) = ones (a + b)"
proof (cases "a = 0")
  case False
  then have "(a - 1) mod 65535 + 1 + b - 1 = (a - 1) mod 65535 + b" "a + b - 1 = (a - 1) + b" by simp_all
  then show ?thesis using False by (simp add: ones_def mod_add_left_eq)
qed (simp add: ones_def)

lemma ones_complement: "ones (s + (65535 - ones s)) = 65535"
proof (cases "s = 0")
  case False
  have "ones (s + (65535 - ones s)) = ones (ones s + (65535 - ones s))" by (simp only: ones_add)
  also have "\<dots> = 65535" using ones_less[of s] by (simp add: ones_small)
  finally show ?thesis .
qed (simp add: ones_def)

lemma wsum_append: "even (length xs) \<Longrightarrow> wsum (xs @ ys) = wsum xs + wsum ys"
  by (induction xs rule: wsum.induct) auto

lemma wsum_bound: "wsum bs \<le> 65535 * ((length bs + 1) div 2)"
proof (induction bs rule: wsum.induct)
  case (1 h l bs)
  have "unat h < 256" "unat l < 256" using unsigned_less[of h] unsigned_less[of l] by simp_all
  with 1 show ?case by simp
next
  case (2 h)
  have "unat h < 256" using unsigned_less[of h] by simp
  then show ?case by simp
qed simp

lemma fold_ones: "unat (ip_chksum_fold c) = ones (unat c)"
proof (induction c rule: ip_chksum_fold.induct)
  case (1 c)
  show ?case
  proof (cases "drop_bit 16 c \<noteq> 0")
    case True
    note f = fold_less[OF True]
    define q r where "q = unat c div 65536" and "r = unat c mod 65536"
    have c: "unat c = 65536 * q + r" by (simp add: q_def r_def)
    have "q \<noteq> 0" using True using fold_q[of c] by (auto simp: q_def)
    then have "65536 * q + r - 1 = (r + q - 1) + 65535 * q" by simp
    then have "(65536 * q + r - 1) mod 65535 = (r + q - 1) mod 65535" by (simp only: mod_mult_self2)
    then have "ones (unat c) = ones (r + q)" using \<open>q \<noteq> 0\<close> unfolding c by (simp add: ones_def)
    then have "ones (unat c) = ones (unat c mod 65536 + unat c div 65536)" by (simp only: q_def r_def)
    then show ?thesis using 1[OF True] f True by (subst ip_chksum_fold.simps) simp
  next
    case False
    then have "unat c div 65536 = 0" using fold_q[of c] by simp
    then show ?thesis using False by (subst ip_chksum_fold.simps) (simp add: ones_small)
  qed
qed

lemma word_pair: "push_bit 8 (ucast (a :: u8)) + ucast (b :: u8) = (of_nat (256 * unat a + unat b) :: u32)"
  by (simp add: push_bit_eq_mult mult.commute)

lemma ip_chksum_loop_sum:
  "even (length bs) \<Longrightarrow> (\<And>i. i < length bs \<Longrightarrow> ptr (idx + int i) = Some (bs ! i)) \<Longrightarrow>
   ip_chksum_loop ptr idx (idx + int (length bs)) c = Some (idx + int (length bs), c + of_nat (wsum bs))"
proof (induction bs arbitrary: idx c rule: wsum.induct)
  case (1 h l bs)
  have p: "ptr idx = Some h" "ptr (idx + 1) = Some l" using "1.prems"(2)[of 0] "1.prems"(2)[of 1] by simp_all
  have "ptr (idx + 2 + int i) = Some (bs ! i)" if "i < length bs" for i
    using "1.prems"(2)[of "i + 2"] that by (simp add: ac_simps)
  from "1.IH"[OF _ this] have "ip_chksum_loop ptr (idx + 2) (idx + 2 + int (length bs)) (c + (push_bit 8 (ucast h) + ucast l)) =
      Some (idx + 2 + int (length bs), c + (push_bit 8 (ucast h) + ucast l) + of_nat (wsum bs))"
    using "1.prems"(1) by simp
  then show ?case using p by (subst ip_chksum_loop.simps) (simp add: push_bit_eq_mult ac_simps)
qed (subst ip_chksum_loop.simps; simp)+

text \<open>The checksum of an area is the folded sum of its words.\<close>

theorem ip_chksum_ones:
  assumes ptr: "\<And>i. i < length bs \<Longrightarrow> ptr (int i) = Some (bs ! i)" and small: "unat c + wsum bs < 2 ^ 32"
  shows "ip_chksum c ptr (int (length bs)) = Some (of_nat (ones (unat c + wsum bs)))"
proof -
  have fold: "ucast (ip_chksum_fold (ucast c + of_nat (wsum bs))) = (of_nat (ones (unat c + wsum bs)) :: u16)"
  proof -
    have "ucast c + of_nat (wsum bs) = (of_nat (unat c + wsum bs) :: u32)" by simp
    then have "unat (ucast c + of_nat (wsum bs) :: u32) = unat c + wsum bs" 
      using small unat_plus_less[of "0 :: u32" "unat c + wsum bs"] by simp
    then have "unat (ip_chksum_fold (ucast c + of_nat (wsum bs))) = ones (unat c + wsum bs)" by (simp only: fold_ones)
    then show ?thesis by (metis of_nat_unat)
  qed
  show ?thesis
  proof (cases "even (length bs)")
    case True
    then have "ip_chksum_loop ptr 0 (int (length bs)) (ucast c) = Some (int (length bs), ucast c + of_nat (wsum bs))"
      using ip_chksum_loop_sum[OF True, of ptr 0] ptr by simp
    moreover have "int (length bs) mod 2 = 0" using True by presburger
    ultimately show ?thesis using fold by (simp add: ip_chksum_def)
  next
    case False
    then have ne: "bs \<noteq> []" by auto
    define xs x where "xs = butlast bs" and "x = last bs"
    have bs: "bs = xs @ [x]" using ne by (simp add: xs_def x_def)
    have xs: "even (length xs)" using False bs by simp
    have "ptr (0 + int i) = Some (xs ! i)" if "i < length xs" for i using ptr[of i] that bs by (simp add: nth_append)
    from ip_chksum_loop_sum[OF xs this]
    have "ip_chksum_loop ptr 0 (int (length xs)) (ucast c) = Some (int (length xs), ucast c + of_nat (wsum xs))" by simp
    moreover have "ptr (int (length xs)) = Some x" using ptr[of "length xs"] bs by simp
    moreover have "wsum bs = wsum xs + 256 * unat x" using xs bs by (simp add: wsum_append)
    moreover have "int (length bs) mod 2 = 1" "int (length bs) - 1 = int (length xs)" using xs bs by (auto simp: odd_iff_mod_2_eq_one)
    ultimately show ?thesis using fold by (simp add: ip_chksum_def push_bit_eq_mult ac_simps)
  qed
qed

lemma unat_ones16: "unat (of_nat (ones s) :: u16) = ones s"
  using unat_plus_less[of "0 :: u16" "ones s"] ones_less[of s] by simp

lemma ip_chksum_short:
  assumes "length bs \<le> 65535" "\<And>i. i < length bs \<Longrightarrow> ptr (int i) = Some (bs ! i)"
  shows "ip_chksum c ptr (int (length bs)) = Some (of_nat (ones (unat c + wsum bs)))"
proof (rule ip_chksum_ones[OF assms(2)])
  have "(length bs + 1) div 2 \<le> 32768" using assms by simp
  then have "wsum bs \<le> 65535 * 32768" using wsum_bound[of bs] by (meson le_trans mult_le_mono2)
  then show "unat c + wsum bs < 2 ^ 32" using unat_less_2p[of c] by simp
qed

lemma ip_chksum_bytes: "length bs \<le> 65535 \<Longrightarrow> ip_chksum c (rd_bytes bs) (int (length bs)) = Some (of_nat (ones (unat c + wsum bs)))"
  by (rule ip_chksum_short) (simp_all add: rd_bytes_def)

lemma ip_chksum_ebuf:
  assumes ok: "eb_ok e" and le: "k + n \<le> length (eb_view e)"
  shows "ip_chksum c (rd_ebuf e (eb_ptr e + int k)) (int n) = Some (of_nat (ones (unat c + wsum (take n (drop k (eb_view e))))))"
proof -
  let ?bs = "take n (drop k (eb_view e))"
  have len: "length ?bs = n" using le by simp
  have n: "n \<le> 65535" using le ok length_eb_view[OF ok] by (simp add: eb_ok_def enet_consts)
  have "rd_ebuf e (eb_ptr e + int k) (int i) = Some (?bs ! i)" if "i < n" for i
  proof -
    have "eb_load e (eb_ptr e + int (k + i)) 1 = Some (take 1 (drop (k + i) (eb_view e)))" using le that by (intro eb_load_view[OF ok]) simp
    then show ?thesis using le that by (simp add: rd_ebuf_def add.assoc take_Suc_conv_app_nth hd_drop_conv_nth)
  qed
  then show ?thesis using ip_chksum_short[of ?bs "rd_ebuf e (eb_ptr e + int k)" c] n len by simp
qed

end
