(* ===== verification/Cfe_Ip.thy ===== *)
theory Cfe_Ip
  imports Cfe_Arp Cfe_Ipsum
begin

text \<open>
  The IP layer of the boot loader, src/broadcom/src/cfe/cfe/net/net_ip.c: header construction and routing of a packet to
  send, the checks of a received packet up to the dispatch to a protocol, parameters and protocol registration.
\<close>

section \<open>Model\<close>

definition IPHDR_VER_4 :: u8 where "IPHDR_VER_4 = 0x40"
definition IPHDR_LEN_20 :: u8 where "IPHDR_LEN_20 = 0x05"
definition IPHDR_LENGTH :: nat where "IPHDR_LENGTH = 20"
definition IPHDR_TOS_DEFAULT :: u8 where "IPHDR_TOS_DEFAULT = 0"
definition IPHDR_TTL_DEFAULT :: u8 where "IPHDR_TTL_DEFAULT = 100"
definition IPHDR_MOREFRAGMENTS :: u16 where "IPHDR_MOREFRAGMENTS = 0x2000"
definition IPHDR_FRAGOFFSET :: u16 where "IPHDR_FRAGOFFSET = 0x1FFF"
definition IP_MAX_PROTOCOLS :: nat where "IP_MAX_PROTOCOLS = 4"
definition IPPROTO_TCP :: u8 where "IPPROTO_TCP = 6"
definition IPPROTO_UDP :: u8 where "IPPROTO_UDP = 17"
definition IPPROTO_ICMP :: u8 where "IPPROTO_ICMP = 1"

lemmas ip_consts = IPHDR_VER_4_def IPHDR_LEN_20_def IPHDR_LENGTH_def IPHDR_TOS_DEFAULT_def IPHDR_TTL_DEFAULT_def
  IPHDR_MOREFRAGMENTS_def IPHDR_FRAGOFFSET_def IP_MAX_PROTOCOLS_def IPPROTO_UDP_def IPPROTO_ICMP_def

definition ip_addrisbcast :: "bytes \<Rightarrow> bool" where "ip_addrisbcast a = (a ! 0 = 0xFF \<and> a ! 1 = 0xFF \<and> a ! 2 = 0xFF \<and> a ! 3 = 0xFF)"
definition ip_mask :: "bytes \<Rightarrow> bytes \<Rightarrow> bytes" where "ip_mask a b = [a ! 0 AND b ! 0, a ! 1 AND b ! 1, a ! 2 AND b ! 2, a ! 3 AND b ! 3]"

definition ip_alloc :: "ip_info \<Rightarrow> nat option \<times> ip_info" where
  "ip_alloc ipi = (case eth_alloc (eth_info ipi) (nat (ip_port ipi)) of (None, eth) \<Rightarrow> (None, set_eth ipi eth)
     | (Some b, eth) \<Rightarrow> (Some b, set_eth ipi (set_buf eth b (ebuf_setlength (ebuf_seek (eth_bufpool eth b) (int IPHDR_LENGTH)) 0))))"

definition ip_free :: "ip_info \<Rightarrow> nat \<Rightarrow> ip_info" where "ip_free ipi b = set_eth ipi (eth_free (eth_info ipi) b)"

definition ip_getaddr :: "ip_info \<Rightarrow> bytes" where "ip_getaddr ipi = take IP_ADDR_LEN (ip_addr ipi)"

text \<open>The header is written in front of the packet, then its checksum into it.\<close>

definition ip_header :: "ip_info \<Rightarrow> ebuf \<Rightarrow> bytes \<Rightarrow> u8 \<Rightarrow> ebuf option" where
  "ip_header ipi e destaddr proto = (let e = ebuf_seek e (- int IPHDR_LENGTH); pktlen = eb_length e + of_nat IPHDR_LENGTH in do {
     e \<leftarrow> ebuf_put_u8 e (IPHDR_VER_4 OR IPHDR_LEN_20);
     e \<leftarrow> ebuf_put_u8 e IPHDR_TOS_DEFAULT;
     e \<leftarrow> ebuf_put_u16_be e pktlen;
     e \<leftarrow> ebuf_put_u16_be e (ucast (ip_id ipi));
     e \<leftarrow> ebuf_put_u16_be e 0;
     e \<leftarrow> ebuf_put_u8 e IPHDR_TTL_DEFAULT;
     e \<leftarrow> ebuf_put_u8 e proto;
     e \<leftarrow> ebuf_put_u16_be e 0;
     e \<leftarrow> ebuf_put_bytes e (take IP_ADDR_LEN (ip_addr ipi));
     e \<leftarrow> ebuf_put_bytes e (take IP_ADDR_LEN destaddr);
     let e = ebuf_prepend e (int IPHDR_LENGTH); ptr = eb_ptr e in do {
     cksum \<leftarrow> ip_chksum 0 (rd_ebuf e ptr) (int IPHDR_LENGTH);
     let cksum = NOT cksum in do {
     e \<leftarrow> eb_store e (ptr + 10) [hi8 (ucast cksum)];
     eb_store e (ptr + 11) [lo8 (ucast cksum)] } } })"

definition ip_route :: "ip_info \<Rightarrow> nat \<Rightarrow> bytes \<Rightarrow> (int \<times> ip_info) option" where
  "ip_route ipi b destaddr = (if ip_addrisbcast destaddr then do {
       (_, eth) \<leftarrow> eth_send (eth_info ipi) b eth_broadcast; Some (0, set_eth ipi (eth_free eth b)) }
     else if ip_addriszero (ip_netmask ipi) then arp_lookup_and_send ipi b destaddr
     else let masksrc = ip_mask destaddr (ip_netmask ipi); maskdest = ip_mask (ip_addr ipi) (ip_netmask ipi) in
       if masksrc = maskdest then arp_lookup_and_send ipi b destaddr
       else if ip_addriszero (ip_gateway ipi) then Some (0, set_eth ipi (eth_free (eth_info ipi) b))
       else arp_lookup_and_send ipi b (ip_gateway ipi))"

definition ip_send :: "ip_info \<Rightarrow> nat \<Rightarrow> bytes \<Rightarrow> u8 \<Rightarrow> (int \<times> ip_info) option" where
  "ip_send ipi b destaddr proto = (let ipi = ipi\<lparr>ip_id := ip_id ipi + 1\<rparr> in do {
     e \<leftarrow> ip_header ipi (eth_bufpool (eth_info ipi) b) destaddr proto;
     ip_route (put_buf ipi b e) b destaddr })"

text \<open>The checks of a received packet: the buffer afterwards and, unless it is dropped, protocol, source and destination.\<close>

definition ip_rx_check :: "bytes \<Rightarrow> ebuf \<Rightarrow> (ebuf \<times> (u8 \<times> bytes \<times> bytes) option) option" where
  "ip_rx_check our e = (let hdr = eb_ptr e in do {
     (tmp, e) \<leftarrow> ebuf_get_u8 e;
     if tmp AND 0xF0 \<noteq> IPHDR_VER_4 then Some (e, None)
     else let hdrlen = unat (tmp AND 0x0F) * 4 in
     if hdrlen < IPHDR_LENGTH then Some (e, None)
     else do {
     h10 \<leftarrow> eb_load e (hdr + 10) 1; h11 \<leftarrow> eb_load e (hdr + 11) 1;
     let origchksum = be16 (h10 ! 0) (h11 ! 0) in do {
     e \<leftarrow> eb_store e (hdr + 11) [0]; e \<leftarrow> eb_store e (hdr + 10) [0];
     cksum \<leftarrow> ip_chksum 0 (rd_ebuf e hdr) (int hdrlen);
     if NOT cksum \<noteq> origchksum then Some (e, None)
     else let e = ebuf_skip e 1 in do {
     (length', e) \<leftarrow> ebuf_get_u16_be e;
     let e = ebuf_skip e 2 in do {
     (tmp16, e) \<leftarrow> ebuf_get_u16_be e;
     if tmp16 AND (IPHDR_FRAGOFFSET OR IPHDR_MOREFRAGMENTS) \<noteq> 0 then Some (e, None)
     else let e = ebuf_skip e 1 in do {
     (proto, e) \<leftarrow> ebuf_get_u8 e;
     let e = ebuf_skip e 2 in do {
     (srcip, e) \<leftarrow> ebuf_get_bytes e IP_ADDR_LEN;
     (dstip, e) \<leftarrow> ebuf_get_bytes e IP_ADDR_LEN;
     let e = ebuf_skip e (int hdrlen - int IPHDR_LENGTH); e = ebuf_setlength e (word_of_int (uint length' - int hdrlen)) in
     if \<not> ip_addriszero our \<and> dstip \<noteq> take IP_ADDR_LEN our \<and> \<not> ip_addrisbcast dstip then Some (e, None)
     else Some (e, Some (proto, srcip, dstip)) } } } } } } })"

fun ip_find_proto :: "ip_protodisp list \<Rightarrow> u8 \<Rightarrow> ip_cb option" where
  "ip_find_proto [] proto = None"
| "ip_find_proto (p # ps) proto = (if pd_cb p \<noteq> None \<and> pd_protocol p = proto then pd_cb p else ip_find_proto ps proto)"

definition ip_timer_tick :: "ip_info \<Rightarrow> ip_info option" where "ip_timer_tick ipi = arp_timer_tick ipi"

text \<open>\<open>zero\<close> is the cleared structure with its link to the Ethernet layer; the result tells whether the pointer is not null.\<close>

definition zero_ipi :: "ether_info \<Rightarrow> ip_info" where
  "zero_ipi eth = \<lparr>ip_addr = replicate 4 0, ip_netmask = replicate 4 0, ip_gateway = replicate 4 0, ip_nameserver = replicate 4 0,
     ip_domain = None, ip_hostname = None, eth_info = eth, ip_id = 0, ip_port = 0,
     ip_protocols = replicate IP_MAX_PROTOCOLS \<lparr>pd_protocol = 0, pd_cb = None\<rparr>, arp_table = None, arp_port = 0, arp_hwaddr = replicate 6 0\<rparr>"

definition ip_init :: "ether_info \<Rightarrow> bool \<Rightarrow> arpentry list option \<Rightarrow> (bool \<times> ip_info) option" where
  "ip_init eth ok mem = (let ipi = zero_ipi eth in
     if \<not> ok then Some (False, ipi)
     else do { (r, ipi) \<leftarrow> arp_init ipi mem;
       if r < 0 then Some (False, ipi)
       else let (port, eth) = eth_open (eth_info ipi) ETH_PTYPE_DIX [hi8 PROTOSPACE_IP, lo8 PROTOSPACE_IP] Cb_Ip;
                ipi = (set_eth ipi eth)\<lparr>ip_port := port\<rparr>
       in if ip_port ipi < 0 then do { ipi \<leftarrow> arp_uninit ipi; Some (False, ipi) } else Some (True, ipi) })"

definition ip_uninit :: "ip_info \<Rightarrow> ip_info option" where
  "ip_uninit ipi = arp_uninit (set_eth ipi (eth_close (eth_info ipi) (nat (ip_port ipi))))"

datatype ip_param = NET_IPADDR | NET_NETMASK | NET_GATEWAY | NET_NAMESERVER | NET_HWADDR | NET_DOMAIN | NET_HOSTNAME
  | NET_SPEED | NET_LOOPBACK | NET_other

definition ip_getparam :: "ip_info \<Rightarrow> ip_param \<Rightarrow> bytes option" where
  "ip_getparam ipi param = (case param of NET_IPADDR \<Rightarrow> Some (ip_addr ipi) | NET_NETMASK \<Rightarrow> Some (ip_netmask ipi)
     | NET_GATEWAY \<Rightarrow> Some (ip_gateway ipi) | NET_NAMESERVER \<Rightarrow> Some (ip_nameserver ipi) | NET_HWADDR \<Rightarrow> Some (arp_hwaddr ipi)
     | NET_DOMAIN \<Rightarrow> ip_domain ipi | NET_HOSTNAME \<Rightarrow> ip_hostname ipi | NET_SPEED \<Rightarrow> None | NET_LOOPBACK \<Rightarrow> None | NET_other \<Rightarrow> None)"

definition ip_setparam :: "ip_info \<Rightarrow> ip_param \<Rightarrow> bytes option \<Rightarrow> (int \<times> ip_info) option" where
  "ip_setparam ipi param ptr = (case param of
     NET_IPADDR \<Rightarrow> do { v \<leftarrow> ptr; ipi \<leftarrow> arp_send_gratuitous (ipi\<lparr>ip_addr := take IP_ADDR_LEN v\<rparr>); Some (0, ipi) }
   | NET_NETMASK \<Rightarrow> do { v \<leftarrow> ptr; Some (0, ipi\<lparr>ip_netmask := take IP_ADDR_LEN v\<rparr>) }
   | NET_GATEWAY \<Rightarrow> do { v \<leftarrow> ptr; Some (0, ipi\<lparr>ip_gateway := take IP_ADDR_LEN v\<rparr>) }
   | NET_NAMESERVER \<Rightarrow> do { v \<leftarrow> ptr; Some (0, ipi\<lparr>ip_nameserver := take IP_ADDR_LEN v\<rparr>) }
   | NET_DOMAIN \<Rightarrow> Some (-1, ipi\<lparr>ip_domain := ptr\<rparr>)
   | NET_HOSTNAME \<Rightarrow> Some (-1, ipi\<lparr>ip_hostname := ptr\<rparr>)
   | NET_HWADDR \<Rightarrow> do { v \<leftarrow> ptr; Some (0, set_eth (ipi\<lparr>arp_hwaddr := take ENET_ADDR_LEN v\<rparr>) (eth_sethwaddr (eth_info ipi) v)) }
   | NET_SPEED \<Rightarrow> do { v \<leftarrow> ptr; let (r, eth) = eth_setspeed (eth_info ipi) (take 4 v) in Some (r, set_eth ipi eth) }
   | NET_LOOPBACK \<Rightarrow> do { v \<leftarrow> ptr; let (r, eth) = eth_setloopback (eth_info ipi) (take 4 v) in Some (r, set_eth ipi eth) }
   | NET_other \<Rightarrow> Some (-1, ipi))"

fun ip_free_proto :: "ip_protodisp list \<Rightarrow> nat \<Rightarrow> nat" where
  "ip_free_proto [] idx = idx"
| "ip_free_proto (p # ps) idx = (if pd_cb p = None then idx else ip_free_proto ps (idx + 1))"

definition ip_register :: "ip_info \<Rightarrow> int \<Rightarrow> ip_cb \<Rightarrow> ip_info" where
  "ip_register ipi proto cb = (let idx = ip_free_proto (ip_protocols ipi) 0 in
     if idx = IP_MAX_PROTOCOLS then ipi
     else ipi\<lparr>ip_protocols := (ip_protocols ipi)[idx := \<lparr>pd_protocol = word_of_int proto, pd_cb = Some cb\<rparr>]\<rparr>)"

definition ip_deregister :: "ip_info \<Rightarrow> int \<Rightarrow> ip_info" where
  "ip_deregister ipi proto = ipi\<lparr>ip_protocols := map (\<lambda>p. if pd_protocol p = word_of_int proto then \<lparr>pd_protocol = 0, pd_cb = None\<rparr> else p) (ip_protocols ipi)\<rparr>"

end
