(* ===== verification/Cfe_Udp.thy ===== *)
theory Cfe_Udp
  imports Cfe_Ip
begin

text \<open>
  The UDP layer of the boot loader, src/broadcom/src/cfe/cfe/net/net_udp.c, and the handler of ICMP echo messages,
  src/broadcom/src/cfe/cfe/net/net_icmp.c.  The UDP and ICMP structures are values of their own beside that of IP.
\<close>

section \<open>UDP\<close>

definition UDP_HDR_LENGTH :: nat where "UDP_HDR_LENGTH = 8"
definition UDP_PORTBASE :: u16 where "UDP_PORTBASE = 1024"
definition UDP_MAX_PORTS :: nat where "UDP_MAX_PORTS = 4"
definition CFE_ERR_ALREADYBOUND :: int where "CFE_ERR_ALREADYBOUND = -26"

lemmas udp_consts = UDP_HDR_LENGTH_def UDP_PORTBASE_def UDP_MAX_PORTS_def CFE_ERR_ALREADYBOUND_def

record udp_port =
  up_destport :: u16
  up_srcport :: u16
  up_rxqueue :: "nat list"
  up_maxqueue :: int
  up_inuse :: bool

type_synonym udp_info = "udp_port list"

fun udp_find_port_loop :: "udp_info \<Rightarrow> u16 \<Rightarrow> nat \<Rightarrow> nat option" where
  "udp_find_port_loop [] port idx = None"
| "udp_find_port_loop (udp # ui) port idx = (if up_inuse udp \<and> up_srcport udp = port then Some idx else udp_find_port_loop ui port (idx + 1))"

definition udp_find_port :: "udp_info \<Rightarrow> u16 \<Rightarrow> nat option" where "udp_find_port ui port = udp_find_port_loop ui port 0"

partial_function (option) udp_pick_port :: "udp_info \<Rightarrow> u16 \<Rightarrow> u16 option" where
  "udp_pick_port ui srcport = (if udp_find_port ui srcport \<noteq> None
     then let srcport = srcport + 1; srcport = (if srcport > UDP_PORTBASE + 4096 then UDP_PORTBASE else srcport) in udp_pick_port ui srcport
     else Some srcport)"

fun udp_free_port :: "udp_info \<Rightarrow> nat \<Rightarrow> nat" where
  "udp_free_port [] idx = idx"
| "udp_free_port (udp # ui) idx = (if \<not> up_inuse udp then idx else udp_free_port ui (idx + 1))"

text \<open>\<open>ticks\<close> is the value of the cycle counter.\<close>

definition udp_socket :: "udp_info \<Rightarrow> u32 \<Rightarrow> u16 \<Rightarrow> (int \<times> udp_info) option" where
  "udp_socket ui ticks port = do { srcport \<leftarrow> udp_pick_port ui (UDP_PORTBASE + ucast (ticks AND 0xFFF));
     let idx = udp_free_port ui 0 in
     if idx = UDP_MAX_PORTS then Some (CFE_ERR_NOHANDLES, ui)
     else Some (int idx, ui[idx := \<lparr>up_destport = port, up_srcport = srcport, up_rxqueue = [], up_maxqueue = 2, up_inuse = True\<rparr>]) }"

definition udp_close :: "udp_info \<Rightarrow> ip_info \<Rightarrow> nat \<Rightarrow> udp_info \<times> ip_info" where
  "udp_close ui ipi s = (let udp = ui ! s; ipi = set_eth ipi (eth_free_all (eth_info ipi) (up_rxqueue udp)) in
     (ui[s := udp\<lparr>up_rxqueue := [], up_srcport := 0, up_destport := 0, up_maxqueue := 0, up_inuse := False\<rparr>], ipi))"

definition pseudoheader :: "bytes \<Rightarrow> bytes \<Rightarrow> int \<Rightarrow> bytes" where
  "pseudoheader src dst udplen = take IP_ADDR_LEN src @ take IP_ADDR_LEN dst @ [0, IPPROTO_UDP, hi8 (word_of_int udplen), lo8 (word_of_int udplen)]"

definition udp_header :: "udp_port \<Rightarrow> bytes \<Rightarrow> bytes \<Rightarrow> ebuf \<Rightarrow> ebuf option" where
  "udp_header udp our dest e = (let udplen = sint (eb_length e + of_nat UDP_HDR_LENGTH); ph = pseudoheader our dest udplen;
       e = ebuf_seek e (- int UDP_HDR_LENGTH); udphdr = eb_ptr e in do {
     e \<leftarrow> ebuf_put_u16_be e (ucast (up_srcport udp));
     e \<leftarrow> ebuf_put_u16_be e (ucast (up_destport udp));
     e \<leftarrow> ebuf_put_u16_be e (word_of_int udplen);
     e \<leftarrow> ebuf_put_u16_be e 0;
     let e = ebuf_prepend e (int UDP_HDR_LENGTH) in do {
     cksum \<leftarrow> ip_chksum 0 (rd_bytes ph) 12;
     cksum \<leftarrow> ip_chksum cksum (rd_ebuf e udphdr) udplen;
     let cksum = NOT cksum; cksum = (if cksum = 0 then 0xFFFF else cksum) in do {
     e \<leftarrow> eb_store e (udphdr + 6) [hi8 (ucast cksum)];
     eb_store e (udphdr + 7) [lo8 (ucast cksum)] } } })"

definition udp_send :: "udp_info \<Rightarrow> ip_info \<Rightarrow> nat \<Rightarrow> nat \<Rightarrow> bytes \<Rightarrow> (int \<times> ip_info) option" where
  "udp_send ui ipi s b dest = do {
     e \<leftarrow> udp_header (ui ! s) (ip_getaddr ipi) dest (eth_bufpool (eth_info ipi) b);
     (_, ipi) \<leftarrow> ip_send (put_buf ipi b e) b dest IPPROTO_UDP;
     Some (0, ipi) }"

definition udp_bind :: "udp_info \<Rightarrow> nat \<Rightarrow> u16 \<Rightarrow> int \<times> udp_info" where
  "udp_bind ui s port = (if udp_find_port ui port \<noteq> None then (CFE_ERR_ALREADYBOUND, ui) else (0, ui[s := (ui ! s)\<lparr>up_srcport := port\<rparr>]))"

definition udp_connect :: "udp_info \<Rightarrow> nat \<Rightarrow> u16 \<Rightarrow> int \<times> udp_info" where
  "udp_connect ui s port = (0, ui[s := (ui ! s)\<lparr>up_destport := port\<rparr>])"

definition udp_rx_checksum :: "ebuf \<Rightarrow> bytes \<Rightarrow> bytes \<Rightarrow> (ebuf \<times> bool) option" where
  "udp_rx_checksum e destaddr srcaddr = (let udplen = sint (eb_length e); udphdr = eb_ptr e in do {
     h6 \<leftarrow> eb_load e (udphdr + 6) 1; h7 \<leftarrow> eb_load e (udphdr + 7) 1;
     if h6 ! 0 OR h7 ! 0 \<noteq> 0 then
       let ph = pseudoheader srcaddr destaddr udplen; origcksum = be16 (h6 ! 0) (h7 ! 0) in do {
       e \<leftarrow> eb_store e (udphdr + 7) [0]; e \<leftarrow> eb_store e (udphdr + 6) [0];
       calccksum \<leftarrow> ip_chksum 0 (rd_bytes ph) 12;
       calccksum \<leftarrow> ip_chksum calccksum (rd_ebuf e udphdr) udplen;
       let calccksum = (if calccksum \<noteq> 0xffff then NOT calccksum else calccksum) in
       Some (e, calccksum = origcksum) }
     else Some (e, True) })"

definition udp_rx_callback :: "udp_info \<Rightarrow> ip_info \<Rightarrow> nat \<Rightarrow> bytes \<Rightarrow> bytes \<Rightarrow> (int \<times> udp_info \<times> ip_info) option" where
  "udp_rx_callback ui ipi b destaddr srcaddr = (let e = eth_bufpool (eth_info ipi) b; udplen = sint (eb_length e) in do {
     (e, ok) \<leftarrow> udp_rx_checksum e destaddr srcaddr;
     if \<not> ok then Some (ETH_DROP, ui, put_buf ipi b e) else do {
     (srcport, e) \<leftarrow> ebuf_get_u16_be e;
     (dstport, e) \<leftarrow> ebuf_get_u16_be e;
     (udplen2, e) \<leftarrow> ebuf_get_u16_be e;
     let e = ebuf_skip e 2 in
     if udplen2 \<noteq> word_of_int udplen then Some (ETH_DROP, ui, put_buf ipi b e)
     else case udp_find_port ui dstport of None \<Rightarrow> Some (ETH_DROP, ui, put_buf ipi b e)
     | Some i \<Rightarrow> let udp = ui ! i; e = e\<lparr>eb_usrdata := uint srcport, eb_usrptr := Usr_srcip\<rparr> in
         if int (length (up_rxqueue udp)) \<ge> up_maxqueue udp then Some (ETH_DROP, ui, put_buf ipi b e)
         else let e = ebuf_setlength e (word_of_int (uint udplen2 - int UDP_HDR_LENGTH)) in
           Some (ETH_KEEP, ui[i := udp\<lparr>up_rxqueue := up_rxqueue udp @ [b]\<rparr>], put_buf ipi b e) } })"

definition udp_recv :: "udp_info \<Rightarrow> nat \<Rightarrow> nat option \<times> udp_info" where
  "udp_recv ui s = (case up_rxqueue (ui ! s) of [] \<Rightarrow> (None, ui) | b # bs \<Rightarrow> (Some b, ui[s := (ui ! s)\<lparr>up_rxqueue := bs\<rparr>]))"

definition udp_init :: "ip_info \<Rightarrow> bool \<Rightarrow> udp_info option \<times> ip_info" where
  "udp_init ipi ok = (if \<not> ok then (None, ipi)
     else (Some (replicate UDP_MAX_PORTS \<lparr>up_destport = 0, up_srcport = 0, up_rxqueue = [], up_maxqueue = 0, up_inuse = False\<rparr>),
       ip_register ipi (uint IPPROTO_UDP) Cb_Udp))"

fun udp_free_used :: "ip_info \<Rightarrow> udp_port list \<Rightarrow> ip_info" where
  "udp_free_used ipi [] = ipi"
| "udp_free_used ipi (udp # ui) = udp_free_used (if up_inuse udp then set_eth ipi (eth_free_all (eth_info ipi) (up_rxqueue udp)) else ipi) ui"

definition udp_uninit :: "udp_info \<Rightarrow> ip_info \<Rightarrow> ip_info" where
  "udp_uninit ui ipi = udp_free_used (ip_deregister ipi (uint IPPROTO_UDP)) ui"

definition udp_alloc :: "ip_info \<Rightarrow> nat option \<times> ip_info" where
  "udp_alloc ipi = (case ip_alloc ipi of (None, ipi) \<Rightarrow> (None, ipi)
     | (Some b, ipi) \<Rightarrow> (Some b, put_buf ipi b (ebuf_setlength (ebuf_seek (eth_bufpool (eth_info ipi) b) (int UDP_HDR_LENGTH)) 0)))"

definition udp_free :: "ip_info \<Rightarrow> nat \<Rightarrow> ip_info" where "udp_free ipi b = ip_free ipi b"

section \<open>ICMP\<close>

definition ICMP_CODE_ECHO :: u32 where "ICMP_CODE_ECHO = 0"
definition ICMP_TYPE_ECHOREPLY :: u32 where "ICMP_TYPE_ECHOREPLY = 0"
definition ICMP_TYPE_ECHOREQ :: u32 where "ICMP_TYPE_ECHOREQ = 8"
definition ICMPMSG :: "u32 \<Rightarrow> u32 \<Rightarrow> u32" where "ICMPMSG type code = push_bit 8 type OR code"

lemmas icmp_consts = ICMP_CODE_ECHO_def ICMP_TYPE_ECHOREPLY_def ICMP_TYPE_ECHOREQ_def ICMPMSG_def

record icmp_info =
  icmp_echoreplies :: "nat list"
  icmp_maxreplies :: int

text \<open>The reply to an echo request: a copy of the packet with type and code replaced and a new checksum.\<close>

definition icmp_reply :: "ebuf \<Rightarrow> bytes \<Rightarrow> ebuf option" where
  "icmp_reply txe pkt = (let icmphdr = eb_ptr txe in do {
     e \<leftarrow> ebuf_append_bytes txe pkt;
     e \<leftarrow> eb_store e icmphdr [ucast ICMP_TYPE_ECHOREPLY];
     e \<leftarrow> eb_store e (icmphdr + 1) [ucast ICMP_CODE_ECHO];
     e \<leftarrow> eb_store e (icmphdr + 2) [0]; e \<leftarrow> eb_store e (icmphdr + 3) [0];
     cksum \<leftarrow> ip_chksum 0 (rd_ebuf e icmphdr) (sint (eb_length e));
     let cksum = NOT cksum in do {
     e \<leftarrow> eb_store e (icmphdr + 2) [hi8 (ucast cksum)];
     eb_store e (icmphdr + 3) [lo8 (ucast cksum)] } })"

definition icmp_rx_callback :: "icmp_info \<Rightarrow> ip_info \<Rightarrow> nat \<Rightarrow> bytes \<Rightarrow> bytes \<Rightarrow> (int \<times> icmp_info \<times> ip_info) option" where
  "icmp_rx_callback icmp ipi b dst src = (let e = eth_bufpool (eth_info ipi) b in do {
     h0 \<leftarrow> eb_load e (eb_ptr e) 1; h1 \<leftarrow> eb_load e (eb_ptr e + 1) 1;
     let imsg = ICMPMSG (ucast (h0 ! 0)) (ucast (h1 ! 0)) in
     if imsg = ICMPMSG ICMP_TYPE_ECHOREQ ICMP_CODE_ECHO then
       case ip_alloc ipi of (None, ipi) \<Rightarrow> Some (ETH_DROP, icmp, ipi)
       | (Some tx, ipi) \<Rightarrow> do {
           pkt \<leftarrow> eb_load e (eb_ptr e) (unat (eb_length e));
           txe \<leftarrow> icmp_reply (eth_bufpool (eth_info ipi) tx) pkt;
           (r, ipi) \<leftarrow> ip_send (put_buf ipi tx txe) tx src IPPROTO_ICMP;
           Some (ETH_DROP, icmp, if r < 0 then ip_free ipi tx else ipi) }
     else if imsg = ICMPMSG ICMP_TYPE_ECHOREPLY ICMP_CODE_ECHO then
       if int (length (icmp_echoreplies icmp)) < icmp_maxreplies icmp
       then Some (ETH_KEEP, icmp\<lparr>icmp_echoreplies := icmp_echoreplies icmp @ [b]\<rparr>, ipi)
       else Some (ETH_DROP, icmp, ipi)
     else Some (ETH_DROP, icmp, ipi) })"

definition icmp_init :: "ip_info \<Rightarrow> bool \<Rightarrow> icmp_info option \<times> ip_info" where
  "icmp_init ipi ok = (if \<not> ok then (None, ipi)
     else (Some \<lparr>icmp_echoreplies = [], icmp_maxreplies = 0\<rparr>, ip_register ipi (uint IPPROTO_ICMP) Cb_Icmp))"

definition icmp_uninit :: "ip_info \<Rightarrow> ip_info" where "icmp_uninit ipi = ip_deregister ipi (uint IPPROTO_ICMP)"

end
