(* ===== verification/Cfe_Net.thy ===== *)
theory Cfe_Net
  imports Cfe_Udp
begin

text \<open>
  The layers put together: the dispatch of received packets (ip_rx_callback, eth_poll), the poll routine of the network
  (net_poll of src/broadcom/src/cfe/cfe/net/net_api.c), set-up and shut-down, and the loops that wait for a packet
  (udp_recv_with_timeout, _icmp_ping).  What the device and the timer answer at each poll is an argument.
\<close>

record net_ctx =
  ipinfo :: ip_info
  udpinfo :: udp_info
  icmpinfo :: icmp_info

definition ctx_eth :: "net_ctx \<Rightarrow> ether_info" where "ctx_eth ctx = eth_info (ipinfo ctx)"
definition set_ctx_eth :: "net_ctx \<Rightarrow> ether_info \<Rightarrow> net_ctx" where "set_ctx_eth ctx eth = ctx\<lparr>ipinfo := set_eth (ipinfo ctx) eth\<rparr>"

definition ip_rx_callback :: "net_ctx \<Rightarrow> nat \<Rightarrow> (int \<times> net_ctx) option" where
  "ip_rx_callback ctx b = do { (e, r) \<leftarrow> ip_rx_check (ip_addr (ipinfo ctx)) (eth_bufpool (ctx_eth ctx) b);
     let ipi = put_buf (ipinfo ctx) b e in
     case r of None \<Rightarrow> Some (ETH_DROP, ctx\<lparr>ipinfo := ipi\<rparr>)
     | Some (proto, srcip, dstip) \<Rightarrow> (case ip_find_proto (ip_protocols ipi) proto of
         None \<Rightarrow> Some (ETH_DROP, ctx\<lparr>ipinfo := ipi\<rparr>)
       | Some Cb_Udp \<Rightarrow> do { (res, ui, ipi) \<leftarrow> udp_rx_callback (udpinfo ctx) ipi b dstip srcip;
           Some (res, ctx\<lparr>ipinfo := ipi, udpinfo := ui\<rparr>) }
       | Some Cb_Icmp \<Rightarrow> do { (res, icmp, ipi) \<leftarrow> icmp_rx_callback (icmpinfo ctx) ipi b dstip srcip;
           Some (res, ctx\<lparr>ipinfo := ipi, icmpinfo := icmp\<rparr>) }) }"

definition eth_rxcallback :: "eth_cb option \<Rightarrow> net_ctx \<Rightarrow> nat \<Rightarrow> (int \<times> net_ctx) option" where
  "eth_rxcallback cb ctx b = (case cb of None \<Rightarrow> None
     | Some Cb_Arp \<Rightarrow> do { (res, ipi) \<leftarrow> arp_rx_callback (ipinfo ctx) b; Some (res, ctx\<lparr>ipinfo := ipi\<rparr>) }
     | Some Cb_Ip \<Rightarrow> ip_rx_callback ctx b)"

definition eth_poll :: "net_ctx \<Rightarrow> int \<Rightarrow> int \<times> bytes \<Rightarrow> net_ctx option" where
  "eth_poll ctx inpstat rd = do { (rx, eth) \<leftarrow> eth_receive (ctx_eth ctx) inpstat rd;
     let ctx = set_ctx_eth ctx eth in
     case rx of Rx_None \<Rightarrow> Some ctx
     | Rx_Drop b \<Rightarrow> Some (set_ctx_eth ctx (eth_free (ctx_eth ctx) b))
     | Rx_Port b port \<Rightarrow> do {
         (res, ctx) \<leftarrow> eth_rxcallback (ep_rxcallback (eth_ports eth ! port)) ctx b;
         Some (if res = ETH_DROP then set_ctx_eth ctx (eth_free (ctx_eth ctx) b) else ctx) } }"

text \<open>What one poll meets: the input status, the frame read, and whether the one-second timer has expired.\<close>

type_synonym poll_in = "int \<times> (int \<times> bytes) \<times> bool"

definition net_poll :: "net_ctx \<Rightarrow> poll_in \<Rightarrow> net_ctx option" where
  "net_poll ctx p = (case p of (inpstat, rd, expired) \<Rightarrow> do {
     ctx \<leftarrow> eth_poll ctx inpstat rd;
     (if expired then do { ipi \<leftarrow> ip_timer_tick (ipinfo ctx); Some (ctx\<lparr>ipinfo := ipi\<rparr>) } else Some ctx) })"

text \<open>\<open>mem\<close> tells which allocations succeed; the result is the return value and the context, if it is set.\<close>

definition net_init :: "(int \<times> (bool \<times> bool \<times> bool) \<times> (nat \<Rightarrow> ebuf) \<times> ((int \<times> bytes) list \<Rightarrow> int) \<times> (int \<Rightarrow> bytes \<Rightarrow> int \<times> bytes))
    \<Rightarrow> bool \<times> bool \<times> arpentry list option \<times> bool \<times> bool \<Rightarrow> (int \<times> net_ctx option) option" where
  "net_init dev mem = (case (dev, mem) of ((handle, ethmem, pool, wres, ires), (ctxok, ipok, arpmem, udpok, icmpok)) \<Rightarrow>
     if \<not> ctxok then Some (-1, None)
     else case eth_init handle ethmem pool wres ires of None \<Rightarrow> Some (-1, None)
     | Some eth \<Rightarrow> do { (ok, ipi) \<leftarrow> ip_init eth ipok arpmem;
         if \<not> ok then Some (-1, None)
         else case udp_init ipi udpok of (None, ipi) \<Rightarrow> do { ipi \<leftarrow> ip_uninit ipi; Some (-1, None) }
         | (Some ui, ipi) \<Rightarrow> (case icmp_init ipi icmpok of (None, ipi) \<Rightarrow> do { ipi \<leftarrow> ip_uninit (udp_uninit ui ipi); Some (-1, None) }
           | (Some icmp, ipi) \<Rightarrow> Some (0, Some \<lparr>ipinfo = ipi, udpinfo = ui, icmpinfo = icmp\<rparr>)) })"

definition net_uninit :: "net_ctx \<Rightarrow> ip_info option" where
  "net_uninit ctx = ip_uninit (udp_uninit (udpinfo ctx) (icmp_uninit (ipinfo ctx)))"

text \<open>The loop polls until a packet has come or the timer has expired, that is, the polls are used up.\<close>

fun udp_recv_with_timeout :: "net_ctx \<Rightarrow> nat \<Rightarrow> poll_in list \<Rightarrow> (nat option \<times> net_ctx) option" where
  "udp_recv_with_timeout ctx s [] = Some (None, ctx)"
| "udp_recv_with_timeout ctx s (p # ps) = do { ctx \<leftarrow> net_poll ctx p;
     let (buf, ui) = udp_recv (udpinfo ctx) s; ctx = ctx\<lparr>udpinfo := ui\<rparr> in
     if buf \<noteq> None then Some (buf, ctx) else udp_recv_with_timeout ctx s ps }"

section \<open>Ping\<close>

fun append_data :: "ebuf \<Rightarrow> nat \<Rightarrow> nat \<Rightarrow> ebuf option" where
  "append_data e idx 0 = Some e"
| "append_data e idx (Suc n) = do { e \<leftarrow> ebuf_append_u8 e (of_nat (idx + 0x40)); append_data e (idx + 1) n }"

definition icmp_request :: "ebuf \<Rightarrow> u16 \<Rightarrow> int \<Rightarrow> int \<Rightarrow> ebuf option" where
  "icmp_request e ident seqno len = (let icmphdr = eb_ptr e in do {
     e \<leftarrow> ebuf_append_u8 e 8;
     e \<leftarrow> ebuf_append_u8 e 0;
     e \<leftarrow> ebuf_append_u16_be e 0;
     e \<leftarrow> ebuf_append_u16_be e (ucast ident);
     e \<leftarrow> ebuf_append_u16_be e (ucast (word_of_int seqno :: u16));
     e \<leftarrow> append_data e 0 (nat len);
     cksum \<leftarrow> ip_chksum 0 (rd_ebuf e icmphdr) (sint (eb_length e));
     let cksum = NOT cksum in do {
     e \<leftarrow> eb_store e (icmphdr + 2) [hi8 (ucast cksum)];
     eb_store e (icmphdr + 3) [lo8 (ucast cksum)] } })"

definition icmp_deqreply :: "net_ctx \<Rightarrow> nat option \<times> net_ctx" where
  "icmp_deqreply ctx = (case icmp_echoreplies (icmpinfo ctx) of [] \<Rightarrow> (None, ctx)
     | b # bs \<Rightarrow> (Some b, ctx\<lparr>icmpinfo := (icmpinfo ctx)\<lparr>icmp_echoreplies := bs\<rparr>\<rparr>))"

text \<open>Whether a reply matches, with the buffer after reading.\<close>

definition icmp_matches :: "ebuf \<Rightarrow> u16 \<Rightarrow> int \<Rightarrow> (bool \<times> ebuf) option" where
  "icmp_matches e ident seqno = do { cksum \<leftarrow> ip_chksum 0 (rd_ebuf e (eb_ptr e)) (sint (eb_length e));
     if cksum = 0xFFFF then do {
       (rxid, e) \<leftarrow> ebuf_get_u16_be (ebuf_skip (ebuf_skip e 2) 2);
       (rxseq, e) \<leftarrow> ebuf_get_u16_be e;
       Some (ident = rxid \<and> word_of_int seqno = rxseq, e) }
     else Some (False, e) }"

text \<open>The loop gives the result, the context and the variable buf, which the caller frees if it is not null.\<close>

fun icmp_ping_loop :: "net_ctx \<Rightarrow> u16 \<Rightarrow> int \<Rightarrow> nat option \<Rightarrow> poll_in list \<Rightarrow> (int \<times> nat option \<times> net_ctx) option" where
  "icmp_ping_loop ctx ident seqno buf [] = Some (0, buf, ctx)"
| "icmp_ping_loop ctx ident seqno buf (p # ps) = do { ctx \<leftarrow> net_poll ctx p;
     case icmp_deqreply ctx of (None, ctx) \<Rightarrow> icmp_ping_loop ctx ident seqno None ps
     | (Some b, ctx) \<Rightarrow> do { (ok, e) \<leftarrow> icmp_matches (eth_bufpool (ctx_eth ctx) b) ident seqno;
         let ctx = ctx\<lparr>ipinfo := put_buf (ipinfo ctx) b e\<rparr> in
         if ok then Some (1, Some b, ctx)
         else icmp_ping_loop (ctx\<lparr>ipinfo := ip_free (ipinfo ctx) b\<rparr>) ident seqno (Some b) ps } }"

text \<open>The end of the routine: no more replies are accepted, the buffer is freed.\<close>

definition icmp_ping_done :: "net_ctx \<Rightarrow> nat option \<Rightarrow> net_ctx" where
  "icmp_ping_done ctx buf = (let ctx = ctx\<lparr>icmpinfo := (icmpinfo ctx)\<lparr>icmp_maxreplies := 0\<rparr>\<rparr> in
     case buf of None \<Rightarrow> ctx | Some b \<Rightarrow> ctx\<lparr>ipinfo := ip_free (ipinfo ctx) b\<rparr>)"

text \<open>The first part sends the request and opens the queue of replies; False is the return without a free buffer.\<close>

definition icmp_ping_send :: "net_ctx \<Rightarrow> bytes \<Rightarrow> int \<Rightarrow> int \<Rightarrow> u16 \<Rightarrow> (bool \<times> net_ctx) option" where
  "icmp_ping_send ctx dest seqno len ticks = (case ip_alloc (ipinfo ctx) of (None, ipi) \<Rightarrow> Some (False, ctx\<lparr>ipinfo := ipi\<rparr>)
     | (Some b, ipi) \<Rightarrow> do {
         e \<leftarrow> icmp_request (eth_bufpool (eth_info ipi) b) ticks seqno len;
         (_, ipi) \<leftarrow> ip_send (put_buf ipi b e) b dest IPPROTO_ICMP;
         Some (True, ctx\<lparr>ipinfo := ipi, icmpinfo := (icmpinfo ctx)\<lparr>icmp_maxreplies := 1\<rparr>\<rparr>) })"

definition icmp_ping :: "net_ctx \<Rightarrow> bytes \<Rightarrow> int \<Rightarrow> int \<Rightarrow> u16 \<Rightarrow> poll_in list \<Rightarrow> (int \<times> net_ctx) option" where
  "icmp_ping ctx dest seqno len ticks ps = do { (ok, ctx) \<leftarrow> icmp_ping_send ctx dest seqno len ticks;
     if \<not> ok then Some (-1, ctx)
     else do { (result, buf, ctx) \<leftarrow> icmp_ping_loop ctx ticks seqno None ps; Some (result, icmp_ping_done ctx buf) } }"

section \<open>The interface\<close>

text \<open>The routines of net_api.c work on the one global context, which is null when the network is down.\<close>

definition api_udp_alloc :: "net_ctx option \<Rightarrow> nat option \<times> net_ctx option" where
  "api_udp_alloc netctx = (case netctx of None \<Rightarrow> (None, None)
     | Some ctx \<Rightarrow> let (r, ipi) = udp_alloc (ipinfo ctx) in (r, Some (ctx\<lparr>ipinfo := ipi\<rparr>)))"

definition api_udp_free :: "net_ctx option \<Rightarrow> nat \<Rightarrow> net_ctx option" where
  "api_udp_free netctx b = map_option (\<lambda>ctx. ctx\<lparr>ipinfo := udp_free (ipinfo ctx) b\<rparr>) netctx"

definition api_udp_socket :: "net_ctx option \<Rightarrow> u32 \<Rightarrow> u16 \<Rightarrow> (int \<times> net_ctx option) option" where
  "api_udp_socket netctx ticks port = (case netctx of None \<Rightarrow> Some (-1, None)
     | Some ctx \<Rightarrow> do { (r, ui) \<leftarrow> udp_socket (udpinfo ctx) ticks port; Some (r, Some (ctx\<lparr>udpinfo := ui\<rparr>)) })"

definition api_udp_close :: "net_ctx option \<Rightarrow> nat \<Rightarrow> net_ctx option" where
  "api_udp_close netctx portnum = map_option (\<lambda>ctx. let (ui, ipi) = udp_close (udpinfo ctx) (ipinfo ctx) portnum in ctx\<lparr>ipinfo := ipi, udpinfo := ui\<rparr>) netctx"

definition api_udp_send :: "net_ctx option \<Rightarrow> nat \<Rightarrow> nat \<Rightarrow> bytes \<Rightarrow> (int \<times> net_ctx option) option" where
  "api_udp_send netctx s b dest = (case netctx of None \<Rightarrow> Some (-1, None)
     | Some ctx \<Rightarrow> do { (r, ipi) \<leftarrow> udp_send (udpinfo ctx) (ipinfo ctx) s b dest; Some (r, Some (ctx\<lparr>ipinfo := ipi\<rparr>)) })"

definition api_udp_bind :: "net_ctx option \<Rightarrow> nat \<Rightarrow> u16 \<Rightarrow> int \<times> net_ctx option" where
  "api_udp_bind netctx s port = (case netctx of None \<Rightarrow> (-1, None)
     | Some ctx \<Rightarrow> let (r, ui) = udp_bind (udpinfo ctx) s port in (r, Some (ctx\<lparr>udpinfo := ui\<rparr>)))"

definition api_udp_connect :: "net_ctx option \<Rightarrow> nat \<Rightarrow> u16 \<Rightarrow> int \<times> net_ctx option" where
  "api_udp_connect netctx s port = (case netctx of None \<Rightarrow> (-1, None)
     | Some ctx \<Rightarrow> let (r, ui) = udp_connect (udpinfo ctx) s port in (r, Some (ctx\<lparr>udpinfo := ui\<rparr>)))"

definition api_udp_recv :: "net_ctx option \<Rightarrow> nat \<Rightarrow> nat option \<times> net_ctx option" where
  "api_udp_recv netctx s = (case netctx of None \<Rightarrow> (None, None)
     | Some ctx \<Rightarrow> let (r, ui) = udp_recv (udpinfo ctx) s in (r, Some (ctx\<lparr>udpinfo := ui\<rparr>)))"

definition api_udp_recv_with_timeout :: "net_ctx option \<Rightarrow> nat \<Rightarrow> poll_in list \<Rightarrow> (nat option \<times> net_ctx option) option" where
  "api_udp_recv_with_timeout netctx s ps = (case netctx of None \<Rightarrow> Some (None, None)
     | Some ctx \<Rightarrow> do { (r, ctx) \<leftarrow> udp_recv_with_timeout ctx s ps; Some (r, Some ctx) })"

definition api_arp_add :: "net_ctx option \<Rightarrow> bytes \<Rightarrow> bytes \<Rightarrow> net_ctx option option" where
  "api_arp_add netctx destip desthw = (case netctx of None \<Rightarrow> Some None
     | Some ctx \<Rightarrow> do { ipi \<leftarrow> arp_add (ipinfo ctx) destip desthw; Some (Some (ctx\<lparr>ipinfo := ipi\<rparr>)) })"

definition api_arp_lookup :: "net_ctx option \<Rightarrow> bytes \<Rightarrow> (bytes option \<times> net_ctx option) option" where
  "api_arp_lookup netctx destip = (case netctx of None \<Rightarrow> Some (None, None)
     | Some ctx \<Rightarrow> do { (r, ipi) \<leftarrow> arp_lookup (ipinfo ctx) destip; Some (r, Some (ctx\<lparr>ipinfo := ipi\<rparr>)) })"

definition api_arp_enumerate :: "net_ctx option \<Rightarrow> int \<Rightarrow> (int \<times> (bytes \<times> bytes) option) option" where
  "api_arp_enumerate netctx entrynum = (case netctx of None \<Rightarrow> Some (-1, None) | Some ctx \<Rightarrow> arp_enumerate (ipinfo ctx) entrynum)"

definition api_arp_delete :: "net_ctx option \<Rightarrow> bytes \<Rightarrow> (int \<times> net_ctx option) option" where
  "api_arp_delete netctx ipaddr = (case netctx of None \<Rightarrow> Some (-1, None)
     | Some ctx \<Rightarrow> do { (r, ipi) \<leftarrow> arp_delete_ip (ipinfo ctx) ipaddr; Some (r, Some (ctx\<lparr>ipinfo := ipi\<rparr>)) })"

definition api_icmp_ping :: "net_ctx option \<Rightarrow> bytes \<Rightarrow> int \<Rightarrow> int \<Rightarrow> u16 \<Rightarrow> poll_in list \<Rightarrow> (int \<times> net_ctx option) option" where
  "api_icmp_ping netctx dest seq len ticks ps = (case netctx of None \<Rightarrow> Some (-1, None)
     | Some ctx \<Rightarrow> do { (r, ctx) \<leftarrow> icmp_ping ctx dest seq len ticks ps; Some (r, Some ctx) })"

text \<open>\<open>devname\<close> is the name strdup has copied into the context; None stands for the parameter NET_DEVNAME.\<close>

definition api_net_getparam :: "net_ctx option \<Rightarrow> bytes \<Rightarrow> ip_param option \<Rightarrow> bytes option" where
  "api_net_getparam netctx devname param = (case netctx of None \<Rightarrow> None
     | Some ctx \<Rightarrow> (case param of None \<Rightarrow> Some devname | Some p \<Rightarrow> ip_getparam (ipinfo ctx) p))"

definition api_net_poll :: "net_ctx option \<Rightarrow> poll_in \<Rightarrow> net_ctx option option" where
  "api_net_poll netctx p = (case netctx of None \<Rightarrow> Some None | Some ctx \<Rightarrow> map_option Some (net_poll ctx p))"

definition api_net_setparam :: "net_ctx option \<Rightarrow> ip_param \<Rightarrow> bytes option \<Rightarrow> (int \<times> net_ctx option) option" where
  "api_net_setparam netctx param ptr = (case netctx of None \<Rightarrow> Some (0, None)
     | Some ctx \<Rightarrow> do { (r, ipi) \<leftarrow> ip_setparam (ipinfo ctx) param ptr; Some (r, Some (ctx\<lparr>ipinfo := ipi\<rparr>)) })"

definition api_net_uninit :: "net_ctx option \<Rightarrow> net_ctx option option" where
  "api_net_uninit netctx = (case netctx of None \<Rightarrow> Some None | Some ctx \<Rightarrow> do { _ \<leftarrow> net_uninit ctx; Some None })"

definition api_net_init :: "net_ctx option \<Rightarrow> (int \<times> (bool \<times> bool \<times> bool) \<times> (nat \<Rightarrow> ebuf) \<times> ((int \<times> bytes) list \<Rightarrow> int) \<times> (int \<Rightarrow> bytes \<Rightarrow> int \<times> bytes))
    \<Rightarrow> bool \<times> bool \<times> arpentry list option \<times> bool \<times> bool \<Rightarrow> (int \<times> net_ctx option) option" where
  "api_net_init netctx dev mem = do { _ \<leftarrow> api_net_uninit netctx; net_init dev mem }"

end
