(* ===== verification/Cfe_Arp_Step.thy ===== *)
theory Cfe_Arp_Step
  imports Cfe_Arp
begin

text \<open>
  The operations of the boot loader's address resolution (theory Cfe_Arp) as steps: none of them fails, each keeps the
  invariant, gives every buffer to exactly one owner and sends the stated frames.
\<close>

section \<open>The queues\<close>

lemma eth_free_all_sel [simp]:
  "eth_freelist (eth_free_all eth bs) = eth_freelist eth @ bs" "dev_out (eth_free_all eth bs) = dev_out eth"
  "eth_bufpool (eth_free_all eth bs) = eth_bufpool eth" "eth_ports (eth_free_all eth bs) = eth_ports eth"
  by (induction bs arbitrary: eth) simp_all

lemma eth_free_all_same [simp]: "eth_same eth (eth_free_all eth' bs) X = eth_same eth eth' X"
  by (induction bs arbitrary: eth') (simp_all add: eth_same_free)

lemma eth_packet_same: "eth_same eth eth' X \<Longrightarrow> b \<notin> X \<Longrightarrow> eth_packet eth' b d = eth_packet eth b d"
  by (simp add: eth_packet_def eth_same_def)

lemma arp_send_all_ok:
  "eth_wf eth \<Longrightarrow> (\<And>b. b \<in> set bs \<Longrightarrow> tx_ready eth 0 b) \<Longrightarrow> distinct bs \<Longrightarrow> ENET_ADDR_LEN \<le> length dest \<Longrightarrow>
   \<exists>eth'. arp_send_all eth bs dest = Some eth' \<and> eth_same eth eth' (set bs) \<and> eth_freelist eth' = eth_freelist eth @ bs \<and>
     dev_out eth' = dev_out eth @ map (\<lambda>b. eth_packet eth b dest) bs"
proof (induction bs arbitrary: eth)
  case Nil
  then show ?case by (simp add: eth_same_refl)
next
  case (Cons b bs)
  obtain res eth1 where s: "eth_send eth b dest = Some (res, eth1)" "eth_same eth eth1 {b}" "eth_freelist eth1 = eth_freelist eth"
    "dev_out eth1 = dev_out eth @ [eth_packet eth b dest]"
    using eth_send_ok[OF Cons.prems(1) _ Cons.prems(4), of b] Cons.prems(2) by auto
  let ?eth = "eth_free eth1 b"
  have s1: "eth_same eth ?eth {b}" using s(2) by (simp add: eth_same_free)
  have "tx_ready ?eth 0 x" if "x \<in> set bs" for x using eth_same_ready[OF s1, of x] Cons.prems(2,3) that by auto
  from Cons.IH[OF eth_same_wf[OF s1 Cons.prems(1)] this] Cons.prems obtain eth2 where
    r: "arp_send_all ?eth bs dest = Some eth2" "eth_same ?eth eth2 (set bs)" "eth_freelist eth2 = eth_freelist ?eth @ bs"
      "dev_out eth2 = dev_out ?eth @ map (\<lambda>b. eth_packet ?eth b dest) bs" by auto
  have "eth_packet ?eth x dest = eth_packet eth x dest" if "x \<in> set bs" for x
    by (rule eth_packet_same[OF s1]) (use that Cons.prems(3) in auto)
  then have "map (\<lambda>b. eth_packet ?eth b dest) bs = map (\<lambda>b. eth_packet eth b dest) bs"
    by (intro map_cong) simp_all
  then show ?case using s r eth_same_trans[OF s1 r(2), of "set (b # bs)"] by auto
qed

lemma set_entry_eth: "set_entry (set_eth ipi (eth_info ipi)) i ae = set_entry ipi i ae"
  by (simp add: set_entry_def set_eth_def)

lemma set_entry_sel [simp]:
  "eth_info (set_entry ipi i ae) = eth_info ipi" "arp_table (set_entry ipi i ae) = map_option (\<lambda>t. t[i := ae]) (arp_table ipi)"
  "arp_port (set_entry ipi i ae) = arp_port ipi" "ip_addr (set_entry ipi i ae) = ip_addr ipi" "arp_hwaddr (set_entry ipi i ae) = arp_hwaddr ipi"
  "ip_port (set_entry ipi i ae) = ip_port ipi"
  by (simp_all add: set_entry_def)

lemma set_eth_sel [simp]:
  "eth_info (set_eth ipi eth) = eth" "arp_table (set_eth ipi eth) = arp_table ipi" "arp_port (set_eth ipi eth) = arp_port ipi"
  "ip_addr (set_eth ipi eth) = ip_addr ipi" "arp_hwaddr (set_eth ipi eth) = arp_hwaddr ipi" "ip_port (set_eth ipi eth) = ip_port ipi"
  by (simp_all add: set_eth_def)

lemma set_entry_set_eth: "set_entry (set_eth ipi eth) i ae = set_eth (set_entry ipi i ae) eth"
  by (simp add: set_entry_def set_eth_def)

lemma set_entry_twice: "set_entry (set_entry ipi i ae) i ae' = set_entry ipi i ae'"
  by (cases "arp_table ipi") (simp_all add: set_entry_def)

text \<open>A step that changes an entry only.\<close>

lemma entry_only:
  assumes wf: "ip_wf ipi" and t: "arp_table ipi = Some t" and i: "i < ARP_TABLE_SIZE" and ok: "arp_ent_ok ae" and q: "ae_txqueue ae = ae_txqueue (t ! i)"
  shows "arp_step ipi (set_entry ipi i ae) {#} []"
proof -
  have w: "eth_wf (eth_info ipi)" "length t = ARP_TABLE_SIZE" "\<And>b. b \<in> set (waiting t) \<Longrightarrow> tx_ready (eth_info ipi) 0 b" "\<And>x. count (ip_bufs ipi) x \<le> 1"
    using wf t by (auto simp: ip_wf_def)
  have "arp_step ipi (set_entry (set_eth ipi (eth_info ipi)) i ae) {#} []"
    by (rule entry_step[OF wf t i ok eth_same_refl[OF w(1), of "{}"]]) (use q w i queue_waiting in auto)
  then show ?thesis by (simp add: set_entry_eth)
qed

definition deleted :: "arpentry \<Rightarrow> arpentry" where
  "deleted ae = ae\<lparr>ae_txqueue := [], ae_timer := 0, ae_usage := 0, ae_retries := 0, ae_state := ae_unused\<rparr>"

lemma arp_delete_step:
  assumes wf: "ip_wf ipi" and t: "arp_table ipi = Some t" and i: "i < ARP_TABLE_SIZE"
  shows "\<exists>ipi'. arp_delete ipi i = Some ipi' \<and> arp_step ipi ipi' {#} [] \<and> arp_table ipi' = Some (t[i := deleted (t ! i)])"
proof -
  have w: "eth_wf (eth_info ipi)" "\<And>x. count (ip_bufs ipi) x \<le> 1" using wf by (auto simp: ip_wf_def)
  let ?eth = "eth_free_all (eth_info ipi) (ae_txqueue (t ! i))"
  have "arp_step ipi (set_entry (set_eth ipi ?eth) i (deleted (t ! i))) {#} []"
    by (rule entry_step[OF wf t i, where X = "{}"]) (use w in \<open>auto simp: deleted_def arp_ent_ok_def eth_same_refl\<close>)
  then show ?thesis using t by (simp add: arp_delete_def Let_def deleted_def)
qed

text \<open>An entry gets its address: what waits is sent, in order.\<close>

lemma arp_tx_waiting_step:
  assumes wf: "ip_wf ipi" and t: "arp_table ipi = Some t" and i: "i < ARP_TABLE_SIZE" and q: "ae_txqueue ae = ae_txqueue (t ! i)"
    and ae: "ae_state ae = ae_established" "length (ae_ipaddr ae) = IP_ADDR_LEN" "length (ae_ethaddr ae) = ENET_ADDR_LEN"
  shows "\<exists>ipi'. arp_tx_waiting (set_entry ipi i ae) i = Some ipi' \<and>
    arp_step ipi ipi' {#} (map (\<lambda>b. eth_packet (eth_info ipi) b (ae_ethaddr ae)) (ae_txqueue (t ! i))) \<and>
    arp_table ipi' = Some (t[i := ae\<lparr>ae_txqueue := []\<rparr>]) \<and> eth_same (eth_info ipi) (eth_info ipi') (set (ae_txqueue (t ! i)))"
proof -
  have w: "eth_wf (eth_info ipi)" "length t = ARP_TABLE_SIZE" "\<And>b. b \<in> set (waiting t) \<Longrightarrow> tx_ready (eth_info ipi) 0 b" "\<And>x. count (ip_bufs ipi) x \<le> 1"
    using wf t by (auto simp: ip_wf_def)
  have il: "i < length t" using i w by simp
  have "mset (waiting t) = mset (waiting (t[i := (t ! i)\<lparr>ae_txqueue := []\<rparr>])) + mset (ae_txqueue (t ! i))"
    using mset_waiting_upd[OF il, of "(t ! i)\<lparr>ae_txqueue := []\<rparr>"] by simp
  then have "ip_bufs ipi = mset (eth_freelist (eth_info ipi)) + mset (waiting (t[i := (t ! i)\<lparr>ae_txqueue := []\<rparr>])) + mset (ae_txqueue (t ! i)) + {#}"
    using t by (simp add: ip_bufs_def)
  then have d: "distinct (ae_txqueue (t ! i))" using w(4) count_mset_le by metis
  have rd: "tx_ready (eth_info ipi) 0 b" if "b \<in> set (ae_txqueue (t ! i))" for b using w(3) queue_waiting[OF il that] by blast
  obtain eth where e: "arp_send_all (eth_info ipi) (ae_txqueue (t ! i)) (ae_ethaddr ae) = Some eth" "eth_same (eth_info ipi) eth (set (ae_txqueue (t ! i)))"
    "eth_freelist eth = eth_freelist (eth_info ipi) @ ae_txqueue (t ! i)"
    "dev_out eth = dev_out (eth_info ipi) @ map (\<lambda>b. eth_packet (eth_info ipi) b (ae_ethaddr ae)) (ae_txqueue (t ! i))"
    using arp_send_all_ok[OF w(1) rd d, of "ae_ethaddr ae"] ae by auto
  have "arp_step ipi (set_entry (set_eth ipi eth) i (ae\<lparr>ae_txqueue := []\<rparr>)) {#} (map (\<lambda>b. eth_packet (eth_info ipi) b (ae_ethaddr ae)) (ae_txqueue (t ! i)))"
    by (rule entry_step[OF wf t i _ e(2)]) (use e ae w in \<open>auto simp: arp_ent_ok_def\<close>)
  then show ?thesis using t il e(1,2) q
    by (simp add: arp_tx_waiting_def Let_def set_entry_set_eth set_entry_twice)
qed

text \<open>A query, and a reply.\<close>

lemma mset_rotate1 [simp]: "mset (rotate1 xs) = mset xs"
  by (cases xs) simp_all

lemma eth_only_step:
  assumes wf: "ip_wf ipi" and same: "eth_same (eth_info ipi) eth X" and X: "X \<subseteq> set (eth_freelist (eth_info ipi)) \<union> set_mset M"
    and fl: "mset (eth_freelist eth) = mset (eth_freelist (eth_info ipi)) + M" and new: "\<And>x. count (ip_bufs ipi + M) x \<le> 1"
    and out: "dev_out eth = dev_out (eth_info ipi) @ out"
  shows "arp_step ipi (set_eth ipi eth) M out"
proof -
  obtain t where t: "arp_table ipi = Some t" "length t = ARP_TABLE_SIZE" using wf by (auto simp: ip_wf_def split: option.splits)
  have w: "\<And>b. b \<in> set (waiting t) \<Longrightarrow> tx_ready (eth_info ipi) 0 b" "\<And>ae. ae \<in> set t \<Longrightarrow> arp_ent_ok ae"
    using wf t by (auto simp: ip_wf_def)
  have i: "0 < ARP_TABLE_SIZE" by (simp add: arp_consts)
  have z: "t ! 0 \<in> set t" using t i by simp
  have rd: "tx_ready eth 0 b" if b: "b \<in> set (ae_txqueue (t ! 0))" for b
  proof -
    have bw: "b \<in> set (waiting t)" using queue_waiting[of 0 t b] b t i by simp
    have "b \<notin># mset (eth_freelist (eth_info ipi)) + M"
    proof
      assume "b \<in># mset (eth_freelist (eth_info ipi)) + M"
      then have "2 \<le> count (mset (eth_freelist (eth_info ipi)) + M + mset (waiting t)) b" using bw by (intro two_counts) simp_all
      then show False using new[of b] t by (simp add: ip_bufs_def)
    qed
    then have "b \<notin> X" using X by auto
    then show ?thesis using w(1)[OF bw] eth_same_ready[OF same] by simp
  qed
  have "arp_step ipi (set_entry (set_eth ipi eth) 0 (t ! 0)) M out"
    by (rule entry_step[OF wf t(1) i w(2)[OF z] same]) (use X fl new rd out in auto)
  moreover have "set_entry (set_eth ipi eth) 0 (t ! 0) = set_eth ipi eth" using t by (simp add: set_entry_def set_eth_def)
  ultimately show ?thesis by simp
qed

lemma tx_done_step:
  assumes wf: "ip_wf ipi" and d: "tx_done (eth_info ipi) eth out"
  shows "arp_step ipi (set_eth ipi eth) {#} out"
  using wf d by (intro eth_only_step[of _ _ "set (eth_freelist (eth_info ipi))"]) (simp_all add: tx_done_def ip_wf_def)

text \<open>Sending a packet that the caller holds, and giving its buffer back.\<close>

lemma new_buf: "ip_wf ipi \<Longrightarrow> b \<notin># ip_bufs ipi \<Longrightarrow> count (ip_bufs ipi + {#b#}) x \<le> 1"
  by (auto simp: ip_wf_def not_in_iff)

lemma send_free_step:
  assumes wf: "ip_wf ipi" and b: "b \<notin># ip_bufs ipi" and rd: "tx_ready (eth_info ipi) 0 b" and d: "ENET_ADDR_LEN \<le> length dest"
  shows "\<exists>res eth. eth_send (eth_info ipi) b dest = Some (res, eth) \<and> arp_step ipi (set_eth ipi (eth_free eth b)) {#b#} [eth_packet (eth_info ipi) b dest]"
proof -
  have "eth_wf (eth_info ipi)" using wf by (simp add: ip_wf_def)
  from eth_send_ok[OF this rd d] obtain res eth where s: "eth_send (eth_info ipi) b dest = Some (res, eth)" "eth_same (eth_info ipi) eth {b}"
    "eth_freelist eth = eth_freelist (eth_info ipi)" "dev_out eth = dev_out (eth_info ipi) @ [eth_packet (eth_info ipi) b dest]" by blast
  have "arp_step ipi (set_eth ipi (eth_free eth b)) {#b#} [eth_packet (eth_info ipi) b dest]"
    by (rule eth_only_step[OF wf, of _ "{b}"]) (use s new_buf[OF wf b] in \<open>simp_all add: eth_same_free\<close>)
  then show ?thesis using s(1) by blast
qed

lemma free_step:
  assumes wf: "ip_wf ipi" and b: "b \<notin># ip_bufs ipi"
  shows "arp_step ipi (set_eth ipi (eth_free (eth_info ipi) b)) {#b#} []"
  by (rule eth_only_step[OF wf, of _ "{}"]) (use wf new_buf[OF wf b] in \<open>simp_all add: eth_same_free eth_same_refl ip_wf_def\<close>)

definition arp_query_out :: "ip_info \<Rightarrow> bytes \<Rightarrow> (int \<times> bytes) list" where
  "arp_query_out ipi dest = arp_out ipi eth_broadcast (arp_msg ARP_OPCODE_REQUEST (arp_hwaddr ipi) (ip_addr ipi) (replicate 6 0) dest)"

lemma arp_tx_query_step:
  assumes wf: "ip_wf ipi"
  shows "\<exists>r ipi'. arp_tx_query ipi dest = Some (r, ipi') \<and> arp_step ipi ipi' {#} (arp_query_out ipi dest) \<and> arp_table ipi' = arp_table ipi"
proof -
  have "eth_wf (eth_info ipi)" "dix_port (eth_info ipi) (arp_port ipi)" using wf by (auto simp: ip_wf_def)
  from arp_tx_query_ok[OF this, of dest] show ?thesis using tx_done_step[OF wf] by (auto simp: arp_query_out_def)
qed

lemma arp_rx_query_step:
  assumes wf: "ip_wf ipi" and d: "length src = ENET_ADDR_LEN"
  shows "\<exists>r ipi'. arp_rx_query ipi src thw tip = Some (r, ipi') \<and>
    arp_step ipi ipi' {#} (arp_out ipi src (arp_msg ARP_OPCODE_REPLY (arp_hwaddr ipi) (ip_addr ipi) thw tip)) \<and> arp_table ipi' = arp_table ipi"
proof -
  have "eth_wf (eth_info ipi)" "dix_port (eth_info ipi) (arp_port ipi)" using wf by (auto simp: ip_wf_def)
  from arp_rx_query_ok[OF this d, of thw tip] show ?thesis using tx_done_step[OF wf] by auto
qed

section \<open>Look-up\<close>

definition arp_match :: "bytes \<Rightarrow> arpentry \<Rightarrow> bool" where
  "arp_match ipaddr ae = (ae_state ae \<noteq> ae_unused \<and> take IP_ADDR_LEN (ae_ipaddr ae) = take IP_ADDR_LEN ipaddr)"

lemma arp_find_idx_Some: "arp_find_idx t ipaddr idx = Some i \<Longrightarrow>
    idx \<le> i \<and> i - idx < length t \<and> arp_match ipaddr (t ! (i - idx)) \<and> (\<forall>j < i - idx. \<not> arp_match ipaddr (t ! j))"
proof (induction t arbitrary: idx)
  case (Cons ae t)
  show ?case
  proof (cases "arp_match ipaddr ae")
    case False
    then have "arp_find_idx t ipaddr (idx + 1) = Some i" using Cons.prems by (auto simp: arp_match_def split: if_splits)
    note ih = Cons.IH[OF this]
    then have "idx < i" by simp
    then have "i - idx = Suc (i - (idx + 1))" by simp
    then show ?thesis using ih False by (auto simp: less_Suc_eq_0_disj)
  qed (use Cons.prems in \<open>auto simp: arp_match_def\<close>)
qed simp

lemma arp_find_idx_None: "arp_find_idx t ipaddr idx = None \<longleftrightarrow> (\<forall>ae \<in> set t. \<not> arp_match ipaddr ae)"
  by (induction t arbitrary: idx) (auto simp: arp_match_def)

lemma arp_find_unused_Some: "arp_find_unused t idx = Some i \<Longrightarrow> idx \<le> i \<and> i - idx < length t \<and> ae_state (t ! (i - idx)) = ae_unused"
proof (induction t arbitrary: idx)
  case (Cons ae t)
  then show ?case by (cases "ae_state ae = ae_unused") (auto simp: nth_Cons' dest!: Cons.IH split: if_splits)
qed simp

lemma arp_find_unused_None: "arp_find_unused t idx = None \<longleftrightarrow> (\<forall>ae \<in> set t. ae_state ae \<noteq> ae_unused)"
  by (induction t arbitrary: idx) auto

lemma arp_victim_range: "arp_victim t idx m v = Some i \<Longrightarrow> v = Some i \<or> idx \<le> i \<and> i < idx + length t"
  by (induction t arbitrary: idx m v) (auto split: if_splits; fastforce)+

definition touched :: "arpentry \<Rightarrow> arpentry" where
  "touched ae = (if ae_state ae = ae_established then ae\<lparr>ae_timer := ARP_KEEP_TIMER\<rparr> else ae)"

lemma arp_find_entry_step:
  assumes wf: "ip_wf ipi" and t: "arp_table ipi = Some t"
  shows "\<exists>r ipi'. arp_find_entry ipi ipaddr = Some (r, ipi') \<and> arp_step ipi ipi' {#} [] \<and> r = arp_find_idx t ipaddr 0 \<and>
    eth_info ipi' = eth_info ipi \<and> arp_table ipi' = Some (case r of None \<Rightarrow> t | Some i \<Rightarrow> t[i := touched (t ! i)])"
proof (cases "arp_find_idx t ipaddr 0")
  case None
  then show ?thesis using t arp_step_refl[OF wf] by (simp add: arp_find_entry_def)
next
  case (Some i)
  have w: "length t = ARP_TABLE_SIZE" "\<And>ae. ae \<in> set t \<Longrightarrow> arp_ent_ok ae" using wf t by (auto simp: ip_wf_def)
  have i: "i < ARP_TABLE_SIZE" using arp_find_idx_Some[OF Some] w by simp
  have "t ! i \<in> set t" using i w by simp
  then have ok: "arp_ent_ok (touched (t ! i))" using w(2) by (force simp: touched_def arp_ent_ok_def)
  have "arp_step ipi (set_entry ipi i (touched (t ! i))) {#} []" by (rule entry_only[OF wf t i ok]) (simp add: touched_def)
  moreover have "set_entry ipi i (t ! i) = ipi" using t by (simp add: set_entry_def)
  ultimately show ?thesis using t Some by (auto simp: arp_find_entry_def touched_def Let_def)
qed

lemma arp_new_entry_step:
  assumes wf: "ip_wf ipi" and t: "arp_table ipi = Some t"
  shows "\<exists>i ipi' t'. arp_new_entry ipi = Some (i, ipi') \<and> arp_step ipi ipi' {#} [] \<and> i < ARP_TABLE_SIZE \<and>
    arp_table ipi' = Some t' \<and> ae_state (t' ! i) = ae_unused \<and> (\<forall>j < ARP_TABLE_SIZE. j \<noteq> i \<longrightarrow> t' ! j = t ! j) \<and>
    ((\<exists>ae \<in> set t. ae_state ae = ae_unused) \<longrightarrow> ae_state (t ! i) = ae_unused)"
proof (cases "arp_find_unused t 0")
  case None
  have w: "length t = ARP_TABLE_SIZE" using wf t by (auto simp: ip_wf_def)
  define v where "v = (case arp_victim t 0 0x7FFFFFFF None of None \<Rightarrow> 0 | Some i \<Rightarrow> i)"
  have v: "v < ARP_TABLE_SIZE"
    using arp_victim_range[of t 0 "0x7FFFFFFF" None] w by (auto simp: v_def arp_consts split: option.splits)
  obtain ipi' where "arp_delete ipi v = Some ipi'" "arp_step ipi ipi' {#} []" "arp_table ipi' = Some (t[v := deleted (t ! v)])"
    using arp_delete_step[OF wf t v] by blast
  then show ?thesis using None v w t arp_find_unused_None[of t 0]
    by (intro exI[of _ v] exI[of _ ipi']) (simp add: arp_new_entry_def v_def deleted_def Let_def)
next
  case (Some i)
  then show ?thesis using arp_find_unused_Some[OF Some] wf t arp_step_refl[OF wf] by (auto simp: arp_new_entry_def ip_wf_def)
qed

section \<open>Sending a packet\<close>

lemma usage_timer: "(ae :: arpentry)\<lparr>ae_usage := u, ae_timer := m\<rparr> = ae\<lparr>ae_timer := m, ae_usage := u\<rparr>"
  by simp

text \<open>The state of a table slot by address: what the next packet for the address does.\<close>

lemma lookup_send_established:
  assumes wf: "ip_wf ipi" and t: "arp_table ipi = Some t" and f: "arp_find_idx t dest 0 = Some i" and e: "ae_state (t ! i) = ae_established"
    and b: "b \<notin># ip_bufs ipi" and rd: "tx_ready (eth_info ipi) 0 b"
  shows "\<exists>ipi'. arp_lookup_and_send ipi b dest = Some (0, ipi') \<and> arp_step ipi ipi' {#b#} [eth_packet (eth_info ipi) b (ae_ethaddr (t ! i))] \<and>
    arp_table ipi' = Some (t[i := (t ! i)\<lparr>ae_timer := ARP_KEEP_TIMER, ae_usage := ae_usage (t ! i) + 1\<rparr>])"
proof -
  obtain ipi1 where f1: "arp_find_entry ipi dest = Some (Some i, ipi1)" "arp_step ipi ipi1 {#} []" "eth_info ipi1 = eth_info ipi"
    "arp_table ipi1 = Some (t[i := touched (t ! i)])"
    using arp_find_entry_step[OF wf t, of dest] f by auto
  have wf1: "ip_wf ipi1" by (rule arp_step_wf[OF f1(2)])
  have bufs: "ip_bufs ipi1 = ip_bufs ipi" using f1(2) by (simp add: arp_step_def)
  have w: "length t = ARP_TABLE_SIZE" "eth_wf (eth_info ipi)" "\<And>x. count (ip_bufs ipi) x \<le> 1" "arp_ent_ok (t ! i)" and i: "i < ARP_TABLE_SIZE"
    using wf t arp_find_idx_Some[OF f] by (auto simp: ip_wf_def)
  have d: "ENET_ADDR_LEN \<le> length (ae_ethaddr (t ! i))" "ae_txqueue (t ! i) = []" using w(4) e by (simp_all add: arp_ent_ok_def)
  obtain res eth where s: "eth_send (eth_info ipi) b (ae_ethaddr (t ! i)) = Some (res, eth)" "eth_same (eth_info ipi) eth {b}"
    "eth_freelist eth = eth_freelist (eth_info ipi)" "dev_out eth = dev_out (eth_info ipi) @ [eth_packet (eth_info ipi) b (ae_ethaddr (t ! i))]"
    using eth_send_ok[OF w(2) rd d(1)] by blast
  let ?ae = "(t ! i)\<lparr>ae_timer := ARP_KEEP_TIMER, ae_usage := ae_usage (t ! i) + 1\<rparr>"
  have eq: "arp_lookup_and_send ipi b dest = Some (0, set_entry (set_eth ipi1 (eth_free eth b)) i ?ae)"
    using f1 s(1) e i w(1) by (simp add: arp_lookup_and_send_def touched_def Let_def usage_timer)
  have "arp_step ipi1 (set_entry (set_eth ipi1 (eth_free eth b)) i ?ae) {#b#} [eth_packet (eth_info ipi) b (ae_ethaddr (t ! i))]"
  proof (rule entry_step[OF wf1 f1(4) i])
    show "eth_same (eth_info ipi1) (eth_free eth b) {b}" using s(2) f1(3) by (simp add: eth_same_free)
    show "count (ip_bufs ipi1 + {#b#}) x \<le> 1" for x using w(3)[of x] b by (auto simp: bufs not_in_iff)
    show "arp_ent_ok ?ae" using w(4) e by (simp add: arp_ent_ok_def)
  qed (use s f1 d i w e in \<open>auto simp: touched_def\<close>)
  from arp_step_trans[OF f1(2) this] show ?thesis using eq f1(4) by simp
qed

lemma arp_lookup_and_send_step:
  assumes wf: "ip_wf ipi" and b: "b \<notin># ip_bufs ipi" and rd: "tx_ready (eth_info ipi) 0 b" and d: "IP_ADDR_LEN \<le> length dest"
  shows "\<exists>ipi' out. arp_lookup_and_send ipi b dest = Some (0, ipi') \<and> arp_step ipi ipi' {#b#} out"
proof -
  obtain t where t: "arp_table ipi = Some t" using wf by (auto simp: ip_wf_def split: option.splits)
  have w: "length t = ARP_TABLE_SIZE" "\<And>x. count (ip_bufs ipi) x \<le> 1" "\<And>ae. ae \<in> set t \<Longrightarrow> arp_ent_ok ae" "eth_wf (eth_info ipi)"
    using wf t by (auto simp: ip_wf_def)
  have new: "count (ip_bufs ipi + {#b#}) x \<le> 1" for x using w(2)[of x] b by (auto simp: not_in_iff)
  obtain ipi1 where f1: "arp_find_entry ipi dest = Some (arp_find_idx t dest 0, ipi1)" "arp_step ipi ipi1 {#} []" "eth_info ipi1 = eth_info ipi"
    "arp_table ipi1 = Some (case arp_find_idx t dest 0 of None \<Rightarrow> t | Some i \<Rightarrow> t[i := touched (t ! i)])"
    using arp_find_entry_step[OF wf t, of dest] by blast
  have wf1: "ip_wf ipi1" by (rule arp_step_wf[OF f1(2)])
  have bufs: "ip_bufs ipi1 = ip_bufs ipi" using f1(2) by (simp add: arp_step_def)
  show ?thesis
  proof (cases "arp_find_idx t dest 0")
    case None
    then have t1: "arp_table ipi1 = Some t" using f1(4) by simp
    obtain i ipi2 t2 where n: "arp_new_entry ipi1 = Some (i, ipi2)" "arp_step ipi1 ipi2 {#} []" "i < ARP_TABLE_SIZE" "arp_table ipi2 = Some t2"
      "ae_state (t2 ! i) = ae_unused"
      using arp_new_entry_step[OF wf1 t1] by blast
    have wf2: "ip_wf ipi2" by (rule arp_step_wf[OF n(2)])
    have w2: "length t2 = ARP_TABLE_SIZE" "arp_ent_ok (t2 ! i)" "eth_wf (eth_info ipi2)" using wf2 n(3,4) by (auto simp: ip_wf_def)
    have q: "ae_txqueue (t2 ! i) = []" using w2(2) n(5) by (simp add: arp_ent_ok_def)
    have bufs2: "ip_bufs ipi2 = ip_bufs ipi" using n(2) bufs by (simp add: arp_step_def)
    have "eth_same (eth_info ipi) (eth_info ipi2) (set_mset (ip_bufs ipi))" using n(2) bufs f1(3) by (simp add: arp_step_def)
    then have rd2: "tx_ready (eth_info ipi2) 0 b" using rd b by (simp add: eth_same_ready)
    let ?ae = "(t2 ! i)\<lparr>ae_ipaddr := take IP_ADDR_LEN dest, ae_txqueue := [b], ae_retries := ARP_QUERY_RETRIES,
               ae_timer := ARP_QUERY_TIMER, ae_state := ae_arping\<rparr>"
    have s: "arp_step ipi2 (set_entry (set_eth ipi2 (eth_info ipi2)) i ?ae) {#b#} []"
    proof (rule entry_step[OF wf2 n(4,3)])
      show "arp_ent_ok ?ae" using d by (simp add: arp_ent_ok_def arp_consts)
      show "eth_same (eth_info ipi2) (eth_info ipi2) {}" by (rule eth_same_refl[OF w2(3)])
      show "count (ip_bufs ipi2 + {#b#}) x \<le> 1" for x unfolding bufs2 by (rule new)
    qed (use q rd2 in auto)
    obtain r ipi3 where x: "arp_tx_query (set_entry ipi2 i ?ae) (take IP_ADDR_LEN dest) = Some (r, ipi3)"
      "arp_step (set_entry ipi2 i ?ae) ipi3 {#} (arp_query_out (set_entry ipi2 i ?ae) (take IP_ADDR_LEN dest))"
      using arp_tx_query_step[of "set_entry ipi2 i ?ae" "take IP_ADDR_LEN dest"] arp_step_wf[OF s] by (auto simp: set_entry_eth)
    have "arp_lookup_and_send ipi b dest = Some (0, ipi3)"
      using f1 None n q x(1) by (simp add: arp_lookup_and_send_def Let_def)
    moreover note arp_step_trans[OF f1(2) arp_step_trans[OF n(2) arp_step_trans[OF s[unfolded set_entry_eth] x(2)]]]
    ultimately show ?thesis by auto
  next
    case (Some i)
    have i: "i < ARP_TABLE_SIZE" "arp_match dest (t ! i)" using arp_find_idx_Some[OF Some] w by auto
    have ok: "arp_ent_ok (t ! i)" using w i by simp
    show ?thesis
    proof (cases "ae_state (t ! i)")
      case ae_established
      then show ?thesis using lookup_send_established[OF wf t Some _ b rd] by blast
    next
      case ae_unused
      then show ?thesis using i by (simp add: arp_match_def)
    next
      case ae_arping
      then have to: "touched (t ! i) = t ! i" by (simp add: touched_def)
      have t1: "arp_table ipi1 = Some t" using f1(4) Some to by simp
      show ?thesis
      proof (cases "length (ae_txqueue (t ! i)) < ARP_TXWAIT_MAX")
        case True
        let ?ae = "(t ! i)\<lparr>ae_txqueue := ae_txqueue (t ! i) @ [b]\<rparr>"
        have "arp_step ipi1 (set_entry (set_eth ipi1 (eth_info ipi1)) i ?ae) {#b#} []"
        proof (rule entry_step[OF wf1 t1 i(1)])
          show "arp_ent_ok ?ae" using ok ae_arping True by (simp add: arp_ent_ok_def)
          show "eth_same (eth_info ipi1) (eth_info ipi1) {}" unfolding f1(3) by (rule eth_same_refl[OF w(4)])
          show "count (ip_bufs ipi1 + {#b#}) x \<le> 1" for x unfolding bufs by (rule new)
          show "tx_ready (eth_info ipi1) 0 x" if "x \<in> set (ae_txqueue ?ae)" for x
            using that rd wf1 t1 queue_waiting[of i t x] i w f1(3) by (auto simp: ip_wf_def)
        qed auto
        from arp_step_trans[OF f1(2) this[unfolded set_entry_eth]] show ?thesis
          using f1 Some ae_arping True t1 by (auto simp: arp_lookup_and_send_def Let_def)
      next
        case False
        have "arp_step ipi1 (set_entry (set_eth ipi1 (eth_free (eth_info ipi1) b)) i (t ! i)) {#b#} []"
        proof (rule entry_step[OF wf1 t1 i(1) ok])
          show "eth_same (eth_info ipi1) (eth_free (eth_info ipi1) b) {}" unfolding f1(3) eth_same_free by (rule eth_same_refl[OF w(4)])
          show "count (ip_bufs ipi1 + {#b#}) x \<le> 1" for x unfolding bufs by (rule new)
          show "tx_ready (eth_free (eth_info ipi1) b) 0 x" if "x \<in> set (ae_txqueue (t ! i))" for x
            using that wf1 t1 queue_waiting[of i t x] i w by (auto simp: ip_wf_def tx_ready_def dix_port_def)
        qed auto
        moreover have "set_entry (set_eth ipi1 (eth_free (eth_info ipi1) b)) i (t ! i) = set_eth ipi1 (eth_free (eth_info ipi1) b)"
          using t1 by (simp add: set_entry_def set_eth_def)
        ultimately have "arp_step ipi1 (set_eth ipi1 (eth_free (eth_info ipi1) b)) {#b#} []" by simp
        from arp_step_trans[OF f1(2) this] show ?thesis
          using f1 Some ae_arping False t1 by (auto simp: arp_lookup_and_send_def Let_def)
      qed
    qed
  qed
qed

section \<open>Answers\<close>

definition resolved :: "bytes \<Rightarrow> bytes \<Rightarrow> arpentry \<Rightarrow> arpentry" where
  "resolved hw ip ae = (if arp_match ip ae then ae\<lparr>ae_ethaddr := take ENET_ADDR_LEN hw, ae_state := ae_established,
     ae_timer := ARP_KEEP_TIMER, ae_retries := 0, ae_permanent := False, ae_txqueue := []\<rparr> else ae)"

definition flushed :: "ether_info \<Rightarrow> bytes \<Rightarrow> bytes \<Rightarrow> arpentry \<Rightarrow> (int \<times> bytes) list" where
  "flushed eth hw ip ae = (if arp_match ip ae then map (\<lambda>b. eth_packet eth b hw) (ae_txqueue ae) else [])"

lemma eth_packet_take: "length hw = ENET_ADDR_LEN \<Longrightarrow> eth_packet eth b (take ENET_ADDR_LEN hw) = eth_packet eth b hw"
  by (simp add: eth_packet_def)

lemma rx_response_entry:
  assumes wf: "ip_wf ipi" and t: "arp_table ipi = Some t" and i: "i < ARP_TABLE_SIZE" and hw: "length hw = ENET_ADDR_LEN"
  shows "\<exists>ipi'. (if ae_state (t ! i) \<noteq> ae_unused \<and> take IP_ADDR_LEN (ae_ipaddr (t ! i)) = take IP_ADDR_LEN ip
       then arp_tx_waiting (set_entry ipi i ((t ! i)\<lparr>ae_ethaddr := take ENET_ADDR_LEN hw, ae_state := ae_established,
         ae_timer := ARP_KEEP_TIMER, ae_retries := 0, ae_permanent := False\<rparr>)) i else Some ipi) = Some ipi' \<and>
     arp_step ipi ipi' {#} (flushed (eth_info ipi) hw ip (t ! i)) \<and> arp_table ipi' = Some (t[i := resolved hw ip (t ! i)]) \<and>
     eth_same (eth_info ipi) (eth_info ipi') (set (ae_txqueue (t ! i)))"
proof (cases "arp_match ip (t ! i)")
  case True
  have ok: "arp_ent_ok (t ! i)" using wf t i by (auto simp: ip_wf_def)
  let ?ae = "(t ! i)\<lparr>ae_ethaddr := take ENET_ADDR_LEN hw, ae_state := ae_established,
         ae_timer := ARP_KEEP_TIMER, ae_retries := 0, ae_permanent := False\<rparr>"
  have "length (ae_ipaddr ?ae) = IP_ADDR_LEN" using ok True by (auto simp: arp_ent_ok_def arp_match_def split: arpstate.splits)
  then obtain ipi' where "arp_tx_waiting (set_entry ipi i ?ae) i = Some ipi'"
    "arp_step ipi ipi' {#} (map (\<lambda>b. eth_packet (eth_info ipi) b (ae_ethaddr ?ae)) (ae_txqueue (t ! i)))"
    "arp_table ipi' = Some (t[i := ?ae\<lparr>ae_txqueue := []\<rparr>])" "eth_same (eth_info ipi) (eth_info ipi') (set (ae_txqueue (t ! i)))"
    using arp_tx_waiting_step[OF wf t i, of ?ae] hw by auto
  then show ?thesis using True hw by (auto simp: arp_match_def flushed_def resolved_def)
next
  case False
  have "eth_wf (eth_info ipi)" using wf by (simp add: ip_wf_def)
  then show ?thesis using False t arp_step_refl[OF wf] by (auto simp: arp_match_def flushed_def resolved_def eth_same_refl)
qed

lemma flushed_same:
  "eth_same eth eth' X \<Longrightarrow> set (ae_txqueue ae) \<inter> X = {} \<Longrightarrow> flushed eth' hw ip ae = flushed eth hw ip ae"
  by (auto simp: flushed_def intro!: eth_packet_same)

lemma rx_response_loop:
  "ip_wf ipi \<Longrightarrow> arp_table ipi = Some t \<Longrightarrow> distinct is \<Longrightarrow> set is \<subseteq> {..<ARP_TABLE_SIZE} \<Longrightarrow> length hw = ENET_ADDR_LEN \<Longrightarrow>
   \<exists>ipi'. arp_rx_response_loop ipi hw ip is = Some ipi' \<and> arp_step ipi ipi' {#} (concat (map (\<lambda>i. flushed (eth_info ipi) hw ip (t ! i)) is)) \<and>
     (\<exists>t'. arp_table ipi' = Some t' \<and> length t' = length t \<and>
       (\<forall>j < length t. t' ! j = (if j \<in> set is then resolved hw ip (t ! j) else t ! j)))"
proof (induction "is" arbitrary: ipi t)
  case Nil
  then show ?case by (simp add: arp_step_refl)
next
  case (Cons i "is")
  have i: "i < ARP_TABLE_SIZE" and len: "length t = ARP_TABLE_SIZE" using Cons.prems by (auto simp: ip_wf_def)
  obtain ipi1 where s: "(if ae_state (t ! i) \<noteq> ae_unused \<and> take IP_ADDR_LEN (ae_ipaddr (t ! i)) = take IP_ADDR_LEN ip
       then arp_tx_waiting (set_entry ipi i ((t ! i)\<lparr>ae_ethaddr := take ENET_ADDR_LEN hw, ae_state := ae_established,
         ae_timer := ARP_KEEP_TIMER, ae_retries := 0, ae_permanent := False\<rparr>)) i else Some ipi) = Some ipi1"
     "arp_step ipi ipi1 {#} (flushed (eth_info ipi) hw ip (t ! i))" "arp_table ipi1 = Some (t[i := resolved hw ip (t ! i)])"
     "eth_same (eth_info ipi) (eth_info ipi1) (set (ae_txqueue (t ! i)))"
    using rx_response_entry[OF Cons.prems(1,2) i Cons.prems(5), of ip] by blast
  obtain ipi2 t2 where r: "arp_rx_response_loop ipi1 hw ip is = Some ipi2"
    "arp_step ipi1 ipi2 {#} (concat (map (\<lambda>j. flushed (eth_info ipi1) hw ip (t[i := resolved hw ip (t ! i)] ! j)) is))"
    "arp_table ipi2 = Some t2" "length t2 = length t"
    "\<forall>j < length t. t2 ! j = (if j \<in> set is then resolved hw ip (t[i := resolved hw ip (t ! i)] ! j) else t[i := resolved hw ip (t ! i)] ! j)"
    using Cons.IH[OF arp_step_wf[OF s(2)] s(3)] Cons.prems by auto
  have u: "\<And>x. count (ip_bufs ipi) x \<le> 1" using Cons.prems(1) by (simp add: ip_wf_def)
  have "flushed (eth_info ipi1) hw ip (t[i := resolved hw ip (t ! i)] ! j) = flushed (eth_info ipi) hw ip (t ! j)" if j: "j \<in> set is" for j
  proof -
    have ij: "i \<noteq> j" "j < length t" using Cons.prems(3,4) j len by auto
    have "set (ae_txqueue (t ! j)) \<inter> set (ae_txqueue (t ! i)) = {}"
      using other_queue[OF u Cons.prems(2), of i j] ij i len by fastforce
    then show ?thesis using flushed_same[OF s(4)] ij by simp
  qed
  then have "concat (map (\<lambda>j. flushed (eth_info ipi1) hw ip (t[i := resolved hw ip (t ! i)] ! j)) is) = concat (map (\<lambda>j. flushed (eth_info ipi) hw ip (t ! j)) is)"
    by (intro arg_cong[of _ _ concat] map_cong) simp_all
  then have "arp_step ipi ipi2 {#} (concat (map (\<lambda>j. flushed (eth_info ipi) hw ip (t ! j)) (i # is)))"
    using arp_step_trans[OF s(2) r(2)] by simp
  moreover have "\<forall>j < length t. t2 ! j = (if j \<in> set (i # is) then resolved hw ip (t ! j) else t ! j)"
  proof (intro allI impI)
    fix j assume "j < length t"
    then show "t2 ! j = (if j \<in> set (i # is) then resolved hw ip (t ! j) else t ! j)"
      using r(5) Cons.prems(3) by (cases "j = i") auto
  qed
  ultimately show ?case using s(1) r(1,3,4) Cons.prems(2) by (auto simp: Let_def)
qed

text \<open>All packets that wait for the address are sent to it, in order, and its entries are established.\<close>

lemma arp_rx_response_step:
  assumes wf: "ip_wf ipi" and t: "arp_table ipi = Some t" and hw: "length hw = ENET_ADDR_LEN"
  shows "\<exists>ipi'. arp_rx_response ipi hw ip = Some (0, ipi') \<and> arp_step ipi ipi' {#} (concat (map (flushed (eth_info ipi) hw ip) t)) \<and>
    arp_table ipi' = Some (map (resolved hw ip) t)"
proof -
  have len: "length t = ARP_TABLE_SIZE" using wf t by (simp add: ip_wf_def)
  have "set [0..<ARP_TABLE_SIZE] \<subseteq> {..<ARP_TABLE_SIZE}" by auto
  then obtain ipi' t' where r: "arp_rx_response_loop ipi hw ip [0..<ARP_TABLE_SIZE] = Some ipi'"
    "arp_step ipi ipi' {#} (concat (map (\<lambda>i. flushed (eth_info ipi) hw ip (t ! i)) [0..<ARP_TABLE_SIZE]))"
    "arp_table ipi' = Some t'" "length t' = length t"
    "\<forall>j < length t. t' ! j = (if j \<in> set [0..<ARP_TABLE_SIZE] then resolved hw ip (t ! j) else t ! j)"
    using rx_response_loop[OF wf t distinct_upt _ hw] by blast
  have "t' = map (resolved hw ip) t" by (rule nth_equalityI) (use r(4,5) len in auto)
  moreover have "map (\<lambda>i. flushed (eth_info ipi) hw ip (t ! i)) [0..<ARP_TABLE_SIZE] = map (flushed (eth_info ipi) hw ip) t"
    by (rule nth_equalityI) (use len in auto)
  ultimately show ?thesis using r by (simp add: arp_rx_response_def)
qed

section \<open>Administration\<close>

lemma arp_add_step:
  assumes wf: "ip_wf ipi" and ip: "IP_ADDR_LEN \<le> length destip" and hw: "ENET_ADDR_LEN \<le> length desthw"
  shows "\<exists>ipi' out. arp_add ipi destip desthw = Some ipi' \<and> arp_step ipi ipi' {#} out"
proof -
  obtain t where t: "arp_table ipi = Some t" using wf by (auto simp: ip_wf_def split: option.splits)
  have w: "length t = ARP_TABLE_SIZE" using wf t by (auto simp: ip_wf_def)
  obtain r ipi1 where f: "arp_find_entry ipi desthw = Some (r, ipi1)" "arp_step ipi ipi1 {#} []" "r = arp_find_idx t desthw 0"
    "arp_table ipi1 = Some (case r of None \<Rightarrow> t | Some i \<Rightarrow> t[i := touched (t ! i)])"
    using arp_find_entry_step[OF wf t, of desthw] by blast
  have "\<exists>i ipi2. (case r of None \<Rightarrow> arp_new_entry ipi1 | Some i \<Rightarrow> Some (i, ipi1)) = Some (i, ipi2) \<and> arp_step ipi1 ipi2 {#} [] \<and> i < ARP_TABLE_SIZE"
  proof (cases r)
    case None
    then show ?thesis using arp_new_entry_step[OF arp_step_wf[OF f(2)] f(4)] by auto
  next
    case (Some i)
    then show ?thesis using arp_find_idx_Some[of t desthw 0 i] f(3) w arp_step_refl[OF arp_step_wf[OF f(2)]] by auto
  qed
  then obtain i ipi2 where n: "(case r of None \<Rightarrow> arp_new_entry ipi1 | Some i \<Rightarrow> Some (i, ipi1)) = Some (i, ipi2)" "arp_step ipi1 ipi2 {#} []" "i < ARP_TABLE_SIZE"
    by blast
  obtain t2 where t2: "arp_table ipi2 = Some t2" using arp_step_wf[OF n(2)] by (auto simp: ip_wf_def split: option.splits)
  let ?ae = "(t2 ! i)\<lparr>ae_ipaddr := take IP_ADDR_LEN destip, ae_ethaddr := take ENET_ADDR_LEN desthw,
       ae_retries := 0, ae_timer := 0, ae_permanent := True, ae_state := ae_established\<rparr>"
  obtain ipi3 where x: "arp_tx_waiting (set_entry ipi2 i ?ae) i = Some ipi3"
    "arp_step ipi2 ipi3 {#} (map (\<lambda>b. eth_packet (eth_info ipi2) b (ae_ethaddr ?ae)) (ae_txqueue (t2 ! i)))"
    using arp_tx_waiting_step[OF arp_step_wf[OF n(2)] t2 n(3), of ?ae] ip hw by auto
  have "arp_add ipi destip desthw = Some ipi3" using f(1) n(1) t2 x(1) by (simp add: arp_add_def)
  then show ?thesis using arp_step_trans[OF f(2) arp_step_trans[OF n(2) x(2)]] by auto
qed

lemma arp_delete_ip_step:
  assumes wf: "ip_wf ipi"
  shows "\<exists>r ipi'. arp_delete_ip ipi ip = Some (r, ipi') \<and> arp_step ipi ipi' {#} [] \<and>
    (r = 0 \<or> r = -1 \<and> (\<forall>ae \<in> set (the (arp_table ipi)). \<not> arp_match ip ae))"
proof -
  obtain t where t: "arp_table ipi = Some t" using wf by (auto simp: ip_wf_def split: option.splits)
  have w: "length t = ARP_TABLE_SIZE" using wf t by (auto simp: ip_wf_def)
  obtain r ipi1 where f: "arp_find_entry ipi ip = Some (r, ipi1)" "arp_step ipi ipi1 {#} []" "r = arp_find_idx t ip 0"
    "arp_table ipi1 = Some (case r of None \<Rightarrow> t | Some i \<Rightarrow> t[i := touched (t ! i)])"
    using arp_find_entry_step[OF wf t, of ip] by blast
  show ?thesis
  proof (cases r)
    case None
    then show ?thesis using f t arp_find_idx_None[of t ip 0] by (simp add: arp_delete_ip_def)
  next
    case (Some i)
    then have i: "i < ARP_TABLE_SIZE" using arp_find_idx_Some[of t ip 0 i] f(3) w by simp
    obtain ipi2 where "arp_delete ipi1 i = Some ipi2" "arp_step ipi1 ipi2 {#} []"
      using arp_delete_step[OF arp_step_wf[OF f(2)] f(4) i] by blast
    then show ?thesis using f Some arp_step_trans[OF f(2)] by (fastforce simp: arp_delete_ip_def)
  qed
qed

lemma arp_send_gratuitous_step:
  assumes wf: "ip_wf ipi"
  shows "\<exists>ipi' out. arp_send_gratuitous ipi = Some ipi' \<and> arp_step ipi ipi' {#} out \<and> arp_table ipi' = arp_table ipi"
  using arp_tx_query_step[OF wf, of "ip_addr ipi"] arp_step_refl[OF wf] by (auto simp: arp_send_gratuitous_def)

section \<open>The timer\<close>

definition aged :: "arpentry \<Rightarrow> arpentry" where
  "aged ae = (case ae_state ae of ae_unused \<Rightarrow> ae
   | ae_arping \<Rightarrow> if ae_timer ae \<le> 1 then if ae_retries ae = 0 then deleted ae else ae\<lparr>ae_retries := ae_retries ae - 1, ae_timer := ARP_QUERY_TIMER\<rparr>
       else ae\<lparr>ae_timer := ae_timer ae - 1\<rparr>
   | ae_established \<Rightarrow> if ae_timer ae = 0 then ae else if ae_timer ae = 1 then deleted ae else ae\<lparr>ae_timer := ae_timer ae - 1\<rparr>)"

text \<open>The frame of a query, and the entries that send one with the next tick.\<close>

definition arp_query_frame :: "ip_info \<Rightarrow> bytes \<Rightarrow> int \<times> bytes" where
  "arp_query_frame ipi dest = (let p = eth_ports (eth_info ipi) ! nat (arp_port ipi) in
     (ep_dev p, eth_broadcast @ eth_hwaddr (eth_info ipi) @ take 2 (ep_proto p) @
        arp_msg ARP_OPCODE_REQUEST (arp_hwaddr ipi) (ip_addr ipi) (replicate 6 0) dest))"

definition asks :: "arpentry \<Rightarrow> bool" where
  "asks ae = (ae_state ae = ae_arping \<and> ae_timer ae \<le> 1 \<and> ae_retries ae \<noteq> 0)"

definition asked :: "ip_info \<Rightarrow> arpentry \<Rightarrow> (int \<times> bytes) list" where
  "asked ipi ae = (if asks ae then [arp_query_frame ipi (ae_ipaddr ae)] else [])"

lemma query_out_frame: "eth_freelist (eth_info ipi) \<noteq> [] \<Longrightarrow> arp_query_out ipi dest = [arp_query_frame ipi dest]"
  by (simp add: arp_query_out_def arp_out_def arp_query_frame_def Let_def enet_consts eth_broadcast_def)

text \<open>A step that takes nothing out of the free list, and after which queries look as before.\<close>

lemma freelist_kept:
  assumes s: "arp_step ipi ipi' {#} out" and t: "arp_table ipi = Some t" "arp_table ipi' = Some (t[i := ae])" "i < length t"
    and q: "mset (ae_txqueue ae) \<subseteq># mset (ae_txqueue (t ! i))"
  shows "mset (eth_freelist (eth_info ipi)) \<subseteq># mset (eth_freelist (eth_info ipi'))"
proof -
  have "ip_bufs ipi' = ip_bufs ipi" using s by (simp add: arp_step_def)
  then have "mset (eth_freelist (eth_info ipi')) + mset (waiting (t[i := ae])) = mset (eth_freelist (eth_info ipi)) + mset (waiting t)"
    using t by (simp add: ip_bufs_def)
  moreover obtain M where "mset (ae_txqueue (t ! i)) = mset (ae_txqueue ae) + M" using q by (metis subset_mset.le_iff_add)
  then have "mset (waiting t) = mset (waiting (t[i := ae])) + M" using mset_waiting_upd[OF t(3), of ae] by (simp add: ac_simps)
  ultimately have "mset (eth_freelist (eth_info ipi')) = mset (eth_freelist (eth_info ipi)) + M" by (simp add: ac_simps)
  then show ?thesis by simp
qed

lemma query_frame_same: "arp_step ipi ipi' M out \<Longrightarrow> arp_query_frame ipi' = arp_query_frame ipi"
  by (auto simp: arp_step_def eth_same_def ip_rest_def arp_query_frame_def Let_def fun_eq_iff)

lemma aged_shrinks: "mset (ae_txqueue (aged ae)) \<subseteq># mset (ae_txqueue ae)"
  by (auto simp: aged_def deleted_def split: arpstate.splits)

lemma arp_tick_entry_step:
  assumes wf: "ip_wf ipi" and t: "arp_table ipi = Some t" and i: "i < ARP_TABLE_SIZE"
  shows "\<exists>ipi' out. arp_tick_entry ipi i = Some ipi' \<and> arp_step ipi ipi' {#} out \<and> arp_table ipi' = Some (t[i := aged (t ! i)]) \<and>
    out = (if ae_state (t ! i) = ae_arping \<and> ae_timer (t ! i) \<le> 1 \<and> ae_retries (t ! i) \<noteq> 0 then arp_query_out ipi (ae_ipaddr (t ! i)) else [])"
proof -
  have w: "length t = ARP_TABLE_SIZE" "arp_ent_ok (t ! i)" using wf t i by (auto simp: ip_wf_def)
  have del: "\<exists>ipi'. arp_delete (set_entry ipi i ae) i = Some ipi' \<and> arp_step ipi ipi' {#} [] \<and> arp_table ipi' = Some (t[i := deleted (t ! i)])"
    if "arp_ent_ok ae" "ae_txqueue ae = ae_txqueue (t ! i)" "deleted ae = deleted (t ! i)" for ae
  proof -
    have s: "arp_step ipi (set_entry ipi i ae) {#} []" by (rule entry_only[OF wf t i that(1,2)])
    obtain ipi' where "arp_delete (set_entry ipi i ae) i = Some ipi'" "arp_step (set_entry ipi i ae) ipi' {#} []" "arp_table ipi' = Some (t[i := deleted ae])"
      using arp_delete_step[OF arp_step_wf[OF s], of "t[i := ae]" i] t i w by auto
    then show ?thesis using arp_step_trans[OF s] that(3) by fastforce
  qed
  show ?thesis
  proof (cases "ae_state (t ! i)")
    case ae_unused
    then show ?thesis using t arp_step_refl[OF wf] by (simp add: arp_tick_entry_def aged_def)
  next
    case ae_established
    have ok: "arp_ent_ok ((t ! i)\<lparr>ae_timer := m\<rparr>)" for m using w(2) ae_established by (simp add: arp_ent_ok_def)
    show ?thesis
      using ae_established t arp_step_refl[OF wf] entry_only[OF wf t i ok] del[OF ok] w(1) i
      by (auto simp: arp_tick_entry_def aged_def Let_def deleted_def)
  next
    case ae_arping
    have ok: "arp_ent_ok ((t ! i)\<lparr>ae_timer := m\<rparr>)" for m using w(2) ae_arping by (simp add: arp_ent_ok_def)
    show ?thesis
    proof (cases "ae_timer (t ! i) \<le> 1 \<and> ae_retries (t ! i) \<noteq> 0")
      case True
      let ?ae = "(t ! i)\<lparr>ae_retries := ae_retries (t ! i) - 1, ae_timer := ARP_QUERY_TIMER\<rparr>"
      have "arp_ent_ok ?ae" using w(2) ae_arping True by (simp add: arp_ent_ok_def)
      then have s: "arp_step ipi (set_entry ipi i ?ae) {#} []" by (rule entry_only[OF wf t i]) simp
      obtain r ipi' where q: "arp_tx_query (set_entry ipi i ?ae) (ae_ipaddr (t ! i)) = Some (r, ipi')"
        "arp_step (set_entry ipi i ?ae) ipi' {#} (arp_query_out (set_entry ipi i ?ae) (ae_ipaddr (t ! i)))" "arp_table ipi' = Some (t[i := ?ae])"
        using arp_tx_query_step[OF arp_step_wf[OF s], of "ae_ipaddr (t ! i)"] t by auto
      moreover have "arp_query_out (set_entry ipi i ?ae) (ae_ipaddr (t ! i)) = arp_query_out ipi (ae_ipaddr (t ! i))"
        by (simp add: arp_query_out_def arp_out_def)
      ultimately show ?thesis using True ae_arping t arp_step_trans[OF s q(2)]
        by (auto simp: arp_tick_entry_def aged_def Let_def)
    next
      case False
      then show ?thesis using ae_arping t entry_only[OF wf t i ok] del[OF ok]
        by (auto simp: arp_tick_entry_def aged_def Let_def deleted_def)
    qed
  qed
qed

lemma arp_tick_entry_out:
  assumes wf: "ip_wf ipi" and t: "arp_table ipi = Some t" and i: "i < ARP_TABLE_SIZE"
  shows "\<exists>ipi' out. arp_tick_entry ipi i = Some ipi' \<and> arp_step ipi ipi' {#} out \<and> arp_table ipi' = Some (t[i := aged (t ! i)]) \<and>
    (eth_freelist (eth_info ipi) \<noteq> [] \<longrightarrow> out = asked ipi (t ! i) \<and> eth_freelist (eth_info ipi') \<noteq> [])"
proof -
  have il: "i < length t" using wf t i by (simp add: ip_wf_def)
  obtain ipi' out where s: "arp_tick_entry ipi i = Some ipi'" "arp_step ipi ipi' {#} out" "arp_table ipi' = Some (t[i := aged (t ! i)])"
    "out = (if asks (t ! i) then arp_query_out ipi (ae_ipaddr (t ! i)) else [])"
    using arp_tick_entry_step[OF assms] by (auto simp: asks_def)
  have "eth_freelist (eth_info ipi') \<noteq> []" if "eth_freelist (eth_info ipi) \<noteq> []"
    using freelist_kept[OF s(2) t s(3) il aged_shrinks] that by auto
  then show ?thesis using s query_out_frame by (auto simp: asked_def)
qed

lemma arp_tick_loop_step:
  "ip_wf ipi \<Longrightarrow> arp_table ipi = Some t \<Longrightarrow> distinct is \<Longrightarrow> set is \<subseteq> {..<ARP_TABLE_SIZE} \<Longrightarrow>
   \<exists>ipi' out t'. arp_tick_loop ipi is = Some ipi' \<and> arp_step ipi ipi' {#} out \<and> arp_table ipi' = Some t' \<and> length t' = length t \<and>
     (\<forall>j < length t. t' ! j = (if j \<in> set is then aged (t ! j) else t ! j)) \<and>
     (eth_freelist (eth_info ipi) \<noteq> [] \<longrightarrow> out = concat (map (\<lambda>j. asked ipi (t ! j)) is) \<and> eth_freelist (eth_info ipi') \<noteq> [])"
proof (induction "is" arbitrary: ipi t)
  case Nil
  then show ?case using arp_step_refl by fastforce
next
  case (Cons i "is")
  have i: "i < ARP_TABLE_SIZE" and len: "length t = ARP_TABLE_SIZE" using Cons.prems by (auto simp: ip_wf_def)
  obtain ipi1 o1 where s: "arp_tick_entry ipi i = Some ipi1" "arp_step ipi ipi1 {#} o1" "arp_table ipi1 = Some (t[i := aged (t ! i)])"
    "eth_freelist (eth_info ipi) \<noteq> [] \<longrightarrow> o1 = asked ipi (t ! i) \<and> eth_freelist (eth_info ipi1) \<noteq> []"
    using arp_tick_entry_out[OF Cons.prems(1,2) i] by blast
  obtain ipi2 o2 t2 where r: "arp_tick_loop ipi1 is = Some ipi2" "arp_step ipi1 ipi2 {#} o2" "arp_table ipi2 = Some t2" "length t2 = length t"
    "\<forall>j < length t. t2 ! j = (if j \<in> set is then aged (t[i := aged (t ! i)] ! j) else t[i := aged (t ! i)] ! j)"
    "eth_freelist (eth_info ipi1) \<noteq> [] \<longrightarrow> o2 = concat (map (\<lambda>j. asked ipi1 (t[i := aged (t ! i)] ! j)) is) \<and> eth_freelist (eth_info ipi2) \<noteq> []"
    using Cons.IH[OF arp_step_wf[OF s(2)] s(3)] Cons.prems by auto
  have "\<forall>j < length t. t2 ! j = (if j \<in> set (i # is) then aged (t ! j) else t ! j)"
  proof (intro allI impI)
    fix j assume "j < length t"
    then show "t2 ! j = (if j \<in> set (i # is) then aged (t ! j) else t ! j)" using r(5) Cons.prems(3) by (cases "j = i") auto
  qed
  moreover have "asked ipi1 = asked ipi" using query_frame_same[OF s(2)] by (simp add: asked_def fun_eq_iff)
  then have m: "map (\<lambda>j. asked ipi1 (t[i := aged (t ! i)] ! j)) is = map (\<lambda>j. asked ipi (t ! j)) is"
    using Cons.prems(3) by (intro map_cong refl) (metis distinct.simps(2) nth_list_update_neq)
  have "eth_freelist (eth_info ipi) \<noteq> [] \<longrightarrow> o1 @ o2 = concat (map (\<lambda>j. asked ipi (t ! j)) (i # is)) \<and> eth_freelist (eth_info ipi2) \<noteq> []"
    using s(4) r(6) unfolding m by simp
  moreover have "arp_tick_loop ipi (i # is) = Some ipi2" using s(1) r(1) by simp
  ultimately show ?case using r(3,4) arp_step_trans[OF s(2) r(2)] by (intro exI[of _ ipi2] exI[of _ "o1 @ o2"] exI[of _ t2]) simp
qed

text \<open>A tick ages every entry, and sends the queries of those that ask.\<close>

lemma arp_timer_tick_step:
  assumes wf: "ip_wf ipi" and t: "arp_table ipi = Some t"
  shows "\<exists>ipi' out. arp_timer_tick ipi = Some ipi' \<and> arp_step ipi ipi' {#} out \<and> arp_table ipi' = Some (map aged t) \<and>
    (eth_freelist (eth_info ipi) \<noteq> [] \<longrightarrow> out = concat (map (asked ipi) t) \<and> eth_freelist (eth_info ipi') \<noteq> [])"
proof -
  have len: "length t = ARP_TABLE_SIZE" using wf t by (simp add: ip_wf_def)
  have "set [0..<ARP_TABLE_SIZE] \<subseteq> {..<ARP_TABLE_SIZE}" by auto
  then obtain ipi' out t' where r: "arp_tick_loop ipi [0..<ARP_TABLE_SIZE] = Some ipi'" "arp_step ipi ipi' {#} out" "arp_table ipi' = Some t'"
    "length t' = length t" "\<forall>j < length t. t' ! j = (if j \<in> set [0..<ARP_TABLE_SIZE] then aged (t ! j) else t ! j)"
    "eth_freelist (eth_info ipi) \<noteq> [] \<longrightarrow> out = concat (map (\<lambda>j. asked ipi (t ! j)) [0..<ARP_TABLE_SIZE]) \<and> eth_freelist (eth_info ipi') \<noteq> []"
    using arp_tick_loop_step[OF wf t distinct_upt] by blast
  have "t' = map aged t" by (rule nth_equalityI) (use r(4,5) len in auto)
  moreover have "map (\<lambda>j. asked ipi (t ! j)) [0..<ARP_TABLE_SIZE] = map (asked ipi) t"
    by (rule nth_equalityI) (use len in auto)
  ultimately show ?thesis using r by (auto simp: arp_timer_tick_def)
qed

lemma established_aged:
  "ae_state ae = ae_established \<Longrightarrow> int k < ae_timer ae \<Longrightarrow> (aged ^^ k) ae = ae\<lparr>ae_timer := ae_timer ae - int k\<rparr>"
  by (induction k) (auto simp: aged_def)

lemma established_expires:
  assumes "ae_state ae = ae_established" "0 < ae_timer ae"
  shows "ae_state ((aged ^^ nat (ae_timer ae)) ae) = ae_unused"
proof -
  have "nat (ae_timer ae) = Suc (nat (ae_timer ae - 1))" using assms by simp
  moreover have "(aged ^^ nat (ae_timer ae - 1)) ae = ae\<lparr>ae_timer := 1\<rparr>" using established_aged[of ae "nat (ae_timer ae - 1)"] assms by simp
  ultimately show ?thesis using assms(1) by (simp add: aged_def deleted_def)
qed

lemma permanent_stays: "ae_state ae = ae_established \<Longrightarrow> ae_timer ae = 0 \<Longrightarrow> (aged ^^ k) ae = ae"
  by (induction k) (simp_all add: aged_def)

lemma arping_gives_up:
  "ae_state ae = ae_arping \<Longrightarrow> ae_timer ae = 1 \<Longrightarrow> ae_retries ae = int r \<Longrightarrow> ae_state ((aged ^^ Suc r) ae) = ae_unused"
proof (induction r arbitrary: ae)
  case 0
  then show ?case by (simp add: aged_def deleted_def)
next
  case (Suc r)
  have "aged ae = ae\<lparr>ae_retries := int r, ae_timer := 1\<rparr>" using Suc.prems by (simp add: aged_def arp_consts)
  then show ?case using Suc.IH[of "aged ae"] Suc.prems by (simp add: funpow_swap1)
qed

lemma arping_aged:
  assumes "ae_state ae = ae_arping" "ae_timer ae = 1" "ae_retries ae = int r"
  shows "n \<le> r \<Longrightarrow> (aged ^^ n) ae = ae\<lparr>ae_retries := int (r - n), ae_timer := 1\<rparr>"
proof (induction n)
  case 0
  then show ?case using assms by (cases ae) simp
next
  case (Suc n)
  then show ?case using assms by (simp add: aged_def arp_consts of_nat_diff)
qed

text \<open>With \<open>r\<close> retries left an entry asks in \<open>r\<close> ticks and never again.\<close>

lemma arping_asks:
  assumes "ae_state ae = ae_arping" "ae_timer ae = 1" "ae_retries ae = int r"
  shows "asks ((aged ^^ n) ae) \<longleftrightarrow> n < r"
proof (cases "n \<le> r")
  case True
  then show ?thesis using arping_aged[OF assms True] assms(1) by (auto simp: asks_def)
next
  case False
  have "ae_state ((aged ^^ (k + Suc r)) ae) = ae_unused" for k
  proof (induction k)
    case 0
    show ?case using arping_gives_up[OF assms] by simp
  next
    case (Suc k)
    then show ?case by (simp add: aged_def)
  qed
  from this[of "n - Suc r"] show ?thesis using False by (auto simp: asks_def)
qed

lemma aged_ipaddr [simp]: "ae_ipaddr ((aged ^^ n) ae) = ae_ipaddr ae"
proof (induction n)
  case (Suc n)
  have "ae_ipaddr (aged a) = ae_ipaddr a" for a by (simp add: aged_def deleted_def split: arpstate.splits)
  then show ?case using Suc by simp
qed simp

fun tick_times :: "nat \<Rightarrow> ip_info \<Rightarrow> ip_info option" where
  "tick_times 0 ipi = Some ipi"
| "tick_times (Suc n) ipi = Option.bind (arp_timer_tick ipi) (tick_times n)"

lemma tick_times_step:
  "ip_wf ipi \<Longrightarrow> arp_table ipi = Some t \<Longrightarrow>
   \<exists>ipi' out. tick_times n ipi = Some ipi' \<and> arp_step ipi ipi' {#} out \<and> arp_table ipi' = Some (map (aged ^^ n) t) \<and>
     (eth_freelist (eth_info ipi) \<noteq> [] \<longrightarrow> out = concat (map (\<lambda>k. concat (map (\<lambda>ae. asked ipi ((aged ^^ k) ae)) t)) [0..<n]))"
proof (induction n arbitrary: ipi t)
  case 0
  then show ?case using arp_step_refl by fastforce
next
  case (Suc n)
  obtain ipi1 o1 where s: "arp_timer_tick ipi = Some ipi1" "arp_step ipi ipi1 {#} o1" "arp_table ipi1 = Some (map aged t)"
    "eth_freelist (eth_info ipi) \<noteq> [] \<longrightarrow> o1 = concat (map (asked ipi) t) \<and> eth_freelist (eth_info ipi1) \<noteq> []"
    using arp_timer_tick_step[OF Suc.prems] by blast
  obtain ipi2 o2 where r: "tick_times n ipi1 = Some ipi2" "arp_step ipi1 ipi2 {#} o2" "arp_table ipi2 = Some (map (aged ^^ n) (map aged t))"
    "eth_freelist (eth_info ipi1) \<noteq> [] \<longrightarrow> o2 = concat (map (\<lambda>k. concat (map (\<lambda>ae. asked ipi1 ((aged ^^ k) ae)) (map aged t))) [0..<n])"
    using Suc.IH[OF arp_step_wf[OF s(2)] s(3)] by blast
  have m: "map (aged ^^ n) (map aged t) = map (aged ^^ Suc n) t" by (simp add: funpow_swap1)
  let ?f = "\<lambda>k. concat (map (\<lambda>ae. asked ipi ((aged ^^ k) ae)) t)" and ?g = "\<lambda>k. concat (map (\<lambda>ae. asked ipi1 ((aged ^^ k) ae)) (map aged t))"
  have "asked ipi1 = asked ipi" using query_frame_same[OF s(2)] by (simp add: asked_def fun_eq_iff)
  then have g: "?g k = ?f (Suc k)" for k by (simp add: funpow_swap1 comp_def)
  have "map ?f [0..<Suc n] = ?f 0 # map (\<lambda>k. ?f (Suc k)) [0..<n]" by (rule map_upt_Suc)
  then have "concat (map ?f [0..<Suc n]) = concat (map (asked ipi) t) @ concat (map ?g [0..<n])" unfolding g by simp
  then have "eth_freelist (eth_info ipi) \<noteq> [] \<longrightarrow> o1 @ o2 = concat (map ?f [0..<Suc n])" using s(4) r(4) by metis
  moreover have "tick_times (Suc n) ipi = Some ipi2" using s(1) r(1) by simp
  ultimately show ?case using r(3)[unfolded m] arp_step_trans[OF s(2) r(2)]
    by (intro exI[of _ ipi2] exI[of _ "o1 @ o2"]) (simp del: funpow.simps upt_Suc)
qed

section \<open>Steps with a buffer in hand\<close>

text \<open>Like \<open>arp_step\<close>, but the buffers in \<open>H\<close>, which a caller holds, may change too.\<close>

definition held_step :: "ip_info \<Rightarrow> ip_info \<Rightarrow> nat set \<Rightarrow> nat multiset \<Rightarrow> (int \<times> bytes) list \<Rightarrow> bool" where
  "held_step ipi ipi' H M out = (ip_wf ipi' \<and> ip_bufs ipi' = ip_bufs ipi + M \<and>
     eth_same (eth_info ipi) (eth_info ipi') (set_mset (ip_bufs ipi + M) \<union> H) \<and> dev_out (eth_info ipi') = dev_out (eth_info ipi) @ out \<and>
     ip_rest ipi ipi')"

lemma arp_held: "arp_step ipi ipi' M out \<Longrightarrow> held_step ipi ipi' {} M out"
  by (simp add: held_step_def arp_step_def)

lemma held_step_wf: "held_step ipi ipi' H M out \<Longrightarrow> ip_wf ipi'"
  by (simp add: held_step_def)

lemma held_step_trans:
  assumes "held_step a b H M o1" "held_step b c H' N o2"
  shows "held_step a c (H \<union> H') (M + N) (o1 @ o2)"
proof -
  have b: "ip_bufs b = ip_bufs a + M" "ip_bufs c = ip_bufs b + N" "eth_same (eth_info a) (eth_info b) (set_mset (ip_bufs a + M) \<union> H)"
    "eth_same (eth_info b) (eth_info c) (set_mset (ip_bufs b + N) \<union> H')" "ip_rest a b" "ip_rest b c" using assms by (simp_all add: held_step_def)
  have "eth_same (eth_info a) (eth_info c) (set_mset (ip_bufs a + (M + N)) \<union> (H \<union> H'))"
    by (rule eth_same_trans[OF b(3,4)]) (auto simp: b(1))
  moreover have "ip_bufs c = ip_bufs a + (M + N)" unfolding b(2) b(1) by (rule add.assoc)
  moreover have "ip_rest a c" by (rule ip_rest_trans[OF b(5,6)])
  ultimately show ?thesis using assms by (simp add: held_step_def)
qed

lemma held_step_mono: "held_step a b H M out \<Longrightarrow> H \<subseteq> set_mset (ip_bufs a + M) \<union> H' \<Longrightarrow> held_step a b H' M out"
  unfolding held_step_def by (auto intro: eth_same_mono)

lemma put_buf_sel [simp]:
  "eth_info (put_buf ipi b e) = set_buf (eth_info ipi) b e" "arp_table (put_buf ipi b e) = arp_table ipi" "ip_addr (put_buf ipi b e) = ip_addr ipi"
  "arp_hwaddr (put_buf ipi b e) = arp_hwaddr ipi" "arp_port (put_buf ipi b e) = arp_port ipi" "ip_port (put_buf ipi b e) = ip_port ipi"
  by (simp_all add: put_buf_def)

lemma put_buf_step:
  assumes wf: "ip_wf ipi" and b: "b \<notin># ip_bufs ipi" and l: "length (eb_data e) = EB_DATA_SIZE"
  shows "held_step ipi (put_buf ipi b e) {b} {#} []"
proof -
  obtain t where t: "arp_table ipi = Some t" using wf by (auto simp: ip_wf_def split: option.splits)
  have w: "eth_wf (eth_info ipi)" "\<And>b. b \<in> set (waiting t) \<Longrightarrow> tx_ready (eth_info ipi) 0 b" using wf t by (auto simp: ip_wf_def)
  note s = eth_same_set_buf[OF w(1) l, of b]
  have bufs: "ip_bufs (put_buf ipi b e) = ip_bufs ipi" by (simp add: ip_bufs_def)
  have "x \<noteq> b" if "x \<in> set (waiting t)" for x using b that t by (auto simp: ip_bufs_def)
  then have "\<forall>x \<in> set (waiting t). tx_ready (set_buf (eth_info ipi) b e) 0 x" using w(2) eth_same_ready[OF s] by auto
  then have "ip_wf (put_buf ipi b e)"
    using wf t eth_same_wf[OF s w(1)] eth_same_dix[OF s] unfolding ip_wf_def bufs by simp
  moreover have "ip_rest ipi (put_buf ipi b e)" by (simp add: ip_rest_def put_buf_def set_eth_def)
  ultimately show ?thesis using bufs eth_same_mono[OF s] by (simp add: held_step_def)
qed

section \<open>Received messages\<close>

lemma eb_load_skip [simp]: "eb_load (ebuf_skip e k) off l = eb_load e off l"
  by (simp add: eb_load_def)

lemma unat_lit: "n < 256 \<Longrightarrow> (unat (x :: u8) = n) = (x = of_nat n)"
  using unat_plus_less[of "0 :: u8" n] by (auto simp: of_nat_unat)

lemma be16_ucast: "ucast (ucast w :: u16) = w \<Longrightarrow> (ucast (be16 h l) :: u32) = w \<longleftrightarrow> h = hi8 w \<and> l = lo8 w"
  using hi8_be16[of h l] hi8_lo8[of w] by metis

definition arp_for_us :: "bytes \<Rightarrow> u32 \<Rightarrow> bytes \<Rightarrow> bool" where
  "arp_for_us our opcode v = (28 \<le> length v \<and> take 8 v = [0, 1, 8, 0, 6, 4, hi8 opcode, lo8 opcode] \<and> take 4 (drop 24 v) = take 4 our)"

text \<open>Reading the fields of a packet of at least 28 bytes.\<close>

lemma get_at:
  assumes "eb_ok e"
  shows "k + 2 \<le> length (eb_view e) \<Longrightarrow> ebuf_get_u16_be (ebuf_skip e (int k)) = Some (be16 (eb_view e ! k) (eb_view e ! Suc k), ebuf_skip e (int k + 2))"
    "k < length (eb_view e) \<Longrightarrow> ebuf_get_u8 (ebuf_skip e (int k)) = Some (eb_view e ! k, ebuf_skip e (int k + 1))"
    "k + l \<le> length (eb_view e) \<Longrightarrow> ebuf_get_bytes (ebuf_skip e (int k)) l = Some (take l (drop k (eb_view e)), ebuf_skip e (int k + int l))"
  using eb_load_view[OF assms, of k 2] eb_load_view[OF assms, of k 1] eb_load_view[OF assms, of k l] by (simp_all add: get_skip skip_skip)

lemma arp_gets:
  assumes "eb_ok e" "28 \<le> length (eb_view e)"
  shows "ebuf_get_u16_be e = Some (be16 (eb_view e ! 0) (eb_view e ! 1), ebuf_skip e 2)"
    "ebuf_get_u16_be (ebuf_skip e 2) = Some (be16 (eb_view e ! 2) (eb_view e ! 3), ebuf_skip e 4)"
    "ebuf_get_u8 (ebuf_skip e 4) = Some (eb_view e ! 4, ebuf_skip e 5)"
    "ebuf_get_u8 (ebuf_skip e 5) = Some (eb_view e ! 5, ebuf_skip e 6)"
    "ebuf_get_u16_be (ebuf_skip e 6) = Some (be16 (eb_view e ! 6) (eb_view e ! 7), ebuf_skip e 8)"
    "ebuf_get_bytes (ebuf_skip e 8) 6 = Some (take 6 (drop 8 (eb_view e)), ebuf_skip e 14)"
    "ebuf_get_bytes (ebuf_skip e 14) 4 = Some (take 4 (drop 14 (eb_view e)), ebuf_skip e 18)"
    "ebuf_get_bytes (ebuf_skip e 18) 6 = Some (take 6 (drop 18 (eb_view e)), ebuf_skip e 24)"
    "ebuf_get_bytes (ebuf_skip e 24) 4 = Some (take 4 (drop 24 (eb_view e)), ebuf_skip e 28)"
  using get_at(1)[OF assms(1), of 0] get_at(1)[OF assms(1), of 2] get_at(2)[OF assms(1), of 4] get_at(2)[OF assms(1), of 5] get_at(1)[OF assms(1), of 6]
    get_at(3)[OF assms(1), of 8 6] get_at(3)[OF assms(1), of 14 4] get_at(3)[OF assms(1), of 18 6] get_at(3)[OF assms(1), of 24 4] assms(2)
  by (simp_all add: skip_0)

lemma drop_if: "(\<not> c \<Longrightarrow> \<exists>k. x = D k) \<Longrightarrow> \<exists>k. (if c then D j else x) = D k"
  by auto

lemma take8: "8 \<le> length v \<Longrightarrow> take 8 v = [v ! 0, v ! 1, v ! 2, v ! 3, v ! 4, v ! 5, v ! 6, v ! 7]"
  by (rule nth_equalityI) (auto simp: less_Suc_eq numeral_eq_Suc)

text \<open>What the callback does with a packet: it drops it, answers a request for us, or takes a reply to us.\<close>

lemma arp_rx_cases:
  assumes ok: "eb_ok e" and e: "e = eth_bufpool (eth_info ipi) b"
  shows "arp_for_us (ip_addr ipi) ARP_OPCODE_REQUEST (eb_view e) \<Longrightarrow> arp_rx_callback ipi b = Option.bind (eb_load e 6 6) (\<lambda>src.
       Option.bind (arp_rx_query (put_buf ipi b (ebuf_skip e 28)) src (take 6 (drop 8 (eb_view e))) (take 4 (drop 14 (eb_view e)))) (\<lambda>(_, ipi). Some (ETH_DROP, ipi)))"
    "arp_for_us (ip_addr ipi) ARP_OPCODE_REPLY (eb_view e) \<Longrightarrow> arp_rx_callback ipi b =
       Option.bind (arp_rx_response (put_buf ipi b (ebuf_skip e 28)) (take 6 (drop 8 (eb_view e))) (take 4 (drop 14 (eb_view e)))) (\<lambda>(_, ipi). Some (ETH_DROP, ipi))"
    "\<not> arp_for_us (ip_addr ipi) ARP_OPCODE_REQUEST (eb_view e) \<Longrightarrow> \<not> arp_for_us (ip_addr ipi) ARP_OPCODE_REPLY (eb_view e) \<Longrightarrow>
       \<exists>k. arp_rx_callback ipi b = Some (ETH_DROP, put_buf ipi b (ebuf_skip e k))"
proof -
  let ?v = "eb_view e"
  have rt: "ucast (ucast ARP_HWADDRSPACE_ETHERNET :: u16) = ARP_HWADDRSPACE_ETHERNET" "ucast (ucast PROTOSPACE_IP :: u16) = PROTOSPACE_IP"
    "ucast (ucast ARP_OPCODE_REQUEST :: u16) = ARP_OPCODE_REQUEST" "ucast (ucast ARP_OPCODE_REPLY :: u16) = ARP_OPCODE_REPLY"
    by (simp_all add: arp_consts)
  have ops: "hi8 ARP_OPCODE_REQUEST = 0" "lo8 ARP_OPCODE_REQUEST = 1" "hi8 ARP_OPCODE_REPLY = 0" "lo8 ARP_OPCODE_REPLY = 2"
    by (simp_all add: hi8_def lo8_def arp_consts)
  have len: "eb_length e < 28 \<longleftrightarrow> length ?v < 28" using length_eb_view[OF ok] by (simp add: word_less_nat_alt)
  have u: "(unat x = 6) = (x = 6)" "(unat x = 4) = (x = 4)" for x :: u8
    using unat_lit[of 6 x] unat_lit[of 4 x] by simp_all
  let ?drop = "\<lambda>k. Some (ETH_DROP, put_buf ipi b (ebuf_skip e k))"
  let ?req = "Option.bind (eb_load e 6 6) (\<lambda>src.
       Option.bind (arp_rx_query (put_buf ipi b (ebuf_skip e 28)) src (take 6 (drop 8 ?v)) (take 4 (drop 14 ?v))) (\<lambda>(_, ipi). Some (ETH_DROP, ipi)))"
  let ?rep = "Option.bind (arp_rx_response (put_buf ipi b (ebuf_skip e 28)) (take 6 (drop 8 ?v)) (take 4 (drop 14 ?v))) (\<lambda>(_, ipi). Some (ETH_DROP, ipi))"
  have long: "arp_rx_callback ipi b = (if \<not> (?v ! 0 = 0 \<and> ?v ! 1 = 1) then ?drop 2 else if \<not> (?v ! 2 = 8 \<and> ?v ! 3 = 0) then ?drop 4
      else if ?v ! 4 \<noteq> 6 then ?drop 5 else if ?v ! 5 \<noteq> 4 then ?drop 6 else if take 4 (drop 24 ?v) \<noteq> take 4 (ip_addr ipi) then ?drop 28
      else if ?v ! 6 = 0 \<and> ?v ! 7 = 1 then ?req else if ?v ! 6 = 0 \<and> ?v ! 7 = 2 then ?rep else ?drop 28)" if l: "28 \<le> length ?v"
  proof -
    have nl: "\<not> eb_length e < 28" using len l by simp
    have c: "ENET_ADDR_LEN = 6" "IP_ADDR_LEN = 4" by (simp_all add: enet_consts arp_consts)
    note b = be16_ucast[OF rt(1)] be16_ucast[OF rt(2)] be16_ucast[OF rt(3)] be16_ucast[OF rt(4)]
    have src: "ebuf_srcaddr (ebuf_skip e 28) = eb_load e 6 6" by (simp add: ebuf_srcaddr_def c)
    show ?thesis
      unfolding arp_rx_callback_def e[symmetric] Let_def if_not_P[OF nl] c arp_gets[OF ok l] bind.bind_lunit prod.case b arp_msg_consts ops u src
      by simp
  qed
  have us: "28 \<le> length ?v \<Longrightarrow> arp_for_us our opcode ?v \<longleftrightarrow> ?v ! 0 = 0 \<and> ?v ! 1 = 1 \<and> ?v ! 2 = 8 \<and> ?v ! 3 = 0 \<and> ?v ! 4 = 6 \<and> ?v ! 5 = 4 \<and>
      ?v ! 6 = hi8 opcode \<and> ?v ! 7 = lo8 opcode \<and> take 4 (drop 24 ?v) = take 4 our" for our opcode
    by (simp add: arp_for_us_def take8)
  have fl: "28 \<le> length ?v" if "arp_for_us our opcode ?v" for our opcode using that by (simp add: arp_for_us_def)
  show "arp_rx_callback ipi b = ?req" if "arp_for_us (ip_addr ipi) ARP_OPCODE_REQUEST ?v"
    using that long[OF fl[OF that]] us[OF fl[OF that]] by (simp add: ops)
  show "arp_rx_callback ipi b = ?rep" if "arp_for_us (ip_addr ipi) ARP_OPCODE_REPLY ?v"
    using that long[OF fl[OF that]] us[OF fl[OF that]] by (simp add: ops)
  show "\<exists>k. arp_rx_callback ipi b = Some (ETH_DROP, put_buf ipi b (ebuf_skip e k))"
    if n: "\<not> arp_for_us (ip_addr ipi) ARP_OPCODE_REQUEST ?v" "\<not> arp_for_us (ip_addr ipi) ARP_OPCODE_REPLY ?v"
  proof (cases "length ?v < 28")
    case True
    then show ?thesis using len e skip_0[of e] by (auto simp: arp_rx_callback_def Let_def intro!: exI[of _ 0])
  next
    case False
    then have l: "28 \<le> length ?v" by simp
    show ?thesis unfolding long[OF l]
    proof (intro drop_if[of _ _ ?drop])
      assume "\<not> \<not> (?v ! 0 = 0 \<and> ?v ! 1 = 1)" "\<not> \<not> (?v ! 2 = 8 \<and> ?v ! 3 = 0)" "\<not> ?v ! 4 \<noteq> 6" "\<not> ?v ! 5 \<noteq> 4"
        "\<not> take 4 (drop 24 ?v) \<noteq> take 4 (ip_addr ipi)"
      then have "\<not> (?v ! 6 = 0 \<and> ?v ! 7 = 1)" "\<not> (?v ! 6 = 0 \<and> ?v ! 7 = 2)" using n unfolding us[OF l] ops by simp_all
      then show "\<exists>k. (if ?v ! 6 = 0 \<and> ?v ! 7 = 1 then ?req else if ?v ! 6 = 0 \<and> ?v ! 7 = 2 then ?rep else ?drop 28) = ?drop k" by auto
    qed
  qed
qed

lemma arp_rx_callback_step:
  assumes wf: "ip_wf ipi" and b: "b \<notin># ip_bufs ipi" and ok: "eb_ok (eth_bufpool (eth_info ipi) b)"
  shows "\<exists>ipi' out. arp_rx_callback ipi b = Some (ETH_DROP, ipi') \<and> held_step ipi ipi' {b} {#} out"
proof -
  define e where "e = eth_bufpool (eth_info ipi) b"
  have oke: "eb_ok e" using ok by (simp add: e_def)
  have put: "held_step ipi (put_buf ipi b (ebuf_skip e k)) {b} {#} []" for k
    using oke by (intro put_buf_step[OF wf b]) (simp add: eb_ok_def)
  note cases' = arp_rx_cases[OF oke e_def]
  consider "arp_for_us (ip_addr ipi) ARP_OPCODE_REQUEST (eb_view e)" | "arp_for_us (ip_addr ipi) ARP_OPCODE_REPLY (eb_view e)"
    | "\<not> arp_for_us (ip_addr ipi) ARP_OPCODE_REQUEST (eb_view e)" "\<not> arp_for_us (ip_addr ipi) ARP_OPCODE_REPLY (eb_view e)" by blast
  then show ?thesis
  proof cases
    case 1
    have src: "eb_load e 6 6 = Some (take 6 (drop 6 (eb_data e)))" "length (take 6 (drop 6 (eb_data e))) = ENET_ADDR_LEN"
      using oke by (simp_all add: eb_load_def eb_ok_def enet_consts)
    obtain r ipi2 out where q: "arp_rx_query (put_buf ipi b (ebuf_skip e 28)) (take 6 (drop 6 (eb_data e))) (take 6 (drop 8 (eb_view e)))
        (take 4 (drop 14 (eb_view e))) = Some (r, ipi2)" "arp_step (put_buf ipi b (ebuf_skip e 28)) ipi2 {#} out"
      using arp_rx_query_step[OF held_step_wf[OF put] src(2)] by blast
    then have "arp_rx_callback ipi b = Some (ETH_DROP, ipi2)" using cases'(1)[OF 1] src(1) by simp
    then show ?thesis using held_step_trans[OF put arp_held[OF q(2)]] by auto
  next
    case 2
    obtain t where t: "arp_table ipi = Some t" using wf by (auto simp: ip_wf_def split: option.splits)
    have l: "length (take 6 (drop 8 (eb_view e))) = ENET_ADDR_LEN" using 2 by (auto simp: arp_for_us_def enet_consts min_def)
    obtain ipi2 out where q: "arp_rx_response (put_buf ipi b (ebuf_skip e 28)) (take 6 (drop 8 (eb_view e))) (take 4 (drop 14 (eb_view e))) = Some (0, ipi2)"
      "arp_step (put_buf ipi b (ebuf_skip e 28)) ipi2 {#} out"
      using arp_rx_response_step[OF held_step_wf[OF put] _ l] t by fastforce
    then have "arp_rx_callback ipi b = Some (ETH_DROP, ipi2)" using cases'(2)[OF 2] by simp
    then show ?thesis using held_step_trans[OF put arp_held[OF q(2)]] by auto
  next
    case 3
    then obtain k where "arp_rx_callback ipi b = Some (ETH_DROP, put_buf ipi b (ebuf_skip e k))" using cases'(3) by blast
    then show ?thesis using put by blast
  qed
qed

text \<open>A reply to us: the waiting packets go to the address in it.\<close>

lemma arp_rx_reply_step:
  assumes wf: "ip_wf ipi" and b: "b \<notin># ip_bufs ipi" and ok: "eb_ok (eth_bufpool (eth_info ipi) b)" and t: "arp_table ipi = Some t"
    and v: "eb_view (eth_bufpool (eth_info ipi) b) = arp_msg ARP_OPCODE_REPLY hw ip thw (ip_addr ipi) @ pad"
    and l: "length hw = 6" "length ip = 4" "length thw = 6" "length (ip_addr ipi) = 4"
  shows "\<exists>ipi'. arp_rx_callback ipi b = Some (ETH_DROP, ipi') \<and> held_step ipi ipi' {b} {#} (concat (map (flushed (eth_info ipi) hw ip) t)) \<and>
    arp_table ipi' = Some (map (resolved hw ip) t)"
proof -
  define e where "e = eth_bufpool (eth_info ipi) b"
  have oke: "eb_ok e" using ok by (simp add: e_def)
  have us: "arp_for_us (ip_addr ipi) ARP_OPCODE_REPLY (eb_view e)" "take 6 (drop 8 (eb_view e)) = hw" "take 4 (drop 14 (eb_view e)) = ip"
    using v l by (simp_all add: e_def arp_for_us_def arp_msg_def)
  have put: "held_step ipi (put_buf ipi b (ebuf_skip e 28)) {b} {#} []"
    using oke by (intro put_buf_step[OF wf b]) (simp add: eb_ok_def)
  have lh: "length hw = ENET_ADDR_LEN" using l by (simp add: enet_consts)
  obtain ipi2 where r: "arp_rx_response (put_buf ipi b (ebuf_skip e 28)) hw ip = Some (0, ipi2)"
    "arp_step (put_buf ipi b (ebuf_skip e 28)) ipi2 {#} (concat (map (flushed (set_buf (eth_info ipi) b (ebuf_skip e 28)) hw ip) t))"
    "arp_table ipi2 = Some (map (resolved hw ip) t)"
    using arp_rx_response_step[OF held_step_wf[OF put] _ lh, of t ip] t by auto
  have "eth_wf (eth_info ipi)" using wf by (simp add: ip_wf_def)
  then have s: "eth_same (eth_info ipi) (set_buf (eth_info ipi) b (ebuf_skip e 28)) {b}" using oke by (intro eth_same_set_buf) (simp_all add: eb_ok_def)
  have "flushed (set_buf (eth_info ipi) b (ebuf_skip e 28)) hw ip ae = flushed (eth_info ipi) hw ip ae" if ae: "ae \<in> set t" for ae
  proof (rule flushed_same[OF s])
    have "set (ae_txqueue ae) \<subseteq> set (waiting t)" using ae by (auto simp: waiting_def)
    then show "set (ae_txqueue ae) \<inter> {b} = {}" using b t by (auto simp: ip_bufs_def)
  qed
  then have m: "map (flushed (set_buf (eth_info ipi) b (ebuf_skip e 28)) hw ip) t = map (flushed (eth_info ipi) hw ip) t" by simp
  have "arp_rx_callback ipi b = Some (ETH_DROP, ipi2)" using arp_rx_cases(2)[OF oke e_def us(1)] us r(1) by simp
  then show ?thesis using r(3) held_step_trans[OF put arp_held[OF r(2)[unfolded m]]] by simp
qed

text \<open>A request for us is answered to its sender with our address.\<close>

lemma arp_rx_request_step:
  assumes wf: "ip_wf ipi" and b: "b \<notin># ip_bufs ipi" and ok: "eb_ok (eth_bufpool (eth_info ipi) b)"
    and v: "eb_view (eth_bufpool (eth_info ipi) b) = arp_msg ARP_OPCODE_REQUEST hw ip thw (ip_addr ipi) @ pad"
    and l: "length hw = 6" "length ip = 4" "length thw = 6" "length (ip_addr ipi) = 4"
  shows "\<exists>ipi'. arp_rx_callback ipi b = Some (ETH_DROP, ipi') \<and> held_step ipi ipi' {b} {#}
    (arp_out ipi (take 6 (drop 6 (eb_data (eth_bufpool (eth_info ipi) b)))) (arp_msg ARP_OPCODE_REPLY (arp_hwaddr ipi) (ip_addr ipi) hw ip)) \<and>
    arp_table ipi' = arp_table ipi"
proof -
  define e where "e = eth_bufpool (eth_info ipi) b"
  have oke: "eb_ok e" using ok by (simp add: e_def)
  have us: "arp_for_us (ip_addr ipi) ARP_OPCODE_REQUEST (eb_view e)" "take 6 (drop 8 (eb_view e)) = hw" "take 4 (drop 14 (eb_view e)) = ip"
    using v l by (simp_all add: e_def arp_for_us_def arp_msg_def)
  have put: "held_step ipi (put_buf ipi b (ebuf_skip e 28)) {b} {#} []"
    using oke by (intro put_buf_step[OF wf b]) (simp add: eb_ok_def)
  have src: "eb_load e 6 6 = Some (take 6 (drop 6 (eb_data e)))" "length (take 6 (drop 6 (eb_data e))) = ENET_ADDR_LEN"
    using oke by (simp_all add: eb_load_def eb_ok_def enet_consts)
  obtain r ipi2 where r: "arp_rx_query (put_buf ipi b (ebuf_skip e 28)) (take 6 (drop 6 (eb_data e))) hw ip = Some (r, ipi2)"
    "arp_step (put_buf ipi b (ebuf_skip e 28)) ipi2 {#} (arp_out (put_buf ipi b (ebuf_skip e 28)) (take 6 (drop 6 (eb_data e)))
      (arp_msg ARP_OPCODE_REPLY (arp_hwaddr ipi) (ip_addr ipi) hw ip))" "arp_table ipi2 = arp_table ipi"
    using arp_rx_query_step[OF held_step_wf[OF put] src(2), of hw ip] by auto
  have "arp_out (put_buf ipi b (ebuf_skip e 28)) d m = arp_out ipi d m" for d m by (simp add: arp_out_def Let_def)
  then show ?thesis using arp_rx_cases(1)[OF oke e_def us(1)] us src r held_step_trans[OF put arp_held[OF r(2)]] by (simp add: e_def)
qed

end
