(* ===== verification/Cfe_Ip_Step.thy ===== *)
theory Cfe_Ip_Step
  imports Cfe_Udp Cfe_Arp_Step
begin

text \<open>
  Sending through IP and UDP (theories Cfe_Ip and Cfe_Udp): the packets on the wire, no step fails, every buffer has
  exactly one owner afterwards.
\<close>

section \<open>Headers\<close>

definition ip_hdr0 :: "u16 \<Rightarrow> nat \<Rightarrow> u8 \<Rightarrow> bytes \<Rightarrow> bytes \<Rightarrow> bytes" where
  "ip_hdr0 n16 len proto src dst = [0x45, 0, hi8 (of_nat len), lo8 (of_nat len), hi8 (ucast n16), lo8 (ucast n16), 0, 0, 100, proto, 0, 0] @ src @ dst"

definition put16 :: "nat \<Rightarrow> u16 \<Rightarrow> bytes \<Rightarrow> bytes" where "put16 k w bs = bs[k := hi8 (ucast w), Suc k := lo8 (ucast w)]"

definition ip_hdr :: "u16 \<Rightarrow> nat \<Rightarrow> u8 \<Rightarrow> bytes \<Rightarrow> bytes \<Rightarrow> bytes" where
  "ip_hdr n16 len proto src dst = (let h = ip_hdr0 n16 len proto src dst in put16 10 (NOT (of_nat (ones (wsum h)))) h)"

lemma store8:
  assumes ok: "eb_ok e" and k: "k < length (eb_view e)"
  shows "\<exists>e'. eb_store e (eb_ptr e + int k) [b] = Some e' \<and> eb_ok e' \<and> eb_ptr e' = eb_ptr e \<and> eb_length e' = eb_length e \<and> eb_frame e e' \<and>
    eb_view e' = (eb_view e)[k := b]"
  using eb_store_view[OF ok, of k "[b]"] k by (simp add: upd_conv_take_nth_drop)

text \<open>Two stores of a byte are the store of a word.\<close>

lemma store16:
  assumes ok: "eb_ok e" and k: "Suc k < length (eb_view e)"
  shows "\<exists>e'. Option.bind (eb_store e (eb_ptr e + int k) [hi8 (ucast w)]) (\<lambda>e. eb_store e (eb_ptr e + int (Suc k)) [lo8 (ucast w)]) = Some e' \<and>
    Option.bind (eb_store e (eb_ptr e + int k) [hi8 (ucast w)]) (\<lambda>e'. eb_store e' (eb_ptr e + int (Suc k)) [lo8 (ucast w)]) = Some e' \<and>
    eb_ok e' \<and> eb_ptr e' = eb_ptr e \<and> eb_length e' = eb_length e \<and> eb_frame e e' \<and> eb_view e' = put16 k w (eb_view e)"
proof -
  obtain e1 where e1: "eb_store e (eb_ptr e + int k) [hi8 (ucast w)] = Some e1" "eb_ok e1" "eb_ptr e1 = eb_ptr e" "eb_length e1 = eb_length e"
    "eb_frame e e1" "eb_view e1 = (eb_view e)[k := hi8 (ucast w)]"
    using store8[OF ok, of k] k by (meson Suc_lessD)
  obtain e2 where "eb_store e1 (eb_ptr e1 + int (Suc k)) [lo8 (ucast w)] = Some e2" "eb_ok e2" "eb_ptr e2 = eb_ptr e1" "eb_length e2 = eb_length e1"
    "eb_frame e1 e2" "eb_view e2 = (eb_view e1)[Suc k := lo8 (ucast w)]"
    using store8[OF e1(2), of "Suc k"] k e1(6) by (metis length_list_update)
  then show ?thesis using e1 eb_frame_trans[OF e1(5)] by (simp add: put16_def)
qed

lemma ip_header_ok:
  assumes ok: "eb_ok e" and p: "int IPHDR_LENGTH \<le> eb_ptr e" and a: "length (ip_addr ipi) = 4" "4 \<le> length dst"
  shows "\<exists>e'. ip_header ipi e dst proto = Some e' \<and> eb_ok e' \<and> eb_ptr e' = eb_ptr e - int IPHDR_LENGTH \<and> eb_frame e e' \<and>
    eb_view e' = ip_hdr (ip_id ipi) (length (eb_view e) + 20) proto (ip_addr ipi) (take 4 dst) @ eb_view e"
proof -
  define n where "n = length (eb_view e) + 20"
  let ?h = "ip_hdr0 (ip_id ipi) n proto (ip_addr ipi) (take 4 dst)"
  have lh: "length ?h = IPHDR_LENGTH" using a by (simp add: ip_hdr0_def ip_consts)
  have len: "eb_length e + of_nat IPHDR_LENGTH = of_nat n"
    using length_eb_view[OF ok] by (simp add: n_def ip_consts of_nat_unat)
  obtain e1 where e1: "ebuf_put_bytes (ebuf_seek e (- int IPHDR_LENGTH)) ?h = Some e1" "eb_ok (ebuf_prepend e1 (int IPHDR_LENGTH))"
    "eb_view (ebuf_prepend e1 (int IPHDR_LENGTH)) = ?h @ eb_view e" "eb_ptr (ebuf_prepend e1 (int IPHDR_LENGTH)) = eb_ptr e - int IPHDR_LENGTH"
    "eb_frame e e1"
    using eb_push[OF ok, of ?h] p unfolding lh by auto
  let ?e2 = "ebuf_prepend e1 (int IPHDR_LENGTH)"
  define ck where "ck = (of_nat (ones (wsum ?h)) :: u16)"
  have ck: "ip_chksum 0 (rd_ebuf ?e2 (eb_ptr ?e2)) (int IPHDR_LENGTH) = Some ck"
    using ip_chksum_ebuf[OF e1(2), of 0 IPHDR_LENGTH 0] e1(3) lh by (simp add: ck_def)
  have l2: "Suc 10 < length (eb_view ?e2)" unfolding e1(3) using lh by (simp add: ip_consts)
  obtain e3 where e3: "Option.bind (eb_store ?e2 (eb_ptr ?e2 + 10) [hi8 (ucast (NOT ck))]) (\<lambda>e. eb_store e (eb_ptr ?e2 + 11) [lo8 (ucast (NOT ck))]) = Some e3"
    "eb_ok e3" "eb_ptr e3 = eb_ptr ?e2" "eb_frame ?e2 e3" "eb_view e3 = put16 10 (NOT ck) (?h @ eb_view e)"
    using store16[OF e1(2) l2, of "NOT ck"] e1(3) by auto
  have eq: "ip_header ipi e dst proto = Some e3"
  proof -
    have put: "ebuf_put_bytes (ebuf_seek e (- int IPHDR_LENGTH)) (0x45 # 0 # hi8 (of_nat n) # lo8 (of_nat n) # hi8 (ucast (ip_id ipi)) #
        lo8 (ucast (ip_id ipi)) # 0 # 0 # 100 # proto # 0 # 0 # ip_addr ipi @ take 4 dst) = Some e1"
      using e1(1) by (simp add: ip_hdr0_def)
    have z: "hi8 0 = 0" "lo8 0 = 0" by (simp_all add: hi8_def lo8_def)
    have c: "IPHDR_VER_4 OR IPHDR_LEN_20 = 0x45" "IPHDR_TOS_DEFAULT = 0" "IPHDR_TTL_DEFAULT = 100" by (simp_all add: ip_consts)
    have len': "eb_length (ebuf_seek e (- int IPHDR_LENGTH)) = eb_length e" by (simp add: ebuf_seek_def)
    have ad: "take IP_ADDR_LEN (ip_addr ipi) = ip_addr ipi" "take IP_ADDR_LEN dst = take 4 dst" using a by (simp_all add: arp_consts)
    show ?thesis
      unfolding ip_header_def Let_def len' len c ad put_u8_bytes put_u16_bytes z
      by (simp add: put_bytes_bind put ck e3(1))
  qed
  have "put16 10 (NOT ck) (?h @ eb_view e) = ip_hdr (ip_id ipi) n proto (ip_addr ipi) (take 4 dst) @ eb_view e"
    using lh by (simp add: put16_def ip_hdr_def Let_def ck_def ip_consts list_update_append)
  moreover have "eb_frame e e3" using e1(5) e3(4) by (simp add: eb_frame_def ebuf_prepend_def)
  ultimately show ?thesis using eq e3 e1(4) by (simp add: n_def)
qed

section \<open>UDP headers\<close>

lemma sint_u32_small: "n < 2 ^ 31 \<Longrightarrow> sint (of_nat n :: u32) = int n"
  by (simp add: signed_of_nat signed_take_bit_eq_if_positive bit_iff_odd take_bit_int_eq_self)

definition udp_hdr0 :: "u16 \<Rightarrow> u16 \<Rightarrow> nat \<Rightarrow> bytes" where
  "udp_hdr0 sp dp len = [hi8 (ucast sp), lo8 (ucast sp), hi8 (ucast dp), lo8 (ucast dp), hi8 (of_nat len), lo8 (of_nat len), 0, 0]"

text \<open>The checksum field of a datagram; 0 would mean that there is none.\<close>

definition udp_ck :: "bytes \<Rightarrow> bytes \<Rightarrow> bytes \<Rightarrow> u16" where
  "udp_ck src dst u = (let ck = NOT (of_nat (ones (wsum (pseudoheader src dst (int (length u)) @ u)))) in if ck = 0 then 0xFFFF else ck)"

definition udp_pkt :: "u16 \<Rightarrow> u16 \<Rightarrow> bytes \<Rightarrow> bytes \<Rightarrow> bytes \<Rightarrow> bytes" where
  "udp_pkt sp dp src dst pl = (let u = udp_hdr0 sp dp (length pl + 8) @ pl in put16 6 (udp_ck src dst u) u)"

lemma length_pseudo: "4 \<le> length src \<Longrightarrow> 4 \<le> length dst \<Longrightarrow> length (pseudoheader src dst n) = 12"
  by (simp add: pseudoheader_def arp_consts)

lemma pseudo_chksum:
  assumes "4 \<le> length src" "4 \<le> length dst"
  shows "ip_chksum 0 (rd_bytes (pseudoheader src dst n)) 12 = Some (of_nat (ones (wsum (pseudoheader src dst n))))"
  using ip_chksum_bytes[of "pseudoheader src dst n" 0] length_pseudo[OF assms] by simp

lemma udp_chksum:
  assumes l: "4 \<le> length src" "4 \<le> length dst" and ok: "eb_ok e" and p: "off = eb_ptr e" "n = int (length (eb_view e))"
  shows "ip_chksum (of_nat (ones (wsum (pseudoheader src dst m)))) (rd_ebuf e off) n = Some (of_nat (ones (wsum (pseudoheader src dst m @ eb_view e))))"
  using ip_chksum_ebuf[OF ok, of 0 "length (eb_view e)"] length_pseudo[OF l, of m] unfolding p
  by (simp add: unat_ones16 ones_add wsum_append)

lemma udp_header_ok:
  assumes ok: "eb_ok e" and p: "int UDP_HDR_LENGTH \<le> eb_ptr e" and a: "4 \<le> length our" "4 \<le> length dst"
  shows "\<exists>e'. udp_header udp our dst e = Some e' \<and> eb_ok e' \<and> eb_ptr e' = eb_ptr e - int UDP_HDR_LENGTH \<and> eb_frame e e' \<and>
    eb_view e' = udp_pkt (up_srcport udp) (up_destport udp) our dst (eb_view e)"
proof -
  define n where "n = length (eb_view e) + 8"
  let ?h = "udp_hdr0 (up_srcport udp) (up_destport udp) n" let ?u = "?h @ eb_view e"
  have lh: "length ?h = UDP_HDR_LENGTH" by (simp add: udp_hdr0_def udp_consts)
  have n: "n < 2 ^ 31" using ok length_eb_view[OF ok] by (simp add: n_def eb_ok_def enet_consts)
  have len: "eb_length e + of_nat UDP_HDR_LENGTH = of_nat n"
    using length_eb_view[OF ok] by (simp add: n_def udp_consts of_nat_unat)
  obtain e1 where e1: "ebuf_put_bytes (ebuf_seek e (- int UDP_HDR_LENGTH)) ?h = Some e1" "eb_ok (ebuf_prepend e1 (int UDP_HDR_LENGTH))"
    "eb_view (ebuf_prepend e1 (int UDP_HDR_LENGTH)) = ?u" "eb_ptr (ebuf_prepend e1 (int UDP_HDR_LENGTH)) = eb_ptr e - int UDP_HDR_LENGTH"
    "eb_frame e e1"
    using eb_push[OF ok, of ?h] p unfolding lh by auto
  let ?e2 = "ebuf_prepend e1 (int UDP_HDR_LENGTH)"
  define ck where "ck = (of_nat (ones (wsum (pseudoheader our dst (int n) @ ?u))) :: u16)"
  have nn: "int n = int (length (eb_view ?e2))" unfolding e1(3) using lh by (simp add: n_def udp_consts)
  have ck: "ip_chksum (of_nat (ones (wsum (pseudoheader our dst (int n))))) (rd_ebuf ?e2 (eb_ptr ?e2)) (int n) = Some ck"
    using udp_chksum[OF a e1(2) refl nn] unfolding e1(3) ck_def .
  define w where "w = (if NOT ck = 0 then 0xFFFF else NOT ck)"
  have l2: "Suc 6 < length (eb_view ?e2)" unfolding e1(3) using lh by (simp add: udp_consts)
  obtain e3 where e3: "Option.bind (eb_store ?e2 (eb_ptr ?e2 + 6) [hi8 (ucast w)]) (\<lambda>e. eb_store e (eb_ptr ?e2 + 7) [lo8 (ucast w)]) = Some e3"
    "eb_ok e3" "eb_ptr e3 = eb_ptr ?e2" "eb_frame ?e2 e3" "eb_view e3 = put16 6 w ?u"
    using store16[OF e1(2) l2, of w] e1(3) by auto
  have eq: "udp_header udp our dst e = Some e3"
  proof -
    have put: "ebuf_put_bytes (ebuf_seek e (- int UDP_HDR_LENGTH)) [hi8 (ucast (up_srcport udp)), lo8 (ucast (up_srcport udp)),
        hi8 (ucast (up_destport udp)), lo8 (ucast (up_destport udp)), hi8 (of_nat n), lo8 (of_nat n), 0, 0] = Some e1"
      using e1(1) by (simp add: udp_hdr0_def)
    have z: "hi8 0 = 0" "lo8 0 = 0" by (simp_all add: hi8_def lo8_def)
    have wn: "word_of_int (int n) = (of_nat n :: u32)" by simp
    have ptr: "eb_ptr (ebuf_seek e (- int UDP_HDR_LENGTH)) = eb_ptr ?e2" using e1(4) by (simp add: ebuf_seek_def)
    show ?thesis
      unfolding udp_header_def Let_def len sint_u32_small[OF n] put_u16_bytes z wn pseudo_chksum[OF a] bind.bind_lunit ptr
      by (cases "NOT ck = 0") (use e3(1) in \<open>simp_all add: w_def put_bytes_bind put ck\<close>)
  qed
  have "pseudoheader our dst (int (length ?u)) = pseudoheader our dst (int n)" using lh by (simp add: n_def udp_consts add.commute)
  then have "put16 6 w ?u = udp_pkt (up_srcport udp) (up_destport udp) our dst (eb_view e)"
    by (simp add: udp_pkt_def Let_def udp_ck_def w_def ck_def n_def)
  moreover have "eb_frame e e3" using e1(5) e3(4) by (simp add: eb_frame_def ebuf_prepend_def)
  ultimately show ?thesis using eq e3 e1(4) by simp
qed

section \<open>Received headers\<close>

lemma store_skip: "eb_store e off bs = Some e' \<Longrightarrow> eb_store (ebuf_skip e k) off bs = Some (ebuf_skip e' k)"
  by (auto simp: eb_store_def ebuf_skip_def split: if_splits)

lemma rd_skip [simp]: "rd_ebuf (ebuf_skip e k) off = rd_ebuf e off"
  by (simp add: rd_ebuf_def fun_eq_iff)

lemma eb_skip_ok: "eb_ok e \<Longrightarrow> length (eb_data (ebuf_skip e k)) = EB_DATA_SIZE"
  by (simp add: eb_ok_def)

text \<open>The header length and the total length of a packet; a packet that is all there.\<close>

definition ip_hl :: "bytes \<Rightarrow> nat" where "ip_hl v = unat (v ! 0 AND 0x0F) * 4"
definition ip_len :: "bytes \<Rightarrow> nat" where "ip_len v = unat (be16 (v ! 2) (v ! 3))"
definition ip_sane :: "bytes \<Rightarrow> bool" where "ip_sane v = (20 \<le> length v \<and> ip_hl v \<le> length v \<and> ip_hl v \<le> ip_len v \<and> ip_len v \<le> length v)"

definition ip_accepts :: "bytes \<Rightarrow> bytes \<Rightarrow> bool" where
  "ip_accepts our v = (v ! 0 AND 0xF0 = 0x40 \<and> 20 \<le> ip_hl v \<and>
     NOT (of_nat (ones (wsum (take (ip_hl v) (v[10 := 0, 11 := 0])))) :: u16) = be16 (v ! 10) (v ! 11) \<and>
     be16 (v ! 6) (v ! 7) AND 0x3FFF = 0 \<and>
     (ip_addriszero our \<or> take 4 (drop 16 v) = take 4 our \<or> ip_addrisbcast (take 4 (drop 16 v))))"

lemma ip_rx_check_gen:
  assumes ok: "eb_ok e" and v: "v = eb_view e" and l: "20 \<le> length v" "ip_hl v \<le> length v" "ip_hl v \<le> ip_len v"
  shows "\<exists>e'. ip_rx_check our e = Some (e', if ip_accepts our v then Some (v ! 9, take 4 (drop 12 v), take 4 (drop 16 v)) else None) \<and>
    length (eb_data e') = EB_DATA_SIZE \<and> eb_port e' = eb_port e \<and>
    (ip_accepts our v \<longrightarrow> eb_ptr e' = eb_ptr e + int (ip_hl v) \<and> unat (eb_length e') = ip_len v - ip_hl v \<and>
      (\<forall>k. 12 \<le> k \<longrightarrow> k < length v \<longrightarrow> eb_load e' (eb_ptr e + int k) 1 = Some [v ! k]) \<and>
      (ip_len v \<le> length v \<longrightarrow> eb_ok e' \<and> eb_view e' = take (ip_len v - ip_hl v) (drop (ip_hl v) v)))"
proof -
  have dl: "length (eb_data (ebuf_skip x k)) = EB_DATA_SIZE" if "eb_ok x" for x k using that by (simp add: eb_ok_def)
  have g1: "ebuf_get_u8 e = Some (v ! 0, ebuf_skip e 1)" using get_at(2)[OF ok, of 0] l(1) unfolding v by (cases "eb_view e") (simp_all add: skip_0)
  show ?thesis
  proof (cases "v ! 0 AND 0xF0 = 0x40 \<and> 20 \<le> ip_hl v")
    case False
    then have "\<not> ip_accepts our v" by (auto simp: ip_accepts_def)
    moreover have "ip_rx_check our e = Some (ebuf_skip e 1, None)"
    proof (cases "v ! 0 AND 0xF0 = IPHDR_VER_4")
      case True
      then have "ip_hl v < IPHDR_LENGTH" using False by (simp add: ip_consts)
      then show ?thesis unfolding ip_rx_check_def Let_def g1 bind.bind_lunit prod.case ip_hl_def[symmetric] using True by simp
    qed (simp add: ip_rx_check_def Let_def g1)
    ultimately show ?thesis using dl[OF ok] by simp
  next
    case True
    then have t: "v ! 0 AND 0xF0 = IPHDR_VER_4" "\<not> ip_hl v < IPHDR_LENGTH" by (simp_all add: ip_consts)
    define v' where "v' = v[10 := 0, 11 := 0]"
    obtain ea where ea: "eb_store e (eb_ptr e + 11) [0] = Some ea" "eb_ok ea" "eb_ptr ea = eb_ptr e" "eb_frame e ea" "eb_view ea = v[11 := 0]"
      using store8[OF ok, of 11 0] l by (auto simp: v)
    obtain f where f: "eb_store ea (eb_ptr e + 10) [0] = Some f" "eb_ok f" "eb_ptr f = eb_ptr e" "eb_frame ea f" "eb_view f = v'"
      using store8[OF ea(2), of 10 0] l ea(3,5) by (auto simp: v'_def list_update_swap)
    have len: "length v' = length v" by (simp add: v'_def)
    have nth': "v' ! k = v ! k" if "k \<noteq> 10" "k \<noteq> 11" for k using that by (simp add: v'_def)
    have tk: "take 4 (drop k v') = take 4 (drop k v)" if "12 \<le> k" for k
      using that by (simp add: v'_def)
    have h: "eb_load e (eb_ptr e + 10) 1 = Some [v ! 10]" "eb_load e (eb_ptr e + 11) 1 = Some [v ! 11]"
      using eb_load_byte[OF ok, of 10] eb_load_byte[OF ok, of 11] l by (simp_all add: v)
    have ck: "ip_chksum 0 (rd_ebuf f (eb_ptr e)) (int (ip_hl v)) = Some (of_nat (ones (wsum (take (ip_hl v) v'))))"
      using ip_chksum_ebuf[OF f(2), of 0 "ip_hl v" 0] f(3,5) len l by simp
    have g: "ebuf_get_u16_be (ebuf_skip f 2) = Some (be16 (v ! 2) (v ! 3), ebuf_skip f 4)"
      "ebuf_get_u16_be (ebuf_skip f 6) = Some (be16 (v ! 6) (v ! 7), ebuf_skip f 8)"
      "ebuf_get_u8 (ebuf_skip f 9) = Some (v ! 9, ebuf_skip f 10)"
      "ebuf_get_bytes (ebuf_skip f 12) IP_ADDR_LEN = Some (take 4 (drop 12 v), ebuf_skip f 16)"
      "ebuf_get_bytes (ebuf_skip f 16) IP_ADDR_LEN = Some (take 4 (drop 16 v), ebuf_skip f 20)"
      using get_at(1)[OF f(2), of 2] get_at(1)[OF f(2), of 6] get_at(2)[OF f(2), of 9] get_at(3)[OF f(2), of 12 4] get_at(3)[OF f(2), of 16 4]
        len l nth' tk unfolding f(5) by (simp_all add: arp_consts)
    have fr: "IPHDR_FRAGOFFSET OR IPHDR_MOREFRAGMENTS = 0x3FFF" by (simp add: ip_consts)
    have sk: "ebuf_skip (ebuf_skip f 1) 1 = ebuf_skip f 2" "ebuf_skip (ebuf_skip f 4) 2 = ebuf_skip f 6" "ebuf_skip (ebuf_skip f 8) 1 = ebuf_skip f 9"
      "ebuf_skip (ebuf_skip f 10) 2 = ebuf_skip f 12" "ebuf_skip (ebuf_skip f 20) (int (ip_hl v) - int IPHDR_LENGTH) = ebuf_skip f (int (ip_hl v))"
      by (simp_all add: skip_skip ip_consts)
    define fin where "fin = ebuf_setlength (ebuf_skip f (int (ip_hl v))) (word_of_int (uint (be16 (v ! 2) (v ! 3)) - int (ip_hl v)))"
    let ?res = "Some (v ! 9, take 4 (drop 12 v), take 4 (drop 16 v))"
    have eq: "ip_rx_check our e = (if NOT (of_nat (ones (wsum (take (ip_hl v) v')))) \<noteq> be16 (v ! 10) (v ! 11) then Some (ebuf_skip f 1, None)
        else if be16 (v ! 6) (v ! 7) AND 0x3FFF \<noteq> 0 then Some (ebuf_skip f 8, None)
        else if \<not> ip_addriszero our \<and> take 4 (drop 16 v) \<noteq> take IP_ADDR_LEN our \<and> \<not> ip_addrisbcast (take 4 (drop 16 v)) then Some (fin, None)
        else Some (fin, ?res))"
      unfolding ip_rx_check_def Let_def g1 bind.bind_lunit prod.case t(1) eb_load_skip h ip_hl_def[symmetric] if_not_P[OF t(2)] nth_Cons_0
        store_skip[OF ea(1)] store_skip[OF f(1)] rd_skip ck sk g fr fin_def[symmetric] by simp
    have n: "unat (word_of_int (uint (be16 (v ! 2) (v ! 3)) - int (ip_hl v)) :: u32) = ip_len v - ip_hl v"
    proof -
      have "uint (be16 (v ! 2) (v ! 3)) - int (ip_hl v) = int (ip_len v - ip_hl v)" using l by (simp add: ip_len_def)
      moreover have "ip_len v < 2 ^ 16" unfolding ip_len_def by (rule less_le_trans[OF unat_less_2p]) simp
      ultimately show ?thesis using unat_plus_less[of "0 :: u32" "ip_len v - ip_hl v"] by simp
    qed
    have fin: "eb_ptr fin = eb_ptr e + int (ip_hl v)" "eb_port fin = eb_port e" "length (eb_data fin) = EB_DATA_SIZE" "unat (eb_length fin) = ip_len v - ip_hl v"
      using f(2,3,4) ea(4) n by (simp_all add: fin_def ebuf_setlength_def eb_frame_def eb_ok_def)
    have ld: "eb_load fin (eb_ptr e + int k) 1 = Some [v ! k]" if "12 \<le> k" "k < length v" for k
    proof -
      have "eb_load f (eb_ptr e + int k) 1 = Some [v ! k]" using eb_load_byte[OF f(2), of k] that f(3,5) len nth'[of k] by simp
      moreover have "eb_load fin off n = eb_load f off n" for off n by (simp add: fin_def ebuf_setlength_def eb_load_def)
      ultimately show ?thesis by simp
    qed
    have whole: "eb_ok fin \<and> eb_view fin = take (ip_len v - ip_hl v) (drop (ip_hl v) v)" if le: "ip_len v \<le> length v"
    proof
      have lf: "unat (eb_length f) = length v" using length_eb_view[OF f(2)] f(5) len by simp
      have np: "nat (eb_ptr f + int (ip_hl v)) = nat (eb_ptr f) + ip_hl v" using f(2) by (simp add: eb_ok_def nat_add_distrib)
      show "eb_ok fin" using f(2) n np lf l le by (simp add: fin_def eb_ok_def ebuf_setlength_def)
      have "eb_view fin = take (ip_len v - ip_hl v) (drop (nat (eb_ptr f) + ip_hl v) (eb_data f))"
        using n np by (simp add: eb_view_def fin_def ebuf_setlength_def)
      also have "\<dots> = take (ip_len v - ip_hl v) (drop (ip_hl v) (eb_view f))"
        using l lf le by (simp add: eb_view_def drop_take add.commute min_def)
      also have "\<dots> = take (ip_len v - ip_hl v) (drop (ip_hl v) v)" using True by (simp add: f(5) v'_def)
      finally show "eb_view fin = take (ip_len v - ip_hl v) (drop (ip_hl v) v)" .
    qed
    have acc: "ip_accepts our v \<longleftrightarrow> NOT (of_nat (ones (wsum (take (ip_hl v) v')))) = be16 (v ! 10) (v ! 11) \<and> be16 (v ! 6) (v ! 7) AND 0x3FFF = 0 \<and>
        \<not> (\<not> ip_addriszero our \<and> take 4 (drop 16 v) \<noteq> take IP_ADDR_LEN our \<and> \<not> ip_addrisbcast (take 4 (drop 16 v)))"
      using True by (auto simp: ip_accepts_def v'_def arp_consts)
    have port: "eb_port (ebuf_skip f k) = eb_port e" for k using f(4) ea(4) by (simp add: eb_frame_def)
    show ?thesis
    proof (cases "ip_accepts our v")
      case True
      then have "ip_rx_check our e = Some (fin, ?res)" using eq acc by simp
      then show ?thesis using True fin ld whole by simp
    next
      case False
      then have "\<exists>e'. ip_rx_check our e = Some (e', None) \<and> length (eb_data e') = EB_DATA_SIZE \<and> eb_port e' = eb_port e"
        using eq acc fin(2,3) dl[OF f(2)] port by auto
      then show ?thesis using False by simp
    qed
  qed
qed

lemma ip_rx_check_ok:
  assumes ok: "eb_ok e" and s: "ip_sane (eb_view e)"
  shows "\<exists>e'. ip_rx_check our e = Some (e', if ip_accepts our (eb_view e)
      then Some (eb_view e ! 9, take 4 (drop 12 (eb_view e)), take 4 (drop 16 (eb_view e))) else None) \<and>
    length (eb_data e') = EB_DATA_SIZE \<and> eb_port e' = eb_port e \<and>
    (ip_accepts our (eb_view e) \<longrightarrow> eb_ok e' \<and> eb_ptr e' = eb_ptr e + int (ip_hl (eb_view e)) \<and>
      eb_view e' = take (ip_len (eb_view e) - ip_hl (eb_view e)) (drop (ip_hl (eb_view e)) (eb_view e)))"
proof -
  have l: "20 \<le> length (eb_view e)" "ip_hl (eb_view e) \<le> length (eb_view e)" "ip_hl (eb_view e) \<le> ip_len (eb_view e)" "ip_len (eb_view e) \<le> length (eb_view e)"
    using s by (simp_all add: ip_sane_def)
  show ?thesis using ip_rx_check_gen[OF ok refl l(1-3), of our] l(4) by blast
qed

section \<open>Sending\<close>

lemma ip_wf_id [simp]: "ip_wf (ipi\<lparr>ip_id := n\<rparr>) = ip_wf ipi" "ip_bufs (ipi\<lparr>ip_id := n\<rparr>) = ip_bufs ipi"
  by (cases "arp_table ipi"; simp add: ip_wf_def ip_bufs_def)+

lemma held_step_id: "ip_wf ipi \<Longrightarrow> held_step ipi (ipi\<lparr>ip_id := n\<rparr>) {} {#} []"
  by (simp add: held_step_def ip_rest_def) (simp add: eth_same_refl ip_wf_def)

lemma ip_route_step:
  assumes wf: "ip_wf ipi" and b: "b \<notin># ip_bufs ipi" and rd: "tx_ready (eth_info ipi) 0 b" and d: "IP_ADDR_LEN \<le> length dest" "IP_ADDR_LEN \<le> length (ip_gateway ipi)"
  shows "\<exists>ipi' out. ip_route ipi b dest = Some (0, ipi') \<and> arp_step ipi ipi' {#b#} out"
proof -
  have bc: "ENET_ADDR_LEN \<le> length eth_broadcast" by (simp add: eth_broadcast_def enet_consts)
  show ?thesis
    using send_free_step[OF wf b rd bc] arp_lookup_and_send_step[OF wf b rd d(1)] arp_lookup_and_send_step[OF wf b rd d(2)] free_step[OF wf b]
    by (auto simp: ip_route_def Let_def)
qed

text \<open>Addresses have four bytes.\<close>

definition ip_addrs_ok :: "ip_info \<Rightarrow> bool" where "ip_addrs_ok ipi = (length (ip_addr ipi) = 4 \<and> length (ip_netmask ipi) = 4 \<and> length (ip_gateway ipi) = 4)"

lemma tx_ready_put:
  assumes "tx_ready eth h b" "eb_ok e" "eb_frame (eth_bufpool eth b) e" "eb_ptr e = eb_ptr (eth_bufpool eth b) - int n" "h = h' + n"
  shows "tx_ready (set_buf eth b e) h' b"
  using assms by (simp add: tx_ready_def eb_frame_def dix_port_def)

lemma ip_send_step:
  assumes wf: "ip_wf ipi" and a: "ip_addrs_ok ipi" and b: "b \<notin># ip_bufs ipi" and rd: "tx_ready (eth_info ipi) IPHDR_LENGTH b" and d: "4 \<le> length dst"
  shows "\<exists>ipi' out. ip_send ipi b dst proto = Some (0, ipi') \<and> held_step ipi ipi' {} {#b#} out"
proof -
  let ?ipi = "ipi\<lparr>ip_id := ip_id ipi + 1\<rparr>" let ?e = "eth_bufpool (eth_info ipi) b"
  have e: "eb_ok ?e" "int IPHDR_LENGTH \<le> eb_ptr ?e" using rd by (simp_all add: tx_ready_def)
  obtain e1 where e1: "ip_header ?ipi ?e dst proto = Some e1" "eb_ok e1" "eb_ptr e1 = eb_ptr ?e - int IPHDR_LENGTH" "eb_frame ?e e1"
    using ip_header_ok[OF e, of ?ipi dst proto] a d by (auto simp: ip_addrs_ok_def)
  note put = put_buf_step[of ?ipi b e1, simplified, OF wf b]
  have s1: "held_step ?ipi (put_buf ?ipi b e1) {b} {#} []" using put e1(2) by (simp add: eb_ok_def)
  have rd1: "tx_ready (eth_info (put_buf ?ipi b e1)) 0 b" using tx_ready_put[OF rd e1(2,4,3), of 0] by simp
  have b1: "b \<notin># ip_bufs (put_buf ?ipi b e1)" using s1 b by (simp add: held_step_def)
  have g: "IP_ADDR_LEN \<le> length dst" "IP_ADDR_LEN \<le> length (ip_gateway (put_buf ?ipi b e1))"
    using a d by (simp_all add: ip_addrs_ok_def arp_consts put_buf_def set_eth_def)
  obtain ipi' out where r: "ip_route (put_buf ?ipi b e1) b dst = Some (0, ipi')" "arp_step (put_buf ?ipi b e1) ipi' {#b#} out"
    using ip_route_step[OF held_step_wf[OF s1] b1 rd1 g] by blast
  have "held_step ipi ipi' {b} {#b#} out"
    using held_step_trans[OF held_step_trans[OF held_step_id[OF wf, of "ip_id ipi + 1"] s1] arp_held[OF r(2)]] by simp
  then have "held_step ipi ipi' {} {#b#} out" by (rule held_step_mono) simp
  then show ?thesis using e1(1) r(1) by (auto simp: ip_send_def Let_def)
qed

lemma udp_send_step:
  assumes wf: "ip_wf ipi" and a: "ip_addrs_ok ipi" and b: "b \<notin># ip_bufs ipi" and rd: "tx_ready (eth_info ipi) (IPHDR_LENGTH + UDP_HDR_LENGTH) b" and d: "4 \<le> length dst"
  shows "\<exists>ipi' out. udp_send ui ipi s b dst = Some (0, ipi') \<and> held_step ipi ipi' {} {#b#} out"
proof -
  let ?e = "eth_bufpool (eth_info ipi) b"
  have e: "eb_ok ?e" "int UDP_HDR_LENGTH \<le> eb_ptr ?e" using rd by (simp_all add: tx_ready_def)
  have our: "4 \<le> length (ip_getaddr ipi)" using a by (simp add: ip_getaddr_def ip_addrs_ok_def arp_consts)
  obtain e1 where e1: "udp_header (ui ! s) (ip_getaddr ipi) dst ?e = Some e1" "eb_ok e1" "eb_ptr e1 = eb_ptr ?e - int UDP_HDR_LENGTH" "eb_frame ?e e1"
    using udp_header_ok[OF e our d] by blast
  have s1: "held_step ipi (put_buf ipi b e1) {b} {#} []" using put_buf_step[OF wf b] e1(2) by (simp add: eb_ok_def)
  have rd1: "tx_ready (eth_info (put_buf ipi b e1)) IPHDR_LENGTH b" using tx_ready_put[OF rd e1(2,4,3)] by simp
  have b1: "b \<notin># ip_bufs (put_buf ipi b e1)" using s1 b by (simp add: held_step_def)
  have a1: "ip_addrs_ok (put_buf ipi b e1)" using a by (simp add: ip_addrs_ok_def put_buf_def set_eth_def)
  obtain ipi' out where r: "ip_send (put_buf ipi b e1) b dst IPPROTO_UDP = Some (0, ipi')" "held_step (put_buf ipi b e1) ipi' {} {#b#} out"
    using ip_send_step[OF held_step_wf[OF s1] a1 b1 rd1 d] by blast
  have "held_step ipi ipi' {b} {#b#} out" using held_step_trans[OF s1 r(2)] by simp
  then have "held_step ipi ipi' {} {#b#} out" by (rule held_step_mono) simp
  then show ?thesis using e1(1) r(1) by (auto simp: udp_send_def)
qed

text \<open>The frame of a datagram to a host on the network whose address is known.\<close>

definition ip_direct :: "ip_info \<Rightarrow> bytes \<Rightarrow> bool" where
  "ip_direct ipi dst = (\<not> ip_addrisbcast dst \<and> (ip_addriszero (ip_netmask ipi) \<or> ip_mask dst (ip_netmask ipi) = ip_mask (ip_addr ipi) (ip_netmask ipi)))"

lemma udp_send_frame:
  assumes wf: "ip_wf ipi" and a: "ip_addrs_ok ipi" and b: "b \<notin># ip_bufs ipi" and rd: "tx_ready (eth_info ipi) (IPHDR_LENGTH + UDP_HDR_LENGTH) b"
    and d: "length dst = 4" "ip_direct ipi dst" and t: "arp_table ipi = Some t" and f: "arp_find_idx t dst 0 = Some i" "ae_state (t ! i) = ae_established"
  shows "\<exists>ipi'. udp_send ui ipi s b dst = Some (0, ipi') \<and> dev_out (eth_info ipi') = dev_out (eth_info ipi) @
    [(ep_dev (eth_ports (eth_info ipi) ! nat (eb_port (eth_bufpool (eth_info ipi) b))),
      take ENET_ADDR_LEN (ae_ethaddr (t ! i)) @ eth_hwaddr (eth_info ipi) @ take 2 (ep_proto (eth_ports (eth_info ipi) ! nat (eb_port (eth_bufpool (eth_info ipi) b)))) @
      ip_hdr (ip_id ipi + 1) (length (eb_view (eth_bufpool (eth_info ipi) b)) + 28) IPPROTO_UDP (ip_addr ipi) dst @
      udp_pkt (up_srcport (ui ! s)) (up_destport (ui ! s)) (ip_addr ipi) dst (eb_view (eth_bufpool (eth_info ipi) b)))]"
proof -
  let ?e = "eth_bufpool (eth_info ipi) b"
  have e: "eb_ok ?e" "int UDP_HDR_LENGTH \<le> eb_ptr ?e" using rd by (simp_all add: tx_ready_def)
  have our: "ip_getaddr ipi = ip_addr ipi" "4 \<le> length (ip_addr ipi)" using a by (simp_all add: ip_getaddr_def ip_addrs_ok_def arp_consts)
  have d4: "4 \<le> length dst" using d by simp
  let ?u = "udp_pkt (up_srcport (ui ! s)) (up_destport (ui ! s)) (ip_addr ipi) dst (eb_view ?e)"
  obtain e1 where e1: "udp_header (ui ! s) (ip_getaddr ipi) dst ?e = Some e1" "eb_ok e1" "eb_ptr e1 = eb_ptr ?e - int UDP_HDR_LENGTH" "eb_frame ?e e1" "eb_view e1 = ?u"
    using udp_header_ok[OF e our(2) d4] unfolding our(1) by blast
  let ?i1 = "put_buf ipi b e1"
  have s1: "held_step ipi ?i1 {b} {#} []" using put_buf_step[OF wf b] e1(2) by (simp add: eb_ok_def)
  have rd1: "tx_ready (eth_info ?i1) IPHDR_LENGTH b" using tx_ready_put[OF rd e1(2,4,3)] by simp
  let ?i2 = "?i1\<lparr>ip_id := ip_id ?i1 + 1\<rparr>"
  have p1: "int IPHDR_LENGTH \<le> eb_ptr e1" using rd1 by (simp add: tx_ready_def)
  have ida: "ip_id ?i2 = ip_id ipi + 1" "ip_addr ?i2 = ip_addr ipi" by (simp_all add: put_buf_def set_eth_def)
  have lu: "length ?u = length (eb_view ?e) + 8" by (simp add: udp_pkt_def Let_def put16_def udp_hdr0_def)
  have lu28: "length (eb_view e1) + 20 = length (eb_view ?e) + 28" using lu e1(5) by simp
  obtain e2 where e2: "ip_header ?i2 e1 dst IPPROTO_UDP = Some e2" "eb_ok e2" "eb_ptr e2 = eb_ptr e1 - int IPHDR_LENGTH" "eb_frame e1 e2"
    "eb_view e2 = ip_hdr (ip_id ipi + 1) (length (eb_view ?e) + 28) IPPROTO_UDP (ip_addr ipi) dst @ ?u"
    using ip_header_ok[OF e1(2) p1, of ?i2 dst IPPROTO_UDP, unfolded ida lu28] a d e1(5) by (auto simp: ip_addrs_ok_def)
  let ?i3 = "put_buf ?i2 b e2"
  have b1: "b \<notin># ip_bufs ?i2" using s1 b by (simp add: held_step_def)
  have wf2: "ip_wf ?i2" using held_step_wf[OF s1] by simp
  have s3: "held_step ?i2 ?i3 {b} {#} []" using put_buf_step[OF wf2 b1] e2(2) by (simp add: eb_ok_def)
  have b3: "b \<notin># ip_bufs ?i3" using s3 b1 by (simp add: held_step_def)
  have rd1': "tx_ready (eth_info ?i2) IPHDR_LENGTH b" using rd1 by simp
  have rd3: "tx_ready (eth_info ?i3) 0 b" using tx_ready_put[OF rd1' e2(2), of IPHDR_LENGTH 0] e2(3,4) by simp
  have t3: "arp_table ?i3 = Some t" using t by simp
  obtain i4 where r: "arp_lookup_and_send ?i3 b dst = Some (0, i4)" "arp_step ?i3 i4 {#b#} [eth_packet (eth_info ?i3) b (ae_ethaddr (t ! i))]"
    using lookup_send_established[OF held_step_wf[OF s3] t3 f b3 rd3] by blast
  have rt: "ip_route ?i3 b dst = arp_lookup_and_send ?i3 b dst"
    using d(2) by (auto simp: ip_route_def ip_direct_def Let_def put_buf_def set_eth_def)
  have "udp_send ui ipi s b dst = Some (0, i4)" using e1(1) e2(1) r(1) rt by (simp add: udp_send_def ip_send_def Let_def)
  moreover have "dev_out (eth_info i4) = dev_out (eth_info ipi) @ [eth_packet (eth_info ?i3) b (ae_ethaddr (t ! i))]"
    using r(2) by (simp add: arp_step_def)
  moreover have "eb_port e2 = eb_port ?e" using e1(4) e2(4) by (simp add: eb_frame_def)
  ultimately show ?thesis using e2(5) by (simp add: eth_packet_def Let_def)
qed

end
