(* ===== verification/Cfe_Net_Step.thy ===== *)
theory Cfe_Net_Step
  imports Cfe_Net Cfe_Ip_Step
begin

text \<open>
  The network stack as a whole (theory Cfe_Net): what reception does with a datagram, and the way of a datagram from the
  socket that sends it to the socket that receives it.
\<close>

section \<open>Reception by UDP\<close>

text \<open>The checksum of a datagram is right, or it has none.\<close>

definition udp_valid :: "bytes \<Rightarrow> bytes \<Rightarrow> bytes \<Rightarrow> bool" where
  "udp_valid src dst v = (v ! 6 OR v ! 7 = 0 \<or>
     (let c = of_nat (ones (wsum (pseudoheader src dst (int (length v)) @ v[6 := 0, 7 := 0]))) :: u16 in
      (if c \<noteq> 0xFFFF then NOT c else c) = be16 (v ! 6) (v ! 7)))"

lemma eb_sint:
  assumes "eb_ok e"
  shows "sint (eb_length e) = int (length (eb_view e))"
proof -
  have n: "unat (eb_length e) < 2 ^ 31" using assms by (simp add: eb_ok_def enet_consts)
  show ?thesis using sint_u32_small[OF n] length_eb_view[OF assms] by simp
qed

lemma udp_rx_checksum_ok:
  assumes ok: "eb_ok e" and l: "8 \<le> length (eb_view e)" and a: "4 \<le> length src" "4 \<le> length dst"
  shows "\<exists>e'. udp_rx_checksum e dst src = Some (e', udp_valid src dst (eb_view e)) \<and> eb_ok e' \<and> eb_ptr e' = eb_ptr e \<and> eb_length e' = eb_length e \<and>
    eb_frame e e' \<and> length (eb_view e') = length (eb_view e) \<and> (\<forall>k. k \<noteq> 6 \<longrightarrow> k \<noteq> 7 \<longrightarrow> eb_view e' ! k = eb_view e ! k) \<and>
    drop 8 (eb_view e') = drop 8 (eb_view e)"
proof -
  let ?v = "eb_view e" let ?n = "int (length ?v)"
  have h: "eb_load e (eb_ptr e + 6) 1 = Some [?v ! 6]" "eb_load e (eb_ptr e + 7) 1 = Some [?v ! 7]"
    using eb_load_byte[OF ok, of 6] eb_load_byte[OF ok, of 7] l by simp_all
  show ?thesis
  proof (cases "?v ! 6 OR ?v ! 7 = 0")
    case True
    then show ?thesis using h ok by (simp add: udp_rx_checksum_def udp_valid_def)
  next
    case False
    obtain f where f: "eb_store e (eb_ptr e + 7) [0] = Some f" "eb_ok f" "eb_ptr f = eb_ptr e" "eb_length f = eb_length e" "eb_frame e f" "eb_view f = ?v[7 := 0]"
      using store8[OF ok, of 7 0] l by auto
    obtain g where g: "eb_store f (eb_ptr e + 6) [0] = Some g" "eb_ok g" "eb_ptr g = eb_ptr e" "eb_length g = eb_length e" "eb_frame f g" "eb_view g = ?v[6 := 0, 7 := 0]"
      using store8[OF f(2), of 6 0] l f(3,4,6) by (auto simp: list_update_swap)
    have lg: "?n = int (length (eb_view g))" using g(6) by simp
    have ck: "ip_chksum (of_nat (ones (wsum (pseudoheader src dst ?n)))) (rd_ebuf g (eb_ptr e)) ?n =
        Some (of_nat (ones (wsum (pseudoheader src dst ?n @ ?v[6 := 0, 7 := 0]))))"
      using udp_chksum[OF a g(2) g(3)[symmetric] lg] unfolding g(6) .
    have "udp_rx_checksum e dst src = Some (g, udp_valid src dst ?v)"
      unfolding udp_rx_checksum_def Let_def eb_sint[OF ok] h bind.bind_lunit nth_Cons_0 if_P[OF False] f(1) g(1) pseudo_chksum[OF a] ck
      using False by (simp add: udp_valid_def Let_def)
    moreover have "eb_frame e g" using eb_frame_trans[OF f(5) g(5)] .
    moreover have "drop 8 (eb_view g) = drop 8 ?v" by (simp add: g(6))
    ultimately show ?thesis using g by simp
  qed
qed

text \<open>The socket that takes a datagram.\<close>

definition udp_accepts :: "udp_info \<Rightarrow> bytes \<Rightarrow> bytes \<Rightarrow> bytes \<Rightarrow> nat option" where
  "udp_accepts ui src dst v = (if udp_valid src dst v \<and> be16 (v ! 4) (v ! 5) = of_nat (length v) then
     case udp_find_port ui (be16 (v ! 2) (v ! 3)) of None \<Rightarrow> None
     | Some i \<Rightarrow> if int (length (up_rxqueue (ui ! i))) < up_maxqueue (ui ! i) then Some i else None else None)"

lemma udp_find_port_loop_Some: "udp_find_port_loop ui port idx = Some i \<Longrightarrow> idx \<le> i \<and> i - idx < length ui \<and> up_inuse (ui ! (i - idx)) \<and> up_srcport (ui ! (i - idx)) = port"
proof (induction ui arbitrary: idx)
  case (Cons udp ui)
  then show ?case by (cases "up_inuse udp \<and> up_srcport udp = port") (auto simp: nth_Cons' dest!: Cons.IH split: if_splits)
qed simp

lemma udp_find_port_range: "udp_find_port ui port = Some i \<Longrightarrow> i < length ui"
  using udp_find_port_loop_Some[of ui port 0 i] by (simp add: udp_find_port_def)

definition enqueued :: "udp_info \<Rightarrow> nat \<Rightarrow> nat \<Rightarrow> udp_info" where
  "enqueued ui i b = ui[i := (ui ! i)\<lparr>up_rxqueue := up_rxqueue (ui ! i) @ [b]\<rparr>]"

lemma udp_accepts_range:
  assumes "udp_accepts ui src dst v = Some i"
  shows "i < length ui" "up_inuse (ui ! i)"
proof -
  have "udp_find_port_loop ui (be16 (v ! 2) (v ! 3)) 0 = Some i" using assms by (simp add: udp_accepts_def udp_find_port_def split: if_splits option.splits)
  then show "i < length ui" "up_inuse (ui ! i)" using udp_find_port_loop_Some[of ui "be16 (v ! 2) (v ! 3)" 0 i] by simp_all
qed

lemma udp_rx_callback_ok:
  assumes ok: "eb_ok (eth_bufpool (eth_info ipi) b)" and v: "v = eb_view (eth_bufpool (eth_info ipi) b)" and l: "8 \<le> length v" and a: "4 \<le> length src" "4 \<le> length dst"
  shows "udp_accepts ui src dst v = None \<Longrightarrow> \<exists>e. udp_rx_callback ui ipi b dst src = Some (ETH_DROP, ui, put_buf ipi b e) \<and> length (eb_data e) = EB_DATA_SIZE"
    "udp_accepts ui src dst v = Some i \<Longrightarrow> \<exists>e. udp_rx_callback ui ipi b dst src = Some (ETH_KEEP, enqueued ui i b, put_buf ipi b e) \<and>
       eb_ok e \<and> eb_view e = drop 8 v \<and> eb_usrdata e = uint (be16 (v ! 0) (v ! 1)) \<and> eb_usrptr e = Usr_srcip \<and>
       eb_ptr e = eb_ptr (eth_bufpool (eth_info ipi) b) + 8 \<and> eb_port e = eb_port (eth_bufpool (eth_info ipi) b)"
proof -
  define e where "e = eth_bufpool (eth_info ipi) b"
  have oke: "eb_ok e" and v: "v = eb_view e" using ok v by (simp_all add: e_def)
  obtain f where f: "udp_rx_checksum e dst src = Some (f, udp_valid src dst v)" "eb_ok f" "eb_ptr f = eb_ptr e" "eb_length f = eb_length e"
    "eb_frame e f" "length (eb_view f) = length v" "\<forall>k. k \<noteq> 6 \<longrightarrow> k \<noteq> 7 \<longrightarrow> eb_view f ! k = v ! k" "drop 8 (eb_view f) = drop 8 v"
    using udp_rx_checksum_ok[OF oke l[unfolded v] a] unfolding v by blast
  have n: "(word_of_int (sint (eb_length e)) :: u16) = of_nat (length v)" using eb_sint[OF oke] v by simp
  have g: "ebuf_get_u16_be f = Some (be16 (v ! 0) (v ! 1), ebuf_skip f 2)"
    "ebuf_get_u16_be (ebuf_skip f 2) = Some (be16 (v ! 2) (v ! 3), ebuf_skip f 4)"
    "ebuf_get_u16_be (ebuf_skip f 4) = Some (be16 (v ! 4) (v ! 5), ebuf_skip f 6)"
    using get_at(1)[OF f(2), of 0] get_at(1)[OF f(2), of 2] get_at(1)[OF f(2), of 4] f(6,7) l by (simp_all add: skip_0)
  have df: "length (eb_data f) = EB_DATA_SIZE" using f(2) by (simp add: eb_ok_def)
  have sk: "ebuf_skip (ebuf_skip f 6) 2 = ebuf_skip f 8" by (simp add: skip_skip)
  define h where "h = (ebuf_skip f 8)\<lparr>eb_usrdata := uint (be16 (v ! 0) (v ! 1)), eb_usrptr := Usr_srcip\<rparr>"
  define fin where "fin = ebuf_setlength h (word_of_int (uint (be16 (v ! 4) (v ! 5)) - int UDP_HDR_LENGTH))"
  have eq: "udp_rx_callback ui ipi b dst src = (if \<not> udp_valid src dst v then Some (ETH_DROP, ui, put_buf ipi b f)
      else if be16 (v ! 4) (v ! 5) \<noteq> of_nat (length v) then Some (ETH_DROP, ui, put_buf ipi b (ebuf_skip f 8))
      else case udp_find_port ui (be16 (v ! 2) (v ! 3)) of None \<Rightarrow> Some (ETH_DROP, ui, put_buf ipi b (ebuf_skip f 8))
        | Some i \<Rightarrow> if up_maxqueue (ui ! i) \<le> int (length (up_rxqueue (ui ! i))) then Some (ETH_DROP, ui, put_buf ipi b h)
            else Some (ETH_KEEP, enqueued ui i b, put_buf ipi b fin))"
    unfolding udp_rx_callback_def Let_def e_def[symmetric] f(1) n bind.bind_lunit prod.case g sk h_def[symmetric] fin_def[symmetric] enqueued_def by simp
  show "\<exists>e. udp_rx_callback ui ipi b dst src = Some (ETH_DROP, ui, put_buf ipi b e) \<and> length (eb_data e) = EB_DATA_SIZE" if "udp_accepts ui src dst v = None"
    using that df unfolding eq by (auto simp: udp_accepts_def h_def split: if_splits option.splits)
  show "\<exists>e. udp_rx_callback ui ipi b dst src = Some (ETH_KEEP, enqueued ui i b, put_buf ipi b e) \<and>
       eb_ok e \<and> eb_view e = drop 8 v \<and> eb_usrdata e = uint (be16 (v ! 0) (v ! 1)) \<and> eb_usrptr e = Usr_srcip \<and>
       eb_ptr e = eb_ptr (eth_bufpool (eth_info ipi) b) + 8 \<and> eb_port e = eb_port (eth_bufpool (eth_info ipi) b)" if "udp_accepts ui src dst v = Some i"
  proof -
    have len: "be16 (v ! 4) (v ! 5) = of_nat (length v)" using that by (simp add: udp_accepts_def split: if_splits)
    have l16: "length v < 2 ^ 16" using oke length_eb_view[OF oke] by (simp add: v eb_ok_def enet_consts)
    have u: "uint (of_nat (length v) :: u16) = int (length v)" using l16 by (simp add: unsigned_of_nat take_bit_nat_eq_self)
    have "eb_length f = of_nat (length v)" using length_eb_view[OF oke] f(4) v by (metis of_nat_unat ucast_id)
    then have hl: "eb_length h = word_of_int (int (length v) - 8)" by (simp add: h_def)
    have same: "x\<lparr>eb_length := eb_length x\<rparr> = x" for x :: ebuf by simp
    have fin: "fin = h" using same[of h] unfolding fin_def len u ebuf_setlength_def hl by (simp add: udp_consts)
    have s: "eb_ok (ebuf_skip f 8)" "eb_view (ebuf_skip f 8) = drop 8 v" using eb_skip[OF f(2), of 8] f(6,8) l by simp_all
    have "eb_ok h" "eb_view h = drop 8 v" "eb_ptr h = eb_ptr e + 8" "eb_port h = eb_port e" using s f(3,5) by (simp_all add: h_def eb_ok_def eb_view_def eb_frame_def)
    then show ?thesis using that unfolding eq fin e_def[symmetric] by (auto simp: udp_accepts_def h_def split: if_splits option.splits)
  qed
qed

section \<open>What is sent is accepted\<close>

lemma be16_put: "be16 (hi8 (ucast (w :: u16))) (lo8 (ucast w)) = w"
  unfolding hi8_lo8 by (rule bit_word_eqI) (simp add: bit_simps)

lemma hi_lo_zero: "hi8 (ucast (w :: u16)) OR lo8 (ucast w) = 0 \<longleftrightarrow> w = 0"
proof
  assume "hi8 (ucast w) OR lo8 (ucast w) = 0"
  then have "hi8 (ucast w) = 0" "lo8 (ucast w) = 0" by (simp_all add: or_eq_0_iff)
  then show "w = 0" using be16_put[of w] by (simp add: be16_def)
qed (simp add: hi8_def lo8_def)

lemma put16_nth: "Suc k < length bs \<Longrightarrow> put16 k w bs ! k = hi8 (ucast w)" "Suc k < length bs \<Longrightarrow> put16 k w bs ! Suc k = lo8 (ucast w)"
  by (simp_all add: put16_def)

lemma length_udp_pkt: "length (udp_pkt sp dp src dst pl) = length pl + 8"
  by (simp add: udp_pkt_def Let_def put16_def udp_hdr0_def)

lemma udp_pkt_valid: "udp_valid src dst (udp_pkt sp dp src dst pl)"
proof -
  define u where "u = udp_hdr0 sp dp (length pl + 8) @ pl"
  define w where "w = udp_ck src dst u"
  have l: "Suc 6 < length u" by (simp add: u_def udp_hdr0_def)
  have v: "udp_pkt sp dp src dst pl = put16 6 w u" by (simp add: udp_pkt_def Let_def u_def w_def)
  have z: "(put16 6 w u)[6 := 0, 7 := 0] = u" by (simp add: put16_def u_def udp_hdr0_def)
  have n: "length (put16 6 w u) = length u" by (simp add: put16_def)
  have h: "put16 6 w u ! 6 = hi8 (ucast w)" "put16 6 w u ! 7 = lo8 (ucast w)" using put16_nth[OF l, of w] by simp_all
  define c where "c = (of_nat (ones (wsum (pseudoheader src dst (int (length u)) @ u))) :: u16)"
  have w: "w = (if NOT c = 0 then 0xFFFF else NOT c)" by (simp add: w_def udp_ck_def c_def Let_def)
  have "(if c \<noteq> 0xFFFF then NOT c else c) = w"
  proof (cases "c = 0xFFFF")
    case False
    have "NOT c \<noteq> 0"
    proof
      assume "NOT c = 0"
      then have "NOT (NOT c) = NOT 0" by simp
      with False show False by simp
    qed
    then show ?thesis using False w by simp
  qed (use w in simp)
  then show ?thesis unfolding udp_valid_def v n z h be16_put c_def[symmetric] Let_def by simp
qed
lemma ucast16: "ucast (ucast (w :: u16) :: u32) = w" "ucast (of_nat n :: u32) = (of_nat n :: u16)"
  by (rule bit_word_eqI; simp add: bit_simps)+

lemma ip_hdr_parts:
  assumes a: "length src = 4" "length dst = 4"
  shows "length (ip_hdr n len proto src dst) = 20" "ip_hdr n len proto src dst ! 0 = 0x45" "ip_hdr n len proto src dst ! 9 = proto"
    "be16 (ip_hdr n len proto src dst ! 2) (ip_hdr n len proto src dst ! 3) = of_nat len"
    "be16 (ip_hdr n len proto src dst ! 6) (ip_hdr n len proto src dst ! 7) = 0"
    "take 4 (drop 12 (ip_hdr n len proto src dst)) = src" "drop 16 (ip_hdr n len proto src dst) = dst"
    "(ip_hdr n len proto src dst)[10 := 0, 11 := 0] = ip_hdr0 n len proto src dst"
    "be16 (ip_hdr n len proto src dst ! 10) (ip_hdr n len proto src dst ! 11) = NOT (of_nat (ones (wsum (ip_hdr0 n len proto src dst))))"
  using a by (simp_all add: ip_hdr_def Let_def put16_def ip_hdr0_def hi8_lo8 ucast16) (simp_all add: be16_def)

text \<open>The receiver takes every packet with such a header, whether or not the packet is as long as the header says.\<close>

lemma ip_hdr_accepts:
  assumes a: "length src = 4" "length dst = 4" and len: "len < 2 ^ 16" and v: "v = ip_hdr n len proto src dst @ pl"
  shows "ip_hl v = 20" "ip_len v = len" "ip_accepts dst v" "v ! 9 = proto" "take 4 (drop 12 v) = src" "take 4 (drop 16 v) = dst" "drop 20 v = pl"
proof -
  note p = ip_hdr_parts[OF a, of n len proto]
  have nth: "v ! k = ip_hdr n len proto src dst ! k" if "k < 20" for k using that p(1) by (simp add: v nth_append)
  show hl: "ip_hl v = 20" by (simp add: ip_hl_def nth p(2))
  have "unat (of_nat len :: u16) = len" using len by (simp add: unsigned_of_nat take_bit_nat_eq_self)
  then show "ip_len v = len" using p(4) by (simp add: ip_len_def nth)
  show "v ! 9 = proto" by (simp add: nth p(3))
  show "take 4 (drop 12 v) = src" using p(1,6) by (simp add: v)
  show dst: "take 4 (drop 16 v) = dst" using p(1,7) a(2) by (simp add: v)
  show "drop 20 v = pl" using p(1) by (simp add: v)
  have h0: "length (ip_hdr0 n len proto src dst) = 20" using p(1) unfolding p(8)[symmetric] by simp
  have "take 20 (v[10 := 0, 11 := 0]) = ip_hdr0 n len proto src dst" using p(1,8) h0 by (simp add: v list_update_append)
  then show "ip_accepts dst v" unfolding ip_accepts_def hl dst using a by (simp add: nth p(2,5,9))
qed

lemma ip_pkt_view:
  assumes a: "length src = 4" "length dst = 4" and len: "length pl + 20 < 2 ^ 16" and v: "v = ip_hdr n (length pl + 20) proto src dst @ pl @ pad"
  shows "ip_sane v" "ip_hl v = 20" "ip_len v = length pl + 20" "ip_accepts dst v" "v ! 9 = proto" "take 4 (drop 12 v) = src" "take 4 (drop 16 v) = dst"
    "take (ip_len v - ip_hl v) (drop (ip_hl v) v) = pl"
proof -
  note h = ip_hdr_accepts[OF a len v]
  show "ip_hl v = 20" "ip_len v = length pl + 20" "ip_accepts dst v" "v ! 9 = proto" "take 4 (drop 12 v) = src" "take 4 (drop 16 v) = dst" by (fact h)+
  show "ip_sane v" using h(1,2) ip_hdr_parts(1)[OF a] by (simp add: ip_sane_def v)
  show "take (ip_len v - ip_hl v) (drop (ip_hl v) v) = pl" unfolding h(1,2,7) by simp
qed

section \<open>Reception of a frame\<close>

lemma eth_receive_ok:
  assumes wf: "eth_wf eth" and fl: "eth_freelist eth = c # cs" and rd: "length fr \<le> ENET_MAX_PKT" "fr \<noteq> []" and st: "inpstat \<noteq> 0"
  shows "\<exists>e eth'. eth_receive eth inpstat (int (length fr), fr) = Some (case eth_accepts eth fr of None \<Rightarrow> Rx_Drop c | Some p \<Rightarrow> Rx_Port c p, eth') \<and>
    eth' = set_buf (eth\<lparr>eth_freelist := cs\<rparr>) c e \<and> length (eb_data e) = EB_DATA_SIZE \<and>
    (\<forall>p. eth_accepts eth fr = Some p \<longrightarrow> eb_ok e \<and> eb_ptr e = 14 \<and> eb_view e = drop 14 fr \<and> eb_port e = int p \<and> take 14 (eb_data e) = take 14 fr)"
proof -
  have l: "length (eb_data (eth_bufpool eth c)) = EB_DATA_SIZE" using wf by (simp add: eth_wf_def)
  let ?e0 = "ebuf_init_rx (eth_bufpool eth c)"
  define e1 where "e1 = ?e0\<lparr>eb_length := of_nat (length fr), eb_status := 0, eb_usrdata := 0, eb_data := fr @ drop (length fr) (eb_data (eth_bufpool eth c))\<rparr>"
  have n: "unat (of_nat (length fr) :: u32) = length fr" using rd(1) by (simp add: unsigned_of_nat take_bit_nat_eq_self enet_consts)
  have ok: "eb_ok e1" "eb_view e1 = fr" "eb_ptr e1 = 0" using l rd(1) n by (simp_all add: e1_def eb_ok_def eb_view_def ebuf_init_rx_def enet_consts)
  have st1: "eb_store ?e0 0 fr = Some (?e0\<lparr>eb_data := fr @ drop (length fr) (eb_data (eth_bufpool eth c))\<rparr>)"
    using l rd(1) by (simp add: eb_store_def ebuf_init_rx_def enet_consts)
  have e1': "?e0\<lparr>eb_data := fr @ drop (length fr) (eb_data (eth_bufpool eth c)), eb_length := word_of_int (int (length fr)), eb_status := 0, eb_usrdata := 0\<rparr> = e1"
    by (simp add: e1_def ebuf_init_rx_def)
  have pos: "\<not> int (length fr) \<le> 0" using rd(2) by auto
  have fp: "eth_findport (eth\<lparr>eth_freelist := cs\<rparr>) e1 = Some (eth_accepts eth fr, if eth_accepts eth fr = None then e1 else ebuf_skip e1 (int ENET_DIX_HEADER))"
  proof (cases "length fr < 60")
    case True
    have ld: "\<exists>x. eb_load e1 (eb_ptr e1 + 6) 1 = Some [x]" using ok(1,3) by (auto simp: eb_load_def eb_ok_def enet_consts take_Suc_conv_app_nth)
    have "eb_length e1 < 60" using True length_eb_view[OF ok(1)] ok(2) by (simp add: word_less_nat_alt)
    then show ?thesis using True ld by (auto simp: eth_findport_def eth_accepts_def)
  qed (use eth_findport_accepts[OF ok(1), of "eth\<lparr>eth_freelist := cs\<rparr>"] ok(2) in \<open>simp add: eth_accepts_def\<close>)
  have l60: "60 \<le> length fr" if "eth_accepts eth fr \<noteq> None" using that by (simp add: eth_accepts_def split: if_splits)
  have sk: "eb_ok (ebuf_skip e1 14)" "eb_view (ebuf_skip e1 14) = drop 14 fr" if "eth_accepts eth fr \<noteq> None"
    using eb_skip[OF ok(1), of 14] ok(2) l60[OF that] by simp_all
  have tk: "take 14 (eb_data e1) = take 14 fr" if "eth_accepts eth fr \<noteq> None" using l60[OF that] by (simp add: e1_def)
  have bp: "eth_bufpool (eth\<lparr>eth_freelist := cs\<rparr>) c = eth_bufpool eth c" by simp
  show ?thesis
    unfolding eth_receive_def if_not_P[OF st] eth_deqfree_def fl list.case prod.case option.case snd_conv fst_conv bp st1 bind.bind_lunit Let_def if_not_P[OF pos]
      e1' fp
    using ok(1,3) sk tk by (cases "eth_accepts eth fr") (auto simp: eb_ok_def eb_view_def enet_consts)
qed

text \<open>The portal of IP and the handler of UDP are in place.\<close>

definition udp_ready :: "net_ctx \<Rightarrow> bytes \<Rightarrow> bool" where
  "udp_ready ctx fr = (eth_wf (ctx_eth ctx) \<and> length fr \<le> ENET_MAX_PKT \<and> ip_find_proto (ip_protocols (ipinfo ctx)) IPPROTO_UDP = Some Cb_Udp \<and>
     (case eth_accepts (ctx_eth ctx) fr of None \<Rightarrow> False | Some p \<Rightarrow> ep_rxcallback (eth_ports (ctx_eth ctx) ! p) = Some Cb_Ip))"

lemma eth_poll_udp:
  assumes rdy: "udp_ready ctx fr" and fl: "eth_freelist (ctx_eth ctx) = c # cs" and st: "inpstat \<noteq> 0" and v: "drop 14 fr = v"
    and ip: "ip_sane v" "ip_accepts (ip_addr (ipinfo ctx)) v" "v ! 9 = IPPROTO_UDP"
    and u: "u = take (ip_len v - ip_hl v) (drop (ip_hl v) v)" "8 \<le> length u"
    and acc: "udp_accepts (udpinfo ctx) (take 4 (drop 12 v)) (take 4 (drop 16 v)) u = Some i"
  shows "\<exists>ctx'. eth_poll ctx inpstat (int (length fr), fr) = Some ctx' \<and> udpinfo ctx' = enqueued (udpinfo ctx) i c \<and> icmpinfo ctx' = icmpinfo ctx \<and>
    eth_freelist (ctx_eth ctx') = cs \<and> (\<forall>b. b \<noteq> c \<longrightarrow> eth_bufpool (ctx_eth ctx') b = eth_bufpool (ctx_eth ctx) b) \<and>
    eb_ok (eth_bufpool (ctx_eth ctx') c) \<and> eb_view (eth_bufpool (ctx_eth ctx') c) = drop 8 u \<and>
    eb_usrdata (eth_bufpool (ctx_eth ctx') c) = uint (be16 (u ! 0) (u ! 1)) \<and> eb_usrptr (eth_bufpool (ctx_eth ctx') c) = Usr_srcip"
proof -
  obtain p where p: "eth_accepts (ctx_eth ctx) fr = Some p" "ep_rxcallback (eth_ports (ctx_eth ctx) ! p) = Some Cb_Ip"
    using rdy by (auto simp: udp_ready_def split: option.splits)
  have wf: "eth_wf (ctx_eth ctx)" and le: "length fr \<le> ENET_MAX_PKT" and pr: "ip_find_proto (ip_protocols (ipinfo ctx)) IPPROTO_UDP = Some Cb_Udp"
    using rdy by (simp_all add: udp_ready_def)
  have l14: "fr \<noteq> []" using p(1) by (auto simp: eth_accepts_def split: if_splits)
  let ?eth = "(ctx_eth ctx)\<lparr>eth_freelist := cs\<rparr>"
  obtain e where e: "eth_receive (ctx_eth ctx) inpstat (int (length fr), fr) = Some (Rx_Port c p, set_buf ?eth c e)" "eb_ok e" "eb_view e = v"
    using eth_receive_ok[OF wf fl le l14 st] p(1) v by auto
  let ?ctx = "set_ctx_eth ctx (set_buf ?eth c e)"
  obtain f where f: "ip_rx_check (ip_addr (ipinfo ctx)) e = Some (f, Some (IPPROTO_UDP, take 4 (drop 12 v), take 4 (drop 16 v)))" "eb_ok f" "eb_view f = u"
    using ip_rx_check_ok[OF e(2), of "ip_addr (ipinfo ctx)"] ip e(3) u(1) by auto
  have al: "4 \<le> length (take 4 (drop 12 v))" "4 \<le> length (take 4 (drop 16 v))" using ip(1) by (auto simp: ip_sane_def)
  let ?ipi = "put_buf (ipinfo ?ctx) c f"
  have okf: "eb_ok (eth_bufpool (eth_info ?ipi) c)" "u = eb_view (eth_bufpool (eth_info ?ipi) c)" using f by simp_all
  obtain g where g: "udp_rx_callback (udpinfo ctx) ?ipi c (take 4 (drop 16 v)) (take 4 (drop 12 v)) = Some (ETH_KEEP, enqueued (udpinfo ctx) i c, put_buf ?ipi c g)"
    "eb_ok g" "eb_view g = drop 8 u" "eb_usrdata g = uint (be16 (u ! 0) (u ! 1))" "eb_usrptr g = Usr_srcip"
    using udp_rx_callback_ok(2)[OF okf u(2) al acc] by blast
  have cb: "eth_rxcallback (Some Cb_Ip) ?ctx c = Some (ETH_KEEP, ?ctx\<lparr>ipinfo := put_buf ?ipi c g, udpinfo := enqueued (udpinfo ctx) i c\<rparr>)"
    using f(1) g(1) pr by (simp add: eth_rxcallback_def ip_rx_callback_def set_ctx_eth_def ctx_eth_def put_buf_def set_eth_def)
  have "eth_poll ctx inpstat (int (length fr), fr) = Some (?ctx\<lparr>ipinfo := put_buf ?ipi c g, udpinfo := enqueued (udpinfo ctx) i c\<rparr>)"
    using e(1) p(2) cb by (simp add: eth_poll_def eth_consts)
  then show ?thesis using g by (simp add: ctx_eth_def set_ctx_eth_def)
qed

section \<open>From socket to socket\<close>

definition ip_frame_port :: "ether_info \<Rightarrow> nat option" where
  "ip_frame_port eth = first_port [0, 0, 0, 0, 0, 0, 0, 0, 0, 0, 0, 0, 8, 0] (eth_ports eth) 0"

lemma first_port_type: "fr ! 12 = gr ! 12 \<Longrightarrow> fr ! 13 = gr ! 13 \<Longrightarrow> first_port fr ps idx = first_port gr ps idx"
proof (induction ps arbitrary: idx)
  case (Cons p ps)
  then have "port_takes fr p = port_takes gr p" by (simp add: port_takes_def)
  then show ?case using Cons by simp
qed simp

text \<open>A machine that listens on a port: set up, with room in the queue of the socket and a free buffer.\<close>

definition net_listens :: "net_ctx \<Rightarrow> u16 \<Rightarrow> nat \<Rightarrow> bool" where
  "net_listens ctx port i = (eth_wf (ctx_eth ctx) \<and> ip_find_proto (ip_protocols (ipinfo ctx)) IPPROTO_UDP = Some Cb_Udp \<and>
     (case ip_frame_port (ctx_eth ctx) of None \<Rightarrow> False | Some p \<Rightarrow> ep_rxcallback (eth_ports (ctx_eth ctx) ! p) = Some Cb_Ip) \<and>
     udp_find_port (udpinfo ctx) port = Some i \<and> int (length (up_rxqueue (udpinfo ctx ! i))) < up_maxqueue (udpinfo ctx ! i) \<and>
     eth_freelist (ctx_eth ctx) \<noteq> [])"

definition ip_frame :: "bytes \<Rightarrow> bytes \<Rightarrow> bytes \<Rightarrow> bytes" where "ip_frame dhw shw pkt = take 6 dhw @ shw @ [8, 0] @ pkt"

lemma udp_pkt_parts:
  "be16 (udp_pkt sp dp src dst pl ! 0) (udp_pkt sp dp src dst pl ! 1) = sp" "be16 (udp_pkt sp dp src dst pl ! 2) (udp_pkt sp dp src dst pl ! 3) = dp"
  "be16 (udp_pkt sp dp src dst pl ! 4) (udp_pkt sp dp src dst pl ! 5) = of_nat (length pl + 8)" "drop 8 (udp_pkt sp dp src dst pl) = pl"
  by (simp_all add: udp_pkt_def Let_def put16_def udp_hdr0_def hi8_lo8 ucast16)
    (use ucast16(2)[of "length pl + 8"] in simp)

lemma udp_frame_received:
  assumes lis: "net_listens ctx dp i" and our: "ip_addr (ipinfo ctx) = dst" and a: "length src = 4" "length dst = 4" and hw: "6 \<le> length dhw" "length shw = 6" "shw ! 0 AND 1 = 0"
    and fr: "fr = ip_frame dhw shw (ip_hdr n (length pl + 28) IPPROTO_UDP src dst @ udp_pkt sp dp src dst pl) @ pad"
    and len: "60 \<le> length fr" "length fr \<le> ENET_MAX_PKT" and st: "inpstat \<noteq> 0"
  shows "\<exists>ctx' c. eth_poll ctx inpstat (int (length fr), fr) = Some ctx' \<and> udpinfo ctx' = enqueued (udpinfo ctx) i c \<and> c = hd (eth_freelist (ctx_eth ctx)) \<and>
    icmpinfo ctx' = icmpinfo ctx \<and> eth_freelist (ctx_eth ctx') = tl (eth_freelist (ctx_eth ctx)) \<and>
    (\<forall>b. b \<noteq> c \<longrightarrow> eth_bufpool (ctx_eth ctx') b = eth_bufpool (ctx_eth ctx) b) \<and>
    eb_ok (eth_bufpool (ctx_eth ctx') c) \<and> eb_view (eth_bufpool (ctx_eth ctx') c) = pl \<and>
    eb_usrdata (eth_bufpool (ctx_eth ctx') c) = uint sp \<and> eb_usrptr (eth_bufpool (ctx_eth ctx') c) = Usr_srcip"
proof -
  let ?u = "udp_pkt sp dp src dst pl"
  obtain c cs where fl: "eth_freelist (ctx_eth ctx) = c # cs" using lis by (cases "eth_freelist (ctx_eth ctx)") (simp_all add: net_listens_def)
  have hd6: "length (take 6 dhw) = 6" using hw(1) by simp
  define v where "v = ip_hdr n (length ?u + 20) IPPROTO_UDP src dst @ ?u @ pad"
  have lu: "length ?u + 20 = length pl + 28" by (simp add: length_udp_pkt)
  have frv: "fr = take 6 dhw @ shw @ [8, 0] @ v" unfolding v_def lu fr ip_frame_def by simp
  have ltu: "length ?u + 20 < 2 ^ 16" using len(2) hd6 hw(2) unfolding frv v_def by (simp add: enet_consts)
  note V = ip_pkt_view[OF a ltu v_def]
  have dv: "drop 14 fr = v" using hd6 hw(2) by (simp add: frv)
  have n6: "fr ! 6 = shw ! 0" "fr ! 12 = 8" "fr ! 13 = 0" using hd6 hw(2) by (simp_all add: frv nth_append)
  have "first_port fr (eth_ports (ctx_eth ctx)) 0 = ip_frame_port (ctx_eth ctx)" unfolding ip_frame_port_def by (rule first_port_type) (simp_all add: n6 nth_append)
  then have rdy: "udp_ready ctx fr" using lis len n6(1) hw(3) by (simp add: udp_ready_def net_listens_def eth_accepts_def)
  have l16: "(of_nat (length pl + 8) :: u16) = of_nat (length ?u)" by (simp only: length_udp_pkt)
  have acc: "udp_accepts (udpinfo ctx) (take 4 (drop 12 v)) (take 4 (drop 16 v)) ?u = Some i"
    using lis by (simp add: udp_accepts_def V(6,7) udp_pkt_valid udp_pkt_parts(2,3) l16 net_listens_def del: of_nat_add)
  have l8: "8 \<le> length ?u" by (simp add: length_udp_pkt)
  show ?thesis
    using eth_poll_udp[OF rdy fl st dv V(1) V(4)[folded our] V(5) V(8)[symmetric] l8 acc] fl
    unfolding V(6) udp_pkt_parts by auto
qed

end
