(* ===== verification/Cfe_Net_Inv.thy ===== *)
theory Cfe_Net_Inv
  imports Cfe_Net_Step
begin

text \<open>
  The buffers of the network stack: at every time each of the eight is in exactly one place, the free list, a queue of the
  ARP table, the queue of a socket, the queue of echo replies, or the hands of the application.  The invariant is that of
  every step of the stack, and no step fails.
\<close>

section \<open>The invariant\<close>

definition udp_queued :: "udp_info \<Rightarrow> nat list" where "udp_queued ui = concat (map up_rxqueue ui)"

text \<open>A socket that is not in use has no packets.\<close>

definition idle_empty :: "udp_info \<Rightarrow> bool" where "idle_empty ui = list_all (\<lambda>u. up_inuse u \<or> up_rxqueue u = []) ui"

definition net_bufs :: "net_ctx \<Rightarrow> nat multiset" where
  "net_bufs ctx = ip_bufs (ipinfo ctx) + mset (udp_queued (udpinfo ctx)) + mset (icmp_echoreplies (icmpinfo ctx))"

text \<open>The IP layer is behind the portals for its Ethernet type only.\<close>

definition ip_portals :: "ether_info \<Rightarrow> bool" where
  "ip_portals eth = (\<forall>p \<in> set (eth_ports eth). ep_rxcallback p = Some Cb_Ip \<longrightarrow> take 2 (ep_proto p) = [8, 0])"

text \<open>The application holds the buffers \<open>H\<close>, which can be sent; the buffers \<open>R\<close> are in the hands of a step.\<close>

definition net_core :: "net_ctx \<Rightarrow> nat multiset \<Rightarrow> nat multiset \<Rightarrow> bool" where
  "net_core ctx R H = (ip_wf (ipinfo ctx) \<and> ip_addrs_ok (ipinfo ctx) \<and> net_bufs ctx + R + H = mset [0..<ETH_MAX_BUFFERS] \<and>
     (\<forall>b. b \<in># mset (udp_queued (udpinfo ctx)) + H \<longrightarrow> tx_ready (eth_info (ipinfo ctx)) (IPHDR_LENGTH + UDP_HDR_LENGTH) b) \<and>
     (\<forall>b. b \<in> set (icmp_echoreplies (icmpinfo ctx)) \<longrightarrow> eb_ok (eth_bufpool (eth_info (ipinfo ctx)) b)) \<and>
     length (udpinfo ctx) = UDP_MAX_PORTS \<and> idle_empty (udpinfo ctx) \<and> ip_portals (eth_info (ipinfo ctx)))"

definition net_inv :: "net_ctx \<Rightarrow> nat multiset \<Rightarrow> bool" where "net_inv ctx H = net_core ctx {#} H"

lemma net_coreD:
  assumes "net_core ctx R H"
  shows "ip_wf (ipinfo ctx)" "ip_addrs_ok (ipinfo ctx)" "net_bufs ctx + R + H = mset [0..<ETH_MAX_BUFFERS]"
    "b \<in># mset (udp_queued (udpinfo ctx)) \<Longrightarrow> tx_ready (eth_info (ipinfo ctx)) (IPHDR_LENGTH + UDP_HDR_LENGTH) b"
    "b \<in># H \<Longrightarrow> tx_ready (eth_info (ipinfo ctx)) (IPHDR_LENGTH + UDP_HDR_LENGTH) b"
    "b \<in> set (icmp_echoreplies (icmpinfo ctx)) \<Longrightarrow> eb_ok (eth_bufpool (eth_info (ipinfo ctx)) b)" "length (udpinfo ctx) = UDP_MAX_PORTS"
    "idle_empty (udpinfo ctx)" "ip_portals (eth_info (ipinfo ctx))"
  using assms by (simp_all add: net_core_def)

text \<open>A buffer has one place.\<close>

lemma one_place:
  assumes "net_core ctx R H"
  shows "b \<in># R \<Longrightarrow> b \<notin># net_bufs ctx" "b \<in># H \<Longrightarrow> b \<notin># net_bufs ctx" "b \<in># R \<Longrightarrow> b \<notin># H"
    "b \<in># mset (udp_queued (udpinfo ctx)) + mset (icmp_echoreplies (icmpinfo ctx)) \<Longrightarrow> b \<notin># ip_bufs (ipinfo ctx)"
proof -
  have c: "count (net_bufs ctx + R + H) x \<le> 1" for x unfolding net_coreD(3)[OF assms] using distinct_count_atmost_1[of "[0..<ETH_MAX_BUFFERS]"]
    by (metis distinct_upt le_refl zero_le)
  have sm: "False" if "b \<in># M" "b \<in># N" "M + N \<subseteq># net_bufs ctx + R + H" for M N
  proof -
    have "2 \<le> count (M + N) b" using that(1,2) by (rule two_counts)
    also have "\<dots> \<le> count (net_bufs ctx + R + H) b" using that(3) by (rule mset_subset_eq_count)
    finally show False using c[of b] by simp
  qed
  show "b \<notin># net_bufs ctx" if "b \<in># R" using sm[of "net_bufs ctx" R] that by auto
  show "b \<notin># net_bufs ctx" if "b \<in># H" using sm[of "net_bufs ctx" H] that by (auto simp: ac_simps)
  show "b \<notin># H" if "b \<in># R" using sm[of R H] that by (auto simp: ac_simps)
  show "b \<notin># ip_bufs (ipinfo ctx)" if "b \<in># mset (udp_queued (udpinfo ctx)) + mset (icmp_echoreplies (icmpinfo ctx))"
    using sm[OF that, of "ip_bufs (ipinfo ctx)"] by (auto simp: net_bufs_def ac_simps)
qed

lemma in_hand: "net_core ctx (add_mset b R) H \<Longrightarrow> b \<notin># ip_bufs (ipinfo ctx)"
  using one_place(1)[of ctx "add_mset b R" H b] by (simp add: net_bufs_def)

section \<open>Moves of buffers\<close>

text \<open>A step of the IP layer that takes the buffers \<open>M\<close>, and may change those in hand.\<close>

lemma core_held:
  assumes c: "net_core ctx (R + M) H" and s: "held_step (ipinfo ctx) ipi X M out" and X: "X \<subseteq> set_mset (R + M)"
  shows "net_core (ctx\<lparr>ipinfo := ipi\<rparr>) R H"
proof -
  note d = net_coreD[OF c]
  have h: "ip_wf ipi" "ip_bufs ipi = ip_bufs (ipinfo ctx) + M" "eth_same (eth_info (ipinfo ctx)) (eth_info ipi) (set_mset (ip_bufs (ipinfo ctx) + M) \<union> X)"
    "ip_rest (ipinfo ctx) ipi" using s by (simp_all add: held_step_def)
  have out: "b \<notin> set_mset (ip_bufs (ipinfo ctx) + M) \<union> X"
    if "b \<in># mset (udp_queued (udpinfo ctx)) + mset (icmp_echoreplies (icmpinfo ctx)) + H" for b
    using that one_place[OF c, of b] X by (auto simp: net_bufs_def)
  have "tx_ready (eth_info ipi) (IPHDR_LENGTH + UDP_HDR_LENGTH) b" if "b \<in># mset (udp_queued (udpinfo ctx)) + H" for b
    using eth_same_ready[OF h(3) out[of b]] d(4,5)[of b] that by auto
  moreover have "eb_ok (eth_bufpool (eth_info ipi) b)" if "b \<in> set (icmp_echoreplies (icmpinfo ctx))" for b
    using h(3) out[of b] d(6)[OF that] that by (simp add: eth_same_def)
  moreover have "ip_addrs_ok ipi" using d(2) h(4) by (simp add: ip_addrs_ok_def ip_rest_def)
  moreover have "net_bufs (ctx\<lparr>ipinfo := ipi\<rparr>) + R + H = mset [0..<ETH_MAX_BUFFERS]" using d(3) h(2) by (simp add: net_bufs_def ac_simps)
  moreover have "ip_portals (eth_info ipi)" using d(9) h(3) by (simp add: ip_portals_def eth_same_def)
  ultimately show ?thesis using h(1) d(7,8) unfolding net_core_def by simp
qed

lemma core_ready_hand: "net_core ctx R (add_mset b H) \<Longrightarrow> net_core ctx (add_mset b R) H"
  by (simp add: net_core_def)

lemma core_hand_ready: "net_core ctx (add_mset b R) H \<Longrightarrow> tx_ready (eth_info (ipinfo ctx)) (IPHDR_LENGTH + UDP_HDR_LENGTH) b \<Longrightarrow> net_core ctx R (add_mset b H)"
  by (auto simp: net_core_def)

lemma core_put:
  assumes c: "net_core ctx (add_mset b R) H" and l: "length (eb_data e) = EB_DATA_SIZE"
  shows "net_core (ctx\<lparr>ipinfo := put_buf (ipinfo ctx) b e\<rparr>) (add_mset b R) H"
  using core_held[of ctx "add_mset b R" "{#}", simplified, OF c put_buf_step[OF net_coreD(1)[OF c] in_hand[OF c] l]] by simp

lemma core_free:
  assumes c: "net_core ctx (add_mset b R) H"
  shows "net_core (ctx\<lparr>ipinfo := ip_free (ipinfo ctx) b\<rparr>) R H"
  using core_held[of ctx R "{#b#}" H, simplified, OF c arp_held[OF free_step[OF net_coreD(1)[OF c] in_hand[OF c]]]] by (simp add: ip_free_def)

text \<open>The first buffer of the free list is taken.\<close>

lemma take_free:
  assumes wf: "ip_wf ipi" and fl: "eth_freelist (eth_info ipi) = c # cs"
  shows "ip_wf (set_eth ipi ((eth_info ipi)\<lparr>eth_freelist := cs\<rparr>))" "ip_bufs ipi = add_mset c (ip_bufs (set_eth ipi ((eth_info ipi)\<lparr>eth_freelist := cs\<rparr>)))"
proof -
  show b: "ip_bufs ipi = add_mset c (ip_bufs (set_eth ipi ((eth_info ipi)\<lparr>eth_freelist := cs\<rparr>)))" using fl by (simp add: ip_bufs_def)
  have "count (ip_bufs (set_eth ipi ((eth_info ipi)\<lparr>eth_freelist := cs\<rparr>))) x \<le> 1" for x
  proof -
    have "count (ip_bufs (set_eth ipi ((eth_info ipi)\<lparr>eth_freelist := cs\<rparr>))) x \<le> count (ip_bufs ipi) x" unfolding b by simp
    also have "\<dots> \<le> 1" using wf by (simp add: ip_wf_def)
    finally show ?thesis .
  qed
  then show "ip_wf (set_eth ipi ((eth_info ipi)\<lparr>eth_freelist := cs\<rparr>))"
    using wf by (auto simp: ip_wf_def eth_wf_def dix_port_def tx_ready_def split: option.splits)
qed

lemma core_take:
  assumes c: "net_core ctx R H" and fl: "eth_freelist (ctx_eth ctx) = b # bs"
  shows "net_core (set_ctx_eth ctx ((ctx_eth ctx)\<lparr>eth_freelist := bs\<rparr>)) (add_mset b R) H"
  using take_free[OF net_coreD(1)[OF c] fl[unfolded ctx_eth_def]] net_coreD[OF c]
  by (auto simp: net_core_def net_bufs_def set_ctx_eth_def ctx_eth_def ip_addrs_ok_def set_eth_def tx_ready_def dix_port_def ip_portals_def)

text \<open>Queues of the sockets.\<close>

lemma queued_enqueued: "i < length ui \<Longrightarrow> mset (udp_queued (enqueued ui i b)) = add_mset b (mset (udp_queued ui))"
proof (induction ui arbitrary: i)
  case (Cons udp ui)
  then show ?case by (cases i) (simp_all add: udp_queued_def enqueued_def)
qed simp

lemma core_enqueue:
  assumes c: "net_core ctx (add_mset b R) H" and r: "tx_ready (eth_info (ipinfo ctx)) (IPHDR_LENGTH + UDP_HDR_LENGTH) b" and i: "i < UDP_MAX_PORTS" "up_inuse (udpinfo ctx ! i)"
  shows "net_core (ctx\<lparr>udpinfo := enqueued (udpinfo ctx) i b\<rparr>) R H"
proof -
  have q: "mset (udp_queued (enqueued (udpinfo ctx) i b)) = add_mset b (mset (udp_queued (udpinfo ctx)))"
    using i net_coreD(7)[OF c] by (intro queued_enqueued) simp
  have "idle_empty (enqueued (udpinfo ctx) i b)"
    using net_coreD(7,8)[OF c] i by (auto simp: idle_empty_def enqueued_def list_all_length nth_list_update)
  then show ?thesis using net_coreD[OF c] r unfolding net_core_def net_bufs_def by (auto simp: q) (simp add: enqueued_def)
qed

section \<open>Allocation\<close>

lemma ip_alloc_ok:
  assumes wf: "ip_wf ipi" and fl: "eth_freelist (eth_info ipi) = b # bs"
  shows "\<exists>e. ip_alloc ipi = (Some b, put_buf (set_eth ipi ((eth_info ipi)\<lparr>eth_freelist := bs\<rparr>)) b e) \<and> eb_ok e \<and> eb_ptr e = 34 \<and> eb_view e = [] \<and>
    dix_port (eth_info ipi) (eb_port e)"
proof -
  have d: "dix_port (eth_info ipi) (ip_port ipi)" and l: "length (eb_data (eth_bufpool (eth_info ipi) b)) = EB_DATA_SIZE"
    using wf by (auto simp: ip_wf_def eth_wf_def)
  show ?thesis using d l fl
    by (auto simp: ip_alloc_def eth_alloc_def eth_deqfree_def Let_def dix_port_def put_buf_def set_buf_def set_eth_def ebuf_seek_def ebuf_init_tx_def
        ebuf_setlength_def eb_ok_def eb_view_def enet_consts ip_consts)
qed

lemma ip_alloc_none: "ip_wf ipi \<Longrightarrow> eth_freelist (eth_info ipi) = [] \<Longrightarrow> ip_alloc ipi = (None, ipi)"
  by (simp add: ip_alloc_def eth_alloc_def eth_deqfree_def Let_def set_eth_def)

lemma core_alloc:
  assumes c: "net_core ctx R H" and fl: "eth_freelist (eth_info (ipinfo ctx)) = b # bs"
  shows "\<exists>e. ip_alloc (ipinfo ctx) = (Some b, put_buf (set_eth (ipinfo ctx) ((eth_info (ipinfo ctx))\<lparr>eth_freelist := bs\<rparr>)) b e) \<and>
    eb_ok e \<and> eb_ptr e = 34 \<and> eb_view e = [] \<and> dix_port (eth_info (ipinfo ctx)) (eb_port e) \<and>
    net_core (ctx\<lparr>ipinfo := put_buf (set_eth (ipinfo ctx) ((eth_info (ipinfo ctx))\<lparr>eth_freelist := bs\<rparr>)) b e\<rparr>) (add_mset b R) H"
proof -
  obtain e where e: "ip_alloc (ipinfo ctx) = (Some b, put_buf (set_eth (ipinfo ctx) ((eth_info (ipinfo ctx))\<lparr>eth_freelist := bs\<rparr>)) b e)" "eb_ok e"
    "eb_ptr e = 34" "eb_view e = []" "dix_port (eth_info (ipinfo ctx)) (eb_port e)"
    using ip_alloc_ok[OF net_coreD(1)[OF c] fl] by blast
  have "net_core (set_ctx_eth ctx ((ctx_eth ctx)\<lparr>eth_freelist := bs\<rparr>)) (add_mset b R) H" using core_take[OF c] fl by (simp add: ctx_eth_def)
  moreover have "length (eb_data e) = EB_DATA_SIZE" using e(2) by (simp add: eb_ok_def)
  ultimately have "net_core (ctx\<lparr>ipinfo := put_buf (set_eth (ipinfo ctx) ((eth_info (ipinfo ctx))\<lparr>eth_freelist := bs\<rparr>)) b e\<rparr>) (add_mset b R) H"
    using core_put by (fastforce simp: set_ctx_eth_def ctx_eth_def)
  then show ?thesis using e by blast
qed

section \<open>ICMP\<close>

lemma icmp_reply_ok:
  assumes ok: "eb_ok e" "eb_view e = []" and l: "4 \<le> length pkt" "nat (eb_ptr e) + length pkt \<le> EB_DATA_SIZE"
  shows "\<exists>e'. icmp_reply e pkt = Some e' \<and> eb_ok e' \<and> eb_ptr e' = eb_ptr e \<and> eb_frame e e' \<and>
    (\<exists>w. eb_view e' = put16 2 w ([0, 0, 0, 0] @ drop 4 pkt) \<and> w = NOT (of_nat (ones (wsum ([0, 0, 0, 0] @ drop 4 pkt)))))"
proof -
  have z: "unat (eb_length e) = 0" and ne: "pkt \<noteq> []" using length_eb_view[OF ok(1)] ok(2) l(1) by auto
  obtain a where a: "ebuf_append_bytes e pkt = Some a" "eb_ok a" "eb_view a = pkt" "eb_ptr a = eb_ptr e" "eb_frame e a"
    using eb_append[OF ok(1), of pkt] l z ok(2) by auto
  obtain f0 where f0: "eb_store a (eb_ptr e) [0] = Some f0" "eb_ok f0" "eb_ptr f0 = eb_ptr e" "eb_frame a f0" "eb_view f0 = pkt[0 := 0]"
    using store8[OF a(2), of 0 0] a(3,4) ne by auto
  obtain f1 where f1: "eb_store f0 (eb_ptr e + 1) [0] = Some f1" "eb_ok f1" "eb_ptr f1 = eb_ptr e" "eb_frame f0 f1" "eb_view f1 = pkt[0 := 0, 1 := 0]"
    using store8[OF f0(2), of 1 0] f0 l by auto
  obtain f2 where f2: "eb_store f1 (eb_ptr e + 2) [0] = Some f2" "eb_ok f2" "eb_ptr f2 = eb_ptr e" "eb_frame f1 f2" "eb_view f2 = pkt[0 := 0, 1 := 0, 2 := 0]"
    using store8[OF f1(2), of 2 0] f1 l by auto
  obtain f3 where f3: "eb_store f2 (eb_ptr e + 3) [0] = Some f3" "eb_ok f3" "eb_ptr f3 = eb_ptr e" "eb_frame f2 f3" "eb_view f3 = pkt[0 := 0, 1 := 0, 2 := 0, 3 := 0]"
    using store8[OF f2(2), of 3 0] f2 l by auto
  have v3: "eb_view f3 = [0, 0, 0, 0] @ drop 4 pkt"
  proof -
    obtain x0 x1 x2 x3 xs where "pkt = x0 # x1 # x2 # x3 # xs" using l(1) by (auto simp: Suc_le_length_iff numeral_nat)
    then show ?thesis using f3(5) by (simp add: numeral_nat)
  qed
  define w where "w = (NOT (of_nat (ones (wsum (eb_view f3)))) :: u16)"
  have ck: "ip_chksum 0 (rd_ebuf f3 (eb_ptr e)) (sint (eb_length f3)) = Some (of_nat (ones (wsum (eb_view f3))))"
    using ip_chksum_ebuf[OF f3(2), of 0 "length (eb_view f3)" 0] f3(3) eb_sint[OF f3(2)] by simp
  have l3: "Suc 2 < length (eb_view f3)" unfolding v3 by simp
  obtain e' where e': "Option.bind (eb_store f3 (eb_ptr e + 2) [hi8 (ucast w)]) (\<lambda>x. eb_store x (eb_ptr e + 3) [lo8 (ucast w)]) = Some e'"
    "eb_ok e'" "eb_ptr e' = eb_ptr e" "eb_frame f3 e'" "eb_view e' = put16 2 w (eb_view f3)"
    using store16[OF f3(2) l3, of w] f3(3) by auto
  have z0: "(ucast ICMP_TYPE_ECHOREPLY :: u8) = 0" "(ucast ICMP_CODE_ECHO :: u8) = 0" by (simp_all add: icmp_consts)
  have "icmp_reply e pkt = Some e'"
    unfolding icmp_reply_def Let_def z0 a(1) f0(1) f1(1) f2(1) f3(1) bind.bind_lunit ck w_def[symmetric] using e'(1) .
  moreover have "eb_frame e e'" using a(5) f0(4) f1(4) f2(4) f3(4) e'(4) by (simp add: eb_frame_def)
  ultimately show ?thesis using e' v3 w_def by metis
qed

lemma core_ip_send:
  assumes c: "net_core ctx (add_mset b R) H" and rd: "tx_ready (eth_info (ipinfo ctx)) IPHDR_LENGTH b" and d: "4 \<le> length dst"
  shows "\<exists>ipi out. ip_send (ipinfo ctx) b dst proto = Some (0, ipi) \<and> net_core (ctx\<lparr>ipinfo := ipi\<rparr>) R H \<and> dev_out (eth_info ipi) = dev_out (eth_info (ipinfo ctx)) @ out"
proof -
  obtain ipi out where s: "ip_send (ipinfo ctx) b dst proto = Some (0, ipi)" "held_step (ipinfo ctx) ipi {} {#b#} out"
    using ip_send_step[OF net_coreD(1,2)[OF c] in_hand[OF c] rd d] by blast
  have "net_core (ctx\<lparr>ipinfo := ipi\<rparr>) R H" using core_held[of ctx R "{#b#}" H ipi "{}" out] c s(2) by simp
  then show ?thesis using s by (auto simp: held_step_def)
qed

definition icmp_msg :: "bytes \<Rightarrow> u32" where "icmp_msg v = ICMPMSG (ucast (v ! 0)) (ucast (v ! 1))"

lemma core_icmp:
  assumes c: "net_core ctx (add_mset b R) H" and v: "v = eb_view (eth_bufpool (eth_info (ipinfo ctx)) b)" and ok: "eb_ok (eth_bufpool (eth_info (ipinfo ctx)) b)"
    and l: "4 \<le> length v" "length v \<le> 1486" and d: "4 \<le> length src"
  shows "\<exists>res icmp ipi. icmp_rx_callback (icmpinfo ctx) (ipinfo ctx) b dst src = Some (res, icmp, ipi) \<and>
    (res = ETH_DROP \<and> net_core (ctx\<lparr>ipinfo := ipi, icmpinfo := icmp\<rparr>) (add_mset b R) H \<or>
     res = ETH_KEEP \<and> net_core (ctx\<lparr>ipinfo := ipi, icmpinfo := icmp\<rparr>) R H)"
proof -
  define e where "e = eth_bufpool (eth_info (ipinfo ctx)) b"
  have oke: "eb_ok e" and v: "v = eb_view e" using ok v by (simp_all add: e_def)
  have ne: "eb_view e \<noteq> []" using l(1) v by auto
  have h: "eb_load e (eb_ptr e) 1 = Some [v ! 0]" "eb_load e (eb_ptr e + 1) 1 = Some [v ! 1]"
    using eb_load_byte[OF oke, of 0] eb_load_byte[OF oke, of 1] ne l(1) unfolding v by simp_all
  note rx = icmp_rx_callback_def Let_def e_def[symmetric] h bind.bind_lunit nth_Cons_0 icmp_msg_def[symmetric]
  consider (req) "icmp_msg v = ICMPMSG ICMP_TYPE_ECHOREQ ICMP_CODE_ECHO"
    | (rep) "icmp_msg v \<noteq> ICMPMSG ICMP_TYPE_ECHOREQ ICMP_CODE_ECHO" "icmp_msg v = ICMPMSG ICMP_TYPE_ECHOREPLY ICMP_CODE_ECHO"
        "int (length (icmp_echoreplies (icmpinfo ctx))) < icmp_maxreplies (icmpinfo ctx)"
    | (other) "icmp_msg v \<noteq> ICMPMSG ICMP_TYPE_ECHOREQ ICMP_CODE_ECHO"
        "\<not> (icmp_msg v = ICMPMSG ICMP_TYPE_ECHOREPLY ICMP_CODE_ECHO \<and> int (length (icmp_echoreplies (icmpinfo ctx))) < icmp_maxreplies (icmpinfo ctx))"
    by blast
  then show ?thesis
  proof cases
    case req
    show ?thesis
    proof (cases "eth_freelist (eth_info (ipinfo ctx))")
      case Nil
      then have "icmp_rx_callback (icmpinfo ctx) (ipinfo ctx) b dst src = Some (ETH_DROP, icmpinfo ctx, ipinfo ctx)"
        unfolding rx using req ip_alloc_none[OF net_coreD(1)[OF c]] by simp
      then show ?thesis using c by simp
    next
      case (Cons tx bs)
      obtain a ipi1 where a: "ip_alloc (ipinfo ctx) = (Some tx, ipi1)" "eth_bufpool (eth_info ipi1) tx = a" "eb_ok a" "eb_ptr a = 34" "eb_view a = []"
        "dix_port (eth_info ipi1) (eb_port a)" "net_core (ctx\<lparr>ipinfo := ipi1\<rparr>) (add_mset tx (add_mset b R)) H"
        using core_alloc[OF c Cons] by (auto simp: dix_port_def)
      have la: "nat (eb_ptr a) + length v \<le> EB_DATA_SIZE" using a(4) l(2) by (simp add: enet_consts)
      obtain f where f: "icmp_reply a v = Some f" "eb_ok f" "eb_ptr f = 34" "eb_frame a f" using icmp_reply_ok[OF a(3,5) l(1) la] a(4) by auto
      let ?ctx = "ctx\<lparr>ipinfo := put_buf ipi1 tx f\<rparr>"
      have c2: "net_core ?ctx (add_mset tx (add_mset b R)) H" using core_put[OF a(7), of f] f(2) by (simp add: eb_ok_def)
      have rd: "tx_ready (eth_info (ipinfo ?ctx)) IPHDR_LENGTH tx"
        using f(2,3,4) a(6) by (simp add: tx_ready_def enet_consts ip_consts eb_frame_def dix_port_def)
      obtain ipi2 where s: "ip_send (put_buf ipi1 tx f) tx src IPPROTO_ICMP = Some (0, ipi2)" "net_core (?ctx\<lparr>ipinfo := ipi2\<rparr>) (add_mset b R) H"
        using core_ip_send[OF c2 rd d] by auto
      have "icmp_rx_callback (icmpinfo ctx) (ipinfo ctx) b dst src = Some (ETH_DROP, icmpinfo ctx, ipi2)"
        unfolding rx using req a(1,2) eb_load_all[OF oke] f(1) s(1) v by simp
      then show ?thesis using s(2) by simp
    qed
  next
    case rep
    then have "icmp_rx_callback (icmpinfo ctx) (ipinfo ctx) b dst src =
        Some (ETH_KEEP, (icmpinfo ctx)\<lparr>icmp_echoreplies := icmp_echoreplies (icmpinfo ctx) @ [b]\<rparr>, ipinfo ctx)"
      unfolding rx by simp
    moreover have "net_core (ctx\<lparr>icmpinfo := (icmpinfo ctx)\<lparr>icmp_echoreplies := icmp_echoreplies (icmpinfo ctx) @ [b]\<rparr>\<rparr>) R H"
      using net_coreD[OF c] ok by (auto simp: net_core_def net_bufs_def)
    ultimately show ?thesis by simp
  next
    case other
    then have "icmp_rx_callback (icmpinfo ctx) (ipinfo ctx) b dst src = Some (ETH_DROP, icmpinfo ctx, ipinfo ctx)" unfolding rx by simp
    then show ?thesis using c by simp
  qed
qed

section \<open>Polling\<close>

text \<open>What the network may deliver: the lengths that a packet states are there, with room for a UDP or ICMP header.\<close>

definition ip_lengths_ok :: "bytes \<Rightarrow> bool" where "ip_lengths_ok v = (ip_sane v \<and> ip_hl v + 8 \<le> ip_len v)"

lemma core_ip_rx:
  assumes c: "net_core ctx (add_mset b R) H" and v: "v = eb_view (eth_bufpool (eth_info (ipinfo ctx)) b)" and ok: "eb_ok (eth_bufpool (eth_info (ipinfo ctx)) b)"
    and p: "eb_ptr (eth_bufpool (eth_info (ipinfo ctx)) b) = 14" "dix_port (eth_info (ipinfo ctx)) (eb_port (eth_bufpool (eth_info (ipinfo ctx)) b))"
    and l: "ip_lengths_ok v"
  shows "\<exists>res ctx'. ip_rx_callback ctx b = Some (res, ctx') \<and> (res = ETH_DROP \<and> net_core ctx' (add_mset b R) H \<or> res = ETH_KEEP \<and> net_core ctx' R H)"
proof -
  define e where "e = eth_bufpool (eth_info (ipinfo ctx)) b"
  have oke: "eb_ok e" and v: "v = eb_view e" using ok v by (simp_all add: e_def)
  have san: "ip_sane (eb_view e)" using l unfolding v by (simp add: ip_lengths_ok_def)
  obtain f where f: "ip_rx_check (ip_addr (ipinfo ctx)) e = Some (f, if ip_accepts (ip_addr (ipinfo ctx)) v
      then Some (v ! 9, take 4 (drop 12 v), take 4 (drop 16 v)) else None)" "length (eb_data f) = EB_DATA_SIZE" "eb_port f = eb_port e"
    "ip_accepts (ip_addr (ipinfo ctx)) v \<Longrightarrow> eb_ok f \<and> eb_ptr f = eb_ptr e + int (ip_hl v) \<and> eb_view f = take (ip_len v - ip_hl v) (drop (ip_hl v) v)"
    using ip_rx_check_ok[OF oke san, of "ip_addr (ipinfo ctx)"] unfolding v by blast
  let ?ctx = "ctx\<lparr>ipinfo := put_buf (ipinfo ctx) b f\<rparr>"
  note c1 = core_put[OF c f(2)]
  show ?thesis
  proof (cases "ip_accepts (ip_addr (ipinfo ctx)) v \<and> ip_find_proto (ip_protocols (ipinfo ctx)) (v ! 9) \<noteq> None")
    case False
    then have "ip_rx_callback ctx b = Some (ETH_DROP, ?ctx)"
      using f(1) by (auto simp: ip_rx_callback_def ctx_eth_def e_def put_buf_def set_eth_def split: option.splits)
    then show ?thesis using c1 by simp
  next
    case True
    then have acc: "ip_accepts (ip_addr (ipinfo ctx)) v" by simp
    note f4 = f(4)[OF acc]
    let ?u = "take (ip_len v - ip_hl v) (drop (ip_hl v) v)" let ?dst = "take 4 (drop 16 v)" let ?src = "take 4 (drop 12 v)"
    have lv: "length v \<le> 1506" using oke length_eb_view[OF oke] p(1) by (simp add: v eb_ok_def e_def enet_consts)
    have hl: "20 \<le> ip_hl v" using acc by (simp add: ip_accepts_def)
    have ls: "20 \<le> length v" "ip_hl v + 8 \<le> ip_len v" "ip_len v \<le> length v" using l by (simp_all add: ip_lengths_ok_def ip_sane_def)
    then have "length ?u = ip_len v - ip_hl v" by simp
    then have lu: "8 \<le> length ?u" "length ?u \<le> 1486" using lv hl ls by linarith+
    have al: "4 \<le> length ?src" "4 \<le> length ?dst" using ls by simp_all
    have b: "eth_bufpool (eth_info (ipinfo ?ctx)) b = f" by simp
    obtain cb where cb: "ip_find_proto (ip_protocols (ipinfo ctx)) (v ! 9) = Some cb" using True by blast
    consider (udp) "ip_find_proto (ip_protocols (ipinfo ctx)) (v ! 9) = Some Cb_Udp" | (icmp) "ip_find_proto (ip_protocols (ipinfo ctx)) (v ! 9) = Some Cb_Icmp"
      using cb by (cases cb) simp_all
    then show ?thesis
    proof cases
      case udp
      have rx: "ip_rx_callback ctx b = Option.bind (udp_rx_callback (udpinfo ?ctx) (ipinfo ?ctx) b ?dst ?src) (\<lambda>(res, ui, ipi). Some (res, ctx\<lparr>ipinfo := ipi, udpinfo := ui\<rparr>))"
        using f(1) acc udp by (simp add: ip_rx_callback_def ctx_eth_def e_def put_buf_def set_eth_def)
      have okb: "eb_ok (eth_bufpool (eth_info (ipinfo ?ctx)) b)" "?u = eb_view (eth_bufpool (eth_info (ipinfo ?ctx)) b)" using f4 b by simp_all
      show ?thesis
      proof (cases "udp_accepts (udpinfo ?ctx) ?src ?dst ?u")
        case None
        then obtain g where g: "udp_rx_callback (udpinfo ?ctx) (ipinfo ?ctx) b ?dst ?src = Some (ETH_DROP, udpinfo ?ctx, put_buf (ipinfo ?ctx) b g)" "length (eb_data g) = EB_DATA_SIZE"
          using udp_rx_callback_ok(1)[OF okb lu(1) al] by blast
        then show ?thesis using core_put[OF c1 g(2)] unfolding rx by simp
      next
        case (Some i)
        then obtain g where g: "udp_rx_callback (udpinfo ?ctx) (ipinfo ?ctx) b ?dst ?src = Some (ETH_KEEP, enqueued (udpinfo ?ctx) i b, put_buf (ipinfo ?ctx) b g)"
          "eb_ok g" "eb_ptr g = eb_ptr f + 8" "eb_port g = eb_port f"
          using udp_rx_callback_ok(2)[OF okb lu(1) al] unfolding b by blast
        let ?ctx2 = "?ctx\<lparr>ipinfo := put_buf (ipinfo ?ctx) b g\<rparr>"
        have c2: "net_core ?ctx2 (add_mset b R) H" using core_put[OF c1, of g] g(2) by (simp add: eb_ok_def)
        have rd: "tx_ready (eth_info (ipinfo ?ctx2)) (IPHDR_LENGTH + UDP_HDR_LENGTH) b"
          using g f4 f(3) p hl by (simp add: tx_ready_def dix_port_def e_def enet_consts ip_consts udp_consts)
        have i: "i < UDP_MAX_PORTS" "up_inuse (udpinfo ?ctx2 ! i)" using udp_accepts_range[OF Some] net_coreD(7)[OF c] by simp_all
        from core_enqueue[OF c2 rd i] show ?thesis using g(1) unfolding rx by simp
      qed
    next
      case icmp
      have rx: "ip_rx_callback ctx b = Option.bind (icmp_rx_callback (icmpinfo ?ctx) (ipinfo ?ctx) b ?dst ?src) (\<lambda>(res, icmp, ipi). Some (res, ctx\<lparr>ipinfo := ipi, icmpinfo := icmp\<rparr>))"
        using f(1) acc icmp by (simp add: ip_rx_callback_def ctx_eth_def e_def put_buf_def set_eth_def)
      have okb: "?u = eb_view (eth_bufpool (eth_info (ipinfo ?ctx)) b)" "eb_ok (eth_bufpool (eth_info (ipinfo ?ctx)) b)" using f4 b by simp_all
      have "4 \<le> length ?u" using lu by simp
      from core_icmp[OF c1 okb this lu(2) al(1), of ?dst] show ?thesis unfolding rx by auto
    qed
  qed
qed

definition rx_input_ok :: "int \<times> bytes \<Rightarrow> bool" where
  "rx_input_ok rd = (length (snd rd) \<le> ENET_MAX_PKT \<and> (fst rd \<le> 0 \<or> fst rd = int (length (snd rd)) \<and>
     (60 \<le> length (snd rd) \<longrightarrow> snd rd ! 12 = 8 \<longrightarrow> snd rd ! 13 = 0 \<longrightarrow> ip_lengths_ok (drop 14 (snd rd)))))"

lemma set_ctx_free: "set_ctx_eth ctx (eth_free (ctx_eth ctx) b) = ctx\<lparr>ipinfo := ip_free (ipinfo ctx) b\<rparr>"
  by (simp add: set_ctx_eth_def ctx_eth_def ip_free_def)

lemma set_ctx_same: "set_ctx_eth ctx (ctx_eth ctx) = ctx"
  by (simp add: set_ctx_eth_def ctx_eth_def set_eth_def)

lemma ctx_eth_set [simp]: "ctx_eth (set_ctx_eth ctx eth) = eth"
  by (simp add: set_ctx_eth_def ctx_eth_def)

lemma core_arp_rx:
  assumes c: "net_core ctx (add_mset b R) H" and ok: "eb_ok (eth_bufpool (eth_info (ipinfo ctx)) b)"
  shows "\<exists>ipi. arp_rx_callback (ipinfo ctx) b = Some (ETH_DROP, ipi) \<and> net_core (ctx\<lparr>ipinfo := ipi\<rparr>) (add_mset b R) H"
proof -
  obtain ipi out where s: "arp_rx_callback (ipinfo ctx) b = Some (ETH_DROP, ipi)" "held_step (ipinfo ctx) ipi {b} {#} out"
    using arp_rx_callback_step[OF net_coreD(1)[OF c] in_hand[OF c] ok] by blast
  have "net_core (ctx\<lparr>ipinfo := ipi\<rparr>) (add_mset b R) H" using core_held[of ctx "add_mset b R" "{#}" H ipi "{b}" out] c s(2) by simp
  then show ?thesis using s(1) by blast
qed

lemma accepts_port:
  assumes wf: "eth_wf eth" and a: "eth_accepts eth fr = Some p"
  shows "dix_port eth (int p)" "\<exists>cb. ep_rxcallback (eth_ports eth ! p) = Some cb"
  using first_port_Some[of fr "eth_ports eth" 0 p] wf a by (auto simp: eth_accepts_def dix_port_def eth_wf_def port_takes_def split: if_splits)

lemma accepts_ip:
  assumes p: "ip_portals eth" and wf: "eth_wf eth" and a: "eth_accepts eth fr = Some k" and cb: "ep_rxcallback (eth_ports eth ! k) = Some Cb_Ip"
  shows "60 \<le> length fr" "fr ! 12 = 8" "fr ! 13 = 0"
proof -
  have k: "k < length (eth_ports eth)" "port_takes fr (eth_ports eth ! k)" "60 \<le> length fr"
    using first_port_Some[of fr "eth_ports eth" 0 k] a by (auto simp: eth_accepts_def split: if_splits)
  have "take 2 (ep_proto (eth_ports eth ! k)) = [8, 0]" "length (ep_proto (eth_ports eth ! k)) = 8"
    using p wf cb k(1) by (auto simp: ip_portals_def eth_wf_def)
  then have "ep_proto (eth_ports eth ! k) ! 0 = 8" "ep_proto (eth_ports eth ! k) ! 1 = 0"
    using nth_take[of 0 2 "ep_proto (eth_ports eth ! k)"] nth_take[of 1 2 "ep_proto (eth_ports eth ! k)"] by simp_all
  then show "60 \<le> length fr" "fr ! 12 = 8" "fr ! 13 = 0" using k by (simp_all add: port_takes_def)
qed

lemma core_eth_poll:
  assumes c: "net_core ctx R H" and rd: "rx_input_ok rd"
  shows "\<exists>ctx'. eth_poll ctx inpstat rd = Some ctx' \<and> net_core ctx' R H"
proof (cases "inpstat = 0 \<or> eth_freelist (ctx_eth ctx) = []")
  case True
  then have "eth_poll ctx inpstat rd = Some ctx"
    by (auto simp: eth_poll_def eth_receive_def eth_deqfree_def set_ctx_same)
  then show ?thesis using c by blast
next
  case False
  obtain b bs where fl: "eth_freelist (ctx_eth ctx) = b # bs" using False by (cases "eth_freelist (ctx_eth ctx)") auto
  let ?eth = "(ctx_eth ctx)\<lparr>eth_freelist := bs\<rparr>"
  have wf: "eth_wf (ctx_eth ctx)" using net_coreD(1)[OF c] by (simp add: ip_wf_def ctx_eth_def)
  obtain n fr where rdp: "rd = (n, fr)" by (cases rd)
  have le: "length fr \<le> ENET_MAX_PKT" using rd by (simp add: rx_input_ok_def rdp)
  have got: "net_core (set_ctx_eth ctx (set_buf ?eth b e)) (add_mset b R) H" if "length (eb_data e) = EB_DATA_SIZE" for e
    using core_put[OF core_take[OF c fl] that] by (simp add: set_ctx_eth_def put_buf_def set_eth_def)
  have drop: "\<exists>ctx'. eth_poll ctx inpstat rd = Some ctx' \<and> net_core ctx' R H"
    if "length (eb_data e) = EB_DATA_SIZE" "eth_poll ctx inpstat rd = Some (set_ctx_eth (set_ctx_eth ctx (set_buf ?eth b e)) (eth_free (set_buf ?eth b e) b))" for e
  proof -
    have "set_ctx_eth (set_ctx_eth ctx (set_buf ?eth b e)) (eth_free (set_buf ?eth b e) b) =
        (set_ctx_eth ctx (set_buf ?eth b e))\<lparr>ipinfo := ip_free (ipinfo (set_ctx_eth ctx (set_buf ?eth b e))) b\<rparr>"
      using set_ctx_free[of "set_ctx_eth ctx (set_buf ?eth b e)" b] by simp
    then show ?thesis using core_free[OF got[OF that(1)]] that(2) by simp
  qed
  have l: "length (eb_data (eth_bufpool (ctx_eth ctx) b)) = EB_DATA_SIZE" using wf by (simp add: eth_wf_def)
  show ?thesis
  proof (cases "n \<le> 0")
    case True
    obtain e where e: "eb_store (ebuf_init_rx (eth_bufpool (ctx_eth ctx) b)) 0 fr = Some e" "length (eb_data e) = EB_DATA_SIZE"
      using l le by (auto simp: eb_store_def ebuf_init_rx_def enet_consts)
    have "eth_poll ctx inpstat rd = Some (set_ctx_eth (set_ctx_eth ctx (set_buf ?eth b e)) (eth_free (set_buf ?eth b e) b))"
      using True False e(1) fl rdp by (simp add: eth_poll_def eth_receive_def eth_deqfree_def set_ctx_eth_def set_eth_def)
    then show ?thesis using drop[OF e(2)] by blast
  next
    case False': False
    then have n: "n = int (length fr)" "fr \<noteq> []" using rd by (auto simp: rx_input_ok_def rdp)
    obtain e where e: "eth_receive (ctx_eth ctx) inpstat rd = Some (case eth_accepts (ctx_eth ctx) fr of None \<Rightarrow> Rx_Drop b | Some p \<Rightarrow> Rx_Port b p, set_buf ?eth b e)"
      "length (eb_data e) = EB_DATA_SIZE" "\<And>p. eth_accepts (ctx_eth ctx) fr = Some p \<Longrightarrow> eb_ok e \<and> eb_ptr e = 14 \<and> eb_view e = drop 14 fr \<and> eb_port e = int p"
      using eth_receive_ok[OF wf fl le n(2)] False rdp n(1) by blast
    show ?thesis
    proof (cases "eth_accepts (ctx_eth ctx) fr")
      case None
      then have "eth_poll ctx inpstat rd = Some (set_ctx_eth (set_ctx_eth ctx (set_buf ?eth b e)) (eth_free (set_buf ?eth b e) b))"
        using e(1) by (simp add: eth_poll_def)
      then show ?thesis using drop[OF e(2)] by blast
    next
      case (Some p)
      let ?ctx = "set_ctx_eth ctx (set_buf ?eth b e)"
      note ep = e(3)[OF Some]
      obtain cb where cb: "ep_rxcallback (eth_ports (ctx_eth ctx) ! p) = Some cb" using accepts_port(2)[OF wf Some] by blast
      have poll: "eth_poll ctx inpstat rd = Option.bind (eth_rxcallback (Some cb) ?ctx b) (\<lambda>(res, ctx). Some (if res = ETH_DROP then ctx\<lparr>ipinfo := ip_free (ipinfo ctx) b\<rparr> else ctx))"
        using e(1) Some cb by (simp add: eth_poll_def set_ctx_free cong: if_cong)
      have bp: "eth_bufpool (eth_info (ipinfo ?ctx)) b = e" by (simp add: set_ctx_eth_def)
      have ne: "ETH_KEEP \<noteq> ETH_DROP" by (simp add: eth_consts)
      show ?thesis
      proof (cases cb)
        case Cb_Arp
        have okb: "eb_ok (eth_bufpool (eth_info (ipinfo ?ctx)) b)" using ep bp by simp
        obtain ipi where a: "arp_rx_callback (ipinfo ?ctx) b = Some (ETH_DROP, ipi)" "net_core (?ctx\<lparr>ipinfo := ipi\<rparr>) (add_mset b R) H"
          using core_arp_rx[OF got[OF e(2)] okb] by blast
        have "eth_poll ctx inpstat rd = Some (?ctx\<lparr>ipinfo := ip_free ipi b\<rparr>)"
          unfolding poll Cb_Arp using a(1) by (simp add: eth_rxcallback_def)
        then show ?thesis using core_free[OF a(2)] by simp
      next
        case Cb_Ip
        have okb: "drop 14 fr = eb_view (eth_bufpool (eth_info (ipinfo ?ctx)) b)" "eb_ok (eth_bufpool (eth_info (ipinfo ?ctx)) b)"
          "eb_ptr (eth_bufpool (eth_info (ipinfo ?ctx)) b) = 14" "dix_port (eth_info (ipinfo ?ctx)) (eb_port (eth_bufpool (eth_info (ipinfo ?ctx)) b))"
          using ep accepts_port(1)[OF wf Some] unfolding bp by (simp_all add: set_ctx_eth_def dix_port_def)
        have "ip_lengths_ok (drop 14 fr)" using rd n accepts_ip[OF _ wf Some] net_coreD(9)[OF c] cb Cb_Ip by (simp add: rx_input_ok_def rdp ctx_eth_def)
        then obtain res ctx' where r: "ip_rx_callback ?ctx b = Some (res, ctx')" "res = ETH_DROP \<and> net_core ctx' (add_mset b R) H \<or> res = ETH_KEEP \<and> net_core ctx' R H"
          using core_ip_rx[OF got[OF e(2)] okb] by blast
        then show ?thesis unfolding poll Cb_Ip using core_free ne by (auto simp: eth_rxcallback_def)
      qed
    qed
  qed
qed

lemma core_arp_step:
  assumes c: "net_core ctx R H" and s: "arp_step (ipinfo ctx) ipi {#} out"
  shows "net_core (ctx\<lparr>ipinfo := ipi\<rparr>) R H"
  using core_held[of ctx R "{#}" H ipi "{}" out] c arp_held[OF s] by simp

lemma core_net_poll:
  assumes c: "net_core ctx R H" and rd: "rx_input_ok rd"
  shows "\<exists>ctx'. net_poll ctx (inpstat, rd, expired) = Some ctx' \<and> net_core ctx' R H"
proof -
  obtain ctx1 where p: "eth_poll ctx inpstat rd = Some ctx1" "net_core ctx1 R H" using core_eth_poll[OF c rd] by blast
  obtain t where t: "arp_table (ipinfo ctx1) = Some t" using net_coreD(1)[OF p(2)] by (auto simp: ip_wf_def split: option.splits)
  obtain ipi out where a: "arp_timer_tick (ipinfo ctx1) = Some ipi" "arp_step (ipinfo ctx1) ipi {#} out"
    using arp_timer_tick_step[OF net_coreD(1)[OF p(2)] t] by blast
  show ?thesis using p a(1) core_arp_step[OF p(2) a(2)] by (auto simp: net_poll_def ip_timer_tick_def)
qed

end
