(* ===== verification/Cfe_Net_Reach.thy ===== *)
theory Cfe_Net_Reach
  imports Cfe_Net_Inv
begin

text \<open>
  The life of the network stack: from net_init on, the application polls, allocates, fills, sends, receives and frees
  buffers, opens and closes sockets and sets addresses, in any order.
\<close>

section \<open>Set-up\<close>

lemma replicate4: "replicate 4 x = [x, x, x, x]"
  by (simp add: numeral_eq_Suc)

lemma replicate8: "replicate 8 x = x # x # replicate 6 x"
  by (simp add: numeral_eq_Suc)

lemma proto_bytes: "hi8 PROTOSPACE_ARP = 8" "lo8 PROTOSPACE_ARP = 6" "hi8 PROTOSPACE_IP = 8" "lo8 PROTOSPACE_IP = 0"
  by (simp_all add: hi8_def lo8_def arp_consts)

text \<open>Fresh memory for the buffers and the table; the device says its address.\<close>

definition init_memory :: "(nat \<Rightarrow> ebuf) \<Rightarrow> arpentry list \<Rightarrow> (int \<Rightarrow> bytes \<Rightarrow> int \<times> bytes) \<Rightarrow> bool" where
  "init_memory pool t ires = ((\<forall>b. length (eb_data (pool b)) = EB_DATA_SIZE) \<and> length t = ARP_TABLE_SIZE \<and>
     length (snd (ires IOCTL_ETHER_GETHWADDR (replicate 6 0))) = ENET_ADDR_LEN)"

definition dix_portal :: "bytes \<Rightarrow> eth_cb \<Rightarrow> int \<Rightarrow> ether_port" where
  "dix_portal pr cb dev = \<lparr>ep_dev = dev, ep_proto = pr @ replicate 6 0, ep_ptype = ETH_PTYPE_DIX, ep_mtu = 1500, ep_rxcallback = Some cb\<rparr>"

definition fresh_eth :: "int \<Rightarrow> (nat \<Rightarrow> ebuf) \<Rightarrow> ((int \<times> bytes) list \<Rightarrow> int) \<Rightarrow> (int \<Rightarrow> bytes \<Rightarrow> int \<times> bytes) \<Rightarrow> ether_info" where
  "fresh_eth handle pool wres ires = \<lparr>eth_ports = [dix_portal [8, 6] Cb_Arp handle, dix_portal [8, 0] Cb_Ip handle, zero_port, zero_port],
     eth_freelist = [0..<ETH_MAX_BUFFERS], eth_hwaddr = snd (ires IOCTL_ETHER_GETHWADDR (replicate 6 0)), eth_devhandle = handle, eth_bufpool = pool,
     dev_out = [], dev_wres = wres, dev_ioctls = [(handle, IOCTL_ETHER_GETHWADDR, replicate 6 0)], dev_ires = ires\<rparr>"

definition fresh_entry :: "arpentry \<Rightarrow> arpentry" where
  "fresh_entry ae = ae\<lparr>ae_state := ae_unused, ae_timer := 0, ae_usage := 0, ae_retries := 0, ae_permanent := False, ae_txqueue := []\<rparr>"

definition fresh_ctx :: "ether_info \<Rightarrow> arpentry list \<Rightarrow> net_ctx" where
  "fresh_ctx eth t = \<lparr>ipinfo = (zero_ipi eth)\<lparr>ip_port := 1, ip_protocols := [\<lparr>pd_protocol = 17, pd_cb = Some Cb_Udp\<rparr>, \<lparr>pd_protocol = 1, pd_cb = Some Cb_Icmp\<rparr>,
       \<lparr>pd_protocol = 0, pd_cb = None\<rparr>, \<lparr>pd_protocol = 0, pd_cb = None\<rparr>], arp_table := Some (map fresh_entry t), arp_port := 0, arp_hwaddr := take 6 (eth_hwaddr eth)\<rparr>,
     udpinfo = replicate UDP_MAX_PORTS \<lparr>up_destport = 0, up_srcport = 0, up_rxqueue = [], up_maxqueue = 0, up_inuse = False\<rparr>,
     icmpinfo = \<lparr>icmp_echoreplies = [], icmp_maxreplies = 0\<rparr>\<rparr>"

lemma net_init_fresh:
  assumes "0 \<le> handle"
  shows "net_init (handle, (True, True, True), pool, wres, ires) (True, True, Some t, True, True) = Some (0, Some (fresh_ctx (fresh_eth handle pool wres ires) t))"
  using assms
  by (simp add: net_init_def eth_init_def cfe_ioctl_def case_prod_beta ip_init_def arp_init_def Let_def zero_ipi_def eth_open_def eth_consts replicate4 replicate8 zero_port_def
      proto_bytes arp_send_gratuitous_def ip_addriszero_def udp_init_def icmp_init_def ip_register_def ip_consts fresh_ctx_def fresh_eth_def dix_portal_def
      set_eth_def fresh_entry_def eth_gethwaddr_def enet_consts)

text \<open>When the memory of the ARP table cannot be had, _arp_init returns NULL, that is 0 for success: the network is up without
  a table, and the first tick of the timer goes through the null pointer.\<close>

lemma net_init_no_table:
  assumes "0 \<le> handle"
  shows "\<exists>ctx. net_init (handle, (True, True, True), pool, wres, ires) (True, True, None, True, True) = Some (0, Some ctx) \<and> net_poll ctx (0, rd, True) = None"
  using assms
  by (simp add: net_init_def eth_init_def cfe_ioctl_def case_prod_beta ip_init_def arp_init_def Let_def zero_ipi_def eth_open_def eth_consts replicate4 replicate8 zero_port_def
      udp_init_def icmp_init_def ip_register_def ip_consts set_eth_def net_poll_def eth_poll_def eth_receive_def set_ctx_eth_def ctx_eth_def ip_timer_tick_def
      arp_timer_tick_def arp_tick_entry_def arp_consts upt_rec)

lemma fresh_inv:
  assumes m: "init_memory pool t ires"
  shows "net_inv (fresh_ctx (fresh_eth handle pool wres ires) t) {#}"
proof -
  have w: "waiting (map fresh_entry t) = []" by (simp add: waiting_def fresh_entry_def)
  have c: "count (mset [0..<ETH_MAX_BUFFERS]) x \<le> 1" for x using distinct_count_atmost_1[of "[0..<ETH_MAX_BUFFERS]"] by (metis distinct_upt le_refl zero_le)
  have "ip_wf (ipinfo (fresh_ctx (fresh_eth handle pool wres ires) t))"
    using m w c by (auto simp: ip_wf_def fresh_ctx_def fresh_eth_def eth_wf_def dix_port_def ip_bufs_def arp_ent_ok_def fresh_entry_def init_memory_def
        dix_portal_def zero_port_def ETH_MAX_PORTS_def zero_ipi_def)
  then show ?thesis using w
    by (simp add: net_inv_def net_core_def net_bufs_def ip_bufs_def fresh_ctx_def fresh_eth_def ip_addrs_ok_def zero_ipi_def udp_queued_def idle_empty_def list.pred_set ip_portals_def dix_portal_def zero_port_def)
qed

section \<open>Steps of the application\<close>

text \<open>
  A state is the context and the buffers that the application holds.  A step is a poll or a call of the program; the ping
  routine takes several, since it polls: the request is sent, a reply is taken from its queue, looked at and freed, and the
  queue is closed.  What these steps do not have is the second free of a reply that did not match, by a ping that times
  out right after it (\<open>ping_double_free\<close>).
\<close>

inductive net_step :: "net_ctx \<times> nat list \<Rightarrow> net_ctx \<times> nat list \<Rightarrow> bool" where
  step_poll: "rx_input_ok rd \<Longrightarrow> net_poll ctx (inpstat, rd, expired) = Some ctx' \<Longrightarrow> net_step (ctx, held) (ctx', held)"
| step_alloc: "udp_alloc (ipinfo ctx) = (r, ipi) \<Longrightarrow> net_step (ctx, held) (ctx\<lparr>ipinfo := ipi\<rparr>, case r of None \<Rightarrow> held | Some b \<Rightarrow> b # held)"
| step_write: "b \<in> set held \<Longrightarrow> ebuf_append_bytes (eth_bufpool (ctx_eth ctx) b) bs = Some e \<Longrightarrow>
    net_step (ctx, held) (ctx\<lparr>ipinfo := put_buf (ipinfo ctx) b e\<rparr>, held)"
| step_send: "b \<in> set held \<Longrightarrow> 4 \<le> length dst \<Longrightarrow> udp_send (udpinfo ctx) (ipinfo ctx) s b dst = Some (r, ipi) \<Longrightarrow>
    net_step (ctx, held) (ctx\<lparr>ipinfo := ipi\<rparr>, remove1 b held)"
| step_free: "b \<in> set held \<Longrightarrow> net_step (ctx, held) (ctx\<lparr>ipinfo := udp_free (ipinfo ctx) b\<rparr>, remove1 b held)"
| step_recv: "s < UDP_MAX_PORTS \<Longrightarrow> udp_recv (udpinfo ctx) s = (r, ui) \<Longrightarrow> net_step (ctx, held) (ctx\<lparr>udpinfo := ui\<rparr>, case r of None \<Rightarrow> held | Some b \<Rightarrow> b # held)"
| step_socket: "udp_socket (udpinfo ctx) ticks port = Some (r, ui) \<Longrightarrow> net_step (ctx, held) (ctx\<lparr>udpinfo := ui\<rparr>, held)"
| step_bind: "s < UDP_MAX_PORTS \<Longrightarrow> udp_bind (udpinfo ctx) s port = (r, ui) \<Longrightarrow> net_step (ctx, held) (ctx\<lparr>udpinfo := ui\<rparr>, held)"
| step_connect: "s < UDP_MAX_PORTS \<Longrightarrow> udp_connect (udpinfo ctx) s port = (r, ui) \<Longrightarrow> net_step (ctx, held) (ctx\<lparr>udpinfo := ui\<rparr>, held)"
| step_close: "s < UDP_MAX_PORTS \<Longrightarrow> udp_close (udpinfo ctx) (ipinfo ctx) s = (ui, ipi) \<Longrightarrow> net_step (ctx, held) (ctx\<lparr>ipinfo := ipi, udpinfo := ui\<rparr>, held)"
| step_param: "param \<in> {NET_IPADDR, NET_NETMASK, NET_GATEWAY, NET_NAMESERVER} \<Longrightarrow> 4 \<le> length v \<Longrightarrow> ip_setparam (ipinfo ctx) param (Some v) = Some (r, ipi) \<Longrightarrow>
    net_step (ctx, held) (ctx\<lparr>ipinfo := ipi\<rparr>, held)"
| step_hwaddr: "ENET_ADDR_LEN \<le> length v \<Longrightarrow> length (snd (dev_ires (ctx_eth ctx) IOCTL_ETHER_SETHWADDR (take ENET_ADDR_LEN v))) = ENET_ADDR_LEN \<Longrightarrow>
    ip_setparam (ipinfo ctx) NET_HWADDR (Some v) = Some (r, ipi) \<Longrightarrow> net_step (ctx, held) (ctx\<lparr>ipinfo := ipi\<rparr>, held)"
| step_devparam: "param \<in> {NET_SPEED, NET_LOOPBACK, NET_DOMAIN, NET_HOSTNAME, NET_other} \<Longrightarrow> ip_setparam (ipinfo ctx) param ptr = Some (r, ipi) \<Longrightarrow>
    net_step (ctx, held) (ctx\<lparr>ipinfo := ipi\<rparr>, held)"
| step_ping_send: "4 \<le> length dest \<Longrightarrow> icmp_ping_send ctx dest seqno len ticks = Some (ok, ctx') \<Longrightarrow> net_step (ctx, held) (ctx', held)"
| step_reply: "icmp_deqreply ctx = (Some b, ctx1) \<Longrightarrow> icmp_matches (eth_bufpool (ctx_eth ctx1) b) ident seqno = Some (ok, e) \<Longrightarrow>
    net_step (ctx, held) (ctx1\<lparr>ipinfo := ip_free (put_buf (ipinfo ctx1) b e) b\<rparr>, held)"
| step_ping_done: "net_step (ctx, held) (icmp_ping_done ctx None, held)"
| step_arp_lookup: "arp_lookup (ipinfo ctx) ip = Some (hw, ipi) \<Longrightarrow> net_step (ctx, held) (ctx\<lparr>ipinfo := ipi\<rparr>, held)"
| step_arp_add: "4 \<le> length ip \<Longrightarrow> 6 \<le> length hw \<Longrightarrow> arp_add (ipinfo ctx) ip hw = Some ipi \<Longrightarrow> net_step (ctx, held) (ctx\<lparr>ipinfo := ipi\<rparr>, held)"
| step_arp_delete: "arp_delete_ip (ipinfo ctx) ip = Some (r, ipi) \<Longrightarrow> net_step (ctx, held) (ctx\<lparr>ipinfo := ipi\<rparr>, held)"

section \<open>Each step keeps the invariant\<close>

lemma inv_poll: "net_inv ctx H \<Longrightarrow> rx_input_ok rd \<Longrightarrow> \<exists>ctx'. net_poll ctx (inpstat, rd, expired) = Some ctx' \<and> net_inv ctx' H"
  unfolding net_inv_def by (rule core_net_poll)

lemma inv_alloc:
  assumes i: "net_inv ctx H" and a: "udp_alloc (ipinfo ctx) = (r, ipi)"
  shows "net_inv (ctx\<lparr>ipinfo := ipi\<rparr>) (case r of None \<Rightarrow> H | Some b \<Rightarrow> add_mset b H)"
proof -
  have c: "net_core ctx {#} H" using i by (simp add: net_inv_def)
  show ?thesis
  proof (cases "eth_freelist (eth_info (ipinfo ctx))")
    case Nil
    then have "r = None" "ipi = ipinfo ctx" using a ip_alloc_none[OF net_coreD(1)[OF c]] by (simp_all add: udp_alloc_def)
    then show ?thesis using i by simp
  next
    case (Cons b bs)
    let ?ipi = "\<lambda>e. put_buf (set_eth (ipinfo ctx) ((eth_info (ipinfo ctx))\<lparr>eth_freelist := bs\<rparr>)) b e"
    obtain e where e: "ip_alloc (ipinfo ctx) = (Some b, ?ipi e)" "eb_ok e" "eb_ptr e = 34" "eb_view e = []" "dix_port (eth_info (ipinfo ctx)) (eb_port e)"
      "net_core (ctx\<lparr>ipinfo := ?ipi e\<rparr>) (add_mset b {#}) H"
      using core_alloc[OF c Cons] by blast
    define f where "f = ebuf_setlength (ebuf_seek e (int UDP_HDR_LENGTH)) 0"
    have f: "eb_ok f" "eb_ptr f = 42" "eb_port f = eb_port e"
      using e(2,3) by (simp_all add: f_def ebuf_setlength_def ebuf_seek_def eb_ok_def enet_consts udp_consts)
    have lf: "length (eb_data f) = EB_DATA_SIZE" using f(1) by (simp add: eb_ok_def)
    have al: "r = Some b" "ipi = put_buf (?ipi e) b f" using a e(1) by (simp_all add: udp_alloc_def f_def)
    have "tx_ready (eth_info (put_buf (?ipi e) b f)) (IPHDR_LENGTH + UDP_HDR_LENGTH) b"
      using f e(5) by (simp add: tx_ready_def dix_port_def enet_consts ip_consts udp_consts)
    then have "net_core (ctx\<lparr>ipinfo := ipi\<rparr>) {#} (add_mset b H)"
      using core_hand_ready[OF core_put[OF e(6) lf]] al(2) by simp
    then show ?thesis by (simp add: net_inv_def al(1))
  qed
qed

lemma inv_write:
  assumes i: "net_inv ctx H" and b: "b \<in># H" and a: "ebuf_append_bytes (eth_bufpool (ctx_eth ctx) b) bs = Some e"
  shows "net_inv (ctx\<lparr>ipinfo := put_buf (ipinfo ctx) b e\<rparr>) H"
proof -
  obtain H' where H: "H = add_mset b H'" using b by (metis mset_add)
  have c: "net_core ctx {#} (add_mset b H')" using i by (simp add: net_inv_def H)
  let ?e = "eth_bufpool (ctx_eth ctx) b"
  have rd: "tx_ready (eth_info (ipinfo ctx)) (IPHDR_LENGTH + UDP_HDR_LENGTH) b" using net_coreD(5)[OF c, of b] by simp
  then have ok: "eb_ok ?e" by (simp add: tx_ready_def ctx_eth_def)
  have "nat (eb_ptr ?e) + unat (eb_length ?e) + length bs \<le> EB_DATA_SIZE"
    using a ok by (auto simp: ebuf_append_bytes_def eb_store_def eb_ok_def nat_add_distrib bind_eq_Some_conv split: if_splits)
  then have e: "eb_ok e" "eb_ptr e = eb_ptr ?e" "eb_frame ?e e" using eb_append[OF ok, of bs] a by auto
  have "net_core (ctx\<lparr>ipinfo := put_buf (ipinfo ctx) b e\<rparr>) (add_mset b {#}) H'"
    using core_put[OF core_ready_hand[OF c], of e] e(1) by (simp add: eb_ok_def)
  moreover have "tx_ready (eth_info (put_buf (ipinfo ctx) b e)) (IPHDR_LENGTH + UDP_HDR_LENGTH) b"
    using rd e by (simp add: tx_ready_def ctx_eth_def eb_frame_def dix_port_def)
  ultimately show ?thesis using core_hand_ready by (fastforce simp: net_inv_def H)
qed

lemma inv_send:
  assumes i: "net_inv ctx H" and b: "b \<in># H" and d: "4 \<le> length dst"
  shows "\<exists>ipi. udp_send (udpinfo ctx) (ipinfo ctx) s b dst = Some (0, ipi) \<and> net_inv (ctx\<lparr>ipinfo := ipi\<rparr>) (H - {#b#})"
proof -
  obtain H' where H: "H = add_mset b H'" using b by (metis mset_add)
  have c: "net_core ctx {#} (add_mset b H')" using i by (simp add: net_inv_def H)
  have rd: "tx_ready (eth_info (ipinfo ctx)) (IPHDR_LENGTH + UDP_HDR_LENGTH) b" using net_coreD(5)[OF c, of b] by simp
  note c1 = core_ready_hand[OF c]
  obtain ipi out where s: "udp_send (udpinfo ctx) (ipinfo ctx) s b dst = Some (0, ipi)" "held_step (ipinfo ctx) ipi {} {#b#} out"
    using udp_send_step[OF net_coreD(1,2)[OF c] in_hand[OF c1] rd d] by blast
  have "net_core (ctx\<lparr>ipinfo := ipi\<rparr>) {#} H'" using core_held[of ctx "{#}" "{#b#}" H' ipi "{}" out] c1 s(2) by simp
  then show ?thesis using s(1) by (simp add: net_inv_def H)
qed

lemma inv_free:
  assumes i: "net_inv ctx H" and b: "b \<in># H"
  shows "net_inv (ctx\<lparr>ipinfo := udp_free (ipinfo ctx) b\<rparr>) (H - {#b#})"
proof -
  obtain H' where H: "H = add_mset b H'" using b by (metis mset_add)
  have c: "net_core ctx {#} (add_mset b H')" using i by (simp add: net_inv_def H)
  show ?thesis using core_free[OF core_ready_hand[OF c]] by (simp add: net_inv_def H udp_free_def)
qed

text \<open>Changes of one socket.\<close>

lemma queued_upd: "s < length ui \<Longrightarrow> mset (udp_queued (ui[s := u])) + mset (up_rxqueue (ui ! s)) = mset (udp_queued ui) + mset (up_rxqueue u)"
proof (induction ui arbitrary: s)
  case (Cons a ui)
  then show ?case by (cases s) (simp_all add: udp_queued_def)
qed simp

lemma inv_socket_upd:
  assumes i: "net_inv ctx H" and s: "s < UDP_MAX_PORTS" and q: "mset (up_rxqueue (udpinfo ctx ! s)) = mset (up_rxqueue u) + M"
    and e: "up_inuse u \<or> up_rxqueue u = []"
  shows "net_inv (ctx\<lparr>udpinfo := (udpinfo ctx)[s := u]\<rparr>) (H + M)"
proof -
  have c: "net_core ctx {#} H" using i by (simp add: net_inv_def)
  note d = net_coreD[OF c]
  have eq: "mset (udp_queued (udpinfo ctx)) = mset (udp_queued ((udpinfo ctx)[s := u])) + M"
    using queued_upd[of s "udpinfo ctx" u] s d(7) q by (simp add: ac_simps)
  have "net_bufs (ctx\<lparr>udpinfo := (udpinfo ctx)[s := u]\<rparr>) + (H + M) = mset [0..<ETH_MAX_BUFFERS]"
    using d(3) eq by (simp add: net_bufs_def ac_simps)
  moreover have "tx_ready (eth_info (ipinfo ctx)) (IPHDR_LENGTH + UDP_HDR_LENGTH) b" if "b \<in># mset (udp_queued ((udpinfo ctx)[s := u])) + (H + M)" for b
  proof -
    have "b \<in># mset (udp_queued (udpinfo ctx)) \<or> b \<in># H" using that unfolding eq by auto
    then show ?thesis using d(4,5) by blast
  qed
  moreover have "idle_empty ((udpinfo ctx)[s := u])" using d(8) e by (auto simp: idle_empty_def list.pred_set dest!: set_update_subset_insert[THEN subsetD])
  ultimately show ?thesis using d(1,2,6,7,9) unfolding net_inv_def net_core_def by simp
qed

lemma idle_queue: "net_inv ctx H \<Longrightarrow> s < UDP_MAX_PORTS \<Longrightarrow> up_inuse (udpinfo ctx ! s) \<or> up_rxqueue (udpinfo ctx ! s) = []"
  by (simp add: net_inv_def net_core_def idle_empty_def list_all_length)

lemma inv_recv:
  assumes i: "net_inv ctx H" and s: "s < UDP_MAX_PORTS" and r: "udp_recv (udpinfo ctx) s = (r, ui)"
  shows "net_inv (ctx\<lparr>udpinfo := ui\<rparr>) (case r of None \<Rightarrow> H | Some b \<Rightarrow> add_mset b H)"
proof (cases "up_rxqueue (udpinfo ctx ! s)")
  case Nil
  then show ?thesis using i r by (auto simp: udp_recv_def)
next
  case (Cons b bs)
  then have ui: "r = Some b" "ui = (udpinfo ctx)[s := (udpinfo ctx ! s)\<lparr>up_rxqueue := bs\<rparr>]" using r by (auto simp: udp_recv_def)
  show ?thesis using inv_socket_upd[OF i s, of "(udpinfo ctx ! s)\<lparr>up_rxqueue := bs\<rparr>" "{#b#}"] Cons idle_queue[OF i s] ui by simp
qed

lemma inv_bind:
  assumes i: "net_inv ctx H" and s: "s < UDP_MAX_PORTS"
  shows "net_inv (ctx\<lparr>udpinfo := snd (udp_bind (udpinfo ctx) s port)\<rparr>) H" "net_inv (ctx\<lparr>udpinfo := snd (udp_connect (udpinfo ctx) s port)\<rparr>) H"
  using inv_socket_upd[OF i s, of "(udpinfo ctx ! s)\<lparr>up_srcport := port\<rparr>" "{#}"] inv_socket_upd[OF i s, of "(udpinfo ctx ! s)\<lparr>up_destport := port\<rparr>" "{#}"]
    idle_queue[OF i s] i by (simp_all add: udp_bind_def udp_connect_def)

lemma udp_free_port_range:
  "udp_free_port ui idx = idx + length ui \<or> udp_free_port ui idx - idx < length ui \<and> idx \<le> udp_free_port ui idx \<and> \<not> up_inuse (ui ! (udp_free_port ui idx - idx))"
proof (induction ui arbitrary: idx)
  case (Cons u ui)
  then show ?case using Cons[of "Suc idx"] by (cases "up_inuse u") (auto simp: nth_Cons')
qed simp

lemma inv_socket:
  assumes i: "net_inv ctx H" and r: "udp_socket (udpinfo ctx) ticks port = Some (r, ui)"
  shows "net_inv (ctx\<lparr>udpinfo := ui\<rparr>) H"
proof -
  have l: "length (udpinfo ctx) = UDP_MAX_PORTS" using i by (simp add: net_inv_def net_core_def)
  define k where "k = udp_free_port (udpinfo ctx) 0"
  show ?thesis
  proof (cases "k = UDP_MAX_PORTS")
    case True
    then have "ui = udpinfo ctx" using r by (auto simp: udp_socket_def k_def bind_eq_Some_conv)
    then show ?thesis using i by simp
  next
    case False
    then have k: "k < UDP_MAX_PORTS" "\<not> up_inuse (udpinfo ctx ! k)" using udp_free_port_range[of "udpinfo ctx" 0] l by (auto simp: k_def)
    then have q: "up_rxqueue (udpinfo ctx ! k) = []" using idle_queue[OF i k(1)] by simp
    obtain p where "ui = (udpinfo ctx)[k := \<lparr>up_destport = port, up_srcport = p, up_rxqueue = [], up_maxqueue = 2, up_inuse = True\<rparr>]"
      using r False by (auto simp: udp_socket_def k_def[symmetric] bind_eq_Some_conv)
    then show ?thesis
      using inv_socket_upd[OF i k(1), of "\<lparr>up_destport = port, up_srcport = p, up_rxqueue = [], up_maxqueue = 2, up_inuse = True\<rparr>" "{#}"] q by simp
  qed
qed

lemma inv_close:
  assumes i: "net_inv ctx H" and s: "s < UDP_MAX_PORTS" and r: "udp_close (udpinfo ctx) (ipinfo ctx) s = (ui, ipi)"
  shows "net_inv (ctx\<lparr>ipinfo := ipi, udpinfo := ui\<rparr>) H"
proof -
  let ?Q = "up_rxqueue (udpinfo ctx ! s)"
  let ?u = "(udpinfo ctx ! s)\<lparr>up_rxqueue := [], up_srcport := 0, up_destport := 0, up_maxqueue := 0, up_inuse := False\<rparr>"
  let ?ctx = "ctx\<lparr>udpinfo := (udpinfo ctx)[s := ?u]\<rparr>"
  have eq: "ui = (udpinfo ctx)[s := ?u]" "ipi = set_eth (ipinfo ctx) (eth_free_all (eth_info (ipinfo ctx)) ?Q)"
    using r by (simp_all add: udp_close_def Let_def)
  have "net_inv ?ctx (H + mset ?Q)" using inv_socket_upd[OF i s, of ?u "mset ?Q"] by simp
  then have c: "net_core ?ctx (mset ?Q) H" unfolding net_inv_def net_core_def by (simp add: ac_simps)
  have wf: "ip_wf (ipinfo ctx)" using net_coreD(1)[OF c] by simp
  have new: "count (ip_bufs (ipinfo ctx) + mset ?Q) x \<le> 1" for x
  proof -
    have "count (net_bufs ?ctx + mset ?Q + H) x \<le> 1" unfolding net_coreD(3)[OF c] using distinct_count_atmost_1[of "[0..<ETH_MAX_BUFFERS]"]
      by (metis distinct_upt le_refl zero_le)
    then show ?thesis by (simp add: net_bufs_def)
  qed
  have "arp_step (ipinfo ctx) ipi (mset ?Q) []" unfolding eq(2)
    by (rule eth_only_step[OF wf, of _ "{}"]) (use wf new in \<open>simp_all add: ip_wf_def eth_same_refl\<close>)
  then have "net_core (?ctx\<lparr>ipinfo := ipi\<rparr>) {#} H" using core_held[of ?ctx "{#}" "mset ?Q" H ipi "{}" "[]"] c arp_held by simp
  moreover have "?ctx\<lparr>ipinfo := ipi\<rparr> = ctx\<lparr>ipinfo := ipi, udpinfo := (udpinfo ctx)[s := ?u]\<rparr>" by (cases ctx) simp
  ultimately show ?thesis by (simp only: net_inv_def eq(1))
qed

lemma wf_addr [simp]:
  "ip_wf (ipi\<lparr>ip_addr := a\<rparr>) = ip_wf ipi" "ip_wf (ipi\<lparr>ip_netmask := a\<rparr>) = ip_wf ipi" "ip_wf (ipi\<lparr>ip_gateway := a\<rparr>) = ip_wf ipi"
  "ip_wf (ipi\<lparr>ip_nameserver := a\<rparr>) = ip_wf ipi" "ip_bufs (ipi\<lparr>ip_addr := a\<rparr>) = ip_bufs ipi" "ip_bufs (ipi\<lparr>ip_netmask := a\<rparr>) = ip_bufs ipi"
  "ip_bufs (ipi\<lparr>ip_gateway := a\<rparr>) = ip_bufs ipi" "ip_bufs (ipi\<lparr>ip_nameserver := a\<rparr>) = ip_bufs ipi"
  by (cases "arp_table ipi"; simp add: ip_wf_def ip_bufs_def)+

lemma inv_param:
  assumes i: "net_inv ctx H" and p: "param \<in> {NET_IPADDR, NET_NETMASK, NET_GATEWAY, NET_NAMESERVER}" and v: "4 \<le> length v"
  shows "\<exists>ipi. ip_setparam (ipinfo ctx) param (Some v) = Some (0, ipi) \<and> net_inv (ctx\<lparr>ipinfo := ipi\<rparr>) H"
proof (cases "param = NET_IPADDR")
  case True
  have c: "net_core (ctx\<lparr>ipinfo := (ipinfo ctx)\<lparr>ip_addr := take 4 v\<rparr>\<rparr>) {#} H"
    using i v by (simp add: net_inv_def net_core_def net_bufs_def ip_addrs_ok_def)
  obtain ipi out where s: "arp_send_gratuitous ((ipinfo ctx)\<lparr>ip_addr := take 4 v\<rparr>) = Some ipi" "arp_step ((ipinfo ctx)\<lparr>ip_addr := take 4 v\<rparr>) ipi {#} out"
    using arp_send_gratuitous_step[of "(ipinfo ctx)\<lparr>ip_addr := take 4 v\<rparr>"] net_coreD(1)[OF c] by auto
  have "net_core (ctx\<lparr>ipinfo := ipi\<rparr>) {#} H" using core_arp_step[OF c, of ipi out] s(2) by simp
  then show ?thesis using s(1) True by (simp add: ip_setparam_def net_inv_def arp_consts)
next
  case False
  then show ?thesis using i v p by (auto simp: ip_setparam_def net_inv_def net_core_def net_bufs_def ip_addrs_ok_def arp_consts)
qed

lemma inv_arp:
  assumes i: "net_inv ctx H"
  shows "4 \<le> length ip \<Longrightarrow> 6 \<le> length hw \<Longrightarrow> \<exists>ipi. arp_add (ipinfo ctx) ip hw = Some ipi \<and> net_inv (ctx\<lparr>ipinfo := ipi\<rparr>) H"
    "\<exists>r ipi. arp_delete_ip (ipinfo ctx) ip = Some (r, ipi) \<and> net_inv (ctx\<lparr>ipinfo := ipi\<rparr>) H"
proof -
  have c: "net_core ctx {#} H" using i by (simp add: net_inv_def)
  show "\<exists>ipi. arp_add (ipinfo ctx) ip hw = Some ipi \<and> net_inv (ctx\<lparr>ipinfo := ipi\<rparr>) H" if "4 \<le> length ip" "6 \<le> length hw"
    using arp_add_step[OF net_coreD(1)[OF c], of ip hw] core_arp_step[OF c] that by (auto simp: net_inv_def arp_consts enet_consts)
  show "\<exists>r ipi. arp_delete_ip (ipinfo ctx) ip = Some (r, ipi) \<and> net_inv (ctx\<lparr>ipinfo := ipi\<rparr>) H"
    using arp_delete_ip_step[OF net_coreD(1)[OF c], of ip] core_arp_step[OF c] unfolding net_inv_def by blast
qed

text \<open>Parameters of the device and names.\<close>

lemma inv_dev:
  assumes i: "net_inv ctx H" and l: "length hw = ENET_ADDR_LEN"
  shows "net_inv (ctx\<lparr>ipinfo := set_eth (ipinfo ctx) ((eth_info (ipinfo ctx))\<lparr>dev_ioctls := x, eth_hwaddr := hw\<rparr>)\<rparr>) H"
proof -
  let ?eth = "(eth_info (ipinfo ctx))\<lparr>dev_ioctls := x, eth_hwaddr := hw\<rparr>"
  have c: "net_core ctx {#} H" using i by (simp add: net_inv_def)
  have t: "tx_ready ?eth h b = tx_ready (eth_info (ipinfo ctx)) h b" "dix_port ?eth p = dix_port (eth_info (ipinfo ctx)) p" for h b p
    by (simp_all add: tx_ready_def dix_port_def)
  have b: "ip_bufs (set_eth (ipinfo ctx) ?eth) = ip_bufs (ipinfo ctx)" by (simp add: ip_bufs_def)
  have w: "eth_wf ?eth" using net_coreD(1)[OF c] l by (simp add: ip_wf_def eth_wf_def)
  have "ip_wf (set_eth (ipinfo ctx) ?eth)" unfolding ip_wf_def b using net_coreD(1)[OF c] w t by (cases "arp_table (ipinfo ctx)") (simp_all add: ip_wf_def)
  moreover have "ip_addrs_ok (set_eth (ipinfo ctx) ?eth)" using net_coreD(2)[OF c] by (simp add: ip_addrs_ok_def set_eth_def)
  ultimately show ?thesis using net_coreD[OF c] t b by (simp add: net_inv_def net_core_def net_bufs_def ip_portals_def)
qed

lemma inv_names:
  assumes i: "net_inv ctx H"
  shows "net_inv (ctx\<lparr>ipinfo := (ipinfo ctx)\<lparr>arp_hwaddr := a\<rparr>\<rparr>) H" "net_inv (ctx\<lparr>ipinfo := (ipinfo ctx)\<lparr>ip_domain := y\<rparr>\<rparr>) H"
    "net_inv (ctx\<lparr>ipinfo := (ipinfo ctx)\<lparr>ip_hostname := y\<rparr>\<rparr>) H"
proof -
  have w: "ip_wf (ipi\<lparr>arp_hwaddr := a\<rparr>) = ip_wf ipi" "ip_wf (ipi\<lparr>ip_domain := y\<rparr>) = ip_wf ipi" "ip_wf (ipi\<lparr>ip_hostname := y\<rparr>) = ip_wf ipi"
      "ip_bufs (ipi\<lparr>arp_hwaddr := a\<rparr>) = ip_bufs ipi" "ip_bufs (ipi\<lparr>ip_domain := y\<rparr>) = ip_bufs ipi" "ip_bufs (ipi\<lparr>ip_hostname := y\<rparr>) = ip_bufs ipi" for ipi
    by (cases "arp_table ipi"; simp add: ip_wf_def ip_bufs_def)+
  show "net_inv (ctx\<lparr>ipinfo := (ipinfo ctx)\<lparr>arp_hwaddr := a\<rparr>\<rparr>) H" "net_inv (ctx\<lparr>ipinfo := (ipinfo ctx)\<lparr>ip_domain := y\<rparr>\<rparr>) H"
    "net_inv (ctx\<lparr>ipinfo := (ipinfo ctx)\<lparr>ip_hostname := y\<rparr>\<rparr>) H"
    using i by (simp_all add: net_inv_def net_core_def net_bufs_def ip_addrs_ok_def w)
qed

lemma inv_hwaddr:
  assumes i: "net_inv ctx H" and l: "length (snd (dev_ires (ctx_eth ctx) IOCTL_ETHER_SETHWADDR (take ENET_ADDR_LEN v))) = ENET_ADDR_LEN"
    and r: "ip_setparam (ipinfo ctx) NET_HWADDR (Some v) = Some (r, ipi)"
  shows "net_inv (ctx\<lparr>ipinfo := ipi\<rparr>) H"
proof -
  let ?ctx = "ctx\<lparr>ipinfo := (ipinfo ctx)\<lparr>arp_hwaddr := take ENET_ADDR_LEN v\<rparr>\<rparr>"
  let ?hw = "snd (dev_ires (ctx_eth ctx) IOCTL_ETHER_SETHWADDR (take ENET_ADDR_LEN v))"
  have "\<exists>x. ipi = set_eth (ipinfo ?ctx) ((eth_info (ipinfo ?ctx))\<lparr>dev_ioctls := x, eth_hwaddr := ?hw\<rparr>)"
    using r by (auto simp: ip_setparam_def eth_sethwaddr_def cfe_ioctl_def Let_def ctx_eth_def case_prod_beta set_eth_def)
  then show ?thesis using inv_dev[OF inv_names(1)[OF i] l] by auto
qed

lemma inv_devparam:
  assumes i: "net_inv ctx H" and p: "param \<in> {NET_SPEED, NET_LOOPBACK, NET_DOMAIN, NET_HOSTNAME, NET_other}"
    and r: "ip_setparam (ipinfo ctx) param ptr = Some (r, ipi)"
  shows "net_inv (ctx\<lparr>ipinfo := ipi\<rparr>) H"
proof -
  have l: "length (eth_hwaddr (eth_info (ipinfo ctx))) = ENET_ADDR_LEN" using i by (simp add: net_inv_def net_core_def ip_wf_def eth_wf_def)
  have "ipi = ipinfo ctx \<or> ipi = (ipinfo ctx)\<lparr>ip_domain := ptr\<rparr> \<or> ipi = (ipinfo ctx)\<lparr>ip_hostname := ptr\<rparr> \<or>
      (\<exists>x. ipi = set_eth (ipinfo ctx) ((eth_info (ipinfo ctx))\<lparr>dev_ioctls := x, eth_hwaddr := eth_hwaddr (eth_info (ipinfo ctx))\<rparr>))"
    using p r by (auto simp: ip_setparam_def eth_setspeed_def eth_setloopback_def cfe_ioctl_def Let_def case_prod_beta bind_eq_Some_conv split: prod.splits)
  then show ?thesis using i inv_dev[OF i l] inv_names(2,3)[OF i, of ptr] by auto
qed

lemma inv_arp_lookup:
  assumes i: "net_inv ctx H" and r: "arp_lookup (ipinfo ctx) ip = Some (hw, ipi)"
  shows "net_inv (ctx\<lparr>ipinfo := ipi\<rparr>) H"
proof -
  have c: "net_core ctx {#} H" using i by (simp add: net_inv_def)
  obtain t where t: "arp_table (ipinfo ctx) = Some t" using net_coreD(1)[OF c] by (auto simp: ip_wf_def split: option.splits)
  obtain f ipi' where f: "arp_find_entry (ipinfo ctx) ip = Some (f, ipi')" "arp_step (ipinfo ctx) ipi' {#} []"
    using arp_find_entry_step[OF net_coreD(1)[OF c] t, of ip] by blast
  have "ipi = ipi'" using r f(1) by (auto simp: arp_lookup_def bind_eq_Some_conv split: option.splits)
  then show ?thesis using core_arp_step[OF c f(2)] by (simp add: net_inv_def)
qed

section \<open>Ping\<close>

lemma core_icmpinfo: "icmp_echoreplies ic = icmp_echoreplies (icmpinfo ctx) \<Longrightarrow> net_core (ctx\<lparr>icmpinfo := ic\<rparr>) R H = net_core ctx R H"
  by (simp add: net_core_def net_bufs_def)

lemma core_deqreply:
  assumes c: "net_core ctx R H" and d: "icmp_deqreply ctx = (Some b, ctx')"
  shows "net_core ctx' (add_mset b R) H" "eb_ok (eth_bufpool (ctx_eth ctx') b)"
  using net_coreD[OF c] d by (auto simp: icmp_deqreply_def net_core_def net_bufs_def ctx_eth_def split: list.splits)

lemma icmp_matches_data: "icmp_matches e ident seqno = Some (ok, e') \<Longrightarrow> eb_data e' = eb_data e"
  by (auto simp: icmp_matches_def ebuf_get_u16_be_def ebuf_skip_def bind_eq_Some_conv split: if_splits)

lemma inv_reply:
  assumes i: "net_inv ctx H" and d: "icmp_deqreply ctx = (Some b, ctx1)" and m: "icmp_matches (eth_bufpool (ctx_eth ctx1) b) ident seqno = Some (ok, e)"
  shows "net_inv (ctx1\<lparr>ipinfo := ip_free (put_buf (ipinfo ctx1) b e) b\<rparr>) H"
proof -
  have c: "net_core ctx1 {#b#} H" using core_deqreply(1)[of ctx "{#}" H b ctx1] i d by (simp add: net_inv_def)
  have "length (eb_data e) = EB_DATA_SIZE"
    using icmp_matches_data[OF m] net_coreD(1)[OF c] by (simp add: ip_wf_def eth_wf_def ctx_eth_def)
  then have "net_core (ctx1\<lparr>ipinfo := put_buf (ipinfo ctx1) b e\<rparr>) {#b#} H" using core_put c by simp
  from core_free[OF this] show ?thesis by (simp add: net_inv_def)
qed

text \<open>What is built in a buffer stays in it, when the model has not left its memory.\<close>

definition eb_grown :: "ebuf \<Rightarrow> ebuf \<Rightarrow> bool" where "eb_grown e e' = (eb_ok e \<longrightarrow> eb_ok e' \<and> eb_ptr e' = eb_ptr e \<and> eb_port e' = eb_port e)"

lemma eb_grown_trans: "eb_grown e f \<Longrightarrow> eb_grown f g \<Longrightarrow> eb_grown e g"
  by (auto simp: eb_grown_def)

lemma append_u8_grown: "ebuf_append_u8 e x = Some e' \<Longrightarrow> eb_grown e e'"
proof -
  assume a: "ebuf_append_u8 e x = Some e'"
  show ?thesis unfolding eb_grown_def
  proof
    assume ok: "eb_ok e"
    have "nat (eb_ptr e) + unat (eb_length e) + length [x] \<le> EB_DATA_SIZE"
      using a ok by (auto simp: ebuf_append_u8_def eb_store_def eb_ok_def nat_add_distrib bind_eq_Some_conv split: if_splits)
    then show "eb_ok e' \<and> eb_ptr e' = eb_ptr e \<and> eb_port e' = eb_port e" using eb_append[OF ok, of "[x]"] a by (auto simp: append_u8_bytes eb_frame_def)
  qed
qed

lemma append_u16_grown: "ebuf_append_u16_be e x = Some e' \<Longrightarrow> eb_grown e e'"
  by (auto simp: ebuf_append_u16_be_def bind_eq_Some_conv dest!: append_u8_grown intro: eb_grown_trans)

lemma append_data_grown: "append_data e idx n = Some e' \<Longrightarrow> eb_grown e e'"
proof (induction n arbitrary: e idx)
  case 0
  then show ?case by (simp add: eb_grown_def)
next
  case (Suc n)
  then obtain f where f: "ebuf_append_u8 e (of_nat (idx + 0x40)) = Some f" "append_data f (idx + 1) n = Some e'" by (auto simp: bind_eq_Some_conv)
  show ?case by (rule eb_grown_trans[OF append_u8_grown[OF f(1)] Suc.IH[OF f(2)]])
qed

lemma store_grown: "eb_store e off xs = Some e' \<Longrightarrow> eb_grown e e'"
  by (auto simp: eb_store_def eb_grown_def eb_ok_def split: if_splits)

lemma request_ok:
  assumes "eb_ok e" "icmp_request e ident seqno len = Some e'"
  shows "eb_ok e' \<and> eb_ptr e' = eb_ptr e \<and> eb_port e' = eb_port e"
proof -
  from assms(2) have "eb_grown e e'"
    by (auto simp: icmp_request_def Let_def bind_eq_Some_conv dest!: append_u8_grown append_u16_grown append_data_grown store_grown) (simp add: eb_grown_def)
  then show ?thesis using assms(1) by (simp add: eb_grown_def)
qed

lemma inv_ping_send:
  assumes i: "net_inv ctx H" and d: "4 \<le> length dest" and r: "icmp_ping_send ctx dest seqno len ticks = Some (ok, ctx')"
  shows "net_inv ctx' H"
proof -
  have c: "net_core ctx {#} H" using i by (simp add: net_inv_def)
  show ?thesis
  proof (cases "eth_freelist (eth_info (ipinfo ctx))")
    case Nil
    then have "ctx' = ctx" using r ip_alloc_none[OF net_coreD(1)[OF c]] by (simp add: icmp_ping_send_def)
    then show ?thesis using i by simp
  next
    case (Cons b bs)
    let ?ipi = "\<lambda>e. put_buf (set_eth (ipinfo ctx) ((eth_info (ipinfo ctx))\<lparr>eth_freelist := bs\<rparr>)) b e"
    obtain e where e: "ip_alloc (ipinfo ctx) = (Some b, ?ipi e)" "eb_ok e" "eb_ptr e = 34" "dix_port (eth_info (ipinfo ctx)) (eb_port e)"
      "net_core (ctx\<lparr>ipinfo := ?ipi e\<rparr>) (add_mset b {#}) H"
      using core_alloc[OF c Cons] by blast
    obtain f where f: "icmp_request e ticks seqno len = Some f" using r e(1) by (auto simp: icmp_ping_send_def bind_eq_Some_conv)
    have f': "eb_ok f" "eb_ptr f = 34" "eb_port f = eb_port e" using request_ok[OF e(2) f] e(3) by simp_all
    have c1: "net_core (ctx\<lparr>ipinfo := put_buf (?ipi e) b f\<rparr>) (add_mset b {#}) H" using core_put[OF e(5), of f] f'(1) by (simp add: eb_ok_def)
    have rd: "tx_ready (eth_info (ipinfo (ctx\<lparr>ipinfo := put_buf (?ipi e) b f\<rparr>))) IPHDR_LENGTH b"
      using f' e(4) by (simp add: tx_ready_def dix_port_def enet_consts ip_consts)
    obtain ipi where s: "ip_send (put_buf (?ipi e) b f) b dest IPPROTO_ICMP = Some (0, ipi)" "net_core (ctx\<lparr>ipinfo := ipi\<rparr>) {#} H"
      using core_ip_send[OF c1 rd d, of IPPROTO_ICMP] by auto
    have "ctx' = ctx\<lparr>ipinfo := ipi, icmpinfo := (icmpinfo ctx)\<lparr>icmp_maxreplies := 1\<rparr>\<rparr>" using r e(1) f s(1) by (simp add: icmp_ping_send_def)
    then show ?thesis using s(2) core_icmpinfo[of "(icmpinfo ctx)\<lparr>icmp_maxreplies := 1\<rparr>" "ctx\<lparr>ipinfo := ipi\<rparr>" "{#}" H] by (simp add: net_inv_def)
  qed
qed

section \<open>All of life\<close>

lemma step_inv:
  assumes st: "net_step (ctx, held) (ctx', held')" and i: "net_inv ctx (mset held)"
  shows "net_inv ctx' (mset held')"
  using st
proof (cases rule: net_step.cases)
  case (step_poll rd inpstat expired)
  then show ?thesis using inv_poll[OF i, of rd inpstat expired] by auto
next
  case step_alloc
  then show ?thesis using inv_alloc[OF i] by (force split: option.splits)
next
  case step_write
  then show ?thesis using inv_write[OF i] by auto
next
  case (step_send b dst s r ipi)
  then show ?thesis using inv_send[OF i, of b dst s] by auto
next
  case step_free
  then show ?thesis using inv_free[OF i] by auto
next
  case step_recv
  then show ?thesis using inv_recv[OF i] by (force split: option.splits)
next
  case step_socket
  then show ?thesis using inv_socket[OF i] by auto
next
  case (step_bind s port r ui)
  then show ?thesis using inv_bind(1)[OF i, of s port] by auto
next
  case (step_connect s port r ui)
  then show ?thesis using inv_bind(2)[OF i, of s port] by auto
next
  case step_close
  then show ?thesis using inv_close[OF i] by auto
next
  case (step_param param v r ipi)
  then show ?thesis using inv_param[OF i, of param v] by auto
next
  case step_hwaddr
  then show ?thesis using inv_hwaddr[OF i] by auto
next
  case step_devparam
  then show ?thesis using inv_devparam[OF i] by blast
next
  case step_ping_send
  then show ?thesis using inv_ping_send[OF i] by auto
next
  case step_reply
  then show ?thesis using inv_reply[OF i] by auto
next
  case step_ping_done
  then show ?thesis using i by (simp add: icmp_ping_done_def net_inv_def core_icmpinfo)
next
  case step_arp_lookup
  then show ?thesis using inv_arp_lookup[OF i] by auto
next
  case (step_arp_add ip hw ipi)
  then show ?thesis using inv_arp(1)[OF i, of ip hw] by auto
next
  case (step_arp_delete ip r ipi)
  then show ?thesis using inv_arp(2)[OF i, of ip] by auto
qed

lemma reach_inv: "net_step\<^sup>*\<^sup>* (ctx, held) (ctx', held') \<Longrightarrow> net_inv ctx (mset held) \<Longrightarrow> net_inv ctx' (mset held')"
proof (induction rule: rtranclp_induct2)
  case (step a b c d)
  then show ?case using step_inv by blast
qed

text \<open>A ping is made of these steps, unless it ends by the timer with a buffer still in its variable.\<close>

lemma ping_done_reply:
  "icmp_ping_done (ctx\<lparr>ipinfo := put_buf (ipinfo ctx) b e\<rparr>) (Some b) = icmp_ping_done (ctx\<lparr>ipinfo := ip_free (put_buf (ipinfo ctx) b e) b\<rparr>) None"
  by (simp add: icmp_ping_done_def)

lemma ping_loop_reach:
  "list_all (\<lambda>p. rx_input_ok (fst (snd p))) ps \<Longrightarrow> icmp_ping_loop ctx ident seqno buf ps = Some (result, buf', ctx') \<Longrightarrow> result = 1 \<or> buf' = None \<Longrightarrow>
   net_step\<^sup>*\<^sup>* (ctx, held) (icmp_ping_done ctx' buf', held)"
proof (induction ps arbitrary: ctx buf)
  case Nil
  then show ?case using step_ping_done[of ctx held] by auto
next
  case (Cons p ps)
  obtain inpstat rd expired where p: "p = (inpstat, rd, expired)" by (metis prod_cases3)
  obtain ctx1 where poll: "net_poll ctx p = Some ctx1" using Cons.prems(2) by (auto simp: bind_eq_Some_conv)
  have s1: "net_step (ctx, held) (ctx1, held)" using step_poll[of rd ctx inpstat expired ctx1 held] Cons.prems(1) poll by (simp add: p)
  obtain r ctx2 where d: "icmp_deqreply ctx1 = (r, ctx2)" by fastforce
  show ?case
  proof (cases r)
    case None
    then have "ctx2 = ctx1" using d by (auto simp: icmp_deqreply_def split: list.splits)
    then have "net_step\<^sup>*\<^sup>* (ctx1, held) (icmp_ping_done ctx' buf', held)" using Cons.IH[of ctx1 None] Cons.prems poll d None by simp
    then show ?thesis using s1 by (rule converse_rtranclp_into_rtranclp[rotated])
  next
    case (Some b)
    obtain ok e where m: "icmp_matches (eth_bufpool (ctx_eth ctx2) b) ident seqno = Some (ok, e)"
      using Cons.prems(2) poll d Some by (auto simp: bind_eq_Some_conv)
    let ?ctx = "ctx2\<lparr>ipinfo := ip_free (put_buf (ipinfo ctx2) b e) b\<rparr>"
    have s2: "net_step (ctx1, held) (?ctx, held)" using step_reply[OF d[unfolded Some] m] .
    have "net_step\<^sup>*\<^sup>* (?ctx, held) (icmp_ping_done ctx' buf', held)"
    proof (cases ok)
      case True
      then have "ctx' = ctx2\<lparr>ipinfo := put_buf (ipinfo ctx2) b e\<rparr>" "buf' = Some b" using Cons.prems(2) poll d Some m by auto
      then show ?thesis using step_ping_done[of ?ctx held] by (simp add: ping_done_reply r_into_rtranclp)
    next
      case False
      then show ?thesis using Cons.IH[of ?ctx "Some b"] Cons.prems poll d Some m by (simp add: Let_def)
    qed
    then show ?thesis using s1 s2 by (meson converse_rtranclp_into_rtranclp)
  qed
qed

lemma ping_loop_result: "icmp_ping_loop ctx ident seqno buf ps = Some (result, buf', ctx') \<Longrightarrow> result = 1 \<or> result = 0"
proof (induction ps arbitrary: ctx buf)
  case (Cons p ps)
  obtain ctx1 where poll: "net_poll ctx p = Some ctx1" using Cons.prems by (auto simp: bind_eq_Some_conv)
  obtain r ctx2 where d: "icmp_deqreply ctx1 = (r, ctx2)" by fastforce
  show ?case
  proof (cases r)
    case None
    then show ?thesis using Cons.IH[of ctx2 None] Cons.prems poll d by simp
  next
    case (Some b)
    then show ?thesis using Cons.IH Cons.prems poll d by (auto simp: bind_eq_Some_conv Let_def split: if_splits)
  qed
qed simp

lemma ping_reach:
  assumes d: "4 \<le> length dest" and ps: "list_all (\<lambda>p. rx_input_ok (fst (snd p))) ps" and r: "icmp_ping ctx dest seqno len ticks ps = Some (r, ctx')"
    and ok: "\<And>ctx1 ctx2 b. icmp_ping_send ctx dest seqno len ticks = Some (True, ctx1) \<Longrightarrow> icmp_ping_loop ctx1 ticks seqno None ps \<noteq> Some (0, Some b, ctx2)"
  shows "net_step\<^sup>*\<^sup>* (ctx, held) (ctx', held)"
proof -
  obtain go ctx1 where s: "icmp_ping_send ctx dest seqno len ticks = Some (go, ctx1)" using r by (auto simp: icmp_ping_def bind_eq_Some_conv)
  have s1: "net_step (ctx, held) (ctx1, held)" by (rule step_ping_send[OF d s])
  show ?thesis
  proof (cases go)
    case True
    then obtain buf ctx2 where l: "icmp_ping_loop ctx1 ticks seqno None ps = Some (r, buf, ctx2)" "ctx' = icmp_ping_done ctx2 buf"
      using r s by (auto simp: icmp_ping_def bind_eq_Some_conv)
    have "r = 1 \<or> r = 0" using ping_loop_result[OF l(1)] .
    then have "r = 1 \<or> buf = None" using ok[of ctx1] s True l(1) by (cases buf) auto
    from ping_loop_reach[OF ps l(1) this] show ?thesis using s1 l(2) by (meson converse_rtranclp_into_rtranclp)
  next
    case False
    then show ?thesis using r s s1 by (auto simp: icmp_ping_def)
  qed
qed

text \<open>The buffers of a state, from first to last place.\<close>

definition net_places :: "net_ctx \<times> nat list \<Rightarrow> nat list" where
  "net_places st = (case st of (ctx, held) \<Rightarrow> eth_freelist (ctx_eth ctx) @ waiting (the (arp_table (ipinfo ctx))) @ udp_queued (udpinfo ctx) @
     icmp_echoreplies (icmpinfo ctx) @ held)"

end
