(* ===== verification/Cfe_Net_Props.thy ===== *)
theory Cfe_Net_Props
  imports Cfe_Net_Reach
begin

text \<open>
  The properties of the boot loader's network stack, each with an instance on a small machine.
\<close>

section \<open>Example machines\<close>

definition zero_buf :: "int \<Rightarrow> int \<Rightarrow> bytes \<Rightarrow> ebuf" where
  "zero_buf port p bs = \<lparr>eb_length = of_nat (length bs), eb_status = 0, eb_port = port, eb_usrdata = 0, eb_usrptr = Usr_null, eb_ptr = p,
     eb_data = replicate (nat p) 0 @ bs @ replicate (1520 - nat p - length bs) 0\<rparr>"

definition zero_entry :: arpentry where
  "zero_entry = \<lparr>ae_state = ae_unused, ae_usage = 0, ae_timer = 0, ae_retries = 0, ae_permanent = False, ae_ipaddr = replicate 4 0, ae_ethaddr = replicate 6 0, ae_txqueue = []\<rparr>"

definition ex_ires :: "int \<Rightarrow> bytes \<Rightarrow> int \<times> bytes" where "ex_ires cmd buf = (0, [2, 0, 0, 0, 0, 1])"

definition ex_ctx :: net_ctx where "ex_ctx = fresh_ctx (fresh_eth 0 (\<lambda>_. zero_buf 0 0 []) (\<lambda>_. 0) ex_ires) (replicate 8 zero_entry)"

lemma zero_buf_ok: "0 \<le> p \<Longrightarrow> nat p + length bs \<le> 1520 \<Longrightarrow> length (eb_data (zero_buf port p bs)) = EB_DATA_SIZE"
  by (simp add: zero_buf_def enet_consts)

lemma ex_memory: "init_memory (\<lambda>_. zero_buf 0 0 []) (replicate 8 zero_entry) ex_ires"
  by (simp add: init_memory_def zero_buf_ok arp_consts ex_ires_def enet_consts)


lemma ex_inv: "net_inv ex_ctx {#}"
  unfolding ex_ctx_def by (rule fresh_inv[OF ex_memory])

section \<open>Buffers\<close>



section \<open>Sockets\<close>

text \<open>The ports that are tried run through the 4097 numbers from 1024 on.\<close>

definition next_port :: "u16 \<Rightarrow> u16" where "next_port p = (if p + 1 > UDP_PORTBASE + 4096 then UDP_PORTBASE else p + 1)"

lemma unat_of_nat16: "n < 2 ^ 16 \<Longrightarrow> unat (of_nat n :: u16) = n"
  by (simp add: unsigned_of_nat take_bit_nat_eq_self)

lemma next_port_num: "n < 4097 \<Longrightarrow> next_port (of_nat (1024 + n)) = of_nat (1024 + (n + 1) mod 4097)"
proof -
  assume n: "n < 4097"
  have b: "UDP_PORTBASE + 4096 = 5120" by (simp add: udp_consts)
  have s: "of_nat (1024 + n) + 1 = (of_nat (1025 + n) :: u16)" by simp
  have l: "(5120 :: u16) < of_nat (1025 + n) \<longleftrightarrow> n = 4096"
  proof -
    have "unat (of_nat (1025 + n) :: u16) = 1025 + n" using n by (intro unat_of_nat16) simp
    then have "(5120 :: u16) < of_nat (1025 + n) \<longleftrightarrow> 5120 < 1025 + n" unfolding word_less_nat_alt by simp
    then show ?thesis using n by auto
  qed
  show ?thesis unfolding next_port_def b s l using n by (simp add: udp_consts)
qed

lemma next_port_iter: "n < 4097 \<Longrightarrow> (next_port ^^ k) (of_nat (1024 + n)) = of_nat (1024 + (n + k) mod 4097)"
proof (induction k)
  case (Suc k)
  then show ?case using next_port_num[of "(n + k) mod 4097"] by (simp add: mod_Suc_eq)
qed simp

lemma udp_pick_port_found: "udp_find_port ui ((next_port ^^ k) p) = None \<Longrightarrow> \<exists>k. udp_pick_port ui p = Some ((next_port ^^ k) p) \<and> udp_find_port ui ((next_port ^^ k) p) = None"
proof (induction k arbitrary: p)
  case 0
  then show ?case by (subst udp_pick_port.simps) (auto intro!: exI[of _ 0])
next
  case (Suc k)
  show ?case
  proof (cases "udp_find_port ui p")
    case None
    then show ?thesis by (subst udp_pick_port.simps) (auto intro!: exI[of _ 0])
  next
    case (Some i)
    obtain j where "udp_pick_port ui (next_port p) = Some ((next_port ^^ j) (next_port p))" "udp_find_port ui ((next_port ^^ j) (next_port p)) = None"
      using Suc.IH[of "next_port p"] Suc.prems by (auto simp: funpow_swap1)
    then show ?thesis using Some by (subst udp_pick_port.simps) (auto simp: Let_def next_port_def[symmetric] funpow_swap1 intro!: exI[of _ "Suc j"])
  qed
qed

lemma udp_find_port_None: "udp_find_port ui p = None \<longleftrightarrow> (\<forall>u \<in> set ui. \<not> (up_inuse u \<and> up_srcport u = p))"
proof -
  have "udp_find_port_loop ui p idx = None \<longleftrightarrow> (\<forall>u \<in> set ui. \<not> (up_inuse u \<and> up_srcport u = p))" for idx
    by (induction ui arbitrary: idx) auto
  then show ?thesis by (simp add: udp_find_port_def)
qed

definition ports_distinct :: "udp_info \<Rightarrow> bool" where "ports_distinct ui = distinct (map up_srcport (filter up_inuse ui))"

lemma fresh_port:
  assumes "length ui \<le> UDP_MAX_PORTS" "n < 4097"
  shows "\<exists>p. udp_pick_port ui (of_nat (1024 + n)) = Some p \<and> udp_find_port ui p = None"
proof -
  let ?f = "\<lambda>k. (next_port ^^ k) (of_nat (1024 + n))" let ?used = "set (map up_srcport ui)"
  have inj: "inj_on ?f {..<5}"
  proof (rule inj_onI)
    fix i j :: nat assume ij: "i \<in> {..<5}" "j \<in> {..<5}" "?f i = ?f j"
    have "unat (?f k) = 1024 + (n + k) mod 4097" for k
    proof -
      have "(n + k) mod 4097 < 4097" by simp
      then have "1024 + (n + k) mod 4097 < 2 ^ 16" by simp
      then show ?thesis unfolding next_port_iter[OF assms(2)] by (rule unat_of_nat16)
    qed
    then have "(n + i) mod 4097 = (n + j) mod 4097" using ij(3) by (metis add_left_cancel)
    then have "i mod 4097 = j mod 4097" by (simp add: mod_eq_dvd_iff_nat nat_mod_eq_iff)
    then show "i = j" using ij by simp
  qed
  have "\<not> ?f ` {..<5} \<subseteq> ?used"
  proof
    assume "?f ` {..<5} \<subseteq> ?used"
    then have "card (?f ` {..<5}) \<le> card ?used" by (intro card_mono) auto
    also have "\<dots> \<le> 4" using card_length[of "map up_srcport ui"] assms(1) by (simp add: udp_consts)
    finally show False using card_image[OF inj] by simp
  qed
  then obtain k where "?f k \<notin> ?used" by auto
  then have "udp_find_port ui (?f k) = None" unfolding udp_find_port_None by (metis image_eqI set_map)
  from udp_pick_port_found[OF this] show ?thesis by blast
qed

text \<open>C15: the search of udp_socket for a free source port always ends, whatever the cycle counter says: with at most four sockets
  one of five consecutive ports is free.  The new socket's port is used by no other one, so the ports of the sockets in use stay
  distinct; without a free socket the error is reported and nothing changes.\<close>

theorem udp_socket_ends:
  assumes "length ui = UDP_MAX_PORTS" "ports_distinct ui"
  shows "\<exists>r ui'. udp_socket ui ticks port = Some (r, ui') \<and> ports_distinct ui' \<and>
    (if list_all up_inuse ui then r = CFE_ERR_NOHANDLES \<and> ui' = ui
     else \<exists>i p. r = int i \<and> i < length ui \<and> \<not> up_inuse (ui ! i) \<and> udp_find_port ui p = None \<and>
       ui' = ui[i := \<lparr>up_destport = port, up_srcport = p, up_rxqueue = [], up_maxqueue = 2, up_inuse = True\<rparr>])"
proof -
  define n where "n = unat (ticks AND 0xFFF)"
  have n: "n < 4097"
  proof -
    have "ticks AND 0xFFF \<le> 0xFFF" by (rule word_and_le1)
    then show ?thesis by (simp add: n_def word_le_nat_alt)
  qed
  have "UDP_PORTBASE + ucast (ticks AND 0xFFF) = (of_nat (1024 + n) :: u16)" by (simp add: n_def udp_consts)
  then obtain p where p: "udp_pick_port ui (UDP_PORTBASE + ucast (ticks AND 0xFFF)) = Some p" "udp_find_port ui p = None"
    using fresh_port[of ui n] assms(1) n by auto
  let ?i = "udp_free_port ui 0" let ?u = "\<lparr>up_destport = port, up_srcport = p, up_rxqueue = [], up_maxqueue = 2, up_inuse = True\<rparr>"
  show ?thesis
  proof (cases "?i = UDP_MAX_PORTS")
    case True
    have all: "udp_free_port ui k = k + length ui \<Longrightarrow> list_all up_inuse ui" for k
    proof (induction ui arbitrary: k)
      case (Cons u ui)
      then show ?case using Cons.IH[of "k + 1"] by (cases "up_inuse u") simp_all
    qed simp
    have "list_all up_inuse ui" using all[of 0] True assms(1) by simp
    then show ?thesis using True p(1) assms(2) by (simp add: udp_socket_def)
  next
    case False
    then have i: "?i < length ui" "\<not> up_inuse (ui ! ?i)" using udp_free_port_range[of ui 0] assms(1) by auto
    have "ports_distinct (ui[?i := ?u])"
    proof -
      have eq: "ui = take ?i ui @ ui ! ?i # drop (Suc ?i) ui" "ui[?i := ?u] = take ?i ui @ ?u # drop (Suc ?i) ui"
        using i(1) by (simp_all add: id_take_nth_drop upd_conv_take_nth_drop)
      have "filter up_inuse ui = filter up_inuse (take ?i ui) @ filter up_inuse (drop (Suc ?i) ui)"
        using i(2) by (subst eq(1)) simp
      moreover have "p \<notin> up_srcport ` set (filter up_inuse ui)" using p(2) by (auto simp: udp_find_port_None)
      ultimately show ?thesis using assms(2) by (subst eq(2)) (simp add: ports_distinct_def image_Un)
    qed
    moreover have "\<not> list_all up_inuse ui" using i by (auto simp: list_all_length)
    ultimately show ?thesis using False i p by (auto simp: udp_socket_def Let_def)
  qed
qed

lemma udp_socket_ends_witness:
  "\<exists>r ui'. udp_socket (udpinfo ex_ctx) 5 53 = Some (r, ui') \<and> ports_distinct ui'"
proof -
  have "length (udpinfo ex_ctx) = UDP_MAX_PORTS" "ports_distinct (udpinfo ex_ctx)" by (simp_all add: ex_ctx_def fresh_ctx_def ports_distinct_def)
  from udp_socket_ends[OF this, of 5 53] show ?thesis by blast
qed

section \<open>Datagrams\<close>

text \<open>C2: a datagram that a socket sends to a direct neighbour, for whose address the ARP table has an established entry, is
  written to the driver in one frame at once; and when this frame, with padding so that it has 60 to 1514 bytes, reaches a
  machine with that address that has a free buffer and a socket on the destination port with room in its queue, the poll
  routine of that machine takes it: the buffer at the end of the queue of the socket holds exactly the payload, and the source
  port of the sender.  (The source address is not part of this: the receiver keeps only a pointer into a stack frame that is
  gone.)\<close>

theorem udp_socket_to_socket:
  assumes wf: "ip_wf ipi" and ao: "ip_addrs_ok ipi" and b: "b \<notin># ip_bufs ipi" and rd: "tx_ready (eth_info ipi) (IPHDR_LENGTH + UDP_HDR_LENGTH) b"
    and d: "length dst = 4" "ip_direct ipi dst" and t: "arp_table ipi = Some t" and f: "arp_find_idx t dst 0 = Some k" "ae_state (t ! k) = ae_established"
    and port: "take 2 (ep_proto (eth_ports (eth_info ipi) ! nat (eb_port (eth_bufpool (eth_info ipi) b)))) = [8, 0]"
    and hw: "eth_hwaddr (eth_info ipi) ! 0 AND 1 = 0"
    and lis: "net_listens ctx (up_destport (ui ! s)) i" "ip_addr (ipinfo ctx) = dst"
    and len: "60 \<le> length (eb_view (eth_bufpool (eth_info ipi) b)) + length pad + 42" "length (eb_view (eth_bufpool (eth_info ipi) b)) + length pad + 42 \<le> ENET_MAX_PKT"
    and st: "inpstat \<noteq> 0"
  shows "\<exists>ipi' dev fr ctx' c. udp_send ui ipi s b dst = Some (0, ipi') \<and> dev_out (eth_info ipi') = dev_out (eth_info ipi) @ [(dev, fr)] \<and>
    eth_poll ctx inpstat (int (length (fr @ pad)), fr @ pad) = Some ctx' \<and>
    up_rxqueue (udpinfo ctx' ! i) = up_rxqueue (udpinfo ctx ! i) @ [c] \<and>
    eb_view (eth_bufpool (ctx_eth ctx') c) = eb_view (eth_bufpool (eth_info ipi) b) \<and>
    eb_usrdata (eth_bufpool (ctx_eth ctx') c) = uint (up_srcport (ui ! s))"
proof -
  let ?pl = "eb_view (eth_bufpool (eth_info ipi) b)"
  have a4: "length (ip_addr ipi) = 4" using ao by (simp add: ip_addrs_ok_def)
  have "k < length t" "t ! k \<in> set t" using arp_find_idx_Some[OF f(1)] by auto
  then have "arp_ent_ok (t ! k)" using wf t by (simp add: ip_wf_def)
  then have l6: "6 \<le> length (ae_ethaddr (t ! k))" "length (eth_hwaddr (eth_info ipi)) = 6"
    using wf f(2) by (simp_all add: ip_wf_def eth_wf_def arp_ent_ok_def enet_consts)
  define fr where "fr = ip_frame (ae_ethaddr (t ! k)) (eth_hwaddr (eth_info ipi))
      (ip_hdr (ip_id ipi + 1) (length ?pl + 28) IPPROTO_UDP (ip_addr ipi) dst @ udp_pkt (up_srcport (ui ! s)) (up_destport (ui ! s)) (ip_addr ipi) dst ?pl)"
  obtain ipi' dev where s: "udp_send ui ipi s b dst = Some (0, ipi')" "dev_out (eth_info ipi') = dev_out (eth_info ipi) @ [(dev, fr)]"
    using udp_send_frame[OF wf ao b rd d t f] unfolding port fr_def ip_frame_def enet_consts by fastforce
  have lf: "length (fr @ pad) = length ?pl + length pad + 42"
    using l6 ip_hdr_parts(1)[OF a4 d(1)] by (simp add: fr_def ip_frame_def length_udp_pkt)
  have "up_rxqueue (enqueued (udpinfo ctx) i c ! i) = up_rxqueue (udpinfo ctx ! i) @ [c]" for c
  proof -
    have "i < length (udpinfo ctx)" using lis(1) udp_find_port_range by (auto simp: net_listens_def)
    then show ?thesis by (simp add: enqueued_def)
  qed
  moreover obtain ctx' c where r: "eth_poll ctx inpstat (int (length (fr @ pad)), fr @ pad) = Some ctx'" "udpinfo ctx' = enqueued (udpinfo ctx) i c"
    "eb_view (eth_bufpool (ctx_eth ctx') c) = ?pl" "eb_usrdata (eth_bufpool (ctx_eth ctx') c) = uint (up_srcport (ui ! s))"
    using udp_frame_received[OF lis a4 d(1) l6(1) l6(2) hw arg_cong2[where f = "(@)", OF fr_def refl[of pad]] _ _ st] len unfolding lf by blast
  ultimately show ?thesis using s by metis
qed

text \<open>The sender has the address 10.0.0.1 and knows its neighbour 10.0.0.2, which listens on port 69.\<close>

definition ex_neighbour :: arpentry where
  "ex_neighbour = zero_entry\<lparr>ae_state := ae_established, ae_timer := 60, ae_ipaddr := [10, 0, 0, 2], ae_ethaddr := [2, 0, 0, 0, 0, 2]\<rparr>"

definition ex_sender :: ip_info where
  "ex_sender = (ipinfo (fresh_ctx ((fresh_eth 0 (\<lambda>b. if b = 0 then zero_buf 1 42 [1, 2, 3] else zero_buf 0 0 []) (\<lambda>_. 0) ex_ires)\<lparr>eth_freelist := [1..<8]\<rparr>)
     (replicate 8 zero_entry)))\<lparr>ip_addr := [10, 0, 0, 1], arp_table := Some (ex_neighbour # replicate 7 zero_entry)\<rparr>"

definition ex_socket :: "u16 \<Rightarrow> u16 \<Rightarrow> udp_port" where
  "ex_socket src dst = \<lparr>up_destport = dst, up_srcport = src, up_rxqueue = [], up_maxqueue = 2, up_inuse = True\<rparr>"

definition ex_receiver :: net_ctx where
  "ex_receiver = ex_ctx\<lparr>ipinfo := (ipinfo ex_ctx)\<lparr>ip_addr := [10, 0, 0, 2]\<rparr>, udpinfo := [ex_socket 69 0]\<rparr>"

lemma ex_sender_wf: "ip_wf ex_sender"
proof -
  have w: "waiting (ex_neighbour # replicate 7 zero_entry) = []" by (simp add: waiting_def ex_neighbour_def zero_entry_def)
  have c: "count (mset [1..<8]) x \<le> 1" for x :: nat using distinct_count_atmost_1[of "[1..<8 :: nat]"] by (metis distinct_upt le_refl zero_le)
  have d: "length (eb_data (if b = 0 then zero_buf 1 42 [1, 2, 3] else zero_buf 0 0 [])) = EB_DATA_SIZE" for b :: nat
    by (simp add: zero_buf_ok)
  have e: "arp_ent_ok ex_neighbour" "arp_ent_ok zero_entry" by (simp_all add: arp_ent_ok_def ex_neighbour_def zero_entry_def arp_consts enet_consts)
  have p: "\<forall>p \<in> set [dix_portal [8, 6] Cb_Arp 0, dix_portal [8, 0] Cb_Ip 0, zero_port, zero_port]. length (ep_proto p) = 8" by (simp add: dix_portal_def zero_port_def)
  show ?thesis
    using w c d e p by (simp add: ip_wf_def ip_bufs_def ex_sender_def fresh_ctx_def zero_ipi_def fresh_eth_def eth_wf_def dix_port_def dix_portal_def
        ex_ires_def enet_consts ETH_MAX_PORTS_def arp_consts)
qed

lemma udp_socket_to_socket_witness:
  "\<exists>ipi' fr ctx' c. udp_send [ex_socket 1024 69] ex_sender 0 0 [10, 0, 0, 2] = Some (0, ipi') \<and>
     eth_poll ex_receiver 1 (int (length (fr @ replicate 15 0)), fr @ replicate 15 0) = Some ctx' \<and>
     up_rxqueue (udpinfo ctx' ! 0) = [c] \<and> eb_view (eth_bufpool (ctx_eth ctx') c) = [1, 2, 3] \<and> eb_usrdata (eth_bufpool (ctx_eth ctx') c) = 1024"
proof -
  let ?b = "eth_bufpool (eth_info ex_sender) 0"
  have b: "?b = zero_buf 1 42 [1, 2, 3]" by (simp add: ex_sender_def fresh_ctx_def zero_ipi_def fresh_eth_def)
  have v: "eb_view ?b = [1, 2, 3]" "eb_ok ?b" "eb_port ?b = 1" "eb_ptr ?b = 42" unfolding b by (simp_all add: zero_buf_def eb_view_def eb_ok_def enet_consts)
  have s: "eth_ports (eth_info ex_sender) = [dix_portal [8, 6] Cb_Arp 0, dix_portal [8, 0] Cb_Ip 0, zero_port, zero_port]" "eth_hwaddr (eth_info ex_sender) = [2, 0, 0, 0, 0, 1]"
    "ip_addr ex_sender = [10, 0, 0, 1]" "ip_netmask ex_sender = replicate 4 0" "ip_gateway ex_sender = replicate 4 0"
    "arp_table ex_sender = Some (ex_neighbour # replicate 7 zero_entry)" "eth_freelist (eth_info ex_sender) = [1..<8]"
    by (simp_all add: ex_sender_def fresh_ctx_def zero_ipi_def fresh_eth_def ex_ires_def)
  have ao: "ip_addrs_ok ex_sender" using s by (simp add: ip_addrs_ok_def)
  have fr: "0 \<notin># ip_bufs ex_sender" using s by (simp add: ip_bufs_def waiting_def ex_neighbour_def zero_entry_def)
  have rd: "tx_ready (eth_info ex_sender) (IPHDR_LENGTH + UDP_HDR_LENGTH) 0" using v s by (simp add: tx_ready_def dix_port_def enet_consts ip_consts udp_consts ETH_MAX_PORTS_def dix_portal_def)
  have dir: "length [10, 0, 0, 2 :: u8] = 4" "ip_direct ex_sender [10, 0, 0, 2]" using s by (simp_all add: ip_direct_def ip_addrisbcast_def ip_addriszero_def replicate4)
  have idx: "arp_find_idx (ex_neighbour # replicate 7 zero_entry) [10, 0, 0, 2] 0 = Some 0" "ae_state ((ex_neighbour # replicate 7 zero_entry) ! 0) = ae_established"
    by (simp_all add: ex_neighbour_def zero_entry_def arp_consts)
  have port: "take 2 (ep_proto (eth_ports (eth_info ex_sender) ! nat (eb_port ?b))) = [8, 0]" using s v by (simp add: dix_portal_def)
  have hw: "eth_hwaddr (eth_info ex_sender) ! 0 AND 1 = 0" using s by simp
  have ports: "eth_ports (ctx_eth ex_receiver) = [dix_portal [8, 6] Cb_Arp 0, dix_portal [8, 0] Cb_Ip 0, zero_port, zero_port]" "eth_freelist (ctx_eth ex_receiver) \<noteq> []"
    "ip_protocols (ipinfo ex_receiver) ! 0 = \<lparr>pd_protocol = 17, pd_cb = Some Cb_Udp\<rparr>" "length (ip_protocols (ipinfo ex_receiver)) = 4"
    "ip_addr (ipinfo ex_receiver) = [10, 0, 0, 2]" "udpinfo ex_receiver = [ex_socket 69 0]"
    by (simp_all add: ex_receiver_def ex_ctx_def ctx_eth_def fresh_ctx_def zero_ipi_def fresh_eth_def eth_consts)
  have wf: "eth_wf (ctx_eth ex_receiver)" using ex_inv by (simp add: net_inv_def net_core_def ex_receiver_def ctx_eth_def ip_wf_def)
  have pr: "ip_find_proto (ip_protocols (ipinfo ex_receiver)) IPPROTO_UDP = Some Cb_Udp"
    using ports(3,4) by (cases "ip_protocols (ipinfo ex_receiver)") (simp_all add: ip_consts)
  have lis: "net_listens ex_receiver (up_destport ([ex_socket 1024 69] ! 0)) 0"
    using ports wf pr by (simp add: net_listens_def ip_frame_port_def port_takes_def dix_portal_def ex_socket_def udp_find_port_def)
  have len: "60 \<le> length (eb_view ?b) + length (replicate 15 (0 :: u8)) + 42" "length (eb_view ?b) + length (replicate 15 (0 :: u8)) + 42 \<le> ENET_MAX_PKT"
    using v by (simp_all add: enet_consts)
  have one: "(1 :: int) \<noteq> 0" by simp
  show ?thesis
    using udp_socket_to_socket[OF ex_sender_wf ao fr rd dir s(6) idx port hw lis ports(5) len one] v(1) ports(6)
    by (auto simp: ex_socket_def)
qed

section \<open>Echo messages\<close>

text \<open>C37: ip_rx_callback does not compare the length in the IP header with the length of the frame.  An echo request to this machine
  whose header states more than 1506 bytes, in a frame of any legal size, makes icmp_rx_callback copy past the end of the
  receive buffer (and of the transmit buffer): with two free buffers the poll leaves the memory of the model.\<close>

theorem ping_length_unchecked:
  assumes i: "net_inv ctx H" and fl: "eth_freelist (ctx_eth ctx) = b # tx # bs" and pr: "ip_find_proto (ip_protocols (ipinfo ctx)) IPPROTO_ICMP = Some Cb_Icmp"
    and port: "ip_frame_port (ctx_eth ctx) = Some p" "ep_rxcallback (eth_ports (ctx_eth ctx) ! p) = Some Cb_Ip"
    and hw: "length dhw = 6" "length shw = 6" "shw ! 0 AND 1 = 0" and src: "length src = 4"
    and fr: "fr = ip_frame dhw shw (ip_hdr n len IPPROTO_ICMP src (ip_addr (ipinfo ctx)) @ [8, 0] @ rest)"
    and l: "60 \<le> length fr" "length fr \<le> ENET_MAX_PKT" "1506 < len" "len < 2 ^ 16"
  shows "eth_poll ctx 1 (int (length fr), fr) = None"
proof -
  have c: "net_core ctx {#} H" using i by (simp add: net_inv_def)
  have dst: "length (ip_addr (ipinfo ctx)) = 4" using net_coreD(2)[OF c] by (simp add: ip_addrs_ok_def)
  have wf: "eth_wf (ctx_eth ctx)" using net_coreD(1)[OF c] by (simp add: ip_wf_def ctx_eth_def)
  define v where "v = ip_hdr n len IPPROTO_ICMP src (ip_addr (ipinfo ctx)) @ [8, 0] @ rest"
  note h = ip_hdr_accepts[OF src dst l(4) v_def]
  have frv: "fr = dhw @ shw @ [8, 0] @ v" using hw(1) unfolding v_def fr ip_frame_def by simp
  have dv: "drop 14 fr = v" using hw by (simp add: frv)
  have n6: "fr ! 6 = shw ! 0" "fr ! 12 = 8" "fr ! 13 = 0" using hw by (simp_all add: frv nth_append)
  have "first_port fr (eth_ports (ctx_eth ctx)) 0 = ip_frame_port (ctx_eth ctx)" unfolding ip_frame_port_def by (rule first_port_type) (simp_all add: n6)
  then have acc: "eth_accepts (ctx_eth ctx) fr = Some p" using port(1) l(1) n6(1) hw(3) by (simp add: eth_accepts_def)
  have ne: "fr \<noteq> []" "(1 :: int) \<noteq> 0" using l(1) by auto
  obtain e where e: "eth_receive (ctx_eth ctx) 1 (int (length fr), fr) = Some (Rx_Port b p, set_buf ((ctx_eth ctx)\<lparr>eth_freelist := tx # bs\<rparr>) b e)"
    "eb_ok e" "v = eb_view e" "eb_ptr e = 14"
    using eth_receive_ok[OF wf fl l(2) ne] acc dv by auto
  have lv: "20 \<le> length v" "22 \<le> length v" using ip_hdr_parts(1)[OF src dst] by (simp_all add: v_def)
  have hl: "ip_hl v \<le> length v" "ip_hl v \<le> ip_len v" using lv l(3) unfolding h by simp_all
  obtain f where f: "ip_rx_check (ip_addr (ipinfo ctx)) e = Some (f, Some (IPPROTO_ICMP, src, ip_addr (ipinfo ctx)))" "length (eb_data f) = EB_DATA_SIZE"
    "eb_ptr f = 34" "unat (eb_length f) = len - 20" "\<And>k. 12 \<le> k \<Longrightarrow> k < length v \<Longrightarrow> eb_load f (14 + int k) 1 = Some [v ! k]"
    using ip_rx_check_gen[OF e(2,3) lv(1) hl, of "ip_addr (ipinfo ctx)"] h e(4) by auto
  have v20: "v ! 20 = 8" "v ! 21 = 0" using h(7) lv(2) nth_drop[of 20 v 0] nth_drop[of 20 v 1] by simp_all
  have ld: "eb_load f (eb_ptr f) 1 = Some [8]" "eb_load f (eb_ptr f + 1) 1 = Some [0]"
    using f(5)[of 20] f(5)[of 21] lv(2) v20 f(3) by simp_all
  let ?ipi = "put_buf (set_eth (ipinfo ctx) (set_buf ((ctx_eth ctx)\<lparr>eth_freelist := tx # bs\<rparr>) b e)) b f"
  have al: "\<exists>ipi. ip_alloc ?ipi = (Some tx, ipi)" by (simp add: ip_alloc_def eth_alloc_def eth_deqfree_def Let_def)
  have over: "eb_load f (eb_ptr f) (unat (eb_length f)) = None" using f(2,3,4) l(3) by (simp add: eb_load_def enet_consts)
  have bp: "eth_bufpool (eth_info ?ipi) b = f" by simp
  have "icmp_rx_callback (icmpinfo ctx) ?ipi b (ip_addr (ipinfo ctx)) src = None"
    unfolding icmp_rx_callback_def Let_def bp ld bind.bind_lunit using al over by (auto simp: icmp_consts)
  then have "ip_rx_callback (set_ctx_eth ctx (set_buf ((ctx_eth ctx)\<lparr>eth_freelist := tx # bs\<rparr>) b e)) b = None"
    using f(1) pr by (simp add: ip_rx_callback_def set_ctx_eth_def ctx_eth_def set_eth_def put_buf_def)
  then show ?thesis using e(1) port(2) by (simp add: eth_poll_def eth_rxcallback_def)
qed

lemma ping_length_unchecked_witness:
  "eth_poll ex_ctx 1 (60, ip_frame [2, 0, 0, 0, 0, 1] [2, 0, 0, 0, 0, 9] (ip_hdr 1 2000 IPPROTO_ICMP [10, 0, 0, 9] [0, 0, 0, 0] @ [8, 0] @ replicate 24 0)) = None"
proof -
  let ?fr = "ip_frame [2, 0, 0, 0, 0, 1] [2, 0, 0, 0, 0, 9] (ip_hdr 1 2000 IPPROTO_ICMP [10, 0, 0, 9] (ip_addr (ipinfo ex_ctx)) @ [8, 0] @ replicate 24 0)"
  have a: "ip_addr (ipinfo ex_ctx) = [0, 0, 0, 0]" by (simp add: ex_ctx_def fresh_ctx_def zero_ipi_def replicate4)
  have fl: "eth_freelist (ctx_eth ex_ctx) = 0 # 1 # [2..<8]" by (simp add: ctx_eth_def ex_ctx_def fresh_ctx_def zero_ipi_def fresh_eth_def eth_consts upt_rec)
  have pr: "ip_find_proto (ip_protocols (ipinfo ex_ctx)) IPPROTO_ICMP = Some Cb_Icmp" by (simp add: ex_ctx_def fresh_ctx_def ip_consts)
  have port: "ip_frame_port (ctx_eth ex_ctx) = Some 1" "ep_rxcallback (eth_ports (ctx_eth ex_ctx) ! 1) = Some Cb_Ip"
    by (simp_all add: ctx_eth_def ex_ctx_def fresh_ctx_def zero_ipi_def fresh_eth_def ip_frame_port_def port_takes_def dix_portal_def)
  have l: "length ?fr = 60" using ip_hdr_parts(1)[of "[10, 0, 0, 9]" "[0, 0, 0, 0]" 1 2000 IPPROTO_ICMP] unfolding a by (simp add: ip_frame_def)
  have "eth_poll ex_ctx 1 (int (length ?fr), ?fr) = None"
    by (rule ping_length_unchecked[OF ex_inv fl pr port, where rest = "replicate 24 0" and len = 2000 and n = 1 and src = "[10, 0, 0, 9]"])
      (use l in \<open>simp_all add: enet_consts\<close>)
  then show ?thesis using l by (simp only: a of_nat_numeral)
qed

lemma ping_loop_freed:
  "icmp_ping_loop ctx ident seqno buf ps = Some (0, Some b, ctx') \<Longrightarrow> buf \<noteq> None \<longrightarrow> the buf \<in> set (eth_freelist (ctx_eth ctx)) \<Longrightarrow>
   b \<in> set (eth_freelist (ctx_eth ctx'))"
proof (induction ps arbitrary: ctx buf)
  case (Cons p ps)
  obtain ctx1 where p: "net_poll ctx p = Some ctx1" using Cons.prems(1) by (cases "net_poll ctx p") auto
  show ?case
  proof (cases "icmp_echoreplies (icmpinfo ctx1)")
    case Nil
    then have "icmp_ping_loop ctx1 ident seqno None ps = Some (0, Some b, ctx')" using Cons.prems(1) p by (simp add: icmp_deqreply_def)
    then show ?thesis using Cons.IH by simp
  next
    case (Cons c cs)
    then show ?thesis using Cons.prems(1) p Cons.IH
      by (auto simp: icmp_deqreply_def bind_eq_Some_conv Let_def ip_free_def ctx_eth_def split: if_splits)
  qed
qed simp

text \<open>When _icmp_ping times out and the last reply it looked at did not match, that buffer, which the loop has already freed,
  is freed again: the free list holds it twice afterwards.\<close>

theorem ping_double_free:
  assumes "icmp_ping_loop ctx ident seqno None ps = Some (0, Some b, ctx')"
  shows "2 \<le> count (mset (eth_freelist (ctx_eth (icmp_ping_done ctx' (Some b))))) b"
  using ping_loop_freed[OF assms] by (simp add: icmp_ping_done_def ctx_eth_def ip_free_def Suc_le_eq count_greater_zero_iff)

text \<open>A stale reply that is not one: an empty message.\<close>

definition ex_pinging :: net_ctx where
  "ex_pinging = ex_ctx\<lparr>ipinfo := set_eth (ipinfo ex_ctx) ((ctx_eth ex_ctx)\<lparr>eth_freelist := [1..<8]\<rparr>), icmpinfo := \<lparr>icmp_echoreplies = [0], icmp_maxreplies = 1\<rparr>\<rparr>"

lemma ping_double_free_witness:
  "\<exists>ctx'. icmp_ping_loop ex_pinging 7 1 None [(0, (0, []), False)] = Some (0, Some 0, ctx') \<and> 2 \<le> count (mset (eth_freelist (ctx_eth (icmp_ping_done ctx' (Some 0))))) 0"
proof -
  have b: "eth_bufpool (ctx_eth ex_pinging) 0 = zero_buf 0 0 []"
    by (simp add: ex_pinging_def ctx_eth_def ex_ctx_def fresh_ctx_def zero_ipi_def fresh_eth_def)
  have poll: "net_poll ex_pinging (0, (0, []), False) = Some ex_pinging"
    by (simp add: net_poll_def eth_poll_def eth_receive_def set_ctx_same)
  let ?ctx = "ex_pinging\<lparr>icmpinfo := (icmpinfo ex_pinging)\<lparr>icmp_echoreplies := []\<rparr>\<rparr>"
  have deq: "icmp_deqreply ex_pinging = (Some 0, ?ctx)" by (simp add: icmp_deqreply_def ex_pinging_def)
  have b': "eth_bufpool (ctx_eth ?ctx) 0 = zero_buf 0 0 []" using b by (simp add: ctx_eth_def)
  have m: "icmp_matches (zero_buf 0 0 []) 7 1 = Some (False, zero_buf 0 0 [])"
    by (simp add: icmp_matches_def ip_chksum_def ip_chksum_loop.simps ip_chksum_fold.simps zero_buf_def)
  obtain ctx' where c: "icmp_ping_loop ex_pinging 7 1 None [(0, (0, []), False)] = Some (0, Some 0, ctx')"
    by (simp add: poll deq b' m Let_def)
  show ?thesis using ping_double_free[OF c] c by blast
qed

section \<open>Address resolution\<close>

text \<open>C3: an ARP reply for this machine (with any padding) makes the address known: the packets that waited for it are sent to the
  Ethernet address of the sender, those of each entry in the order in which they were queued, their buffers go back to the free
  list, the entry is established for 60 ticks, and the other entries stay as they are.\<close>

theorem arp_reply_flushes:
  assumes wf: "ip_wf ipi" and b: "b \<notin># ip_bufs ipi" and ok: "eb_ok (eth_bufpool (eth_info ipi) b)" and t: "arp_table ipi = Some t"
    and v: "eb_view (eth_bufpool (eth_info ipi) b) = arp_msg ARP_OPCODE_REPLY hw ip thw (ip_addr ipi) @ pad"
    and l: "length hw = 6" "length ip = 4" "length thw = 6" "length (ip_addr ipi) = 4"
  shows "\<exists>ipi'. arp_rx_callback ipi b = Some (ETH_DROP, ipi') \<and> arp_table ipi' = Some (map (resolved hw ip) t) \<and>
    dev_out (eth_info ipi') = dev_out (eth_info ipi) @ concat (map (flushed (eth_info ipi) hw ip) t) \<and>
    (\<forall>ae \<in> set t. arp_match ip ae \<longrightarrow> set (ae_txqueue ae) \<subseteq> set (eth_freelist (eth_info ipi'))) \<and> ip_bufs ipi' = ip_bufs ipi"
proof -
  obtain ipi' where r: "arp_rx_callback ipi b = Some (ETH_DROP, ipi')" "held_step ipi ipi' {b} {#} (concat (map (flushed (eth_info ipi) hw ip) t))"
    "arp_table ipi' = Some (map (resolved hw ip) t)"
    using arp_rx_reply_step[OF wf b ok t v l] by blast
  have bufs: "ip_bufs ipi' = ip_bufs ipi" using r(2) by (simp add: held_step_def)
  have "x \<in> set (eth_freelist (eth_info ipi'))" if ae: "ae \<in> set t" "arp_match ip ae" "x \<in> set (ae_txqueue ae)" for ae x
  proof -
    have "x \<notin> set (waiting (map (resolved hw ip) t))"
    proof
      assume "x \<in> set (waiting (map (resolved hw ip) t))"
      then obtain ae' where ae': "ae' \<in> set t" "\<not> arp_match ip ae'" "x \<in> set (ae_txqueue ae')"
        by (auto simp: waiting_def resolved_def split: if_splits)
      obtain i j where ij: "i < length t" "t ! i = ae" "j < length t" "t ! j = ae'" using ae(1) ae'(1) by (auto simp: in_set_conv_nth)
      have "i \<noteq> j" using ij ae(2) ae'(2) by auto
      then show False using other_queue[of ipi t i j x] wf t ij ae(3) ae'(3) by (auto simp: ip_wf_def)
    qed
    moreover have "x \<in># ip_bufs ipi'" unfolding bufs using t ae by (auto simp: ip_bufs_def waiting_def)
    ultimately show ?thesis using r(3) by (simp add: ip_bufs_def)
  qed
  then show ?thesis using r bufs by (auto simp: held_step_def)
qed

lemma aged_queue: "ae_txqueue ((aged ^^ n) ae) = ae_txqueue ae \<or> ae_txqueue ((aged ^^ n) ae) = []"
proof (induction n)
  case (Suc n)
  have "ae_txqueue (aged a) = ae_txqueue a \<or> ae_txqueue (aged a) = []" for a
    by (auto simp: aged_def deleted_def Let_def split: arpstate.splits)
  from this[of "(aged ^^ n) ae"] show ?case using Suc by auto
qed simp

text \<open>C12: a query that is never answered is repeated and then given up.  When a buffer is free, each tick writes to the driver the
  queries of exactly those entries that ask, in the order of the table, and the entry with \<open>r\<close> retries left asks in the next
  \<open>r\<close> ticks and in no later one; with one tick more it is unused again, and the buffers of the packets that waited for it are
  on the free list, whatever the other entries do.\<close>

theorem arp_query_given_up:
  assumes wf: "ip_wf ipi" and t: "arp_table ipi = Some t" and i: "i < ARP_TABLE_SIZE" and ae: "ae_state (t ! i) = ae_arping" "ae_timer (t ! i) = 1" "ae_retries (t ! i) = int r"
    and fl: "eth_freelist (eth_info ipi) \<noteq> []"
  shows "\<exists>ipi'. tick_times (Suc r) ipi = Some ipi' \<and>
    dev_out (eth_info ipi') = dev_out (eth_info ipi) @ concat (map (\<lambda>k. concat (map (\<lambda>ae. asked ipi ((aged ^^ k) ae)) t)) [0..<Suc r]) \<and>
    (\<forall>k. asked ipi ((aged ^^ k) (t ! i)) = (if k < r then [arp_query_frame ipi (ae_ipaddr (t ! i))] else [])) \<and>
    ae_state (the (arp_table ipi') ! i) = ae_unused \<and> set (ae_txqueue (t ! i)) \<subseteq> set (eth_freelist (eth_info ipi'))"
proof -
  obtain ipi' where r: "tick_times (Suc r) ipi = Some ipi'"
      "arp_step ipi ipi' {#} (concat (map (\<lambda>k. concat (map (\<lambda>ae. asked ipi ((aged ^^ k) ae)) t)) [0..<Suc r]))" "arp_table ipi' = Some (map (aged ^^ Suc r) t)"
    using tick_times_step[OF wf t, of "Suc r"] fl by blast
  have ask: "\<forall>k. asked ipi ((aged ^^ k) (t ! i)) = (if k < r then [arp_query_frame ipi (ae_ipaddr (t ! i))] else [])"
    using arping_asks[OF ae] by (simp add: asked_def)
  have dev: "dev_out (eth_info ipi') = dev_out (eth_info ipi) @ concat (map (\<lambda>k. concat (map (\<lambda>ae. asked ipi ((aged ^^ k) ae)) t)) [0..<Suc r])"
    using r(2) by (simp add: arp_step_def)
  have len: "length t = ARP_TABLE_SIZE" using wf t by (simp add: ip_wf_def)
  have un: "ae_state ((aged ^^ Suc r) (t ! i)) = ae_unused" by (rule arping_gives_up[OF ae])
  have "\<forall>ae \<in> set (map (aged ^^ Suc r) t). arp_ent_ok ae" using arp_step_wf[OF r(2)] unfolding ip_wf_def r(3) by simp
  moreover have "t ! i \<in> set t" using i len by simp
  ultimately have "arp_ent_ok ((aged ^^ Suc r) (t ! i))" by simp
  then have q: "ae_txqueue ((aged ^^ Suc r) (t ! i)) = []" using un by (simp add: arp_ent_ok_def)
  have "x \<in> set (eth_freelist (eth_info ipi'))" if x: "x \<in> set (ae_txqueue (t ! i))" for x
  proof -
    have "x \<notin> set (waiting (map (aged ^^ Suc r) t))"
    proof
      assume "x \<in> set (waiting (map (aged ^^ Suc r) t))"
      then obtain ae where ae: "ae \<in> set t" "x \<in> set (ae_txqueue ((aged ^^ Suc r) ae))" by (auto simp: waiting_def simp del: funpow.simps)
      obtain j where "j < length t" "t ! j = ae" using ae(1) by (auto simp: in_set_conv_nth)
      then have j: "j < length t" "x \<in> set (ae_txqueue ((aged ^^ Suc r) (t ! j)))" using ae(2) by simp_all
      then have "j \<noteq> i" "x \<in> set (ae_txqueue (t ! j))" using q aged_queue[of "Suc r" "t ! j"] by auto
      then show False using other_queue[of ipi t i j x] wf t i len j(1) x by (auto simp: ip_wf_def)
    qed
    moreover have "x \<in># ip_bufs ipi'" using r(2) t x i len queue_waiting[of i t x] by (simp add: arp_step_def ip_bufs_def)
    ultimately show ?thesis using r(3) by (simp add: ip_bufs_def)
  qed
  then have "set (ae_txqueue (t ! i)) \<subseteq> set (eth_freelist (eth_info ipi'))" by blast
  moreover have "ae_state (the (arp_table ipi') ! i) = ae_unused" using r(3) un i len by (simp del: funpow.simps)
  ultimately show ?thesis using r(1) dev ask by blast
qed

text \<open>C38: an entry made permanent (timer 0, which arp_tick leaves alone) stays as it is for any number of ticks as long as it is not
  used; but sending one packet to it starts its timer, because arp_find_entry does not look at the permanent flag, and 60 ticks
  later the entry is gone.\<close>

theorem arp_permanent_lost:
  assumes wf: "ip_wf ipi" and t: "arp_table ipi = Some t" and f: "arp_find_idx t dest 0 = Some i"
    and ae: "ae_state (t ! i) = ae_established" "ae_timer (t ! i) = 0" and b: "b \<notin># ip_bufs ipi" and rd: "tx_ready (eth_info ipi) 0 b"
  shows "(\<forall>n. \<exists>ipi'. tick_times n ipi = Some ipi' \<and> the (arp_table ipi') ! i = t ! i) \<and>
    (\<exists>ipi1 ipi2. arp_lookup_and_send ipi b dest = Some (0, ipi1) \<and> tick_times 60 ipi1 = Some ipi2 \<and> ae_state (the (arp_table ipi2) ! i) = ae_unused)"
proof
  have i: "i < length t" using arp_find_idx_Some[OF f] by simp
  show "\<forall>n. \<exists>ipi'. tick_times n ipi = Some ipi' \<and> the (arp_table ipi') ! i = t ! i"
  proof
    fix n
    obtain ipi' out where "tick_times n ipi = Some ipi'" "arp_table ipi' = Some (map (aged ^^ n) t)" using tick_times_step[OF wf t] by blast
    then show "\<exists>ipi'. tick_times n ipi = Some ipi' \<and> the (arp_table ipi') ! i = t ! i" using permanent_stays[OF ae] i by simp
  qed
  let ?ae = "(t ! i)\<lparr>ae_timer := ARP_KEEP_TIMER, ae_usage := ae_usage (t ! i) + 1\<rparr>"
  obtain ipi1 where s: "arp_lookup_and_send ipi b dest = Some (0, ipi1)" "arp_step ipi ipi1 {#b#} [eth_packet (eth_info ipi) b (ae_ethaddr (t ! i))]"
    "arp_table ipi1 = Some (t[i := ?ae])"
    using lookup_send_established[OF wf t f ae(1) b rd] by blast
  obtain ipi2 out where r: "tick_times 60 ipi1 = Some ipi2" "arp_table ipi2 = Some (map (aged ^^ 60) (t[i := ?ae]))"
    using tick_times_step[OF arp_step_wf[OF s(2)] s(3)] by blast
  have "ae_state ((aged ^^ 60) ?ae) = ae_unused" using established_expires[of ?ae] ae(1) by (simp add: arp_consts)
  then show "\<exists>ipi1 ipi2. arp_lookup_and_send ipi b dest = Some (0, ipi1) \<and> tick_times 60 ipi1 = Some ipi2 \<and> ae_state (the (arp_table ipi2) ! i) = ae_unused"
    using s(1) r i by auto
qed

text \<open>A machine that waits for the address of 10.0.0.2 with one packet, and one that knows it for good.\<close>

definition ex_waiting :: ip_info where
  "ex_waiting = ex_sender\<lparr>arp_table := Some (ex_neighbour\<lparr>ae_state := ae_arping, ae_timer := 1, ae_retries := 4, ae_txqueue := [0]\<rparr> # replicate 7 zero_entry)\<rparr>"

definition ex_permanent :: ip_info where
  "ex_permanent = ex_sender\<lparr>arp_table := Some (ex_neighbour\<lparr>ae_timer := 0, ae_permanent := True\<rparr> # replicate 7 zero_entry)\<rparr>"

lemma ex_sender_buf: "eth_bufpool (eth_info ex_sender) 0 = zero_buf 1 42 [1, 2, 3]" "eth_freelist (eth_info ex_sender) = [1..<8]"
  "eth_ports (eth_info ex_sender) = [dix_portal [8, 6] Cb_Arp 0, dix_portal [8, 0] Cb_Ip 0, zero_port, zero_port]" "ip_addr ex_sender = [10, 0, 0, 1]"
  by (simp_all add: ex_sender_def fresh_ctx_def zero_ipi_def fresh_eth_def)

lemma ex_sender_ready: "tx_ready (eth_info ex_sender) 0 0"
  by (simp add: ex_sender_buf tx_ready_def zero_buf_def eb_ok_def dix_port_def dix_portal_def enet_consts ETH_MAX_PORTS_def)

lemma ex_table_wf:
  assumes "arp_ent_ok ae" "mset (ae_txqueue ae) \<subseteq># {#0#}"
  shows "ip_wf (ex_sender\<lparr>arp_table := Some (ae # replicate 7 zero_entry)\<rparr>)"
proof -
  have q: "ae_txqueue ae = [] \<or> ae_txqueue ae = [0]" using assms(2) by (cases "ae_txqueue ae") (auto simp: insert_subset_eq_iff)
  have z: "waiting (replicate 7 zero_entry) = []" "arp_ent_ok zero_entry" by (simp_all add: waiting_def zero_entry_def arp_ent_ok_def)
  have w: "waiting (ae # replicate 7 zero_entry) = ae_txqueue ae" using z(1) by (simp add: waiting_def)
  have c: "count (mset [0..<8]) x \<le> 1" for x :: nat using distinct_count_atmost_1[of "[0..<8 :: nat]"] by (metis distinct_upt le_refl zero_le)
  have m: "mset [1..<8] + mset (ae_txqueue ae) \<subseteq># mset [0..<8 :: nat]" using q by (auto simp: upt_rec)
  have u: "count (mset [1..<8] + mset (ae_txqueue ae)) x \<le> 1" for x
    using mset_subset_eq_count[OF m, of x] c[of x] by linarith
  show ?thesis using ex_sender_wf assms(1) z(2) w q ex_sender_ready u
    by (auto simp: ip_wf_def ip_bufs_def ex_sender_buf arp_consts simp del: count_union)
qed

lemma ex_waiting_wf: "ip_wf ex_waiting"
  unfolding ex_waiting_def by (rule ex_table_wf) (simp_all add: arp_ent_ok_def ex_neighbour_def zero_entry_def arp_consts)

lemma ex_permanent_wf: "ip_wf ex_permanent"
  unfolding ex_permanent_def by (rule ex_table_wf) (simp_all add: arp_ent_ok_def ex_neighbour_def zero_entry_def arp_consts enet_consts)

lemma arp_query_given_up_witness:
  "\<exists>ipi'. tick_times 5 ex_waiting = Some ipi' \<and> dev_out (eth_info ipi') = dev_out (eth_info ex_waiting) @ replicate 4 (arp_query_frame ex_waiting [10, 0, 0, 2]) \<and>
     ae_state (the (arp_table ipi') ! 0) = ae_unused \<and> 0 \<in> set (eth_freelist (eth_info ipi'))"
proof -
  let ?ae = "ex_neighbour\<lparr>ae_state := ae_arping, ae_timer := 1, ae_retries := 4, ae_txqueue := [0]\<rparr>"
  have t: "arp_table ex_waiting = Some (?ae # replicate 7 zero_entry)" by (simp add: ex_waiting_def)
  have fl: "eth_freelist (eth_info ex_waiting) \<noteq> []" by (simp add: ex_waiting_def ex_sender_buf)
  have z: "asked ex_waiting ((aged ^^ k) zero_entry) = []" for k
  proof -
    have "(aged ^^ k) zero_entry = zero_entry" by (induction k) (simp_all add: aged_def zero_entry_def)
    then show ?thesis by (simp add: asked_def asks_def zero_entry_def)
  qed
  let ?t = "?ae # replicate 7 zero_entry"
  have p: "0 < ARP_TABLE_SIZE" "ae_state (?t ! 0) = ae_arping" "ae_timer (?t ! 0) = 1" "ae_retries (?t ! 0) = int 4" "ae_txqueue (?t ! 0) = [0]" "ae_ipaddr (?t ! 0) = [10, 0, 0, 2]"
    by (simp_all add: arp_consts ex_neighbour_def)
  obtain ipi' where r: "tick_times (Suc 4) ex_waiting = Some ipi'"
      "dev_out (eth_info ipi') = dev_out (eth_info ex_waiting) @ concat (map (\<lambda>k. concat (map (\<lambda>ae. asked ex_waiting ((aged ^^ k) ae)) ?t)) [0..<Suc 4])"
      "\<forall>k. asked ex_waiting ((aged ^^ k) (?t ! 0)) = (if k < 4 then [arp_query_frame ex_waiting (ae_ipaddr (?t ! 0))] else [])"
      "ae_state (the (arp_table ipi') ! 0) = ae_unused" "set (ae_txqueue (?t ! 0)) \<subseteq> set (eth_freelist (eth_info ipi'))"
    using arp_query_given_up[OF ex_waiting_wf t p(1-4) fl] by blast
  let ?q = "arp_query_frame ex_waiting [10, 0, 0, 2]"
  have k: "concat (map (\<lambda>ae. asked ex_waiting ((aged ^^ k) ae)) ?t) = (if k < 4 then [?q] else [])" for k
    using r(3) p(6) by (simp add: z map_replicate_const)
  have "concat (map (\<lambda>k. if k < 4 then [?q] else []) [0..<Suc 4]) = replicate 4 ?q" by (simp add: upt_rec numeral_nat)
  then show ?thesis using r(1,2,4,5) p(5) unfolding k by auto
qed

text \<open>The reply is in buffer 9 of the receiver.\<close>

definition ex_answered :: ip_info where
  "ex_answered = put_buf ex_waiting 9 (zero_buf 0 14 (arp_msg ARP_OPCODE_REPLY [2, 0, 0, 0, 0, 2] [10, 0, 0, 2] (replicate 6 0) [10, 0, 0, 1]))"

lemma arp_reply_flushes_witness:
  "\<exists>ipi'. arp_rx_callback ex_answered 9 = Some (ETH_DROP, ipi') \<and> length (dev_out (eth_info ipi')) = length (dev_out (eth_info ex_answered)) + 1 \<and>
     0 \<in> set (eth_freelist (eth_info ipi'))"
proof -
  let ?m = "arp_msg ARP_OPCODE_REPLY [2, 0, 0, 0, 0, 2] [10, 0, 0, 2] (replicate 6 0) [10, 0, 0, 1]"
  let ?ae = "ex_neighbour\<lparr>ae_state := ae_arping, ae_timer := 1, ae_retries := 4, ae_txqueue := [0]\<rparr>"
  have lm: "length ?m = 28" by (simp add: arp_msg_def)
  have z: "length (eb_data (zero_buf 0 14 ?m)) = EB_DATA_SIZE" using lm by (simp add: zero_buf_ok)
  have nb: "9 \<notin># ip_bufs ex_waiting" by (simp add: ex_waiting_def ip_bufs_def ex_sender_buf waiting_def zero_entry_def)
  have wf: "ip_wf ex_answered" unfolding ex_answered_def by (rule held_step_wf[OF put_buf_step[OF ex_waiting_wf nb z]])
  have b: "9 \<notin># ip_bufs ex_answered" using nb by (simp add: ex_answered_def ip_bufs_def)
  have t: "arp_table ex_answered = Some (?ae # replicate 7 zero_entry)" by (simp add: ex_answered_def ex_waiting_def)
  have buf: "eth_bufpool (eth_info ex_answered) 9 = zero_buf 0 14 ?m" by (simp add: ex_answered_def)
  have l32: "unat (of_nat (length ?m) :: u32) = 28" unfolding lm by simp
  have ok: "eb_ok (eth_bufpool (eth_info ex_answered) 9)" unfolding buf using z l32 by (simp add: eb_ok_def zero_buf_def enet_consts)
  have ip: "ip_addr ex_answered = [10, 0, 0, 1]" by (simp add: ex_answered_def ex_waiting_def ex_sender_buf)
  have v: "eb_view (eth_bufpool (eth_info ex_answered) 9) = arp_msg ARP_OPCODE_REPLY [2, 0, 0, 0, 0, 2] [10, 0, 0, 2] (replicate 6 0) (ip_addr ex_answered) @ []"
    unfolding buf ip using l32 lm by (simp add: eb_view_def zero_buf_def)
  have m: "arp_match [10, 0, 0, 2] ?ae" "\<not> arp_match [10, 0, 0, 2] zero_entry" by (simp_all add: arp_match_def ex_neighbour_def zero_entry_def arp_consts)
  have "\<exists>ipi'. arp_rx_callback ex_answered 9 = Some (ETH_DROP, ipi') \<and> arp_table ipi' = Some (map (resolved [2, 0, 0, 0, 0, 2] [10, 0, 0, 2]) (?ae # replicate 7 zero_entry)) \<and>
    dev_out (eth_info ipi') = dev_out (eth_info ex_answered) @ concat (map (flushed (eth_info ex_answered) [2, 0, 0, 0, 0, 2] [10, 0, 0, 2]) (?ae # replicate 7 zero_entry)) \<and>
    (\<forall>ae \<in> set (?ae # replicate 7 zero_entry). arp_match [10, 0, 0, 2] ae \<longrightarrow> set (ae_txqueue ae) \<subseteq> set (eth_freelist (eth_info ipi'))) \<and> ip_bufs ipi' = ip_bufs ex_answered"
    by (rule arp_reply_flushes[OF wf b ok t v]) (simp_all add: ip)
  then show ?thesis using m by (auto simp: flushed_def map_replicate_const)
qed

lemma arp_permanent_lost_witness:
  "(\<exists>ipi'. tick_times 100 ex_permanent = Some ipi' \<and> ae_state (the (arp_table ipi') ! 0) = ae_established) \<and>
   (\<exists>ipi1 ipi2. arp_lookup_and_send ex_permanent 0 [10, 0, 0, 2] = Some (0, ipi1) \<and> tick_times 60 ipi1 = Some ipi2 \<and> ae_state (the (arp_table ipi2) ! 0) = ae_unused)"
proof -
  let ?ae = "ex_neighbour\<lparr>ae_timer := 0, ae_permanent := True\<rparr>"
  have t: "arp_table ex_permanent = Some (?ae # replicate 7 zero_entry)" by (simp add: ex_permanent_def)
  have f: "arp_find_idx (?ae # replicate 7 zero_entry) [10, 0, 0, 2] 0 = Some 0" by (simp add: ex_neighbour_def arp_consts)
  have ae: "ae_state ((?ae # replicate 7 zero_entry) ! 0) = ae_established" "ae_timer ((?ae # replicate 7 zero_entry) ! 0) = 0" by (simp_all add: ex_neighbour_def)
  have b: "0 \<notin># ip_bufs ex_permanent" by (simp add: ex_permanent_def ip_bufs_def ex_sender_buf waiting_def zero_entry_def ex_neighbour_def)
  have rd: "tx_ready (eth_info ex_permanent) 0 0" using ex_sender_ready by (simp add: ex_permanent_def)
  note p = arp_permanent_lost[OF ex_permanent_wf t f ae b rd]
  obtain ipi' where "tick_times 100 ex_permanent = Some ipi'" "the (arp_table ipi') ! 0 = ?ae" using p by fastforce
  then show ?thesis using p by (auto simp: ex_neighbour_def)
qed

section \<open>The checksum\<close>

lemma ones_cong: "ones a = ones b \<Longrightarrow> (a = 0 \<longleftrightarrow> b = 0) \<and> int a mod 65535 = int b mod 65535"
proof (cases "a = 0 \<or> b = 0")
  case False
  assume "ones a = ones b"
  then have "(a - 1) mod 65535 = (b - 1) mod 65535" using False by (simp add: ones_def)
  then have "(a - 1 + 1) mod 65535 = (b - 1 + 1) mod 65535" by (metis mod_add_left_eq)
  then show ?thesis using False by (metis Suc_eq_plus1 Suc_pred' neq0_conv zmod_int of_nat_numeral)
qed (auto simp: ones_def split: if_splits)

text \<open>C13: ip_chksum, which adds words in 32 bits and folds the carries afterwards, computes the one's complement sum of the words
  of any area that fits in a packet, also when it starts from an earlier sum; so a change of one word that is not between 0 and
  0xFFFF is always seen.\<close>

theorem ip_chksum_detects:
  assumes even: "even (length xs)" and len: "length xs + length ys + 2 \<le> 65535"
    and ne: "256 * unat h + unat l \<noteq> 256 * unat h' + unat l'" and zero: "(256 * unat h + unat l, 256 * unat h' + unat l') \<notin> {(0, 65535), (65535, 0)}"
  shows "ip_chksum c (rd_bytes (xs @ h # l # ys)) (int (length xs + length ys + 2)) = Some (of_nat (ones (unat c + wsum (xs @ h # l # ys)))) \<and>
    ip_chksum c (rd_bytes (xs @ h # l # ys)) (int (length xs + length ys + 2)) \<noteq> ip_chksum c (rd_bytes (xs @ h' # l' # ys)) (int (length xs + length ys + 2))"
proof -
  have ck: "ip_chksum c (rd_bytes (xs @ a # b # ys)) (int (length xs + length ys + 2)) = Some (of_nat (ones (unat c + wsum (xs @ a # b # ys))))" for a b
    using ip_chksum_bytes[of "xs @ a # b # ys" c] len by (simp add: ac_simps)
  define r where "r = unat c + wsum xs + wsum ys"
  define w w' where "w = 256 * unat h + unat l" and "w' = 256 * unat h' + unat l'"
  have s: "unat c + wsum (xs @ h # l # ys) = r + w" "unat c + wsum (xs @ h' # l' # ys) = r + w'"
    using even by (simp_all add: wsum_append r_def w_def w'_def)
  have b: "w \<le> 65535" "w' \<le> 65535" using unat_less_2p[of h] unat_less_2p[of l] unat_less_2p[of h'] unat_less_2p[of l'] by (simp_all add: w_def w'_def)
  have "ones (r + w) \<noteq> ones (r + w')"
  proof
    assume "ones (r + w) = ones (r + w')"
    then have "int (r + w) mod 65535 = int (r + w') mod 65535" using ones_cong by blast
    then have "65535 dvd int w - int w'" by (simp add: mod_eq_dvd_iff)
    then obtain k where k: "int w - int w' = 65535 * k" by (auto simp: dvd_def)
    have "w \<noteq> w'" using ne by (simp add: w_def w'_def)
    then have "k \<noteq> 0" using k by auto
    moreover have "k \<le> 1" "-1 \<le> k" using k b by linarith+
    ultimately have "k = 1 \<or> k = -1" by linarith
    then have "w = 65535 \<and> w' = 0 \<or> w = 0 \<and> w' = 65535" using k b by auto
    then show False using zero unfolding w_def[symmetric] w'_def[symmetric] by auto
  qed
  then have "(of_nat (ones (r + w)) :: u16) \<noteq> of_nat (ones (r + w'))" by (metis unat_ones16)
  then show ?thesis unfolding ck s by simp
qed

lemma ip_chksum_detects_witness:
  "ip_chksum 0 (rd_bytes [0x45, 0, 0, 0x1c, 7]) 5 \<noteq> ip_chksum 0 (rd_bytes [0x45, 0, 0, 0x1d, 7]) 5"
  by (rule conjunct2[OF ip_chksum_detects[of "[0x45, 0]" "[7]" 0 "0x1c" 0 "0x1d" 0, simplified]])

end
