(* ===== verification/Spec2Isabelle.thy ===== *)
theory Spec2Isabelle
  imports Linux_Timer Bcm_Crc Pktq Bcm_Misc Nvram Cfe_Arena Cfe_Malloc Cfe_Qsort Cfe_Env Nvparse_Convert Hnd_Dma_Api Hnd_Dma_Attach Cfe_Tcpbuf Cfe_Net_Props
begin

text \<open>
  A verification library for the firmware sources of a Broadcom based ASUS wireless router
  (src/broadcom/src): the C library shared by boot loader, drivers and router programs (shared/,
  include/), the NVRAM variable store, the CFE boot loader (cfe/cfe/) and the router programs' own
  library (router/shared/).

  \<^bold>\<open>How the parts interact.\<close>  The boot loader finds the memory of the board and describes it in an arena,
  allocates from a pool, reads its environment from the NVRAM device, orders the PCI windows with qsort, talks
  to the network by polling its Ethernet device, and starts the kernel.  The kernel keeps the NVRAM variables in a hash table that is loaded from a CRC
  protected flash image and committed to it.  Drivers move frames between the wire, the DMA rings and
  precedence queues.  The router programs read and write their configuration as NVRAM variables, convert the
  variables of older releases at start-up, and run user space timers.

  \<^bold>\<open>Theories and sources.\<close>

  \<^item> \<open>Prelude\<close>, \<open>Cstring\<close>, \<open>Libc\<close>: machine types, facts on lists, words and pointer chains; C strings as
    character lists; the C library functions the router programs call (strsep, atoi, strtoul, inet_aton,
    inet_ntoa, snprintf, the foreach macro of shutils.h).  Undefined behaviour is a value of \<open>fault\<close>.
  \<^item> \<open>Bcm_Crc\<close>: the CRC routines of shared/bcmutils.c.  The table driven loops, and the word loop of the MIPS
    build, compute polynomial division; a burst within the width of the CRC is always detected.
  \<^item> \<open>Pktq\<close>: the precedence queue of bcmutils.c over an explicit store of link fields.  Each operation refines
    one on a vector of lists; dequeueing drains in strict priority order.
  \<^item> \<open>Bcm_Str\<close>, \<open>Bcm_Misc\<close>: the string, number, MAC address, variable and GPIO functions of bcmutils.c; TLV
    walking, packet chains, priorities, units.  Loops that would read behind a buffer return None.
  \<^item> \<open>Hnd_Dma\<close>: the DMA module shared/hnddma.c for its 32-bit and its 64-bit engine.  \<open>Hnd_Dma_Ring\<close> shows that
    the transmit ring is a queue (locale \<open>tx_engine\<close> states what the ring code needs of an engine, interpreted on
    both), \<open>Hnd_Dma_Rotate\<close> the shift of its entries (locale \<open>rot_engine\<close>), \<open>Hnd_Dma_Rx\<close> the receive ring (locale
    \<open>rx_engine\<close>), \<open>Hnd_Dma_Attach\<close> the memory of attach and detach and the place of the rings.  \<open>Hnd_Dma_Api\<close> has the
    properties: packets are freed once and in order, every DMA mapping of an address without extension is undone, no
    frame reaches behind its buffer.
  \<^item> \<open>Var_Store\<close>: the locale \<open>var_store\<close>, the contract of a store of variables; interpreted by \<open>Nvram\<close> (the hash
    table of shared/nvram/nvram.c, its flash image, nvram_rw.c with the commit as the boot loader builds it) and by \<open>Cfe_Env\<close> (cfe/main/env_subr.c and
    nvram_subr.c).  Both have a round trip through their stored form.
  \<^item> \<open>Cfe_Queue\<close>, \<open>Cfe_Arena\<close>, \<open>Cfe_Malloc\<close>, \<open>Cfe_String\<close>, \<open>Cfe_Qsort\<close>: the libraries of cfe/lib
    (lib_queue.c, lib_arena.c, lib_malloc.c, lib_string.c, lib_string2.c, lib_misc.c, lib_qsort.c).  The
    sort is proved for every order (locale \<open>comparator\<close>) and used for the PCI windows of cfe/pci/pciconf.c.
  \<^item> \<open>Cfe_Ebuf\<close>, \<open>Cfe_Ether\<close>, \<open>Cfe_Arp\<close>, \<open>Cfe_Ip\<close>, \<open>Cfe_Ipsum\<close>, \<open>Cfe_Udp\<close>, \<open>Cfe_Net\<close>: the boot loader's network
    stack of cfe/net, layer by layer: the packet buffers of net_ebuf.h, the portals of net_ether.c, the table of
    net_arp.c, net_ip.c with its checksum, net_udp.c and net_icmp.c, and the poll routine and the interface of
    net_api.c.  A buffer is a number into the pool, its pointer an offset; the device is the log of frames and the
    frames read, the clock the sequence of polls.  The source address that a received datagram keeps is a pointer to a stack
    array that is gone, so it is only a token.  \<open>Cfe_Arp_Step\<close>, \<open>Cfe_Ip_Step\<close>, \<open>Cfe_Net_Step\<close> say what each operation
    does to buffers, table and wire; \<open>Cfe_Net_Inv\<close> keeps the invariant, that every buffer is in one place;
    \<open>Cfe_Net_Reach\<close> is the step relation of polls and calls (with the ping routine, but for the one way in which it frees
    a buffer twice), and \<open>Cfe_Net_Props\<close> has the properties.
  \<^item> \<open>Cfe_Tcpbuf\<close>: the modulo buffer of cfe/net/net_tcpbuf.c gives the results of a bounded queue of bytes in every
    sequence of calls (locale \<open>byte_fifo\<close>).
  \<^item> \<open>Linux_Timer\<close>: the delta queue of shared/linux_timer.c with its freelist and alarm handler, whose callbacks are a
    parameter that may change the timers.
  \<^item> \<open>Nvparse\<close>, \<open>Nvparse_Convert\<close>: router/shared/nvparse.c.  Port forwards, client filters, WDS links as text in
    NVRAM variables, over the store of \<open>Nvram\<close>; the locales \<open>entry_list\<close> and \<open>entry_store\<close> state what a
    numbered list of entries promises to the conversions.  The conversion of deprecated variables ends, leaves
    none of them defined, and is idempotent.

  \<^bold>\<open>State and errors.\<close>  A C structure is a record, a pointer into a string is the suffix it points to, linked
  structures are maps of links, memory that may run out is a list of the failures to come.  Reads and
  writes outside a buffer, failed assertions, format faults and loops that do not end are values of the result
  type, so that a theorem about a result also says that none of them happened.

  \<^bold>\<open>Bounds and fuel.\<close>  Two groups of definitions are bounded by fuel: the address parser (four parts at most, as the
  code), and the pointer walks of \<open>Linux_Timer\<close> (\<open>march\<close>, \<open>cancel_walk\<close>, \<open>cancel_all_walk\<close> and the rounds of the alarm
  handler), where running out is the error \<open>No_fuel\<close>.  A walk takes one unit for each event of the queue, and the
  theorems hold for all fuel above the length of the queue and say that the operation returns.  The other loops
  whose end depends on data are \<open>partial_function (option)\<close> or functions with a measure: the quicksort with its stack, the
  search for a free entry (it ends because the store is finite), the search for a free port, the reclaim loops of the DMA rings.
  The loops that wait for the clock or a packet get the polls they make as a list.

  \<^bold>\<open>Not modelled.\<close>  The Linux kernel, the tool chain, busybox, iptables, ppp and the other programs taken over
  from elsewhere; the binary wireless and Ethernet drivers; the Sonics backplane and flash drivers, whose
  behaviour is that of hardware registers; the boot loader's user interface, TCP (not compiled for this board), its
  DHCP, DNS and TFTP clients, USB and x86 emulator; the closing of the network device and the release of its memory (eth_uninit); the web server and the rc programs, which mostly run other programs; printing of diagnostics.
\<close>

end
